(* ===== verification/Prelude.thy ===== *)
theory Prelude
  imports Main "HOL-Library.Word" "HOL-Library.Monad_Syntax"
begin

unbundle bit_operations_syntax

text \<open>
  Shared vocabulary of the development.

  Machine integers. A Rust \<open>u64\<close>, \<open>u32\<close>, \<open>u16\<close>, \<open>u8\<close> is a word of that width. A signed
  \<open>i32\<close>/\<open>i64\<close> that the code only compares, indexes with or stores is an \<^typ>\<open>int\<close>; where the
  code does arithmetic on it, the wrap-around of the release build is written out with
  \<open>wrap64\<close>. The modelled build is the release profile: \<open>debug_assert!\<close> is compiled out and
  shifts reduce their amount modulo the width, while \<open>assert!\<close>, array indexing and
  \<open>Option::expect\<close> still panic.

  Panics. An operation that can panic returns an option: \<^term>\<open>None\<close> is the panic, and a
  later operation of the same call is not executed. A Rust \<open>Result<T, E>\<close> is a sum with
  \<^term>\<open>Inl\<close> for \<open>Err\<close> and \<^term>\<open>Inr\<close> for \<open>Ok\<close>. A fixed-size array is a function on
  \<^typ>\<open>nat\<close> together with the bound check \<open>ix\<close> that every access goes through.
\<close>

section \<open>Machine integers\<close>

type_synonym u8 = "8 word"
type_synonym u16 = "16 word"
type_synonym u32 = "32 word"
type_synonym u64 = "64 word"

definition wrap64 :: "int \<Rightarrow> int" where
  "wrap64 x = signed_take_bit 63 x"

definition i64_range :: "int \<Rightarrow> bool" where
  "i64_range x \<longleftrightarrow> - (2 ^ 63) \<le> x \<and> x < 2 ^ 63"

lemma wrap64_id: "i64_range x \<Longrightarrow> wrap64 x = x"
  by (simp add: wrap64_def i64_range_def signed_take_bit_int_eq_self)

lemma wrap64_range: "i64_range (wrap64 x)"
  using signed_take_bit_int_greater_eq_minus_exp [of 63 x]
    signed_take_bit_int_less_exp [of 63 x]
  by (simp add: wrap64_def i64_range_def)

text \<open>\<open>wrapping_add\<close> of two in-range values overflows by exactly one modulus.\<close>

lemma wrap64_overflow:
  assumes "2 ^ 63 \<le> x" "x < 2 ^ 64"
  shows "wrap64 x = x - 2 ^ 64"
proof -
  have "(x + 2 ^ 63) mod 2 ^ 64 = (x + 2 ^ 63 - 2 ^ 64) mod 2 ^ 64"
    by (rule minus_mod_self2 [symmetric])
  also have "\<dots> = x + 2 ^ 63 - 2 ^ 64"
    using assms by (intro mod_pos_pos_trivial) simp_all
  finally show ?thesis
    by (simp add: wrap64_def signed_take_bit_eq_take_bit_shift take_bit_eq_mod)
qed

section \<open>Bounds-checked indexing\<close>

text \<open>
  \<open>v[i as usize]\<close> for an \<open>i32\<close>: a negative value becomes a huge \<open>usize\<close>, so the access
  panics exactly when the value is not between 0 and the length.
\<close>

definition ix :: "nat \<Rightarrow> int \<Rightarrow> nat option" where
  "ix n i = (if 0 \<le> i \<and> i < int n then Some (nat i) else None)"

lemma ix_Some_iff: "ix n i = Some k \<longleftrightarrow> i = int k \<and> k < n"
  by (auto simp: ix_def)

lemma ix_int [simp]: "k < n \<Longrightarrow> ix n (int k) = Some k"
  by (simp add: ix_def)

lemma ix_None_iff: "ix n i = None \<longleftrightarrow> i < 0 \<or> int n \<le> i"
  by (auto simp: ix_def)

lemma ix_uint [simp]: "ix n (uint w) = (if unat w < n then Some (unat w) else None)"
  unfolding ix_def uint_nat by (simp del: of_nat_unat)

text \<open>\<open>assert!(b)\<close>.\<close>

definition guard_panic :: "bool \<Rightarrow> unit option" where
  "guard_panic b = (if b then Some () else None)"

lemma guard_panic_simps [simp]:
  "guard_panic True = Some ()" "guard_panic False = None"
  by (simp_all add: guard_panic_def)

lemma guard_panic_Some_iff: "guard_panic b = Some u \<longleftrightarrow> b"
  by (cases u) (simp add: guard_panic_def)

section \<open>Words\<close>

lemma take_bit_word_self_iff: "take_bit n w = w \<longleftrightarrow> unat w < 2 ^ n" for w :: "'a::len word"
proof -
  have "take_bit n w = w \<longleftrightarrow> unat (take_bit n w) = unat w"
    by (metis word_unat_eq_iff)
  also have "\<dots> \<longleftrightarrow> take_bit n (unat w) = unat w"
    by (simp add: unsigned_take_bit_eq)
  finally show ?thesis by (simp add: take_bit_nat_eq_self_iff)
qed

lemma high_bit_clear: "unat w < 2 ^ n \<Longrightarrow> n \<le> k \<Longrightarrow> \<not> bit w k" for w :: "'a::len word"
  by (metis bit_take_bit_iff not_le take_bit_word_self_iff)

end
