(* ===== verification/ObjectTable.thy ===== *)
theory ObjectTable
  imports Prelude
begin

text \<open>
  The contract the kernel's clients rely on when they keep objects behind handles: what the
  provider promises of insertion, deletion and lookup, and what follows for any sequence of
  requests. \<open>HandleTable\<close> interprets it on \<open>KHandleTable\<close>.
\<close>

datatype ('o, 'h) request = ReqAdd 'o | ReqRemove 'h | ReqGet 'h

datatype ('e, 'h, 'o) reply = RepAdd "'e + 'h" | RepRemove bool | RepGet "'o option"

text \<open>A client's sequence of requests against the operations of a table.\<close>

fun table_run ::
  "('o \<Rightarrow> 't \<Rightarrow> (('e + 'h) \<times> 't) option) \<Rightarrow> ('h \<Rightarrow> 't \<Rightarrow> (bool \<times> 't) option) \<Rightarrow>
   ('t \<Rightarrow> 'h \<Rightarrow> 'o option) \<Rightarrow> ('o, 'h) request list \<Rightarrow> 't \<Rightarrow>
   (('e, 'h, 'o) reply list \<times> 't) option" where
  "table_run ins del look [] t = Some ([], t)"
| "table_run ins del look (ReqAdd x # rs) t = do {
     (r, t) \<leftarrow> ins x t;
     (rest, t) \<leftarrow> table_run ins del look rs t;
     Some (RepAdd r # rest, t) }"
| "table_run ins del look (ReqRemove h # rs) t = do {
     (b, t) \<leftarrow> del h t;
     (rest, t) \<leftarrow> table_run ins del look rs t;
     Some (RepRemove b # rest, t) }"
| "table_run ins del look (ReqGet h # rs) t = do {
     (rest, t') \<leftarrow> table_run ins del look rs t;
     Some (RepGet (look t h) # rest, t') }"

text \<open>
  The abstract table is a finite map from handles to objects. An insertion may fail, which
  leaves the map alone, or answer a handle that is not in the map.
\<close>

fun table_spec :: "('h \<rightharpoonup> 'o) \<Rightarrow> ('o, 'h) request list \<Rightarrow> ('e, 'h, 'o) reply list \<Rightarrow> ('h \<rightharpoonup> 'o) \<Rightarrow> bool" where
  "table_spec m [] [] m' \<longleftrightarrow> m' = m"
| "table_spec m (ReqAdd x # rs) (RepAdd (Inl e) # ps) m' \<longleftrightarrow> table_spec m rs ps m'"
| "table_spec m (ReqAdd x # rs) (RepAdd (Inr h) # ps) m' \<longleftrightarrow>
     m h = None \<and> table_spec (m(h \<mapsto> x)) rs ps m'"
| "table_spec m (ReqRemove h # rs) (RepRemove b # ps) m' \<longleftrightarrow>
     b = (m h \<noteq> None) \<and> table_spec (m(h := None)) rs ps m'"
| "table_spec m (ReqGet h # rs) (RepGet r # ps) m' \<longleftrightarrow> r = m h \<and> table_spec m rs ps m'"
| "table_spec m _ _ m' \<longleftrightarrow> False"

fun adds_ok :: "('o \<Rightarrow> bool) \<Rightarrow> ('o, 'h) request list \<Rightarrow> bool" where
  "adds_ok ok [] \<longleftrightarrow> True"
| "adds_ok ok (ReqAdd x # rs) \<longleftrightarrow> ok x \<and> adds_ok ok rs"
| "adds_ok ok (_ # rs) \<longleftrightarrow> adds_ok ok rs"

locale object_table =
  fixes inv :: "'t \<Rightarrow> bool"
    and ok :: "'o \<Rightarrow> bool"
    and ins :: "'o \<Rightarrow> 't \<Rightarrow> (('e + 'h) \<times> 't) option"
    and del :: "'h \<Rightarrow> 't \<Rightarrow> (bool \<times> 't) option"
    and look :: "'t \<Rightarrow> 'h \<Rightarrow> 'o option"
  assumes ins_total: "inv t \<Longrightarrow> \<exists>r t'. ins x t = Some (r, t') \<and> inv t'"
    and ins_error: "inv t \<Longrightarrow> ins x t = Some (Inl e, t') \<Longrightarrow> look t' = look t"
    and ins_look: "inv t \<Longrightarrow> ok x \<Longrightarrow> ins x t = Some (Inr h, t') \<Longrightarrow>
           look t h = None \<and> look t' = (look t)(h \<mapsto> x)"
    and del_total: "inv t \<Longrightarrow> \<exists>b t'. del h t = Some (b, t') \<and> inv t'"
    and del_look: "inv t \<Longrightarrow> del h t = Some (b, t') \<Longrightarrow>
           b = (look t h \<noteq> None) \<and> look t' = (look t)(h := None)"
begin

lemma run_simulates:
  assumes "inv t" "adds_ok ok rs"
  shows "\<exists>ps t'. table_run ins del look rs t = Some (ps, t') \<and> inv t' \<and>
           table_spec (look t) rs ps (look t')"
  using assms
proof (induction rs arbitrary: t)
  case Nil
  then show ?case by auto
next
  case (Cons r rs)
  show ?case
  proof (cases r)
    case (ReqAdd x)
    obtain q t1 where q: "ins x t = Some (q, t1)" "inv t1"
      using Cons.prems ins_total by blast
    moreover from q Cons ReqAdd obtain ps t2 where
      "table_run ins del look rs t1 = Some (ps, t2)" "inv t2"
      "table_spec (look t1) rs ps (look t2)" by auto blast
    ultimately show ?thesis
      using ReqAdd Cons.prems ins_error [of t x _ t1] ins_look [of t x _ t1]
      by (cases q) auto
  next
    case (ReqRemove h)
    obtain b t1 where q: "del h t = Some (b, t1)" "inv t1"
      using Cons.prems del_total by blast
    moreover from q Cons ReqRemove obtain ps t2 where
      "table_run ins del look rs t1 = Some (ps, t2)" "inv t2"
      "table_spec (look t1) rs ps (look t2)" by auto blast
    ultimately show ?thesis
      using ReqRemove Cons.prems del_look [of t h b t1] by auto
  next
    case (ReqGet h)
    with Cons obtain ps t2 where
      "table_run ins del look rs t = Some (ps, t2)" "inv t2"
      "table_spec (look t) rs ps (look t2)" by auto blast
    with ReqGet show ?thesis by auto
  qed
qed

end

end
