(* ===== verification/HandleTable.thy ===== *)
theory HandleTable
  imports Prelude ObjectTable
begin

text \<open>
  The kernel's per-process handle table, \<open>KHandleTable\<close> of
  src/core/src/hle/kernel/k_handle_table.rs.

  The Rust \<open>union EntryInfo\<close> is one 16-bit word read either as the linear id of an occupied
  slot or as the signed index of the next free slot; the model keeps that word and reads it both
  ways, so a read through the wrong view returns what the code's \<open>unsafe\<close> read returns. The
  counters \<open>table_size\<close>, \<open>max_count\<close> and \<open>count\<close> never leave 0..1024 and are read as
  \<^typ>\<open>nat\<close>. Every read at an index below \<open>table_size\<close> is in range because
  \<open>table_size\<close> is only ever set to a value up to 1024; the accesses that are not guarded by
  \<open>table_size\<close> go through \<open>ix\<close>. The environment-variable tracing of \<open>get_object\<close> prints
  and changes nothing, and is left out.
\<close>

section \<open>Data\<close>

abbreviation MAX_TABLE_SIZE :: nat where "MAX_TABLE_SIZE \<equiv> 1024"
abbreviation MIN_LINEAR_ID :: u16 where "MIN_LINEAR_ID \<equiv> 1"
abbreviation MAX_LINEAR_ID :: u16 where "MAX_LINEAR_ID \<equiv> 0x7FFF"

type_synonym Handle = u32

record KHandleTable =
  entry_infos :: "nat \<Rightarrow> u16"
  objects :: "nat \<Rightarrow> u64"
  free_head_index :: int
  table_size :: nat
  max_count :: nat
  next_linear_id :: u16
  ht_count :: nat

section \<open>Operations\<close>

definition encode_handle :: "u16 \<Rightarrow> u16 \<Rightarrow> Handle" where
  "encode_handle index linear_id = push_bit 15 (ucast linear_id) OR ucast index"

definition decode_handle :: "Handle \<Rightarrow> u16 \<times> u16 \<times> u8" where
  "decode_handle handle =
     (ucast (handle AND 0x7FFF), ucast (drop_bit 15 handle AND 0x7FFF),
      ucast (drop_bit 30 handle AND 0x3))"

definition ht_new :: KHandleTable where
  "ht_new = \<lparr>entry_infos = (\<lambda>_. 0), objects = (\<lambda>_. 0), free_head_index = -1,
     table_size = 0, max_count = 0, next_linear_id = MIN_LINEAR_ID, ht_count = 0\<rparr>"

text \<open>The body of the loop of \<open>initialize\<close>, for one index.\<close>

definition init_entry :: "nat \<Rightarrow> KHandleTable \<Rightarrow> KHandleTable" where
  "init_entry i t = t\<lparr>objects := (objects t)(i := 0),
     entry_infos := (entry_infos t)(i := word_of_int (int i - 1)),
     free_head_index := int i\<rparr>"

definition ht_initialize :: "int \<Rightarrow> KHandleTable \<Rightarrow> u32 \<times> KHandleTable" where
  "ht_initialize sz t =
     (if sz > int MAX_TABLE_SIZE then (1, t)
      else let ts = (if sz \<le> 0 then MAX_TABLE_SIZE else nat sz);
               t = t\<lparr>max_count := 0, table_size := ts, next_linear_id := MIN_LINEAR_ID,
                     ht_count := 0, free_head_index := -1\<rparr>
           in (0, fold init_entry [0..<ts] t))"

definition allocate_entry :: "KHandleTable \<Rightarrow> (int \<times> KHandleTable) option" where
  "allocate_entry t = do {
     guard_panic (ht_count t < table_size t);
     let index = free_head_index t;
     i \<leftarrow> ix MAX_TABLE_SIZE index;
     let c = ht_count t + 1;
     Some (index, t\<lparr>free_head_index := sint (entry_infos t i), ht_count := c,
                     max_count := (if c > max_count t then c else max_count t)\<rparr>)
   }"

definition free_entry :: "int \<Rightarrow> KHandleTable \<Rightarrow> KHandleTable option" where
  "free_entry index t = do {
     guard_panic (0 < ht_count t);
     i \<leftarrow> ix MAX_TABLE_SIZE index;
     Some (t\<lparr>objects := (objects t)(i := 0),
             entry_infos := (entry_infos t)(i := word_of_int (free_head_index t)),
             free_head_index := index, ht_count := ht_count t - 1\<rparr>)
   }"

definition allocate_linear_id :: "KHandleTable \<Rightarrow> u16 \<times> KHandleTable" where
  "allocate_linear_id t =
     (let id = next_linear_id t;
          n = id + 1
      in (id, t\<lparr>next_linear_id := (if n > MAX_LINEAR_ID then MIN_LINEAR_ID else n)\<rparr>))"

definition is_valid_handle :: "KHandleTable \<Rightarrow> Handle \<Rightarrow> bool" where
  "is_valid_handle t handle =
     (case decode_handle handle of (index, linear_id, reserved) \<Rightarrow>
        if reserved \<noteq> 0 \<or> handle = 0 \<or> linear_id = 0 then False
        else if unat index \<ge> table_size t then False
        else if objects t (unat index) = 0 then False
        else entry_infos t (unat index) = linear_id)"

definition ht_add :: "u64 \<Rightarrow> KHandleTable \<Rightarrow> ((u32 + Handle) \<times> KHandleTable) option" where
  "ht_add object_id t =
     (if ht_count t \<ge> table_size t then Some (Inl 1, t)
      else do {
        (index, t) \<leftarrow> allocate_entry t;
        let (linear_id, t) = allocate_linear_id t;
        i \<leftarrow> ix MAX_TABLE_SIZE index;
        Some (Inr (encode_handle (word_of_int index) linear_id),
          t\<lparr>entry_infos := (entry_infos t)(i := linear_id),
            objects := (objects t)(i := object_id)\<rparr>)
      })"

definition ht_register :: "Handle \<Rightarrow> u64 \<Rightarrow> KHandleTable \<Rightarrow> bool \<times> KHandleTable" where
  "ht_register handle object_id t =
     (case decode_handle handle of (index, linear_id, reserved) \<Rightarrow>
        if reserved \<noteq> 0 \<or> handle = 0 \<or> linear_id = 0 then (False, t)
        else if unat index \<ge> table_size t then (False, t)
        else if objects t (unat index) \<noteq> 0 then (False, t)
        else if entry_infos t (unat index) \<noteq> linear_id then (False, t)
        else (True, t\<lparr>objects := (objects t)(unat index := object_id)\<rparr>))"

definition ht_remove :: "Handle \<Rightarrow> KHandleTable \<Rightarrow> (bool \<times> KHandleTable) option" where
  "ht_remove handle t =
     (case decode_handle handle of (index, _, _) \<Rightarrow>
        if \<not> is_valid_handle t handle then Some (False, t)
        else do { t \<leftarrow> free_entry (uint index) t; Some (True, t) })"

definition get_object :: "KHandleTable \<Rightarrow> Handle \<Rightarrow> u64 option" where
  "get_object t handle =
     (case decode_handle handle of (index, _, reserved) \<Rightarrow>
        if reserved \<noteq> 0 then None
        else if is_valid_handle t handle then Some (objects t (unat index))
        else None)"

definition contains_object_id :: "KHandleTable \<Rightarrow> u64 \<Rightarrow> bool" where
  "contains_object_id t object_id =
     (if object_id = 0 then False
      else list_ex (\<lambda>i. objects t i = object_id \<and>
             is_valid_handle t (encode_handle (word_of_nat i) (entry_infos t i)))
           [0..<table_size t])"

definition ht_finalize :: "KHandleTable \<Rightarrow> u32 \<times> KHandleTable" where
  "ht_finalize t =
     (let saved_table_size = table_size t;
          t = t\<lparr>table_size := 0\<rparr>;
          t = fold (\<lambda>i t. if objects t i \<noteq> 0 then t\<lparr>objects := (objects t)(i := 0)\<rparr> else t)
                [0..<saved_table_size] t
      in (0, t\<lparr>ht_count := 0\<rparr>))"

definition ht_reserve :: "KHandleTable \<Rightarrow> ((u32 + Handle) \<times> KHandleTable) option" where
  "ht_reserve t =
     (if ht_count t \<ge> table_size t then Some (Inl 1, t)
      else do {
        (index, t) \<leftarrow> allocate_entry t;
        let (linear_id, t) = allocate_linear_id t;
        i \<leftarrow> ix MAX_TABLE_SIZE index;
        Some (Inr (encode_handle (word_of_int index) linear_id),
          t\<lparr>entry_infos := (entry_infos t)(i := linear_id)\<rparr>)
      })"

definition ht_unreserve :: "Handle \<Rightarrow> KHandleTable \<Rightarrow> KHandleTable option" where
  "ht_unreserve handle t =
     (case decode_handle handle of (index, _, _) \<Rightarrow> free_entry (uint index) t)"

section \<open>Handles\<close>

lemma decode_encode:
  assumes "unat index < 2 ^ 15" "linear_id \<le> MAX_LINEAR_ID"
  shows "decode_handle (encode_handle index linear_id) = (index, linear_id, 0)"
proof -
  have m: "(0x7FFF :: u32) = mask 15" "(3 :: u32) = mask 2"
    by (simp_all add: mask_eq_exp_minus_1)
  have i': "k < 15" if "bit index k" for k
    using that assms high_bit_clear [of index 15 k] by (auto simp: not_le [symmetric])
  have l': "k < 15" if "bit linear_id k" for k
    using that assms high_bit_clear [of linear_id 15 k]
    by (auto simp: word_le_nat_alt not_le [symmetric])
  have "ucast (encode_handle index linear_id AND 0x7FFF) = index"
    by (rule bit_word_eqI) (use i' in \<open>auto simp: encode_handle_def m bit_simps\<close>)
  moreover have "ucast (drop_bit 15 (encode_handle index linear_id) AND 0x7FFF) = linear_id"
    by (rule bit_word_eqI) (use i' l' in \<open>auto simp: encode_handle_def m bit_simps\<close>)
  moreover have "ucast (drop_bit 30 (encode_handle index linear_id) AND 0x3) = (0 :: u8)"
    by (rule bit_word_eqI) (use i' l' in \<open>force simp: encode_handle_def m bit_simps\<close>)
  ultimately show ?thesis by (simp add: decode_handle_def)
qed

text \<open>A valid handle is the encoding of the index and linear id it decodes to.\<close>

lemma encode_decode:
  assumes "decode_handle handle = (index, linear_id, 0)"
  shows "encode_handle index linear_id = handle" and "unat index < 2 ^ 15"
    and "linear_id \<le> MAX_LINEAR_ID"
proof -
  have m: "(0x7FFF :: u32) = mask 15" "(3 :: u32) = mask 2"
    by (simp_all add: mask_eq_exp_minus_1)
  from assms have i: "index = ucast (handle AND mask 15)"
    and l: "linear_id = ucast (drop_bit 15 handle AND mask 15)"
    and r: "(ucast (drop_bit 30 handle AND mask 2) :: u8) = 0"
    by (auto simp: decode_handle_def m)
  have top: "k < 30" if "bit handle k" for k
  proof (rule ccontr)
    assume k: "\<not> k < 30"
    from that have "k < 32" using bit_imp_le_length [of handle k] by simp
    with that k have "bit (ucast (drop_bit 30 handle AND mask 2) :: u8) (k - 30)"
      by (auto simp: bit_simps)
    with r show False by simp
  qed
  show "encode_handle index linear_id = handle"
    by (rule bit_word_eqI)
      (use top in \<open>force simp: encode_handle_def i l bit_simps\<close>)
  show "unat index < 2 ^ 15"
    unfolding i take_bit_word_self_iff [symmetric]
    by (rule bit_word_eqI) (auto simp: bit_simps)
  have "unat linear_id < 2 ^ 15"
    unfolding l take_bit_word_self_iff [symmetric]
    by (rule bit_word_eqI) (auto simp: bit_simps)
  then show "linear_id \<le> MAX_LINEAR_ID"
    by (simp add: word_le_nat_alt)
qed

section \<open>The free list and the table invariant\<close>

text \<open>
  The free slots form a singly linked list through \<open>next_free_index\<close>, headed by
  \<open>free_head_index\<close> and ended by -1. \<open>free_list\<close> follows it for as many slots as the
  counters say are free.
\<close>

fun free_chain :: "(nat \<Rightarrow> u16) \<Rightarrow> int \<Rightarrow> nat list \<Rightarrow> bool" where
  "free_chain e h [] \<longleftrightarrow> h = -1"
| "free_chain e h (i # is) \<longleftrightarrow> h = int i \<and> free_chain e (sint (e i)) is"

fun chase :: "(nat \<Rightarrow> u16) \<Rightarrow> int \<Rightarrow> nat \<Rightarrow> nat list" where
  "chase e h 0 = []"
| "chase e h (Suc n) = nat h # chase e (sint (e (nat h))) n"

definition free_list :: "KHandleTable \<Rightarrow> nat list" where
  "free_list t = chase (entry_infos t) (free_head_index t) (table_size t - ht_count t)"

lemma chase_free_chain: "free_chain e h is \<Longrightarrow> chase e h (length is) = is"
  by (induction "is" arbitrary: h) auto

lemma free_chain_cong:
  "free_chain e h is \<Longrightarrow> (\<And>i. i \<in> set is \<Longrightarrow> e' i = e i) \<Longrightarrow> free_chain e' h is"
  by (induction "is" arbitrary: h) auto

definition ht_rep :: "KHandleTable \<Rightarrow> nat list \<Rightarrow> bool" where
  "ht_rep t fl \<longleftrightarrow>
     table_size t \<le> MAX_TABLE_SIZE \<and> distinct fl \<and> (\<forall>i \<in> set fl. i < table_size t) \<and>
     free_chain (entry_infos t) (free_head_index t) fl \<and>
     ht_count t + length fl = table_size t \<and>
     ht_count t \<le> max_count t \<and> max_count t \<le> table_size t \<and>
     0 < next_linear_id t \<and> next_linear_id t \<le> MAX_LINEAR_ID \<and>
     (\<forall>i \<in> set fl. objects t i = 0) \<and>
     (\<forall>i < table_size t. i \<notin> set fl \<longrightarrow> 0 < entry_infos t i \<and> entry_infos t i \<le> MAX_LINEAR_ID)"

definition ht_wf :: "KHandleTable \<Rightarrow> bool" where
  "ht_wf t \<longleftrightarrow> ht_rep t (free_list t)"

lemma ht_rep_free_list: "ht_rep t fl \<Longrightarrow> fl = free_list t"
  unfolding ht_rep_def free_list_def
  by (metis add_diff_cancel_left' chase_free_chain)

lemma ht_wf_iff: "ht_wf t \<longleftrightarrow> (\<exists>fl. ht_rep t fl)"
  unfolding ht_wf_def using ht_rep_free_list by metis

text \<open>\<open>initialize\<close> links every slot of the table, the last one first.\<close>

lemma fold_init_entry:
  "n \<le> MAX_TABLE_SIZE \<Longrightarrow> fold init_entry [0..<n] t =
     t\<lparr>objects := (\<lambda>i. if i < n then 0 else objects t i),
       entry_infos := (\<lambda>i. if i < n then word_of_int (int i - 1) else entry_infos t i),
       free_head_index := (if n = 0 then free_head_index t else int n - 1)\<rparr>"
  by (induction n) (auto simp: init_entry_def fun_eq_iff less_Suc_eq)

lemma sint_i16: "- (2 ^ 15) \<le> x \<Longrightarrow> x < 2 ^ 15 \<Longrightarrow> sint (word_of_int x :: u16) = x"
  by (simp add: sint_word_ariths signed_take_bit_int_eq_self sint_sbintrunc')

lemma sint_pred: "n \<le> MAX_TABLE_SIZE \<Longrightarrow> sint (word_of_nat n - 1 :: u16) = int n - 1"
  using sint_i16 [of "int n - 1"] by simp

lemma free_chain_init:
  "n \<le> MAX_TABLE_SIZE \<Longrightarrow> \<forall>i < n. e i = word_of_int (int i - 1) \<Longrightarrow>
   free_chain e (int n - 1) (rev [0..<n])"
  by (induction n) (auto simp: sint_pred)

lemma ht_initialize_rep:
  assumes "sz \<le> int MAX_TABLE_SIZE"
  shows "\<exists>t'. ht_initialize sz t = (0, t') \<and>
           ht_rep t' (rev [0..<(if sz \<le> 0 then MAX_TABLE_SIZE else nat sz)])"
proof -
  define n where "n = (if sz \<le> 0 then MAX_TABLE_SIZE else nat sz)"
  have n: "n \<le> MAX_TABLE_SIZE" "n \<noteq> 0"
    using assms by (auto simp: n_def)
  have "ht_rep (snd (ht_initialize sz t)) (rev [0..<n])"
    using n assms
    by (auto simp: ht_initialize_def fold_init_entry ht_rep_def Let_def n_def [symmetric]
        intro!: free_chain_init)
  then show ?thesis
    using assms by (auto simp: ht_initialize_def n_def [symmetric] Let_def)
qed

section \<open>Allocating and freeing\<close>

lemma allocate_linear_id_ok:
  assumes "0 < next_linear_id t" "next_linear_id t \<le> MAX_LINEAR_ID"
  shows "0 < next_linear_id (snd (allocate_linear_id t)) \<and>
         next_linear_id (snd (allocate_linear_id t)) \<le> MAX_LINEAR_ID"
proof -
  have "unat (next_linear_id t + 1) = unat (next_linear_id t) + 1"
    using assms by (simp add: word_le_nat_alt unat_word_ariths)
  then show ?thesis
    by (auto simp: allocate_linear_id_def Let_def word_less_nat_alt word_le_nat_alt)
qed

text \<open>The state in which slot \<open>i\<close> has left the free list and carries a linear id.\<close>

definition take_slot :: "nat \<Rightarrow> KHandleTable \<Rightarrow> KHandleTable" where
  "take_slot i t =
     t\<lparr>free_head_index := sint (entry_infos t i), ht_count := ht_count t + 1,
       max_count := max (max_count t) (ht_count t + 1),
       next_linear_id := next_linear_id (snd (allocate_linear_id t)),
       entry_infos := (entry_infos t)(i := next_linear_id t)\<rparr>"

lemma ht_rep_take_slot:
  assumes "ht_rep t (i # fl)"
  shows "ht_rep (take_slot i t) fl"
proof -
  have "free_chain ((entry_infos t)(i := next_linear_id t)) (sint (entry_infos t i)) fl"
    using assms by (auto simp: ht_rep_def intro: free_chain_cong)
  with assms show ?thesis
    using allocate_linear_id_ok [of t] by (auto simp: ht_rep_def take_slot_def)
qed

lemma ht_rep_store:
  "ht_rep t fl \<Longrightarrow> i \<notin> set fl \<Longrightarrow> ht_rep (t\<lparr>objects := (objects t)(i := x)\<rparr>) fl"
  by (auto simp: ht_rep_def)

lemma ht_reserve_eq:
  assumes "ht_rep t (i # fl)"
  shows "ht_reserve t = Some (Inr (encode_handle (word_of_nat i) (next_linear_id t)), take_slot i t)"
  using assms
  by (auto simp: ht_reserve_def allocate_entry_def ht_rep_def take_slot_def allocate_linear_id_def
      Let_def max_def)

lemma ht_add_eq:
  assumes "ht_rep t (i # fl)"
  shows "ht_add x t = Some (Inr (encode_handle (word_of_nat i) (next_linear_id t)),
           (take_slot i t)\<lparr>objects := (objects t)(i := x)\<rparr>)"
  using assms
  by (auto simp: ht_add_def allocate_entry_def ht_rep_def take_slot_def allocate_linear_id_def
      Let_def max_def)

lemma ht_full:
  assumes "ht_rep t []"
  shows "ht_add x t = Some (Inl 1, t)" "ht_reserve t = Some (Inl 1, t)"
  using assms by (auto simp: ht_add_def ht_reserve_def ht_rep_def)

lemma free_entry_rep:
  assumes "ht_rep t fl" "i < table_size t" "i \<notin> set fl"
  shows "\<exists>t'. free_entry (int i) t = Some t' \<and> ht_rep t' (i # fl) \<and>
           objects t' = (objects t)(i := 0) \<and> table_size t' = table_size t \<and>
           next_linear_id t' = next_linear_id t \<and>
           (\<forall>j. j \<noteq> i \<longrightarrow> entry_infos t' j = entry_infos t j)"
proof -
  have lt: "i < MAX_TABLE_SIZE" and h: "- (2 ^ 15) \<le> free_head_index t" "free_head_index t < 2 ^ 15"
    using assms by (cases fl; auto simp: ht_rep_def)+
  have "ht_count t > 0"
  proof -
    have "set fl \<subseteq> {..<table_size t} - {i}" using assms by (auto simp: ht_rep_def)
    then have "card (set fl) \<le> card ({..<table_size t} - {i})"
      by (intro card_mono) auto
    with assms show ?thesis
      by (auto simp: ht_rep_def distinct_card)
  qed
  moreover have "free_chain ((entry_infos t)(i := word_of_int (free_head_index t)))
      (sint (word_of_int (free_head_index t) :: u16)) fl"
    using assms h by (auto simp: ht_rep_def sint_i16 intro: free_chain_cong)
  ultimately show ?thesis
    using assms lt by (auto simp: free_entry_def ht_rep_def)
qed

section \<open>Lookup\<close>

definition live :: "KHandleTable \<Rightarrow> nat \<Rightarrow> u16 \<Rightarrow> bool" where
  "live t i l \<longleftrightarrow> i < table_size t \<and> objects t i \<noteq> 0 \<and> entry_infos t i = l \<and> l \<noteq> 0"

lemma encode_nonzero:
  assumes "decode_handle h = (i, l, 0)" "l \<noteq> 0"
  shows "h \<noteq> 0"
  using assms by (auto simp: decode_handle_def)

lemma is_valid_handle_iff:
  "is_valid_handle t h \<longleftrightarrow>
     (\<exists>i l. decode_handle h = (i, l, 0) \<and> live t (unat i) l)"
  using encode_nonzero [of h]
  by (auto simp: is_valid_handle_def live_def split: prod.splits)

lemma get_object_eq:
  "get_object t h = (if is_valid_handle t h then Some (objects t (unat (fst (decode_handle h))))
                     else None)"
  by (auto simp: get_object_def is_valid_handle_def split: prod.splits)

lemma get_object_Some_iff:
  "get_object t h = Some x \<longleftrightarrow>
     (\<exists>i l. decode_handle h = (i, l, 0) \<and> live t (unat i) l \<and> objects t (unat i) = x)"
  by (auto simp: get_object_eq is_valid_handle_iff)

lemma decode_encode_slot:
  assumes "ht_rep t (i # fl)"
  shows "decode_handle (encode_handle (word_of_nat i) (next_linear_id t)) =
           (word_of_nat i, next_linear_id t, 0)"
    and "unat (word_of_nat i :: u16) = i"
proof -
  show i: "unat (word_of_nat i :: u16) = i"
    using assms by (simp add: ht_rep_def unat_of_nat)
  then show "decode_handle (encode_handle (word_of_nat i) (next_linear_id t)) =
           (word_of_nat i, next_linear_id t, 0)"
    using assms by (intro decode_encode) (auto simp: ht_rep_def)
qed

lemma ht_add_total:
  assumes "ht_wf t"
  shows "\<exists>r t'. ht_add x t = Some (r, t') \<and> ht_wf t'"
proof -
  obtain fl where fl: "ht_rep t fl" using assms ht_wf_iff by blast
  show ?thesis
  proof (cases fl)
    case Nil
    with fl show ?thesis by (simp add: ht_full assms)
  next
    case (Cons i fl')
    with fl have "i \<notin> set fl'" by (simp add: ht_rep_def)
    with fl Cons show ?thesis
      using ht_rep_store [OF ht_rep_take_slot, of t i fl' i x]
      by (auto simp: ht_add_eq ht_wf_iff take_slot_def)
  qed
qed

text \<open>A successful addition, in terms of the free list: its head slot is taken.\<close>

lemma ht_add_InrD:
  assumes "ht_wf t" "ht_add x t = Some (Inr h, t')"
  obtains i fl where "ht_rep t (i # fl)"
    "h = encode_handle (word_of_nat i) (next_linear_id t)"
    "t' = (take_slot i t)\<lparr>objects := (objects t)(i := x)\<rparr>"
proof -
  obtain fl where fl: "ht_rep t fl" using assms ht_wf_iff by blast
  show ?thesis
  proof (cases fl)
    case Nil
    with fl assms(2) show ?thesis by (simp add: ht_full)
  next
    case (Cons i fl')
    with fl assms(2) that show ?thesis by (simp add: ht_add_eq)
  qed
qed

lemma ht_add_look:
  assumes "ht_wf t" "x \<noteq> 0" "ht_add x t = Some (Inr h, t')"
  shows "get_object t h = None \<and> get_object t' = (get_object t)(h \<mapsto> x)"
proof -
  obtain i fl where rep: "ht_rep t (i # fl)"
    and h: "h = encode_handle (word_of_nat i) (next_linear_id t)"
    and t': "t' = (take_slot i t)\<lparr>objects := (objects t)(i := x)\<rparr>"
    using assms(1,3) by (rule ht_add_InrD)
  have dec: "decode_handle h = (word_of_nat i, next_linear_id t, 0)"
    and i: "unat (word_of_nat i :: u16) = i"
    using decode_encode_slot [OF rep] by (simp_all add: h)
  have free: "objects t i = 0" "i < table_size t" "next_linear_id t \<noteq> 0"
    using rep by (auto simp: ht_rep_def)
  have "get_object t h = None"
    using free by (simp add: get_object_eq is_valid_handle_iff dec i live_def)
  moreover have "get_object t' h' = ((get_object t)(h \<mapsto> x)) h'" for h'
  proof (cases "h' = h")
    case True
    then show ?thesis
      using free assms(2)
      by (simp add: get_object_eq is_valid_handle_iff dec i live_def t' take_slot_def)
  next
    case False
    obtain j l r where dec': "decode_handle h' = (j, l, r)" by (cases "decode_handle h'")
    have "\<not> (r = 0 \<and> unat j = i \<and> l = next_linear_id t)"
      using False encode_decode(1) [of h' j l] dec' i h by auto
    then show ?thesis
      using False free
      by (auto simp: get_object_eq is_valid_handle_iff dec' live_def t' take_slot_def)
  qed
  ultimately show ?thesis by blast
qed

lemma ht_remove_spec:
  assumes "ht_wf t"
  shows "\<exists>t'. ht_remove h t = Some (get_object t h \<noteq> None, t') \<and> ht_wf t' \<and>
           get_object t' = (get_object t)(h := None)"
proof (cases "is_valid_handle t h")
  case False
  then show ?thesis
    using assms by (auto simp: ht_remove_def get_object_eq split: prod.splits)
next
  case True
  then obtain i l where dec: "decode_handle h = (i, l, 0)" and lv: "live t (unat i) l"
    by (auto simp: is_valid_handle_iff)
  obtain fl where fl: "ht_rep t fl" using assms ht_wf_iff by blast
  from fl lv have "unat i < table_size t" "unat i \<notin> set fl"
    by (auto simp: ht_rep_def live_def)
  from free_entry_rep [OF fl this] obtain t' where
    t': "free_entry (int (unat i)) t = Some t'" "ht_rep t' (unat i # fl)"
    "objects t' = (objects t)(unat i := 0)" "table_size t' = table_size t"
    "\<forall>j. j \<noteq> unat i \<longrightarrow> entry_infos t' j = entry_infos t j" by blast
  have "get_object t' h' = ((get_object t)(h := None)) h'" for h'
  proof -
    obtain j l' r where dec': "decode_handle h' = (j, l', r)" by (cases "decode_handle h'")
    show ?thesis
    proof (cases "h' = h")
      case True
      with dec t' show ?thesis by (simp add: get_object_eq is_valid_handle_iff live_def)
    next
      case False
      then have "\<not> (r = 0 \<and> unat j = unat i \<and> l' = l)"
        using encode_decode(1) [of h' j l'] encode_decode(1) [of h i l] dec dec'
        by (auto simp: word_unat_eq_iff [symmetric])
      then show ?thesis
        using False t' lv
        by (auto simp: get_object_eq is_valid_handle_iff dec' live_def)
    qed
  qed
  then show ?thesis
    using True t' dec ht_wf_iff
    by (auto simp: ht_remove_def get_object_eq fun_eq_iff intro!: exI [of _ t'])
qed

lemma ht_add_InlD: "ht_add x t = Some (Inl e, t') \<Longrightarrow> t' = t \<and> e = 1 \<and> table_size t \<le> ht_count t"
  by (auto simp: ht_add_def split: if_splits prod.splits bind_splits)

interpretation ht: object_table ht_wf "\<lambda>x. x \<noteq> 0" ht_add ht_remove get_object
proof unfold_locales
  show "\<exists>r t'. ht_add x t = Some (r, t') \<and> ht_wf t'" if "ht_wf t" for t x
    using that by (rule ht_add_total)
  show "get_object t' = get_object t" if "ht_add x t = Some (Inl e, t')" for t x e t'
    using ht_add_InlD [OF that] by simp
  show "get_object t h = None \<and> get_object t' = (get_object t)(h \<mapsto> x)"
    if "ht_wf t" "x \<noteq> 0" "ht_add x t = Some (Inr h, t')" for t x h t'
    using that by (rule ht_add_look)
  show "\<exists>b t'. ht_remove h t = Some (b, t') \<and> ht_wf t'" if "ht_wf t" for t h
    using ht_remove_spec [OF that, of h] by blast
  show "b = (get_object t h \<noteq> None) \<and> get_object t' = (get_object t)(h := None)"
    if "ht_wf t" "ht_remove h t = Some (b, t')" for t h b t'
    using ht_remove_spec [OF that(1), of h] that(2) by auto
qed

section \<open>Reserved handles\<close>

text \<open>A reserved handle names an allocated slot that holds no object yet.\<close>

definition reserved :: "KHandleTable \<Rightarrow> Handle \<Rightarrow> bool" where
  "reserved t h \<longleftrightarrow>
     (\<exists>i l. decode_handle h = (i, l, 0) \<and> unat i < table_size t \<and> unat i \<notin> set (free_list t) \<and>
            objects t (unat i) = 0 \<and> entry_infos t (unat i) = l)"

lemma reservedE:
  assumes "reserved t h" "ht_wf t"
  obtains i l where "decode_handle h = (i, l, 0)" "l \<noteq> 0" "unat i < table_size t"
    "ht_rep t (free_list t)" "unat i \<notin> set (free_list t)" "objects t (unat i) = 0"
    "entry_infos t (unat i) = l"
proof -
  from assms(1) obtain i l where r: "decode_handle h = (i, l, 0)" "unat i < table_size t"
    "unat i \<notin> set (free_list t)" "objects t (unat i) = 0" "entry_infos t (unat i) = l"
    by (auto simp: reserved_def)
  moreover from r assms(2) have "l \<noteq> 0" by (auto simp: ht_wf_def ht_rep_def)
  ultimately show ?thesis using that assms(2) by (auto simp: ht_wf_def)
qed

lemma ht_reserve_reserved:
  assumes "ht_wf t" "ht_reserve t = Some (Inr h, t')"
  shows "ht_wf t' \<and> reserved t' h \<and> get_object t' = get_object t \<and>
         free_list t = unat (fst (decode_handle h)) # free_list t'"
proof -
  obtain fl where fl: "ht_rep t fl" using assms ht_wf_iff by blast
  with assms(2) obtain i fl' where Cons: "fl = i # fl'" by (cases fl) (auto simp: ht_full)
  with fl have rep: "ht_rep t (i # fl')" by simp
  from assms(2) have h: "h = encode_handle (word_of_nat i) (next_linear_id t)" and t': "t' = take_slot i t"
    by (simp_all add: ht_reserve_eq [OF rep])
  have dec: "decode_handle h = (word_of_nat i, next_linear_id t, 0)"
    and i: "unat (word_of_nat i :: u16) = i"
    using decode_encode_slot [OF rep] by (simp_all add: h)
  have rep': "ht_rep t' fl'" using rep by (simp add: t' ht_rep_take_slot)
  then have fl': "free_list t' = fl'" by (rule ht_rep_free_list [symmetric])
  have "get_object t' h' = get_object t h'" for h'
    using rep by (auto simp: get_object_eq is_valid_handle_iff live_def t' take_slot_def ht_rep_def)
  moreover have "objects t' = objects t" "entry_infos t' i = next_linear_id t"
    "table_size t' = table_size t"
    by (simp_all add: t' take_slot_def)
  then have "reserved t' h"
    using rep by (auto simp: reserved_def dec i fl' ht_rep_def)
  ultimately show ?thesis
    using rep' ht_rep_free_list [OF rep] dec i fl' ht_wf_iff by (auto simp: fun_eq_iff)
qed

lemma ht_register_reserved:
  assumes "ht_wf t" "reserved t h" "x \<noteq> 0"
  shows "\<exists>t'. ht_register h x t = (True, t') \<and> ht_wf t' \<and> \<not> reserved t' h \<and>
           get_object t' = (get_object t)(h \<mapsto> x) \<and> free_list t' = free_list t"
proof -
  from assms obtain i l where r: "decode_handle h = (i, l, 0)" "l \<noteq> 0" "unat i < table_size t"
    "ht_rep t (free_list t)" "unat i \<notin> set (free_list t)" "objects t (unat i) = 0"
    "entry_infos t (unat i) = l"
    by (elim reservedE)
  define t' where "t' = t\<lparr>objects := (objects t)(unat i := x)\<rparr>"
  have "ht_register h x t = (True, t')"
    using r encode_nonzero [of h] by (auto simp: ht_register_def t'_def)
  moreover have rep: "ht_rep t' (free_list t)"
    using r by (simp add: t'_def ht_rep_store)
  moreover have "get_object t' h' = ((get_object t)(h \<mapsto> x)) h'" for h'
  proof (cases "h' = h")
    case True
    with r assms(3) show ?thesis by (simp add: get_object_eq is_valid_handle_iff live_def t'_def)
  next
    case False
    obtain j l' q where dec': "decode_handle h' = (j, l', q)" by (cases "decode_handle h'")
    have "\<not> (q = 0 \<and> unat j = unat i \<and> l' = l)"
      using False encode_decode(1) [of h' j l'] encode_decode(1) [of h i l] r dec'
      by (auto simp: word_unat_eq_iff [symmetric])
    with False r show ?thesis
      by (auto simp: get_object_eq is_valid_handle_iff dec' live_def t'_def)
  qed
  ultimately show ?thesis
    using ht_rep_free_list [OF rep] ht_wf_iff r assms(3)
    by (auto simp: fun_eq_iff reserved_def t'_def)
qed

lemma ht_unreserve_reserved:
  assumes "ht_wf t" "reserved t h"
  shows "\<exists>t'. ht_unreserve h t = Some t' \<and> ht_wf t' \<and> get_object t' = get_object t \<and>
           free_list t' = unat (fst (decode_handle h)) # free_list t"
proof -
  from assms obtain i l where r: "decode_handle h = (i, l, 0)" "l \<noteq> 0" "unat i < table_size t"
    "ht_rep t (free_list t)" "unat i \<notin> set (free_list t)" "objects t (unat i) = 0"
    "entry_infos t (unat i) = l"
    by (elim reservedE)
  from free_entry_rep [OF r(4,3,5)] obtain t' where
    t': "free_entry (int (unat i)) t = Some t'" "ht_rep t' (unat i # free_list t)"
    "objects t' = (objects t)(unat i := 0)" "table_size t' = table_size t"
    "\<forall>j. j \<noteq> unat i \<longrightarrow> entry_infos t' j = entry_infos t j" by blast
  have "get_object t' h' = get_object t h'" for h'
    using r t' by (auto simp: get_object_eq is_valid_handle_iff live_def)
  then show ?thesis
    using t' ht_rep_free_list [OF t'(2)] ht_wf_iff r by (auto simp: ht_unreserve_def fun_eq_iff)
qed

section \<open>Linear ids\<close>

text \<open>Linear ids cycle through 1..0x7FFF.\<close>

definition lin_after :: "nat \<Rightarrow> nat \<Rightarrow> nat" where
  "lin_after l k = (l - 1 + k) mod 0x7FFF + 1"

lemma next_linear_after:
  assumes "ht_rep t fl"
  shows "unat (next_linear_id (snd (allocate_linear_id t))) = lin_after (unat (next_linear_id t)) 1"
proof -
  have "unat (next_linear_id t + 1) = unat (next_linear_id t) + 1"
    using assms by (simp add: ht_rep_def word_le_nat_alt unat_word_ariths)
  then show ?thesis
    using assms
    by (cases "unat (next_linear_id t) = 0x7FFF")
      (auto simp: allocate_linear_id_def Let_def ht_rep_def word_less_nat_alt word_le_nat_alt
        lin_after_def)
qed

lemma lin_after_Suc: "0 < l \<Longrightarrow> lin_after (lin_after l (Suc 0)) k = lin_after l (Suc k)"
  by (simp add: lin_after_def mod_add_left_eq)

lemma lin_after_0: "0 < l \<Longrightarrow> l \<le> 0x7FFF \<Longrightarrow> lin_after l 0 = l"
  by (simp add: lin_after_def)

lemma lin_after_inj: "inj_on (lin_after l) {..<0x7FFF}"
proof -
  have "\<not> j < k" if "(l - 1 + k) mod 0x7FFF = (l - 1 + j) mod 0x7FFF" "k < 0x7FFF" for j k :: nat
  proof
    assume "j < k"
    with that(1) have "0x7FFF dvd k - j" by (simp add: mod_eq_dvd_iff_nat)
    with \<open>j < k\<close> that(2) show False using dvd_imp_le [of "0x7FFF" "k - j"] by simp
  qed
  then show ?thesis
    unfolding inj_on_def lin_after_def by (metis add_right_cancel lessThan_iff linorder_cases)
qed

fun issued :: "('e, 'h, 'o) reply list \<Rightarrow> 'h list" where
  "issued [] = []"
| "issued (RepAdd (Inr h) # ps) = h # issued ps"
| "issued (_ # ps) = issued ps"

lemma free_entry_next: "free_entry i t = Some t' \<Longrightarrow> next_linear_id t' = next_linear_id t"
  by (auto simp: free_entry_def split: bind_splits)

lemma ht_remove_next: "ht_remove h t = Some (b, t') \<Longrightarrow> next_linear_id t' = next_linear_id t"
  by (auto simp: ht_remove_def free_entry_next split: prod.splits if_splits bind_splits)

abbreviation linear_of :: "Handle \<Rightarrow> nat" where
  "linear_of h \<equiv> unat (fst (snd (decode_handle h)))"

lemma issued_linear:
  assumes "ht_wf t" "table_run ht_add ht_remove get_object rs t = Some (ps, t')"
  shows "map linear_of (issued ps) =
         map (lin_after (unat (next_linear_id t))) [0..<length (issued ps)]"
  using assms
proof (induction rs arbitrary: t ps)
  case Nil
  then show ?case by simp
next
  case (Cons r rs)
  show ?case
  proof (cases r)
    case (ReqAdd x)
    with Cons.prems obtain q t1 ps' where
      q: "ht_add x t = Some (q, t1)" "table_run ht_add ht_remove get_object rs t1 = Some (ps', t')"
      and ps: "ps = RepAdd q # ps'"
      by (auto split: bind_splits)
    have wf1: "ht_wf t1" using ht_add_total [OF Cons.prems(1), of x] q by auto
    note IH = Cons.IH [OF wf1 q(2)]
    show ?thesis
    proof (cases q)
      case (Inl e)
      with ht_add_InlD q IH ps show ?thesis by auto
    next
      case (Inr h)
      with Cons.prems(1) q(1) obtain i fl where rep: "ht_rep t (i # fl)"
        and h: "h = encode_handle (word_of_nat i) (next_linear_id t)"
        and t1: "t1 = (take_slot i t)\<lparr>objects := (objects t)(i := x)\<rparr>"
        by (auto elim: ht_add_InrD)
      define l where "l = unat (next_linear_id t)"
      have l: "0 < l" "l \<le> 0x7FFF"
        using rep by (auto simp: ht_rep_def l_def word_le_nat_alt unat_gt_0)
      have "linear_of h = l"
        by (simp add: h decode_encode_slot [OF rep] l_def)
      moreover have "unat (next_linear_id t1) = lin_after l 1"
        using next_linear_after [OF rep] by (simp add: t1 take_slot_def l_def)
      moreover have "map (lin_after l) [0..<Suc n] = l # map (lin_after (lin_after l 1)) [0..<n]" for n
        using l by (simp add: lin_after_0 lin_after_Suc map_upt_Suc del: upt_Suc)
      ultimately show ?thesis
        using IH by (simp add: ps Inr l_def [symmetric] del: upt_Suc)
    qed
  next
    case (ReqRemove h)
    with Cons.prems obtain b t1 ps' where
      q: "ht_remove h t = Some (b, t1)" "table_run ht_add ht_remove get_object rs t1 = Some (ps', t')"
      and ps: "ps = RepRemove b # ps'"
      by (auto split: bind_splits)
    moreover have "ht_wf t1" using ht_remove_spec [OF Cons.prems(1), of h] q by auto
    ultimately show ?thesis
      using Cons.IH [of t1 ps'] ht_remove_next [OF q(1)] by simp
  next
    case (ReqGet h)
    with Cons show ?thesis by (auto split: bind_splits)
  qed
qed

section \<open>Whole-table scans\<close>

lemma occupied_slot:
  assumes "ht_wf t" "i < table_size t" "objects t i \<noteq> 0"
  shows "decode_handle (encode_handle (word_of_nat i) (entry_infos t i)) =
           (word_of_nat i, entry_infos t i, 0)"
    and "unat (word_of_nat i :: u16) = i" and "live t i (entry_infos t i)"
proof -
  from assms have "i < 1024" "0 < entry_infos t i" "entry_infos t i \<le> MAX_LINEAR_ID"
    by (auto simp: ht_wf_def ht_rep_def)
  moreover from this show "unat (word_of_nat i :: u16) = i"
    by (simp add: unat_of_nat)
  ultimately show "decode_handle (encode_handle (word_of_nat i) (entry_infos t i)) =
           (word_of_nat i, entry_infos t i, 0)" "live t i (entry_infos t i)"
    using assms by (auto intro!: decode_encode simp: live_def)
qed

lemma fold_clear_objects:
  "fold (\<lambda>i t. if objects t i \<noteq> 0 then t\<lparr>objects := (objects t)(i := 0)\<rparr> else t) [0..<n] t =
   t\<lparr>objects := (\<lambda>i. if i < n then 0 else objects t i)\<rparr>"
  by (induction n) (auto simp: fun_eq_iff less_Suc_eq)

lemma get_object_initialized:
  assumes "sz \<le> int MAX_TABLE_SIZE"
  shows "get_object (snd (ht_initialize sz t)) = (\<lambda>_. None)"
  using assms
  by (auto simp: ht_initialize_def Let_def fold_init_entry get_object_eq is_valid_handle_iff
      live_def fun_eq_iff)

section \<open>Properties\<close>

text \<open>
  C1: from an initialized table, every sequence of additions, removals and lookups runs without
  a panic and answers exactly as a finite map from handles to objects does.
\<close>

theorem handle_table_refines_map:
  assumes "sz \<le> int MAX_TABLE_SIZE" "adds_ok (\<lambda>x. x \<noteq> 0) rs"
  shows "\<exists>t ps t'. ht_initialize sz t0 = (0, t) \<and>
           table_run ht_add ht_remove get_object rs t = Some (ps, t') \<and>
           ht_wf t' \<and> table_spec (\<lambda>_. None) rs ps (get_object t')"
proof -
  obtain t where t: "ht_initialize sz t0 = (0, t)" and wf: "ht_wf t"
    using ht_initialize_rep [OF assms(1)] ht_wf_iff by blast
  have "get_object t = (\<lambda>_. None)"
    using get_object_initialized [OF assms(1), of t0] t by simp
  with ht.run_simulates [OF wf assms(2)] t show ?thesis by auto
qed

theorem handle_table_refines_map_witness:
  "\<exists>t ps t'. ht_initialize 4 ht_new = (0, t) \<and>
     table_run ht_add ht_remove get_object [ReqAdd 7, ReqAdd 9, ReqRemove 0x8003, ReqGet 0x8003] t
       = Some (ps, t') \<and> ht_wf t' \<and>
     table_spec (\<lambda>_. None) [ReqAdd 7, ReqAdd 9, ReqRemove 0x8003, ReqGet 0x8003] ps (get_object t')"
  by (rule handle_table_refines_map) simp_all

text \<open>
  On a well-formed table an addition never panics; it answers out-of-memory exactly when
  every slot is occupied or reserved, leaving the table alone, and otherwise answers a handle
  with index below the table size, a non-zero linear id and zero reserved bits.
\<close>

theorem handle_add_outcome:
  assumes "ht_wf t"
  shows "\<exists>r t'. ht_add x t = Some (r, t') \<and>
    (if ht_count t = table_size t then r = Inl 1 \<and> t' = t
     else ht_count t' = ht_count t + 1 \<and>
       (\<exists>h i l. r = Inr h \<and> decode_handle h = (i, l, 0) \<and> unat i < table_size t \<and>
          0 < l \<and> l \<le> MAX_LINEAR_ID))"
proof -
  obtain fl where fl: "ht_rep t fl" using assms ht_wf_iff by blast
  show ?thesis
  proof (cases fl)
    case Nil
    with fl show ?thesis by (simp add: ht_full ht_rep_def)
  next
    case (Cons i fl')
    with fl have rep: "ht_rep t (i # fl')" by simp
    then have "i < table_size t" "ht_count t \<noteq> table_size t" "0 < next_linear_id t"
      "next_linear_id t \<le> MAX_LINEAR_ID"
      by (auto simp: ht_rep_def)
    with rep show ?thesis
      by (simp add: ht_add_eq take_slot_def decode_encode_slot [OF rep])
  qed
qed

theorem handle_add_outcome_witness:
  "\<exists>r t'. ht_add 7 (snd (ht_initialize 4 ht_new)) = Some (r, t')"
proof -
  have "ht_wf (snd (ht_initialize 4 ht_new))"
    using ht_initialize_rep [of 4 ht_new] ht_wf_iff by force
  from handle_add_outcome [OF this, of 7] show ?thesis by blast
qed

text \<open>
  C2: reserving, then registering or unreserving. A reserved handle resolves to nothing; one
  registration makes exactly that handle resolve to the object and a second is refused; giving
  the reservation back instead restores the mapping and the free list as they were.
\<close>

theorem handle_reservation_lifecycle:
  assumes "ht_wf t" "ht_reserve t = Some (Inr h, t1)" "x \<noteq> 0"
  shows "get_object t1 = get_object t \<and> get_object t h = None \<and>
    (\<exists>t2. ht_register h x t1 = (True, t2) \<and> ht_wf t2 \<and>
          get_object t2 = (get_object t)(h \<mapsto> x) \<and> ht_register h x t2 = (False, t2)) \<and>
    (\<exists>t3. ht_unreserve h t1 = Some t3 \<and> ht_wf t3 \<and> get_object t3 = get_object t \<and>
          free_list t3 = free_list t)"
proof -
  have r: "ht_wf t1" "reserved t1 h" "get_object t1 = get_object t"
    "free_list t = unat (fst (decode_handle h)) # free_list t1"
    using ht_reserve_reserved [OF assms(1,2)] by auto
  obtain t2 where t2: "ht_register h x t1 = (True, t2)" "ht_wf t2" "\<not> reserved t2 h"
    "get_object t2 = (get_object t1)(h \<mapsto> x)"
    using ht_register_reserved [OF r(1,2) assms(3)] by blast
  have "get_object t h = None"
    using r by (auto simp: reserved_def get_object_eq is_valid_handle_iff live_def
        simp flip: r(3))
  moreover have "get_object t2 h = Some x" using t2 by simp
  then have "ht_register h x t2 = (False, t2)"
    by (auto simp: get_object_Some_iff ht_register_def live_def)
  ultimately show ?thesis
    using r t2 ht_unreserve_reserved [OF r(1,2)] by auto
qed

text \<open>A small initialized table, for the witnesses.\<close>

definition table4 :: KHandleTable where
  "table4 = snd (ht_initialize 4 ht_new)"

lemma table4_rep: "ht_rep table4 [3, 2, 1, 0]"
proof -
  have "rev [0..<4] = [3, 2, 1, 0 :: nat]" by (simp add: upt_rec)
  then show ?thesis using ht_initialize_rep [of 4 ht_new] by (auto simp: table4_def)
qed

lemma table4_wf: "ht_wf table4"
  using table4_rep ht_wf_iff by blast

lemma table4_next: "next_linear_id table4 = 1"
  by (simp add: table4_def ht_initialize_def fold_init_entry)

theorem handle_reservation_lifecycle_witness:
  "get_object (take_slot 3 table4) = get_object table4 \<and>
   (\<exists>t3. ht_unreserve (encode_handle 3 1) (take_slot 3 table4) = Some t3 \<and>
         free_list t3 = free_list table4)"
  using handle_reservation_lifecycle
    [OF table4_wf ht_reserve_eq [OF table4_rep], of 7] by (auto simp: table4_next)

text \<open>
  C3: a stale handle is not reissued: over any run of requests that allocates at most 32767
  handles, all the handles issued are different, although their slots are reused.
\<close>

theorem handle_values_not_reused:
  assumes "ht_wf t" "table_run ht_add ht_remove get_object rs t = Some (ps, t')"
    and "length (issued ps) \<le> 0x7FFF"
  shows "distinct (issued ps)"
proof -
  have "inj_on (lin_after (unat (next_linear_id t))) {0..<length (issued ps)}"
    using lin_after_inj by (rule inj_on_subset) (use assms(3) in auto)
  then have "distinct (map linear_of (issued ps))"
    unfolding issued_linear [OF assms(1,2)] by (simp add: distinct_map)
  then show ?thesis by (simp add: distinct_map)
qed

theorem handle_values_not_reused_witness:
  "\<exists>h t1 t2 t3 h'. ht_add 7 table4 = Some (Inr h, t1) \<and> ht_remove h t1 = Some (True, t2) \<and>
     ht_add 8 t2 = Some (Inr h', t3) \<and> fst (decode_handle h) = fst (decode_handle h') \<and> h \<noteq> h'"
proof -
  let ?h = "encode_handle 3 1"
  obtain t1 where t1: "ht_add 7 table4 = Some (Inr ?h, t1)"
    using ht_add_eq [OF table4_rep, of 7] by (simp add: table4_next)
  have "ht_wf t1" "get_object t1 ?h = Some 7"
    using ht_add_total [OF table4_wf, of 7] ht_add_look [OF table4_wf _ t1] t1 by auto
  moreover have t1': "t1 = (take_slot 3 table4)\<lparr>objects := (objects table4)(3 := 7)\<rparr>"
    using ht_add_eq [OF table4_rep, of 7] t1 by simp
  have rep1: "ht_rep t1 [2, 1, 0]"
    unfolding t1' using ht_rep_store [OF ht_rep_take_slot [OF table4_rep], of 3 7]
    by (simp add: take_slot_def)
  moreover have dec: "decode_handle ?h = (3, 1, 0)" by (simp add: decode_encode)
  have "table_size t1 = 4"
    by (simp add: t1' take_slot_def table4_def ht_initialize_def fold_init_entry)
  with free_entry_rep [OF rep1, of 3] obtain t2 where
    f: "free_entry (int 3) t1 = Some t2" "ht_rep t2 [3, 2, 1, 0]"
    "next_linear_id t2 = next_linear_id t1" by auto
  ultimately have rem: "ht_remove ?h t1 = Some (True, t2)"
    by (simp add: ht_remove_def dec get_object_eq split: if_splits)
  have "next_linear_id t1 = 2"
    by (simp add: t1' take_slot_def allocate_linear_id_def Let_def table4_next)
  then obtain t3 where t3: "ht_add 8 t2 = Some (Inr (encode_handle 3 2), t3)"
    using ht_add_eq [OF f(2), of 8] f(3) by simp
  have "table_run ht_add ht_remove get_object [ReqAdd 7, ReqRemove ?h, ReqAdd 8] table4 =
      Some ([RepAdd (Inr ?h), RepRemove True, RepAdd (Inr (encode_handle 3 2))], t3)"
    by (simp add: t1 rem t3)
  from handle_values_not_reused [OF table4_wf this]
  have "?h \<noteq> encode_handle 3 2" by simp
  with t1 rem t3 show ?thesis by (auto simp: decode_encode)
qed

text \<open>
  The whole-table scan \<open>contains_object_id\<close> answers true exactly when some handle
  resolves to the (non-null) object, and after \<open>finalize\<close> no handle resolves at all.
\<close>

theorem contains_object_id_correct:
  assumes "ht_wf t"
  shows "(contains_object_id t x \<longleftrightarrow> x \<noteq> 0 \<and> (\<exists>h. get_object t h = Some x)) \<and>
    (\<forall>h. get_object (snd (ht_finalize t)) h = None) \<and>
    \<not> contains_object_id (snd (ht_finalize t)) x"
proof -
  have "\<exists>i < table_size t. objects t i = x \<and>
      is_valid_handle t (encode_handle (word_of_nat i) (entry_infos t i))"
    if "get_object t h = Some x" for h
  proof -
    from that obtain i l where "live t (unat (i :: u16)) l" "objects t (unat i) = x"
      unfolding get_object_Some_iff by blast
    then have i: "unat i < table_size t" "objects t (unat i) \<noteq> 0" "objects t (unat i) = x"
      by (auto simp: live_def)
    from occupied_slot [OF assms i(1,2)] i show ?thesis
      by (intro exI [of _ "unat i"]) (auto simp: is_valid_handle_iff)
  qed
  moreover have "\<exists>h. get_object t h = Some x"
    if "i < table_size t" "objects t i = x" "x \<noteq> 0" for i
  proof -
    have "objects t i \<noteq> 0" using that by simp
    from occupied_slot [OF assms that(1) this] that(2)
    have "get_object t (encode_handle (word_of_nat i) (entry_infos t i)) = Some x"
      by (simp add: get_object_Some_iff)
    then show ?thesis by blast
  qed
  ultimately have "contains_object_id t x \<longleftrightarrow> x \<noteq> 0 \<and> (\<exists>h. get_object t h = Some x)"
    by (force simp: contains_object_id_def list_ex_iff)
  moreover have "get_object (snd (ht_finalize t)) h = None" for h
    by (simp add: ht_finalize_def fold_clear_objects get_object_eq is_valid_handle_iff live_def Let_def)
  ultimately show ?thesis
    by (simp add: contains_object_id_def ht_finalize_def fold_clear_objects Let_def)
qed

theorem contains_object_id_correct_witness:
  "\<not> contains_object_id table4 7"
proof -
  have "get_object table4 = (\<lambda>_. None)"
    using get_object_initialized [of 4 ht_new] by (simp add: table4_def)
  with contains_object_id_correct [OF table4_wf, of 7] show ?thesis by simp
qed

text \<open>
  C4: \<open>unreserve\<close> does not check its handle against the table size. On a well-formed table
  that has an allocated slot, unreserving a handle whose index lies beyond the table puts that
  index on the free list, the next addition succeeds on it, and the handle it answers does not
  resolve; an index past the arrays panics.
\<close>

theorem unreserve_leaks_outside_table:
  assumes "ht_wf t" "0 < ht_count t" "decode_handle h = (i, l, r)" "table_size t \<le> unat i"
  shows "if unat i < MAX_TABLE_SIZE
    then \<exists>t1 h' t2. ht_unreserve h t = Some t1 \<and> ht_add x t1 = Some (Inr h', t2) \<and>
           fst (decode_handle h') = i \<and> get_object t2 h' = None
    else ht_unreserve h t = None"
proof (cases "unat i < MAX_TABLE_SIZE")
  case False
  with assms show ?thesis by (simp add: ht_unreserve_def free_entry_def)
next
  case True
  define t1 where "t1 = t\<lparr>objects := (objects t)(unat i := 0),
    entry_infos := (entry_infos t)(unat i := word_of_int (free_head_index t)),
    free_head_index := uint i, ht_count := ht_count t - 1\<rparr>"
  have u: "ht_unreserve h t = Some t1"
    using assms True by (simp add: ht_unreserve_def free_entry_def t1_def)
  have lin: "0 < next_linear_id t" "next_linear_id t \<le> MAX_LINEAR_ID"
    "ht_count t \<le> table_size t"
    using assms by (auto simp: ht_wf_def ht_rep_def)
  have dec: "decode_handle (encode_handle i (next_linear_id t)) = (i, next_linear_id t, 0)"
    using True lin by (intro decode_encode) auto
  have "\<exists>t2. ht_add x t1 = Some (Inr (encode_handle i (next_linear_id t)), t2) \<and>
      table_size t2 = table_size t"
    using assms(2) lin True
    by (auto simp: ht_add_def allocate_entry_def allocate_linear_id_def t1_def Let_def)
  then obtain t2 where t2: "ht_add x t1 = Some (Inr (encode_handle i (next_linear_id t)), t2)"
    "table_size t2 = table_size t" by blast
  then have "get_object t2 (encode_handle i (next_linear_id t)) = None"
    using dec assms(4) by (simp add: get_object_eq is_valid_handle_iff live_def)
  with u dec t2 True show ?thesis by auto
qed

theorem unreserve_leaks_outside_table_witness:
  "\<exists>t0 t1 h' t2. ht_add 7 table4 = Some (Inr (encode_handle 3 1), t0) \<and>
     ht_unreserve (encode_handle 9 1) t0 = Some t1 \<and> ht_add 8 t1 = Some (Inr h', t2) \<and>
     get_object t2 h' = None"
proof -
  obtain t0 where t0: "ht_add 7 table4 = Some (Inr (encode_handle 3 1), t0)"
    using ht_add_eq [OF table4_rep, of 7] by (simp add: table4_next)
  have s: "table_size table4 = 4" "ht_count table4 = 0"
    by (simp_all add: table4_def ht_initialize_def fold_init_entry)
  have "ht_wf t0" "0 < ht_count t0" "table_size t0 = 4"
    using ht_add_total [OF table4_wf, of 7] t0 ht_add_eq [OF table4_rep, of 7] s
    by (auto simp: take_slot_def)
  moreover have "decode_handle (encode_handle 9 1) = (9, 1, 0)" by (simp add: decode_encode)
  ultimately show ?thesis
    using unreserve_leaks_outside_table [of t0 "encode_handle 9 1" 9 1 0 8] t0 by fastforce
qed

text \<open>
  \<open>register\<close> is documented to need a slot allocated by \<open>reserve\<close>, and does not check it:
  because a free slot stores the index of the next free slot in the word that an occupied slot
  uses for its linear id, the handle with index \<open>i\<close> and linear id equal to the next free index
  registers on the free slot \<open>i\<close>, and the object is lost to the next addition.
\<close>

theorem register_accepts_free_slot:
  assumes "ht_rep t (i # j # fl)" "0 < j" "x \<noteq> 0" "y \<noteq> 0"
  shows "\<exists>h t1 h' t2. ht_register h x t = (True, t1) \<and> \<not> reserved t h \<and>
    get_object t1 h = Some x \<and> ht_add y t1 = Some (Inr h', t2) \<and>
    objects t2 i = y \<and> (h' \<noteq> h \<longrightarrow> get_object t2 h = None)"
proof -
  define h where "h = encode_handle (word_of_nat i) (word_of_nat j)"
  define t1 where "t1 = t\<lparr>objects := (objects t)(i := x)\<rparr>"
  have b: "i < 1024" "j < 1024" "i < table_size t" "objects t i = 0" "0 < next_linear_id t"
    "next_linear_id t \<le> MAX_LINEAR_ID" "ht_count t < table_size t" "free_head_index t = int i"
    and ej: "sint (entry_infos t i) = int j" and tb: "table_size t \<le> 1024"
    using assms(1) by (auto simp: ht_rep_def)
  have e: "entry_infos t i = word_of_nat j"
  proof -
    have "word_of_int (sint (entry_infos t i)) = (word_of_nat j :: u16)"
      by (simp only: ej of_int_of_nat_eq)
    then show ?thesis by simp
  qed
  have u: "unat (word_of_nat i :: u16) = i" "unat (word_of_nat j :: u16) = j"
    using b by (simp_all add: unat_of_nat)
  have dec: "decode_handle h = (word_of_nat i, word_of_nat j, 0)"
    unfolding h_def using u b by (intro decode_encode) (simp_all add: word_le_nat_alt)
  have j0: "word_of_nat j \<noteq> (0 :: u16)" using u assms(2) by (metis less_irrefl unat_0)
  have reg: "ht_register h x t = (True, t1)"
    using b u e dec j0 encode_nonzero [OF dec] by (simp add: ht_register_def t1_def)
  have get: "get_object t1 h = Some x"
    using b u e j0 assms(3) by (simp add: get_object_Some_iff dec live_def t1_def)
  have fl: "free_list t = i # j # fl" using ht_rep_free_list [OF assms(1)] by simp
  have "\<not> reserved t h" by (simp add: reserved_def dec u fl)
  moreover define h' where "h' = encode_handle (word_of_nat i) (next_linear_id t)"
  obtain t2 where t2: "ht_add y t1 = Some (Inr h', t2)" "objects t2 i = y"
    "entry_infos t2 i = next_linear_id t" "table_size t2 = table_size t"
    using b tb by (auto simp: ht_add_def allocate_entry_def allocate_linear_id_def t1_def Let_def
        h'_def)
  have "get_object t2 h = None" if "h' \<noteq> h"
  proof -
    have "next_linear_id t \<noteq> word_of_nat j" using that by (auto simp: h_def h'_def)
    then show ?thesis by (simp add: get_object_eq is_valid_handle_iff dec u live_def t2)
  qed
  ultimately show ?thesis using reg get t2 by blast
qed

theorem register_accepts_free_slot_witness:
  "\<exists>h t1. ht_register h 7 table4 = (True, t1) \<and> \<not> reserved table4 h \<and> get_object t1 h = Some 7"
  using register_accepts_free_slot [of table4 3 2 "[1, 0]" 7 8] table4_rep by auto

end
