(* ===== verification/ResourceLimit.thy ===== *)
theory ResourceLimit
  imports Prelude
begin

text \<open>
  Resource accounting of a process, \<open>KResourceLimit\<close> of
  src/core/src/hle/kernel/k_resource_limit.rs.

  Every method runs under the object's \<open>KLightLock\<close>, so one method (or one stretch of
  \<open>reserve_with_timeout\<close> between two waits) is one atomic step here. The wait on the condition
  variable releases the lock: \<open>reserve_with_timeout\<close> is cut there, into \<open>reserve_begin\<close> (from the
  call to the first return or wait) and \<open>reserve_wake\<close> (from one wake-up to the next return or
  wait), and the step relation \<open>rl_step\<close> lets the other threads act in between. The hardware
  timer is outside this file: its reading is a parameter, \<^term>\<open>None\<close> when there is no timer.
  The value arrays hold \<open>i64\<close>; additions wrap as in the release build.
\<close>

section \<open>Data\<close>

datatype LimitableResource =
  PhysicalMemoryMax | ThreadCountMax | EventCountMax | TransferMemoryCountMax
| SessionCountMax | Count

fun resource_index :: "LimitableResource \<Rightarrow> nat" where
  "resource_index PhysicalMemoryMax = 0"
| "resource_index ThreadCountMax = 1"
| "resource_index EventCountMax = 2"
| "resource_index TransferMemoryCountMax = 3"
| "resource_index SessionCountMax = 4"
| "resource_index Count = 5"

abbreviation LIMITABLE_RESOURCE_COUNT :: nat where "LIMITABLE_RESOURCE_COUNT \<equiv> 5"

definition is_valid_resource_type :: "LimitableResource \<Rightarrow> bool" where
  "is_valid_resource_type r \<longleftrightarrow> resource_index r < resource_index Count"

definition DEFAULT_TIMEOUT :: int where "DEFAULT_TIMEOUT = 10000000000"

record KResourceLimit =
  limit_values :: "nat \<Rightarrow> int"
  current_values :: "nat \<Rightarrow> int"
  current_hints :: "nat \<Rightarrow> int"
  peak_values :: "nat \<Rightarrow> int"
  waiter_count :: int

text \<open>Indexing one of the arrays with the resource; \<open>Count\<close> is out of range and panics.\<close>

definition resource_ix :: "LimitableResource \<Rightarrow> nat option" where
  "resource_ix which = ix LIMITABLE_RESOURCE_COUNT (int (resource_index which))"

section \<open>Operations\<close>

definition rl_new :: KResourceLimit where
  "rl_new = \<lparr>limit_values = (\<lambda>_. 0), current_values = (\<lambda>_. 0), current_hints = (\<lambda>_. 0),
     peak_values = (\<lambda>_. 0), waiter_count = 0\<rparr>"

definition get_limit_value :: "LimitableResource \<Rightarrow> KResourceLimit \<Rightarrow> int option" where
  "get_limit_value which r = do { i \<leftarrow> resource_ix which; Some (limit_values r i) }"

definition get_current_value :: "LimitableResource \<Rightarrow> KResourceLimit \<Rightarrow> int option" where
  "get_current_value which r = do { i \<leftarrow> resource_ix which; Some (current_values r i) }"

definition get_peak_value :: "LimitableResource \<Rightarrow> KResourceLimit \<Rightarrow> int option" where
  "get_peak_value which r = do { i \<leftarrow> resource_ix which; Some (peak_values r i) }"

definition get_free_value :: "LimitableResource \<Rightarrow> KResourceLimit \<Rightarrow> int option" where
  "get_free_value which r = do {
     i \<leftarrow> resource_ix which;
     Some (wrap64 (limit_values r i - current_values r i)) }"

definition set_limit_value ::
  "LimitableResource \<Rightarrow> int \<Rightarrow> KResourceLimit \<Rightarrow> ((unit + unit) \<times> KResourceLimit) option" where
  "set_limit_value which value r = do {
     i \<leftarrow> resource_ix which;
     let current = current_values r i;
     if current > value then Some (Inl (), r)
     else Some (Inr (), r\<lparr>limit_values := (limit_values r)(i := value),
                          peak_values := (peak_values r)(i := current)\<rparr>) }"

text \<open>What one stretch of \<open>reserve_with_timeout\<close> ends in: a return, or the wait.\<close>

datatype reserve_outcome = Done bool | Wait

definition not_expired :: "int \<Rightarrow> int option \<Rightarrow> bool" where
  "not_expired timeout tick \<longleftrightarrow>
     timeout < 0 \<or> (case tick of None \<Rightarrow> 2 ^ 63 - 1 | Some t \<Rightarrow> t) < timeout"

definition reserve_iter ::
  "nat \<Rightarrow> int \<Rightarrow> int \<Rightarrow> int option \<Rightarrow> KResourceLimit \<Rightarrow> reserve_outcome \<times> KResourceLimit" where
  "reserve_iter i value timeout tick r =
     (let current = current_values r i;
          hint = current_hints r i;
          limit = limit_values r i
      in if wrap64 (current + value) \<le> current then (Done False, r)
         else if wrap64 (current + value) \<le> limit then
           (let new_current = wrap64 (current + value)
            in (Done True,
                r\<lparr>current_values := (current_values r)(i := new_current),
                  current_hints := (current_hints r)(i := wrap64 (hint + value)),
                  peak_values := (peak_values r)(i := max (peak_values r i) new_current)\<rparr>))
         else if wrap64 (hint + value) \<le> limit \<and> not_expired timeout tick
         then (Wait, r\<lparr>waiter_count := waiter_count r + 1\<rparr>)
         else (Done False, r))"

definition reserve_begin ::
  "LimitableResource \<Rightarrow> int \<Rightarrow> int \<Rightarrow> int option \<Rightarrow> KResourceLimit \<Rightarrow>
   (reserve_outcome \<times> KResourceLimit) option" where
  "reserve_begin which value timeout tick r = do {
     i \<leftarrow> resource_ix which;
     if current_hints r i \<ge> limit_values r i then Some (Done False, r)
     else Some (reserve_iter i value timeout tick r) }"

definition reserve_wake ::
  "LimitableResource \<Rightarrow> int \<Rightarrow> int \<Rightarrow> int option \<Rightarrow> KResourceLimit \<Rightarrow>
   (reserve_outcome \<times> KResourceLimit) option" where
  "reserve_wake which value timeout tick r = do {
     i \<leftarrow> resource_ix which;
     Some (reserve_iter i value timeout tick (r\<lparr>waiter_count := waiter_count r - 1\<rparr>)) }"

text \<open>\<open>reserve\<close>: the call with the default absolute timeout.\<close>

definition rl_reserve ::
  "LimitableResource \<Rightarrow> int \<Rightarrow> int option \<Rightarrow> int option \<Rightarrow> KResourceLimit \<Rightarrow>
   (reserve_outcome \<times> KResourceLimit) option" where
  "rl_reserve which value now tick r =
     (let timeout = wrap64 ((case now of None \<Rightarrow> 0 | Some t \<Rightarrow> t) + DEFAULT_TIMEOUT)
      in reserve_begin which value timeout tick r)"

text \<open>The boolean of a release says whether it broadcasts to the waiters.\<close>

definition release_with_hint ::
  "LimitableResource \<Rightarrow> int \<Rightarrow> int \<Rightarrow> KResourceLimit \<Rightarrow> (bool \<times> KResourceLimit) option" where
  "release_with_hint which value hint r = do {
     i \<leftarrow> resource_ix which;
     let current = current_values r i;
     let current_hint = current_hints r i;
     let r = r\<lparr>current_values := (current_values r)(i := wrap64 (current - value)),
               current_hints := (current_hints r)(i := wrap64 (current_hint - hint))\<rparr>;
     Some (waiter_count r \<noteq> 0, r) }"

definition rl_release ::
  "LimitableResource \<Rightarrow> int \<Rightarrow> KResourceLimit \<Rightarrow> (bool \<times> KResourceLimit) option" where
  "rl_release which value r = release_with_hint which value value r"

text \<open>\<open>set_limit_value(..).expect(..)\<close> of the process set-up panics on an error.\<close>

definition set_limit_expect :: "LimitableResource \<Rightarrow> int \<Rightarrow> KResourceLimit \<Rightarrow> KResourceLimit option" where
  "set_limit_expect which value r = do {
     (res, r) \<leftarrow> set_limit_value which value r;
     case res of Inl _ \<Rightarrow> None | Inr _ \<Rightarrow> Some r }"

definition create_resource_limit_for_process :: "int \<Rightarrow> KResourceLimit option" where
  "create_resource_limit_for_process physical_memory_size = do {
     r \<leftarrow> set_limit_expect PhysicalMemoryMax physical_memory_size rl_new;
     r \<leftarrow> set_limit_expect ThreadCountMax 800 r;
     r \<leftarrow> set_limit_expect EventCountMax 900 r;
     r \<leftarrow> set_limit_expect TransferMemoryCountMax 200 r;
     set_limit_expect SessionCountMax 1133 r }"

section \<open>The accounting invariant\<close>

definition rl_inv :: "KResourceLimit \<Rightarrow> bool" where
  "rl_inv r \<longleftrightarrow> (\<forall>i < LIMITABLE_RESOURCE_COUNT.
     0 \<le> current_hints r i \<and> current_hints r i \<le> current_values r i \<and>
     current_values r i \<le> peak_values r i \<and> peak_values r i \<le> limit_values r i \<and>
     limit_values r i < 2 ^ 63)"

lemma resource_ix_simps [simp]:
  "resource_ix PhysicalMemoryMax = Some 0" "resource_ix ThreadCountMax = Some 1"
  "resource_ix EventCountMax = Some 2" "resource_ix TransferMemoryCountMax = Some 3"
  "resource_ix SessionCountMax = Some 4" "resource_ix Count = None"
  by (simp_all add: resource_ix_def ix_def)

lemma resource_ix_SomeD: "resource_ix w = Some i \<Longrightarrow> i < LIMITABLE_RESOURCE_COUNT"
  by (simp add: resource_ix_def ix_Some_iff)

lemma resource_ix_valid: "is_valid_resource_type w \<longleftrightarrow> (\<exists>i. resource_ix w = Some i)"
  by (cases w) (simp_all add: is_valid_resource_type_def)

lemma rl_invD:
  assumes "rl_inv r" "i < LIMITABLE_RESOURCE_COUNT"
  shows "0 \<le> current_hints r i" "current_hints r i \<le> current_values r i"
    "current_values r i \<le> peak_values r i" "peak_values r i \<le> limit_values r i"
    "limit_values r i < 2 ^ 63"
  using assms by (auto simp: rl_inv_def)

text \<open>
  The overflow test of the loop: for a non-negative \<open>i64\<close> value it rejects exactly the
  reservations of nothing and those whose sum leaves the \<open>i64\<close> range.
\<close>

lemma overflow_test:
  assumes "0 \<le> c" "c < 2 ^ 63" "0 \<le> v" "v < 2 ^ 63"
  shows "wrap64 (c + v) \<le> c \<longleftrightarrow> v = 0 \<or> 2 ^ 63 \<le> c + v"
proof (cases "c + v < 2 ^ 63")
  case True
  with assms have "wrap64 (c + v) = c + v" by (intro wrap64_id) (simp add: i64_range_def)
  with True assms show ?thesis by auto
next
  case False
  with assms have "wrap64 (c + v) = c + v - 2 ^ 64" by (intro wrap64_overflow) auto
  with False assms show ?thesis by auto
qed

text \<open>The loop body in plain integer arithmetic, on states that satisfy the invariant.\<close>

lemma reserve_iter_eq:
  assumes "rl_inv r" "i < LIMITABLE_RESOURCE_COUNT" "0 \<le> v" "v < 2 ^ 63"
  shows "reserve_iter i v timeout tick r =
    (if 0 < v \<and> current_values r i + v \<le> limit_values r i then
       (Done True, r\<lparr>current_values := (current_values r)(i := current_values r i + v),
          current_hints := (current_hints r)(i := current_hints r i + v),
          peak_values := (peak_values r)(i := max (peak_values r i) (current_values r i + v))\<rparr>)
     else if 0 < v \<and> current_values r i + v < 2 ^ 63 \<and>
             current_hints r i + v \<le> limit_values r i \<and> not_expired timeout tick
     then (Wait, r\<lparr>waiter_count := waiter_count r + 1\<rparr>)
     else (Done False, r))"
proof -
  note inv = rl_invD [OF assms(1,2)]
  have c: "0 \<le> current_values r i" "current_values r i < 2 ^ 63" using inv by auto
  show ?thesis
  proof (cases "v = 0 \<or> 2 ^ 63 \<le> current_values r i + v")
    case True
    then show ?thesis
      using overflow_test [OF c assms(3,4)] inv by (auto simp: reserve_iter_def Let_def)
  next
    case False
    then have w: "wrap64 (current_values r i + v) = current_values r i + v"
      "wrap64 (current_hints r i + v) = current_hints r i + v"
      using inv assms by (auto intro!: wrap64_id simp: i64_range_def)
    show ?thesis
      using False assms inv unfolding reserve_iter_def Let_def w by auto
  qed
qed

lemma rl_inv_waiter [simp]: "rl_inv (r\<lparr>waiter_count := n\<rparr>) = rl_inv r"
  by (simp add: rl_inv_def)

lemma reserve_iter_inv:
  assumes "rl_inv r" "i < LIMITABLE_RESOURCE_COUNT" "0 \<le> v" "v < 2 ^ 63"
  shows "rl_inv (snd (reserve_iter i v timeout tick r))"
  using assms by (auto simp: reserve_iter_eq rl_inv_def)

lemma reserve_iter_waiters:
  "waiter_count (snd (reserve_iter i v timeout tick r)) =
     waiter_count r + (if fst (reserve_iter i v timeout tick r) = Wait then 1 else 0)"
  by (simp add: reserve_iter_def Let_def)

text \<open>
  What \<open>release_with_hint\<close> asks of its caller: the amounts its \<open>debug_assert\<close>s name, and that
  the hint is not left above the current value.
\<close>

definition release_ok :: "nat \<Rightarrow> int \<Rightarrow> int \<Rightarrow> KResourceLimit \<Rightarrow> bool" where
  "release_ok i value hint r \<longleftrightarrow>
     0 \<le> value \<and> 0 \<le> hint \<and> value \<le> current_values r i \<and> hint \<le> current_hints r i \<and>
     current_hints r i - hint \<le> current_values r i - value"

lemma release_eq:
  assumes "rl_inv r" "resource_ix w = Some i" "release_ok i v h r"
  shows "release_with_hint w v h r = Some (waiter_count r \<noteq> 0,
    r\<lparr>current_values := (current_values r)(i := current_values r i - v),
      current_hints := (current_hints r)(i := current_hints r i - h)\<rparr>)"
proof -
  note inv = rl_invD [OF assms(1) resource_ix_SomeD [OF assms(2)]]
  have "wrap64 (current_values r i - v) = current_values r i - v"
    "wrap64 (current_hints r i - h) = current_hints r i - h"
    using inv assms(3) by (auto intro!: wrap64_id simp: i64_range_def release_ok_def)
  with assms(2) show ?thesis by (simp add: release_with_hint_def)
qed

lemma release_inv:
  assumes "rl_inv r" "resource_ix w = Some i" "release_ok i v h r"
  shows "rl_inv (snd (the (release_with_hint w v h r)))"
  using assms(1,3) resource_ix_SomeD [OF assms(2)]
  by (auto simp: release_eq [OF assms] rl_inv_def release_ok_def)

lemma set_limit_inv:
  assumes "rl_inv r" "set_limit_value w v r = Some (res, r')" "v < 2 ^ 63"
  shows "rl_inv r' \<and> waiter_count r' = waiter_count r"
  using assms by (auto simp: set_limit_value_def Let_def rl_inv_def split: bind_splits if_splits)

section \<open>The system of threads around one resource limit\<close>

text \<open>
  \<open>waiting\<close> lists the calls of \<open>reserve_with_timeout\<close> that are inside the wait. A wake-up may
  come from a broadcast, from the timeout or spuriously, so any waiting call may wake in any state.
\<close>

record rl_sys =
  limit :: KResourceLimit
  waiting :: "(LimitableResource \<times> int \<times> int) list"

inductive rl_step :: "rl_sys \<Rightarrow> rl_sys \<Rightarrow> bool" where
  reserve_returns:
    "0 \<le> v \<Longrightarrow> v < 2 ^ 63 \<Longrightarrow> reserve_begin w v timeout tick (limit s) = Some (Done b, r) \<Longrightarrow>
     rl_step s (s\<lparr>limit := r\<rparr>)"
| reserve_waits:
    "0 \<le> v \<Longrightarrow> v < 2 ^ 63 \<Longrightarrow> reserve_begin w v timeout tick (limit s) = Some (Wait, r) \<Longrightarrow>
     rl_step s (s\<lparr>limit := r, waiting := (w, v, timeout) # waiting s\<rparr>)"
| wake_returns:
    "waiting s = xs @ (w, v, timeout) # ys \<Longrightarrow>
     reserve_wake w v timeout tick (limit s) = Some (Done b, r) \<Longrightarrow>
     rl_step s (s\<lparr>limit := r, waiting := xs @ ys\<rparr>)"
| wake_waits:
    "(w, v, timeout) \<in> set (waiting s) \<Longrightarrow>
     reserve_wake w v timeout tick (limit s) = Some (Wait, r) \<Longrightarrow>
     rl_step s (s\<lparr>limit := r\<rparr>)"
| releases:
    "resource_ix w = Some i \<Longrightarrow> release_ok i v h (limit s) \<Longrightarrow>
     release_with_hint w v h (limit s) = Some (b, r) \<Longrightarrow>
     rl_step s (s\<lparr>limit := r\<rparr>)"
| sets_limit:
    "v < 2 ^ 63 \<Longrightarrow> set_limit_value w v (limit s) = Some (res, r) \<Longrightarrow>
     rl_step s (s\<lparr>limit := r\<rparr>)"

definition rl_sys_init :: rl_sys where
  "rl_sys_init = \<lparr>limit = rl_new, waiting = []\<rparr>"

inductive rl_reachable :: "rl_sys \<Rightarrow> bool" where
  init: "rl_reachable rl_sys_init"
| step: "rl_reachable s \<Longrightarrow> rl_step s t \<Longrightarrow> rl_reachable t"

definition rl_sys_inv :: "rl_sys \<Rightarrow> bool" where
  "rl_sys_inv s \<longleftrightarrow> rl_inv (limit s) \<and> waiter_count (limit s) = int (length (waiting s)) \<and>
     (\<forall>(w, v, timeout) \<in> set (waiting s). 0 \<le> v \<and> v < 2 ^ 63)"

lemma reserve_beginD:
  assumes "reserve_begin w v timeout tick r = Some (q, r')" "rl_inv r" "0 \<le> v" "v < 2 ^ 63"
  shows "rl_inv r' \<and> waiter_count r' = waiter_count r + (if q = Wait then 1 else 0)"
proof -
  obtain i where i: "resource_ix w = Some i" "i < LIMITABLE_RESOURCE_COUNT"
    using assms(1) resource_ix_SomeD by (auto simp: reserve_begin_def split: bind_splits)
  then show ?thesis
    using assms reserve_iter_inv [OF assms(2) i(2) assms(3,4), of timeout tick]
      reserve_iter_waiters [of i v timeout tick r]
    by (auto simp: reserve_begin_def split: if_splits)
qed

lemma reserve_wakeD:
  assumes "reserve_wake w v timeout tick r = Some (q, r')" "rl_inv r" "0 \<le> v" "v < 2 ^ 63"
  shows "rl_inv r' \<and> waiter_count r' = waiter_count r - (if q = Wait then 0 else 1)"
proof -
  let ?r = "r\<lparr>waiter_count := waiter_count r - 1\<rparr>"
  obtain i where i: "resource_ix w = Some i" "i < LIMITABLE_RESOURCE_COUNT"
    using assms(1) resource_ix_SomeD by (auto simp: reserve_wake_def split: bind_splits)
  have inv: "rl_inv ?r" using assms(2) by simp
  from i show ?thesis
    using assms(1) reserve_iter_inv [OF inv i(2) assms(3,4), of timeout tick]
      reserve_iter_waiters [of i v timeout tick ?r]
    by (auto simp: reserve_wake_def)
qed

lemma rl_step_inv: "rl_step s t \<Longrightarrow> rl_sys_inv s \<Longrightarrow> rl_sys_inv t"
proof (induction rule: rl_step.induct)
  case (reserve_returns v w timeout tick s b r)
  then show ?case using reserve_beginD [OF reserve_returns(3)] by (auto simp: rl_sys_inv_def)
next
  case (reserve_waits v w timeout tick s r)
  then show ?case using reserve_beginD [OF reserve_waits(3)] by (auto simp: rl_sys_inv_def)
next
  case (wake_returns s xs w v timeout ys tick b r)
  then show ?case using reserve_wakeD [OF wake_returns(2)] by (auto simp: rl_sys_inv_def)
next
  case (wake_waits w v timeout s tick r)
  then show ?case using reserve_wakeD [OF wake_waits(2)] by (auto simp: rl_sys_inv_def)
next
  case (releases w i v h s b r)
  then show ?case
    using release_inv [of "limit s" w i v h] release_eq [of "limit s" w i v h]
    by (auto simp: rl_sys_inv_def)
next
  case (sets_limit v w s res r)
  then show ?case using set_limit_inv [OF _ sets_limit(2)] by (auto simp: rl_sys_inv_def)
qed

lemma rl_reachable_inv: "rl_reachable s \<Longrightarrow> rl_sys_inv s"
proof (induction rule: rl_reachable.induct)
  case init
  show ?case by (simp add: rl_sys_inv_def rl_sys_init_def rl_new_def rl_inv_def)
qed (blast intro: rl_step_inv)

section \<open>Properties\<close>

text \<open>
  C5: in every state that any interleaving of reservations, waits, wake-ups, releases and limit
  changes can reach, each resource satisfies hint \<le> current \<le> peak \<le> limit with nothing negative,
  its free value is limit - current and not negative, and the waiter count is the number of calls
  inside the wait.
\<close>

theorem resource_accounting_invariant:
  assumes "rl_reachable s" "is_valid_resource_type w"
  shows "\<exists>h c p l f. current_hints (limit s) (resource_index w) = h \<and>
    get_current_value w (limit s) = Some c \<and> get_peak_value w (limit s) = Some p \<and>
    get_limit_value w (limit s) = Some l \<and> get_free_value w (limit s) = Some f \<and>
    0 \<le> h \<and> h \<le> c \<and> c \<le> p \<and> p \<le> l \<and> f = l - c \<and> 0 \<le> f \<and>
    waiter_count (limit s) = int (length (waiting s))"
proof -
  have inv: "rl_sys_inv s" using assms(1) by (rule rl_reachable_inv)
  obtain i where i: "resource_ix w = Some i" using assms(2) resource_ix_valid by blast
  then have idx: "i = resource_index w" "i < LIMITABLE_RESOURCE_COUNT"
    by (auto simp: resource_ix_def ix_Some_iff)
  note b = rl_invD [OF _ idx(2), of "limit s"]
  have "wrap64 (limit_values (limit s) i - current_values (limit s) i) =
      limit_values (limit s) i - current_values (limit s) i"
    using inv b by (intro wrap64_id) (auto simp: i64_range_def rl_sys_inv_def)
  then show ?thesis
    using inv b i idx
    by (auto simp: rl_sys_inv_def get_current_value_def get_peak_value_def get_limit_value_def
        get_free_value_def)
qed

text \<open>
  C6: a reservation on a consistent limit succeeds exactly when it asks for something that fits
  below the limit, and then current value, hint and peak grow by it and nothing else changes; it
  waits exactly when it does not fit now but its hint would and the timeout has not passed; in
  every other case it fails. Without success no value changes. Reserving zero always fails.
\<close>

theorem reserve_outcome_exact:
  assumes "rl_inv r" "resource_ix w = Some i" "0 \<le> v" "v < 2 ^ 63"
  shows "\<exists>q r'. reserve_begin w v timeout tick r = Some (q, r') \<and>
    (q = Done True \<longleftrightarrow> 0 < v \<and> current_values r i + v \<le> limit_values r i) \<and>
    (q = Wait \<longleftrightarrow> 0 < v \<and> limit_values r i < current_values r i + v \<and>
       current_values r i + v < 2 ^ 63 \<and> current_hints r i + v \<le> limit_values r i \<and>
       not_expired timeout tick) \<and>
    (q = Done True \<longrightarrow> r' = r\<lparr>current_values := (current_values r)(i := current_values r i + v),
       current_hints := (current_hints r)(i := current_hints r i + v),
       peak_values := (peak_values r)(i := max (peak_values r i) (current_values r i + v))\<rparr>) \<and>
    (q = Wait \<longrightarrow> r' = r\<lparr>waiter_count := waiter_count r + 1\<rparr>) \<and> (q = Done False \<longrightarrow> r' = r)"
proof -
  note i = resource_ix_SomeD [OF assms(2)]
  note inv = rl_invD [OF assms(1) i]
  show ?thesis
  proof (cases "current_hints r i \<ge> limit_values r i")
    case True
    then show ?thesis using assms(2) inv by (auto simp: reserve_begin_def)
  next
    case False
    then show ?thesis
      using assms(2,3) by (auto simp: reserve_begin_def reserve_iter_eq [OF assms(1) i assms(3,4)])
  qed
qed

text \<open>A limit of ten threads, with three of them in use, for the witnesses.\<close>

definition limit10 :: KResourceLimit where
  "limit10 = rl_new\<lparr>limit_values := (\<lambda>_. 0)(1 := 10)\<rparr>"

definition limit10_used3 :: KResourceLimit where
  "limit10_used3 = limit10\<lparr>current_values := (\<lambda>_. 0)(1 := 3), current_hints := (\<lambda>_. 0)(1 := 3),
     peak_values := (\<lambda>_. 0)(1 := 3)\<rparr>"

lemma limit10_inv: "rl_inv limit10" "rl_inv limit10_used3"
  by (auto simp: rl_inv_def limit10_def limit10_used3_def rl_new_def)

lemma limit10_reachable: "rl_reachable (rl_sys_init\<lparr>limit := limit10\<rparr>)"
proof (rule rl_reachable.step [OF rl_reachable.init rl_step.sets_limit])
  show "set_limit_value ThreadCountMax 10 (limit rl_sys_init) = Some (Inr (), limit10)"
    by (simp add: set_limit_value_def rl_sys_init_def limit10_def rl_new_def fun_upd_idem)
qed simp

theorem resource_accounting_invariant_witness:
  "get_free_value ThreadCountMax limit10 = Some 10 \<and> waiter_count limit10 = 0"
proof -
  have "get_limit_value ThreadCountMax limit10 = Some 10"
    "get_current_value ThreadCountMax limit10 = Some 0"
    by (simp_all add: get_limit_value_def get_current_value_def limit10_def rl_new_def)
  then show ?thesis
    using resource_accounting_invariant [OF limit10_reachable, of ThreadCountMax]
    by (auto simp: is_valid_resource_type_def rl_sys_init_def)
qed

theorem reserve_outcome_exact_witness:
  "(\<exists>r'. reserve_begin ThreadCountMax 3 0 None limit10 = Some (Done True, r')) \<and>
   reserve_begin ThreadCountMax 0 0 None limit10 = Some (Done False, limit10)"
proof -
  have v: "current_values limit10 1 = 0" "limit_values limit10 1 = 10"
    by (simp_all add: limit10_def rl_new_def)
  obtain q r' where q: "reserve_begin ThreadCountMax 0 0 None limit10 = Some (q, r')"
    "q \<noteq> Done True" "q \<noteq> Wait" "q = Done False \<longrightarrow> r' = limit10"
    using reserve_outcome_exact [OF limit10_inv(1), of ThreadCountMax 1 0 0 None] v by auto
  then have "reserve_begin ThreadCountMax 0 0 None limit10 = Some (Done False, limit10)"
    by (cases q) auto
  then show ?thesis
    using reserve_outcome_exact [OF limit10_inv(1), of ThreadCountMax 1 3 0 None] v by auto
qed

text \<open>
  Releasing what a successful reservation took restores the current value and the hint of
  that resource and leaves the limits and every other resource as they were before it.
\<close>

theorem reserve_release_restores:
  assumes "rl_inv r" "0 \<le> v" "v < 2 ^ 63"
    and "reserve_begin w v timeout tick r = Some (Done True, r')"
  shows "\<exists>b r''. rl_release w v r' = Some (b, r'') \<and> rl_inv r'' \<and>
    current_values r'' = current_values r \<and> current_hints r'' = current_hints r \<and>
    limit_values r'' = limit_values r \<and> waiter_count r'' = waiter_count r"
proof -
  obtain i where i: "resource_ix w = Some i"
    using assms(4) by (auto simp: reserve_begin_def split: bind_splits)
  note inv = rl_invD [OF assms(1) resource_ix_SomeD [OF i]]
  from reserve_outcome_exact [OF assms(1) i assms(2,3), of timeout tick] assms(4)
  have r': "r' = r\<lparr>current_values := (current_values r)(i := current_values r i + v),
       current_hints := (current_hints r)(i := current_hints r i + v),
       peak_values := (peak_values r)(i := max (peak_values r i) (current_values r i + v))\<rparr>"
    by simp
  have inv': "rl_inv r'" using reserve_beginD [OF assms(4,1,2,3)] by simp
  have ok: "release_ok i v v r'" using assms(2) inv by (simp add: release_ok_def r')
  show ?thesis
    using release_inv [OF inv' i ok] unfolding rl_release_def release_eq [OF inv' i ok]
    by (simp add: r')
qed

theorem reserve_release_restores_witness:
  "\<exists>r' r''. reserve_begin ThreadCountMax 3 0 None limit10 = Some (Done True, r') \<and>
     rl_release ThreadCountMax 3 r' = Some (False, r'') \<and>
     current_values r'' = current_values limit10"
proof -
  have b: "reserve_begin ThreadCountMax 3 0 None limit10 = Some (Done True, limit10_used3)"
    by (simp add: reserve_begin_def reserve_iter_def Let_def limit10_def rl_new_def wrap64_def
        limit10_used3_def)
  from reserve_release_restores [OF limit10_inv(1) _ _ b] show ?thesis
    using b by (auto simp: rl_release_def release_with_hint_def limit10_used3_def limit10_def
        rl_new_def)
qed

text \<open>
  C7: no wake-up is lost and no fitting waiter is turned away: while some call is inside the
  wait every release broadcasts, and a waiting call that wakes when its amount fits returns
  success, whatever the timer says and however it was woken.
\<close>

theorem waiters_are_woken_and_served:
  assumes "rl_reachable s" "(w, v, timeout) \<in> set (waiting s)" "resource_ix w = Some i"
  shows "(\<forall>w' j a h. resource_ix w' = Some j \<longrightarrow> release_ok j a h (limit s) \<longrightarrow>
            (\<exists>r. release_with_hint w' a h (limit s) = Some (True, r))) \<and>
    (0 < v \<longrightarrow> current_values (limit s) i + v \<le> limit_values (limit s) i \<longrightarrow>
       (\<exists>r. reserve_wake w v timeout tick (limit s) = Some (Done True, r) \<and>
            current_values r i = current_values (limit s) i + v \<and>
            waiter_count r = waiter_count (limit s) - 1))"
proof -
  have inv: "rl_inv (limit s)" "waiter_count (limit s) = int (length (waiting s))" "0 \<le> v" "v < 2 ^ 63"
    using rl_reachable_inv [OF assms(1)] assms(2) by (auto simp: rl_sys_inv_def)
  have "waiter_count (limit s) \<noteq> 0" using inv(2) assms(2) by (cases "waiting s") auto
  moreover have "rl_inv ((limit s)\<lparr>waiter_count := waiter_count (limit s) - 1\<rparr>)"
    using inv(1) by simp
  note iter = reserve_iter_eq [OF this resource_ix_SomeD [OF assms(3)] inv(3,4), of timeout tick]
  ultimately show ?thesis
    using release_eq [OF inv(1)] assms(3) by (auto simp: reserve_wake_def iter)
qed

text \<open>All ten threads in use, five of them about to be given back, and a caller waiting.\<close>

definition limit10_hint :: KResourceLimit where
  "limit10_hint = limit10\<lparr>current_values := (\<lambda>_. 0)(1 := 10), current_hints := (\<lambda>_. 0)(1 := 5),
     peak_values := (\<lambda>_. 0)(1 := 10)\<rparr>"

lemma limit10_waiting:
  "rl_reachable \<lparr>limit = limit10_hint\<lparr>waiter_count := 1\<rparr>, waiting = [(ThreadCountMax, 3, -1)]\<rparr>"
proof -
  note defs = rl_sys_init_def limit10_def rl_new_def limit10_hint_def
  let ?full = "limit10\<lparr>current_values := (\<lambda>_. 0)(1 := 10), current_hints := (\<lambda>_. 0)(1 := 10),
     peak_values := (\<lambda>_. 0)(1 := 10)\<rparr>"
  have 1: "reserve_begin ThreadCountMax 10 0 None limit10 = Some (Done True, ?full)"
    by (simp add: reserve_begin_def reserve_iter_def Let_def defs wrap64_def)
  have 2: "release_with_hint ThreadCountMax 0 5 ?full = Some (False, limit10_hint)"
    by (simp add: release_with_hint_def Let_def defs wrap64_def fun_upd_idem)
  have 3: "reserve_begin ThreadCountMax 3 (-1) None limit10_hint =
      Some (Wait, limit10_hint\<lparr>waiter_count := 1\<rparr>)"
    by (simp add: reserve_begin_def reserve_iter_def Let_def defs wrap64_def not_expired_def)
  have "rl_reachable (rl_sys_init\<lparr>limit := ?full\<rparr>)"
    using rl_reachable.step [OF limit10_reachable
        rl_step.reserve_returns [where w = ThreadCountMax and v = 10 and timeout = 0 and tick = None]]
      1 by fastforce
  from rl_reachable.step [OF this
      rl_step.releases [where w = ThreadCountMax and i = 1 and v = 0 and h = 5]] 2
  have "rl_reachable (rl_sys_init\<lparr>limit := limit10_hint\<rparr>)"
    by (fastforce simp: release_ok_def)
  from rl_reachable.step [OF this rl_step.reserve_waits
      [where w = ThreadCountMax and v = 3 and timeout = "-1" and tick = None]] 3
  show ?thesis by (fastforce simp: rl_sys_init_def)
qed

theorem waiters_are_woken_and_served_witness:
  "\<exists>r. release_with_hint ThreadCountMax 5 0 (limit10_hint\<lparr>waiter_count := 1\<rparr>) = Some (True, r)"
  using waiters_are_woken_and_served [OF limit10_waiting, of ThreadCountMax 3 "-1" 1 None]
  by (auto simp: release_ok_def limit10_hint_def dest: spec [where x = ThreadCountMax])

text \<open>
  The limits of a new process. A non-negative memory size gives the five documented limits
  with nothing in use; a negative one panics in \<open>expect\<close>.
\<close>

theorem process_limits:
  "create_resource_limit_for_process m =
     (if m < 0 then None
      else Some (rl_new\<lparr>limit_values := (\<lambda>_. 0)(0 := m, 1 := 800, 2 := 900, 3 := 200, 4 := 1133)\<rparr>))"
  by (simp add: create_resource_limit_for_process_def set_limit_expect_def set_limit_value_def
      rl_new_def fun_upd_idem)

end
