(* ===== verification/BTree.thy ===== *)
theory BTree
  imports Main "HOL-Library.AList"
begin

text \<open>
  Rust's \<open>BTreeMap\<close> with keys of a linear order, as the list of its entries in ascending key order:
  the lookups, the bounded range queries and the updates that the modelled code uses.
\<close>

type_synonym ('k, 'v) btree = "('k \<times> 'v) list"

definition bt_sorted :: "('k :: linorder, 'v) btree \<Rightarrow> bool" where
  "bt_sorted t \<longleftrightarrow> sorted_wrt (<) (map fst t)"

definition bt_get :: "'k \<Rightarrow> ('k, 'v) btree \<Rightarrow> 'v option" where
  "bt_get k t = map_of t k"

fun bt_insert :: "'k :: linorder \<Rightarrow> 'v \<Rightarrow> ('k, 'v) btree \<Rightarrow> ('k, 'v) btree" where
  "bt_insert k v [] = [(k, v)]"
| "bt_insert k v ((k', v') # t) =
     (if k < k' then (k, v) # (k', v') # t
      else if k = k' then (k, v) # t
      else (k', v') # bt_insert k v t)"

definition bt_remove :: "'k \<Rightarrow> ('k, 'v) btree \<Rightarrow> ('k, 'v) btree" where
  "bt_remove k t = filter (\<lambda>e. fst e \<noteq> k) t"

text \<open>\<open>get_mut\<close> followed by a change of the value.\<close>

definition bt_modify :: "'k \<Rightarrow> ('v \<Rightarrow> 'v) \<Rightarrow> ('k, 'v) btree \<Rightarrow> ('k, 'v) btree" where
  "bt_modify k f t = map (\<lambda>(k', v). (k', if k' = k then f v else v)) t"

text \<open>\<open>range(..=k).next_back()\<close>, \<open>range(..k).next_back()\<close>, \<open>range((Excluded(k), Unbounded)).next()\<close>.\<close>

definition last_le :: "'k :: linorder \<Rightarrow> ('k, 'v) btree \<Rightarrow> ('k \<times> 'v) option" where
  "last_le k t = (let xs = filter (\<lambda>e. fst e \<le> k) t in if xs = [] then None else Some (last xs))"

definition last_lt :: "'k :: linorder \<Rightarrow> ('k, 'v) btree \<Rightarrow> ('k \<times> 'v) option" where
  "last_lt k t = (let xs = filter (\<lambda>e. fst e < k) t in if xs = [] then None else Some (last xs))"

definition first_gt :: "'k :: linorder \<Rightarrow> ('k, 'v) btree \<Rightarrow> ('k \<times> 'v) option" where
  "first_gt k t = (case filter (\<lambda>e. k < fst e) t of [] \<Rightarrow> None | e # _ \<Rightarrow> Some e)"

text \<open>\<open>range(lo..hi)\<close>, which panics when the range starts after its end.\<close>

definition bt_range :: "'k :: linorder \<Rightarrow> 'k \<Rightarrow> ('k, 'v) btree \<Rightarrow> ('k, 'v) btree option" where
  "bt_range lo hi t = (if lo \<le> hi then Some (filter (\<lambda>e. lo \<le> fst e \<and> fst e < hi) t) else None)"

text \<open>Everything about one entry follows from the split of the map at it.\<close>

lemma bt_sorted_append:
  "bt_sorted (xs @ ys) \<longleftrightarrow> bt_sorted xs \<and> bt_sorted ys \<and> (\<forall>a \<in> set xs. \<forall>b \<in> set ys. fst a < fst b)"
  by (auto simp: bt_sorted_def sorted_wrt_append)

lemma bt_sorted_Cons: "bt_sorted (e # t) \<longleftrightarrow> bt_sorted t \<and> (\<forall>b \<in> set t. fst e < fst b)"
  by (auto simp: bt_sorted_def)

lemma bt_sorted_mid:
  "bt_sorted (xs @ (k, v) # ys) \<longleftrightarrow> bt_sorted xs \<and> bt_sorted ys \<and>
     (\<forall>a \<in> set xs. fst a < k) \<and> (\<forall>b \<in> set ys. k < fst b) \<and> (\<forall>a \<in> set xs. \<forall>b \<in> set ys. fst a < fst b)"
  by (auto simp: bt_sorted_append bt_sorted_Cons)

lemma filter_none: "\<forall>x \<in> set xs. \<not> P x \<Longrightarrow> filter P xs = []"
  by (induction xs) auto

lemma filter_all: "\<forall>x \<in> set xs. P x \<Longrightarrow> filter P xs = xs"
  by (induction xs) auto

lemma bt_at:
  assumes "bt_sorted (xs @ (k, v) # ys)"
  shows "bt_get k (xs @ (k, v) # ys) = Some v" "bt_remove k (xs @ (k, v) # ys) = xs @ ys"
    "bt_modify k f (xs @ (k, v) # ys) = xs @ (k, f v) # ys"
    "first_gt k (xs @ (k, v) # ys) = (case ys of [] \<Rightarrow> None | e # _ \<Rightarrow> Some e)"
    "last_lt k (xs @ (k, v) # ys) = (if xs = [] then None else Some (last xs))"
proof -
  have a: "\<forall>a \<in> set xs. fst a < k" "\<forall>b \<in> set ys. k < fst b" using assms by (auto simp: bt_sorted_mid)
  then have n: "k \<notin> fst ` set xs" "k \<notin> fst ` set ys" by auto
  then show "bt_get k (xs @ (k, v) # ys) = Some v"
    by (simp add: bt_get_def map_add_def map_of_eq_None_iff [THEN iffD2])
  show "bt_remove k (xs @ (k, v) # ys) = xs @ ys"
  proof -
    have "filter (\<lambda>e. fst e \<noteq> k) xs = xs" "filter (\<lambda>e. fst e \<noteq> k) ys = ys"
      using n by (auto intro!: filter_all)
    then show ?thesis by (simp add: bt_remove_def)
  qed
  have m: "map (\<lambda>(k', v). (k', if k' = k then f v else v)) zs = zs" if "k \<notin> fst ` set zs" for zs :: "('a \<times> 'b) list"
    using that by (induction zs) auto
  show "bt_modify k f (xs @ (k, v) # ys) = xs @ (k, f v) # ys"
    using m [OF n(1)] m [OF n(2)] by (simp add: bt_modify_def)
  have "filter (\<lambda>e. k < fst e) xs = []" "filter (\<lambda>e. k < fst e) ys = ys"
    "filter (\<lambda>e. fst e < k) xs = xs" "filter (\<lambda>e. fst e < k) ys = []"
    using a by (fastforce intro!: filter_none filter_all)+
  then show "first_gt k (xs @ (k, v) # ys) = (case ys of [] \<Rightarrow> None | e # _ \<Rightarrow> Some e)"
    "last_lt k (xs @ (k, v) # ys) = (if xs = [] then None else Some (last xs))"
    by (simp_all add: first_gt_def last_lt_def Let_def)
qed

lemma last_le_at:
  assumes "bt_sorted (xs @ (k, v) # ys)" "k \<le> x" "\<forall>b \<in> set ys. x < fst b"
  shows "last_le x (xs @ (k, v) # ys) = Some (k, v)"
proof -
  have "filter (\<lambda>e. fst e \<le> x) ys = []" using assms(3) by (fastforce intro!: filter_none)
  then show ?thesis using assms(2) by (simp add: last_le_def Let_def)
qed

lemma bt_insert_at:
  assumes "\<forall>a \<in> set xs. fst a < k" "\<forall>b \<in> set ys. k < fst b"
  shows "bt_insert k v (xs @ ys) = xs @ (k, v) # ys"
  using assms by (induction xs) (auto, cases ys, auto)

lemma bt_insert_get: "bt_get k' (bt_insert k v t) = (if k' = k then Some v else bt_get k' t)"
  by (induction t) (auto simp: bt_get_def)

lemma bt_remove_get: "bt_get k' (bt_remove k t) = (if k' = k then None else bt_get k' t)"
  by (induction t) (auto simp: bt_get_def bt_remove_def)

lemma bt_insert_set: "set (bt_insert k v t) \<subseteq> insert (k, v) (set t)"
  by (induction t) (auto split: if_splits)

lemma bt_insert_sorted: "bt_sorted t \<Longrightarrow> bt_sorted (bt_insert k v t)"
proof (induction t)
  case (Cons e t)
  with bt_insert_set [of k v t] show ?case by (cases e) (fastforce simp: bt_sorted_Cons)
qed (simp add: bt_sorted_def)

lemma bt_remove_sorted: "bt_sorted t \<Longrightarrow> bt_sorted (bt_remove k t)"
  by (induction t) (auto simp: bt_sorted_Cons bt_remove_def)

text \<open>The interface of a finite map with updates, as the clients of the tree use it.\<close>

locale ordered_map =
  fixes ok :: "'m \<Rightarrow> bool" and get :: "'k \<Rightarrow> 'm \<Rightarrow> 'v option"
    and ins :: "'k \<Rightarrow> 'v \<Rightarrow> 'm \<Rightarrow> 'm" and rem :: "'k \<Rightarrow> 'm \<Rightarrow> 'm"
  assumes ins_ok: "ok m \<Longrightarrow> ok (ins k v m)" and rem_ok: "ok m \<Longrightarrow> ok (rem k m)"
    and get_ins: "ok m \<Longrightarrow> get k' (ins k v m) = (if k' = k then Some v else get k' m)"
    and get_rem: "ok m \<Longrightarrow> get k' (rem k m) = (if k' = k then None else get k' m)"
begin

lemma ins_ins: "ok m \<Longrightarrow> get k' (ins k v (ins k w m)) = get k' (ins k v m)"
  by (simp add: get_ins ins_ok)

lemma rem_ins: "ok m \<Longrightarrow> get k m = None \<Longrightarrow> get k' (rem k (ins k v m)) = get k' m"
  by (simp add: get_ins get_rem ins_ok)

text \<open>Moving an entry to another key.\<close>

lemma move: "ok m \<Longrightarrow> k \<noteq> k2 \<Longrightarrow> get k m = Some v \<Longrightarrow>
    get k' (ins k2 v (rem k m)) = (if k' = k2 then Some v else if k' = k then None else get k' m)"
  by (simp add: get_ins get_rem rem_ok)

end

interpretation btree: ordered_map bt_sorted bt_get bt_insert bt_remove
  by unfold_locales (simp_all add: bt_insert_sorted bt_remove_sorted bt_insert_get bt_remove_get)

end
