(* ===== verification/Bits.thy ===== *)
theory Bits
  imports Prelude
begin

text \<open>
  The bit-level primitives of Rust's integers that the components use: shifts with the release
  build's masked shift amount, \<open>trailing_zeros\<close> and \<open>leading_zeros\<close>.
\<close>

section \<open>Shifts\<close>

definition shl :: "'a::len word \<Rightarrow> nat \<Rightarrow> 'a word" where
  "shl w n = push_bit (n mod LENGTH('a)) w"

definition shr :: "'a::len word \<Rightarrow> nat \<Rightarrow> 'a word" where
  "shr w n = drop_bit (n mod LENGTH('a)) w"

lemma shl_lt [simp]: "n < LENGTH('a) \<Longrightarrow> shl (w :: 'a::len word) n = push_bit n w"
  by (simp add: shl_def)

lemma shr_lt [simp]: "n < LENGTH('a) \<Longrightarrow> shr (w :: 'a::len word) n = drop_bit n w"
  by (simp add: shr_def)

lemma bit_power2 [simp]: "bit ((2 :: 'a::len word) ^ n) k \<longleftrightarrow> k = n \<and> n < LENGTH('a)"
  by (auto simp: bit_simps)

text \<open>\<open>w | (1 << n)\<close> and \<open>w & !(1 << n)\<close>.\<close>

lemma or_bit_iff:
  "n < LENGTH('a) \<Longrightarrow> bit (w OR 2 ^ n) k \<longleftrightarrow> bit w k \<or> k = n" for w :: "'a::len word"
  by (auto simp: bit_simps)

lemma andnot_bit_iff:
  "n < LENGTH('a) \<Longrightarrow> bit (w AND NOT (2 ^ n)) k \<longleftrightarrow> bit w k \<and> k \<noteq> n" for w :: "'a::len word"
  using bit_imp_le_length [of w k] by (auto simp: bit_simps)

lemma and_bit_eq_0_iff:
  "n < LENGTH('a) \<Longrightarrow> (w AND 2 ^ n) = 0 \<longleftrightarrow> \<not> bit w n" for w :: "'a::len word"
proof (cases "bit w n")
  case True
  moreover assume "n < LENGTH('a)"
  ultimately have "bit (w AND 2 ^ n) n" by (simp add: bit_and_iff)
  with True show ?thesis by auto
next
  case False
  then show ?thesis by (auto intro!: bit_word_eqI simp: bit_and_iff)
qed

lemma nonzero_bit: "w \<noteq> 0 \<longleftrightarrow> (\<exists>n < LENGTH('a). bit w n)" for w :: "'a::len word"
  by (auto simp: bit_eq_iff dest: bit_imp_le_length)

section \<open>Counting zeros\<close>

definition ctz :: "'a::len word \<Rightarrow> nat" where
  "ctz w = length (takeWhile (\<lambda>n. \<not> bit w n) [0..<LENGTH('a)])"

definition clz :: "'a::len word \<Rightarrow> nat" where
  "clz w = length (takeWhile (\<lambda>n. \<not> bit w (LENGTH('a) - 1 - n)) [0..<LENGTH('a)])"

lemma takeWhile_upt_len:
  "length (takeWhile P [0..<n]) \<le> n"
  "k < length (takeWhile P [0..<n]) \<Longrightarrow> P k"
  "length (takeWhile P [0..<n]) < n \<Longrightarrow> \<not> P (length (takeWhile P [0..<n]))"
proof -
  show "length (takeWhile P [0..<n]) \<le> n" using length_takeWhile_le [of P "[0..<n]"] by simp
  show "P k" if "k < length (takeWhile P [0..<n])"
  proof -
    have "takeWhile P [0..<n] ! k = k"
      using that length_takeWhile_le [of P "[0..<n]"] by (simp add: takeWhile_nth)
    then show ?thesis using that nth_mem set_takeWhileD by metis
  qed
  show "\<not> P (length (takeWhile P [0..<n]))" if "length (takeWhile P [0..<n]) < n"
    using nth_length_takeWhile [of P "[0..<n]"] that by simp
qed

lemma ctz_le: "ctz w \<le> LENGTH('a)" for w :: "'a::len word"
  unfolding ctz_def by (rule takeWhile_upt_len)

lemma below_ctz: "k < ctz w \<Longrightarrow> \<not> bit w k"
  unfolding ctz_def by (rule takeWhile_upt_len)

lemma ctz_lt_iff: "ctz w < LENGTH('a) \<longleftrightarrow> w \<noteq> 0" for w :: "'a::len word"
proof
  assume "ctz w < LENGTH('a)"
  then have "\<not> \<not> bit w (ctz w)" unfolding ctz_def by (rule takeWhile_upt_len)
  then show "w \<noteq> 0" by auto
next
  assume "w \<noteq> 0"
  then obtain n where "n < LENGTH('a)" "bit w n" by (auto simp: nonzero_bit)
  then show "ctz w < LENGTH('a)"
    using below_ctz [of n w] by (meson le_less_trans not_le)
qed

lemma bit_ctz: "w \<noteq> 0 \<Longrightarrow> bit w (ctz w)" for w :: "'a::len word"
  using takeWhile_upt_len(3) [of "\<lambda>n. \<not> bit w n" "LENGTH('a)"]
  by (simp add: ctz_def [symmetric] ctz_lt_iff)

lemma ctz_least: "bit w k \<Longrightarrow> ctz w \<le> k"
  using below_ctz not_le by blast

lemma below_clz: "k < clz w \<Longrightarrow> \<not> bit w (LENGTH('a) - 1 - k)" for w :: "'a::len word"
  unfolding clz_def by (rule takeWhile_upt_len)

lemma clz_le: "clz w \<le> LENGTH('a)" for w :: "'a::len word"
  unfolding clz_def by (rule takeWhile_upt_len)

lemma clz_lt_iff: "clz w < LENGTH('a) \<longleftrightarrow> w \<noteq> 0" for w :: "'a::len word"
proof
  assume "clz w < LENGTH('a)"
  then have "\<not> \<not> bit w (LENGTH('a) - 1 - clz w)" unfolding clz_def by (rule takeWhile_upt_len)
  then show "w \<noteq> 0" by auto
next
  assume "w \<noteq> 0"
  then obtain n where n: "n < LENGTH('a)" "bit w n" by (auto simp: nonzero_bit)
  then have "\<not> LENGTH('a) - 1 - n < clz w"
    using below_clz [of "LENGTH('a) - 1 - n" w] by auto
  with n show "clz w < LENGTH('a)" by linarith
qed

lemma bit_clz: "w \<noteq> 0 \<Longrightarrow> bit w (LENGTH('a) - 1 - clz w)" for w :: "'a::len word"
  using takeWhile_upt_len(3) [of "\<lambda>n. \<not> bit w (LENGTH('a) - 1 - n)" "LENGTH('a)"]
  unfolding clz_def [symmetric] clz_lt_iff by blast

lemma clz_least: "bit w (LENGTH('a) - 1 - k) \<Longrightarrow> clz w \<le> k" for w :: "'a::len word"
  using below_clz not_le by blast

end
