(* ===== verification/Machine.thy ===== *)
theory Machine
  imports Bits
begin

text \<open>
  Sizes, offsets and addresses of the memory components: a Rust \<open>usize\<close> or \<open>u64\<close> that is mostly
  calculated with as a number is a \<^typ>\<open>nat\<close> below \<open>2 ^ 64\<close>, and each operation writes out the
  wrap-around of the release build. Also the alignment helpers of src/common/src/alignment.rs.
\<close>

abbreviation W64 :: nat where "W64 \<equiv> 2 ^ 64"

abbreviation PAGE_SIZE :: nat where "PAGE_SIZE \<equiv> 4096"

definition add64 :: "nat \<Rightarrow> nat \<Rightarrow> nat" where
  "add64 a b = (a + b) mod W64"

definition sub64 :: "nat \<Rightarrow> nat \<Rightarrow> nat" where
  "sub64 a b = (a + (W64 - b)) mod W64"

definition mul64 :: "nat \<Rightarrow> nat \<Rightarrow> nat" where
  "mul64 a b = (a * b) mod W64"

definition shl64 :: "nat \<Rightarrow> nat \<Rightarrow> nat" where
  "shl64 a n = (a * 2 ^ (n mod 64)) mod W64"

definition shr64 :: "nat \<Rightarrow> nat \<Rightarrow> nat" where
  "shr64 a n = a div 2 ^ (n mod 64)"

text \<open>\<open>a & !b\<close>.\<close>

definition andnot64 :: "nat \<Rightarrow> nat \<Rightarrow> nat" where
  "andnot64 a b = unat ((word_of_nat a :: u64) AND NOT (word_of_nat b))"

text \<open>The callers pass a power of two; the remainder by 0 would panic.\<close>

definition align_up :: "nat \<Rightarrow> nat \<Rightarrow> nat" where
  "align_up value sz =
     (let remainder = value mod sz
      in if remainder = 0 then value else add64 (sub64 value remainder) sz)"

definition align_down :: "nat \<Rightarrow> nat \<Rightarrow> nat" where
  "align_down value sz = sub64 value (value mod sz)"

lemma add64_id [simp]: "a + b < W64 \<Longrightarrow> add64 a b = a + b"
  by (simp add: add64_def)

lemma sub64_id [simp]: "b \<le> a \<Longrightarrow> a < W64 \<Longrightarrow> sub64 a b = a - b"
proof -
  assume "b \<le> a" "a < W64"
  then have "a + (W64 - b) = (a - b) + W64" "a - b < W64" by simp_all
  then show "sub64 a b = a - b" unfolding sub64_def by (metis mod_add_self2 mod_less)
qed

lemma mul64_id [simp]: "a * b < W64 \<Longrightarrow> mul64 a b = a * b"
  by (simp add: mul64_def)

lemma shl64_id [simp]: "n < 64 \<Longrightarrow> a * 2 ^ n < W64 \<Longrightarrow> shl64 a n = a * 2 ^ n"
  by (simp add: shl64_def)

lemma shl64_1 [simp]: "n < 64 \<Longrightarrow> shl64 (Suc 0) n = 2 ^ n"
  using power_strict_increasing [of n 64 "2 :: nat"] by (simp add: shl64_def)

lemma shr64_id [simp]: "n < 64 \<Longrightarrow> shr64 a n = a div 2 ^ n"
  by (simp add: shr64_def)

lemma andnot64_mask:
  assumes "a < W64"
  shows "andnot64 a (2 ^ k - 1) = a - a mod 2 ^ k"
proof -
  have m: "(word_of_nat (2 ^ k - 1) :: u64) = mask k"
    by (metis mask_eq_exp_minus_1 of_nat_mask_eq)
  have "bit a n \<Longrightarrow> n < 64" for n
    using assms by (metis bit_take_bit_iff take_bit_nat_eq_self_iff)
  then have "andnot64 a (2 ^ k - 1) = push_bit k (drop_bit k a)"
    unfolding andnot64_def m by (intro bit_eqI) (auto simp: bit_simps)
  then show ?thesis
    by (simp add: push_bit_eq_mult drop_bit_eq_div minus_mod_eq_div_mult)
qed

lemma align_down_eq [simp]: "a < W64 \<Longrightarrow> align_down a n = a - a mod n"
  by (simp add: align_down_def)

text \<open>The next multiple, when it does not wrap.\<close>

lemma align_up_eq:
  assumes "a < W64" "0 < n" "a + n \<le> W64"
  shows "align_up a n = (a + n - 1) div n * n"
proof (cases "a mod n = 0")
  case True
  then obtain q where "a = q * n" by (metis dvd_eq_mod_eq_0 dvdE mult.commute)
  moreover have "q * n + n - 1 = (n - 1) + q * n" using assms(2) by simp
  moreover have "((n - 1) + q * n) div n = q" using assms(2) by (subst div_mult_self1) simp_all
  ultimately show ?thesis using True by (simp add: align_up_def)
next
  case False
  define q r where "q = a div n" "r = a mod n"
  then have a: "a = q * n + r" "r < n" "0 < r" using False assms(2) by simp_all
  then have "a + n - 1 = (q + 1) * n + (r - 1)" "r - 1 < n" by auto
  then have "(a + n - 1) div n = q + 1"
    using assms(2) by (metis add.commute div_less div_mult_self3 add_0 not_less0)
  then show ?thesis
    using False a assms by (simp add: align_up_def Let_def flip: q_r_def)
qed

end
