(* ===== verification/MemoryBlock.thy ===== *)
theory MemoryBlock
  imports Machine
begin

text \<open>
  The memory blocks of the page tables: src/core/src/hle/kernel/k_memory_block.rs. A block is a run
  of pages with one state, permission and attribute, two lock counts, and the flags and counts that
  forbid merging it with its neighbours. Flag sets are words; \<open>!\<close> and \<open>from_bits_truncate\<close> of the
  bitflags crate only keep the bits of declared flags. Counts are words that wrap in the release
  build; addresses and sizes are 64-bit numbers.
\<close>

section \<open>Flags\<close>

type_synonym KMemoryState = u32
type_synonym KMemoryPermission = u8
type_synonym KMemoryAttribute = u8
type_synonym DisableMergeAttribute = u8
type_synonym SvcMemoryPermission = u8

definition STATE_MASK :: KMemoryState where "STATE_MASK = 0xFF"
definition STATE_FREE :: KMemoryState where "STATE_FREE = 0"

definition SVC_WRITE :: SvcMemoryPermission where "SVC_WRITE = 2"

definition PERM_NONE :: KMemoryPermission where "PERM_NONE = 0"
definition KERNEL_READ :: KMemoryPermission where "KERNEL_READ = 0x08"
definition NOT_MAPPED :: KMemoryPermission where "NOT_MAPPED = 0x40"
definition USER_READ_WRITE :: KMemoryPermission where "USER_READ_WRITE = 0x01 OR 0x08 OR (0x02 OR 0x10)"
definition PERM_USER_MASK :: KMemoryPermission where "PERM_USER_MASK = 0x07"
definition PERM_ALL :: KMemoryPermission where "PERM_ALL = 0x7F"
definition IPC_LOCK_CHANGE_MASK :: KMemoryPermission where
  "IPC_LOCK_CHANGE_MASK = NOT_MAPPED OR USER_READ_WRITE"

definition convert_to_k_memory_permission :: "SvcMemoryPermission \<Rightarrow> KMemoryPermission" where
  "convert_to_k_memory_permission perm =
     ((perm AND PERM_USER_MASK) OR KERNEL_READ OR push_bit 3 (perm AND SVC_WRITE) OR
      (if perm = 0 then NOT_MAPPED else 0)) AND PERM_ALL"

definition ATTR_NONE :: KMemoryAttribute where "ATTR_NONE = 0"
definition LOCKED :: KMemoryAttribute where "LOCKED = 0x01"
definition IPC_LOCKED :: KMemoryAttribute where "IPC_LOCKED = 0x02"
definition DEVICE_SHARED :: KMemoryAttribute where "DEVICE_SHARED = 0x04"

definition DM_NONE :: DisableMergeAttribute where "DM_NONE = 0"
definition DM_NORMAL :: DisableMergeAttribute where "DM_NORMAL = 1"
definition DM_DEVICE_LEFT :: DisableMergeAttribute where "DM_DEVICE_LEFT = 2"
definition DM_IPC_LEFT :: DisableMergeAttribute where "DM_IPC_LEFT = 4"
definition DM_LOCKED :: DisableMergeAttribute where "DM_LOCKED = 8"
definition DM_DEVICE_RIGHT :: DisableMergeAttribute where "DM_DEVICE_RIGHT = 16"
definition DM_ALL_LEFT :: DisableMergeAttribute where
  "DM_ALL_LEFT = DM_NORMAL OR DM_DEVICE_LEFT OR DM_IPC_LEFT OR DM_LOCKED"
definition DM_ALL_RIGHT :: DisableMergeAttribute where "DM_ALL_RIGHT = DM_DEVICE_RIGHT"

text \<open>\<open>!x\<close> and \<open>from_bits_truncate\<close>: the declared bits are 0x1F for the merge flags.\<close>

definition dm_truncate :: "u8 \<Rightarrow> DisableMergeAttribute" where
  "dm_truncate x = x AND 0x1F"

section \<open>The block\<close>

record KMemoryBlock =
  device_disable_merge_left_count :: u16
  device_disable_merge_right_count :: u16
  m_address :: nat
  m_num_pages :: nat
  m_memory_state :: KMemoryState
  ipc_lock_count :: u16
  device_use_count :: u16
  ipc_disable_merge_count :: u16
  m_permission :: KMemoryPermission
  original_permission :: KMemoryPermission
  m_attribute :: KMemoryAttribute
  disable_merge_attribute :: DisableMergeAttribute

definition mb_new :: KMemoryBlock where
  "mb_new = \<lparr>device_disable_merge_left_count = 0, device_disable_merge_right_count = 0, m_address = 0,
     m_num_pages = 0, m_memory_state = 0, ipc_lock_count = 0, device_use_count = 0,
     ipc_disable_merge_count = 0, m_permission = PERM_NONE, original_permission = PERM_NONE,
     m_attribute = ATTR_NONE, disable_merge_attribute = DM_NONE\<rparr>"

definition mb_new_with ::
  "nat \<Rightarrow> nat \<Rightarrow> KMemoryState \<Rightarrow> KMemoryPermission \<Rightarrow> KMemoryAttribute \<Rightarrow> KMemoryBlock" where
  "mb_new_with addr np ms p attr = \<lparr>device_disable_merge_left_count = 0, device_disable_merge_right_count = 0,
     m_address = addr, m_num_pages = np, m_memory_state = ms, ipc_lock_count = 0, device_use_count = 0,
     ipc_disable_merge_count = 0, m_permission = p, original_permission = PERM_NONE,
     m_attribute = attr, disable_merge_attribute = DM_NONE\<rparr>"

definition mb_initialize ::
  "nat \<Rightarrow> nat \<Rightarrow> KMemoryState \<Rightarrow> KMemoryPermission \<Rightarrow> KMemoryAttribute \<Rightarrow> KMemoryBlock \<Rightarrow> KMemoryBlock" where
  "mb_initialize addr np ms p attr b =
     b\<lparr>device_disable_merge_left_count := 0, device_disable_merge_right_count := 0, m_address := addr,
       m_num_pages := np, m_memory_state := ms, ipc_lock_count := 0, device_use_count := 0,
       m_permission := p, original_permission := PERM_NONE, m_attribute := attr,
       disable_merge_attribute := DM_NONE\<rparr>"

definition mb_size :: "KMemoryBlock \<Rightarrow> nat" where
  "mb_size b = mul64 (m_num_pages b) PAGE_SIZE"

definition mb_end :: "KMemoryBlock \<Rightarrow> nat" where
  "mb_end b = add64 (m_address b) (mb_size b)"

definition mb_last :: "KMemoryBlock \<Rightarrow> nat" where
  "mb_last b = sub64 (mb_end b) 1"

definition mb_compare :: "KMemoryBlock \<Rightarrow> KMemoryBlock \<Rightarrow> int" where
  "mb_compare lhs rhs =
     (if m_address lhs < m_address rhs then -1 else if m_address lhs \<le> mb_last rhs then 0 else 1)"

definition has_properties ::
  "KMemoryState \<Rightarrow> KMemoryPermission \<Rightarrow> KMemoryAttribute \<Rightarrow> KMemoryBlock \<Rightarrow> bool" where
  "has_properties s p a b \<longleftrightarrow>
     (let ignore = IPC_LOCKED OR DEVICE_SHARED
      in m_memory_state b = s \<and> m_permission b = p \<and> m_attribute b OR ignore = a OR ignore)"

definition has_same_properties :: "KMemoryBlock \<Rightarrow> KMemoryBlock \<Rightarrow> bool" where
  "has_same_properties b r \<longleftrightarrow> m_memory_state b = m_memory_state r \<and> m_permission b = m_permission r \<and>
     original_permission b = original_permission r \<and> m_attribute b = m_attribute r \<and>
     ipc_lock_count b = ipc_lock_count r \<and> device_use_count b = device_use_count r"

definition can_merge_with :: "KMemoryBlock \<Rightarrow> KMemoryBlock \<Rightarrow> bool" where
  "can_merge_with b r \<longleftrightarrow> has_same_properties b r \<and> disable_merge_attribute b AND DM_ALL_RIGHT = DM_NONE \<and>
     disable_merge_attribute r AND DM_ALL_LEFT = DM_NONE"

definition mb_contains :: "nat \<Rightarrow> KMemoryBlock \<Rightarrow> bool" where
  "mb_contains addr b \<longleftrightarrow> m_address b \<le> addr \<and> addr \<le> mb_end b"

definition mb_add :: "KMemoryBlock \<Rightarrow> KMemoryBlock \<Rightarrow> KMemoryBlock" where
  "mb_add added b =
     b\<lparr>m_num_pages := add64 (m_num_pages b) (m_num_pages added),
       disable_merge_attribute := disable_merge_attribute b OR disable_merge_attribute added,
       device_disable_merge_right_count := device_disable_merge_right_count added\<rparr>"

definition mb_update ::
  "KMemoryState \<Rightarrow> KMemoryPermission \<Rightarrow> KMemoryAttribute \<Rightarrow> bool \<Rightarrow> u8 \<Rightarrow> u8 \<Rightarrow> KMemoryBlock \<Rightarrow> KMemoryBlock" where
  "mb_update s p a set_disable set_mask clear_mask b =
     (let b = b\<lparr>m_memory_state := s, m_permission := p,
                m_attribute := a OR (m_attribute b AND (IPC_LOCKED OR DEVICE_SHARED))\<rparr>;
          b = (if set_disable \<and> set_mask \<noteq> 0
               then b\<lparr>disable_merge_attribute := disable_merge_attribute b OR dm_truncate set_mask\<rparr> else b)
      in if clear_mask \<noteq> 0
         then b\<lparr>disable_merge_attribute := disable_merge_attribute b AND dm_truncate (NOT clear_mask)\<rparr> else b)"

definition mb_update_attribute :: "KMemoryAttribute \<Rightarrow> KMemoryAttribute \<Rightarrow> KMemoryBlock \<Rightarrow> KMemoryBlock" where
  "mb_update_attribute msk attr b = b\<lparr>m_attribute := (m_attribute b AND NOT msk) OR attr\<rparr>"

text \<open>\<open>split\<close> fills the other block with the left part and keeps the right part; it answers both.\<close>

definition mb_split :: "KMemoryBlock \<Rightarrow> nat \<Rightarrow> KMemoryBlock \<Rightarrow> KMemoryBlock \<times> KMemoryBlock" where
  "mb_split block addr b =
     (let left_pages = sub64 addr (m_address b) div PAGE_SIZE
      in (block\<lparr>m_address := m_address b, m_num_pages := left_pages, m_memory_state := m_memory_state b,
            ipc_lock_count := ipc_lock_count b, device_use_count := device_use_count b,
            m_permission := m_permission b, original_permission := original_permission b,
            m_attribute := m_attribute b,
            disable_merge_attribute := disable_merge_attribute b AND DM_ALL_LEFT,
            ipc_disable_merge_count := ipc_disable_merge_count b,
            device_disable_merge_left_count := device_disable_merge_left_count b,
            device_disable_merge_right_count := 0\<rparr>,
          b\<lparr>m_address := addr, m_num_pages := sub64 (m_num_pages b) left_pages,
            ipc_disable_merge_count := 0, device_disable_merge_left_count := 0,
            disable_merge_attribute := disable_merge_attribute b AND DM_ALL_RIGHT\<rparr>))"

section \<open>Device sharing and IPC locks\<close>

definition share_left :: "bool \<Rightarrow> KMemoryBlock \<Rightarrow> KMemoryBlock" where
  "share_left left b =
     (if left then b\<lparr>disable_merge_attribute := disable_merge_attribute b OR DM_DEVICE_LEFT,
        device_disable_merge_left_count := device_disable_merge_left_count b + 1\<rparr> else b)"

definition share_right :: "bool \<Rightarrow> KMemoryBlock \<Rightarrow> KMemoryBlock" where
  "share_right right b =
     (if right then b\<lparr>disable_merge_attribute := disable_merge_attribute b OR DM_DEVICE_RIGHT,
        device_disable_merge_right_count := device_disable_merge_right_count b + 1\<rparr> else b)"

definition unshare_left :: "bool \<Rightarrow> KMemoryBlock \<Rightarrow> KMemoryBlock" where
  "unshare_left left b =
     (if left \<and> device_disable_merge_left_count b = 0 then b
      else let b = (if left then b\<lparr>device_disable_merge_left_count := device_disable_merge_left_count b - 1\<rparr> else b);
               b = b\<lparr>device_disable_merge_left_count := min (device_disable_merge_left_count b) (device_use_count b)\<rparr>
           in if device_disable_merge_left_count b = 0
              then b\<lparr>disable_merge_attribute := disable_merge_attribute b AND dm_truncate (NOT DM_DEVICE_LEFT)\<rparr>
              else b)"

definition unshare_right :: "bool \<Rightarrow> KMemoryBlock \<Rightarrow> KMemoryBlock" where
  "unshare_right right b =
     (if right then
        let old_count = device_disable_merge_right_count b;
            b = b\<lparr>device_disable_merge_right_count := old_count - 1\<rparr>
        in if old_count = 1
           then b\<lparr>disable_merge_attribute := disable_merge_attribute b AND dm_truncate (NOT DM_DEVICE_RIGHT)\<rparr>
           else b
      else b)"

definition share_to_device :: "KMemoryPermission \<Rightarrow> bool \<Rightarrow> bool \<Rightarrow> KMemoryBlock \<Rightarrow> KMemoryBlock" where
  "share_to_device new_perm left right b =
     share_right right (share_left left
       (b\<lparr>device_use_count := device_use_count b + 1, m_attribute := m_attribute b OR DEVICE_SHARED\<rparr>))"

definition unshare_to_device :: "KMemoryPermission \<Rightarrow> bool \<Rightarrow> bool \<Rightarrow> KMemoryBlock \<Rightarrow> KMemoryBlock" where
  "unshare_to_device new_perm left right b =
     (let old_count = device_use_count b;
          b = b\<lparr>device_use_count := old_count - 1\<rparr>;
          b = (if old_count = 1 then b\<lparr>m_attribute := m_attribute b AND NOT DEVICE_SHARED\<rparr> else b)
      in unshare_right right (unshare_left left b))"

definition lock_for_ipc :: "KMemoryPermission \<Rightarrow> bool \<Rightarrow> bool \<Rightarrow> KMemoryBlock \<Rightarrow> KMemoryBlock" where
  "lock_for_ipc new_perm left right b =
     (let new_count = ipc_lock_count b + 1;
          b = b\<lparr>ipc_lock_count := new_count\<rparr>;
          b = (if new_count = 1
               then b\<lparr>original_permission := m_permission b,
                      m_permission := ((new_perm AND IPC_LOCK_CHANGE_MASK) OR
                        (m_permission b AND (NOT IPC_LOCK_CHANGE_MASK AND PERM_ALL))) AND PERM_ALL\<rparr>
               else b);
          b = b\<lparr>m_attribute := m_attribute b OR IPC_LOCKED\<rparr>
      in if left
         then b\<lparr>disable_merge_attribute := disable_merge_attribute b OR DM_IPC_LEFT,
                ipc_disable_merge_count := ipc_disable_merge_count b + 1\<rparr>
         else b)"

definition unlock_for_ipc :: "KMemoryPermission \<Rightarrow> bool \<Rightarrow> bool \<Rightarrow> KMemoryBlock \<Rightarrow> KMemoryBlock" where
  "unlock_for_ipc new_perm left right b =
     (let old_count = ipc_lock_count b;
          b = b\<lparr>ipc_lock_count := old_count - 1\<rparr>;
          b = (if old_count = 1
               then b\<lparr>m_permission := original_permission b, original_permission := PERM_NONE,
                      m_attribute := m_attribute b AND NOT IPC_LOCKED\<rparr>
               else b)
      in if left
         then let old = ipc_disable_merge_count b;
                  b = b\<lparr>ipc_disable_merge_count := old - 1\<rparr>
              in if old = 1
                 then b\<lparr>disable_merge_attribute := disable_merge_attribute b AND dm_truncate (NOT DM_IPC_LEFT)\<rparr>
                 else b
         else b)"

section \<open>The information of a block\<close>

record KMemoryInfo =
  mi_address :: nat
  mi_size :: nat
  mi_state :: KMemoryState
  mi_device_disable_merge_left_count :: u16
  mi_device_disable_merge_right_count :: u16
  mi_ipc_lock_count :: u16
  mi_device_use_count :: u16
  mi_ipc_disable_merge_count :: u16
  mi_permission :: KMemoryPermission
  mi_attribute :: KMemoryAttribute
  mi_original_permission :: KMemoryPermission
  mi_disable_merge_attribute :: DisableMergeAttribute

definition get_memory_info :: "KMemoryBlock \<Rightarrow> KMemoryInfo" where
  "get_memory_info b = \<lparr>mi_address = m_address b, mi_size = mb_size b, mi_state = m_memory_state b,
     mi_device_disable_merge_left_count = device_disable_merge_left_count b,
     mi_device_disable_merge_right_count = device_disable_merge_right_count b,
     mi_ipc_lock_count = ipc_lock_count b, mi_device_use_count = device_use_count b,
     mi_ipc_disable_merge_count = ipc_disable_merge_count b, mi_permission = m_permission b,
     mi_attribute = m_attribute b, mi_original_permission = original_permission b,
     mi_disable_merge_attribute = disable_merge_attribute b\<rparr>"

definition mi_num_pages :: "KMemoryInfo \<Rightarrow> nat" where "mi_num_pages i = mi_size i div PAGE_SIZE"
definition mi_end :: "KMemoryInfo \<Rightarrow> nat" where "mi_end i = add64 (mi_address i) (mi_size i)"
definition mi_last :: "KMemoryInfo \<Rightarrow> nat" where "mi_last i = sub64 (mi_end i) 1"
definition get_svc_state :: "KMemoryInfo \<Rightarrow> u32" where "get_svc_state i = mi_state i AND STATE_MASK"

text \<open>What user code is shown of a block.\<close>

record MemoryInfo =
  base_address :: nat
  info_size :: nat
  info_state :: u32
  info_attribute :: u32
  info_permission :: u32
  ipc_count :: u32
  device_count :: u32

definition get_svc_memory_info :: "KMemoryInfo \<Rightarrow> MemoryInfo" where
  "get_svc_memory_info i = \<lparr>base_address = mi_address i, info_size = mi_size i,
     info_state = get_svc_state i, info_attribute = ucast (mi_attribute i AND 0xFF),
     info_permission = ucast (mi_permission i AND PERM_USER_MASK),
     ipc_count = ucast (mi_ipc_lock_count i), device_count = ucast (mi_device_use_count i)\<rparr>"

section \<open>The properties of the pages of a block\<close>

text \<open>
  What matters of a page: everything that \<open>has_same_properties\<close> compares. Addresses, sizes and the
  merge bookkeeping belong to the block.
\<close>

record PageProps =
  pp_state :: KMemoryState
  pp_permission :: KMemoryPermission
  pp_original :: KMemoryPermission
  pp_attribute :: KMemoryAttribute
  pp_ipc_locks :: u16
  pp_device_uses :: u16

definition props :: "KMemoryBlock \<Rightarrow> PageProps" where
  "props b = \<lparr>pp_state = m_memory_state b, pp_permission = m_permission b, pp_original = original_permission b,
     pp_attribute = m_attribute b, pp_ipc_locks = ipc_lock_count b, pp_device_uses = device_use_count b\<rparr>"

lemma has_same_properties_iff: "has_same_properties b r \<longleftrightarrow> props b = props r"
  by (auto simp: has_same_properties_def props_def)

lemma props_update [simp]:
  "props (b\<lparr>m_address := a\<rparr>) = props b" "props (b\<lparr>m_num_pages := n\<rparr>) = props b"
  "props (b\<lparr>disable_merge_attribute := d\<rparr>) = props b"
  "props (b\<lparr>device_disable_merge_right_count := c\<rparr>) = props b"
  "props (b\<lparr>device_disable_merge_left_count := c\<rparr>) = props b"
  "props (b\<lparr>ipc_disable_merge_count := c\<rparr>) = props b"
  by (simp_all add: props_def)

text \<open>The effect of the operations on the properties of a page.\<close>

definition page_has :: "KMemoryState \<Rightarrow> KMemoryPermission \<Rightarrow> KMemoryAttribute \<Rightarrow> PageProps \<Rightarrow> bool" where
  "page_has s p a x \<longleftrightarrow> pp_state x = s \<and> pp_permission x = p \<and>
     pp_attribute x OR (IPC_LOCKED OR DEVICE_SHARED) = a OR (IPC_LOCKED OR DEVICE_SHARED)"

definition page_update :: "KMemoryState \<Rightarrow> KMemoryPermission \<Rightarrow> KMemoryAttribute \<Rightarrow> PageProps \<Rightarrow> PageProps" where
  "page_update s p a x = x\<lparr>pp_state := s, pp_permission := p,
     pp_attribute := a OR (pp_attribute x AND (IPC_LOCKED OR DEVICE_SHARED))\<rparr>"

lemma has_properties_iff: "has_properties s p a b \<longleftrightarrow> page_has s p a (props b)"
  by (simp add: has_properties_def page_has_def props_def Let_def)

lemma props_mb_update [simp]: "props (mb_update s p a d sm cm b) = page_update s p a (props b)"
  by (simp add: mb_update_def page_update_def props_def Let_def)

lemma props_mb_update_attribute [simp]:
  "props (mb_update_attribute k a b) = (props b)\<lparr>pp_attribute := (pp_attribute (props b) AND NOT k) OR a\<rparr>"
  by (simp add: mb_update_attribute_def props_def)

lemma mb_update_geometry [simp]:
  "m_address (mb_update s p a d sm cm b) = m_address b" "m_num_pages (mb_update s p a d sm cm b) = m_num_pages b"
  "m_address (mb_update_attribute k a b) = m_address b" "m_num_pages (mb_update_attribute k a b) = m_num_pages b"
  by (simp_all add: mb_update_def mb_update_attribute_def Let_def)

lemma props_mb_add [simp]: "props (mb_add r b) = props b"
  by (simp add: mb_add_def props_def)

lemma mb_split_props [simp]:
  "props (fst (mb_split c addr b)) = props b" "props (snd (mb_split c addr b)) = props b"
  by (simp_all add: mb_split_def props_def Let_def)

lemma mb_split_geometry [simp]:
  "m_address (fst (mb_split c addr b)) = m_address b"
  "m_num_pages (fst (mb_split c addr b)) = sub64 addr (m_address b) div PAGE_SIZE"
  "m_address (snd (mb_split c addr b)) = addr"
  "m_num_pages (snd (mb_split c addr b)) = sub64 (m_num_pages b) (sub64 addr (m_address b) div PAGE_SIZE)"
  by (simp_all add: mb_split_def Let_def)

lemma lock_geometry [simp]:
  "m_address (lock_for_ipc p l r b) = m_address b" "m_num_pages (lock_for_ipc p l r b) = m_num_pages b"
  "m_address (unlock_for_ipc p l r b) = m_address b" "m_num_pages (unlock_for_ipc p l r b) = m_num_pages b"
  "m_address (share_to_device p l r b) = m_address b" "m_num_pages (share_to_device p l r b) = m_num_pages b"
  "m_address (unshare_to_device p l r b) = m_address b" "m_num_pages (unshare_to_device p l r b) = m_num_pages b"
  by (simp_all add: lock_for_ipc_def unlock_for_ipc_def share_to_device_def unshare_to_device_def
      share_left_def share_right_def unshare_left_def unshare_right_def Let_def)

text \<open>The counts that can only be there with their flag.\<close>

definition locks_consistent :: "PageProps \<Rightarrow> bool" where
  "locks_consistent x \<longleftrightarrow>
     (pp_ipc_locks x = 0 \<longleftrightarrow> pp_attribute x AND IPC_LOCKED = 0) \<and> (pp_ipc_locks x = 0 \<longrightarrow> pp_original x = PERM_NONE) \<and>
     (pp_device_uses x = 0 \<longleftrightarrow> pp_attribute x AND DEVICE_SHARED = 0)"

lemma flag_clear: "a AND f = 0 \<Longrightarrow> (a OR f) AND NOT f = a" for a :: u8
  by (auto simp: bit_eq_iff bit_simps)

lemma flag_one:
  fixes a :: u8
  shows "a AND IPC_LOCKED \<noteq> 0 \<Longrightarrow> a OR IPC_LOCKED = a" "a AND DEVICE_SHARED \<noteq> 0 \<Longrightarrow> a OR DEVICE_SHARED = a"
proof -
  have e: "a AND 2 ^ n \<noteq> 0 \<Longrightarrow> a OR 2 ^ n = a" for n and a :: u8
    unfolding and_exp_eq_0_iff_not_bit by (intro bit_eqI) (auto simp: bit_simps)
  have "IPC_LOCKED = 2 ^ 1" "DEVICE_SHARED = 2 ^ 2" by (simp_all add: IPC_LOCKED_def DEVICE_SHARED_def)
  then show "a AND IPC_LOCKED \<noteq> 0 \<Longrightarrow> a OR IPC_LOCKED = a" "a AND DEVICE_SHARED \<noteq> 0 \<Longrightarrow> a OR DEVICE_SHARED = a"
    using e by metis+
qed

lemma flag_nonzero: "(a OR f) AND f = f" "IPC_LOCKED \<noteq> 0" "DEVICE_SHARED \<noteq> 0" for a :: u8
  by (intro bit_eqI, auto simp: bit_simps IPC_LOCKED_def DEVICE_SHARED_def)

lemma flag_other:
  fixes a :: u8
  shows "(a OR IPC_LOCKED) AND DEVICE_SHARED = a AND DEVICE_SHARED"
    "(a OR DEVICE_SHARED) AND IPC_LOCKED = a AND IPC_LOCKED"
proof -
  have "IPC_LOCKED AND DEVICE_SHARED = 0" "DEVICE_SHARED AND IPC_LOCKED = 0"
    by (simp_all add: IPC_LOCKED_def DEVICE_SHARED_def)
  then show "(a OR IPC_LOCKED) AND DEVICE_SHARED = a AND DEVICE_SHARED"
    "(a OR DEVICE_SHARED) AND IPC_LOCKED = a AND IPC_LOCKED"
    by (simp_all add: bit.conj_disj_distrib2)
qed

text \<open>The page properties after each of the four operations.\<close>

lemma props_lock:
  "props (lock_for_ipc p l r b) = (props b)\<lparr>pp_ipc_locks := ipc_lock_count b + 1,
     pp_original := (if ipc_lock_count b + 1 = 1 then m_permission b else original_permission b),
     pp_permission := (if ipc_lock_count b + 1 = 1
       then ((p AND IPC_LOCK_CHANGE_MASK) OR (m_permission b AND (NOT IPC_LOCK_CHANGE_MASK AND PERM_ALL))) AND PERM_ALL
       else m_permission b), pp_attribute := m_attribute b OR IPC_LOCKED\<rparr>"
  "props (unlock_for_ipc p l r b) = (props b)\<lparr>pp_ipc_locks := ipc_lock_count b - 1,
     pp_permission := (if ipc_lock_count b = 1 then original_permission b else m_permission b),
     pp_original := (if ipc_lock_count b = 1 then PERM_NONE else original_permission b),
     pp_attribute := (if ipc_lock_count b = 1 then m_attribute b AND NOT IPC_LOCKED else m_attribute b)\<rparr>"
  "props (share_to_device p l r b) = (props b)\<lparr>pp_device_uses := device_use_count b + 1,
     pp_attribute := m_attribute b OR DEVICE_SHARED\<rparr>"
  "props (unshare_to_device p l r b) = (props b)\<lparr>pp_device_uses := device_use_count b - 1,
     pp_attribute := (if device_use_count b = 1 then m_attribute b AND NOT DEVICE_SHARED else m_attribute b)\<rparr>"
  by (simp_all add: lock_for_ipc_def unlock_for_ipc_def share_to_device_def unshare_to_device_def
      share_left_def share_right_def unshare_left_def unshare_right_def props_def Let_def)

lemma props_fields:
  "m_attribute b = pp_attribute (props b)" "m_permission b = pp_permission (props b)"
  "original_permission b = pp_original (props b)" "ipc_lock_count b = pp_ipc_locks (props b)"
  "device_use_count b = pp_device_uses (props b)"
  by (simp_all add: props_def)

text \<open>
  Locking a block for IPC and unlocking it restores the properties of its pages, whatever the
  permission asked for, the edges, and the number of locks already held (below the overflow of
  the 16-bit count); in between the pages are marked as locked, the lock counts and flags stay
  consistent, and a first lock remembers the old permission. The same holds for sharing a block
  with a device and ending it.
\<close>

theorem lock_unlock_restores:
  assumes "locks_consistent (props b)" "ipc_lock_count b \<noteq> -1" "device_use_count b \<noteq> -1"
  shows "props (unlock_for_ipc q l' r' (lock_for_ipc p l r b)) = props b \<and>
    props (unshare_to_device q l' r' (share_to_device p l r b)) = props b \<and>
    locks_consistent (props (lock_for_ipc p l r b)) \<and> locks_consistent (props (share_to_device p l r b)) \<and>
    pp_attribute (props (lock_for_ipc p l r b)) AND IPC_LOCKED \<noteq> 0 \<and>
    (ipc_lock_count b = 0 \<longrightarrow> pp_original (props (lock_for_ipc p l r b)) = m_permission b)"
proof (intro conjI)
  note c = assms [unfolded locks_consistent_def props_fields]
  have one: "(k :: u16) + 1 = 1 \<longleftrightarrow> k = 0" "(k :: u16) + 1 = 0 \<longleftrightarrow> k = -1" for k
    by (simp, metis add.commute add_eq_0_iff)
  note lock = props_lock props_fields flag_clear flag_one flag_nonzero flag_other one
  show "props (unlock_for_ipc q l' r' (lock_for_ipc p l r b)) = props b"
    using c by (cases "pp_ipc_locks (props b) = 0") (simp_all add: lock)
  show "props (unshare_to_device q l' r' (share_to_device p l r b)) = props b"
    using c by (cases "pp_device_uses (props b) = 0") (simp_all add: lock)
  show "locks_consistent (props (lock_for_ipc p l r b))" "locks_consistent (props (share_to_device p l r b))"
    using c by (simp_all add: locks_consistent_def lock)
  show "pp_attribute (props (lock_for_ipc p l r b)) AND IPC_LOCKED \<noteq> 0"
    "ipc_lock_count b = 0 \<longrightarrow> pp_original (props (lock_for_ipc p l r b)) = m_permission b"
    by (simp_all add: lock)
qed

lemma lock_unlock_restores_witness:
  "props (unlock_for_ipc 0 True True (lock_for_ipc USER_READ_WRITE True True mb_new)) = props mb_new"
proof -
  have "locks_consistent (props mb_new)" by (simp add: locks_consistent_def props_def mb_new_def ATTR_NONE_def PERM_NONE_def)
  moreover have "ipc_lock_count mb_new \<noteq> -1" "device_use_count mb_new \<noteq> -1" by (simp_all add: mb_new_def)
  ultimately show ?thesis using lock_unlock_restores [of mb_new 0 True True USER_READ_WRITE True True] by blast
qed

end
