(* ===== verification/PageBitmap.thy ===== *)
theory PageBitmap
  imports Bits
begin

text \<open>
  The hierarchical free-page bitmap of the kernel page heap and its random bit generator,
  src/core/src/hle/kernel/k_page_bitmap.rs.

  A level of the bitmap is a list of 64-bit words; \<open>bit_storages\<close> maps the depth index to its
  level and the array bound 4 is checked by \<open>ix\<close>. An access past the end of a level panics.
  \<open>num_bits\<close> is the wrapping 64-bit counter of the code; offsets are \<^typ>\<open>nat\<close>, since every
  offset is bounded by an access before it could overflow.
\<close>

abbreviation BITS :: nat where "BITS \<equiv> 64"
abbreviation MAX_DEPTH :: nat where "MAX_DEPTH \<equiv> 4"

section \<open>RandomBitGenerator\<close>

record RandomBitGenerator =
  rng_state :: u64
  entropy :: u32
  bits_available :: nat

definition rng_new :: RandomBitGenerator where
  "rng_new = \<lparr>rng_state = 0x123456789ABCDEF0, entropy = 0, bits_available = 0\<rparr>"

definition refresh_entropy :: "RandomBitGenerator \<Rightarrow> RandomBitGenerator" where
  "refresh_entropy g =
     (let x = (ucast (rng_state g) :: u32);
          x = x XOR shl x 13;
          x = x XOR shr x 17;
          x = x XOR shl x 5
      in g\<lparr>rng_state := shr (rng_state g) 32 OR shl (ucast x) 32,
           entropy := x, bits_available := 32\<rparr>)"

definition ensure_entropy :: "RandomBitGenerator \<Rightarrow> RandomBitGenerator" where
  "ensure_entropy g = (if bits_available g = 0 then refresh_entropy g else g)"

definition generate_random_bit :: "RandomBitGenerator \<Rightarrow> bool \<times> RandomBitGenerator" where
  "generate_random_bit g =
     (let g = ensure_entropy g
      in (entropy g AND 1 \<noteq> 0,
          g\<lparr>entropy := shr (entropy g) 1, bits_available := bits_available g - 1\<rparr>))"

lemma bits_available_ensure: "0 < bits_available (ensure_entropy g)"
  by (simp add: ensure_entropy_def refresh_entropy_def Let_def)

text \<open>The loop of \<open>generate_random_bits\<close>; each round consumes at least one bit.\<close>

function random_bits_loop :: "nat \<Rightarrow> u64 \<Rightarrow> RandomBitGenerator \<Rightarrow> u64 \<times> RandomBitGenerator" where
  "random_bits_loop num_bits result g =
     (if num_bits = 0 then (result, g)
      else let g = ensure_entropy g;
               cur_bits = min num_bits (bits_available g);
               m = shl 1 cur_bits - 1;
               result = shl result cur_bits OR (ucast (entropy g) AND m)
           in random_bits_loop (num_bits - cur_bits) result
                (g\<lparr>entropy := shr (entropy g) cur_bits,
                   bits_available := bits_available g - cur_bits\<rparr>))"
  by pat_completeness auto
termination
  by (relation "measure (\<lambda>(n, _, _). n)") (use bits_available_ensure in \<open>auto simp: min_def\<close>)

declare random_bits_loop.simps [simp del]

definition generate_random_bits :: "nat \<Rightarrow> RandomBitGenerator \<Rightarrow> u64 \<times> RandomBitGenerator" where
  "generate_random_bits num_bits g = random_bits_loop num_bits 0 g"

text \<open>The halving loop of \<open>select_random_bit\<close>.\<close>

function select_loop ::
  "nat \<Rightarrow> u64 \<Rightarrow> nat \<Rightarrow> RandomBitGenerator \<Rightarrow> nat \<times> RandomBitGenerator" where
  "select_loop cur_num_bits bitmap selected g =
     (if cur_num_bits = 0 then (selected, g)
      else let high = shr bitmap cur_num_bits;
               low = bitmap AND NOT (shl (NOT 0) cur_num_bits);
               (take_high, g) =
                 (if high = 0 then (False, g)
                  else if low = 0 then (True, g)
                  else generate_random_bit g)
           in if take_high then select_loop (cur_num_bits div 2) high (selected + cur_num_bits) g
              else select_loop (cur_num_bits div 2) low selected g)"
  by pat_completeness auto
termination
  by (relation "measure (\<lambda>(n, _, _, _). n)") auto

declare select_loop.simps [simp del]

definition select_random_bit :: "u64 \<Rightarrow> RandomBitGenerator \<Rightarrow> nat \<times> RandomBitGenerator" where
  "select_random_bit bitmap g = select_loop (BITS div 2) bitmap 0 g"

definition generate_random :: "u64 \<Rightarrow> RandomBitGenerator \<Rightarrow> u64 \<times> RandomBitGenerator" where
  "generate_random mx g =
     (let bits_needed = (if mx = 0 then 1 else 1 + (64 - clz mx));
          (rnd, g) = generate_random_bits bits_needed g
      in (if mx = 0 then 0 else rnd - (rnd div mx) * mx, g))"

section \<open>KPageBitmap\<close>

record KPageBitmap =
  bit_storages :: "nat \<Rightarrow> u64 list"
  rng :: RandomBitGenerator
  num_bits :: u64
  used_depths :: nat

definition pb_new :: KPageBitmap where
  "pb_new = \<lparr>bit_storages = (\<lambda>_. []), rng = rng_new, num_bits = 0, used_depths = 0\<rparr>"

definition get_highest_depth_index :: "KPageBitmap \<Rightarrow> int" where
  "get_highest_depth_index b = int (used_depths b) - 1"

text \<open>The levels are read and written with both bounds checked.\<close>

definition word_at :: "(nat \<Rightarrow> u64 list) \<Rightarrow> int \<Rightarrow> nat \<Rightarrow> u64 option" where
  "word_at st depth i = do {
     d \<leftarrow> ix MAX_DEPTH depth;
     if i < length (st d) then Some (st d ! i) else None }"

definition put_word :: "(nat \<Rightarrow> u64 list) \<Rightarrow> int \<Rightarrow> nat \<Rightarrow> u64 \<Rightarrow> (nat \<Rightarrow> u64 list)" where
  "put_word st depth i v = st(nat depth := (st (nat depth))[i := v])"

fun get_required_depth :: "nat \<Rightarrow> nat" where
  "get_required_depth region_size =
     (if region_size div BITS = 0 then 1 else 1 + get_required_depth (region_size div BITS))"

declare get_required_depth.simps [simp del]

text \<open>The loop of \<open>initialize\<close> over the depths, the deepest first.\<close>

fun init_levels :: "nat list \<Rightarrow> nat \<Rightarrow> (nat \<Rightarrow> u64 list) \<Rightarrow> (nat \<Rightarrow> u64 list) option" where
  "init_levels [] cur_size st = Some st"
| "init_levels (depth # ds) cur_size st = do {
     let cur_size = (cur_size + BITS - 1) div BITS;
     d \<leftarrow> ix MAX_DEPTH (int depth);
     init_levels ds cur_size (st(d := replicate cur_size 0)) }"

definition pb_initialize :: "nat \<Rightarrow> KPageBitmap \<Rightarrow> KPageBitmap option" where
  "pb_initialize sz b = do {
     let depths = get_required_depth sz;
     st \<leftarrow> init_levels (rev [0..<depths]) sz (bit_storages b);
     Some (b\<lparr>num_bits := 0, used_depths := depths, bit_storages := st\<rparr>) }"

text \<open>
  The descent of \<open>find_free_block\<close>: \<open>n\<close> levels are left, the current one is \<open>depth\<close>. The random
  variant chooses among the set bits with the generator, the other takes the lowest.
\<close>

fun find_loop ::
  "bool \<Rightarrow> (nat \<Rightarrow> u64 list) \<Rightarrow> nat \<Rightarrow> nat \<Rightarrow> nat \<Rightarrow> RandomBitGenerator \<Rightarrow>
   (int \<times> RandomBitGenerator) option" where
  "find_loop random st 0 depth offset g = Some (int offset, g)"
| "find_loop random st (Suc n) depth offset g = do {
     v \<leftarrow> word_at st (int depth) offset;
     if v = 0 then Some (-1, g)
     else let (k, g) = (if random then select_random_bit v g else (ctz v, g))
          in find_loop random st n (Suc depth) (offset * BITS + k) g }"

text \<open>The loop body runs before the depth test, so at least one level is read.\<close>

definition find_free_block :: "bool \<Rightarrow> KPageBitmap \<Rightarrow> (int \<times> KPageBitmap) option" where
  "find_free_block random b = do {
     (r, g) \<leftarrow> find_loop random (bit_storages b) (max 1 (used_depths b)) 0 0 (rng b);
     Some (r, b\<lparr>rng := g\<rparr>) }"

text \<open>The inner loop of \<open>find_free_range\<close> over the slots of one word.\<close>

fun scan_options ::
  "nat \<Rightarrow> u64 \<Rightarrow> nat \<Rightarrow> nat list \<Rightarrow> u64 \<Rightarrow> nat \<Rightarrow> int \<Rightarrow> RandomBitGenerator \<Rightarrow>
   nat \<times> int \<times> RandomBitGenerator" where
  "scan_options count free_mask si [] s nv chosen g = (nv, chosen, g)"
| "scan_options count free_mask si (opt # opts) s nv chosen g =
     (if s AND free_mask = free_mask then
        (let nv = nv + 1;
             (pick, g) = (if nv = 1 then (True, g)
                          else let (r, g) = generate_random (word_of_nat nv) g in (r = 0, g));
             chosen = (if pick then int (si * BITS + opt * count) else chosen)
         in scan_options count free_mask si opts (shr s count) nv chosen g)
      else scan_options count free_mask si opts (shr s count) nv chosen g)"

fun scan_words ::
  "nat \<Rightarrow> u64 \<Rightarrow> nat list \<Rightarrow> u64 list \<Rightarrow> nat \<Rightarrow> nat \<Rightarrow> int \<Rightarrow> RandomBitGenerator \<Rightarrow>
   nat \<times> int \<times> RandomBitGenerator" where
  "scan_words count free_mask opts [] si nv chosen g = (nv, chosen, g)"
| "scan_words count free_mask opts (s # ss) si nv chosen g =
     (case scan_options count free_mask si opts s nv chosen g of
        (nv, chosen, g) \<Rightarrow> scan_words count free_mask opts ss (Suc si) nv chosen g)"

definition find_free_range :: "nat \<Rightarrow> KPageBitmap \<Rightarrow> (int \<times> KPageBitmap) option" where
  "find_free_range count b =
     (if used_depths b = 0 \<or> count > BITS then Some (-1, b)
      else do {
        d \<leftarrow> ix MAX_DEPTH (int (used_depths b) - 1);
        let storage = bit_storages b d;
        if storage = [] then Some (-1, b)
        else do {
          guard_panic (count \<noteq> 0);
          let options_per_storage = max (BITS div count) 1;
          let free_mask = shl 1 count - 1;
          let (_, chosen, g) = scan_words count free_mask [0..<options_per_storage] storage 0 0 (-1) (rng b);
          Some (chosen, b\<lparr>rng := g\<rparr>) } })"

text \<open>The two propagating loops: climb while the change of a word changes its emptiness.\<close>

function set_bit_at_depth :: "int \<Rightarrow> nat \<Rightarrow> (nat \<Rightarrow> u64 list) \<Rightarrow> (nat \<Rightarrow> u64 list) option" where
  "set_bit_at_depth depth offset st =
     (if depth < 0 then Some st
      else do {
        let ind = offset div BITS;
        let m = shl 1 (offset mod BITS);
        v \<leftarrow> word_at st depth ind;
        let st = put_word st depth ind (v OR m);
        if v \<noteq> 0 then Some st else set_bit_at_depth (depth - 1) ind st })"
  by pat_completeness auto
termination
  by (relation "measure (\<lambda>(d, _, _). nat (d + 1))") auto

function clear_bit_at_depth :: "int \<Rightarrow> nat \<Rightarrow> (nat \<Rightarrow> u64 list) \<Rightarrow> (nat \<Rightarrow> u64 list) option" where
  "clear_bit_at_depth depth offset st =
     (if depth < 0 then Some st
      else do {
        let ind = offset div BITS;
        let m = shl 1 (offset mod BITS);
        v \<leftarrow> word_at st depth ind;
        let new_v = v AND NOT m;
        let st = put_word st depth ind new_v;
        if new_v \<noteq> 0 then Some st else clear_bit_at_depth (depth - 1) ind st })"
  by pat_completeness auto
termination
  by (relation "measure (\<lambda>(d, _, _). nat (d + 1))") auto

declare set_bit_at_depth.simps [simp del] clear_bit_at_depth.simps [simp del]

definition pb_set_bit :: "nat \<Rightarrow> KPageBitmap \<Rightarrow> KPageBitmap option" where
  "pb_set_bit offset b = do {
     st \<leftarrow> set_bit_at_depth (get_highest_depth_index b) offset (bit_storages b);
     Some (b\<lparr>bit_storages := st, num_bits := num_bits b + 1\<rparr>) }"

definition pb_clear_bit :: "nat \<Rightarrow> KPageBitmap \<Rightarrow> KPageBitmap option" where
  "pb_clear_bit offset b = do {
     st \<leftarrow> clear_bit_at_depth (get_highest_depth_index b) offset (bit_storages b);
     Some (b\<lparr>bit_storages := st, num_bits := num_bits b - 1\<rparr>) }"

text \<open>The two loops over whole words of \<open>clear_range\<close>.\<close>

fun all_ones :: "(nat \<Rightarrow> u64 list) \<Rightarrow> int \<Rightarrow> nat list \<Rightarrow> bool option" where
  "all_ones st depth [] = Some True"
| "all_ones st depth (i # is) = do {
     v \<leftarrow> word_at st depth i;
     if v \<noteq> NOT 0 then Some False else all_ones st depth is }"

fun zero_words :: "(nat \<Rightarrow> u64 list) \<Rightarrow> int \<Rightarrow> nat list \<Rightarrow> (nat \<Rightarrow> u64 list) option" where
  "zero_words st depth [] = Some st"
| "zero_words st depth (i # is) = do {
     _ \<leftarrow> word_at st depth i;
     st \<leftarrow> clear_bit_at_depth (depth - 1) i (put_word st depth i 0);
     zero_words st depth is }"

definition clear_range :: "nat \<Rightarrow> nat \<Rightarrow> KPageBitmap \<Rightarrow> (bool \<times> KPageBitmap) option" where
  "clear_range offset count b =
     (let depth = get_highest_depth_index b;
          bit_ind = offset div BITS
      in if count < BITS then do {
           let shift = offset mod BITS;
           let m = shl (shl 1 count - 1) shift;
           v \<leftarrow> word_at (bit_storages b) depth bit_ind;
           if v AND m \<noteq> m then Some (False, b)
           else do {
             let new_v = v AND NOT m;
             let st = put_word (bit_storages b) depth bit_ind new_v;
             st \<leftarrow> (if new_v = 0 then clear_bit_at_depth (depth - 1) bit_ind st else Some st);
             Some (True, b\<lparr>bit_storages := st, num_bits := num_bits b - word_of_nat count\<rparr>) } }
         else do {
           let is = map (\<lambda>i. bit_ind + i) [0..<count div BITS];
           full \<leftarrow> all_ones (bit_storages b) depth is;
           if \<not> full then Some (False, b)
           else do {
             st \<leftarrow> zero_words (bit_storages b) depth is;
             Some (True, b\<lparr>bit_storages := st, num_bits := num_bits b - word_of_nat count\<rparr>) } })"

definition overhead_size :: "nat \<Rightarrow> nat" where
  "overhead_size region_size =
     (let depth = get_required_depth region_size;
          step = (\<lambda>_ (rs, bits). let rs = (rs + BITS - 1) div BITS in (rs, bits + rs))
      in snd (fold step (rev [0..<depth]) (region_size, 0)) * 8)"

section \<open>Choosing a random set bit\<close>

lemma select_loop_sets:
  assumes "w \<noteq> 0" "take_bit (2 ^ k) w = w" "2 ^ k \<le> (64 :: nat)"
  shows "\<exists>j < 2 ^ k. bit w j \<and> fst (select_loop (2 ^ k div 2) w sel g) = sel + j"
  using assms
proof (induction k arbitrary: w sel g)
  case 0
  then have "bit w 0"
    by (metis bit_take_bit_iff less_one nonzero_bit power_0)
  then show ?case by (simp add: select_loop.simps)
next
  case (Suc k)
  let ?n = "2 ^ k :: nat"
  have n: "0 < ?n" "?n < 64" using Suc.prems(3) by simp_all
  have half: "2 ^ Suc k div 2 = ?n" by simp
  let ?hi = "drop_bit ?n w" and ?lo = "take_bit ?n w"
  have bits: "i < 2 * ?n" if "bit w i" for i
    using that Suc.prems(2) by (metis bit_take_bit_iff power_Suc)
  have hi: "take_bit ?n ?hi = ?hi"
    by (rule bit_word_eqI) (use bits in \<open>force simp: bit_simps\<close>)
  have ih_hi: "\<exists>j < 2 ^ Suc k. bit w j \<and> fst (select_loop (?n div 2) ?hi (sel + ?n) g') = sel + j"
    if "?hi \<noteq> 0" for g'
  proof -
    from Suc.IH [OF that hi, of "sel + ?n" g'] n obtain j where
      "j < ?n" "bit ?hi j" "fst (select_loop (?n div 2) ?hi (sel + ?n) g') = sel + ?n + j" by auto
    then show ?thesis by (intro exI [of _ "?n + j"]) (auto simp: bit_simps)
  qed
  have ih_lo: "\<exists>j < 2 ^ Suc k. bit w j \<and> fst (select_loop (?n div 2) ?lo sel g') = sel + j"
    if "?lo \<noteq> 0" for g'
  proof -
    from Suc.IH [OF that, of sel g'] n obtain j where
      "j < ?n" "bit ?lo j" "fst (select_loop (?n div 2) ?lo sel g') = sel + j" by auto
    then show ?thesis by (intro exI [of _ j]) (auto simp: bit_simps)
  qed
  have split: "?hi \<noteq> 0 \<or> ?lo \<noteq> 0"
  proof -
    obtain i where i: "bit w i" using Suc.prems(1) by (auto simp: nonzero_bit)
    show ?thesis
    proof (cases "i < ?n")
      case True
      with i have "bit ?lo i" by (simp add: bit_take_bit_iff)
      then show ?thesis by auto
    next
      case False
      with i have "bit ?hi (i - ?n)" by (simp add: bit_drop_bit_eq)
      then show ?thesis by auto
    qed
  qed
  show ?case
    unfolding half
    using n split ih_hi ih_lo
    by (subst select_loop.simps)
      (auto simp: Let_def simp flip: take_bit_eq_mask split: prod.splits if_splits)
qed

lemma select_random_bit_sets:
  assumes "w \<noteq> 0"
  shows "bit w (fst (select_random_bit w g))" "fst (select_random_bit w g) < 64"
  using select_loop_sets [of w 6 0 g] assms unsigned_less [of w]
  by (auto simp: select_random_bit_def take_bit_word_self_iff)

section \<open>Levels as sets of bit indices\<close>

definition level_bits :: "(nat \<Rightarrow> u64 list) \<Rightarrow> nat \<Rightarrow> nat set" where
  "level_bits st k = {i. i < 64 * length (st k) \<and> bit (st k ! (i div 64)) (i mod 64)}"

lemma finite_level_bits [simp]: "finite (level_bits st k)"
  by (simp add: level_bits_def)

lemma level_bits_cong: "st' k = st k \<Longrightarrow> level_bits st' k = level_bits st k"
  by (simp add: level_bits_def)

lemma level_bits_bound: "i \<in> level_bits st k \<Longrightarrow> i div 64 < length (st k)"
  by (simp add: level_bits_def less_mult_imp_div_less mult.commute)

lemma word_nonzero_iff:
  assumes "ind < length (st k)"
  shows "st k ! ind \<noteq> 0 \<longleftrightarrow> ind \<in> (\<lambda>i. i div 64) ` level_bits st k"
proof
  assume "st k ! ind \<noteq> 0"
  then obtain n where n: "n < 64" "bit (st k ! ind) n" by (auto simp: nonzero_bit)
  then have "64 * ind + n \<in> level_bits st k" using assms by (simp add: level_bits_def)
  with n show "ind \<in> (\<lambda>i. i div 64) ` level_bits st k" by force
next
  assume "ind \<in> (\<lambda>i. i div 64) ` level_bits st k"
  then show "st k ! ind \<noteq> 0" by (auto simp: level_bits_def)
qed

text \<open>Each level marks the non-zero words of the next.\<close>

definition level_ok :: "(nat \<Rightarrow> u64 list) \<Rightarrow> nat \<Rightarrow> bool" where
  "level_ok st k \<longleftrightarrow> level_bits st k = (\<lambda>i. i div 64) ` level_bits st (Suc k)"

definition lengths_ok :: "(nat \<Rightarrow> u64 list) \<Rightarrow> nat \<Rightarrow> bool" where
  "lengths_ok st d \<longleftrightarrow> length (st 0) = 1 \<and>
     (\<forall>k < d. length (st k) = (length (st (Suc k)) + 63) div 64)"

lemma word_at_int [simp]:
  "d < 4 \<Longrightarrow> i < length (st d) \<Longrightarrow> word_at st (int d) i = Some (st d ! i)"
  by (simp add: word_at_def)

lemma put_word_int: "put_word st (int d) i v = st(d := (st d)[i := v])"
  by (simp add: put_word_def)

lemma level_bits_put:
  assumes "ind < length (st d)"
  shows "level_bits (put_word st (int d) ind v) d =
     {i \<in> level_bits st d. i div 64 \<noteq> ind} \<union> {i. i div 64 = ind \<and> bit v (i mod 64)}"
proof -
  have "i < 64 * length (st d)" if "i div 64 = ind" for i
    using assms that by (metis div_less_iff_less_mult mult.commute zero_less_numeral)
  then show ?thesis
    using assms by (auto simp: level_bits_def put_word_int nth_list_update)
qed

lemma word_bit_iff:
  "i div 64 = ind \<Longrightarrow> ind < length (st d) \<Longrightarrow> bit (st d ! ind) (i mod 64) \<longleftrightarrow> i \<in> level_bits st d"
  by (auto simp: level_bits_def)

lemma eq_index_iff: "i div 64 = j div 64 \<Longrightarrow> i mod 64 = j mod 64 \<longleftrightarrow> i = j" for i j :: nat
  by (metis div_mult_mod_eq)

lemma level_bits_set:
  assumes "off div 64 < length (st d)"
  shows "level_bits (put_word st (int d) (off div 64) (st d ! (off div 64) OR 2 ^ (off mod 64))) d =
     insert off (level_bits st d)"
  using assms by (auto simp: level_bits_put or_bit_iff word_bit_iff eq_index_iff)

lemma level_bits_unset:
  assumes "off div 64 < length (st d)"
  shows "level_bits (put_word st (int d) (off div 64) (st d ! (off div 64) AND NOT (2 ^ (off mod 64)))) d =
     level_bits st d - {off}"
  using assms by (auto simp: level_bits_put andnot_bit_iff word_bit_iff eq_index_iff)

section \<open>The propagating loops\<close>

text \<open>A depth stays of the form \<^term>\<open>int (Suc d)\<close>, so the level it names is visible.\<close>

declare of_nat_Suc [simp del]

lemma int_Suc_pred [simp]: "int (Suc d) - 1 = int d"
  by (simp add: of_nat_Suc)

lemma lengths_ok_index:
  assumes "lengths_ok st (Suc d)" "i < length (st (Suc d))"
  shows "i div 64 < length (st d)"
  using assms by (auto simp: lengths_ok_def div_less_iff_less_mult)

lemma lengths_ok_mono: "lengths_ok st d \<Longrightarrow> k \<le> d \<Longrightarrow> lengths_ok st k"
  by (simp add: lengths_ok_def)

lemma set_bit_neg [simp]: "d < 0 \<Longrightarrow> set_bit_at_depth d off st = Some st"
  by (simp add: set_bit_at_depth.simps)

lemma clear_bit_neg [simp]: "d < 0 \<Longrightarrow> clear_bit_at_depth d off st = Some st"
  by (simp add: clear_bit_at_depth.simps)

lemma set_bit_step:
  assumes "word_at st (int d) (off div 64) = Some v"
  shows "set_bit_at_depth (int d) off st =
    (let st' = put_word st (int d) (off div 64) (v OR 2 ^ (off mod 64))
     in if v \<noteq> 0 then Some st' else set_bit_at_depth (int d - 1) (off div 64) st')"
  by (subst set_bit_at_depth.simps) (simp add: assms Let_def)

lemma clear_bit_step:
  assumes "word_at st (int d) (off div 64) = Some v"
  shows "clear_bit_at_depth (int d) off st =
    (let v' = v AND NOT (2 ^ (off mod 64)); st' = put_word st (int d) (off div 64) v'
     in if v' \<noteq> 0 then Some st' else clear_bit_at_depth (int d - 1) (off div 64) st')"
  by (subst clear_bit_at_depth.simps) (simp add: assms Let_def)

lemma length_put_word [simp]: "length (put_word st (int d) i v k) = length (st k)"
  by (simp add: put_word_int)

lemma lengths_ok_put [simp]: "lengths_ok (put_word st (int d) i v) k = lengths_ok st k"
  by (simp add: lengths_ok_def)

text \<open>
  Setting a bit at depth \<open>d\<close> of a bitmap whose levels above agree makes exactly that bit of the
  level set, keeps the deeper levels, and makes all the levels above agree again.
\<close>

definition propagated ::
  "(nat \<Rightarrow> u64 list) \<Rightarrow> nat \<Rightarrow> nat set \<Rightarrow> (nat \<Rightarrow> u64 list) \<Rightarrow> bool" where
  "propagated st d S st' \<longleftrightarrow> level_bits st' d = S \<and> (\<forall>k < d. level_ok st' k) \<and>
     (\<forall>k > d. st' k = st k) \<and> (\<forall>k. length (st' k) = length (st k))"

lemma propagated_lengths: "propagated st d S st' \<Longrightarrow> lengths_ok st' k = lengths_ok st k"
  by (simp add: propagated_def lengths_ok_def)

lemma level_ok_put:
  assumes "level_bits (put_word st (int (Suc d)) ind v) (Suc d) = S"
    and "(\<lambda>i. i div 64) ` S = (\<lambda>i. i div 64) ` level_bits st (Suc d)" "level_ok st k" "k \<le> d"
  shows "level_ok (put_word st (int (Suc d)) ind v) k"
proof (cases "k = d")
  case True
  then have "level_bits (put_word st (int (Suc d)) ind v) k = level_bits st k"
    by (intro level_bits_cong) (simp add: put_word_int)
  then show ?thesis using assms True by (simp add: level_ok_def)
next
  case False
  then have "put_word st (int (Suc d)) ind v k = st k"
    "put_word st (int (Suc d)) ind v (Suc k) = st (Suc k)"
    using assms(4) by (simp_all add: put_word_int)
  then show ?thesis using assms(3) by (simp add: level_ok_def level_bits_def)
qed

lemma set_bit_propagates:
  assumes "d < 4" "lengths_ok st d" "off div 64 < length (st d)" "\<forall>k < d. level_ok st k"
  shows "\<exists>st'. set_bit_at_depth (int d) off st = Some st' \<and>
           propagated st d (insert off (level_bits st d)) st'"
  using assms
proof (induction d arbitrary: off st)
  case 0
  let ?st = "put_word st (int 0) (off div 64) (st 0 ! (off div 64) OR 2 ^ (off mod 64))"
  have w: "word_at st (int 0) (off div 64) = Some (st 0 ! (off div 64))"
    by (rule word_at_int) (use 0 in auto)
  have "set_bit_at_depth (int 0) off st = Some ?st"
    using set_bit_step [OF w] by (simp add: Let_def)
  moreover have "propagated st 0 (insert off (level_bits st 0)) ?st"
    using level_bits_set [of off st 0] 0 by (simp add: propagated_def put_word_def)
  ultimately show ?case by blast
next
  case (Suc d)
  let ?ind = "off div 64" let ?v = "st (Suc d) ! ?ind"
  let ?st = "put_word st (int (Suc d)) ?ind (?v OR 2 ^ (off mod 64))"
  note bits = level_bits_set [of off st "Suc d", OF Suc.prems(3)]
  have w: "word_at st (int (Suc d)) ?ind = Some ?v"
    by (rule word_at_int) (use Suc.prems in auto)
  show ?case
  proof (cases "?v = 0")
    case False
    then have "set_bit_at_depth (int (Suc d)) off st = Some ?st"
      using set_bit_step [OF w] by (simp add: Let_def)
    moreover have "propagated st (Suc d) (insert off (level_bits st (Suc d))) ?st"
    proof -
      have "?ind \<in> (\<lambda>i. i div 64) ` level_bits st (Suc d)"
        using False word_nonzero_iff [of "off div 64" st "Suc d", OF Suc.prems(3)] by simp
      then have "level_ok ?st k" if "k \<le> d" for k
        by (intro level_ok_put [OF bits]) (use Suc.prems that in auto)
      then show ?thesis
        using bits by (auto simp: propagated_def put_word_int)
    qed
    ultimately show ?thesis by blast
  next
    case True
    have st: "?st k = st k" if "k \<le> d" for k using that by (simp add: put_word_int)
    have ok: "\<forall>k < d. level_ok ?st k"
      using Suc.prems(4) st by (simp add: level_ok_def level_bits_def)
    have len: "lengths_ok ?st d" using Suc.prems(2) lengths_ok_mono [of st "Suc d" d] by simp
    have "?ind div 64 < length (?st d)"
      using lengths_ok_index [OF Suc.prems(2,3)] st by simp
    with Suc.IH [OF _ len _ ok, of ?ind] Suc.prems(1) obtain st' where
      st': "set_bit_at_depth (int d) ?ind ?st = Some st'"
      "propagated ?st d (insert ?ind (level_bits ?st d)) st'" by auto
    have "set_bit_at_depth (int (Suc d)) off st = Some st'"
      using set_bit_step [OF w] True st'(1) by (simp add: Let_def)
    moreover have "propagated st (Suc d) (insert off (level_bits st (Suc d))) st'"
    proof -
      have 1: "st' (Suc d) = ?st (Suc d)" using st'(2) by (simp add: propagated_def)
      have b1: "level_bits st' (Suc d) = insert off (level_bits st (Suc d))"
        using bits level_bits_cong [of st' "Suc d" ?st, OF 1] by simp
      have "level_bits st' d = insert ?ind (level_bits st d)"
        using st'(2) level_bits_cong [of ?st d st, OF st] by (simp add: propagated_def)
      also have "\<dots> = (\<lambda>i. i div 64) ` level_bits st' (Suc d)"
        using Suc.prems(4) b1 by (simp add: level_ok_def)
      finally have "level_ok st' d" by (simp add: level_ok_def)
      then show ?thesis
        using st'(2) b1 by (auto simp: propagated_def put_word_int less_Suc_eq)
    qed
    ultimately show ?thesis by blast
  qed
qed

lemma clear_bit_propagates:
  assumes "d < 4" "lengths_ok st d" "off div 64 < length (st d)" "\<forall>k < d. level_ok st k"
    and "off \<in> level_bits st d"
  shows "\<exists>st'. clear_bit_at_depth (int d) off st = Some st' \<and>
           propagated st d (level_bits st d - {off}) st'"
  using assms
proof (induction d arbitrary: off st)
  case 0
  let ?st = "put_word st (int 0) (off div 64) (st 0 ! (off div 64) AND NOT (2 ^ (off mod 64)))"
  have w: "word_at st (int 0) (off div 64) = Some (st 0 ! (off div 64))"
    by (rule word_at_int) (use 0 in auto)
  have "clear_bit_at_depth (int 0) off st = Some ?st"
    using clear_bit_step [OF w] by (simp add: Let_def)
  moreover have "propagated st 0 (level_bits st 0 - {off}) ?st"
    using level_bits_unset [of off st 0] 0 by (simp add: propagated_def put_word_def)
  ultimately show ?case by blast
next
  case (Suc d)
  let ?ind = "off div 64"
  let ?v = "st (Suc d) ! ?ind AND NOT (2 ^ (off mod 64))"
  let ?st = "put_word st (int (Suc d)) ?ind ?v"
  note bits = level_bits_unset [of off st "Suc d", OF Suc.prems(3)]
  have w: "word_at st (int (Suc d)) ?ind = Some (st (Suc d) ! ?ind)"
    by (rule word_at_int) (use Suc.prems in auto)
  have len': "?ind < length (?st (Suc d))" using Suc.prems(3) by (simp add: put_word_int)
  have v: "?v \<noteq> 0 \<longleftrightarrow> ?ind \<in> (\<lambda>i. i div 64) ` (level_bits st (Suc d) - {off})"
    using word_nonzero_iff [of "off div 64" ?st "Suc d", OF len'] Suc.prems(3) bits by (simp add: put_word_int)
  show ?case
  proof (cases "?v = 0")
    case False
    then have "clear_bit_at_depth (int (Suc d)) off st = Some ?st"
      using clear_bit_step [OF w] by (simp add: Let_def)
    moreover have "propagated st (Suc d) (level_bits st (Suc d) - {off}) ?st"
    proof -
      have "(\<lambda>i. i div 64) ` (level_bits st (Suc d) - {off}) = (\<lambda>i. i div 64) ` level_bits st (Suc d)"
        using False v by auto
      then have "level_ok ?st k" if "k \<le> d" for k
        by (intro level_ok_put [OF bits]) (use Suc.prems that in auto)
      then show ?thesis
        using bits by (auto simp: propagated_def put_word_int)
    qed
    ultimately show ?thesis by blast
  next
    case True
    have st: "?st k = st k" if "k \<le> d" for k using that by (simp add: put_word_int)
    have ok: "\<forall>k < d. level_ok ?st k"
      using Suc.prems(4) st by (simp add: level_ok_def level_bits_def)
    have len: "lengths_ok ?st d" using Suc.prems(2) lengths_ok_mono [of st "Suc d" d] by simp
    have i: "?ind div 64 < length (?st d)"
      using lengths_ok_index [OF Suc.prems(2,3)] st by simp
    have up: "level_bits ?st d = (\<lambda>i. i div 64) ` level_bits st (Suc d)"
      using Suc.prems(4) st [of d] by (simp add: level_ok_def level_bits_def)
    then have mem: "?ind \<in> level_bits ?st d" using Suc.prems(5) by blast
    from Suc.IH [OF _ len i ok mem] Suc.prems(1) obtain st' where
      st': "clear_bit_at_depth (int d) ?ind ?st = Some st'"
      "propagated ?st d (level_bits ?st d - {?ind}) st'" by auto
    have "clear_bit_at_depth (int (Suc d)) off st = Some st'"
      using clear_bit_step [OF w] True st'(1) by (simp add: Let_def)
    moreover have "propagated st (Suc d) (level_bits st (Suc d) - {off}) st'"
    proof -
      have 1: "st' (Suc d) = ?st (Suc d)" using st'(2) by (simp add: propagated_def)
      have b1: "level_bits st' (Suc d) = level_bits st (Suc d) - {off}"
        using bits level_bits_cong [of st' "Suc d" ?st, OF 1] by simp
      have "level_bits st' d = (\<lambda>i. i div 64) ` level_bits st (Suc d) - {?ind}"
        using st'(2) up by (simp add: propagated_def)
      also have "\<dots> = (\<lambda>i. i div 64) ` level_bits st' (Suc d)"
        unfolding b1 using True v by (auto simp: image_iff) (metis DiffI singletonD)
      finally have "level_ok st' d" by (simp add: level_ok_def)
      then show ?thesis
        using st'(2) b1 by (auto simp: propagated_def put_word_int less_Suc_eq)
    qed
    ultimately show ?thesis by blast
  qed
qed

section \<open>The bitmap as a set of free offsets\<close>

definition free_bits :: "KPageBitmap \<Rightarrow> nat set" where
  "free_bits b = level_bits (bit_storages b) (used_depths b - 1)"

definition capacity :: "KPageBitmap \<Rightarrow> nat" where
  "capacity b = 64 * length (bit_storages b (used_depths b - 1))"

text \<open>
  The invariant: between one and four levels are in use, each level has one bit per word of the
  next and marks exactly its non-zero words, and \<open>num_bits\<close> counts the bits of the last level.
\<close>

definition pb_wf :: "KPageBitmap \<Rightarrow> bool" where
  "pb_wf b \<longleftrightarrow> 1 \<le> used_depths b \<and> used_depths b \<le> 4 \<and>
     lengths_ok (bit_storages b) (used_depths b - 1) \<and>
     (\<forall>k < used_depths b - 1. level_ok (bit_storages b) k) \<and>
     num_bits b = word_of_nat (card (free_bits b))"

lemma finite_free_bits [simp]: "finite (free_bits b)"
  by (simp add: free_bits_def)

lemma free_bits_capacity: "i \<in> free_bits b \<Longrightarrow> i < capacity b"
  by (simp add: free_bits_def level_bits_def capacity_def)

lemma capacity_index: "i < capacity b \<Longrightarrow> i div 64 < length (bit_storages b (used_depths b - 1))"
  by (simp add: capacity_def less_mult_imp_div_less mult.commute)

lemma highest_depth: "pb_wf b \<Longrightarrow> get_highest_depth_index b = int (used_depths b - 1)"
  by (simp add: pb_wf_def get_highest_depth_index_def of_nat_diff)

text \<open>A propagated change of the last level is a change of the abstract set.\<close>

lemma propagated_abs:
  assumes "pb_wf b" "propagated (bit_storages b) (used_depths b - 1) S st"
    "b' = b\<lparr>bit_storages := st, num_bits := n\<rparr>"
  shows "free_bits b' = S" "capacity b' = capacity b" "used_depths b' = used_depths b"
    "n = word_of_nat (card S) \<Longrightarrow> pb_wf b'"
  using assms propagated_lengths [OF assms(2)]
  by (auto simp: free_bits_def capacity_def pb_wf_def propagated_def)

lemma set_bit_set:
  assumes "pb_wf b" "off < capacity b" "off \<notin> free_bits b"
  shows "\<exists>b'. pb_set_bit off b = Some b' \<and> pb_wf b' \<and> capacity b' = capacity b \<and>
           free_bits b' = insert off (free_bits b)"
proof -
  let ?d = "used_depths b - 1"
  have "\<exists>st. set_bit_at_depth (int ?d) off (bit_storages b) = Some st \<and>
          propagated (bit_storages b) ?d (insert off (level_bits (bit_storages b) ?d)) st"
    by (rule set_bit_propagates) (use assms capacity_index in \<open>auto simp: pb_wf_def\<close>)
  then obtain st where st: "set_bit_at_depth (int ?d) off (bit_storages b) = Some st"
    "propagated (bit_storages b) ?d (insert off (free_bits b)) st" by (auto simp: free_bits_def)
  note abs = propagated_abs [OF assms(1) st(2) refl, of "num_bits b + 1"]
  have "num_bits b + 1 = word_of_nat (card (insert off (free_bits b)))"
    using assms(1,3) by (simp add: pb_wf_def of_nat_Suc)
  with abs st(1) show ?thesis
    using highest_depth [OF assms(1)] by (simp add: pb_set_bit_def)
qed

lemma card_diff_word:
  assumes "finite A" "B \<subseteq> A"
  shows "(word_of_nat (card (A - B)) :: 'a::len word) = word_of_nat (card A) - word_of_nat (card B)"
  using assms by (simp add: card_Diff_subset card_mono finite_subset)

lemma clear_bit_set:
  assumes "pb_wf b" "off \<in> free_bits b"
  shows "\<exists>b'. pb_clear_bit off b = Some b' \<and> pb_wf b' \<and> capacity b' = capacity b \<and>
           free_bits b' = free_bits b - {off}"
proof -
  let ?d = "used_depths b - 1"
  have "\<exists>st. clear_bit_at_depth (int ?d) off (bit_storages b) = Some st \<and>
          propagated (bit_storages b) ?d (level_bits (bit_storages b) ?d - {off}) st"
    by (rule clear_bit_propagates)
      (use assms capacity_index [OF free_bits_capacity [OF assms(2)]] in
        \<open>auto simp: pb_wf_def free_bits_def\<close>)
  then obtain st where st: "clear_bit_at_depth (int ?d) off (bit_storages b) = Some st"
    "propagated (bit_storages b) ?d (free_bits b - {off}) st" by (auto simp: free_bits_def)
  note abs = propagated_abs [OF assms(1) st(2) refl, of "num_bits b - 1"]
  have "num_bits b - 1 = word_of_nat (card (free_bits b - {off}))"
    using assms card_diff_word [of "free_bits b" "{off}", where 'a = 64] by (simp add: pb_wf_def of_nat_Suc)
  with abs st(1) show ?thesis
    using highest_depth [OF assms(1)] by (simp add: pb_clear_bit_def)
qed

section \<open>Finding a free block\<close>

lemma level_ok_down:
  assumes "\<forall>k. d \<le> k \<and> k < d + m \<longrightarrow> level_ok st k"
  shows "level_bits st d = (\<lambda>i. i div 64 ^ m) ` level_bits st (d + m)"
  using assms
proof (induction m)
  case (Suc m)
  then have "level_bits st d = (\<lambda>i. i div 64 ^ m) ` level_bits st (d + m)" by simp
  also have "level_bits st (d + m) = (\<lambda>i. i div 64) ` level_bits st (d + Suc m)"
    using Suc.prems by (simp add: level_ok_def)
  finally show ?case by (simp add: image_image div_mult2_eq)
qed simp

lemma offset_le: "x div 64 = off \<Longrightarrow> m \<le> x mod 64 \<Longrightarrow> off * 64 + m \<le> x" for x :: nat
  using div_mult_mod_eq [of x 64] by simp

lemma find_loop_finds:
  assumes "d + n < 4" "off < length (st d)" "st d ! off \<noteq> 0"
    "\<forall>k. d \<le> k \<and> k < d + n \<longrightarrow> level_ok st k"
  shows "\<exists>j g'. find_loop random st (Suc n) d off g = Some (int j, g') \<and>
     j \<in> level_bits st (d + n) \<and> j div 64 ^ Suc n = off \<and>
     (\<not> random \<longrightarrow> (\<forall>i \<in> level_bits st (d + n). i div 64 ^ Suc n = off \<longrightarrow> j \<le> i))"
  using assms
proof (induction n arbitrary: d off g)
  case 0
  define p where "p = (if random then select_random_bit (st d ! off) g else (ctz (st d ! off), g))"
  have p: "bit (st d ! off) (fst p)" "fst p < 64"
    using select_random_bit_sets [OF 0(3), of g] bit_ctz [OF 0(3)] ctz_lt_iff [of "st d ! off"] 0(3)
    by (auto simp: p_def)
  have least: "off * 64 + fst p \<le> i"
    if "\<not> random" "i \<in> level_bits st d" "i div 64 = off" for i
  proof -
    have "fst p \<le> i mod 64"
      using that by (auto simp: p_def level_bits_def intro: ctz_least)
    then show ?thesis by (rule offset_le [OF that(3)])
  qed
  have "find_loop random st (Suc 0) d off g = Some (int (off * 64 + fst p), snd p)"
    using 0 by (simp add: Let_def flip: p_def split: prod.splits)
  moreover have "off * 64 + fst p \<in> level_bits st d"
    using p 0(2) by (simp add: level_bits_def mult.commute)
  moreover have "(off * 64 + fst p) div 64 = off" using p(2) by simp
  ultimately show ?case using least by fastforce
next
  case (Suc n)
  define p where "p = (if random then select_random_bit (st d ! off) g else (ctz (st d ! off), g))"
  have p: "bit (st d ! off) (fst p)" "fst p < 64"
    using select_random_bit_sets [of "st d ! off" g] bit_ctz [of "st d ! off"]
      ctz_lt_iff [of "st d ! off"] Suc.prems(3) by (auto simp: p_def)
  let ?o = "off * 64 + fst p"
  have mem: "?o \<in> level_bits st d"
    using p Suc.prems(2) by (simp add: level_bits_def mult.commute)
  then have "?o \<in> (\<lambda>i. i div 64) ` level_bits st (Suc d)"
    using Suc.prems(4) by (simp add: level_ok_def)
  then have o: "?o < length (st (Suc d))" "st (Suc d) ! ?o \<noteq> 0"
    using level_bits_bound word_nonzero_iff [of ?o st "Suc d"] by auto
  from Suc.IH [of "Suc d" ?o "snd p", OF _ o] Suc.prems(1,4) obtain j g' where
    j: "find_loop random st (Suc n) (Suc d) ?o (snd p) = Some (int j, g')"
    "j \<in> level_bits st (d + Suc n)" "j div 64 ^ Suc n = ?o"
    "\<not> random \<Longrightarrow> \<forall>i \<in> level_bits st (d + Suc n). i div 64 ^ Suc n = ?o \<longrightarrow> j \<le> i"
    by (auto simp del: find_loop.simps)
  have run: "find_loop random st (Suc (Suc n)) d off g = Some (int j, g')"
    using Suc.prems j(1)
    by (subst find_loop.simps) (auto simp add: Let_def simp del: find_loop.simps simp flip: p_def split: prod.splits)
  have up: "i div 64 ^ Suc (Suc n) = i div 64 ^ Suc n div 64" for i :: nat
    by (metis div_mult2_eq mult.commute power_Suc)
  have least: "j \<le> i"
    if "\<not> random" "i \<in> level_bits st (d + Suc n)" "i div 64 ^ Suc (Suc n) = off" for i
  proof -
    let ?k = "i div 64 ^ Suc n"
    have k: "?k \<in> level_bits st d" "?k div 64 = off"
      using that(2,3) level_ok_down [OF Suc.prems(4)] up by auto
    then have "fst p \<le> ?k mod 64"
      using that(1) by (auto simp: p_def level_bits_def intro: ctz_least)
    then have "?o \<le> ?k" by (rule offset_le [OF k(2)])
    then consider "?k = ?o" | "j div 64 ^ Suc n < ?k" using j(3) by linarith
    then show ?thesis
    proof cases
      case 1 then show ?thesis using j(4) that by blast
    next
      case 2 then show ?thesis by (meson div_le_mono leD le_cases)
    qed
  qed
  show ?case using run j(2,3) up p(2) least by (intro exI [of _ j] exI [of _ g']) auto
qed

lemma level_zero_bits:
  assumes "pb_wf b"
  shows "level_bits (bit_storages b) 0 = (\<lambda>i. i div 64 ^ (used_depths b - 1)) ` free_bits b"
  using level_ok_down [of 0 "used_depths b - 1" "bit_storages b"] assms
  by (simp add: pb_wf_def free_bits_def)

lemma top_word_empty:
  assumes "pb_wf b"
  shows "bit_storages b 0 ! 0 = 0 \<longleftrightarrow> free_bits b = {}"
proof -
  have len: "length (bit_storages b 0) = 1" using assms by (simp add: pb_wf_def lengths_ok_def)
  have "i div 64 = 0" if "i \<in> level_bits (bit_storages b) 0" for i
    using level_bits_bound [OF that] len by simp
  then have "bit_storages b 0 ! 0 = 0 \<longleftrightarrow> level_bits (bit_storages b) 0 = {}"
    using word_nonzero_iff [of 0 "bit_storages b" 0] len by force
  then show ?thesis by (simp add: level_zero_bits [OF assms])
qed

lemma find_free_block_outcome:
  assumes "pb_wf b"
  shows "\<exists>r g. find_free_block random b = Some (r, b\<lparr>rng := g\<rparr>) \<and>
    (if free_bits b = {} then r = -1
     else 0 \<le> r \<and> nat r \<in> free_bits b \<and> (\<not> random \<longrightarrow> nat r = Min (free_bits b)))"
proof (cases "free_bits b = {}")
  case True
  have n: "max 1 (used_depths b) = Suc (used_depths b - 1)" using assms by (simp add: pb_wf_def)
  have "word_at (bit_storages b) (int 0) 0 = Some 0"
    using top_word_empty [OF assms] True assms by (subst word_at_int) (auto simp: pb_wf_def lengths_ok_def)
  then have "find_free_block random b = Some (-1, b\<lparr>rng := rng b\<rparr>)"
    unfolding find_free_block_def n by simp
  then show ?thesis using True by (metis (full_types))
next
  case False
  let ?st = "bit_storages b" and ?n = "used_depths b - 1"
  have len: "length (?st 0) = 1" and d: "1 \<le> used_depths b" "used_depths b \<le> 4"
    using assms by (auto simp: pb_wf_def lengths_ok_def)
  have mx: "max 1 (used_depths b) = Suc ?n" using d by simp
  have root: "i div 64 ^ Suc ?n = 0" if "i \<in> free_bits b" for i
  proof -
    have "i div 64 ^ ?n \<in> level_bits ?st 0" using that level_zero_bits [OF assms] by blast
    from level_bits_bound [OF this] len have "i div 64 ^ ?n div 64 = 0" by simp
    then show ?thesis by (metis div_mult2_eq mult.commute power_Suc)
  qed
  have "\<exists>j g'. find_loop random ?st (Suc ?n) 0 0 (rng b) = Some (int j, g') \<and>
     j \<in> level_bits ?st (0 + ?n) \<and> j div 64 ^ Suc ?n = 0 \<and>
     (\<not> random \<longrightarrow> (\<forall>i \<in> level_bits ?st (0 + ?n). i div 64 ^ Suc ?n = 0 \<longrightarrow> j \<le> i))"
    by (rule find_loop_finds)
      (use assms False d len top_word_empty [OF assms] in \<open>auto simp: pb_wf_def\<close>)
  then obtain j g' where j: "find_loop random ?st (Suc ?n) 0 0 (rng b) = Some (int j, g')"
    "j \<in> free_bits b" "\<not> random \<Longrightarrow> \<forall>i \<in> free_bits b. j \<le> i"
    using root unfolding free_bits_def by auto
  from j(2,3) have "\<not> random \<Longrightarrow> j = Min (free_bits b)"
    by (intro Min_eqI [symmetric]) auto
  moreover have "find_free_block random b = Some (int j, b\<lparr>rng := g'\<rparr>)"
    unfolding find_free_block_def mx j(1) by simp
  ultimately show ?thesis using j(2) False
    by (intro exI [of _ "int j"] exI [of _ g']) simp
qed

section \<open>Clearing whole masks\<close>

text \<open>Replacing a non-zero word by a part of it, and telling the levels above when nothing is left.\<close>

lemma shrink_word_propagates:
  assumes "d < 4" "lengths_ok st d" "ind < length (st d)" "\<forall>k < d. level_ok st k"
    and "st d ! ind \<noteq> 0"
  shows "\<exists>st'. (if v = 0 then clear_bit_at_depth (int d - 1) ind (put_word st (int d) ind v)
                else Some (put_word st (int d) ind v)) = Some st' \<and>
           propagated st d (level_bits (put_word st (int d) ind v) d) st'"
proof -
  let ?st = "put_word st (int d) ind v"
  have same: "?st k = st k" if "k \<noteq> d" for k using that by (simp add: put_word_int)
  have bits: "level_bits ?st d = {i \<in> level_bits st d. i div 64 \<noteq> ind} \<union> {i. i div 64 = ind \<and> bit v (i mod 64)}"
    by (rule level_bits_put [of ind st d, OF assms(3)])
  have old: "ind \<in> (\<lambda>i. i div 64) ` level_bits st d"
    using word_nonzero_iff [of ind st d] assms(3,5) by simp
  have new: "v \<noteq> 0 \<longleftrightarrow> ind \<in> (\<lambda>i. i div 64) ` level_bits ?st d"
    using word_nonzero_iff [of ind ?st d] assms(3) by (simp add: put_word_int)
  show ?thesis
  proof (cases d)
    case 0
    then have "propagated st d (level_bits ?st d) ?st"
      by (simp add: propagated_def put_word_def)
    with 0 show ?thesis by auto
  next
    case (Suc e)
    have lev: "level_bits ?st e = (\<lambda>i. i div 64) ` level_bits st d"
      using assms(4) Suc level_bits_cong [of ?st e st, OF same] by (simp add: level_ok_def)
    have ok: "\<forall>k < e. level_ok ?st k"
      using assms(4) same Suc by (simp add: level_ok_def level_bits_def)
    show ?thesis
    proof (cases "v = 0")
      case False
      then have "(\<lambda>i. i div 64) ` level_bits ?st d = (\<lambda>i. i div 64) ` level_bits st d"
        using bits old new by (auto simp: image_iff)
      then have "level_ok ?st e" using lev Suc by (simp add: level_ok_def)
      then have "propagated st d (level_bits ?st d) ?st"
        using same ok Suc by (auto simp: propagated_def less_Suc_eq)
      with False show ?thesis by auto
    next
      case True
      have "\<exists>st'. clear_bit_at_depth (int e) ind ?st = Some st' \<and>
              propagated ?st e (level_bits ?st e - {ind}) st'"
      proof (rule clear_bit_propagates)
        show "lengths_ok ?st e" using assms(2) lengths_ok_mono [of st d e] Suc by simp
        show "ind div 64 < length (?st e)"
          using lengths_ok_index [of st e ind] assms(2,3) Suc by simp
        show "ind \<in> level_bits ?st e" using lev old by simp
      qed (use ok assms(1) Suc in auto)
      then obtain st' where st': "clear_bit_at_depth (int e) ind ?st = Some st'"
        "propagated ?st e (level_bits ?st e - {ind}) st'" by blast
      have b: "level_bits st' d = level_bits ?st d"
        by (rule level_bits_cong) (use st'(2) Suc in \<open>simp add: propagated_def\<close>)
      have "level_bits st' e = (\<lambda>i. i div 64) ` level_bits st' d"
        using st'(2) lev b bits True by (auto simp: propagated_def image_iff)
      then have "level_ok st' e" using Suc by (simp add: level_ok_def)
      then have "propagated st d (level_bits ?st d) st'"
        using st'(2) b same Suc by (auto simp: propagated_def less_Suc_eq)
      with True Suc st'(1) show ?thesis by auto
    qed
  qed
qed

text \<open>
  \<open>clear_range\<close> either refuses and changes nothing, or removes exactly the range; the range is
  inside one word, or made of whole words, as its callers promise.
\<close>

lemma word_range_iff:
  assumes "offset mod 64 + count \<le> 64"
  shows "(i :: nat) \<in> {offset..<offset + count} \<longleftrightarrow>
    i div 64 = offset div 64 \<and> offset mod 64 \<le> i mod 64 \<and> i mod 64 < offset mod 64 + count"
proof -
  define p q r s where "p = i div 64" "q = i mod 64" "r = offset div 64" "s = offset mod 64"
  then have *: "i = 64 * p + q" "offset = 64 * r + s" "q < 64" "s < 64" "s + count \<le> 64"
    using assms by auto
  have "64 * r + s \<le> 64 * p + q \<and> 64 * p + q < 64 * r + s + count \<longleftrightarrow>
      p = r \<and> s \<le> q \<and> q < s + count"
    using *(3-5) by (cases p r rule: linorder_cases) auto
  then show ?thesis using * unfolding p_q_r_s_def [symmetric] by simp
qed

lemma clear_range_small:
  assumes "pb_wf b" "0 < count" "count < 64" "offset mod 64 + count \<le> 64" "offset < capacity b"
  shows "\<exists>b'. clear_range offset count b = Some ({offset..<offset + count} \<subseteq> free_bits b, b') \<and>
    (if {offset..<offset + count} \<subseteq> free_bits b
     then pb_wf b' \<and> capacity b' = capacity b \<and> free_bits b' = free_bits b - {offset..<offset + count}
     else b' = b)"
proof -
  let ?d = "used_depths b - 1" and ?ind = "offset div 64" and ?st = "bit_storages b"
  let ?r = "{offset..<offset + count}"
  let ?v = "?st ?d ! ?ind"
  let ?m = "push_bit (offset mod 64) (push_bit count 1 - 1) :: u64"
  have d: "?d < 4" using assms(1) by (auto simp: pb_wf_def)
  have ind: "?ind < length (?st ?d)" using capacity_index [OF assms(5)] .
  have wa: "word_at ?st (int ?d) ?ind = Some ?v" using d ind by simp
  have mb: "bit ?m n \<longleftrightarrow> offset mod 64 \<le> n \<and> n < offset mod 64 + count" for n
    using assms(3,4) by (auto simp: bit_simps simp flip: mask_eq_exp_minus_1 mask_eq_decr_exp)
  have range: "i \<in> ?r \<longleftrightarrow> i div 64 = ?ind \<and> bit ?m (i mod 64)" for i
    using assms(4) unfolding mb by (rule word_range_iff)
  have bitv: "bit ?v (i mod 64) \<longleftrightarrow> i \<in> free_bits b" if "i div 64 = ?ind" for i
    using word_bit_iff [of i ?ind ?st ?d] ind that by (simp add: free_bits_def)
  have sub: "?v AND ?m = ?m \<longleftrightarrow> ?r \<subseteq> free_bits b"
  proof
    assume "?v AND ?m = ?m"
    then have "bit ?v n" if "bit ?m n" for n using that by (metis bit_and_iff)
    then show "?r \<subseteq> free_bits b" using range bitv by blast
  next
    assume r: "?r \<subseteq> free_bits b"
    have "bit ?v n" if "n < 64" "bit ?m n" for n
      using bitv [of "64 * ?ind + n"] range [of "64 * ?ind + n"] r that by auto
    then show "?v AND ?m = ?m" by (auto simp: bit_eq_iff bit_and_iff)
  qed
  show ?thesis
  proof (cases "?r \<subseteq> free_bits b")
    case False
    then show ?thesis
      using assms(3) wa sub by (simp add: clear_range_def highest_depth [OF assms(1)] Let_def)
  next
    case True
    let ?st' = "put_word ?st (int ?d) ?ind (?v AND NOT ?m)"
    have "offset \<in> free_bits b" using True assms(2) by auto
    then have nz: "?v \<noteq> 0" using bitv [of offset] by auto
    have lev: "level_bits ?st' ?d = free_bits b - ?r"
      using level_bits_put [of ?ind ?st ?d, OF ind] range bitv
      by (auto simp: free_bits_def bit_simps)
    have "\<exists>st'. (if ?v AND NOT ?m = 0 then clear_bit_at_depth (int ?d - 1) ?ind ?st'
                else Some ?st') = Some st' \<and> propagated ?st ?d (level_bits ?st' ?d) st'"
      by (rule shrink_word_propagates) (use assms(1) d ind nz in \<open>auto simp: pb_wf_def\<close>)
    then obtain st' where st': "(if ?v AND NOT ?m = 0 then clear_bit_at_depth (int ?d - 1) ?ind ?st'
                else Some ?st') = Some st'" "propagated ?st ?d (free_bits b - ?r) st'"
      unfolding lev by blast
    have n: "num_bits b - word_of_nat count = word_of_nat (card (free_bits b - ?r))"
      using True assms(1) card_diff_word [of "free_bits b" ?r, where 'a = 64] by (simp add: pb_wf_def)
    have "clear_range offset count b =
      Some (True, b\<lparr>bit_storages := st', num_bits := num_bits b - word_of_nat count\<rparr>)"
      using assms(3) wa sub True st'(1)
      by (simp add: clear_range_def highest_depth [OF assms(1)] Let_def split: if_splits)
    then show ?thesis
      using True propagated_abs [OF assms(1) st'(2) refl, of "num_bits b - word_of_nat count"] n by simp
  qed
qed

lemma propagated_trans:
  "propagated st d S st1 \<Longrightarrow> propagated st1 d S' st2 \<Longrightarrow> propagated st d S' st2"
  by (simp add: propagated_def)

lemma zero_words_propagates:
  assumes "d < 4" "lengths_ok st d" "\<forall>k < d. level_ok st k" "distinct is"
    "\<forall>i \<in> set is. i < length (st d) \<and> st d ! i \<noteq> 0"
  shows "\<exists>st'. zero_words st (int d) is = Some st' \<and>
           (is \<noteq> [] \<longrightarrow> propagated st d {j \<in> level_bits st d. j div 64 \<notin> set is} st') \<and>
           (is = [] \<longrightarrow> st' = st)"
  using assms(2-)
proof (induction "is" arbitrary: st)
  case (Cons i "is")
  let ?S = "{j \<in> level_bits st d. j div 64 \<noteq> i}"
  have i: "i < length (st d)" "st d ! i \<noteq> 0" using Cons.prems by auto
  have lev: "level_bits (put_word st (int d) i 0) d = ?S"
    using level_bits_put [of i st d 0] i by simp
  have "\<exists>st1. (if (0 :: u64) = 0 then clear_bit_at_depth (int d - 1) i (put_word st (int d) i 0)
            else Some (put_word st (int d) i 0)) = Some st1 \<and>
          propagated st d (level_bits (put_word st (int d) i 0) d) st1"
    by (rule shrink_word_propagates) (use Cons.prems assms(1) in auto)
  then obtain st1 where st1: "clear_bit_at_depth (int d - 1) i (put_word st (int d) i 0) = Some st1"
    "propagated st d ?S st1" unfolding lev by auto
  have wf1: "lengths_ok st1 d" "\<forall>k < d. level_ok st1 k" "level_bits st1 d = ?S"
    "length (st1 d) = length (st d)"
    using st1(2) Cons.prems(1) propagated_lengths by (auto simp: propagated_def)
  have "i' < length (st1 d) \<and> st1 d ! i' \<noteq> 0" if "i' \<in> set is" for i'
  proof -
    have "i' \<noteq> i" "i' < length (st d)" "st d ! i' \<noteq> 0" using that Cons.prems by auto
    then have "i' \<in> (\<lambda>j. j div 64) ` ?S" using word_nonzero_iff [of i' st d] by auto
    then show ?thesis
      using word_nonzero_iff [of i' st1 d] wf1(3,4) \<open>i' < length (st d)\<close> by simp
  qed
  with Cons.IH [OF wf1(1,2)] Cons.prems(3) obtain st' where
    st': "zero_words st1 (int d) is = Some st'"
    "is \<noteq> [] \<Longrightarrow> propagated st1 d {j \<in> level_bits st1 d. j div 64 \<notin> set is} st'"
    "is = [] \<Longrightarrow> st' = st1" by auto
  have "{j \<in> level_bits st1 d. j div 64 \<notin> set is} = {j \<in> level_bits st d. j div 64 \<notin> set (i # is)}"
    using wf1(3) by auto
  then have "propagated st d {j \<in> level_bits st d. j div 64 \<notin> set (i # is)} st'"
    using st1(2) st'(2,3) propagated_trans wf1(3) by (cases "is = []") force+
  moreover have "zero_words st (int d) (i # is) = Some st'"
    using st1(1) st'(1) i assms(1) by simp
  ultimately show ?case by simp
qed simp

lemma all_ones_outcome:
  assumes "d < 4" "\<forall>i \<in> set is. i < length (st d)"
  shows "all_ones st (int d) is = Some (\<forall>i \<in> set is. st d ! i = NOT 0)"
  using assms by (induction "is") auto

lemma clear_range_large:
  assumes "pb_wf b" "64 \<le> count" "64 dvd offset" "64 dvd count" "offset + count \<le> capacity b"
  shows "\<exists>b'. clear_range offset count b = Some ({offset..<offset + count} \<subseteq> free_bits b, b') \<and>
    (if {offset..<offset + count} \<subseteq> free_bits b
     then pb_wf b' \<and> capacity b' = capacity b \<and> free_bits b' = free_bits b - {offset..<offset + count}
     else b' = b)"
proof -
  let ?d = "used_depths b - 1" and ?st = "bit_storages b"
  let ?r = "{offset..<offset + count}"
  obtain a c where ac: "offset = 64 * a" "count = 64 * c" using assms(3,4) by (auto elim!: dvdE)
  let ?is = "map (\<lambda>i. a + i) [0..<c]"
  have set_is: "set ?is = {a..<a + c}"
    by (auto simp: image_iff)
  have c: "?is \<noteq> []" using assms(2) ac by auto
  have d: "?d < 4" using assms(1) by (auto simp: pb_wf_def)
  have bound: "\<forall>i \<in> set ?is. i < length (?st ?d)"
    using assms(5) ac unfolding set_is by (auto simp: capacity_def)
  have range: "j \<in> ?r \<longleftrightarrow> j div 64 \<in> set ?is" for j
    using ac unfolding set_is by (auto simp: div_le_mono less_mult_imp_div_less div_less_iff_less_mult less_eq_div_iff_mult_less_eq)
  have full: "(\<forall>i \<in> set ?is. ?st ?d ! i = NOT 0) \<longleftrightarrow> ?r \<subseteq> free_bits b"
  proof
    assume ones: "\<forall>i \<in> set ?is. ?st ?d ! i = NOT 0"
    show "?r \<subseteq> free_bits b"
    proof
      fix j assume "j \<in> ?r"
      then have "j div 64 \<in> set ?is" using range by blast
      then have "?st ?d ! (j div 64) = NOT 0" "j div 64 < length (?st ?d)" using ones bound by auto
      then show "j \<in> free_bits b"
        using word_bit_iff [of j "j div 64" ?st ?d] by (simp add: free_bits_def bit_simps)
    qed
  next
    assume r: "?r \<subseteq> free_bits b"
    have "bit (?st ?d ! i) n" if "i \<in> set ?is" "n < 64" for i n
    proof -
      have "64 * i + n \<in> free_bits b" using r range [of "64 * i + n"] that by auto
      then show ?thesis using that(2) by (simp add: free_bits_def level_bits_def)
    qed
    then show "\<forall>i \<in> set ?is. ?st ?d ! i = NOT 0"
      by (auto intro!: bit_word_eqI simp: bit_simps)
  qed
  have all: "all_ones ?st (int ?d) ?is = Some (?r \<subseteq> free_bits b)"
    using all_ones_outcome [of ?d ?is ?st] d bound full by simp
  have is_eq: "map (\<lambda>i. offset div 64 + i) [0..<count div 64] = ?is" using ac by simp
  have unfold: "clear_range offset count b = do {
      full \<leftarrow> all_ones ?st (int ?d) ?is;
      if \<not> full then Some (False, b)
      else do {
        st \<leftarrow> zero_words ?st (int ?d) ?is;
        Some (True, b\<lparr>bit_storages := st, num_bits := num_bits b - word_of_nat count\<rparr>) } }"
    using assms(2) unfolding clear_range_def Let_def is_eq highest_depth [OF assms(1)] by simp
  show ?thesis
  proof (cases "?r \<subseteq> free_bits b")
    case False
    then show ?thesis unfolding unfold all by simp
  next
    case True
    have "\<forall>i \<in> set ?is. i < length (?st ?d) \<and> ?st ?d ! i \<noteq> 0"
      using True full bound by auto
    moreover have "{j \<in> free_bits b. j div 64 \<notin> set ?is} = free_bits b - ?r" using range by blast
    ultimately obtain st' where st': "zero_words ?st (int ?d) ?is = Some st'"
      "propagated ?st ?d (free_bits b - ?r) st'"
      using zero_words_propagates [of ?d ?st ?is] assms(1) c d
      by (auto simp: pb_wf_def free_bits_def distinct_map)
    have "num_bits b - word_of_nat count = word_of_nat (card (free_bits b - ?r))"
      using True assms(1) card_diff_word [of "free_bits b" ?r, where 'a = 64] by (simp add: pb_wf_def)
    then show ?thesis
      using propagated_abs [OF assms(1) st'(2) refl, of "num_bits b - word_of_nat count"]
        True st'(1) unfolding unfold all by simp
  qed
qed

section \<open>Initialization\<close>

lemma required_depth_le: "get_required_depth n \<le> Suc d \<longleftrightarrow> n < 64 ^ Suc d"
proof (induction d arbitrary: n)
  case 0
  have "1 \<le> get_required_depth (n div 64)" by (subst get_required_depth.simps) simp
  then show ?case by (subst get_required_depth.simps) (auto simp: div_eq_0_iff)
next
  case (Suc d)
  show ?case
  proof (cases "n div 64 = 0")
    case True
    then have "n < 64 ^ Suc (Suc d)"
      by (metis div_eq_0_iff less_le_trans one_less_numeral_iff power_0 power_increasing power_one_right
          semiring_norm(76) zero_neq_numeral one_le_numeral le_add1 plus_1_eq_Suc)
    then show ?thesis using True by (subst get_required_depth.simps) simp
  next
    case False
    then have "get_required_depth n = Suc (get_required_depth (n div 64))"
      by (subst get_required_depth.simps) simp
    then show ?thesis using Suc.IH [of "n div 64"] by (simp add: div_less_iff_less_mult mult.commute)
  qed
qed

lemma required_depth_pos: "1 \<le> get_required_depth n"
  by (subst get_required_depth.simps) simp

text \<open>The levels that the loop of \<open>initialize\<close> leaves behind.\<close>

definition fresh_levels ::
  "nat \<Rightarrow> nat \<Rightarrow> (nat \<Rightarrow> u64 list) \<Rightarrow> (nat \<Rightarrow> u64 list) \<Rightarrow> bool" where
  "fresh_levels m n st st' \<longleftrightarrow>
    (\<forall>k < m. \<forall>w \<in> set (st' k). w = 0) \<and> (\<forall>k \<ge> m. st' k = st k) \<and>
    (\<forall>k. Suc k < m \<longrightarrow> length (st' k) = (length (st' (Suc k)) + 63) div 64) \<and>
    (0 < m \<longrightarrow> length (st' (m - 1)) = (n + 63) div 64) \<and>
    (0 < m \<longrightarrow> 0 < n \<longrightarrow> n \<le> 64 ^ m \<longrightarrow> length (st' 0) = 1)"

lemma init_levels_outcome:
  assumes "m \<le> 4"
  shows "\<exists>st'. init_levels (rev [0..<m]) n st = Some st' \<and> fresh_levels m n st st'"
  using assms
proof (induction m arbitrary: n st)
  case (Suc m)
  let ?c = "(n + 63) div 64"
  from Suc.IH [of ?c "st(m := replicate ?c 0)"] Suc.prems obtain st' where
    st'1: "init_levels (rev [0..<m]) ?c (st(m := replicate ?c 0)) = Some st'" and
    fresh: "fresh_levels m ?c (st(m := replicate ?c 0)) st'" by (auto simp del: fun_upd_apply)
  have st':
    "\<forall>k < m. \<forall>w \<in> set (st' k). w = 0" "\<forall>k \<ge> m. st' k = (st(m := replicate ?c 0)) k"
    "\<forall>k. Suc k < m \<longrightarrow> length (st' k) = (length (st' (Suc k)) + 63) div 64"
    "0 < m \<longrightarrow> length (st' (m - 1)) = (?c + 63) div 64"
    "0 < m \<longrightarrow> 0 < ?c \<longrightarrow> ?c \<le> 64 ^ m \<longrightarrow> length (st' 0) = 1"
    using fresh unfolding fresh_levels_def by blast+
  have m: "st' m = replicate ?c 0" using st'(2) by simp
  have "length (st' k) = (length (st' (Suc k)) + 63) div 64" if "Suc k < Suc m" for k
    using that st'(3,4) m by (cases "Suc k = m") auto
  moreover have "length (st' 0) = 1" if "0 < n" "n \<le> 64 ^ Suc m"
  proof -
    have "0 < ?c" using that(1) by (simp add: div_greater_zero_iff)
    moreover have "?c \<le> 64 ^ m" using that(2) by (simp add: less_Suc_eq_le [symmetric] div_less_iff_less_mult)
    ultimately show ?thesis using st'(5) m by (cases m) auto
  qed
  moreover have "init_levels (rev [0..<Suc m]) n st = Some st'"
    using st'1 Suc.prems by (simp add: Let_def add.commute)
  moreover have "\<forall>k < Suc m. \<forall>w \<in> set (st' k). w = 0"
    using st'(1) m by (auto simp: less_Suc_eq)
  ultimately show ?case using st'(2) m by (intro exI [of _ st']) (auto simp: fresh_levels_def)
qed (simp add: fresh_levels_def)

lemma initialize_set:
  assumes "0 < n" "n < 64 ^ 4"
  shows "\<exists>b'. pb_initialize n b = Some b' \<and> pb_wf b' \<and> free_bits b' = {} \<and>
           capacity b' = 64 * ((n + 63) div 64)"
proof -
  let ?m = "get_required_depth n"
  have m: "1 \<le> ?m" "?m \<le> 4" "n < 64 ^ ?m"
    using required_depth_pos [of n] required_depth_le [of n 3] assms(2)
      required_depth_le [of n "?m - 1"] by auto
  from init_levels_outcome [OF m(2), of n "bit_storages b"] m(1,3) assms(1) obtain st' where
    st': "init_levels (rev [0..<?m]) n (bit_storages b) = Some st'"
    "\<forall>k < ?m. \<forall>w \<in> set (st' k). w = 0"
    "\<forall>k. Suc k < ?m \<longrightarrow> length (st' k) = (length (st' (Suc k)) + 63) div 64"
    "length (st' (?m - 1)) = (n + 63) div 64" "length (st' 0) = 1" by (auto simp: fresh_levels_def)
  have empty: "level_bits st' k = {}" if "k < ?m" for k
  proof -
    have "st' k ! (i div 64) = 0" if "i < 64 * length (st' k)" for i
      using that st'(2) \<open>k < ?m\<close> by (simp add: less_mult_imp_div_less mult.commute)
    then show ?thesis by (auto simp: level_bits_def)
  qed
  let ?b = "b\<lparr>num_bits := 0, used_depths := ?m, bit_storages := st'\<rparr>"
  have "pb_initialize n b = Some ?b" using st'(1) by (simp add: pb_initialize_def)
  moreover have "free_bits ?b = {}" using empty m(1) by (simp add: free_bits_def)
  moreover have "pb_wf ?b"
    using m st'(3,5) empty \<open>free_bits ?b = {}\<close> by (auto simp: pb_wf_def lengths_ok_def level_ok_def)
  ultimately show ?thesis using st'(4) by (intro exI [of _ ?b]) (simp add: capacity_def)
qed

lemma initialize_too_large:
  assumes "64 ^ 4 \<le> n"
  shows "pb_initialize n b = None"
proof -
  have "\<not> get_required_depth n \<le> 4" using required_depth_le [of n 3] assms by simp
  then obtain m where m: "get_required_depth n = Suc m" "4 \<le> m"
    by (metis Suc_le_eq less_Suc_eq_le not_le not0_implies_Suc less_nat_zero_code)
  then show ?thesis by (simp add: pb_initialize_def Let_def ix_def)
qed

end
