(* ===== verification/PageBitmapProps.thy ===== *)
theory PageBitmapProps
  imports PageBitmap
begin

text \<open>
  The scan of \<open>find_free_range\<close>, the interface that the page heap uses of a bitmap, and the
  properties of src/core/src/hle/kernel/k_page_bitmap.rs.
\<close>

section \<open>Finding a free range\<close>

definition slot_free :: "nat \<Rightarrow> u64 \<Rightarrow> nat \<Rightarrow> bool" where
  "slot_free count w opt \<longleftrightarrow> (\<forall>n < count. bit w (opt * count + n))"

lemma slot_test:
  fixes w :: u64
  assumes "count < 64"
  shows "drop_bit (opt * count) w AND mask count = mask count \<longleftrightarrow> slot_free count w opt"
proof -
  have "drop_bit (opt * count) w AND mask count = mask count \<longleftrightarrow>
      (\<forall>n. n < 64 \<longrightarrow> n < count \<longrightarrow> bit w (opt * count + n))"
    by (auto simp: bit_eq_iff bit_simps)
  then show ?thesis using assms by (auto simp: slot_free_def)
qed

text \<open>
  A part of the scan with the free slots \<open>C\<close> counts at least one exactly if there is one, and
  then keeps the earlier choice, if there was one, or chooses one of \<open>C\<close>.
\<close>

definition picks :: "nat \<Rightarrow> int \<Rightarrow> nat set \<Rightarrow> nat \<Rightarrow> int \<Rightarrow> bool" where
  "picks nv ch C nv' ch' \<longleftrightarrow> nv \<le> nv' \<and> (nv' = nv \<longleftrightarrow> C = {}) \<and> (nv' = nv \<longrightarrow> ch' = ch) \<and>
     (nv' \<noteq> nv \<longrightarrow> ch' = ch \<and> 0 < nv \<or> (\<exists>c \<in> C. ch' = int c))"

lemma picks_none [simp]: "picks nv ch {} nv' ch' \<longleftrightarrow> nv' = nv \<and> ch' = ch"
  by (auto simp: picks_def)

lemma picks_trans:
  "picks nv ch C nv1 ch1 \<Longrightarrow> picks nv1 ch1 D nv' ch' \<Longrightarrow> picks nv ch (C \<union> D) nv' ch'"
  unfolding picks_def by (cases "nv1 = nv"; cases "nv' = nv1") auto

definition word_slots :: "nat \<Rightarrow> nat \<Rightarrow> nat \<Rightarrow> nat list \<Rightarrow> u64 \<Rightarrow> nat set" where
  "word_slots count m si opts w =
     {si * 64 + opt * count | opt. opt \<in> set opts \<and> slot_free count w opt}"

lemma scan_options_outcome:
  assumes "count < 64"
    and "scan_options count (mask count) si [t..<m] (drop_bit (t * count) w) nv chosen g = (nv', chosen', g')"
  shows "picks nv chosen (word_slots count m si [t..<m] w) nv' chosen'"
  using assms(2)
proof (induction "m - t" arbitrary: t nv chosen g)
  case 0
  then show ?case by (simp add: word_slots_def)
next
  case (Suc k)
  have t: "t < m" "[t..<m] = t # [Suc t..<m]" "k = m - Suc t"
    using Suc.hyps(2) by (simp_all add: upt_conv_Cons)
  have dr: "shr (drop_bit (t * count) w) count = drop_bit (Suc t * count) w"
    using assms(1) by (simp add: add.commute)
  note test = slot_test [OF assms(1), of t w]
  show ?case
  proof (cases "slot_free count w t")
    case False
    then have "scan_options count (mask count) si [Suc t..<m] (drop_bit (Suc t * count) w) nv chosen g
        = (nv', chosen', g')"
      using Suc.prems test dr unfolding t(2) by simp
    moreover have "word_slots count m si [t..<m] w = word_slots count m si [Suc t..<m] w"
      using False t(2) by (auto simp: word_slots_def)
    ultimately show ?thesis using Suc.hyps(1) [OF t(3)] by simp
  next
    case True
    define p where "p = (if nv + 1 = 1 then (True, g)
      else let (r, g) = generate_random (word_of_nat (nv + 1)) g in (r = 0, g))"
    let ?ch = "if fst p then int (si * 64 + t * count) else chosen"
    have "scan_options count (mask count) si [Suc t..<m] (drop_bit (Suc t * count) w)
        (nv + 1) ?ch (snd p) = (nv', chosen', g')"
      using Suc.prems True test dr unfolding t(2)
      by (simp add: Let_def p_def split: prod.splits if_splits)
    from Suc.hyps(1) [OF t(3) this]
    have "picks (nv + 1) ?ch (word_slots count m si [Suc t..<m] w) nv' chosen'" .
    moreover have "picks nv chosen {si * 64 + t * count} (nv + 1) ?ch"
      by (auto simp: picks_def p_def)
    moreover have "word_slots count m si [t..<m] w =
        {si * 64 + t * count} \<union> word_slots count m si [Suc t..<m] w"
      using True t(2) by (auto simp: word_slots_def)
    ultimately show ?thesis using picks_trans by metis
  qed
qed

fun free_slots :: "nat \<Rightarrow> nat \<Rightarrow> nat \<Rightarrow> u64 list \<Rightarrow> nat set" where
  "free_slots count m si [] = {}"
| "free_slots count m si (w # ws) = word_slots count m si [0..<m] w \<union> free_slots count m (Suc si) ws"

lemma scan_words_outcome:
  assumes "count < 64"
    and "scan_words count (mask count) [0..<m] ws si nv chosen g = (nv', chosen', g')"
  shows "picks nv chosen (free_slots count m si ws) nv' chosen'"
  using assms(2)
proof (induction ws arbitrary: si nv chosen g)
  case (Cons w ws)
  obtain nv1 ch1 g1 where 1:
    "scan_options count (mask count) si [0..<m] w nv chosen g = (nv1, ch1, g1)"
    using prod_cases3 by blast
  then have "scan_words count (mask count) [0..<m] ws (Suc si) nv1 ch1 g1 = (nv', chosen', g')"
    using Cons.prems by simp
  from Cons.IH [OF this] scan_options_outcome [OF assms(1), of si 0 m w nv chosen g] 1
  show ?case using picks_trans by simp
qed simp

lemma free_slots_iff:
  "off \<in> free_slots count m si ws \<longleftrightarrow>
     (\<exists>i < length ws. \<exists>opt < m. slot_free count (ws ! i) opt \<and> off = (si + i) * 64 + opt * count)"
proof (induction ws arbitrary: si)
  case (Cons w ws)
  have ex: "(\<exists>i < Suc (length ws). P i) \<longleftrightarrow> P 0 \<or> (\<exists>i < length ws. P (Suc i))" for P
    using less_Suc_eq_0_disj by auto
  show ?case
    unfolding free_slots.simps Un_iff Cons.IH length_Cons ex word_slots_def by auto
qed simp

text \<open>The aligned ranges of one word that are completely free.\<close>

definition free_ranges :: "nat \<Rightarrow> KPageBitmap \<Rightarrow> nat set" where
  "free_ranges count b =
     {off. {off..<off + count} \<subseteq> free_bits b \<and> count dvd off mod 64 \<and> off mod 64 + count \<le> 64}"

lemma free_slots_ranges:
  assumes "0 < count" "count < 64"
  shows "free_slots count (64 div count) 0 (bit_storages b (used_depths b - 1)) = free_ranges count b"
proof (rule set_eqI)
  fix off
  let ?ws = "bit_storages b (used_depths b - 1)"
  have opt: "opt * count + count \<le> 64" if "opt < 64 div count" for opt
    using that assms(1) by (metis Suc_leI add.commute less_eq_div_iff_mult_less_eq mult_Suc)
  show "off \<in> free_slots count (64 div count) 0 ?ws \<longleftrightarrow> off \<in> free_ranges count b"
  proof
    assume "off \<in> free_slots count (64 div count) 0 ?ws"
    then obtain i k where ik: "i < length ?ws" "k < 64 div count" "slot_free count (?ws ! i) k"
      "off = i * 64 + k * count" by (auto simp: free_slots_iff)
    have k: "k * count < 64" using opt [OF ik(2)] assms(1) by linarith
    then have off: "off div 64 = i" "off mod 64 = k * count" using ik(4) by auto
    have "j \<in> free_bits b" if "j \<in> {off..<off + count}" for j
    proof -
      from that have j: "j div 64 = i" "k * count \<le> j mod 64" "j mod 64 < k * count + count"
        using word_range_iff [of off count j] off opt [OF ik(2)] by auto
      then obtain n where "j mod 64 = k * count + n" "n < count"
        by (metis le_add_diff_inverse nat_add_left_cancel_less)
      then have "bit (?ws ! i) (j mod 64)" using ik(3) unfolding slot_free_def by simp
      then show ?thesis
        using j ik(1) word_bit_iff [of j i "bit_storages b" "used_depths b - 1"]
        by (simp add: free_bits_def)
    qed
    then show "off \<in> free_ranges count b" using off opt [OF ik(2)] by (auto simp: free_ranges_def)
  next
    assume r: "off \<in> free_ranges count b"
    then obtain k where k: "off mod 64 = count * k" by (auto simp: free_ranges_def elim: dvdE)
    have sub: "{off..<off + count} \<subseteq> free_bits b" and le: "off mod 64 + count \<le> 64"
      using r by (auto simp: free_ranges_def)
    have "off \<in> free_bits b" using sub assms(1) by auto
    then have i: "off div 64 < length ?ws" using free_bits_capacity capacity_index by blast
    have "Suc k \<le> 64 div count"
      using le k assms(1) by (simp add: less_eq_div_iff_mult_less_eq mult.commute)
    moreover have "slot_free count (?ws ! (off div 64)) k"
      unfolding slot_free_def
    proof (intro allI impI)
      fix n assume "n < count"
      then have "off + n \<in> {off..<off + count}" by simp
      then have "off + n \<in> free_bits b" "(off + n) div 64 = off div 64"
        using sub word_range_iff [OF le, of "off + n"] by auto
      moreover have "(off + n) mod 64 = k * count + n"
      proof -
        have "off mod 64 + n < 64" using le \<open>n < count\<close> by linarith
        then have "(off mod 64 + n) mod 64 = off mod 64 + n" by simp
        moreover have "(off + n) mod 64 = (off mod 64 + n) mod 64" by (simp add: mod_add_left_eq)
        ultimately show ?thesis using k by (simp add: mult.commute)
      qed
      ultimately show "bit (?ws ! (off div 64)) (k * count + n)"
        using i word_bit_iff [of "off + n" "off div 64" "bit_storages b" "used_depths b - 1"]
        by (simp add: free_bits_def)
    qed
    ultimately show "off \<in> free_slots count (64 div count) 0 ?ws"
      using i k div_mult_mod_eq [of off 64] unfolding free_slots_iff
      by (intro exI [of _ "off div 64"] conjI exI [of _ k]) (simp_all add: mult.commute)
  qed
qed

lemma find_free_range_outcome:
  assumes "pb_wf b" "0 < count" "count < 64"
  shows "\<exists>r g. find_free_range count b = Some (r, b\<lparr>rng := g\<rparr>) \<and>
    (if free_ranges count b = {} then r = -1 else \<exists>off \<in> free_ranges count b. r = int off)"
proof -
  let ?d = "used_depths b - 1" and ?m = "64 div count"
  let ?ws = "bit_storages b ?d"
  have d: "ix 4 (int (used_depths b) - 1) = Some ?d" "used_depths b \<noteq> 0"
    using assms(1) by (auto simp: pb_wf_def ix_def nat_diff_distrib)
  have "1 \<le> ?m" using assms(2,3) by (simp add: less_eq_div_iff_mult_less_eq)
  then have m: "max ?m 1 = ?m" by simp
  obtain nv ch g where sc: "scan_words count (mask count) [0..<?m] ?ws 0 0 (-1) (rng b) = (nv, ch, g)"
    using prod_cases3 by blast
  have p: "picks 0 (-1) (free_ranges count b) nv ch"
    using scan_words_outcome [OF assms(3) sc] free_slots_ranges [OF assms(2,3)] by simp
  show ?thesis
  proof (cases "?ws = []")
    case True
    then have "free_ranges count b = {}" using free_slots_ranges [OF assms(2,3), of b] by simp
    moreover have "find_free_range count b = Some (-1, b\<lparr>rng := rng b\<rparr>)"
      using d assms(3) True by (simp add: find_free_range_def Let_def)
    ultimately show ?thesis by (metis (full_types))
  next
    case False
    then have "find_free_range count b = Some (ch, b\<lparr>rng := g\<rparr>)"
      using d assms(2,3) m sc by (simp add: find_free_range_def Let_def flip: mask_eq_exp_minus_1)
    then show ?thesis using p unfolding picks_def by (cases "nv = 0") auto
  qed
qed

section \<open>The interface of the page heap\<close>

text \<open>
  What a client of the bitmap relies on: a set of free offsets below a capacity, with insertion,
  deletion, deletion of a range that may be refused, and a choice of an element.
\<close>

definition range_ok :: "nat \<Rightarrow> nat \<Rightarrow> bool" where
  "range_ok off count \<longleftrightarrow> 0 < count \<and>
     (if count < 64 then off mod 64 + count \<le> 64 else 64 dvd off \<and> 64 dvd count)"

locale free_set =
  fixes inv :: "'s \<Rightarrow> bool" and free :: "'s \<Rightarrow> nat set" and cap :: "'s \<Rightarrow> nat"
    and ins :: "nat \<Rightarrow> 's \<Rightarrow> 's option" and del :: "nat \<Rightarrow> 's \<Rightarrow> 's option"
    and del_range :: "nat \<Rightarrow> nat \<Rightarrow> 's \<Rightarrow> (bool \<times> 's) option"
    and find :: "bool \<Rightarrow> 's \<Rightarrow> (int \<times> 's) option"
  assumes free_cap: "inv s \<Longrightarrow> i \<in> free s \<Longrightarrow> i < cap s"
    and ins_ok: "inv s \<Longrightarrow> off < cap s \<Longrightarrow> off \<notin> free s \<Longrightarrow>
      \<exists>s'. ins off s = Some s' \<and> inv s' \<and> cap s' = cap s \<and> free s' = insert off (free s)"
    and del_ok: "inv s \<Longrightarrow> off \<in> free s \<Longrightarrow>
      \<exists>s'. del off s = Some s' \<and> inv s' \<and> cap s' = cap s \<and> free s' = free s - {off}"
    and del_range_ok: "inv s \<Longrightarrow> range_ok off count \<Longrightarrow> off + count \<le> cap s \<Longrightarrow>
      \<exists>s'. del_range off count s = Some ({off..<off + count} \<subseteq> free s, s') \<and> inv s' \<and> cap s' = cap s \<and>
        free s' = (if {off..<off + count} \<subseteq> free s then free s - {off..<off + count} else free s)"
    and find_ok: "inv s \<Longrightarrow>
      \<exists>r s'. find random s = Some (r, s') \<and> inv s' \<and> cap s' = cap s \<and> free s' = free s \<and>
        (if free s = {} then r = -1
         else 0 \<le> r \<and> nat r \<in> free s \<and> (\<not> random \<longrightarrow> nat r = Min (free s)))"
begin

text \<open>Taking an element out: find one, then delete it.\<close>

lemma take_ok:
  assumes "inv s"
  shows "\<exists>r s1 s'. find random s = Some (r, s1) \<and> inv s' \<and> cap s' = cap s \<and>
    (if free s = {} then r = -1 \<and> s' = s1 \<and> free s' = {}
     else \<exists>off \<in> free s. r = int off \<and> del off s1 = Some s' \<and> free s' = free s - {off} \<and>
            (\<not> random \<longrightarrow> off = Min (free s)))"
proof -
  obtain r s1 where f: "find random s = Some (r, s1)" "inv s1" "cap s1 = cap s" "free s1 = free s"
    "if free s = {} then r = -1
     else 0 \<le> r \<and> nat r \<in> free s \<and> (\<not> random \<longrightarrow> nat r = Min (free s))"
    using find_ok [OF assms, of random] by blast
  show ?thesis
  proof (cases "free s = {}")
    case True
    with f show ?thesis by auto
  next
    case False
    with f have "nat r \<in> free s1" by simp
    from del_ok [OF f(2) this] f False show ?thesis
      by (auto intro!: bexI [of _ "nat r"])
  qed
qed

text \<open>Putting an element in and collapsing its aligned group when the group became full.\<close>

lemma put_ok:
  assumes "inv s" "off < cap s" "off \<notin> free s" "range_ok a n" "a + n \<le> cap s"
  shows "\<exists>s1 s'. ins off s = Some s1 \<and>
    del_range a n s1 = Some ({a..<a + n} \<subseteq> insert off (free s), s') \<and> inv s' \<and> cap s' = cap s \<and>
    free s' = (if {a..<a + n} \<subseteq> insert off (free s) then insert off (free s) - {a..<a + n}
               else insert off (free s))"
proof -
  obtain s1 where s1: "ins off s = Some s1" "inv s1" "cap s1 = cap s" "free s1 = insert off (free s)"
    using ins_ok [OF assms(1-3)] by blast
  have "a + n \<le> cap s1" using assms(5) s1(3) by simp
  from del_range_ok [OF s1(2) assms(4) this] show ?thesis
    unfolding s1(3,4) using s1(1) by blast
qed

end

interpretation bitmap: free_set pb_wf free_bits capacity pb_set_bit pb_clear_bit clear_range find_free_block
proof unfold_locales
  fix s off count assume a: "pb_wf s" "range_ok off count" "off + count \<le> capacity s"
  then have "off < capacity s" by (simp add: range_ok_def)
  then have "\<exists>s'. clear_range off count s = Some ({off..<off + count} \<subseteq> free_bits s, s') \<and>
      (if {off..<off + count} \<subseteq> free_bits s
       then pb_wf s' \<and> capacity s' = capacity s \<and> free_bits s' = free_bits s - {off..<off + count}
       else s' = s)"
    using clear_range_small [of s count off] clear_range_large [of s count off] a
    unfolding range_ok_def by (metis not_less)
  with a(1) show "\<exists>s'. clear_range off count s = Some ({off..<off + count} \<subseteq> free_bits s, s') \<and> pb_wf s' \<and>
      capacity s' = capacity s \<and>
      free_bits s' = (if {off..<off + count} \<subseteq> free_bits s then free_bits s - {off..<off + count}
                      else free_bits s)"
    by (metis (full_types))
next
  fix s random assume "pb_wf s"
  moreover have "pb_wf (s\<lparr>rng := g\<rparr>) = pb_wf s \<and> capacity (s\<lparr>rng := g\<rparr>) = capacity s \<and>
      free_bits (s\<lparr>rng := g\<rparr>) = free_bits s" for g
    by (simp add: pb_wf_def capacity_def free_bits_def)
  ultimately show "\<exists>r s'. find_free_block random s = Some (r, s') \<and> pb_wf s' \<and> capacity s' = capacity s \<and>
      free_bits s' = free_bits s \<and> (if free_bits s = {} then r = -1
         else 0 \<le> r \<and> nat r \<in> free_bits s \<and> (\<not> random \<longrightarrow> nat r = Min (free_bits s)))"
    using find_free_block_outcome [of s random] by metis
qed (use free_bits_capacity set_bit_set clear_bit_set in auto)

section \<open>Histories of calls\<close>

datatype bitmap_op = SetBit nat | ClearBit nat | ClearRange nat nat | FindBlock bool
datatype bitmap_ret = Done | Cleared bool | FoundBlock int

fun bitmap_exec :: "bitmap_op \<Rightarrow> KPageBitmap \<Rightarrow> (bitmap_ret \<times> KPageBitmap) option" where
  "bitmap_exec (SetBit off) b = do { b \<leftarrow> pb_set_bit off b; Some (Done, b) }"
| "bitmap_exec (ClearBit off) b = do { b \<leftarrow> pb_clear_bit off b; Some (Done, b) }"
| "bitmap_exec (ClearRange off count) b = do { (r, b) \<leftarrow> clear_range off count b; Some (Cleared r, b) }"
| "bitmap_exec (FindBlock random) b = do { (r, b) \<leftarrow> find_free_block random b; Some (FoundBlock r, b) }"

fun bitmap_run :: "bitmap_op list \<Rightarrow> KPageBitmap \<Rightarrow> (bitmap_ret list \<times> KPageBitmap) option" where
  "bitmap_run [] b = Some ([], b)"
| "bitmap_run (op # ops) b = do {
     (r, b) \<leftarrow> bitmap_exec op b;
     (rs, b) \<leftarrow> bitmap_run ops b;
     Some (r # rs, b) }"

text \<open>The abstract set: which calls are allowed, what they do and what they may answer.\<close>

fun op_allowed :: "nat \<Rightarrow> bitmap_op \<Rightarrow> nat set \<Rightarrow> bool" where
  "op_allowed c (SetBit off) S \<longleftrightarrow> off < c \<and> off \<notin> S"
| "op_allowed c (ClearBit off) S \<longleftrightarrow> off \<in> S"
| "op_allowed c (ClearRange off count) S \<longleftrightarrow> range_ok off count \<and> off + count \<le> c"
| "op_allowed c (FindBlock random) S \<longleftrightarrow> True"

fun op_effect :: "bitmap_op \<Rightarrow> nat set \<Rightarrow> nat set" where
  "op_effect (SetBit off) S = insert off S"
| "op_effect (ClearBit off) S = S - {off}"
| "op_effect (ClearRange off count) S =
     (if {off..<off + count} \<subseteq> S then S - {off..<off + count} else S)"
| "op_effect (FindBlock random) S = S"

fun op_answer :: "bitmap_op \<Rightarrow> nat set \<Rightarrow> bitmap_ret \<Rightarrow> bool" where
  "op_answer (ClearRange off count) S r \<longleftrightarrow> r = Cleared ({off..<off + count} \<subseteq> S)"
| "op_answer (FindBlock random) S r \<longleftrightarrow>
     (if S = {} then r = FoundBlock (-1)
      else \<exists>i \<in> S. r = FoundBlock (int i) \<and> (\<not> random \<longrightarrow> i = Min S))"
| "op_answer _ S r \<longleftrightarrow> r = Done"

fun ops_allowed :: "nat \<Rightarrow> bitmap_op list \<Rightarrow> nat set \<Rightarrow> bool" where
  "ops_allowed c [] S \<longleftrightarrow> True"
| "ops_allowed c (op # ops) S \<longleftrightarrow> op_allowed c op S \<and> ops_allowed c ops (op_effect op S)"

fun answers_ok :: "bitmap_op list \<Rightarrow> bitmap_ret list \<Rightarrow> nat set \<Rightarrow> bool" where
  "answers_ok [] [] S \<longleftrightarrow> True"
| "answers_ok (op # ops) (r # rs) S \<longleftrightarrow> op_answer op S r \<and> answers_ok ops rs (op_effect op S)"
| "answers_ok _ _ S \<longleftrightarrow> False"

lemma bitmap_exec_ok:
  assumes "pb_wf b" "op_allowed (capacity b) op (free_bits b)"
  shows "\<exists>r b'. bitmap_exec op b = Some (r, b') \<and> pb_wf b' \<and> capacity b' = capacity b \<and>
    free_bits b' = op_effect op (free_bits b) \<and> op_answer op (free_bits b) r"
proof (cases op)
  case (SetBit off)
  then show ?thesis using bitmap.ins_ok [OF assms(1), of off] assms(2) by fastforce
next
  case (ClearBit off)
  then show ?thesis using bitmap.del_ok [OF assms(1), of off] assms(2) by fastforce
next
  case (ClearRange off count)
  then obtain b' where "clear_range off count b = Some ({off..<off + count} \<subseteq> free_bits b, b')"
    "pb_wf b'" "capacity b' = capacity b"
    "free_bits b' = (if {off..<off + count} \<subseteq> free_bits b then free_bits b - {off..<off + count}
                     else free_bits b)"
    using bitmap.del_range_ok [OF assms(1), of off count] assms(2) by auto
  then show ?thesis using ClearRange by simp
next
  case (FindBlock random)
  obtain r b' where "find_free_block random b = Some (r, b')" "pb_wf b'" "capacity b' = capacity b"
    "free_bits b' = free_bits b"
    "if free_bits b = {} then r = -1
     else 0 \<le> r \<and> nat r \<in> free_bits b \<and> (\<not> random \<longrightarrow> nat r = Min (free_bits b))"
    using bitmap.find_ok [OF assms(1), of random] by blast
  then show ?thesis
    using FindBlock by (cases "free_bits b = {}") (auto intro!: bexI [of _ "nat r"])
qed

lemma bitmap_run_ok:
  assumes "pb_wf b" "ops_allowed (capacity b) ops (free_bits b)"
  shows "\<exists>rs b'. bitmap_run ops b = Some (rs, b') \<and> pb_wf b' \<and> capacity b' = capacity b \<and>
    free_bits b' = fold op_effect ops (free_bits b) \<and> answers_ok ops rs (free_bits b)"
  using assms
proof (induction ops arbitrary: b)
  case (Cons op ops)
  obtain r b1 where 1: "bitmap_exec op b = Some (r, b1)" "pb_wf b1" "capacity b1 = capacity b"
    "free_bits b1 = op_effect op (free_bits b)" "op_answer op (free_bits b) r"
    using bitmap_exec_ok [of b op] Cons.prems by auto
  with Cons.IH [of b1] Cons.prems show ?case by force
qed simp

section \<open>Properties\<close>

text \<open>
  C8: A freshly initialized bitmap is a set of free offsets. For 1 to 64^4 - 1 entries
  \<open>initialize\<close> does not panic, and from the bitmap it leaves every history of \<open>set_bit\<close> of
  clear bits, \<open>clear_bit\<close> of set bits, \<open>clear_range\<close> of ranges within a word or of whole words
  and \<open>find_free_block\<close> runs without a panic. At its end the offsets marked in the deepest level
  are those of the abstract set, \<open>num_bits\<close> is its size, all upper levels are consistent with it,
  and each answer is the abstract one: \<open>clear_range\<close> succeeds exactly if the whole range was
  free, \<open>find_free_block\<close> answers -1 exactly on the empty set, otherwise a free offset, and
  without randomness the lowest one.
\<close>

theorem bitmap_refines_set:
  assumes "0 < n" "n < 64 ^ 4" "ops_allowed (64 * ((n + 63) div 64)) ops {}"
  shows "\<exists>b rs b'. pb_initialize n pb_new = Some b \<and> bitmap_run ops b = Some (rs, b') \<and>
    free_bits b' = fold op_effect ops {} \<and> num_bits b' = word_of_nat (card (fold op_effect ops {})) \<and>
    (\<forall>k < used_depths b' - 1. level_ok (bit_storages b') k) \<and> answers_ok ops rs {}"
proof -
  obtain b where b: "pb_initialize n pb_new = Some b" "pb_wf b" "free_bits b = {}"
    "capacity b = 64 * ((n + 63) div 64)"
    using initialize_set [OF assms(1,2), of pb_new] by blast
  with bitmap_run_ok [OF b(2), of ops] assms(3) show ?thesis by (auto simp: pb_wf_def)
qed

lemma bitmap_refines_set_witness:
  "\<exists>b rs b'. pb_initialize 100 pb_new = Some b \<and>
    bitmap_run [SetBit 70, SetBit 3, FindBlock False, ClearBit 3, ClearRange 70 1, FindBlock True] b =
      Some (rs, b') \<and> free_bits b' = {} \<and>
    rs = [Done, Done, FoundBlock 3, Done, Cleared True, FoundBlock (-1)]"
proof -
  let ?ops = "[SetBit 70, SetBit 3, FindBlock False, ClearBit 3, ClearRange 70 1, FindBlock True]"
  have min: "Min {3, 70 :: nat} = 3" by simp
  have eff: "fold op_effect ?ops {} = ({} :: nat set)" by auto
  from bitmap_refines_set [of 100 ?ops] obtain b rs b' where
    "pb_initialize 100 pb_new = Some b" "bitmap_run ?ops b = Some (rs, b')" "free_bits b' = {}"
    "answers_ok ?ops rs {}"
    unfolding eff by (auto simp: range_ok_def)
  moreover from this(4) have "rs = [Done, Done, FoundBlock 3, Done, Cleared True, FoundBlock (-1)]"
    by (cases rs rule: list.exhaust) (auto elim!: answers_ok.elims simp: insert_commute min split: if_splits)
  ultimately show ?thesis by blast
qed

text \<open>
  C9: \<open>find_free_range\<close> for 1 to 63 entries finds a range whenever there is one: on a
  well-formed bitmap it does not panic, changes nothing but the random generator, answers -1
  exactly if no aligned slot of that length inside a word is completely free, and otherwise
  answers the first offset of such a slot.
\<close>

theorem find_free_range_correct:
  assumes "pb_wf b" "0 < count" "count < 64"
  shows "\<exists>r g. find_free_range count b = Some (r, b\<lparr>rng := g\<rparr>) \<and>
    (r = -1 \<longleftrightarrow> (\<nexists>off. {off..<off + count} \<subseteq> free_bits b \<and> count dvd off mod 64 \<and> off mod 64 + count \<le> 64)) \<and>
    (r \<noteq> -1 \<longrightarrow> 0 \<le> r \<and> {nat r..<nat r + count} \<subseteq> free_bits b \<and> count dvd nat r mod 64)"
proof -
  obtain r g where "find_free_range count b = Some (r, b\<lparr>rng := g\<rparr>)"
    "if free_ranges count b = {} then r = -1 else \<exists>off \<in> free_ranges count b. r = int off"
    using find_free_range_outcome [OF assms] by blast
  then show ?thesis
    by (intro exI [of _ r] exI [of _ g]) (auto simp: free_ranges_def split: if_splits)
qed

text \<open>A bitmap of 64 entries of which 4 to 7 are free.\<close>

definition sample_bitmap :: KPageBitmap where
  "sample_bitmap = \<lparr>bit_storages = (\<lambda>k. if k = 0 then [1] else if k = 1 then [push_bit 4 (mask 4)] else []),
     rng = rng_new, num_bits = 4, used_depths = 2\<rparr>"

lemma sample_bits: "free_bits sample_bitmap = {4..<8}"
  by (auto simp: free_bits_def level_bits_def sample_bitmap_def bit_simps)

lemma sample_wf: "pb_wf sample_bitmap"
proof -
  have "i div 64 = 0" if "i \<in> {4..<8}" for i :: nat using that by auto
  then have "(\<lambda>i. i div 64) ` {4..<8 :: nat} = {0}" by force
  moreover have "level_bits (bit_storages sample_bitmap) 0 = {0}"
    by (auto simp: level_bits_def sample_bitmap_def bit_simps bit_1_iff)
  ultimately have "level_ok (bit_storages sample_bitmap) 0"
    using sample_bits by (simp add: level_ok_def free_bits_def sample_bitmap_def)
  then show ?thesis
    by (simp add: pb_wf_def sample_bits) (simp add: sample_bitmap_def lengths_ok_def)
qed

lemma find_free_range_correct_witness:
  "(\<exists>r g. find_free_range 4 sample_bitmap = Some (r, sample_bitmap\<lparr>rng := g\<rparr>) \<and> r = 4) \<and>
   (\<exists>g. find_free_range 8 sample_bitmap = Some (-1, sample_bitmap\<lparr>rng := g\<rparr>))"
proof
  have "0 < (4 :: nat)" "(4 :: nat) < 64" by simp_all
  from find_free_range_correct [OF sample_wf this, unfolded sample_bits] obtain r g where
    r: "find_free_range 4 sample_bitmap = Some (r, sample_bitmap\<lparr>rng := g\<rparr>)"
    "r = -1 \<longleftrightarrow> (\<nexists>off. {off..<off + 4} \<subseteq> {4..<8 :: nat} \<and> 4 dvd off mod 64 \<and> off mod 64 + 4 \<le> 64)"
    "r \<noteq> -1 \<longrightarrow> 0 \<le> r \<and> {nat r..<nat r + 4} \<subseteq> {4..<8} \<and> 4 dvd nat r mod 64" by metis
  have "{4..<4 + 4} \<subseteq> {4..<8 :: nat} \<and> (4 :: nat) dvd 4 mod 64 \<and> (4 :: nat) mod 64 + 4 \<le> 64" by simp
  then have "r \<noteq> -1" using r(2) by blast
  with r(3) have "0 \<le> r" "{nat r..<nat r + 4} \<subseteq> {4..<8}" by auto
  then have "r = 4" by (auto simp: atLeastLessThan_subset_iff)
  with r(1) show "\<exists>r g. find_free_range 4 sample_bitmap = Some (r, sample_bitmap\<lparr>rng := g\<rparr>) \<and> r = 4"
    by blast
next
  have "\<not> {off..<off + 8} \<subseteq> {4..<8 :: nat}" for off by (auto simp: atLeastLessThan_subset_iff)
  then show "\<exists>g. find_free_range 8 sample_bitmap = Some (-1, sample_bitmap\<lparr>rng := g\<rparr>)"
    using find_free_range_correct [OF sample_wf, of 8] unfolding sample_bits by auto
qed

text \<open>With the mask 0 every word counts as free, so the scan answers the start of some word.\<close>

lemma scan_words_64:
  assumes "ch = int (64 * k)" "k < n" "si + length ws \<le> n"
    "scan_words 64 0 [0] ws si nv ch g = (nv', ch', g')"
  shows "\<exists>k < n. ch' = int (64 * k)"
  using assms
proof (induction ws arbitrary: si nv ch k g)
  case (Cons w ws)
  obtain nv1 ch1 g1 where o: "scan_options 64 0 si [0] w nv ch g = (nv1, ch1, g1)"
    using prod_cases3 by blast
  then have "ch1 = int (64 * k) \<or> ch1 = int (64 * si)"
    using Cons.prems(1) by (auto simp: Let_def split: prod.splits if_splits)
  then obtain k1 where "ch1 = int (64 * k1)" "k1 < n" using Cons.prems(2,3) by fastforce
  moreover have "scan_words 64 0 [0] ws (Suc si) nv1 ch1 g1 = (nv', ch', g')"
    using Cons.prems(4) o by simp
  ultimately show ?case using Cons.prems(3) Cons.IH [of ch1 k1 "Suc si"] by simp
qed auto

lemma find_free_range_64:
  assumes "pb_wf b" "0 < capacity b"
  shows "\<exists>k g. find_free_range 64 b = Some (int (64 * k), b\<lparr>rng := g\<rparr>) \<and> 64 * k + 64 \<le> capacity b"
proof -
  let ?d = "used_depths b - 1"
  have d: "ix 4 (int (used_depths b) - 1) = Some ?d" "used_depths b \<noteq> 0"
    using assms(1) by (auto simp: pb_wf_def ix_def nat_diff_distrib)
  obtain w ws where ws: "bit_storages b ?d = w # ws"
    using assms(2) by (cases "bit_storages b ?d") (auto simp: capacity_def)
  obtain nv ch g where sc: "scan_words 64 0 [0] (bit_storages b ?d) 0 0 (-1) (rng b) = (nv, ch, g)"
    using prod_cases3 by blast
  have "scan_words 64 0 [0] ws 1 1 0 (rng b) = (nv, ch, g)"
    using sc unfolding ws by (simp add: Let_def)
  then obtain k where "k < Suc (length ws)" "ch = int (64 * k)"
    using scan_words_64 [of 0 0 "Suc (length ws)" 1 ws 1 "rng b" nv ch g] by auto
  moreover have "find_free_range 64 b = Some (ch, b\<lparr>rng := g\<rparr>)"
    using d ws sc by (simp add: find_free_range_def Let_def shl_def)
  ultimately show ?thesis using ws by (intro exI [of _ k] exI [of _ g]) (simp add: capacity_def)
qed

text \<open>
  \<open>find_free_range\<close> accepts a count of 64, but in the release build its mask
  \<open>(1 << 64) - 1\<close> is 0, so that every word passes the test: on any well-formed bitmap without a
  free offset it still answers a range, none of whose offsets is free.
\<close>

theorem find_free_range_64_unsound:
  assumes "pb_wf b" "free_bits b = {}" "0 < capacity b"
  shows "\<exists>r g. find_free_range 64 b = Some (r, b\<lparr>rng := g\<rparr>) \<and> 0 \<le> r \<and>
    {nat r..<nat r + 64} \<inter> free_bits b = {}"
  using find_free_range_64 [OF assms(1,3)] assms(2) by auto

lemma find_free_range_64_unsound_witness:
  "\<exists>b r g. pb_initialize 100 pb_new = Some b \<and> free_bits b = {} \<and>
     find_free_range 64 b = Some (r, b\<lparr>rng := g\<rparr>) \<and> 0 \<le> r"
proof -
  obtain b where b: "pb_initialize 100 pb_new = Some b" "pb_wf b" "free_bits b = {}" "0 < capacity b"
    using initialize_set [of 100 pb_new] by auto
  with find_free_range_64_unsound [OF b(2-4)] show ?thesis by blast
qed

text \<open>
  \<open>select_random_bit\<close> answers the index of a bit that is set in any non-zero word, whatever
  the state of the random generator.
\<close>

theorem select_random_bit_sound:
  assumes "w \<noteq> 0"
  shows "fst (select_random_bit w g) < 64 \<and> bit w (fst (select_random_bit w g))"
  using select_random_bit_sets [OF assms] by blast

lemma select_random_bit_sound_witness: "fst (select_random_bit (2 ^ 8) rng_new) = 8"
proof -
  have "(2 ^ 8 :: u64) \<noteq> 0" by simp
  from select_random_bit_sound [OF this, of rng_new] show ?thesis unfolding bit_power2 by (elim conjE)
qed

lemma overhead_sum:
  fixes st :: "nat \<Rightarrow> u64 list"
  assumes "\<forall>k. Suc k < m \<longrightarrow> length (st k) = (length (st (Suc k)) + 63) div 64"
    "0 < m \<longrightarrow> length (st (m - 1)) = (n + 63) div 64"
  shows "snd (fold (\<lambda>_ (rs, bits). let rs = (rs + 64 - 1) div 64 in (rs, bits + rs)) (rev [0..<m]) (n, acc)) =
    acc + (\<Sum>k < m. length (st k))"
  using assms
proof (induction m arbitrary: n acc)
  case (Suc m)
  have "length (st m) = (n + 63) div 64" using Suc.prems(2) by simp
  moreover have "0 < m \<longrightarrow> length (st (m - 1)) = ((n + 63) div 64 + 63) div 64"
    using Suc.prems(1) calculation by (metis Suc_pred lessI diff_Suc_1)
  moreover have "\<forall>k. Suc k < m \<longrightarrow> length (st k) = (length (st (Suc k)) + 63) div 64"
    using Suc.prems(1) by simp
  ultimately show ?case
    using Suc.IH [of "(n + 63) div 64" "acc + (n + 63) div 64"]
    by (simp add: Let_def add.commute [of 63])
qed simp

text \<open>
  C10: The number of levels that \<open>initialize\<close> computes is exact. A size is covered by \<open>d + 1\<close>
  levels exactly if it is below 64^(d+1); a bitmap of 64^4 entries or more needs a fifth level
  and panics; every other one allocates precisely the bytes that
  \<open>calculate_management_overhead_size\<close> reports for its size.
\<close>

theorem initialize_levels_exact:
  "(get_required_depth n \<le> Suc d \<longleftrightarrow> n < 64 ^ Suc d) \<and>
   (case pb_initialize n b of
      None \<Rightarrow> 64 ^ 4 \<le> n
    | Some b' \<Rightarrow> n < 64 ^ 4 \<and> used_depths b' = get_required_depth n \<and>
        overhead_size n = 8 * (\<Sum>k < used_depths b'. length (bit_storages b' k)))"
proof (cases "n < 64 ^ 4")
  case False
  then show ?thesis using initialize_too_large [of n b] required_depth_le by simp
next
  case True
  let ?m = "get_required_depth n"
  have "?m \<le> 4" using required_depth_le [of n 3] True by simp
  from init_levels_outcome [OF this, of n "bit_storages b"] obtain st' where
    st': "init_levels (rev [0..<?m]) n (bit_storages b) = Some st'"
    "fresh_levels ?m n (bit_storages b) st'" by blast
  have "overhead_size n = 8 * (\<Sum>k < ?m. length (st' k))"
    using overhead_sum [of ?m st' n 0] st'(2) by (simp add: overhead_size_def Let_def fresh_levels_def)
  with st'(1) True show ?thesis using required_depth_le by (simp add: pb_initialize_def Let_def)
qed

end
