(* ===== verification/DynamicPageManager.thy ===== *)
theory DynamicPageManager
  imports PageBitmapProps Machine
begin

text \<open>
  The page manager behind the slab heaps: src/core/src/hle/kernel/k_dynamic_page_manager.rs.
  A region of page-sized buffers is handed out one page or one run of pages at a time; the free
  pages are the set bits of a page bitmap. The backing memory is a byte list; the addresses are
  64-bit numbers with the wrap-around of the release build.
\<close>

record KDynamicPageManager =
  page_bitmap :: KPageBitmap
  dpm_used :: nat
  dpm_peak :: nat
  dpm_count :: nat
  dpm_address :: nat
  aligned_address :: nat
  dpm_size :: nat
  backing_memory :: "u8 list"

definition dpm_new :: KDynamicPageManager where
  "dpm_new = \<lparr>page_bitmap = pb_new, dpm_used = 0, dpm_peak = 0, dpm_count = 0, dpm_address = 0,
     aligned_address = 0, dpm_size = 0, backing_memory = []\<rparr>"

text \<open>\<open>Vec::resize\<close> with zeros.\<close>

definition resize_zero :: "nat \<Rightarrow> u8 list \<Rightarrow> u8 list" where
  "resize_zero n xs = take n xs @ replicate (n - length xs) 0"

text \<open>The loop that frees the pages of the region into the bitmap.\<close>

fun free_pages :: "nat list \<Rightarrow> KDynamicPageManager \<Rightarrow> KDynamicPageManager option" where
  "free_pages [] m = Some m"
| "free_pages (i # is) m = do {
     let offset = sub64 (add64 (dpm_address m) (mul64 i PAGE_SIZE)) (aligned_address m) div PAGE_SIZE;
     bm \<leftarrow> pb_set_bit offset (page_bitmap m);
     free_pages is (m\<lparr>page_bitmap := bm\<rparr>) }"

definition dpm_initialize ::
  "nat \<Rightarrow> nat \<Rightarrow> nat \<Rightarrow> KDynamicPageManager \<Rightarrow> ((unit + unit) \<times> KDynamicPageManager) option" where
  "dpm_initialize memory sz align m =
     (if sz = 0 then Some (Inl (), m)
      else do {
        guard_panic (align \<noteq> 0);
        let aligned = align_down memory align;
        let m = m\<lparr>backing_memory := resize_zero sz (backing_memory m), dpm_address := memory,
                  aligned_address := aligned\<rparr>;
        let managed_size = sub64 (add64 memory sz) aligned;
        let overhead = align_up (overhead_size (managed_size div PAGE_SIZE)) PAGE_SIZE;
        if overhead \<ge> sz then Some (Inl (), m)
        else do {
          let usable = align_down (sub64 sz overhead) PAGE_SIZE;
          let count = usable div PAGE_SIZE;
          let allocatable_size = sub64 (sub64 (add64 memory sz) overhead) aligned;
          bm \<leftarrow> pb_initialize (allocatable_size div PAGE_SIZE) (page_bitmap m);
          m \<leftarrow> free_pages [0..<count] (m\<lparr>dpm_size := usable, dpm_count := count, page_bitmap := bm\<rparr>);
          Some (Inr (), m) } })"

definition get_pointer :: "nat \<Rightarrow> KDynamicPageManager \<Rightarrow> (u8 list) option" where
  "get_pointer addr m =
     (let offset = sub64 addr (dpm_address m)
      in if offset \<le> length (backing_memory m) then Some (drop offset (backing_memory m)) else None)"

definition bump_used_by :: "nat \<Rightarrow> KDynamicPageManager \<Rightarrow> KDynamicPageManager" where
  "bump_used_by n m =
     (let m = m\<lparr>dpm_used := add64 (dpm_used m) n\<rparr>
      in if dpm_used m > dpm_peak m then m\<lparr>dpm_peak := dpm_used m\<rparr> else m)"

definition page_address :: "nat \<Rightarrow> KDynamicPageManager \<Rightarrow> nat" where
  "page_address offset m = add64 (aligned_address m) (mul64 offset PAGE_SIZE)"

definition dpm_allocate :: "KDynamicPageManager \<Rightarrow> (nat option \<times> KDynamicPageManager) option" where
  "dpm_allocate m = do {
     (soffset, bm) \<leftarrow> find_free_block True (page_bitmap m);
     if soffset < 0 then Some (None, m\<lparr>page_bitmap := bm\<rparr>)
     else do {
       bm \<leftarrow> pb_clear_bit (nat soffset) bm;
       let m = bump_used_by 1 (m\<lparr>page_bitmap := bm\<rparr>);
       Some (Some (page_address (nat soffset) m), m) } }"

text \<open>The answer of \<open>clear_range\<close> is not looked at.\<close>

definition dpm_allocate_count :: "nat \<Rightarrow> KDynamicPageManager \<Rightarrow> (nat option \<times> KDynamicPageManager) option" where
  "dpm_allocate_count count m = do {
     (soffset, bm) \<leftarrow> find_free_range count (page_bitmap m);
     if soffset < 0 then Some (None, m\<lparr>page_bitmap := bm\<rparr>)
     else do {
       (_, bm) \<leftarrow> clear_range (nat soffset) count bm;
       let m = bump_used_by count (m\<lparr>page_bitmap := bm\<rparr>);
       Some (Some (page_address (nat soffset) m), m) } }"

definition zero_page :: "nat \<Rightarrow> u8 list \<Rightarrow> (u8 list) option" where
  "zero_page off xs =
     (if add64 off PAGE_SIZE \<le> length xs
      then do {
        guard_panic (off \<le> add64 off PAGE_SIZE);
        Some (take off xs @ replicate (add64 off PAGE_SIZE - off) 0 @ drop (add64 off PAGE_SIZE) xs) }
      else Some xs)"

definition dpm_free :: "nat \<Rightarrow> KDynamicPageManager \<Rightarrow> KDynamicPageManager option" where
  "dpm_free page_addr m = do {
     stored \<leftarrow> zero_page (sub64 page_addr (dpm_address m)) (backing_memory m);
     let offset = sub64 page_addr (aligned_address m) div PAGE_SIZE;
     bm \<leftarrow> pb_set_bit offset (page_bitmap m);
     Some (m\<lparr>backing_memory := stored, page_bitmap := bm, dpm_used := sub64 (dpm_used m) 1\<rparr>) }"

section \<open>The pages\<close>

text \<open>The offset in the bitmap of the first page, all pages, and the free ones.\<close>

definition first_page :: "KDynamicPageManager \<Rightarrow> nat" where
  "first_page m = (dpm_address m - aligned_address m) div PAGE_SIZE"

definition all_pages :: "KDynamicPageManager \<Rightarrow> nat set" where
  "all_pages m = (\<lambda>i. dpm_address m + i * PAGE_SIZE) ` {..<dpm_count m}"

definition page_of :: "KDynamicPageManager \<Rightarrow> nat \<Rightarrow> nat" where
  "page_of m off = aligned_address m + off * PAGE_SIZE"

definition free_page_set :: "KDynamicPageManager \<Rightarrow> nat set" where
  "free_page_set m = page_of m ` free_bits (page_bitmap m)"

definition dpm_wf :: "KDynamicPageManager \<Rightarrow> bool" where
  "dpm_wf m \<longleftrightarrow> pb_wf (page_bitmap m) \<and> aligned_address m \<le> dpm_address m \<and>
     PAGE_SIZE dvd dpm_address m - aligned_address m \<and>
     dpm_address m + dpm_size m < W64 \<and> dpm_size m = dpm_count m * PAGE_SIZE \<and>
     dpm_size m \<le> length (backing_memory m) \<and> length (backing_memory m) < W64 \<and>
     free_bits (page_bitmap m) \<subseteq> {first_page m..<first_page m + dpm_count m} \<and>
     first_page m + dpm_count m \<le> capacity (page_bitmap m) \<and>
     dpm_used m + card (free_bits (page_bitmap m)) = dpm_count m \<and> dpm_used m \<le> dpm_peak m"

lemma inj_page_of [simp]: "inj_on (page_of m) S"
  by (auto simp: inj_on_def page_of_def)

lemma finite_free_page_set [simp]: "finite (free_page_set m)"
  by (simp add: free_page_set_def)

lemma card_all_pages [simp]: "card (all_pages m) = dpm_count m"
  unfolding all_pages_def by (subst card_image) (auto simp: inj_on_def)

lemma card_free_page_set: "card (free_page_set m) = card (free_bits (page_bitmap m))"
  unfolding free_page_set_def by (rule card_image) simp

lemma all_pages_of:
  assumes "aligned_address m \<le> dpm_address m" "PAGE_SIZE dvd dpm_address m - aligned_address m"
  shows "all_pages m = page_of m ` {first_page m..<first_page m + dpm_count m}"
proof -
  from assms obtain k where k: "dpm_address m = aligned_address m + PAGE_SIZE * k"
    by (metis dvdE le_add_diff_inverse)
  then have fp: "first_page m = k" by (simp add: first_page_def)
  have "page_of m ` {k..<k + dpm_count m} = page_of m ` ((\<lambda>i. k + i) ` {..<dpm_count m})"
    by (simp add: image_add_atLeastLessThan lessThan_atLeast0 add.commute)
  also have "\<dots> = all_pages m"
    unfolding all_pages_def page_of_def image_image k by (rule image_cong) (auto simp: algebra_simps)
  finally show ?thesis using fp by simp
qed

lemma dpm_wf_free: "dpm_wf m \<Longrightarrow> free_page_set m \<subseteq> all_pages m"
  by (subst all_pages_of) (auto simp: dpm_wf_def free_page_set_def)

text \<open>A page of the manager is below the end of the address space, so no address wraps.\<close>

lemma page_of_bound:
  assumes "dpm_wf m" "off < first_page m + dpm_count m"
  shows "page_of m off < W64" "off * PAGE_SIZE < W64" "page_address off m = page_of m off"
proof -
  let ?k = "first_page m"
  have a: "aligned_address m \<le> dpm_address m" "PAGE_SIZE dvd dpm_address m - aligned_address m"
    "dpm_address m + dpm_count m * PAGE_SIZE < W64" using assms(1) by (auto simp: dpm_wf_def)
  then have k: "dpm_address m = aligned_address m + ?k * PAGE_SIZE" by (simp add: first_page_def)
  have "off * PAGE_SIZE \<le> (?k + dpm_count m) * PAGE_SIZE" using assms(2) by (intro mult_right_mono) simp_all
  then show "page_of m off < W64" "off * PAGE_SIZE < W64" "page_address off m = page_of m off"
    using a(3) unfolding k page_address_def page_of_def add_mult_distrib by simp_all
qed

section \<open>What the operations do to the free pages\<close>

lemma bump_used_by_simps [simp]:
  "page_bitmap (bump_used_by n m) = page_bitmap m" "dpm_count (bump_used_by n m) = dpm_count m"
  "dpm_address (bump_used_by n m) = dpm_address m" "aligned_address (bump_used_by n m) = aligned_address m"
  "dpm_size (bump_used_by n m) = dpm_size m" "backing_memory (bump_used_by n m) = backing_memory m"
  "dpm_used (bump_used_by n m) = add64 (dpm_used m) n"
  "dpm_peak (bump_used_by n m) = max (dpm_peak m) (add64 (dpm_used m) n)"
  by (simp_all add: bump_used_by_def Let_def max_def)

lemma page_address_cong: "aligned_address m' = aligned_address m \<Longrightarrow> page_address off m' = page_address off m"
  by (simp add: page_address_def)

text \<open>The same region, with other free pages.\<close>

definition same_region :: "KDynamicPageManager \<Rightarrow> KDynamicPageManager \<Rightarrow> bool" where
  "same_region m m' \<longleftrightarrow> dpm_address m' = dpm_address m \<and> aligned_address m' = aligned_address m \<and>
     dpm_count m' = dpm_count m \<and> dpm_size m' = dpm_size m \<and>
     length (backing_memory m') = length (backing_memory m) \<and>
     capacity (page_bitmap m') = capacity (page_bitmap m)"

lemma same_regionD:
  assumes "same_region m m'"
  shows "all_pages m' = all_pages m" "first_page m' = first_page m" "page_of m' = page_of m"
  using assms by (auto simp: same_region_def all_pages_def first_page_def page_of_def fun_eq_iff)

text \<open>The invariant only depends on the region, the bitmap and the two counters.\<close>

lemma dpm_wf_step:
  assumes "dpm_wf m" "same_region m m'" "pb_wf (page_bitmap m')"
    "free_bits (page_bitmap m') \<subseteq> {first_page m..<first_page m + dpm_count m}"
    "dpm_used m' + card (free_bits (page_bitmap m')) = dpm_count m" "dpm_used m' \<le> dpm_peak m'"
  shows "dpm_wf m'"
  using assms same_regionD [OF assms(2)] by (simp add: dpm_wf_def same_region_def)

text \<open>Taking a set of offsets out of the bitmap.\<close>

lemma dpm_take:
  assumes "dpm_wf m" "S \<subseteq> free_bits (page_bitmap m)" "card S = n" "pb_wf bm"
    "capacity bm = capacity (page_bitmap m)" "free_bits bm = free_bits (page_bitmap m) - S"
  shows "dpm_wf (bump_used_by n (m\<lparr>page_bitmap := bm\<rparr>)) \<and>
    same_region m (bump_used_by n (m\<lparr>page_bitmap := bm\<rparr>)) \<and>
    dpm_used (bump_used_by n (m\<lparr>page_bitmap := bm\<rparr>)) = dpm_used m + n \<and>
    free_page_set (bump_used_by n (m\<lparr>page_bitmap := bm\<rparr>)) = free_page_set m - page_of m ` S"
proof -
  let ?m = "bump_used_by n (m\<lparr>page_bitmap := bm\<rparr>)"
  let ?F = "free_bits (page_bitmap m)"
  have same: "same_region m ?m" using assms(5) by (simp add: same_region_def)
  have fS: "finite S" using assms(2) finite_free_bits finite_subset by blast
  have le: "n \<le> card ?F" using assms(2,3) card_mono finite_free_bits by blast
  have c: "card (free_bits bm) = card ?F - n" unfolding assms(6) using assms(2,3) fS by (simp add: card_Diff_subset)
  have u: "dpm_used m + card ?F = dpm_count m" "dpm_address m + dpm_count m * PAGE_SIZE < W64"
    using assms(1) by (auto simp: dpm_wf_def)
  then have u2: "dpm_used m + n < W64" using le by simp
  then have used: "dpm_used ?m = dpm_used m + n" by simp
  have "dpm_wf ?m"
    using assms(1) same
  proof (rule dpm_wf_step)
    show "free_bits (page_bitmap ?m) \<subseteq> {first_page m..<first_page m + dpm_count m}"
      using assms(1,6) by (auto simp: dpm_wf_def)
    show "dpm_used ?m + card (free_bits (page_bitmap ?m)) = dpm_count m"
      using used c u(1) le by simp
  qed (use assms(4) used in auto)
  moreover have "free_page_set ?m = free_page_set m - page_of m ` S"
    unfolding free_page_set_def same_regionD(3) [OF same]
    using assms(6) by (simp add: image_set_diff [OF inj_page_of [of m UNIV]])
  ultimately show ?thesis using same used by blast
qed

lemma rng_update_wf:
  "dpm_wf m \<Longrightarrow> dpm_wf (m\<lparr>page_bitmap := (page_bitmap m)\<lparr>rng := g\<rparr>\<rparr>) \<and>
     same_region m (m\<lparr>page_bitmap := (page_bitmap m)\<lparr>rng := g\<rparr>\<rparr>) \<and>
     free_page_set (m\<lparr>page_bitmap := (page_bitmap m)\<lparr>rng := g\<rparr>\<rparr>) = free_page_set m"
  by (simp add: dpm_wf_def same_region_def free_page_set_def page_of_def pb_wf_def capacity_def
      free_bits_def first_page_def image_def)

lemma dpm_allocate_ok:
  assumes "dpm_wf m"
  shows "\<exists>r m'. dpm_allocate m = Some (r, m') \<and> dpm_wf m' \<and> same_region m m' \<and>
    (case r of None \<Rightarrow> free_page_set m = {} \<and> free_page_set m' = {} \<and> dpm_used m' = dpm_used m
     | Some p \<Rightarrow> p \<in> free_page_set m \<and> free_page_set m' = free_page_set m - {p} \<and>
         dpm_used m' = dpm_used m + 1)"
proof -
  let ?b = "page_bitmap m"
  have wf: "pb_wf ?b" using assms by (simp add: dpm_wf_def)
  obtain r b1 b2 where b: "find_free_block True ?b = Some (r, b1)" "pb_wf b2" "capacity b2 = capacity ?b"
    "if free_bits ?b = {} then r = -1 \<and> b2 = b1 \<and> free_bits b2 = {}
     else \<exists>off \<in> free_bits ?b. r = int off \<and> pb_clear_bit off b1 = Some b2 \<and> free_bits b2 = free_bits ?b - {off}"
    using bitmap.take_ok [OF wf, of True] unfolding not_True_eq_False simp_thms by blast
  show ?thesis
  proof (cases "free_bits ?b = {}")
    case True
    then have b': "r = -1" "b2 = b1" "free_bits b1 = {}" using b(4) by auto
    let ?m = "m\<lparr>page_bitmap := b1\<rparr>"
    have "same_region m ?m" using b(3) b' by (simp add: same_region_def)
    moreover have "dpm_wf ?m" using assms calculation
      by (rule dpm_wf_step) (use assms b(2) b' True in \<open>auto simp: dpm_wf_def\<close>)
    moreover have "dpm_allocate m = Some (None, ?m)" using b(1) b' by (simp add: dpm_allocate_def)
    moreover have "free_page_set m = {}" "free_page_set ?m = {}" using True b' by (auto simp: free_page_set_def)
    ultimately show ?thesis by auto
  next
    case False
    then obtain off where off: "off \<in> free_bits ?b" "r = int off" "pb_clear_bit off b1 = Some b2"
      "free_bits b2 = free_bits ?b - {off}" using b(4) by auto
    let ?m = "bump_used_by 1 (m\<lparr>page_bitmap := b2\<rparr>)"
    have t: "dpm_wf ?m" "same_region m ?m" "dpm_used ?m = dpm_used m + 1"
      "free_page_set ?m = free_page_set m - page_of m ` {off}"
      using dpm_take [OF assms, of "{off}" 1 b2] off b(2,3) by auto
    have "off < first_page m + dpm_count m" using off(1) assms by (auto simp: dpm_wf_def)
    then have "page_address off ?m = page_of m off"
      using page_of_bound [OF assms] page_address_cong [of ?m m off] by simp
    then have "dpm_allocate m = Some (Some (page_of m off), ?m)"
      using b(1) off by (simp add: dpm_allocate_def Let_def)
    moreover have "page_of m off \<in> free_page_set m" using off(1) by (simp add: free_page_set_def)
    ultimately show ?thesis using t by auto
  qed
qed

text \<open>The addresses of \<open>n\<close> consecutive pages from \<open>p\<close> on.\<close>

definition page_run :: "nat \<Rightarrow> nat \<Rightarrow> nat set" where
  "page_run p n = (\<lambda>i. p + i * PAGE_SIZE) ` {..<n}"

lemma page_run_of: "page_of m ` {off..<off + n} = page_run (page_of m off) n"
proof -
  have "{off..<off + n} = (\<lambda>i. off + i) ` {..<n}"
    by (simp add: image_add_atLeastLessThan lessThan_atLeast0 add.commute)
  then show ?thesis
    unfolding page_run_def page_of_def by (simp add: image_image algebra_simps)
qed

lemma dpm_allocate_count_ok:
  assumes "dpm_wf m" "0 < n" "n < 64"
  shows "\<exists>r m'. dpm_allocate_count n m = Some (r, m') \<and> dpm_wf m' \<and> same_region m m' \<and>
    (case r of None \<Rightarrow> free_page_set m' = free_page_set m \<and> dpm_used m' = dpm_used m
     | Some p \<Rightarrow> page_run p n \<subseteq> free_page_set m \<and>
         free_page_set m' = free_page_set m - page_run p n \<and> dpm_used m' = dpm_used m + n)"
proof -
  let ?b = "page_bitmap m"
  have wf: "pb_wf ?b" using assms(1) by (simp add: dpm_wf_def)
  from find_free_range_outcome [OF wf assms(2,3)] obtain r g where
    f: "find_free_range n ?b = Some (r, ?b\<lparr>rng := g\<rparr>)"
      "if free_ranges n ?b = {} then r = -1 else \<exists>off \<in> free_ranges n ?b. r = int off" by blast
  let ?b1 = "?b\<lparr>rng := g\<rparr>" and ?m1 = "m\<lparr>page_bitmap := ?b\<lparr>rng := g\<rparr>\<rparr>"
  note m1 = rng_update_wf [OF assms(1), of g]
  show ?thesis
  proof (cases "free_ranges n ?b = {}")
    case True
    then have "dpm_allocate_count n m = Some (None, ?m1)" using f by (simp add: dpm_allocate_count_def)
    then show ?thesis using m1 by auto
  next
    case False
    then obtain off where off: "off \<in> free_ranges n ?b" "r = int off" using f(2) by auto
    let ?S = "{off..<off + n}"
    have S: "?S \<subseteq> free_bits ?b" "off mod 64 + n \<le> 64" using off(1) by (auto simp: free_ranges_def)
    have "off + n - 1 \<in> free_bits ?b" using S(1) assms(2) by auto
    then have cap: "off + n \<le> capacity ?b" using free_bits_capacity assms(2) by fastforce
    have b1: "pb_wf ?b1" "free_bits ?b1 = free_bits ?b" "capacity ?b1 = capacity ?b"
      using wf by (simp_all add: pb_wf_def free_bits_def capacity_def)
    have "range_ok off n" using S(2) assms(2,3) by (simp add: range_ok_def)
    from bitmap.del_range_ok [OF b1(1) this] cap b1(2,3) S(1) obtain b2 where
      b2: "clear_range off n ?b1 = Some (True, b2)" "pb_wf b2" "capacity b2 = capacity ?b"
        "free_bits b2 = free_bits ?b - ?S" by auto
    let ?m = "bump_used_by n (m\<lparr>page_bitmap := b2\<rparr>)"
    have t: "dpm_wf ?m" "same_region m ?m" "dpm_used ?m = dpm_used m + n"
      "free_page_set ?m = free_page_set m - page_of m ` ?S"
      using dpm_take [OF assms(1) S(1) _ b2(2-4)] by auto
    have "off < first_page m + dpm_count m" using S(1) assms by (fastforce simp: dpm_wf_def)
    then have "page_address off ?m = page_of m off"
      using page_of_bound [OF assms(1)] page_address_cong [of ?m m off] by simp
    then have "dpm_allocate_count n m = Some (Some (page_of m off), ?m)"
      using f(1) off b2(1) by (simp add: dpm_allocate_count_def Let_def)
    moreover have "page_run (page_of m off) n \<subseteq> free_page_set m"
      using S(1) unfolding page_run_of [symmetric] free_page_set_def by blast
    ultimately show ?thesis using t unfolding page_run_of by auto
  qed
qed

lemma zero_page_length: "zero_page off xs = Some ys \<Longrightarrow> length ys = length xs"
  by (auto simp: zero_page_def guard_panic_Some_iff split: bind_splits if_splits)

lemma dpm_free_ok:
  assumes "dpm_wf m" "p \<in> all_pages m" "p \<notin> free_page_set m"
  shows "\<exists>m' rest. dpm_free p m = Some m' \<and> dpm_wf m' \<and> same_region m m' \<and>
    free_page_set m' = insert p (free_page_set m) \<and> dpm_used m = dpm_used m' + 1 \<and>
    get_pointer p m' = Some (replicate PAGE_SIZE 0 @ rest)"
proof -
  let ?b = "page_bitmap m" and ?k = "first_page m"
  have w: "pb_wf ?b" "aligned_address m \<le> dpm_address m" "PAGE_SIZE dvd dpm_address m - aligned_address m"
    "dpm_address m + dpm_count m * PAGE_SIZE < W64" "dpm_count m * PAGE_SIZE \<le> length (backing_memory m)"
    "length (backing_memory m) < W64" "?k + dpm_count m \<le> capacity ?b"
    "free_bits ?b \<subseteq> {?k..<?k + dpm_count m}" "dpm_used m + card (free_bits ?b) = dpm_count m"
    "dpm_used m \<le> dpm_peak m"
    using assms(1) by (auto simp: dpm_wf_def)
  obtain i where i: "i < dpm_count m" "p = dpm_address m + i * PAGE_SIZE"
    using assms(2) by (auto simp: all_pages_def)
  have a: "dpm_address m = aligned_address m + ?k * PAGE_SIZE" using w(2,3) by (simp add: first_page_def)
  have p: "p = page_of m (?k + i)" unfolding i(2) page_of_def a by (simp add: algebra_simps)
  have in1: "(i + 1) * PAGE_SIZE \<le> dpm_count m * PAGE_SIZE" using i(1) by (intro mult_right_mono) simp_all
  then have ip: "p < W64" "sub64 p (dpm_address m) = i * PAGE_SIZE" "i * PAGE_SIZE + PAGE_SIZE \<le> length (backing_memory m)"
    using w(4,5) i(2) by (simp_all add: algebra_simps)
  have so: "sub64 p (aligned_address m) div PAGE_SIZE = ?k + i"
    using ip(1) unfolding p page_of_def by simp
  let ?stored = "take (i * PAGE_SIZE) (backing_memory m) @ replicate PAGE_SIZE 0 @
    drop (i * PAGE_SIZE + PAGE_SIZE) (backing_memory m)"
  have "add64 (i * PAGE_SIZE) PAGE_SIZE = i * PAGE_SIZE + PAGE_SIZE" using ip(3) w(6) by simp
  then have z: "zero_page (i * PAGE_SIZE) (backing_memory m) = Some ?stored"
    using ip(3) by (simp add: zero_page_def)
  have nf: "?k + i \<notin> free_bits ?b" "?k + i < capacity ?b"
    using assms(3) i(1) w(7) by (auto simp: p free_page_set_def)
  from bitmap.ins_ok [OF w(1) nf(2,1)] obtain bm where bm: "pb_set_bit (?k + i) ?b = Some bm" "pb_wf bm"
    "capacity bm = capacity ?b" "free_bits bm = insert (?k + i) (free_bits ?b)" by blast
  let ?m = "m\<lparr>backing_memory := ?stored, page_bitmap := bm, dpm_used := sub64 (dpm_used m) 1\<rparr>"
  have fr: "dpm_free p m = Some ?m" using ip(2) z so bm(1) by (simp add: dpm_free_def)
  have same: "same_region m ?m" using zero_page_length [OF z] bm(3) by (simp add: same_region_def)
  have "card (insert (?k + i) (free_bits ?b)) \<le> card {?k..<?k + dpm_count m}"
    using w(8) i(1) by (intro card_mono) auto
  then have used: "1 \<le> dpm_used m" "dpm_used m < W64" using nf(1) w(4,9) by simp_all
  then have u: "dpm_used ?m = dpm_used m - 1" by simp
  have "dpm_wf ?m" using assms(1) same
  proof (rule dpm_wf_step)
    show "free_bits (page_bitmap ?m) \<subseteq> {?k..<?k + dpm_count m}" using w(8) i(1) bm(4) by auto
    show "dpm_used ?m + card (free_bits (page_bitmap ?m)) = dpm_count m"
      using u bm(4) nf(1) w(9) used by simp
    show "dpm_used ?m \<le> dpm_peak ?m" using u w(10) by simp
  qed (use bm(2) in simp)
  moreover have "free_page_set ?m = insert p (free_page_set m)"
    unfolding free_page_set_def same_regionD(3) [OF same] using bm(4) p by simp
  moreover have "get_pointer p ?m = Some (replicate PAGE_SIZE 0 @ drop (i * PAGE_SIZE + PAGE_SIZE) (backing_memory m))"
    using ip by (simp add: get_pointer_def min_def)
  ultimately show ?thesis using fr same u used(1) by (intro exI conjI) simp_all
qed

section \<open>Initialization\<close>

text \<open>The bytes of the region that \<open>initialize\<close> sets aside for the bitmap.\<close>

definition reserved_bytes :: "nat \<Rightarrow> nat \<Rightarrow> nat \<Rightarrow> nat" where
  "reserved_bytes memory sz align =
     align_up (overhead_size ((memory mod align + sz) div PAGE_SIZE)) PAGE_SIZE"

lemma free_pages_ok:
  assumes "aligned_address m \<le> dpm_address m" "PAGE_SIZE dvd dpm_address m - aligned_address m"
    "dpm_address m + n * PAGE_SIZE < W64" "pb_wf (page_bitmap m)"
    "first_page m + n \<le> capacity (page_bitmap m)" "j \<le> n"
    "free_bits (page_bitmap m) \<inter> {first_page m + j..<first_page m + n} = {}"
  shows "\<exists>bm. free_pages [j..<n] m = Some (m\<lparr>page_bitmap := bm\<rparr>) \<and> pb_wf bm \<and>
    capacity bm = capacity (page_bitmap m) \<and>
    free_bits bm = free_bits (page_bitmap m) \<union> {first_page m + j..<first_page m + n}"
  using assms
proof (induction "n - j" arbitrary: j m)
  case 0
  then have "[j..<n] = []" by simp
  moreover have "m\<lparr>page_bitmap := page_bitmap m\<rparr> = m" by simp
  ultimately show ?case using 0 by (intro exI [of _ "page_bitmap m"]) auto
next
  case (Suc d)
  let ?k = "first_page m"
  have j: "j < n" "[j..<n] = j # [Suc j..<n]" "d = n - Suc j"
    using Suc.hyps(2) by (simp_all add: upt_conv_Cons)
  have "j * PAGE_SIZE \<le> n * PAGE_SIZE" using j(1) by simp
  moreover have "dpm_address m = aligned_address m + ?k * PAGE_SIZE"
    using Suc.prems(1,2) by (simp add: first_page_def)
  ultimately have off: "sub64 (add64 (dpm_address m) (mul64 j PAGE_SIZE)) (aligned_address m) div PAGE_SIZE = ?k + j"
    using Suc.prems(3) by simp
  have "?k + j < capacity (page_bitmap m)" "?k + j \<notin> free_bits (page_bitmap m)"
    using Suc.prems(5,7) j(1) by auto
  from bitmap.ins_ok [OF Suc.prems(4) this] obtain bm where bm: "pb_set_bit (?k + j) (page_bitmap m) = Some bm"
    "pb_wf bm" "capacity bm = capacity (page_bitmap m)" "free_bits bm = insert (?k + j) (free_bits (page_bitmap m))"
    by blast
  let ?m = "m\<lparr>page_bitmap := bm\<rparr>"
  have fp: "first_page ?m = ?k" by (simp add: first_page_def)
  from Suc.hyps(1) [of "Suc j" ?m] Suc.prems bm j(1,3) fp
  obtain bm' where bm': "free_pages [Suc j..<n] ?m = Some (?m\<lparr>page_bitmap := bm'\<rparr>)" "pb_wf bm'"
    "capacity bm' = capacity bm" "free_bits bm' = free_bits bm \<union> {?k + Suc j..<?k + n}"
    by fastforce
  have "{?k + j..<?k + n} = insert (?k + j) {?k + Suc j..<?k + n}" using j(1) by auto
  then show ?case using bm bm' off unfolding j(2) by (intro exI [of _ bm']) simp
qed

text \<open>Seeding an empty bitmap makes every page of the region free.\<close>

lemma free_all_pages:
  assumes "m = dpm_new\<lparr>backing_memory := stored, dpm_address := a, aligned_address := al,
      dpm_size := c * PAGE_SIZE, dpm_count := c, page_bitmap := bm\<rparr>"
    and "al \<le> a" "PAGE_SIZE dvd a - al" "a + c * PAGE_SIZE < W64" "pb_wf bm" "free_bits bm = {}"
    "(a - al) div PAGE_SIZE + c \<le> capacity bm" "c * PAGE_SIZE \<le> length stored" "length stored < W64"
  shows "\<exists>m'. free_pages [0..<c] m = Some m' \<and> dpm_wf m' \<and> free_page_set m' = all_pages m' \<and>
    dpm_used m' = 0 \<and> dpm_address m' = a \<and> dpm_count m' = c"
proof -
  have m: "dpm_address m = a" "aligned_address m = al" "dpm_size m = c * PAGE_SIZE" "dpm_count m = c"
    "page_bitmap m = bm" "backing_memory m = stored" "dpm_used m = 0" "dpm_peak m = 0"
    by (simp_all add: assms(1) dpm_new_def)
  have fp: "first_page m = (a - al) div PAGE_SIZE" by (simp add: first_page_def m)
  have "\<exists>bm'. free_pages [0..<c] m = Some (m\<lparr>page_bitmap := bm'\<rparr>) \<and> pb_wf bm' \<and>
    capacity bm' = capacity (page_bitmap m) \<and>
    free_bits bm' = free_bits (page_bitmap m) \<union> {first_page m + 0..<first_page m + c}"
    by (rule free_pages_ok) (use assms(2-7) in \<open>simp_all only: m fp Int_empty_left le0\<close>)
  then obtain bm' where bm': "free_pages [0..<c] m = Some (m\<lparr>page_bitmap := bm'\<rparr>)" "pb_wf bm'"
    "capacity bm' = capacity bm" "free_bits bm' = {first_page m..<first_page m + c}"
    using assms(6) m(5) by auto
  let ?m = "m\<lparr>page_bitmap := bm'\<rparr>"
  have fp': "first_page ?m = first_page m" by (simp add: first_page_def)
  have "dpm_wf ?m" unfolding dpm_wf_def fp' using assms(2-9) bm' by (simp add: m fp)
  moreover from this have "free_page_set ?m = all_pages ?m"
    using bm'(4) by (subst all_pages_of) (simp_all add: dpm_wf_def free_page_set_def fp' m)
  ultimately show ?thesis using bm'(1) by (intro exI [of _ ?m] conjI) (simp_all add: m)
qed

lemma sub_back:
  "r \<le> m \<Longrightarrow> k \<le> s \<Longrightarrow> m + s < W64 \<Longrightarrow> sub64 (sub64 (add64 m s) k) (m - r) = r + (s - k)"
  by simp

lemma dpm_initialize_ok:
  assumes "PAGE_SIZE dvd memory" "PAGE_SIZE dvd align" "0 < align" "memory + sz < W64"
    "(memory mod align + sz) div PAGE_SIZE < 64 ^ 4" "reserved_bytes memory sz align + PAGE_SIZE \<le> sz"
  shows "\<exists>m. dpm_initialize memory sz align dpm_new = Some (Inr (), m) \<and> dpm_wf m \<and>
    free_page_set m = all_pages m \<and> dpm_used m = 0 \<and> dpm_address m = memory \<and>
    dpm_count m = (sz - reserved_bytes memory sz align) div PAGE_SIZE"
proof -
  define r k c n where "r = memory mod align" and "k = reserved_bytes memory sz align"
    and "c = (sz - k) div PAGE_SIZE" and "n = (r + (sz - k)) div PAGE_SIZE"
  have r: "r \<le> memory" "PAGE_SIZE dvd r" using assms(1,2) by (simp_all add: r_def dvd_mod)
  have k: "k + PAGE_SIZE \<le> sz" using assms(6) by (simp add: k_def)
  have al: "align_down memory align = memory - r" using assms(4) by (simp add: r_def)
  have ms: "sub64 (add64 memory sz) (memory - r) = r + sz" using assms(4) r(1) by simp
  have as: "sub64 (sub64 (add64 memory sz) k) (memory - r) = r + (sz - k)"
    by (rule sub_back) (use r(1) assms(4) k in simp_all)
  have n': "(r + sz - k) div PAGE_SIZE = n" using k by (simp add: n_def)
  have n: "n = r div PAGE_SIZE + c" unfolding n_def c_def by (rule div_plus_div_distrib_dvd_left [OF r(2)])
  have "n \<le> (r + sz) div PAGE_SIZE" unfolding n_def by (intro div_le_mono) simp
  then have "n < 64 ^ 4" using assms(5) by (simp add: r_def)
  moreover have c: "0 < c" "c * PAGE_SIZE \<le> sz - k" using k by (simp_all add: c_def div_greater_zero_iff)
  ultimately obtain bm where bm: "pb_initialize n pb_new = Some bm" "pb_wf bm" "free_bits bm = {}"
    "capacity bm = 64 * ((n + 63) div 64)"
    using initialize_set [of n pb_new] n by auto
  let ?m = "dpm_new\<lparr>backing_memory := resize_zero sz [], dpm_address := memory, aligned_address := memory - r,
    dpm_size := c * PAGE_SIZE, dpm_count := c, page_bitmap := bm\<rparr>"
  have cap: "n \<le> capacity bm" unfolding bm(4) by presburger
  have "\<exists>m'. free_pages [0..<c] ?m = Some m' \<and> dpm_wf m' \<and> free_page_set m' = all_pages m' \<and>
    dpm_used m' = 0 \<and> dpm_address m' = memory \<and> dpm_count m' = c"
    by (rule free_all_pages [OF refl])
      (use r bm(2,3) cap n c assms(4) in \<open>simp_all add: resize_zero_def\<close>)
  then obtain m' where m': "free_pages [0..<c] ?m = Some m'" "dpm_wf m'" "free_page_set m' = all_pages m'"
    "dpm_used m' = 0" "dpm_address m' = memory" "dpm_count m' = c" by blast
  have "align_down (sub64 sz k) PAGE_SIZE = c * PAGE_SIZE"
    using assms(4) k by (simp add: c_def minus_mod_eq_div_mult)
  moreover have "sz \<noteq> 0" "\<not> sz \<le> k" using k by simp_all
  moreover have "align_up (overhead_size ((r + sz) div PAGE_SIZE)) PAGE_SIZE = k"
    by (simp add: k_def r_def reserved_bytes_def)
  ultimately have "dpm_initialize memory sz align dpm_new = Some (Inr (), m')"
    using assms(3) bm(1) m'(1)
    by (simp add: dpm_initialize_def Let_def al ms as dpm_new_def n')
  then show ?thesis using m' by (auto simp: c_def k_def)
qed

section \<open>The manager in use\<close>

text \<open>
  A client of the manager: it initializes the region, takes pages and runs of pages, and returns
  pages it holds. \<open>own\<close> is the set of the addresses of the pages it holds.
\<close>

inductive dpm_reach :: "nat \<Rightarrow> nat \<Rightarrow> nat \<Rightarrow> KDynamicPageManager \<Rightarrow> nat set \<Rightarrow> bool"
  for memory sz align where
  dpm_init: "dpm_initialize memory sz align dpm_new = Some (Inr (), m) \<Longrightarrow> dpm_reach memory sz align m {}"
| dpm_take_page: "dpm_reach memory sz align m own \<Longrightarrow> dpm_allocate m = Some (r, m') \<Longrightarrow>
    dpm_reach memory sz align m' (case r of None \<Rightarrow> own | Some p \<Rightarrow> insert p own)"
| dpm_take_run: "dpm_reach memory sz align m own \<Longrightarrow> 0 < n \<Longrightarrow> n < 64 \<Longrightarrow>
    dpm_allocate_count n m = Some (r, m') \<Longrightarrow>
    dpm_reach memory sz align m' (case r of None \<Rightarrow> own | Some p \<Rightarrow> own \<union> page_run p n)"
| dpm_return: "dpm_reach memory sz align m own \<Longrightarrow> p \<in> own \<Longrightarrow> dpm_free p m = Some m' \<Longrightarrow>
    dpm_reach memory sz align m' (own - {p})"

definition dpm_splits :: "KDynamicPageManager \<Rightarrow> nat set \<Rightarrow> bool" where
  "dpm_splits m own \<longleftrightarrow> dpm_wf m \<and> free_page_set m \<union> own = all_pages m \<and> free_page_set m \<inter> own = {}"

lemma dpm_reach_splits:
  assumes "dpm_reach memory sz align m own" "PAGE_SIZE dvd memory" "PAGE_SIZE dvd align" "0 < align"
    "memory + sz < W64" "(memory mod align + sz) div PAGE_SIZE < 64 ^ 4"
    "reserved_bytes memory sz align + PAGE_SIZE \<le> sz"
  shows "dpm_splits m own"
  using assms(1)
proof induction
  case (dpm_init m)
  then show ?case using dpm_initialize_ok [OF assms(2-7)] by (auto simp: dpm_splits_def)
next
  case (dpm_take_page m own r m')
  then have w: "dpm_wf m" by (simp add: dpm_splits_def)
  from dpm_allocate_ok [OF w] dpm_take_page show ?case
    by (auto simp: dpm_splits_def same_regionD split: option.splits)
next
  case (dpm_take_run m own n r m')
  then have w: "dpm_wf m" by (simp add: dpm_splits_def)
  from dpm_allocate_count_ok [OF w dpm_take_run.hyps(2,3)] dpm_take_run.hyps(4)
  have "dpm_wf m'" "same_region m m'" "case r of None \<Rightarrow> free_page_set m' = free_page_set m
     | Some p \<Rightarrow> page_run p n \<subseteq> free_page_set m \<and> free_page_set m' = free_page_set m - page_run p n"
    by (auto split: option.splits)
  with dpm_take_run.IH show ?case
    unfolding dpm_splits_def by (cases r) (auto simp: same_regionD)
next
  case (dpm_return m own p m')
  then have w: "dpm_wf m" "p \<in> all_pages m" "p \<notin> free_page_set m" by (auto simp: dpm_splits_def)
  from dpm_free_ok [OF w] dpm_return show ?case
    by (auto simp: dpm_splits_def same_regionD)
qed

lemma dpm_splits_used:
  assumes "dpm_splits m own"
  shows "card own = dpm_used m" "dpm_used m \<le> dpm_peak m"
proof -
  have "own \<subseteq> all_pages m" using assms by (auto simp: dpm_splits_def)
  then have "finite own" by (rule finite_subset) (simp add: all_pages_def)
  then have "card (all_pages m) = card (free_page_set m) + card own"
    using assms unfolding dpm_splits_def by (metis card_Un_disjoint finite_free_page_set)
  then show "card own = dpm_used m" "dpm_used m \<le> dpm_peak m"
    using assms by (auto simp: dpm_splits_def dpm_wf_def card_free_page_set)
qed

text \<open>
  C13: The page manager conserves its pages. In every state that a client reaches from an
  initialization that succeeds, by taking single pages, taking runs of up to 63 pages and
  returning pages it holds, the free pages and the pages it holds partition the region, the used
  count is the number of pages it holds and at most the peak. In such a state \<open>allocate\<close> does not
  panic and fails exactly when everything is handed out, and returning a page it holds does not
  panic and leaves the page zeroed.
\<close>

theorem page_manager_conserves:
  assumes "dpm_reach memory sz align m own" "PAGE_SIZE dvd memory" "PAGE_SIZE dvd align" "0 < align"
    "memory + sz < W64" "(memory mod align + sz) div PAGE_SIZE < 64 ^ 4"
    "reserved_bytes memory sz align + PAGE_SIZE \<le> sz"
  shows "free_page_set m \<union> own = all_pages m \<and> free_page_set m \<inter> own = {} \<and>
    dpm_used m = card own \<and> dpm_used m \<le> dpm_peak m \<and>
    (\<exists>r m'. dpm_allocate m = Some (r, m') \<and> (r = None \<longleftrightarrow> own = all_pages m)) \<and>
    (\<forall>p \<in> own. \<exists>m' rest. dpm_free p m = Some m' \<and> get_pointer p m' = Some (replicate PAGE_SIZE 0 @ rest))"
proof -
  have s: "dpm_splits m own" by (rule dpm_reach_splits [OF assms])
  then have w: "dpm_wf m" "free_page_set m \<union> own = all_pages m" "free_page_set m \<inter> own = {}"
    by (auto simp: dpm_splits_def)
  obtain r m' where r: "dpm_allocate m = Some (r, m')" "r = None \<longleftrightarrow> free_page_set m = {}"
    using dpm_allocate_ok [OF w(1)] by (fastforce split: option.splits)
  moreover have "free_page_set m = {} \<longleftrightarrow> own = all_pages m" using w(2,3) by blast
  moreover have "\<exists>m' rest. dpm_free p m = Some m' \<and> get_pointer p m' = Some (replicate PAGE_SIZE 0 @ rest)"
    if "p \<in> own" for p
    using dpm_free_ok [OF w(1), of p] that w(2,3) by blast
  ultimately show ?thesis using w(2,3) dpm_splits_used [OF s] by (intro conjI) auto
qed

lemma reserved_sample: "reserved_bytes 0x10000 0x4000 4096 = 4096"
  by (simp add: reserved_bytes_def overhead_size_def get_required_depth.simps align_up_def upt_rec)

lemma page_manager_conserves_witness:
  "\<exists>m own. dpm_reach 0x10000 0x4000 4096 m own \<and> own \<noteq> {} \<and> free_page_set m \<union> own = all_pages m \<and>
     dpm_used m = card own"
proof -
  let ?a = "0x10000 :: nat" and ?s = "0x4000 :: nat"
  have h: "PAGE_SIZE dvd ?a" "PAGE_SIZE dvd PAGE_SIZE" "0 < PAGE_SIZE" "?a + ?s < W64"
    "(?a mod PAGE_SIZE + ?s) div PAGE_SIZE < 64 ^ 4" "reserved_bytes ?a ?s PAGE_SIZE + PAGE_SIZE \<le> ?s"
    by (simp_all add: reserved_sample)
  obtain m where m: "dpm_initialize ?a ?s PAGE_SIZE dpm_new = Some (Inr (), m)" "dpm_wf m"
    "free_page_set m = all_pages m" "dpm_count m = (?s - reserved_bytes ?a ?s PAGE_SIZE) div PAGE_SIZE"
    using dpm_initialize_ok [OF h] by blast
  have "free_page_set m \<noteq> {}" using m(3,4) by (auto simp: reserved_sample all_pages_def lessThan_empty_iff)
  then obtain p m' where p: "dpm_allocate m = Some (Some p, m')"
    using dpm_allocate_ok [OF m(2)] by (fastforce split: option.splits)
  have "dpm_reach ?a ?s PAGE_SIZE m' {p}"
    using dpm_take_page [OF dpm_init [OF m(1)] p] by simp
  with page_manager_conserves [OF this h] show ?thesis by blast
qed

text \<open>
  A request for 64 pages hands out pages that are in use. On a manager whose pages are all
  taken, \<open>allocate_count\<close> of 64 succeeds with an address although no page is free, and counts 64
  more used pages: \<open>find_free_range\<close> answers a range, and the refusal of \<open>clear_range\<close> is ignored.
\<close>

theorem allocate_count_64_unsound:
  assumes "dpm_wf m" "free_page_set m = {}" "0 < dpm_count m" "dpm_used m + 64 < W64"
  shows "\<exists>p m'. dpm_allocate_count 64 m = Some (Some p, m') \<and> free_page_set m' = {} \<and>
    dpm_used m' = dpm_used m + 64"
proof -
  let ?b = "page_bitmap m"
  have b: "pb_wf ?b" "0 < capacity ?b" "free_bits ?b = {}"
    using assms by (auto simp: dpm_wf_def free_page_set_def)
  obtain k g where k: "find_free_range 64 ?b = Some (int (64 * k), ?b\<lparr>rng := g\<rparr>)" "64 * k + 64 \<le> capacity ?b"
    using find_free_range_64 [OF b(1,2)] by blast
  let ?b1 = "?b\<lparr>rng := g\<rparr>"
  have b1: "pb_wf ?b1" "capacity ?b1 = capacity ?b" "free_bits ?b1 = {}"
    using b by (simp_all add: pb_wf_def free_bits_def capacity_def)
  have "range_ok (64 * k) 64" by (simp add: range_ok_def)
  from bitmap.del_range_ok [OF b1(1) this] k(2) b1(2,3) obtain b2 where
    b2: "clear_range (64 * k) 64 ?b1 = Some (False, b2)" "free_bits b2 = {}" by auto
  let ?m = "bump_used_by 64 (m\<lparr>page_bitmap := b2\<rparr>)"
  have "nat (int (64 * k)) = 64 * k" by (rule nat_int)
  then have "dpm_allocate_count 64 m = Some (Some (page_address (64 * k) ?m), ?m)"
    using k(1) b2(1) by (simp add: dpm_allocate_count_def Let_def)
  then show ?thesis using assms(4) b2(2) by (intro exI conjI) (auto simp: free_page_set_def)
qed

lemma allocate_count_64_unsound_witness:
  "\<exists>m. dpm_wf m \<and> free_page_set m = {} \<and> (\<exists>p m'. dpm_allocate_count 64 m = Some (Some p, m'))"
proof -
  obtain bm where bm: "pb_initialize 1 pb_new = Some bm" "pb_wf bm" "free_bits bm = {}" "capacity bm = 64"
    using initialize_set [of 1 pb_new] by auto
  let ?m = "dpm_new\<lparr>page_bitmap := bm, dpm_count := 1, dpm_size := PAGE_SIZE, dpm_used := 1, dpm_peak := 1,
    backing_memory := replicate PAGE_SIZE 0\<rparr>"
  have "dpm_wf ?m" using bm by (simp add: dpm_wf_def dpm_new_def first_page_def)
  moreover have "free_page_set ?m = {}" using bm by (simp add: free_page_set_def)
  ultimately show ?thesis using allocate_count_64_unsound [of ?m] by fastforce
qed

end
