(* ===== verification/DynamicSlabHeap.thy ===== *)
theory DynamicSlabHeap
  imports DynamicPageManager
begin

text \<open>
  Slab allocation of kernel objects: src/core/src/hle/kernel/k_dynamic_slab_heap.rs and
  src/core/src/hle/kernel/k_dynamic_resource_manager.rs. A slab heap keeps boxes of one type on a
  free list and grows by a page of the page manager when the list is empty; a resource manager is
  a slab heap with the page manager it may draw on; an update allocator reserves up to two nodes
  before a change of the memory blocks starts. The type of the objects is \<open>'a\<close>, \<open>d\<close> is its
  default value and \<open>esz\<close> its size in bytes. Heap and page manager are shared between managers in
  the code (\<open>Arc\<close>), so every operation takes both and answers both.
\<close>

section \<open>The slab heap\<close>

record 'a KDynamicSlabHeap =
  page_allocator_set :: bool
  free_list :: "'a list"
  slab_capacity :: nat
  slab_used :: nat
  slab_peak :: nat
  slab_address :: nat
  slab_size :: nat

definition slab_new :: "'a KDynamicSlabHeap" where
  "slab_new = \<lparr>page_allocator_set = False, free_list = [], slab_capacity = 0, slab_used = 0,
     slab_peak = 0, slab_address = 0, slab_size = 0\<rparr>"

definition entries_per_page :: "nat \<Rightarrow> nat" where
  "entries_per_page esz = (if esz = 0 then 1 else if esz \<ge> PAGE_SIZE then 1 else PAGE_SIZE div esz)"

text \<open>The loop that draws pages until one is refused.\<close>

fun reserve_pages :: "nat \<Rightarrow> nat \<Rightarrow> KDynamicPageManager \<Rightarrow> (nat \<times> KDynamicPageManager) option" where
  "reserve_pages 0 got m = Some (got, m)"
| "reserve_pages (Suc n) got m = do {
     (r, m) \<leftarrow> dpm_allocate m;
     case r of None \<Rightarrow> Some (got, m) | Some _ \<Rightarrow> reserve_pages n (got + 1) m }"

definition initialize_with_pages ::
  "nat \<Rightarrow> 'a \<Rightarrow> nat \<Rightarrow> KDynamicPageManager \<Rightarrow> 'a KDynamicSlabHeap \<Rightarrow>
   (KDynamicPageManager \<times> 'a KDynamicSlabHeap) option" where
  "initialize_with_pages esz d num_pages m h = do {
     let address = dpm_address m; let sz = dpm_size m;
     (got, m) \<leftarrow> reserve_pages num_pages 0 m;
     let total = mul64 got (entries_per_page esz);
     Some (m, h\<lparr>slab_address := address, slab_size := sz, free_list := free_list h @ replicate total d,
                slab_capacity := total, page_allocator_set := True\<rparr>) }"

definition initialize_with_count :: "'a \<Rightarrow> nat \<Rightarrow> 'a KDynamicSlabHeap \<Rightarrow> 'a KDynamicSlabHeap" where
  "initialize_with_count d num_objects h =
     h\<lparr>free_list := free_list h @ replicate num_objects d, slab_capacity := num_objects\<rparr>"

definition slab_is_in_range :: "nat \<Rightarrow> 'a KDynamicSlabHeap \<Rightarrow> bool" where
  "slab_is_in_range addr h \<longleftrightarrow> addr \<ge> slab_address h \<and> addr < add64 (slab_address h) (slab_size h)"

text \<open>The compare-and-swap loop leaves the maximum of the peak and the new count.\<close>

definition bump_used :: "'a KDynamicSlabHeap \<Rightarrow> 'a KDynamicSlabHeap" where
  "bump_used h = h\<lparr>slab_used := add64 (slab_used h) 1, slab_peak := max (slab_peak h) (add64 (slab_used h) 1)\<rparr>"

definition allocate_with_page_allocator ::
  "nat \<Rightarrow> 'a \<Rightarrow> KDynamicPageManager option \<Rightarrow> 'a KDynamicSlabHeap \<Rightarrow>
   ('a option \<times> KDynamicPageManager option \<times> 'a KDynamicSlabHeap) option" where
  "allocate_with_page_allocator esz d pa h =
     (if free_list h \<noteq> [] then Some (Some d, pa, bump_used (h\<lparr>free_list := butlast (free_list h)\<rparr>))
      else case pa of
        None \<Rightarrow> Some (None, None, h)
      | Some m \<Rightarrow> do {
          (r, m) \<leftarrow> dpm_allocate m;
          case r of
            None \<Rightarrow> Some (None, Some m, h)
          | Some _ \<Rightarrow>
              (let n = entries_per_page esz
               in Some (Some d, Some m,
                    bump_used (h\<lparr>free_list := free_list h @ replicate (n - 1) d,
                                 slab_capacity := add64 (slab_capacity h) n\<rparr>))) })"

text \<open>\<open>allocate\<close> of the heap itself uses the page manager attached at initialization.\<close>

definition slab_allocate ::
  "nat \<Rightarrow> 'a \<Rightarrow> KDynamicPageManager option \<Rightarrow> 'a KDynamicSlabHeap \<Rightarrow>
   ('a option \<times> KDynamicPageManager option \<times> 'a KDynamicSlabHeap) option" where
  "slab_allocate esz d attached h =
     allocate_with_page_allocator esz d (if page_allocator_set h then attached else None) h"

definition slab_free :: "'a \<Rightarrow> 'a KDynamicSlabHeap \<Rightarrow> 'a KDynamicSlabHeap" where
  "slab_free x h = h\<lparr>free_list := free_list h @ [x], slab_used := sub64 (slab_used h) 1\<rparr>"

section \<open>The resource manager\<close>

record 'a KDynamicResourceManager =
  slab_heap :: "'a KDynamicSlabHeap"
  page_allocator :: "KDynamicPageManager option"

definition rm_new :: "'a KDynamicResourceManager" where
  "rm_new = \<lparr>slab_heap = slab_new, page_allocator = Some dpm_new\<rparr>"

definition new_with_resources ::
  "KDynamicPageManager option \<Rightarrow> 'a KDynamicSlabHeap \<Rightarrow> 'a KDynamicResourceManager" where
  "new_with_resources pa h = \<lparr>slab_heap = h, page_allocator = pa\<rparr>"

text \<open>\<open>base\<close> is the value that the process-wide counter of slab regions answers.\<close>

definition rm_initialize ::
  "nat \<Rightarrow> 'a \<Rightarrow> nat \<Rightarrow> nat \<Rightarrow> 'a KDynamicResourceManager \<Rightarrow> ('a KDynamicResourceManager) option" where
  "rm_initialize esz d base cap m = do {
     let n = entries_per_page esz;
     let num_pages = max ((cap + n - 1) div n) 1;
     let region_size = mul64 num_pages PAGE_SIZE;
     pa \<leftarrow> page_allocator m;
     (r, pa) \<leftarrow> dpm_initialize base region_size PAGE_SIZE pa;
     guard_panic (r = Inr ());
     (pa, h) \<leftarrow> initialize_with_pages esz d num_pages pa (slab_heap m);
     Some \<lparr>slab_heap = h, page_allocator = Some pa\<rparr> }"

definition rm_allocate ::
  "nat \<Rightarrow> 'a \<Rightarrow> 'a KDynamicResourceManager \<Rightarrow> ('a option \<times> 'a KDynamicResourceManager) option" where
  "rm_allocate esz d m = do {
     (r, pa, h) \<leftarrow> allocate_with_page_allocator esz d (page_allocator m) (slab_heap m);
     Some (r, \<lparr>slab_heap = h, page_allocator = pa\<rparr>) }"

definition rm_free :: "'a \<Rightarrow> 'a KDynamicResourceManager \<Rightarrow> 'a KDynamicResourceManager" where
  "rm_free x m = m\<lparr>slab_heap := slab_free x (slab_heap m)\<rparr>"

definition rm_used :: "'a KDynamicResourceManager \<Rightarrow> nat" where
  "rm_used m = slab_used (slab_heap m)"

definition rm_count :: "'a KDynamicResourceManager \<Rightarrow> nat" where
  "rm_count m = slab_capacity (slab_heap m)"

definition free_count :: "'a KDynamicResourceManager \<Rightarrow> nat" where
  "free_count m = sub64 (rm_count m) (rm_used m)"

definition rm_is_in_range :: "nat \<Rightarrow> 'a KDynamicResourceManager \<Rightarrow> bool" where
  "rm_is_in_range addr m = slab_is_in_range addr (slab_heap m)"

section \<open>The update allocator\<close>

text \<open>The results of the kernel: module 1 and a description (src/core/src/hle/result.rs).\<close>

definition from_module_description :: "nat \<Rightarrow> nat \<Rightarrow> nat" where
  "from_module_description m desc = (m mod 2 ^ 9) + (desc mod 2 ^ 13) * 2 ^ 9"

definition RESULT_OUT_OF_RESOURCE :: nat where
  "RESULT_OUT_OF_RESOURCE = from_module_description 1 103"

abbreviation MAX_BLOCKS :: nat where "MAX_BLOCKS \<equiv> 2"

record 'a UpdateAllocator =
  ua_blocks :: "'a option list"
  ua_index :: nat

text \<open>The slots from \<open>index\<close> on are filled in order, until the slab refuses a node.\<close>

fun fill_slots ::
  "('s \<Rightarrow> ('a option \<times> 's) option) \<Rightarrow> nat list \<Rightarrow> 'a option list \<Rightarrow> 's \<Rightarrow>
   (bool \<times> 'a option list \<times> 's) option" where
  "fill_slots alloc [] bs s = Some (True, bs, s)"
| "fill_slots alloc (i # is) bs s = do {
     (r, s) \<leftarrow> alloc s;
     case r of None \<Rightarrow> Some (False, bs, s) | Some b \<Rightarrow> fill_slots alloc is (bs[i := Some b]) s }"

definition release_slots :: "('a \<Rightarrow> 's \<Rightarrow> 's) \<Rightarrow> 'a option list \<Rightarrow> 's \<Rightarrow> 's" where
  "release_slots fre bs s = fold (\<lambda>b s. case b of None \<Rightarrow> s | Some x \<Rightarrow> fre x s) bs s"

definition ua_new ::
  "('s \<Rightarrow> ('a option \<times> 's) option) \<Rightarrow> ('a \<Rightarrow> 's \<Rightarrow> 's) \<Rightarrow> nat \<Rightarrow> 's \<Rightarrow> ('a UpdateAllocator \<times> nat \<times> 's) option" where
  "ua_new alloc fre num_blocks s = do {
     guard_panic (num_blocks \<le> MAX_BLOCKS);
     let index = MAX_BLOCKS - num_blocks;
     (ok, bs, s) \<leftarrow> fill_slots alloc [index..<MAX_BLOCKS] (replicate MAX_BLOCKS None) s;
     if ok then Some (\<lparr>ua_blocks = bs, ua_index = index\<rparr>, 0, s)
     else Some (\<lparr>ua_blocks = replicate MAX_BLOCKS None, ua_index = MAX_BLOCKS\<rparr>, RESULT_OUT_OF_RESOURCE,
                release_slots fre (drop index bs) s) }"

definition ua_allocate :: "'a UpdateAllocator \<Rightarrow> ('a \<times> 'a UpdateAllocator) option" where
  "ua_allocate u = do {
     i \<leftarrow> ix MAX_BLOCKS (int (ua_index u));
     b \<leftarrow> ua_blocks u ! i;
     Some (b, u\<lparr>ua_blocks := (ua_blocks u)[i := None], ua_index := i + 1\<rparr>) }"

definition ua_free :: "('a \<Rightarrow> 's \<Rightarrow> 's) \<Rightarrow> 'a \<Rightarrow> 'a UpdateAllocator \<Rightarrow> 's \<Rightarrow> ('a UpdateAllocator \<times> 's) option" where
  "ua_free fre x u s =
     (if ua_index u = 0 then Some (u, fre x s)
      else do {
        i \<leftarrow> ix MAX_BLOCKS (int (ua_index u) - 1);
        Some (u\<lparr>ua_blocks := (ua_blocks u)[i := Some x], ua_index := i\<rparr>, s) })"

definition ua_drop :: "('a \<Rightarrow> 's \<Rightarrow> 's) \<Rightarrow> 'a UpdateAllocator \<Rightarrow> 's \<Rightarrow> 's" where
  "ua_drop fre u s = release_slots fre (ua_blocks u) s"

text \<open>The slots of a reservation: exactly those from the index on hold a node.\<close>

definition slots_from :: "nat \<Rightarrow> 'a option list \<Rightarrow> bool" where
  "slots_from k bs \<longleftrightarrow> k \<le> MAX_BLOCKS \<and> map (\<lambda>b. b \<noteq> None) bs = map (\<lambda>i. k \<le> i) [0..<MAX_BLOCKS]"

lemma upt_two: "[0..<2] = [0, 1]" "[1..<2] = [1 :: nat]" "[Suc 0..<2] = [1]" "replicate 2 x = [x, x]"
  by (simp_all add: numeral_2_eq_2)

lemma slots_from_cases:
  "slots_from k bs \<longleftrightarrow> (k = 2 \<and> bs = [None, None]) \<or> (\<exists>b. k = 1 \<and> bs = [None, Some b]) \<or>
    (\<exists>a b. k = 0 \<and> bs = [Some a, Some b])"
  unfolding slots_from_def upt_two by (auto simp: map_eq_Cons_conv le_Suc_eq numeral_2_eq_2)

text \<open>
  A history of an update allocator. It is well-behaved, with \<open>a\<close> nodes at hand and \<open>h\<close> nodes in use
  outside it, if it takes a node only while there is one at hand and gives back only nodes in use.
\<close>

datatype 'a ua_op = Take | Give 'a

fun ua_run ::
  "('a \<Rightarrow> 's \<Rightarrow> 's) \<Rightarrow> 'a ua_op list \<Rightarrow> 'a UpdateAllocator \<Rightarrow> 's \<Rightarrow> ('a UpdateAllocator \<times> 's) option" where
  "ua_run fre [] u s = Some (u, s)"
| "ua_run fre (Take # ops) u s = do { (_, u) \<leftarrow> ua_allocate u; ua_run fre ops u s }"
| "ua_run fre (Give x # ops) u s = do { (u, s) \<leftarrow> ua_free fre x u s; ua_run fre ops u s }"

fun ops_ok :: "nat \<Rightarrow> nat \<Rightarrow> 'a ua_op list \<Rightarrow> bool" where
  "ops_ok a h [] = True"
| "ops_ok a h (Take # ops) = (0 < a \<and> ops_ok (a - 1) (h + 1) ops)"
| "ops_ok a h (Give x # ops) = (0 < h \<and> ops_ok (min MAX_BLOCKS (a + 1)) (h - 1) ops)"

fun in_use :: "nat \<Rightarrow> 'a ua_op list \<Rightarrow> nat" where
  "in_use h [] = h"
| "in_use h (Take # ops) = in_use (h + 1) ops"
| "in_use h (Give x # ops) = in_use (h - 1) ops"

section \<open>What a client relies on\<close>

text \<open>
  The interface of a source of nodes: an allocation that may be refused, a release, and the number
  of nodes in use. The update allocator, the page groups and the memory blocks are its clients.
\<close>

locale node_source =
  fixes inv :: "'s \<Rightarrow> bool" and used :: "'s \<Rightarrow> nat"
    and alloc :: "'s \<Rightarrow> ('a option \<times> 's) option" and fre :: "'a \<Rightarrow> 's \<Rightarrow> 's"
  assumes alloc_ok: "inv s \<Longrightarrow> \<exists>r s'. alloc s = Some (r, s') \<and> inv s' \<and>
      used s' = (case r of None \<Rightarrow> used s | Some _ \<Rightarrow> used s + 1)"
    and free_ok: "inv s \<Longrightarrow> 0 < used s \<Longrightarrow> inv (fre x s) \<and> used s = used (fre x s) + 1"
begin

lemma release_slots_ok:
  assumes "inv s" "length (filter (\<lambda>b. b \<noteq> None) bs) \<le> used s"
  shows "inv (release_slots fre bs s) \<and>
    used (release_slots fre bs s) + length (filter (\<lambda>b. b \<noteq> None) bs) = used s"
  using assms
proof (induction bs arbitrary: s)
  case (Cons b bs)
  then show ?case
    using free_ok [of s "the b"] Cons.IH [of "fre (the b) s"] Cons.IH [of s]
    by (cases b) (auto simp: release_slots_def)
qed (simp add: release_slots_def)

lemma slots_from_count: "slots_from k bs \<Longrightarrow> length (filter (\<lambda>b. b \<noteq> None) bs) = MAX_BLOCKS - k"
  by (auto simp: slots_from_cases)

lemma fill_slot:
  assumes "alloc s = Some (r, s')"
  shows "fill_slots alloc (i # is) bs s =
    (case r of None \<Rightarrow> Some (False, bs, s') | Some b \<Rightarrow> fill_slots alloc is (bs[i := Some b]) s')"
  using assms by simp

lemma ua_new_ok:
  assumes "inv s" "n \<le> MAX_BLOCKS"
  shows "\<exists>u rc s'. ua_new alloc fre n s = Some (u, rc, s') \<and> inv s' \<and>
    (rc = 0 \<and> ua_index u = MAX_BLOCKS - n \<and> slots_from (ua_index u) (ua_blocks u) \<and> used s' = used s + n \<or>
     rc = RESULT_OUT_OF_RESOURCE \<and> slots_from MAX_BLOCKS (ua_blocks u) \<and> ua_index u = MAX_BLOCKS \<and> used s' = used s)"
proof -
  obtain r1 s1 where a1: "alloc s = Some (r1, s1)" "inv s1"
    "used s1 = (case r1 of None \<Rightarrow> used s | Some _ \<Rightarrow> used s + 1)" using alloc_ok [OF assms(1)] by blast
  obtain r2 s2 where a2: "alloc s1 = Some (r2, s2)" "inv s2"
    "used s2 = (case r2 of None \<Rightarrow> used s1 | Some _ \<Rightarrow> used s1 + 1)" using alloc_ok [OF a1(2)] by blast
  have f: "r1 = Some a \<Longrightarrow> r2 = None \<Longrightarrow> inv (fre a s2) \<and> used (fre a s2) = used s" for a
    using free_ok [OF a2(2), of a] a1(3) a2(3) by simp
  note new = ua_new_def Let_def upt_two fill_slot [OF a1(1)] fill_slot [OF a2(1)] slots_from_cases release_slots_def
  consider "n = 0" | "n = 1" | "n = 2" using assms(2) by linarith
  then show ?thesis
  proof cases
    case 1
    then show ?thesis using assms(1) by (simp add: new)
  next
    case 2
    then show ?thesis using a1 by (cases r1) (simp_all add: new)
  next
    case 3
    then show ?thesis using a1 a2 f by (cases r1; cases r2) (simp_all add: new)
  qed
qed

lemma ua_step:
  assumes "slots_from (ua_index u) (ua_blocks u)" "inv s" "used s = (MAX_BLOCKS - ua_index u) + h"
  shows "ua_index u < MAX_BLOCKS \<Longrightarrow> \<exists>b u'. ua_allocate u = Some (b, u') \<and>
      slots_from (ua_index u') (ua_blocks u') \<and> ua_index u' = ua_index u + 1"
    and "0 < h \<Longrightarrow> \<exists>u' s'. ua_free fre x u s = Some (u', s') \<and> slots_from (ua_index u') (ua_blocks u') \<and>
      inv s' \<and> MAX_BLOCKS - ua_index u' = min MAX_BLOCKS (MAX_BLOCKS - ua_index u + 1) \<and>
      used s' = (MAX_BLOCKS - ua_index u') + (h - 1)"
proof -
  from assms(1) consider "ua_index u = 2" "ua_blocks u = [None, None]"
    | b where "ua_index u = 1" "ua_blocks u = [None, Some b]"
    | a b where "ua_index u = 0" "ua_blocks u = [Some a, Some b]" by (auto simp: slots_from_cases)
  note cases = this
  show "\<exists>b u'. ua_allocate u = Some (b, u') \<and> slots_from (ua_index u') (ua_blocks u') \<and>
      ua_index u' = ua_index u + 1" if "ua_index u < MAX_BLOCKS"
    using cases by cases (use that in \<open>simp_all add: ua_allocate_def ix_def slots_from_cases\<close>)
  show "\<exists>u' s'. ua_free fre x u s = Some (u', s') \<and> slots_from (ua_index u') (ua_blocks u') \<and> inv s' \<and>
      MAX_BLOCKS - ua_index u' = min MAX_BLOCKS (MAX_BLOCKS - ua_index u + 1) \<and>
      used s' = (MAX_BLOCKS - ua_index u') + (h - 1)" if "0 < h"
    using cases
    by cases (use that assms(2,3) free_ok [OF assms(2), of x] in
      \<open>auto simp: ua_free_def ix_def slots_from_cases numeral_2_eq_2\<close>)
qed

text \<open>A well-behaved history never runs out of nodes, and dropping the allocator settles the count.\<close>

lemma ua_run_ok:
  assumes "slots_from (ua_index u) (ua_blocks u)" "inv s" "used s = (MAX_BLOCKS - ua_index u) + h"
    "ops_ok (MAX_BLOCKS - ua_index u) h ops"
  shows "\<exists>u' s'. ua_run fre ops u s = Some (u', s') \<and> inv (ua_drop fre u' s') \<and>
    used (ua_drop fre u' s') = in_use h ops"
  using assms
proof (induction ops arbitrary: u s h)
  case Nil
  then show ?case
    using release_slots_ok [of s "ua_blocks u"] slots_from_count [of "ua_index u" "ua_blocks u"]
    by (simp add: ua_drop_def)
next
  case (Cons op ops)
  show ?case
  proof (cases op)
    case Take
    then have lt: "ua_index u < MAX_BLOCKS" using Cons.prems(4) by simp
    obtain b u' where u': "ua_allocate u = Some (b, u')" "slots_from (ua_index u') (ua_blocks u')"
      "ua_index u' = ua_index u + 1" using ua_step(1) [OF Cons.prems(1-3) lt] by blast
    have "used s = (MAX_BLOCKS - ua_index u') + (h + 1)" using Cons.prems(3) u'(3) lt by simp
    from Cons.IH [OF u'(2) Cons.prems(2) this] Cons.prems(4) Take u' lt show ?thesis by simp
  next
    case (Give x)
    then have h: "0 < h" using Cons.prems(4) by simp
    obtain u' s' where u': "ua_free fre x u s = Some (u', s')" "slots_from (ua_index u') (ua_blocks u')"
      "inv s'" "MAX_BLOCKS - ua_index u' = min MAX_BLOCKS (MAX_BLOCKS - ua_index u + 1)"
      "used s' = (MAX_BLOCKS - ua_index u') + (h - 1)" using ua_step(2) [OF Cons.prems(1-3) h] by blast
    from Cons.IH [OF u'(2,3,5)] Cons.prems(4) Give u'(1,4) show ?thesis by simp
  qed
qed

end

section \<open>The resource manager as a source of nodes\<close>

text \<open>
  The invariant: the nodes are on the free list or in use, the peak is an upper bound, and growing
  by every page that is still free would not overflow the count.
\<close>

definition rm_wf :: "nat \<Rightarrow> 'a KDynamicResourceManager \<Rightarrow> bool" where
  "rm_wf esz m \<longleftrightarrow> slab_used (slab_heap m) + length (free_list (slab_heap m)) = slab_capacity (slab_heap m) \<and>
     slab_used (slab_heap m) \<le> slab_peak (slab_heap m) \<and>
     (case page_allocator m of
        None \<Rightarrow> slab_capacity (slab_heap m) < W64
      | Some p \<Rightarrow> dpm_wf p \<and>
          slab_capacity (slab_heap m) + card (free_page_set p) * entries_per_page esz < W64)"

lemma entries_pos: "0 < entries_per_page esz"
  by (simp add: entries_per_page_def div_greater_zero_iff)

lemma rm_wf_bound: "rm_wf esz m \<Longrightarrow> slab_capacity (slab_heap m) < W64"
  by (auto simp: rm_wf_def split: option.splits)

text \<open>Allocation fails only when the list is empty and no page can be had.\<close>

lemma rm_allocate_ok:
  assumes "rm_wf esz m"
  shows "\<exists>r m'. rm_allocate esz d m = Some (r, m') \<and> rm_wf esz m' \<and>
    (case r of
       None \<Rightarrow> m' = m\<lparr>page_allocator := page_allocator m'\<rparr> \<and> free_list (slab_heap m) = [] \<and>
         (\<forall>p. page_allocator m = Some p \<longrightarrow> free_page_set p = {})
     | Some x \<Rightarrow> x = d \<and> rm_used m' = rm_used m + 1)"
proof (cases "free_list (slab_heap m) = []")
  case False
  let ?h = "slab_heap m"
  let ?h' = "bump_used (?h\<lparr>free_list := butlast (free_list ?h)\<rparr>)"
  have run: "rm_allocate esz d m = Some (Some d, m\<lparr>slab_heap := ?h'\<rparr>)"
    using False by (simp add: rm_allocate_def allocate_with_page_allocator_def)
  have w: "slab_used ?h + length (free_list ?h) = slab_capacity ?h" "slab_capacity ?h < W64"
    using assms rm_wf_bound [OF assms] by (auto simp: rm_wf_def)
  have l: "0 < length (free_list ?h)" using False by simp
  then have "slab_used ?h + 1 < W64" using w by linarith
  then have u: "slab_used ?h' = slab_used ?h + 1" by (simp add: bump_used_def)
  obtain xs x where x: "free_list ?h = xs @ [x]" using False by (metis rev_exhaust)
  have "rm_wf esz (m\<lparr>slab_heap := ?h'\<rparr>)"
    using assms u w(1) x unfolding rm_wf_def
    by (simp add: bump_used_def split: option.splits)
  then show ?thesis using run u by (intro exI conjI) (auto simp: rm_used_def)
next
  case True
  let ?h = "slab_heap m"
  show ?thesis
  proof (cases "page_allocator m")
    case None
    then have "rm_allocate esz d m = Some (None, m)"
      using True by (simp add: rm_allocate_def allocate_with_page_allocator_def)
    then show ?thesis using assms True None by auto
  next
    case (Some p)
    then have wp: "dpm_wf p" using assms by (simp add: rm_wf_def)
    obtain r p' where p': "dpm_allocate p = Some (r, p')" "dpm_wf p'"
      "case r of None \<Rightarrow> free_page_set p = {} \<and> free_page_set p' = {} \<and> dpm_used p' = dpm_used p
       | Some a \<Rightarrow> a \<in> free_page_set p \<and> free_page_set p' = free_page_set p - {a} \<and> dpm_used p' = dpm_used p + 1"
      using dpm_allocate_ok [OF wp] by blast
    show ?thesis
    proof (cases r)
      case None
      then have "rm_allocate esz d m = Some (None, m\<lparr>page_allocator := Some p'\<rparr>)"
        using True Some p'(1) by (simp add: rm_allocate_def allocate_with_page_allocator_def)
      moreover have "rm_wf esz (m\<lparr>page_allocator := Some p'\<rparr>)"
        using assms None Some p'(2,3) by (simp add: rm_wf_def)
      ultimately show ?thesis using True None Some p'(3) by auto
    next
      case (Some a)
      let ?n = "entries_per_page esz"
      let ?h' = "bump_used (?h\<lparr>free_list := free_list ?h @ replicate (?n - 1) d,
          slab_capacity := add64 (slab_capacity ?h) ?n\<rparr>)"
      have run: "rm_allocate esz d m = Some (Some d, \<lparr>slab_heap = ?h', page_allocator = Some p'\<rparr>)"
        using True \<open>page_allocator m = Some p\<close> Some p'(1)
        by (simp add: rm_allocate_def allocate_with_page_allocator_def Let_def)
      have a: "a \<in> free_page_set p" "free_page_set p' = free_page_set p - {a}" using p'(3) Some by auto
      then have c: "card (free_page_set p) = card (free_page_set p') + 1"
        by (metis Suc_eq_plus1 card.remove finite_free_page_set)
      have w: "slab_used ?h = slab_capacity ?h"
        "slab_capacity ?h + card (free_page_set p) * ?n < W64" "slab_used ?h \<le> slab_peak ?h"
        using assms True \<open>page_allocator m = Some p\<close> by (auto simp: rm_wf_def)
      then have b: "slab_capacity ?h + ?n + card (free_page_set p') * ?n < W64" using c by simp
      then have "slab_capacity ?h + ?n < W64" by linarith
      then have f: "add64 (slab_capacity ?h) ?n = slab_capacity ?h + ?n"
        "add64 (slab_used ?h) 1 = slab_used ?h + 1"
        using entries_pos [of esz] w(1) by simp_all
      have "rm_wf esz \<lparr>slab_heap = ?h', page_allocator = Some p'\<rparr>"
        using f b w entries_pos [of esz] p'(2) True by (simp add: rm_wf_def bump_used_def)
      then show ?thesis using run f by (intro exI conjI) (auto simp: rm_used_def bump_used_def)
    qed
  qed
qed

lemma rm_free_ok:
  assumes "rm_wf esz m" "0 < rm_used m"
  shows "rm_wf esz (rm_free x m) \<and> rm_used m = rm_used (rm_free x m) + 1"
  using assms rm_wf_bound [OF assms(1)]
  by (auto simp: rm_wf_def rm_free_def slab_free_def rm_used_def split: option.splits)

interpretation slab: node_source "rm_wf esz" rm_used "rm_allocate esz d" rm_free for esz d
proof unfold_locales
  fix m :: "'a KDynamicResourceManager" assume w: "rm_wf esz m"
  obtain r m' where "rm_allocate esz d m = Some (r, m')" "rm_wf esz m'" "case r of
       None \<Rightarrow> m' = m\<lparr>page_allocator := page_allocator m'\<rparr> \<and> free_list (slab_heap m) = [] \<and>
         (\<forall>p. page_allocator m = Some p \<longrightarrow> free_page_set p = {})
     | Some x \<Rightarrow> x = d \<and> rm_used m' = rm_used m + 1"
    using rm_allocate_ok [OF w] by blast
  moreover have "r = None \<Longrightarrow> rm_used m' = rm_used m" using calculation(3)
    by (cases r) (auto simp: rm_used_def dest: arg_cong [where f = slab_heap])
  ultimately show "\<exists>r m'. rm_allocate esz d m = Some (r, m') \<and> rm_wf esz m' \<and>
      rm_used m' = (case r of None \<Rightarrow> rm_used m | Some _ \<Rightarrow> rm_used m + 1)"
    by (intro exI [of _ r] exI [of _ m']) (auto split: option.splits)
qed (rule rm_free_ok)

text \<open>
  C14: The update allocator reserves all or nothing and its count is exact. On a consistent resource
  manager \<open>new\<close> of at most two nodes never panics. It either reports out of resource and has the
  used count where it was, or succeeds, and then no history that takes at most the nodes at hand
  and gives back nodes in use reaches an empty slot or touches the slab for a new node; when the
  allocator is dropped afterwards the used count is exactly the nodes in use outside it.
\<close>

theorem update_allocator_accounts:
  assumes "rm_wf esz m" "n \<le> 2"
  shows "\<exists>u rc m'. ua_new (rm_allocate esz d) rm_free n m = Some (u, rc, m') \<and> rm_wf esz m' \<and>
    (rc = RESULT_OUT_OF_RESOURCE \<and> rm_used m' = rm_used m \<or>
     rc = 0 \<and> rm_used m' = rm_used m + n \<and>
     (\<forall>ops. ops_ok n (rm_used m) ops \<longrightarrow>
        (\<exists>u' m''. ua_run rm_free ops u m' = Some (u', m'') \<and> rm_wf esz (ua_drop rm_free u' m'') \<and>
           rm_used (ua_drop rm_free u' m'') = in_use (rm_used m) ops)))"
proof -
  obtain u rc m' where u: "ua_new (rm_allocate esz d) rm_free n m = Some (u, rc, m')" "rm_wf esz m'"
    "rc = 0 \<and> ua_index u = MAX_BLOCKS - n \<and> slots_from (ua_index u) (ua_blocks u) \<and> rm_used m' = rm_used m + n \<or>
     rc = RESULT_OUT_OF_RESOURCE \<and> slots_from MAX_BLOCKS (ua_blocks u) \<and> ua_index u = MAX_BLOCKS \<and> rm_used m' = rm_used m"
    using slab.ua_new_ok [OF assms] by blast
  show ?thesis
  proof (cases "rc = 0")
    case False
    then show ?thesis using u by auto
  next
    case True
    moreover have "RESULT_OUT_OF_RESOURCE \<noteq> 0" by (simp add: RESULT_OUT_OF_RESOURCE_def from_module_description_def)
    ultimately have i: "ua_index u = 2 - n" "slots_from (ua_index u) (ua_blocks u)" "rm_used m' = rm_used m + n"
      using u(3) by auto
    have k: "MAX_BLOCKS - ua_index u = n" using i(1) assms(2) by simp
    then have "rm_used m' = (MAX_BLOCKS - ua_index u) + rm_used m" using i(3) by simp
    from slab.ua_run_ok [OF i(2) u(2) this] k True u(1,2) i(3) show ?thesis by auto
  qed
qed

lemma update_allocator_accounts_witness:
  "\<exists>u m' u' m''. ua_new (rm_allocate 64 (0 :: nat)) rm_free 2
      (new_with_resources None (initialize_with_count 0 3 slab_new)) = Some (u, 0, m') \<and>
     ua_run rm_free [Take, Take, Give 7] u m' = Some (u', m'') \<and> rm_used (ua_drop rm_free u' m'') = 1"
proof -
  let ?m = "new_with_resources None (initialize_with_count (0 :: nat) 3 slab_new)"
  have w: "rm_wf 64 ?m"
    by (simp add: rm_wf_def new_with_resources_def initialize_with_count_def slab_new_def)
  have s: "ua_new (rm_allocate 64 (0 :: nat)) rm_free 2 ?m =
      Some (\<lparr>ua_blocks = [Some 0, Some 0], ua_index = 0\<rparr>, 0,
        \<lparr>slab_heap = (initialize_with_count 0 3 slab_new)\<lparr>free_list := [0], slab_used := 2, slab_peak := 2\<rparr>,
         page_allocator = None\<rparr>)"
    by (simp add: ua_new_def Let_def upt_two rm_allocate_def allocate_with_page_allocator_def
        new_with_resources_def initialize_with_count_def slab_new_def bump_used_def numeral_3_eq_3 max_def)
  let ?ops = "[Take, Take, Give (7 :: nat)]"
  have o: "ops_ok 2 (rm_used ?m) ?ops" by simp
  have e: "in_use (rm_used ?m) ?ops = 1"
    by (simp add: rm_used_def new_with_resources_def initialize_with_count_def slab_new_def)
  obtain u rc m' where u: "ua_new (rm_allocate 64 0) rm_free 2 ?m = Some (u, rc, m')"
    "rc = RESULT_OUT_OF_RESOURCE \<or> (\<exists>u' m''. ua_run rm_free ?ops u m' = Some (u', m'') \<and>
       rm_used (ua_drop rm_free u' m'') = in_use (rm_used ?m) ?ops)"
    using update_allocator_accounts [OF w order_refl, of 0] o by blast
  moreover have "rc = 0" using u(1) s by simp
  moreover have "RESULT_OUT_OF_RESOURCE \<noteq> 0" by (simp add: RESULT_OUT_OF_RESOURCE_def from_module_description_def)
  ultimately show ?thesis unfolding e by metis
qed

section \<open>How many entries an initialization provides\<close>

lemma overhead_fold:
  fixes f :: "nat \<Rightarrow> nat \<times> nat \<Rightarrow> nat \<times> nat"
  assumes "\<And>x r b. f x (r, b) = ((r + 63) div 64, b + (r + 63) div 64)"
  shows "b \<le> snd (fold f xs (r, b)) \<and> snd (fold f xs (r, b)) \<le> b + length xs * r"
proof (induction xs arbitrary: r b)
  case (Cons x xs)
  let ?q = "(r + 63) div 64"
  have q: "?q \<le> r" by linarith
  then have l: "length xs * ?q \<le> length xs * r" by (rule mult_le_mono2)
  note ih = Cons.IH [of "b + ?q" ?q]
  have e: "fold f (x # xs) (r, b) = fold f xs (?q, b + ?q)" "length (x # xs) * r = r + length xs * r"
    by (simp_all add: assms)
  show ?case
    unfolding e using conjunct1 [OF ih] conjunct2 [OF ih] q l by (intro conjI; linarith)
qed simp

lemma overhead_size_bounds:
  assumes "0 < n" "n < 64 ^ 4"
  shows "8 \<le> overhead_size n" "overhead_size n \<le> 32 * n"
proof -
  let ?d = "get_required_depth n"
  have d: "1 \<le> ?d" "?d \<le> 4" using required_depth_pos [of n] required_depth_le [of n 3] assms(2) by simp_all
  define f :: "nat \<Rightarrow> nat \<times> nat \<Rightarrow> nat \<times> nat"
    where "f = (\<lambda>_ (rs, bits). let rs = (rs + 64 - 1) div 64 in (rs, bits + rs))"
  have f: "f x (r, b) = ((r + 63) div 64, b + (r + 63) div 64)" for x r b by (simp add: f_def Let_def add.commute)
  have o: "overhead_size n = snd (fold f (rev [0..<?d]) (n, 0)) * 8" by (simp add: overhead_size_def f_def)
  have "snd (fold f (rev [0..<?d]) (n, 0)) \<le> ?d * n"
    using overhead_fold [of f 0 "rev [0..<?d]" n, OF f] by simp
  also have "\<dots> \<le> 4 * n" using d(2) by simp
  finally show "overhead_size n \<le> 32 * n" by (simp add: o)
  obtain k where "?d = Suc k" using d(1) by (cases ?d) simp_all
  then have "(n + 63) div 64 \<le> snd (fold f (rev [0..<?d]) (n, 0))"
    using overhead_fold [of f "(n + 63) div 64" "rev [0..<k]" "(n + 63) div 64", OF f] by (simp add: f)
  moreover have "1 \<le> (n + 63) div 64" using assms(1) by simp
  ultimately show "8 \<le> overhead_size n" by (simp add: o)
qed

text \<open>At least one page of a region goes to the bitmap of its page manager.\<close>

lemma reserved_bytes_pages:
  assumes "0 < n" "n < 64 ^ 4" "PAGE_SIZE dvd a"
  shows "\<exists>k. reserved_bytes a (n * PAGE_SIZE) PAGE_SIZE = k * PAGE_SIZE \<and> 1 \<le> k"
proof -
  have b: "8 \<le> overhead_size n" "overhead_size n \<le> 32 * n" using overhead_size_bounds [OF assms(1,2)] .
  have "reserved_bytes a (n * PAGE_SIZE) PAGE_SIZE = (overhead_size n + PAGE_SIZE - 1) div PAGE_SIZE * PAGE_SIZE"
    unfolding reserved_bytes_def using assms(2,3) b by (subst align_up_eq) simp_all
  moreover have "1 \<le> (overhead_size n + PAGE_SIZE - 1) div PAGE_SIZE" using b(1) by simp
  ultimately show ?thesis by blast
qed

lemma reserve_pages_ok:
  assumes "dpm_wf p"
  shows "\<exists>p'. reserve_pages n got p = Some (got + min n (card (free_page_set p)), p') \<and> dpm_wf p' \<and>
    dpm_address p' = dpm_address p \<and> dpm_size p' = dpm_size p \<and>
    card (free_page_set p') = card (free_page_set p) - n"
  using assms
proof (induction n arbitrary: got p)
  case (Suc n)
  obtain r p1 where p1: "dpm_allocate p = Some (r, p1)" "dpm_wf p1" "same_region p p1"
    "case r of None \<Rightarrow> free_page_set p = {} \<and> free_page_set p1 = {} \<and> dpm_used p1 = dpm_used p
     | Some a \<Rightarrow> a \<in> free_page_set p \<and> free_page_set p1 = free_page_set p - {a} \<and> dpm_used p1 = dpm_used p + 1"
    using dpm_allocate_ok [OF Suc.prems] by blast
  show ?case
  proof (cases r)
    case None
    then show ?thesis using p1 by (simp add: same_region_def)
  next
    case (Some a)
    then have a: "a \<in> free_page_set p" "free_page_set p1 = free_page_set p - {a}" using p1(4) by auto
    then have "card (free_page_set p) = card (free_page_set p1) + 1"
      by (metis Suc_eq_plus1 card.remove finite_free_page_set)
    with Suc.IH [OF p1(2), of "got + 1"] p1(1,3) Some show ?thesis by (simp add: same_region_def)
  qed
qed simp

text \<open>The bitmap of the page manager takes \<open>k\<close> of the \<open>n\<close> pages.\<close>

lemma rm_initialize_panics:
  assumes "PAGE_SIZE dvd base" "n = max ((cap + entries_per_page esz - 1) div entries_per_page esz) 1"
    "n < 64 ^ 4" "base + n * PAGE_SIZE < W64" "reserved_bytes base (n * PAGE_SIZE) PAGE_SIZE = k * PAGE_SIZE"
    "n \<le> k"
  shows "rm_initialize esz d base cap rm_new = None"
proof -
  let ?e = "entries_per_page esz" and ?sz = "n * PAGE_SIZE"
  have n: "0 < n" using assms(2) by simp
  have z: "mul64 n PAGE_SIZE = ?sz" "?sz \<noteq> 0" using assms(4) n by simp_all
  have np: "max ((cap + ?e - 1) div ?e) 1 = n" using assms(2) by simp
  note init = rm_initialize_def Let_def rm_new_def np [simplified] z(1)
  have bm: "base mod PAGE_SIZE = 0" using assms(1) by simp
  have "align_down base PAGE_SIZE = base" "sub64 (add64 base ?sz) base = ?sz"
    using assms(4) bm by simp_all
  moreover have "align_up (overhead_size n) PAGE_SIZE = k * PAGE_SIZE"
    using assms(5) bm by (simp add: reserved_bytes_def)
  moreover have "?sz \<le> k * PAGE_SIZE" using assms(6) by simp
  ultimately have "\<exists>p. dpm_initialize base ?sz PAGE_SIZE dpm_new = Some (Inl (), p)"
    using z(2) by (simp add: dpm_initialize_def Let_def)
  then show ?thesis by (auto simp: init)
qed

lemma rm_initialize_rest:
  assumes "PAGE_SIZE dvd base" "n = max ((cap + entries_per_page esz - 1) div entries_per_page esz) 1"
    "n < 64 ^ 4" "base + n * PAGE_SIZE < W64" "reserved_bytes base (n * PAGE_SIZE) PAGE_SIZE = k * PAGE_SIZE"
    "k < n"
  shows "\<exists>m. rm_initialize esz d base cap rm_new = Some m \<and> rm_count m = (n - k) * entries_per_page esz \<and> rm_used m = 0"
proof -
  let ?e = "entries_per_page esz" and ?sz = "n * PAGE_SIZE"
  have n: "0 < n" using assms(2) by simp
  have z: "mul64 n PAGE_SIZE = ?sz" "?sz \<noteq> 0" using assms(4) n by simp_all
  have np: "max ((cap + ?e - 1) div ?e) 1 = n" using assms(2) by simp
  note init = rm_initialize_def Let_def rm_new_def np [simplified] z(1)
  have bm: "base mod PAGE_SIZE = 0" using assms(1) by simp
  have e: "0 < ?e" "?e \<le> PAGE_SIZE" using entries_pos [of esz] by (auto simp: entries_per_page_def)
  have "(k + 1) * PAGE_SIZE \<le> ?sz" using assms(6) by (intro mult_right_mono) simp_all
  then have r: "reserved_bytes base ?sz PAGE_SIZE + PAGE_SIZE \<le> ?sz" by (simp add: assms(5))
  have "(base mod PAGE_SIZE + ?sz) div PAGE_SIZE < 64 ^ 4" using bm assms(3) by simp
  from dpm_initialize_ok [OF assms(1) dvd_refl _ assms(4) this r] obtain p where
    p: "dpm_initialize base ?sz PAGE_SIZE dpm_new = Some (Inr (), p)" "dpm_wf p"
      "free_page_set p = all_pages p" "dpm_count p = (?sz - k * PAGE_SIZE) div PAGE_SIZE"
    unfolding assms(5) by auto
  have "?sz - k * PAGE_SIZE = (n - k) * PAGE_SIZE" by (simp add: diff_mult_distrib)
  then have c: "card (free_page_set p) = n - k" using p(3,4) by simp
  obtain p' where p': "reserve_pages n 0 p = Some (n - k, p')"
    using reserve_pages_ok [OF p(2), of n 0] c by auto
  have "(n - k) * ?e \<le> n * PAGE_SIZE" using e(2) by (intro mult_mono) simp_all
  then have "mul64 (n - k) ?e = (n - k) * ?e" using assms(4) by simp
  then show ?thesis using p(1) p'
    by (simp add: init initialize_with_pages_def rm_count_def rm_used_def slab_new_def)
qed

lemma rm_capacity_missed:
  assumes "n = max ((cap + entries_per_page esz - 1) div entries_per_page esz) 1" "1 \<le> k" "k < n" "0 < cap"
    "entries_per_page esz dvd cap"
  shows "(n - k) * entries_per_page esz < cap"
proof -
  let ?e = "entries_per_page esz"
  have e: "0 < ?e" using entries_pos [of esz] by (auto simp: entries_per_page_def)
  obtain q where q: "cap = ?e * q" using assms(5) by blast
  then have "0 < q" using assms(4) by simp
  have "(cap + ?e - 1) div ?e = q"
  proof -
    have "cap + ?e - 1 = (?e - 1) + q * ?e" using q e by (simp add: mult.commute)
    moreover have "((?e - 1) + q * ?e) div ?e = q" using e by (subst div_mult_self1) simp_all
    ultimately show ?thesis by (simp only:)
  qed
  then have "n = q" using assms(1) \<open>0 < q\<close> by simp
  then have "(n - k) * ?e < q * ?e" using assms(2,3) e by (intro mult_strict_right_mono) simp_all
  then show ?thesis using q by (simp add: mult.commute)
qed

text \<open>
  \<open>initialize\<close> of a resource manager does not provide the capacity it is asked for. The bitmap
  of the page manager takes k > 0 of the pages that the capacity was rounded up to, so a request
  that fits into k pages panics, and any other leaves (pages - k) pages of entries: less than the
  capacity whenever the capacity is a positive multiple of the entries of a page.
\<close>

theorem resource_manager_undersized:
  assumes "PAGE_SIZE dvd base" "n = max ((cap + entries_per_page esz - 1) div entries_per_page esz) 1"
    "n < 64 ^ 4" "base + n * PAGE_SIZE < W64"
  shows "\<exists>k \<ge> 1. reserved_bytes base (n * PAGE_SIZE) PAGE_SIZE = k * PAGE_SIZE \<and>
    (n \<le> k \<longrightarrow> rm_initialize esz d base cap rm_new = None) \<and>
    (k < n \<longrightarrow> (\<exists>m. rm_initialize esz d base cap rm_new = Some m \<and>
       rm_count m = (n - k) * entries_per_page esz \<and> rm_used m = 0 \<and>
       (0 < cap \<and> entries_per_page esz dvd cap \<longrightarrow> rm_count m < cap)))"
proof -
  have "0 < n" using assms(2) by simp
  then obtain k where k: "reserved_bytes base (n * PAGE_SIZE) PAGE_SIZE = k * PAGE_SIZE" "1 \<le> k"
    using reserved_bytes_pages [OF _ assms(3,1)] by blast
  show ?thesis
    using k rm_initialize_panics [OF assms k(1), of d] rm_initialize_rest [OF assms k(1), of d] rm_capacity_missed [OF assms(2) k(2)]
    by (intro exI [of _ k]) auto
qed

lemma resource_manager_undersized_witness:
  "rm_initialize 16 () 0 256 rm_new = None \<and>
   (\<exists>m. rm_initialize 16 () 0 1024 rm_new = Some m \<and> rm_count m = 768)"
proof -
  have e: "entries_per_page 16 = 256" by (simp add: entries_per_page_def)
  have r: "reserved_bytes 0 4096 4096 = 4096" "reserved_bytes 0 16384 4096 = 4096"
    by (simp_all add: reserved_bytes_def overhead_size_def get_required_depth.simps align_up_def upt_rec)
  have "rm_initialize 16 () 0 256 rm_new = None"
    using resource_manager_undersized [of 0 1 256 16 "()"] by (auto simp: e r)
  moreover have "\<exists>m. rm_initialize 16 () 0 1024 rm_new = Some m \<and> rm_count m = 768"
    using resource_manager_undersized [of 0 4 1024 16 "()"] by (auto simp: e r)
  ultimately show ?thesis by blast
qed

end
