(* ===== verification/MemoryBlockManager.thy ===== *)
theory MemoryBlockManager
  imports BTree MemoryBlock DynamicSlabHeap
begin

text \<open>
  The memory blocks of an address space: src/core/src/hle/kernel/k_memory_block_manager.rs. The
  \<open>BTreeMap\<close> of the blocks is an ordered tree keyed by block address; an update walks over the
  blocks of a range, splits those that stick out, changes those it has to, and merges equal
  neighbours again. Nodes for splits come from an optional update allocator and return to it; its
  slab is passed along. A loop that could run forever is a partial function.
\<close>

type_synonym tree = "(nat, KMemoryBlock) btree"
type_synonym node_manager = "KMemoryBlock KDynamicResourceManager"
type_synonym nodes = "KMemoryBlock UpdateAllocator option"

record KMemoryBlockManager =
  block_tree :: tree
  start_address :: nat
  end_address :: nat

definition mbm_new :: KMemoryBlockManager where
  "mbm_new = \<lparr>block_tree = [], start_address = 0, end_address = 0\<rparr>"

text \<open>The size of a node is asserted to be 0x40 bytes.\<close>

abbreviation node_allocate :: "node_manager \<Rightarrow> (KMemoryBlock option \<times> node_manager) option" where
  "node_allocate \<equiv> rm_allocate 0x40 mb_new"

definition mbm_initialize ::
  "nat \<Rightarrow> nat \<Rightarrow> node_manager option \<Rightarrow> KMemoryBlockManager \<Rightarrow>
   (KMemoryBlockManager \<times> node_manager option) option" where
  "mbm_initialize st nd slab m = do {
     (node, slab) \<leftarrow> (case slab of
        None \<Rightarrow> Some (mb_new, None)
      | Some s \<Rightarrow> do {
          (r, s) \<leftarrow> node_allocate s;
          Some (case r of Some b \<Rightarrow> b | None \<Rightarrow> mb_new, Some s) });
     let b = mb_initialize st (sub64 nd st div PAGE_SIZE) STATE_FREE PERM_NONE ATTR_NONE node;
     Some (m\<lparr>start_address := st, end_address := nd, block_tree := bt_insert st b (block_tree m)\<rparr>, slab) }"

text \<open>\<open>finalize\<close> answers the calls of the callback in order.\<close>

definition mbm_finalize ::
  "node_manager option \<Rightarrow> KMemoryBlockManager \<Rightarrow> (nat \<times> nat) list \<times> KMemoryBlockManager \<times> node_manager option" where
  "mbm_finalize slab m =
     (map (\<lambda>(_, b). (m_address b, mb_size b)) (block_tree m), m\<lparr>block_tree := []\<rparr>,
      map_option (\<lambda>s. fold (\<lambda>(_, b) s. rm_free b s) (block_tree m) s) slab)"

definition holds_address :: "nat \<Rightarrow> KMemoryBlock \<Rightarrow> bool" where
  "holds_address x b \<longleftrightarrow> m_address b \<le> x \<and> x < mb_end b"

definition find_key_containing :: "nat \<Rightarrow> tree \<Rightarrow> nat option" where
  "find_key_containing x t =
     (case last_le x t of None \<Rightarrow> None | Some (k, b) \<Rightarrow> if holds_address x b then Some k else None)"

definition find_block :: "nat \<Rightarrow> KMemoryBlockManager \<Rightarrow> KMemoryBlock option" where
  "find_block x m =
     (case last_le x (block_tree m) of
        None \<Rightarrow> None | Some (k, b) \<Rightarrow> if holds_address x b then Some b else None)"

definition query_info :: "nat \<Rightarrow> KMemoryBlockManager \<Rightarrow> KMemoryInfo option" where
  "query_info x m = map_option get_memory_info (find_block x m)"

text \<open>\<open>range(..=x).rev().find(..)\<close>: unlike above, the search goes on below the last entry.\<close>

definition find_rev :: "nat \<Rightarrow> tree \<Rightarrow> nat option" where
  "find_rev x t = map_option fst (find (\<lambda>(_, b). holds_address x b) (rev (filter (\<lambda>e. fst e \<le> x) t)))"

definition find_iterator :: "nat \<Rightarrow> KMemoryBlockManager \<Rightarrow> KMemoryBlock list" where
  "find_iterator x m =
     (let start = (case find_rev x (block_tree m) of Some k \<Rightarrow> k | None \<Rightarrow> x)
      in map snd (filter (\<lambda>e. start \<le> fst e) (block_tree m)))"

definition split_at :: "nat \<Rightarrow> KMemoryBlockManager \<Rightarrow> nodes \<Rightarrow> (KMemoryBlockManager \<times> nodes) option" where
  "split_at x m u =
     (if x = start_address m \<or> x = end_address m then Some (m, u)
      else case last_le x (block_tree m) of
        None \<Rightarrow> Some (m, u)
      | Some (k, b) \<Rightarrow>
          if holds_address x b \<and> m_address b \<noteq> x then do {
            (node, u) \<leftarrow> (case u of
               None \<Rightarrow> Some (mb_new, None)
             | Some a \<Rightarrow> do { (n, a) \<leftarrow> ua_allocate a; Some (n, Some a) });
            let (left, right) = mb_split node x b;
            Some (m\<lparr>block_tree := bt_insert (m_address right) right
                     (bt_insert (m_address left) left (bt_remove k (block_tree m)))\<rparr>, u) }
          else Some (m, u))"

text \<open>
  The merging loop. \<open>cur\<close> is the key of the current block, which is looked up again each time.
\<close>

partial_function (option) coalesce_loop ::
  "nat \<Rightarrow> nat \<Rightarrow> tree \<Rightarrow> nodes \<Rightarrow> node_manager \<Rightarrow> (tree \<times> nodes \<times> node_manager) option" where
  "coalesce_loop update_end cur t u s =
     (case first_gt cur t of
        None \<Rightarrow> Some (t, u, s)
      | Some (next_key, _) \<Rightarrow> do {
          (cur, t, u, s) \<leftarrow>
            (case (bt_get cur t, bt_get next_key t) of
               (Some c, Some n) \<Rightarrow>
                 if can_merge_with c n then do {
                   let t = bt_modify cur (mb_add n) (bt_remove next_key t);
                   (u, s) \<leftarrow> (case u of None \<Rightarrow> Some (None, s)
                     | Some a \<Rightarrow> do { (a, s) \<leftarrow> ua_free rm_free n a s; Some (Some a, s) });
                   Some (cur, t, u, s) }
                 else Some (next_key, t, u, s)
             | _ \<Rightarrow> Some (next_key, t, u, s));
          case bt_get cur t of
            None \<Rightarrow> Some (t, u, s)
          | Some b \<Rightarrow> if update_end < mb_end b then Some (t, u, s) else coalesce_loop update_end cur t u s })"

definition coalesce_for_update ::
  "nat \<Rightarrow> nat \<Rightarrow> KMemoryBlockManager \<Rightarrow> nodes \<Rightarrow> node_manager \<Rightarrow>
   (KMemoryBlockManager \<times> nodes \<times> node_manager) option" where
  "coalesce_for_update address num_pages m u s =
     (if block_tree m = [] then Some (m, u, s)
      else do {
        let update_end = add64 address (mul64 num_pages PAGE_SIZE);
        let cur = (case find_rev address (block_tree m) of Some k \<Rightarrow> k | None \<Rightarrow> address);
        let cur = (if address \<noteq> start_address m
                   then case last_lt cur (block_tree m) of Some (k, _) \<Rightarrow> k | None \<Rightarrow> cur
                   else cur);
        (t, u, s) \<leftarrow> coalesce_loop update_end cur (block_tree m) u s;
        Some (m\<lparr>block_tree := t\<rparr>, u, s) })"

text \<open>
  The walk of \<open>update\<close> and of \<open>update_if_match\<close>: \<open>wanted\<close> tells whether a block has to be changed,
  \<open>change\<close> is the change. A block that need not be changed is stepped over.
\<close>

definition look_at :: "nat \<Rightarrow> KMemoryBlockManager \<Rightarrow> (nat \<times> KMemoryBlock) option" where
  "look_at x m = do {
     k \<leftarrow> find_key_containing x (block_tree m);
     b \<leftarrow> bt_get k (block_tree m);
     Some (k, b) }"

text \<open>The two conditional splits; the block is looked up again after each.\<close>

definition carve ::
  "nat \<Rightarrow> nat \<Rightarrow> nat \<Rightarrow> KMemoryBlock \<Rightarrow> KMemoryBlockManager \<Rightarrow> nodes \<Rightarrow>
   (nat \<times> nat \<times> KMemoryBlock \<times> KMemoryBlockManager \<times> nodes) option" where
  "carve cur remaining_size key b m u = do {
     (cur, key, b, m, u) \<leftarrow>
       (if mi_address (get_memory_info b) \<noteq> cur then do {
          (m, u) \<leftarrow> split_at cur m u;
          (key, b) \<leftarrow> look_at cur m;
          Some (mi_address (get_memory_info b), key, b, m, u) }
        else Some (cur, key, b, m, u));
     (if mi_size (get_memory_info b) > remaining_size then do {
        (m, u) \<leftarrow> split_at (add64 cur remaining_size) m u;
        (key, b) \<leftarrow> look_at cur m;
        Some (cur, key, b, m, u) }
      else Some (cur, key, b, m, u)) }"

partial_function (option) update_loop ::
  "(KMemoryBlock \<Rightarrow> bool) \<Rightarrow> (KMemoryBlock \<Rightarrow> KMemoryBlock) \<Rightarrow> nat \<Rightarrow> nat \<Rightarrow> KMemoryBlockManager \<Rightarrow> nodes \<Rightarrow>
   (KMemoryBlockManager \<times> nodes) option" where
  "update_loop wanted change cur remaining_pages m u =
     (if remaining_pages = 0 then Some (m, u)
      else let remaining_size = mul64 remaining_pages PAGE_SIZE
      in case find_key_containing cur (block_tree m) of
        None \<Rightarrow> Some (m, u)
      | Some key \<Rightarrow> do {
          b \<leftarrow> bt_get key (block_tree m);
          let info = get_memory_info b;
          if \<not> wanted b then
            if add64 cur remaining_size < mi_end info
            then update_loop wanted change (add64 cur remaining_size) 0 m u
            else update_loop wanted change (mi_end info)
                   (sub64 (add64 cur remaining_size) (mi_end info) div PAGE_SIZE) m u
          else do {
            (cur, key, b, m, u) \<leftarrow> carve cur remaining_size key b m u;
            let info = get_memory_info b;
            update_loop wanted change (add64 cur (mi_size info)) (sub64 remaining_pages (mi_num_pages info))
              (m\<lparr>block_tree := bt_modify key change (block_tree m)\<rparr>) u } })"

definition mbm_update ::
  "nat \<Rightarrow> nat \<Rightarrow> KMemoryState \<Rightarrow> KMemoryPermission \<Rightarrow> KMemoryAttribute \<Rightarrow> u8 \<Rightarrow> u8 \<Rightarrow>
   KMemoryBlockManager \<Rightarrow> nodes \<Rightarrow> node_manager \<Rightarrow> (KMemoryBlockManager \<times> nodes \<times> node_manager) option" where
  "mbm_update address num_pages state perm attr set_disable clear_disable m u s = do {
     (m, u) \<leftarrow> update_loop (\<lambda>b. \<not> has_properties state perm attr b)
       (\<lambda>b. mb_update state perm attr (m_address b = address) set_disable clear_disable b) address num_pages m u;
     coalesce_for_update address num_pages m u s }"

definition update_if_match ::
  "nat \<Rightarrow> nat \<Rightarrow> KMemoryState \<Rightarrow> KMemoryPermission \<Rightarrow> KMemoryAttribute \<Rightarrow>
   KMemoryState \<Rightarrow> KMemoryPermission \<Rightarrow> KMemoryAttribute \<Rightarrow> u8 \<Rightarrow> u8 \<Rightarrow>
   KMemoryBlockManager \<Rightarrow> nodes \<Rightarrow> node_manager \<Rightarrow> (KMemoryBlockManager \<times> nodes \<times> node_manager) option" where
  "update_if_match address num_pages test_state test_perm test_attr state perm attr set_disable clear_disable m u s = do {
     (m, u) \<leftarrow> update_loop
       (\<lambda>b. has_properties test_state test_perm test_attr b \<and> \<not> has_properties state perm attr b)
       (\<lambda>b. mb_update state perm attr False set_disable clear_disable b) address num_pages m u;
     coalesce_for_update address num_pages m u s }"

text \<open>\<open>update_attribute\<close> walks by address instead of by pages and looks keys up by the last entry.\<close>

definition key_le :: "nat \<Rightarrow> tree \<Rightarrow> nat" where
  "key_le x t = (case last_le x t of Some (k, _) \<Rightarrow> k | None \<Rightarrow> x)"

partial_function (option) attribute_loop ::
  "KMemoryAttribute \<Rightarrow> KMemoryAttribute \<Rightarrow> nat \<Rightarrow> nat \<Rightarrow> KMemoryBlockManager \<Rightarrow> nodes \<Rightarrow>
   (KMemoryBlockManager \<times> nodes) option" where
  "attribute_loop msk attr update_end cur m u =
     (if \<not> cur < update_end then Some (m, u)
      else case find_key_containing cur (block_tree m) of
        None \<Rightarrow> Some (m, u)
      | Some key \<Rightarrow> do {
          b \<leftarrow> bt_get key (block_tree m);
          let info = get_memory_info b;
          let remaining_size = sub64 update_end cur;
          if m_attribute b AND msk \<noteq> attr then do {
            (m, u) \<leftarrow> (if mi_address info \<noteq> cur then split_at cur m u else Some (m, u));
            b \<leftarrow> bt_get (key_le cur (block_tree m)) (block_tree m);
            (m, u) \<leftarrow> (if mi_size (get_memory_info b) > remaining_size then split_at update_end m u else Some (m, u));
            let key = key_le cur (block_tree m);
            b \<leftarrow> bt_get key (block_tree m);
            attribute_loop msk attr update_end (add64 cur (mi_size (get_memory_info b)))
              (m\<lparr>block_tree := bt_modify key (mb_update_attribute msk attr) (block_tree m)\<rparr>) u }
          else if add64 cur remaining_size < mi_end info
               then attribute_loop msk attr update_end (add64 cur remaining_size) m u
               else attribute_loop msk attr update_end (mi_end info) m u })"

definition mbm_update_attribute ::
  "nat \<Rightarrow> nat \<Rightarrow> KMemoryAttribute \<Rightarrow> KMemoryAttribute \<Rightarrow> KMemoryBlockManager \<Rightarrow> nodes \<Rightarrow> node_manager \<Rightarrow>
   (KMemoryBlockManager \<times> nodes \<times> node_manager) option" where
  "mbm_update_attribute address num_pages msk attr m u s = do {
     (m, u) \<leftarrow> attribute_loop msk attr (add64 address (mul64 num_pages PAGE_SIZE)) address m u;
     coalesce_for_update address num_pages m u s }"

text \<open>\<open>lock_func\<close> of a permission, and whether the block is the first and the last of the range.\<close>

definition update_lock ::
  "nat \<Rightarrow> nat \<Rightarrow> KMemoryPermission \<Rightarrow> (KMemoryPermission \<Rightarrow> bool \<Rightarrow> bool \<Rightarrow> KMemoryBlock \<Rightarrow> KMemoryBlock) \<Rightarrow>
   KMemoryBlockManager \<Rightarrow> nodes \<Rightarrow> node_manager \<Rightarrow> (KMemoryBlockManager \<times> nodes \<times> node_manager) option" where
  "update_lock address num_pages perm lock_func m u s = do {
     let update_end = add64 address (mul64 num_pages PAGE_SIZE);
     (m, u) \<leftarrow> split_at address m u;
     (m, u) \<leftarrow> split_at update_end m u;
     es \<leftarrow> bt_range address update_end (block_tree m);
     let keys = map fst es;
     let count = length keys;
     let t = fold (\<lambda>(i, key) t. bt_modify key (lock_func perm (i = 0) (i = count - 1)) t)
               (enumerate 0 keys) (block_tree m);
     coalesce_for_update address num_pages (m\<lparr>block_tree := t\<rparr>) u s }"

text \<open>The body of the search of \<open>find_free_area\<close> and its loop over the blocks.\<close>

definition free_area_in ::
  "nat \<Rightarrow> nat \<Rightarrow> nat \<Rightarrow> nat \<Rightarrow> nat \<Rightarrow> nat \<Rightarrow> KMemoryInfo \<Rightarrow> nat option" where
  "free_area_in region_start region_last num_pages alignment offset guard_pages info =
     (let area = (if mi_address info \<le> region_start then region_start else mi_address info);
          area = add64 area (mul64 guard_pages PAGE_SIZE);
          offset_area = add64 (align_down area alignment) offset;
          area = (if area \<le> offset_area then offset_area else add64 offset_area alignment);
          area_end = add64 (add64 area (mul64 num_pages PAGE_SIZE)) (mul64 guard_pages PAGE_SIZE);
          area_last = sub64 area_end 1
      in if mi_address info \<le> area \<and> area < area_last \<and> area_last \<le> region_last \<and> area_last \<le> mi_last info
         then Some area else None)"

text \<open>\<open>align_down\<close> panics on an alignment of 0, as soon as a free block is looked at.\<close>

fun free_area_loop ::
  "nat \<Rightarrow> nat \<Rightarrow> nat \<Rightarrow> nat \<Rightarrow> nat \<Rightarrow> nat \<Rightarrow> KMemoryBlock list \<Rightarrow> (nat option) option" where
  "free_area_loop region_start region_last num_pages alignment offset guard_pages [] = Some None"
| "free_area_loop region_start region_last num_pages alignment offset guard_pages (b # bs) =
     (let info = get_memory_info b
      in if region_last < mi_address info then Some None
         else if mi_state info \<noteq> STATE_FREE
         then free_area_loop region_start region_last num_pages alignment offset guard_pages bs
         else if alignment = 0 then None
         else case free_area_in region_start region_last num_pages alignment offset guard_pages info of
                Some area \<Rightarrow> Some (Some area)
              | None \<Rightarrow> free_area_loop region_start region_last num_pages alignment offset guard_pages bs)"

definition find_free_area ::
  "nat \<Rightarrow> nat \<Rightarrow> nat \<Rightarrow> nat \<Rightarrow> nat \<Rightarrow> nat \<Rightarrow> KMemoryBlockManager \<Rightarrow> (nat option) option" where
  "find_free_area region_start region_num_pages num_pages alignment offset guard_pages m =
     (if num_pages = 0 then Some None
      else let region_end = add64 region_start (mul64 region_num_pages PAGE_SIZE)
           in free_area_loop region_start (sub64 region_end 1) num_pages alignment offset guard_pages
                (map snd (block_tree m)))"

text \<open>\<open>check_state\<close>: the scan over neighbouring blocks and the one over single blocks.\<close>

fun check_neighbours :: "KMemoryBlock list \<Rightarrow> bool" where
  "check_neighbours (p # c # bs) =
     (\<not> can_merge_with p c \<and> mb_end p = m_address c \<and> check_neighbours (c # bs))"
| "check_neighbours bs = True"

definition check_block :: "KMemoryBlock \<Rightarrow> bool" where
  "check_block b \<longleftrightarrow> (ipc_lock_count b > 0 \<longrightarrow> m_attribute b AND IPC_LOCKED = IPC_LOCKED) \<and>
     (device_use_count b > 0 \<longrightarrow> m_attribute b AND DEVICE_SHARED = DEVICE_SHARED)"

definition check_state :: "KMemoryBlockManager \<Rightarrow> bool" where
  "check_state m =
     (let bs = map snd (block_tree m)
      in bs = [] \<or> (m_address (hd bs) = start_address m \<and> mb_end (last bs) = end_address m \<and>
           check_neighbours bs \<and> list_all check_block bs))"

section \<open>Tilings\<close>

text \<open>
  The invariant: the blocks tile \<open>[st, nd)\<close> without gap or overlap, each at the key that is its
  address and with at least one page.
\<close>

fun tiled :: "nat \<Rightarrow> nat \<Rightarrow> tree \<Rightarrow> bool" where
  "tiled st nd [] \<longleftrightarrow> st = nd"
| "tiled st nd ((k, b) # t) \<longleftrightarrow> k = st \<and> m_address b = st \<and> 0 < m_num_pages b \<and>
     tiled (st + m_num_pages b * PAGE_SIZE) nd t"

text \<open>What an address looks like: the properties of the block that holds it.\<close>

fun page_at :: "tree \<Rightarrow> nat \<Rightarrow> PageProps option" where
  "page_at [] x = None"
| "page_at ((k, b) # t) x = (if k \<le> x \<and> x < k + m_num_pages b * PAGE_SIZE then Some (props b) else page_at t x)"

lemma tiled_le: "tiled st nd t \<Longrightarrow> st \<le> nd"
proof (induction t arbitrary: st)
  case (Cons e t)
  then show ?case by (cases e) (fastforce dest: Cons.IH)
qed simp

lemma tiled_append: "tiled st nd (xs @ ys) \<longleftrightarrow> (\<exists>md. tiled st md xs \<and> tiled md nd ys)"
  by (induction xs arbitrary: st) auto

lemma tiled_keys: "tiled st nd t \<Longrightarrow> (k, b) \<in> set t \<Longrightarrow> st \<le> k \<and> k + m_num_pages b * PAGE_SIZE \<le> nd \<and>
    m_address b = k \<and> 0 < m_num_pages b"
proof (induction t arbitrary: st)
  case (Cons e t)
  obtain k' b' where e: "e = (k', b')" by force
  show ?case
  proof (cases "(k, b) = e")
    case True
    then show ?thesis using Cons.prems(1) e tiled_le by auto
  next
    case False
    then have "st + m_num_pages b' * PAGE_SIZE \<le> k \<and> k + m_num_pages b * PAGE_SIZE \<le> nd \<and> m_address b = k \<and> 0 < m_num_pages b"
      using Cons.IH [of "st + m_num_pages b' * PAGE_SIZE"] Cons.prems e by auto
    then show ?thesis by simp
  qed
qed simp

lemma tiled_sorted: "tiled st nd t \<Longrightarrow> bt_sorted t"
proof (induction t arbitrary: st)
  case (Cons e t)
  obtain k b where e: "e = (k, b)" by force
  have t: "tiled (st + m_num_pages b * PAGE_SIZE) nd t" "0 < m_num_pages b" "k = st" using Cons.prems e by auto
  then have "\<forall>a \<in> set t. k < fst a" using tiled_keys [OF t(1)] by fastforce
  then show ?case using Cons.IH [OF t(1)] e by (simp add: bt_sorted_Cons)
qed (simp add: bt_sorted_def)

lemma tiled_mid:
  "tiled st nd (xs @ (k, b) # ys) \<longleftrightarrow> tiled st k xs \<and> m_address b = k \<and> 0 < m_num_pages b \<and>
     tiled (k + m_num_pages b * PAGE_SIZE) nd ys"
  by (auto simp: tiled_append)

lemma tiled_find:
  assumes "tiled st nd t" "st \<le> x" "x < nd"
  shows "\<exists>xs k b ys. t = xs @ (k, b) # ys \<and> k \<le> x \<and> x < k + m_num_pages b * PAGE_SIZE"
  using assms
proof (induction t arbitrary: st)
  case (Cons e t)
  obtain k b where e: "e = (k, b)" by force
  show ?case
  proof (cases "x < k + m_num_pages b * PAGE_SIZE")
    case True
    then show ?thesis using Cons.prems e by (intro exI [of _ "[]"]) auto
  next
    case False
    then obtain xs k' b' ys where "t = xs @ (k', b') # ys" "k' \<le> x" "x < k' + m_num_pages b' * PAGE_SIZE"
      using Cons.IH [of "st + m_num_pages b * PAGE_SIZE"] Cons.prems e by auto
    then show ?thesis using e by (intro exI [of _ "e # xs"]) auto
  qed
qed simp

lemma page_at_append: "page_at (xs @ ys) x = (case page_at xs x of None \<Rightarrow> page_at ys x | Some p \<Rightarrow> Some p)"
  by (induction xs) auto

lemma page_at_out: "tiled st nd t \<Longrightarrow> \<not> (st \<le> x \<and> x < nd) \<Longrightarrow> page_at t x = None"
proof (induction t arbitrary: st)
  case (Cons e t)
  obtain k b where e: "e = (k, b)" by force
  have "st + m_num_pages b * PAGE_SIZE \<le> nd" using Cons.prems(1) e tiled_le by auto
  then show ?case using Cons.IH [of "st + m_num_pages b * PAGE_SIZE"] Cons.prems e by auto
qed simp

lemma page_at_mid:
  assumes "tiled st nd (xs @ (k, b) # ys)"
  shows "page_at (xs @ (k, b) # ys) x =
    (if x < k then page_at xs x else if x < k + m_num_pages b * PAGE_SIZE then Some (props b) else page_at ys x)"
proof -
  have t: "tiled st k xs" "tiled (k + m_num_pages b * PAGE_SIZE) nd ys" using assms by (simp_all add: tiled_mid)
  show ?thesis
    using page_at_out [OF t(1), of x] page_at_out [OF t(2), of x]
    by (auto simp: page_at_append split: option.splits)
qed

text \<open>The geometry of a block of a tiling that ends below \<open>2 ^ 64\<close> does not wrap.\<close>

lemma tiled_block:
  assumes "tiled st nd (xs @ (k, b) # ys)" "nd < W64"
  shows "mb_size b = m_num_pages b * PAGE_SIZE" "mb_end b = k + m_num_pages b * PAGE_SIZE"
    "m_address b = k" "k + m_num_pages b * PAGE_SIZE \<le> nd" "bt_sorted (xs @ (k, b) # ys)" "st \<le> k"
    "0 < m_num_pages b"
proof -
  have k: "st \<le> k" "k + m_num_pages b * PAGE_SIZE \<le> nd" "m_address b = k" "0 < m_num_pages b"
    using tiled_keys [OF assms(1), of k b] by auto
  then have "m_num_pages b * PAGE_SIZE < W64" "k + m_num_pages b * PAGE_SIZE < W64" using assms(2) by linarith+
  then show "mb_size b = m_num_pages b * PAGE_SIZE" "mb_end b = k + m_num_pages b * PAGE_SIZE"
    using k(3) by (simp_all add: mb_size_def mb_end_def)
  show "m_address b = k" "k + m_num_pages b * PAGE_SIZE \<le> nd" "st \<le> k" "0 < m_num_pages b" using k by auto
  show "bt_sorted (xs @ (k, b) # ys)" by (rule tiled_sorted [OF assms(1)])
qed

lemma find_at:
  assumes "tiled st nd (xs @ (k, b) # ys)" "nd < W64" "k \<le> x" "x < k + m_num_pages b * PAGE_SIZE"
    "block_tree m = xs @ (k, b) # ys"
  shows "last_le x (block_tree m) = Some (k, b)" "find_key_containing x (block_tree m) = Some k"
    "find_block x m = Some b" "look_at x m = Some (k, b)" "key_le x (block_tree m) = k"
    "bt_get k (block_tree m) = Some b"
proof -
  note b = tiled_block [OF assms(1,2)]
  have "tiled (k + m_num_pages b * PAGE_SIZE) nd ys" using assms(1) by (simp add: tiled_mid)
  then have "\<forall>e \<in> set ys. x < fst e" using tiled_keys assms(4) by fastforce
  then show l: "last_le x (block_tree m) = Some (k, b)"
    unfolding assms(5) using last_le_at [OF b(5) assms(3)] by blast
  have h: "holds_address x b" using b assms(3,4) by (simp add: holds_address_def)
  show f: "find_key_containing x (block_tree m) = Some k" "find_block x m = Some b"
    using l h by (simp_all add: find_key_containing_def find_block_def)
  show g: "bt_get k (block_tree m) = Some b" unfolding assms(5) by (rule bt_at(1) [OF b(5)])
  show "look_at x m = Some (k, b)" "key_le x (block_tree m) = k"
    using f g l by (simp_all add: look_at_def key_le_def)
qed

lemma tiled_dvd: "tiled st nd t \<Longrightarrow> (k, b) \<in> set t \<Longrightarrow> PAGE_SIZE dvd k - st"
proof (induction t arbitrary: st)
  case (Cons e t)
  obtain k' b' where e: "e = (k', b')" by force
  show ?case
  proof (cases "(k, b) = e")
    case False
    then have t: "tiled (st + m_num_pages b' * PAGE_SIZE) nd t" "(k, b) \<in> set t" using Cons.prems e by auto
    from Cons.IH [OF this] tiled_keys [OF t]
    have "PAGE_SIZE dvd k - (st + m_num_pages b' * PAGE_SIZE)" "st + m_num_pages b' * PAGE_SIZE \<le> k" by auto
    then obtain c where "k - (st + m_num_pages b' * PAGE_SIZE) = PAGE_SIZE * c" by (metis dvdE)
    with \<open>st + m_num_pages b' * PAGE_SIZE \<le> k\<close> have "k - st = PAGE_SIZE * (c + m_num_pages b')" by simp
    then show ?thesis by (metis dvd_triv_left)
  qed (use Cons.prems e in auto)
qed simp

section \<open>Splitting\<close>

text \<open>How many nodes an allocator must still have, and what it is left with.\<close>

definition room :: "nat \<Rightarrow> nodes \<Rightarrow> bool" where
  "room n u \<longleftrightarrow> (case u of None \<Rightarrow> True
     | Some a \<Rightarrow> slots_from (ua_index a) (ua_blocks a) \<and> ua_index a + n \<le> MAX_BLOCKS)"

definition took :: "nat \<Rightarrow> nodes \<Rightarrow> nodes \<Rightarrow> bool" where
  "took n u u' \<longleftrightarrow> (case u of None \<Rightarrow> u' = None
     | Some a \<Rightarrow> \<exists>a'. u' = Some a' \<and> slots_from (ua_index a') (ua_blocks a') \<and> ua_index a' = ua_index a + n)"

lemma took_0: "room n u \<Longrightarrow> took 0 u u"
  by (auto simp: room_def took_def split: option.splits)

lemma took_trans: "took n u u' \<Longrightarrow> took k u' u'' \<Longrightarrow> took (n + k) u u''"
  by (auto simp: took_def split: option.splits)

lemma took_room: "took n u u' \<Longrightarrow> room (n + k) u \<Longrightarrow> room k u'"
  by (auto simp: took_def room_def split: option.splits)

lemma room_le: "room n u \<Longrightarrow> k \<le> n \<Longrightarrow> room k u"
  by (auto simp: room_def split: option.splits)

text \<open>The node for the left part.\<close>

lemma take_node:
  assumes "room (Suc n) u"
  shows "\<exists>node u'. (case u of None \<Rightarrow> Some (mb_new, None)
      | Some a \<Rightarrow> do { (n, a) \<leftarrow> ua_allocate a; Some (n, Some a) }) = Some (node, u') \<and> took 1 u u'"
proof (cases u)
  case (Some a)
  have a: "slots_from (ua_index a) (ua_blocks a)" "ua_index a < MAX_BLOCKS" using assms Some by (auto simp: room_def)
  then have "\<exists>b a'. ua_allocate a = Some (b, a') \<and> slots_from (ua_index a') (ua_blocks a') \<and> ua_index a' = ua_index a + 1"
    by (auto simp: slots_from_cases ua_allocate_def ix_def)
  then show ?thesis using Some by (auto simp: took_def)
qed (simp add: took_def)

text \<open>A split inside a block.\<close>

lemma split_inside:
  assumes "tiled st nd (xs @ (k, b) # ys)" "nd < W64" "k < x" "x < k + m_num_pages b * PAGE_SIZE"
    "PAGE_SIZE dvd x - k" "block_tree m = xs @ (k, b) # ys" "start_address m = st" "end_address m = nd"
    "room (Suc n) u"
  shows "\<exists>l r u'. split_at x m u = Some (m\<lparr>block_tree := xs @ (k, l) # (x, r) # ys\<rparr>, u') \<and> took 1 u u' \<and>
    props l = props b \<and> props r = props b \<and> m_num_pages l * PAGE_SIZE = x - k \<and>
    m_num_pages r * PAGE_SIZE = k + m_num_pages b * PAGE_SIZE - x \<and>
    tiled st nd (xs @ (k, l) # (x, r) # ys) \<and>
    page_at (xs @ (k, l) # (x, r) # ys) = page_at (xs @ (k, b) # ys)"
proof -
  note b = tiled_block [OF assms(1,2)]
  have kx: "k \<le> x" using assms(3) by simp
  note f = find_at(1) [OF assms(1,2) kx assms(4,6)]
  obtain node u' where u': "(case u of None \<Rightarrow> Some (mb_new, None)
      | Some a \<Rightarrow> do { (n, a) \<leftarrow> ua_allocate a; Some (n, Some a) }) = Some (node, u')" "took 1 u u'"
    using take_node [OF assms(9)] by blast
  define l r where "l = fst (mb_split node x b)" and "r = snd (mb_split node x b)"
  have x: "x < nd" "x < W64" "x \<noteq> st" "x \<noteq> nd" using b assms(2-4) by auto
  obtain q where q: "x - k = q * PAGE_SIZE" using assms(5) by (metis dvdE mult.commute)
  have qb: "q < m_num_pages b" using assms(3,4) q by auto
  have nb: "m_num_pages b < W64" using b(4) assms(2) by auto
  have l: "m_address l = k" "m_num_pages l = q" "props l = props b"
    using x b(3) assms(3) q by (simp_all add: l_def)
  have r: "m_address r = x" "m_num_pages r = m_num_pages b - q" "props r = props b"
    using x b(3) assms(3) q qb nb by (simp_all add: r_def)
  have xq: "x = k + q * PAGE_SIZE" using q assms(3) by simp
  have rq: "k + q * PAGE_SIZE + (m_num_pages b - q) * PAGE_SIZE = k + m_num_pages b * PAGE_SIZE"
    using qb by (simp add: diff_mult_distrib)
  have tys: "tiled (k + q * PAGE_SIZE + (m_num_pages b - q) * PAGE_SIZE) nd ys"
    unfolding rq using assms(1) by (simp add: tiled_mid)
  have "0 < q" using q assms(3) by auto
  then have t: "tiled st nd (xs @ (k, l) # (x, r) # ys)"
    using tys assms(1) l r qb by (simp add: tiled_mid xq)
  have o: "\<forall>e \<in> set xs. fst e < k" "\<forall>e \<in> set ys. x < fst e" "\<forall>e \<in> set ys. k < fst e"
    using tiled_sorted [OF t] by (auto simp: bt_sorted_mid bt_sorted_Cons)
  have "bt_insert k l (xs @ ys) = xs @ (k, l) # ys" using o by (intro bt_insert_at) auto
  moreover have "bt_insert x r ((xs @ [(k, l)]) @ ys) = (xs @ [(k, l)]) @ (x, r) # ys"
    using o assms(3) by (intro bt_insert_at) auto
  ultimately have ins: "bt_insert x r (bt_insert k l (bt_remove k (block_tree m))) = xs @ (k, l) # (x, r) # ys"
    unfolding assms(6) bt_at(2) [OF b(5)] by simp
  have "holds_address x b" "m_address b \<noteq> x" using b assms(3,4) by (simp_all add: holds_address_def)
  then have "split_at x m u = Some (m\<lparr>block_tree := xs @ (k, l) # (x, r) # ys\<rparr>, u')"
    using f u'(1) ins x assms(7,8) l(1) r(1)
    by (simp add: split_at_def l_def r_def split_beta Let_def)
  moreover have "page_at (xs @ (k, l) # (x, r) # ys) = page_at (xs @ (k, b) # ys)"
    using l(2,3) r(2,3) xq rq qb unfolding page_at_append by (auto simp: fun_eq_iff split: option.splits)
  moreover have "m_num_pages r * PAGE_SIZE = k + m_num_pages b * PAGE_SIZE - x"
    using r(2) xq rq by simp
  ultimately show ?thesis using u'(2) l r t q by (intro exI [of _ l] exI [of _ r] exI [of _ u']) simp
qed

text \<open>The number of splits that an address needs.\<close>

definition cuts :: "tree \<Rightarrow> nat \<Rightarrow> nat \<Rightarrow> nat" where
  "cuts t nd x = (if x \<in> fst ` set t \<or> x = nd then 0 else 1)"

lemma cuts_le: "fst ` set t \<subseteq> fst ` set t' \<Longrightarrow> cuts t' nd x \<le> cuts t nd x"
  by (auto simp: cuts_def)

lemma inside_dvd:
  assumes "tiled st nd (xs @ (k, b) # ys)" "k \<le> x" "PAGE_SIZE dvd x - st"
  shows "PAGE_SIZE dvd x - k"
proof -
  have k: "PAGE_SIZE dvd k - st" "st \<le> k" using tiled_dvd [OF assms(1)] tiled_keys [OF assms(1)] by auto
  have "PAGE_SIZE dvd (x - st) - (k - st)" by (rule dvd_diff_nat [OF assms(3) k(1)])
  then show ?thesis using k(2) by simp
qed

lemma split_at_ok:
  assumes "tiled st nd t" "nd < W64" "st \<le> x" "x \<le> nd" "PAGE_SIZE dvd x - st"
    "block_tree m = t" "start_address m = st" "end_address m = nd" "room (cuts t nd x + n) u"
  shows "\<exists>t' u'. split_at x m u = Some (m\<lparr>block_tree := t'\<rparr>, u') \<and> took (cuts t nd x) u u' \<and> tiled st nd t' \<and>
    page_at t' = page_at t \<and> cuts t' nd x = 0 \<and> fst ` set t \<subseteq> fst ` set t' \<and> length t' = length t + cuts t nd x"
proof -
  have same: "m\<lparr>block_tree := t\<rparr> = m" unfolding assms(6) [symmetric] by simp
  show ?thesis
proof (cases "x = nd")
  case True
  have "took 0 u u" using assms(9) by (rule took_0)
  moreover have "split_at x m u = Some (m\<lparr>block_tree := t\<rparr>, u)" using True assms(8) same by (simp add: split_at_def)
  ultimately show ?thesis using assms(1) True by (intro exI [of _ t] exI [of _ u]) (simp add: cuts_def)
next
  case False
  then obtain xs k b ys where d: "t = xs @ (k, b) # ys" "k \<le> x" "x < k + m_num_pages b * PAGE_SIZE"
    using tiled_find [OF assms(1,3)] assms(4) by auto
  note ti = assms(1) [unfolded d(1)] and bt = assms(6) [unfolded d(1)]
  note b = tiled_block [OF ti assms(2)]
  show ?thesis
  proof (cases "k = x")
    case True
    have "split_at x m u = Some (m, u)"
      using find_at(1) [OF ti assms(2) d(2,3) bt] b(3) True by (simp add: split_at_def)
    moreover have "cuts t nd x = 0" using True d(1) by (simp add: cuts_def)
    moreover have "took 0 u u" using assms(9) by (rule took_0)
    ultimately show ?thesis using assms(1) True d(1) same by (intro exI [of _ t] exI [of _ u]) (simp add: cuts_def)
  next
    case neq: False
    then have kx: "k < x" using d(2) by simp
    have "\<forall>e \<in> set xs. fst e < k" "\<forall>e \<in> set ys. k + m_num_pages b * PAGE_SIZE \<le> fst e"
      using b(5) ti tiled_keys by (fastforce simp: bt_sorted_mid tiled_mid)+
    then have c: "cuts t nd x = 1" using False d kx unfolding cuts_def by (auto simp: d(1))
    have r: "room (Suc n) u" using assms(9) c by simp
    from split_inside [OF ti assms(2) kx d(3) inside_dvd [OF ti d(2) assms(5)] bt assms(7,8) r]
    obtain l r u' where "split_at x m u = Some (m\<lparr>block_tree := xs @ (k, l) # (x, r) # ys\<rparr>, u')" "took 1 u u'"
      "tiled st nd (xs @ (k, l) # (x, r) # ys)" "page_at (xs @ (k, l) # (x, r) # ys) = page_at (xs @ (k, b) # ys)"
      by blast
    then show ?thesis using c unfolding d(1)
      by (intro exI [of _ "xs @ (k, l) # (x, r) # ys"] exI [of _ u']) (auto simp: cuts_def)
  qed
qed
qed

lemma carve_ok:
  assumes "tiled st nd (xs @ (k, b) # ys)" "nd < W64" "k \<le> cur" "cur < k + m_num_pages b * PAGE_SIZE"
    "0 < sz" "PAGE_SIZE dvd sz" "cur + sz \<le> nd" "PAGE_SIZE dvd cur - st"
    "block_tree m = xs @ (k, b) # ys" "start_address m = st" "end_address m = nd"
    "room ((if k = cur then 0 else 1) + (if cur + sz < k + m_num_pages b * PAGE_SIZE then 1 else 0)) u"
  shows "\<exists>xs' b' ys' u'. carve cur sz k b m u = Some (cur, cur, b', m\<lparr>block_tree := xs' @ (cur, b') # ys'\<rparr>, u') \<and>
    took ((if k = cur then 0 else 1) + (if cur + sz < k + m_num_pages b * PAGE_SIZE then 1 else 0)) u u' \<and>
    tiled st nd (xs' @ (cur, b') # ys') \<and> page_at (xs' @ (cur, b') # ys') = page_at (xs @ (k, b) # ys) \<and>
    props b' = props b \<and> m_num_pages b' * PAGE_SIZE = min (k + m_num_pages b * PAGE_SIZE) (cur + sz) - cur \<and>
    length (xs' @ (cur, b') # ys') = length (xs @ (k, b) # ys) +
      (if k = cur then 0 else 1) + (if cur + sz < k + m_num_pages b * PAGE_SIZE then 1 else 0) \<and>
    fst ` set (xs @ (k, b) # ys) \<subseteq> fst ` set (xs' @ (cur, b') # ys')"
proof -
  let ?e = "k + m_num_pages b * PAGE_SIZE"
  let ?n2 = "if cur + sz < ?e then 1 else 0 :: nat"
  note b = tiled_block [OF assms(1,2)]
  have "\<exists>xs1 b1 m1 u1.
      (if mi_address (get_memory_info b) \<noteq> cur then do {
          (m, u) \<leftarrow> split_at cur m u;
          (key, b) \<leftarrow> look_at cur m;
          Some (mi_address (get_memory_info b), key, b, m, u) }
        else Some (cur, k, b, m, u)) = Some (cur, cur, b1, m1, u1) \<and> m1 = m\<lparr>block_tree := xs1 @ (cur, b1) # ys\<rparr> \<and>
      took (if k = cur then 0 else 1) u u1 \<and> room ?n2 u1 \<and> tiled st nd (xs1 @ (cur, b1) # ys) \<and>
      page_at (xs1 @ (cur, b1) # ys) = page_at (xs @ (k, b) # ys) \<and> props b1 = props b \<and>
      cur + m_num_pages b1 * PAGE_SIZE = ?e \<and>
      length (xs1 @ (cur, b1) # ys) = length (xs @ (k, b) # ys) + (if k = cur then 0 else 1) \<and>
      fst ` set (xs @ (k, b) # ys) \<subseteq> fst ` set (xs1 @ (cur, b1) # ys)"
  proof (cases "k = cur")
    case True
    then show ?thesis using assms(1,9,12) b(3) took_0 [OF assms(12)]
      by (intro exI [of _ xs] exI [of _ b] exI [of _ m] exI [of _ u]) (simp add: get_memory_info_def)
  next
    case False
    then have kc: "k < cur" using assms(3) by simp
    have r: "room (Suc ?n2) u" using assms(12) False by (auto split: if_splits)
    from split_inside [OF assms(1,2) kc assms(4) inside_dvd [OF assms(1,3,8)] assms(9-11) r]
    obtain l r u1 where s: "split_at cur m u = Some (m\<lparr>block_tree := xs @ (k, l) # (cur, r) # ys\<rparr>, u1)" "took 1 u u1"
      "props r = props b" "m_num_pages r * PAGE_SIZE = ?e - cur" "tiled st nd (xs @ (k, l) # (cur, r) # ys)"
      "page_at (xs @ (k, l) # (cur, r) # ys) = page_at (xs @ (k, b) # ys)" by blast
    let ?m1 = "m\<lparr>block_tree := xs @ (k, l) # (cur, r) # ys\<rparr>"
    have t1: "tiled st nd ((xs @ [(k, l)]) @ (cur, r) # ys)" using s(5) by simp
    have e1: "cur + m_num_pages r * PAGE_SIZE = ?e" using s(4) assms(4) by simp
    have "look_at cur ?m1 = Some (cur, r)"
      using find_at(4) [OF t1 assms(2) order_refl, of ?m1] assms(4) e1 by simp
    moreover have "m_address r = cur" using tiled_block(3) [OF t1 assms(2)] .
    moreover have "room ?n2 u1" using took_room [OF s(2)] r by simp
    ultimately show ?thesis using False s b(3) t1 e1
      by (intro exI [of _ "xs @ [(k, l)]"] exI [of _ r] exI [of _ ?m1] exI [of _ u1])
        (auto simp: get_memory_info_def)
  qed
  then obtain xs1 b1 m1 u1 where 1:
    "(if mi_address (get_memory_info b) \<noteq> cur then do {
          (m, u) \<leftarrow> split_at cur m u;
          (key, b) \<leftarrow> look_at cur m;
          Some (mi_address (get_memory_info b), key, b, m, u) }
        else Some (cur, k, b, m, u)) = Some (cur, cur, b1, m1, u1)" "m1 = m\<lparr>block_tree := xs1 @ (cur, b1) # ys\<rparr>"
      "took (if k = cur then 0 else 1) u u1" "room ?n2 u1" "tiled st nd (xs1 @ (cur, b1) # ys)"
      "page_at (xs1 @ (cur, b1) # ys) = page_at (xs @ (k, b) # ys)" "props b1 = props b"
      "cur + m_num_pages b1 * PAGE_SIZE = ?e"
      "length (xs1 @ (cur, b1) # ys) = length (xs @ (k, b) # ys) + (if k = cur then 0 else 1)"
      "fst ` set (xs @ (k, b) # ys) \<subseteq> fst ` set (xs1 @ (cur, b1) # ys)" by blast
  have m1: "block_tree m1 = xs1 @ (cur, b1) # ys" "start_address m1 = st" "end_address m1 = nd"
    using 1(2) assms(10,11) by simp_all
  have sz1: "mi_size (get_memory_info b1) = ?e - cur"
    using tiled_block(1) [OF 1(5) assms(2)] 1(8) by (simp add: get_memory_info_def)
  show ?thesis
  proof (cases "cur + sz < ?e")
    case False
    have "\<not> sz < mi_size (get_memory_info b1)" using False sz1 by linarith
    then have "carve cur sz k b m u = Some (cur, cur, b1, m1, u1)"
      unfolding carve_def 1(1) by simp
    then show ?thesis using 1(2-10) False by (intro exI [of _ xs1] exI [of _ b1] exI [of _ ys] exI [of _ u1]) auto
  next
    case True
    have r: "room (Suc 0) u1" using 1(4) True by simp
    have lt: "cur < cur + sz" "cur + sz < cur + m_num_pages b1 * PAGE_SIZE" "PAGE_SIZE dvd (cur + sz) - cur"
      using True 1(8) assms(5,6) by simp_all
    from split_inside [OF 1(5) assms(2) lt m1 r] obtain l r u2 where
      s: "split_at (cur + sz) m1 u1 = Some (m1\<lparr>block_tree := xs1 @ (cur, l) # (cur + sz, r) # ys\<rparr>, u2)"
        "took 1 u1 u2" "props l = props b1" "m_num_pages l * PAGE_SIZE = (cur + sz) - cur"
        "tiled st nd (xs1 @ (cur, l) # (cur + sz, r) # ys)"
        "page_at (xs1 @ (cur, l) # (cur + sz, r) # ys) = page_at (xs1 @ (cur, b1) # ys)" by blast
    let ?m2 = "m1\<lparr>block_tree := xs1 @ (cur, l) # (cur + sz, r) # ys\<rparr>"
    have "look_at cur ?m2 = Some (cur, l)"
      using find_at(4) [OF s(5) assms(2) order_refl, of ?m2] s(4) assms(5) by simp
    moreover have "add64 cur sz = cur + sz" using assms(2,7) by simp
    moreover have "sz < mi_size (get_memory_info b1)" using True sz1 by linarith
    ultimately have "carve cur sz k b m u = Some (cur, cur, l, ?m2, u2)"
      unfolding carve_def 1(1) using s(1) by simp
    moreover have "took ((if k = cur then 0 else 1) + 1) u u2" by (rule took_trans [OF 1(3) s(2)])
    ultimately show ?thesis using 1(2,6,7,9,10) s(3-6) True
      by (intro exI [of _ xs1] exI [of _ l] exI [of _ "(cur + sz, r) # ys"] exI [of _ u2]) auto
  qed
qed

section \<open>The walk\<close>

text \<open>A change of the pages of a range of addresses.\<close>

definition on_range :: "nat \<Rightarrow> nat \<Rightarrow> (PageProps \<Rightarrow> PageProps) \<Rightarrow> (nat \<Rightarrow> PageProps option) \<Rightarrow> nat \<Rightarrow> PageProps option" where
  "on_range lo hi f p x = (if lo \<le> x \<and> x < hi then map_option f (p x) else p x)"

lemma on_range_empty [simp]: "on_range x x f p = p"
  by (auto simp: on_range_def fun_eq_iff)

lemma on_range_join:
  "lo \<le> md \<Longrightarrow> md \<le> hi \<Longrightarrow> on_range md hi f (on_range lo md f p) = on_range lo hi f p"
  by (auto simp: on_range_def fun_eq_iff)

text \<open>Changing one block, and stepping over one that is not wanted.\<close>

lemma change_block:
  assumes "tiled st nd (xs @ (k, b) # ys)" "m_address (f b) = m_address b" "m_num_pages (f b) = m_num_pages b"
    "props (f b) = g (props b)"
  shows "tiled st nd (xs @ (k, f b) # ys)"
    "page_at (xs @ (k, f b) # ys) = on_range k (k + m_num_pages b * PAGE_SIZE) g (page_at (xs @ (k, b) # ys))"
proof -
  show t: "tiled st nd (xs @ (k, f b) # ys)" using assms by (simp add: tiled_mid)
  show "page_at (xs @ (k, f b) # ys) = on_range k (k + m_num_pages b * PAGE_SIZE) g (page_at (xs @ (k, b) # ys))"
    using page_at_mid [OF assms(1)] page_at_mid [OF t] assms(3,4) by (auto simp: fun_eq_iff on_range_def)
qed

lemma skip_block:
  assumes "tiled st nd (xs @ (k, b) # ys)" "k \<le> lo" "hi \<le> k + m_num_pages b * PAGE_SIZE" "g (props b) = props b"
  shows "on_range lo hi g (page_at (xs @ (k, b) # ys)) = page_at (xs @ (k, b) # ys)"
  using page_at_mid [OF assms(1)] assms(2-4) by (auto simp: fun_eq_iff on_range_def)

lemma update_loop_0 [simp]: "update_loop wanted change cur 0 m u = Some (m, u)"
  by (subst update_loop.simps) simp

text \<open>
  What a walk over \<open>n\<close> pages from \<open>cur\<close> does, from the tree \<open>t\<close> to the tree \<open>t'\<close>: the pages in the
  range are changed by \<open>g\<close>, and splits were only needed at the two ends of the range.
\<close>

definition budget :: "tree \<Rightarrow> nat \<Rightarrow> nat \<Rightarrow> nat \<Rightarrow> nat" where
  "budget t nd cur n = cuts t nd cur + (if n = 0 then 0 else cuts t nd (cur + n * PAGE_SIZE))"

definition walked ::
  "nat \<Rightarrow> nat \<Rightarrow> (PageProps \<Rightarrow> PageProps) \<Rightarrow> nat \<Rightarrow> nat \<Rightarrow> tree \<Rightarrow> nodes \<Rightarrow> tree \<Rightarrow> nodes \<Rightarrow> bool" where
  "walked st nd g cur n t u t' u' \<longleftrightarrow> tiled st nd t' \<and>
     page_at t' = on_range cur (cur + n * PAGE_SIZE) g (page_at t) \<and>
     (\<exists>c. took c u u' \<and> length t' = length t + c \<and> c \<le> budget t nd cur n)"

lemma walked_same:
  assumes "tiled st nd t" "room c u" "on_range cur (cur + n * PAGE_SIZE) g (page_at t) = page_at t"
  shows "walked st nd g cur n t u t u"
  using assms(1,3) took_0 [OF assms(2)] unfolding walked_def by (intro conjI exI [of _ 0]) simp_all

lemma walked_step:
  assumes "walked st nd g md n' t1 u1 t' u'" "md + n' * PAGE_SIZE = cur + n * PAGE_SIZE" "cur \<le> md"
    "page_at t1 = on_range cur md g (page_at t)" "took c u u1" "length t1 = length t + c"
    "c + budget t1 nd md n' \<le> budget t nd cur n"
  shows "walked st nd g cur n t u t' u'"
proof -
  obtain c' where c': "took c' u1 u'" "length t' = length t1 + c'" "c' \<le> budget t1 nd md n'"
    using assms(1) by (auto simp: walked_def)
  have "md \<le> cur + n * PAGE_SIZE" using assms(2) by linarith
  with assms(1-4) have "page_at t' = on_range cur (cur + n * PAGE_SIZE) g (page_at t)"
    using on_range_join [of cur md "cur + n * PAGE_SIZE" g "page_at t"] by (simp add: walked_def)
  moreover have "took (c + c') u u'" by (rule took_trans [OF assms(5) c'(1)])
  moreover have "length t' = length t + (c + c')" "c + c' \<le> budget t nd cur n"
    using assms(6,7) c'(2,3) by linarith+
  ultimately show ?thesis using assms(1) by (auto simp: walked_def)
qed

text \<open>Where the splits of a range can be: not at the end of a block, and at any address inside one.\<close>

lemma cuts_block:
  assumes "tiled st nd (xs @ (k, b) # ys)" "nd < W64"
  shows "cuts (xs @ (k, b) # ys) nd (k + m_num_pages b * PAGE_SIZE) = 0"
    "k < x \<Longrightarrow> x < k + m_num_pages b * PAGE_SIZE \<Longrightarrow> cuts (xs @ (k, b) # ys) nd x = 1"
proof -
  note b = tiled_block [OF assms]
  show "cuts (xs @ (k, b) # ys) nd (k + m_num_pages b * PAGE_SIZE) = 0"
  proof (cases ys)
    case Nil
    then show ?thesis using assms(1) by (simp add: tiled_mid cuts_def)
  next
    case (Cons e ys')
    then have "fst e = k + m_num_pages b * PAGE_SIZE" using assms(1) by (cases e) (simp add: tiled_mid)
    then show ?thesis using Cons by (auto simp: cuts_def)
  qed
  have "\<forall>e \<in> set xs. fst e < k" "\<forall>e \<in> set ys. k + m_num_pages b * PAGE_SIZE \<le> fst e"
    using b(5) assms(1) tiled_keys by (fastforce simp: bt_sorted_mid tiled_mid)+
  then show "k < x \<Longrightarrow> x < k + m_num_pages b * PAGE_SIZE \<Longrightarrow> cuts (xs @ (k, b) # ys) nd x = 1"
    using b(4) by (auto simp: cuts_def)
qed

text \<open>The walk is at a block that it does not want, and that is not the last one.\<close>

lemma skip_step:
  assumes "tiled st nd (xs @ (k, b) # ys)" "nd < W64" "k \<le> cur" "cur < k + m_num_pages b * PAGE_SIZE"
    "cur + n * PAGE_SIZE \<le> nd" "PAGE_SIZE dvd cur - st" "k + m_num_pages b * PAGE_SIZE \<le> cur + n * PAGE_SIZE"
    "g (props b) = props b" "room (budget (xs @ (k, b) # ys) nd cur n) u" "e = k + m_num_pages b * PAGE_SIZE"
  shows "\<exists>n'. n' < n \<and> e + n' * PAGE_SIZE = cur + n * PAGE_SIZE \<and> PAGE_SIZE dvd e - st \<and> st \<le> e \<and>
    room (budget (xs @ (k, b) # ys) nd e n') u \<and>
    (\<forall>t' u'. walked st nd g e n' (xs @ (k, b) # ys) u t' u' \<longrightarrow> walked st nd g cur n (xs @ (k, b) # ys) u t' u')"
proof -
  let ?t = "xs @ (k, b) # ys"
  note b = tiled_block [OF assms(1,2)]
  obtain q where q: "cur - k = q * PAGE_SIZE"
    using inside_dvd [OF assms(1,3,6)] by (metis dvdE mult.commute)
  define n' where "n' = n + q - m_num_pages b"
  have ce: "cur + n * PAGE_SIZE = k + (q + n) * PAGE_SIZE" using q assms(3) by (simp add: algebra_simps)
  have le: "m_num_pages b \<le> n + q" using assms(7) unfolding ce by simp
  have "(q + n) * PAGE_SIZE = (m_num_pages b + n') * PAGE_SIZE" using le by (simp add: n'_def)
  then have n1: "e + n' * PAGE_SIZE = cur + n * PAGE_SIZE" unfolding ce assms(10) by (simp add: algebra_simps)
  have "q * PAGE_SIZE < m_num_pages b * PAGE_SIZE" using assms(3,4) q by linarith
  then have n2: "n' < n" using le by (simp add: n'_def)
  have "PAGE_SIZE dvd k - st" by (rule tiled_dvd [OF assms(1), of k b]) simp
  then obtain c where "k - st = PAGE_SIZE * c" by (rule dvdE)
  then have "e - st = PAGE_SIZE * (c + m_num_pages b)" using b(6) assms(10) by (simp add: algebra_simps)
  then have dv: "PAGE_SIZE dvd e - st" by (metis dvd_triv_left)
  have bu: "budget ?t nd e n' \<le> budget ?t nd cur n"
    using cuts_block(1) [OF assms(1,2)] n1 n2 assms(10) by (simp add: budget_def)
  have "on_range cur e g (page_at ?t) = page_at ?t" unfolding assms(10)
    by (rule skip_block [where g = g, OF assms(1,3) order_refl assms(8)])
  then have "walked st nd g cur n ?t u t' u'" if "walked st nd g e n' ?t u t' u'" for t' u'
    using walked_step [OF that n1, of ?t 0 u] assms(4,10) took_0 [OF assms(9)] bu by simp
  then show ?thesis using n1 n2 dv bu b(6) room_le [OF assms(9) bu] assms(10) by (intro exI [of _ n']) auto
qed

text \<open>The walk is at a block that it changes, after cutting it to the range.\<close>

lemma change_step:
  assumes "tiled st nd (xs @ (k, b) # ys)" "nd < W64" "k \<le> cur" "cur < k + m_num_pages b * PAGE_SIZE"
    "cur + n * PAGE_SIZE \<le> nd" "PAGE_SIZE dvd cur - st" "n \<noteq> 0"
    "block_tree m = xs @ (k, b) # ys" "start_address m = st" "end_address m = nd" "st \<le> cur"
    "\<And>b. m_address (change b) = m_address b" "\<And>b. m_num_pages (change b) = m_num_pages b"
    "\<forall>b'. props b' = props b \<longrightarrow> props (change b') = g (props b)" "room (budget (xs @ (k, b) # ys) nd cur n) u"
  shows "\<exists>xs' b' ys' u1. carve cur (n * PAGE_SIZE) k b m u = Some (cur, cur, b', m\<lparr>block_tree := xs' @ (cur, b') # ys'\<rparr>, u1) \<and>
    bt_modify cur change (xs' @ (cur, b') # ys') = xs' @ (cur, change b') # ys' \<and>
    mi_size (get_memory_info b') = m_num_pages b' * PAGE_SIZE \<and> mi_num_pages (get_memory_info b') = m_num_pages b' \<and>
    m_num_pages b' \<le> n \<and> 0 < m_num_pages b' \<and>
    cur + m_num_pages b' * PAGE_SIZE + (n - m_num_pages b') * PAGE_SIZE = cur + n * PAGE_SIZE \<and>
    tiled st nd (xs' @ (cur, change b') # ys') \<and> PAGE_SIZE dvd cur + m_num_pages b' * PAGE_SIZE - st \<and>
    room (budget (xs' @ (cur, change b') # ys') nd (cur + m_num_pages b' * PAGE_SIZE) (n - m_num_pages b')) u1 \<and>
    (\<forall>t' u'. walked st nd g (cur + m_num_pages b' * PAGE_SIZE) (n - m_num_pages b') (xs' @ (cur, change b') # ys') u1 t' u'
       \<longrightarrow> walked st nd g cur n (xs @ (k, b) # ys) u t' u')"
proof -
  let ?t = "xs @ (k, b) # ys" and ?e = "k + m_num_pages b * PAGE_SIZE" and ?sz = "n * PAGE_SIZE"
  let ?k1 = "if k = cur then 0 else 1 :: nat" and ?k2 = "if cur + ?sz < ?e then 1 else 0 :: nat"
  note outside = cuts_block(2) [OF assms(1,2)]
  have k1: "?k1 \<le> cuts ?t nd cur" using outside [of cur] assms(3,4) by auto
  have k2: "?k2 \<le> cuts ?t nd (cur + ?sz)" using outside [of "cur + ?sz"] assms(3,7) by auto
  have kb: "?k1 + ?k2 \<le> budget ?t nd cur n" using k1 k2 assms(7) unfolding budget_def by simp
  have "room (?k1 + ?k2) u" by (rule room_le [OF assms(15) kb])
  moreover have "0 < ?sz" "PAGE_SIZE dvd ?sz" using assms(7) by simp_all
  ultimately obtain xs' b' ys' u1 where c: "carve cur ?sz k b m u = Some (cur, cur, b', m\<lparr>block_tree := xs' @ (cur, b') # ys'\<rparr>, u1)"
    "took (?k1 + ?k2) u u1" "tiled st nd (xs' @ (cur, b') # ys')"
    "page_at (xs' @ (cur, b') # ys') = page_at ?t" "props b' = props b"
    "m_num_pages b' * PAGE_SIZE = min ?e (cur + ?sz) - cur"
    "length (xs' @ (cur, b') # ys') = length ?t + ?k1 + ?k2" "fst ` set ?t \<subseteq> fst ` set (xs' @ (cur, b') # ys')"
    using carve_ok [OF assms(1-4) _ _ assms(5,6,8-10)] by blast
  note b' = tiled_block [OF c(3) assms(2)]
  let ?t1 = "xs' @ (cur, change b') # ys'" and ?c' = "cur + m_num_pages b' * PAGE_SIZE" and ?n' = "n - m_num_pages b'"
  have t1: "tiled st nd ?t1" "page_at ?t1 = on_range cur ?c' g (page_at ?t)"
    using change_block [where f = change and g = g, OF c(3) assms(12,13)] assms(14) c(4,5) by simp_all
  have "m_num_pages b' * PAGE_SIZE \<le> n * PAGE_SIZE" using c(6) by linarith
  then have nb: "m_num_pages b' \<le> n" "0 < m_num_pages b'" using b'(7) by simp_all
  have ce: "?c' + ?n' * PAGE_SIZE = cur + ?sz" using nb(1) by (simp add: diff_mult_distrib)
  have cW: "?c' = min ?e (cur + ?sz)" using c(6) assms(4) by simp
  have keys: "fst ` set ?t \<subseteq> fst ` set ?t1" using c(8) by simp
  have budget: "budget ?t1 nd ?c' ?n' \<le> (if ?k2 = 1 then 0 else cuts ?t nd (cur + ?sz))"
  proof (cases "cur + ?sz < ?e")
    case True
    then have "?n' = 0" using cW ce by simp
    moreover have "cuts ?t1 nd ?c' = 0" using cuts_block(1) [OF t1(1) assms(2)] assms(13) by simp
    ultimately show ?thesis by (simp add: budget_def)
  next
    case False
    then have "?c' = ?e" using cW by simp
    then have "cuts ?t1 nd ?c' = 0" using cuts_block(1) [OF assms(1,2)] cuts_le [OF keys, of nd ?e] by simp
    then show ?thesis unfolding budget_def ce using False cuts_le [OF keys, of nd "cur + ?sz"] by simp
  qed
  have total: "?k1 + ?k2 + budget ?t1 nd ?c' ?n' \<le> budget ?t nd cur n"
  proof -
    have "?k1 + ?k2 + (if ?k2 = 1 then 0 else cuts ?t nd (cur + ?sz)) \<le> cuts ?t nd cur + cuts ?t nd (cur + ?sz)"
      using k1 k2 by auto
    moreover have "budget ?t nd cur n = cuts ?t nd cur + cuts ?t nd (cur + ?sz)" using assms(7) by (simp add: budget_def)
    ultimately show ?thesis using budget by linarith
  qed
  obtain q where "cur - st = PAGE_SIZE * q" using assms(6) by (rule dvdE)
  then have "?c' - st = PAGE_SIZE * (q + m_num_pages b')" using assms(11) by (simp add: algebra_simps)
  then have dv: "PAGE_SIZE dvd ?c' - st" by (metis dvd_triv_left)
  have l1: "length ?t1 = length ?t + (?k1 + ?k2)" using c(7) by simp
  have "walked st nd g cur n ?t u t' u'" if "walked st nd g ?c' ?n' ?t1 u1 t' u'" for t' u'
    by (rule walked_step [OF that ce _ t1(2) c(2) l1 total]) simp
  moreover have "room (budget ?t1 nd ?c' ?n') u1" by (rule took_room [OF c(2) room_le [OF assms(15) total]])
  moreover have "bt_modify cur change (xs' @ (cur, b') # ys') = ?t1" by (rule bt_at(3) [OF b'(5)])
  moreover have "mi_size (get_memory_info b') = m_num_pages b' * PAGE_SIZE" "mi_num_pages (get_memory_info b') = m_num_pages b'"
    using b'(1) by (simp_all add: get_memory_info_def mi_num_pages_def)
  ultimately show ?thesis using c(1) nb ce t1(1) dv
    by (intro exI [of _ xs'] exI [of _ b'] exI [of _ ys'] exI [of _ u1]) simp
qed

text \<open>The walk splits at most at the two ends of the range and changes exactly the wanted pages in it.\<close>

lemma update_loop_ok:
  assumes "tiled st nd t" "nd < W64" "st \<le> cur" "cur + n * PAGE_SIZE \<le> nd" "PAGE_SIZE dvd cur - st"
    "block_tree m = t" "start_address m = st" "end_address m = nd" "room (budget t nd cur n) u"
    "\<And>b. wanted b = W (props b)" "\<And>b. props (change b) = F (props b)"
    "\<And>b. m_address (change b) = m_address b" "\<And>b. m_num_pages (change b) = m_num_pages b"
  shows "\<exists>t' u'. update_loop wanted change cur n m u = Some (m\<lparr>block_tree := t'\<rparr>, u') \<and>
    walked st nd (\<lambda>x. if W x then F x else x) cur n t u t' u'"
  using assms(1,3-9)
proof (induction n arbitrary: cur t m u rule: less_induct)
  case (less n)
  let ?g = "\<lambda>x. if W x then F x else x"
  have same: "m\<lparr>block_tree := t\<rparr> = m" unfolding less.prems(5) [symmetric] by simp
  show ?case
  proof (cases "n = 0")
    case True
    then show ?thesis using walked_same [OF less.prems(1,8), of cur n ?g] True same
      by (intro exI [of _ t] exI [of _ u]) simp
  next
    case False
    let ?sz = "n * PAGE_SIZE"
    have lt: "cur < nd" using False less.prems(3) by simp
    obtain xs k b ys where d: "t = xs @ (k, b) # ys" "k \<le> cur" "cur < k + m_num_pages b * PAGE_SIZE"
      using tiled_find [OF less.prems(1,2) lt] by blast
    note ti = less.prems(1) [unfolded d(1)] and bt = less.prems(5) [unfolded d(1)]
    note b = tiled_block [OF ti assms(2)] and fa = find_at [OF ti assms(2) d(2,3) bt]
    let ?e = "k + m_num_pages b * PAGE_SIZE"
    have w: "mul64 n PAGE_SIZE = ?sz" "add64 cur ?sz = cur + ?sz" "mi_end (get_memory_info b) = ?e"
      using less.prems(3) assms(2) b by (simp_all add: mi_end_def get_memory_info_def mb_end_def)
    consider (last) "\<not> wanted b" "cur + ?sz < ?e" | (skip) "\<not> wanted b" "?e \<le> cur + ?sz" | (change) "wanted b"
      by fastforce
    then show ?thesis
    proof cases
      case last
      then have "update_loop wanted change cur n m u = Some (m, u)"
        using False w fa(2,6) by (subst update_loop.simps) (simp add: Let_def)
      moreover have "on_range cur (cur + ?sz) ?g (page_at t) = page_at t"
        unfolding d(1) by (rule skip_block [where g = ?g, OF ti d(2)]) (use last assms(10) in simp_all)
      ultimately show ?thesis using walked_same [OF less.prems(1,8), of cur n ?g] same
        by (intro exI [of _ t] exI [of _ u]) simp
    next
      case skip
      have "?g (props b) = props b" using skip(1) assms(10) by simp
      from skip_step [where g = ?g, OF ti assms(2) d(2,3) less.prems(3,4) skip(2) this less.prems(8) [unfolded d(1)] refl]
      obtain n' where n': "n' < n" "?e + n' * PAGE_SIZE = cur + ?sz" "PAGE_SIZE dvd ?e - st" "st \<le> ?e"
        "room (budget t nd ?e n') u" "\<forall>t' u'. walked st nd ?g ?e n' t u t' u' \<longrightarrow> walked st nd ?g cur n t u t' u'"
        unfolding d(1) by blast
      have "sub64 (add64 cur ?sz) (mi_end (get_memory_info b)) div PAGE_SIZE = n'"
        using n'(2) [symmetric] less.prems(3) assms(2) w by simp
      then have "update_loop wanted change cur n m u = update_loop wanted change ?e n' m u"
        using skip False w fa(2,6) by (subst update_loop.simps) (simp add: Let_def)
      moreover have "?e + n' * PAGE_SIZE \<le> nd" using n'(2) less.prems(3) by simp
      ultimately show ?thesis
        using less.IH [OF n'(1) less.prems(1) n'(4) _ n'(3) less.prems(5-7) n'(5)] n'(6) by fastforce
    next
      case change
      have "\<forall>b'. props b' = props b \<longrightarrow> props (change b') = ?g (props b)"
        using change assms(10,11) by simp
      from change_step [where g = ?g and change = change, OF ti assms(2) d(2,3) less.prems(3,4) False bt less.prems(6,7,2)
          assms(12,13) this less.prems(8) [unfolded d(1)], folded d(1)]
      obtain xs' b' ys' u1 where c: "carve cur ?sz k b m u = Some (cur, cur, b', m\<lparr>block_tree := xs' @ (cur, b') # ys'\<rparr>, u1)"
        "bt_modify cur change (xs' @ (cur, b') # ys') = xs' @ (cur, change b') # ys'"
        "mi_size (get_memory_info b') = m_num_pages b' * PAGE_SIZE" "mi_num_pages (get_memory_info b') = m_num_pages b'"
        "m_num_pages b' \<le> n" "0 < m_num_pages b'"
        "cur + m_num_pages b' * PAGE_SIZE + (n - m_num_pages b') * PAGE_SIZE = cur + ?sz"
        "tiled st nd (xs' @ (cur, change b') # ys')" "PAGE_SIZE dvd cur + m_num_pages b' * PAGE_SIZE - st"
        "room (budget (xs' @ (cur, change b') # ys') nd (cur + m_num_pages b' * PAGE_SIZE) (n - m_num_pages b')) u1"
        "\<forall>t' u'. walked st nd ?g (cur + m_num_pages b' * PAGE_SIZE) (n - m_num_pages b') (xs' @ (cur, change b') # ys') u1 t' u'
           \<longrightarrow> walked st nd ?g cur n t u t' u'"
        by (elim exE conjE) (rule that, assumption+)
      let ?m1 = "m\<lparr>block_tree := xs' @ (cur, change b') # ys'\<rparr>" and ?c' = "cur + m_num_pages b' * PAGE_SIZE"
      have "n < W64" using w(1) less.prems(3) assms(2) by simp
      then have "sub64 n (m_num_pages b') = n - m_num_pages b'" "add64 cur (m_num_pages b' * PAGE_SIZE) = ?c'"
        using c(5,7) less.prems(3) assms(2) by simp_all
      then have run: "update_loop wanted change cur n m u = update_loop wanted change ?c' (n - m_num_pages b') ?m1 u1"
        using change False w(1) fa(2,6) c(1-4) by (subst update_loop.simps) (simp add: Let_def)
      have "n - m_num_pages b' < n" "st \<le> ?c'" "?c' + (n - m_num_pages b') * PAGE_SIZE \<le> nd"
        "block_tree ?m1 = xs' @ (cur, change b') # ys'" "start_address ?m1 = st" "end_address ?m1 = nd"
        using c(6,7) False less.prems(2,3,6,7) by simp_all
      from less.IH [OF this(1) c(8) this(2,3) c(9) this(4-6) c(10)] run c(11) show ?thesis by fastforce
    qed
  qed
qed

section \<open>Merging\<close>

text \<open>
  The books of the nodes: apart from \<open>h\<close> nodes used elsewhere, the nodes in use are the blocks of the
  tree and those the allocator holds.
\<close>

definition booked :: "nat \<Rightarrow> nodes \<Rightarrow> node_manager \<Rightarrow> tree \<Rightarrow> bool" where
  "booked h u s t \<longleftrightarrow> (case u of None \<Rightarrow> True
     | Some a \<Rightarrow> slots_from (ua_index a) (ua_blocks a) \<and> rm_wf 0x40 s \<and>
         rm_used s = (MAX_BLOCKS - ua_index a) + (h + length t))"

lemma booked_took:
  assumes "booked h u s t" "took c u u'" "length t' = length t + c"
  shows "booked h u' s t'"
proof (cases u)
  case (Some a)
  then obtain a' where a': "u' = Some a'" "slots_from (ua_index a') (ua_blocks a')" "ua_index a' = ua_index a + c"
    using assms(2) by (auto simp: took_def)
  then have "ua_index a + c \<le> MAX_BLOCKS" by (simp add: slots_from_def)
  then show ?thesis using assms(1,3) a' Some by (auto simp: booked_def)
qed (use assms in \<open>auto simp: booked_def took_def\<close>)

text \<open>Merging the block after the current one into it.\<close>

lemma merge_next:
  assumes "tiled st nd (xs @ (k, c) # (k2, n) # ys)" "nd < W64" "can_merge_with c n"
  shows "bt_modify k (mb_add n) (bt_remove k2 (xs @ (k, c) # (k2, n) # ys)) = xs @ (k, mb_add n c) # ys"
    "tiled st nd (xs @ (k, mb_add n c) # ys)"
    "page_at (xs @ (k, mb_add n c) # ys) = page_at (xs @ (k, c) # (k2, n) # ys)"
proof -
  have s: "bt_sorted ((xs @ [(k, c)]) @ (k2, n) # ys)" using tiled_sorted [OF assms(1)] by simp
  have r: "bt_remove k2 (xs @ (k, c) # (k2, n) # ys) = xs @ (k, c) # ys" using bt_at(2) [OF s] by simp
  have "bt_sorted (xs @ (k, c) # ys)" using s by (auto simp: bt_sorted_append bt_sorted_Cons)
  then show "bt_modify k (mb_add n) (bt_remove k2 (xs @ (k, c) # (k2, n) # ys)) = xs @ (k, mb_add n c) # ys"
    unfolding r by (rule bt_at(3))
  have t: "k2 = k + m_num_pages c * PAGE_SIZE" "m_address c = k" "0 < m_num_pages c" "m_address n = k2"
    "tiled (k2 + m_num_pages n * PAGE_SIZE) nd ys" "tiled st k xs"
    using assms(1) by (simp_all add: tiled_mid)
  have "k2 + m_num_pages n * PAGE_SIZE \<le> nd" using tiled_le [OF t(5)] .
  then have "m_num_pages c + m_num_pages n < W64" using t(1) assms(2) by linarith
  then have np: "m_num_pages (mb_add n c) = m_num_pages c + m_num_pages n" "m_address (mb_add n c) = k"
    using t(2) by (simp_all add: mb_add_def)
  show T: "tiled st nd (xs @ (k, mb_add n c) # ys)"
    using t np by (simp add: tiled_mid add_mult_distrib add.assoc)
  have "props c = props n" using assms(3) by (simp add: can_merge_with_def has_same_properties_iff)
  then show "page_at (xs @ (k, mb_add n c) # ys) = page_at (xs @ (k, c) # (k2, n) # ys)"
    using np t(1) unfolding page_at_append by (auto simp: fun_eq_iff add_mult_distrib split: option.splits)
qed

lemma give_node:
  assumes "booked h (Some a) s t" "length t' + 1 = length t"
  shows "\<exists>a' s'. ua_free rm_free n a s = Some (a', s') \<and> booked h (Some a') s' t'"
proof -
  have a: "slots_from (ua_index a) (ua_blocks a)" "rm_wf 0x40 s"
    "rm_used s = (MAX_BLOCKS - ua_index a) + (h + length t)" using assms(1) by (simp_all add: booked_def)
  have "0 < h + length t" using assms(2) by linarith
  from slab.ua_step(2) [OF a this, of n] obtain a' s' where "ua_free rm_free n a s = Some (a', s')"
    "slots_from (ua_index a') (ua_blocks a')" "rm_wf 0x40 s'" 
    "rm_used s' = (MAX_BLOCKS - ua_index a') + (h + length t - 1)" by blast
  then show ?thesis using assms(2) by (intro exI [of _ a'] exI [of _ s']) (simp add: booked_def)
qed

lemma coalesce_loop_ok:
  assumes "tiled st nd (xs @ (k, c) # ys)" "nd < W64" "booked h u s (xs @ (k, c) # ys)"
  shows "\<exists>t' u' s'. coalesce_loop e k (xs @ (k, c) # ys) u s = Some (t', u', s') \<and> tiled st nd t' \<and>
    page_at t' = page_at (xs @ (k, c) # ys) \<and> booked h u' s' t' \<and> (u = None \<longrightarrow> u' = None \<and> s' = s)"
  using assms(1,3)
proof (induction ys arbitrary: xs k c u s)
  case Nil
  have "first_gt k (xs @ [(k, c)]) = None" using bt_at(4) [OF tiled_sorted [OF Nil.prems(1)]] by simp
  then show ?case using Nil.prems by (subst coalesce_loop.simps) auto
next
  case (Cons nx ys)
  obtain k2 n where nx: "nx = (k2, n)" by force
  let ?t = "xs @ (k, c) # (k2, n) # ys"
  note t = Cons.prems(1) [unfolded nx] and so = tiled_sorted [OF Cons.prems(1) [unfolded nx]]
  have t2: "tiled st nd ((xs @ [(k, c)]) @ (k2, n) # ys)" using t by simp
  have f: "first_gt k ?t = Some (k2, n)" using bt_at(4) [OF so] by simp
  have g: "bt_get k ?t = Some c" "bt_get k2 ?t = Some n"
    using bt_at(1) [OF so] bt_at(1) [OF tiled_sorted [OF t2]] by simp_all
  show ?case
  proof (cases "can_merge_with c n")
    case True
    let ?t1 = "xs @ (k, mb_add n c) # ys"
    note mg = merge_next [OF t assms(2) True]
    have "\<exists>u1 s1. (case u of None \<Rightarrow> Some (None, s)
        | Some a \<Rightarrow> do { (a, s) \<leftarrow> ua_free rm_free n a s; Some (Some a, s) }) = Some (u1, s1) \<and>
        booked h u1 s1 ?t1 \<and> (u = None \<longrightarrow> u1 = None \<and> s1 = s)"
    proof (cases u)
      case None
      then show ?thesis by (simp add: booked_def)
    next
      case (Some a)
      then show ?thesis using give_node [of h a s "xs @ (k, c) # nx # ys" ?t1 n] Cons.prems(2) by auto
    qed
    then obtain u1 s1 where g1: "(case u of None \<Rightarrow> Some (None, s)
        | Some a \<Rightarrow> do { (a, s) \<leftarrow> ua_free rm_free n a s; Some (Some a, s) }) = Some (u1, s1)"
        "booked h u1 s1 ?t1" "u = None \<longrightarrow> u1 = None \<and> s1 = s" by blast
    have run: "coalesce_loop e k ?t u s =
        (if e < mb_end (mb_add n c) then Some (?t1, u1, s1) else coalesce_loop e k ?t1 u1 s1)"
      using f g g1(1) mg(1) True bt_at(1) [OF tiled_sorted [OF mg(2)]] by (subst coalesce_loop.simps) simp
    show ?thesis
    proof (cases "e < mb_end (mb_add n c)")
      case True
      then show ?thesis using run mg(2,3) g1(2,3) unfolding nx by auto
    next
      case False
      from Cons.IH [OF mg(2) g1(2)] run False mg(3) g1(3) show ?thesis unfolding nx by auto
    qed
  next
    case False
    have run: "coalesce_loop e k ?t u s = (if e < mb_end n then Some (?t, u, s) else coalesce_loop e k2 ?t u s)"
      using f g False by (subst coalesce_loop.simps) simp
    have "booked h u s ((xs @ [(k, c)]) @ (k2, n) # ys)" using Cons.prems(2) nx by simp
    from Cons.IH [OF t2 this] run t Cons.prems(2) show ?thesis
      unfolding nx by (cases "e < mb_end n") auto
  qed
qed

lemma find_rev_at:
  assumes "tiled st nd (xs @ (k, b) # ys)" "nd < W64" "k \<le> x" "x < k + m_num_pages b * PAGE_SIZE"
  shows "find_rev x (xs @ (k, b) # ys) = Some k"
proof -
  note b = tiled_block [OF assms(1,2)]
  have "tiled (k + m_num_pages b * PAGE_SIZE) nd ys" using assms(1) by (simp add: tiled_mid)
  then have "\<forall>e \<in> set ys. \<not> fst e \<le> x" using tiled_keys assms(4) by fastforce
  then have "filter (\<lambda>e. fst e \<le> x) ys = []" by (rule filter_none)
  moreover have "holds_address x b" using b assms(3,4) by (simp add: holds_address_def)
  ultimately show ?thesis using assms(3) by (simp add: find_rev_def)
qed

lemma coalesce_for_update_ok:
  assumes "tiled st nd t" "nd < W64" "st \<le> address" "address < nd" "block_tree m = t"
    "start_address m = st" "booked h u s t"
  shows "\<exists>t' u' s'. coalesce_for_update address n m u s = Some (m\<lparr>block_tree := t'\<rparr>, u', s') \<and> tiled st nd t' \<and>
    page_at t' = page_at t \<and> booked h u' s' t' \<and> (u = None \<longrightarrow> u' = None \<and> s' = s)"
proof -
  obtain xs k b ys where d: "t = xs @ (k, b) # ys" "k \<le> address" "address < k + m_num_pages b * PAGE_SIZE"
    using tiled_find [OF assms(1,3,4)] by blast
  note t = assms(1) [unfolded d(1)]
  have f: "find_rev address t = Some k" unfolding d(1) by (rule find_rev_at [OF t assms(2) d(2,3)])
  let ?cur = "if address \<noteq> start_address m then case last_lt k t of Some (k, _) \<Rightarrow> k | None \<Rightarrow> k else k"
  have "\<exists>xs' k' b' ys'. t = xs' @ (k', b') # ys' \<and> ?cur = k'"
  proof (cases "address = start_address m \<or> xs = []")
    case True
    then have "?cur = k" using bt_at(5) [OF tiled_sorted [OF t]] d(1) by auto
    then show ?thesis using d(1)
      by (intro exI [of _ xs] exI [of _ k] exI [of _ b] exI [of _ ys]) simp
  next
    case False
    then obtain xs' p where p: "xs = xs' @ [p]" by (metis rev_exhaust)
    then have "last_lt k t = Some p" using bt_at(5) [OF tiled_sorted [OF t]] d(1) by simp
    then show ?thesis using False d(1) p by (cases p) auto
  qed
  then obtain xs' k' b' ys' where e: "t = xs' @ (k', b') # ys'" "?cur = k'" by blast
  from coalesce_loop_ok [of st nd xs' k' b' ys' h u s "add64 address (mul64 n PAGE_SIZE)"] assms(1,2,7)
  obtain t' u' s' where "coalesce_loop (add64 address (mul64 n PAGE_SIZE)) k' t u s = Some (t', u', s')"
    "tiled st nd t'" "page_at t' = page_at t" "booked h u' s' t'" "u = None \<longrightarrow> u' = None \<and> s' = s"
    unfolding e(1) by blast
  moreover have "coalesce_for_update address n m u s =
      do { (t, u, s) \<leftarrow> coalesce_loop (add64 address (mul64 n PAGE_SIZE)) k' t u s; Some (m\<lparr>block_tree := t\<rparr>, u, s) }"
    unfolding e(2) [symmetric] using assms(5) f d(1) by (simp add: coalesce_for_update_def Let_def)
  ultimately show ?thesis by auto
qed

end
