(* ===== verification/MemoryBlockUpdates.thy ===== *)
theory MemoryBlockUpdates
  imports MemoryBlockManager
begin

text \<open>
  What the operations of the memory block manager do to the pages of the address space, as
  \<open>query_info\<close> shows them: update, update_if_match, update_attribute and update_lock change exactly
  the pages of their range, keep the tiling and the books of the nodes, and never panic;
  find_free_area answers the lowest address that fits.
\<close>

section \<open>The pages of a manager\<close>

definition info_props :: "KMemoryInfo \<Rightarrow> PageProps" where
  "info_props i = \<lparr>pp_state = mi_state i, pp_permission = mi_permission i, pp_original = mi_original_permission i,
     pp_attribute = mi_attribute i, pp_ipc_locks = mi_ipc_lock_count i, pp_device_uses = mi_device_use_count i\<rparr>"

definition pages :: "KMemoryBlockManager \<Rightarrow> nat \<Rightarrow> PageProps option" where
  "pages m x = map_option info_props (query_info x m)"

definition mbm_wf :: "KMemoryBlockManager \<Rightarrow> bool" where
  "mbm_wf m \<longleftrightarrow> tiled (start_address m) (end_address m) (block_tree m) \<and> end_address m < W64"

lemma info_props [simp]: "info_props (get_memory_info b) = props b"
  by (simp add: info_props_def get_memory_info_def props_def)

lemma find_block_out:
  assumes "tiled st nd (block_tree m)" "nd < W64" "\<not> (st \<le> x \<and> x < nd)"
  shows "find_block x m = None"
proof (cases "last_le x (block_tree m)")
  case (Some e)
  obtain k b where e: "e = (k, b)" by force
  then have "(k, b) \<in> set (block_tree m)"
    using Some last_in_set [of "filter (\<lambda>e. fst e \<le> x) (block_tree m)"]
    by (auto simp: last_le_def Let_def split: if_splits)
  then obtain xs ys where t: "block_tree m = xs @ (k, b) # ys" by (meson split_list)
  note b = tiled_block [OF assms(1) [unfolded t] assms(2)]
  have "\<not> holds_address x b" using b assms(3) by (auto simp: holds_address_def)
  then show ?thesis using Some e by (simp add: find_block_def)
qed (simp add: find_block_def)

lemma pages_eq:
  assumes "mbm_wf m"
  shows "pages m = page_at (block_tree m)"
proof
  fix x
  note t = assms [unfolded mbm_wf_def]
  show "pages m x = page_at (block_tree m) x"
  proof (cases "start_address m \<le> x \<and> x < end_address m")
    case True
    then obtain xs k b ys where d: "block_tree m = xs @ (k, b) # ys" "k \<le> x" "x < k + m_num_pages b * PAGE_SIZE"
      using tiled_find t by blast
    note ti = conjunct1 [OF t, unfolded d(1)]
    have "find_block x m = Some b" using find_at(3) [OF ti _ d(2,3,1)] t by blast
    then show ?thesis using d page_at_mid [OF ti] by (simp add: pages_def query_info_def)
  next
    case False
    then show ?thesis using find_block_out [OF conjunct1 [OF t] conjunct2 [OF t]] page_at_out [OF conjunct1 [OF t]]
      by (simp add: pages_def query_info_def)
  qed
qed

text \<open>A walk that is followed by a merge; \<open>2\<close> nodes are always enough.\<close>

lemma walk_and_merge:
  assumes "mbm_wf m" "start_address m \<le> address" "address + n * PAGE_SIZE \<le> end_address m" "n \<noteq> 0"
    "walked (start_address m) (end_address m) g address n (block_tree m) u t1 u1"
    "booked h u s (block_tree m)"
  shows "\<exists>m' u' s'. coalesce_for_update address n (m\<lparr>block_tree := t1\<rparr>) u1 s = Some (m', u', s') \<and> mbm_wf m' \<and>
    start_address m' = start_address m \<and> end_address m' = end_address m \<and>
    pages m' = on_range address (address + n * PAGE_SIZE) g (pages m) \<and> booked h u' s' (block_tree m') \<and>
    (u = None \<longrightarrow> u' = None \<and> s' = s)"
proof -
  note w = assms(5) [unfolded walked_def] and wf = assms(1) [unfolded mbm_wf_def]
  obtain c where c: "took c u u1" "length t1 = length (block_tree m) + c" using w by blast
  have lt: "address < end_address m" using assms(3,4) by simp
  from coalesce_for_update_ok [of "start_address m" "end_address m" t1 address "m\<lparr>block_tree := t1\<rparr>" h u1 s n]
    w wf assms(2) lt booked_took [OF assms(6) c]
  obtain t' u' s' where r: "coalesce_for_update address n (m\<lparr>block_tree := t1\<rparr>) u1 s =
      Some (m\<lparr>block_tree := t'\<rparr>, u', s')" "tiled (start_address m) (end_address m) t'" "page_at t' = page_at t1"
      "booked h u' s' t'" "u1 = None \<longrightarrow> u' = None \<and> s' = s" by auto
  have "mbm_wf (m\<lparr>block_tree := t'\<rparr>)" using r(2) wf by (simp add: mbm_wf_def)
  moreover have "u = None \<longrightarrow> u1 = None" using c(1) by (auto simp: took_def)
  ultimately show ?thesis using r w pages_eq [OF assms(1)] pages_eq [of "m\<lparr>block_tree := t'\<rparr>"] by simp
qed

lemma budget_le: "budget t nd x n \<le> 2"
  by (simp add: budget_def cuts_def)

lemma update_and_merge:
  assumes "mbm_wf m" "start_address m \<le> address" "address + n * PAGE_SIZE \<le> end_address m" "n \<noteq> 0"
    "PAGE_SIZE dvd address - start_address m" "room 2 u" "booked h u s (block_tree m)"
    "\<And>b. wanted b = W (props b)" "\<And>b. props (change b) = F (props b)"
    "\<And>b. m_address (change b) = m_address b" "\<And>b. m_num_pages (change b) = m_num_pages b"
  shows "\<exists>m' u' s'. do { (m, u) \<leftarrow> update_loop wanted change address n m u; coalesce_for_update address n m u s } =
      Some (m', u', s') \<and> mbm_wf m' \<and> start_address m' = start_address m \<and> end_address m' = end_address m \<and>
    pages m' = on_range address (address + n * PAGE_SIZE) (\<lambda>x. if W x then F x else x) (pages m) \<and>
    booked h u' s' (block_tree m') \<and> (u = None \<longrightarrow> u' = None \<and> s' = s)"
proof -
  note wf = assms(1) [unfolded mbm_wf_def]
  have ro: "room (budget (block_tree m) (end_address m) address n) u" by (rule room_le [OF assms(6) budget_le])
  from update_loop_ok [where wanted = wanted and change = change and W = W and F = F,
      OF conjunct1 [OF wf] conjunct2 [OF wf] assms(2,3,5) refl refl refl ro assms(8-11)]
  obtain t1 u1 where r: "update_loop wanted change address n m u = Some (m\<lparr>block_tree := t1\<rparr>, u1)"
    "walked (start_address m) (end_address m) (\<lambda>x. if W x then F x else x) address n (block_tree m) u t1 u1" by blast
  from walk_and_merge [OF assms(1-4) r(2) assms(7)] r(1) show ?thesis by simp
qed

section \<open>Update\<close>

text \<open>The assumptions shared by the operations: a range of whole pages inside the address space.\<close>

definition good_range :: "nat \<Rightarrow> nat \<Rightarrow> KMemoryBlockManager \<Rightarrow> bool" where
  "good_range address n m \<longleftrightarrow> n \<noteq> 0 \<and> start_address m \<le> address \<and> address + n * PAGE_SIZE \<le> end_address m \<and>
     PAGE_SIZE dvd address - start_address m"

text \<open>What an operation with the outcome \<open>r\<close> does: it changes the pages of the range by \<open>g\<close>.\<close>

definition changes_pages ::
  "nat \<Rightarrow> nat \<Rightarrow> (PageProps \<Rightarrow> PageProps) \<Rightarrow> nat \<Rightarrow> nodes \<Rightarrow> node_manager \<Rightarrow> KMemoryBlockManager \<Rightarrow>
   (KMemoryBlockManager \<times> nodes \<times> node_manager) option \<Rightarrow> bool" where
  "changes_pages address n g h u s m r \<longleftrightarrow> (\<exists>m' u' s'. r = Some (m', u', s') \<and> mbm_wf m' \<and>
     start_address m' = start_address m \<and> end_address m' = end_address m \<and>
     pages m' = on_range address (address + n * PAGE_SIZE) g (pages m) \<and>
     booked h u' s' (block_tree m') \<and> (u = None \<longrightarrow> u' = None \<and> s' = s))"

lemma update_changes:
  assumes "mbm_wf m" "good_range address n m" "room 2 u" "booked h u s (block_tree m)"
    "\<And>b. wanted b = W (props b)" "\<And>b. props (change b) = F (props b)"
    "\<And>b. m_address (change b) = m_address b" "\<And>b. m_num_pages (change b) = m_num_pages b"
  shows "changes_pages address n (\<lambda>x. if W x then F x else x) h u s m
    (do { (m, u) \<leftarrow> update_loop wanted change address n m u; coalesce_for_update address n m u s })"
  using update_and_merge [where wanted = wanted and change = change and W = W and F = F,
      OF assms(1) _ _ _ _ assms(3-8), of address n] assms(2)
  unfolding changes_pages_def good_range_def by blast

lemma page_has_update: "page_has s p a (page_update s p a x)"
  by (simp add: page_has_def page_update_def) (intro bit_eqI, auto simp: bit_simps)

text \<open>
  C15: \<open>update\<close> on a tiled address space, with two reserved nodes (or without an allocator), never
  panics and changes exactly the pages of its range: those that do not yet have the wanted state,
  permission and attribute get them (the lock flags of the attribute survive), every page outside
  keeps everything, the blocks tile the space as before and every node is accounted for.
  Afterwards each page of the range has the properties asked for.
\<close>

theorem memory_block_update_exact:
  assumes "mbm_wf m" "good_range address n m" "room 2 u" "booked h u s (block_tree m)"
  shows "changes_pages address n (\<lambda>x. if page_has st perm attr x then x else page_update st perm attr x) h u s m
      (mbm_update address n st perm attr set_disable clear_disable m u s) \<and>
    (\<forall>m' u' s' x p. mbm_update address n st perm attr set_disable clear_disable m u s = Some (m', u', s') \<longrightarrow>
       address \<le> x \<longrightarrow> x < address + n * PAGE_SIZE \<longrightarrow> pages m' x = Some p \<longrightarrow> page_has st perm attr p)"
proof -
  let ?g = "\<lambda>x. if \<not> page_has st perm attr x then page_update st perm attr x else x"
  have c: "changes_pages address n ?g h u s m (mbm_update address n st perm attr set_disable clear_disable m u s)"
    unfolding mbm_update_def
    by (rule update_changes [where W = "\<lambda>x. \<not> page_has st perm attr x" and F = "page_update st perm attr", OF assms])
      (simp_all add: has_properties_iff)
  moreover have "?g = (\<lambda>x. if page_has st perm attr x then x else page_update st perm attr x)" by auto
  ultimately show ?thesis by (auto simp: changes_pages_def on_range_def page_has_update)
qed

text \<open>
  \<open>update_if_match\<close> changes exactly the pages of the range that have the tested state,
  permission and attribute and not yet the new ones; all else as for \<open>update\<close>.
\<close>

theorem memory_block_update_if_match_exact:
  assumes "mbm_wf m" "good_range address n m" "room 2 u" "booked h u s (block_tree m)"
  shows "changes_pages address n (\<lambda>x. if page_has ts tp ta x \<and> \<not> page_has st perm attr x then page_update st perm attr x else x)
      h u s m (update_if_match address n ts tp ta st perm attr set_disable clear_disable m u s)"
  unfolding update_if_match_def
  by (rule update_changes [where W = "\<lambda>x. page_has ts tp ta x \<and> \<not> page_has st perm attr x" and F = "page_update st perm attr", OF assms])
    (simp_all add: has_properties_iff)

section \<open>Update of the attribute\<close>

text \<open>The lookups by the last entry find what the lookups of \<open>update\<close> find.\<close>

lemma look_at_key:
  assumes "look_at x m = Some (k, b)"
  shows "key_le x (block_tree m) = k" "bt_get k (block_tree m) = Some b"
  using assms by (auto simp: look_at_def find_key_containing_def key_le_def split: bind_splits option.splits if_splits)

lemma attribute_carve:
  assumes "carve cur sz k b m u = Some (cur, key, b', m', u')" "look_at cur m = Some (k, b)" "add64 cur sz = e"
  shows "do { (m, u) \<leftarrow> (if mi_address (get_memory_info b) = cur then Some (m, u) else split_at cur m u);
      b \<leftarrow> bt_get (key_le cur (block_tree m)) (block_tree m);
      (m, u) \<leftarrow> (if sz < mi_size (get_memory_info b) then split_at e m u else Some (m, u));
      b \<leftarrow> bt_get (key_le cur (block_tree m)) (block_tree m);
      f b m u } = f b' m' u'" "key_le cur (block_tree m') = key"
proof -
  obtain cur1 k1 b1 m1 u1 where s1: "(if mi_address (get_memory_info b) \<noteq> cur then do {
          (m, u) \<leftarrow> split_at cur m u;
          (key, b) \<leftarrow> look_at cur m;
          Some (mi_address (get_memory_info b), key, b, m, u) }
        else Some (cur, k, b, m, u)) = Some (cur1, k1, b1, m1, u1)"
    and s2: "(if mi_size (get_memory_info b1) > sz then do {
        (m, u) \<leftarrow> split_at (add64 cur1 sz) m1 u1;
        (key, b) \<leftarrow> look_at cur1 m;
        Some (cur1, key, b, m, u) }
      else Some (cur1, k1, b1, m1, u1)) = Some (cur, key, b', m', u')"
    using assms(1) unfolding carve_def bind_eq_Some_conv by (auto simp only: split_paired_Ex prod.case)
  have cur1: "cur1 = cur" using s2 by (auto split: if_splits bind_splits)
  have f: "(if mi_address (get_memory_info b) = cur then Some (m, u) else split_at cur m u) = Some (m1, u1)"
    "look_at cur m1 = Some (k1, b1)"
    using s1 assms(2) by (auto split: if_splits bind_splits)
  have g: "(if sz < mi_size (get_memory_info b1) then split_at e m1 u1 else Some (m1, u1)) = Some (m', u')"
    "look_at cur m' = Some (key, b')"
    using s2 f(2) assms(3) unfolding cur1 by (auto split: if_splits bind_splits)
  show "key_le cur (block_tree m') = key" by (rule look_at_key(1) [OF g(2)])
  show "do { (m, u) \<leftarrow> (if mi_address (get_memory_info b) = cur then Some (m, u) else split_at cur m u);
      b \<leftarrow> bt_get (key_le cur (block_tree m)) (block_tree m);
      (m, u) \<leftarrow> (if sz < mi_size (get_memory_info b) then split_at e m u else Some (m, u));
      b \<leftarrow> bt_get (key_le cur (block_tree m)) (block_tree m);
      f b m u } = f b' m' u'"
    unfolding f(1) by (simp add: look_at_key [OF f(2)] look_at_key [OF g(2)] g(1))
qed

lemma attribute_loop_ok:
  assumes "tiled st nd t" "nd < W64" "st \<le> cur" "e = cur + n * PAGE_SIZE" "e \<le> nd" "PAGE_SIZE dvd cur - st"
    "block_tree m = t" "start_address m = st" "end_address m = nd" "room (budget t nd cur n) u"
  shows "\<exists>t' u'. attribute_loop msk attr e cur m u = Some (m\<lparr>block_tree := t'\<rparr>, u') \<and>
    walked st nd (\<lambda>x. if pp_attribute x AND msk \<noteq> attr
        then x\<lparr>pp_attribute := (pp_attribute x AND NOT msk) OR attr\<rparr> else x) cur n t u t' u'"
  using assms(1,3-10)
proof (induction n arbitrary: cur t m u rule: less_induct)
  case (less n)
  let ?g = "\<lambda>x. if pp_attribute x AND msk \<noteq> attr then x\<lparr>pp_attribute := (pp_attribute x AND NOT msk) OR attr\<rparr> else x"
  have same: "m\<lparr>block_tree := t\<rparr> = m" unfolding less.prems(6) [symmetric] by simp
  note en = less.prems(3)
  have top: "cur + n * PAGE_SIZE \<le> nd" using less.prems(3,4) by simp
  show ?case
  proof (cases "n = 0")
    case True
    then have "attribute_loop msk attr e cur m u = Some (m, u)" using en by (subst attribute_loop.simps) simp
    then show ?thesis using walked_same [OF less.prems(1,9), of cur n ?g] True same
      by (intro exI [of _ t] exI [of _ u]) simp
  next
    case False
    let ?sz = "n * PAGE_SIZE"
    have lt: "cur < nd" using False top by simp
    obtain xs k b ys where d: "t = xs @ (k, b) # ys" "k \<le> cur" "cur < k + m_num_pages b * PAGE_SIZE"
      using tiled_find [OF less.prems(1,2) lt] by blast
    note ti = less.prems(1) [unfolded d(1)] and bt = less.prems(6) [unfolded d(1)]
    note b = tiled_block [OF ti assms(2)] and fa = find_at [OF ti assms(2) d(2,3) bt]
    let ?e = "k + m_num_pages b * PAGE_SIZE"
    have w: "sub64 e cur = ?sz" "add64 cur ?sz = e" "cur < e" "mi_end (get_memory_info b) = ?e"
      using top assms(2) b en False by (simp_all add: mi_end_def get_memory_info_def mb_end_def)
    have att: "m_attribute b = pp_attribute (props b)" by (rule props_fields)
    consider (last) "m_attribute b AND msk = attr" "e < ?e" | (skip) "m_attribute b AND msk = attr" "?e \<le> e"
      | (change) "m_attribute b AND msk \<noteq> attr" by fastforce
    then show ?thesis
    proof cases
      case last
      have "attribute_loop msk attr e e m u = Some (m, u)" by (subst attribute_loop.simps) simp
      then have "attribute_loop msk attr e cur m u = Some (m, u)"
        using last w fa(2,6) by (subst attribute_loop.simps) (simp add: Let_def)
      moreover have "on_range cur (cur + ?sz) ?g (page_at t) = page_at t"
        unfolding d(1) by (rule skip_block [where g = ?g, OF ti d(2)]) (use last en att in simp_all)
      ultimately show ?thesis using walked_same [OF less.prems(1,9), of cur n ?g] same
        by (intro exI [of _ t] exI [of _ u]) simp
    next
      case skip
      have "?g (props b) = props b" using skip(1) att by simp
      from skip_step [where g = ?g, OF ti assms(2) d(2,3) top less.prems(5) skip(2) [unfolded en] this
          less.prems(9) [unfolded d(1)] refl]
      obtain n' where n': "n' < n" "?e + n' * PAGE_SIZE = cur + ?sz" "PAGE_SIZE dvd ?e - st" "st \<le> ?e"
        "room (budget t nd ?e n') u" "\<forall>t' u'. walked st nd ?g ?e n' t u t' u' \<longrightarrow> walked st nd ?g cur n t u t' u'"
        unfolding d(1) by blast
      have "attribute_loop msk attr e cur m u = attribute_loop msk attr e ?e m u"
        using skip w fa(2,6) by (subst attribute_loop.simps) (simp add: Let_def)
      moreover have "e = ?e + n' * PAGE_SIZE" using n'(2) en by simp
      ultimately show ?thesis
        using less.IH [OF n'(1) less.prems(1) n'(4) _ less.prems(4) n'(3) less.prems(6-8) n'(5)] n'(6) by fastforce
    next
      case change
      let ?ch = "mb_update_attribute msk attr"
      have "\<forall>b'. props b' = props b \<longrightarrow> props (?ch b') = ?g (props b)" using change att by simp
      from change_step [where g = ?g and change = ?ch, OF ti assms(2) d(2,3) top less.prems(5) False bt less.prems(7,8,2)
          mb_update_geometry(3,4) this less.prems(9) [unfolded d(1)], folded d(1)]
      obtain xs' b' ys' u1 where c: "carve cur ?sz k b m u = Some (cur, cur, b', m\<lparr>block_tree := xs' @ (cur, b') # ys'\<rparr>, u1)"
        "bt_modify cur ?ch (xs' @ (cur, b') # ys') = xs' @ (cur, ?ch b') # ys'"
        "mi_size (get_memory_info b') = m_num_pages b' * PAGE_SIZE" "mi_num_pages (get_memory_info b') = m_num_pages b'"
        "m_num_pages b' \<le> n" "0 < m_num_pages b'"
        "cur + m_num_pages b' * PAGE_SIZE + (n - m_num_pages b') * PAGE_SIZE = cur + ?sz"
        "tiled st nd (xs' @ (cur, ?ch b') # ys')" "PAGE_SIZE dvd cur + m_num_pages b' * PAGE_SIZE - st"
        "room (budget (xs' @ (cur, ?ch b') # ys') nd (cur + m_num_pages b' * PAGE_SIZE) (n - m_num_pages b')) u1"
        "\<forall>t' u'. walked st nd ?g (cur + m_num_pages b' * PAGE_SIZE) (n - m_num_pages b') (xs' @ (cur, ?ch b') # ys') u1 t' u'
           \<longrightarrow> walked st nd ?g cur n t u t' u'"
        by (elim exE conjE) (rule that, assumption+)
      let ?m1 = "m\<lparr>block_tree := xs' @ (cur, ?ch b') # ys'\<rparr>" and ?c' = "cur + m_num_pages b' * PAGE_SIZE"
      have "?c' \<le> nd" using c(7) top by linarith
      then have "add64 cur (m_num_pages b' * PAGE_SIZE) = ?c'" using assms(2) by simp
      then have next': "add64 cur (mi_size (get_memory_info b')) = ?c'" using c(3) by simp
      let ?f = "\<lambda>b m u. attribute_loop msk attr e (add64 cur (mi_size (get_memory_info b)))
        (m\<lparr>block_tree := bt_modify (key_le cur (block_tree m)) ?ch (block_tree m)\<rparr>) u"
      have "attribute_loop msk attr e cur m u = do {
          (m, u) \<leftarrow> (if mi_address (get_memory_info b) = cur then Some (m, u) else split_at cur m u);
          b \<leftarrow> bt_get (key_le cur (block_tree m)) (block_tree m);
          (m, u) \<leftarrow> (if ?sz < mi_size (get_memory_info b) then split_at e m u else Some (m, u));
          b \<leftarrow> bt_get (key_le cur (block_tree m)) (block_tree m);
          ?f b m u }"
        using change w fa(2,6) by (subst attribute_loop.simps) (simp add: Let_def)
      also have "\<dots> = attribute_loop msk attr e ?c' ?m1 u1"
        unfolding attribute_carve(1) [OF c(1) fa(4) w(2), of ?f] next' attribute_carve(2) [OF c(1) fa(4) w(2)]
        using c(2) by simp
      finally have run: "attribute_loop msk attr e cur m u = attribute_loop msk attr e ?c' ?m1 u1" .
      have "n - m_num_pages b' < n" "st \<le> ?c'" "e = ?c' + (n - m_num_pages b') * PAGE_SIZE"
        "block_tree ?m1 = xs' @ (cur, ?ch b') # ys'" "start_address ?m1 = st" "end_address ?m1 = nd"
        using c(6,7) False less.prems(2,7,8) en by simp_all
      from less.IH [OF this(1) c(8) this(2,3) less.prems(4) c(9) this(4-6) c(10)] run c(11) show ?thesis by fastforce
    qed
  qed
qed

text \<open>
  \<open>update_attribute\<close> replaces the masked bits of the attribute of exactly those pages of the
  range whose masked bits differ; nothing else changes and nothing panics.
\<close>

theorem memory_block_attribute_exact:
  assumes "mbm_wf m" "good_range address n m" "room 2 u" "booked h u s (block_tree m)"
  shows "changes_pages address n (\<lambda>x. if pp_attribute x AND msk \<noteq> attr
        then x\<lparr>pp_attribute := (pp_attribute x AND NOT msk) OR attr\<rparr> else x) h u s m
      (mbm_update_attribute address n msk attr m u s)"
proof -
  let ?g = "\<lambda>x. if pp_attribute x AND msk \<noteq> attr then x\<lparr>pp_attribute := (pp_attribute x AND NOT msk) OR attr\<rparr> else x"
  note wf = assms(1) [unfolded mbm_wf_def] and g = assms(2) [unfolded good_range_def]
  have top: "address + n * PAGE_SIZE < W64" using g wf by linarith
  then have e: "add64 address (mul64 n PAGE_SIZE) = address + n * PAGE_SIZE" by simp
  have ro: "room (budget (block_tree m) (end_address m) address n) u" by (rule room_le [OF assms(3) budget_le])
  from attribute_loop_ok [OF conjunct1 [OF wf] conjunct2 [OF wf] _ refl _ _ refl refl refl ro] g
  obtain t1 u1 where r: "attribute_loop msk attr (address + n * PAGE_SIZE) address m u = Some (m\<lparr>block_tree := t1\<rparr>, u1)"
    "walked (start_address m) (end_address m) ?g address n (block_tree m) u t1 u1" by blast
  from walk_and_merge [OF assms(1) _ _ _ r(2) assms(4)] g r(1) show ?thesis
    by (simp add: changes_pages_def mbm_update_attribute_def e)
qed

section \<open>Locks\<close>

text \<open>After its two splits the range is a run of whole blocks.\<close>

lemma tiled_at_cut:
  assumes "tiled st nd t" "cuts t nd x = 0"
  shows "\<exists>xs ys. t = xs @ ys \<and> tiled st x xs \<and> tiled x nd ys"
proof (cases "x = nd")
  case True
  then show ?thesis using assms(1) by (intro exI [of _ t] exI [of _ "[]"]) simp
next
  case False
  then obtain b where "(x, b) \<in> set t" using assms(2) by (auto simp: cuts_def split: if_splits)
  then obtain xs ys where "t = xs @ (x, b) # ys" by (meson split_list)
  moreover have "tiled x nd ((x, b) # ys)" "tiled st x xs" using assms(1) calculation by (simp_all add: tiled_mid)
  ultimately show ?thesis by blast
qed

lemma range_of_tiling:
  assumes "tiled st lo xs" "tiled lo hi zs" "tiled hi nd ys" "lo \<le> hi"
  shows "bt_range lo hi (xs @ zs @ ys) = Some zs"
proof -
  have "\<forall>e \<in> set xs. \<not> (lo \<le> fst e \<and> fst e < hi)" using tiled_keys [OF assms(1)] by fastforce
  moreover have "\<forall>e \<in> set zs. lo \<le> fst e \<and> fst e < hi" using tiled_keys [OF assms(2)] by fastforce
  moreover have "\<forall>e \<in> set ys. \<not> (lo \<le> fst e \<and> fst e < hi)" using tiled_keys [OF assms(3)] by fastforce
  ultimately show ?thesis using assms(4) by (simp add: bt_range_def filter_none filter_all)
qed

text \<open>The loop over the keys changes the blocks of the run one after the other.\<close>

lemma lock_run:
  assumes "tiled st nd (xs @ zs @ ys)"
    "\<And>i b. m_address (f i b) = m_address b" "\<And>i b. m_num_pages (f i b) = m_num_pages b"
  shows "fold (\<lambda>(i, k) t. bt_modify k (f i) t) (enumerate j (map fst zs)) (xs @ zs @ ys) =
    xs @ map (\<lambda>(i, k, b). (k, f i b)) (enumerate j zs) @ ys"
  using assms(1)
proof (induction zs arbitrary: xs j)
  case (Cons e zs)
  obtain k b where e: "e = (k, b)" by force
  have t: "tiled st nd (xs @ (k, b) # zs @ ys)" using Cons.prems e by simp
  have "bt_modify k (f j) (xs @ (k, b) # zs @ ys) = xs @ (k, f j b) # zs @ ys"
    by (rule bt_at(3) [OF tiled_sorted [OF t]])
  moreover have "tiled st nd ((xs @ [(k, f j b)]) @ zs @ ys)" using t assms(2,3) by (simp add: tiled_mid)
  ultimately show ?case using Cons.IH [of "xs @ [(k, f j b)]" "Suc j"] e by simp
qed simp

lemma tiled_change_run:
  assumes "tiled lo hi zs"
    "\<And>i b. m_address (f i b) = m_address b" "\<And>i b. m_num_pages (f i b) = m_num_pages b"
    "\<And>i b. props (f i b) = L (props b)"
  shows "tiled lo hi (map (\<lambda>(i, k, b). (k, f i b)) (enumerate j zs)) \<and>
    page_at (map (\<lambda>(i, k, b). (k, f i b)) (enumerate j zs)) x = map_option L (page_at zs x)"
  using assms(1)
proof (induction zs arbitrary: lo j)
  case (Cons e zs)
  obtain k b where e: "e = (k, b)" by force
  show ?case using Cons.IH [of "lo + m_num_pages b * PAGE_SIZE" "Suc j"] Cons.prems e assms(2-4) by simp
qed simp

lemma page_at_parts:
  assumes "tiled st lo xs" "tiled lo hi zs" "tiled hi nd ys" "tiled lo hi zs'"
    "\<And>x. page_at zs' x = map_option L (page_at zs x)"
  shows "page_at (xs @ zs' @ ys) = on_range lo hi L (page_at (xs @ zs @ ys))"
proof
  fix x
  have le: "st \<le> lo" "lo \<le> hi" "hi \<le> nd" using assms(1-3) tiled_le by blast+
  note out = page_at_out [OF assms(1), of x] page_at_out [OF assms(2), of x] page_at_out [OF assms(3), of x]
  show "page_at (xs @ zs' @ ys) x = on_range lo hi L (page_at (xs @ zs @ ys)) x"
    using out le assms(5) [of x] by (auto simp: page_at_append on_range_def split: option.splits)
qed

text \<open>
  \<open>update_lock\<close> applies the lock function to exactly the pages of its range (splitting the
  blocks at its two ends), for every lock function that keeps the geometry of a block and whose
  effect on the page properties does not depend on the edges, as the four IPC and device
  functions do. Nothing panics, and tiling and nodes are as for \<open>update\<close>.
\<close>

theorem memory_block_lock_exact:
  assumes "mbm_wf m" "good_range address n m" "room 2 u" "booked h u s (block_tree m)"
    "\<And>l r b. m_address (lock_func perm l r b) = m_address b" "\<And>l r b. m_num_pages (lock_func perm l r b) = m_num_pages b"
    "\<And>l r b. props (lock_func perm l r b) = L (props b)"
  shows "changes_pages address n L h u s m (update_lock address n perm lock_func m u s)"
proof -
  let ?st = "start_address m" and ?nd = "end_address m" and ?t = "block_tree m" and ?e = "address + n * PAGE_SIZE"
  note wf = assms(1) [unfolded mbm_wf_def] and g = assms(2) [unfolded good_range_def]
  have top: "?e < W64" using g wf by linarith
  then have e: "add64 address (mul64 n PAGE_SIZE) = ?e" by simp
  obtain q where "address - ?st = PAGE_SIZE * q" using g by (blast elim: dvdE)
  moreover have "?st \<le> address" using g by blast
  ultimately have "?e - ?st = PAGE_SIZE * (q + n)" by (simp add: algebra_simps)
  then have dv: "PAGE_SIZE dvd ?e - ?st" by (metis dvd_triv_left)
  have le: "address \<le> ?nd" "?st \<le> ?e" using g by simp_all
  have r1: "room (cuts ?t ?nd address + 1) u" by (rule room_le [OF assms(3)]) (simp add: cuts_def)
  from split_at_ok [OF conjunct1 [OF wf] conjunct2 [OF wf] _ le(1) _ refl refl refl r1] g
  obtain t1 u1 where 1: "split_at address m u = Some (m\<lparr>block_tree := t1\<rparr>, u1)" "took (cuts ?t ?nd address) u u1"
    "tiled ?st ?nd t1" "page_at t1 = page_at ?t" "cuts t1 ?nd address = 0" "length t1 = length ?t + cuts ?t ?nd address"
    "fst ` set ?t \<subseteq> fst ` set t1" by blast
  let ?m1 = "m\<lparr>block_tree := t1\<rparr>"
  have r2: "room (cuts t1 ?nd ?e + 0) u1" by (rule room_le [OF took_room [OF 1(2) r1]]) (simp add: cuts_def)
  have top': "?e \<le> ?nd" using g by blast
  have m1: "block_tree ?m1 = t1" "start_address ?m1 = ?st" "end_address ?m1 = ?nd" by simp_all
  have same: "?m1\<lparr>block_tree := t2\<rparr> = m\<lparr>block_tree := t2\<rparr>" for t2 by simp
  from split_at_ok [OF 1(3) conjunct2 [OF wf] le(2) top' dv m1 r2, unfolded same]
  obtain t2 u2 where 2: "split_at ?e ?m1 u1 = Some (m\<lparr>block_tree := t2\<rparr>, u2)" "took (cuts t1 ?nd ?e) u1 u2"
    "tiled ?st ?nd t2" "page_at t2 = page_at t1" "cuts t2 ?nd ?e = 0" "fst ` set t1 \<subseteq> fst ` set t2"
    "length t2 = length t1 + cuts t1 ?nd ?e" by blast
  have "cuts t2 ?nd address = 0" using cuts_le [OF 2(6), of ?nd address] 1(5) by simp
  then obtain xs r where x: "t2 = xs @ r" "tiled ?st address xs" "tiled address ?nd r" using tiled_at_cut [OF 2(3)] by blast
  have "\<forall>a \<in> set xs. fst a \<noteq> ?e" using tiled_keys [OF x(2)] by fastforce
  then have "cuts r ?nd ?e = 0" using 2(5) unfolding x(1) by (auto simp: cuts_def split: if_splits)
  then obtain zs ys where z: "r = zs @ ys" "tiled address ?e zs" "tiled ?e ?nd ys" using tiled_at_cut [OF x(3)] by blast
  let ?f = "\<lambda>i. lock_func perm (i = 0) (i = length zs - 1)"
  define zs' where "zs' = map (\<lambda>(i, k, b). (k, ?f i b)) (enumerate 0 zs)"
  define t3 where "t3 = xs @ zs' @ ys"
  have z': "tiled address ?e zs'" "\<And>x. page_at zs' x = map_option L (page_at zs x)"
    unfolding zs'_def using tiled_change_run [where f = ?f and L = L, OF z(2) assms(5,6,7)] by blast+
  have t3: "tiled ?st ?nd t3" using x(2) z(3) z'(1) unfolding t3_def tiled_append by blast
  have "address \<le> ?e" using g by simp
  then have ra: "bt_range address ?e t2 = Some zs" unfolding x(1) z(1) by (rule range_of_tiling [OF x(2) z(2,3)])
  have ti: "tiled ?st ?nd (xs @ zs @ ys)" using 2(3) x(1) z(1) by simp
  have "fold (\<lambda>(i, key) t. bt_modify key (?f i) t) (enumerate 0 (map fst zs)) (xs @ zs @ ys) = t3"
    unfolding t3_def zs'_def by (rule lock_run [where f = ?f, OF ti assms(5,6)])
  then have run: "update_lock address n perm lock_func m u s = coalesce_for_update address n (m\<lparr>block_tree := t3\<rparr>) u2 s"
    unfolding update_lock_def Let_def e using 1(1) 2(1) ra x(1) z(1) by simp
  have "page_at t3 = on_range address ?e L (page_at t2)"
    unfolding t3_def x(1) z(1) by (rule page_at_parts [OF x(2) z(2,3) z'])
  moreover have "took (cuts ?t ?nd address + cuts t1 ?nd ?e) u u2" by (rule took_trans [OF 1(2) 2(2)])
  moreover have "length t3 = length ?t + (cuts ?t ?nd address + cuts t1 ?nd ?e)"
    using 1(6) 2(7) unfolding t3_def zs'_def x(1) z(1) by simp
  moreover have "cuts ?t ?nd address + cuts t1 ?nd ?e \<le> budget ?t ?nd address n"
    using cuts_le [OF 1(7), of ?nd ?e] g by (simp add: budget_def)
  ultimately have "walked ?st ?nd L address n ?t u t3 u2" using t3 1(4) 2(4) unfolding walked_def by auto
  from walk_and_merge [OF assms(1) _ _ _ this assms(4)] g show ?thesis by (simp add: changes_pages_def run)
qed

section \<open>The search for a free area\<close>

text \<open>
  The candidate in a block: the lowest address above the guard pages that has the wanted offset
  from a multiple of the alignment.
\<close>

lemma candidate:
  fixes base al off :: nat
  assumes "off < al" "oa = base - base mod al + off" "a = (if base \<le> oa then oa else oa + al)"
  shows "\<exists>q. a = q * al + off" "base \<le> a" "a \<le> base + al" "x = q * al + off \<Longrightarrow> base \<le> x \<Longrightarrow> a \<le> x"
proof -
  define d where "d = base div al"
  define r where "r = base mod al"
  have b: "base = d * al + r" "r < al" using assms(1) by (simp_all add: d_def r_def)
  then have oa: "oa = d * al + off" using assms(2) r_def by simp
  have "a = d * al + off \<or> a = (d + 1) * al + off" using assms(3) oa by simp
  then show "\<exists>q. a = q * al + off" by blast
  show "base \<le> a" using assms(3) oa b by simp
  show "a \<le> base + al" using assms(1,3) oa b by simp
  show "a \<le> x" if x: "x = q * al + off" "base \<le> x"
  proof (cases "base \<le> oa")
    case True
    have "d \<le> q"
    proof (rule ccontr)
      assume "\<not> d \<le> q"
      then have "(q + 1) * al \<le> d * al" by (intro mult_right_mono) simp_all
      then show False using x b assms(1) by simp
    qed
    then have "d * al \<le> q * al" by (rule mult_right_mono) simp
    then show ?thesis using True assms(3) oa x(1) by simp
  next
    case False
    have "d + 1 \<le> q"
    proof (rule ccontr)
      assume "\<not> d + 1 \<le> q"
      then have "q * al \<le> d * al" by (intro mult_right_mono) simp_all
      then show False using x b False oa by linarith
    qed
    then have "(d + 1) * al \<le> q * al" by (rule mult_right_mono) simp
    then show ?thesis using False assms(3) oa x(1) by simp
  qed
qed

text \<open>
  The address \<open>x\<close> fits into the block \<open>b\<close>: it has the offset asked for, and the area with its guard
  pages lies in the block and in the region (the guard pages before it too).
\<close>

definition fits :: "nat \<Rightarrow> nat \<Rightarrow> nat \<Rightarrow> nat \<Rightarrow> nat \<Rightarrow> nat \<Rightarrow> KMemoryBlock \<Rightarrow> nat \<Rightarrow> bool" where
  "fits lo hi n al off gp b x \<longleftrightarrow> m_memory_state b = STATE_FREE \<and> (\<exists>q. x = q * al + off) \<and>
     max lo (m_address b) + gp * PAGE_SIZE \<le> x \<and>
     x + (n + gp) * PAGE_SIZE \<le> min hi (m_address b + m_num_pages b * PAGE_SIZE)"

lemma free_area_in_ok:
  assumes "m_address b + m_num_pages b * PAGE_SIZE \<le> nd" "0 < m_num_pages b" "nd < W64" "0 < n" "off < al"
    "max lo nd + 2 * al + (n + 2 * gp) * PAGE_SIZE < W64" "0 < hi" "hi < W64" "m_memory_state b = STATE_FREE"
  shows "\<exists>a. free_area_in lo (hi - 1) n al off gp (get_memory_info b) = (if fits lo hi n al off gp b a then Some a else None) \<and>
    (\<forall>x. fits lo hi n al off gp b x \<longrightarrow> a \<le> x \<and> fits lo hi n al off gp b a)"
proof -
  let ?k = "m_address b" and ?e = "m_address b + m_num_pages b * PAGE_SIZE"
  define base where "base = max lo ?k + gp * PAGE_SIZE"
  define oa where "oa = base - base mod al + off"
  define a where "a = (if base \<le> oa then oa else oa + al)"
  note c = candidate [OF assms(5) oa_def a_def]
  have split: "(n + 2 * gp) * PAGE_SIZE = n * PAGE_SIZE + gp * PAGE_SIZE + gp * PAGE_SIZE" by (simp add: algebra_simps)
  have le: "max lo ?k \<le> max lo nd" using assms(1) by linarith
  have sm: "base + 2 * al + n * PAGE_SIZE + gp * PAGE_SIZE < W64"
    using assms(6) le unfolding base_def split by linarith
  have small: "base < W64" "oa < W64" "oa + al < W64" "a < W64" "a + n * PAGE_SIZE < W64"
    "a + n * PAGE_SIZE + gp * PAGE_SIZE < W64" "gp * PAGE_SIZE < W64" "max lo ?k < W64"
    "max lo ?k + gp * PAGE_SIZE < W64" "n * PAGE_SIZE < W64"
  proof -
    have "oa \<le> base + off" by (simp add: oa_def)
    then show "base < W64" "oa < W64" "oa + al < W64" "a < W64" "a + n * PAGE_SIZE < W64"
      "a + n * PAGE_SIZE + gp * PAGE_SIZE < W64" using sm c(3) assms(5) by linarith+
    show "gp * PAGE_SIZE < W64" "max lo ?k < W64" "max lo ?k + gp * PAGE_SIZE < W64" "n * PAGE_SIZE < W64"
      using sm unfolding base_def by linarith+
  qed
  have sz: "mb_size b = m_num_pages b * PAGE_SIZE" using assms(1,3) by (simp add: mb_size_def)
  have info: "mi_address (get_memory_info b) = ?k" "mi_last (get_memory_info b) = ?e - 1"
    using assms(1-3) sz by (simp_all add: get_memory_info_def mi_last_def mi_end_def)
  have area: "add64 (if ?k \<le> lo then lo else ?k) (mul64 gp PAGE_SIZE) = base"
  proof -
    have "(if ?k \<le> lo then lo else ?k) = max lo ?k" by (auto simp: max_def)
    then show ?thesis unfolding base_def using small(7-9) by (simp only: mul64_id add64_id)
  qed
  have oa': "add64 (align_down base al) off = oa" using small by (simp add: oa_def)
  have a': "(if base \<le> oa then oa else add64 oa al) = a" using small by (simp add: a_def)
  have last: "sub64 (add64 (add64 a (mul64 n PAGE_SIZE)) (mul64 gp PAGE_SIZE)) 1 = a + n * PAGE_SIZE + gp * PAGE_SIZE - 1"
    using small assms(4) by simp
  have "?k \<le> base" by (simp add: base_def)
  then have ka: "?k \<le> a" using c(2) by linarith
  have pos: "1 \<le> n * PAGE_SIZE" using assms(4) by simp
  have "free_area_in lo (hi - 1) n al off gp (get_memory_info b) =
      (if ?k \<le> a \<and> a < a + n * PAGE_SIZE + gp * PAGE_SIZE - 1 \<and> a + n * PAGE_SIZE + gp * PAGE_SIZE - 1 \<le> hi - 1 \<and>
          a + n * PAGE_SIZE + gp * PAGE_SIZE - 1 \<le> ?e - 1 then Some a else None)"
    unfolding free_area_in_def Let_def info area oa' a' last ..
  also have "\<dots> = (if fits lo hi n al off gp b a then Some a else None)"
  proof -
    have "a + (n + gp) * PAGE_SIZE = a + n * PAGE_SIZE + gp * PAGE_SIZE" by (simp add: algebra_simps)
    moreover have "1 < n * PAGE_SIZE" "0 < ?e" using assms(2,4) by simp_all
    ultimately have "(?k \<le> a \<and> a < a + n * PAGE_SIZE + gp * PAGE_SIZE - 1 \<and> a + n * PAGE_SIZE + gp * PAGE_SIZE - 1 \<le> hi - 1 \<and>
        a + n * PAGE_SIZE + gp * PAGE_SIZE - 1 \<le> ?e - 1) \<longleftrightarrow> a + (n + gp) * PAGE_SIZE \<le> min hi ?e"
      using ka assms(7) by (auto simp del: One_nat_def)
    then show ?thesis using c(1,2) assms(9) by (simp add: fits_def base_def)
  qed
  finally show ?thesis
  proof (intro exI [of _ a] conjI allI impI)
    fix x assume x: "fits lo hi n al off gp b x"
    then obtain q where q: "x = q * al + off" "base \<le> x" by (auto simp: fits_def base_def)
    then show le: "a \<le> x" by (rule c(4))
    show "fits lo hi n al off gp b a" using x le c(1,2) unfolding fits_def base_def by auto
  qed
qed

lemma free_area_loop_ok:
  assumes "tiled st nd t" "nd < W64" "0 < n" "off < al"
    "max lo nd + 2 * al + (n + 2 * gp) * PAGE_SIZE < W64" "0 < hi" "hi < W64"
  shows "free_area_loop lo (hi - 1) n al off gp (map snd t) =
    Some (if \<exists>x. \<exists>b \<in> snd ` set t. fits lo hi n al off gp b x
      then Some (LEAST x. \<exists>b \<in> snd ` set t. fits lo hi n al off gp b x) else None)"
  using assms(1)
proof (induction t arbitrary: st)
  case (Cons e t)
  obtain k b where e: "e = (k, b)" by force
  let ?F = "fits lo hi n al off gp" and ?e = "m_address b + m_num_pages b * PAGE_SIZE"
  have t: "tiled ?e nd t" "m_address b = st" "0 < m_num_pages b" using Cons.prems e by auto
  have bn: "?e \<le> nd" using tiled_le [OF t(1)] .
  have later: "?e + gp * PAGE_SIZE \<le> x" if "b' \<in> snd ` set t" "?F b' x" for b' x
    using that tiled_keys [OF t(1)] by (fastforce simp: fits_def)
  have ad: "mi_address (get_memory_info b) = m_address b" "mi_state (get_memory_info b) = m_memory_state b"
    by (simp_all add: get_memory_info_def)
  note IH = Cons.IH [OF t(1)]
  consider (beyond) "hi - 1 < m_address b" | (other) "m_address b \<le> hi - 1" "m_memory_state b \<noteq> STATE_FREE"
    | (free) "m_address b \<le> hi - 1" "m_memory_state b = STATE_FREE" by fastforce
  then show ?case
  proof cases
    case beyond
    have "\<not> ?F b' x" if b': "b' \<in> snd ` set (e # t)" for b' x
    proof
      assume f: "?F b' x"
      have "m_address b \<le> x"
      proof (cases "b' = b")
        case True
        then show ?thesis using f by (auto simp: fits_def)
      next
        case False
        then have "b' \<in> snd ` set t" using b' e by auto
        from later [OF this f] show ?thesis by simp
      qed
      moreover have "x + (n + gp) * PAGE_SIZE \<le> hi" "1 \<le> (n + gp) * PAGE_SIZE"
        using f assms(3) by (simp_all add: fits_def)
      ultimately show False using beyond by linarith
    qed
    then show ?thesis using beyond e ad by (auto simp: Let_def)
  next
    case other
    then have "\<not> ?F b x" for x by (simp add: fits_def)
    then show ?thesis using IH other e ad by (simp add: Let_def)
  next
    case free
    from free_area_in_ok [OF bn t(3) assms(2-7) free(2)] obtain a where
      a: "free_area_in lo (hi - 1) n al off gp (get_memory_info b) = (if ?F b a then Some a else None)"
        "\<forall>x. ?F b x \<longrightarrow> a \<le> x \<and> ?F b a" by blast
    have run: "free_area_loop lo (hi - 1) n al off gp (map snd (e # t)) =
        (if ?F b a then Some (Some a) else free_area_loop lo (hi - 1) n al off gp (map snd t))"
      using a(1) free e ad assms(4) by (simp add: Let_def)
    show ?thesis
    proof (cases "?F b a")
      case True
      have "a \<le> ?e" using True by (auto simp: fits_def)
      then have "a \<le> x" if "\<exists>b' \<in> snd ` set (e # t). ?F b' x" for x
        using that a(2) later [of _ x] e by fastforce
      then have "(LEAST x. \<exists>b' \<in> snd ` set (e # t). ?F b' x) = a"
        by (intro Least_equality) (use True e in auto)
      then show ?thesis using run True e by auto
    next
      case False
      then have "\<not> ?F b x" for x using a(2) by blast
      then show ?thesis using run IH False e by simp
    qed
  qed
qed simp

text \<open>
  C16: \<open>find_free_area\<close> answers the lowest address that fits: the asked for offset from a multiple of
  the alignment, and the pages with their guard pages on both sides inside one free block and the
  region. It answers nothing exactly when no address fits.
\<close>

theorem find_free_area_lowest:
  assumes "mbm_wf m" "0 < n" "off < al" "0 < lo + rn * PAGE_SIZE" "lo + rn * PAGE_SIZE < W64"
    "max lo (end_address m) + 2 * al + (n + 2 * gp) * PAGE_SIZE < W64"
  shows "find_free_area lo rn n al off gp m =
    Some (if \<exists>x. \<exists>b \<in> snd ` set (block_tree m). fits lo (lo + rn * PAGE_SIZE) n al off gp b x
      then Some (LEAST x. \<exists>b \<in> snd ` set (block_tree m). fits lo (lo + rn * PAGE_SIZE) n al off gp b x) else None)"
proof -
  note wf = assms(1) [unfolded mbm_wf_def]
  have "1 \<le> lo + rn * PAGE_SIZE" using assms(4) by linarith
  from sub64_id [OF this assms(5)]
  have "sub64 (add64 lo (mul64 rn PAGE_SIZE)) 1 = lo + rn * PAGE_SIZE - 1" using assms(5) by (simp del: One_nat_def)
  then show ?thesis
    using free_area_loop_ok [OF conjunct1 [OF wf] conjunct2 [OF wf] assms(2,3,6,4,5)] assms(2)
    by (simp add: find_free_area_def)
qed

section \<open>A fresh address space\<close>

text \<open>\<open>initialize\<close> gives a well-formed space of free pages; the witnesses start from one.\<close>

lemma mbm_initialize_ok:
  assumes "st < nd" "nd < W64" "PAGE_SIZE dvd nd - st"
  shows "\<exists>m b. mbm_initialize st nd None mbm_new = Some (m, None) \<and> mbm_wf m \<and> start_address m = st \<and> end_address m = nd \<and>
    block_tree m = [(st, b)] \<and> m_memory_state b = STATE_FREE \<and> m_address b = st \<and> m_num_pages b * PAGE_SIZE = nd - st \<and>
    (\<forall>x. st \<le> x \<and> x < nd \<longrightarrow> pages m x = Some (props b)) \<and>
    props b = \<lparr>pp_state = STATE_FREE, pp_permission = PERM_NONE, pp_original = PERM_NONE,
      pp_attribute = ATTR_NONE, pp_ipc_locks = 0, pp_device_uses = 0\<rparr>"
proof -
  define b where "b = mb_initialize st (sub64 nd st div PAGE_SIZE) STATE_FREE PERM_NONE ATTR_NONE mb_new"
  define m where "m = \<lparr>block_tree = [(st, b)], start_address = st, end_address = nd\<rparr>"
  have s: "sub64 nd st = nd - st" using assms by simp
  have b: "m_address b = st" "m_num_pages b * PAGE_SIZE = nd - st" "m_memory_state b = STATE_FREE"
    "props b = \<lparr>pp_state = STATE_FREE, pp_permission = PERM_NONE, pp_original = PERM_NONE,
      pp_attribute = ATTR_NONE, pp_ipc_locks = 0, pp_device_uses = 0\<rparr>"
    using assms(3) unfolding b_def s by (simp_all add: mb_initialize_def mb_new_def props_def)
  have "mbm_initialize st nd None mbm_new = Some (m, None)"
    by (simp add: mbm_initialize_def mbm_new_def m_def b_def)
  moreover have "0 < m_num_pages b" using b(2) assms(1) by (cases "m_num_pages b") simp_all
  then have wf: "mbm_wf m" using b(1,2) assms(1,2) by (simp add: m_def mbm_wf_def)
  moreover have "\<forall>x. st \<le> x \<and> x < nd \<longrightarrow> pages m x = Some (props b)"
    using pages_eq [OF wf] b(2) by (simp add: m_def)
  ultimately show ?thesis using b by (intro exI [of _ m] exI [of _ b]) (simp add: m_def)
qed

lemma fresh_space:
  obtains m where "mbm_initialize 0 65536 None mbm_new = Some (m, None)" "mbm_wf m"
    "good_range 8192 2 m" "room 2 None" "booked 0 None s (block_tree m)" "end_address m = 65536"
    "\<And>x. x < 65536 \<Longrightarrow> pages m x = Some \<lparr>pp_state = STATE_FREE, pp_permission = PERM_NONE, pp_original = PERM_NONE,
      pp_attribute = ATTR_NONE, pp_ipc_locks = 0, pp_device_uses = 0\<rparr>"
    "\<exists>b. block_tree m = [(0, b)] \<and> m_memory_state b = STATE_FREE \<and> m_address b = 0 \<and> m_num_pages b = 16"
proof -
  have "(0 :: nat) < 65536" "(65536 :: nat) < W64" "PAGE_SIZE dvd 65536 - (0 :: nat)" by simp_all
  from mbm_initialize_ok [OF this] obtain m b where m: "mbm_initialize 0 65536 None mbm_new = Some (m, None)" "mbm_wf m"
    "start_address m = 0" "end_address m = 65536" "block_tree m = [(0, b)]" "m_memory_state b = STATE_FREE"
    "m_address b = 0" "m_num_pages b * PAGE_SIZE = 65536 - 0" "\<forall>x. 0 \<le> x \<and> x < 65536 \<longrightarrow> pages m x = Some (props b)"
    "props b = \<lparr>pp_state = STATE_FREE, pp_permission = PERM_NONE, pp_original = PERM_NONE,
      pp_attribute = ATTR_NONE, pp_ipc_locks = 0, pp_device_uses = 0\<rparr>" by blast
  have "good_range 8192 2 m" using m(3,4) by (simp add: good_range_def)
  moreover have "room 2 None" "booked 0 None s (block_tree m)" by (simp_all add: room_def booked_def)
  moreover have "m_num_pages b = 16" using m(8) by simp
  ultimately show ?thesis using that [of m] m by simp
qed

lemma memory_block_update_exact_witness:
  "\<exists>m m'. mbm_initialize 0 65536 None mbm_new = Some (m, None) \<and>
    mbm_update 8192 2 5 USER_READ_WRITE ATTR_NONE 0 0 m None rm_new = Some (m', None, rm_new) \<and>
    (\<exists>p. pages m' 8192 = Some p \<and> page_has 5 USER_READ_WRITE ATTR_NONE p) \<and> pages m' 4096 = pages m 4096"
proof -
  obtain m where m: "mbm_initialize 0 65536 None mbm_new = Some (m, None)" "mbm_wf m"
    "good_range 8192 2 m" "room 2 None" "booked 0 None rm_new (block_tree m)"
    "\<And>x. x < 65536 \<Longrightarrow> pages m x = Some \<lparr>pp_state = STATE_FREE, pp_permission = PERM_NONE, pp_original = PERM_NONE,
      pp_attribute = ATTR_NONE, pp_ipc_locks = 0, pp_device_uses = 0\<rparr>" using fresh_space [of rm_new] by blast
  from memory_block_update_exact [OF m(2-5), of 5 USER_READ_WRITE ATTR_NONE 0 0] m(1,6)
  show ?thesis by (fastforce simp: changes_pages_def on_range_def page_has_update)
qed

lemma memory_block_update_if_match_exact_witness:
  "\<exists>m m'. mbm_initialize 0 65536 None mbm_new = Some (m, None) \<and>
    update_if_match 8192 2 STATE_FREE PERM_NONE ATTR_NONE 5 USER_READ_WRITE ATTR_NONE 0 0 m None rm_new = Some (m', None, rm_new) \<and>
    (\<exists>p. pages m' 8192 = Some p \<and> pp_state p = 5) \<and> pages m' 4096 = pages m 4096"
proof -
  obtain m where m: "mbm_initialize 0 65536 None mbm_new = Some (m, None)" "mbm_wf m"
    "good_range 8192 2 m" "room 2 None" "booked 0 None rm_new (block_tree m)"
    "\<And>x. x < 65536 \<Longrightarrow> pages m x = Some \<lparr>pp_state = STATE_FREE, pp_permission = PERM_NONE, pp_original = PERM_NONE,
      pp_attribute = ATTR_NONE, pp_ipc_locks = 0, pp_device_uses = 0\<rparr>" using fresh_space [of rm_new] by blast
  from memory_block_update_if_match_exact [OF m(2-5), of STATE_FREE PERM_NONE ATTR_NONE 5 USER_READ_WRITE ATTR_NONE 0 0] m(1,6)
  show ?thesis by (fastforce simp: changes_pages_def on_range_def page_has_def page_update_def STATE_FREE_def)
qed

lemma memory_block_attribute_exact_witness:
  "\<exists>m m'. mbm_initialize 0 65536 None mbm_new = Some (m, None) \<and>
    mbm_update_attribute 8192 2 LOCKED LOCKED m None rm_new = Some (m', None, rm_new) \<and>
    (\<exists>p. pages m' 8192 = Some p \<and> pp_attribute p = LOCKED) \<and> pages m' 4096 = pages m 4096"
proof -
  obtain m where m: "mbm_initialize 0 65536 None mbm_new = Some (m, None)" "mbm_wf m"
    "good_range 8192 2 m" "room 2 None" "booked 0 None rm_new (block_tree m)"
    "\<And>x. x < 65536 \<Longrightarrow> pages m x = Some \<lparr>pp_state = STATE_FREE, pp_permission = PERM_NONE, pp_original = PERM_NONE,
      pp_attribute = ATTR_NONE, pp_ipc_locks = 0, pp_device_uses = 0\<rparr>" using fresh_space [of rm_new] by blast
  from memory_block_attribute_exact [OF m(2-5), of LOCKED LOCKED] m(1,6)
  show ?thesis by (fastforce simp: changes_pages_def on_range_def ATTR_NONE_def LOCKED_def)
qed

lemma memory_block_lock_exact_witness:
  "\<exists>m m'. mbm_initialize 0 65536 None mbm_new = Some (m, None) \<and>
    update_lock 8192 2 0 share_to_device m None rm_new = Some (m', None, rm_new) \<and>
    (\<exists>p. pages m' 8192 = Some p \<and> pp_device_uses p = 1) \<and> pages m' 4096 = pages m 4096"
proof -
  obtain m where m: "mbm_initialize 0 65536 None mbm_new = Some (m, None)" "mbm_wf m"
    "good_range 8192 2 m" "room 2 None" "booked 0 None rm_new (block_tree m)"
    "\<And>x. x < 65536 \<Longrightarrow> pages m x = Some \<lparr>pp_state = STATE_FREE, pp_permission = PERM_NONE, pp_original = PERM_NONE,
      pp_attribute = ATTR_NONE, pp_ipc_locks = 0, pp_device_uses = 0\<rparr>" using fresh_space [of rm_new] by blast
  let ?L = "\<lambda>p. p\<lparr>pp_device_uses := pp_device_uses p + 1, pp_attribute := pp_attribute p OR DEVICE_SHARED\<rparr>"
  have "props (share_to_device 0 l r b) = ?L (props b)" for l r b
    by (simp add: props_lock props_fields)
  from memory_block_lock_exact [OF m(2-5), of share_to_device 0 ?L] this m(1,6)
  show ?thesis by (fastforce simp: changes_pages_def on_range_def)
qed

lemma find_free_area_lowest_witness:
  "\<exists>m. mbm_initialize 0 65536 None mbm_new = Some (m, None) \<and>
    find_free_area 4096 8 2 8192 4096 1 m = Some (Some 12288) \<and> find_free_area 4096 8 7 8192 4096 1 m = Some None"
proof -
  obtain m b where m: "mbm_initialize 0 65536 None mbm_new = Some (m, None)" "mbm_wf m" "end_address m = 65536"
    "block_tree m = [(0, b)]" "m_memory_state b = STATE_FREE" "m_address b = 0" "m_num_pages b = 16"
    using fresh_space by metis
  have f: "fits 4096 36864 n 8192 4096 1 b x \<longleftrightarrow> (\<exists>q. x = q * 8192 + 4096) \<and> 8192 \<le> x \<and> x + (n + 1) * PAGE_SIZE \<le> 36864" for n x
    using m(5-7) by (simp add: fits_def)
  have "(LEAST x. fits 4096 36864 2 8192 4096 1 b x) = 12288"
  proof (rule Least_equality)
    show "fits 4096 36864 2 8192 4096 1 b 12288" unfolding f by (simp add: exI [of _ 1])
    show "12288 \<le> y" if fy: "fits 4096 36864 2 8192 4096 1 b y" for y
    proof -
      obtain q where q: "y = q * 8192 + 4096" "8192 \<le> y" using fy unfolding f by blast
      then have "q \<noteq> 0" by (intro notI) simp
      then show ?thesis using q by simp
    qed
  qed
  moreover have "\<exists>x. fits 4096 36864 2 8192 4096 1 b x" unfolding f by (intro exI [of _ 12288]) (simp add: exI [of _ 1])
  moreover have "\<not> fits 4096 36864 7 8192 4096 1 b x" for x unfolding f by simp
  moreover have "find_free_area 4096 8 n 8192 4096 1 m = Some (if \<exists>x. fits 4096 36864 n 8192 4096 1 b x
      then Some (LEAST x. fits 4096 36864 n 8192 4096 1 b x) else None)" if "0 < n" "n < 10" for n
  proof -
    have "0 < 4096 + 8 * PAGE_SIZE" "4096 + 8 * PAGE_SIZE < W64" "(4096 :: nat) < 8192"
      "max 4096 (end_address m) + 2 * 8192 + (n + 2 * 1) * PAGE_SIZE < W64" using that m(3) by simp_all
    from find_free_area_lowest [OF m(2) that(1) this(3,1,2,4)] show ?thesis by (simp add: m(4))
  qed
  ultimately have "find_free_area 4096 8 2 8192 4096 1 m = Some (Some 12288)" "find_free_area 4096 8 7 8192 4096 1 m = Some None"
    by simp_all
  then show ?thesis using m(1) by blast
qed

end
