(* ===== verification/MemoryRegionType.thy ===== *)
theory MemoryRegionType
  imports Machine
begin

text \<open>
  The types of memory regions: src/core/src/hle/kernel/k_memory_region_type.rs. A type is a set of
  bits; a derived type has the bits of its parents and some more, from the next free bit on, so
  that the ancestors of a type can be read off its bits. A shift of a \<open>u32\<close> takes its amount
  modulo 32.
\<close>

definition K_MEMORY_REGION_ATTR_CARVEOUT_PROTECTED :: u32 where "K_MEMORY_REGION_ATTR_CARVEOUT_PROTECTED = 0x02000000"
definition K_MEMORY_REGION_ATTR_UNCACHED :: u32 where "K_MEMORY_REGION_ATTR_UNCACHED = 0x04000000"
definition K_MEMORY_REGION_ATTR_DID_KERNEL_MAP :: u32 where "K_MEMORY_REGION_ATTR_DID_KERNEL_MAP = 0x08000000"
definition K_MEMORY_REGION_ATTR_SHOULD_KERNEL_MAP :: u32 where "K_MEMORY_REGION_ATTR_SHOULD_KERNEL_MAP = 0x10000000"
definition K_MEMORY_REGION_ATTR_USER_READ_ONLY :: u32 where "K_MEMORY_REGION_ATTR_USER_READ_ONLY = 0x20000000"
definition K_MEMORY_REGION_ATTR_NO_USER_MAP :: u32 where "K_MEMORY_REGION_ATTR_NO_USER_MAP = 0x40000000"
definition K_MEMORY_REGION_ATTR_LINEAR_MAPPED :: u32 where "K_MEMORY_REGION_ATTR_LINEAR_MAPPED = 0x80000000"

section \<open>Derivation\<close>

record KMemoryRegionTypeValue =
  rt_value :: u32
  next_bit :: nat

definition shl32 :: "nat \<Rightarrow> u32" where
  "shl32 n = push_bit (n mod 32) 1"

definition rt_new :: KMemoryRegionTypeValue where
  "rt_new = \<lparr>rt_value = 0, next_bit = 0\<rparr>"

definition derive_initial :: "nat \<Rightarrow> nat \<Rightarrow> KMemoryRegionTypeValue \<Rightarrow> KMemoryRegionTypeValue" where
  "derive_initial i nxt t = \<lparr>rt_value = shl32 i, next_bit = nxt\<rparr>"

definition derive_attribute :: "u32 \<Rightarrow> KMemoryRegionTypeValue \<Rightarrow> KMemoryRegionTypeValue" where
  "derive_attribute attr t = \<lparr>rt_value = rt_value t OR attr, next_bit = next_bit t\<rparr>"

definition set_attribute :: "u32 \<Rightarrow> KMemoryRegionTypeValue \<Rightarrow> KMemoryRegionTypeValue" where
  "set_attribute attr t = \<lparr>rt_value = rt_value t OR attr, next_bit = next_bit t\<rparr>"

definition derive_transition_with :: "nat \<Rightarrow> nat \<Rightarrow> KMemoryRegionTypeValue \<Rightarrow> KMemoryRegionTypeValue" where
  "derive_transition_with ofs adv t =
     \<lparr>rt_value = rt_value t OR shl32 (next_bit t + ofs), next_bit = next_bit t + adv\<rparr>"

definition derive_transition :: "KMemoryRegionTypeValue \<Rightarrow> KMemoryRegionTypeValue" where
  "derive_transition = derive_transition_with 0 1"

definition derive_sparse :: "nat \<Rightarrow> nat \<Rightarrow> nat \<Rightarrow> KMemoryRegionTypeValue \<Rightarrow> KMemoryRegionTypeValue" where
  "derive_sparse ofs n i t =
     \<lparr>rt_value = rt_value t OR shl32 (next_bit t + ofs) OR shl32 (next_bit t + ofs + 1 + i),
      next_bit = next_bit t + ofs + n + 1\<rparr>"

text \<open>The loop that steps through the pairs of bits.\<close>

fun bit_pair :: "nat \<Rightarrow> nat \<times> nat \<Rightarrow> nat \<times> nat" where
  "bit_pair 0 p = p"
| "bit_pair (Suc j) (low, high) = bit_pair j (if low + 1 = high then (0, high + 1) else (low + 1, high))"

definition derive :: "nat \<Rightarrow> nat \<Rightarrow> KMemoryRegionTypeValue \<Rightarrow> KMemoryRegionTypeValue" where
  "derive n i t =
     (let (low, high) = bit_pair i (0, 1); (lo, hi) = bit_pair (n - 1) (0, 1)
      in \<lparr>rt_value = rt_value t OR shl32 (next_bit t + low) OR shl32 (next_bit t + high),
          next_bit = next_bit t + (hi + 1)\<rparr>)"

definition advance :: "nat \<Rightarrow> KMemoryRegionTypeValue \<Rightarrow> KMemoryRegionTypeValue" where
  "advance n t = \<lparr>rt_value = rt_value t, next_bit = next_bit t + n\<rparr>"

definition is_ancestor_of :: "u32 \<Rightarrow> KMemoryRegionTypeValue \<Rightarrow> bool" where
  "is_ancestor_of v t \<longleftrightarrow> rt_value t OR v = v"

section \<open>The types\<close>

definition K_MEMORY_REGION_TYPE_NONE :: KMemoryRegionTypeValue where
  "K_MEMORY_REGION_TYPE_NONE = rt_new"

definition K_MEMORY_REGION_TYPE_KERNEL :: KMemoryRegionTypeValue where
  "K_MEMORY_REGION_TYPE_KERNEL = derive_initial 0 2 K_MEMORY_REGION_TYPE_NONE"

definition K_MEMORY_REGION_TYPE_DRAM :: KMemoryRegionTypeValue where
  "K_MEMORY_REGION_TYPE_DRAM = derive_initial 1 2 K_MEMORY_REGION_TYPE_NONE"

definition K_MEMORY_REGION_TYPE_DRAM_KERNEL_BASE :: KMemoryRegionTypeValue where
  "K_MEMORY_REGION_TYPE_DRAM_KERNEL_BASE = set_attribute K_MEMORY_REGION_ATTR_CARVEOUT_PROTECTED (set_attribute K_MEMORY_REGION_ATTR_NO_USER_MAP (derive_sparse 0 3 0 K_MEMORY_REGION_TYPE_DRAM))"

definition K_MEMORY_REGION_TYPE_DRAM_RESERVED_BASE :: KMemoryRegionTypeValue where
  "K_MEMORY_REGION_TYPE_DRAM_RESERVED_BASE = derive_sparse 0 3 1 K_MEMORY_REGION_TYPE_DRAM"

definition K_MEMORY_REGION_TYPE_DRAM_HEAP_BASE :: KMemoryRegionTypeValue where
  "K_MEMORY_REGION_TYPE_DRAM_HEAP_BASE = set_attribute K_MEMORY_REGION_ATTR_LINEAR_MAPPED (derive_sparse 0 3 2 K_MEMORY_REGION_TYPE_DRAM)"

definition K_MEMORY_REGION_TYPE_DRAM_KERNEL_CODE :: KMemoryRegionTypeValue where
  "K_MEMORY_REGION_TYPE_DRAM_KERNEL_CODE = derive_sparse 0 4 0 K_MEMORY_REGION_TYPE_DRAM_KERNEL_BASE"

definition K_MEMORY_REGION_TYPE_DRAM_KERNEL_SLAB :: KMemoryRegionTypeValue where
  "K_MEMORY_REGION_TYPE_DRAM_KERNEL_SLAB = derive_sparse 0 4 1 K_MEMORY_REGION_TYPE_DRAM_KERNEL_BASE"

definition K_MEMORY_REGION_TYPE_DRAM_KERNEL_PT_HEAP :: KMemoryRegionTypeValue where
  "K_MEMORY_REGION_TYPE_DRAM_KERNEL_PT_HEAP = set_attribute K_MEMORY_REGION_ATTR_LINEAR_MAPPED (derive_sparse 0 4 2 K_MEMORY_REGION_TYPE_DRAM_KERNEL_BASE)"

definition K_MEMORY_REGION_TYPE_DRAM_KERNEL_INIT_PT :: KMemoryRegionTypeValue where
  "K_MEMORY_REGION_TYPE_DRAM_KERNEL_INIT_PT = set_attribute K_MEMORY_REGION_ATTR_LINEAR_MAPPED (derive_sparse 0 4 3 K_MEMORY_REGION_TYPE_DRAM_KERNEL_BASE)"

definition K_MEMORY_REGION_TYPE_DRAM_KERNEL_SECURE_APPLET_MEMORY :: KMemoryRegionTypeValue where
  "K_MEMORY_REGION_TYPE_DRAM_KERNEL_SECURE_APPLET_MEMORY = set_attribute K_MEMORY_REGION_ATTR_LINEAR_MAPPED (derive_sparse 1 3 0 K_MEMORY_REGION_TYPE_DRAM_KERNEL_BASE)"

definition K_MEMORY_REGION_TYPE_DRAM_KERNEL_SECURE_UNKNOWN :: KMemoryRegionTypeValue where
  "K_MEMORY_REGION_TYPE_DRAM_KERNEL_SECURE_UNKNOWN = set_attribute K_MEMORY_REGION_ATTR_LINEAR_MAPPED (derive_sparse 1 3 1 K_MEMORY_REGION_TYPE_DRAM_KERNEL_BASE)"

definition K_MEMORY_REGION_TYPE_DRAM_RESERVED_EARLY :: KMemoryRegionTypeValue where
  "K_MEMORY_REGION_TYPE_DRAM_RESERVED_EARLY = derive_attribute K_MEMORY_REGION_ATTR_NO_USER_MAP K_MEMORY_REGION_TYPE_DRAM_RESERVED_BASE"

definition K_MEMORY_REGION_TYPE_KERNEL_TRACE_BUFFER :: KMemoryRegionTypeValue where
  "K_MEMORY_REGION_TYPE_KERNEL_TRACE_BUFFER = set_attribute K_MEMORY_REGION_ATTR_USER_READ_ONLY (set_attribute K_MEMORY_REGION_ATTR_LINEAR_MAPPED (derive_sparse 0 3 0 K_MEMORY_REGION_TYPE_DRAM_RESERVED_BASE))"

definition K_MEMORY_REGION_TYPE_ON_MEMORY_BOOT_IMAGE :: KMemoryRegionTypeValue where
  "K_MEMORY_REGION_TYPE_ON_MEMORY_BOOT_IMAGE = derive_sparse 0 3 1 K_MEMORY_REGION_TYPE_DRAM_RESERVED_BASE"

definition K_MEMORY_REGION_TYPE_DTB :: KMemoryRegionTypeValue where
  "K_MEMORY_REGION_TYPE_DTB = derive_sparse 0 3 2 K_MEMORY_REGION_TYPE_DRAM_RESERVED_BASE"

definition K_MEMORY_REGION_TYPE_DRAM_POOL_PARTITION :: KMemoryRegionTypeValue where
  "K_MEMORY_REGION_TYPE_DRAM_POOL_PARTITION = derive_attribute K_MEMORY_REGION_ATTR_NO_USER_MAP K_MEMORY_REGION_TYPE_DRAM_HEAP_BASE"

definition K_MEMORY_REGION_TYPE_DRAM_POOL_MANAGEMENT :: KMemoryRegionTypeValue where
  "K_MEMORY_REGION_TYPE_DRAM_POOL_MANAGEMENT = set_attribute K_MEMORY_REGION_ATTR_CARVEOUT_PROTECTED (derive 4 0 K_MEMORY_REGION_TYPE_DRAM_POOL_PARTITION)"

definition K_MEMORY_REGION_TYPE_DRAM_USER_POOL :: KMemoryRegionTypeValue where
  "K_MEMORY_REGION_TYPE_DRAM_USER_POOL = derive 4 3 K_MEMORY_REGION_TYPE_DRAM_POOL_PARTITION"

definition K_MEMORY_REGION_TYPE_DRAM_APPLICATION_POOL :: KMemoryRegionTypeValue where
  "K_MEMORY_REGION_TYPE_DRAM_APPLICATION_POOL = derive 4 0 K_MEMORY_REGION_TYPE_DRAM_USER_POOL"

definition K_MEMORY_REGION_TYPE_DRAM_APPLET_POOL :: KMemoryRegionTypeValue where
  "K_MEMORY_REGION_TYPE_DRAM_APPLET_POOL = derive 4 1 K_MEMORY_REGION_TYPE_DRAM_USER_POOL"

definition K_MEMORY_REGION_TYPE_DRAM_SYSTEM_NON_SECURE_POOL :: KMemoryRegionTypeValue where
  "K_MEMORY_REGION_TYPE_DRAM_SYSTEM_NON_SECURE_POOL = derive 4 2 K_MEMORY_REGION_TYPE_DRAM_USER_POOL"

definition K_MEMORY_REGION_TYPE_DRAM_SYSTEM_POOL :: KMemoryRegionTypeValue where
  "K_MEMORY_REGION_TYPE_DRAM_SYSTEM_POOL = set_attribute K_MEMORY_REGION_ATTR_CARVEOUT_PROTECTED (derive 4 3 K_MEMORY_REGION_TYPE_DRAM_USER_POOL)"

definition K_MEMORY_REGION_TYPE_VIRTUAL_DRAM_HEAP_BASE :: KMemoryRegionTypeValue where
  "K_MEMORY_REGION_TYPE_VIRTUAL_DRAM_HEAP_BASE = derive_sparse 1 4 0 K_MEMORY_REGION_TYPE_DRAM"

definition K_MEMORY_REGION_TYPE_VIRTUAL_DRAM_KERNEL_PT_HEAP :: KMemoryRegionTypeValue where
  "K_MEMORY_REGION_TYPE_VIRTUAL_DRAM_KERNEL_PT_HEAP = derive_sparse 1 4 1 K_MEMORY_REGION_TYPE_DRAM"

definition K_MEMORY_REGION_TYPE_VIRTUAL_DRAM_KERNEL_TRACE_BUFFER :: KMemoryRegionTypeValue where
  "K_MEMORY_REGION_TYPE_VIRTUAL_DRAM_KERNEL_TRACE_BUFFER = derive_sparse 1 4 2 K_MEMORY_REGION_TYPE_DRAM"

definition K_MEMORY_REGION_TYPE_VIRTUAL_DRAM_UNKNOWN_DEBUG :: KMemoryRegionTypeValue where
  "K_MEMORY_REGION_TYPE_VIRTUAL_DRAM_UNKNOWN_DEBUG = derive 4 0 (advance 2 K_MEMORY_REGION_TYPE_DRAM)"

definition K_MEMORY_REGION_TYPE_VIRTUAL_DRAM_KERNEL_SECURE_APPLET_MEMORY :: KMemoryRegionTypeValue where
  "K_MEMORY_REGION_TYPE_VIRTUAL_DRAM_KERNEL_SECURE_APPLET_MEMORY = derive 4 1 (advance 2 K_MEMORY_REGION_TYPE_DRAM)"

definition K_MEMORY_REGION_TYPE_VIRTUAL_DRAM_KERNEL_SECURE_UNKNOWN :: KMemoryRegionTypeValue where
  "K_MEMORY_REGION_TYPE_VIRTUAL_DRAM_KERNEL_SECURE_UNKNOWN = derive 4 3 (advance 2 K_MEMORY_REGION_TYPE_DRAM)"

definition K_MEMORY_REGION_TYPE_VIRTUAL_DRAM_KERNEL_INIT_PT :: KMemoryRegionTypeValue where
  "K_MEMORY_REGION_TYPE_VIRTUAL_DRAM_KERNEL_INIT_PT = derive 4 0 K_MEMORY_REGION_TYPE_VIRTUAL_DRAM_HEAP_BASE"

definition K_MEMORY_REGION_TYPE_VIRTUAL_DRAM_POOL_MANAGEMENT :: KMemoryRegionTypeValue where
  "K_MEMORY_REGION_TYPE_VIRTUAL_DRAM_POOL_MANAGEMENT = derive 4 1 K_MEMORY_REGION_TYPE_VIRTUAL_DRAM_HEAP_BASE"

definition K_MEMORY_REGION_TYPE_VIRTUAL_DRAM_USER_POOL :: KMemoryRegionTypeValue where
  "K_MEMORY_REGION_TYPE_VIRTUAL_DRAM_USER_POOL = derive 4 2 K_MEMORY_REGION_TYPE_VIRTUAL_DRAM_HEAP_BASE"

definition K_MEMORY_REGION_TYPE_VIRTUAL_DRAM_APPLICATION_POOL :: KMemoryRegionTypeValue where
  "K_MEMORY_REGION_TYPE_VIRTUAL_DRAM_APPLICATION_POOL = derive 4 0 K_MEMORY_REGION_TYPE_VIRTUAL_DRAM_USER_POOL"

definition K_MEMORY_REGION_TYPE_VIRTUAL_DRAM_APPLET_POOL :: KMemoryRegionTypeValue where
  "K_MEMORY_REGION_TYPE_VIRTUAL_DRAM_APPLET_POOL = derive 4 1 K_MEMORY_REGION_TYPE_VIRTUAL_DRAM_USER_POOL"

definition K_MEMORY_REGION_TYPE_VIRTUAL_DRAM_SYSTEM_NON_SECURE_POOL :: KMemoryRegionTypeValue where
  "K_MEMORY_REGION_TYPE_VIRTUAL_DRAM_SYSTEM_NON_SECURE_POOL = derive 4 2 K_MEMORY_REGION_TYPE_VIRTUAL_DRAM_USER_POOL"

definition K_MEMORY_REGION_TYPE_VIRTUAL_DRAM_SYSTEM_POOL :: KMemoryRegionTypeValue where
  "K_MEMORY_REGION_TYPE_VIRTUAL_DRAM_SYSTEM_POOL = derive 4 3 K_MEMORY_REGION_TYPE_VIRTUAL_DRAM_USER_POOL"

definition K_MEMORY_REGION_TYPE_KERNEL_CODE :: KMemoryRegionTypeValue where
  "K_MEMORY_REGION_TYPE_KERNEL_CODE = derive_sparse 1 4 0 K_MEMORY_REGION_TYPE_KERNEL"

definition K_MEMORY_REGION_TYPE_KERNEL_STACK :: KMemoryRegionTypeValue where
  "K_MEMORY_REGION_TYPE_KERNEL_STACK = derive_sparse 1 4 1 K_MEMORY_REGION_TYPE_KERNEL"

definition K_MEMORY_REGION_TYPE_KERNEL_MISC :: KMemoryRegionTypeValue where
  "K_MEMORY_REGION_TYPE_KERNEL_MISC = derive_sparse 1 4 2 K_MEMORY_REGION_TYPE_KERNEL"

definition K_MEMORY_REGION_TYPE_KERNEL_SLAB :: KMemoryRegionTypeValue where
  "K_MEMORY_REGION_TYPE_KERNEL_SLAB = derive_sparse 1 4 3 K_MEMORY_REGION_TYPE_KERNEL"

definition K_MEMORY_REGION_TYPE_KERNEL_MISC_DERIVED_BASE :: KMemoryRegionTypeValue where
  "K_MEMORY_REGION_TYPE_KERNEL_MISC_DERIVED_BASE = derive_transition K_MEMORY_REGION_TYPE_KERNEL_MISC"

definition K_MEMORY_REGION_TYPE_KERNEL_MISC_MAIN_STACK :: KMemoryRegionTypeValue where
  "K_MEMORY_REGION_TYPE_KERNEL_MISC_MAIN_STACK = derive 7 1 K_MEMORY_REGION_TYPE_KERNEL_MISC_DERIVED_BASE"

definition K_MEMORY_REGION_TYPE_KERNEL_MISC_MAPPED_DEVICE :: KMemoryRegionTypeValue where
  "K_MEMORY_REGION_TYPE_KERNEL_MISC_MAPPED_DEVICE = derive 7 2 K_MEMORY_REGION_TYPE_KERNEL_MISC_DERIVED_BASE"

definition K_MEMORY_REGION_TYPE_KERNEL_MISC_EXCEPTION_STACK :: KMemoryRegionTypeValue where
  "K_MEMORY_REGION_TYPE_KERNEL_MISC_EXCEPTION_STACK = derive 7 3 K_MEMORY_REGION_TYPE_KERNEL_MISC_DERIVED_BASE"

definition K_MEMORY_REGION_TYPE_KERNEL_MISC_UNKNOWN_DEBUG :: KMemoryRegionTypeValue where
  "K_MEMORY_REGION_TYPE_KERNEL_MISC_UNKNOWN_DEBUG = derive 7 4 K_MEMORY_REGION_TYPE_KERNEL_MISC_DERIVED_BASE"

definition K_MEMORY_REGION_TYPE_KERNEL_MISC_IDLE_STACK :: KMemoryRegionTypeValue where
  "K_MEMORY_REGION_TYPE_KERNEL_MISC_IDLE_STACK = derive 7 6 K_MEMORY_REGION_TYPE_KERNEL_MISC_DERIVED_BASE"

definition K_MEMORY_REGION_TYPE_KERNEL_TEMP :: KMemoryRegionTypeValue where
  "K_MEMORY_REGION_TYPE_KERNEL_TEMP = derive 2 0 (advance 2 K_MEMORY_REGION_TYPE_KERNEL)"

definition K_MEMORY_REGION_TYPE_ARCH_DEVICE_BASE :: KMemoryRegionTypeValue where
  "K_MEMORY_REGION_TYPE_ARCH_DEVICE_BASE = derive_transition_with 0 1 K_MEMORY_REGION_TYPE_KERNEL"

definition K_MEMORY_REGION_TYPE_BOARD_DEVICE_BASE :: KMemoryRegionTypeValue where
  "K_MEMORY_REGION_TYPE_BOARD_DEVICE_BASE = derive_transition_with 0 2 K_MEMORY_REGION_TYPE_KERNEL"

definition NUM_ARCHITECTURE_DEVICE_REGIONS :: nat where "NUM_ARCHITECTURE_DEVICE_REGIONS = 3"

definition K_MEMORY_REGION_TYPE_UART :: KMemoryRegionTypeValue where
  "K_MEMORY_REGION_TYPE_UART = derive_sparse 0 NUM_ARCHITECTURE_DEVICE_REGIONS 0 K_MEMORY_REGION_TYPE_ARCH_DEVICE_BASE"

definition K_MEMORY_REGION_TYPE_INTERRUPT_CPU_INTERFACE :: KMemoryRegionTypeValue where
  "K_MEMORY_REGION_TYPE_INTERRUPT_CPU_INTERFACE = set_attribute K_MEMORY_REGION_ATTR_NO_USER_MAP (derive_sparse 0 NUM_ARCHITECTURE_DEVICE_REGIONS 1 K_MEMORY_REGION_TYPE_ARCH_DEVICE_BASE)"

definition K_MEMORY_REGION_TYPE_INTERRUPT_DISTRIBUTOR :: KMemoryRegionTypeValue where
  "K_MEMORY_REGION_TYPE_INTERRUPT_DISTRIBUTOR = set_attribute K_MEMORY_REGION_ATTR_NO_USER_MAP (derive_sparse 0 NUM_ARCHITECTURE_DEVICE_REGIONS 2 K_MEMORY_REGION_TYPE_ARCH_DEVICE_BASE)"

definition NUM_BOARD_DEVICE_REGIONS :: nat where "NUM_BOARD_DEVICE_REGIONS = 6"

definition K_MEMORY_REGION_TYPE_MEMORY_CONTROLLER :: KMemoryRegionTypeValue where
  "K_MEMORY_REGION_TYPE_MEMORY_CONTROLLER = set_attribute K_MEMORY_REGION_ATTR_NO_USER_MAP (derive NUM_BOARD_DEVICE_REGIONS 1 K_MEMORY_REGION_TYPE_BOARD_DEVICE_BASE)"

definition K_MEMORY_REGION_TYPE_MEMORY_CONTROLLER1 :: KMemoryRegionTypeValue where
  "K_MEMORY_REGION_TYPE_MEMORY_CONTROLLER1 = set_attribute K_MEMORY_REGION_ATTR_NO_USER_MAP (derive NUM_BOARD_DEVICE_REGIONS 2 K_MEMORY_REGION_TYPE_BOARD_DEVICE_BASE)"

definition K_MEMORY_REGION_TYPE_MEMORY_CONTROLLER0 :: KMemoryRegionTypeValue where
  "K_MEMORY_REGION_TYPE_MEMORY_CONTROLLER0 = set_attribute K_MEMORY_REGION_ATTR_NO_USER_MAP (derive NUM_BOARD_DEVICE_REGIONS 3 K_MEMORY_REGION_TYPE_BOARD_DEVICE_BASE)"

definition K_MEMORY_REGION_TYPE_POWER_MANAGEMENT_CONTROLLER :: KMemoryRegionTypeValue where
  "K_MEMORY_REGION_TYPE_POWER_MANAGEMENT_CONTROLLER = derive_transition (derive NUM_BOARD_DEVICE_REGIONS 4 K_MEMORY_REGION_TYPE_BOARD_DEVICE_BASE)"

definition K_MEMORY_REGION_TYPE_LEGACY_LPS_DEVICES :: KMemoryRegionTypeValue where
  "K_MEMORY_REGION_TYPE_LEGACY_LPS_DEVICES = derive NUM_BOARD_DEVICE_REGIONS 5 K_MEMORY_REGION_TYPE_BOARD_DEVICE_BASE"

definition NUM_LEGACY_LPS_DEVICES :: nat where "NUM_LEGACY_LPS_DEVICES = 7"

definition K_MEMORY_REGION_TYPE_LEGACY_LPS_EXCEPTION_VECTORS :: KMemoryRegionTypeValue where
  "K_MEMORY_REGION_TYPE_LEGACY_LPS_EXCEPTION_VECTORS = derive NUM_LEGACY_LPS_DEVICES 0 K_MEMORY_REGION_TYPE_LEGACY_LPS_DEVICES"

definition K_MEMORY_REGION_TYPE_LEGACY_LPS_IRAM :: KMemoryRegionTypeValue where
  "K_MEMORY_REGION_TYPE_LEGACY_LPS_IRAM = derive NUM_LEGACY_LPS_DEVICES 1 K_MEMORY_REGION_TYPE_LEGACY_LPS_DEVICES"

definition K_MEMORY_REGION_TYPE_LEGACY_LPS_FLOW_CONTROLLER :: KMemoryRegionTypeValue where
  "K_MEMORY_REGION_TYPE_LEGACY_LPS_FLOW_CONTROLLER = derive NUM_LEGACY_LPS_DEVICES 2 K_MEMORY_REGION_TYPE_LEGACY_LPS_DEVICES"

definition K_MEMORY_REGION_TYPE_LEGACY_LPS_PRIMARY_ICTLR :: KMemoryRegionTypeValue where
  "K_MEMORY_REGION_TYPE_LEGACY_LPS_PRIMARY_ICTLR = derive NUM_LEGACY_LPS_DEVICES 3 K_MEMORY_REGION_TYPE_LEGACY_LPS_DEVICES"

definition K_MEMORY_REGION_TYPE_LEGACY_LPS_SEMAPHORE :: KMemoryRegionTypeValue where
  "K_MEMORY_REGION_TYPE_LEGACY_LPS_SEMAPHORE = derive NUM_LEGACY_LPS_DEVICES 4 K_MEMORY_REGION_TYPE_LEGACY_LPS_DEVICES"

definition K_MEMORY_REGION_TYPE_LEGACY_LPS_ATOMICS :: KMemoryRegionTypeValue where
  "K_MEMORY_REGION_TYPE_LEGACY_LPS_ATOMICS = derive NUM_LEGACY_LPS_DEVICES 5 K_MEMORY_REGION_TYPE_LEGACY_LPS_DEVICES"

definition K_MEMORY_REGION_TYPE_LEGACY_LPS_CLK_RST :: KMemoryRegionTypeValue where
  "K_MEMORY_REGION_TYPE_LEGACY_LPS_CLK_RST = derive NUM_LEGACY_LPS_DEVICES 6 K_MEMORY_REGION_TYPE_LEGACY_LPS_DEVICES"

definition get_type_for_virtual_linear_mapping :: "u32 \<Rightarrow> KMemoryRegionTypeValue" where
  "get_type_for_virtual_linear_mapping type_id =
     (if is_ancestor_of type_id K_MEMORY_REGION_TYPE_DRAM_KERNEL_PT_HEAP
      then K_MEMORY_REGION_TYPE_VIRTUAL_DRAM_KERNEL_PT_HEAP
      else if is_ancestor_of type_id K_MEMORY_REGION_TYPE_DRAM_KERNEL_SECURE_APPLET_MEMORY
      then K_MEMORY_REGION_TYPE_VIRTUAL_DRAM_KERNEL_SECURE_APPLET_MEMORY
      else if is_ancestor_of type_id K_MEMORY_REGION_TYPE_DRAM_KERNEL_SECURE_UNKNOWN
      then K_MEMORY_REGION_TYPE_VIRTUAL_DRAM_KERNEL_SECURE_UNKNOWN
      else if is_ancestor_of type_id K_MEMORY_REGION_TYPE_KERNEL_TRACE_BUFFER
      then K_MEMORY_REGION_TYPE_VIRTUAL_DRAM_KERNEL_TRACE_BUFFER
      else if type_id OR K_MEMORY_REGION_ATTR_SHOULD_KERNEL_MAP = type_id
      then K_MEMORY_REGION_TYPE_VIRTUAL_DRAM_UNKNOWN_DEBUG
      else K_MEMORY_REGION_TYPE_DRAM)"

section \<open>The values\<close>

text \<open>The value and the next bit of every type, calculated once.\<close>

named_theorems type_defs

lemma bit_pairs:
  "bit_pair 1 (0, 1) = (0, 2)" "bit_pair (Suc 0) (0, Suc 0) = (0, 2)" "bit_pair 2 (0, Suc 0) = (1, 2)"
  "bit_pair 3 (0, Suc 0) = (0, 3)" "bit_pair 4 (0, Suc 0) = (1, 3)" "bit_pair 5 (0, Suc 0) = (2, 3)"
  "bit_pair 6 (0, Suc 0) = (0, 4)"
  by (simp_all add: eval_nat_numeral)

lemmas derivation = rt_new_def derive_initial_def derive_attribute_def set_attribute_def derive_transition_with_def
  derive_transition_def derive_sparse_def derive_def advance_def shl32_def
  K_MEMORY_REGION_ATTR_CARVEOUT_PROTECTED_def K_MEMORY_REGION_ATTR_USER_READ_ONLY_def
  K_MEMORY_REGION_ATTR_NO_USER_MAP_def K_MEMORY_REGION_ATTR_LINEAR_MAPPED_def NUM_ARCHITECTURE_DEVICE_REGIONS_def NUM_BOARD_DEVICE_REGIONS_def NUM_LEGACY_LPS_DEVICES_def

lemma K_MEMORY_REGION_TYPE_NONE_eq [type_defs]: "K_MEMORY_REGION_TYPE_NONE = \<lparr>rt_value = 0x0, next_bit = 0\<rparr>"
  by (simp add: K_MEMORY_REGION_TYPE_NONE_def type_defs derivation bit_pairs)

lemma K_MEMORY_REGION_TYPE_KERNEL_eq [type_defs]: "K_MEMORY_REGION_TYPE_KERNEL = \<lparr>rt_value = 0x1, next_bit = 2\<rparr>"
  by (simp add: K_MEMORY_REGION_TYPE_KERNEL_def type_defs derivation bit_pairs)

lemma K_MEMORY_REGION_TYPE_DRAM_eq [type_defs]: "K_MEMORY_REGION_TYPE_DRAM = \<lparr>rt_value = 0x2, next_bit = 2\<rparr>"
  by (simp add: K_MEMORY_REGION_TYPE_DRAM_def type_defs derivation bit_pairs)

lemma K_MEMORY_REGION_TYPE_DRAM_KERNEL_BASE_eq [type_defs]: "K_MEMORY_REGION_TYPE_DRAM_KERNEL_BASE = \<lparr>rt_value = 0x4200000e, next_bit = 6\<rparr>"
  by (simp add: K_MEMORY_REGION_TYPE_DRAM_KERNEL_BASE_def type_defs derivation bit_pairs)

lemma K_MEMORY_REGION_TYPE_DRAM_RESERVED_BASE_eq [type_defs]: "K_MEMORY_REGION_TYPE_DRAM_RESERVED_BASE = \<lparr>rt_value = 0x16, next_bit = 6\<rparr>"
  by (simp add: K_MEMORY_REGION_TYPE_DRAM_RESERVED_BASE_def type_defs derivation bit_pairs)

lemma K_MEMORY_REGION_TYPE_DRAM_HEAP_BASE_eq [type_defs]: "K_MEMORY_REGION_TYPE_DRAM_HEAP_BASE = \<lparr>rt_value = 0x80000026, next_bit = 6\<rparr>"
  by (simp add: K_MEMORY_REGION_TYPE_DRAM_HEAP_BASE_def type_defs derivation bit_pairs)

lemma K_MEMORY_REGION_TYPE_DRAM_KERNEL_CODE_eq [type_defs]: "K_MEMORY_REGION_TYPE_DRAM_KERNEL_CODE = \<lparr>rt_value = 0x420000ce, next_bit = 11\<rparr>"
  by (simp add: K_MEMORY_REGION_TYPE_DRAM_KERNEL_CODE_def type_defs derivation bit_pairs)

lemma K_MEMORY_REGION_TYPE_DRAM_KERNEL_SLAB_eq [type_defs]: "K_MEMORY_REGION_TYPE_DRAM_KERNEL_SLAB = \<lparr>rt_value = 0x4200014e, next_bit = 11\<rparr>"
  by (simp add: K_MEMORY_REGION_TYPE_DRAM_KERNEL_SLAB_def type_defs derivation bit_pairs)

lemma K_MEMORY_REGION_TYPE_DRAM_KERNEL_PT_HEAP_eq [type_defs]: "K_MEMORY_REGION_TYPE_DRAM_KERNEL_PT_HEAP = \<lparr>rt_value = 0xc200024e, next_bit = 11\<rparr>"
  by (simp add: K_MEMORY_REGION_TYPE_DRAM_KERNEL_PT_HEAP_def type_defs derivation bit_pairs)

lemma K_MEMORY_REGION_TYPE_DRAM_KERNEL_INIT_PT_eq [type_defs]: "K_MEMORY_REGION_TYPE_DRAM_KERNEL_INIT_PT = \<lparr>rt_value = 0xc200044e, next_bit = 11\<rparr>"
  by (simp add: K_MEMORY_REGION_TYPE_DRAM_KERNEL_INIT_PT_def type_defs derivation bit_pairs)

lemma K_MEMORY_REGION_TYPE_DRAM_KERNEL_SECURE_APPLET_MEMORY_eq [type_defs]: "K_MEMORY_REGION_TYPE_DRAM_KERNEL_SECURE_APPLET_MEMORY = \<lparr>rt_value = 0xc200018e, next_bit = 11\<rparr>"
  by (simp add: K_MEMORY_REGION_TYPE_DRAM_KERNEL_SECURE_APPLET_MEMORY_def type_defs derivation bit_pairs)

lemma K_MEMORY_REGION_TYPE_DRAM_KERNEL_SECURE_UNKNOWN_eq [type_defs]: "K_MEMORY_REGION_TYPE_DRAM_KERNEL_SECURE_UNKNOWN = \<lparr>rt_value = 0xc200028e, next_bit = 11\<rparr>"
  by (simp add: K_MEMORY_REGION_TYPE_DRAM_KERNEL_SECURE_UNKNOWN_def type_defs derivation bit_pairs)

lemma K_MEMORY_REGION_TYPE_DRAM_RESERVED_EARLY_eq [type_defs]: "K_MEMORY_REGION_TYPE_DRAM_RESERVED_EARLY = \<lparr>rt_value = 0x40000016, next_bit = 6\<rparr>"
  by (simp add: K_MEMORY_REGION_TYPE_DRAM_RESERVED_EARLY_def type_defs derivation bit_pairs)

lemma K_MEMORY_REGION_TYPE_KERNEL_TRACE_BUFFER_eq [type_defs]: "K_MEMORY_REGION_TYPE_KERNEL_TRACE_BUFFER = \<lparr>rt_value = 0xa00000d6, next_bit = 10\<rparr>"
  by (simp add: K_MEMORY_REGION_TYPE_KERNEL_TRACE_BUFFER_def type_defs derivation bit_pairs)

lemma K_MEMORY_REGION_TYPE_ON_MEMORY_BOOT_IMAGE_eq [type_defs]: "K_MEMORY_REGION_TYPE_ON_MEMORY_BOOT_IMAGE = \<lparr>rt_value = 0x156, next_bit = 10\<rparr>"
  by (simp add: K_MEMORY_REGION_TYPE_ON_MEMORY_BOOT_IMAGE_def type_defs derivation bit_pairs)

lemma K_MEMORY_REGION_TYPE_DTB_eq [type_defs]: "K_MEMORY_REGION_TYPE_DTB = \<lparr>rt_value = 0x256, next_bit = 10\<rparr>"
  by (simp add: K_MEMORY_REGION_TYPE_DTB_def type_defs derivation bit_pairs)

lemma K_MEMORY_REGION_TYPE_DRAM_POOL_PARTITION_eq [type_defs]: "K_MEMORY_REGION_TYPE_DRAM_POOL_PARTITION = \<lparr>rt_value = 0xc0000026, next_bit = 6\<rparr>"
  by (simp add: K_MEMORY_REGION_TYPE_DRAM_POOL_PARTITION_def type_defs derivation bit_pairs)

lemma K_MEMORY_REGION_TYPE_DRAM_POOL_MANAGEMENT_eq [type_defs]: "K_MEMORY_REGION_TYPE_DRAM_POOL_MANAGEMENT = \<lparr>rt_value = 0xc20000e6, next_bit = 10\<rparr>"
  by (simp add: K_MEMORY_REGION_TYPE_DRAM_POOL_MANAGEMENT_def type_defs derivation bit_pairs)

lemma K_MEMORY_REGION_TYPE_DRAM_USER_POOL_eq [type_defs]: "K_MEMORY_REGION_TYPE_DRAM_USER_POOL = \<lparr>rt_value = 0xc0000266, next_bit = 10\<rparr>"
  by (simp add: K_MEMORY_REGION_TYPE_DRAM_USER_POOL_def type_defs derivation bit_pairs)

lemma K_MEMORY_REGION_TYPE_DRAM_APPLICATION_POOL_eq [type_defs]: "K_MEMORY_REGION_TYPE_DRAM_APPLICATION_POOL = \<lparr>rt_value = 0xc0000e66, next_bit = 14\<rparr>"
  by (simp add: K_MEMORY_REGION_TYPE_DRAM_APPLICATION_POOL_def type_defs derivation bit_pairs)

lemma K_MEMORY_REGION_TYPE_DRAM_APPLET_POOL_eq [type_defs]: "K_MEMORY_REGION_TYPE_DRAM_APPLET_POOL = \<lparr>rt_value = 0xc0001666, next_bit = 14\<rparr>"
  by (simp add: K_MEMORY_REGION_TYPE_DRAM_APPLET_POOL_def type_defs derivation bit_pairs)

lemma K_MEMORY_REGION_TYPE_DRAM_SYSTEM_NON_SECURE_POOL_eq [type_defs]: "K_MEMORY_REGION_TYPE_DRAM_SYSTEM_NON_SECURE_POOL = \<lparr>rt_value = 0xc0001a66, next_bit = 14\<rparr>"
  by (simp add: K_MEMORY_REGION_TYPE_DRAM_SYSTEM_NON_SECURE_POOL_def type_defs derivation bit_pairs)

lemma K_MEMORY_REGION_TYPE_DRAM_SYSTEM_POOL_eq [type_defs]: "K_MEMORY_REGION_TYPE_DRAM_SYSTEM_POOL = \<lparr>rt_value = 0xc2002666, next_bit = 14\<rparr>"
  by (simp add: K_MEMORY_REGION_TYPE_DRAM_SYSTEM_POOL_def type_defs derivation bit_pairs)

lemma K_MEMORY_REGION_TYPE_VIRTUAL_DRAM_HEAP_BASE_eq [type_defs]: "K_MEMORY_REGION_TYPE_VIRTUAL_DRAM_HEAP_BASE = \<lparr>rt_value = 0x1a, next_bit = 8\<rparr>"
  by (simp add: K_MEMORY_REGION_TYPE_VIRTUAL_DRAM_HEAP_BASE_def type_defs derivation bit_pairs)

lemma K_MEMORY_REGION_TYPE_VIRTUAL_DRAM_KERNEL_PT_HEAP_eq [type_defs]: "K_MEMORY_REGION_TYPE_VIRTUAL_DRAM_KERNEL_PT_HEAP = \<lparr>rt_value = 0x2a, next_bit = 8\<rparr>"
  by (simp add: K_MEMORY_REGION_TYPE_VIRTUAL_DRAM_KERNEL_PT_HEAP_def type_defs derivation bit_pairs)

lemma K_MEMORY_REGION_TYPE_VIRTUAL_DRAM_KERNEL_TRACE_BUFFER_eq [type_defs]: "K_MEMORY_REGION_TYPE_VIRTUAL_DRAM_KERNEL_TRACE_BUFFER = \<lparr>rt_value = 0x4a, next_bit = 8\<rparr>"
  by (simp add: K_MEMORY_REGION_TYPE_VIRTUAL_DRAM_KERNEL_TRACE_BUFFER_def type_defs derivation bit_pairs)

lemma K_MEMORY_REGION_TYPE_VIRTUAL_DRAM_UNKNOWN_DEBUG_eq [type_defs]: "K_MEMORY_REGION_TYPE_VIRTUAL_DRAM_UNKNOWN_DEBUG = \<lparr>rt_value = 0x32, next_bit = 8\<rparr>"
  by (simp add: K_MEMORY_REGION_TYPE_VIRTUAL_DRAM_UNKNOWN_DEBUG_def type_defs derivation bit_pairs)

lemma K_MEMORY_REGION_TYPE_VIRTUAL_DRAM_KERNEL_SECURE_APPLET_MEMORY_eq [type_defs]: "K_MEMORY_REGION_TYPE_VIRTUAL_DRAM_KERNEL_SECURE_APPLET_MEMORY = \<lparr>rt_value = 0x52, next_bit = 8\<rparr>"
  by (simp add: K_MEMORY_REGION_TYPE_VIRTUAL_DRAM_KERNEL_SECURE_APPLET_MEMORY_def type_defs derivation bit_pairs)

lemma K_MEMORY_REGION_TYPE_VIRTUAL_DRAM_KERNEL_SECURE_UNKNOWN_eq [type_defs]: "K_MEMORY_REGION_TYPE_VIRTUAL_DRAM_KERNEL_SECURE_UNKNOWN = \<lparr>rt_value = 0x92, next_bit = 8\<rparr>"
  by (simp add: K_MEMORY_REGION_TYPE_VIRTUAL_DRAM_KERNEL_SECURE_UNKNOWN_def type_defs derivation bit_pairs)

lemma K_MEMORY_REGION_TYPE_VIRTUAL_DRAM_KERNEL_INIT_PT_eq [type_defs]: "K_MEMORY_REGION_TYPE_VIRTUAL_DRAM_KERNEL_INIT_PT = \<lparr>rt_value = 0x31a, next_bit = 12\<rparr>"
  by (simp add: K_MEMORY_REGION_TYPE_VIRTUAL_DRAM_KERNEL_INIT_PT_def type_defs derivation bit_pairs)

lemma K_MEMORY_REGION_TYPE_VIRTUAL_DRAM_POOL_MANAGEMENT_eq [type_defs]: "K_MEMORY_REGION_TYPE_VIRTUAL_DRAM_POOL_MANAGEMENT = \<lparr>rt_value = 0x51a, next_bit = 12\<rparr>"
  by (simp add: K_MEMORY_REGION_TYPE_VIRTUAL_DRAM_POOL_MANAGEMENT_def type_defs derivation bit_pairs)

lemma K_MEMORY_REGION_TYPE_VIRTUAL_DRAM_USER_POOL_eq [type_defs]: "K_MEMORY_REGION_TYPE_VIRTUAL_DRAM_USER_POOL = \<lparr>rt_value = 0x61a, next_bit = 12\<rparr>"
  by (simp add: K_MEMORY_REGION_TYPE_VIRTUAL_DRAM_USER_POOL_def type_defs derivation bit_pairs)

lemma K_MEMORY_REGION_TYPE_VIRTUAL_DRAM_APPLICATION_POOL_eq [type_defs]: "K_MEMORY_REGION_TYPE_VIRTUAL_DRAM_APPLICATION_POOL = \<lparr>rt_value = 0x361a, next_bit = 16\<rparr>"
  by (simp add: K_MEMORY_REGION_TYPE_VIRTUAL_DRAM_APPLICATION_POOL_def type_defs derivation bit_pairs)

lemma K_MEMORY_REGION_TYPE_VIRTUAL_DRAM_APPLET_POOL_eq [type_defs]: "K_MEMORY_REGION_TYPE_VIRTUAL_DRAM_APPLET_POOL = \<lparr>rt_value = 0x561a, next_bit = 16\<rparr>"
  by (simp add: K_MEMORY_REGION_TYPE_VIRTUAL_DRAM_APPLET_POOL_def type_defs derivation bit_pairs)

lemma K_MEMORY_REGION_TYPE_VIRTUAL_DRAM_SYSTEM_NON_SECURE_POOL_eq [type_defs]: "K_MEMORY_REGION_TYPE_VIRTUAL_DRAM_SYSTEM_NON_SECURE_POOL = \<lparr>rt_value = 0x661a, next_bit = 16\<rparr>"
  by (simp add: K_MEMORY_REGION_TYPE_VIRTUAL_DRAM_SYSTEM_NON_SECURE_POOL_def type_defs derivation bit_pairs)

lemma K_MEMORY_REGION_TYPE_VIRTUAL_DRAM_SYSTEM_POOL_eq [type_defs]: "K_MEMORY_REGION_TYPE_VIRTUAL_DRAM_SYSTEM_POOL = \<lparr>rt_value = 0x961a, next_bit = 16\<rparr>"
  by (simp add: K_MEMORY_REGION_TYPE_VIRTUAL_DRAM_SYSTEM_POOL_def type_defs derivation bit_pairs)

lemma K_MEMORY_REGION_TYPE_KERNEL_CODE_eq [type_defs]: "K_MEMORY_REGION_TYPE_KERNEL_CODE = \<lparr>rt_value = 0x19, next_bit = 8\<rparr>"
  by (simp add: K_MEMORY_REGION_TYPE_KERNEL_CODE_def type_defs derivation bit_pairs)

lemma K_MEMORY_REGION_TYPE_KERNEL_STACK_eq [type_defs]: "K_MEMORY_REGION_TYPE_KERNEL_STACK = \<lparr>rt_value = 0x29, next_bit = 8\<rparr>"
  by (simp add: K_MEMORY_REGION_TYPE_KERNEL_STACK_def type_defs derivation bit_pairs)

lemma K_MEMORY_REGION_TYPE_KERNEL_MISC_eq [type_defs]: "K_MEMORY_REGION_TYPE_KERNEL_MISC = \<lparr>rt_value = 0x49, next_bit = 8\<rparr>"
  by (simp add: K_MEMORY_REGION_TYPE_KERNEL_MISC_def type_defs derivation bit_pairs)

lemma K_MEMORY_REGION_TYPE_KERNEL_SLAB_eq [type_defs]: "K_MEMORY_REGION_TYPE_KERNEL_SLAB = \<lparr>rt_value = 0x89, next_bit = 8\<rparr>"
  by (simp add: K_MEMORY_REGION_TYPE_KERNEL_SLAB_def type_defs derivation bit_pairs)

lemma K_MEMORY_REGION_TYPE_KERNEL_MISC_DERIVED_BASE_eq [type_defs]: "K_MEMORY_REGION_TYPE_KERNEL_MISC_DERIVED_BASE = \<lparr>rt_value = 0x149, next_bit = 9\<rparr>"
  by (simp add: K_MEMORY_REGION_TYPE_KERNEL_MISC_DERIVED_BASE_def type_defs derivation bit_pairs)

lemma K_MEMORY_REGION_TYPE_KERNEL_MISC_MAIN_STACK_eq [type_defs]: "K_MEMORY_REGION_TYPE_KERNEL_MISC_MAIN_STACK = \<lparr>rt_value = 0xb49, next_bit = 14\<rparr>"
  by (simp add: K_MEMORY_REGION_TYPE_KERNEL_MISC_MAIN_STACK_def type_defs derivation bit_pairs)

lemma K_MEMORY_REGION_TYPE_KERNEL_MISC_MAPPED_DEVICE_eq [type_defs]: "K_MEMORY_REGION_TYPE_KERNEL_MISC_MAPPED_DEVICE = \<lparr>rt_value = 0xd49, next_bit = 14\<rparr>"
  by (simp add: K_MEMORY_REGION_TYPE_KERNEL_MISC_MAPPED_DEVICE_def type_defs derivation bit_pairs)

lemma K_MEMORY_REGION_TYPE_KERNEL_MISC_EXCEPTION_STACK_eq [type_defs]: "K_MEMORY_REGION_TYPE_KERNEL_MISC_EXCEPTION_STACK = \<lparr>rt_value = 0x1349, next_bit = 14\<rparr>"
  by (simp add: K_MEMORY_REGION_TYPE_KERNEL_MISC_EXCEPTION_STACK_def type_defs derivation bit_pairs)

lemma K_MEMORY_REGION_TYPE_KERNEL_MISC_UNKNOWN_DEBUG_eq [type_defs]: "K_MEMORY_REGION_TYPE_KERNEL_MISC_UNKNOWN_DEBUG = \<lparr>rt_value = 0x1549, next_bit = 14\<rparr>"
  by (simp add: K_MEMORY_REGION_TYPE_KERNEL_MISC_UNKNOWN_DEBUG_def type_defs derivation bit_pairs)

lemma K_MEMORY_REGION_TYPE_KERNEL_MISC_IDLE_STACK_eq [type_defs]: "K_MEMORY_REGION_TYPE_KERNEL_MISC_IDLE_STACK = \<lparr>rt_value = 0x2349, next_bit = 14\<rparr>"
  by (simp add: K_MEMORY_REGION_TYPE_KERNEL_MISC_IDLE_STACK_def type_defs derivation bit_pairs)

lemma K_MEMORY_REGION_TYPE_KERNEL_TEMP_eq [type_defs]: "K_MEMORY_REGION_TYPE_KERNEL_TEMP = \<lparr>rt_value = 0x31, next_bit = 7\<rparr>"
  by (simp add: K_MEMORY_REGION_TYPE_KERNEL_TEMP_def type_defs derivation bit_pairs)

lemma K_MEMORY_REGION_TYPE_ARCH_DEVICE_BASE_eq [type_defs]: "K_MEMORY_REGION_TYPE_ARCH_DEVICE_BASE = \<lparr>rt_value = 0x5, next_bit = 3\<rparr>"
  by (simp add: K_MEMORY_REGION_TYPE_ARCH_DEVICE_BASE_def type_defs derivation bit_pairs)

lemma K_MEMORY_REGION_TYPE_BOARD_DEVICE_BASE_eq [type_defs]: "K_MEMORY_REGION_TYPE_BOARD_DEVICE_BASE = \<lparr>rt_value = 0x5, next_bit = 4\<rparr>"
  by (simp add: K_MEMORY_REGION_TYPE_BOARD_DEVICE_BASE_def type_defs derivation bit_pairs)

lemma K_MEMORY_REGION_TYPE_UART_eq [type_defs]: "K_MEMORY_REGION_TYPE_UART = \<lparr>rt_value = 0x1d, next_bit = 7\<rparr>"
  by (simp add: K_MEMORY_REGION_TYPE_UART_def type_defs derivation bit_pairs)

lemma K_MEMORY_REGION_TYPE_INTERRUPT_CPU_INTERFACE_eq [type_defs]: "K_MEMORY_REGION_TYPE_INTERRUPT_CPU_INTERFACE = \<lparr>rt_value = 0x4000002d, next_bit = 7\<rparr>"
  by (simp add: K_MEMORY_REGION_TYPE_INTERRUPT_CPU_INTERFACE_def type_defs derivation bit_pairs)

lemma K_MEMORY_REGION_TYPE_INTERRUPT_DISTRIBUTOR_eq [type_defs]: "K_MEMORY_REGION_TYPE_INTERRUPT_DISTRIBUTOR = \<lparr>rt_value = 0x4000004d, next_bit = 7\<rparr>"
  by (simp add: K_MEMORY_REGION_TYPE_INTERRUPT_DISTRIBUTOR_def type_defs derivation bit_pairs)

lemma K_MEMORY_REGION_TYPE_MEMORY_CONTROLLER_eq [type_defs]: "K_MEMORY_REGION_TYPE_MEMORY_CONTROLLER = \<lparr>rt_value = 0x40000055, next_bit = 8\<rparr>"
  by (simp add: K_MEMORY_REGION_TYPE_MEMORY_CONTROLLER_def type_defs derivation bit_pairs)

lemma K_MEMORY_REGION_TYPE_MEMORY_CONTROLLER1_eq [type_defs]: "K_MEMORY_REGION_TYPE_MEMORY_CONTROLLER1 = \<lparr>rt_value = 0x40000065, next_bit = 8\<rparr>"
  by (simp add: K_MEMORY_REGION_TYPE_MEMORY_CONTROLLER1_def type_defs derivation bit_pairs)

lemma K_MEMORY_REGION_TYPE_MEMORY_CONTROLLER0_eq [type_defs]: "K_MEMORY_REGION_TYPE_MEMORY_CONTROLLER0 = \<lparr>rt_value = 0x40000095, next_bit = 8\<rparr>"
  by (simp add: K_MEMORY_REGION_TYPE_MEMORY_CONTROLLER0_def type_defs derivation bit_pairs)

lemma K_MEMORY_REGION_TYPE_POWER_MANAGEMENT_CONTROLLER_eq [type_defs]: "K_MEMORY_REGION_TYPE_POWER_MANAGEMENT_CONTROLLER = \<lparr>rt_value = 0x1a5, next_bit = 9\<rparr>"
  by (simp add: K_MEMORY_REGION_TYPE_POWER_MANAGEMENT_CONTROLLER_def type_defs derivation bit_pairs)

lemma K_MEMORY_REGION_TYPE_LEGACY_LPS_DEVICES_eq [type_defs]: "K_MEMORY_REGION_TYPE_LEGACY_LPS_DEVICES = \<lparr>rt_value = 0xc5, next_bit = 8\<rparr>"
  by (simp add: K_MEMORY_REGION_TYPE_LEGACY_LPS_DEVICES_def type_defs derivation bit_pairs)

lemma K_MEMORY_REGION_TYPE_LEGACY_LPS_EXCEPTION_VECTORS_eq [type_defs]: "K_MEMORY_REGION_TYPE_LEGACY_LPS_EXCEPTION_VECTORS = \<lparr>rt_value = 0x3c5, next_bit = 13\<rparr>"
  by (simp add: K_MEMORY_REGION_TYPE_LEGACY_LPS_EXCEPTION_VECTORS_def type_defs derivation bit_pairs)

lemma K_MEMORY_REGION_TYPE_LEGACY_LPS_IRAM_eq [type_defs]: "K_MEMORY_REGION_TYPE_LEGACY_LPS_IRAM = \<lparr>rt_value = 0x5c5, next_bit = 13\<rparr>"
  by (simp add: K_MEMORY_REGION_TYPE_LEGACY_LPS_IRAM_def type_defs derivation bit_pairs)

lemma K_MEMORY_REGION_TYPE_LEGACY_LPS_FLOW_CONTROLLER_eq [type_defs]: "K_MEMORY_REGION_TYPE_LEGACY_LPS_FLOW_CONTROLLER = \<lparr>rt_value = 0x6c5, next_bit = 13\<rparr>"
  by (simp add: K_MEMORY_REGION_TYPE_LEGACY_LPS_FLOW_CONTROLLER_def type_defs derivation bit_pairs)

lemma K_MEMORY_REGION_TYPE_LEGACY_LPS_PRIMARY_ICTLR_eq [type_defs]: "K_MEMORY_REGION_TYPE_LEGACY_LPS_PRIMARY_ICTLR = \<lparr>rt_value = 0x9c5, next_bit = 13\<rparr>"
  by (simp add: K_MEMORY_REGION_TYPE_LEGACY_LPS_PRIMARY_ICTLR_def type_defs derivation bit_pairs)

lemma K_MEMORY_REGION_TYPE_LEGACY_LPS_SEMAPHORE_eq [type_defs]: "K_MEMORY_REGION_TYPE_LEGACY_LPS_SEMAPHORE = \<lparr>rt_value = 0xac5, next_bit = 13\<rparr>"
  by (simp add: K_MEMORY_REGION_TYPE_LEGACY_LPS_SEMAPHORE_def type_defs derivation bit_pairs)

lemma K_MEMORY_REGION_TYPE_LEGACY_LPS_ATOMICS_eq [type_defs]: "K_MEMORY_REGION_TYPE_LEGACY_LPS_ATOMICS = \<lparr>rt_value = 0xcc5, next_bit = 13\<rparr>"
  by (simp add: K_MEMORY_REGION_TYPE_LEGACY_LPS_ATOMICS_def type_defs derivation bit_pairs)

lemma K_MEMORY_REGION_TYPE_LEGACY_LPS_CLK_RST_eq [type_defs]: "K_MEMORY_REGION_TYPE_LEGACY_LPS_CLK_RST = \<lparr>rt_value = 0x11c5, next_bit = 13\<rparr>"
  by (simp add: K_MEMORY_REGION_TYPE_LEGACY_LPS_CLK_RST_def type_defs derivation bit_pairs)

section \<open>Ancestors\<close>

lemma ancestor_iff: "is_ancestor_of v t \<longleftrightarrow> (\<forall>n. bit (rt_value t) n \<longrightarrow> bit v n)"
proof
  assume "is_ancestor_of v t"
  then have "bit v n = (bit (rt_value t) n \<or> bit v n)" for n by (metis is_ancestor_of_def bit_or_iff)
  then show "\<forall>n. bit (rt_value t) n \<longrightarrow> bit v n" by blast
next
  assume "\<forall>n. bit (rt_value t) n \<longrightarrow> bit v n"
  then show "is_ancestor_of v t" unfolding is_ancestor_of_def by (intro bit_eqI) (auto simp: bit_simps)
qed

lemma ancestor_refl: "is_ancestor_of (rt_value t) t"
  by (simp add: ancestor_iff)

lemma ancestor_trans:
  "is_ancestor_of (rt_value b) a \<Longrightarrow> is_ancestor_of v b \<Longrightarrow> is_ancestor_of v a"
  by (simp add: ancestor_iff)

text \<open>The values that the source asserts at compile time.\<close>

lemma asserted_values:
  "map rt_value [K_MEMORY_REGION_TYPE_KERNEL, K_MEMORY_REGION_TYPE_DRAM, K_MEMORY_REGION_TYPE_KERNEL_CODE,
    K_MEMORY_REGION_TYPE_KERNEL_STACK, K_MEMORY_REGION_TYPE_KERNEL_MISC, K_MEMORY_REGION_TYPE_KERNEL_SLAB,
    K_MEMORY_REGION_TYPE_KERNEL_MISC_DERIVED_BASE, K_MEMORY_REGION_TYPE_KERNEL_MISC_MAIN_STACK,
    K_MEMORY_REGION_TYPE_KERNEL_MISC_IDLE_STACK, K_MEMORY_REGION_TYPE_KERNEL_TEMP,
    K_MEMORY_REGION_TYPE_VIRTUAL_DRAM_HEAP_BASE, K_MEMORY_REGION_TYPE_VIRTUAL_DRAM_KERNEL_PT_HEAP,
    K_MEMORY_REGION_TYPE_VIRTUAL_DRAM_KERNEL_TRACE_BUFFER, K_MEMORY_REGION_TYPE_VIRTUAL_DRAM_KERNEL_INIT_PT,
    K_MEMORY_REGION_TYPE_VIRTUAL_DRAM_POOL_MANAGEMENT, K_MEMORY_REGION_TYPE_VIRTUAL_DRAM_USER_POOL,
    K_MEMORY_REGION_TYPE_VIRTUAL_DRAM_APPLICATION_POOL, K_MEMORY_REGION_TYPE_VIRTUAL_DRAM_APPLET_POOL,
    K_MEMORY_REGION_TYPE_VIRTUAL_DRAM_SYSTEM_NON_SECURE_POOL, K_MEMORY_REGION_TYPE_VIRTUAL_DRAM_SYSTEM_POOL,
    K_MEMORY_REGION_TYPE_UART] =
  [0x1, 0x2, 0x19, 0x29, 0x49, 0x89, 0x149, 0xB49, 0x2349, 0x31, 0x1A, 0x2A, 0x4A, 0x31A, 0x51A, 0x61A,
    0x361A, 0x561A, 0x661A, 0x961A, 0x1D]"
  by (simp add: type_defs)

end
