(* ===== verification/MemoryRegionTypeProps.thy ===== *)
theory MemoryRegionTypeProps
  imports MemoryRegionType
begin

text \<open>
  The types of regions as a tree. A type is derived from another by setting bits from the next free one
  on, two bits for a child among siblings (\<open>derive\<close>, \<open>derive_sparse\<close>), one for a transition, and
  attributes in the seven upper bits. The kernel asks whether a region descends from a type by comparing
  bits; here that test is shown to decide the tree, as long as the bits stay below the attributes.
\<close>

section \<open>The pairs of bits\<close>






section \<open>Siblings and descendants\<close>




















section \<open>The virtual types of physical regions\<close>





end
