(* ===== verification/PageHeap.thy ===== *)
theory PageHeap
  imports PageBitmapProps Machine
begin

text \<open>
  The buddy heap of physical pages, src/core/src/hle/kernel/k_page_heap.rs: one bitmap of free
  blocks per block size. Addresses and sizes are 64-bit values kept as \<^typ>\<open>nat\<close> with the
  wrapping operations of \<open>Machine\<close>; a block index is an \<^typ>\<open>int\<close> as the code's \<open>i32\<close>, and
  \<open>blocks[i as usize]\<close> goes through \<open>block_at\<close>. \<open>None\<close> is a panic, and for the loops of
  \<open>free\<close>, which the code bounds only by their arithmetic, also running forever.
\<close>

definition MEMORY_BLOCK_PAGE_SHIFTS :: "nat list" where
  "MEMORY_BLOCK_PAGE_SHIFTS = [0x0C, 0x10, 0x15, 0x16, 0x19, 0x1D, 0x1E]"

section \<open>Block\<close>

record Block =
  block_bitmap :: KPageBitmap
  block_address :: nat
  end_offset :: nat
  block_shift :: nat
  next_block_shift :: nat

definition block_new :: Block where
  "block_new = \<lparr>block_bitmap = pb_new, block_address = 0, end_offset = 0, block_shift = 0,
     next_block_shift = 0\<rparr>"

definition block_size :: "Block \<Rightarrow> nat" where
  "block_size b = shl64 1 (block_shift b)"

definition block_num_pages :: "Block \<Rightarrow> nat" where
  "block_num_pages b = block_size b div PAGE_SIZE"

definition num_free_blocks :: "Block \<Rightarrow> nat" where
  "num_free_blocks b = unat (num_bits (block_bitmap b))"

definition block_free_pages :: "Block \<Rightarrow> nat" where
  "block_free_pages b = mul64 (num_free_blocks b) (block_num_pages b)"

definition block_initialize :: "nat \<Rightarrow> nat \<Rightarrow> nat \<Rightarrow> nat \<Rightarrow> Block \<Rightarrow> Block option" where
  "block_initialize addr sz bs nbs b =
     (let align = (if nbs \<noteq> 0 then shl64 1 nbs else shl64 1 bs);
          aligned_addr = align_down addr align;
          aligned_end = align_up (add64 addr sz) align;
          eo = sub64 aligned_end aligned_addr div shl64 1 bs
      in do {
        bm \<leftarrow> pb_initialize eo (block_bitmap b);
        Some (b\<lparr>block_shift := bs, next_block_shift := nbs, block_address := aligned_addr,
                end_offset := eo, block_bitmap := bm\<rparr>) })"

text \<open>The answer 0 says that nothing was merged.\<close>

definition push_block :: "nat \<Rightarrow> Block \<Rightarrow> (nat \<times> Block) option" where
  "push_block address b = do {
     let offset = shr64 (sub64 address (block_address b)) (block_shift b);
     bm \<leftarrow> pb_set_bit offset (block_bitmap b);
     if next_block_shift b \<noteq> 0 then do {
       let diff = shl64 1 (sub64 (next_block_shift b) (block_shift b));
       let aligned_offset = andnot64 offset (sub64 diff 1);
       (merged, bm) \<leftarrow> clear_range aligned_offset diff bm;
       Some (if merged then add64 (block_address b) (shl64 aligned_offset (block_shift b)) else 0,
             b\<lparr>block_bitmap := bm\<rparr>) }
     else Some (0, b\<lparr>block_bitmap := bm\<rparr>) }"

definition pop_block :: "bool \<Rightarrow> Block \<Rightarrow> (nat \<times> Block) option" where
  "pop_block random b = do {
     (soffset, bm) \<leftarrow> find_free_block random (block_bitmap b);
     if soffset < 0 then Some (0, b\<lparr>block_bitmap := bm\<rparr>)
     else do {
       bm \<leftarrow> pb_clear_bit (nat soffset) bm;
       Some (add64 (block_address b) (shl64 (nat soffset) (block_shift b)), b\<lparr>block_bitmap := bm\<rparr>) } }"

definition block_overhead_size :: "nat \<Rightarrow> nat \<Rightarrow> nat \<Rightarrow> nat" where
  "block_overhead_size region_size cur_shift next_shift =
     (let cur = shl64 1 cur_shift;
          next = (if next_shift \<noteq> 0 then shl64 1 next_shift else cur);
          align = (if next_shift \<noteq> 0 then next else cur)
      in overhead_size (add64 (mul64 align 2) (align_up region_size align) div cur))"

section \<open>KPageHeap\<close>

record KPageHeap =
  heap_address :: nat
  heap_size :: nat
  initial_used_size :: nat
  num_blocks :: nat
  blocks :: "Block list"
  heap_rng :: RandomBitGenerator

definition heap_new :: KPageHeap where
  "heap_new = \<lparr>heap_address = 0, heap_size = 0, initial_used_size = 0, num_blocks = 0,
     blocks = replicate 7 block_new, heap_rng = rng_new\<rparr>"

definition get_end_address :: "KPageHeap \<Rightarrow> nat" where
  "get_end_address h = add64 (heap_address h) (heap_size h)"

definition get_page_offset :: "nat \<Rightarrow> KPageHeap \<Rightarrow> nat" where
  "get_page_offset block h = sub64 block (heap_address h) div PAGE_SIZE"

definition get_page_offset_to_end :: "nat \<Rightarrow> KPageHeap \<Rightarrow> nat" where
  "get_page_offset_to_end block h = sub64 (get_end_address h) block div PAGE_SIZE"

definition block_at :: "int \<Rightarrow> KPageHeap \<Rightarrow> Block option" where
  "block_at i h = do { k \<leftarrow> ix (length (blocks h)) i; Some (blocks h ! k) }"

definition put_block :: "int \<Rightarrow> Block \<Rightarrow> KPageHeap \<Rightarrow> KPageHeap" where
  "put_block i b h = h\<lparr>blocks := (blocks h)[nat i := b]\<rparr>"

text \<open>The loop of \<open>initialize_with_shifts\<close>; the next shift after the last one is 0.\<close>

fun init_blocks :: "nat \<Rightarrow> nat list \<Rightarrow> Block list \<Rightarrow> nat \<Rightarrow> nat \<Rightarrow> (Block list) option" where
  "init_blocks i [] bs addr sz = Some bs"
| "init_blocks i (s # ss) bs addr sz =
     (if i < length bs then do {
        b \<leftarrow> block_initialize addr sz s (case ss of [] \<Rightarrow> 0 | s' # _ \<Rightarrow> s') (bs ! i);
        init_blocks (Suc i) ss (bs[i := b]) addr sz }
      else None)"

definition heap_initialize :: "nat \<Rightarrow> nat \<Rightarrow> KPageHeap \<Rightarrow> KPageHeap option" where
  "heap_initialize addr sz h = do {
     bs \<leftarrow> init_blocks 0 MEMORY_BLOCK_PAGE_SHIFTS (blocks h) addr sz;
     Some (h\<lparr>heap_address := addr, heap_size := sz, num_blocks := length MEMORY_BLOCK_PAGE_SHIFTS,
             blocks := bs\<rparr>) }"

definition get_num_free_pages :: "KPageHeap \<Rightarrow> nat" where
  "get_num_free_pages h =
     fold (\<lambda>b num_free. add64 num_free (block_free_pages b)) (take (num_blocks h) (blocks h)) 0"

definition get_free_size :: "KPageHeap \<Rightarrow> nat" where
  "get_free_size h = mul64 (get_num_free_pages h) PAGE_SIZE"

definition set_initial_used_size :: "nat \<Rightarrow> KPageHeap \<Rightarrow> KPageHeap" where
  "set_initial_used_size reserved_size h =
     h\<lparr>initial_used_size := sub64 (sub64 (heap_size h) (get_free_size h)) reserved_size\<rparr>"

text \<open>Push a block, and the merged block it may give one level up, and so on.\<close>

function free_block :: "nat \<Rightarrow> int \<Rightarrow> KPageHeap \<Rightarrow> KPageHeap option" where
  "free_block block index h = do {
     b \<leftarrow> block_at index h;
     (block', b') \<leftarrow> push_block block b;
     if block' = 0 then Some (put_block index b' h)
     else free_block block' (index + 1) (put_block index b' h) }"
  by pat_completeness auto
termination
  by (relation "measure (\<lambda>(_, i, h). nat (int (length (blocks h)) - i))")
    (auto simp: block_at_def put_block_def ix_def split: bind_splits if_splits)

declare free_block.simps [simp del]

partial_function (option) free_middle :: "nat \<Rightarrow> nat \<Rightarrow> nat \<Rightarrow> int \<Rightarrow> KPageHeap \<Rightarrow> KPageHeap option" where
  "free_middle block big_end bsz index h =
     (if block < big_end then do {
        h \<leftarrow> free_block block index h;
        free_middle (add64 block bsz) big_end bsz index h }
      else Some h)"

partial_function (option) free_before ::
  "nat \<Rightarrow> nat \<Rightarrow> nat \<Rightarrow> int \<Rightarrow> KPageHeap \<Rightarrow> (nat \<times> KPageHeap) option" where
  "free_before before_start before_end bsz index h =
     (if add64 before_start bsz \<le> before_end then do {
        h \<leftarrow> free_block (sub64 before_end bsz) index h;
        free_before before_start (sub64 before_end bsz) bsz index h }
      else Some (before_end, h))"

partial_function (option) free_after ::
  "nat \<Rightarrow> nat \<Rightarrow> nat \<Rightarrow> int \<Rightarrow> KPageHeap \<Rightarrow> (nat \<times> KPageHeap) option" where
  "free_after after_start after_end bsz index h =
     (if add64 after_start bsz \<le> after_end then do {
        h \<leftarrow> free_block after_start index h;
        free_after (add64 after_start bsz) after_end bsz index h }
      else Some (after_start, h))"

fun free_before_levels :: "int list \<Rightarrow> nat \<Rightarrow> nat \<Rightarrow> KPageHeap \<Rightarrow> KPageHeap option" where
  "free_before_levels [] before_start before_end h = Some h"
| "free_before_levels (i # is) before_start before_end h = do {
     b \<leftarrow> block_at i h;
     (before_end, h) \<leftarrow> free_before before_start before_end (block_size b) i h;
     free_before_levels is before_start before_end h }"

fun free_after_levels :: "int list \<Rightarrow> nat \<Rightarrow> nat \<Rightarrow> KPageHeap \<Rightarrow> KPageHeap option" where
  "free_after_levels [] after_start after_end h = Some h"
| "free_after_levels (i # is) after_start after_end h = do {
     b \<leftarrow> block_at i h;
     (after_start, h) \<leftarrow> free_after after_start after_end (block_size b) i h;
     free_after_levels is after_start after_end h }"

text \<open>
  The search of \<open>free\<close> for the largest block size with a whole block inside the range. The
  argument is one more than the code's \<open>big_index\<close>.
\<close>

fun find_big :: "nat \<Rightarrow> nat \<Rightarrow> nat \<Rightarrow> KPageHeap \<Rightarrow> ((nat \<times> nat \<times> nat) option) option" where
  "find_big 0 start ende h = Some None"
| "find_big (Suc n) start ende h = do {
     b \<leftarrow> block_at (int n) h;
     let big_start = align_up start (block_size b);
     let big_end = align_down ende (block_size b);
     if big_start < big_end then Some (Some (n, big_start, big_end)) else find_big n start ende h }"

definition heap_free :: "nat \<Rightarrow> nat \<Rightarrow> KPageHeap \<Rightarrow> KPageHeap option" where
  "heap_free addr num_pages h =
     (if num_pages = 0 then Some h
      else do {
        let ende = add64 addr (mul64 num_pages PAGE_SIZE);
        big \<leftarrow> find_big (num_blocks h) addr ende h;
        case big of
          None \<Rightarrow> Some h
        | Some (n, big_start, big_end) \<Rightarrow> do {
            b \<leftarrow> block_at (int n) h;
            h \<leftarrow> free_middle big_start big_end (block_size b) (int n) h;
            let levels = rev (map int [0..<n]);
            h \<leftarrow> free_before_levels levels addr big_start h;
            free_after_levels levels big_end ende h } })"

section \<open>Allocation\<close>

fun linear_search :: "int list \<Rightarrow> nat \<Rightarrow> KPageHeap \<Rightarrow> (nat \<times> KPageHeap) option" where
  "linear_search [] needed h = Some (0, h)"
| "linear_search (i # is) needed h = do {
     b \<leftarrow> block_at i h;
     (addr, b) \<leftarrow> pop_block False b;
     let h = put_block i b h;
     if addr \<noteq> 0 then
       (if needed < block_size b then do {
          h \<leftarrow> heap_free (add64 addr needed) (sub64 (block_size b) needed div PAGE_SIZE) h;
          Some (addr, h) }
        else Some (addr, h))
     else linear_search is needed h }"

definition allocate_by_linear_search :: "int \<Rightarrow> KPageHeap \<Rightarrow> (nat \<times> KPageHeap) option" where
  "allocate_by_linear_search index h = do {
     b \<leftarrow> block_at index h;
     linear_search [index..int (num_blocks h) - 1] (block_size b) h }"

text \<open>\<open>(1 + ((size - needed) >> align_shift)) * num_free_blocks\<close> of one level.\<close>

definition alignments :: "nat \<Rightarrow> nat \<Rightarrow> Block \<Rightarrow> nat" where
  "alignments needed align_shift b =
     mul64 (add64 1 (shr64 (sub64 (block_size b) needed) align_shift)) (num_free_blocks b)"

text \<open>The first loop stops at the level that brings the count to four.\<close>

fun count_alignments ::
  "int list \<Rightarrow> nat \<Rightarrow> nat \<Rightarrow> nat \<Rightarrow> int \<Rightarrow> KPageHeap \<Rightarrow> (nat \<times> int) option" where
  "count_alignments [] needed align_shift possible max_blocks h = Some (possible, max_blocks)"
| "count_alignments (i # is) needed align_shift possible max_blocks h = do {
     b \<leftarrow> block_at i h;
     let possible = add64 possible (alignments needed align_shift b);
     if 4 \<le> possible then Some (possible, i + 1)
     else count_alignments is needed align_shift possible max_blocks h }"

text \<open>The second loop finds the level that the random number falls into.\<close>

fun choose_level ::
  "int list \<Rightarrow> nat \<Rightarrow> nat \<Rightarrow> nat \<Rightarrow> nat \<Rightarrow> int \<Rightarrow> KPageHeap \<Rightarrow> int option" where
  "choose_level [] needed align_shift rnd possible index h = Some index"
| "choose_level (i # is) needed align_shift rnd possible index h = do {
     b \<leftarrow> block_at i h;
     let possible = add64 possible (alignments needed align_shift b);
     if rnd < possible then Some i
     else choose_level is needed align_shift rnd possible index h }"

definition random_below :: "nat \<Rightarrow> KPageHeap \<Rightarrow> nat \<times> KPageHeap" where
  "random_below mx h =
     (let (r, g) = generate_random (word_of_nat mx) (heap_rng h) in (unat r, h\<lparr>heap_rng := g\<rparr>))"

definition allocate_by_random :: "int \<Rightarrow> nat \<Rightarrow> nat \<Rightarrow> KPageHeap \<Rightarrow> (nat \<times> KPageHeap) option" where
  "allocate_by_random index num_pages align_pages h = do {
     let needed = mul64 num_pages PAGE_SIZE;
     let align_shift = ctz (word_of_nat (mul64 align_pages PAGE_SIZE) :: u64);
     (possible, max_blocks) \<leftarrow>
       count_alignments [index..int (num_blocks h) - 1] needed align_shift 0 (int (num_blocks h)) h;
     (index, h) \<leftarrow>
       (if 0 < possible \<and> index + 1 < max_blocks then do {
          let (rnd, h) = random_below possible h;
          i \<leftarrow> choose_level [index..max_blocks - 1] needed align_shift rnd 0 index h;
          Some (i, h) }
        else Some (index, h));
     b \<leftarrow> block_at index h;
     (addr, b) \<leftarrow> pop_block True b;
     let h = put_block index b h;
     if addr \<noteq> 0 then do {
       let leftover = sub64 (block_size b) needed;
       if 0 < leftover then do {
         let (r, h) = random_below (add64 1 (shr64 leftover align_shift)) h;
         let random_offset = shl64 r align_shift;
         h \<leftarrow> (if random_offset \<noteq> 0 then heap_free addr (random_offset div PAGE_SIZE) h else Some h);
         let addr = add64 addr random_offset;
         h \<leftarrow> (if random_offset \<noteq> leftover
              then heap_free (add64 addr needed) (sub64 leftover random_offset div PAGE_SIZE) h
              else Some h);
         Some (addr, h) }
       else Some (addr, h) }
     else Some (0, h) }"

definition allocate_block :: "int \<Rightarrow> bool \<Rightarrow> KPageHeap \<Rightarrow> (nat \<times> KPageHeap) option" where
  "allocate_block index random h =
     (if random then do {
        b \<leftarrow> block_at index h;
        allocate_by_random index (block_num_pages b) (block_num_pages b) h }
      else allocate_by_linear_search index h)"

definition allocate_aligned :: "int \<Rightarrow> nat \<Rightarrow> nat \<Rightarrow> KPageHeap \<Rightarrow> (nat \<times> KPageHeap) option" where
  "allocate_aligned index num_pages align_pages h = allocate_by_random index num_pages align_pages h"

section \<open>The tables of block sizes\<close>

fun first_index :: "nat \<Rightarrow> nat list \<Rightarrow> nat \<Rightarrow> int" where
  "first_index i [] target = -1"
| "first_index i (s # ss) target =
     (if target \<le> shl64 1 s div PAGE_SIZE then int i else first_index (Suc i) ss target)"

definition get_aligned_block_index :: "nat \<Rightarrow> nat \<Rightarrow> int" where
  "get_aligned_block_index num_pages align_pages =
     first_index 0 MEMORY_BLOCK_PAGE_SHIFTS (max num_pages align_pages)"

fun last_index :: "nat \<Rightarrow> nat \<Rightarrow> int" where
  "last_index 0 num_pages = -1"
| "last_index (Suc i) num_pages =
     (if shl64 1 (MEMORY_BLOCK_PAGE_SHIFTS ! i) div PAGE_SIZE \<le> num_pages then int i
      else last_index i num_pages)"

definition get_block_index :: "nat \<Rightarrow> int" where
  "get_block_index num_pages = last_index (length MEMORY_BLOCK_PAGE_SHIFTS) num_pages"

definition get_block_size :: "nat \<Rightarrow> nat option" where
  "get_block_size index = do {
     i \<leftarrow> ix (length MEMORY_BLOCK_PAGE_SHIFTS) (int index);
     Some (shl64 1 (MEMORY_BLOCK_PAGE_SHIFTS ! i)) }"

definition get_block_num_pages :: "nat \<Rightarrow> nat option" where
  "get_block_num_pages index = do { s \<leftarrow> get_block_size index; Some (s div PAGE_SIZE) }"

fun overhead_levels :: "nat list \<Rightarrow> nat \<Rightarrow> nat" where
  "overhead_levels [] region_size = 0"
| "overhead_levels (s # ss) region_size =
     add64 (block_overhead_size region_size s (case ss of [] \<Rightarrow> 0 | s' # _ \<Rightarrow> s'))
           (overhead_levels ss region_size)"

definition heap_overhead_size :: "nat \<Rightarrow> nat" where
  "heap_overhead_size region_size =
     align_up (overhead_levels MEMORY_BLOCK_PAGE_SHIFTS region_size) PAGE_SIZE"

end
