(* ===== verification/Buddy.thy ===== *)
theory Buddy
  imports Prelude
begin

text \<open>
  The abstract buddy allocator that the page heap implements: for each of \<open>n\<close> levels the set of
  the start addresses of its free blocks, a block of level \<open>i\<close> having \<open>2 ^ s i\<close> bytes. It says what
  pushing a block with merging does to the set of free bytes, and that merging is complete: an
  aligned free range of a block's size is always part of one free block.
\<close>

definition region :: "(nat \<Rightarrow> nat) \<Rightarrow> nat \<Rightarrow> nat \<Rightarrow> nat set" where
  "region s i a = {a..<a + 2 ^ s i}"

definition covers :: "nat \<Rightarrow> (nat \<Rightarrow> nat) \<Rightarrow> (nat \<Rightarrow> nat set) \<Rightarrow> nat set" where
  "covers n s F = (\<Union>i < n. \<Union>a \<in> F i. region s i a)"

text \<open>The blocks of level \<open>i\<close> in the same block of level \<open>i + 1\<close> as \<open>a\<close>.\<close>

definition group :: "(nat \<Rightarrow> nat) \<Rightarrow> nat \<Rightarrow> nat \<Rightarrow> nat set" where
  "group s i a = {b. 2 ^ s i dvd b \<and> b div 2 ^ s (Suc i) = a div 2 ^ s (Suc i)}"

definition blocks_ok :: "nat \<Rightarrow> (nat \<Rightarrow> nat) \<Rightarrow> (nat \<Rightarrow> nat set) \<Rightarrow> bool" where
  "blocks_ok n s F \<longleftrightarrow> (\<forall>i < n. \<forall>a \<in> F i. 2 ^ s i dvd a) \<and>
     (\<forall>i < n. \<forall>j < n. \<forall>a \<in> F i. \<forall>b \<in> F j. (i, a) \<noteq> (j, b) \<longrightarrow> region s i a \<inter> region s j b = {})"

definition merged :: "nat \<Rightarrow> (nat \<Rightarrow> nat) \<Rightarrow> (nat \<Rightarrow> nat set) \<Rightarrow> bool" where
  "merged n s F \<longleftrightarrow> (\<forall>i a. Suc i < n \<longrightarrow> \<not> group s i a \<subseteq> F i)"

function push :: "nat \<Rightarrow> (nat \<Rightarrow> nat) \<Rightarrow> nat \<Rightarrow> nat \<Rightarrow> (nat \<Rightarrow> nat set) \<Rightarrow> (nat \<Rightarrow> nat set)" where
  "push n s i a F =
     (let F = F(i := insert a (F i))
      in if Suc i < n \<and> group s i a \<subseteq> F i
         then push n s (Suc i) (a - a mod 2 ^ s (Suc i)) (F(i := F i - group s i a))
         else F)"
  by pat_completeness auto
termination
  by (relation "measure (\<lambda>(n, _, i, _). n - i)") auto

declare push.simps [simp del]

section \<open>Aligned blocks\<close>

lemma region_iff:
  assumes "2 ^ s i dvd a"
  shows "x \<in> region s i a \<longleftrightarrow> x div 2 ^ s i = a div 2 ^ s i"
proof -
  obtain q where q: "a = 2 ^ s i * q" using assms by (elim dvdE)
  have "x \<in> region s i a \<longleftrightarrow> q * 2 ^ s i \<le> x \<and> x < (q + 1) * 2 ^ s i"
    by (auto simp: region_def q algebra_simps)
  also have "\<dots> \<longleftrightarrow> x div 2 ^ s i = q"
    using div_times_less_eq_dividend [of x "2 ^ s i"] dividend_less_div_times [of "2 ^ s i" x]
    by (auto intro: div_nat_eqI simp: algebra_simps)
  finally show ?thesis by (simp add: q)
qed

lemma aligned_eq_iff:
  "2 ^ k dvd a \<Longrightarrow> 2 ^ k dvd b \<Longrightarrow> a div 2 ^ k = b div 2 ^ k \<longleftrightarrow> a = b" for a b :: nat
  by (metis dvd_div_mult_self)

lemma div_up: "k \<le> l \<Longrightarrow> x div 2 ^ l = x div 2 ^ k div 2 ^ (l - k)" for x :: nat
  by (metis div_mult2_eq le_add_diff_inverse power_add)

lemma aligned_between:
  fixes a lo hi m :: nat
  assumes "m dvd lo" "m dvd hi" "lo \<le> a" "a < hi"
  shows "lo \<le> a - a mod m" "a - a mod m + m \<le> hi"
proof -
  obtain p q where pq: "lo = m * p" "hi = m * q" using assms by (auto elim!: dvdE)
  have m: "0 < m" using assms pq by (cases m) auto
  have a: "a - a mod m = m * (a div m)" by (simp add: minus_mod_eq_mult_div)
  have "p \<le> a div m" using assms(3) m by (simp add: pq less_eq_div_iff_mult_less_eq mult.commute)
  then show "lo \<le> a - a mod m" unfolding a pq by simp
  have "a div m < q" using assms(4) m by (simp add: pq div_less_iff_less_mult mult.commute)
  then have "m * (a div m + 1) \<le> m * q" by (intro mult_le_mono2) simp
  then show "a - a mod m + m \<le> hi" unfolding a pq by simp
qed

lemma region_self [simp]: "a \<in> region s i a"
  by (simp add: region_def)

lemma finite_region [simp]: "finite (region s i a)"
  by (simp add: region_def)

text \<open>Two aligned blocks are nested or disjoint.\<close>

lemma region_nested:
  assumes "2 ^ s i dvd a" "2 ^ s j dvd b" "s i \<le> s j" "region s i a \<inter> region s j b \<noteq> {}"
  shows "region s i a \<subseteq> region s j b"
proof -
  obtain x where x: "x div 2 ^ s i = a div 2 ^ s i" "x div 2 ^ s j = b div 2 ^ s j"
    using assms by (auto simp: region_iff)
  then show ?thesis
    using div_up [OF assms(3)] by (auto simp: region_iff assms)
qed

locale buddy_levels =
  fixes n :: nat and s :: "nat \<Rightarrow> nat"
  assumes increasing: "Suc i < n \<Longrightarrow> s i < s (Suc i)"
begin

lemma start_aligned: "2 ^ s (Suc i) dvd a - a mod 2 ^ s (Suc i)" for a :: nat
  by (simp add: minus_mod_eq_mult_div)

lemma start_div: "(a - a mod 2 ^ s (Suc i)) div 2 ^ s (Suc i) = a div 2 ^ s (Suc i)" for a :: nat
  by (simp add: minus_mod_eq_mult_div)

lemma group_region:
  assumes "Suc i < n"
  shows "region s (Suc i) (a - a mod 2 ^ s (Suc i)) = (\<Union>b \<in> group s i a. region s i b)"
proof (rule set_eqI)
  fix x
  note le = less_imp_le [OF increasing [OF assms]]
  have "x \<in> region s (Suc i) (a - a mod 2 ^ s (Suc i)) \<longleftrightarrow> x div 2 ^ s (Suc i) = a div 2 ^ s (Suc i)"
    unfolding region_iff [of s "Suc i" "a - a mod 2 ^ s (Suc i)", OF start_aligned] start_div ..
  also have "\<dots> \<longleftrightarrow> (\<exists>b \<in> group s i a. x \<in> region s i b)"
  proof
    assume x: "x div 2 ^ s (Suc i) = a div 2 ^ s (Suc i)"
    let ?b = "x - x mod 2 ^ s i"
    have b: "2 ^ s i dvd ?b" "?b div 2 ^ s i = x div 2 ^ s i" by (simp_all add: minus_mod_eq_mult_div)
    have "?b div 2 ^ s (Suc i) = a div 2 ^ s (Suc i)"
      using x b(2) div_up [OF le, of x] div_up [OF le, of ?b] by simp
    then have "?b \<in> group s i a" using b(1) by (simp add: group_def)
    moreover have "x \<in> region s i ?b" unfolding region_iff [of s i ?b, OF b(1)] by (rule b(2) [symmetric])
    ultimately show "\<exists>b \<in> group s i a. x \<in> region s i b" ..
  next
    assume "\<exists>b \<in> group s i a. x \<in> region s i b"
    then obtain b where "b div 2 ^ s (Suc i) = a div 2 ^ s (Suc i)" "x div 2 ^ s i = b div 2 ^ s i"
      by (auto simp: group_def region_iff)
    then show "x div 2 ^ s (Suc i) = a div 2 ^ s (Suc i)"
      using div_up [OF le, of x] div_up [OF le, of b] by simp
  qed
  finally show "x \<in> region s (Suc i) (a - a mod 2 ^ s (Suc i)) \<longleftrightarrow> x \<in> (\<Union>b \<in> group s i a. region s i b)"
    by simp
qed

lemma shrink_ok:
  "blocks_ok n s F \<Longrightarrow> (\<And>i. G i \<subseteq> F i) \<Longrightarrow> blocks_ok n s G"
  unfolding blocks_ok_def by (meson subset_iff)

lemma shrink_merged:
  "merged n s F \<Longrightarrow> (\<And>i. G i \<subseteq> F i) \<Longrightarrow> merged n s G"
  unfolding merged_def by (meson subset_trans)

lemma covers_iff: "x \<in> covers n s F \<longleftrightarrow> (\<exists>j < n. \<exists>b \<in> F j. x \<in> region s j b)"
  by (auto simp: covers_def)

lemma covers_remove:
  assumes "blocks_ok n s F" "i < n" "G \<subseteq> F i"
  shows "covers n s (F(i := F i - G)) = covers n s F - (\<Union>a \<in> G. region s i a)"
proof (intro set_eqI iffI)
  fix x assume "x \<in> covers n s (F(i := F i - G))"
  then obtain j b where jb: "j < n" "b \<in> (F(i := F i - G)) j" "x \<in> region s j b"
    by (auto simp: covers_def)
  then have "b \<in> F j" "(j, b) \<notin> {i} \<times> G" by (auto split: if_splits)
  moreover have "x \<notin> region s i a" if "a \<in> G" for a
  proof -
    have "(i, a) \<noteq> (j, b)" using \<open>(j, b) \<notin> {i} \<times> G\<close> that by auto
    then have "region s i a \<inter> region s j b = {}"
      using assms jb(1) \<open>b \<in> F j\<close> that unfolding blocks_ok_def by blast
    then show ?thesis using jb(3) by blast
  qed
  ultimately show "x \<in> covers n s F - (\<Union>a \<in> G. region s i a)"
    using jb by (auto simp: covers_def)
next
  fix x assume "x \<in> covers n s F - (\<Union>a \<in> G. region s i a)"
  then show "x \<in> covers n s (F(i := F i - G))" by (fastforce simp: covers_def)
qed

lemma covers_insert:
  "i < n \<Longrightarrow> covers n s (F(i := insert a (F i))) = covers n s F \<union> region s i a"
  unfolding set_eq_iff Un_iff covers_iff by (auto split: if_splits)

lemma insert_ok:
  assumes "blocks_ok n s F" "i < n" "2 ^ s i dvd a" "region s i a \<inter> covers n s F = {}"
  shows "blocks_ok n s (F(i := insert a (F i)))"
proof -
  have "region s i a \<inter> region s j b = {}" if "j < n" "b \<in> F j" for j b
    using assms(4) that by (auto simp: covers_def)
  then show ?thesis using assms(1-3) unfolding blocks_ok_def by (auto split: if_splits)
qed

lemma group_self: "2 ^ s i dvd a \<Longrightarrow> a \<in> group s i a"
  by (simp add: group_def)

lemma group_eq: "b \<in> group s i a \<Longrightarrow> group s i b = group s i a"
  by (auto simp: group_def)

lemma insert_merged:
  assumes "merged n s F" "2 ^ s i dvd a" "Suc i < n \<longrightarrow> \<not> group s i a \<subseteq> insert a (F i)"
  shows "merged n s (F(i := insert a (F i)))"
  unfolding merged_def
proof (intro allI impI)
  fix j b assume j: "Suc j < n"
  show "\<not> group s j b \<subseteq> (F(i := insert a (F i))) j"
  proof (cases "j = i \<and> a \<in> group s i b")
    case True
    then have "group s j b = group s i a" using group_eq by blast
    then show ?thesis using True assms(3) j by auto
  next
    case False
    then show ?thesis using assms(1) j unfolding merged_def by (cases "j = i") auto
  qed
qed

text \<open>When the group of a block is full without it, the merged block can go one level up.\<close>

lemma merge_step:
  assumes "blocks_ok n s F" "merged n s F" "2 ^ s i dvd a" "region s i a \<inter> covers n s F = {}"
    and "Suc i < n" "group s i a \<subseteq> insert a (F i)"
  defines "F2 \<equiv> F(i := insert a (F i) - group s i a)" and "g \<equiv> a - a mod 2 ^ s (Suc i)"
  shows "blocks_ok n s F2" "merged n s F2" "2 ^ s (Suc i) dvd g"
    "region s (Suc i) g \<inter> covers n s F2 = {}"
    "covers n s F2 \<union> region s (Suc i) g = covers n s F \<union> region s i a"
proof -
  have i: "i < n" using assms(5) by simp
  let ?H = "group s i a - {a}"
  have "a \<notin> F i"
    using i assms(4) region_self [of a s i] unfolding covers_def by blast
  then have H: "?H \<subseteq> F i" "F i - ?H = insert a (F i) - group s i a"
    using assms(6) group_self [OF assms(3)] by auto
  then have F2: "F2 = F(i := F i - ?H)" by (simp add: F2_def)
  have sub: "F2 j \<subseteq> F j" for j using F2 by simp
  show "blocks_ok n s F2" "merged n s F2"
    using shrink_ok [OF assms(1) sub] shrink_merged [OF assms(2) sub] .
  show "2 ^ s (Suc i) dvd g" unfolding g_def by (rule start_aligned)
  have c2: "covers n s F2 = covers n s F - (\<Union>b \<in> ?H. region s i b)"
    unfolding F2 by (rule covers_remove [OF assms(1) i H(1)])
  have big: "region s (Suc i) g = region s i a \<union> (\<Union>b \<in> ?H. region s i b)"
    unfolding g_def group_region [OF assms(5)] using group_self [OF assms(3)] by auto
  have HF: "(\<Union>b \<in> ?H. region s i b) \<subseteq> covers n s F"
    using H(1) i by (auto simp: covers_def)
  show "region s (Suc i) g \<inter> covers n s F2 = {}"
    unfolding c2 big using assms(4) by blast
  show "covers n s F2 \<union> region s (Suc i) g = covers n s F \<union> region s i a"
    unfolding c2 big using HF by blast
qed

lemma push_full:
  "Suc i < n \<Longrightarrow> group s i a \<subseteq> insert a (F i) \<Longrightarrow>
   push n s i a F = push n s (Suc i) (a - a mod 2 ^ s (Suc i)) (F(i := insert a (F i) - group s i a))"
  by (subst push.simps) (simp add: Let_def)

lemma push_not_full:
  "\<not> (Suc i < n \<and> group s i a \<subseteq> insert a (F i)) \<Longrightarrow> push n s i a F = F(i := insert a (F i))"
  by (subst push.simps) (auto simp: Let_def)

lemma push_ok:
  assumes "blocks_ok n s F" "merged n s F" "i < n" "2 ^ s i dvd a" "region s i a \<inter> covers n s F = {}"
  shows "blocks_ok n s (push n s i a F) \<and> merged n s (push n s i a F) \<and>
    covers n s (push n s i a F) = covers n s F \<union> region s i a"
  using assms
proof (induction "n - i" arbitrary: i a F)
  case (Suc k)
  show ?case
  proof (cases "Suc i < n \<and> group s i a \<subseteq> insert a (F i)")
    case False
    then show ?thesis
      using push_not_full [of i a F, OF False] insert_ok [OF Suc.prems(1,3,4,5)]
        insert_merged [OF Suc.prems(2,4)] covers_insert [OF Suc.prems(3)] by auto
  next
    case True
    note step = merge_step [of F i a, OF Suc.prems(1,2,4,5) conjunct1 [OF True] conjunct2 [OF True]]
    have "k = n - Suc i" using Suc.hyps(2) by simp
    from Suc.hyps(1) [OF this step(1,2) _ step(3,4)] True show ?thesis
      unfolding push_full [of i a F, OF conjunct1 [OF True] conjunct2 [OF True]] step(5) by simp
  qed
qed simp

text \<open>Merging is complete: a free aligned range of a block's size lies in one free block.\<close>

lemma free_block_complete:
  assumes "blocks_ok n s F" "merged n s F" "i < n" "2 ^ s i dvd a" "region s i a \<subseteq> covers n s F"
  shows "\<exists>j b. i \<le> j \<and> j < n \<and> b \<in> F j \<and> region s i a \<subseteq> region s j b"
  using assms(3-)
proof (induction i arbitrary: a)
  case 0
  have "a \<in> covers n s F" using 0 region_self by blast
  then obtain j b where jb: "j < n" "b \<in> F j" "a \<in> region s j b" by (auto simp: covers_def)
  have "s 0 \<le> s j" using jb(1)
  proof (induction j)
    case (Suc j)
    then show ?case using increasing [of j] by simp
  qed simp
  then have "region s 0 a \<subseteq> region s j b"
    using region_nested [of s 0 a j b] 0 jb assms(1) region_self [of a s 0]
    unfolding blocks_ok_def by blast
  then show ?case using jb by auto
next
  case (Suc i)
  have le: "s i \<le> s (Suc i)" using increasing [OF Suc.prems(1)] by simp
  have a: "a - a mod 2 ^ s (Suc i) = a" using Suc.prems(2) by simp
  note grp = group_region [OF Suc.prems(1), of a, unfolded a]
  have step: "\<exists>j c. i \<le> j \<and> j < n \<and> c \<in> F j \<and> region s i b \<subseteq> region s j c" if "b \<in> group s i a" for b
  proof (rule Suc.IH)
    show "i < n" "2 ^ s i dvd b" using Suc.prems(1) that by (auto simp: group_def)
    show "region s i b \<subseteq> covers n s F" using Suc.prems(3) grp that by blast
  qed
  show ?case
  proof (cases "\<exists>b \<in> group s i a. \<exists>j c. Suc i \<le> j \<and> j < n \<and> c \<in> F j \<and> region s i b \<subseteq> region s j c")
    case True
    then obtain b j c where bjc: "b \<in> group s i a" "Suc i \<le> j" "j < n" "c \<in> F j"
      "region s i b \<subseteq> region s j c" by blast
    have "s (Suc i) \<le> s j" using bjc(2,3)
    proof (induction j rule: dec_induct)
      case (step j)
      then show ?case using increasing [of j] by simp
    qed simp
    moreover have "2 ^ s j dvd c" using assms(1) bjc unfolding blocks_ok_def by blast
    moreover have "region s (Suc i) a \<inter> region s j c \<noteq> {}"
      using grp bjc(1,5) region_self by blast
    ultimately have "region s (Suc i) a \<subseteq> region s j c"
      using region_nested Suc.prems(2) by blast
    then show ?thesis using bjc by blast
  next
    case False
    have "b \<in> F i" if b: "b \<in> group s i a" for b
    proof -
      obtain j c where jc: "i \<le> j" "j < n" "c \<in> F j" "region s i b \<subseteq> region s j c"
        using step [OF b] by blast
      with False b have "j = i" by (metis Suc_leI le_neq_implies_less)
      moreover have "b \<in> region s j c" using jc(4) region_self by blast
      ultimately have "b = c"
        using jc assms(1) b aligned_eq_iff
        by (auto simp: region_iff blocks_ok_def group_def)
      then show ?thesis using jc \<open>j = i\<close> by simp
    qed
    then show ?thesis using assms(2) Suc.prems(1) unfolding merged_def by blast
  qed
qed

text \<open>The free bytes are counted by the blocks of each level.\<close>

lemma card_covers:
  assumes "blocks_ok n s F" "\<forall>i < n. finite (F i)"
  shows "card (covers n s F) = (\<Sum>i < n. card (F i) * 2 ^ s i)"
proof -
  have "card (\<Union>a \<in> F i. region s i a) = card (F i) * 2 ^ s i" if "i < n" for i
  proof -
    have "card (\<Union>a \<in> F i. region s i a) = (\<Sum>a \<in> F i. card (region s i a))"
      using assms that by (intro card_UN_disjoint) (auto simp: blocks_ok_def)
    then show ?thesis by (simp add: region_def)
  qed
  moreover have "card (covers n s F) = (\<Sum>i < n. card (\<Union>a \<in> F i. region s i a))"
    unfolding covers_def
    using assms unfolding blocks_ok_def by (intro card_UN_disjoint) (auto, blast)
  ultimately show ?thesis by simp
qed

end

end
