(* ===== verification/PageHeapProps.thy ===== *)
theory PageHeapProps
  imports PageHeap Buddy
begin

text \<open>
  The page heap of src/core/src/hle/kernel/k_page_heap.rs refines the buddy allocator of \<open>Buddy\<close>:
  block operations, the freeing of ranges and both allocations, with their properties.
\<close>

section \<open>One block level\<close>

definition starts :: "Block \<Rightarrow> nat set" where
  "starts b = (\<lambda>off. block_address b + off * 2 ^ block_shift b) ` free_bits (block_bitmap b)"

text \<open>The shift to which the level's range is aligned.\<close>

definition top_shift :: "Block \<Rightarrow> nat" where
  "top_shift b = (if next_block_shift b = 0 then block_shift b else next_block_shift b)"

definition block_end :: "Block \<Rightarrow> nat" where
  "block_end b = block_address b + end_offset b * 2 ^ block_shift b"

definition block_wf :: "Block \<Rightarrow> bool" where
  "block_wf b \<longleftrightarrow> pb_wf (block_bitmap b) \<and> block_shift b < 64 \<and> 0 < block_address b \<and>
     (next_block_shift b = 0 \<or> block_shift b < next_block_shift b \<and> next_block_shift b < 64) \<and>
     2 ^ top_shift b dvd block_address b \<and> 2 ^ top_shift b dvd end_offset b * 2 ^ block_shift b \<and>
     block_end b < W64 \<and> end_offset b \<le> capacity (block_bitmap b) \<and>
     free_bits (block_bitmap b) \<subseteq> {..<end_offset b}"

text \<open>Operations change nothing of a level but its bitmap.\<close>

definition same_level :: "Block \<Rightarrow> Block \<Rightarrow> bool" where
  "same_level b b' \<longleftrightarrow> (\<exists>bm. b' = b\<lparr>block_bitmap := bm\<rparr>)"

lemma same_levelD:
  assumes "same_level b b'"
  shows "block_address b' = block_address b" "end_offset b' = end_offset b"
    "block_shift b' = block_shift b" "next_block_shift b' = next_block_shift b"
    "block_end b' = block_end b" "top_shift b' = top_shift b" "block_size b' = block_size b"
  using assms by (auto simp: same_level_def block_end_def top_shift_def block_size_def)

lemma same_level_refl [simp]: "same_level b b"
  unfolding same_level_def by (rule exI [of _ "block_bitmap b"]) simp

lemma same_level_trans: "same_level a b \<Longrightarrow> same_level b c \<Longrightarrow> same_level a c"
  by (auto simp: same_level_def)

lemma same_level_bitmap [simp]: "same_level b (b\<lparr>block_bitmap := bm\<rparr>)"
  by (auto simp: same_level_def)

lemma starts_bitmap:
  "starts (b\<lparr>block_bitmap := bm\<rparr>) = (\<lambda>off. block_address b + off * 2 ^ block_shift b) ` free_bits bm"
  by (simp add: starts_def)

lemma block_wf_bitmap:
  assumes "block_wf b" "pb_wf bm" "capacity bm = capacity (block_bitmap b)" "free_bits bm \<subseteq> {..<end_offset b}"
  shows "block_wf (b\<lparr>block_bitmap := bm\<rparr>)"
  using assms by (auto simp: block_wf_def block_end_def top_shift_def)

lemma block_size_eq: "block_wf b \<Longrightarrow> block_size b = 2 ^ block_shift b"
  using shl64_1 [of "block_shift b"] by (simp add: block_wf_def block_size_def)

lemma starts_bounds:
  assumes "block_wf b" "a \<in> starts b"
  shows "block_address b \<le> a" "a + 2 ^ block_shift b \<le> block_end b" "2 ^ block_shift b dvd a" "0 < a"
proof -
  obtain off where off: "a = block_address b + off * 2 ^ block_shift b" "off < end_offset b"
    using assms by (auto simp: starts_def block_wf_def)
  have "(off + 1) * 2 ^ block_shift b \<le> end_offset b * 2 ^ block_shift b"
    using off(2) by (intro mult_le_mono1) simp
  then show "a + 2 ^ block_shift b \<le> block_end b" using off by (simp add: block_end_def algebra_simps)
  show "block_address b \<le> a" "0 < a" using off assms by (auto simp: block_wf_def)
  have "(2 :: nat) ^ block_shift b dvd 2 ^ top_shift b"
    using assms(1) by (auto simp: block_wf_def top_shift_def intro: le_imp_power_dvd)
  then have "2 ^ block_shift b dvd block_address b"
    using assms(1) by (auto simp: block_wf_def intro: dvd_trans)
  then show "2 ^ block_shift b dvd a" using off by simp
qed

text \<open>The offset of an aligned address inside the level, as \<open>push_block\<close> computes it.\<close>

lemma offset_of:
  assumes "block_wf b" "2 ^ block_shift b dvd a" "block_address b \<le> a" "a + 2 ^ block_shift b \<le> block_end b"
  defines "off \<equiv> shr64 (sub64 a (block_address b)) (block_shift b)"
  shows "a = block_address b + off * 2 ^ block_shift b" "off < end_offset b"
    "off \<in> free_bits (block_bitmap b) \<longleftrightarrow> a \<in> starts b"
proof -
  let ?s = "2 ^ block_shift b :: nat"
  have lt: "a < W64" using assms(1,4) by (simp add: block_wf_def)
  have "?s dvd 2 ^ top_shift b"
    using assms(1) by (auto simp: block_wf_def top_shift_def intro: le_imp_power_dvd)
  then have "?s dvd block_address b" using assms(1) by (auto simp: block_wf_def intro: dvd_trans)
  then have d: "?s dvd a - block_address b" using assms(2,3) by (simp add: dvd_diff_nat)
  have off: "off = (a - block_address b) div ?s"
    using assms(1,3) lt unfolding off_def by (simp add: block_wf_def)
  then show a: "a = block_address b + off * ?s" using d assms(3) by simp
  have "off * ?s + ?s \<le> end_offset b * ?s" using assms(4) a by (simp add: block_end_def)
  then have "(off + 1) * ?s \<le> end_offset b * ?s" by simp
  then have "off + 1 \<le> end_offset b" by (subst (asm) mult_le_cancel2) simp
  then show "off < end_offset b" by simp
  show "off \<in> free_bits (block_bitmap b) \<longleftrightarrow> a \<in> starts b"
    using a by (auto simp: starts_def)
qed

lemma range_ok_pow:
  assumes "2 ^ m dvd a"
  shows "range_ok a (2 ^ m)"
proof (cases "m < 6")
  case True
  then have d: "(2 :: nat) ^ m dvd 2 ^ 6" by (intro le_imp_power_dvd) simp
  then obtain k where k: "(64 :: nat) = 2 ^ m * k" by (auto elim: dvdE)
  have "2 ^ m dvd a mod 64" using assms d by (simp add: dvd_mod)
  then obtain j where j: "a mod 64 = 2 ^ m * j" by (elim dvdE)
  have "2 ^ m * j < 2 ^ m * k" using j k by (metis mod_less_divisor zero_less_numeral)
  then have "j + 1 \<le> k" by simp
  then have "2 ^ m * (j + 1) \<le> 2 ^ m * k" by (intro mult_le_mono2)
  then have "2 ^ m * j + 2 ^ m \<le> 2 ^ m * k" by simp
  then have "a mod 64 + 2 ^ m \<le> 64" unfolding k [symmetric] j [symmetric] .
  moreover have "(2 :: nat) ^ m < 64" using True power_strict_increasing [of m 6 "2 :: nat"] by simp
  ultimately show ?thesis by (simp add: range_ok_def)
next
  case False
  then have "(2 :: nat) ^ 6 dvd 2 ^ m" by (intro le_imp_power_dvd) simp
  moreover from this have "(64 :: nat) \<le> 2 ^ m" by (intro dvd_imp_le) simp_all
  ultimately show ?thesis using assms by (auto simp: range_ok_def intro: dvd_trans)
qed

text \<open>The group of a block at the level above, in addresses.\<close>

definition bgroup :: "Block \<Rightarrow> nat \<Rightarrow> nat set" where
  "bgroup b a = {c. 2 ^ block_shift b dvd c \<and> c div 2 ^ next_block_shift b = a div 2 ^ next_block_shift b}"

lemma bgroup_range:
  assumes "block_wf b" "next_block_shift b \<noteq> 0"
  defines "d \<equiv> 2 ^ (next_block_shift b - block_shift b)" and "f \<equiv> (\<lambda>off. block_address b + off * 2 ^ block_shift b)"
  shows "bgroup b (f off) = f ` {off - off mod d..<off - off mod d + d}"
proof -
  let ?s = "2 ^ block_shift b :: nat" and ?n = "2 ^ next_block_shift b :: nat"
  have sn: "block_shift b < next_block_shift b" "top_shift b = next_block_shift b"
    using assms(1,2) by (auto simp: block_wf_def top_shift_def)
  then have n: "?n = ?s * d" by (simp add: d_def flip: power_add)
  obtain B where B: "block_address b = ?n * B"
    using assms(1) sn(2) by (auto simp: block_wf_def elim: dvdE)
  have fdiv: "f k div ?n = B + k div d" for k
  proof -
    have "f k = ?n * B + k * ?s" by (simp add: f_def B)
    moreover have "0 < d" by (simp add: d_def)
    ultimately show ?thesis by (simp add: n div_mult2_eq)
  qed
  have range: "k div d = off div d \<longleftrightarrow> k \<in> {off - off mod d..<off - off mod d + d}" for k
  proof -
    have "0 < d" by (simp add: d_def)
    moreover have "k div d = off div d \<Longrightarrow> d * (off div d) \<le> k"
      by (metis times_div_less_eq_dividend)
    ultimately show ?thesis
      using dividend_less_times_div [of d k]
      by (auto simp: minus_mod_eq_mult_div intro!: div_nat_eqI)
  qed
  show ?thesis
  proof (intro set_eqI iffI)
    fix c assume "c \<in> bgroup b (f off)"
    then have c: "?s dvd c" "c div ?n = B + off div d" by (auto simp: bgroup_def fdiv)
    have "?n * B \<le> c" using c(2) by (metis div_times_less_eq_dividend le_add1 le_trans mult.commute mult_le_mono1)
    moreover have "?s dvd ?n * B" by (simp add: n)
    ultimately obtain k where "c = f k"
      using c(1) by (metis B dvdE dvd_diff_nat f_def le_add_diff_inverse mult.commute)
    with c(2) range show "c \<in> f ` {off - off mod d..<off - off mod d + d}" by (auto simp: fdiv)
  next
    fix c assume "c \<in> f ` {off - off mod d..<off - off mod d + d}"
    then obtain k where k: "c = f k" "k div d = off div d" using range by blast
    moreover have "?s dvd f k" by (simp add: f_def B n)
    ultimately show "c \<in> bgroup b (f off)" by (simp add: bgroup_def fdiv)
  qed
qed

text \<open>\<open>push_block\<close> inserts the block, or takes out its full group and answers the merged block.\<close>

lemma push_block_ok:
  assumes "block_wf b" "2 ^ block_shift b dvd a" "block_address b \<le> a"
    "a + 2 ^ block_shift b \<le> block_end b" "a \<notin> starts b"
  defines "full \<equiv> next_block_shift b \<noteq> 0 \<and> bgroup b a \<subseteq> insert a (starts b)"
  shows "\<exists>b'. push_block a b = Some (if full then a - a mod 2 ^ next_block_shift b else 0, b') \<and>
    block_wf b' \<and> same_level b b' \<and>
    starts b' = (if full then insert a (starts b) - bgroup b a else insert a (starts b)) \<and>
    (full \<longrightarrow> 0 < a - a mod 2 ^ next_block_shift b)"
proof -
  define off where "off = shr64 (sub64 a (block_address b)) (block_shift b)"
  define f where "f = (\<lambda>off. block_address b + off * 2 ^ block_shift b)"
  note off = offset_of [OF assms(1-4), folded off_def]
  have fa: "f off = a" using off(1) by (simp add: f_def)
  have inj: "inj f" by (auto simp: inj_def f_def)
  have st: "starts (b\<lparr>block_bitmap := bm\<rparr>) = f ` free_bits bm" for bm
    by (simp add: starts_bitmap f_def)
  have st0: "starts b = f ` free_bits (block_bitmap b)" by (simp add: starts_def f_def)
  have wf: "pb_wf (block_bitmap b)" "free_bits (block_bitmap b) \<subseteq> {..<end_offset b}"
    "end_offset b \<le> capacity (block_bitmap b)"
    using assms(1) by (auto simp: block_wf_def)
  have new: "off < capacity (block_bitmap b)" "off \<notin> free_bits (block_bitmap b)"
    using off wf assms(5) by auto
  show ?thesis
  proof (cases "next_block_shift b = 0")
    case True
    obtain bm where bm: "pb_set_bit off (block_bitmap b) = Some bm" "pb_wf bm"
      "capacity bm = capacity (block_bitmap b)" "free_bits bm = insert off (free_bits (block_bitmap b))"
      using bitmap.ins_ok [OF wf(1) new] by blast
    have "push_block a b = Some (0, b\<lparr>block_bitmap := bm\<rparr>)"
      using True bm(1) by (simp add: push_block_def flip: off_def)
    moreover have "block_wf (b\<lparr>block_bitmap := bm\<rparr>)"
      using block_wf_bitmap [OF assms(1) bm(2,3)] bm(4) wf(2) off(2) by simp
    ultimately show ?thesis
      using True st fa by (auto simp: full_def st0 bm(4))
  next
    case False
    let ?m = "next_block_shift b - block_shift b"
    let ?d = "2 ^ ?m :: nat" let ?a = "off - off mod 2 ^ ?m"
    have sh: "block_shift b < next_block_shift b" "next_block_shift b < 64"
      and top: "top_shift b = next_block_shift b"
      using assms(1) False by (auto simp: block_wf_def top_shift_def)
    have n: "(2 :: nat) ^ next_block_shift b = 2 ^ block_shift b * ?d"
      using sh by (simp flip: power_add)
    have d64: "?d < W64" by (rule power_strict_increasing) (use sh in auto)
    have offW: "off < W64"
      using off(1) assms(1,4) by (metis block_wf_def le_less_trans le_add1 le_add2 le_trans mult_le_mono2
          mult.right_neutral one_le_numeral one_le_power)
    have al: "?d dvd ?a" by (simp add: minus_mod_eq_mult_div)
    have "?d dvd end_offset b"
    proof -
      have "2 ^ block_shift b * ?d dvd 2 ^ block_shift b * end_offset b"
        using assms(1) unfolding block_wf_def top n by (simp add: mult.commute)
      then show ?thesis by (subst (asm) nat_mult_dvd_cancel_disj) simp
    qed
    then obtain q where q: "end_offset b = ?d * q" by (elim dvdE)
    have "off div ?d < q" using off(2) q by (simp add: less_mult_imp_div_less mult.commute)
    then have "?d * (off div ?d + 1) \<le> end_offset b" unfolding q by (intro mult_le_mono2) simp
    then have le: "?a + ?d \<le> end_offset b" by (simp add: minus_mod_eq_mult_div)
    obtain bm1 bm where bm: "pb_set_bit off (block_bitmap b) = Some bm1"
      "clear_range ?a ?d bm1 = Some ({?a..<?a + ?d} \<subseteq> insert off (free_bits (block_bitmap b)), bm)"
      "pb_wf bm" "capacity bm = capacity (block_bitmap b)"
      "free_bits bm = (if {?a..<?a + ?d} \<subseteq> insert off (free_bits (block_bitmap b))
         then insert off (free_bits (block_bitmap b)) - {?a..<?a + ?d}
         else insert off (free_bits (block_bitmap b)))"
      using bitmap.put_ok [OF wf(1) new range_ok_pow [OF al]] le wf(3) by auto
    have grp: "bgroup b a = f ` {?a..<?a + ?d}"
      using bgroup_range [OF assms(1) False, of off] fa by (simp add: f_def)
    have full: "full \<longleftrightarrow> {?a..<?a + ?d} \<subseteq> insert off (free_bits (block_bitmap b))"
    proof -
      have img: "insert a (f ` free_bits (block_bitmap b)) = f ` insert off (free_bits (block_bitmap b))"
        using fa by simp
      show ?thesis
        unfolding full_def grp st0 img inj_image_subset_iff [OF inj] using False by simp
    qed
    have base: "a - a mod 2 ^ next_block_shift b = f ?a"
    proof -
      obtain B where B: "block_address b = 2 ^ next_block_shift b * B"
        using assms(1) top by (auto simp: block_wf_def elim: dvdE)
      have "a mod 2 ^ next_block_shift b = off mod ?d * 2 ^ block_shift b"
      proof -
        have "a = 2 ^ block_shift b * (off + ?d * B)"
          using off(1) unfolding B n by (simp add: algebra_simps)
        then have "a mod 2 ^ next_block_shift b = 2 ^ block_shift b * ((off + ?d * B) mod ?d)"
          unfolding n by (simp only: mult_mod_right)
        then show ?thesis by simp
      qed
      then show ?thesis using off(1) by (simp add: f_def diff_mult_distrib)
    qed
    have diff: "shl64 1 (sub64 (next_block_shift b) (block_shift b)) = ?d"
      using sh shl64_1 [of ?m] by simp
    have "sub64 ?d 1 = ?d - 1" by (rule sub64_id) (use d64 in simp_all)
    then have ao: "andnot64 off (sub64 ?d 1) = ?a" using andnot64_mask [OF offW, of ?m] by simp
    have ret: "add64 (block_address b) (shl64 ?a (block_shift b)) = f ?a"
    proof -
      have "?a * 2 ^ block_shift b \<le> off * 2 ^ block_shift b" by (intro mult_le_mono1) simp
      then have "f ?a \<le> a" unfolding fa [symmetric] f_def by simp
      moreover have "a < W64" using assms(1,4) by (simp add: block_wf_def)
      ultimately have "f ?a < W64" by simp
      then show ?thesis using sh by (simp add: f_def)
    qed
    have "push_block a b = Some (if full then f ?a else 0, b\<lparr>block_bitmap := bm\<rparr>)"
      using False bm(1,2) ret full ao unfolding push_block_def Let_def off_def [symmetric] diff by simp
    moreover have "free_bits bm \<subseteq> {..<end_offset b}"
      unfolding bm(5) using wf(2) off(2) by (simp split: if_split) blast
    then have "block_wf (b\<lparr>block_bitmap := bm\<rparr>)"
      using block_wf_bitmap [OF assms(1) bm(3,4)] by blast
    moreover have "0 < f ?a" using assms(1) by (simp add: f_def block_wf_def)
    ultimately show ?thesis
      using full st fa inj by (auto simp: base grp bm(5) st0 image_set_diff)
  qed
qed

text \<open>\<open>pop_block\<close> takes out a free block, or answers 0 when there is none.\<close>

lemma pop_block_ok:
  assumes "block_wf b"
  shows "\<exists>r b'. pop_block random b = Some (r, b') \<and> block_wf b' \<and> same_level b b' \<and>
    (if starts b = {} then r = 0 \<and> starts b' = {}
     else r \<noteq> 0 \<and> r \<in> starts b \<and> starts b' = starts b - {r} \<and> (\<not> random \<longrightarrow> r = Min (starts b)))"
proof -
  define f where "f = (\<lambda>off. block_address b + off * 2 ^ block_shift b)"
  let ?S = "free_bits (block_bitmap b)"
  have wf: "pb_wf (block_bitmap b)" "?S \<subseteq> {..<end_offset b}" "block_shift b < 64" "0 < block_address b"
    using assms by (auto simp: block_wf_def)
  have inj: "inj f" and mono: "mono f" by (auto simp: inj_def f_def mono_def)
  have st: "starts (b\<lparr>block_bitmap := bm\<rparr>) = f ` free_bits bm" for bm
    by (simp add: starts_bitmap f_def)
  have st0: "starts b = f ` ?S" by (simp add: starts_def f_def)
  obtain r bm1 bm where bm: "find_free_block random (block_bitmap b) = Some (r, bm1)"
    "pb_wf bm" "capacity bm = capacity (block_bitmap b)"
    "if ?S = {} then r = -1 \<and> bm = bm1 \<and> free_bits bm = {}
     else \<exists>off \<in> ?S. r = int off \<and> pb_clear_bit off bm1 = Some bm \<and> free_bits bm = ?S - {off} \<and>
            (\<not> random \<longrightarrow> off = Min ?S)"
    using bitmap.take_ok [OF wf(1), of random] by metis
  have sub: "free_bits bm \<subseteq> {..<end_offset b}" using bm(4) wf(2) by (auto split: if_splits)
  have wf': "block_wf (b\<lparr>block_bitmap := bm\<rparr>)" by (rule block_wf_bitmap [OF assms bm(2,3) sub])
  show ?thesis
  proof (cases "?S = {}")
    case True
    then have "pop_block random b = Some (0, b\<lparr>block_bitmap := bm\<rparr>)"
      using bm(1,4) by (simp add: pop_block_def)
    then show ?thesis using True wf' bm(4) by (auto simp: st st0)
  next
    case False
    then obtain off where off: "off \<in> ?S" "r = int off" "pb_clear_bit off bm1 = Some bm"
      "free_bits bm = ?S - {off}" "\<not> random \<Longrightarrow> off = Min ?S" using bm(4) by auto
    have "f off \<in> starts b" using off(1) by (simp add: st0)
    from starts_bounds [OF assms this] have "f off < W64" using assms by (simp add: block_wf_def)
    then have ret: "add64 (block_address b) (shl64 off (block_shift b)) = f off"
      using wf(3) by (simp add: f_def)
    have "pop_block random b = Some (f off, b\<lparr>block_bitmap := bm\<rparr>)"
      using bm(1) off(2,3) ret by (simp add: pop_block_def)
    moreover have "f off = Min (starts b)" if "\<not> random"
      using off(5) [OF that] False mono by (simp add: st0 mono_Min_commute)
    moreover have "starts (b\<lparr>block_bitmap := bm\<rparr>) = starts b - {f off}"
      using inj by (simp add: st st0 off(4) image_set_diff)
    ultimately show ?thesis
      using False wf' wf(4) off(1) by (auto simp: st0 f_def)
  qed
qed

section \<open>The levels of a heap\<close>

abbreviation level_shift :: "nat \<Rightarrow> nat" where
  "level_shift \<equiv> (!) MEMORY_BLOCK_PAGE_SHIFTS"

lemma seven_cases: "i < 7 \<Longrightarrow> i = 0 \<or> i = 1 \<or> i = 2 \<or> i = 3 \<or> i = 4 \<or> i = 5 \<or> i = (6 :: nat)"
  by linarith

interpretation buddy: buddy_levels 7 level_shift
proof
  fix i :: nat assume "Suc i < 7"
  then have "i = 0 \<or> i = 1 \<or> i = 2 \<or> i = 3 \<or> i = 4 \<or> i = 5" by linarith
  then show "level_shift i < level_shift (Suc i)" by (auto simp: MEMORY_BLOCK_PAGE_SHIFTS_def)
qed

lemma level_shift_bounds: "i < 7 \<Longrightarrow> 12 \<le> level_shift i \<and> level_shift i \<le> 30"
  using seven_cases [of i] by (auto simp: MEMORY_BLOCK_PAGE_SHIFTS_def)

lemma level_shift_0 [simp]: "level_shift 0 = 12"
  by (simp add: MEMORY_BLOCK_PAGE_SHIFTS_def)

lemma level_shift_mono: "i \<le> j \<Longrightarrow> j < 7 \<Longrightarrow> level_shift i \<le> level_shift j"
proof (induction j rule: dec_induct)
  case (step j)
  then show ?case using buddy.increasing [of j] by simp
qed simp

text \<open>The free blocks of each level, and the free bytes of the heap.\<close>

definition heap_levels :: "KPageHeap \<Rightarrow> nat \<Rightarrow> nat set" where
  "heap_levels h i = (if i < 7 then starts (blocks h ! i) else {})"

definition free_bytes :: "KPageHeap \<Rightarrow> nat set" where
  "free_bytes h = covers 7 level_shift (heap_levels h)"

definition heap_end :: "KPageHeap \<Rightarrow> nat" where
  "heap_end h = heap_address h + heap_size h"

text \<open>
  The static part of the invariant: seven levels with the shifts of the table, whose ranges
  contain the heap and grow with the level.
\<close>

definition heap_shape :: "KPageHeap \<Rightarrow> bool" where
  "heap_shape h \<longleftrightarrow> num_blocks h = 7 \<and> length (blocks h) = 7 \<and> 4096 dvd heap_address h \<and>
     4096 dvd heap_size h \<and> heap_end h + 2 ^ 30 < W64 \<and>
     (\<forall>i < 7. block_wf (blocks h ! i) \<and> block_shift (blocks h ! i) = level_shift i \<and>
        next_block_shift (blocks h ! i) = (if i < 6 then level_shift (Suc i) else 0) \<and>
        block_address (blocks h ! i) \<le> heap_address h \<and> heap_end h \<le> block_end (blocks h ! i) \<and>
        (i < 6 \<longrightarrow> block_address (blocks h ! Suc i) \<le> block_address (blocks h ! i) \<and>
                  block_end (blocks h ! i) \<le> block_end (blocks h ! Suc i)))"

definition heap_wf :: "KPageHeap \<Rightarrow> bool" where
  "heap_wf h \<longleftrightarrow> heap_shape h \<and> blocks_ok 7 level_shift (heap_levels h) \<and>
     merged 7 level_shift (heap_levels h) \<and> free_bytes h \<subseteq> {heap_address h..<heap_end h}"

definition same_heap :: "KPageHeap \<Rightarrow> KPageHeap \<Rightarrow> bool" where
  "same_heap h h' \<longleftrightarrow> heap_address h' = heap_address h \<and> heap_size h' = heap_size h \<and>
     num_blocks h' = num_blocks h \<and> length (blocks h') = length (blocks h) \<and>
     (\<forall>i < length (blocks h). same_level (blocks h ! i) (blocks h' ! i))"

lemma same_heap_refl [simp]: "same_heap h h"
  by (simp add: same_heap_def)

lemma same_heap_trans: "same_heap h h1 \<Longrightarrow> same_heap h1 h2 \<Longrightarrow> same_heap h h2"
  by (auto simp: same_heap_def intro: same_level_trans)

lemma same_heap_end: "same_heap h h' \<Longrightarrow> heap_end h' = heap_end h"
  by (simp add: same_heap_def heap_end_def)

lemma put_block_same:
  "k < length (blocks h) \<Longrightarrow> same_level (blocks h ! k) b \<Longrightarrow> same_heap h (put_block (int k) b h)"
  by (auto simp: same_heap_def put_block_def nth_list_update)

lemma block_at_eq: "k < length (blocks h) \<Longrightarrow> block_at (int k) h = Some (blocks h ! k)"
  by (simp add: block_at_def)

lemma shape_put:
  assumes "heap_shape h" "k < 7" "same_level (blocks h ! k) b" "block_wf b"
  shows "heap_shape (put_block (int k) b h)"
    "heap_levels (put_block (int k) b h) = (heap_levels h)(k := starts b)"
proof -
  let ?h = "put_block (int k) b h"
  have len: "length (blocks h) = 7" using assms(1) by (simp add: heap_shape_def)
  have nth: "blocks ?h ! i = (if i = k then b else blocks h ! i)" if "i < 7" for i
    using that len by (simp add: put_block_def nth_list_update)
  have lev: "same_level (blocks h ! i) (blocks ?h ! i)" if "i < 7" for i
    using that nth assms(3) by simp
  have addr: "heap_address ?h = heap_address h" "heap_size ?h = heap_size h" "num_blocks ?h = num_blocks h"
    "length (blocks ?h) = length (blocks h)"
    by (simp_all add: put_block_def)
  show "heap_shape ?h"
    unfolding heap_shape_def heap_end_def addr
  proof (intro conjI allI impI)
    fix i :: nat assume i: "i < 7"
    note * = assms(1) [unfolded heap_shape_def heap_end_def]
    show "block_wf (blocks ?h ! i)" using nth [OF i] assms(4) * i by simp
    show "block_shift (blocks ?h ! i) = level_shift i"
      "next_block_shift (blocks ?h ! i) = (if i < 6 then level_shift (Suc i) else 0)"
      "block_address (blocks ?h ! i) \<le> heap_address h"
      "heap_address h + heap_size h \<le> block_end (blocks ?h ! i)"
      using same_levelD [OF lev [OF i]] * i by auto
    show "block_address (blocks ?h ! Suc i) \<le> block_address (blocks ?h ! i)"
      "block_end (blocks ?h ! i) \<le> block_end (blocks ?h ! Suc i)" if "i < 6"
      using same_levelD [OF lev [OF i]] same_levelD [OF lev [of "Suc i"]] * i that by auto
  qed (use assms(1) in \<open>auto simp: heap_shape_def heap_end_def\<close>)
  show "heap_levels ?h = (heap_levels h)(k := starts b)"
    by (rule ext) (use nth assms(2) in \<open>auto simp: heap_levels_def\<close>)
qed

lemma bgroup_level:
  assumes "heap_shape h" "i < 6"
  shows "bgroup (blocks h ! i) a = group level_shift i a"
  using assms by (simp add: bgroup_def group_def heap_shape_def)

lemma shape_aligned:
  assumes "heap_shape h" "i < 7"
  shows "2 ^ level_shift i dvd block_address (blocks h ! i) \<and> 2 ^ level_shift i dvd block_end (blocks h ! i)"
proof -
  let ?b = "blocks h ! i"
  have b: "block_wf ?b" "block_shift ?b = level_shift i" using assms by (auto simp: heap_shape_def)
  then have "(2 :: nat) ^ level_shift i dvd 2 ^ top_shift ?b"
    by (auto simp: block_wf_def top_shift_def intro: le_imp_power_dvd)
  moreover have "2 ^ top_shift ?b dvd block_address ?b"
    using b(1) by (simp add: block_wf_def)
  moreover have "2 ^ level_shift i dvd end_offset ?b * 2 ^ block_shift ?b" by (simp add: b(2))
  ultimately show ?thesis unfolding block_end_def by (meson dvd_add dvd_trans)
qed

section \<open>Freeing\<close>

lemma free_block_push:
  assumes "heap_shape h" "blocks_ok 7 level_shift (heap_levels h)" "merged 7 level_shift (heap_levels h)"
    "i < 7" "2 ^ level_shift i dvd a" "region level_shift i a \<inter> free_bytes h = {}"
    "block_address (blocks h ! i) \<le> a" "a + 2 ^ level_shift i \<le> block_end (blocks h ! i)"
  shows "\<exists>h'. free_block a (int i) h = Some h' \<and> heap_shape h' \<and> same_heap h h' \<and>
    heap_levels h' = push 7 level_shift i a (heap_levels h)"
  using assms
proof (induction "7 - i" arbitrary: i a h)
  case (Suc k)
  let ?b = "blocks h ! i"
  note shape = Suc.prems(1) [unfolded heap_shape_def]
  have b: "block_wf ?b" "block_shift ?b = level_shift i" "length (blocks h) = 7"
    "next_block_shift ?b = (if i < 6 then level_shift (Suc i) else 0)"
    using shape Suc.prems(4) by auto
  have starts: "starts ?b = heap_levels h i" using Suc.prems(4) by (simp add: heap_levels_def)
  have "a \<notin> starts ?b"
  proof
    assume "a \<in> starts ?b"
    then have "a \<in> free_bytes h"
      using Suc.prems(4) starts region_self [of a level_shift i] unfolding free_bytes_def covers_def by blast
    then show False using Suc.prems(6) region_self [of a level_shift i] by blast
  qed
  define full where "full \<longleftrightarrow> Suc i < 7 \<and> group level_shift i a \<subseteq> insert a (heap_levels h i)"
  have nx: "next_block_shift ?b \<noteq> 0 \<longleftrightarrow> i < 6"
    using b(4) level_shift_bounds [of "Suc i"] by auto
  have full_eq: "next_block_shift ?b \<noteq> 0 \<and> bgroup ?b a \<subseteq> insert a (starts ?b) \<longleftrightarrow> full"
    using nx bgroup_level [OF Suc.prems(1)] starts by (auto simp: full_def)
  obtain b' where b': "push_block a ?b = Some (if full then a - a mod 2 ^ next_block_shift ?b else 0, b')"
    "block_wf b'" "same_level ?b b'"
    "starts b' = (if full then insert a (starts ?b) - bgroup ?b a else insert a (starts ?b))"
    "full \<Longrightarrow> 0 < a - a mod 2 ^ next_block_shift ?b"
    using push_block_ok [OF b(1), of a] Suc.prems(5,7,8) b(2) \<open>a \<notin> starts ?b\<close>
    unfolding full_eq by auto
  let ?h = "put_block (int i) b' h"
  note put = shape_put [OF Suc.prems(1,4) b'(3,2)]
  have same: "same_heap h ?h" using put_block_same b'(3) b(3) Suc.prems(4) by simp
  have at: "block_at (int i) h = Some ?b" using b(3) Suc.prems(4) by (simp add: block_at_eq)
  show ?case
  proof (cases full)
    case False
    then have "free_block a (int i) h = Some ?h"
      using at b'(1) by (subst free_block.simps) simp
    moreover have "heap_levels ?h = push 7 level_shift i a (heap_levels h)"
      using False b'(4) put(2) starts buddy.push_not_full [of i a "heap_levels h", folded full_def, OF False]
      by simp
    ultimately show ?thesis using put(1) same by blast
  next
    case True
    then have i: "Suc i < 7" "group level_shift i a \<subseteq> insert a (heap_levels h i)" "i < 6"
      by (auto simp: full_def)
    let ?g = "a - a mod 2 ^ level_shift (Suc i)"
    have lev: "heap_levels ?h = (heap_levels h)(i := insert a (heap_levels h i) - group level_shift i a)"
      using True b'(4) put(2) starts bgroup_level [OF Suc.prems(1) i(3)] by simp
    note step = buddy.merge_step [of "heap_levels h" i a, OF Suc.prems(2,3,5)
        Suc.prems(6) [unfolded free_bytes_def] i(1,2), folded lev]
    have g0: "?g \<noteq> 0" using b'(5) [OF True] b(4) i(3) by simp
    have "free_block a (int i) h = free_block ?g (int (Suc i)) ?h"
      using at b'(1) True g0 b(4) i(3) by (subst free_block.simps) (simp add: add.commute of_nat_Suc)
    moreover have "block_address (blocks ?h ! Suc i) \<le> ?g \<and>
        ?g + 2 ^ level_shift (Suc i) \<le> block_end (blocks ?h ! Suc i)"
    proof -
      let ?c = "blocks h ! Suc i"
      have "blocks ?h ! Suc i = ?c" by (simp add: put_block_def)
      moreover have "2 ^ level_shift (Suc i) dvd block_address ?c" "2 ^ level_shift (Suc i) dvd block_end ?c"
        using shape_aligned [OF Suc.prems(1) i(1)] by auto
      moreover have "block_address ?c \<le> a" "a < block_end ?c"
      proof -
        have "block_address ?c \<le> block_address ?b" "block_end ?b \<le> block_end ?c"
          using shape i(3) Suc.prems(4) by auto
        moreover have "a < a + 2 ^ level_shift i" by simp
        ultimately show "block_address ?c \<le> a" "a < block_end ?c" using Suc.prems(7,8) by linarith+
      qed
      ultimately show ?thesis using aligned_between by simp
    qed
    moreover have "k = 7 - Suc i" using Suc.hyps(2) by simp
    ultimately obtain h' where h': "free_block a (int i) h = Some h'" "heap_shape h'" "same_heap ?h h'"
      "heap_levels h' = push 7 level_shift (Suc i) ?g (heap_levels ?h)"
      using Suc.hyps(1) [of "Suc i" ?h ?g] put(1) step i(1) unfolding free_bytes_def by auto
    moreover have "heap_levels h' = push 7 level_shift i a (heap_levels h)"
      using h'(4) buddy.push_full [of i a "heap_levels h", OF i(1,2)] lev by simp
    ultimately show ?thesis using same_heap_trans [OF same] by blast
  qed
qed simp

text \<open>A block inside the heap that is not free becomes free.\<close>

lemma free_block_ok:
  assumes "heap_wf h" "i < 7" "2 ^ level_shift i dvd a" "heap_address h \<le> a"
    "a + 2 ^ level_shift i \<le> heap_end h" "{a..<a + 2 ^ level_shift i} \<inter> free_bytes h = {}"
  shows "\<exists>h'. free_block a (int i) h = Some h' \<and> heap_wf h' \<and> same_heap h h' \<and>
    free_bytes h' = free_bytes h \<union> {a..<a + 2 ^ level_shift i}"
proof -
  have wf: "heap_shape h" "blocks_ok 7 level_shift (heap_levels h)" "merged 7 level_shift (heap_levels h)"
    "free_bytes h \<subseteq> {heap_address h..<heap_end h}"
    using assms(1) by (auto simp: heap_wf_def)
  have in_level: "block_address (blocks h ! i) \<le> heap_address h" "heap_end h \<le> block_end (blocks h ! i)"
    using wf(1) assms(2) by (auto simp: heap_shape_def)
  obtain h' where h': "free_block a (int i) h = Some h'" "heap_shape h'" "same_heap h h'"
    "heap_levels h' = push 7 level_shift i a (heap_levels h)"
    using free_block_push [OF wf(1-3) assms(2,3)] in_level assms(4-6) by (auto simp: region_def)
  have p: "blocks_ok 7 level_shift (heap_levels h')" "merged 7 level_shift (heap_levels h')"
    "free_bytes h' = free_bytes h \<union> {a..<a + 2 ^ level_shift i}"
    using buddy.push_ok [OF wf(2,3) assms(2,3)] assms(6)
    unfolding free_bytes_def h'(4) region_def by auto
  have "free_bytes h' \<subseteq> {heap_address h'..<heap_end h'}"
    using p(3) wf(4) assms(4,5) h'(3) same_heap_end [OF h'(3)] by (auto simp: same_heap_def)
  with h' p show ?thesis by (auto simp: heap_wf_def)
qed

definition frees :: "KPageHeap \<Rightarrow> nat set \<Rightarrow> KPageHeap \<Rightarrow> bool" where
  "frees h R h' \<longleftrightarrow> heap_wf h' \<and> same_heap h h' \<and> free_bytes h' = free_bytes h \<union> R"

lemma frees_refl: "heap_wf h \<Longrightarrow> frees h {} h"
  by (simp add: frees_def)

lemma frees_trans: "frees h R h1 \<Longrightarrow> frees h1 S h2 \<Longrightarrow> frees h (R \<union> S) h2"
  by (auto simp: frees_def intro: same_heap_trans)

lemma level_size:
  assumes "heap_wf h" "i < 7"
  shows "block_size (blocks h ! i) = 2 ^ level_shift i" "block_at (int i) h = Some (blocks h ! i)"
  using assms block_size_eq [of "blocks h ! i"] block_at_eq [of i h]
  by (auto simp: heap_wf_def heap_shape_def)

lemma level_size_less: "i < 7 \<Longrightarrow> (2 :: nat) ^ level_shift i \<le> 2 ^ 30"
  using level_shift_bounds [of i] by (intro power_increasing) auto

lemma heap_end_bound: "heap_wf h \<Longrightarrow> heap_end h + 2 ^ 30 < W64"
  by (simp add: heap_wf_def heap_shape_def)

lemma freesD:
  assumes "frees h R h'"
  shows "heap_wf h'" "heap_address h' = heap_address h" "heap_end h' = heap_end h"
    "free_bytes h' = free_bytes h \<union> R"
  using assms same_heap_end by (auto simp: frees_def same_heap_def)

text \<open>The three loops of \<open>free\<close>.\<close>

lemma free_middle_ok:
  assumes "heap_wf h" "i < 7" "2 ^ level_shift i dvd a" "heap_address h \<le> a"
    "a + k * 2 ^ level_shift i \<le> heap_end h" "{a..<a + k * 2 ^ level_shift i} \<inter> free_bytes h = {}"
  shows "\<exists>h'. free_middle a (a + k * 2 ^ level_shift i) (2 ^ level_shift i) (int i) h = Some h' \<and>
    frees h {a..<a + k * 2 ^ level_shift i} h'"
  using assms(1,3-)
proof (induction k arbitrary: a h)
  case 0
  then show ?case by (subst free_middle.simps) (simp add: frees_refl)
next
  case (Suc k)
  let ?s = "2 ^ level_shift i :: nat"
  have e: "a + Suc k * ?s = a + ?s + k * ?s" by simp
  have sub: "{a..<a + ?s} \<subseteq> {a..<a + Suc k * ?s}" by auto
  have "a + ?s \<le> heap_end h" using Suc.prems(4) by simp
  moreover have "{a..<a + ?s} \<inter> free_bytes h = {}" using Suc.prems(5) sub by blast
  ultimately obtain h1 where h1: "free_block a (int i) h = Some h1" "frees h {a..<a + ?s} h1"
    using free_block_ok [OF Suc.prems(1) assms(2) Suc.prems(2,3)] by (auto simp: frees_def)
  note h1wf = freesD [OF h1(2)]
  have "{a + ?s..<a + ?s + k * ?s} \<inter> free_bytes h1 = {}"
    unfolding h1wf(4) using Suc.prems(5) unfolding e disjoint_iff by auto
  then obtain h' where h': "free_middle (a + ?s) (a + ?s + k * ?s) ?s (int i) h1 = Some h'"
    "frees h1 {a + ?s..<a + ?s + k * ?s} h'"
    using Suc.IH [OF h1wf(1), of "a + ?s"] Suc.prems(2,3,4) h1wf(2,3) by auto
  have "add64 a ?s = a + ?s"
    using Suc.prems(4) heap_end_bound [OF Suc.prems(1)] by (intro add64_id) simp
  then have "free_middle a (a + Suc k * ?s) ?s (int i) h = Some h'"
    using h1(1) h'(1) unfolding e by (subst free_middle.simps) simp
  moreover have "{a..<a + ?s} \<union> {a + ?s..<a + ?s + k * ?s} = {a..<a + Suc k * ?s}" by auto
  ultimately show ?case using frees_trans [OF h1(2) h'(2)] by auto
qed

lemma free_before_ok:
  assumes "heap_wf h" "i < 7" "2 ^ level_shift i dvd be" "heap_address h \<le> bs" "bs \<le> be"
    "be \<le> heap_end h" "{bs..<be} \<inter> free_bytes h = {}"
  shows "\<exists>be' h'. free_before bs be (2 ^ level_shift i) (int i) h = Some (be', h') \<and> bs \<le> be' \<and> be' \<le> be \<and>
    be' < bs + 2 ^ level_shift i \<and> 2 ^ level_shift i dvd be' \<and> frees h {be'..<be} h'"
  using assms(1,3-)
proof (induction be arbitrary: h rule: less_induct)
  case (less be)
  let ?s = "2 ^ level_shift i :: nat"
  have nowrap: "add64 bs ?s = bs + ?s"
    using less.prems(4,5) heap_end_bound [OF less.prems(1)] level_size_less [OF assms(2)]
    by (intro add64_id) linarith
  show ?case
  proof (cases "bs + ?s \<le> be")
    case False
    then have "free_before bs be ?s (int i) h = Some (be, h)"
      using nowrap by (subst free_before.simps) simp
    then show ?thesis using False less.prems frees_refl by auto
  next
    case True
    have sb: "sub64 be ?s = be - ?s"
      using True less.prems(5) heap_end_bound [OF less.prems(1)] by (intro sub64_id) auto
    have d: "?s dvd be - ?s" using less.prems(2) by (simp add: dvd_diff_nat)
    have sub: "{be - ?s..<be} \<subseteq> {bs..<be}" using True by auto
    then have "{be - ?s..<be} \<inter> free_bytes h = {}" using less.prems(6) by blast
    moreover have "heap_address h \<le> be - ?s" using True less.prems(3) by linarith
    ultimately obtain h1 where h1: "free_block (be - ?s) (int i) h = Some h1" "frees h {be - ?s..<be} h1"
      using free_block_ok [OF less.prems(1) assms(2) d] less.prems True by (auto simp: frees_def)
    note h1wf = freesD [OF h1(2)]
    have "{bs..<be - ?s} \<inter> free_bytes h1 = {}" unfolding h1wf(4) using less.prems(6) unfolding disjoint_iff by auto
    moreover have "be - ?s < be"
    proof -
      have "0 < ?s" by simp
      then show ?thesis using True by linarith
    qed
    moreover have "bs \<le> be - ?s" using True by linarith
    ultimately obtain be' h' where h': "free_before bs (be - ?s) ?s (int i) h1 = Some (be', h')"
      "bs \<le> be'" "be' \<le> be - ?s" "be' < bs + ?s" "?s dvd be'" "frees h1 {be'..<be - ?s} h'"
      using less.IH [of "be - ?s" h1] d less.prems h1wf True by auto
    have "free_before bs be ?s (int i) h = Some (be', h')"
      using True nowrap sb h1(1) h'(1) by (subst free_before.simps) simp
    moreover have "{be - ?s..<be} \<union> {be'..<be - ?s} = {be'..<be}" using h'(3) by auto
    ultimately show ?thesis using h' frees_trans [OF h1(2) h'(6)] by (intro exI [of _ be'] exI [of _ h']) auto
  qed
qed

lemma free_after_ok:
  assumes "heap_wf h" "i < 7" "2 ^ level_shift i dvd as" "heap_address h \<le> as" "as \<le> ae"
    "ae \<le> heap_end h" "{as..<ae} \<inter> free_bytes h = {}"
  shows "\<exists>as' h'. free_after as ae (2 ^ level_shift i) (int i) h = Some (as', h') \<and> as \<le> as' \<and> as' \<le> ae \<and>
    ae < as' + 2 ^ level_shift i \<and> 2 ^ level_shift i dvd as' \<and> frees h {as..<as'} h'"
  using assms(1,3-)
proof (induction "ae - as" arbitrary: as h rule: less_induct)
  case less
  let ?s = "2 ^ level_shift i :: nat"
  have nowrap: "add64 as ?s = as + ?s"
    using less.prems(4,5) heap_end_bound [OF less.prems(1)] level_size_less [OF assms(2)]
    by (intro add64_id) linarith
  show ?case
  proof (cases "as + ?s \<le> ae")
    case False
    then have "free_after as ae ?s (int i) h = Some (as, h)"
      using nowrap by (subst free_after.simps) simp
    then show ?thesis using False less.prems frees_refl by auto
  next
    case True
    have sub: "{as..<as + ?s} \<subseteq> {as..<ae}" using True by auto
    then have "{as..<as + ?s} \<inter> free_bytes h = {}" using less.prems(6) by blast
    then obtain h1 where h1: "free_block as (int i) h = Some h1" "frees h {as..<as + ?s} h1"
      using free_block_ok [OF less.prems(1) assms(2) less.prems(2,3)] less.prems True by (auto simp: frees_def)
    note h1wf = freesD [OF h1(2)]
    have "{as + ?s..<ae} \<inter> free_bytes h1 = {}"
      unfolding h1wf(4) using less.prems(6) unfolding disjoint_iff by auto
    moreover have "ae - (as + ?s) < ae - as"
    proof -
      have "0 < ?s" by simp
      then show ?thesis using True by linarith
    qed
    moreover have "?s dvd as + ?s" using less.prems(2) by simp
    ultimately obtain as' h' where h': "free_after (as + ?s) ae ?s (int i) h1 = Some (as', h')"
      "as + ?s \<le> as'" "as' \<le> ae" "ae < as' + ?s" "?s dvd as'" "frees h1 {as + ?s..<as'} h'"
      using less.hyps [of "as + ?s" h1] less.prems h1wf True by auto
    have "free_after as ae ?s (int i) h = Some (as', h')"
      using True nowrap h1(1) h'(1) by (subst free_after.simps) simp
    moreover have "{as..<as + ?s} \<union> {as + ?s..<as'} = {as..<as'}" using h'(2) by auto
    ultimately show ?thesis using h' frees_trans [OF h1(2) h'(6)] by (intro exI [of _ as'] exI [of _ h']) auto
  qed
qed

text \<open>Below level \<open>n\<close> the remainders shrink to nothing, since the last level has the page size.\<close>

lemma level_dvd: "i \<le> j \<Longrightarrow> j < 7 \<Longrightarrow> 2 ^ level_shift j dvd x \<Longrightarrow> 2 ^ level_shift i dvd x" for x :: nat
  using level_shift_mono [of i j] by (meson dvd_trans le_imp_power_dvd)

lemma close_multiples: "m dvd x \<Longrightarrow> m dvd y \<Longrightarrow> x \<le> y \<Longrightarrow> y < x + m \<Longrightarrow> x = y" for x y m :: nat
proof -
  assume a: "m dvd x" "m dvd y" "x \<le> y" "y < x + m"
  then have "m dvd y - x" "y - x < m" by (auto simp: dvd_diff_nat)
  then have "y - x = 0" using dvd_imp_le by fastforce
  with a(3) show "x = y" by simp
qed

lemma free_before_levels_ok:
  assumes "heap_wf h" "n < 7" "\<forall>i < n. 2 ^ level_shift i dvd be" "4096 dvd bs" "4096 dvd be"
    "heap_address h \<le> bs" "bs \<le> be" "be \<le> heap_end h" "{bs..<be} \<inter> free_bytes h = {}"
    "n = 0 \<Longrightarrow> bs = be"
  shows "\<exists>h'. free_before_levels (rev (map int [0..<n])) bs be h = Some h' \<and> frees h {bs..<be} h'"
  using assms
proof (induction n arbitrary: be h)
  case 0
  then show ?case by (simp add: frees_refl)
next
  case (Suc n)
  let ?s = "2 ^ level_shift n :: nat"
  have n: "n < 7" using Suc.prems(2) by simp
  have d: "?s dvd be" using Suc.prems(3) by simp
  obtain be1 h1 where h1: "free_before bs be ?s (int n) h = Some (be1, h1)" "bs \<le> be1" "be1 \<le> be"
    "be1 < bs + ?s" "?s dvd be1" "frees h {be1..<be} h1"
    using free_before_ok [OF Suc.prems(1) n d Suc.prems(6-9)] by blast
  note h1wf = freesD [OF h1(6)]
  have dv: "2 ^ level_shift i dvd be1" if "i \<le> n" for i
    using level_dvd [OF that n h1(5)] .
  then have p: "4096 dvd be1" using dv [of 0] by simp
  have "{bs..<be1} \<inter> free_bytes h1 = {}"
    unfolding h1wf(4) using Suc.prems(9) h1(3) unfolding disjoint_iff by auto
  moreover have "bs = be1" if "n = 0"
    using close_multiples [OF Suc.prems(4) p h1(2)] h1(4) that by simp
  ultimately obtain h' where h': "free_before_levels (rev (map int [0..<n])) bs be1 h1 = Some h'"
    "frees h1 {bs..<be1} h'"
    using Suc.IH [of h1 be1] h1wf h1 Suc.prems dv p n by auto
  have "free_before_levels (rev (map int [0..<Suc n])) bs be h = Some h'"
    using h1(1) h'(1) level_size [OF Suc.prems(1) n] by simp
  moreover have "{be1..<be} \<union> {bs..<be1} = {bs..<be}" using h1(2,3) by auto
  ultimately show ?case using frees_trans [OF h1(6) h'(2)] by auto
qed

lemma free_after_levels_ok:
  assumes "heap_wf h" "n < 7" "\<forall>i < n. 2 ^ level_shift i dvd as" "4096 dvd as" "4096 dvd ae"
    "heap_address h \<le> as" "as \<le> ae" "ae \<le> heap_end h" "{as..<ae} \<inter> free_bytes h = {}"
    "n = 0 \<Longrightarrow> as = ae"
  shows "\<exists>h'. free_after_levels (rev (map int [0..<n])) as ae h = Some h' \<and> frees h {as..<ae} h'"
  using assms
proof (induction n arbitrary: as h)
  case 0
  then show ?case by (simp add: frees_refl)
next
  case (Suc n)
  let ?s = "2 ^ level_shift n :: nat"
  have n: "n < 7" using Suc.prems(2) by simp
  have d: "?s dvd as" using Suc.prems(3) by simp
  obtain as1 h1 where h1: "free_after as ae ?s (int n) h = Some (as1, h1)" "as \<le> as1" "as1 \<le> ae"
    "ae < as1 + ?s" "?s dvd as1" "frees h {as..<as1} h1"
    using free_after_ok [OF Suc.prems(1) n d Suc.prems(6-9)] by blast
  note h1wf = freesD [OF h1(6)]
  have dv: "2 ^ level_shift i dvd as1" if "i \<le> n" for i
    using level_dvd [OF that n h1(5)] .
  then have p: "4096 dvd as1" using dv [of 0] by simp
  have "{as1..<ae} \<inter> free_bytes h1 = {}"
    unfolding h1wf(4) using Suc.prems(9) h1(2) unfolding disjoint_iff by auto
  moreover have "as1 = ae" if "n = 0"
    using close_multiples [OF p Suc.prems(5) h1(3)] h1(4) that by simp
  ultimately obtain h' where h': "free_after_levels (rev (map int [0..<n])) as1 ae h1 = Some h'"
    "frees h1 {as1..<ae} h'"
    using Suc.IH [of h1 as1] h1wf h1 Suc.prems dv p n by auto
  have "free_after_levels (rev (map int [0..<Suc n])) as ae h = Some h'"
    using h1(1) h'(1) level_size [OF Suc.prems(1) n] by simp
  moreover have "{as..<as1} \<union> {as1..<ae} = {as..<ae}" using h1(2,3) by auto
  ultimately show ?case using frees_trans [OF h1(6) h'(2)] by auto
qed

lemma align_up_level:
  assumes "a + 2 ^ 30 < W64" "i < 7"
  shows "a \<le> align_up a (2 ^ level_shift i)" "2 ^ level_shift i dvd align_up a (2 ^ level_shift i)"
    "2 ^ level_shift i dvd a \<Longrightarrow> align_up a (2 ^ level_shift i) = a"
proof -
  let ?n = "2 ^ level_shift i :: nat"
  have eq: "align_up a ?n = (a + ?n - 1) div ?n * ?n"
    using assms level_size_less [OF assms(2)] by (intro align_up_eq) auto
  then show "?n dvd align_up a ?n" by simp
  have "a + ?n - 1 < ?n + (a + ?n - 1) div ?n * ?n" by (rule dividend_less_div_times) simp
  then show "a \<le> align_up a ?n" unfolding eq by linarith
  show "align_up a ?n = a" if "?n dvd a" using that by (simp add: align_up_def)
qed

lemma align_down_level:
  assumes "a < W64"
  shows "align_down a (2 ^ k) \<le> a" "2 ^ k dvd align_down a (2 ^ k)"
    "2 ^ k dvd a \<Longrightarrow> align_down a (2 ^ k) = a"
  using assms by (auto simp: minus_mod_eq_mult_div)

lemma find_big_ok:
  assumes "heap_wf h" "n < 7" "4096 dvd a" "4096 dvd e" "a < e" "e \<le> heap_end h"
  shows "\<exists>i bst ben. find_big (Suc n) a e h = Some (Some (i, bst, ben)) \<and> i \<le> n \<and> a \<le> bst \<and> bst < ben \<and>
    ben \<le> e \<and> 2 ^ level_shift i dvd bst \<and> 2 ^ level_shift i dvd ben \<and> (i = 0 \<longrightarrow> bst = a \<and> ben = e)"
  using assms(2)
proof (induction n)
  have eW: "e < W64" "a + 2 ^ 30 < W64"
    using heap_end_bound [OF assms(1)] assms(5,6) by linarith+
  {
    case 0
    have "4096 = (2 :: nat) ^ level_shift 0" by simp
    then have "align_up a (2 ^ level_shift 0) = a" "align_down e (2 ^ level_shift 0) = e"
      using align_up_level(3) [OF eW(2), of 0] align_down_level(3) [OF eW(1), of "level_shift 0"] assms(3,4)
      by auto
    then show ?case
      using assms level_size [OF assms(1), of 0] by (auto simp: Let_def simp del: align_down_eq)
  next
    case (Suc n)
    let ?b = "align_up a (2 ^ level_shift (Suc n))" and ?c = "align_down e (2 ^ level_shift (Suc n))"
    note lev = level_size [OF assms(1) Suc.prems]
    show ?case
    proof (cases "?b < ?c")
      case True
      then have "find_big (Suc (Suc n)) a e h = Some (Some (Suc n, ?b, ?c))"
        using lev by (subst find_big.simps) (simp del: find_big.simps align_down_eq)
      then show ?thesis
        using align_up_level [OF eW(2) Suc.prems] align_down_level [OF eW(1)] True
        by (intro exI [of _ "Suc n"] exI [of _ ?b] exI [of _ ?c]) (simp del: align_down_eq)
    next
      case False
      then have "find_big (Suc (Suc n)) a e h = find_big (Suc n) a e h"
        using lev by (subst find_big.simps) (simp del: find_big.simps align_down_eq)
      with Suc.IH Suc.prems show ?thesis by (metis Suc_lessD le_SucI)
    qed
  }
qed

text \<open>Freeing a range of pages that is not free adds exactly its bytes.\<close>

lemma heap_free_ok:
  assumes "heap_wf h" "4096 dvd a" "heap_address h \<le> a" "a + n * 4096 \<le> heap_end h"
    "{a..<a + n * 4096} \<inter> free_bytes h = {}"
  shows "\<exists>h'. heap_free a n h = Some h' \<and> frees h {a..<a + n * 4096} h'"
proof (cases "n = 0")
  case True
  then show ?thesis using frees_refl [OF assms(1)] by (simp add: heap_free_def)
next
  case False
  let ?e = "a + n * 4096"
  have eW: "?e < W64" using heap_end_bound [OF assms(1)] assms(4) by linarith
  then have e: "add64 a (mul64 n 4096) = ?e" by simp
  have n7: "num_blocks h = Suc 6" using assms(1) by (simp add: heap_wf_def heap_shape_def)
  obtain i bst ben where big: "find_big (Suc 6) a ?e h = Some (Some (i, bst, ben))" "i \<le> 6"
    "a \<le> bst" "bst < ben" "ben \<le> ?e" "2 ^ level_shift i dvd bst" "2 ^ level_shift i dvd ben"
    "i = 0 \<longrightarrow> bst = a \<and> ben = ?e"
    using find_big_ok [OF assms(1), of 6 a ?e] assms(2,4) False by auto
  let ?s = "2 ^ level_shift i :: nat"
  have i: "i < 7" using big(2) by simp
  obtain k where k: "ben = bst + k * ?s"
    using big(4,6,7) by (metis dvdE dvd_diff_nat le_add_diff_inverse less_imp_le mult.commute)
  have dv: "2 ^ level_shift j dvd bst" "2 ^ level_shift j dvd ben" if "j \<le> i" for j
    using level_dvd [OF that i] big(6,7) by auto
  have p: "4096 dvd bst" "4096 dvd ben" "4096 dvd ?e" using dv [of 0] assms(2) by simp_all
  have dis: "{x..<y} \<inter> free_bytes h = {}" if "a \<le> x" "y \<le> ?e" for x y
    using assms(5) that unfolding disjoint_iff by auto
  obtain h1 where h1: "free_middle bst ben ?s (int i) h = Some h1" "frees h {bst..<ben} h1"
    using free_middle_ok [OF assms(1) i big(6), of k] dis [of bst ben] big(3,5) assms(3,4) k by auto
  note h1wf = freesD [OF h1(2)]
  have d1: "{a..<bst} \<inter> free_bytes h1 = {}"
    unfolding h1wf(4) using dis [of a bst] big(4,5) by (auto simp: disjoint_iff)
  obtain h2 where h2: "free_before_levels (rev (map int [0..<i])) a bst h1 = Some h2" "frees h1 {a..<bst} h2"
    using free_before_levels_ok [OF h1wf(1) i _ assms(2) p(1) _ big(3) _ d1]
      dv big(4,5,8) assms(3,4) h1wf(2,3) by auto
  have h2wf: "heap_wf h2" "heap_address h2 = heap_address h" "heap_end h2 = heap_end h"
    "free_bytes h2 = free_bytes h \<union> {bst..<ben} \<union> {a..<bst}"
    using freesD [OF h2(2)] h1wf by auto
  have d2: "{ben..<?e} \<inter> free_bytes h2 = {}"
    unfolding h2wf(4) using dis [of ben ?e] big(3,4) by (auto simp: disjoint_iff)
  obtain h3 where h3: "free_after_levels (rev (map int [0..<i])) ben ?e h2 = Some h3" "frees h2 {ben..<?e} h3"
    using free_after_levels_ok [OF h2wf(1) i _ p(2,3) _ big(5) _ d2]
      dv big(3,4,8) assms(3,4) h2wf(2,3) by auto
  have "heap_free a n h = Some h3"
    using False e n7 big(1) h1(1) h2(1) h3(1) level_size [OF assms(1) i]
    by (simp add: heap_free_def Let_def del: find_big.simps)
  moreover have "{bst..<ben} \<union> {a..<bst} \<union> {ben..<?e} = {a..<?e}" using big(3-5) by auto
  ultimately show ?thesis using frees_trans [OF frees_trans [OF h1(2) h2(2)] h3(2)] by auto
qed

end
