(* ===== verification/PageHeapAlloc.thy ===== *)
theory PageHeapAlloc
  imports PageHeapProps
begin

text \<open>
  Allocation from the page heap and its initialization, on the model of \<open>PageHeap\<close>, and the
  properties of src/core/src/hle/kernel/k_page_heap.rs.
\<close>

section \<open>Taking a block out of a level\<close>

lemma levels_in_free: "i < 7 \<Longrightarrow> a \<in> heap_levels h i \<Longrightarrow> {a..<a + 2 ^ level_shift i} \<subseteq> free_bytes h"
  by (auto simp: free_bytes_def covers_def region_def)

lemma pop_level:
  assumes "heap_wf h" "i < 7"
  shows "\<exists>r b. pop_block random (blocks h ! i) = Some (r, b) \<and> block_size b = 2 ^ level_shift i \<and>
    (let h' = put_block (int i) b h
     in heap_wf h' \<and> same_heap h h' \<and>
       (if heap_levels h i = {} then r = 0 \<and> heap_levels h' = heap_levels h
        else r \<noteq> 0 \<and> r \<in> heap_levels h i \<and> (\<not> random \<longrightarrow> r = Min (heap_levels h i)) \<and>
          free_bytes h' = free_bytes h - {r..<r + 2 ^ level_shift i}))"
proof -
  let ?b = "blocks h ! i"
  have wf: "heap_shape h" "blocks_ok 7 level_shift (heap_levels h)" "merged 7 level_shift (heap_levels h)"
    "free_bytes h \<subseteq> {heap_address h..<heap_end h}" and len: "length (blocks h) = 7"
    using assms(1) by (auto simp: heap_wf_def heap_shape_def)
  have bwf: "block_wf ?b" using wf(1) assms(2) by (simp add: heap_shape_def)
  have st: "starts ?b = heap_levels h i" using assms(2) by (simp add: heap_levels_def)
  obtain r b where b: "pop_block random ?b = Some (r, b)" "block_wf b" "same_level ?b b"
    "if starts ?b = {} then r = 0 \<and> starts b = {}
     else r \<noteq> 0 \<and> r \<in> starts ?b \<and> starts b = starts ?b - {r} \<and> (\<not> random \<longrightarrow> r = Min (starts ?b))"
    using pop_block_ok [OF bwf, of random] by blast
  let ?h = "put_block (int i) b h"
  note put = shape_put [OF wf(1) assms(2) b(3,2)]
  have same: "same_heap h ?h" using put_block_same b(3) len assms(2) by simp
  have sub: "heap_levels ?h j \<subseteq> heap_levels h j" for j
    using put(2) b(4) st by (auto split: if_splits)
  have cov: "free_bytes ?h = free_bytes h - (\<Union>a \<in> heap_levels h i - starts b. region level_shift i a)"
  proof -
    have "heap_levels ?h = (heap_levels h)(i := heap_levels h i - (heap_levels h i - starts b))"
      using put(2) sub [of i] by (auto simp: double_diff)
    then show ?thesis
      using buddy.covers_remove [OF wf(2) assms(2), of "heap_levels h i - starts b"]
      unfolding free_bytes_def by simp
  qed
  then have "free_bytes ?h \<subseteq> {heap_address ?h..<heap_end ?h}"
    using wf(4) same same_heap_end [OF same] by (auto simp: same_heap_def)
  then have "heap_wf ?h"
    using put(1) buddy.shrink_ok [OF wf(2) sub] buddy.shrink_merged [OF wf(3) sub]
    by (simp add: heap_wf_def)
  moreover have "block_size b = 2 ^ level_shift i"
    using same_levelD(7) [OF b(3)] level_size(1) [OF assms] by simp
  moreover have "heap_levels h i - starts b = {r}" if "heap_levels h i \<noteq> {}"
    using b(4) that unfolding st by auto
  moreover have "heap_levels ?h = heap_levels h" if "heap_levels h i = {}"
    using put(2) b(4) that unfolding st by (simp add: fun_upd_idem)
  ultimately show ?thesis
    using b(1,4) same cov unfolding st by (auto simp: Let_def region_def)
qed

lemma interval_sub: "0 < n \<Longrightarrow> {a..<a + n} \<subseteq> {lo..<hi} \<longleftrightarrow> lo \<le> a \<and> a + n \<le> hi" for a n :: nat
  using atLeastLessThan_subset_iff [of a "a + n" lo hi] by auto

lemma interval_sub_iff: "{a..<a + n} \<subseteq> S \<Longrightarrow> m \<le> n \<Longrightarrow> {a..<a + m} \<subseteq> S" for a n m :: nat
  by (auto simp: subset_iff)

lemma interval_keep:
  fixes a x n t :: nat
  assumes "{a..<a + t} \<subseteq> F" "a \<le> x" "x + n \<le> a + t"
  shows "F - {a..<a + t} \<union> {a..<x} \<union> {x + n..<a + t} = F - {x..<x + n}"
  using assms by (auto simp: subset_iff)

definition no_block :: "KPageHeap \<Rightarrow> nat \<Rightarrow> bool" where
  "no_block h j \<longleftrightarrow> (\<forall>k. j \<le> k \<and> k < 7 \<longrightarrow> heap_levels h k = {})"

lemma no_block_Suc: "no_block h j \<longleftrightarrow> (j < 7 \<longrightarrow> heap_levels h j = {}) \<and> no_block h (Suc j)"
  unfolding no_block_def by (metis Suc_leD Suc_leI le_neq_implies_less order_refl)

text \<open>A free aligned range of a level's size exists exactly if some level from there on has a block.\<close>

lemma some_level_iff:
  assumes "heap_wf h" "i < 7"
  shows "(\<exists>a. 2 ^ level_shift i dvd a \<and> {a..<a + 2 ^ level_shift i} \<subseteq> free_bytes h) \<longleftrightarrow>
    \<not> no_block h i"
proof
  assume "\<exists>a. 2 ^ level_shift i dvd a \<and> {a..<a + 2 ^ level_shift i} \<subseteq> free_bytes h"
  then obtain a where "2 ^ level_shift i dvd a" "region level_shift i a \<subseteq> covers 7 level_shift (heap_levels h)"
    by (auto simp: free_bytes_def region_def)
  then obtain j b where "i \<le> j" "j < 7" "b \<in> heap_levels h j"
    using buddy.free_block_complete [of "heap_levels h" i a] assms by (auto simp: heap_wf_def)
  then show "\<not> no_block h i" by (auto simp: no_block_def)
next
  assume "\<not> no_block h i"
  then obtain j a where j: "i \<le> j" "j < 7" "a \<in> heap_levels h j" by (auto simp: no_block_def)
  have "2 ^ level_shift j dvd a" using assms(1) j unfolding heap_wf_def blocks_ok_def by blast
  then have "2 ^ level_shift i dvd a" by (rule level_dvd [OF j(1,2)])
  moreover have "(2 :: nat) ^ level_shift i \<le> 2 ^ level_shift j"
    using level_shift_mono [OF j(1,2)] by simp
  then have "{a..<a + 2 ^ level_shift i} \<subseteq> free_bytes h"
    using interval_sub_iff [OF levels_in_free [OF j(2,3)]] by blast
  ultimately show "\<exists>a. 2 ^ level_shift i dvd a \<and> {a..<a + 2 ^ level_shift i} \<subseteq> free_bytes h" by blast
qed

lemma block_aligned:
  assumes "heap_wf h" "j < 7" "a \<in> heap_levels h j"
  shows "2 ^ level_shift j dvd a" "heap_address h \<le> a" "a + 2 ^ level_shift j \<le> heap_end h"
proof -
  show "2 ^ level_shift j dvd a" using assms unfolding heap_wf_def blocks_ok_def by blast
  have "{a..<a + 2 ^ level_shift j} \<subseteq> {heap_address h..<heap_end h}"
    using levels_in_free [OF assms(2,3)] assms(1) unfolding heap_wf_def by (meson subset_trans)
  moreover have "a < a + 2 ^ level_shift j" by simp
  ultimately show "heap_address h \<le> a" "a + 2 ^ level_shift j \<le> heap_end h"
    by (auto simp: interval_sub)
qed

section \<open>The linear search\<close>

definition takes :: "KPageHeap \<Rightarrow> nat set \<Rightarrow> KPageHeap \<Rightarrow> bool" where
  "takes h R h' \<longleftrightarrow> heap_wf h' \<and> same_heap h h' \<and> R \<subseteq> free_bytes h \<and> free_bytes h' = free_bytes h - R"

lemma linear_search_ok:
  assumes "heap_wf h" "i \<le> j" "j \<le> 7" "i < 7"
  shows "\<exists>r h'. linear_search (map int [j..<7]) (2 ^ level_shift i) h = Some (r, h') \<and>
    (if no_block h j then r = 0 \<and> takes h {} h'
     else r \<noteq> 0 \<and> 2 ^ level_shift i dvd r \<and> takes h {r..<r + 2 ^ level_shift i} h')"
  using assms(1-3)
proof (induction "7 - j" arbitrary: j h)
  case 0
  then show ?case by (simp add: takes_def no_block_def)
next
  case (Suc n)
  let ?s = "2 ^ level_shift i :: nat" and ?t = "2 ^ level_shift j :: nat"
  have j: "j < 7" "map int [j..<7] = int j # map int [Suc j..<7]"
    using Suc.hyps(2) by (simp_all add: upt_conv_Cons)
  obtain r b where p: "pop_block False (blocks h ! j) = Some (r, b)" "block_size b = ?t"
    "heap_wf (put_block (int j) b h)" "same_heap h (put_block (int j) b h)"
    "if heap_levels h j = {} then r = 0 \<and> heap_levels (put_block (int j) b h) = heap_levels h
     else r \<noteq> 0 \<and> r \<in> heap_levels h j \<and> (\<not> False \<longrightarrow> r = Min (heap_levels h j)) \<and>
       free_bytes (put_block (int j) b h) = free_bytes h - {r..<r + ?t}"
    using pop_level [OF Suc.prems(1) j(1), of False] unfolding Let_def by blast
  let ?h = "put_block (int j) b h"
  have at: "block_at (int j) h = Some (blocks h ! j)" using level_size(2) [OF Suc.prems(1) j(1)] .
  show ?case
  proof (cases "heap_levels h j = {}")
    case True
    then have r: "r = 0" "heap_levels ?h = heap_levels h" using p(5) by auto
    then have "linear_search (map int [j..<7]) ?s h = linear_search (map int [Suc j..<7]) ?s ?h"
      using at p(1) unfolding j(2) by simp
    moreover have nb: "no_block h j = no_block ?h (Suc j)"
      using True r(2) no_block_Suc [of h j] by (simp add: no_block_def)
    moreover have fb: "free_bytes ?h = free_bytes h" using r(2) by (simp add: free_bytes_def)
    moreover have "takes ?h R h' \<Longrightarrow> takes h R h'" for R h'
      using same_heap_trans [OF p(4)] fb by (simp add: takes_def)
    ultimately show ?thesis
      using Suc.hyps(1) [of "Suc j" ?h] Suc.hyps(2) p(3) Suc.prems(2,3) j(1)
      by (cases "no_block h j") (fastforce, fastforce)
  next
    case False
    then have r: "r \<noteq> 0" "r \<in> heap_levels h j" "free_bytes ?h = free_bytes h - {r..<r + ?t}"
      using p(5) by auto
    note al = block_aligned [OF Suc.prems(1) j(1) r(2)]
    have sub: "{r..<r + ?t} \<subseteq> free_bytes h" by (rule levels_in_free [OF j(1) r(2)])
    have le: "?s \<le> ?t" using level_shift_mono [OF Suc.prems(2) j(1)] by simp
    have da: "?s dvd r" by (rule level_dvd [OF Suc.prems(2) j(1) al(1)])
    have ex: "\<not> no_block h j" using False j(1) by (auto simp: no_block_def)
    have addr: "heap_address ?h = heap_address h" "heap_end ?h = heap_end h"
      using p(4) same_heap_end by (auto simp: same_heap_def)
    have W: "heap_end h < W64" "?t < W64" using heap_end_bound [OF Suc.prems(1)] al(3) by linarith+
    show ?thesis
    proof (cases "?s < ?t")
      case False
      then have "linear_search (map int [j..<7]) ?s h = Some (r, ?h)"
        using at p(1,2) r(1) unfolding j(2) by simp
      moreover have "?t = ?s" using False le by simp
      ultimately show ?thesis using ex r(1,3) da p(3,4) sub by (auto simp: takes_def)
    next
      case True
      have d12: "4096 dvd ?s" "4096 dvd ?t" "4096 dvd r"
        using level_dvd [of 0 i] level_dvd [of 0 j] assms(4) j(1) al(1) by simp_all
      have len: "(?t - ?s) div 4096 * 4096 = ?t - ?s" using d12 by (simp add: dvd_diff_nat)
      have e: "r + ?s + (?t - ?s) = r + ?t" using le by simp
      have "{r + ?s..<r + ?t} \<inter> free_bytes ?h = {}" unfolding r(3) by auto
      then obtain h' where h': "heap_free (r + ?s) ((?t - ?s) div 4096) ?h = Some h'"
        "frees ?h {r + ?s..<r + ?t} h'"
        using heap_free_ok [OF p(3), of "r + ?s" "(?t - ?s) div 4096"] d12 al(2,3) addr unfolding len e by auto
      have ops: "add64 r ?s = r + ?s" "sub64 ?t ?s = ?t - ?s"
        by (rule add64_id, use al(3) W le in linarith) (rule sub64_id [OF le W(2)])
      have "linear_search (map int [j..<7]) ?s h = Some (r, h')"
        using at p(1,2) r(1) True h'(1) ops unfolding j(2) by simp
      moreover have "free_bytes h - {r..<r + ?t} \<union> {r + ?s..<r + ?t} = free_bytes h - {r..<r + ?s}"
        using interval_keep [OF sub, of r ?s] le by simp
      moreover have "{r..<r + ?s} \<subseteq> free_bytes h" using interval_sub_iff [OF sub le] .
      ultimately show ?thesis
        using ex r(1,3) da freesD [OF h'(2)] h'(2) same_heap_trans [OF p(4)] by (auto simp: takes_def frees_def)
    qed
  qed
qed

lemma upto_int: "[int i..int n - 1] = map int [i..<n]"
proof (induction n)
  case (Suc n)
  show ?case
  proof (cases "i \<le> n")
    case True
    then have "[int i..int (Suc n) - 1] = [int i..int n - 1] @ [int n]"
      using upto_rec2 [of "int i" "int n"] by simp
    then show ?thesis using Suc True by simp
  next
    case False
    then show ?thesis by simp
  qed
qed simp

lemma linear_alloc_ok:
  assumes "heap_wf h" "i < 7"
  shows "\<exists>r h'. allocate_by_linear_search (int i) h = Some (r, h') \<and>
    (if no_block h i then r = 0 \<and> takes h {} h'
     else r \<noteq> 0 \<and> 2 ^ level_shift i dvd r \<and> takes h {r..<r + 2 ^ level_shift i} h')"
proof -
  have "num_blocks h = 7" using assms(1) by (simp add: heap_wf_def heap_shape_def)
  then have "[int i..int (num_blocks h) - 1] = map int [i..<7]" using upto_int [of i 7] by simp
  then have "allocate_by_linear_search (int i) h = linear_search (map int [i..<7]) (2 ^ level_shift i) h"
    using level_size [OF assms] by (simp add: allocate_by_linear_search_def)
  then show ?thesis using linear_search_ok [OF assms(1) order_refl _ assms(2)] assms(2) by simp
qed

section \<open>Counting\<close>

lemma card_level:
  assumes "heap_wf h" "i < 7"
  shows "num_free_blocks (blocks h ! i) = card (heap_levels h i)"
    "(\<Sum>i < 7. card (heap_levels h i) * 2 ^ level_shift i) = card (free_bytes h)"
    "card (free_bytes h) \<le> heap_size h"
proof -
  have wf: "heap_shape h" "blocks_ok 7 level_shift (heap_levels h)"
    "free_bytes h \<subseteq> {heap_address h..<heap_end h}"
    using assms(1) by (auto simp: heap_wf_def)
  have fin: "\<forall>i < 7. finite (heap_levels h i)" by (simp add: heap_levels_def starts_def)
  show sum: "(\<Sum>i < 7. card (heap_levels h i) * 2 ^ level_shift i) = card (free_bytes h)"
    using buddy.card_covers [OF wf(2) fin] by (simp add: free_bytes_def)
  have "card (free_bytes h) \<le> card {heap_address h..<heap_end h}" by (rule card_mono) (use wf(3) in auto)
  then show le: "card (free_bytes h) \<le> heap_size h" by (simp add: heap_end_def)
  let ?b = "blocks h ! i"
  have b: "pb_wf (block_bitmap ?b)" using wf(1) assms(2) by (simp add: heap_shape_def block_wf_def)
  have "inj (\<lambda>off. block_address ?b + off * 2 ^ block_shift ?b)" by (auto simp: inj_def)
  then have c: "card (heap_levels h i) = card (free_bits (block_bitmap ?b))"
    using assms(2) by (simp add: heap_levels_def starts_def card_image inj_on_subset)
  have "card (heap_levels h i) * 1 \<le> card (heap_levels h i) * 2 ^ level_shift i"
    by (intro mult_le_mono2) simp
  also have "\<dots> \<le> (\<Sum>i < 7. card (heap_levels h i) * 2 ^ level_shift i)"
    using assms(2) member_le_sum [of i "{..<7}" "\<lambda>i. card (heap_levels h i) * 2 ^ level_shift i"] by simp
  finally have "card (heap_levels h i) < W64"
    using sum le heap_end_bound [OF assms(1)] by (simp add: heap_end_def)
  then show "num_free_blocks ?b = card (heap_levels h i)"
    using b c by (simp add: num_free_blocks_def pb_wf_def unat_of_nat)
qed

text \<open>The reported free size is the number of free bytes.\<close>

lemma free_pages_fold:
  assumes "\<And>b. b \<in> set bs \<Longrightarrow> block_free_pages b = f b" "acc + sum_list (map f bs) < W64"
  shows "fold (\<lambda>b num_free. add64 num_free (block_free_pages b)) bs acc = acc + sum_list (map f bs)"
  using assms by (induction bs arbitrary: acc) (simp_all add: add.assoc)

lemma free_size_eq:
  assumes "heap_wf h"
  shows "get_free_size h = card (free_bytes h)"
proof -
  have len: "length (blocks h) = 7" "num_blocks h = 7" using assms by (auto simp: heap_wf_def heap_shape_def)
  let ?pages = "\<lambda>i. card (heap_levels h i) * (2 ^ level_shift i div 4096)"
  have div: "(2 :: nat) ^ level_shift i div 4096 * 4096 = 2 ^ level_shift i" if "i < 7" for i
  proof -
    have "(4096 :: nat) dvd 2 ^ level_shift i" using level_dvd [of 0 i] that by simp
    then show ?thesis by simp
  qed
  have total: "(\<Sum>i < 7. ?pages i) * 4096 = card (free_bytes h)"
    using div card_level(2) [OF assms, of 0] by (simp add: sum_distrib_right mult.assoc)
  have bound: "card (free_bytes h) < W64"
    using card_level(3) [OF assms, of 0] heap_end_bound [OF assms] by (simp add: heap_end_def)
  have "block_free_pages (blocks h ! i) = ?pages i" if i: "i < 7" for i
  proof -
    have "?pages i \<le> (\<Sum>i < 7. ?pages i)" using i by (intro member_le_sum) auto
    then have "?pages i < W64" using total bound by linarith
    then show ?thesis
      using card_level(1) [OF assms i] level_size(1) [OF assms i]
      by (simp add: block_free_pages_def block_num_pages_def)
  qed
  then have pages: "map block_free_pages (blocks h) = map ?pages [0..<7]"
    using len(1) by (intro nth_equalityI) auto
  have "fold (\<lambda>b num_free. add64 num_free (block_free_pages b)) (blocks h) 0 =
      0 + sum_list (map block_free_pages (blocks h))"
  proof (rule free_pages_fold)
    have "sum_list (map block_free_pages (blocks h)) = (\<Sum>i < 7. ?pages i)"
      unfolding pages by (simp add: interv_sum_list_conv_sum_set_nat lessThan_atLeast0)
    then show "0 + sum_list (map block_free_pages (blocks h)) < W64" using total bound by linarith
  qed simp
  then have "get_num_free_pages h = (\<Sum>i < 7. ?pages i)"
    using len unfolding get_num_free_pages_def pages
    by (simp add: interv_sum_list_conv_sum_set_nat lessThan_atLeast0)
  then show ?thesis using total bound by (simp add: get_free_size_def)
qed

section \<open>The random allocation\<close>

lemma generate_random_below:
  assumes "0 < m" "m < W64" "random_below m h = (r, h')"
  shows "r < m" "\<exists>g. h' = h\<lparr>heap_rng := g\<rparr>"
proof -
  have nz: "(word_of_nat m :: u64) \<noteq> 0" "unat (word_of_nat m :: u64) = m"
    using assms(1,2) by (auto simp: unat_of_nat word_of_nat_eq_0_iff dest: nat_dvd_not_less)
  obtain x g where g: "generate_random (word_of_nat m) (heap_rng h) = (x, g)" "r = unat x"
    "h' = h\<lparr>heap_rng := g\<rparr>"
    using assms(3) by (auto simp: random_below_def split: prod.splits)
  then obtain rnd where "x = rnd - (rnd div word_of_nat m) * word_of_nat m"
    using nz(1) by (auto simp: generate_random_def Let_def split: prod.splits)
  then have "x = rnd mod word_of_nat m" by (simp add: minus_div_mult_eq_mod)
  then have "r = unat rnd mod m" using g(2) by (simp add: unat_mod nz(2))
  then show "r < m" using assms(1) by simp
  show "\<exists>g. h' = h\<lparr>heap_rng := g\<rparr>" using g(3) by blast
qed

lemma heap_wf_rng [simp]:
  "heap_wf (h\<lparr>heap_rng := g\<rparr>) = heap_wf h" "heap_levels (h\<lparr>heap_rng := g\<rparr>) = heap_levels h"
  "free_bytes (h\<lparr>heap_rng := g\<rparr>) = free_bytes h" "no_block (h\<lparr>heap_rng := g\<rparr>) = no_block h"
  "heap_address (h\<lparr>heap_rng := g\<rparr>) = heap_address h" "heap_end (h\<lparr>heap_rng := g\<rparr>) = heap_end h"
  "same_heap (h\<lparr>heap_rng := g\<rparr>) h' = same_heap h h'"
  "same_heap h' (h\<lparr>heap_rng := g\<rparr>) = same_heap h' h"
proof -
  show l: "heap_levels (h\<lparr>heap_rng := g\<rparr>) = heap_levels h" by (rule ext) (simp add: heap_levels_def)
  show f: "free_bytes (h\<lparr>heap_rng := g\<rparr>) = free_bytes h" by (simp add: free_bytes_def l)
  show "heap_end (h\<lparr>heap_rng := g\<rparr>) = heap_end h" by (simp add: heap_end_def)
  then show "heap_wf (h\<lparr>heap_rng := g\<rparr>) = heap_wf h"
    by (simp add: heap_wf_def heap_shape_def l f)
  show "no_block (h\<lparr>heap_rng := g\<rparr>) = no_block h" by (rule ext) (simp add: no_block_def l)
qed (simp_all add: same_heap_def)

text \<open>The weights of the levels neither wrap nor vanish on a level with a free block.\<close>

definition weight :: "KPageHeap \<Rightarrow> nat \<Rightarrow> nat \<Rightarrow> nat \<Rightarrow> nat" where
  "weight h needed ash i = (1 + (2 ^ level_shift i - needed) div 2 ^ ash) * card (heap_levels h i)"

lemma weight_0: "weight h needed ash i = 0 \<longleftrightarrow> heap_levels h i = {} \<or> \<not> i < 7"
  by (auto simp: weight_def card_eq_0_iff heap_levels_def starts_def)

lemma weight_sum:
  assumes "heap_wf h" "12 \<le> ash" "A \<subseteq> {..<7}" "0 < needed"
  shows "(\<Sum>i \<in> A. weight h needed ash i) < W64"
proof -
  have "weight h needed ash i \<le> card (heap_levels h i) * 2 ^ level_shift i" for i
  proof -
    have "(2 ^ level_shift i - needed) div 2 ^ ash \<le> 2 ^ level_shift i - needed" by (rule div_le_dividend)
    also have "\<dots> < 2 ^ level_shift i" using assms(4) by simp
    finally have "1 + (2 ^ level_shift i - needed) div 2 ^ ash \<le> 2 ^ level_shift i" by simp
    then show ?thesis unfolding weight_def by (metis mult.commute mult_le_mono1)
  qed
  then have "(\<Sum>i \<in> A. weight h needed ash i) \<le> (\<Sum>i < 7. card (heap_levels h i) * 2 ^ level_shift i)"
    using assms(3) by (intro order_trans [OF sum_mono sum_mono2]) auto
  also have "\<dots> < W64"
    using card_level(2,3) [OF assms(1), of 0] heap_end_bound [OF assms(1)] by (simp add: heap_end_def)
  finally show ?thesis .
qed

lemma alignments_eq:
  assumes "heap_wf h" "i < 7" "12 \<le> ash" "ash < 64" "0 < needed" "needed \<le> 2 ^ level_shift i"
  shows "alignments needed ash (blocks h ! i) = weight h needed ash i"
proof -
  have "weight h needed ash i < W64"
    using weight_sum [OF assms(1,3), of "{i}" needed] assms(2,5) by simp
  moreover have "(2 :: nat) ^ level_shift i \<le> 2 ^ 30" by (rule level_size_less [OF assms(2)])
  moreover have "(2 ^ level_shift i - needed) div 2 ^ ash \<le> 2 ^ level_shift i"
    by (meson diff_le_self div_le_dividend order_trans)
  ultimately show ?thesis
    using card_level(1) [OF assms(1,2)] level_size(1) [OF assms(1,2)] assms(4,6)
    by (simp add: alignments_def weight_def)
qed

lemma count_alignments_ok:
  assumes "heap_wf h" "12 \<le> ash" "ash < 64" "0 < needed" "needed \<le> 2 ^ level_shift i" "i \<le> j" "j \<le> 7"
  shows "\<exists>m. j \<le> m \<and> m \<le> 7 \<and>
    count_alignments (map int [j..<7]) needed ash (\<Sum>k \<in> {i..<j}. weight h needed ash k) 7 h =
      Some (\<Sum>k \<in> {i..<m}. weight h needed ash k, int m) \<and>
    (m = 7 \<or> 4 \<le> (\<Sum>k \<in> {i..<m}. weight h needed ash k) \<and> j < m)"
  using assms(6,7)
proof (induction "7 - j" arbitrary: j)
  case 0
  then show ?case by (intro exI [of _ 7]) simp
next
  case (Suc n)
  let ?w = "weight h needed ash" let ?S = "\<lambda>m. \<Sum>k \<in> {i..<m}. ?w k"
  have j: "j < 7" "map int [j..<7] = int j # map int [Suc j..<7]"
    using Suc.hyps(2) by (simp_all add: upt_conv_Cons)
  have le: "needed \<le> 2 ^ level_shift j"
    using assms(5) level_shift_mono [OF Suc.prems(1) j(1)] by (meson order_trans one_le_numeral power_increasing)
  have S: "?S (Suc j) = ?S j + ?w j" using Suc.prems(1) by simp
  have "{i..<Suc j} \<subseteq> {..<7}" using j(1) by auto
  then have "?S (Suc j) < W64" by (rule weight_sum [OF assms(1,2) _ assms(4)])
  then have add: "add64 (?S j) (alignments needed ash (blocks h ! j)) = ?S (Suc j)"
    using alignments_eq [OF assms(1) j(1) assms(2-4) le] S by simp
  have at: "block_at (int j) h = Some (blocks h ! j)" using level_size(2) [OF assms(1) j(1)] .
  show ?case
  proof (cases "4 \<le> ?S (Suc j)")
    case True
    then have "count_alignments (map int [j..<7]) needed ash (?S j) 7 h = Some (?S (Suc j), int j + 1)"
      using at add unfolding j(2) by (simp del: sum.op_ivl_Suc)
    then show ?thesis using True j(1) by (intro exI [of _ "Suc j"]) (simp add: of_nat_Suc del: sum.op_ivl_Suc)
  next
    case False
    then have run: "count_alignments (map int [j..<7]) needed ash (?S j) 7 h =
        count_alignments (map int [Suc j..<7]) needed ash (?S (Suc j)) 7 h"
      using at add unfolding j(2) by (simp del: sum.op_ivl_Suc)
    have "n = 7 - Suc j" "i \<le> Suc j" "Suc j \<le> 7" using Suc.hyps(2) Suc.prems(1) j(1) by auto
    from Suc.hyps(1) [OF this] obtain m where "Suc j \<le> m" "m \<le> 7"
      "count_alignments (map int [Suc j..<7]) needed ash (?S (Suc j)) 7 h = Some (?S m, int m)"
      "m = 7 \<or> 4 \<le> ?S m \<and> Suc j < m" by blast
    then show ?thesis unfolding run by (intro exI [of _ m]) auto
  qed
qed

lemma choose_level_ok:
  assumes "heap_wf h" "12 \<le> ash" "ash < 64" "0 < needed" "needed \<le> 2 ^ level_shift i" "i \<le> j" "j \<le> m" "m \<le> 7"
    "rnd < (\<Sum>k \<in> {i..<m}. weight h needed ash k)" "(\<Sum>k \<in> {i..<j}. weight h needed ash k) \<le> rnd"
  shows "\<exists>k. i \<le> k \<and> k < m \<and> heap_levels h k \<noteq> {} \<and>
    choose_level (map int [j..<m]) needed ash rnd (\<Sum>k \<in> {i..<j}. weight h needed ash k) index h = Some (int k)"
  using assms(6,7,10)
proof (induction "m - j" arbitrary: j)
  case 0
  then show ?case using assms(9) by simp
next
  case (Suc n)
  let ?w = "weight h needed ash" let ?S = "\<lambda>m. \<Sum>k \<in> {i..<m}. ?w k"
  have j: "j < m" "j < 7" "map int [j..<m] = int j # map int [Suc j..<m]"
    using Suc.hyps(2) assms(8) by (simp_all add: upt_conv_Cons)
  have le: "needed \<le> 2 ^ level_shift j"
    using assms(5) level_shift_mono [OF Suc.prems(1) j(2)] by (meson order_trans one_le_numeral power_increasing)
  have S: "?S (Suc j) = ?S j + ?w j" using Suc.prems(1) by simp
  have "{i..<Suc j} \<subseteq> {..<7}" using j(2) by auto
  then have "?S (Suc j) < W64" by (rule weight_sum [OF assms(1,2) _ assms(4)])
  then have add: "add64 (?S j) (alignments needed ash (blocks h ! j)) = ?S (Suc j)"
    using alignments_eq [OF assms(1) j(2) assms(2-4) le] S by simp
  have at: "block_at (int j) h = Some (blocks h ! j)" using level_size(2) [OF assms(1) j(2)] .
  show ?case
  proof (cases "rnd < ?S (Suc j)")
    case True
    then have "?w j \<noteq> 0" using Suc.prems(3) S by simp
    then have "heap_levels h j \<noteq> {}" by (simp add: weight_0)
    moreover have "choose_level (map int [j..<m]) needed ash rnd (?S j) index h = Some (int j)"
      using True at add unfolding j(3) by (simp del: sum.op_ivl_Suc)
    ultimately show ?thesis using Suc.prems(1) j(1) by blast
  next
    case False
    then have "choose_level (map int [j..<m]) needed ash rnd (?S j) index h =
        choose_level (map int [Suc j..<m]) needed ash rnd (?S (Suc j)) index h"
      using at add unfolding j(3) by (simp del: sum.op_ivl_Suc)
    then show ?thesis
      using Suc.hyps(1) [of "Suc j"] Suc.hyps(2) Suc.prems(1) j(1) False by auto
  qed
qed

lemma ctz_pow:
  assumes "k < LENGTH('a)"
  shows "ctz ((2 :: 'a::len word) ^ k) = k"
proof -
  have "bit ((2 :: 'a word) ^ k) k" using assms by simp
  then have "(2 :: 'a word) ^ k \<noteq> 0" by (metis bit_0_eq bot_apply bot_bool_def)
  from bit_ctz [OF this] show ?thesis by simp
qed

text \<open>The level the allocation settles on has a block unless no level from \<open>i\<close> on has one.\<close>

lemma choice_ok:
  assumes "heap_wf h" "12 \<le> ash" "ash < 64" "0 < needed" "needed \<le> 2 ^ level_shift i" "i < 7"
  shows "\<exists>possible mb k g.
    count_alignments [int i..int (num_blocks h) - 1] needed ash 0 (int (num_blocks h)) h = Some (possible, mb) \<and>
    (if 0 < possible \<and> int i + 1 < mb then do {
       let (rnd, h) = random_below possible h;
       j \<leftarrow> choose_level [int i..mb - 1] needed ash rnd 0 (int i) h;
       Some (j, h) }
     else Some (int i, h)) = Some (int k, h\<lparr>heap_rng := g\<rparr>) \<and>
    i \<le> k \<and> k < 7 \<and> (heap_levels h k = {} \<longrightarrow> no_block h i)"
proof -
  let ?w = "weight h needed ash" let ?S = "\<lambda>m. \<Sum>k \<in> {i..<m}. ?w k"
  have n7: "num_blocks h = 7" using assms(1) by (simp add: heap_wf_def heap_shape_def)
  obtain m where m: "i \<le> m" "m \<le> 7" "m = 7 \<or> 4 \<le> ?S m \<and> i < m"
    "count_alignments (map int [i..<7]) needed ash 0 7 h = Some (?S m, int m)"
    using count_alignments_ok [OF assms(1-5) order_refl] assms(6) by auto
  have cnt: "count_alignments [int i..int (num_blocks h) - 1] needed ash 0 (int (num_blocks h)) h =
      Some (?S m, int m)"
    using m(4) upto_int [of i 7] n7 by simp
  have im: "i < m" using m(3) assms(6) by auto
  show ?thesis
  proof (cases "0 < ?S m \<and> Suc i < m")
    case False
    have "heap_levels h i \<noteq> {}" if nb: "\<not> no_block h i"
    proof (cases "Suc i < m")
      case True
      with False have "?w k = 0" if "i \<le> k" "k < m" for k using that by auto
      moreover have "m = 7" using m(3) False True by auto
      ultimately have "no_block h i" by (auto simp: no_block_def weight_0)
      with that show ?thesis by simp
    next
      case less: False
      then have mi: "m = Suc i" using im by simp
      show ?thesis
      proof (cases "4 \<le> ?S m")
        case True
        then have "?w i \<noteq> 0" using mi by auto
        then show ?thesis by (simp add: weight_0)
      next
        case False
        then have "i = 6" using m(3) mi by simp
        moreover obtain k where "i \<le> k" "k < 7" "heap_levels h k \<noteq> {}"
          using nb by (auto simp: no_block_def)
        moreover from calculation have "k = i" by simp
        ultimately show ?thesis by simp
      qed
    qed
    moreover have "\<not> (0 < ?S m \<and> int i + 1 < int m)" using False by auto
    ultimately show ?thesis
      using cnt assms(6)
      by (intro exI [of _ "?S m"] exI [of _ "int m"] exI [of _ i] exI [of _ "heap_rng h"]) auto
  next
    case True
    have "{i..<m} \<subseteq> {..<7}" using m(2) by auto
    then have W: "?S m < W64" by (rule weight_sum [OF assms(1,2) _ assms(4)])
    obtain rnd h1 where r: "random_below (?S m) h = (rnd, h1)" by fastforce
    then obtain g where g: "rnd < ?S m" "h1 = h\<lparr>heap_rng := g\<rparr>"
      using generate_random_below [OF conjunct1 [OF True] W] by blast
    have w1: "weight h1 = weight h" by (intro ext) (simp add: weight_def g(2))
    have "heap_wf h1" using assms(1) g(2) by simp
    from choose_level_ok [OF this assms(2-5) order_refl m(1,2), of rnd "int i"] g(1) obtain k where
      k: "i \<le> k" "k < m" "heap_levels h k \<noteq> {}"
      "choose_level (map int [i..<m]) needed ash rnd 0 (int i) h1 = Some (int k)"
      unfolding w1 by (auto simp: g(2))
    have "int i + 1 < int m" using True by simp
    then show ?thesis
      using cnt True r k m(2) g(2) upto_int [of i m]
      by (intro exI [of _ "?S m"] exI [of _ "int m"] exI [of _ k] exI [of _ g]) (simp add: Let_def)
  qed
qed

lemma optional_free:
  assumes "heap_wf h" "4096 dvd a" "4096 dvd n" "heap_address h \<le> a" "a + n \<le> heap_end h"
    "{a..<a + n} \<inter> free_bytes h = {}"
  shows "\<exists>h'. (if n \<noteq> 0 then heap_free a (n div 4096) h else Some h) = Some h' \<and> frees h {a..<a + n} h'"
proof -
  have "n div 4096 * 4096 = n" using assms(3) by simp
  then show ?thesis
    using heap_free_ok [OF assms(1,2,4), of "n div 4096"] assms(5,6) frees_refl [OF assms(1)] by auto
qed

lemma random_alloc_ok:
  assumes "heap_wf h" "i < 7" "0 < np" "np * 4096 \<le> 2 ^ level_shift i" "2 ^ m * 4096 \<le> (2 :: nat) ^ level_shift i"
  shows "\<exists>r h'. allocate_by_random (int i) np (2 ^ m) h = Some (r, h') \<and>
    (if no_block h i then r = 0 \<and> takes h {} h'
     else r \<noteq> 0 \<and> 2 ^ m * 4096 dvd r \<and> takes h {r..<r + np * 4096} h')"
proof -
  let ?n = "np * 4096" and ?ash = "m + 12"
  have pow: "2 ^ m * 4096 = (2 :: nat) ^ ?ash" by (simp add: power_add)
  have "?ash \<le> level_shift i" using assms(5) unfolding pow by (rule power_le_imp_le_exp [rotated]) simp
  then have ash: "?ash \<le> level_shift i" "12 \<le> ?ash" "?ash < 64"
    using level_shift_bounds [OF assms(2)] by auto
  have b30: "(2 :: nat) ^ level_shift i \<le> 2 ^ 30" by (rule level_size_less [OF assms(2)])
  have needed: "mul64 np 4096 = ?n" using assms(4) b30 by simp
  have al: "mul64 (2 ^ m) 4096 = 2 ^ ?ash" using assms(5) b30 unfolding pow [symmetric] by simp
  have "(word_of_nat (2 ^ ?ash) :: u64) = 2 ^ ?ash" by simp
  then have ctz: "ctz (word_of_nat (2 ^ ?ash) :: u64) = ?ash" using ctz_pow [of ?ash, where 'a = 64] ash(3) by simp
  have "0 < ?n" using assms(3) by simp
  from choice_ok [OF assms(1) ash(2,3) this assms(4,2)] obtain possible mb k g where ch:
    "count_alignments [int i..int (num_blocks h) - 1] ?n ?ash 0 (int (num_blocks h)) h = Some (possible, mb)"
    "(if 0 < possible \<and> int i + 1 < mb then do {
       let (rnd, h) = random_below possible h;
       j \<leftarrow> choose_level [int i..mb - 1] ?n ?ash rnd 0 (int i) h;
       Some (j, h) }
     else Some (int i, h)) = Some (int k, h\<lparr>heap_rng := g\<rparr>)"
    "i \<le> k" "k < 7" "heap_levels h k = {} \<longrightarrow> no_block h i"
    by blast
  note ch2 = ch(2) [unfolded Let_def]
  let ?h0 = "h\<lparr>heap_rng := g\<rparr>" and ?t = "2 ^ level_shift k :: nat"
  have wf0: "heap_wf ?h0" using assms(1) by simp
  have same0: "same_heap h ?h0" by (simp add: same_heap_refl)
  obtain r b where p: "pop_block True (blocks ?h0 ! k) = Some (r, b)" "block_size b = ?t"
    "heap_wf (put_block (int k) b ?h0)" "same_heap ?h0 (put_block (int k) b ?h0)"
    "if heap_levels ?h0 k = {} then r = 0 \<and> heap_levels (put_block (int k) b ?h0) = heap_levels ?h0
     else r \<noteq> 0 \<and> r \<in> heap_levels ?h0 k \<and> (\<not> True \<longrightarrow> r = Min (heap_levels ?h0 k)) \<and>
       free_bytes (put_block (int k) b ?h0) = free_bytes ?h0 - {r..<r + ?t}"
    using pop_level [OF wf0 ch(4), of True] unfolding Let_def by blast
  let ?h1 = "put_block (int k) b ?h0"
  have at: "block_at (int k) ?h0 = Some (blocks ?h0 ! k)" using level_size(2) [OF wf0 ch(4)] .
  have same1: "same_heap h ?h1" using p(4) by simp
  show ?thesis
  proof (cases "heap_levels h k = {}")
    case True
    then have r: "r = 0" "heap_levels ?h1 = heap_levels h" using p(5) by auto
    have "allocate_by_random (int i) np (2 ^ m) h = Some (0, ?h1)"
      unfolding allocate_by_random_def needed al ctz Let_def using ch(1) ch2 at p(1) r(1)
      by (simp split del: if_split)
    moreover have "free_bytes ?h1 = free_bytes h" using r(2) by (simp add: free_bytes_def)
    ultimately show ?thesis using True ch(5) p(3) same1 by (simp add: takes_def)
  next
    case False
    then have r: "r \<noteq> 0" "r \<in> heap_levels h k" "free_bytes ?h1 = free_bytes h - {r..<r + ?t}"
      using p(5) by auto
    note al' = block_aligned [OF assms(1) ch(4) r(2)]
    have sub: "{r..<r + ?t} \<subseteq> free_bytes h" by (rule levels_in_free [OF ch(4) r(2)])
    have nb: "\<not> no_block h i" using False ch(3,4) by (auto simp: no_block_def)
    have addr: "heap_address ?h1 = heap_address h" "heap_end ?h1 = heap_end h"
      using same1 same_heap_end by (auto simp: same_heap_def)
    have st: "(2 :: nat) ^ level_shift i \<le> ?t" using level_shift_mono [OF ch(3,4)] by simp
    have nt: "?n \<le> ?t" using assms(4) st by linarith
    have W: "heap_end h < W64" "?t < W64" using heap_end_bound [OF assms(1)] al'(3) by linarith+
    define L where "L = ?t - ?n"
    have L: "sub64 ?t ?n = L" unfolding L_def by (rule sub64_id [OF nt W(2)])
    have tn: "?t = ?n + L" using nt by (simp add: L_def)
    have dt: "4096 dvd ?t" using level_dvd [of 0 k] ch(4) by simp
    then have dL: "4096 dvd L" unfolding L_def by (simp add: dvd_diff_nat)
    have dr: "2 ^ ?ash dvd r" using al'(1) ash(1) level_shift_mono [OF ch(3,4)]
      by (meson dvd_trans le_imp_power_dvd order_trans)
    then have dr4: "4096 dvd r" using dvd_trans [of 4096 "2 ^ ?ash" r] by (simp add: power_add)
    show ?thesis
    proof (cases "L = 0")
      case True
      then have "allocate_by_random (int i) np (2 ^ m) h = Some (r, ?h1)"
        unfolding allocate_by_random_def needed al ctz Let_def using ch(1) ch2 at p(1,2) r(1) L
        by (simp split del: if_split)
      then show ?thesis using nb r dr p(3) same1 sub True tn pow by (simp add: takes_def)
    next
      case L0: False
      obtain q h2 where q: "random_below (add64 1 (L div 2 ^ ?ash)) ?h1 = (q, h2)" by fastforce
      have "L div 2 ^ ?ash \<le> L" by (rule div_le_dividend)
      then have lt: "1 + L div 2 ^ ?ash < W64" using tn W(2) \<open>0 < ?n\<close> by linarith
      note add = add64_id [OF lt] lt
      obtain g2 where q2: "q < 1 + L div 2 ^ ?ash" "h2 = ?h1\<lparr>heap_rng := g2\<rparr>"
        using generate_random_below [of "1 + L div 2 ^ ?ash" ?h1 q h2] q add by auto
      define ro where "ro = q * 2 ^ ?ash"
      have "q \<le> L div 2 ^ ?ash" using q2(1) by simp
      then have roL: "ro \<le> L" unfolding ro_def by (meson div_times_less_eq_dividend mult_le_mono1 order_trans)
      have ro: "shl64 q ?ash = ro" using ash(3) roL tn W(2) by (simp add: ro_def)
      have dro: "2 ^ ?ash dvd ro" "4096 dvd ro" by (simp_all add: ro_def power_add)
      have wf2: "heap_wf h2" "heap_address h2 = heap_address h" "heap_end h2 = heap_end h"
        "free_bytes h2 = free_bytes h - {r..<r + ?t}" "same_heap h h2"
        using p(3) addr r(3) same1 by (simp_all add: q2(2))
      have "{r..<r + ro} \<inter> free_bytes h2 = {}" unfolding wf2(4) using roL tn by (auto simp: disjoint_iff)
      then obtain h3 where h3: "(if ro \<noteq> 0 then heap_free r (ro div 4096) h2 else Some h2) = Some h3"
        "frees h2 {r..<r + ro} h3"
        using optional_free [OF wf2(1) dr4 dro(2), of] al'(2,3) roL tn wf2(2,3) by auto
      note f3 = freesD [OF h3(2)]
      let ?a = "r + ro"
      have e: "?a + ?n + (L - ro) = r + ?t" using roL tn by simp
      have "{?a + ?n..<r + ?t} \<inter> free_bytes h3 = {}" unfolding f3(4) wf2(4) using assms(3)
        by (auto simp: disjoint_iff)
      moreover have "4096 dvd ?a + ?n" "4096 dvd L - ro" using dr4 dro dL by (simp_all add: dvd_diff_nat)
      ultimately obtain h4 where h4:
        "(if L - ro \<noteq> 0 then heap_free (?a + ?n) ((L - ro) div 4096) h3 else Some h3) = Some h4"
        "frees h3 {?a + ?n..<r + ?t} h4"
        using optional_free [OF f3(1), of "?a + ?n" "L - ro"] al'(2,3) f3(2,3) wf2(2,3) unfolding e by auto
      note f4 = freesD [OF h4(2)]
      have ops: "add64 r ro = ?a" "add64 ?a ?n = ?a + ?n" "sub64 L ro = L - ro"
        by (rule add64_id, use al'(3) roL tn W in linarith) (rule add64_id, use al'(3) roL tn W in linarith,
            rule sub64_id, use roL tn W in linarith, use roL tn W in linarith)
      have shr: "shr64 L ?ash = L div 2 ^ ?ash" using ash(3) by simp
      have h4': "(if shl64 q ?ash \<noteq> sub64 (block_size b) ?n
          then heap_free (add64 (add64 r (shl64 q ?ash)) ?n)
                 (sub64 (sub64 (block_size b) ?n) (shl64 q ?ash) div 4096) h3
          else Some h3) = Some h4"
        using h4(1) ops roL unfolding ro L p(2) by (auto split: if_splits)
      have h3': "(if shl64 q ?ash \<noteq> 0 then heap_free r (shl64 q ?ash div 4096) h2 else Some h2) = Some h3"
        using h3(1) unfolding ro .
      have "allocate_by_random (int i) np (2 ^ m) h = Some (?a, h4)"
        unfolding allocate_by_random_def needed al ctz Let_def
        using ch(1) ch2 at p(1,2) r(1) L L0 q h3' h4' ops(1) ro shr
        by (simp split del: if_split)
      moreover have "free_bytes h4 = free_bytes h - {?a..<?a + ?n}"
        unfolding f4(4) f3(4) wf2(4) using roL tn by (intro interval_keep [OF sub]) auto
      moreover have "{?a..<?a + ?n} \<subseteq> free_bytes h" using sub roL tn by (auto simp: subset_iff)
      moreover have "same_heap h h4"
        using wf2(5) h3(2) h4(2) same_heap_trans unfolding frees_def by blast
      moreover have "2 ^ m * 4096 dvd ?a" unfolding pow using dr dro(1) by simp
      ultimately show ?thesis using nb r(1) f4(1) by (auto simp: takes_def)
    qed
  qed
qed

section \<open>Initialization\<close>

definition round_down :: "nat \<Rightarrow> nat \<Rightarrow> nat" where
  "round_down t a = a - a mod 2 ^ t"

definition round_up :: "nat \<Rightarrow> nat \<Rightarrow> nat" where
  "round_up t a = (a + 2 ^ t - 1) div 2 ^ t * 2 ^ t"

lemma round_down: "2 ^ t dvd round_down t a" "round_down t a \<le> a" "a < round_down t a + 2 ^ t"
proof -
  show "2 ^ t dvd round_down t a" "round_down t a \<le> a"
    by (simp_all add: round_down_def minus_mod_eq_mult_div)
  have "a mod 2 ^ t < 2 ^ t" by simp
  then show "a < round_down t a + 2 ^ t" unfolding round_down_def by linarith
qed

lemma round_up: "2 ^ t dvd round_up t a" "a \<le> round_up t a" "round_up t a < a + 2 ^ t"
proof -
  show "2 ^ t dvd round_up t a" by (simp add: round_up_def)
  have "a + 2 ^ t - 1 < 2 ^ t + round_up t a"
    unfolding round_up_def by (rule dividend_less_div_times) simp
  then show "a \<le> round_up t a" by linarith
  have "round_up t a \<le> a + 2 ^ t - 1" unfolding round_up_def by (rule div_times_less_eq_dividend)
  moreover have "0 < (2 :: nat) ^ t" by simp
  ultimately show "round_up t a < a + 2 ^ t" by linarith
qed

lemma multiple_less: "m dvd x \<Longrightarrow> m dvd y \<Longrightarrow> x < y + m \<Longrightarrow> x \<le> y" for x y m :: nat
proof (rule ccontr)
  assume a: "m dvd x" "m dvd y" "x < y + m" "\<not> x \<le> y"
  then have "m \<le> x - y" by (intro dvd_imp_le) (auto simp: dvd_diff_nat)
  with a show False by linarith
qed

lemma round_mono:
  assumes "t \<le> t'"
  shows "round_down t' a \<le> round_down t a" "round_up t a \<le> round_up t' a"
proof -
  have d: "(2 :: nat) ^ t dvd 2 ^ t'" using assms by (rule le_imp_power_dvd)
  have "2 ^ t dvd round_down t' a" "2 ^ t dvd round_up t' a"
    using d round_down(1) [of t' a] round_up(1) [of t' a] by (meson dvd_trans)+
  moreover have "round_down t' a < round_down t a + 2 ^ t" "round_up t a < round_up t' a + 2 ^ t"
    using round_down(2) [of t' a] round_down(3) [of a t] round_up(2) [of a t'] round_up(3) [of t a]
    by linarith+
  ultimately show "round_down t' a \<le> round_down t a" "round_up t a \<le> round_up t' a"
    using round_down(1) [of t a] round_up(1) [of t a] multiple_less by blast+
qed

text \<open>One level, with the alignment \<open>t\<close> of its range.\<close>

lemma block_initialize_ok:
  assumes "0 < sz" "2 ^ 30 \<le> addr" "addr + sz + 2 ^ 31 < W64" "t \<le> 30" "s \<le> t" "12 \<le> s"
    "nbs = 0 \<and> t = s \<or> nbs = t \<and> s < t" "sz + 2 * 2 ^ t < 64 ^ 4 * 2 ^ s"
  shows "\<exists>b'. block_initialize addr sz s nbs b = Some b' \<and> block_wf b' \<and> starts b' = {} \<and>
    block_shift b' = s \<and> next_block_shift b' = nbs \<and> block_address b' = round_down t addr \<and>
    block_end b' = round_up t (addr + sz)"
proof -
  let ?lo = "round_down t addr" and ?hi = "round_up t (addr + sz)" and ?s = "2 ^ s :: nat"
  have t30: "(2 :: nat) ^ t \<le> 2 ^ 30" using assms(4) by (intro power_increasing) auto
  have al: "(if nbs \<noteq> 0 then shl64 1 nbs else shl64 1 s) = 2 ^ t"
    using assms(4-7) shl64_1 [of t] shl64_1 [of s] by auto
  have lo: "align_down addr (2 ^ t) = ?lo" using assms(3) by (simp add: round_down_def)
  have "add64 addr sz = addr + sz" using assms(3) by simp
  moreover have "align_up (addr + sz) (2 ^ t) = ?hi"
    unfolding round_up_def using assms(3) t30 by (intro align_up_eq) auto
  ultimately have hi: "align_up (add64 addr sz) (2 ^ t) = ?hi" by simp
  have "(2 :: nat) ^ 30 \<le> 2 ^ 31" by simp
  then have hiW: "?hi < W64" using round_up(3) [of t "addr + sz"] assms(3) t30 by linarith
  have lohi: "?lo < ?hi" using round_down(2) [of t addr] round_up(2) [of "addr + sz" t] assms(1) by linarith
  have sub: "sub64 ?hi ?lo = ?hi - ?lo" using lohi hiW by (intro sub64_id) auto
  have s1: "shl64 1 s = ?s" using assms(4,5) shl64_1 [of s] by simp
  have dts: "?s dvd 2 ^ t" using assms(5) by (rule le_imp_power_dvd)
  have ds: "?s dvd ?lo" "?s dvd ?hi"
    by (rule dvd_trans [OF dts round_down(1)], rule dvd_trans [OF dts round_up(1)])
  define eo where "eo = (?hi - ?lo) div ?s"
  have eo: "eo * ?s = ?hi - ?lo" using ds by (simp add: eo_def dvd_diff_nat)
  have eo0: "0 < eo" using eo lohi by (cases eo) auto
  have "?hi < sz + 2 * 2 ^ t + ?lo"
    using round_up(3) [of t "addr + sz"] round_down(3) [of addr t] by linarith
  then have "?hi - ?lo < sz + 2 * 2 ^ t" using lohi by (simp add: less_diff_conv2)
  then have "eo * ?s < 64 ^ 4 * ?s" using eo assms(8) by linarith
  then have eo4: "eo < 64 ^ 4" by (subst (asm) mult_less_cancel2) simp
  obtain bm where bm: "pb_initialize eo (block_bitmap b) = Some bm" "pb_wf bm" "free_bits bm = {}"
    "capacity bm = 64 * ((eo + 63) div 64)"
    using initialize_set [OF eo0 eo4] by blast
  have cap: "eo \<le> capacity bm"
  proof -
    have "eo + 63 < 64 + (eo + 63) div 64 * 64" by (rule dividend_less_div_times) simp
    then show ?thesis unfolding bm(4) by linarith
  qed
  let ?b = "b\<lparr>block_shift := s, next_block_shift := nbs, block_address := ?lo, end_offset := eo,
    block_bitmap := bm\<rparr>"
  have "block_initialize addr sz s nbs b = Some ?b"
    unfolding block_initialize_def al unfolding Let_def lo hi sub s1 eo_def [symmetric] using bm(1) by simp
  moreover have "0 < ?lo"
  proof -
    have "2 ^ t dvd (2 :: nat) ^ 30" using assms(4) by (rule le_imp_power_dvd)
    then have "2 ^ 30 \<le> ?lo"
      using round_down(1) [of t addr] round_down(3) [of addr t] assms(2)
      by (intro multiple_less [of "2 ^ t"]) linarith+
    then show ?thesis by simp
  qed
  moreover have "block_end ?b = ?hi" using eo lohi by (simp add: block_end_def)
  moreover have "top_shift ?b = t" using assms(7) by (auto simp: top_shift_def)
  moreover have "2 ^ t dvd eo * ?s" unfolding eo using round_up(1) round_down(1) by (intro dvd_diff_nat)
  ultimately show ?thesis
    using bm cap hiW assms(4-7) round_down(1) [of t addr]
    by (intro exI [of _ ?b]) (auto simp: block_wf_def starts_def)
qed

definition top_level :: "nat \<Rightarrow> nat" where
  "top_level k = (if k < 6 then level_shift (Suc k) else level_shift k)"

definition fresh_block :: "nat \<Rightarrow> nat \<Rightarrow> nat \<Rightarrow> Block \<Rightarrow> bool" where
  "fresh_block addr sz k b \<longleftrightarrow> block_wf b \<and> starts b = {} \<and> block_shift b = level_shift k \<and>
     next_block_shift b = (if k < 6 then level_shift (Suc k) else 0) \<and>
     block_address b = round_down (top_level k) addr \<and> block_end b = round_up (top_level k) (addr + sz)"

lemma init_blocks_ok:
  assumes "0 < sz" "2 ^ 30 \<le> addr" "addr + sz + 2 ^ 31 < W64" "sz < 2 ^ 35" "i \<le> 7" "length bs = 7"
  shows "\<exists>bs'. init_blocks i (drop i MEMORY_BLOCK_PAGE_SHIFTS) bs addr sz = Some bs' \<and> length bs' = 7 \<and>
    (\<forall>k < i. bs' ! k = bs ! k) \<and> (\<forall>k. i \<le> k \<and> k < 7 \<longrightarrow> fresh_block addr sz k (bs' ! k))"
  using assms(5,6)
proof (induction "7 - i" arbitrary: i bs)
  case 0
  then show ?case by (auto simp: MEMORY_BLOCK_PAGE_SHIFTS_def)
next
  case (Suc n)
  have i: "i < 7" using Suc.hyps(2) by simp
  let ?nbs = "if i < 6 then level_shift (Suc i) else 0"
  have len: "length MEMORY_BLOCK_PAGE_SHIFTS = 7" by (simp add: MEMORY_BLOCK_PAGE_SHIFTS_def)
  have d: "drop i MEMORY_BLOCK_PAGE_SHIFTS = level_shift i # drop (Suc i) MEMORY_BLOCK_PAGE_SHIFTS"
    using i len by (simp add: Cons_nth_drop_Suc)
  have nx: "(case drop (Suc i) MEMORY_BLOCK_PAGE_SHIFTS of [] \<Rightarrow> 0 | s' # _ \<Rightarrow> s') = ?nbs"
  proof (cases "i < 6")
    case True
    then show ?thesis using len Cons_nth_drop_Suc [of "Suc i" MEMORY_BLOCK_PAGE_SHIFTS]
      by (auto split: list.splits)
  qed (use i len in simp)
  have "sz + 2 * 2 ^ top_level i < 64 ^ 4 * 2 ^ level_shift i"
    using seven_cases [OF i] assms(4)
    by (elim disjE) (simp_all add: top_level_def MEMORY_BLOCK_PAGE_SHIFTS_def)
  moreover have "top_level i \<le> 30" "level_shift i \<le> top_level i" "12 \<le> level_shift i"
    "?nbs = 0 \<and> top_level i = level_shift i \<or> ?nbs = top_level i \<and> level_shift i < top_level i"
    using seven_cases [OF i] by (elim disjE; simp add: top_level_def MEMORY_BLOCK_PAGE_SHIFTS_def)+
  ultimately obtain b where b: "block_initialize addr sz (level_shift i) ?nbs (bs ! i) = Some b"
    "fresh_block addr sz i b"
    using block_initialize_ok [OF assms(1-3), of "top_level i" "level_shift i" ?nbs "bs ! i"]
    by (auto simp: fresh_block_def)
  have "n = 7 - Suc i" "Suc i \<le> 7" "length (bs[i := b]) = 7" using Suc.hyps(2) Suc.prems by auto
  from Suc.hyps(1) [OF this] obtain bs' where bs':
    "init_blocks (Suc i) (drop (Suc i) MEMORY_BLOCK_PAGE_SHIFTS) (bs[i := b]) addr sz = Some bs'"
    "length bs' = 7" "\<forall>k < Suc i. bs' ! k = bs[i := b] ! k"
    "\<forall>k. Suc i \<le> k \<and> k < 7 \<longrightarrow> fresh_block addr sz k (bs' ! k)" by blast
  have "init_blocks i (drop i MEMORY_BLOCK_PAGE_SHIFTS) bs addr sz = Some bs'"
    unfolding d using i Suc.prems(2) nx b(1) bs'(1) by simp
  moreover have "fresh_block addr sz k (bs' ! k)" if "i \<le> k" "k < 7" for k
    using that bs'(3,4) b(2) i Suc.prems(2) by (cases "k = i") auto
  moreover have "bs' ! k = bs ! k" if "k < i" for k using that bs'(3) by simp
  ultimately show ?case using bs'(2) by blast
qed

lemma heap_initialize_ok:
  assumes "0 < sz" "2 ^ 30 \<le> addr" "addr + sz + 2 ^ 31 < W64" "sz < 2 ^ 35" "4096 dvd addr" "4096 dvd sz"
  shows "\<exists>h. heap_initialize addr sz heap_new = Some h \<and> heap_wf h \<and> free_bytes h = {} \<and>
    heap_address h = addr \<and> heap_size h = sz"
proof -
  have "length (blocks heap_new) = 7" by (simp add: heap_new_def)
  from init_blocks_ok [OF assms(1-4) _ this, of 0] obtain bs where
    bs: "init_blocks 0 MEMORY_BLOCK_PAGE_SHIFTS (blocks heap_new) addr sz = Some bs" "length bs = 7"
    "\<forall>k < 7. fresh_block addr sz k (bs ! k)" by auto
  let ?h = "heap_new\<lparr>heap_address := addr, heap_size := sz, num_blocks := 7, blocks := bs\<rparr>"
  have "heap_initialize addr sz heap_new = Some ?h"
    using bs(1) by (simp add: heap_initialize_def MEMORY_BLOCK_PAGE_SHIFTS_def)
  moreover have lev: "heap_levels ?h k = {}" for k using bs(3) by (simp add: heap_levels_def fresh_block_def)
  then have free: "free_bytes ?h = {}" by (simp add: free_bytes_def covers_def)
  moreover have "heap_shape ?h"
  proof -
    have mono: "top_level k \<le> top_level (Suc k)" if "k < 6" for k
      using that seven_cases [of k] by (auto simp: top_level_def MEMORY_BLOCK_PAGE_SHIFTS_def)
    have "block_address (bs ! k) \<le> addr \<and> addr + sz \<le> block_end (bs ! k)" if "k < 7" for k
      using bs(3) that round_down(2) round_up(2) by (simp add: fresh_block_def)
    moreover have "block_address (bs ! Suc k) \<le> block_address (bs ! k) \<and>
        block_end (bs ! k) \<le> block_end (bs ! Suc k)" if "k < 6" for k
      using bs(3) that round_mono [OF mono [OF that]] by (simp add: fresh_block_def)
    moreover have "addr + sz + 2 ^ 30 < W64" using assms(3) by simp
    ultimately show ?thesis
      using bs(2,3) assms(5,6) by (auto simp: heap_shape_def heap_end_def fresh_block_def)
  qed
  moreover have "merged 7 level_shift (heap_levels ?h)"
    unfolding merged_def lev
  proof (intro allI impI)
    fix i a :: nat assume i: "Suc i < 7"
    have "a - a mod 2 ^ level_shift (Suc i) \<in> group level_shift i a"
      using level_dvd [of i "Suc i"] i buddy.start_aligned [of i a] buddy.start_div [of a i]
      by (simp add: group_def)
    then show "\<not> group level_shift i a \<subseteq> {}" by blast
  qed
  moreover have "blocks_ok 7 level_shift (heap_levels ?h)" unfolding blocks_ok_def lev by simp
  ultimately show ?thesis by (auto simp: heap_wf_def)
qed

section \<open>The operations of a client\<close>

definition some_range :: "KPageHeap \<Rightarrow> nat \<Rightarrow> bool" where
  "some_range h i \<longleftrightarrow> (\<exists>a. 2 ^ level_shift i dvd a \<and> {a..<a + 2 ^ level_shift i} \<subseteq> free_bytes h)"

lemma some_range_iff: "heap_wf h \<Longrightarrow> i < 7 \<Longrightarrow> some_range h i \<longleftrightarrow> \<not> no_block h i"
  unfolding some_range_def by (rule some_level_iff)

lemma block_alloc_ok:
  assumes "heap_wf h" "i < 7"
  shows "\<exists>r h'. allocate_block (int i) random h = Some (r, h') \<and>
    (if some_range h i then r \<noteq> 0 \<and> 2 ^ level_shift i dvd r \<and> takes h {r..<r + 2 ^ level_shift i} h'
     else r = 0 \<and> takes h {} h')"
proof (cases random)
  case False
  then show ?thesis
    using linear_alloc_ok [OF assms] some_range_iff [OF assms]
    by (auto simp: allocate_block_def split: if_splits)
next
  case True
  define m where "m = level_shift i - 12"
  have s: "(2 :: nat) ^ level_shift i = 2 ^ m * 4096"
  proof -
    have "level_shift i = m + 12" using level_shift_bounds [OF assms(2)] by (simp add: m_def)
    then show ?thesis by (simp add: power_add)
  qed
  have "block_num_pages (blocks h ! i) = 2 ^ m"
    using level_size(1) [OF assms] by (simp add: block_num_pages_def s)
  then have "allocate_block (int i) random h = allocate_by_random (int i) (2 ^ m) (2 ^ m) h"
    using True level_size(2) [OF assms] by (simp add: allocate_block_def)
  then show ?thesis
    using random_alloc_ok [OF assms, of "2 ^ m" m] some_range_iff [OF assms] unfolding s
    by (auto split: if_splits)
qed

text \<open>The index of the smallest block size that holds the pages and the alignment.\<close>

lemma first_index_ok:
  assumes "\<exists>j < length ss. t \<le> shl64 1 (ss ! j) div 4096"
  shows "\<exists>j < length ss. first_index i ss t = int (i + j) \<and> t \<le> shl64 1 (ss ! j) div 4096 \<and>
    (\<forall>k < j. \<not> t \<le> shl64 1 (ss ! k) div 4096)"
  using assms
proof (induction ss arbitrary: i)
  case (Cons s ss)
  show ?case
  proof (cases "t \<le> shl64 1 s div 4096")
    case True
    then show ?thesis by (intro exI [of _ 0]) simp
  next
    case False
    obtain j0 where "j0 < length (s # ss)" "t \<le> shl64 1 ((s # ss) ! j0) div 4096" using Cons.prems by blast
    with False have "\<exists>j < length ss. t \<le> shl64 1 (ss ! j) div 4096" by (cases j0) auto
    from Cons.IH [OF this, of "Suc i"] obtain j where j: "j < length ss"
      "first_index (Suc i) ss t = int (Suc i + j)" "t \<le> shl64 1 (ss ! j) div 4096"
      "\<forall>k < j. \<not> t \<le> shl64 1 (ss ! k) div 4096" by blast
    have "\<not> t \<le> shl64 1 ((s # ss) ! k) div 4096" if "k < Suc j" for k
      using that j(4) False by (cases k) auto
    then show ?thesis using j False by (intro exI [of _ "Suc j"]) auto
  qed
qed simp

lemma level_pages: "i < 7 \<Longrightarrow> t \<le> shl64 1 (level_shift i) div 4096 \<longleftrightarrow> t * 4096 \<le> 2 ^ level_shift i"
  using level_shift_bounds [of i] shl64_1 [of "level_shift i"]
  by (simp add: less_eq_div_iff_mult_less_eq)

lemma aligned_index:
  assumes "max np ap \<le> 2 ^ 18"
  shows "\<exists>i < 7. get_aligned_block_index np ap = int i \<and> max np ap * 4096 \<le> 2 ^ level_shift i \<and>
    (\<forall>j < i. 2 ^ level_shift j < max np ap * 4096)"
proof -
  define t where "t = max np ap"
  have len: "length MEMORY_BLOCK_PAGE_SHIFTS = 7" by (simp add: MEMORY_BLOCK_PAGE_SHIFTS_def)
  have "level_shift 6 = 30" by (simp add: MEMORY_BLOCK_PAGE_SHIFTS_def)
  then have "t \<le> shl64 1 (level_shift 6) div 4096" using assms unfolding t_def [symmetric] by (simp add: level_pages)
  then have "\<exists>j < length MEMORY_BLOCK_PAGE_SHIFTS. t \<le> shl64 1 (level_shift j) div 4096"
    unfolding len by (intro exI [of _ 6]) simp
  from first_index_ok [OF this, of 0] obtain j where j: "j < 7"
    "first_index 0 MEMORY_BLOCK_PAGE_SHIFTS t = int j" "t \<le> shl64 1 (level_shift j) div 4096"
    "\<forall>k < j. \<not> t \<le> shl64 1 (level_shift k) div 4096"
    unfolding len by auto
  have "\<forall>k < j. 2 ^ level_shift k < t * 4096"
  proof (intro allI impI)
    fix k assume "k < j"
    then have "\<not> t * 4096 \<le> 2 ^ level_shift k" using j(1,4) level_pages [of k t] by simp
    then show "2 ^ level_shift k < t * 4096" by simp
  qed
  then show ?thesis
    using j level_pages [OF j(1), of t] unfolding get_aligned_block_index_def t_def [symmetric] by blast
qed

text \<open>
  The states of a heap whose client returns only pages it got: \<open>own\<close> is what it holds.
\<close>

inductive heap_reach :: "nat \<Rightarrow> nat \<Rightarrow> KPageHeap \<Rightarrow> nat set \<Rightarrow> bool" for addr sz where
  heap_init: "heap_initialize addr sz heap_new = Some h \<Longrightarrow> heap_free addr (sz div 4096) h = Some h' \<Longrightarrow>
    heap_reach addr sz h' {}"
| heap_block: "heap_reach addr sz h own \<Longrightarrow> i < 7 \<Longrightarrow> allocate_block (int i) random h = Some (r, h') \<Longrightarrow>
    heap_reach addr sz h' (if r = 0 then own else own \<union> {r..<r + 2 ^ level_shift i})"
| heap_aligned: "heap_reach addr sz h own \<Longrightarrow> 0 < np \<Longrightarrow> max np (2 ^ m) \<le> 2 ^ 18 \<Longrightarrow>
    allocate_aligned (get_aligned_block_index np (2 ^ m)) np (2 ^ m) h = Some (r, h') \<Longrightarrow>
    heap_reach addr sz h' (if r = 0 then own else own \<union> {r..<r + np * 4096})"
| heap_release: "heap_reach addr sz h own \<Longrightarrow> 4096 dvd a \<Longrightarrow> 0 < n \<Longrightarrow> {a..<a + n * 4096} \<subseteq> own \<Longrightarrow>
    heap_free a n h = Some h' \<Longrightarrow> heap_reach addr sz h' (own - {a..<a + n * 4096})"

lemma aligned_alloc_ok:
  assumes "heap_wf h" "0 < np" "max np (2 ^ m) \<le> 2 ^ 18"
  shows "\<exists>r h'. allocate_aligned (get_aligned_block_index np (2 ^ m)) np (2 ^ m) h = Some (r, h') \<and>
    (if \<exists>i < 7. max np (2 ^ m) * 4096 \<le> 2 ^ level_shift i \<and> some_range h i
     then r \<noteq> 0 \<and> 2 ^ m * 4096 dvd r \<and> takes h {r..<r + np * 4096} h'
     else r = 0 \<and> takes h {} h')"
proof -
  obtain i where i: "i < 7" "get_aligned_block_index np (2 ^ m) = int i"
    "max np (2 ^ m) * 4096 \<le> 2 ^ level_shift i" "\<forall>j < i. 2 ^ level_shift j < max np (2 ^ m) * 4096"
    using aligned_index [OF assms(3)] by blast
  have le: "np * 4096 \<le> 2 ^ level_shift i" "2 ^ m * 4096 \<le> (2 :: nat) ^ level_shift i" using i(3) by auto
  have "(\<exists>j < 7. max np (2 ^ m) * 4096 \<le> 2 ^ level_shift j \<and> some_range h j) \<longleftrightarrow> \<not> no_block h i"
  proof
    assume "\<exists>j < 7. max np (2 ^ m) * 4096 \<le> 2 ^ level_shift j \<and> some_range h j"
    then obtain j where j: "j < 7" "max np (2 ^ m) * 4096 \<le> 2 ^ level_shift j" "some_range h j" by blast
    then have "i \<le> j" using i(4) by (meson leD not_le)
    then show "\<not> no_block h i"
      using some_range_iff [OF assms(1) j(1)] j(3) by (auto simp: no_block_def)
  next
    assume "\<not> no_block h i"
    then show "\<exists>j < 7. max np (2 ^ m) * 4096 \<le> 2 ^ level_shift j \<and> some_range h j"
      using some_range_iff [OF assms(1) i(1)] i(1,3) by blast
  qed
  then show ?thesis
    using random_alloc_ok [OF assms(1) i(1) assms(2) le] unfolding allocate_aligned_def i(2)
    by (auto split: if_splits)
qed

lemma return_part:
  "F \<union> S = I \<Longrightarrow> F \<inter> S = {} \<Longrightarrow> R \<subseteq> S \<Longrightarrow> (F \<union> R) \<union> (S - R) = I \<and> (F \<union> R) \<inter> (S - R) = {}"
  by blast

section \<open>Properties\<close>

text \<open>
  C11: Freeing is exact. On a well-formed heap, \<open>free\<close> of a page range inside the heap that does
  not overlap the free bytes returns without panic or endless loop, makes precisely its bytes
  free, raises the reported free size by its length and keeps the invariant: the free blocks of
  all levels are aligned and disjoint, and no full group of buddies is left unmerged.
\<close>

theorem page_heap_free_exact:
  assumes "heap_wf h" "4096 dvd a" "heap_address h \<le> a" "a + n * 4096 \<le> heap_end h"
    "{a..<a + n * 4096} \<inter> free_bytes h = {}"
  shows "\<exists>h'. heap_free a n h = Some h' \<and> heap_wf h' \<and>
    free_bytes h' = free_bytes h \<union> {a..<a + n * 4096} \<and> get_free_size h' = get_free_size h + n * 4096"
proof -
  obtain h' where h': "heap_free a n h = Some h'" "heap_wf h'"
    "free_bytes h' = free_bytes h \<union> {a..<a + n * 4096}"
    using heap_free_ok [OF assms] by (auto simp: frees_def)
  have "finite (free_bytes h)" using assms(1) finite_subset unfolding heap_wf_def by blast
  then have "card (free_bytes h') = card (free_bytes h) + n * 4096"
    unfolding h'(3) using assms(5) by (subst card_Un_disjoint) auto
  then show ?thesis using h' free_size_eq [OF assms(1)] free_size_eq [OF h'(2)] by auto
qed

text \<open>A heap of 2 MB at 2 GB, as a concrete state.\<close>

lemma sample_heap:
  "\<exists>h. heap_initialize 0x80000000 0x200000 heap_new = Some h \<and> heap_wf h \<and> free_bytes h = {} \<and>
     heap_address h = 0x80000000 \<and> heap_end h = 0x80200000"
proof -
  have "(4096 :: nat) dvd 0x80000000" "(4096 :: nat) dvd 0x200000" by simp_all
  with heap_initialize_ok [of "0x200000" "0x80000000"] show ?thesis by (auto simp: heap_end_def)
qed

lemma page_heap_free_exact_witness:
  "\<exists>h h'. heap_initialize 0x80000000 0x200000 heap_new = Some h \<and> heap_free 0x80001000 300 h = Some h' \<and>
     free_bytes h' = {0x80001000..<0x8012D000}"
proof -
  obtain h where h: "heap_initialize 0x80000000 0x200000 heap_new = Some h" "heap_wf h" "free_bytes h = {}"
    "heap_address h = 0x80000000" "heap_end h = 0x80200000"
    using sample_heap by blast
  have "(4096 :: nat) dvd 0x80001000" by simp
  from page_heap_free_exact [OF h(2) this, of 300] h show ?thesis by auto
qed

text \<open>
  Allocation of a block of a given size is sound and complete, linear or random. It never
  panics; it succeeds exactly if some aligned range of that size is free; the block it answers
  is non-zero, aligned to its size and was free, and exactly its bytes stop being free, the rest
  of a larger block that had to be split going back to the heap; a failure answers 0 and changes
  nothing.
\<close>

theorem page_heap_allocate_block:
  assumes "heap_wf h" "i < 7"
  shows "\<exists>r h'. allocate_block (int i) random h = Some (r, h') \<and> heap_wf h' \<and>
    (r \<noteq> 0 \<longleftrightarrow> (\<exists>a. 2 ^ level_shift i dvd a \<and> {a..<a + 2 ^ level_shift i} \<subseteq> free_bytes h)) \<and>
    (if r \<noteq> 0 then 2 ^ level_shift i dvd r \<and> {r..<r + 2 ^ level_shift i} \<subseteq> free_bytes h \<and>
       free_bytes h' = free_bytes h - {r..<r + 2 ^ level_shift i}
     else free_bytes h' = free_bytes h)"
  using block_alloc_ok [OF assms, of random]
  unfolding some_range_def takes_def by (auto split: if_splits)

lemma page_heap_allocate_block_witness:
  "\<exists>h h' r h''. heap_initialize 0x80000000 0x200000 heap_new = Some h \<and>
     heap_free 0x80000000 512 h = Some h' \<and> allocate_block 1 True h' = Some (r, h'') \<and> r \<noteq> 0 \<and>
     2 ^ 16 dvd r \<and> free_bytes h'' = {0x80000000..<0x80200000} - {r..<r + 2 ^ 16}"
proof -
  obtain h where h: "heap_initialize 0x80000000 0x200000 heap_new = Some h" "heap_wf h" "free_bytes h = {}"
    "heap_address h = 0x80000000" "heap_end h = 0x80200000"
    using sample_heap by blast
  have "(4096 :: nat) dvd 0x80000000" by simp
  from heap_free_ok [OF h(2) this, of 512] h obtain h' where h': "heap_free 0x80000000 512 h = Some h'"
    "heap_wf h'" "free_bytes h' = {0x80000000..<0x80200000}" by (auto simp: frees_def)
  have s: "level_shift 1 = 16" by (simp add: MEMORY_BLOCK_PAGE_SHIFTS_def)
  have "(2 :: nat) ^ 16 dvd 0x80000000 \<and> {0x80000000..<0x80000000 + 2 ^ 16} \<subseteq> {0x80000000..<0x80200000 :: nat}"
    by simp
  then have ex: "\<exists>a. (2 :: nat) ^ 16 dvd a \<and> {a..<a + 2 ^ 16} \<subseteq> {0x80000000..<0x80200000 :: nat}" by blast
  have "(1 :: nat) < 7" by simp
  from page_heap_allocate_block [OF h'(2) this, of True, unfolded s h'(3)] ex obtain r h'' where
    "allocate_block (int 1) True h' = Some (r, h'')" "r \<noteq> 0" "2 ^ 16 dvd r"
    "free_bytes h'' = {0x80000000..<0x80200000} - {r..<r + 2 ^ 16}" by (metis (no_types, lifting))
  with h h' show ?thesis by auto
qed

text \<open>
  Allocation of an arbitrary number of pages with a power-of-two alignment, for up to 2^18
  pages: through \<open>get_aligned_block_index\<close> and the random choice of level and offset it never
  panics, answers non-zero exactly if some level large enough has a free aligned range of its
  size, and then the answer is aligned as asked, was free and exactly the asked pages stop being
  free.
\<close>

theorem page_heap_allocate_aligned:
  assumes "heap_wf h" "0 < np" "max np (2 ^ m) \<le> 2 ^ 18"
  shows "\<exists>r h'. allocate_aligned (get_aligned_block_index np (2 ^ m)) np (2 ^ m) h = Some (r, h') \<and>
    heap_wf h' \<and>
    (r \<noteq> 0 \<longleftrightarrow> (\<exists>i < 7. max np (2 ^ m) * 4096 \<le> 2 ^ level_shift i \<and>
       (\<exists>a. 2 ^ level_shift i dvd a \<and> {a..<a + 2 ^ level_shift i} \<subseteq> free_bytes h))) \<and>
    (if r \<noteq> 0 then 2 ^ m * 4096 dvd r \<and> {r..<r + np * 4096} \<subseteq> free_bytes h \<and>
       free_bytes h' = free_bytes h - {r..<r + np * 4096}
     else free_bytes h' = free_bytes h)"
  using aligned_alloc_ok [OF assms] unfolding some_range_def takes_def by (auto split: if_splits)

lemma page_heap_allocate_aligned_witness:
  "\<exists>h h' r h''. heap_initialize 0x80000000 0x200000 heap_new = Some h \<and>
     heap_free 0x80000000 512 h = Some h' \<and>
     allocate_aligned (get_aligned_block_index 5 4) 5 4 h' = Some (r, h'') \<and> r \<noteq> 0 \<and> 16384 dvd r \<and>
     free_bytes h'' = {0x80000000..<0x80200000} - {r..<r + 20480}"
proof -
  obtain h where h: "heap_initialize 0x80000000 0x200000 heap_new = Some h" "heap_wf h" "free_bytes h = {}"
    "heap_address h = 0x80000000" "heap_end h = 0x80200000"
    using sample_heap by blast
  have "(4096 :: nat) dvd 0x80000000" by simp
  from heap_free_ok [OF h(2) this, of 512] h obtain h' where h': "heap_free 0x80000000 512 h = Some h'"
    "heap_wf h'" "free_bytes h' = {0x80000000..<0x80200000}" by (auto simp: frees_def)
  have s: "level_shift 1 = 16" by (simp add: MEMORY_BLOCK_PAGE_SHIFTS_def)
  have m: "(2 :: nat) ^ 2 = 4" "max (5 :: nat) 4 = 5" "(5 :: nat) * 4096 = 20480" "(4 :: nat) * 4096 = 16384"
    by simp_all
  have "(2 :: nat) ^ 16 dvd 0x80000000 \<and> {0x80000000..<0x80000000 + 2 ^ 16} \<subseteq> {0x80000000..<0x80200000 :: nat}"
    by simp
  then have "\<exists>a. (2 :: nat) ^ level_shift 1 dvd a \<and> {a..<a + 2 ^ level_shift 1} \<subseteq> {0x80000000..<0x80200000}"
    unfolding s by blast
  moreover have "(1 :: nat) < 7" "5 * 4096 \<le> (2 :: nat) ^ level_shift 1" unfolding s by simp_all
  ultimately have "(1 :: nat) < 7 \<and> 5 * 4096 \<le> (2 :: nat) ^ level_shift 1 \<and>
      (\<exists>a. 2 ^ level_shift 1 dvd a \<and> {a..<a + 2 ^ level_shift 1} \<subseteq> {0x80000000..<0x80200000 :: nat})"
    by (intro conjI)
  then have ex: "\<exists>i < 7. 5 * 4096 \<le> (2 :: nat) ^ level_shift i \<and>
      (\<exists>a. 2 ^ level_shift i dvd a \<and> {a..<a + 2 ^ level_shift i} \<subseteq> {0x80000000..<0x80200000 :: nat})"
    by (rule exI)
  have "(0 :: nat) < 5" "max 5 (2 ^ 2) \<le> (2 :: nat) ^ 18" by simp_all
  from page_heap_allocate_aligned [OF h'(2) this, unfolded m h'(3)] ex obtain r h'' where
    "allocate_aligned (get_aligned_block_index 5 4) 5 4 h' = Some (r, h'')" "r \<noteq> 0" "16384 dvd r"
    "free_bytes h'' = {0x80000000..<0x80200000} - {r..<r + 20480}" unfolding m by metis
  with h h' show ?thesis by blast
qed

text \<open>
  C12: The heap conserves its memory. In every state that a client reaches by initialization, the
  release of the whole region, allocations of any kind, failed ones included, and returns of
  page ranges it holds, the free bytes and the bytes the client holds partition the region, so
  that nothing is handed out twice or lost, and the reported free size and the client's bytes
  add up to the size of the region.
\<close>

theorem page_heap_conserves:
  assumes "heap_reach addr sz h own" "0 < sz" "2 ^ 30 \<le> addr" "addr + sz + 2 ^ 31 < W64" "sz < 2 ^ 35"
    "4096 dvd addr" "4096 dvd sz"
  shows "heap_wf h \<and> free_bytes h \<union> own = {addr..<addr + sz} \<and> free_bytes h \<inter> own = {} \<and>
    get_free_size h + card own = sz"
proof -
  have "heap_wf h \<and> heap_address h = addr \<and> heap_end h = addr + sz \<and>
      free_bytes h \<union> own = {addr..<addr + sz} \<and> free_bytes h \<inter> own = {}"
    using assms(1)
  proof induction
    case (heap_init h h')
    obtain h0 where h0: "heap_initialize addr sz heap_new = Some h0" "heap_wf h0" "free_bytes h0 = {}"
      "heap_address h0 = addr" "heap_size h0 = sz"
      using heap_initialize_ok [OF assms(2-7)] by blast
    have "sz div 4096 * 4096 = sz" using assms(7) by simp
    then have "frees h {addr..<addr + sz} h'"
      using heap_free_ok [of h addr "sz div 4096"] h0 heap_init assms(6) by (auto simp: heap_end_def)
    then show ?case
      using freesD [of h] h0 heap_init(1) by (auto simp: heap_end_def)
  next
    case (heap_block h own i random r h')
    then have "takes h (if r = 0 then {} else {r..<r + 2 ^ level_shift i}) h'"
      using block_alloc_ok [of h i random] by (auto split: if_splits)
    then show ?case
      using heap_block(4) same_heap_end [of h h'] by (auto simp: takes_def same_heap_def split: if_splits)
  next
    case (heap_aligned h own np m r h')
    then have "takes h (if r = 0 then {} else {r..<r + np * 4096}) h'"
      using aligned_alloc_ok [of h np m] by (auto split: if_splits)
    then show ?case
      using heap_aligned(5) same_heap_end [of h h'] by (auto simp: takes_def same_heap_def split: if_splits)
  next
    case (heap_release h own a n h')
    then have own: "{a..<a + n * 4096} \<inter> free_bytes h = {}" "{a..<a + n * 4096} \<subseteq> {addr..<addr + sz}"
      using heap_release(4,6) by blast+
    moreover have "0 < n * 4096" using heap_release(3) by simp
    ultimately have "addr \<le> a" "a + n * 4096 \<le> addr + sz"
      using interval_sub [of "n * 4096" a addr "addr + sz"] by blast+
    then have f: "frees h {a..<a + n * 4096} h'"
      using heap_free_ok [of h a n] heap_release own by auto
    note ih = heap_release(6) and sub = heap_release(4)
    have "free_bytes h' = free_bytes h \<union> {a..<a + n * 4096}" using freesD(4) [OF f] .
    then show ?case
      using freesD(1-3) [OF f] ih return_part [of "free_bytes h" own "{addr..<addr + sz}", OF _ _ sub] by simp
  qed
  then have *: "heap_wf h" "free_bytes h \<union> own = {addr..<addr + sz}" "free_bytes h \<inter> own = {}" by blast+
  then have "finite (free_bytes h \<union> own)" by simp
  then have "card (free_bytes h) + card own = card (free_bytes h \<union> own)"
    using *(3) by (simp add: card_Un_disjoint)
  then show ?thesis using free_size_eq [OF *(1)] * by simp
qed

lemma page_heap_conserves_witness:
  "\<exists>h own. heap_reach 0x80000000 0x200000 h own \<and> own \<noteq> {} \<and> get_free_size h + card own = 0x200000"
proof -
  obtain h where h: "heap_initialize 0x80000000 0x200000 heap_new = Some h" "heap_wf h" "free_bytes h = {}"
    "heap_address h = 0x80000000" "heap_end h = 0x80200000"
    using sample_heap by blast
  have d: "(4096 :: nat) dvd 0x80000000" "(4096 :: nat) dvd 0x200000" by simp_all
  from heap_free_ok [OF h(2) d(1), of 512] h obtain h' where h': "heap_free 0x80000000 512 h = Some h'"
    "heap_wf h'" "free_bytes h' = {0x80000000..<0x80200000}" by (auto simp: frees_def)
  have "0x200000 div 4096 = (512 :: nat)" by simp
  then have r0: "heap_reach 0x80000000 0x200000 h' {}"
    using heap_init [OF h(1)] h'(1) by simp
  have "2 ^ level_shift 0 dvd (0x80000000 :: nat) \<and>
      {0x80000000..<0x80000000 + 2 ^ level_shift 0} \<subseteq> {0x80000000..<0x80200000 :: nat}" by simp
  then have "some_range h' 0" unfolding some_range_def h'(3) by blast
  then obtain r h'' where "allocate_block (int 0) False h' = Some (r, h'')" "r \<noteq> 0"
    using block_alloc_ok [OF h'(2), of 0 False] by auto
  then have reach: "heap_reach 0x80000000 0x200000 h'' ({} \<union> {r..<r + 2 ^ level_shift 0})"
    using heap_block [OF r0, of 0 False r h''] by simp
  moreover have "(0 :: nat) < 0x200000" "2 ^ 30 \<le> (0x80000000 :: nat)"
    "0x80000000 + 0x200000 + 2 ^ 31 < (W64 :: nat)" "0x200000 < (2 :: nat) ^ 35" by simp_all
  note page_heap_conserves [OF reach this d]
  ultimately show ?thesis by (metis Un_empty_left region_def region_self empty_iff)
qed

end
