(* ===== verification/PageGroup.thy ===== *)
theory PageGroup
  imports DynamicSlabHeap
begin

text \<open>
  Groups of physical pages: src/core/src/hle/kernel/k_page_group.rs. A group is a list of runs of
  pages in the order they were added; a run that continues the last one is merged into it. The
  nodes of the runs come from a block info manager (a resource manager of nodes of 0x10 bytes) when
  there is one; it is passed along. Page indices and counts are 32-bit words, so that
  \<open>as u32\<close> truncates. What open and close do to the reference counts is in \<open>MemoryManager\<close>.
\<close>

record KBlockInfo =
  page_index :: u32
  bi_pages :: u32

definition bi_new :: KBlockInfo where
  "bi_new = \<lparr>page_index = 0, bi_pages = 0\<rparr>"

definition bi_initialize :: "nat \<Rightarrow> nat \<Rightarrow> KBlockInfo \<Rightarrow> KBlockInfo" where
  "bi_initialize addr np b = b\<lparr>page_index := word_of_nat (addr div PAGE_SIZE), bi_pages := word_of_nat np\<rparr>"

definition bi_address :: "KBlockInfo \<Rightarrow> nat" where
  "bi_address b = mul64 (unat (page_index b)) PAGE_SIZE"

definition bi_num_pages :: "KBlockInfo \<Rightarrow> nat" where
  "bi_num_pages b = unat (bi_pages b)"

definition bi_size :: "KBlockInfo \<Rightarrow> nat" where
  "bi_size b = mul64 (bi_num_pages b) PAGE_SIZE"

definition bi_end :: "KBlockInfo \<Rightarrow> nat" where
  "bi_end b = mul64 (add64 (unat (page_index b)) (unat (bi_pages b))) PAGE_SIZE"

definition bi_last :: "KBlockInfo \<Rightarrow> nat" where
  "bi_last b = sub64 (bi_end b) 1"

definition bi_equivalent :: "KBlockInfo \<Rightarrow> KBlockInfo \<Rightarrow> bool" where
  "bi_equivalent b r \<longleftrightarrow> page_index b = page_index r \<and> bi_pages b = bi_pages r"

definition is_strictly_before :: "nat \<Rightarrow> KBlockInfo \<Rightarrow> bool" where
  "is_strictly_before addr b \<longleftrightarrow>
     (let ende = bi_end b in if page_index b \<noteq> 0 \<and> ende = 0 then False else ende < addr)"

definition try_concatenate :: "nat \<Rightarrow> nat \<Rightarrow> KBlockInfo \<Rightarrow> bool \<times> KBlockInfo" where
  "try_concatenate addr np b =
     (if addr \<noteq> 0 \<and> addr = bi_end b then (True, b\<lparr>bi_pages := bi_pages b + word_of_nat np\<rparr>) else (False, b))"

section \<open>The group\<close>

type_synonym info_manager = "KBlockInfo KDynamicResourceManager"

abbreviation info_allocate :: "info_manager \<Rightarrow> (KBlockInfo option \<times> info_manager) option" where
  "info_allocate \<equiv> rm_allocate 0x10 bi_new"

text \<open>Whether there is a manager is a field of the group; the manager itself is passed along.\<close>

record KPageGroup =
  group_blocks :: "KBlockInfo list"
  has_info_manager :: bool
  kernel_owned :: bool

definition with_block_info_manager :: "info_manager option \<Rightarrow> KPageGroup" where
  "with_block_info_manager s = \<lparr>group_blocks = [], has_info_manager = (s \<noteq> None), kernel_owned = True\<rparr>"

text \<open>The manager of a group that has one.\<close>

definition free_infos :: "KBlockInfo list \<Rightarrow> info_manager option \<Rightarrow> info_manager option" where
  "free_infos bs s = map_option (\<lambda>s. fold rm_free bs s) s"

definition pg_finalize :: "KPageGroup \<Rightarrow> info_manager option \<Rightarrow> KPageGroup \<times> info_manager option" where
  "pg_finalize pg s =
     (pg\<lparr>group_blocks := []\<rparr>, if has_info_manager pg then free_infos (group_blocks pg) s else s)"

definition pg_is_empty :: "KPageGroup \<Rightarrow> bool" where
  "pg_is_empty pg \<longleftrightarrow> group_blocks pg = []"

definition add_block ::
  "nat \<Rightarrow> nat \<Rightarrow> KPageGroup \<Rightarrow> info_manager option \<Rightarrow> (bool \<times> KPageGroup \<times> info_manager option) option" where
  "add_block addr num_pages pg s =
     (if num_pages = 0 then Some (True, pg, s)
      else let bs = group_blocks pg;
               joined = (if bs = [] then None
                 else let (ok, b) = try_concatenate addr num_pages (last bs)
                      in if ok then Some (butlast bs @ [b]) else None)
      in case joined of
        Some bs \<Rightarrow> Some (True, pg\<lparr>group_blocks := bs\<rparr>, s)
      | None \<Rightarrow> do {
          (node, s) \<leftarrow> (case (has_info_manager pg, s) of
             (True, Some m) \<Rightarrow> do { (r, m) \<leftarrow> info_allocate m; Some (r, Some m) }
           | _ \<Rightarrow> Some (Some bi_new, s));
          case node of
            None \<Rightarrow> Some (False, pg, s)
          | Some b \<Rightarrow> Some (True, pg\<lparr>group_blocks := bs @ [bi_initialize addr num_pages b]\<rparr>, s) })"

definition pg_num_pages :: "KPageGroup \<Rightarrow> nat" where
  "pg_num_pages pg = fold (\<lambda>b total. add64 total (bi_num_pages b)) (group_blocks pg) 0"

definition pg_equivalent :: "KPageGroup \<Rightarrow> KPageGroup \<Rightarrow> bool" where
  "pg_equivalent pg r \<longleftrightarrow> length (group_blocks pg) = length (group_blocks r) \<and>
     list_all (\<lambda>(a, b). bi_equivalent a b) (zip (group_blocks pg) (group_blocks r))"

section \<open>The pages of a group\<close>

text \<open>A run without truncation, and the addresses of its pages.\<close>

definition bi_ok :: "KBlockInfo \<Rightarrow> bool" where
  "bi_ok b \<longleftrightarrow> 0 < bi_pages b \<and> unat (page_index b) + unat (bi_pages b) < 2 ^ 32"

definition run_pages :: "nat \<Rightarrow> nat \<Rightarrow> nat list" where
  "run_pages a n = map (\<lambda>i. a + i * PAGE_SIZE) [0..<n]"

definition group_pages :: "KBlockInfo list \<Rightarrow> nat list" where
  "group_pages bs = concat (map (\<lambda>b. run_pages (bi_address b) (bi_num_pages b)) bs)"

definition group_ok :: "KBlockInfo list \<Rightarrow> bool" where
  "group_ok bs \<longleftrightarrow> (\<forall>b \<in> set bs. bi_ok b)"

text \<open>The books: apart from \<open>h\<close> nodes used elsewhere, the nodes in use are those of the group.\<close>

definition infos_booked :: "nat \<Rightarrow> KPageGroup \<Rightarrow> info_manager option \<Rightarrow> bool" where
  "infos_booked h pg s \<longleftrightarrow> has_info_manager pg = (s \<noteq> None) \<and>
     (case s of None \<Rightarrow> True | Some m \<Rightarrow> rm_wf 0x10 m \<and> rm_used m = h + length (group_blocks pg))"

lemma run_pages_add: "run_pages a (n + k) = run_pages a n @ run_pages (a + n * PAGE_SIZE) k"
proof -
  have "[0..<n + k] = [0..<n] @ [n..<n + k]" by (rule upt_add_eq_append) simp
  also have "[n..<n + k] = map (\<lambda>i. i + n) [0..<k]" by (simp add: map_add_upt add.commute)
  finally show ?thesis by (simp add: run_pages_def algebra_simps)
qed

lemma length_run_pages [simp]: "length (run_pages a n) = n"
  by (simp add: run_pages_def)

lemma bi_geometry:
  assumes "bi_ok b"
  shows "bi_address b = unat (page_index b) * PAGE_SIZE" "bi_end b = bi_address b + bi_num_pages b * PAGE_SIZE"
    "bi_size b = bi_num_pages b * PAGE_SIZE" "0 < bi_num_pages b" "bi_end b < 2 ^ 44"
proof -
  have s: "unat (page_index b) + unat (bi_pages b) < 2 ^ 32" using assms by (simp add: bi_ok_def)
  then have "(unat (page_index b) + unat (bi_pages b)) * PAGE_SIZE < 2 ^ 44" by simp
  then show a: "bi_address b = unat (page_index b) * PAGE_SIZE" "bi_end b = bi_address b + bi_num_pages b * PAGE_SIZE"
    "bi_size b = bi_num_pages b * PAGE_SIZE" "bi_end b < 2 ^ 44"
    using s by (simp_all add: bi_address_def bi_end_def bi_num_pages_def bi_size_def algebra_simps)
  show "0 < bi_num_pages b" using assms by (simp add: bi_ok_def bi_num_pages_def unat_gt_0 word_gt_0)
qed

lemma bi_initialize_ok:
  assumes "PAGE_SIZE dvd a" "0 < n" "a + n * PAGE_SIZE < 2 ^ 44"
  shows "bi_ok (bi_initialize a n b)" "bi_address (bi_initialize a n b) = a" "bi_num_pages (bi_initialize a n b) = n"
proof -
  obtain p where p: "a = PAGE_SIZE * p" using assms(1) by (rule dvdE)
  have n: "p + n < 2 ^ 32" using assms(3) p by simp
  then have u: "unat (word_of_nat p :: u32) = p" "unat (word_of_nat n :: u32) = n"
    by (simp_all add: unat_of_nat)
  have d: "a div PAGE_SIZE = p" using p by simp
  have "(word_of_nat n :: u32) \<noteq> 0" using u(2) assms(2) by (metis less_numeral_extra(3) unat_0)
  then show "bi_ok (bi_initialize a n b)" using n u by (simp add: bi_ok_def bi_initialize_def d word_gt_0)
  show "bi_num_pages (bi_initialize a n b) = n" using u by (simp add: bi_num_pages_def bi_initialize_def)
  show "bi_address (bi_initialize a n b) = a" using u n p by (simp add: bi_address_def bi_initialize_def d)
qed

lemma try_concatenate_ok:
  assumes "bi_ok b" "a = bi_end b" "0 < n" "a + n * PAGE_SIZE < 2 ^ 44"
  shows "\<exists>b'. try_concatenate a n b = (True, b') \<and> bi_ok b' \<and> bi_address b' = bi_address b \<and>
    bi_num_pages b' = bi_num_pages b + n"
proof -
  note g = bi_geometry [OF assms(1)]
  have "(unat (page_index b) + unat (bi_pages b) + n) * PAGE_SIZE < 2 ^ 44"
    using assms(4) g(1,2) unfolding assms(2) bi_num_pages_def by (simp add: algebra_simps)
  then have s: "unat (page_index b) + (unat (bi_pages b) + n) < 2 ^ 32" by simp
  then have u: "unat (bi_pages b + word_of_nat n) = unat (bi_pages b) + n"
    by (simp add: unat_word_ariths unat_of_nat)
  have "a \<noteq> 0" using assms(2) g(2,4) by simp
  moreover have "bi_pages b + word_of_nat n \<noteq> 0" using u assms(3) by (metis add_is_0 less_numeral_extra(3) unat_0)
  ultimately show ?thesis using assms(2) s u
    by (intro exI [of _ "b\<lparr>bi_pages := bi_pages b + word_of_nat n\<rparr>"])
      (simp add: try_concatenate_def bi_ok_def bi_address_def bi_num_pages_def word_gt_0)
qed

lemma group_pages_append [simp]: "group_pages (xs @ ys) = group_pages xs @ group_pages ys"
  by (simp add: group_pages_def)

lemma add_block_ok:
  assumes "group_ok (group_blocks pg)" "infos_booked h pg s" "PAGE_SIZE dvd a" "0 < n" "a + n * PAGE_SIZE < 2 ^ 44"
  shows "\<exists>ok pg' s'. add_block a n pg s = Some (ok, pg', s') \<and> group_ok (group_blocks pg') \<and> infos_booked h pg' s' \<and>
    has_info_manager pg' = has_info_manager pg \<and>
    group_pages (group_blocks pg') = group_pages (group_blocks pg) @ (if ok then run_pages a n else []) \<and>
    (\<not> ok \<longrightarrow> pg' = pg \<and> s \<noteq> None)"
proof -
  let ?bs = "group_blocks pg"
  define joined where "joined = (if ?bs = [] then None
      else let (ok, b) = try_concatenate a n (last ?bs) in if ok then Some (butlast ?bs @ [b]) else None)"
  have unf: "add_block a n pg s = (case joined of
        Some bs \<Rightarrow> Some (True, pg\<lparr>group_blocks := bs\<rparr>, s)
      | None \<Rightarrow> do {
          (node, s) \<leftarrow> (case (has_info_manager pg, s) of
             (True, Some m) \<Rightarrow> do { (r, m) \<leftarrow> info_allocate m; Some (r, Some m) }
           | _ \<Rightarrow> Some (Some bi_new, s));
          case node of
            None \<Rightarrow> Some (False, pg, s)
          | Some b \<Rightarrow> Some (True, pg\<lparr>group_blocks := ?bs @ [bi_initialize a n b]\<rparr>, s) })"
    using assms(4) unfolding add_block_def joined_def Let_def by simp
  show ?thesis
  proof (cases joined)
    case (Some bs')
    then have ne: "?bs \<noteq> []" by (auto simp: joined_def split: if_splits)
    obtain bs0 b where b: "?bs = bs0 @ [b]" using ne by (metis rev_exhaust)
    have bo: "bi_ok b" using assms(1) b by (simp add: group_ok_def)
    have "a = bi_end b" using Some ne b by (auto simp: joined_def try_concatenate_def split: if_splits)
    from try_concatenate_ok [OF bo this assms(4,5)] obtain b' where
      b': "try_concatenate a n b = (True, b')" "bi_ok b'" "bi_address b' = bi_address b" "bi_num_pages b' = bi_num_pages b + n"
      by blast
    have bs': "bs' = bs0 @ [b']" using Some ne b b'(1) by (simp add: joined_def)
    have "a = bi_address b + bi_num_pages b * PAGE_SIZE" using bi_geometry(2) [OF bo] \<open>a = bi_end b\<close> by simp
    then have "group_pages bs' = group_pages ?bs @ run_pages a n"
      using b b' bs' by (simp add: group_pages_def run_pages_add)
    moreover have "group_ok bs'" using assms(1) b b'(2) bs' by (auto simp: group_ok_def)
    moreover have "infos_booked h (pg\<lparr>group_blocks := bs'\<rparr>) s"
      using assms(2) b bs' by (simp add: infos_booked_def split: option.splits)
    moreover have "add_block a n pg s = Some (True, pg\<lparr>group_blocks := bs'\<rparr>, s)" using unf Some by simp
    ultimately show ?thesis by (intro exI [of _ True] exI [of _ "pg\<lparr>group_blocks := bs'\<rparr>"] exI [of _ s]) simp
  next
    case None
    have new: "group_ok (?bs @ [bi_initialize a n b])"
      "group_pages (?bs @ [bi_initialize a n b]) = group_pages ?bs @ run_pages a n" for b
      using assms(1) bi_initialize_ok [OF assms(3-5), of b] by (simp_all add: group_ok_def group_pages_def)
    show ?thesis
    proof (cases s)
      case None
      then have "add_block a n pg s = Some (True, pg\<lparr>group_blocks := ?bs @ [bi_initialize a n bi_new]\<rparr>, s)"
        using unf \<open>joined = None\<close> by (simp split: bool.split)
      moreover have "infos_booked h (pg\<lparr>group_blocks := ?bs @ [bi_initialize a n bi_new]\<rparr>) s"
        using assms(2) None by (simp add: infos_booked_def)
      ultimately show ?thesis using new
        by (intro exI [of _ True] exI [of _ "pg\<lparr>group_blocks := ?bs @ [bi_initialize a n bi_new]\<rparr>"] exI [of _ s]) simp
    next
      case (Some m)
      have m: "has_info_manager pg" "rm_wf 0x10 m" "rm_used m = h + length ?bs"
        using assms(2) Some by (simp_all add: infos_booked_def)
      obtain r m' where r: "info_allocate m = Some (r, m')" "rm_wf 0x10 m'"
        "rm_used m' = (case r of None \<Rightarrow> rm_used m | Some _ \<Rightarrow> rm_used m + 1)"
        using slab.alloc_ok [OF m(2), of bi_new] by blast
      show ?thesis
      proof (cases r)
        case None
        then have "add_block a n pg s = Some (False, pg, Some m')" using unf \<open>joined = None\<close> Some m(1) r(1) by simp
        then show ?thesis using assms(1) r m None \<open>s = Some m\<close>
          by (intro exI [of _ False] exI [of _ pg] exI [of _ "Some m'"]) (simp add: infos_booked_def)
      next
        case (Some b)
        then have "add_block a n pg s = Some (True, pg\<lparr>group_blocks := ?bs @ [bi_initialize a n b]\<rparr>, Some m')"
          using unf \<open>joined = None\<close> \<open>s = Some m\<close> m(1) r(1) by simp
        then show ?thesis using new r m Some
          by (intro exI [of _ True] exI [of _ "pg\<lparr>group_blocks := ?bs @ [bi_initialize a n b]\<rparr>"] exI [of _ "Some m'"])
            (simp add: infos_booked_def)
      qed
    qed
  qed
qed

lemma free_infos_ok:
  assumes "rm_wf esz m" "length bs \<le> rm_used m"
  shows "rm_wf esz (fold rm_free bs m) \<and> rm_used (fold rm_free bs m) = rm_used m - length bs"
  using assms
proof (induction bs arbitrary: m)
  case (Cons b bs)
  have "0 < rm_used m" using Cons.prems(2) by simp
  from rm_free_ok [OF Cons.prems(1) this, of b]
  have "rm_wf esz (rm_free b m)" "rm_used m = rm_used (rm_free b m) + 1" by blast+
  then show ?case using Cons.IH [of "rm_free b m"] Cons.prems(2) by simp
qed simp

lemma pg_finalize_ok:
  assumes "infos_booked h pg s"
  shows "case pg_finalize pg s of (pg', s') \<Rightarrow> group_blocks pg' = [] \<and> has_info_manager pg' = has_info_manager pg \<and> infos_booked h pg' s'"
proof (cases s)
  case None
  then show ?thesis using assms by (simp add: pg_finalize_def infos_booked_def)
next
  case (Some m)
  have m: "has_info_manager pg" "rm_wf 0x10 m" "rm_used m = h + length (group_blocks pg)"
    using assms Some by (simp_all add: infos_booked_def)
  then have l: "length (group_blocks pg) \<le> rm_used m" by simp
  from free_infos_ok [OF m(2) l] show ?thesis using m Some
    by (simp add: pg_finalize_def infos_booked_def free_infos_def)
qed

text \<open>Adding a list of runs, up to the first refusal.\<close>

fun add_blocks ::
  "(nat \<times> nat) list \<Rightarrow> KPageGroup \<Rightarrow> info_manager option \<Rightarrow> (bool \<times> KPageGroup \<times> info_manager option) option" where
  "add_blocks [] pg s = Some (True, pg, s)"
| "add_blocks ((a, n) # rs) pg s = do {
     (ok, pg, s) \<leftarrow> add_block a n pg s;
     if ok then add_blocks rs pg s else Some (False, pg, s) }"

lemma pages_count:
  assumes "group_ok bs" "k + length (group_pages bs) < W64"
  shows "fold (\<lambda>b total. add64 total (bi_num_pages b)) bs k = k + length (group_pages bs)"
  using assms
proof (induction bs arbitrary: k)
  case (Cons b bs)
  then show ?case by (simp add: group_ok_def group_pages_def)
qed (simp add: group_pages_def)

lemma add_block_manager:
  assumes "add_block a n pg s = Some (ok, pg', s')"
  shows "has_info_manager pg' = has_info_manager pg \<and> (s' = None) = (s = None)"
  using assms by (cases "n = 0") (auto simp: add_block_def Let_def split: if_splits option.splits bind_splits prod.splits bool.splits)

lemma add_blocks_manager:
  "add_blocks rs pg s = Some (ok, pg', s') \<Longrightarrow> has_info_manager pg' = has_info_manager pg \<and> (s' = None) = (s = None)"
proof (induction rs pg s rule: add_blocks.induct)
  case (2 a n rs pg s)
  obtain ok1 pg1 s1 where b: "add_block a n pg s = Some (ok1, pg1, s1)" using "2.prems" by (auto split: bind_splits)
  then show ?case using 2 add_block_manager [OF b] by (cases ok1) auto
qed simp

lemma add_blocks_ok:
  assumes "group_ok (group_blocks pg)" "infos_booked h pg s" "\<forall>(a, n) \<in> set rs. PAGE_SIZE dvd a \<and> a + n * PAGE_SIZE < 2 ^ 44"
  shows "\<exists>ok pg' s' k. add_blocks rs pg s = Some (ok, pg', s') \<and> k \<le> length rs \<and> (ok \<longrightarrow> k = length rs) \<and>
    (\<not> ok \<longrightarrow> s \<noteq> None) \<and> group_ok (group_blocks pg') \<and> infos_booked h pg' s' \<and>
    group_pages (group_blocks pg') = group_pages (group_blocks pg) @ concat (map (\<lambda>(a, n). run_pages a n) (take k rs))"
  using assms
proof (induction rs arbitrary: pg s)
  case Nil
  then show ?case by (intro exI [of _ True] exI [of _ pg] exI [of _ s] exI [of _ 0]) simp
next
  case (Cons r rs)
  obtain a n where r: "r = (a, n)" by (cases r)
  have an: "PAGE_SIZE dvd a" "a + n * PAGE_SIZE < 2 ^ 44" using Cons.prems(3) r by simp_all
  have "\<exists>ok pg' s'. add_block a n pg s = Some (ok, pg', s') \<and> group_ok (group_blocks pg') \<and> infos_booked h pg' s' \<and>
      group_pages (group_blocks pg') = group_pages (group_blocks pg) @ (if ok then run_pages a n else []) \<and>
      (\<not> ok \<longrightarrow> s \<noteq> None)"
  proof (cases "n = 0")
    case True
    then show ?thesis using Cons.prems(1,2)
      by (intro exI [of _ True] exI [of _ pg] exI [of _ s]) (simp add: add_block_def run_pages_def)
  next
    case False
    then have "0 < n" by simp
    from add_block_ok [OF Cons.prems(1,2) an(1) this an(2)] show ?thesis by blast
  qed
  then obtain ok pg1 s1 where b: "add_block a n pg s = Some (ok, pg1, s1)" "group_ok (group_blocks pg1)"
    "infos_booked h pg1 s1" "group_pages (group_blocks pg1) = group_pages (group_blocks pg) @ (if ok then run_pages a n else [])"
    "\<not> ok \<longrightarrow> s \<noteq> None" by blast
  show ?case
  proof (cases ok)
    case False
    then show ?thesis using b r
      by (intro exI [of _ False] exI [of _ pg1] exI [of _ s1] exI [of _ 0]) simp
  next
    case True
    have keep: "s1 \<noteq> None \<longrightarrow> s \<noteq> None" using add_block_manager [OF b(1)] by simp
    have rest: "\<forall>(a, n) \<in> set rs. PAGE_SIZE dvd a \<and> a + n * PAGE_SIZE < 2 ^ 44" using Cons.prems(3) by simp
    from Cons.IH [OF b(2,3) rest] obtain ok' pg' s' k where i: "add_blocks rs pg1 s1 = Some (ok', pg', s')" "k \<le> length rs"
      "ok' \<longrightarrow> k = length rs" "\<not> ok' \<longrightarrow> s1 \<noteq> None" "group_ok (group_blocks pg')" "infos_booked h pg' s'"
      "group_pages (group_blocks pg') = group_pages (group_blocks pg1) @ concat (map (\<lambda>(a, n). run_pages a n) (take k rs))"
      by blast
    show ?thesis using b True r i keep
      by (intro exI [of _ ok'] exI [of _ pg'] exI [of _ s'] exI [of _ "Suc k"]) simp
  qed
qed

text \<open>
  C20: Runs of page-aligned addresses (below the 44 bits that fit a 32-bit page index)
  added one after the other to an empty group: no addition panics, and if none is refused the
  group holds exactly the pages of the runs in order, runs that continue the last one merged
  without losing or repeating a page. A refusal only happens with a block info manager, and
  keeps the pages of the runs before it. The count of pages is the number of pages held, and
  finalizing returns to the manager every node the group took.\<close>

theorem page_group_collects:
  assumes "case s of None \<Rightarrow> True | Some m \<Rightarrow> rm_wf 0x10 m"
    and "\<forall>(a, n) \<in> set rs. PAGE_SIZE dvd a \<and> a + n * PAGE_SIZE < 2 ^ 44"
    and "sum_list (map snd rs) < W64"
  shows "\<exists>ok pg s' k. add_blocks rs (with_block_info_manager s) s = Some (ok, pg, s') \<and>
    k \<le> length rs \<and> (ok \<longrightarrow> k = length rs) \<and> (\<not> ok \<longrightarrow> s \<noteq> None) \<and>
    group_pages (group_blocks pg) = concat (map (\<lambda>(a, n). run_pages a n) (take k rs)) \<and>
    pg_num_pages pg = sum_list (map snd (take k rs)) \<and>
    (\<forall>b \<in> set (group_blocks pg). bi_end b = bi_address b + bi_size b \<and> 0 < bi_size b) \<and>
    pg_is_empty (fst (pg_finalize pg s')) \<and>
    map_option rm_used (snd (pg_finalize pg s')) = map_option rm_used s"
proof -
  let ?h = "case s of None \<Rightarrow> 0 | Some m \<Rightarrow> rm_used m"
  have new: "group_ok (group_blocks (with_block_info_manager s))" "infos_booked ?h (with_block_info_manager s) s"
    using assms(1) by (simp_all add: group_ok_def with_block_info_manager_def infos_booked_def split: option.splits)
  from add_blocks_ok [OF new assms(2)] obtain ok pg s' k where
    a: "add_blocks rs (with_block_info_manager s) s = Some (ok, pg, s')" and k: "k \<le> length rs" "ok \<longrightarrow> k = length rs"
    "\<not> ok \<longrightarrow> s \<noteq> None" and g: "group_ok (group_blocks pg)" "infos_booked ?h pg s'"
    "group_pages (group_blocks pg) = group_pages (group_blocks (with_block_info_manager s)) @
      concat (map (\<lambda>(a, n). run_pages a n) (take k rs))"
    by blast
  from this(7) have p: "group_pages (group_blocks pg) = concat (map (\<lambda>(a, n). run_pages a n) (take k rs))"
    by (simp add: with_block_info_manager_def group_pages_def)
  have len: "length (group_pages (group_blocks pg)) = sum_list (map snd (take k rs))"
    unfolding p by (simp add: length_concat o_def case_prod_unfold)
  have "sum_list (map snd (take k rs)) + sum_list (map snd (drop k rs)) = sum_list (map snd rs)"
    by (metis append_take_drop_id map_append sum_list_append)
  then have "0 + length (group_pages (group_blocks pg)) < W64" using assms(3) len by simp
  from pages_count [OF g(1) this] have n: "pg_num_pages pg = sum_list (map snd (take k rs))"
    by (simp add: pg_num_pages_def len)
  have geo: "\<forall>b \<in> set (group_blocks pg). bi_end b = bi_address b + bi_size b \<and> 0 < bi_size b"
    using g(1) bi_geometry unfolding group_ok_def by simp
  obtain pg2 s2 where f: "pg_finalize pg s' = (pg2, s2)" by (cases "pg_finalize pg s'")
  have f2: "group_blocks pg2 = []" "has_info_manager pg2 = has_info_manager pg" "infos_booked ?h pg2 s2"
    using pg_finalize_ok [OF g(2)] by (simp_all add: f)
  have m: "map_option rm_used s2 = map_option rm_used s"
    using f2 add_blocks_manager [OF a] g(2)
    by (auto simp: infos_booked_def with_block_info_manager_def split: option.splits)
  show ?thesis
    by (intro exI [of _ ok] exI [of _ pg] exI [of _ s'] exI [of _ k]) (use a k p n geo f f2 m in \<open>simp add: pg_is_empty_def\<close>)
qed

lemma page_group_collects_witness:
  "\<exists>ok pg s'. add_blocks [(0x1000, 2), (0x3000, 1), (0x8000, 1)]
      (with_block_info_manager (Some (new_with_resources None (initialize_with_count bi_new 1 slab_new))))
      (Some (new_with_resources None (initialize_with_count bi_new 1 slab_new))) = Some (ok, pg, s') \<and>
    \<not> ok \<and> group_pages (group_blocks pg) = [0x1000, 0x2000, 0x3000] \<and> pg_num_pages pg = 3"
proof -
  let ?m = "new_with_resources None (initialize_with_count bi_new 1 slab_new)"
  let ?rs = "[(0x1000, 2), (0x3000, 1), (0x8000, 1)] :: (nat \<times> nat) list"
  have w: "case Some ?m of None \<Rightarrow> True | Some m \<Rightarrow> rm_wf 0x10 m"
    by (simp add: rm_wf_def new_with_resources_def initialize_with_count_def slab_new_def)
  have r: "\<forall>(a, n) \<in> set ?rs. PAGE_SIZE dvd a \<and> a + n * PAGE_SIZE < 2 ^ 44" "sum_list (map snd ?rs) < W64"
    by simp_all
  have "\<exists>pg s'. add_blocks ?rs (with_block_info_manager (Some ?m)) (Some ?m) = Some (False, pg, s') \<and>
      map bi_num_pages (group_blocks pg) = [3] \<and> map bi_address (group_blocks pg) = [0x1000]"
    by (simp add: add_block_def with_block_info_manager_def try_concatenate_def bi_initialize_def bi_end_def Let_def
        rm_allocate_def allocate_with_page_allocator_def new_with_resources_def initialize_with_count_def slab_new_def
        bump_used_def bi_num_pages_def bi_address_def)
  then obtain pg s' where c: "add_blocks ?rs (with_block_info_manager (Some ?m)) (Some ?m) = Some (False, pg, s')"
    "map bi_num_pages (group_blocks pg) = [3]" "map bi_address (group_blocks pg) = [0x1000]" by (elim exE conjE) (rule that)
  obtain k where k: "pg_num_pages pg = sum_list (map snd (take k ?rs))"
    "group_pages (group_blocks pg) = concat (map (\<lambda>(a, n). run_pages a n) (take k ?rs))"
    using page_group_collects [OF w r] unfolding c(1) by auto
  obtain b where b: "group_blocks pg = [b]" "bi_num_pages b = 3" "bi_address b = 0x1000" using c(2,3) by auto
  have "group_pages (group_blocks pg) = [0x1000, 0x2000, 0x3000]"
    using b by (simp add: group_pages_def run_pages_def upt_rec numeral_3_eq_3)
  moreover have "length (concat (map (\<lambda>(a, n). run_pages a n) (take k ?rs))) = sum_list (map snd (take k ?rs))"
    by (simp add: length_concat o_def case_prod_unfold)
  ultimately have "pg_num_pages pg = 3" using k by simp
  then show ?thesis using c(1) \<open>group_pages (group_blocks pg) = [0x1000, 0x2000, 0x3000]\<close> by auto
qed

end
