(* ===== verification/MemoryRegion.thy ===== *)
theory MemoryRegion
  imports BTree MemoryRegionType
begin

text \<open>
  Memory regions and the layout of the kernel's memory: src/core/src/hle/kernel/k_memory_region.rs,
  src/core/src/hle/kernel/k_memory_layout.rs and the random ranges of
  src/core/src/hle/kernel/board/k_system_control.rs. A tree of regions is the ordered tree of
  \<open>BTree\<close> keyed by address. Addresses are 64-bit numbers; \<open>2 ^ 64 - 1\<close> is "no pair address". The
  random bits of the host are a list of 64-bit numbers that is consumed from the front.
\<close>

section \<open>Regions\<close>

record KMemoryRegion =
  r_address :: nat
  r_last :: nat
  r_pair :: nat
  r_attributes :: u32
  r_type :: u32

abbreviation U64_MAX :: nat where "U64_MAX \<equiv> 2 ^ 64 - 1"

definition region_new :: KMemoryRegion where
  "region_new = \<lparr>r_address = 0, r_last = 0, r_pair = 0, r_attributes = 0, r_type = 0\<rparr>"

definition new_range :: "nat \<Rightarrow> nat \<Rightarrow> KMemoryRegion" where
  "new_range address last_address =
     \<lparr>r_address = address, r_last = last_address, r_pair = U64_MAX, r_attributes = 0, r_type = 0\<rparr>"

definition new_with_attr :: "nat \<Rightarrow> nat \<Rightarrow> u32 \<Rightarrow> u32 \<Rightarrow> KMemoryRegion" where
  "new_with_attr address last_address attributes type_id =
     \<lparr>r_address = address, r_last = last_address, r_pair = U64_MAX, r_attributes = attributes, r_type = type_id\<rparr>"

definition new_full :: "nat \<Rightarrow> nat \<Rightarrow> nat \<Rightarrow> u32 \<Rightarrow> u32 \<Rightarrow> KMemoryRegion" where
  "new_full address last_address pair_address attributes type_id =
     \<lparr>r_address = address, r_last = last_address, r_pair = pair_address, r_attributes = attributes, r_type = type_id\<rparr>"

definition r_end :: "KMemoryRegion \<Rightarrow> nat" where
  "r_end r = add64 (r_last r) 1"

definition r_size :: "KMemoryRegion \<Rightarrow> nat" where
  "r_size r = sub64 (r_end r) (r_address r)"

definition region_contains :: "nat \<Rightarrow> KMemoryRegion \<Rightarrow> bool" where
  "region_contains addr r \<longleftrightarrow> r_address r \<le> addr \<and> addr \<le> r_last r"

definition is_derived_from_raw :: "u32 \<Rightarrow> KMemoryRegion \<Rightarrow> bool" where
  "is_derived_from_raw type_id r \<longleftrightarrow> r_type r OR type_id = r_type r"

definition is_derived_from :: "KMemoryRegionTypeValue \<Rightarrow> KMemoryRegion \<Rightarrow> bool" where
  "is_derived_from t r \<longleftrightarrow> r_type r OR rt_value t = r_type r"

definition has_type_attribute :: "u32 \<Rightarrow> KMemoryRegion \<Rightarrow> bool" where
  "has_type_attribute attr r \<longleftrightarrow> r_type r OR attr = r_type r"

definition can_derive :: "u32 \<Rightarrow> KMemoryRegion \<Rightarrow> bool" where
  "can_derive type_id r \<longleftrightarrow> r_type r OR type_id = type_id"

definition set_type_attribute :: "u32 \<Rightarrow> KMemoryRegion \<Rightarrow> KMemoryRegion" where
  "set_type_attribute attr r = r\<lparr>r_type := r_type r OR attr\<rparr>"

definition set_type :: "u32 \<Rightarrow> KMemoryRegion \<Rightarrow> KMemoryRegion" where
  "set_type ty r = r\<lparr>r_type := ty\<rparr>"

definition set_pair_address :: "nat \<Rightarrow> KMemoryRegion \<Rightarrow> KMemoryRegion" where
  "set_pair_address a r = r\<lparr>r_pair := a\<rparr>"

definition region_reset :: "nat \<Rightarrow> nat \<Rightarrow> nat \<Rightarrow> u32 \<Rightarrow> u32 \<Rightarrow> KMemoryRegion \<Rightarrow> KMemoryRegion" where
  "region_reset a la p at ty r =
     r\<lparr>r_address := a, r_last := la, r_pair := p, r_attributes := at, r_type := ty\<rparr>"

section \<open>The tree\<close>

type_synonym region_tree = "(nat, KMemoryRegion) btree"

record DerivedRegionExtents =
  first_region :: "KMemoryRegion option"
  last_region :: "KMemoryRegion option"

definition extents_address :: "DerivedRegionExtents \<Rightarrow> nat option" where
  "extents_address e = map_option r_address (first_region e)"

definition extents_last :: "DerivedRegionExtents \<Rightarrow> nat option" where
  "extents_last e = map_option r_last (last_region e)"

definition extents_end :: "DerivedRegionExtents \<Rightarrow> nat option" where
  "extents_end e = do { l \<leftarrow> extents_last e; Some (add64 l 1) }"

definition extents_size :: "DerivedRegionExtents \<Rightarrow> nat option" where
  "extents_size e = do { n \<leftarrow> extents_end e; a \<leftarrow> extents_address e; Some (sub64 n a) }"

definition tree_find :: "nat \<Rightarrow> region_tree \<Rightarrow> KMemoryRegion option" where
  "tree_find address t =
     (case last_le address t of
        None \<Rightarrow> None | Some (_, r) \<Rightarrow> if region_contains address r then Some r else None)"

text \<open>\<open>find_modifiable\<close> answers a reference; what the caller does through it is a function here.\<close>

definition find_modifiable :: "(KMemoryRegion \<Rightarrow> KMemoryRegion) \<Rightarrow> nat \<Rightarrow> region_tree \<Rightarrow> (region_tree) option" where
  "find_modifiable change address t =
     (case last_le address t of
        None \<Rightarrow> None
      | Some (k, r) \<Rightarrow> if region_contains address r then Some (bt_insert k (change r) t) else None)"

definition find_by_type :: "KMemoryRegionTypeValue \<Rightarrow> region_tree \<Rightarrow> KMemoryRegion option" where
  "find_by_type ty t = find (\<lambda>r. r_type r = rt_value ty) (map snd t)"

definition find_by_type_and_attribute :: "u32 \<Rightarrow> u32 \<Rightarrow> region_tree \<Rightarrow> KMemoryRegion option" where
  "find_by_type_and_attribute ty attr t = find (\<lambda>r. r_type r = ty \<and> r_attributes r = attr) (map snd t)"

definition find_first_derived :: "KMemoryRegionTypeValue \<Rightarrow> region_tree \<Rightarrow> KMemoryRegion option" where
  "find_first_derived ty t = find (is_derived_from ty) (map snd t)"

definition find_last_derived :: "KMemoryRegionTypeValue \<Rightarrow> region_tree \<Rightarrow> KMemoryRegion option" where
  "find_last_derived ty t = fold (\<lambda>r l. if is_derived_from ty r then Some r else l) (map snd t) None"

definition get_derived_region_extents_raw :: "u32 \<Rightarrow> region_tree \<Rightarrow> DerivedRegionExtents" where
  "get_derived_region_extents_raw ty t =
     fold (\<lambda>r e. if is_derived_from_raw ty r
         then \<lparr>first_region = (if first_region e = None then Some r else first_region e), last_region = Some r\<rparr> else e)
       (map snd t) \<lparr>first_region = None, last_region = None\<rparr>"

definition get_derived_region_extents :: "KMemoryRegionTypeValue \<Rightarrow> region_tree \<Rightarrow> DerivedRegionExtents" where
  "get_derived_region_extents ty t =
     fold (\<lambda>r e. if is_derived_from ty r
         then \<lparr>first_region = (if first_region e = None then Some r else first_region e), last_region = Some r\<rparr> else e)
       (map snd t) \<lparr>first_region = None, last_region = None\<rparr>"

definition insert_directly :: "nat \<Rightarrow> nat \<Rightarrow> u32 \<Rightarrow> u32 \<Rightarrow> region_tree \<Rightarrow> region_tree" where
  "insert_directly address last_address attr ty t = bt_insert address (new_with_attr address last_address attr ty) t"

text \<open>The pair address of the part of a region that starts \<open>offset\<close> bytes later.\<close>

definition move_pair :: "nat \<Rightarrow> nat \<Rightarrow> nat" where
  "move_pair pair offset = (if pair \<noteq> U64_MAX then add64 pair offset else pair)"

definition tree_insert :: "nat \<Rightarrow> nat \<Rightarrow> u32 \<Rightarrow> u32 \<Rightarrow> u32 \<Rightarrow> region_tree \<Rightarrow> bool \<times> region_tree" where
  "tree_insert address sz type_id new_attr old_attr t =
     (case last_le address t of
        None \<Rightarrow> (False, t)
      | Some (found_key, found) \<Rightarrow>
          if \<not> region_contains address found then (False, t)
          else if r_attributes found \<noteq> old_attr then (False, t)
          else let inserted_end = add64 address sz; inserted_last = sub64 inserted_end 1
          in if r_last found < inserted_last then (False, t)
          else if \<not> can_derive type_id found then (False, t)
          else let t = bt_remove found_key t;
                   t = (if r_address found = address
                        then bt_insert address (new_full address inserted_last (r_pair found) new_attr type_id) t
                        else bt_insert address (new_full address inserted_last
                                 (move_pair (r_pair found) (sub64 address (r_address found))) new_attr type_id)
                               (bt_insert (r_address found)
                                 (new_full (r_address found) (sub64 address 1) (r_pair found) old_attr (r_type found)) t));
                   t = (if r_last found \<noteq> inserted_last
                        then bt_insert inserted_end (new_full inserted_end (r_last found)
                               (move_pair (r_pair found) (sub64 inserted_end (r_address found))) old_attr (r_type found)) t
                        else t)
               in (True, t))"

section \<open>Random aligned regions\<close>

text \<open>
  \<open>generate_random_range\<close> of the board: draws until one falls below the largest multiple of the size
  of the range. The answer is the number and the rest of the supply; nothing when that is used up.
  A range of size 0 divides by zero, which panics.
\<close>

fun draw_below :: "nat \<Rightarrow> nat list \<Rightarrow> (nat \<times> nat list) option" where
  "draw_below bound [] = None"
| "draw_below bound (rnd # rs) = (if rnd < bound then Some (rnd, rs) else draw_below bound rs)"

definition generate_random_range :: "nat \<Rightarrow> nat \<Rightarrow> nat list \<Rightarrow> ((nat \<times> nat list) option) option" where
  "generate_random_range mn mx rs =
     (if mx = U64_MAX \<and> mn = 0 then Some (case rs of [] \<Rightarrow> None | r # rs \<Rightarrow> Some (r, rs))
      else let range_size = sub64 (add64 mx 1) mn
        in if range_size = 0 then None
           else Some (map_option (\<lambda>(rnd, rs). (add64 mn (rnd mod range_size), rs))
             (draw_below (mul64 (U64_MAX div range_size) range_size) rs)))"

lemma draw_below_shorter: "draw_below bound rs = Some (r, rs') \<Longrightarrow> length rs' < length rs"
  by (induction rs) (auto split: if_splits)

lemma random_range_shorter: "generate_random_range mn mx rs = Some (Some (r, rs')) \<Longrightarrow> length rs' < length rs"
  by (auto simp: generate_random_range_def Let_def split: if_splits list.splits dest!: draw_below_shorter)

text \<open>The loop of \<open>get_random_aligned_region\<close>; the outer \<open>None\<close> is a panic, the inner an exhausted supply.\<close>

function aligned_region_loop ::
  "nat \<Rightarrow> nat \<Rightarrow> nat \<Rightarrow> nat \<Rightarrow> nat \<Rightarrow> u32 \<Rightarrow> region_tree \<Rightarrow> nat list \<Rightarrow> (nat option) option" where
  "aligned_region_loop first_index last_index ext_last sz alignment type_id t rs = do {
     draw \<leftarrow> generate_random_range first_index last_index rs;
     case draw of
       None \<Rightarrow> Some None
     | Some (rnd, rs) \<Rightarrow>
         let candidate = mul64 rnd alignment; ende = add64 candidate sz
         in if candidate \<ge> ende then aligned_region_loop first_index last_index ext_last sz alignment type_id t rs
         else let last = sub64 ende 1
         in if last > ext_last then aligned_region_loop first_index last_index ext_last sz alignment type_id t rs
         else do {
           region \<leftarrow> tree_find candidate t;
           if last \<le> r_last region \<and> r_type region = type_id then Some (Some candidate)
           else aligned_region_loop first_index last_index ext_last sz alignment type_id t rs } }"
  by pat_completeness auto
termination
  by (relation "measure (\<lambda>(_, _, _, _, _, _, _, rs). length rs)") (auto dest: random_range_shorter)

declare aligned_region_loop.simps [simp del]

definition get_random_aligned_region ::
  "nat \<Rightarrow> nat \<Rightarrow> u32 \<Rightarrow> region_tree \<Rightarrow> nat list \<Rightarrow> (nat option) option" where
  "get_random_aligned_region sz alignment type_id t rs = do {
     let extents = get_derived_region_extents_raw type_id t;
     a \<leftarrow> extents_address extents;
     guard_panic (alignment \<noteq> 0);
     guard_panic (a mod alignment = 0);
     l \<leftarrow> extents_last extents;
     aligned_region_loop (a div alignment) (l div alignment) l sz alignment type_id t rs }"

definition get_random_aligned_region_with_guard ::
  "nat \<Rightarrow> nat \<Rightarrow> u32 \<Rightarrow> nat \<Rightarrow> region_tree \<Rightarrow> nat list \<Rightarrow> (nat option) option" where
  "get_random_aligned_region_with_guard sz alignment type_id guard_size t rs =
     map_option (map_option (\<lambda>a. add64 a guard_size))
       (get_random_aligned_region (add64 sz (mul64 guard_size 2)) alignment type_id t rs)"

text \<open>The allocator of regions: a vector; its size is only checked in debug builds.\<close>

type_synonym KMemoryRegionAllocator = "KMemoryRegion list"

definition ra_new :: KMemoryRegionAllocator where
  "ra_new = []"

definition ra_allocate :: "KMemoryRegion \<Rightarrow> KMemoryRegionAllocator \<Rightarrow> nat \<times> KMemoryRegionAllocator" where
  "ra_allocate region regions = (length regions, regions @ [region])"

definition ra_get :: "nat \<Rightarrow> KMemoryRegionAllocator \<Rightarrow> KMemoryRegion option" where
  "ra_get index regions = (if index < length regions then Some (regions ! index) else None)"

section \<open>The layout\<close>

definition divide_up :: "nat \<Rightarrow> nat \<Rightarrow> nat" where
  "divide_up x y = add64 x (sub64 y 1) div y"

definition L1_BLOCK_SIZE :: nat where "L1_BLOCK_SIZE = 2 ^ 30"
definition L2_BLOCK_SIZE :: nat where "L2_BLOCK_SIZE = 2 * 2 ^ 20"

definition get_maximum_overhead_size :: "nat \<Rightarrow> nat" where
  "get_maximum_overhead_size sz =
     mul64 (add64 (divide_up sz L1_BLOCK_SIZE) (divide_up sz L2_BLOCK_SIZE)) PAGE_SIZE"

definition MAIN_MEMORY_SIZE_MAX :: nat where "MAIN_MEMORY_SIZE_MAX = 12 * 2 ^ 30"
definition KERNEL_ASLR_ALIGNMENT :: nat where "KERNEL_ASLR_ALIGNMENT = 2 * 2 ^ 20"
definition KERNEL_VIRTUAL_ADDRESS_SPACE_WIDTH :: nat where "KERNEL_VIRTUAL_ADDRESS_SPACE_WIDTH = 2 ^ 39"
definition KERNEL_VIRTUAL_ADDRESS_SPACE_BASE :: nat where
  "KERNEL_VIRTUAL_ADDRESS_SPACE_BASE = sub64 0 KERNEL_VIRTUAL_ADDRESS_SPACE_WIDTH"
definition KERNEL_VIRTUAL_ADDRESS_SPACE_END :: nat where
  "KERNEL_VIRTUAL_ADDRESS_SPACE_END =
     add64 KERNEL_VIRTUAL_ADDRESS_SPACE_BASE (KERNEL_VIRTUAL_ADDRESS_SPACE_WIDTH - KERNEL_ASLR_ALIGNMENT)"
definition KERNEL_PAGE_TABLE_HEAP_SIZE :: nat where
  "KERNEL_PAGE_TABLE_HEAP_SIZE = get_maximum_overhead_size MAIN_MEMORY_SIZE_MAX"
definition KERNEL_INITIAL_PAGE_HEAP_SIZE :: nat where "KERNEL_INITIAL_PAGE_HEAP_SIZE = 128 * 1024"
definition KERNEL_SLAB_HEAP_DATA_SIZE :: nat where "KERNEL_SLAB_HEAP_DATA_SIZE = 5 * 2 ^ 20"
definition KERNEL_SLAB_HEAP_GAPS_SIZE_MAX :: nat where "KERNEL_SLAB_HEAP_GAPS_SIZE_MAX = 2 * 2 ^ 20 - 64 * 1024"
definition KERNEL_SLAB_HEAP_SIZE :: nat where
  "KERNEL_SLAB_HEAP_SIZE = KERNEL_SLAB_HEAP_DATA_SIZE + KERNEL_SLAB_HEAP_GAPS_SIZE_MAX"
definition KERNEL_PAGE_BUFFER_HEAP_SIZE :: nat where "KERNEL_PAGE_BUFFER_HEAP_SIZE = 0x3E0000"
definition KERNEL_SLAB_HEAP_ADDITIONAL_SIZE :: nat where "KERNEL_SLAB_HEAP_ADDITIONAL_SIZE = 0x148000"
definition KERNEL_PAGE_BUFFER_ADDITIONAL_SIZE :: nat where "KERNEL_PAGE_BUFFER_ADDITIONAL_SIZE = 0x33C000"
definition KERNEL_RESOURCE_SIZE :: nat where
  "KERNEL_RESOURCE_SIZE = KERNEL_PAGE_TABLE_HEAP_SIZE + KERNEL_INITIAL_PAGE_HEAP_SIZE +
     KERNEL_SLAB_HEAP_SIZE + KERNEL_PAGE_BUFFER_HEAP_SIZE"
definition SECURE_APPLET_MEMORY_SIZE :: nat where "SECURE_APPLET_MEMORY_SIZE = 4 * 1024 * 1024"

definition is_kernel_address :: "nat \<Rightarrow> bool" where
  "is_kernel_address address \<longleftrightarrow>
     KERNEL_VIRTUAL_ADDRESS_SPACE_BASE \<le> address \<and> address < KERNEL_VIRTUAL_ADDRESS_SPACE_END"

record KMemoryLayout =
  linear_phys_to_virt_diff :: nat
  linear_virt_to_phys_diff :: nat
  virtual_tree :: region_tree
  physical_tree :: region_tree
  virtual_linear_tree :: region_tree
  physical_linear_tree :: region_tree

definition layout_new :: KMemoryLayout where
  "layout_new = \<lparr>linear_phys_to_virt_diff = 0, linear_virt_to_phys_diff = 0, virtual_tree = [],
     physical_tree = [], virtual_linear_tree = [], physical_linear_tree = []\<rparr>"

definition get_linear_virtual_address :: "nat \<Rightarrow> KMemoryLayout \<Rightarrow> nat" where
  "get_linear_virtual_address address l = add64 address (linear_phys_to_virt_diff l)"

definition get_linear_physical_address :: "nat \<Rightarrow> KMemoryLayout \<Rightarrow> nat" where
  "get_linear_physical_address address l = add64 address (linear_virt_to_phys_diff l)"

definition find_virtual :: "nat \<Rightarrow> KMemoryLayout \<Rightarrow> KMemoryRegion option" where
  "find_virtual address l = tree_find address (virtual_tree l)"

definition find_physical :: "nat \<Rightarrow> KMemoryLayout \<Rightarrow> KMemoryRegion option" where
  "find_physical address l = tree_find address (physical_tree l)"

definition find_virtual_linear :: "nat \<Rightarrow> KMemoryLayout \<Rightarrow> KMemoryRegion option" where
  "find_virtual_linear address l = tree_find address (virtual_linear_tree l)"

definition find_physical_linear :: "nat \<Rightarrow> KMemoryLayout \<Rightarrow> KMemoryRegion option" where
  "find_physical_linear address l = tree_find address (physical_linear_tree l)"

text \<open>The loop that copies the selected regions into another tree.\<close>

definition copy_regions :: "(KMemoryRegion \<Rightarrow> bool) \<Rightarrow> region_tree \<Rightarrow> region_tree \<Rightarrow> region_tree" where
  "copy_regions sel source t =
     fold (\<lambda>r t. insert_directly (r_address r) (r_last r) (r_attributes r) (r_type r) t)
       (filter sel (map snd source)) t"

definition initialize_linear_memory_region_trees :: "nat \<Rightarrow> nat \<Rightarrow> KMemoryLayout \<Rightarrow> KMemoryLayout" where
  "initialize_linear_memory_region_trees aligned_linear_phys_start linear_virtual_start l =
     (let l = l\<lparr>linear_phys_to_virt_diff := sub64 linear_virtual_start aligned_linear_phys_start,
                linear_virt_to_phys_diff := sub64 aligned_linear_phys_start linear_virtual_start\<rparr>;
          l = l\<lparr>physical_linear_tree := copy_regions (has_type_attribute K_MEMORY_REGION_ATTR_LINEAR_MAPPED)
                  (physical_tree l) (physical_linear_tree l)\<rparr>
      in l\<lparr>virtual_linear_tree := copy_regions (is_derived_from K_MEMORY_REGION_TYPE_DRAM)
             (virtual_tree l) (virtual_linear_tree l)\<rparr>)"

definition get_resource_region_size_for_init :: "bool \<Rightarrow> nat" where
  "get_resource_region_size_for_init use_extra_resource =
     add64 (add64 KERNEL_RESOURCE_SIZE SECURE_APPLET_MEMORY_SIZE)
       (if use_extra_resource then add64 KERNEL_SLAB_HEAP_ADDITIONAL_SIZE KERNEL_PAGE_BUFFER_ADDITIONAL_SIZE else 0)"

definition get_main_memory_physical_extents :: "KMemoryLayout \<Rightarrow> DerivedRegionExtents" where
  "get_main_memory_physical_extents l = get_derived_region_extents K_MEMORY_REGION_TYPE_DRAM (physical_tree l)"

definition get_total_and_kernel_memory_sizes :: "KMemoryLayout \<Rightarrow> nat \<times> nat" where
  "get_total_and_kernel_memory_sizes l =
     fold (\<lambda>r (total_size, kernel_size).
         if is_derived_from K_MEMORY_REGION_TYPE_DRAM r
         then (add64 total_size (r_size r),
               if is_derived_from K_MEMORY_REGION_TYPE_DRAM_USER_POOL r then kernel_size
               else add64 kernel_size (r_size r))
         else (total_size, kernel_size))
       (map snd (physical_tree l)) (0, 0)"

section \<open>Trees of disjoint regions\<close>

text \<open>
  The invariant: the regions are disjoint and in order, each at the key that is its address, none
  reaches the last byte of the address space, and pair ranges do not wrap.
\<close>

fun regions_ok :: "nat \<Rightarrow> region_tree \<Rightarrow> bool" where
  "regions_ok lo [] \<longleftrightarrow> True"
| "regions_ok lo ((k, r) # t) \<longleftrightarrow> k = r_address r \<and> lo \<le> k \<and> k \<le> r_last r \<and> r_last r < U64_MAX \<and>
     (r_pair r = U64_MAX \<or> r_pair r + (r_last r - k) < U64_MAX) \<and> regions_ok (Suc (r_last r)) t"

text \<open>What the tree says of an address: its type, its attributes and its pair address.\<close>

definition pair_of :: "nat \<Rightarrow> KMemoryRegion \<Rightarrow> nat option" where
  "pair_of x r = (if r_pair r = U64_MAX then None else Some (r_pair r + (x - r_address r)))"

definition region_at :: "nat \<Rightarrow> region_tree \<Rightarrow> (u32 \<times> u32 \<times> nat option) option" where
  "region_at x t = map_option (\<lambda>r. (r_type r, r_attributes r, pair_of x r)) (tree_find x t)"

lemma regions_ok_mono: "regions_ok lo t \<Longrightarrow> lo' \<le> lo \<Longrightarrow> regions_ok lo' t"
  by (cases t) auto

lemma regions_ok_keys: "regions_ok lo t \<Longrightarrow> (k, r) \<in> set t \<Longrightarrow> k = r_address r \<and> lo \<le> k \<and> k \<le> r_last r \<and> r_last r < U64_MAX"
proof (induction t arbitrary: lo)
  case (Cons e t)
  obtain k' r' where e: "e = (k', r')" by force
  show ?case
  proof (cases "(k, r) = e")
    case False
    then show ?thesis using Cons.IH [of "Suc (r_last r')"] Cons.prems e by fastforce
  qed (use Cons.prems e in auto)
qed simp

lemma regions_ok_sorted: "regions_ok lo t \<Longrightarrow> bt_sorted t"
proof (induction t arbitrary: lo)
  case (Cons e t)
  obtain k r where e: "e = (k, r)" by force
  have t: "regions_ok (Suc (r_last r)) t" "k \<le> r_last r" using Cons.prems e by auto
  then have "\<forall>a \<in> set t. k < fst a" using regions_ok_keys [OF t(1)] by fastforce
  then show ?case using Cons.IH [OF t(1)] e by (simp add: bt_sorted_Cons)
qed (simp add: bt_sorted_def)

lemma regions_ok_append:
  "regions_ok lo (xs @ ys) \<longleftrightarrow> regions_ok lo xs \<and> regions_ok (if xs = [] then lo else Suc (r_last (snd (last xs)))) ys"
  by (induction xs arbitrary: lo) auto

lemma regions_ok_mid:
  "regions_ok lo (xs @ (k, r) # ys) \<longleftrightarrow> regions_ok lo xs \<and>
     (if xs = [] then lo else Suc (r_last (snd (last xs)))) \<le> k \<and> k = r_address r \<and> k \<le> r_last r \<and> r_last r < U64_MAX \<and>
     (r_pair r = U64_MAX \<or> r_pair r + (r_last r - k) < U64_MAX) \<and> regions_ok (Suc (r_last r)) ys"
  by (auto simp: regions_ok_append)

lemma regions_before: "regions_ok lo (xs @ (k, r) # ys) \<Longrightarrow> (k', r') \<in> set xs \<Longrightarrow> r_last r' < k"
proof (induction xs arbitrary: lo)
  case (Cons e xs)
  obtain k1 r1 where e: "e = (k1, r1)" by force
  then have ok: "regions_ok (Suc (r_last r1)) (xs @ (k, r) # ys)" using Cons.prems(1) by simp
  have "Suc (r_last r1) \<le> k" using regions_ok_keys [OF ok, of k r] by simp
  then show ?case using Cons.IH [OF ok] Cons.prems(2) e by auto
qed simp

text \<open>The lookup by the last entry finds the region that holds the address.\<close>

lemma find_append: "find P (xs @ ys) = (case find P xs of None \<Rightarrow> find P ys | Some x \<Rightarrow> Some x)"
  by (induction xs) auto

lemma last_le_region:
  assumes "regions_ok lo (xs @ (k, r) # ys)" "k \<le> x" "x \<le> r_last r"
  shows "last_le x (xs @ (k, r) # ys) = Some (k, r)"
proof -
  have "regions_ok (Suc (r_last r)) ys" using assms(1) by (simp add: regions_ok_mid)
  then have "\<forall>e \<in> set ys. x < fst e" using regions_ok_keys assms(3) by fastforce
  then show ?thesis using last_le_at [OF regions_ok_sorted [OF assms(1)] assms(2)] by blast
qed

lemma tree_find_eq:
  assumes "regions_ok lo t"
  shows "tree_find x t = find (region_contains x) (map snd t)"
proof (cases "\<exists>(k, r) \<in> set t. region_contains x r")
  case True
  then obtain k r where m: "(k, r) \<in> set t" "region_contains x r" by blast
  obtain xs ys where t: "t = xs @ (k, r) # ys" using m(1) by (meson split_list)
  note ok = assms [unfolded t]
  have kx: "k \<le> x" "x \<le> r_last r" using regions_ok_keys [OF assms m(1)] m(2) by (simp_all add: region_contains_def)
  have "\<forall>a \<in> set xs. \<not> region_contains x (snd a)"
    using regions_before [OF ok] kx by (fastforce simp: region_contains_def)
  then have "find (region_contains x) (map snd xs) = None" by (simp add: find_None_iff)
  then show ?thesis using last_le_region [OF ok kx] m(2) unfolding t by (simp add: tree_find_def find_append)
next
  case False
  then have "find (region_contains x) (map snd t) = None" by (auto simp: find_None_iff)
  moreover have "tree_find x t = None"
  proof (cases "last_le x t")
    case (Some e)
    obtain k r where e: "e = (k, r)" by force
    have "e \<in> set t" using Some last_in_set [of "filter (\<lambda>e. fst e \<le> x) t"]
      by (auto simp: last_le_def Let_def split: if_splits)
    then have "\<not> region_contains x r" using False e by blast
    then show ?thesis using Some e by (simp add: tree_find_def)
  qed (simp add: tree_find_def)
  ultimately show ?thesis by simp
qed

lemma region_at_eq:
  assumes "regions_ok lo t"
  shows "region_at x t = map_option (\<lambda>r. (r_type r, r_attributes r, pair_of x r)) (find (region_contains x) (map snd t))"
  by (simp add: region_at_def tree_find_eq [OF assms])

section \<open>Insertion\<close>

text \<open>What \<open>insert\<close> makes of a region: the part before, the new part, and the part after.\<close>

definition cut_region :: "nat \<Rightarrow> nat \<Rightarrow> u32 \<Rightarrow> u32 \<Rightarrow> KMemoryRegion \<Rightarrow> region_tree" where
  "cut_region a e ty attr r =
     (if r_address r = a then []
      else [(r_address r, new_full (r_address r) (a - 1) (r_pair r) (r_attributes r) (r_type r))]) @
     [(a, new_full a (e - 1) (move_pair (r_pair r) (a - r_address r)) attr ty)] @
     (if r_last r = e - 1 then []
      else [(e, new_full e (r_last r) (move_pair (r_pair r) (e - r_address r)) (r_attributes r) (r_type r))])"

lemma tree_insert_cut:
  assumes "regions_ok lo (xs @ (k, r) # ys)" "k \<le> a" "0 < sz" "a + sz - 1 \<le> r_last r"
    "r_attributes r = old_attr" "can_derive ty r"
  shows "tree_insert a sz ty attr old_attr (xs @ (k, r) # ys) = (True, xs @ cut_region a (a + sz) ty attr r @ ys)"
proof -
  let ?t = "xs @ (k, r) # ys"
  have k: "k = r_address r" "r_last r < U64_MAX" using regions_ok_keys [OF assms(1), of k r] by auto
  have ar: "a \<le> r_last r" using assms(3,4) by linarith
  have l: "last_le a ?t = Some (k, r)" using last_le_region [OF assms(1,2) ar] .
  have n: "add64 a sz = a + sz" "sub64 (a + sz) 1 = a + sz - 1" "sub64 a k = a - k" "sub64 (a + sz) k = a + sz - k"
    "k < a \<Longrightarrow> sub64 a 1 = a - 1"
    using assms(2-4) k by (simp_all del: One_nat_def)
  have mp: "move_pair (r_pair r) 0 = r_pair r"
    using assms(1) by (auto simp: regions_ok_mid move_pair_def)
  have "region_contains a r" using k assms(2) ar by (simp add: region_contains_def)
  moreover have rm: "bt_remove k ?t = xs @ ys" using bt_at(2) [OF regions_ok_sorted [OF assms(1)]] .
  moreover have so: "\<forall>e \<in> set xs. fst e < k" "\<forall>e \<in> set ys. r_last r < fst e"
  proof -
    show "\<forall>e \<in> set xs. fst e < k" using regions_ok_sorted [OF assms(1)] by (auto simp: bt_sorted_mid)
    have "regions_ok (Suc (r_last r)) ys" using assms(1) by (simp add: regions_ok_mid)
    then show "\<forall>e \<in> set ys. r_last r < fst e" using regions_ok_keys by fastforce
  qed
  have ins1: "bt_insert a v (xs @ ys) = xs @ (a, v) # ys" if "k = a" for v
    using so that ar by (intro bt_insert_at) fastforce+
  have ins2: "bt_insert a w (bt_insert k v (xs @ ys)) = xs @ (k, v) # (a, w) # ys" if "k < a" for v w
  proof -
    have "bt_insert k v (xs @ ys) = xs @ (k, v) # ys" using so assms(2) ar by (intro bt_insert_at) fastforce+
    moreover have "bt_insert a w ((xs @ [(k, v)]) @ ys) = (xs @ [(k, v)]) @ (a, w) # ys"
      using so that ar by (intro bt_insert_at) fastforce+
    ultimately show ?thesis by simp
  qed
  have ins3: "bt_insert (a + sz) w (zs @ (a, v) # ys) = zs @ (a, v) # (a + sz, w) # ys"
    if "a + sz - 1 < r_last r" "\<forall>e \<in> set zs. fst e < a" for v w zs
  proof -
    have "bt_insert (a + sz) w ((zs @ [(a, v)]) @ ys) = (zs @ [(a, v)]) @ (a + sz, w) # ys"
      using so that assms(3) by (intro bt_insert_at) fastforce+
    then show ?thesis by simp
  qed
  have before: "\<forall>e \<in> set xs. fst e < a" "k < a \<Longrightarrow> \<forall>e \<in> set (xs @ [(k, v)]). fst e < a" for v
    using so(1) assms(2) by fastforce+
  show ?thesis
  proof (cases "k = a")
    case True
    then show ?thesis
      using l \<open>region_contains a r\<close> rm n ins1 ins3 [OF _ before(1)] assms(4-6) k(1)
      by (cases "r_last r = a + sz - 1") (simp_all add: tree_insert_def cut_region_def Let_def mp)
  next
    case False
    then have ka: "k < a" using assms(2) by simp
    then show ?thesis
      using l \<open>region_contains a r\<close> rm n(1-4) n(5) [OF ka] ins2 [OF ka] ins3 [OF _ before(2) [OF ka]] assms(4-6) k(1)
      by (cases "r_last r = a + sz - 1") (simp_all add: tree_insert_def cut_region_def Let_def)
  qed
qed

lemma cut_region_ok:
  assumes "regions_ok lo [(k, r)]" "k \<le> a" "0 < sz" "a + sz - 1 \<le> r_last r" "regions_ok (Suc (r_last r)) ys"
  shows "regions_ok lo (cut_region a (a + sz) ty attr r @ ys)"
    "map_option (\<lambda>r. (r_type r, r_attributes r, pair_of x r)) (find (region_contains x) (map snd (cut_region a (a + sz) ty attr r))) =
      (if region_contains x r
       then Some (if a \<le> x \<and> x < a + sz then (ty, attr, pair_of x r) else (r_type r, r_attributes r, pair_of x r))
       else None)"
proof -
  have r: "k = r_address r" "lo \<le> k" "k \<le> r_last r" "r_last r < U64_MAX" "r_pair r = U64_MAX \<or> r_pair r + (r_last r - k) < U64_MAX"
    using assms(1) unfolding regions_ok.simps by blast+
  have mv: "move_pair (r_pair r) d = (if r_pair r = U64_MAX then U64_MAX else r_pair r + d)" "r_pair r \<noteq> U64_MAX \<Longrightarrow> r_pair r + d \<noteq> U64_MAX"
    if "d \<le> r_last r - k" for d
    using that r(5) by (auto simp: move_pair_def)
  obtain l where l: "a + sz = Suc l" using assms(3) by (cases "a + sz") simp_all
  have al: "a \<le> l" "l \<le> r_last r" using l assms(3,4) by simp_all
  have mv: "move_pair (r_pair r) (a - k) = (if r_pair r = U64_MAX then U64_MAX else r_pair r + (a - k))"
    "r_last r \<noteq> l \<Longrightarrow> move_pair (r_pair r) (Suc l - k) = (if r_pair r = U64_MAX then U64_MAX else r_pair r + (Suc l - k))"
    "r_pair r = U64_MAX \<or> r_pair r + (l - k) < U64_MAX \<and> r_pair r + (a - k) < U64_MAX"
    "r_pair r = U64_MAX \<or> r_pair r + (a - Suc 0 - k) < U64_MAX \<and> r_pair r + (a - k) + (l - a) < U64_MAX"
    "r_last r \<noteq> l \<Longrightarrow> r_pair r = U64_MAX \<or>
      r_pair r + (Suc l - k) + (r_last r - Suc l) < U64_MAX \<and> r_pair r + (Suc l - k) < U64_MAX"
    using r(5) assms(2) al by (auto simp: move_pair_def)
  have pre: "k \<noteq> a \<Longrightarrow> k \<le> a - Suc 0 \<and> a - Suc 0 < U64_MAX \<and> Suc (a - Suc 0) = a" "l < U64_MAX"
    "r_last r \<noteq> l \<Longrightarrow> Suc l \<le> r_last r"
    using assms(2) al r(4) by linarith+
  note cut = cut_region_def new_full_def l r(1) [symmetric]
  consider (1) "k = a" "r_last r = l" | (2) "k = a" "r_last r \<noteq> l" | (3) "k \<noteq> a" "r_last r = l" | (4) "k \<noteq> a" "r_last r \<noteq> l"
    by blast
  note cs = this
  show "regions_ok lo (cut_region a (a + sz) ty attr r @ ys)"
    using cs
  proof cases
    case 1
    then show ?thesis using mv(1,3,4) al assms(5) r(2-4) pre(2) by (auto simp: cut)
  next
    case 2
    then show ?thesis using mv(1,3,4) mv(2,5) [OF 2(2)] al assms(5) r(2-4) pre(2) pre(3) [OF 2(2)] by (auto simp: cut)
  next
    case 3
    then show ?thesis using mv(1,3,4) al assms(2,5) r(2-4) pre(1) [OF 3(1)] pre(2) by (auto simp: cut)
  next
    case 4
    then show ?thesis using mv(1,3,4) mv(2,5) [OF 4(2)] al assms(2,5) r(2-4) pre(1) [OF 4(1)] pre(2) pre(3) [OF 4(2)] by (auto simp: cut)
  qed
  let ?f = "\<lambda>r. (r_type r, r_attributes r, pair_of x r)"
  have pair: "a \<le> x \<Longrightarrow> pair_of x (new_full a l (move_pair (r_pair r) (a - k)) attr ty) = pair_of x r"
    "Suc l \<le> x \<Longrightarrow> r_last r \<noteq> l \<Longrightarrow>
      pair_of x (new_full (Suc l) (r_last r) (move_pair (r_pair r) (Suc l - k)) (r_attributes r) (r_type r)) = pair_of x r"
    "pair_of x (new_full k (a - Suc 0) (r_pair r) (r_attributes r) (r_type r)) = pair_of x r"
    using mv assms(2) al r(1) by (auto simp: pair_of_def new_full_def)
  have hold: "region_contains x (new_full lo hi p at t) \<longleftrightarrow> lo \<le> x \<and> x \<le> hi" for lo hi p at t
    by (simp add: region_contains_def new_full_def)
  have sel: "r_type (new_full lo hi p at t) = t" "r_attributes (new_full lo hi p at t) = at" for lo hi p at t
    by (simp_all add: new_full_def)
  have rx: "region_contains x r \<longleftrightarrow> k \<le> x \<and> x \<le> r_last r" by (simp add: region_contains_def r(1))
  note cut' = cut_region_def l r(1) [symmetric] hold sel rx find_append
  consider (a) "x < k" | (b) "k \<le> x" "x < a" | (c) "a \<le> x" "x \<le> l" | (d) "Suc l \<le> x" "x \<le> r_last r" | (e) "r_last r < x"
    by linarith
  then show "map_option ?f (find (region_contains x) (map snd (cut_region a (a + sz) ty attr r))) =
      (if region_contains x r
       then Some (if a \<le> x \<and> x < a + sz then (ty, attr, pair_of x r) else (r_type r, r_attributes r, pair_of x r))
       else None)"
  proof cases
    case a
    then show ?thesis using assms(2) al by (simp add: cut')
  next
    case b
    then show ?thesis using assms(2) al pair(3) by (auto simp: cut')
  next
    case c
    then have "\<not> x \<le> a - Suc 0 \<or> k = a" using assms(2) by linarith
    then show ?thesis using c assms(2) al pair(1) by (auto simp: cut')
  next
    case d
    then have "\<not> x \<le> a - Suc 0" "\<not> x \<le> l" "r_last r \<noteq> l" using al by linarith+
    then show ?thesis using d assms(2) al pair(2) by (auto simp: cut')
  next
    case e
    then have "\<not> x \<le> a - Suc 0" "\<not> x \<le> l" using al by linarith+
    then show ?thesis using e al by (simp add: cut')
  qed
qed

text \<open>The region that holds the range is cut around it.\<close>

lemma region_insert_done:
  assumes "regions_ok lo t" "0 < sz" "a + sz < W64"
    and r: "tree_find a t = Some r" "r_attributes r = old_attr" "a + sz - 1 \<le> r_last r" "can_derive ty r"
  shows "\<exists>t'. tree_insert a sz ty attr old_attr t = (True, t') \<and> regions_ok lo t' \<and> (\<forall>x. region_at x t' =
     (if a \<le> x \<and> x < a + sz then map_option (\<lambda>(_, _, p). (ty, attr, p)) (region_at x t) else region_at x t))"
proof -
  obtain k where k: "last_le a t = Some (k, r)" "region_contains a r"
    using r(1) by (auto simp: tree_find_def split: option.splits if_splits)
  then have "(k, r) \<in> set t" using last_in_set [of "filter (\<lambda>e. fst e \<le> a) t"]
    by (auto simp: last_le_def Let_def split: if_splits)
  then obtain xs ys where t: "t = xs @ (k, r) # ys" by (meson split_list)
  note ok = assms(1) [unfolded t]
  define lo' where "lo' = (if xs = [] then lo else Suc (r_last (snd (last xs))))"
  have m: "regions_ok lo xs" "regions_ok lo' [(k, r)]" "regions_ok (Suc (r_last r)) ys"
    using ok by (auto simp: regions_ok_append lo'_def)
  have ka: "k \<le> a" using k(2) m(2) by (simp add: region_contains_def)
  let ?c = "cut_region a (a + sz) ty attr r"
  have run: "tree_insert a sz ty attr old_attr t = (True, xs @ ?c @ ys)"
    unfolding t by (rule tree_insert_cut [OF ok ka assms(2) r(3,2,4)])
  note c = cut_region_ok [OF m(2) ka assms(2) r(3) m(3), where ty = ty and attr = attr]
  have ok': "regions_ok lo (xs @ ?c @ ys)" using m(1) c(1) by (simp add: regions_ok_append lo'_def)
  have "region_at x (xs @ ?c @ ys) = (if a \<le> x \<and> x < a + sz then map_option (\<lambda>(_, _, p). (ty, attr, p)) (region_at x t)
      else region_at x t)" for x
  proof (cases "find (region_contains x) (map snd xs)")
    case None
    have "\<not> (a \<le> x \<and> x < a + sz)" if "\<not> region_contains x r"
      using that k(2) r(3) by (auto simp: region_contains_def)
    then show ?thesis
      using None c(2) [of x] unfolding region_at_eq [OF assms(1)] region_at_eq [OF ok']
      by (auto simp: t find_append split: option.splits)
  next
    case (Some r')
    then have "r' \<in> snd ` set xs" "region_contains x r'" by (auto simp: find_Some_iff intro!: image_eqI)
    then obtain k' where "(k', r') \<in> set xs" "region_contains x r'" by force
    then have "x < k" using regions_before [OF ok] by (fastforce simp: region_contains_def)
    then show ?thesis using Some ka unfolding region_at_eq [OF assms(1)] region_at_eq [OF ok']
      by (simp add: t find_append)
  qed
  then show ?thesis using run ok' by blast
qed

lemma region_insert_refused:
  assumes "regions_ok lo t" "0 < sz" "a + sz < W64"
    "\<not> (\<exists>r. tree_find a t = Some r \<and> r_attributes r = old_attr \<and> a + sz - 1 \<le> r_last r \<and> can_derive ty r)"
  shows "tree_insert a sz ty attr old_attr t = (False, t)"
proof (cases "last_le a t")
  case (Some e)
  obtain k r where e: "e = (k, r)" by force
  have "(k, r) \<in> set t" using Some e last_in_set [of "filter (\<lambda>e. fst e \<le> a) t"]
    by (auto simp: last_le_def Let_def split: if_splits)
  then have l: "r_last r < U64_MAX" using regions_ok_keys [OF assms(1)] by blast
  show ?thesis
  proof (cases "region_contains a r \<and> r_attributes r = old_attr \<and> can_derive ty r")
    case True
    then have "tree_find a t = Some r" using Some e by (simp add: tree_find_def)
    then have "\<not> a + sz - 1 \<le> r_last r" using assms(4) True by blast
    then have "r_last r < sub64 (add64 a sz) 1" using assms(2,3) by (simp del: One_nat_def)
    then show ?thesis using Some e by (simp add: tree_insert_def Let_def)
  qed (use Some e in \<open>auto simp: tree_insert_def Let_def\<close>)
qed (simp add: tree_insert_def)

text \<open>
  C18: \<open>insert\<close> into a tree of disjoint regions succeeds exactly when one region holds the whole new
  range, has the old attributes and can become the new type; a failure changes nothing. After a
  success the tree is again one of disjoint regions, every address of the range has the new type
  and attributes, every other address what it had, and the pair address of every address is kept.
\<close>

theorem region_insert_exact:
  assumes "regions_ok lo t" "0 < sz" "a + sz < W64"
  shows "case tree_insert a sz ty attr old_attr t of (ok, t') \<Rightarrow>
    (ok \<longleftrightarrow> (\<exists>r. tree_find a t = Some r \<and> r_attributes r = old_attr \<and> a + sz - 1 \<le> r_last r \<and> can_derive ty r)) \<and>
    (\<not> ok \<longrightarrow> t' = t) \<and>
    (ok \<longrightarrow> regions_ok lo t' \<and> (\<forall>x. region_at x t' =
       (if a \<le> x \<and> x < a + sz then map_option (\<lambda>(_, _, p). (ty, attr, p)) (region_at x t) else region_at x t)))"
proof (cases "\<exists>r. tree_find a t = Some r \<and> r_attributes r = old_attr \<and> a + sz - 1 \<le> r_last r \<and> can_derive ty r")
  case True
  then obtain r where r: "tree_find a t = Some r" "r_attributes r = old_attr" "a + sz - 1 \<le> r_last r" "can_derive ty r"
    by blast
  from region_insert_done [OF assms r, of attr] True show ?thesis by auto
next
  case False
  from region_insert_refused [OF assms this, of attr] False show ?thesis by simp
qed

lemma region_insert_exact_witness:
  "\<exists>t'. tree_insert 0x2000 0x1000 0x3 5 0 [(0, new_full 0 0xFFFF 0x80000 0 0x2)] = (True, t') \<and>
     region_at 0x2800 t' = Some (0x3, 5, Some 0x82800) \<and> region_at 0x3000 t' = Some (0x2, 0, Some 0x83000)"
proof -
  let ?t = "[(0, new_full 0 0xFFFF 0x80000 0 0x2)]"
  have "regions_ok 0 ?t" by (simp add: new_full_def)
  from region_insert_exact [OF this, where a = "0x2000" and sz = "0x1000" and ty = 3 and attr = 5 and old_attr = 0]
  have "case tree_insert 0x2000 0x1000 0x3 5 0 ?t of (ok, t') \<Rightarrow> ok \<and>
      (\<forall>x. region_at x t' = (if 0x2000 \<le> x \<and> x < 0x3000 then map_option (\<lambda>(_, _, p). (0x3, 5, p)) (region_at x ?t) else region_at x ?t))"
    by (auto simp: tree_find_def last_le_def new_full_def region_contains_def can_derive_def split: prod.splits)
  moreover have "region_at 0x2800 ?t = Some (0x2, 0, Some 0x82800)" "region_at 0x3000 ?t = Some (0x2, 0, Some 0x83000)"
    by (simp_all add: region_at_def tree_find_def last_le_def new_full_def region_contains_def pair_of_def)
  ultimately show ?thesis by (auto split: prod.splits)
qed

section \<open>The linear mapping\<close>

lemma copy_into:
  assumes "regions_ok lo t" "\<forall>e \<in> set acc. fst e < lo"
  shows "fold (\<lambda>r t. insert_directly (r_address r) (r_last r) (r_attributes r) (r_type r) t) (filter sel (map snd t)) acc =
    acc @ map (\<lambda>(k, r). (k, new_with_attr (r_address r) (r_last r) (r_attributes r) (r_type r))) (filter (\<lambda>e. sel (snd e)) t)"
  using assms
proof (induction t arbitrary: lo acc)
  case (Cons e t)
  obtain k r where e: "e = (k, r)" by force
  have r: "k = r_address r" "lo \<le> k" "k \<le> r_last r" "regions_ok (Suc (r_last r)) t" using Cons.prems(1) e by simp_all
  let ?n = "new_with_attr (r_address r) (r_last r) (r_attributes r) (r_type r)"
  have "bt_insert k ?n (acc @ []) = acc @ [(k, ?n)]" using Cons.prems(2) r by (intro bt_insert_at) auto
  then have i: "insert_directly (r_address r) (r_last r) (r_attributes r) (r_type r) acc = acc @ [(k, ?n)]"
    using r(1) by (simp add: insert_directly_def)
  have "\<forall>e \<in> set acc. fst e < Suc (r_last r)" "\<forall>e \<in> set (acc @ [(k, ?n)]). fst e < Suc (r_last r)"
    using Cons.prems(2) r(1-3) by fastforce+
  then show ?case
    using Cons.IH [OF r(4), of acc] Cons.IH [OF r(4), of "acc @ [(k, ?n)]"] e i by (cases "sel r") simp_all
qed simp

lemma find_copy:
  "find (region_contains x) (map (\<lambda>e. case e of (k, r) \<Rightarrow> new_with_attr (r_address r) (r_last r) (r_attributes r) (r_type r)) xs) =
    map_option (\<lambda>r. r\<lparr>r_pair := U64_MAX\<rparr>) (find (region_contains x) (map snd xs))"
  by (induction xs) (auto simp: region_contains_def new_with_attr_def)

lemma regions_ok_copy:
  "regions_ok lo t \<Longrightarrow>
    regions_ok lo (map (\<lambda>(k, r). (k, new_with_attr (r_address r) (r_last r) (r_attributes r) (r_type r))) (filter P t))"
proof (induction t arbitrary: lo)
  case (Cons e t)
  obtain k r where e: "e = (k, r)" by force
  have "regions_ok (Suc (r_last r)) t" "lo \<le> Suc (r_last r)" using Cons.prems e by auto
  then have "regions_ok (Suc (r_last r)) (map (\<lambda>(k, r). (k, new_with_attr (r_address r) (r_last r) (r_attributes r) (r_type r))) (filter P t))"
    using Cons.IH by blast
  then show ?case using Cons.prems e regions_ok_mono [of "Suc (r_last r)" _ lo]
    by (auto simp: new_with_attr_def)
qed simp

lemma find_selected:
  assumes "regions_ok lo t"
  shows "find (region_contains x) (map snd (filter (\<lambda>e. sel (snd e)) t)) =
    (case find (region_contains x) (map snd t) of None \<Rightarrow> None | Some r \<Rightarrow> if sel r then Some r else None)"
  using assms
proof (induction t arbitrary: lo)
  case (Cons e t)
  obtain k r where e: "e = (k, r)" by force
  have ok: "regions_ok (Suc (r_last r)) t" using Cons.prems e by simp
  show ?case
  proof (cases "region_contains x r")
    case True
    then have "\<forall>a \<in> set t. \<not> region_contains x (snd a)"
      using regions_ok_keys [OF ok] by (fastforce simp: region_contains_def)
    then have "find (region_contains x) (map snd (filter (\<lambda>e. sel (snd e)) t)) = None" by (auto simp: find_None_iff)
    then show ?thesis using True e by simp
  qed (use Cons.IH [OF ok] e in simp)
qed simp

lemma copy_regions_find:
  assumes "regions_ok lo t"
  shows "tree_find x (copy_regions sel t []) =
    (case tree_find x t of None \<Rightarrow> None | Some r \<Rightarrow> if sel r then Some (r\<lparr>r_pair := U64_MAX\<rparr>) else None)"
proof -
  let ?c = "map (\<lambda>(k, r). (k, new_with_attr (r_address r) (r_last r) (r_attributes r) (r_type r))) (filter (\<lambda>e. sel (snd e)) t)"
  have c: "copy_regions sel t [] = ?c" using copy_into [OF assms, of "[]"] by (simp add: copy_regions_def)
  have m: "map snd ?c = map (\<lambda>e. case e of (k, r) \<Rightarrow> new_with_attr (r_address r) (r_last r) (r_attributes r) (r_type r))
      (filter (\<lambda>e. sel (snd e)) t)" by (auto simp: o_def split: prod.splits)
  show ?thesis
    unfolding c tree_find_eq [OF regions_ok_copy [OF assms]] m find_copy find_selected [OF assms] tree_find_eq [OF assms]
    by (simp split: option.splits)
qed

lemma add_sub_round:
  assumes "p < W64" "v < W64" "b < W64"
  shows "add64 (add64 b (sub64 v p)) (sub64 p v) = b" "add64 p (sub64 v p) = v"
proof -
  have e: "b + (v + (W64 - p)) + (p + (W64 - v)) = b + 2 * W64" using assms by linarith
  have "(b + (v + (W64 - p)) + (p + (W64 - v))) mod W64 = b"
    unfolding e mod_mult_self1 by (rule mod_less [OF assms(3)])
  then show "add64 (add64 b (sub64 v p)) (sub64 p v) = b"
    unfolding add64_def sub64_def by (simp only: mod_add_left_eq mod_add_right_eq)
  have "p + (v + (W64 - p)) = v + W64" using assms(1) by linarith
  then have "(p + (v + (W64 - p))) mod W64 = v" using assms(2) by simp
  then show "add64 p (sub64 v p) = v" unfolding add64_def sub64_def by (simp only: mod_add_right_eq)
qed

text \<open>
  C19: The linear mapping of an initialized layout is a bijection of the 64-bit addresses that takes
  the physical start to the virtual start, whatever the two are; and the two linear trees answer
  for an address what the full trees answer, without pair address, exactly for the linearly mapped
  physical regions and for the virtual regions that descend from DRAM.
\<close>

theorem linear_mapping_correct:
  assumes "regions_ok 0 (physical_tree l)" "regions_ok 0 (virtual_tree l)"
    "physical_linear_tree l = []" "virtual_linear_tree l = []" "p < W64" "v < W64" "a < W64"
    "l' = initialize_linear_memory_region_trees p v l"
  shows "get_linear_physical_address (get_linear_virtual_address a l') l' = a \<and>
    get_linear_virtual_address (get_linear_physical_address a l') l' = a \<and>
    get_linear_virtual_address p l' = v \<and> get_linear_physical_address v l' = p \<and>
    find_physical_linear x l' = (case find_physical x l of None \<Rightarrow> None
      | Some r \<Rightarrow> if has_type_attribute K_MEMORY_REGION_ATTR_LINEAR_MAPPED r then Some (r\<lparr>r_pair := U64_MAX\<rparr>) else None) \<and>
    find_virtual_linear x l' = (case find_virtual x l of None \<Rightarrow> None
      | Some r \<Rightarrow> if is_derived_from K_MEMORY_REGION_TYPE_DRAM r then Some (r\<lparr>r_pair := U64_MAX\<rparr>) else None)"
  using assms(3,4,8) copy_regions_find [OF assms(1)] copy_regions_find [OF assms(2)]
    add_sub_round [OF assms(5-7)] add_sub_round [OF assms(6,5,7)]
  by (simp add: initialize_linear_memory_region_trees_def Let_def get_linear_virtual_address_def
      get_linear_physical_address_def find_physical_linear_def find_virtual_linear_def find_physical_def find_virtual_def)

lemma linear_mapping_correct_witness:
  "\<exists>l'. l' = initialize_linear_memory_region_trees 0x80000000 0xFFFFFF8000000000
       (layout_new\<lparr>physical_tree := [(0x80000000, new_full 0x80000000 0x8FFFFFFF 0 0 0x80000026)]\<rparr>) \<and>
     get_linear_virtual_address 0x80000000 l' = 0xFFFFFF8000000000 \<and>
     find_physical_linear 0x80001000 l' = Some (new_full 0x80000000 0x8FFFFFFF U64_MAX 0 0x80000026)"
proof -
  let ?l = "layout_new\<lparr>physical_tree := [(0x80000000, new_full 0x80000000 0x8FFFFFFF 0 0 0x80000026)]\<rparr>"
  have "regions_ok 0 (physical_tree ?l)" "regions_ok 0 (virtual_tree ?l)" "physical_linear_tree ?l = []" "virtual_linear_tree ?l = []"
    by (simp_all add: layout_new_def new_full_def)
  from linear_mapping_correct [OF this, where p = "0x80000000" and v = "0xFFFFFF8000000000" and a = "0x80000000"
      and x = "0x80001000", OF _ _ _ refl]
  show ?thesis
    by (simp add: find_physical_def tree_find_def last_le_def new_full_def region_contains_def has_type_attribute_def
        K_MEMORY_REGION_ATTR_LINEAR_MAPPED_def layout_new_def)
qed

section \<open>Random placement\<close>

lemma draw_below_bound: "draw_below bound rs = Some (r, rs') \<Longrightarrow> r < bound \<and> r \<in> set rs \<and> set rs' \<subseteq> set rs"
  by (induction rs) (auto split: if_splits)

lemma random_range_bounds:
  assumes "generate_random_range mn mx rs = Some (Some (r, rs'))" "mn \<le> mx" "mx < W64" "\<forall>r \<in> set rs. r < W64"
  shows "mn \<le> r \<and> r \<le> mx \<and> set rs' \<subseteq> set rs"
proof (cases "mx = U64_MAX \<and> mn = 0")
  case True
  then show ?thesis using assms by (fastforce simp: generate_random_range_def split: list.splits)
next
  case False
  have size: "sub64 (add64 mx 1) mn = mx + 1 - mn" "0 < mx + 1 - mn"
  proof -
    show "sub64 (add64 mx 1) mn = mx + 1 - mn"
    proof (cases "mx = U64_MAX")
      case True
      then have "0 < mn" "mn < W64" using False assms(2,3) by simp_all
      then show ?thesis using True by (simp add: add64_def sub64_def)
    qed (use assms(2,3) in simp)
  qed (use assms(2) in simp)
  define bound where "bound = mul64 (U64_MAX div (mx + 1 - mn)) (mx + 1 - mn)"
  have "map_option (\<lambda>(rnd, rs). (add64 mn (rnd mod (mx + 1 - mn)), rs)) (draw_below bound rs) = Some (r, rs')"
  proof -
    have nz: "mx + 1 - mn \<noteq> 0" using size(2) by simp
    show ?thesis
      using assms(1) unfolding generate_random_range_def Let_def size(1) if_not_P [OF False] if_not_P [OF nz] bound_def
      by (simp only: option.inject)
  qed
  then obtain q where q: "r = add64 mn (q mod (mx + 1 - mn))" "draw_below bound rs = Some (q, rs')" by auto
  have sub: "set rs' \<subseteq> set rs" using draw_below_bound [OF q(2)] by blast
  have "q mod (mx + 1 - mn) < mx + 1 - mn" by (rule mod_less_divisor [OF size(2)])
  then have "mn + q mod (mx + 1 - mn) \<le> mx" by linarith
  then show ?thesis using q(1) sub assms(3) by simp
qed

lemma extents_fold:
  assumes "regions_ok lo t" "(first_region e = None) = (last_region e = None)"
    "\<And>a b. first_region e = Some a \<Longrightarrow> last_region e = Some b \<Longrightarrow> r_address a \<le> r_last b \<and> r_address a < lo \<and> r_last b < U64_MAX"
    "fold (\<lambda>r e. if is_derived_from_raw ty r
         then \<lparr>first_region = (if first_region e = None then Some r else first_region e), last_region = Some r\<rparr> else e)
       (map snd t) e = \<lparr>first_region = Some a, last_region = Some b\<rparr>"
  shows "r_address a \<le> r_last b \<and> r_last b < U64_MAX"
  using assms
proof (induction t arbitrary: lo e)
  case Nil
  then show ?case by fastforce
next
  case (Cons x t)
  obtain k r where x: "x = (k, r)" by force
  have r: "k = r_address r" "lo \<le> k" "k \<le> r_last r" "r_last r < U64_MAX" "regions_ok (Suc (r_last r)) t"
    using Cons.prems(1) x by simp_all
  define e' where "e' = (if is_derived_from_raw ty r
      then \<lparr>first_region = (if first_region e = None then Some r else first_region e), last_region = Some r\<rparr> else e)"
  show ?case
  proof (rule Cons.IH [OF r(5)])
    show "(first_region e' = None) = (last_region e' = None)" using Cons.prems(2) by (auto simp: e'_def)
    show "r_address a \<le> r_last b \<and> r_address a < Suc (r_last r) \<and> r_last b < U64_MAX"
      if "first_region e' = Some a" "last_region e' = Some b" for a b
      using that Cons.prems(2) Cons.prems(3) [of a "the (last_region e)"] r
      by (cases "last_region e") (auto simp: e'_def split: if_splits)
    show "fold (\<lambda>r e. if is_derived_from_raw ty r
         then \<lparr>first_region = (if first_region e = None then Some r else first_region e), last_region = Some r\<rparr> else e)
       (map snd t) e' = \<lparr>first_region = Some a, last_region = Some b\<rparr>" using Cons.prems(4) x by (simp add: e'_def)
  qed
qed

lemma aligned_loop_sound:
  assumes "aligned_region_loop fi li el sz al ty t rs = Some (Some c)" "fi \<le> li" "li * al \<le> el" "el < U64_MAX"
    "0 < sz" "sz < W64" "\<forall>r \<in> set rs. r < W64" "0 < al"
  shows "al dvd c \<and> (\<exists>r. tree_find c t = Some r \<and> r_type r = ty \<and> c + sz - 1 \<le> r_last r)"
  using assms(1,7)
proof (induction "length rs" arbitrary: rs rule: less_induct)
  case less
  obtain draw where d: "generate_random_range fi li rs = Some draw"
    using less.prems(1) by (subst (asm) aligned_region_loop.simps) (auto split: bind_splits)
  obtain rnd rs' where dr: "draw = Some (rnd, rs')"
    using less.prems(1) d by (subst (asm) aligned_region_loop.simps) (auto split: option.splits)
  have liW: "li < W64"
  proof -
    have "li * 1 \<le> li * al" using assms(8) by (intro mult_left_mono) simp_all
    then show ?thesis using assms(3,4) by linarith
  qed
  have b: "rnd \<le> li" "set rs' \<subseteq> set rs" using random_range_bounds [OF d [unfolded dr] assms(2) liW less.prems(2)] by auto
  have "rnd * al \<le> li * al" using b(1) by (rule mult_right_mono) simp
  then have c2: "rnd * al \<le> el" "rnd * al < W64" using assms(3,4) by linarith+
  have c: "mul64 rnd al = rnd * al" using c2 by (simp only: mul64_id)
  define e where "e = add64 (rnd * al) sz"
  have unf: "aligned_region_loop fi li el sz al ty t rs =
      (if rnd * al \<ge> e then aligned_region_loop fi li el sz al ty t rs'
       else if sub64 e 1 > el then aligned_region_loop fi li el sz al ty t rs'
       else do {
         region \<leftarrow> tree_find (rnd * al) t;
         if sub64 e 1 \<le> r_last region \<and> r_type region = ty then Some (Some (rnd * al))
         else aligned_region_loop fi li el sz al ty t rs' })"
    using d dr c by (subst aligned_region_loop.simps) (simp add: Let_def e_def cong: if_cong)
  have again: ?case if run: "aligned_region_loop fi li el sz al ty t rs' = Some (Some c)"
    by (rule less.hyps [OF random_range_shorter [OF d [unfolded dr]] run]) (use less.prems(2) b(2) in blast)
  show ?case
  proof (cases "rnd * al \<ge> e \<or> sub64 e 1 > el")
    case True
    then have "aligned_region_loop fi li el sz al ty t rs' = Some (Some c)" using less.prems(1) unf by (auto split: if_splits)
    then show ?thesis by (rule again)
  next
    case False
    then obtain g where g: "tree_find (rnd * al) t = Some g" using less.prems(1) unf by (auto split: bind_splits)
    have "rnd * al + sz < W64"
    proof (rule ccontr)
      assume no: "\<not> rnd * al + sz < W64"
      have "e = rnd * al + sz - W64" using no c2(2) assms(6) unfolding e_def add64_def by (simp add: le_mod_geq)
      then show False using False assms(6) no by linarith
    qed
    then have l: "sub64 e 1 = rnd * al + sz - 1" using assms(5) by (simp add: e_def del: One_nat_def)
    show ?thesis
    proof (cases "sub64 e 1 \<le> r_last g \<and> r_type g = ty")
      case True
      then have "c = rnd * al" using less.prems(1) unf False g by simp
      then show ?thesis using True g l by auto
    next
      case no: False
      then have "aligned_region_loop fi li el sz al ty t rs' = Some (Some c)" using less.prems(1) unf False g by auto
      then show ?thesis by (rule again)
    qed
  qed
qed

text \<open>
  Whatever the random bits, an address that \<open>get_random_aligned_region\<close> answers is a multiple of
  the alignment, and the whole range asked for lies in one region of exactly the type asked for.
  The range it draws from is never left, and drawing does not loop on an accepted number: a first
  draw that fits is answered at once.
\<close>

theorem aligned_region_sound:
  assumes "regions_ok lo t" "0 < sz" "sz < W64" "0 < al" "\<forall>r \<in> set rs. r < W64"
  shows "(get_random_aligned_region sz al ty t rs = Some (Some c) \<longrightarrow>
      al dvd c \<and> (\<exists>r. tree_find c t = Some r \<and> r_type r = ty \<and> c + sz - 1 \<le> r_last r)) \<and>
    (generate_random_range mn mx rs = Some (Some (r, rs')) \<longrightarrow> mn \<le> mx \<longrightarrow> mx < W64 \<longrightarrow> mn \<le> r \<and> r \<le> mx) \<and>
    (fi \<le> li \<longrightarrow> generate_random_range fi li rs = Some (Some (r, rs')) \<longrightarrow> r * al + sz < W64 \<longrightarrow> r * al + sz - 1 \<le> el \<longrightarrow>
      tree_find (r * al) t = Some g \<longrightarrow> r_type g = ty \<longrightarrow> r * al + sz - 1 \<le> r_last g \<longrightarrow>
      aligned_region_loop fi li el sz al ty t rs = Some (Some (r * al)))"
proof (intro conjI impI)
  assume g: "get_random_aligned_region sz al ty t rs = Some (Some c)"
  let ?e = "get_derived_region_extents_raw ty t"
  obtain a b where e: "first_region ?e = Some a" "last_region ?e = Some b"
    "aligned_region_loop (r_address a div al) (r_last b div al) (r_last b) sz al ty t rs = Some (Some c)"
    using g by (auto simp: get_random_aligned_region_def Let_def extents_address_def extents_last_def split: bind_splits)
  have "?e = \<lparr>first_region = Some a, last_region = Some b\<rparr>" using e(1,2) by simp
  then have o: "r_address a \<le> r_last b \<and> r_last b < U64_MAX"
    using extents_fold [OF assms(1), of "\<lparr>first_region = None, last_region = None\<rparr>" ty a b]
    unfolding get_derived_region_extents_raw_def by simp
  then have "r_address a div al \<le> r_last b div al" "r_last b div al * al \<le> r_last b" by (simp_all add: div_le_mono)
  from aligned_loop_sound [OF e(3) this] o assms(2-5)
  show "al dvd c" "\<exists>r. tree_find c t = Some r \<and> r_type r = ty \<and> c + sz - 1 \<le> r_last r" by blast+
next
  assume "generate_random_range mn mx rs = Some (Some (r, rs'))" "mn \<le> mx" "mx < W64"
  from random_range_bounds [OF this assms(5)] show "mn \<le> r" "r \<le> mx" by blast+
next
  assume d: "generate_random_range fi li rs = Some (Some (r, rs'))"
    and b: "r * al + sz < W64" "r * al + sz - 1 \<le> el" "tree_find (r * al) t = Some g" "r_type g = ty" "r * al + sz - 1 \<le> r_last g"
  have "mul64 r al = r * al" "add64 (r * al) sz = r * al + sz" "sub64 (r * al + sz) 1 = r * al + sz - 1"
    using b(1) assms(2) by (simp_all del: One_nat_def)
  then show "aligned_region_loop fi li el sz al ty t rs = Some (Some (r * al))"
    using d b assms(2) by (subst aligned_region_loop.simps) (simp add: Let_def del: One_nat_def)
qed

lemma aligned_region_sound_witness:
  "0x1000 dvd (0x4000 :: nat) \<and>
   get_random_aligned_region 0x2000 0x1000 1 [(0x4000, new_with_attr 0x4000 0x7FFF 0 1)] [0] = Some (Some 0x4000) \<and>
   (\<exists>r. tree_find 0x4000 [(0x4000, new_with_attr 0x4000 0x7FFF 0 1)] = Some r \<and> 0x4000 + 0x2000 - 1 \<le> r_last r)"
proof -
  let ?t = "[(0x4000, new_with_attr 0x4000 0x7FFF 0 1)]"
  have ok: "regions_ok 0 ?t" by (simp add: new_with_attr_def)
  have run: "get_random_aligned_region 0x2000 0x1000 1 ?t [0] = Some (Some 0x4000)"
    by (simp add: get_random_aligned_region_def get_derived_region_extents_raw_def extents_address_def extents_last_def
        is_derived_from_raw_def new_with_attr_def aligned_region_loop.simps generate_random_range_def tree_find_def
        last_le_def region_contains_def Let_def)
  have "(0 :: nat) < 0x2000" "(0x2000 :: nat) < W64" "(0 :: nat) < 0x1000" "\<forall>r \<in> set [0 :: nat]. r < W64" by simp_all
  from conjunct1 [OF aligned_region_sound [OF ok this]] run show ?thesis by blast
qed

end
