(* ===== verification/MemoryManager.thy ===== *)
theory MemoryManager
  imports PageHeapAlloc PageGroup MemoryRegion
begin

text \<open>
  The manager of physical memory: src/core/src/hle/kernel/k_memory_manager.rs, and the operations
  of page groups that change its reference counts (src/core/src/hle/kernel/k_page_group.rs). One
  \<open>Impl\<close> per memory region holds a page heap and a 16-bit reference count per page; the
  managers of a pool are linked by indices into the vector of managers. The pool locks order the
  calls of concurrent threads and are left out, but for the panic of indexing them with
  \<open>Pool::Count\<close>. A loop over the links may run for ever when they form a cycle: such a loop is a
  partial function, for which \<open>None\<close> is a panic or no answer.
\<close>

section \<open>Pools and directions\<close>

datatype Pool = Application | Applet | System | SystemNonSecure | Count

definition pool_index :: "Pool \<Rightarrow> nat" where
  "pool_index p = (case p of Application \<Rightarrow> 0 | Applet \<Rightarrow> 1 | System \<Rightarrow> 2 | SystemNonSecure \<Rightarrow> 3 | Count \<Rightarrow> 4)"

definition POOL_SHIFT :: nat where "POOL_SHIFT = 4"
definition POOL_MASK :: u32 where "POOL_MASK = push_bit POOL_SHIFT 0xF"
definition POOL_SECURE :: Pool where "POOL_SECURE = System"
definition POOL_COUNT :: nat where "POOL_COUNT = pool_index Count"
definition MAX_MANAGER_COUNT :: nat where "MAX_MANAGER_COUNT = 10"

datatype Direction = FromFront | FromBack

definition direction_index :: "Direction \<Rightarrow> nat" where
  "direction_index d = (case d of FromFront \<Rightarrow> 0 | FromBack \<Rightarrow> 1)"

definition DIRECTION_SHIFT :: nat where "DIRECTION_SHIFT = 0"
definition DIRECTION_MASK :: u32 where "DIRECTION_MASK = push_bit DIRECTION_SHIFT 0xF"

definition encode_option :: "Pool \<Rightarrow> Direction \<Rightarrow> u32" where
  "encode_option pool dir = push_bit POOL_SHIFT (word_of_nat (pool_index pool)) OR
     push_bit DIRECTION_SHIFT (word_of_nat (direction_index dir))"

definition get_pool :: "u32 \<Rightarrow> Pool option" where
  "get_pool opt = (let raw = drop_bit POOL_SHIFT (opt AND POOL_MASK)
     in if raw = 0 then Some Application else if raw = 1 then Some Applet
        else if raw = 2 then Some System else if raw = 3 then Some SystemNonSecure else None)"

definition get_direction :: "u32 \<Rightarrow> Direction option" where
  "get_direction opt = (let raw = drop_bit DIRECTION_SHIFT (opt AND DIRECTION_MASK)
     in if raw = 0 then Some FromFront else if raw = 1 then Some FromBack else None)"

definition decode_option :: "u32 \<Rightarrow> (Pool \<times> Direction) option" where
  "decode_option opt = do { p \<leftarrow> get_pool opt; d \<leftarrow> get_direction opt; Some (p, d) }"

section \<open>Impl\<close>

record Impl =
  m_heap :: KPageHeap
  ref_counts :: "u16 list"
  m_pool :: Pool
  m_next :: "nat option"
  m_prev :: "nat option"

definition impl_new :: Impl where
  "impl_new = \<lparr>m_heap = heap_new, ref_counts = [], m_pool = Application, m_next = None, m_prev = None\<rparr>"

definition impl_initialize :: "nat \<Rightarrow> nat \<Rightarrow> Pool \<Rightarrow> Impl \<Rightarrow> Impl option" where
  "impl_initialize address sz pool m = do {
     h \<leftarrow> heap_initialize address sz (m_heap m);
     h \<leftarrow> heap_free address (sz div PAGE_SIZE) h;
     Some (m\<lparr>m_pool := pool, m_heap := h, ref_counts := replicate (sz div PAGE_SIZE) 0\<rparr>) }"

definition impl_allocate_aligned :: "int \<Rightarrow> nat \<Rightarrow> nat \<Rightarrow> Impl \<Rightarrow> (nat \<times> Impl) option" where
  "impl_allocate_aligned heap_index num_pages align_pages m = do {
     (a, h) \<leftarrow> allocate_aligned heap_index num_pages align_pages (m_heap m);
     Some (a, m\<lparr>m_heap := h\<rparr>) }"

definition impl_free :: "nat \<Rightarrow> nat \<Rightarrow> Impl \<Rightarrow> Impl option" where
  "impl_free addr num_pages m = do { h \<leftarrow> heap_free addr num_pages (m_heap m); Some (m\<lparr>m_heap := h\<rparr>) }"

text \<open>The counts of the pages from \<open>index\<close> on, each raised by one.\<close>

fun raise_counts :: "nat \<Rightarrow> nat \<Rightarrow> u16 list \<Rightarrow> u16 list option" where
  "raise_counts index 0 rc = Some rc"
| "raise_counts index (Suc n) rc =
     (if index < length rc then raise_counts (Suc index) n (rc[index := rc ! index + 1]) else None)"

definition impl_open_first :: "nat \<Rightarrow> nat \<Rightarrow> Impl \<Rightarrow> Impl option" where
  "impl_open_first address num_pages m = (let index = get_page_offset address (m_heap m); ende = add64 index num_pages
     in do { rc \<leftarrow> raise_counts index (ende - index) (ref_counts m); Some (m\<lparr>ref_counts := rc\<rparr>) })"

text \<open>Without the debug assertions \<open>open\<close> does the same as \<open>open_first\<close>.\<close>

definition impl_open :: "nat \<Rightarrow> nat \<Rightarrow> Impl \<Rightarrow> Impl option" where
  "impl_open address num_pages m = (let index = get_page_offset address (m_heap m); ende = add64 index num_pages
     in do { rc \<leftarrow> raise_counts index (ende - index) (ref_counts m); Some (m\<lparr>ref_counts := rc\<rparr>) })"

definition free_run :: "nat \<Rightarrow> nat \<Rightarrow> Impl \<Rightarrow> Impl option" where
  "free_run fstart fcount m =
     impl_free (add64 (heap_address (m_heap m)) (mul64 fstart PAGE_SIZE)) fcount m"

fun close_loop :: "nat \<Rightarrow> nat \<Rightarrow> nat \<Rightarrow> nat \<Rightarrow> Impl \<Rightarrow> Impl option" where
  "close_loop index 0 fstart fcount m =
     (if 0 < fcount then free_run fstart fcount m else Some m)"
| "close_loop index (Suc n) fstart fcount m =
     (if index < length (ref_counts m) then
        let ref_count = ref_counts m ! index - 1;
            m = m\<lparr>ref_counts := (ref_counts m)[index := ref_count]\<rparr>
        in if ref_count = 0 then
             (if 0 < fcount then close_loop (Suc index) n fstart (fcount + 1) m
              else close_loop (Suc index) n index 1 m)
           else if 0 < fcount then do {
             m \<leftarrow> free_run fstart fcount m;
             close_loop (Suc index) n fstart 0 m }
           else close_loop (Suc index) n fstart fcount m
      else None)"

definition impl_close :: "nat \<Rightarrow> nat \<Rightarrow> Impl \<Rightarrow> Impl option" where
  "impl_close address num_pages m = (let index = get_page_offset address (m_heap m); ende = add64 index num_pages
     in close_loop index (ende - index) 0 0 m)"

definition impl_contains :: "nat \<Rightarrow> Impl \<Rightarrow> bool" where
  "impl_contains address m \<longleftrightarrow> heap_address (m_heap m) \<le> address \<and> address < get_end_address (m_heap m)"

section \<open>KMemoryManager\<close>

record KMemoryManager =
  managers :: "Impl list"
  num_managers :: nat
  pool_head :: "nat option list"
  pool_tail :: "nat option list"
  optimized_process_ids :: "nat list"
  has_optimized_process :: "bool list"

definition mm_new :: KMemoryManager where
  "mm_new = \<lparr>managers = [], num_managers = 0, pool_head = replicate POOL_COUNT None,
     pool_tail = replicate POOL_COUNT None, optimized_process_ids = replicate POOL_COUNT 0,
     has_optimized_process = replicate POOL_COUNT False\<rparr>"

text \<open>Indexing a vector or an array.\<close>

definition nth_opt :: "'a list \<Rightarrow> nat \<Rightarrow> 'a option" where
  "nth_opt xs i = (if i < length xs then Some (xs ! i) else None)"

definition initialize_pool :: "Pool \<Rightarrow> nat \<Rightarrow> nat \<Rightarrow> KMemoryManager \<Rightarrow> KMemoryManager option" where
  "initialize_pool pool phys_start sz mm = do {
     guard_panic (num_managers mm < MAX_MANAGER_COUNT);
     manager \<leftarrow> impl_initialize phys_start sz pool impl_new;
     let manager_index = num_managers mm;
     let mm = mm\<lparr>managers := managers mm @ [manager], num_managers := num_managers mm + 1\<rparr>;
     tail \<leftarrow> nth_opt (pool_tail mm) (pool_index pool);
     mm \<leftarrow> (case tail of
       None \<Rightarrow> Some (mm\<lparr>pool_head := (pool_head mm)[pool_index pool := Some manager_index]\<rparr>)
     | Some tail_idx \<Rightarrow> do {
         t \<leftarrow> nth_opt (managers mm) tail_idx;
         let ms = (managers mm)[tail_idx := t\<lparr>m_next := Some manager_index\<rparr>];
         m \<leftarrow> nth_opt ms manager_index;
         Some (mm\<lparr>managers := ms[manager_index := m\<lparr>m_prev := Some tail_idx\<rparr>]\<rparr>) });
     Some (mm\<lparr>pool_tail := (pool_tail mm)[pool_index pool := Some manager_index]\<rparr>) }"

definition get_first_manager :: "Pool \<Rightarrow> Direction \<Rightarrow> KMemoryManager \<Rightarrow> (nat option) option" where
  "get_first_manager pool dir mm =
     (case dir of FromBack \<Rightarrow> nth_opt (pool_tail mm) (pool_index pool)
      | FromFront \<Rightarrow> nth_opt (pool_head mm) (pool_index pool))"

definition get_next_manager :: "Direction \<Rightarrow> nat \<Rightarrow> Impl list \<Rightarrow> (nat option) option" where
  "get_next_manager dir cur ms = do {
     m \<leftarrow> nth_opt ms cur;
     Some (case dir of FromBack \<Rightarrow> m_prev m | FromFront \<Rightarrow> m_next m) }"

text \<open>The pool of a region of the layout, and the region of manager \<open>n\<close>, joined from its parts.\<close>

definition pool_of_region :: "KMemoryRegion \<Rightarrow> Pool option" where
  "pool_of_region r =
     (if is_derived_from K_MEMORY_REGION_TYPE_DRAM_APPLICATION_POOL r then Some Application
      else if is_derived_from K_MEMORY_REGION_TYPE_DRAM_APPLET_POOL r then Some Applet
      else if is_derived_from K_MEMORY_REGION_TYPE_DRAM_SYSTEM_NON_SECURE_POOL r then Some SystemNonSecure
      else if is_derived_from K_MEMORY_REGION_TYPE_DRAM_SYSTEM_POOL r then Some System
      else None)"

fun combine_regions ::
  "nat \<Rightarrow> KMemoryRegion list \<Rightarrow> (nat \<times> nat \<times> Pool) option \<Rightarrow> ((nat \<times> nat \<times> Pool) option) option" where
  "combine_regions n [] combined = Some combined"
| "combine_regions n (r # rs) combined =
     (if \<not> is_derived_from K_MEMORY_REGION_TYPE_DRAM_USER_POOL r \<or> unat (r_attributes r) \<noteq> n
      then combine_regions n rs combined
      else do {
        guard_panic (r_address r \<noteq> 0);
        guard_panic (r_end r \<noteq> 0);
        guard_panic (0 < r_size r);
        case pool_of_region r of
          None \<Rightarrow> combine_regions n rs combined
        | Some pool \<Rightarrow> (case combined of
            Some (address, sz, previous_pool) \<Rightarrow> do {
              guard_panic (r_address r = add64 address sz);
              guard_panic (pool = previous_pool);
              combine_regions n rs (Some (address, sub64 (r_end r) address, previous_pool)) }
          | None \<Rightarrow> combine_regions n rs (Some (r_address r, r_size r, pool))) })"

lemma initialize_pool_num: "initialize_pool p a sz mm = Some mm' \<Longrightarrow> num_managers mm' = Suc (num_managers mm)"
  by (auto simp: initialize_pool_def Let_def split: bind_splits option.splits)

function initialize_managers :: "KMemoryRegion list \<Rightarrow> KMemoryManager \<Rightarrow> KMemoryManager option" where
  "initialize_managers rs mm =
     (if num_managers mm < MAX_MANAGER_COUNT then do {
        combined \<leftarrow> combine_regions (num_managers mm) rs None;
        case combined of
          None \<Rightarrow> Some mm
        | Some (address, sz, pool) \<Rightarrow> do {
            mm' \<leftarrow> initialize_pool pool address sz mm;
            initialize_managers rs mm' } }
      else Some mm)"
  by pat_completeness auto
termination
  by (relation "measure (\<lambda>(rs, mm). MAX_MANAGER_COUNT - num_managers mm)") (auto dest: initialize_pool_num)

declare initialize_managers.simps [simp del]

definition initialize_from_layout :: "KMemoryLayout \<Rightarrow> KMemoryManager \<Rightarrow> KMemoryManager option" where
  "initialize_from_layout layout mm =
     initialize_managers (map snd (physical_tree layout))
       (mm\<lparr>num_managers := 0, managers := [], pool_head := replicate POOL_COUNT None,
          pool_tail := replicate POOL_COUNT None\<rparr>)"

section \<open>Allocation\<close>

partial_function (option) continuous_loop ::
  "Direction \<Rightarrow> int \<Rightarrow> nat \<Rightarrow> nat \<Rightarrow> nat option \<Rightarrow> Impl list \<Rightarrow> (nat \<times> nat option \<times> Impl list) option" where
  "continuous_loop dir heap_index num_pages align_pages cur ms =
     (case cur of
        None \<Rightarrow> Some (0, None, ms)
      | Some i \<Rightarrow> do {
          m \<leftarrow> nth_opt ms i;
          (allocated_block, m) \<leftarrow> impl_allocate_aligned heap_index num_pages align_pages m;
          let ms = ms[i := m];
          if allocated_block \<noteq> 0 then Some (allocated_block, Some i, ms)
          else do {
            cur \<leftarrow> get_next_manager dir i ms;
            continuous_loop dir heap_index num_pages align_pages cur ms } })"

definition allocate_and_open_continuous ::
  "nat \<Rightarrow> nat \<Rightarrow> u32 \<Rightarrow> KMemoryManager \<Rightarrow> (nat \<times> KMemoryManager) option" where
  "allocate_and_open_continuous num_pages align_pages opt mm =
     (if num_pages = 0 then Some (0, mm)
      else do {
        (pool, dir) \<leftarrow> decode_option opt;
        cur \<leftarrow> get_first_manager pool dir mm;
        (allocated_block, chosen, ms) \<leftarrow>
          continuous_loop dir (get_aligned_block_index num_pages align_pages) num_pages align_pages cur (managers mm);
        if allocated_block = 0 then Some (0, mm\<lparr>managers := ms\<rparr>)
        else (case chosen of
            None \<Rightarrow> Some (allocated_block, mm\<lparr>managers := ms\<rparr>)
          | Some i \<Rightarrow> do {
              m \<leftarrow> nth_opt ms i;
              m \<leftarrow> impl_open_first allocated_block num_pages m;
              Some (allocated_block, mm\<lparr>managers := ms[i := m]\<rparr>) }) })"

definition find_manager_index :: "nat \<Rightarrow> Impl list \<Rightarrow> nat option" where
  "find_manager_index address ms = find (\<lambda>i. impl_contains address (ms ! i)) [0..<length ms]"

text \<open>The part of a run that lies in the manager of its first page.\<close>

definition free_in_first_manager :: "nat \<Rightarrow> nat \<Rightarrow> Impl list \<Rightarrow> Impl list option" where
  "free_in_first_manager addr pages ms = do {
     i \<leftarrow> find_manager_index addr ms;
     m \<leftarrow> impl_free addr (min pages (get_page_offset_to_end addr (m_heap (ms ! i)))) (ms ! i);
     Some (ms[i := m]) }"

fun free_page_group_blocks :: "KBlockInfo list \<Rightarrow> Impl list \<Rightarrow> Impl list option" where
  "free_page_group_blocks [] ms = Some ms"
| "free_page_group_blocks (b # bs) ms = do {
     ms \<leftarrow> free_in_first_manager (bi_address b) (bi_num_pages b) ms;
     free_page_group_blocks bs ms }"

text \<open>
  The state of a group allocation: the managers, the group, its node source and the pages that are
  still missing. A failed addition to the group ends the allocation: the answer \<open>True\<close>.
\<close>

type_synonym group_state = "Impl list \<times> KPageGroup \<times> info_manager option \<times> nat"

text \<open>What the failure of an allocation does to the pages and nodes of the group so far.\<close>

definition undo_group :: "group_state \<Rightarrow> group_state option" where
  "undo_group st = (case st of (ms, pg, s, remaining) \<Rightarrow> do {
     ms \<leftarrow> free_page_group_blocks (group_blocks pg) ms;
     Some (case pg_finalize pg s of (pg, s) \<Rightarrow> (ms, pg, s, remaining)) })"

partial_function (option) take_blocks ::
  "nat \<Rightarrow> nat \<Rightarrow> bool \<Rightarrow> nat \<Rightarrow> group_state \<Rightarrow> (bool \<times> group_state) option" where
  "take_blocks index pages_per_alloc random i st = (case st of (ms, pg, s, remaining) \<Rightarrow>
     if pages_per_alloc \<le> remaining then do {
       m \<leftarrow> nth_opt ms i;
       (allocated_block, h) \<leftarrow> allocate_block (int index) random (m_heap m);
       let ms = ms[i := m\<lparr>m_heap := h\<rparr>];
       if allocated_block = 0 then Some (False, (ms, pg, s, remaining))
       else do {
         (added, pg, s) \<leftarrow> add_block allocated_block pages_per_alloc pg s;
         if added then take_blocks index pages_per_alloc random i (ms, pg, s, remaining - pages_per_alloc)
         else do {
           m \<leftarrow> impl_free allocated_block pages_per_alloc (ms ! i);
           st \<leftarrow> undo_group (ms[i := m], pg, s, remaining);
           Some (True, st) } } }
     else Some (False, st))"

partial_function (option) take_from_pool ::
  "Direction \<Rightarrow> nat \<Rightarrow> nat \<Rightarrow> bool \<Rightarrow> nat option \<Rightarrow> group_state \<Rightarrow> (bool \<times> group_state) option" where
  "take_from_pool dir index pages_per_alloc random cur st =
     (case cur of
        None \<Rightarrow> Some (False, st)
      | Some i \<Rightarrow> do {
          (failed, st) \<leftarrow> take_blocks index pages_per_alloc random i st;
          if failed then Some (True, st)
          else do {
            cur \<leftarrow> get_next_manager dir i (fst st);
            take_from_pool dir index pages_per_alloc random cur st } })"

text \<open>\<open>n\<close> is one more than the largest index that is left to try.\<close>

fun take_levels :: "Direction \<Rightarrow> bool \<Rightarrow> nat option \<Rightarrow> nat \<Rightarrow> group_state \<Rightarrow> (bool \<times> group_state) option" where
  "take_levels dir random pool_first 0 st = Some (False, st)"
| "take_levels dir random pool_first (Suc index) st =
     (if snd (snd (snd st)) = 0 then Some (False, st)
      else do {
        pages_per_alloc \<leftarrow> get_block_num_pages index;
        (failed, st) \<leftarrow> take_from_pool dir index pages_per_alloc random pool_first st;
        if failed then Some (True, st) else take_levels dir random pool_first index st })"

definition RESULT_OUT_OF_MEMORY :: nat where
  "RESULT_OUT_OF_MEMORY = from_module_description 1 104"

definition RESULT_BUSY :: nat where
  "RESULT_BUSY = from_module_description 1 122"

definition allocate_page_group_impl ::
  "nat option \<Rightarrow> Direction \<Rightarrow> nat \<Rightarrow> bool \<Rightarrow> Impl list \<Rightarrow> KPageGroup \<Rightarrow> info_manager option \<Rightarrow>
   (nat \<times> Impl list \<times> KPageGroup \<times> info_manager option) option" where
  "allocate_page_group_impl pool_first dir num_pages random ms pg s = (let heap_index = get_block_index num_pages
     in if heap_index < 0 then Some (RESULT_OUT_OF_MEMORY, ms, pg, s)
        else do {
          (failed, st) \<leftarrow> take_levels dir random pool_first (nat heap_index + 1) (ms, pg, s, num_pages);
          if failed then (case st of (ms, pg, s, remaining) \<Rightarrow> Some (RESULT_OUT_OF_MEMORY, ms, pg, s))
          else (case st of (ms, pg, s, remaining) \<Rightarrow>
            if remaining \<noteq> 0 then do {
              (ms, pg, s, remaining) \<leftarrow> undo_group st;
              Some (RESULT_OUT_OF_MEMORY, ms, pg, s) }
            else Some (0, ms, pg, s)) })"

section \<open>Reference counts of runs that may span managers\<close>

partial_function (option) over_managers ::
  "(nat \<Rightarrow> nat \<Rightarrow> Impl \<Rightarrow> Impl option) \<Rightarrow> nat \<Rightarrow> nat \<Rightarrow> Impl list \<Rightarrow> Impl list option" where
  "over_managers f address num_pages ms =
     (if num_pages = 0 then Some ms
      else do {
        i \<leftarrow> find_manager_index address ms;
        let cur_pages = min num_pages (get_page_offset_to_end address (m_heap (ms ! i)));
        m \<leftarrow> f address cur_pages (ms ! i);
        over_managers f (add64 address (mul64 cur_pages PAGE_SIZE)) (num_pages - cur_pages) (ms[i := m]) })"

text \<open>An operation under the lock of the manager's pool.\<close>

definition locked :: "(nat \<Rightarrow> nat \<Rightarrow> Impl \<Rightarrow> Impl option) \<Rightarrow> nat \<Rightarrow> nat \<Rightarrow> Impl \<Rightarrow> Impl option" where
  "locked f address num_pages m = do { guard_panic (pool_index (m_pool m) < POOL_COUNT); f address num_pages m }"

definition mm_open_first :: "nat \<Rightarrow> nat \<Rightarrow> KMemoryManager \<Rightarrow> KMemoryManager option" where
  "mm_open_first address num_pages mm = do {
     ms \<leftarrow> over_managers (locked impl_open_first) address num_pages (managers mm); Some (mm\<lparr>managers := ms\<rparr>) }"

definition mm_open :: "nat \<Rightarrow> nat \<Rightarrow> KMemoryManager \<Rightarrow> KMemoryManager option" where
  "mm_open address num_pages mm = do {
     ms \<leftarrow> over_managers (locked impl_open) address num_pages (managers mm); Some (mm\<lparr>managers := ms\<rparr>) }"

definition mm_close :: "nat \<Rightarrow> nat \<Rightarrow> KMemoryManager \<Rightarrow> KMemoryManager option" where
  "mm_close address num_pages mm = do {
     ms \<leftarrow> over_managers (locked impl_close) address num_pages (managers mm); Some (mm\<lparr>managers := ms\<rparr>) }"

fun open_blocks :: "KBlockInfo list \<Rightarrow> Impl list \<Rightarrow> Impl list option" where
  "open_blocks [] ms = Some ms"
| "open_blocks (b # bs) ms = do {
     ms \<leftarrow> over_managers impl_open_first (bi_address b) (bi_num_pages b) ms; open_blocks bs ms }"

definition allocate_and_open ::
  "nat \<Rightarrow> u32 \<Rightarrow> KMemoryManager \<Rightarrow> KPageGroup \<Rightarrow> info_manager option \<Rightarrow>
   (nat \<times> KMemoryManager \<times> KPageGroup \<times> info_manager option) option" where
  "allocate_and_open num_pages opt mm out_pg s =
     (if num_pages = 0 then Some (0, mm, out_pg, s)
      else do {
        (pool, dir) \<leftarrow> decode_option opt;
        _ \<leftarrow> nth_opt (has_optimized_process mm) (pool_index pool);
        pool_first \<leftarrow> get_first_manager pool dir mm;
        (rc, ms, pg, s) \<leftarrow> allocate_page_group_impl pool_first dir num_pages True (managers mm) out_pg s;
        if rc \<noteq> 0 then Some (rc, mm\<lparr>managers := ms\<rparr>, pg, s)
        else do {
          ms \<leftarrow> open_blocks (group_blocks pg) ms;
          Some (0, mm\<lparr>managers := ms\<rparr>, pg, s) } })"

definition allocate_for_process ::
  "nat \<Rightarrow> u32 \<Rightarrow> nat \<Rightarrow> KMemoryManager \<Rightarrow> KPageGroup \<Rightarrow> info_manager option \<Rightarrow>
   (nat \<times> KMemoryManager \<times> KPageGroup \<times> info_manager option) option" where
  "allocate_for_process num_pages opt process_id mm out_pg s =
     (if num_pages = 0 then Some (0, mm, out_pg, s)
      else do {
        (pool, dir) \<leftarrow> decode_option opt;
        _ \<leftarrow> nth_opt (has_optimized_process mm) (pool_index pool);
        _ \<leftarrow> nth_opt (optimized_process_ids mm) (pool_index pool);
        pool_first \<leftarrow> get_first_manager pool dir mm;
        (rc, ms, pg, s) \<leftarrow> allocate_page_group_impl pool_first dir num_pages False (managers mm) out_pg s;
        Some (rc, mm\<lparr>managers := ms\<rparr>, pg, s) })"

section \<open>Queries\<close>

definition contains_physical_address :: "nat \<Rightarrow> KMemoryManager \<Rightarrow> bool" where
  "contains_physical_address address mm \<longleftrightarrow> list_ex (impl_contains address) (managers mm)"

definition get_pool_for_address :: "nat \<Rightarrow> KMemoryManager \<Rightarrow> Pool option" where
  "get_pool_for_address address mm = map_option (\<lambda>i. m_pool (managers mm ! i)) (find_manager_index address (managers mm))"

text \<open>The sum of a number over the managers of a pool.\<close>

partial_function (option) sum_pool :: "(Impl \<Rightarrow> nat) \<Rightarrow> nat option \<Rightarrow> nat \<Rightarrow> Impl list \<Rightarrow> nat option" where
  "sum_pool f cur acc ms =
     (case cur of
        None \<Rightarrow> Some acc
      | Some i \<Rightarrow> do {
          m \<leftarrow> nth_opt ms i;
          cur \<leftarrow> get_next_manager FromFront i ms;
          sum_pool f cur (add64 acc (f m)) ms })"

definition impl_size :: "Impl \<Rightarrow> nat" where
  "impl_size m = heap_size (m_heap m)"

definition impl_free_size :: "Impl \<Rightarrow> nat" where
  "impl_free_size m = get_free_size (m_heap m)"

definition mm_get_size :: "Pool \<Rightarrow> KMemoryManager \<Rightarrow> nat option" where
  "mm_get_size pool mm = do { cur \<leftarrow> get_first_manager pool FromFront mm; sum_pool impl_size cur 0 (managers mm) }"

definition mm_get_free_size :: "Pool \<Rightarrow> KMemoryManager \<Rightarrow> nat option" where
  "mm_get_free_size pool mm = do { cur \<leftarrow> get_first_manager pool FromFront mm; sum_pool impl_free_size cur 0 (managers mm) }"

definition get_total_size :: "KMemoryManager \<Rightarrow> nat option" where
  "get_total_size mm = do {
     guard_panic (num_managers mm \<le> length (managers mm));
     Some (fold (\<lambda>m acc. add64 acc (impl_size m)) (take (num_managers mm) (managers mm)) 0) }"

definition get_total_free_size :: "KMemoryManager \<Rightarrow> nat option" where
  "get_total_free_size mm = do {
     guard_panic (num_managers mm \<le> length (managers mm));
     guard_panic (list_all (\<lambda>m. pool_index (m_pool m) < POOL_COUNT) (take (num_managers mm) (managers mm)));
     Some (fold (\<lambda>m acc. add64 acc (impl_free_size m)) (take (num_managers mm) (managers mm)) 0) }"

definition initialize_optimized_memory :: "nat \<Rightarrow> Pool \<Rightarrow> KMemoryManager \<Rightarrow> (nat \<times> KMemoryManager) option" where
  "initialize_optimized_memory process_id pool mm = do {
     has \<leftarrow> nth_opt (has_optimized_process mm) (pool_index pool);
     if has then Some (RESULT_BUSY, mm)
     else Some (0, mm\<lparr>optimized_process_ids := (optimized_process_ids mm)[pool_index pool := process_id],
       has_optimized_process := (has_optimized_process mm)[pool_index pool := True]\<rparr>) }"

definition finalize_optimized_memory :: "nat \<Rightarrow> Pool \<Rightarrow> KMemoryManager \<Rightarrow> KMemoryManager option" where
  "finalize_optimized_memory process_id pool mm = do {
     has \<leftarrow> nth_opt (has_optimized_process mm) (pool_index pool);
     owner \<leftarrow> nth_opt (optimized_process_ids mm) (pool_index pool);
     Some (if has \<and> owner = process_id
       then mm\<lparr>has_optimized_process := (has_optimized_process mm)[pool_index pool := False]\<rparr> else mm) }"

definition mm_overhead_size :: "nat \<Rightarrow> nat" where
  "mm_overhead_size region_size =
     (let ref_count_size = mul64 (region_size div PAGE_SIZE) 2;
          optimize_map_size = mul64 (align_up (region_size div PAGE_SIZE) 64 div 64) 8;
          manager_meta_size = align_up (add64 optimize_map_size ref_count_size) PAGE_SIZE
      in add64 manager_meta_size (heap_overhead_size region_size))"

section \<open>Page groups that hold references\<close>

text \<open>The group reaches the manager through the global kernel, which may not exist (\<open>None\<close>).\<close>

type_synonym kernel_memory = "KMemoryManager option"

fun over_blocks ::
  "(nat \<Rightarrow> nat \<Rightarrow> KMemoryManager \<Rightarrow> KMemoryManager option) \<Rightarrow> KBlockInfo list \<Rightarrow> KMemoryManager \<Rightarrow> KMemoryManager option" where
  "over_blocks f [] mm = Some mm"
| "over_blocks f (b # bs) mm = do { mm \<leftarrow> f (bi_address b) (bi_num_pages b) mm; over_blocks f bs mm }"

definition with_kernel :: "(KMemoryManager \<Rightarrow> KMemoryManager option) \<Rightarrow> KPageGroup \<Rightarrow> kernel_memory \<Rightarrow> kernel_memory option" where
  "with_kernel f pg k =
     (if kernel_owned pg then (case k of None \<Rightarrow> Some None | Some mm \<Rightarrow> map_option Some (f mm)) else Some k)"

definition pg_open :: "KPageGroup \<Rightarrow> kernel_memory \<Rightarrow> kernel_memory option" where
  "pg_open pg = with_kernel (over_blocks mm_open (group_blocks pg)) pg"

definition pg_open_first :: "KPageGroup \<Rightarrow> kernel_memory \<Rightarrow> kernel_memory option" where
  "pg_open_first pg = with_kernel (over_blocks mm_open_first (group_blocks pg)) pg"

definition pg_close :: "KPageGroup \<Rightarrow> kernel_memory \<Rightarrow> kernel_memory option" where
  "pg_close pg = with_kernel (over_blocks mm_close (group_blocks pg)) pg"

definition pg_close_and_reset ::
  "KPageGroup \<Rightarrow> info_manager option \<Rightarrow> kernel_memory \<Rightarrow> (KPageGroup \<times> info_manager option \<times> kernel_memory) option" where
  "pg_close_and_reset pg s k = do {
     k \<leftarrow> pg_close pg k;
     case pg_finalize pg s of (pg, s) \<Rightarrow> Some (pg, s, k) }"

text \<open>The guard: the group it closes when it is dropped.\<close>

type_synonym KScopedPageGroup = "KPageGroup option"

definition scoped_new :: "KPageGroup \<Rightarrow> bool \<Rightarrow> kernel_memory \<Rightarrow> (KScopedPageGroup \<times> kernel_memory) option" where
  "scoped_new pg not_first k = do {
     k \<leftarrow> (if not_first then pg_open pg k else pg_open_first pg k);
     Some (Some pg, k) }"

definition cancel_close :: "KScopedPageGroup \<Rightarrow> KScopedPageGroup" where
  "cancel_close g = None"

definition scoped_drop :: "KScopedPageGroup \<Rightarrow> kernel_memory \<Rightarrow> kernel_memory option" where
  "scoped_drop g k = (case g of None \<Rightarrow> Some k | Some pg \<Rightarrow> pg_close pg k)"

end
