(* ===== verification/MemoryManagerImpl.thy ===== *)
theory MemoryManagerImpl
  imports MemoryManager
begin

text \<open>
  One manager of \<open>MemoryManager\<close>: the invariant of an \<open>Impl\<close>, the count and the freedom of each of
  its pages, and what opening and closing a run of pages inside it does to them. The contract of
  such an operation is the locale \<open>page_operation\<close>.
\<close>

abbreviation impl_start :: "Impl \<Rightarrow> nat" where "impl_start m \<equiv> heap_address (m_heap m)"
abbreviation impl_end :: "Impl \<Rightarrow> nat" where "impl_end m \<equiv> heap_end (m_heap m)"

text \<open>Page number \<open>j\<close> is free.\<close>

definition pfree :: "nat \<Rightarrow> Impl \<Rightarrow> bool" where
  "pfree j m \<longleftrightarrow> impl_start m + j * 4096 \<in> free_bytes (m_heap m)"

text \<open>The invariant: a page with references is never free.\<close>

definition impl_wf :: "Impl \<Rightarrow> bool" where
  "impl_wf m \<longleftrightarrow> heap_wf (m_heap m) \<and> m_pool m \<noteq> Count \<and> length (ref_counts m) * 4096 = heap_size (m_heap m) \<and>
     (\<forall>j < length (ref_counts m). ref_counts m ! j \<noteq> 0 \<longrightarrow> \<not> pfree j m)"

definition same_impl :: "Impl \<Rightarrow> Impl \<Rightarrow> bool" where
  "same_impl m m' \<longleftrightarrow> same_heap (m_heap m) (m_heap m') \<and> m_pool m' = m_pool m \<and> m_next m' = m_next m \<and>
     m_prev m' = m_prev m"

text \<open>The count of the page at an address, and whether the page is free.\<close>

definition page_state :: "Impl \<Rightarrow> nat \<Rightarrow> nat \<times> bool" where
  "page_state m b = (unat (ref_counts m ! ((b - impl_start m) div 4096)), b \<in> free_bytes (m_heap m))"

definition impl_pages :: "Impl \<Rightarrow> nat set" where
  "impl_pages m = {b. 4096 dvd b \<and> impl_start m \<le> b \<and> b < impl_end m}"

lemma same_impl_refl [simp]: "same_impl m m"
  by (simp add: same_impl_def)

lemma same_impl_trans: "same_impl a b \<Longrightarrow> same_impl b c \<Longrightarrow> same_impl a c"
  by (auto simp: same_impl_def intro: same_heap_trans)

lemma same_implD:
  assumes "same_impl m m'"
  shows "impl_start m' = impl_start m" "impl_end m' = impl_end m" "impl_pages m' = impl_pages m"
    "get_end_address (m_heap m') = get_end_address (m_heap m)"
  using assms same_heap_end [of "m_heap m" "m_heap m'"]
  by (auto simp: same_impl_def same_heap_def impl_pages_def get_end_address_def)

lemma impl_geometry:
  assumes "impl_wf m"
  shows "4096 dvd impl_start m" "impl_end m = impl_start m + length (ref_counts m) * 4096"
    "impl_end m + 2 ^ 30 < W64" "get_end_address (m_heap m) = impl_end m" "4096 dvd impl_end m"
proof -
  have h: "4096 dvd impl_start m" "4096 dvd heap_size (m_heap m)" "impl_end m + 2 ^ 30 < W64"
    using assms by (auto simp: impl_wf_def heap_wf_def heap_shape_def)
  then show "4096 dvd impl_start m" "impl_end m + 2 ^ 30 < W64" by blast+
  show "impl_end m = impl_start m + length (ref_counts m) * 4096"
    using assms by (simp add: heap_end_def impl_wf_def)
  show "get_end_address (m_heap m) = impl_end m" using h(3) by (simp add: get_end_address_def heap_end_def)
  show "4096 dvd impl_end m" using h(1,2) by (simp add: heap_end_def)
qed

lemma page_index:
  assumes "impl_wf m" "b \<in> impl_pages m"
  shows "\<exists>j < length (ref_counts m). b = impl_start m + j * 4096"
proof -
  obtain p q where p: "impl_start m = 4096 * p" and q: "b = 4096 * q"
    using assms impl_geometry(1) [OF assms(1)] by (auto simp: impl_pages_def elim!: dvdE)
  have "p \<le> q" "q < p + length (ref_counts m)"
    using assms p q impl_geometry(2) [OF assms(1)] by (auto simp: impl_pages_def)
  then show ?thesis using p q by (intro exI [of _ "q - p"]) (auto simp: algebra_simps)
qed

lemma page_index_in:
  assumes "impl_wf m" "j < length (ref_counts m)"
  shows "impl_start m + j * 4096 \<in> impl_pages m"
  using assms impl_geometry [OF assms(1)] by (auto simp: impl_pages_def)

text \<open>The free bytes of a heap are whole pages.\<close>

lemma free_page_whole:
  assumes "heap_wf h" "x \<in> free_bytes h"
  shows "{x - x mod 4096..<x - x mod 4096 + 4096} \<subseteq> free_bytes h"
proof -
  obtain i a where i: "i < 7" "a \<in> heap_levels h i" "x \<in> {a..<a + 2 ^ level_shift i}"
    using assms(2) by (auto simp: free_bytes_def covers_def region_def)
  have "2 ^ level_shift i dvd a" using assms(1) i by (auto simp: heap_wf_def blocks_ok_def)
  then have d: "4096 dvd a" "4096 dvd a + 2 ^ level_shift i" using level_dvd [of 0 i] i(1) by auto
  have "a \<le> x - x mod 4096" "x - x mod 4096 + 4096 \<le> a + 2 ^ level_shift i"
    using aligned_between [OF d, of x] i(3) by auto
  then show ?thesis using levels_in_free [OF i(1,2)] by (auto simp: subset_iff)
qed

lemma range_not_free:
  assumes "heap_wf h" "4096 dvd a" "\<And>j. j < n \<Longrightarrow> a + j * 4096 \<notin> free_bytes h"
  shows "{a..<a + n * 4096} \<inter> free_bytes h = {}"
proof (rule ccontr)
  assume "{a..<a + n * 4096} \<inter> free_bytes h \<noteq> {}"
  then obtain x where x: "a \<le> x" "x < a + n * 4096" "x \<in> free_bytes h" by auto
  obtain p where p: "a = 4096 * p" using assms(2) by (rule dvdE)
  define q where "q = x div 4096"
  have q: "x - x mod 4096 = q * 4096" by (simp add: q_def minus_mod_eq_div_mult)
  have "p \<le> q" "q < p + n" using x(1,2) p unfolding q_def by (auto simp: less_eq_div_iff_mult_less_eq div_less_iff_less_mult)
  then have "q - p < n" "a + (q - p) * 4096 = q * 4096" using p by (auto simp: algebra_simps)
  moreover have "q * 4096 \<in> free_bytes h" using free_page_whole [OF assms(1) x(3)] unfolding q by auto
  ultimately show False using assms(3) by metis
qed

definition pstate :: "Impl \<Rightarrow> nat \<Rightarrow> nat \<times> bool" where
  "pstate m j = (unat (ref_counts m ! j), pfree j m)"

text \<open>What an operation on the pages number \<open>lo\<close> to \<open>hi\<close> does to them.\<close>

definition pages_step :: "(nat \<Rightarrow> bool) \<Rightarrow> (nat \<times> bool \<Rightarrow> nat \<times> bool) \<Rightarrow> Impl \<Rightarrow> Impl \<Rightarrow> bool" where
  "pages_step P u m m' \<longleftrightarrow> impl_wf m' \<and> same_impl m m' \<and> length (ref_counts m') = length (ref_counts m) \<and>
     (\<forall>j < length (ref_counts m). pstate m' j = (if P j then u (pstate m j) else pstate m j))"

lemma free_run_ok:
  assumes "impl_wf m" "fs + fc \<le> length (ref_counts m)" "\<And>j. fs \<le> j \<Longrightarrow> j < fs + fc \<Longrightarrow> ref_counts m ! j = 0 \<and> \<not> pfree j m"
  shows "\<exists>m'. free_run fs fc m = Some m' \<and> ref_counts m' = ref_counts m \<and>
    pages_step (\<lambda>j. fs \<le> j \<and> j < fs + fc) (\<lambda>(c, f). (c, True)) m m'"
proof -
  let ?a = "impl_start m + fs * 4096"
  note g = impl_geometry [OF assms(1)]
  have wf: "heap_wf (m_heap m)" using assms(1) by (simp add: impl_wf_def)
  have e: "?a + fc * 4096 \<le> impl_end m" using assms(2) unfolding g(2) by simp
  then have a: "add64 (impl_start m) (mul64 fs 4096) = ?a" using g(3) by simp
  have nf: "?a + j * 4096 \<notin> free_bytes (m_heap m)" if "j < fc" for j
    using assms(3) [of "fs + j"] that by (simp add: pfree_def algebra_simps)
  have d: "4096 dvd ?a" using g(1) by simp
  have "impl_start m \<le> ?a" by simp
  from heap_free_ok [OF wf d this e range_not_free [OF wf d nf]] obtain h' where
    h': "heap_free ?a fc (m_heap m) = Some h'" "heap_wf h'" "same_heap (m_heap m) h'"
    "free_bytes h' = free_bytes (m_heap m) \<union> {?a..<?a + fc * 4096}" by (auto simp: frees_def)
  let ?m = "m\<lparr>m_heap := h'\<rparr>"
  have st: "heap_address h' = impl_start m" "heap_size h' = heap_size (m_heap m)" using h'(3) by (simp_all add: same_heap_def)
  have pf: "pfree j ?m \<longleftrightarrow> pfree j m \<or> fs \<le> j \<and> j < fs + fc" for j
    unfolding pfree_def by (auto simp: h'(4) st)
  have "impl_wf ?m" using assms(1,3) h'(2) st by (auto simp: impl_wf_def pf)
  moreover have "same_impl m ?m" using h'(3) by (simp add: same_impl_def)
  ultimately have "pages_step (\<lambda>j. fs \<le> j \<and> j < fs + fc) (\<lambda>(c, f). (c, True)) m ?m" by (auto simp: pages_step_def pstate_def pf)
  then show ?thesis using h'(1) by (simp add: free_run_def impl_free_def a)
qed

lemma raise_counts_ok:
  "i + n \<le> length rc \<Longrightarrow> \<exists>rc'. raise_counts i n rc = Some rc' \<and> length rc' = length rc \<and>
     (\<forall>j < length rc. rc' ! j = (if i \<le> j \<and> j < i + n then rc ! j + 1 else rc ! j))"
proof (induction n arbitrary: i rc)
  case (Suc n)
  let ?rc = "rc[i := rc ! i + 1]"
  have "Suc i + n \<le> length ?rc" using Suc.prems by simp
  from Suc.IH [OF this] obtain rc' where r: "raise_counts (Suc i) n ?rc = Some rc'" "length rc' = length ?rc"
    "\<forall>j < length ?rc. rc' ! j = (if Suc i \<le> j \<and> j < Suc i + n then ?rc ! j + 1 else ?rc ! j)" by blast
  have "rc' ! j = (if i \<le> j \<and> j < i + Suc n then rc ! j + 1 else rc ! j)" if "j < length rc" for j
    using r(3) that by (cases "j = i") auto
  then show ?case using r(1,2) Suc.prems by simp
qed simp

lemma page_state_index: "page_state m (impl_start m + j * 4096) = pstate m j"
  by (simp add: page_state_def pstate_def pfree_def)

text \<open>Closing: one reference less, and free when that was the last one.\<close>

definition close_page :: "nat \<times> bool \<Rightarrow> nat \<times> bool" where
  "close_page s = (fst s - 1, fst s \<le> 1)"

definition open_page :: "nat \<times> bool \<Rightarrow> nat \<times> bool" where
  "open_page s = (fst s + 1, snd s)"

lemma lower_count:
  assumes "impl_wf m" "i < length (ref_counts m)" "ref_counts m ! i \<noteq> 0"
  defines "m1 \<equiv> m\<lparr>ref_counts := (ref_counts m)[i := ref_counts m ! i - 1]\<rparr>"
  shows "impl_wf m1" "same_impl m m1" "pstate m1 i = (fst (pstate m i) - 1, False)" "\<not> pfree i m"
    "j \<noteq> i \<Longrightarrow> pstate m1 j = pstate m j"
proof -
  have pf: "pfree j m1 = pfree j m" for j by (simp add: m1_def pfree_def)
  show nf: "\<not> pfree i m" using assms by (simp add: impl_wf_def)
  have "pfree j m \<Longrightarrow> j < length (ref_counts m) \<Longrightarrow> ref_counts m1 ! j = 0" for j
    using assms(1) nf by (cases "j = i") (auto simp: impl_wf_def m1_def)
  then show "impl_wf m1" using assms(1) unfolding impl_wf_def pf by (auto simp: m1_def)
  show "same_impl m m1" by (simp add: m1_def same_impl_def)
  show "pstate m1 i = (fst (pstate m i) - 1, False)"
    using assms(2,3) nf pf by (simp add: pstate_def m1_def unat_minus_one)
  show "pstate m1 j = pstate m j" if "j \<noteq> i" using that pf by (simp add: pstate_def m1_def)
qed

lemma close_loop_ok:
  assumes "impl_wf m" "i + n \<le> length (ref_counts m)" "fc \<le> i" "0 < fc \<longrightarrow> fs = i - fc"
    "\<And>j. i - fc \<le> j \<Longrightarrow> j < i \<Longrightarrow> pstate m j = (0, False)" "\<And>j. i \<le> j \<Longrightarrow> j < i + n \<Longrightarrow> ref_counts m ! j \<noteq> 0"
  shows "\<exists>m'. close_loop i n fs fc m = Some m' \<and> pages_step (\<lambda>j. i - fc \<le> j \<and> j < i + n) close_page m m'"
  using assms
proof (induction n arbitrary: i fs fc m)
  case 0
  show ?case
  proof (cases "0 < fc")
    case True
    have "fs + fc \<le> length (ref_counts m)" "fs + fc = i" using 0 True by auto
    moreover have "ref_counts m ! j = 0 \<and> \<not> pfree j m" if "fs \<le> j" "j < fs + fc" for j
    proof -
      have "i - fc \<le> j" "j < i" using that 0 True \<open>fs + fc = i\<close> by auto
      from 0(5) [OF this] show ?thesis by (simp add: pstate_def unat_eq_0)
    qed
    ultimately obtain m' where m': "free_run fs fc m = Some m'"
      "pages_step (\<lambda>j. fs \<le> j \<and> j < fs + fc) (\<lambda>(c, f). (c, True)) m m'"
      using free_run_ok [OF 0(1), of fs fc] by blast
    have "pages_step (\<lambda>j. i - fc \<le> j \<and> j < i + 0) close_page m m'"
      using m'(2) 0(5) \<open>fs + fc = i\<close> unfolding pages_step_def by (auto simp: close_page_def)
    then show ?thesis using m'(1) True by simp
  next
    case False
    then show ?thesis using 0(1) by (auto simp: pages_step_def)
  qed
next
  case (Suc n)
  have i: "i < length (ref_counts m)" "ref_counts m ! i \<noteq> 0" using Suc.prems(2,6) by auto
  define m1 where "m1 = m\<lparr>ref_counts := (ref_counts m)[i := ref_counts m ! i - 1]\<rparr>"
  note l = lower_count [OF Suc.prems(1) i, folded m1_def]
  have len: "length (ref_counts m1) = length (ref_counts m)" by (simp add: m1_def)
  have rest: "ref_counts m1 ! j \<noteq> 0" if "Suc i \<le> j" "j < Suc i + n" for j
    using Suc.prems(6) [of j] that by (simp add: m1_def)
  have pre: "Suc i + n \<le> length (ref_counts m1)" using Suc.prems(2) len by simp
  have c: "fst (pstate m i) = unat (ref_counts m ! i)" "pstate m i = (unat (ref_counts m ! i), False)" "0 < unat (ref_counts m ! i)"
    using l(4) i(2) by (simp_all add: pstate_def unat_gt_0)
  have u: "unat (ref_counts m ! i - 1) = unat (ref_counts m ! i) - 1" using i(2) by (simp add: unat_minus_one)
  have carry: "pages_step (\<lambda>j. i - fc \<le> j \<and> j < i + Suc n) close_page m m'"
    if "pages_step Q close_page m1 m'" "\<And>j. j \<noteq> i \<Longrightarrow> Q j \<longleftrightarrow> i - fc \<le> j \<and> j < i + Suc n" "Q i \<longleftrightarrow> ref_counts m ! i - 1 = 0" for m' Q
    unfolding pages_step_def
  proof (intro conjI allI impI)
    show "impl_wf m'" "same_impl m m'" "length (ref_counts m') = length (ref_counts m)"
      using that(1) l(2) len by (auto simp: pages_step_def intro: same_impl_trans)
    fix j assume "j < length (ref_counts m)"
    then have s: "pstate m' j = (if Q j then close_page (pstate m1 j) else pstate m1 j)"
      using that(1) len by (simp add: pages_step_def)
    show "pstate m' j = (if i - fc \<le> j \<and> j < i + Suc n then close_page (pstate m j) else pstate m j)"
    proof (cases "j = i")
      case True
      have "ref_counts m ! i - 1 = 0 \<longleftrightarrow> unat (ref_counts m ! i) - 1 = 0" using u unat_eq_0 by metis
      then show ?thesis using True s that(3) l(3) c by (auto simp: close_page_def)
    next
      case False
      then show ?thesis using s that(2) l(5) by simp
    qed
  qed
  show ?case
  proof (cases "ref_counts m ! i - 1 = 0")
    case True
    have p: "pstate m1 j = (0, False)" if "Suc i - (fc + 1) \<le> j" "j < Suc i" for j
      using that Suc.prems(5) [of j] l(3,5) c u True by (cases "j = i") auto
    have e: "close_loop i (Suc n) fs fc m = close_loop (Suc i) n (i - fc) (fc + 1) m1"
      using True i Suc.prems(4) by (cases "fc = 0") (simp_all add: m1_def Let_def)
    have "fc + 1 \<le> Suc i" "0 < fc + 1 \<longrightarrow> i - fc = Suc i - (fc + 1)" using Suc.prems(3) by simp_all
    from Suc.IH [OF l(1) pre this p rest] obtain m' where m':
      "close_loop (Suc i) n (i - fc) (fc + 1) m1 = Some m'" "pages_step (\<lambda>j. Suc i - (fc + 1) \<le> j \<and> j < Suc i + n) close_page m1 m'"
      by blast
    show ?thesis unfolding e using m'(1) carry [OF m'(2)] True Suc.prems(3) by auto
  next
    case False
    show ?thesis
    proof (cases "0 < fc")
      case True
      have "fs + fc \<le> length (ref_counts m1)" "fs + fc = i" using Suc.prems(3,4) True i len by auto
      moreover have "ref_counts m1 ! j = 0 \<and> \<not> pfree j m1" if "fs \<le> j" "j < fs + fc" for j
      proof -
        have "i - fc \<le> j" "j < i" using that Suc.prems(4) True \<open>fs + fc = i\<close> by auto
        from Suc.prems(5) [OF this] l(5) [of j] \<open>j < i\<close> show ?thesis by (simp add: pstate_def unat_eq_0)
      qed
      ultimately obtain m2 where m2: "free_run fs fc m1 = Some m2" "ref_counts m2 = ref_counts m1"
        "pages_step (\<lambda>j. fs \<le> j \<and> j < fs + fc) (\<lambda>(c, f). (c, True)) m1 m2"
        using free_run_ok [OF l(1), of fs fc] by blast
      have "impl_wf m2" "Suc i + n \<le> length (ref_counts m2)" using m2(2,3) pre by (simp_all add: pages_step_def)
      from Suc.IH [OF this, of 0 fs] obtain m' where m': "close_loop (Suc i) n fs 0 m2 = Some m'"
        "pages_step (\<lambda>j. Suc i - 0 \<le> j \<and> j < Suc i + n) close_page m2 m'"
        using rest m2(2) by auto
      have e: "close_loop i (Suc n) fs fc m = Some m'" using False True i m2(1) m'(1) by (simp add: m1_def Let_def)
      have "pages_step (\<lambda>j. j \<noteq> i \<and> i - fc \<le> j \<and> j < i + Suc n) close_page m1 m'"
        unfolding pages_step_def
      proof (intro conjI allI impI)
        show "impl_wf m'" "same_impl m1 m'" "length (ref_counts m') = length (ref_counts m1)"
          using m2(3) m'(2) by (auto simp: pages_step_def intro: same_impl_trans)
        fix j assume j: "j < length (ref_counts m1)"
        have z: "pstate m1 j = (0, False)" if "fs \<le> j" "j < fs + fc"
          using that Suc.prems(5) [of j] l(5) [of j] \<open>fs + fc = i\<close> by auto
        have a: "pstate m2 j = (if fs \<le> j \<and> j < fs + fc then (fst (pstate m1 j), True) else pstate m1 j)"
          using m2(3) j by (auto simp: pages_step_def split: prod.splits)
        have b: "pstate m' j = (if Suc i \<le> j \<and> j < Suc i + n then close_page (pstate m2 j) else pstate m2 j)"
          using m'(2) j m2(2) by (simp add: pages_step_def)
        show "pstate m' j = (if j \<noteq> i \<and> i - fc \<le> j \<and> j < i + Suc n then close_page (pstate m1 j) else pstate m1 j)"
          using a b z \<open>fs + fc = i\<close> by (auto simp: close_page_def)
      qed
      then have "pages_step (\<lambda>j. i - fc \<le> j \<and> j < i + Suc n) close_page m m'"
        by (rule carry) (use False in auto)
      with e show ?thesis by blast
    next
      case f0: False
      have "close_loop i (Suc n) fs fc m = close_loop (Suc i) n fs 0 m1" using False f0 i by (simp add: m1_def Let_def)
      with Suc.IH [OF l(1) pre, of 0 fs] rest obtain m' where m': "close_loop i (Suc n) fs fc m = Some m'"
        "pages_step (\<lambda>j. Suc i - 0 \<le> j \<and> j < Suc i + n) close_page m1 m'" by auto
      have "pages_step (\<lambda>j. i - fc \<le> j \<and> j < i + Suc n) close_page m m'"
        by (rule carry [OF m'(2)]) (use False f0 in auto)
      then show ?thesis using m'(1) by blast
    qed
  qed
qed

section \<open>Operations on a run of pages inside a manager\<close>

text \<open>
  The contract of an operation on a run of pages of one manager, at page addresses: it is defined
  when every page of the run passes \<open>ok\<close>, and then changes exactly these pages, each by \<open>u\<close>.
\<close>

definition addr_step :: "nat set \<Rightarrow> (nat \<times> bool \<Rightarrow> nat \<times> bool) \<Rightarrow> Impl \<Rightarrow> Impl \<Rightarrow> bool" where
  "addr_step R u m m' \<longleftrightarrow> impl_wf m' \<and> same_impl m m' \<and>
     (\<forall>b \<in> impl_pages m. page_state m' b = (if b \<in> R then u (page_state m b) else page_state m b))"

locale page_operation =
  fixes f :: "nat \<Rightarrow> nat \<Rightarrow> Impl \<Rightarrow> Impl option"
    and ok :: "nat \<times> bool \<Rightarrow> bool"
    and u :: "nat \<times> bool \<Rightarrow> nat \<times> bool"
  assumes on_run: "impl_wf m \<Longrightarrow> 4096 dvd a \<Longrightarrow> impl_start m \<le> a \<Longrightarrow> a + n * 4096 \<le> impl_end m \<Longrightarrow>
    \<forall>b \<in> set (run_pages a n). ok (page_state m b) \<Longrightarrow>
    \<exists>m'. f a n m = Some m' \<and> addr_step (set (run_pages a n)) u m m'"

lemma run_index:
  assumes "impl_wf m" "4096 dvd a" "impl_start m \<le> a" "a + n * 4096 \<le> impl_end m"
  shows "\<exists>i. a = impl_start m + i * 4096 \<and> i + n \<le> length (ref_counts m) \<and>
    get_page_offset a (m_heap m) = i \<and> add64 i n = i + n"
proof -
  note g = impl_geometry [OF assms(1)]
  obtain p q where p: "impl_start m = 4096 * p" and q: "a = 4096 * q" using g(1) assms(2) by (auto elim!: dvdE)
  have le: "p \<le> q" "q + n \<le> p + length (ref_counts m)" using assms(3,4) p q g(2) by auto
  then have a: "a = impl_start m + (q - p) * 4096" using p q by (auto simp: algebra_simps)
  have aW: "a < W64" using assms(4) g(3) by linarith
  have "get_page_offset a (m_heap m) = q - p"
    using aW assms(3) a by (simp add: get_page_offset_def)
  moreover have "q - p + n < W64" using assms(4) g(3) a by linarith
  ultimately show ?thesis using le a by (intro exI [of _ "q - p"]) simp
qed

lemma run_pages_iff: "a + j * 4096 \<in> set (run_pages (a + i * 4096) n) \<longleftrightarrow> i \<le> j \<and> j < i + n"
proof
  assume "a + j * 4096 \<in> set (run_pages (a + i * 4096) n)"
  then obtain k where "k < n" "a + j * 4096 = a + i * 4096 + k * 4096" by (auto simp: run_pages_def)
  then show "i \<le> j \<and> j < i + n" by auto
next
  assume "i \<le> j \<and> j < i + n"
  then have "j - i < n" "a + j * 4096 = a + i * 4096 + (j - i) * 4096" by (auto simp: algebra_simps)
  then show "a + j * 4096 \<in> set (run_pages (a + i * 4096) n)" unfolding run_pages_def by auto
qed

lemma addr_stepI:
  assumes "impl_wf m" "pages_step (\<lambda>j. i \<le> j \<and> j < i + n) u m m'"
  shows "addr_step (set (run_pages (impl_start m + i * 4096) n)) u m m'"
  unfolding addr_step_def
proof (intro conjI ballI)
  show s: "impl_wf m'" "same_impl m m'" using assms(2) by (simp_all add: pages_step_def)
  fix b assume "b \<in> impl_pages m"
  from page_index [OF assms(1) this] obtain j where j: "j < length (ref_counts m)" "b = impl_start m + j * 4096" by blast
  have "page_state m' b = pstate m' j"
    unfolding j(2) same_implD(1) [OF s(2), symmetric] by (rule page_state_index)
  then show "page_state m' b = (if b \<in> set (run_pages (impl_start m + i * 4096) n) then u (page_state m b) else page_state m b)"
    using assms(2) j(1) unfolding j(2) page_state_index run_pages_iff by (simp add: pages_step_def)
qed

definition can_open :: "nat \<times> bool \<Rightarrow> bool" where
  "can_open s \<longleftrightarrow> \<not> snd s \<and> fst s < 2 ^ 16 - 1"

definition can_close :: "nat \<times> bool \<Rightarrow> bool" where
  "can_close s \<longleftrightarrow> 0 < fst s"

lemma impl_open_ok:
  assumes "impl_wf m" "4096 dvd a" "impl_start m \<le> a" "a + n * 4096 \<le> impl_end m"
    "\<forall>b \<in> set (run_pages a n). can_open (page_state m b)"
  shows "\<exists>m'. impl_open a n m = Some m' \<and> addr_step (set (run_pages a n)) open_page m m'"
proof -
  obtain i where i: "a = impl_start m + i * 4096" "i + n \<le> length (ref_counts m)"
    "get_page_offset a (m_heap m) = i" "add64 i n = i + n" using run_index [OF assms(1-4)] by blast
  from raise_counts_ok [OF i(2)] obtain rc where rc: "raise_counts i n (ref_counts m) = Some rc" "length rc = length (ref_counts m)"
    "\<forall>j < length (ref_counts m). rc ! j = (if i \<le> j \<and> j < i + n then ref_counts m ! j + 1 else ref_counts m ! j)" by blast
  let ?m = "m\<lparr>ref_counts := rc\<rparr>"
  have pf: "pfree j ?m = pfree j m" for j by (simp add: pfree_def)
  have o: "\<not> pfree j m \<and> unat (ref_counts m ! j + 1) = unat (ref_counts m ! j) + 1" if "i \<le> j" "j < i + n" for j
  proof -
    have "impl_start m + j * 4096 \<in> set (run_pages a n)" unfolding i(1) run_pages_iff using that by simp
    then have c: "can_open (pstate m j)" using assms(5) page_state_index by metis
    then have "unat (ref_counts m ! j) + unat (1 :: u16) < 2 ^ LENGTH(16)" by (simp add: can_open_def pstate_def)
    then have "unat (ref_counts m ! j + 1) = unat (ref_counts m ! j) + unat (1 :: u16)" by (rule unat_add_lem [THEN iffD1])
    then show ?thesis using c by (simp add: can_open_def pstate_def)
  qed
  have "pages_step (\<lambda>j. i \<le> j \<and> j < i + n) open_page m ?m"
    unfolding pages_step_def
  proof (intro conjI allI impI)
    show "impl_wf ?m" using assms(1) rc(2,3) o unfolding impl_wf_def pf by auto
    show "same_impl m ?m" "length (ref_counts ?m) = length (ref_counts m)" using rc(2) by (simp_all add: same_impl_def)
    fix j assume "j < length (ref_counts m)"
    then show "pstate ?m j = (if i \<le> j \<and> j < i + n then open_page (pstate m j) else pstate m j)"
      using rc(3) o [of j] by (simp add: pstate_def pf open_page_def)
  qed
  from addr_stepI [OF assms(1) this] show ?thesis
    using rc(1) i(3,4) unfolding i(1) [symmetric] by (simp add: impl_open_def)
qed

lemma impl_close_ok:
  assumes "impl_wf m" "4096 dvd a" "impl_start m \<le> a" "a + n * 4096 \<le> impl_end m"
    "\<forall>b \<in> set (run_pages a n). can_close (page_state m b)"
  shows "\<exists>m'. impl_close a n m = Some m' \<and> addr_step (set (run_pages a n)) close_page m m'"
proof -
  obtain i where i: "a = impl_start m + i * 4096" "i + n \<le> length (ref_counts m)"
    "get_page_offset a (m_heap m) = i" "add64 i n = i + n" using run_index [OF assms(1-4)] by blast
  have c: "ref_counts m ! j \<noteq> 0" if "i \<le> j" "j < i + n" for j
  proof -
    have "impl_start m + j * 4096 \<in> set (run_pages a n)" unfolding i(1) run_pages_iff using that by simp
    then have "can_close (pstate m j)" using assms(5) page_state_index by metis
    then show ?thesis by (auto simp: can_close_def pstate_def)
  qed
  from close_loop_ok [OF assms(1) i(2), of 0 0] c obtain m' where m': "close_loop i n 0 0 m = Some m'"
    "pages_step (\<lambda>j. i - 0 \<le> j \<and> j < i + n) close_page m m'" by auto
  from m'(2) have "pages_step (\<lambda>j. i \<le> j \<and> j < i + n) close_page m m'" by simp
  from addr_stepI [OF assms(1) this] show ?thesis
    using m'(1) i(3,4) unfolding i(1) [symmetric] by (simp add: impl_close_def)
qed

interpretation opens: page_operation impl_open can_open open_page
  by unfold_locales (rule impl_open_ok)

lemma open_first_eq: "impl_open_first = impl_open"
  by (intro ext) (simp add: impl_open_first_def impl_open_def)

interpretation closes: page_operation impl_close can_close close_page
  by unfold_locales (rule impl_close_ok)

text \<open>Giving unreferenced pages back, and taking free pages.\<close>

definition unowned :: "nat \<times> bool \<Rightarrow> bool" where
  "unowned s \<longleftrightarrow> s = (0, False)"

definition free_page :: "nat \<times> bool \<Rightarrow> nat \<times> bool" where
  "free_page s = (fst s, True)"

definition take_page :: "nat \<times> bool \<Rightarrow> nat \<times> bool" where
  "take_page s = (fst s, False)"

lemma impl_free_ok:
  assumes "impl_wf m" "4096 dvd a" "impl_start m \<le> a" "a + n * 4096 \<le> impl_end m"
    "\<forall>b \<in> set (run_pages a n). unowned (page_state m b)"
  shows "\<exists>m'. impl_free a n m = Some m' \<and> addr_step (set (run_pages a n)) free_page m m'"
proof -
  obtain i where i: "a = impl_start m + i * 4096" "i + n \<le> length (ref_counts m)" using run_index [OF assms(1-4)] by blast
  have c: "ref_counts m ! j = 0 \<and> \<not> pfree j m" if "i \<le> j" "j < i + n" for j
  proof -
    have "impl_start m + j * 4096 \<in> set (run_pages a n)" unfolding i(1) run_pages_iff using that by simp
    then have "unowned (pstate m j)" using assms(5) page_state_index by metis
    then show ?thesis by (simp add: unowned_def pstate_def unat_eq_0)
  qed
  obtain m' where m': "free_run i n m = Some m'" "pages_step (\<lambda>j. i \<le> j \<and> j < i + n) (\<lambda>(c, f). (c, True)) m m'"
    using free_run_ok [OF assms(1) i(2) c] by blast
  have "impl_start m + i * 4096 < W64" using assms(4) impl_geometry(3) [OF assms(1)] i(1) by linarith
  then have "free_run i n m = impl_free a n m" unfolding i(1) by (simp add: free_run_def)
  moreover have "(\<lambda>(c, f). (c, True)) = free_page" by (auto simp: free_page_def fun_eq_iff)
  ultimately show ?thesis using m' addr_stepI [OF assms(1)] unfolding i(1) by metis
qed

interpretation frees: page_operation impl_free unowned free_page
  by unfold_locales (rule impl_free_ok)

lemma impl_take_ok:
  assumes "impl_wf m" "takes (m_heap m) {r..<r + n * 4096} h'" "4096 dvd r"
  shows "addr_step (set (run_pages r n)) take_page m (m\<lparr>m_heap := h'\<rparr>) \<and>
    (\<forall>b \<in> set (run_pages r n). b \<in> impl_pages m \<and> page_state m b = (0, True))"
proof -
  let ?m = "m\<lparr>m_heap := h'\<rparr>"
  have t: "heap_wf h'" "same_heap (m_heap m) h'" "{r..<r + n * 4096} \<subseteq> free_bytes (m_heap m)"
    "free_bytes h' = free_bytes (m_heap m) - {r..<r + n * 4096}" using assms(2) by (simp_all add: takes_def)
  have st: "heap_address h' = impl_start m" "heap_size h' = heap_size (m_heap m)" using t(2) by (simp_all add: same_heap_def)
  have wf: "heap_wf (m_heap m)" using assms(1) by (simp add: impl_wf_def)
  have inr: "b \<in> {r..<r + n * 4096}" if "b \<in> set (run_pages r n)" for b using that by (auto simp: run_pages_def)
  have iff: "b \<in> {r..<r + n * 4096} \<longleftrightarrow> b \<in> set (run_pages r n)" if d: "4096 dvd b" for b
  proof
    assume b: "b \<in> {r..<r + n * 4096}"
    obtain p where p: "r = 4096 * p" using assms(3) by (rule dvdE)
    obtain q where q: "b = 4096 * q" using d by (rule dvdE)
    have "p \<le> q" "q - p < n" using b p q by auto
    then have "b = r + (q - p) * 4096" using p q by (auto simp: algebra_simps)
    then show "b \<in> set (run_pages r n)" using \<open>q - p < n\<close> by (auto simp: run_pages_def)
  qed (rule inr)
  have "pfree j ?m \<Longrightarrow> pfree j m" for j using t(4) st by (simp add: pfree_def)
  then have "impl_wf ?m" using assms(1) t(1) st by (auto simp: impl_wf_def)
  moreover have "same_impl m ?m" using t(2) by (simp add: same_impl_def)
  moreover have "page_state ?m b = (if b \<in> set (run_pages r n) then take_page (page_state m b) else page_state m b)"
    if "b \<in> impl_pages m" for b
    using that iff [of b] t(4) st by (auto simp: page_state_def take_page_def impl_pages_def)
  moreover have "b \<in> impl_pages m \<and> page_state m b = (0, True)" if b: "b \<in> set (run_pages r n)" for b
  proof -
    have f: "b \<in> free_bytes (m_heap m)" using t(3) inr [OF b] by blast
    have "4096 dvd b" using b assms(3) by (auto simp: run_pages_def)
    moreover have "b \<in> {impl_start m..<impl_end m}" using f wf by (auto simp: heap_wf_def)
    ultimately have in': "b \<in> impl_pages m" by (simp add: impl_pages_def)
    from page_index [OF assms(1) this] obtain j where j: "j < length (ref_counts m)" "b = impl_start m + j * 4096" by blast
    then have "pfree j m" using f by (simp add: pfree_def)
    then have "ref_counts m ! j = 0" using assms(1) j(1) by (auto simp: impl_wf_def)
    then show ?thesis using in' f unfolding j(2) page_state_index by (simp add: pstate_def pfree_def)
  qed
  ultimately show ?thesis by (simp add: addr_step_def)
qed

end
