(* ===== verification/MemoryManagerState.thy ===== *)
theory MemoryManagerState
  imports MemoryManagerImpl
begin

text \<open>
  The managers of \<open>MemoryManager\<close> together: the memory they own as one map from page addresses to
  a count and a flag for free pages, operations on runs that may span managers, and the chains
  that link the managers of each pool.
\<close>

section \<open>The memory of a list of managers\<close>

definition impls_wf :: "Impl list \<Rightarrow> bool" where
  "impls_wf ms \<longleftrightarrow> (\<forall>m \<in> set ms. impl_wf m \<and> impl_end m < 2 ^ 44) \<and>
     (\<forall>i < length ms. \<forall>j < length ms. i \<noteq> j \<longrightarrow>
        {impl_start (ms ! i)..<impl_end (ms ! i)} \<inter> {impl_start (ms ! j)..<impl_end (ms ! j)} = {})"

definition mem_pages :: "Impl list \<Rightarrow> nat set" where
  "mem_pages ms = (\<Union>m \<in> set ms. impl_pages m)"

definition mem_state :: "Impl list \<Rightarrow> nat \<Rightarrow> nat \<times> bool" where
  "mem_state ms b = (case find_manager_index b ms of None \<Rightarrow> (0, False) | Some i \<Rightarrow> page_state (ms ! i) b)"

definition mem_step :: "nat set \<Rightarrow> (nat \<times> bool \<Rightarrow> nat \<times> bool) \<Rightarrow> Impl list \<Rightarrow> Impl list \<Rightarrow> bool" where
  "mem_step R u ms ms' \<longleftrightarrow> impls_wf ms' \<and> list_all2 same_impl ms ms' \<and>
     (\<forall>b \<in> mem_pages ms. mem_state ms' b = (if b \<in> R then u (mem_state ms b) else mem_state ms b))"

lemma mem_pages_index: "b \<in> mem_pages ms \<longleftrightarrow> (\<exists>i < length ms. b \<in> impl_pages (ms ! i))"
  unfolding mem_pages_def UN_iff by (metis in_set_conv_nth)

lemma impl_pages_contains: "impl_wf m \<Longrightarrow> b \<in> impl_pages m \<Longrightarrow> impl_contains b m"
  using impl_geometry(4) [of m] by (simp add: impl_pages_def impl_contains_def)

lemma impls_disjoint:
  assumes "impls_wf ms" "i < length ms" "j < length ms" "i \<noteq> j"
  shows "{impl_start (ms ! i)..<impl_end (ms ! i)} \<inter> {impl_start (ms ! j)..<impl_end (ms ! j)} = {}"
  using conjunct2 [OF assms(1) [unfolded impls_wf_def], rule_format, OF assms(2-4)] .

lemma find_owner:
  assumes "impls_wf ms" "i < length ms" "b \<in> impl_pages (ms ! i)"
  shows "find_manager_index b ms = Some i"
proof -
  have w: "impl_wf (ms ! j)" if "j < length ms" for j using assms(1) that by (simp add: impls_wf_def)
  have c: "impl_contains b (ms ! i)" using impl_pages_contains [OF w [OF assms(2)] assms(3)] .
  have "\<not> impl_contains b (ms ! j)" if "j < length ms" "j \<noteq> i" for j
  proof
    assume "impl_contains b (ms ! j)"
    then have "b \<in> {impl_start (ms ! j)..<impl_end (ms ! j)}"
      using impl_geometry(4) [OF w [OF that(1)]] by (simp add: impl_contains_def)
    moreover have "b \<in> {impl_start (ms ! i)..<impl_end (ms ! i)}" using assms(3) by (simp add: impl_pages_def)
    ultimately show False using assms(1,2) that unfolding impls_wf_def by blast
  qed
  with c assms(2) show ?thesis unfolding find_manager_index_def find_Some_iff
    by (intro exI [of _ i]) auto
qed

lemma mem_state_owner:
  "impls_wf ms \<Longrightarrow> i < length ms \<Longrightarrow> b \<in> impl_pages (ms ! i) \<Longrightarrow> mem_state ms b = page_state (ms ! i) b"
  by (simp add: mem_state_def find_owner)

lemma same_list:
  assumes "list_all2 same_impl ms ms'"
  shows "length ms' = length ms" "i < length ms \<Longrightarrow> same_impl (ms ! i) (ms' ! i)" "mem_pages ms' = mem_pages ms"
proof -
  show l: "length ms' = length ms" using list_all2_lengthD [OF assms] by simp
  show s: "i < length ms \<Longrightarrow> same_impl (ms ! i) (ms' ! i)" for i using list_all2_nthD [OF assms] by simp
  show "mem_pages ms' = mem_pages ms"
    using l same_implD(3) [OF s] unfolding set_eq_iff mem_pages_index by metis
qed

lemma same_list_refl [simp]: "list_all2 same_impl ms ms"
  by (simp add: list_all2_refl)

lemma same_list_trans: "list_all2 same_impl a b \<Longrightarrow> list_all2 same_impl b c \<Longrightarrow> list_all2 same_impl a c"
  using list_all2_trans [of same_impl same_impl same_impl] same_impl_trans by blast

lemma mem_step_refl: "impls_wf ms \<Longrightarrow> mem_step {} u ms ms"
  by (simp add: mem_step_def)

lemma mem_step_trans:
  assumes "mem_step R u ms ms1" "mem_step S u ms1 ms2" "R \<inter> S = {}"
  shows "mem_step (R \<union> S) u ms ms2"
proof -
  have "mem_pages ms1 = mem_pages ms" using assms(1) same_list(3) by (simp add: mem_step_def)
  then show ?thesis using assms same_list_trans unfolding mem_step_def by auto
qed

lemma mem_step_then:
  assumes "mem_step R u ms ms1" "mem_step R v ms1 ms2"
  shows "mem_step R (v \<circ> u) ms ms2"
proof -
  have "mem_pages ms1 = mem_pages ms" using assms(1) same_list(3) by (simp add: mem_step_def)
  then show ?thesis using assms same_list_trans unfolding mem_step_def by auto
qed

text \<open>A step of one manager is a step of the list.\<close>

lemma step_at:
  assumes "impls_wf ms" "i < length ms" "addr_step R u (ms ! i) m'" "R \<subseteq> impl_pages (ms ! i)"
  shows "mem_step R u ms (ms[i := m'])"
proof -
  let ?ms = "ms[i := m']"
  have a: "impl_wf m'" "same_impl (ms ! i) m'"
    "\<forall>b \<in> impl_pages (ms ! i). page_state m' b = (if b \<in> R then u (page_state (ms ! i) b) else page_state (ms ! i) b)"
    using assms(3) by (simp_all add: addr_step_def)
  have same: "list_all2 same_impl ms ?ms"
    unfolding list_all2_conv_all_nth
  proof (intro conjI allI impI)
    fix j assume "j < length ms"
    then show "same_impl (ms ! j) (?ms ! j)" using a(2) by (cases "j = i") simp_all
  qed simp
  have st: "impl_start (?ms ! j) = impl_start (ms ! j) \<and> impl_end (?ms ! j) = impl_end (ms ! j)" if "j < length ms" for j
    using same_implD [OF same_list(2) [OF same that]] by simp
  have wf: "impls_wf ?ms"
    unfolding impls_wf_def
  proof (intro conjI ballI allI impI)
    fix m assume "m \<in> set ?ms"
    then obtain j where j: "j < length ms" "m = ?ms ! j" by (auto simp: in_set_conv_nth)
    have "impl_wf (ms ! j)" "impl_end (ms ! j) < 2 ^ 44" using assms(1) j(1) by (simp_all add: impls_wf_def)
    then show "impl_wf m" "impl_end m < 2 ^ 44" using a(1) st [OF j(1)] j by (cases "j = i", simp_all)+
  next
    fix j k assume jk: "j < length ?ms" "k < length ?ms" "j \<noteq> k"
    then have l: "j < length ms" "k < length ms" by simp_all
    show "{impl_start (?ms ! j)..<impl_end (?ms ! j)} \<inter> {impl_start (?ms ! k)..<impl_end (?ms ! k)} = {}"
      unfolding st [OF l(1), THEN conjunct1] st [OF l(1), THEN conjunct2]
        st [OF l(2), THEN conjunct1] st [OF l(2), THEN conjunct2]
      by (rule impls_disjoint [OF assms(1) l jk(3)])
  qed
  have "mem_state ?ms b = (if b \<in> R then u (mem_state ms b) else mem_state ms b)" if b: "b \<in> mem_pages ms" for b
  proof -
    from b obtain j where j: "j < length ms" "b \<in> impl_pages (ms ! j)" unfolding mem_pages_index by blast
    have "b \<in> impl_pages (?ms ! j)" unfolding same_implD(3) [OF same_list(2) [OF same j(1)]] by (rule j(2))
    moreover have "j < length ?ms" using j(1) by simp
    ultimately have n: "mem_state ?ms b = page_state (?ms ! j) b" using mem_state_owner [OF wf] by blast
    have o: "mem_state ms b = page_state (ms ! j) b" using assms(1) j by (rule mem_state_owner)
    show ?thesis
    proof (cases "j = i")
      case True
      then show ?thesis using n o a(3) j by simp
    next
      case False
      have "b \<notin> R"
      proof
        assume "b \<in> R"
        then have "find_manager_index b ms = Some i" using assms(1,2,4) by (intro find_owner) auto
        then show False using find_owner [OF assms(1) j] False by simp
      qed
      then show ?thesis using n o False by simp
    qed
  qed
  then show ?thesis using wf same by (simp add: mem_step_def)
qed

lemma run_in_impl:
  assumes "4096 dvd a" "impl_start m \<le> a" "a + n * 4096 \<le> impl_end m"
  shows "set (run_pages a n) \<subseteq> impl_pages m"
proof
  fix b assume "b \<in> set (run_pages a n)"
  then obtain k where k: "k < n" "b = a + k * 4096" by (auto simp: run_pages_def)
  then have "b < impl_end m" using assms(3) by (intro less_le_trans [OF _ assms(3)]) simp
  then show "b \<in> impl_pages m" using assms(1,2) k by (simp add: impl_pages_def)
qed

text \<open>The part of a run of owned pages that lies in the manager of its first page.\<close>

lemma first_part:
  assumes "impls_wf ms" "4096 dvd a" "0 < n" "set (run_pages a n) \<subseteq> mem_pages ms"
  obtains i cur where "i < length ms" "find_manager_index a ms = Some i" "impl_start (ms ! i) \<le> a"
    "min n (get_page_offset_to_end a (m_heap (ms ! i))) = cur" "0 < cur" "cur \<le> n" "a + cur * 4096 \<le> impl_end (ms ! i)"
    "cur < n \<longrightarrow> a + cur * 4096 = impl_end (ms ! i)" "add64 a (mul64 cur 4096) = a + cur * 4096"
proof -
  have "a \<in> set (run_pages a n)" using assms(3) by (auto simp: run_pages_def intro!: image_eqI [of _ _ 0])
  then have "a \<in> mem_pages ms" using assms(4) by blast
  then obtain i where i: "i < length ms" "a \<in> impl_pages (ms ! i)" unfolding mem_pages_index by blast
  have w: "impl_wf (ms ! i)" using assms(1) i(1) by (simp add: impls_wf_def)
  note g = impl_geometry [OF w]
  have lt: "impl_start (ms ! i) \<le> a" "a < impl_end (ms ! i)" using i(2) by (simp_all add: impl_pages_def)
  define te where "te = (impl_end (ms ! i) - a) div 4096"
  have to_end: "get_page_offset_to_end a (m_heap (ms ! i)) = te"
    using lt g(3,4) by (simp add: get_page_offset_to_end_def te_def)
  have "4096 dvd impl_end (ms ! i) - a" using g(5) assms(2) by (rule dvd_diff_nat)
  then have te: "te * 4096 = impl_end (ms ! i) - a" by (simp add: te_def)
  have cur: "0 < min n te" "min n te \<le> n" "a + min n te * 4096 \<le> impl_end (ms ! i)"
    "min n te < n \<longrightarrow> a + min n te * 4096 = impl_end (ms ! i)"
    using te lt assms(3) by (auto simp: min_def)
  have "add64 a (mul64 (min n te) 4096) = a + min n te * 4096" using cur(3) g(3) by simp
  then show thesis using that [OF i(1) find_owner [OF assms(1) i] lt(1) _ cur] to_end by simp
qed

context page_operation
begin

lemma on_manager:
  assumes "impls_wf ms" "i < length ms" "4096 dvd a" "impl_start (ms ! i) \<le> a" "a + n * 4096 \<le> impl_end (ms ! i)"
    "\<forall>b \<in> set (run_pages a n). ok (mem_state ms b)"
  shows "\<exists>m'. f a n (ms ! i) = Some m' \<and> mem_step (set (run_pages a n)) u ms (ms[i := m'])"
proof -
  have w: "impl_wf (ms ! i)" using assms(1,2) by (simp add: impls_wf_def)
  have sub: "set (run_pages a n) \<subseteq> impl_pages (ms ! i)" using run_in_impl [OF assms(3-5)] .
  then have "\<forall>b \<in> set (run_pages a n). ok (page_state (ms ! i) b)"
    using assms(6) mem_state_owner [OF assms(1,2)] by (metis subsetD)
  from on_run [OF w assms(3-5) this] obtain m' where "f a n (ms ! i) = Some m'"
    "addr_step (set (run_pages a n)) u (ms ! i) m'" by blast
  then show ?thesis using step_at [OF assms(1,2) _ sub] by blast
qed

text \<open>A run of owned pages, possibly in several managers: the loop ends, with exactly the run changed.\<close>

lemma over_managers_ok:
  assumes "impls_wf ms" "4096 dvd a" "set (run_pages a n) \<subseteq> mem_pages ms" "\<forall>b \<in> set (run_pages a n). ok (mem_state ms b)"
  shows "\<exists>ms'. over_managers f a n ms = Some ms' \<and> mem_step (set (run_pages a n)) u ms ms'"
  using assms
proof (induction n arbitrary: a ms rule: less_induct)
  case (less n)
  show ?case
  proof (cases "n = 0")
    case True
    then show ?thesis using mem_step_refl [OF less.prems(1)]
      by (subst over_managers.simps) (simp add: run_pages_def)
  next
    case False
    then have "0 < n" by simp
    from first_part [OF less.prems(1,2) this less.prems(3)] obtain i cur where
      i: "i < length ms" and fm: "find_manager_index a ms = Some i" and lt: "impl_start (ms ! i) \<le> a" and
      mn: "min n (get_page_offset_to_end a (m_heap (ms ! i))) = cur" and
      cur: "0 < cur" "cur \<le> n" "a + cur * 4096 \<le> impl_end (ms ! i)" and ad: "add64 a (mul64 cur 4096) = a + cur * 4096"
      by blast
    define rest where "rest = n - cur"
    have split: "run_pages a n = run_pages a cur @ run_pages (a + cur * 4096) rest"
      using run_pages_add [of a cur rest] cur(2) by (simp add: rest_def)
    have dis: "set (run_pages a cur) \<inter> set (run_pages (a + cur * 4096) rest) = {}"
      by (auto simp: run_pages_def)
    have "\<forall>b \<in> set (run_pages a cur). ok (mem_state ms b)" using less.prems(4) split by simp
    from on_manager [OF less.prems(1) i less.prems(2) lt cur(3) this] obtain m' where
      m': "f a cur (ms ! i) = Some m'" and s: "mem_step (set (run_pages a cur)) u ms (ms[i := m'])" by blast
    let ?ms = "ms[i := m']"
    have p: "mem_pages ?ms = mem_pages ms" using s same_list(3) by (simp add: mem_step_def)
    have wf: "impls_wf ?ms" using s by (simp add: mem_step_def)
    have sub: "set (run_pages (a + cur * 4096) rest) \<subseteq> mem_pages ?ms" using less.prems(3) split p by simp
    have o: "\<forall>b \<in> set (run_pages (a + cur * 4096) rest). ok (mem_state ?ms b)"
    proof
      fix b assume b: "b \<in> set (run_pages (a + cur * 4096) rest)"
      then have "b \<notin> set (run_pages a cur)" "b \<in> mem_pages ms" using dis sub p by auto
      then have "mem_state ?ms b = mem_state ms b" using s by (simp add: mem_step_def)
      then show "ok (mem_state ?ms b)" using less.prems(4) b split by simp
    qed
    have "rest < n" "4096 dvd a + cur * 4096" using cur(1,2) less.prems(2) by (auto simp: rest_def)
    from less.IH [OF this(1) wf this(2) sub o] obtain ms' where
      ms': "over_managers f (a + cur * 4096) rest ?ms = Some ms'" "mem_step (set (run_pages (a + cur * 4096) rest)) u ?ms ms'" by blast
    have "over_managers f a n ms = Some ms'"
      using False fm m' ms'(1) by (subst over_managers.simps) (simp add: mn ad Let_def flip: rest_def)
    moreover have "mem_step (set (run_pages a n)) u ms ms'"
      unfolding split set_append using mem_step_trans [OF s ms'(2) dis] .
    ultimately show ?thesis by blast
  qed
qed

end

lemma locked_ok:
  assumes "page_operation f ok u" "impl_wf m" "4096 dvd a" "impl_start m \<le> a" "a + n * 4096 \<le> impl_end m"
    "\<forall>b \<in> set (run_pages a n). ok (page_state m b)"
  shows "\<exists>m'. locked f a n m = Some m' \<and> addr_step (set (run_pages a n)) u m m'"
proof -
  have "m_pool m \<noteq> Count" using assms(2) by (simp add: impl_wf_def)
  then have "pool_index (m_pool m) < POOL_COUNT" by (cases "m_pool m") (simp_all add: pool_index_def POOL_COUNT_def)
  then show ?thesis using page_operation.on_run [OF assms] by (simp add: locked_def)
qed

interpretation opens_locked: page_operation "locked impl_open" can_open open_page
  by unfold_locales (rule locked_ok [OF opens.page_operation_axioms])

interpretation closes_locked: page_operation "locked impl_close" can_close close_page
  by unfold_locales (rule locked_ok [OF closes.page_operation_axioms])

section \<open>The chains of the pools\<close>

definition impl_link :: "Direction \<Rightarrow> Impl \<Rightarrow> nat option" where
  "impl_link dir m = (case dir of FromBack \<Rightarrow> m_prev m | FromFront \<Rightarrow> m_next m)"

fun linked :: "(nat \<Rightarrow> nat option) \<Rightarrow> nat option \<Rightarrow> nat list \<Rightarrow> bool" where
  "linked f cur [] \<longleftrightarrow> cur = None"
| "linked f cur (i # xs) \<longleftrightarrow> cur = Some i \<and> linked f (f i) xs"

definition members :: "Pool \<Rightarrow> Impl list \<Rightarrow> nat list" where
  "members p ms = filter (\<lambda>i. m_pool (ms ! i) = p) [0..<length ms]"

definition in_order :: "Direction \<Rightarrow> nat list \<Rightarrow> nat list" where
  "in_order dir xs = (case dir of FromBack \<Rightarrow> rev xs | FromFront \<Rightarrow> xs)"

text \<open>From the first manager of a pool in either direction the links visit exactly its members.\<close>

definition chains_wf :: "KMemoryManager \<Rightarrow> bool" where
  "chains_wf mm \<longleftrightarrow> (\<forall>p dir. p \<noteq> Count \<longrightarrow> (\<exists>cur. get_first_manager p dir mm = Some cur \<and>
     linked (\<lambda>i. impl_link dir (managers mm ! i)) cur (in_order dir (members p (managers mm)))))"

definition mm_wf :: "KMemoryManager \<Rightarrow> bool" where
  "mm_wf mm \<longleftrightarrow> impls_wf (managers mm) \<and> num_managers mm = length (managers mm) \<and>
     length (managers mm) \<le> MAX_MANAGER_COUNT \<and> length (pool_head mm) = POOL_COUNT \<and>
     length (pool_tail mm) = POOL_COUNT \<and> length (optimized_process_ids mm) = POOL_COUNT \<and>
     length (has_optimized_process mm) = POOL_COUNT \<and> chains_wf mm"

lemma linked_cong: "(\<And>i. i \<in> set xs \<Longrightarrow> f i = g i) \<Longrightarrow> linked f cur xs \<longleftrightarrow> linked g cur xs"
  by (induction xs arbitrary: cur) auto

lemma linked_snoc:
  "linked f cur xs \<Longrightarrow> xs \<noteq> [] \<Longrightarrow> distinct xs \<Longrightarrow> n \<notin> set xs \<Longrightarrow> f n = None \<Longrightarrow>
   linked (f(last xs := Some n)) cur (xs @ [n])"
proof (induction xs arbitrary: cur)
  case (Cons i xs)
  show ?case
  proof (cases "xs = []")
    case True
    then show ?thesis using Cons.prems by simp
  next
    case False
    have l: "linked (f(last xs := Some n)) (f i) (xs @ [n])" by (rule Cons.IH) (use Cons.prems False in auto)
    have "last xs \<noteq> i" using Cons.prems(3) False by auto
    then show ?thesis using l Cons.prems(1) False by (simp add: fun_upd_def)
  qed
qed simp

lemma linked_first: "linked f cur xs \<Longrightarrow> cur = (case xs of [] \<Rightarrow> None | i # _ \<Rightarrow> Some i)"
  by (cases xs) auto

lemma members_set: "i \<in> set (members p ms) \<longleftrightarrow> i < length ms \<and> m_pool (ms ! i) = p"
  by (simp add: members_def)

lemma members_distinct: "distinct (members p ms)"
  by (simp add: members_def)

lemma set_in_order [simp]: "set (in_order dir xs) = set xs"
  by (simp add: in_order_def split: Direction.split)

lemma distinct_in_order [simp]: "distinct (in_order dir xs) \<longleftrightarrow> distinct xs"
  by (simp add: in_order_def split: Direction.split)

lemma same_members:
  assumes "list_all2 same_impl ms ms'"
  shows "members p ms' = members p ms" "i < length ms \<Longrightarrow> impl_link dir (ms' ! i) = impl_link dir (ms ! i)"
proof -
  note s = same_list [OF assms]
  show "members p ms' = members p ms"
    unfolding members_def s(1) using s(2) by (intro filter_cong) (auto simp: same_impl_def)
  show "i < length ms \<Longrightarrow> impl_link dir (ms' ! i) = impl_link dir (ms ! i)"
    using s(2) [of i] by (simp add: impl_link_def same_impl_def split: Direction.split)
qed

text \<open>An operation on the memory keeps the chains.\<close>

lemma mm_wf_same:
  assumes "mm_wf mm" "list_all2 same_impl (managers mm) ms" "impls_wf ms"
  shows "mm_wf (mm\<lparr>managers := ms\<rparr>)"
proof -
  note s = assms(2,3)
  have "chains_wf (mm\<lparr>managers := ms\<rparr>)"
    unfolding chains_wf_def
  proof (intro allI impI)
    fix p dir assume "p \<noteq> Count"
    then obtain cur where c: "get_first_manager p dir mm = Some cur"
      "linked (\<lambda>i. impl_link dir (managers mm ! i)) cur (in_order dir (members p (managers mm)))"
      using assms(1) unfolding mm_wf_def chains_wf_def by blast
    have "linked (\<lambda>i. impl_link dir (ms ! i)) cur (in_order dir (members p ms))"
      unfolding same_members(1) [OF s(1)]
      by (rule linked_cong [THEN iffD1, OF _ c(2)]) (auto simp: members_set same_members(2) [OF s(1)])
    then show "\<exists>cur. get_first_manager p dir (mm\<lparr>managers := ms\<rparr>) = Some cur \<and>
        linked (\<lambda>i. impl_link dir (managers (mm\<lparr>managers := ms\<rparr>) ! i)) cur
          (in_order dir (members p (managers (mm\<lparr>managers := ms\<rparr>))))"
      using c(1) by (intro exI [of _ cur]) (cases dir; simp add: get_first_manager_def)
  qed
  then show ?thesis using assms(1) s same_list(1) [OF s(1)] by (simp add: mm_wf_def)
qed

lemma mm_wf_step: "mm_wf mm \<Longrightarrow> mem_step R u (managers mm) ms \<Longrightarrow> mm_wf (mm\<lparr>managers := ms\<rparr>)"
  by (rule mm_wf_same) (simp_all add: mem_step_def)

section \<open>Initialization\<close>

lemma impl_initialize_ok:
  assumes "0 < sz" "2 ^ 30 \<le> a" "a + sz < 2 ^ 44" "sz < 2 ^ 35" "4096 dvd a" "4096 dvd sz" "p \<noteq> Count"
  shows "\<exists>m. impl_initialize a sz p impl_new = Some m \<and> impl_wf m \<and> impl_start m = a \<and> impl_end m = a + sz \<and>
    m_pool m = p \<and> m_next m = None \<and> m_prev m = None \<and> (\<forall>b \<in> impl_pages m. page_state m b = (0, True))"
proof -
  have "a + sz + 2 ^ 31 < W64" using assms(3) by simp
  from heap_initialize_ok [OF assms(1,2) this assms(4-6)] obtain h where h: "heap_initialize a sz heap_new = Some h"
    "heap_wf h" "free_bytes h = {}" "heap_address h = a" "heap_size h = sz" by blast
  have s: "sz div 4096 * 4096 = sz" using assms(6) by simp
  have "a + sz div 4096 * 4096 \<le> heap_end h" unfolding s heap_end_def h(4,5) by simp
  with heap_free_ok [OF h(2) assms(5), of "sz div 4096"] obtain h' where h': "heap_free a (sz div 4096) h = Some h'"
    "heap_wf h'" "same_heap h h'" "free_bytes h' = {a..<a + sz}" using h(3,4) by (auto simp: frees_def s)
  let ?m = "impl_new\<lparr>m_pool := p, m_heap := h', ref_counts := replicate (sz div 4096) 0\<rparr>"
  have st: "heap_address h' = a" "heap_size h' = sz" using h'(3) h(4,5) by (simp_all add: same_heap_def)
  have i: "impl_initialize a sz p impl_new = Some ?m"
    using h(1) h'(1) by (simp add: impl_initialize_def impl_new_def)
  have "impl_wf ?m" using h'(2) st s assms(7) by (simp add: impl_wf_def)
  moreover have "page_state ?m b = (0, True)" if "b \<in> impl_pages ?m" for b
    using that page_index [OF \<open>impl_wf ?m\<close> that] st s h'(4)
    by (auto simp: page_state_def impl_pages_def heap_end_def)
  ultimately show ?thesis using i st by (intro exI [of _ ?m]) (simp add: heap_end_def impl_new_def)
qed

text \<open>Managers that differ in their links only.\<close>

definition same_core :: "Impl \<Rightarrow> Impl \<Rightarrow> bool" where
  "same_core m m' \<longleftrightarrow> m_heap m' = m_heap m \<and> ref_counts m' = ref_counts m \<and> m_pool m' = m_pool m"

lemma same_core_list:
  assumes "length ms' = length ms" "\<And>i. i < length ms \<Longrightarrow> same_core (ms ! i) (ms' ! i)" "impls_wf ms"
  shows "impls_wf ms'" "mem_pages ms' = mem_pages ms" "mem_state ms' b = mem_state ms b" "members p ms' = members p ms"
proof -
  have c: "impl_wf (ms' ! i) = impl_wf (ms ! i)" "impl_pages (ms' ! i) = impl_pages (ms ! i)"
    "page_state (ms' ! i) b = page_state (ms ! i) b" "m_pool (ms' ! i) = m_pool (ms ! i)"
    "impl_start (ms' ! i) = impl_start (ms ! i)" "impl_end (ms' ! i) = impl_end (ms ! i)"
    "impl_contains b (ms' ! i) = impl_contains b (ms ! i)" if "i < length ms" for i
    using assms(2) [OF that]
    by (simp_all add: same_core_def impl_wf_def impl_pages_def page_state_def pfree_def impl_contains_def)
  show "impls_wf ms'"
    using assms(1,3) c unfolding impls_wf_def all_set_conv_all_nth by (metis (no_types, lifting))
  show "mem_pages ms' = mem_pages ms" using assms(1) c(2) unfolding set_eq_iff mem_pages_index by metis
  have f: "find_manager_index b ms' = find_manager_index b ms"
    unfolding find_manager_index_def assms(1) by (rule find_cong) (auto simp: c(7))
  show "mem_state ms' b = mem_state ms b"
  proof (cases "find_manager_index b ms")
    case (Some i)
    then have "i < length ms" by (auto simp: find_manager_index_def find_Some_iff)
    then show ?thesis using Some f c(3) by (simp add: mem_state_def)
  qed (simp add: mem_state_def f)
  show "members p ms' = members p ms"
    unfolding members_def assms(1) by (rule filter_cong) (auto simp: c(4))
qed

lemma add_manager:
  assumes "impls_wf ms" "impl_wf m" "impl_end m < 2 ^ 44"
    "\<forall>k \<in> set ms. {impl_start k..<impl_end k} \<inter> {impl_start m..<impl_end m} = {}"
  shows "impls_wf (ms @ [m])" "mem_pages (ms @ [m]) = mem_pages ms \<union> impl_pages m"
    "b \<in> mem_pages ms \<Longrightarrow> mem_state (ms @ [m]) b = mem_state ms b"
    "b \<in> impl_pages m \<Longrightarrow> mem_state (ms @ [m]) b = page_state m b"
    "members p (ms @ [m]) = members p ms @ (if m_pool m = p then [length ms] else [])"
proof -
  show wf: "impls_wf (ms @ [m])"
    unfolding impls_wf_def
  proof (intro conjI ballI allI impI)
    show "impl_wf k" "impl_end k < 2 ^ 44" if "k \<in> set (ms @ [m])" for k
      using that assms(1-3) by (auto simp: impls_wf_def)
    fix i j assume ij: "i < length (ms @ [m])" "j < length (ms @ [m])" "i \<noteq> j"
    show "{impl_start ((ms @ [m]) ! i)..<impl_end ((ms @ [m]) ! i)} \<inter>
        {impl_start ((ms @ [m]) ! j)..<impl_end ((ms @ [m]) ! j)} = {}"
    proof (cases "i < length ms \<and> j < length ms")
      case True
      then show ?thesis using impls_disjoint [OF assms(1) _ _ ij(3)] by (simp add: nth_append)
    next
      case False
      then consider "i = length ms" "j < length ms" | "j = length ms" "i < length ms" using ij by fastforce
      then show ?thesis
      proof cases
        case 1
        then have "ms ! j \<in> set ms" by simp
        from assms(4) [rule_format, OF this] show ?thesis using 1 by (auto simp: nth_append)
      next
        case 2
        then have "ms ! i \<in> set ms" by simp
        from assms(4) [rule_format, OF this] show ?thesis using 2 by (auto simp: nth_append)
      qed
    qed
  qed
  show "mem_pages (ms @ [m]) = mem_pages ms \<union> impl_pages m" by (auto simp: mem_pages_def)
  show "mem_state (ms @ [m]) b = mem_state ms b" if b: "b \<in> mem_pages ms"
  proof -
    from b obtain i where i: "i < length ms" "b \<in> impl_pages (ms ! i)" unfolding mem_pages_index by blast
    then have "mem_state (ms @ [m]) b = page_state ((ms @ [m]) ! i) b"
      by (intro mem_state_owner [OF wf]) (simp_all add: nth_append)
    then show ?thesis using mem_state_owner [OF assms(1) i] i(1) by (simp add: nth_append)
  qed
  show "mem_state (ms @ [m]) b = page_state m b" if b: "b \<in> impl_pages m"
    using mem_state_owner [OF wf, of "length ms" b] b by simp
  show "members p (ms @ [m]) = members p ms @ (if m_pool m = p then [length ms] else [])"
    by (auto simp: members_def nth_append intro!: filter_cong)
qed

lemma pool_index_inj: "pool_index p = pool_index q \<longleftrightarrow> p = q"
  by (cases p; cases q) (simp_all add: pool_index_def)

lemma pool_index_less: "p \<noteq> Count \<Longrightarrow> pool_index p < POOL_COUNT"
  by (cases p) (simp_all add: pool_index_def POOL_COUNT_def)

text \<open>The links after a manager \<open>n\<close> was put behind the last one of its pool.\<close>

lemma chain_extend:
  assumes "linked f head xs" "linked g tail (rev xs)" "distinct xs" "n \<notin> set xs"
    "\<And>i. i \<in> set xs \<Longrightarrow> f' i = (if Some i = tail then Some n else f i)" "f' n = None"
    "\<And>i. i \<in> set xs \<Longrightarrow> g' i = g i" "g' n = tail"
  shows "linked f' (if tail = None then Some n else head) (xs @ [n])" "linked g' (Some n) (rev (xs @ [n]))"
proof -
  have t: "tail = (case rev xs of [] \<Rightarrow> None | i # _ \<Rightarrow> Some i)" using linked_first [OF assms(2)] .
  show "linked g' (Some n) (rev (xs @ [n]))"
    using assms(2,7,8) linked_cong [of "rev xs" g' g tail] by simp
  show "linked f' (if tail = None then Some n else head) (xs @ [n])"
  proof (cases "xs = []")
    case True
    then show ?thesis using t assms(6) by simp
  next
    case False
    then obtain ys l where l: "xs = ys @ [l]" by (metis rev_exhaust)
    then have tl: "tail = Some l" using t by simp
    have "linked (f(n := None)) head xs"
      by (rule linked_cong [THEN iffD1, OF _ assms(1)]) (use assms(4) in auto)
    from linked_snoc [OF this False assms(3,4)] have "linked ((f(n := None))(l := Some n)) head (xs @ [n])" using l by simp
    then have "linked f' head (xs @ [n])"
    proof (rule linked_cong [THEN iffD1, rotated])
      fix i assume i: "i \<in> set (xs @ [n])"
      have "l \<noteq> n" using assms(4) l by auto
      show "((f(n := None))(l := Some n)) i = f' i"
      proof (cases "i = n")
        case True
        then show ?thesis using assms(6) \<open>l \<noteq> n\<close> by simp
      next
        case False
        then have "i \<in> set xs" using i by simp
        from assms(5) [OF this] show ?thesis using False tl by simp
      qed
    qed
    then show ?thesis using tl by simp
  qed
qed

lemma initialize_pool_ok:
  assumes "mm_wf mm" "p \<noteq> Count" "length (managers mm) < MAX_MANAGER_COUNT" "0 < sz" "2 ^ 30 \<le> a" "a + sz < 2 ^ 44"
    "sz < 2 ^ 35" "4096 dvd a" "4096 dvd sz" "\<forall>m \<in> set (managers mm). {impl_start m..<impl_end m} \<inter> {a..<a + sz} = {}"
  shows "\<exists>mm'. initialize_pool p a sz mm = Some mm' \<and> mm_wf mm' \<and> num_managers mm' = Suc (num_managers mm) \<and>
    (\<forall>q. members q (managers mm') = members q (managers mm) @ (if q = p then [length (managers mm)] else [])) \<and>
    mem_pages (managers mm') = mem_pages (managers mm) \<union> {b. 4096 dvd b \<and> a \<le> b \<and> b < a + sz} \<and>
    (\<forall>b \<in> mem_pages (managers mm). mem_state (managers mm') b = mem_state (managers mm) b) \<and>
    (\<forall>b. 4096 dvd b \<longrightarrow> a \<le> b \<longrightarrow> b < a + sz \<longrightarrow> mem_state (managers mm') b = (0, True)) \<and>
    (\<forall>m \<in> set (managers mm'). (\<exists>m0 \<in> set (managers mm). impl_start m = impl_start m0 \<and> impl_end m = impl_end m0) \<or>
       impl_start m = a \<and> impl_end m = a + sz)"
proof -
  let ?ms = "managers mm"
  let ?n = "length ?ms"
  have w: "impls_wf ?ms" "num_managers mm = ?n" "length (pool_head mm) = POOL_COUNT" "length (pool_tail mm) = POOL_COUNT" "chains_wf mm"
    using assms(1) by (simp_all add: mm_wf_def)
  obtain m0 where m0: "impl_initialize a sz p impl_new = Some m0" "impl_wf m0" "impl_start m0 = a" "impl_end m0 = a + sz"
    "m_pool m0 = p" "m_next m0 = None" "m_prev m0 = None" "\<forall>b \<in> impl_pages m0. page_state m0 b = (0, True)"
    using impl_initialize_ok [OF assms(4,5,6,7,8,9,2)] by blast
  have pi: "pool_index p < POOL_COUNT" by (rule pool_index_less [OF assms(2)])
  define tail where "tail = pool_tail mm ! pool_index p"
  have nt: "nth_opt (pool_tail mm) (pool_index p) = Some tail" using pi w(4) by (simp add: nth_opt_def tail_def)
  have first: "get_first_manager q FromBack mm = Some (pool_tail mm ! pool_index q)"
    "get_first_manager q FromFront mm = Some (pool_head mm ! pool_index q)" if "q \<noteq> Count" for q
    using pool_index_less [OF that] w(3,4) by (simp_all add: get_first_manager_def nth_opt_def)
  have ch: "linked (\<lambda>i. m_next (?ms ! i)) (pool_head mm ! pool_index q) (members q ?ms)"
    "linked (\<lambda>i. m_prev (?ms ! i)) (pool_tail mm ! pool_index q) (rev (members q ?ms))" if "q \<noteq> Count" for q
  proof -
    have "\<forall>dir. \<exists>cur. get_first_manager q dir mm = Some cur \<and>
        linked (\<lambda>i. impl_link dir (?ms ! i)) cur (in_order dir (members q ?ms))"
      using w(5) that unfolding chains_wf_def by blast
    then show "linked (\<lambda>i. m_next (?ms ! i)) (pool_head mm ! pool_index q) (members q ?ms)"
      "linked (\<lambda>i. m_prev (?ms ! i)) (pool_tail mm ! pool_index q) (rev (members q ?ms))"
      using first [OF that] by (auto simp: impl_link_def in_order_def dest: spec [of _ FromFront] spec [of _ FromBack])
  qed
  have tl: "tail = Some t \<Longrightarrow> t < ?n \<and> m_pool (?ms ! t) = p" for t
    using linked_first [OF ch(2) [OF assms(2)]] members_set [of t p ?ms]
    by (auto simp: tail_def split: list.splits)
  define ms where "ms = (case tail of None \<Rightarrow> ?ms @ [m0]
    | Some t \<Rightarrow> (?ms @ [m0])[t := (?ms ! t)\<lparr>m_next := Some ?n\<rparr>, ?n := m0\<lparr>m_prev := Some t\<rparr>])"
  define mm' where "mm' = mm\<lparr>managers := ms, num_managers := Suc ?n,
    pool_head := (if tail = None then (pool_head mm)[pool_index p := Some ?n] else pool_head mm),
    pool_tail := (pool_tail mm)[pool_index p := Some ?n]\<rparr>"
  have at: "t < ?n \<Longrightarrow> nth_opt (?ms @ [m0]) t = Some (?ms ! t)"
    "t < ?n \<Longrightarrow> nth_opt ((?ms @ [m0])[t := x]) ?n = Some m0" for t x
    by (simp_all add: nth_opt_def nth_append)
  have init: "initialize_pool p a sz mm = Some mm'"
    using assms(3) w(2) m0(1) nt tl
    by (cases tail) (simp_all add: initialize_pool_def mm'_def ms_def Let_def at)
  have len: "length ms = Suc ?n" by (simp add: ms_def split: option.split)
  have core: "same_core ((?ms @ [m0]) ! i) (ms ! i)" if "i < Suc ?n" for i
    using that tl by (auto simp: ms_def same_core_def nth_list_update nth_append split: option.split)
  have disj: "\<forall>k \<in> set ?ms. {impl_start k..<impl_end k} \<inter> {impl_start m0..<impl_end m0} = {}" using assms(10) m0(3,4) by simp
  have "impl_end m0 < 2 ^ 44" using assms(6) m0(4) by simp
  note ad = add_manager [OF w(1) m0(2) this disj]
  have "length ms = length (?ms @ [m0])" using len by simp
  note co = same_core_list [OF this, OF _ ad(1)]
  have core': "i < length (?ms @ [m0]) \<Longrightarrow> same_core ((?ms @ [m0]) ! i) (ms ! i)" for i using core [of i] by simp
  have mem: "members q ms = members q ?ms @ (if q = p then [?n] else [])" for q
    using co(4) [OF core'] ad(5) [of q] m0(5) by auto
  have nx: "m_next (ms ! i) = (if Some i = tail then Some ?n else m_next (?ms ! i))" "m_prev (ms ! i) = m_prev (?ms ! i)" if "i < ?n" for i
    using that tl by (auto simp: ms_def nth_list_update nth_append split: option.split)
  have nn: "m_next (ms ! ?n) = None" "m_prev (ms ! ?n) = tail"
    using m0(6,7) tl by (auto simp: ms_def nth_list_update nth_append split: option.split)
  have chains: "chains_wf mm'"
    unfolding chains_wf_def
  proof (intro allI impI)
    fix q dir assume q: "q \<noteq> Count"
    have inm: "i < ?n" "m_pool (?ms ! i) = q" if "i \<in> set (members q ?ms)" for i using that members_set by auto
    have "linked (\<lambda>i. m_next (ms ! i)) (pool_head mm' ! pool_index q) (members q ms) \<and>
        linked (\<lambda>i. m_prev (ms ! i)) (pool_tail mm' ! pool_index q) (rev (members q ms))"
    proof (cases "q = p")
      case True
      have "?n \<notin> set (members p ?ms)" by (simp add: members_set)
      note ext = chain_extend [where f' = "\<lambda>i. m_next (ms ! i)" and g' = "\<lambda>i. m_prev (ms ! i)",
          OF ch(1) [OF assms(2)] ch(2) [OF assms(2)] members_distinct this]
      show ?thesis
        unfolding mem True
        using ext nx nn inm pi w(3,4) unfolding True tail_def [symmetric] by (auto simp: mm'_def)
    next
      case False
      have "pool_index p \<noteq> pool_index q" using False pool_index_inj by auto
      moreover have "Some i \<noteq> tail" if "i \<in> set (members q ?ms)" for i using tl [of i] inm [OF that] False by auto
      ultimately show ?thesis
        using ch [OF q] nx inm False linked_cong [of "members q ?ms" "\<lambda>i. m_next (ms ! i)" "\<lambda>i. m_next (?ms ! i)"]
          linked_cong [of "rev (members q ?ms)" "\<lambda>i. m_prev (ms ! i)" "\<lambda>i. m_prev (?ms ! i)"]
        unfolding mem by (auto simp: mm'_def)
    qed
    then show "\<exists>cur. get_first_manager q dir mm' = Some cur \<and>
        linked (\<lambda>i. impl_link dir (managers mm' ! i)) cur (in_order dir (members q (managers mm')))"
      using pool_index_less [OF q] w(3,4)
      by (cases dir) (simp_all add: get_first_manager_def nth_opt_def mm'_def impl_link_def in_order_def)
  qed
  have ms': "managers mm' = ms" by (simp add: mm'_def)
  have pg: "impl_pages m0 = {b. 4096 dvd b \<and> a \<le> b \<and> b < a + sz}" using m0(3,4) by (simp add: impl_pages_def)
  have "mm_wf mm'" using assms(1,3) chains co(1) [OF core'] len by (simp add: mm_wf_def mm'_def)
  moreover have "mem_pages ms = mem_pages ?ms \<union> {b. 4096 dvd b \<and> a \<le> b \<and> b < a + sz}"
    using co(2) [OF core'] ad(2) pg by simp
  moreover have "\<forall>b \<in> mem_pages ?ms. mem_state ms b = mem_state ?ms b" using co(3) [OF core'] ad(3) by simp
  moreover have "\<forall>b. 4096 dvd b \<longrightarrow> a \<le> b \<longrightarrow> b < a + sz \<longrightarrow> mem_state ms b = (0, True)"
    using co(3) [OF core'] ad(4) m0(8) pg by simp
  moreover have "\<forall>m \<in> set ms. (\<exists>m1 \<in> set ?ms. impl_start m = impl_start m1 \<and> impl_end m = impl_end m1) \<or>
       impl_start m = a \<and> impl_end m = a + sz"
  proof
    fix m assume "m \<in> set ms"
    then obtain i where i: "i < Suc ?n" "m = ms ! i" using len by (auto simp: in_set_conv_nth)
    have c: "impl_start m = impl_start ((?ms @ [m0]) ! i)" "impl_end m = impl_end ((?ms @ [m0]) ! i)"
      using core [OF i(1)] i(2) by (simp_all add: same_core_def)
    show "(\<exists>m1 \<in> set ?ms. impl_start m = impl_start m1 \<and> impl_end m = impl_end m1) \<or> impl_start m = a \<and> impl_end m = a + sz"
    proof (cases "i = ?n")
      case True
      then show ?thesis using c m0(3,4) by simp
    next
      case False
      then have "i < ?n" using i(1) by simp
      then show ?thesis using c by (intro disjI1 bexI [of _ "?ms ! i"]) (simp_all add: nth_append)
    qed
  qed
  ultimately show ?thesis using init mem w(2)
    by (intro exI [of _ mm']) (simp add: ms', simp add: mm'_def)
qed

end
