(* ===== verification/MemoryManagerProps.thy ===== *)
theory MemoryManagerProps
  imports MemoryManagerState
begin

text \<open>
  What the operations of the memory manager do: the pools after initialization, contiguous
  allocation, and the references that page groups open and close.
\<close>

lemma decode_encode_option: "p \<noteq> Count \<Longrightarrow> decode_option (encode_option p dir) = Some (p, dir)"
  by (cases p; cases dir)
    (simp_all add: decode_option_def encode_option_def get_pool_def get_direction_def pool_index_def direction_index_def
      POOL_SHIFT_def POOL_MASK_def DIRECTION_SHIFT_def DIRECTION_MASK_def)

lemma next_manager: "i < length ms \<Longrightarrow> get_next_manager dir i ms = Some (impl_link dir (ms ! i))"
  by (simp add: get_next_manager_def nth_opt_def impl_link_def)

lemma first_manager:
  assumes "mm_wf mm" "p \<noteq> Count"
  obtains cur where "get_first_manager p dir mm = Some cur"
    "linked (\<lambda>i. impl_link dir (managers mm ! i)) cur (in_order dir (members p (managers mm)))"
  using assms unfolding mm_wf_def chains_wf_def by blast

section \<open>Sizes\<close>

definition pool_pages :: "Pool \<Rightarrow> Impl list \<Rightarrow> nat set" where
  "pool_pages p ms = (\<Union>i \<in> set (members p ms). impl_pages (ms ! i))"

lemma sum_pool_ok:
  assumes "linked (\<lambda>i. impl_link FromFront (ms ! i)) cur xs" "\<forall>i \<in> set xs. i < length ms"
    "acc + (\<Sum>i \<leftarrow> xs. f (ms ! i)) < W64"
  shows "sum_pool f cur acc ms = Some (acc + (\<Sum>i \<leftarrow> xs. f (ms ! i)))"
  using assms
proof (induction xs arbitrary: cur acc)
  case Nil
  then show ?case by (subst sum_pool.simps) simp
next
  case (Cons i xs)
  then have i: "i < length ms" "cur = Some i" "linked (\<lambda>i. impl_link FromFront (ms ! i)) (impl_link FromFront (ms ! i)) xs" by simp_all
  have "add64 acc (f (ms ! i)) = acc + f (ms ! i)" using Cons.prems(3) by simp
  moreover have "sum_pool f (impl_link FromFront (ms ! i)) (acc + f (ms ! i)) ms = Some (acc + f (ms ! i) + (\<Sum>i \<leftarrow> xs. f (ms ! i)))"
    using Cons.IH [OF i(3), of "acc + f (ms ! i)"] Cons.prems(2,3) by simp
  ultimately show ?case using i by (subst sum_pool.simps) (simp add: nth_opt_def next_manager)
qed

lemma impl_pages_image: "impl_wf m \<Longrightarrow> impl_pages m = (\<lambda>j. impl_start m + j * 4096) ` {..<length (ref_counts m)}"
  using page_index page_index_in by blast

lemma card_impl_pages:
  assumes "impl_wf m"
  shows "4096 * card (impl_pages m) = impl_size m"
proof -
  have "inj_on (\<lambda>j. impl_start m + j * 4096) {..<length (ref_counts m)}" by (simp add: inj_on_def)
  then show ?thesis using assms unfolding impl_pages_image [OF assms] by (simp add: card_image impl_wf_def impl_size_def)
qed

lemma card_free_pages:
  assumes "impl_wf m"
  shows "4096 * card {b \<in> impl_pages m. b \<in> free_bytes (m_heap m)} = impl_free_size m"
proof -
  let ?F = "{b \<in> impl_pages m. b \<in> free_bytes (m_heap m)}"
  have wf: "heap_wf (m_heap m)" using assms by (simp add: impl_wf_def)
  have eq: "free_bytes (m_heap m) = (\<Union>b \<in> ?F. {b..<b + 4096})"
  proof (intro equalityI subsetI)
    fix x assume x: "x \<in> free_bytes (m_heap m)"
    let ?b = "x - x mod 4096"
    have sub: "{?b..<?b + 4096} \<subseteq> free_bytes (m_heap m)" by (rule free_page_whole [OF wf x])
    then have f: "?b \<in> free_bytes (m_heap m)" by auto
    then have "?b \<in> {impl_start m..<impl_end m}" using wf by (auto simp: heap_wf_def)
    moreover have "4096 dvd ?b" by (rule dvd_minus_mod)
    ultimately have "?b \<in> ?F" using f by (simp add: impl_pages_def)
    moreover have "?b \<le> x" "x < ?b + 4096" using mod_less_divisor [of 4096 x] by simp_all
    ultimately show "x \<in> (\<Union>b \<in> ?F. {b..<b + 4096})" by (intro UN_I [of ?b]) auto
  next
    fix x assume "x \<in> (\<Union>b \<in> ?F. {b..<b + 4096})"
    then obtain b where b: "b \<in> ?F" "b \<le> x" "x < b + 4096" by auto
    then have "b mod 4096 = 0" by (simp add: impl_pages_def dvd_eq_mod_eq_0)
    then show "x \<in> free_bytes (m_heap m)" using free_page_whole [OF wf, of b] b by auto
  qed
  have fin: "finite ?F" using assms by (simp add: impl_pages_image)
  have "card (\<Union>b \<in> ?F. {b..<b + 4096}) = (\<Sum>b \<in> ?F. card {b..<b + 4096})"
  proof (rule card_UN_disjoint [OF fin])
    show "\<forall>b \<in> ?F. \<forall>c \<in> ?F. b \<noteq> c \<longrightarrow> {b..<b + 4096} \<inter> {c..<c + 4096} = {}"
    proof (intro ballI impI)
      fix b c assume bc: "b \<in> ?F" "c \<in> ?F" "b \<noteq> c"
      then have "4096 dvd b" "4096 dvd c" by (simp_all add: impl_pages_def)
      then have "b \<le> c \<Longrightarrow> \<not> c < b + 4096" "c \<le> b \<Longrightarrow> \<not> b < c + 4096"
        using close_multiples [of 4096 b c] close_multiples [of 4096 c b] bc(3) by auto
      then show "{b..<b + 4096} \<inter> {c..<c + 4096} = {}" by (cases "b \<le> c") auto
    qed
  qed simp
  then show ?thesis using eq free_size_eq [OF wf] by (simp add: impl_free_size_def)
qed

text \<open>Sums over the managers of a pool are cardinalities of disjoint unions.\<close>

lemma pool_card:
  assumes "impls_wf ms" "\<And>i. i < length ms \<Longrightarrow> A i \<subseteq> impl_pages (ms ! i)"
  shows "(\<Sum>i \<leftarrow> members p ms. card (A i)) = card (\<Union>i \<in> set (members p ms). A i)"
proof -
  have fin: "finite (A i)" if "i < length ms" for i
  proof -
    have "impl_wf (ms ! i)" using assms(1) that by (simp add: impls_wf_def)
    then have "finite (impl_pages (ms ! i))" by (simp add: impl_pages_image)
    then show ?thesis using assms(2) [OF that] finite_subset by blast
  qed
  have "A i \<inter> A j = {}" if ij: "i < length ms" "j < length ms" "i \<noteq> j" for i j
  proof -
    have "impl_pages (ms ! i) \<inter> impl_pages (ms ! j) = {}"
      using impls_disjoint [OF assms(1) ij] by (auto simp: impl_pages_def)
    then show ?thesis using assms(2) ij by blast
  qed
  then have "card (\<Union>i \<in> set (members p ms). A i) = (\<Sum>i \<in> set (members p ms). card (A i))"
    using fin by (intro card_UN_disjoint) (auto simp: members_set)
  then show ?thesis by (simp add: sum_list_distinct_conv_sum_set members_distinct)
qed

lemma pool_sum_bound:
  assumes "mm_wf mm" "\<And>m. m \<in> set (managers mm) \<Longrightarrow> f m \<le> 2 ^ 44"
  shows "(\<Sum>i \<leftarrow> members p (managers mm). f (managers mm ! i)) < W64"
proof -
  have "length (members p (managers mm)) \<le> length [0..<length (managers mm)]" unfolding members_def by (rule length_filter_le)
  then have l: "length (members p (managers mm)) \<le> 10" using assms(1) by (simp add: mm_wf_def MAX_MANAGER_COUNT_def)
  have "(\<Sum>i \<leftarrow> members p (managers mm). f (managers mm ! i)) \<le> (\<Sum>i \<leftarrow> members p (managers mm). 2 ^ 44)"
    using assms(2) by (intro sum_list_mono) (auto simp: members_set)
  also have "\<dots> \<le> 10 * 2 ^ 44" using l by (simp add: sum_list_triv)
  finally show ?thesis by simp
qed

lemma pool_sizes:
  assumes "mm_wf mm" "p \<noteq> Count"
  shows "mm_get_size p mm = Some (4096 * card (pool_pages p (managers mm)))"
    "mm_get_free_size p mm = Some (4096 * card {b \<in> pool_pages p (managers mm). snd (mem_state (managers mm) b)})"
proof -
  let ?ms = "managers mm"
  have wf: "impls_wf ?ms" using assms(1) by (simp add: mm_wf_def)
  have w: "impl_wf (?ms ! i)" if "i < length ?ms" for i using wf that by (simp add: impls_wf_def)
  from first_manager [OF assms] obtain cur where c: "get_first_manager p FromFront mm = Some cur"
    "linked (\<lambda>i. impl_link FromFront (?ms ! i)) cur (in_order FromFront (members p ?ms))" by blast
  have c2: "linked (\<lambda>i. impl_link FromFront (?ms ! i)) cur (members p ?ms)" using c(2) by (simp add: in_order_def)
  have inr: "\<forall>i \<in> set (members p ?ms). i < length ?ms" by (simp add: members_set)
  have b: "impl_size m \<le> 2 ^ 44 \<and> impl_free_size m \<le> 2 ^ 44" if m: "m \<in> set ?ms" for m
  proof -
    have "impl_wf m" "impl_end m < 2 ^ 44" using wf m by (simp_all add: impls_wf_def)
    moreover have "impl_free_size m \<le> impl_size m"
    proof -
      have "card {b \<in> impl_pages m. b \<in> free_bytes (m_heap m)} \<le> card (impl_pages m)"
        using \<open>impl_wf m\<close> by (intro card_mono) (auto simp: impl_pages_image)
      then show ?thesis unfolding card_impl_pages [OF \<open>impl_wf m\<close>, symmetric] card_free_pages [OF \<open>impl_wf m\<close>, symmetric] by simp
    qed
    ultimately show ?thesis by (simp add: impl_size_def heap_end_def)
  qed
  have "(\<Sum>i \<leftarrow> members p ?ms. impl_size (?ms ! i)) = (\<Sum>i \<leftarrow> members p ?ms. 4096 * card (impl_pages (?ms ! i)))"
    using card_impl_pages w inr by (intro arg_cong [of _ _ sum_list] map_cong) auto
  also have "\<dots> = 4096 * (\<Sum>i \<leftarrow> members p ?ms. card (impl_pages (?ms ! i)))" by (rule sum_list_const_mult)
  finally have "(\<Sum>i \<leftarrow> members p ?ms. impl_size (?ms ! i)) = 4096 * card (pool_pages p ?ms)"
    using pool_card [OF wf, of "\<lambda>i. impl_pages (?ms ! i)" p] by (simp add: pool_pages_def)
  then show "mm_get_size p mm = Some (4096 * card (pool_pages p ?ms))"
    using sum_pool_ok [OF c2 inr, of 0 impl_size] pool_sum_bound [OF assms(1), of impl_size p] b c(1)
    by (simp add: mm_get_size_def)
  let ?A = "\<lambda>i. {b \<in> impl_pages (?ms ! i). b \<in> free_bytes (m_heap (?ms ! i))}"
  have "(\<Sum>i \<leftarrow> members p ?ms. impl_free_size (?ms ! i)) = (\<Sum>i \<leftarrow> members p ?ms. 4096 * card (?A i))"
    using card_free_pages w inr by (intro arg_cong [of _ _ sum_list] map_cong) auto
  also have "\<dots> = 4096 * (\<Sum>i \<leftarrow> members p ?ms. card (?A i))" by (rule sum_list_const_mult)
  also have "(\<Sum>i \<leftarrow> members p ?ms. card (?A i)) = card (\<Union>i \<in> set (members p ?ms). ?A i)" by (rule pool_card [OF wf]) auto
  also have "(\<Union>i \<in> set (members p ?ms). ?A i) = {b \<in> pool_pages p ?ms. snd (mem_state ?ms b)}"
  proof -
    have "snd (mem_state ?ms b) \<longleftrightarrow> b \<in> free_bytes (m_heap (?ms ! i))" if "i \<in> set (members p ?ms)" "b \<in> impl_pages (?ms ! i)" for i b
      using mem_state_owner [OF wf bspec [OF inr that(1)] that(2)] by (simp add: page_state_def)
    then show ?thesis unfolding pool_pages_def by blast
  qed
  finally show "mm_get_free_size p mm = Some (4096 * card {b \<in> pool_pages p ?ms. snd (mem_state ?ms b)})"
    using sum_pool_ok [OF c2 inr, of 0 impl_free_size] pool_sum_bound [OF assms(1), of impl_free_size p] b c(1)
    by (simp add: mm_get_free_size_def)
qed

section \<open>Contiguous allocation\<close>

lemma mem_step_out: "mem_step R u ms ms' \<Longrightarrow> b \<in> mem_pages ms \<Longrightarrow> b \<notin> R \<Longrightarrow> mem_state ms' b = mem_state ms b"
  by (simp add: mem_step_def)

lemma linked_same:
  assumes "list_all2 same_impl ms ms'" "\<forall>i \<in> set xs. i < length ms"
  shows "linked (\<lambda>i. impl_link dir (ms' ! i)) cur xs \<longleftrightarrow> linked (\<lambda>i. impl_link dir (ms ! i)) cur xs"
  using assms(2) by (intro linked_cong) (simp add: same_members(2) [OF assms(1)])

text \<open>A manager has a free range for the pages and their alignment.\<close>

definition fits :: "nat \<Rightarrow> nat \<Rightarrow> Impl \<Rightarrow> bool" where
  "fits np ap m \<longleftrightarrow> (\<exists>l < 7. max np ap * 4096 \<le> 2 ^ level_shift l \<and> some_range (m_heap m) l)"

lemma continuous_loop_ok:
  assumes "impls_wf ms" "linked (\<lambda>i. impl_link dir (ms ! i)) cur xs" "distinct xs" "\<forall>i \<in> set xs. i < length ms"
    "0 < np" "max np (2 ^ k) \<le> 2 ^ 18"
  shows "\<exists>r ch ms'. continuous_loop dir (get_aligned_block_index np (2 ^ k)) np (2 ^ k) cur ms = Some (r, ch, ms') \<and>
    (r \<noteq> 0 \<longleftrightarrow> (\<exists>i \<in> set xs. fits np (2 ^ k) (ms ! i))) \<and>
    (if r = 0 then mem_step {} take_page ms ms'
     else (\<exists>ys i zs. xs = ys @ i # zs \<and> (\<forall>j \<in> set ys. \<not> fits np (2 ^ k) (ms ! j)) \<and> ch = Some i \<and>
       2 ^ k * 4096 dvd r \<and> impl_start (ms ! i) \<le> r \<and> r + np * 4096 \<le> impl_end (ms ! i) \<and>
       (\<forall>b \<in> set (run_pages r np). mem_state ms b = (0, True)) \<and> mem_step (set (run_pages r np)) take_page ms ms'))"
  using assms
proof (induction xs arbitrary: cur ms)
  case Nil
  then show ?case by (subst continuous_loop.simps) (simp add: mem_step_refl)
next
  case (Cons i xs)
  have i: "i < length ms" "cur = Some i" "linked (\<lambda>i. impl_link dir (ms ! i)) (impl_link dir (ms ! i)) xs" "i \<notin> set xs"
    using Cons.prems by simp_all
  have w: "impl_wf (ms ! i)" and hw: "heap_wf (m_heap (ms ! i))" using Cons.prems(1) i(1) by (simp_all add: impls_wf_def impl_wf_def)
  obtain r h where a: "allocate_aligned (get_aligned_block_index np (2 ^ k)) np (2 ^ k) (m_heap (ms ! i)) = Some (r, h)"
    "if fits np (2 ^ k) (ms ! i) then r \<noteq> 0 \<and> 2 ^ k * 4096 dvd r \<and> takes (m_heap (ms ! i)) {r..<r + np * 4096} h
     else r = 0 \<and> takes (m_heap (ms ! i)) {} h"
    using aligned_alloc_ok [OF hw assms(5,6)] unfolding fits_def by blast
  let ?m = "(ms ! i)\<lparr>m_heap := h\<rparr>"
  have al: "impl_allocate_aligned (get_aligned_block_index np (2 ^ k)) np (2 ^ k) (ms ! i) = Some (r, ?m)"
    using a(1) by (simp add: impl_allocate_aligned_def)
  show ?case
  proof (cases "fits np (2 ^ k) (ms ! i)")
    case True
    then have r: "r \<noteq> 0" "2 ^ k * 4096 dvd r" "takes (m_heap (ms ! i)) {r..<r + np * 4096} h" using a(2) by simp_all
    have d: "4096 dvd r" using r(2) by (rule dvd_mult_right)
    from impl_take_ok [OF w r(3) d] have st: "addr_step (set (run_pages r np)) take_page (ms ! i) ?m"
      and old: "\<forall>b \<in> set (run_pages r np). b \<in> impl_pages (ms ! i) \<and> page_state (ms ! i) b = (0, True)" by blast+
    have "set (run_pages r np) \<subseteq> impl_pages (ms ! i)" using old by blast
    from step_at [OF Cons.prems(1) i(1) st this] have "mem_step (set (run_pages r np)) take_page ms (ms[i := ?m])" .
    moreover have "\<forall>b \<in> set (run_pages r np). mem_state ms b = (0, True)" using old mem_state_owner [OF Cons.prems(1) i(1)] by simp
    moreover have "impl_start (ms ! i) \<le> r \<and> r + np * 4096 \<le> impl_end (ms ! i)"
    proof -
      have "{r..<r + np * 4096} \<subseteq> {impl_start (ms ! i)..<impl_end (ms ! i)}"
        using r(3) hw unfolding takes_def heap_wf_def by blast
      then show ?thesis using interval_sub [of "np * 4096" r] assms(5) by simp
    qed
    moreover have "continuous_loop dir (get_aligned_block_index np (2 ^ k)) np (2 ^ k) cur ms = Some (r, Some i, ms[i := ?m])"
      using i(1,2) al r(1) by (subst continuous_loop.simps) (simp add: nth_opt_def Let_def)
    moreover have "i # xs = [] @ i # xs \<and> (\<forall>j \<in> set []. \<not> fits np (2 ^ k) (ms ! j))" by simp
    moreover have "\<exists>i \<in> set (i # xs). fits np (2 ^ k) (ms ! i)" using True by simp
    ultimately show ?thesis using r(1,2) by (metis (no_types, lifting))
  next
    case False
    then have r: "r = 0" "takes (m_heap (ms ! i)) {} h" using a(2) by simp_all
    then have "takes (m_heap (ms ! i)) {0..<0 + 0 * 4096} h" by simp
    from conjunct1 [OF impl_take_ok [OF w this]] have "addr_step {} take_page (ms ! i) ?m" by (simp add: run_pages_def)
    from step_at [OF Cons.prems(1) i(1) this] have st: "mem_step {} take_page ms (ms[i := ?m])" by simp
    let ?ms = "ms[i := ?m]"
    have wf: "impls_wf ?ms" using st by (simp add: mem_step_def)
    have other: "?ms ! j = ms ! j" if "j \<in> set xs" for j using that i(4) by (metis nth_list_update_neq)
    have same: "list_all2 same_impl ms ?ms" using st by (simp add: mem_step_def)
    have "linked (\<lambda>i. impl_link dir (?ms ! i)) (impl_link dir (?ms ! i)) xs"
      unfolding same_members(2) [OF same i(1)] using linked_same [OF same] i(3) Cons.prems(4) by simp
    moreover have "distinct xs" "\<forall>i \<in> set xs. i < length ?ms" using Cons.prems(3,4) by simp_all
    ultimately obtain r' ch ms' where c: "continuous_loop dir (get_aligned_block_index np (2 ^ k)) np (2 ^ k) (impl_link dir (?ms ! i)) ?ms = Some (r', ch, ms')"
      "r' \<noteq> 0 \<longleftrightarrow> (\<exists>i \<in> set xs. fits np (2 ^ k) (?ms ! i))"
      "if r' = 0 then mem_step {} take_page ?ms ms'
       else (\<exists>ys i zs. xs = ys @ i # zs \<and> (\<forall>j \<in> set ys. \<not> fits np (2 ^ k) (?ms ! j)) \<and> ch = Some i \<and>
         2 ^ k * 4096 dvd r' \<and> impl_start (?ms ! i) \<le> r' \<and> r' + np * 4096 \<le> impl_end (?ms ! i) \<and>
         (\<forall>b \<in> set (run_pages r' np). mem_state ?ms b = (0, True)) \<and> mem_step (set (run_pages r' np)) take_page ?ms ms')"
      using Cons.IH [OF wf _ _ _ assms(5,6)] by blast
    have e: "continuous_loop dir (get_aligned_block_index np (2 ^ k)) np (2 ^ k) cur ms = Some (r', ch, ms')"
      using i(1,2) al r(1) c(1) by (subst continuous_loop.simps) (simp add: nth_opt_def Let_def next_manager)
    have f: "(\<exists>i \<in> set xs. fits np (2 ^ k) (?ms ! i)) \<longleftrightarrow> (\<exists>i \<in> set (i # xs). fits np (2 ^ k) (ms ! i))"
      using False other by auto
    show ?thesis
    proof (cases "r' = 0")
      case True
      then have "mem_step {} take_page ms ms'" using c(3) mem_step_trans [OF st, of "{}" ms'] by simp
      then show ?thesis using e c(2) [unfolded f] True
        by (intro exI [of _ r'] exI [of _ ch] exI [of _ ms'] conjI) simp_all
    next
      case r': False
      then obtain ys l zs where y: "xs = ys @ l # zs" "\<forall>j \<in> set ys. \<not> fits np (2 ^ k) (?ms ! j)" "ch = Some l"
         "2 ^ k * 4096 dvd r'" "impl_start (?ms ! l) \<le> r'" "r' + np * 4096 \<le> impl_end (?ms ! l)"
         "\<forall>b \<in> set (run_pages r' np). mem_state ?ms b = (0, True)" "mem_step (set (run_pages r' np)) take_page ?ms ms'"
        using c(3) by auto
      have l: "?ms ! l = ms ! l" "\<forall>j \<in> set ys. ?ms ! j = ms ! j" using y(1) other by auto
      have "l < length ?ms" using y(1) Cons.prems(4) by simp
      have "4096 dvd r'" using y(4) by (rule dvd_mult_right)
      from run_in_impl [OF this y(5,6)] have "set (run_pages r' np) \<subseteq> mem_pages ms"
        using l(1) y(1) Cons.prems(4) mem_pages_index by fastforce
      then have "\<forall>b \<in> set (run_pages r' np). mem_state ms b = (0, True)" using y(7) mem_step_out [OF st] by (metis empty_iff subsetD)
      moreover have "mem_step (set (run_pages r' np)) take_page ms ms'" using mem_step_trans [OF st y(8)] by simp
      ultimately have "i # xs = (i # ys) @ l # zs \<and> (\<forall>j \<in> set (i # ys). \<not> fits np (2 ^ k) (ms ! j)) \<and> ch = Some l \<and>
         2 ^ k * 4096 dvd r' \<and> impl_start (ms ! l) \<le> r' \<and> r' + np * 4096 \<le> impl_end (ms ! l) \<and>
         (\<forall>b \<in> set (run_pages r' np). mem_state ms b = (0, True)) \<and> mem_step (set (run_pages r' np)) take_page ms ms'"
        using y(1-6) l False by auto
      then show ?thesis using e c(2) f r' by (metis (no_types, lifting))
    qed
  qed
qed

lemma continuous_alloc_ok:
  assumes "mm_wf mm" "p \<noteq> Count" "0 < np" "max np (2 ^ k) \<le> 2 ^ 18"
  shows "\<exists>r mm'. allocate_and_open_continuous np (2 ^ k) (encode_option p dir) mm = Some (r, mm') \<and> mm_wf mm' \<and>
    (r \<noteq> 0 \<longleftrightarrow> (\<exists>i \<in> set (members p (managers mm)). fits np (2 ^ k) (managers mm ! i))) \<and>
    (r \<noteq> 0 \<longrightarrow> 2 ^ k * 4096 dvd r \<and> (\<forall>b \<in> set (run_pages r np). mem_state (managers mm) b = (0, True)) \<and>
       (\<exists>ys i zs. in_order dir (members p (managers mm)) = ys @ i # zs \<and>
          (\<forall>j \<in> set ys. \<not> fits np (2 ^ k) (managers mm ! j)) \<and>
          set (run_pages r np) \<subseteq> impl_pages (managers mm ! i))) \<and>
    mem_pages (managers mm') = mem_pages (managers mm) \<and>
    (\<forall>b \<in> mem_pages (managers mm). mem_state (managers mm') b =
       (if r \<noteq> 0 \<and> b \<in> set (run_pages r np) then (1, False) else mem_state (managers mm) b))"
proof -
  let ?ms = "managers mm"
  have wf: "impls_wf ?ms" using assms(1) by (simp add: mm_wf_def)
  from first_manager [OF assms(1,2)] obtain cur where c: "get_first_manager p dir mm = Some cur"
    "linked (\<lambda>i. impl_link dir (?ms ! i)) cur (in_order dir (members p ?ms))" by blast
  have m: "distinct (in_order dir (members p ?ms))" "\<forall>i \<in> set (in_order dir (members p ?ms)). i < length ?ms"
    by (simp_all add: members_distinct members_set)
  from continuous_loop_ok [OF wf c(2) m assms(3,4)] obtain r ch ms where
    l: "continuous_loop dir (get_aligned_block_index np (2 ^ k)) np (2 ^ k) cur ?ms = Some (r, ch, ms)" and
    iff: "r \<noteq> 0 \<longleftrightarrow> (\<exists>i \<in> set (members p ?ms). fits np (2 ^ k) (?ms ! i))" and
    res: "if r = 0 then mem_step {} take_page ?ms ms
     else (\<exists>ys i zs. in_order dir (members p ?ms) = ys @ i # zs \<and> (\<forall>j \<in> set ys. \<not> fits np (2 ^ k) (?ms ! j)) \<and> ch = Some i \<and>
       2 ^ k * 4096 dvd r \<and> impl_start (?ms ! i) \<le> r \<and> r + np * 4096 \<le> impl_end (?ms ! i) \<and>
       (\<forall>b \<in> set (run_pages r np). mem_state ?ms b = (0, True)) \<and> mem_step (set (run_pages r np)) take_page ?ms ms)"
    unfolding set_in_order by blast
  have np: "(np = 0) = False" using assms(3) by simp
  show ?thesis
  proof (cases "r = 0")
    case True
    then have st: "mem_step {} take_page ?ms ms" using res by simp
    have "allocate_and_open_continuous np (2 ^ k) (encode_option p dir) mm = Some (0, mm\<lparr>managers := ms\<rparr>)"
      unfolding allocate_and_open_continuous_def decode_encode_option [OF assms(2)] np using c(1) l True by simp
    moreover have "mem_pages ms = mem_pages ?ms" using st same_list(3) by (simp add: mem_step_def)
    ultimately show ?thesis using mm_wf_step [OF assms(1) st] iff True mem_step_out [OF st]
      by (intro exI [of _ 0] exI [of _ "mm\<lparr>managers := ms\<rparr>"]) simp
  next
    case False
    then obtain ys i zs where y: "in_order dir (members p ?ms) = ys @ i # zs" "\<forall>j \<in> set ys. \<not> fits np (2 ^ k) (?ms ! j)" "ch = Some i"
       "2 ^ k * 4096 dvd r" "impl_start (?ms ! i) \<le> r" "r + np * 4096 \<le> impl_end (?ms ! i)"
       "\<forall>b \<in> set (run_pages r np). mem_state ?ms b = (0, True)" and st: "mem_step (set (run_pages r np)) take_page ?ms ms"
      using res by auto
    have d: "4096 dvd r" using y(4) by (rule dvd_mult_right)
    have wf': "impls_wf ms" and same: "list_all2 same_impl ?ms ms" using st by (simp_all add: mem_step_def)
    have i: "i < length ?ms" using m(2) y(1) by simp
    then have i': "i < length ms" using same_list(1) [OF same] by simp
    note si = same_implD [OF same_list(2) [OF same i]]
    have run: "impl_start (ms ! i) \<le> r" "r + np * 4096 \<le> impl_end (ms ! i)" using y(5,6) si by simp_all
    have sub: "set (run_pages r np) \<subseteq> impl_pages (?ms ! i)" using run_in_impl [OF d y(5,6)] .
    then have subm: "set (run_pages r np) \<subseteq> mem_pages ?ms" using i mem_pages_index by blast
    have "mem_state ms b = (0, False)" if "b \<in> set (run_pages r np)" for b
    proof -
      have "b \<in> mem_pages ?ms" using subm that by blast
      then show ?thesis using st y(7) that by (simp add: mem_step_def take_page_def)
    qed
    then have "\<forall>b \<in> set (run_pages r np). can_open (mem_state ms b)" by (simp add: can_open_def)
    from opens.on_manager [OF wf' i' d run this] obtain m' where m': "impl_open r np (ms ! i) = Some m'" and
      st2: "mem_step (set (run_pages r np)) open_page ms (ms[i := m'])" by blast
    have st3: "mem_step (set (run_pages r np)) (open_page \<circ> take_page) ?ms (ms[i := m'])" using mem_step_then [OF st st2] .
    have "allocate_and_open_continuous np (2 ^ k) (encode_option p dir) mm = Some (r, mm\<lparr>managers := ms[i := m']\<rparr>)"
      unfolding allocate_and_open_continuous_def decode_encode_option [OF assms(2)] np
      using c(1) l False y(3) i' m' by (simp add: nth_opt_def open_first_eq)
    moreover have "mem_pages (ms[i := m']) = mem_pages ?ms" using st3 same_list(3) by (simp add: mem_step_def)
    moreover have "mem_state (ms[i := m']) b = (if r \<noteq> 0 \<and> b \<in> set (run_pages r np) then (1, False) else mem_state ?ms b)"
      if "b \<in> mem_pages ?ms" for b
      using st3 that y(7) False by (simp add: mem_step_def take_page_def open_page_def)
    ultimately show ?thesis using mm_wf_step [OF assms(1) st3] iff False y(1,2,4,7) sub
      by (intro exI [of _ r] exI [of _ "mm\<lparr>managers := ms[i := m']\<rparr>"]) (simp, blast)
  qed
qed

text \<open>
  Contiguous allocation. From a well-formed manager with any of the four pools and either
  direction, up to 2^18 pages with a power-of-two alignment: the call never panics, and the walk
  along the chain ends. It answers an address exactly if some manager of the pool has a large
  enough free aligned block, and then the run is aligned as asked, lies inside the first manager in
  the asked direction that has one, all its pages were free and without references, and now each
  has one reference; no other page of any manager changes. A failure answers 0 and changes no page.
\<close>

theorem allocate_and_open_continuous_exact:
  assumes "mm_wf mm" "p \<noteq> Count" "0 < np" "max np (2 ^ k) \<le> 2 ^ 18"
  shows "\<exists>r mm'. allocate_and_open_continuous np (2 ^ k) (encode_option p dir) mm = Some (r, mm') \<and> mm_wf mm' \<and>
    (r \<noteq> 0 \<longleftrightarrow> (\<exists>i \<in> set (members p (managers mm)). fits np (2 ^ k) (managers mm ! i))) \<and>
    (r \<noteq> 0 \<longrightarrow> 2 ^ k * 4096 dvd r \<and> (\<forall>b \<in> set (run_pages r np). mem_state (managers mm) b = (0, True)) \<and>
       (\<exists>ys i zs. in_order dir (members p (managers mm)) = ys @ i # zs \<and>
          (\<forall>j \<in> set ys. \<not> fits np (2 ^ k) (managers mm ! j)) \<and>
          set (run_pages r np) \<subseteq> impl_pages (managers mm ! i))) \<and>
    mem_pages (managers mm') = mem_pages (managers mm) \<and>
    (\<forall>b \<in> mem_pages (managers mm). mem_state (managers mm') b =
       (if r \<noteq> 0 \<and> b \<in> set (run_pages r np) then (1, False) else mem_state (managers mm) b))"
  using assms by (rule continuous_alloc_ok)

section \<open>Initialization from the layout\<close>

text \<open>The regions of user pools that carry the number \<open>n\<close>, and when they join to one range.\<close>

definition numbered :: "nat \<Rightarrow> KMemoryRegion list \<Rightarrow> KMemoryRegion list" where
  "numbered n rs = filter (\<lambda>r. is_derived_from K_MEMORY_REGION_TYPE_DRAM_USER_POOL r \<and> unat (r_attributes r) = n) rs"

fun joins :: "nat \<Rightarrow> nat \<Rightarrow> Pool \<Rightarrow> KMemoryRegion list \<Rightarrow> bool" where
  "joins a e p [] \<longleftrightarrow> a = e"
| "joins a e p (r # rs) \<longleftrightarrow> r_address r = a \<and> a \<le> r_last r \<and> r_last r < 2 ^ 44 \<and> pool_of_region r = Some p \<and>
     joins (r_last r + 1) e p rs"

lemma combine_numbered: "combine_regions n rs acc = combine_regions n (numbered n rs) acc"
proof (induction rs arbitrary: acc)
  case (Cons r rs)
  have IH: "combine_regions n (numbered n rs) = combine_regions n rs" using Cons.IH by (intro ext) simp
  show ?case
  proof (cases "is_derived_from K_MEMORY_REGION_TYPE_DRAM_USER_POOL r \<and> unat (r_attributes r) = n")
    case True
    then have "numbered n (r # rs) = r # numbered n rs" by (simp add: numbered_def)
    then show ?thesis by (simp only: combine_regions.simps(2) IH)
  next
    case False
    then have "numbered n (r # rs) = numbered n rs" by (auto simp: numbered_def)
    then show ?thesis using False IH by auto
  qed
qed (simp add: numbered_def)

lemma region_part:
  assumes "0 < a" "r_address r = a" "a \<le> r_last r" "r_last r < 2 ^ 44"
  shows "r_end r = r_last r + 1" "r_size r = r_last r + 1 - a"
proof -
  have "r_last r + 1 < W64" using assms(4) by simp
  then show "r_end r = r_last r + 1" by (simp add: r_end_def)
  then show "r_size r = r_last r + 1 - a" using assms \<open>r_last r + 1 < W64\<close> by (simp add: r_size_def)
qed

lemma combine_joined:
  assumes "joins (a + sz) e p rs" "0 < a" "a + sz < 2 ^ 45"
    "\<forall>r \<in> set rs. is_derived_from K_MEMORY_REGION_TYPE_DRAM_USER_POOL r \<and> unat (r_attributes r) = n"
  shows "combine_regions n rs (Some (a, sz, p)) = Some (Some (a, e - a, p))"
  using assms
proof (induction rs arbitrary: sz)
  case (Cons r rs)
  then have r: "r_address r = a + sz" "a + sz \<le> r_last r" "r_last r < 2 ^ 44" "pool_of_region r = Some p"
    "joins (r_last r + 1) e p rs" by simp_all
  have "0 < a + sz" using Cons.prems(2) by simp
  note g = region_part [OF this r(1-3)]
  have e: "a + (r_last r + 1 - a) = r_last r + 1" using r(2) by simp
  have "sub64 (r_end r) a = r_last r + 1 - a" using g(1) r(2,3) by simp
  moreover have "add64 a sz = a + sz" using r(2,3) by simp
  moreover have "combine_regions n rs (Some (a, r_last r + 1 - a, p)) = Some (Some (a, e - a, p))"
    using Cons.IH [of "r_last r + 1 - a"] r(3,5) Cons.prems(2,4) unfolding e by simp
  ultimately show ?case using Cons.prems(2,4) r g by simp
qed simp

lemma combine_first:
  assumes "joins a e p (numbered n rs)" "numbered n rs \<noteq> []" "0 < a"
  shows "combine_regions n rs None = Some (Some (a, e - a, p))"
proof -
  obtain r rest where rs: "numbered n rs = r # rest" using assms(2) by (cases "numbered n rs") auto
  have all: "\<forall>r \<in> set (numbered n rs). is_derived_from K_MEMORY_REGION_TYPE_DRAM_USER_POOL r \<and> unat (r_attributes r) = n"
    by (simp add: numbered_def)
  have r: "r_address r = a" "a \<le> r_last r" "r_last r < 2 ^ 44" "pool_of_region r = Some p" "joins (r_last r + 1) e p rest"
    using assms(1) rs by simp_all
  note g = region_part [OF assms(3) r(1-3)]
  have "a + (r_last r + 1 - a) = r_last r + 1" using r(2) by simp
  then have "combine_regions n rest (Some (a, r_last r + 1 - a, p)) = Some (Some (a, e - a, p))"
    using combine_joined [of a "r_last r + 1 - a" e p rest n] r(3,5) assms(3) all rs by simp
  then show ?thesis unfolding combine_numbered [of n rs] using all rs r g assms(3) by simp
qed

text \<open>The ranges and pools that a layout gives to the managers, one after the other.\<close>

definition pool_ranges_ok :: "(nat \<times> nat \<times> Pool) list \<Rightarrow> bool" where
  "pool_ranges_ok specs \<longleftrightarrow> length specs \<le> MAX_MANAGER_COUNT \<and>
     (\<forall>(a, e, p) \<in> set specs. p \<noteq> Count \<and> 2 ^ 30 \<le> a \<and> a < e \<and> e < 2 ^ 44 \<and> e - a < 2 ^ 35 \<and> 4096 dvd a \<and> 4096 dvd e) \<and>
     (\<forall>i < length specs. \<forall>j < length specs. i \<noteq> j \<longrightarrow>
        {fst (specs ! i)..<fst (snd (specs ! i))} \<inter> {fst (specs ! j)..<fst (snd (specs ! j))} = {})"

lemma pool_range:
  assumes "pool_ranges_ok specs" "n < length specs" "specs ! n = (a, e, p)"
  shows "p \<noteq> Count" "2 ^ 30 \<le> a" "a < e" "e < 2 ^ 44" "e - a < 2 ^ 35" "4096 dvd a" "4096 dvd e"
proof -
  have "specs ! n \<in> set specs" using assms(2) by simp
  from conjunct1 [OF conjunct2 [OF assms(1) [unfolded pool_ranges_ok_def]], THEN bspec, OF this]
  show "p \<noteq> Count" "2 ^ 30 \<le> a" "a < e" "e < 2 ^ 44" "e - a < 2 ^ 35" "4096 dvd a" "4096 dvd e"
    by (simp_all add: assms(3))
qed

lemma pool_disjoint:
  assumes "pool_ranges_ok specs" "i < length specs" "j < length specs" "i \<noteq> j"
  shows "{fst (specs ! i)..<fst (snd (specs ! i))} \<inter> {fst (specs ! j)..<fst (snd (specs ! j))} = {}"
  using conjunct2 [OF conjunct2 [OF assms(1) [unfolded pool_ranges_ok_def]], rule_format, OF assms(2-4)] .

definition spec_pages :: "nat \<times> nat \<times> Pool \<Rightarrow> nat set" where
  "spec_pages s = {b. 4096 dvd b \<and> fst s \<le> b \<and> b < fst (snd s)}"

definition layout_gives :: "KMemoryRegion list \<Rightarrow> (nat \<times> nat \<times> Pool) list \<Rightarrow> bool" where
  "layout_gives rs specs \<longleftrightarrow>
     (\<forall>n < length specs. numbered n rs \<noteq> [] \<and> (case specs ! n of (a, e, p) \<Rightarrow> joins a e p (numbered n rs))) \<and>
     (length specs < MAX_MANAGER_COUNT \<longrightarrow> numbered (length specs) rs = [])"

definition initialized_to :: "(nat \<times> nat \<times> Pool) list \<Rightarrow> nat \<Rightarrow> KMemoryManager \<Rightarrow> bool" where
  "initialized_to specs n mm \<longleftrightarrow> mm_wf mm \<and> num_managers mm = n \<and>
     (\<forall>p. members p (managers mm) = filter (\<lambda>i. snd (snd (specs ! i)) = p) [0..<n]) \<and>
     mem_pages (managers mm) = (\<Union>i < n. spec_pages (specs ! i)) \<and>
     (\<forall>b \<in> mem_pages (managers mm). mem_state (managers mm) b = (0, True)) \<and>
     (\<forall>m \<in> set (managers mm). \<exists>i < n. impl_start m = fst (specs ! i) \<and> impl_end m = fst (snd (specs ! i)))"

lemma initialize_managers_ok:
  assumes "pool_ranges_ok specs" "layout_gives rs specs" "initialized_to specs n mm" "n \<le> length specs"
  shows "\<exists>mm'. initialize_managers rs mm = Some mm' \<and> initialized_to specs (length specs) mm'"
  using assms(3,4)
proof (induction "length specs - n" arbitrary: n mm)
  case 0
  then have n: "n = length specs" by simp
  have num: "num_managers mm = length specs" using 0 n by (simp add: initialized_to_def)
  have "initialize_managers rs mm = Some mm"
  proof (cases "length specs < MAX_MANAGER_COUNT")
    case True
    then have "combine_regions (length specs) rs None = Some None"
      using assms(2) unfolding combine_numbered [of _ rs] by (simp add: layout_gives_def)
    then show ?thesis using num True by (simp add: initialize_managers.simps [of rs mm])
  next
    case False
    then show ?thesis using num by (simp add: initialize_managers.simps [of rs mm])
  qed
  then show ?case using 0 n by simp
next
  case (Suc d)
  then have n: "n < length specs" by simp
  obtain a e p where s: "specs ! n = (a, e, p)" by (cases "specs ! n")
  have num: "num_managers mm = n" "length (managers mm) = n" "mm_wf mm" using Suc.prems by (simp_all add: initialized_to_def mm_wf_def)
  have lim: "n < MAX_MANAGER_COUNT" using n assms(1) by (simp add: pool_ranges_ok_def)
  note v = pool_range [OF assms(1) n s]
  have "numbered n rs \<noteq> []" "joins a e p (numbered n rs)" using assms(2) n s by (auto simp: layout_gives_def)
  then have comb: "combine_regions n rs None = Some (Some (a, e - a, p))" using combine_first v(2) by simp
  have disj: "\<forall>m \<in> set (managers mm). {impl_start m..<impl_end m} \<inter> {a..<a + (e - a)} = {}"
  proof
    fix m assume "m \<in> set (managers mm)"
    then obtain i where i: "i < n" "impl_start m = fst (specs ! i)" "impl_end m = fst (snd (specs ! i))"
      using Suc.prems(1) by (auto simp: initialized_to_def)
    have "{fst (specs ! i)..<fst (snd (specs ! i))} \<inter> {fst (specs ! n)..<fst (snd (specs ! n))} = {}"
      using pool_disjoint [OF assms(1), of i n] i(1) n by simp
    then show "{impl_start m..<impl_end m} \<inter> {a..<a + (e - a)} = {}" using i s v(3) by simp
  qed
  have "a + (e - a) = e" "0 < e - a" "4096 dvd e - a" using v(3,6,7) by (auto intro: dvd_diff_nat)
  from initialize_pool_ok [OF num(3) v(1) _ this(2) v(2) _ v(5,6) this(3) disj] num(2) lim v(4) this(1) obtain mm1 where
    i: "initialize_pool p a (e - a) mm = Some mm1" "mm_wf mm1" "num_managers mm1 = Suc (num_managers mm)"
    "\<forall>q. members q (managers mm1) = members q (managers mm) @ (if q = p then [length (managers mm)] else [])"
    "mem_pages (managers mm1) = mem_pages (managers mm) \<union> {b. 4096 dvd b \<and> a \<le> b \<and> b < e}"
    "\<forall>b \<in> mem_pages (managers mm). mem_state (managers mm1) b = mem_state (managers mm) b"
    "\<forall>b. 4096 dvd b \<longrightarrow> a \<le> b \<longrightarrow> b < e \<longrightarrow> mem_state (managers mm1) b = (0, True)"
    "\<forall>m \<in> set (managers mm1). (\<exists>m0 \<in> set (managers mm). impl_start m = impl_start m0 \<and> impl_end m = impl_end m0) \<or>
       impl_start m = a \<and> impl_end m = e" by auto
  have "initialized_to specs (Suc n) mm1"
    unfolding initialized_to_def
  proof (intro conjI allI)
    show "mm_wf mm1" "num_managers mm1 = Suc n" using i(2,3) num(1) by simp_all
    show "members q (managers mm1) = filter (\<lambda>i. snd (snd (specs ! i)) = q) [0..<Suc n]" for q
      using i(4) Suc.prems(1) num(2) s by (auto simp: initialized_to_def)
    show "mem_pages (managers mm1) = (\<Union>i < Suc n. spec_pages (specs ! i))"
      using i(5) Suc.prems(1) s by (auto simp: initialized_to_def spec_pages_def lessThan_Suc)
    show "\<forall>b \<in> mem_pages (managers mm1). mem_state (managers mm1) b = (0, True)"
      using i(5,6,7) Suc.prems(1) by (auto simp: initialized_to_def)
    show "\<forall>m \<in> set (managers mm1). \<exists>i < Suc n. impl_start m = fst (specs ! i) \<and> impl_end m = fst (snd (specs ! i))"
    proof
      fix m assume "m \<in> set (managers mm1)"
      then consider m0 where "m0 \<in> set (managers mm)" "impl_start m = impl_start m0" "impl_end m = impl_end m0"
        | "impl_start m = a" "impl_end m = e" using i(8) by blast
      then show "\<exists>i < Suc n. impl_start m = fst (specs ! i) \<and> impl_end m = fst (snd (specs ! i))"
      proof cases
        case 1
        then show ?thesis using Suc.prems(1) by (metis initialized_to_def less_SucI)
      next
        case 2
        then show ?thesis using s by (intro exI [of _ n]) simp
      qed
    qed
  qed
  moreover have "d = length specs - Suc n" "Suc n \<le> length specs" using Suc.hyps(2) n by simp_all
  ultimately obtain mm' where "initialize_managers rs mm1 = Some mm'" "initialized_to specs (length specs) mm'"
    using Suc.hyps(1) by blast
  then show ?case using num(1) lim comb i(1) by (simp add: initialize_managers.simps [of rs mm])
qed

lemma fresh_managers:
  assumes "mm_wf mm"
  shows "initialized_to specs 0 (mm\<lparr>num_managers := 0, managers := [], pool_head := replicate POOL_COUNT None,
    pool_tail := replicate POOL_COUNT None\<rparr>)"
  using assms pool_index_less
  by (auto simp: initialized_to_def mm_wf_def impls_wf_def mem_pages_def members_def chains_wf_def get_first_manager_def
      nth_opt_def in_order_def split: Direction.split)

text \<open>
  C23: Initialization from a layout whose user pool regions, joined by their numbers, give up to ten
  disjoint page-aligned ranges: whatever the manager held before, the call does not panic and sets
  up one manager per range, in the pool of its regions; from the head and from the tail of every
  pool the links visit exactly its managers, in both orders; every page of the ranges is free and
  without references, and each pool reports the sum of its ranges as its size and its free size.
\<close>

theorem initialize_from_layout_exact:
  assumes "mm_wf mm" "pool_ranges_ok specs" "layout_gives (map snd (physical_tree layout)) specs"
  shows "\<exists>mm'. initialize_from_layout layout mm = Some mm' \<and> mm_wf mm' \<and>
    (\<forall>p. members p (managers mm') = filter (\<lambda>i. snd (snd (specs ! i)) = p) [0..<length specs]) \<and>
    mem_pages (managers mm') = (\<Union>s \<in> set specs. spec_pages s) \<and>
    (\<forall>b \<in> mem_pages (managers mm'). mem_state (managers mm') b = (0, True)) \<and>
    (\<forall>p. p \<noteq> Count \<longrightarrow> mm_get_size p mm' = Some (4096 * card (pool_pages p (managers mm'))) \<and>
       mm_get_free_size p mm' = mm_get_size p mm')"
proof -
  from initialize_managers_ok [OF assms(2,3) fresh_managers [OF assms(1)]] obtain mm' where
    i: "initialize_from_layout layout mm = Some mm'" "initialized_to specs (length specs) mm'"
    unfolding initialize_from_layout_def by blast
  have w: "mm_wf mm'" "\<forall>p. members p (managers mm') = filter (\<lambda>i. snd (snd (specs ! i)) = p) [0..<length specs]"
    "mem_pages (managers mm') = (\<Union>i < length specs. spec_pages (specs ! i))"
    "\<forall>b \<in> mem_pages (managers mm'). mem_state (managers mm') b = (0, True)"
    using i(2) unfolding initialized_to_def by blast+
  have u: "(\<Union>i < length specs. spec_pages (specs ! i)) = (\<Union>s \<in> set specs. spec_pages s)"
    by (auto simp: set_conv_nth)
  have f: "{b \<in> pool_pages p (managers mm'). snd (mem_state (managers mm') b)} = pool_pages p (managers mm')" for p
  proof -
    have "pool_pages p (managers mm') \<subseteq> mem_pages (managers mm')"
      unfolding pool_pages_def by (auto simp: members_set mem_pages_index)
    then show ?thesis using w(4) by auto
  qed
  show ?thesis using i(1) w u pool_sizes [OF w(1)] f by (intro exI [of _ mm']) simp
qed

section \<open>References\<close>

lemma run_of_block:
  assumes "bi_ok b"
  shows "4096 dvd bi_address b"
  using bi_geometry(1) [OF assms] by simp

text \<open>An operation on every run of a group, for operations that change each page of a run by \<open>u\<close>.\<close>

lemma over_blocks_ok:
  assumes "\<And>a n mm. mm_wf mm \<Longrightarrow> 4096 dvd a \<Longrightarrow> set (run_pages a n) \<subseteq> mem_pages (managers mm) \<Longrightarrow>
      \<forall>b \<in> set (run_pages a n). ok (mem_state (managers mm) b) \<Longrightarrow>
      \<exists>ms. F a n mm = Some (mm\<lparr>managers := ms\<rparr>) \<and> mem_step (set (run_pages a n)) u (managers mm) ms"
    and "mm_wf mm" "group_ok bs" "distinct (group_pages bs)" "set (group_pages bs) \<subseteq> mem_pages (managers mm)"
    "\<forall>b \<in> set (group_pages bs). ok (mem_state (managers mm) b)"
  shows "\<exists>ms. over_blocks F bs mm = Some (mm\<lparr>managers := ms\<rparr>) \<and> mem_step (set (group_pages bs)) u (managers mm) ms"
  using assms(2-)
proof (induction bs arbitrary: mm)
  case Nil
  have "mm\<lparr>managers := managers mm\<rparr> = mm" by simp
  then show ?case using Nil mem_step_refl [of "managers mm"] by (intro exI [of _ "managers mm"]) (simp add: group_pages_def mm_wf_def)
next
  case (Cons b bs)
  let ?R = "set (run_pages (bi_address b) (bi_num_pages b))"
  have g: "group_pages (b # bs) = run_pages (bi_address b) (bi_num_pages b) @ group_pages bs" by (simp add: group_pages_def)
  have b: "bi_ok b" "group_ok bs" using Cons.prems(2) by (simp_all add: group_ok_def)
  have sub: "?R \<subseteq> mem_pages (managers mm)" "\<forall>b \<in> ?R. ok (mem_state (managers mm) b)" using Cons.prems(4,5) g by auto
  from assms(1) [OF Cons.prems(1) run_of_block [OF b(1)] sub] obtain ms1 where
    f: "F (bi_address b) (bi_num_pages b) mm = Some (mm\<lparr>managers := ms1\<rparr>)" and s: "mem_step ?R u (managers mm) ms1" by blast
  let ?mm = "mm\<lparr>managers := ms1\<rparr>"
  have p: "mem_pages ms1 = mem_pages (managers mm)" using s same_list(3) by (simp add: mem_step_def)
  have dis: "?R \<inter> set (group_pages bs) = {}" "distinct (group_pages bs)" using Cons.prems(3) g by auto
  have sub2: "set (group_pages bs) \<subseteq> mem_pages (managers mm)" using Cons.prems(4) g by simp
  have "ok (mem_state ms1 x)" if "x \<in> set (group_pages bs)" for x
  proof -
    have "x \<in> mem_pages (managers mm)" "x \<notin> ?R" using that sub2 dis(1) by blast+
    from mem_step_out [OF s this] show ?thesis using Cons.prems(5) that g by simp
  qed
  then have o: "\<forall>x \<in> set (group_pages bs). ok (mem_state (managers ?mm) x)" by simp
  have "set (group_pages bs) \<subseteq> mem_pages (managers ?mm)" using sub2 p by simp
  from Cons.IH [OF mm_wf_step [OF Cons.prems(1) s] b(2) dis(2) this o] obtain ms where
    ms: "over_blocks F bs ?mm = Some (?mm\<lparr>managers := ms\<rparr>)" "mem_step (set (group_pages bs)) u ms1 ms" by auto
  have "mem_step (set (group_pages (b # bs))) u (managers mm) ms" unfolding g set_append by (rule mem_step_trans [OF s ms(2) dis(1)])
  then show ?case using f ms(1) by (intro exI [of _ ms]) simp
qed

lemma mm_open_run:
  assumes "mm_wf mm" "4096 dvd a" "set (run_pages a n) \<subseteq> mem_pages (managers mm)"
    "\<forall>b \<in> set (run_pages a n). can_open (mem_state (managers mm) b)"
  shows "\<exists>ms. mm_open a n mm = Some (mm\<lparr>managers := ms\<rparr>) \<and> mem_step (set (run_pages a n)) open_page (managers mm) ms"
  using opens_locked.over_managers_ok [OF _ assms(2-4)] assms(1) by (auto simp: mm_open_def mm_wf_def)

lemma mm_close_run:
  assumes "mm_wf mm" "4096 dvd a" "set (run_pages a n) \<subseteq> mem_pages (managers mm)"
    "\<forall>b \<in> set (run_pages a n). can_close (mem_state (managers mm) b)"
  shows "\<exists>ms. mm_close a n mm = Some (mm\<lparr>managers := ms\<rparr>) \<and> mem_step (set (run_pages a n)) close_page (managers mm) ms"
  using closes_locked.over_managers_ok [OF _ assms(2-4)] assms(1) by (auto simp: mm_close_def mm_wf_def)

lemma mm_open_first_eq: "mm_open_first = mm_open"
  by (intro ext) (simp add: mm_open_first_def mm_open_def open_first_eq)

text \<open>A group is closed and opened run by run.\<close>

lemma pg_close_ok:
  assumes "mm_wf mm" "kernel_owned pg" "group_ok (group_blocks pg)" "distinct (group_pages (group_blocks pg))"
    "set (group_pages (group_blocks pg)) \<subseteq> mem_pages (managers mm)"
    "\<forall>b \<in> set (group_pages (group_blocks pg)). can_close (mem_state (managers mm) b)"
  shows "\<exists>ms. pg_close pg (Some mm) = Some (Some (mm\<lparr>managers := ms\<rparr>)) \<and> mm_wf (mm\<lparr>managers := ms\<rparr>) \<and>
    (\<forall>b \<in> mem_pages (managers mm). mem_state ms b =
       (if b \<in> set (group_pages (group_blocks pg)) then close_page (mem_state (managers mm) b) else mem_state (managers mm) b))"
proof -
  from over_blocks_ok [where F = mm_close and ok = can_close and u = close_page, OF mm_close_run assms(1,3-6)]
  obtain ms where "over_blocks mm_close (group_blocks pg) mm = Some (mm\<lparr>managers := ms\<rparr>)"
    "mem_step (set (group_pages (group_blocks pg))) close_page (managers mm) ms" by blast
  then show ?thesis using mm_wf_step [OF assms(1)] assms(2)
    by (intro exI [of _ ms]) (simp add: pg_close_def with_kernel_def mem_step_def)
qed

lemma scoped_new_ok:
  assumes "mm_wf mm" "kernel_owned pg" "group_ok (group_blocks pg)" "distinct (group_pages (group_blocks pg))"
    "set (group_pages (group_blocks pg)) \<subseteq> mem_pages (managers mm)"
    "\<forall>b \<in> set (group_pages (group_blocks pg)). can_open (mem_state (managers mm) b)"
  shows "\<exists>ms. scoped_new pg not_first (Some mm) = Some (Some pg, Some (mm\<lparr>managers := ms\<rparr>)) \<and> mm_wf (mm\<lparr>managers := ms\<rparr>) \<and>
    mem_pages ms = mem_pages (managers mm) \<and> (\<forall>b \<in> mem_pages (managers mm). mem_state ms b =
       (if b \<in> set (group_pages (group_blocks pg)) then open_page (mem_state (managers mm) b) else mem_state (managers mm) b))"
proof -
  from over_blocks_ok [where F = mm_open and ok = can_open and u = open_page, OF mm_open_run assms(1,3-6)]
  obtain ms where ms: "over_blocks mm_open (group_blocks pg) mm = Some (mm\<lparr>managers := ms\<rparr>)"
    "mem_step (set (group_pages (group_blocks pg))) open_page (managers mm) ms" by blast
  moreover have "mem_pages ms = mem_pages (managers mm)" using ms(2) same_list(3) by (simp add: mem_step_def)
  ultimately show ?thesis using mm_wf_step [OF assms(1) ms(2)] assms(2)
    by (intro exI [of _ ms]) (simp add: scoped_new_def pg_open_def pg_open_first_def with_kernel_def mm_open_first_eq mem_step_def)
qed

text \<open>
  C22: The references of a page group. For a group of runs without repeated pages, whose pages the
  managers own, in runs that may span several managers: closing a group whose pages all have
  references never panics or loops, lowers the count of exactly its pages by one and frees exactly
  those that had one reference. Opening it, as first or as further reference, raises exactly its
  counts by one while they are below 2^16 - 1; and the guard that opens the group and closes it
  when dropped restores the memory, except that pages that had no reference before are then free.
\<close>

theorem page_group_references:
  assumes "mm_wf mm" "kernel_owned pg" "group_ok (group_blocks pg)" "distinct (group_pages (group_blocks pg))"
    "set (group_pages (group_blocks pg)) \<subseteq> mem_pages (managers mm)"
  defines "pages \<equiv> set (group_pages (group_blocks pg))"
  shows "((\<forall>b \<in> pages. 0 < fst (mem_state (managers mm) b)) \<longrightarrow>
      (\<exists>mm'. pg_close pg (Some mm) = Some (Some mm') \<and> mm_wf mm' \<and> (\<forall>b \<in> mem_pages (managers mm).
         mem_state (managers mm') b = (let (c, f) = mem_state (managers mm) b in if b \<in> pages then (c - 1, c = 1) else (c, f))))) \<and>
    ((\<forall>b \<in> pages. \<not> snd (mem_state (managers mm) b) \<and> fst (mem_state (managers mm) b) < 2 ^ 16 - 1) \<longrightarrow>
      (\<exists>mm1 mm2. scoped_new pg not_first (Some mm) = Some (Some pg, Some mm1) \<and> mm_wf mm1 \<and>
         (\<forall>b \<in> mem_pages (managers mm).
            mem_state (managers mm1) b = (let (c, f) = mem_state (managers mm) b in if b \<in> pages then (c + 1, f) else (c, f))) \<and>
         scoped_drop (Some pg) (Some mm1) = Some (Some mm2) \<and> mm_wf mm2 \<and>
         (\<forall>b \<in> mem_pages (managers mm).
            mem_state (managers mm2) b = (let (c, f) = mem_state (managers mm) b in if b \<in> pages \<and> c = 0 then (0, True) else (c, f)))))"
proof (intro conjI impI)
  assume "\<forall>b \<in> pages. 0 < fst (mem_state (managers mm) b)"
  then have c: "\<forall>b \<in> set (group_pages (group_blocks pg)). can_close (mem_state (managers mm) b)" by (simp add: can_close_def pages_def)
  from pg_close_ok [OF assms(1-5) c] show "\<exists>mm'. pg_close pg (Some mm) = Some (Some mm') \<and> mm_wf mm' \<and> (\<forall>b \<in> mem_pages (managers mm).
     mem_state (managers mm') b = (let (c, f) = mem_state (managers mm) b in if b \<in> pages then (c - 1, c = 1) else (c, f)))"
    using c by (fastforce simp: close_page_def can_close_def pages_def split: prod.split)
next
  assume can: "\<forall>b \<in> pages. \<not> snd (mem_state (managers mm) b) \<and> fst (mem_state (managers mm) b) < 2 ^ 16 - 1"
  then have "\<forall>b \<in> set (group_pages (group_blocks pg)). can_open (mem_state (managers mm) b)" by (simp add: can_open_def pages_def)
  from scoped_new_ok [OF assms(1-5) this] obtain ms where o: "scoped_new pg not_first (Some mm) = Some (Some pg, Some (mm\<lparr>managers := ms\<rparr>))"
    "mm_wf (mm\<lparr>managers := ms\<rparr>)" "mem_pages ms = mem_pages (managers mm)"
    "\<And>b. b \<in> mem_pages (managers mm) \<Longrightarrow> mem_state ms b = (if b \<in> pages then open_page (mem_state (managers mm) b) else mem_state (managers mm) b)"
    unfolding pages_def by blast
  have c: "set (group_pages (group_blocks pg)) \<subseteq> mem_pages (managers (mm\<lparr>managers := ms\<rparr>))"
    "\<forall>b \<in> set (group_pages (group_blocks pg)). can_close (mem_state (managers (mm\<lparr>managers := ms\<rparr>)) b)"
    using o(3,4) assms(5) by (auto simp: pages_def can_close_def open_page_def)
  from pg_close_ok [OF o(2) assms(2-4) c] o(3) obtain ms2 where r: "scoped_drop (Some pg) (Some (mm\<lparr>managers := ms\<rparr>)) = Some (Some (mm\<lparr>managers := ms2\<rparr>))"
    "mm_wf (mm\<lparr>managers := ms2\<rparr>)"
    "\<And>b. b \<in> mem_pages (managers mm) \<Longrightarrow> mem_state ms2 b = (if b \<in> pages then close_page (mem_state ms b) else mem_state ms b)"
    by (auto simp: scoped_drop_def pages_def)
  have "mem_state ms2 b = (let (c, f) = mem_state (managers mm) b in if b \<in> pages \<and> c = 0 then (0, True) else (c, f))"
    if "b \<in> mem_pages (managers mm)" for b
    using o(4) [OF that] r(3) [OF that] can by (cases "mem_state (managers mm) b") (auto simp: open_page_def close_page_def)
  moreover have "mem_state ms b = (let (c, f) = mem_state (managers mm) b in if b \<in> pages then (c + 1, f) else (c, f))"
    if "b \<in> mem_pages (managers mm)" for b using o(4) [OF that] by (simp add: open_page_def split: prod.split)
  ultimately show "\<exists>mm1 mm2. scoped_new pg not_first (Some mm) = Some (Some pg, Some mm1) \<and> mm_wf mm1 \<and>
         (\<forall>b \<in> mem_pages (managers mm).
            mem_state (managers mm1) b = (let (c, f) = mem_state (managers mm) b in if b \<in> pages then (c + 1, f) else (c, f))) \<and>
         scoped_drop (Some pg) (Some mm1) = Some (Some mm2) \<and> mm_wf mm2 \<and>
         (\<forall>b \<in> mem_pages (managers mm).
            mem_state (managers mm2) b = (let (c, f) = mem_state (managers mm) b in if b \<in> pages \<and> c = 0 then (0, True) else (c, f)))"
    using o(1,2) r(1,2) by (intro exI [of _ "mm\<lparr>managers := ms\<rparr>"] exI [of _ "mm\<lparr>managers := ms2\<rparr>"]) simp
qed

section \<open>Concrete managers\<close>

lemma mm_new_wf: "mm_wf mm_new"
  using pool_index_less
  by (auto simp: mm_wf_def mm_new_def impls_wf_def chains_wf_def members_def get_first_manager_def nth_opt_def in_order_def
      MAX_MANAGER_COUNT_def split: Direction.split)

text \<open>A system pool of four pages.\<close>

lemma sample_manager:
  "\<exists>mm. initialize_pool System 0x80000000 0x4000 mm_new = Some mm \<and> mm_wf mm \<and> members System (managers mm) = [0] \<and>
     mem_pages (managers mm) = {b. 4096 dvd b \<and> 0x80000000 \<le> b \<and> b < 0x80004000} \<and>
     (\<forall>b \<in> mem_pages (managers mm). mem_state (managers mm) b = (0, True))"
proof -
  have e: "managers mm_new = []" by (simp add: mm_new_def)
  have d: "(4096 :: nat) dvd 0x80000000" "(4096 :: nat) dvd 0x4000" by simp_all
  have "length (managers mm_new) < MAX_MANAGER_COUNT" by (simp add: e MAX_MANAGER_COUNT_def)
  from initialize_pool_ok [OF mm_new_wf _ this _ _ _ _ d, of System] obtain mm where
    "initialize_pool System 0x80000000 0x4000 mm_new = Some mm" "mm_wf mm"
    "\<forall>q. members q (managers mm) = members q [] @ (if q = System then [length ([] :: Impl list)] else [])"
    "mem_pages (managers mm) = mem_pages [] \<union> {b. 4096 dvd b \<and> 0x80000000 \<le> b \<and> b < 0x80000000 + 0x4000}"
    "\<forall>b. 4096 dvd b \<longrightarrow> 0x80000000 \<le> b \<longrightarrow> b < 0x80000000 + 0x4000 \<longrightarrow> mem_state (managers mm) b = (0, True)"
    unfolding e by (auto simp: e)
  then show ?thesis by (intro exI [of _ mm]) (auto simp: members_def mem_pages_def)
qed

lemma free_page_fits:
  assumes "impls_wf ms" "i < length ms" "b \<in> impl_pages (ms ! i)" "snd (mem_state ms b)"
  shows "fits 1 (2 ^ 0) (ms ! i)"
proof -
  have w: "heap_wf (m_heap (ms ! i))" using assms(1,2) by (simp add: impls_wf_def impl_wf_def)
  have d: "4096 dvd b" using assms(3) by (simp add: impl_pages_def)
  have "b \<in> free_bytes (m_heap (ms ! i))" using assms mem_state_owner [OF assms(1-3)] by (simp add: page_state_def)
  from free_page_whole [OF w this] have "{b..<b + 4096} \<subseteq> free_bytes (m_heap (ms ! i))" using d by (simp add: dvd_eq_mod_eq_0)
  then have "some_range (m_heap (ms ! i)) 0" unfolding some_range_def using d by (intro exI [of _ b]) simp
  then show ?thesis unfolding fits_def by (intro exI [of _ 0]) simp
qed

lemma sample_fits:
  assumes "mm_wf mm" "mem_pages (managers mm) = {b. 4096 dvd b \<and> 0x80000000 \<le> b \<and> b < 0x80004000}"
    "\<forall>b \<in> mem_pages (managers mm). mem_state (managers mm) b = (0, True)" "members System (managers mm) = [0]"
    "length (managers mm) = 1"
  shows "fits 1 (2 ^ 0) (managers mm ! 0)"
proof -
  have wf: "impls_wf (managers mm)" using assms(1) by (simp add: mm_wf_def)
  have "(0x80000000 :: nat) \<in> mem_pages (managers mm)" using assms(2) by simp
  then have "0x80000000 \<in> impl_pages (managers mm ! 0)" "snd (mem_state (managers mm) 0x80000000)"
    using assms(3,5) mem_pages_index by auto
  then show ?thesis using free_page_fits [OF wf] assms(5) by simp
qed

lemma allocate_and_open_continuous_exact_witness:
  "\<exists>mm r mm'. initialize_pool System 0x80000000 0x4000 mm_new = Some mm \<and>
     allocate_and_open_continuous 1 1 (encode_option System FromBack) mm = Some (r, mm') \<and> r \<noteq> 0 \<and>
     mem_state (managers mm') r = (1, False)"
proof -
  obtain mm where m: "initialize_pool System 0x80000000 0x4000 mm_new = Some mm" "mm_wf mm" "members System (managers mm) = [0]"
     "mem_pages (managers mm) = {b. 4096 dvd b \<and> 0x80000000 \<le> b \<and> b < 0x80004000}"
     "\<forall>b \<in> mem_pages (managers mm). mem_state (managers mm) b = (0, True)" using sample_manager by blast
  have "num_managers mm = 1" using initialize_pool_num [OF m(1)] by (simp add: mm_new_def)
  then have "length (managers mm) = 1" using m(2) by (simp add: mm_wf_def)
  from sample_fits [OF m(2,4,5,3) this] have f: "fits 1 (2 ^ 0) (managers mm ! 0)" .
  have "System \<noteq> Count" "(0 :: nat) < 1" "max 1 (2 ^ 0) \<le> (2 :: nat) ^ 18" by simp_all
  from allocate_and_open_continuous_exact [OF m(2) this, of FromBack] obtain r mm' where
    r: "allocate_and_open_continuous 1 (2 ^ 0) (encode_option System FromBack) mm = Some (r, mm')"
    "r \<noteq> 0 \<longleftrightarrow> (\<exists>i \<in> set (members System (managers mm)). fits 1 (2 ^ 0) (managers mm ! i))"
    "r \<noteq> 0 \<longrightarrow> (\<exists>ys i zs. in_order FromBack (members System (managers mm)) = ys @ i # zs \<and>
          (\<forall>j \<in> set ys. \<not> fits 1 (2 ^ 0) (managers mm ! j)) \<and> set (run_pages r 1) \<subseteq> impl_pages (managers mm ! i))"
    "\<forall>b \<in> mem_pages (managers mm). mem_state (managers mm') b =
       (if r \<noteq> 0 \<and> b \<in> set (run_pages r 1) then (1, False) else mem_state (managers mm) b)" by blast
  have r0: "r \<noteq> 0" using r(2) m(3) f by simp
  then obtain ys i zs where y: "in_order FromBack (members System (managers mm)) = ys @ i # zs"
    "set (run_pages r 1) \<subseteq> impl_pages (managers mm ! i)" using r(3) by blast
  have "i \<in> set (in_order FromBack (members System (managers mm)))" unfolding y(1) by simp
  then have "i < length (managers mm)" by (simp add: members_set)
  moreover have "r \<in> set (run_pages r 1)" by (simp add: run_pages_def)
  ultimately have "r \<in> mem_pages (managers mm)" using y(2) mem_pages_index by blast
  then have "mem_state (managers mm') r = (1, False)" using r(4) r0 \<open>r \<in> set (run_pages r 1)\<close> by simp
  then show ?thesis using m(1) r(1) r0 by auto
qed

lemma initialize_from_layout_exact_witness:
  "\<exists>mm'. initialize_from_layout (layout_new\<lparr>physical_tree :=
       [(0x80000000, new_with_attr 0x80000000 0x80001fff 0 (rt_value K_MEMORY_REGION_TYPE_DRAM_APPLICATION_POOL)),
        (0x80002000, new_with_attr 0x80002000 0x80003fff 0 (rt_value K_MEMORY_REGION_TYPE_DRAM_APPLICATION_POOL)),
        (0x90000000, new_with_attr 0x90000000 0x90001fff 1 (rt_value K_MEMORY_REGION_TYPE_DRAM_APPLET_POOL))]\<rparr>) mm_new = Some mm' \<and>
     members Application (managers mm') = [0] \<and> members Applet (managers mm') = [1] \<and>
     mm_get_free_size Applet mm' = mm_get_size Applet mm'"
proof -
  let ?t = "[(0x80000000, new_with_attr 0x80000000 0x80001fff 0 (rt_value K_MEMORY_REGION_TYPE_DRAM_APPLICATION_POOL)),
        (0x80002000, new_with_attr 0x80002000 0x80003fff 0 (rt_value K_MEMORY_REGION_TYPE_DRAM_APPLICATION_POOL)),
        (0x90000000, new_with_attr 0x90000000 0x90001fff 1 (rt_value K_MEMORY_REGION_TYPE_DRAM_APPLET_POOL))]"
  let ?l = "layout_new\<lparr>physical_tree := ?t\<rparr>"
  let ?specs = "[(0x80000000, 0x80004000, Application), (0x90000000, 0x90002000, Applet)] :: (nat \<times> nat \<times> Pool) list"
  have two: "(n < length ?specs) = (n = 0 \<or> n = 1)" for n by auto
  have s: "pool_ranges_ok ?specs"
    unfolding pool_ranges_ok_def two by (auto simp: MAX_MANAGER_COUNT_def)
  have t: "map snd (physical_tree ?l) = map snd ?t" by simp
  have g: "layout_gives (map snd (physical_tree ?l)) ?specs"
    unfolding layout_gives_def two t
    by (auto simp: numbered_def new_with_attr_def is_derived_from_def is_ancestor_of_def pool_of_region_def type_defs)
  from initialize_from_layout_exact [OF mm_new_wf s g] obtain mm' where
    m: "initialize_from_layout ?l mm_new = Some mm'"
    "\<forall>p. members p (managers mm') = filter (\<lambda>i. snd (snd (?specs ! i)) = p) [0..<length ?specs]"
    "\<forall>p. p \<noteq> Count \<longrightarrow> mm_get_free_size p mm' = mm_get_size p mm'" by blast
  have "members p (managers mm') = filter (\<lambda>i. snd (snd (?specs ! i)) = p) [0, 1]" for p
    using m(2) by (simp add: numeral_2_eq_2)
  then have "members Application (managers mm') = [0]" "members Applet (managers mm') = [1]" by simp_all
  with m(1,3) show ?thesis by blast
qed

lemma page_group_references_witness:
  "\<exists>mm r mm1 mm2 mm3 mm4. initialize_pool System 0x80000000 0x4000 mm_new = Some mm \<and>
     allocate_and_open_continuous 1 1 (encode_option System FromBack) mm = Some (r, mm1) \<and>
     (let pg = \<lparr>group_blocks = [bi_initialize r 1 bi_new], has_info_manager = False, kernel_owned = True\<rparr>
      in pg_close pg (Some mm1) = Some (Some mm2) \<and> mem_state (managers mm2) r = (0, True) \<and>
         scoped_new pg True (Some mm1) = Some (Some pg, Some mm3) \<and> mem_state (managers mm3) r = (2, False) \<and>
         scoped_drop (Some pg) (Some mm3) = Some (Some mm4) \<and> mem_state (managers mm4) r = (1, False))"
proof -
  obtain mm where m: "initialize_pool System 0x80000000 0x4000 mm_new = Some mm" "mm_wf mm" "members System (managers mm) = [0]"
     "mem_pages (managers mm) = {b. 4096 dvd b \<and> 0x80000000 \<le> b \<and> b < 0x80004000}"
     "\<forall>b \<in> mem_pages (managers mm). mem_state (managers mm) b = (0, True)" using sample_manager by blast
  have "num_managers mm = 1" using initialize_pool_num [OF m(1)] by (simp add: mm_new_def)
  then have one: "length (managers mm) = 1" using m(2) by (simp add: mm_wf_def)
  from sample_fits [OF m(2,4,5,3) this] have f: "fits 1 (2 ^ 0) (managers mm ! 0)" .
  have "System \<noteq> Count" "(0 :: nat) < 1" "max 1 (2 ^ 0) \<le> (2 :: nat) ^ 18" by simp_all
  from continuous_alloc_ok [OF m(2) this, of FromBack] obtain r mm1 where
    r: "allocate_and_open_continuous 1 (2 ^ 0) (encode_option System FromBack) mm = Some (r, mm1)" "mm_wf mm1"
    "r \<noteq> 0 \<longleftrightarrow> (\<exists>i \<in> set (members System (managers mm)). fits 1 (2 ^ 0) (managers mm ! i))"
    "r \<noteq> 0 \<longrightarrow> (\<exists>ys i zs. in_order FromBack (members System (managers mm)) = ys @ i # zs \<and>
          (\<forall>j \<in> set ys. \<not> fits 1 (2 ^ 0) (managers mm ! j)) \<and> set (run_pages r 1) \<subseteq> impl_pages (managers mm ! i))"
    "mem_pages (managers mm1) = mem_pages (managers mm)"
    "\<forall>b \<in> mem_pages (managers mm). mem_state (managers mm1) b =
       (if r \<noteq> 0 \<and> b \<in> set (run_pages r 1) then (1, False) else mem_state (managers mm) b)" by blast
  have r0: "r \<noteq> 0" using r(3) m(3) f by simp
  then obtain ys i zs where y: "in_order FromBack (members System (managers mm)) = ys @ i # zs"
    "set (run_pages r 1) \<subseteq> impl_pages (managers mm ! i)" using r(4) by blast
  have "i \<in> set (in_order FromBack (members System (managers mm)))" unfolding y(1) by simp
  then have "i < length (managers mm)" by (simp add: members_set)
  moreover have rr: "r \<in> set (run_pages r 1)" by (simp add: run_pages_def)
  ultimately have rm: "r \<in> mem_pages (managers mm)" using y(2) mem_pages_index by blast
  then have r1: "mem_state (managers mm1) r = (1, False)" using r(6) r0 rr by simp
  have ra: "4096 dvd r" "r + 1 * 4096 < 2 ^ 44" using rm m(4) by simp_all
  define pg where "pg = \<lparr>group_blocks = [bi_initialize r 1 bi_new], has_info_manager = False, kernel_owned = True\<rparr>"
  note b = bi_initialize_ok [OF ra(1) zero_less_one ra(2), of bi_new]
  have gp: "group_pages (group_blocks pg) = [r]" using b(2,3) by (simp add: pg_def group_pages_def run_pages_def)
  have g: "kernel_owned pg" "group_ok (group_blocks pg)" "distinct (group_pages (group_blocks pg))"
    "set (group_pages (group_blocks pg)) \<subseteq> mem_pages (managers mm1)"
    unfolding gp r(5) using rm b(1) by (simp_all add: pg_def group_ok_def)
  note t = page_group_references [OF r(2) g, of True, unfolded gp, simplified r1]
  have rm1: "r \<in> mem_pages (managers mm1)" using rm r(5) by simp
  from t r1 rm1 obtain mm2 mm3 mm4 where "pg_close pg (Some mm1) = Some (Some mm2)" "mem_state (managers mm2) r = (0, True)"
    "scoped_new pg True (Some mm1) = Some (Some pg, Some mm3)" "mem_state (managers mm3) r = (2, False)"
    "scoped_drop (Some pg) (Some mm3) = Some (Some mm4)" "mem_state (managers mm4) r = (1, False)"
    by (auto simp: r1)
  with m(1) r(1) show ?thesis unfolding pg_def by (auto simp: Let_def)
qed

end
