(* ===== verification/MemoryManagerGroups.thy ===== *)
theory MemoryManagerGroups
  imports MemoryManagerProps
begin

text \<open>
  Allocation of page groups: the loops over block sizes, managers and blocks, their failure paths,
  and the theorem that the allocation answers exactly the asked number of free pages of the pool.
\<close>

section \<open>Undoing an allocation\<close>

text \<open>
  Freeing the group stops at the end of the manager that a run begins in. What it can miss are pages
  behind a seam: from the start of a manager of the pool on that begins where another one of it ends.
\<close>

definition behind_seam :: "Pool \<Rightarrow> Impl list \<Rightarrow> nat \<Rightarrow> bool" where
  "behind_seam p ms b \<longleftrightarrow> (\<exists>i \<in> set (members p ms). \<exists>j \<in> set (members p ms).
     impl_end (ms ! i) = impl_start (ms ! j) \<and> impl_start (ms ! j) \<le> b)"

lemma members_less: "i \<in> set (members p ms) \<Longrightarrow> i < length ms"
  by (simp add: members_set)

lemma behind_seam_same:
  assumes "list_all2 same_impl ms ms'"
  shows "behind_seam p ms' b \<longleftrightarrow> behind_seam p ms b"
proof -
  have "impl_end (ms' ! i) = impl_end (ms ! i) \<and> impl_start (ms' ! i) = impl_start (ms ! i)"
    if "i \<in> set (members p ms)" for i
    using same_implD(1,2) [OF same_list(2) [OF assms members_less [OF that]]] by simp
  then show ?thesis unfolding behind_seam_def same_members(1) [OF assms] by auto
qed

lemma pool_pages_same:
  assumes "list_all2 same_impl ms ms'"
  shows "pool_pages p ms' = pool_pages p ms"
  using same_implD(3) [OF same_list(2) [OF assms members_less]]
  unfolding pool_pages_def same_members(1) [OF assms] by auto

lemma pool_pages_sub: "pool_pages p ms \<subseteq> mem_pages ms"
  unfolding pool_pages_def by (auto simp: members_set mem_pages_index)

lemma run_member: "b \<in> set (run_pages a n) \<longleftrightarrow> (\<exists>k < n. b = a + k * 4096)"
  by (auto simp: run_pages_def)

text \<open>The pages of a run behind the end of the manager it begins in are behind a seam.\<close>

lemma run_beyond:
  assumes "impls_wf ms" "set (run_pages a n) \<subseteq> pool_pages p ms" "i < length ms" "impl_start (ms ! i) \<le> a"
    "0 < cur" "cur < n" "a + cur * 4096 = impl_end (ms ! i)" "b \<in> set (run_pages (a + cur * 4096) (n - cur))"
  shows "behind_seam p ms b"
proof -
  let ?e = "impl_end (ms ! i)"
  have "?e \<in> set (run_pages a n)" "a \<in> set (run_pages a n)"
    using assms(5-7) unfolding run_member by (metis, force)
  then obtain j i' where j: "j \<in> set (members p ms)" "?e \<in> impl_pages (ms ! j)"
    and i': "i' \<in> set (members p ms)" "a \<in> impl_pages (ms ! i')"
    using assms(2) unfolding pool_pages_def by blast
  have "a < ?e" using assms(5,7) by linarith
  then have "i' = i"
    using impls_disjoint [OF assms(1,3) members_less [OF i'(1)]] i'(2) assms(4) by (auto simp: impl_pages_def disjoint_iff)
  have b: "impl_start (ms ! j) \<le> ?e" "?e < impl_end (ms ! j)" using j(2) by (simp_all add: impl_pages_def)
  then have "i \<noteq> j" by auto
  then have dis: "{impl_start (ms ! i)..<?e} \<inter> {impl_start (ms ! j)..<impl_end (ms ! j)} = {}"
    using impls_disjoint [OF assms(1,3) members_less [OF j(1)]] by blast
  have "\<not> impl_start (ms ! j) < ?e"
  proof
    assume "impl_start (ms ! j) < ?e"
    then have "max (impl_start (ms ! i)) (impl_start (ms ! j)) \<in>
        {impl_start (ms ! i)..<?e} \<inter> {impl_start (ms ! j)..<impl_end (ms ! j)}"
      using b \<open>a < ?e\<close> assms(4) by auto
    then show False using dis by blast
  qed
  then have "?e = impl_start (ms ! j)" using b(1) by linarith
  moreover have "?e \<le> b" using assms(7,8) unfolding run_member by auto
  ultimately show ?thesis using i'(1) \<open>i' = i\<close> j(1) unfolding behind_seam_def by auto
qed

lemma free_first_ok:
  assumes "impls_wf ms" "4096 dvd a" "0 < n" "set (run_pages a n) \<subseteq> pool_pages p ms" "\<forall>b \<in> set (run_pages a n). unowned (mem_state ms b)"
  shows "\<exists>ms' R. free_in_first_manager a n ms = Some ms' \<and> R \<subseteq> set (run_pages a n) \<and>
    (\<forall>b \<in> set (run_pages a n) - R. behind_seam p ms b) \<and> mem_step R free_page ms ms'"
proof -
  have mp: "set (run_pages a n) \<subseteq> mem_pages ms" using assms(4) pool_pages_sub by blast
  from first_part [OF assms(1-3) mp] obtain i cur where i: "i < length ms" and fm: "find_manager_index a ms = Some i" and
    lt: "impl_start (ms ! i) \<le> a" and mn: "min n (get_page_offset_to_end a (m_heap (ms ! i))) = cur" and
    cur: "0 < cur" "cur \<le> n" "a + cur * 4096 \<le> impl_end (ms ! i)" "cur < n \<longrightarrow> a + cur * 4096 = impl_end (ms ! i)" by blast
  have split: "run_pages a n = run_pages a cur @ run_pages (a + cur * 4096) (n - cur)"
    using run_pages_add [of a cur "n - cur"] cur(2) by simp
  then have "\<forall>b \<in> set (run_pages a cur). unowned (mem_state ms b)" using assms(5) by simp
  from frees.on_manager [OF assms(1) i assms(2) lt cur(3) this] obtain m' where
    m': "impl_free a cur (ms ! i) = Some m'" "mem_step (set (run_pages a cur)) free_page ms (ms[i := m'])" by blast
  have "behind_seam p ms b" if "b \<in> set (run_pages a n) - set (run_pages a cur)" for b
  proof -
    have b: "b \<in> set (run_pages (a + cur * 4096) (n - cur))" using that unfolding split by auto
    then have "cur < n" by (auto simp: run_pages_def)
    then show ?thesis using run_beyond [OF assms(1,4) i lt cur(1) _ _ b] cur(4) by blast
  qed
  moreover have "free_in_first_manager a n ms = Some (ms[i := m'])"
    using fm m'(1) by (simp add: free_in_first_manager_def mn)
  moreover have "set (run_pages a cur) \<subseteq> set (run_pages a n)" unfolding split by simp
  ultimately show ?thesis using m'(2) by blast
qed

lemma free_blocks_ok:
  assumes "impls_wf ms" "group_ok bs" "distinct (group_pages bs)" "set (group_pages bs) \<subseteq> pool_pages p ms"
    "\<forall>b \<in> set (group_pages bs). unowned (mem_state ms b)"
  shows "\<exists>ms' R. free_page_group_blocks bs ms = Some ms' \<and> R \<subseteq> set (group_pages bs) \<and>
    (\<forall>b \<in> set (group_pages bs) - R. behind_seam p ms b) \<and> mem_step R free_page ms ms'"
  using assms
proof (induction bs arbitrary: ms)
  case Nil
  then show ?case using mem_step_refl by (intro exI [of _ ms] exI [of _ "{}"]) (simp add: group_pages_def)
next
  case (Cons b bs)
  let ?R = "set (run_pages (bi_address b) (bi_num_pages b))"
  have g: "group_pages (b # bs) = run_pages (bi_address b) (bi_num_pages b) @ group_pages bs" by (simp add: group_pages_def)
  have b: "bi_ok b" "group_ok bs" using Cons.prems(2) by (simp_all add: group_ok_def)
  have sub: "?R \<subseteq> pool_pages p ms" "\<forall>x \<in> ?R. unowned (mem_state ms x)" using Cons.prems(4,5) g by auto
  from free_first_ok [OF Cons.prems(1) run_of_block [OF b(1)] bi_geometry(4) [OF b(1)] sub] obtain ms1 R1 where
    f: "free_in_first_manager (bi_address b) (bi_num_pages b) ms = Some ms1" "R1 \<subseteq> ?R" "\<forall>x \<in> ?R - R1. behind_seam p ms x"
    and s: "mem_step R1 free_page ms ms1" by blast
  have same: "list_all2 same_impl ms ms1" "impls_wf ms1" using s by (simp_all add: mem_step_def)
  have dis: "?R \<inter> set (group_pages bs) = {}" "distinct (group_pages bs)" using Cons.prems(3) g by auto
  have sub2: "set (group_pages bs) \<subseteq> pool_pages p ms1" using Cons.prems(4) g pool_pages_same [OF same(1)] by simp
  have "unowned (mem_state ms1 x)" if "x \<in> set (group_pages bs)" for x
  proof -
    have "x \<in> pool_pages p ms" "x \<notin> R1" using that Cons.prems(4) g dis(1) f(2) by auto
    then have "x \<in> mem_pages ms" "x \<notin> R1" using pool_pages_sub by blast+
    from mem_step_out [OF s this] show ?thesis using Cons.prems(5) that g by simp
  qed
  then have "\<forall>x \<in> set (group_pages bs). unowned (mem_state ms1 x)" by blast
  from Cons.IH [OF same(2) b(2) dis(2) sub2 this] obtain ms' R where
    r: "free_page_group_blocks bs ms1 = Some ms'" "R \<subseteq> set (group_pages bs)"
    "\<forall>x \<in> set (group_pages bs) - R. behind_seam p ms1 x" "mem_step R free_page ms1 ms'" by blast
  have "mem_step (R1 \<union> R) free_page ms ms'" using mem_step_trans [OF s r(4)] dis(1) f(2) r(2) by blast
  moreover have "\<forall>x \<in> set (group_pages (b # bs)) - (R1 \<union> R). behind_seam p ms x"
    using f(3) r(3) unfolding g behind_seam_same [OF same(1)] by auto
  moreover have "R1 \<union> R \<subseteq> set (group_pages (b # bs))" using f(2) r(2) unfolding g by auto
  ultimately show ?case using f(1) r(1) by (intro exI [of _ ms'] exI [of _ "R1 \<union> R"]) simp
qed

section \<open>The loops\<close>

text \<open>
  The state of the loops relative to the managers \<open>ms0\<close> at the start: the group holds different
  pages of the pool that were free then, and these are what the managers lack now.
\<close>

definition group_inv :: "Impl list \<Rightarrow> Pool \<Rightarrow> nat \<Rightarrow> nat \<Rightarrow> bool \<Rightarrow> group_state \<Rightarrow> bool" where
  "group_inv ms0 p h np hi st \<longleftrightarrow> (case st of (ms, pg, s, remaining) \<Rightarrow>
     group_ok (group_blocks pg) \<and> infos_booked h pg s \<and> has_info_manager pg = hi \<and> distinct (group_pages (group_blocks pg)) \<and>
     (\<forall>b \<in> set (group_pages (group_blocks pg)). b \<in> pool_pages p ms0 \<and> mem_state ms0 b = (0, True)) \<and>
     mem_step (set (group_pages (group_blocks pg))) take_page ms0 ms \<and>
     length (group_pages (group_blocks pg)) + remaining = np)"

text \<open>
  After a failure the pages are as they were, but for some that were free and stay allocated without a
  reference; these are behind a seam.
\<close>

definition kept_behind_seams :: "Pool \<Rightarrow> Impl list \<Rightarrow> Impl list \<Rightarrow> bool" where
  "kept_behind_seams p ms0 ms \<longleftrightarrow> (\<exists>L. L \<subseteq> pool_pages p ms0 \<and>
     (\<forall>b \<in> L. behind_seam p ms0 b \<and> mem_state ms0 b = (0, True)) \<and>
     (\<forall>b \<in> mem_pages ms0. mem_state ms b = (if b \<in> L then (0, False) else mem_state ms0 b)))"

definition undone :: "Impl list \<Rightarrow> Pool \<Rightarrow> nat \<Rightarrow> bool \<Rightarrow> group_state \<Rightarrow> bool" where
  "undone ms0 p h hi st \<longleftrightarrow> (case st of (ms, pg, s, remaining) \<Rightarrow>
     group_blocks pg = [] \<and> infos_booked h pg s \<and> has_info_manager pg = hi \<and> impls_wf ms \<and> list_all2 same_impl ms0 ms \<and>
     kept_behind_seams p ms0 ms)"

lemma undo_ok:
  assumes "group_inv ms0 p h np hi (ms, pg, s, remaining)"
  shows "\<exists>st. undo_group (ms, pg, s, remaining) = Some st \<and> undone ms0 p h hi st"
proof -
  let ?bs = "group_blocks pg"
  let ?G = "set (group_pages ?bs)"
  have i: "group_ok ?bs" "infos_booked h pg s" "has_info_manager pg = hi" "distinct (group_pages ?bs)"
    "\<forall>b \<in> ?G. b \<in> pool_pages p ms0 \<and> mem_state ms0 b = (0, True)" and st: "mem_step ?G take_page ms0 ms"
    using assms by (simp_all add: group_inv_def)
  have same: "list_all2 same_impl ms0 ms" "impls_wf ms" using st by (simp_all add: mem_step_def)
  have sub0: "?G \<subseteq> mem_pages ms0" using i(5) pool_pages_sub by blast
  have "unowned (mem_state ms b)" if "b \<in> ?G" for b
  proof -
    have "b \<in> mem_pages ms0" using sub0 that by blast
    then show ?thesis using st i(5) that by (simp add: mem_step_def unowned_def take_page_def)
  qed
  then have u: "\<forall>b \<in> ?G. unowned (mem_state ms b)" by blast
  have sub: "?G \<subseteq> pool_pages p ms" using i(5) pool_pages_same [OF same(1)] by blast
  from free_blocks_ok [OF same(2) i(1,4) sub u] obtain ms' R where
    f: "free_page_group_blocks ?bs ms = Some ms'" "R \<subseteq> ?G" "\<forall>b \<in> ?G - R. behind_seam p ms b" "mem_step R free_page ms ms'" by blast
  have same': "list_all2 same_impl ms ms'" "impls_wf ms'" using f(4) by (simp_all add: mem_step_def)
  have "mem_state ms' b = (if b \<in> ?G - R then (0, False) else mem_state ms0 b)" if "b \<in> mem_pages ms0" for b
  proof -
    have "b \<in> mem_pages ms" using that same_list(3) [OF same(1)] by simp
    then have "mem_state ms' b = (if b \<in> R then free_page (mem_state ms b) else mem_state ms b)"
      using f(4) by (simp add: mem_step_def)
    moreover have "mem_state ms b = (if b \<in> ?G then take_page (mem_state ms0 b) else mem_state ms0 b)"
      using st that by (simp add: mem_step_def)
    ultimately show ?thesis using f(2) i(5) by (auto simp: free_page_def take_page_def)
  qed
  moreover have "?G - R \<subseteq> pool_pages p ms0" "\<forall>b \<in> ?G - R. behind_seam p ms0 b \<and> mem_state ms0 b = (0, True)"
    using f(3) i(5) unfolding behind_seam_same [OF same(1)] by blast+
  ultimately have restored: "kept_behind_seams p ms0 ms'" unfolding kept_behind_seams_def by blast
  obtain pg' s' where p: "pg_finalize pg s = (pg', s')" by (cases "pg_finalize pg s")
  have q: "group_blocks pg' = []" "has_info_manager pg' = hi" "infos_booked h pg' s'"
    using pg_finalize_ok [OF i(2)] i(3) by (simp_all add: p)
  have "undo_group (ms, pg, s, remaining) = Some (ms', pg', s', remaining)" using f(1) p by (simp add: undo_group_def)
  moreover have "undone ms0 p h hi (ms', pg', s', remaining)"
    using q restored same_list_trans [OF same(1) same'(1)] same'(2) by (simp add: undone_def)
  ultimately show ?thesis by blast
qed

lemma pages_of_level:
  assumes "i < 7"
  shows "\<exists>n. get_block_num_pages i = Some n \<and> 0 < n \<and> n * 4096 = 2 ^ level_shift i"
proof -
  have l: "12 \<le> level_shift i" "level_shift i \<le> 30" using level_shift_bounds [OF assms] by auto
  have len: "length MEMORY_BLOCK_PAGE_SHIFTS = 7" by (simp add: MEMORY_BLOCK_PAGE_SHIFTS_def)
  have s: "shl64 (Suc 0) (level_shift i) = 2 ^ level_shift i" using l(2) by simp
  have e: "(2 :: nat) ^ level_shift i = 2 ^ (level_shift i - 12) * 4096"
    using l(1) power_add [of "2 :: nat" "level_shift i - 12" 12] by simp
  then have "2 ^ level_shift i div 4096 = (2 :: nat) ^ (level_shift i - 12)" by simp
  then have "get_block_num_pages i = Some (2 ^ (level_shift i - 12))"
    using assms s by (simp add: get_block_num_pages_def get_block_size_def len)
  then show ?thesis using e by (intro exI [of _ "2 ^ (level_shift i - 12)"]) simp
qed

text \<open>What one loop leaves behind: no blocks of the level, or fewer pages missing than a block has.\<close>

definition drained :: "nat \<Rightarrow> nat \<Rightarrow> nat list \<Rightarrow> group_state \<Rightarrow> bool" where
  "drained index n js st \<longleftrightarrow> snd (snd (snd st)) < n \<or> (\<forall>i \<in> set js. \<not> some_range (m_heap (fst st ! i)) index)"

text \<open>The outcome of a loop over the managers \<open>is\<close>, started in the state \<open>st\<close>.\<close>

definition loop_result ::
  "Impl list \<Rightarrow> Pool \<Rightarrow> nat \<Rightarrow> nat \<Rightarrow> bool \<Rightarrow> nat \<Rightarrow> nat \<Rightarrow> nat list \<Rightarrow> group_state \<Rightarrow> bool \<Rightarrow> group_state \<Rightarrow> bool" where
  "loop_result ms0 p h np hi index n js st failed st' \<longleftrightarrow>
     (if failed then hi \<and> undone ms0 p h hi st'
      else group_inv ms0 p h np hi st' \<and> snd (snd (snd st')) \<le> snd (snd (snd st)) \<and>
        (\<forall>j. j \<notin> set js \<longrightarrow> fst st' ! j = fst st ! j) \<and> drained index n js st')"

text \<open>A run of the manager that is taken while the group and the managers are in step.\<close>

lemma take_run_facts:
  assumes "group_inv ms0 p h np hi (ms, pg, s, remaining)" "i \<in> set (members p ms0)"
    "takes (m_heap (ms ! i)) {r..<r + n * 4096} k" "4096 dvd r" "0 < n"
  shows "mem_step (set (run_pages r n)) take_page ms (ms[i := (ms ! i)\<lparr>m_heap := k\<rparr>])"
    "\<forall>b \<in> set (run_pages r n). b \<in> pool_pages p ms0 \<and> b \<in> mem_pages ms \<and> mem_state ms b = (0, True) \<and>
      mem_state ms0 b = (0, True) \<and> b \<notin> set (group_pages (group_blocks pg))"
    "impl_start (ms ! i) \<le> r" "r + n * 4096 \<le> impl_end (ms ! i)" "r + n * 4096 < 2 ^ 44"
proof -
  let ?G = "set (group_pages (group_blocks pg))" and ?R = "set (run_pages r n)"
  have inv: "\<forall>b \<in> ?G. b \<in> pool_pages p ms0 \<and> mem_state ms0 b = (0, True)"
    and step: "mem_step ?G take_page ms0 ms" using assms(1) by (simp_all add: group_inv_def)
  have same: "list_all2 same_impl ms0 ms" "impls_wf ms" using step by (simp_all add: mem_step_def)
  have i: "i < length ms" using members_less [OF assms(2)] same_list(1) [OF same(1)] by simp
  have w: "impl_wf (ms ! i)" "heap_wf (m_heap (ms ! i))" "impl_end (ms ! i) < 2 ^ 44"
    using same(2) i by (simp_all add: impls_wf_def impl_wf_def)
  from impl_take_ok [OF w(1) assms(3,4)] have ad: "addr_step ?R take_page (ms ! i) ((ms ! i)\<lparr>m_heap := k\<rparr>)"
    and old: "\<forall>b \<in> ?R. b \<in> impl_pages (ms ! i) \<and> page_state (ms ! i) b = (0, True)" by blast+
  then have sub: "?R \<subseteq> impl_pages (ms ! i)" by blast
  show "mem_step ?R take_page ms (ms[i := (ms ! i)\<lparr>m_heap := k\<rparr>])" by (rule step_at [OF same(2) i ad sub])
  show "\<forall>b \<in> ?R. b \<in> pool_pages p ms0 \<and> b \<in> mem_pages ms \<and> mem_state ms b = (0, True) \<and>
      mem_state ms0 b = (0, True) \<and> b \<notin> ?G"
  proof
    fix b assume b: "b \<in> ?R"
    have free: "mem_state ms b = (0, True)" using old mem_state_owner [OF same(2) i] b by simp
    have pp: "b \<in> pool_pages p ms0"
      using b sub assms(2) same_implD(3) [OF same_list(2) [OF same(1) members_less [OF assms(2)]]]
      by (auto simp: pool_pages_def)
    then have mp: "b \<in> mem_pages ms0" using pool_pages_sub by blast
    have out: "b \<notin> ?G"
    proof
      assume "b \<in> ?G"
      then have "mem_state ms b = (0, False)" using step inv mp by (auto simp: mem_step_def take_page_def)
      then show False using free by simp
    qed
    then have "mem_state ms0 b = (0, True)" using mem_step_out [OF step mp] free by simp
    then show "b \<in> pool_pages p ms0 \<and> b \<in> mem_pages ms \<and> mem_state ms b = (0, True) \<and>
      mem_state ms0 b = (0, True) \<and> b \<notin> ?G"
      using pp mp free out same_list(3) [OF same(1)] by simp
  qed
  have "{r..<r + n * 4096} \<subseteq> {impl_start (ms ! i)..<impl_end (ms ! i)}"
    using assms(3) w(2) unfolding takes_def heap_wf_def by blast
  then show run: "impl_start (ms ! i) \<le> r" "r + n * 4096 \<le> impl_end (ms ! i)"
    using interval_sub [of "n * 4096" r] assms(5) by simp_all
  then show "r + n * 4096 < 2 ^ 44" using w(3) by linarith
qed

lemma take_run_inv:
  assumes "group_inv ms0 p h np hi (ms, pg, s, remaining)" "i \<in> set (members p ms0)"
    "takes (m_heap (ms ! i)) {r..<r + n * 4096} k" "4096 dvd r" "0 < n" "n \<le> remaining"
    "add_block r n pg s = Some (True, pg', s')"
  shows "group_inv ms0 p h np hi (ms[i := (ms ! i)\<lparr>m_heap := k\<rparr>], pg', s', remaining - n)"
proof -
  let ?G = "set (group_pages (group_blocks pg))"
  note f = take_run_facts [OF assms(1-5)]
  have inv: "group_ok (group_blocks pg)" "infos_booked h pg s" "has_info_manager pg = hi" "distinct (group_pages (group_blocks pg))"
    "\<forall>b \<in> ?G. b \<in> pool_pages p ms0 \<and> mem_state ms0 b = (0, True)" "length (group_pages (group_blocks pg)) + remaining = np"
    and step: "mem_step ?G take_page ms0 ms" using assms(1) by (simp_all add: group_inv_def)
  have b: "group_ok (group_blocks pg')" "infos_booked h pg' s'" "has_info_manager pg' = has_info_manager pg"
    "group_pages (group_blocks pg') = group_pages (group_blocks pg) @ run_pages r n"
    using add_block_ok [OF inv(1,2) assms(4,5) f(5)] assms(7) by auto
  have "distinct (run_pages r n)" by (auto simp: run_pages_def distinct_map inj_on_def)
  moreover have "mem_step (?G \<union> set (run_pages r n)) take_page ms0 (ms[i := (ms ! i)\<lparr>m_heap := k\<rparr>])"
    using mem_step_trans [OF step f(1)] f(2) by blast
  ultimately show ?thesis using inv(3-6) b f(2) assms(6) by (auto simp: group_inv_def)
qed

text \<open>Where the manager has no such run, only its random state changes.\<close>

lemma take_none_ok:
  assumes "index < 7" "group_inv ms0 p h np hi (ms, pg, s, remaining)" "i \<in> set (members p ms0)"
    "\<not> some_range (m_heap (ms ! i)) index"
  shows "\<exists>ms'. take_blocks index n random i (ms, pg, s, remaining) = Some (False, (ms', pg, s, remaining)) \<and>
    group_inv ms0 p h np hi (ms', pg, s, remaining) \<and> (\<forall>j. j \<noteq> i \<longrightarrow> ms' ! j = ms ! j) \<and>
    \<not> some_range (m_heap (ms' ! i)) index"
proof -
  let ?G = "set (group_pages (group_blocks pg))"
  have step: "mem_step ?G take_page ms0 ms" using assms(2) by (simp add: group_inv_def)
  have same: "list_all2 same_impl ms0 ms" "impls_wf ms" using step by (simp_all add: mem_step_def)
  have i: "i < length ms" using members_less [OF assms(3)] same_list(1) [OF same(1)] by simp
  have w: "impl_wf (ms ! i)" "heap_wf (m_heap (ms ! i))" using same(2) i by (simp_all add: impls_wf_def impl_wf_def)
  show ?thesis
  proof (cases "n \<le> remaining")
    case False
    then have "take_blocks index n random i (ms, pg, s, remaining) = Some (False, (ms, pg, s, remaining))"
      by (subst take_blocks.simps) simp
    then show ?thesis using assms(2,4) by blast
  next
    case True
    obtain r k where a: "allocate_block (int index) random (m_heap (ms ! i)) = Some (r, k)"
      "r = 0" "takes (m_heap (ms ! i)) {} k" using block_alloc_ok [OF w(2) assms(1), of random] assms(4) by auto
    let ?m = "(ms ! i)\<lparr>m_heap := k\<rparr>"
    have t: "takes (m_heap (ms ! i)) {0..<0 + 0 * 4096} k" using a(3) by simp
    have "addr_step {} take_page (ms ! i) ?m" using impl_take_ok [OF w(1) t] by (simp add: run_pages_def)
    from step_at [OF same(2) i this] have "mem_step {} take_page ms (ms[i := ?m])" by simp
    from mem_step_trans [OF step this] have "mem_step ?G take_page ms0 (ms[i := ?m])" by simp
    then have "group_inv ms0 p h np hi (ms[i := ?m], pg, s, remaining)" using assms(2) by (simp add: group_inv_def)
    moreover have "free_bytes k = free_bytes (m_heap (ms ! i))" using a(3) by (simp add: takes_def)
    then have "\<not> some_range k index" using assms(4) by (simp add: some_range_def)
    moreover have "take_blocks index n random i (ms, pg, s, remaining) = Some (False, (ms[i := ?m], pg, s, remaining))"
      using True i a(1,2) by (subst take_blocks.simps) (simp add: nth_opt_def Let_def)
    ultimately show ?thesis using i by (intro exI [of _ "ms[i := ?m]"]) simp
  qed
qed

text \<open>A run that the group has no room for goes back to its manager before everything is undone.\<close>

lemma give_back_ok:
  assumes "group_inv ms0 p h np hi (ms, pg, s, remaining)" "i \<in> set (members p ms0)"
    "takes (m_heap (ms ! i)) {r..<r + n * 4096} k" "4096 dvd r" "0 < n"
    "infos_booked h pg s'"
  shows "\<exists>m'. impl_free r n ((ms ! i)\<lparr>m_heap := k\<rparr>) = Some m' \<and>
    group_inv ms0 p h np hi (ms[i := m'], pg, s', remaining)"
proof -
  let ?G = "set (group_pages (group_blocks pg))" and ?R = "set (run_pages r n)" and ?m = "(ms ! i)\<lparr>m_heap := k\<rparr>"
  let ?ms = "ms[i := ?m]"
  note f = take_run_facts [OF assms(1-5)]
  have step: "mem_step ?G take_page ms0 ms" using assms(1) by (simp add: group_inv_def)
  have same: "list_all2 same_impl ms0 ms" using step by (simp add: mem_step_def)
  have i: "i < length ms" using members_less [OF assms(2)] same_list(1) [OF same] by simp
  have wf1: "impls_wf ?ms" and sm1: "list_all2 same_impl ms ?ms" using f(1) by (simp_all add: mem_step_def)
  have i1: "i < length ?ms" using i by simp
  have run1: "impl_start (?ms ! i) \<le> r" "r + n * 4096 \<le> impl_end (?ms ! i)"
    using f(3,4) same_implD(1,2) [OF same_list(2) [OF sm1 i]] by simp_all
  have u: "\<forall>b \<in> ?R. unowned (mem_state ?ms b)"
    using f(1,2) by (auto simp: mem_step_def unowned_def take_page_def)
  from frees.on_manager [OF wf1 i1 assms(4) run1 u] obtain m' where
    m': "impl_free r n (?ms ! i) = Some m'" "mem_step ?R free_page ?ms (?ms[i := m'])" by blast
  have "mem_step ?R free_page ?ms (ms[i := m'])" using m'(2) by simp
  from mem_step_then [OF f(1) this] have s2: "mem_step ?R (free_page \<circ> take_page) ms (ms[i := m'])" .
  have "mem_state (ms[i := m']) b = mem_state ms b" if "b \<in> mem_pages ms" for b
    using s2 that f(2) by (auto simp: mem_step_def free_page_def take_page_def)
  then have "mem_step {} take_page ms (ms[i := m'])" using s2 by (simp add: mem_step_def)
  from mem_step_trans [OF step this] have "mem_step ?G take_page ms0 (ms[i := m'])" by simp
  then show ?thesis using m'(1) assms(1,6) i by (simp add: group_inv_def)
qed

lemma take_blocks_ok:
  assumes "index < 7" "0 < n" "n * 4096 = 2 ^ level_shift index" "i \<in> set (members p ms0)"
    "group_inv ms0 p h np hi st"
  shows "\<exists>failed st'. take_blocks index n random i st = Some (failed, st') \<and> loop_result ms0 p h np hi index n [i] st failed st'"
  using assms(5)
proof (induction "snd (snd (snd st))" arbitrary: st rule: less_induct)
  case less
  obtain ms pg s remaining where st: "st = (ms, pg, s, remaining)" by (cases st)
  note g = less.prems [unfolded st]
  have inv: "group_ok (group_blocks pg)" "infos_booked h pg s" "has_info_manager pg = hi"
    and same: "list_all2 same_impl ms0 ms" "impls_wf ms" using g by (simp_all add: group_inv_def mem_step_def)
  have i: "i < length ms" using members_less [OF assms(4)] same_list(1) [OF same(1)] by simp
  have w: "heap_wf (m_heap (ms ! i))" using same(2) i by (simp add: impls_wf_def impl_wf_def)
  show ?case
  proof (cases "n \<le> remaining \<and> some_range (m_heap (ms ! i)) index")
    case False
    show ?thesis
    proof (cases "n \<le> remaining")
      case True
      with False obtain ms' where "take_blocks index n random i st = Some (False, (ms', pg, s, remaining))"
        "group_inv ms0 p h np hi (ms', pg, s, remaining)" "\<forall>j. j \<noteq> i \<longrightarrow> ms' ! j = ms ! j"
        "\<not> some_range (m_heap (ms' ! i)) index"
        using take_none_ok [OF assms(1) g assms(4)] unfolding st by blast
      then show ?thesis
        by (intro exI [of _ False] exI [of _ "(ms', pg, s, remaining)"]) (simp add: loop_result_def drained_def st)
    next
      case False
      then have "take_blocks index n random i st = Some (False, st)" by (subst take_blocks.simps) (simp add: st)
      then show ?thesis using less.prems False
        by (intro exI [of _ False] exI [of _ st]) (simp add: loop_result_def drained_def st)
    qed
  next
    case True
    then obtain r k where a: "allocate_block (int index) random (m_heap (ms ! i)) = Some (r, k)"
      and r: "r \<noteq> 0" "2 ^ level_shift index dvd r" "takes (m_heap (ms ! i)) {r..<r + n * 4096} k"
      using block_alloc_ok [OF w assms(1)] unfolding assms(3) by metis
    have d: "4096 dvd r" using r(2) unfolding assms(3) [symmetric] by (rule dvd_mult_right)
    note f = take_run_facts [OF g assms(4) r(3) d assms(2)]
    from add_block_ok [OF inv(1,2) d assms(2) f(5)] obtain ok pg' s' where
      b: "add_block r n pg s = Some (ok, pg', s')" "infos_booked h pg' s'" "\<not> ok \<longrightarrow> pg' = pg \<and> s \<noteq> None" by blast
    show ?thesis
    proof (cases ok)
      case ok: True
      let ?st = "(ms[i := (ms ! i)\<lparr>m_heap := k\<rparr>], pg', s', remaining - n)"
      have "group_inv ms0 p h np hi ?st" using take_run_inv [OF g assms(4) r(3) d assms(2)] True b(1) ok by simp
      moreover have "snd (snd (snd ?st)) < snd (snd (snd st))" using True assms(2) by (simp add: st)
      ultimately obtain failed st' where r': "take_blocks index n random i ?st = Some (failed, st')"
        "loop_result ms0 p h np hi index n [i] ?st failed st'" using less.hyps by blast
      have "take_blocks index n random i st = Some (failed, st')"
        using True i a r(1) b(1) ok r'(1) by (subst take_blocks.simps) (simp add: st nth_opt_def Let_def)
      moreover have "loop_result ms0 p h np hi index n [i] st failed st'"
        using r'(2) by (auto simp: loop_result_def st)
      ultimately show ?thesis by blast
    next
      case False
      then have pg: "pg' = pg" "s \<noteq> None" using b(3) by blast+
      then have hi: "hi" using inv(2,3) by (simp add: infos_booked_def)
      from give_back_ok [OF g assms(4) r(3) d assms(2), of s'] b(2) pg(1) obtain m' where
        m: "impl_free r n ((ms ! i)\<lparr>m_heap := k\<rparr>) = Some m'" "group_inv ms0 p h np hi (ms[i := m'], pg, s', remaining)" by blast
      from undo_ok [OF m(2)] obtain st' where u: "undo_group (ms[i := m'], pg, s', remaining) = Some st'" "undone ms0 p h hi st'" by blast
      have "take_blocks index n random i st = Some (True, st')"
        using True i a r(1) b(1) False m(1) u(1) pg(1)
        by (subst take_blocks.simps) (simp add: st nth_opt_def Let_def)
      then show ?thesis using u(2) hi by (intro exI [of _ True] exI [of _ st']) (simp add: loop_result_def)
    qed
  qed
qed

lemma group_inv_same: "group_inv ms0 p h np hi st \<Longrightarrow> list_all2 same_impl ms0 (fst st)"
  by (auto simp: group_inv_def mem_step_def)

lemma take_from_pool_ok:
  assumes "index < 7" "0 < n" "n * 4096 = 2 ^ level_shift index" "set js \<subseteq> set (members p ms0)" "distinct js"
    "linked (\<lambda>i. impl_link dir (ms0 ! i)) cur js" "group_inv ms0 p h np hi st"
  shows "\<exists>failed st'. take_from_pool dir index n random cur st = Some (failed, st') \<and>
    loop_result ms0 p h np hi index n js st failed st'"
  using assms(4-)
proof (induction js arbitrary: cur st)
  case Nil
  then have "take_from_pool dir index n random cur st = Some (False, st)" by (subst take_from_pool.simps) simp
  then show ?case using Nil.prems(4) by (intro exI [of _ False] exI [of _ st]) (simp add: loop_result_def drained_def)
next
  case (Cons i js)
  have i: "i \<in> set (members p ms0)" "i < length ms0" "cur = Some i" "i \<notin> set js" "distinct js"
    "linked (\<lambda>i. impl_link dir (ms0 ! i)) (impl_link dir (ms0 ! i)) js" "set js \<subseteq> set (members p ms0)"
    using Cons.prems by (auto simp: members_set)
  from take_blocks_ok [OF assms(1-3) i(1) Cons.prems(4)] obtain failed st1 where
    t: "take_blocks index n random i st = Some (failed, st1)" "loop_result ms0 p h np hi index n [i] st failed st1" by blast
  show ?case
  proof (cases failed)
    case True
    then have "take_from_pool dir index n random cur st = Some (True, st1)" using i(3) t(1) by (subst take_from_pool.simps) simp
    then show ?thesis using t(2) True by (intro exI [of _ True] exI [of _ st1]) (auto simp: loop_result_def)
  next
    case False
    then have r: "group_inv ms0 p h np hi st1" "snd (snd (snd st1)) \<le> snd (snd (snd st))"
      "\<forall>j. j \<notin> set [i] \<longrightarrow> fst st1 ! j = fst st ! j" "drained index n [i] st1" using t(2) by (simp_all add: loop_result_def)
    have same: "list_all2 same_impl ms0 (fst st1)" by (rule group_inv_same [OF r(1)])
    have "i < length (fst st1)" using i(2) same_list(1) [OF same] by simp
    then have nx: "get_next_manager dir i (fst st1) = Some (impl_link dir (ms0 ! i))"
      using next_manager same_members(2) [OF same i(2)] by simp
    from Cons.IH [OF i(7,5,6) r(1)] obtain failed2 st2 where
      t2: "take_from_pool dir index n random (impl_link dir (ms0 ! i)) st1 = Some (failed2, st2)"
      "loop_result ms0 p h np hi index n js st1 failed2 st2" by blast
    have "take_from_pool dir index n random cur st = Some (failed2, st2)"
      using i(3) t(1) False nx t2(1) by (subst take_from_pool.simps) simp
    moreover have "loop_result ms0 p h np hi index n (i # js) st failed2 st2"
    proof (cases failed2)
      case True
      then show ?thesis using t2(2) by (auto simp: loop_result_def)
    next
      case f2: False
      then have r2: "group_inv ms0 p h np hi st2" "snd (snd (snd st2)) \<le> snd (snd (snd st1))"
        "\<forall>j. j \<notin> set js \<longrightarrow> fst st2 ! j = fst st1 ! j" "drained index n js st2" using t2(2) by (simp_all add: loop_result_def)
      have "fst st2 ! i = fst st1 ! i" using r2(3) i(4) by blast
      then have "drained index n (i # js) st2" using r(4) r2(2,4) by (auto simp: drained_def)
      moreover have "\<forall>j. j \<notin> set (i # js) \<longrightarrow> fst st2 ! j = fst st ! j" using r(3) r2(3) by simp
      moreover have "snd (snd (snd st2)) \<le> snd (snd (snd st))" using r2(2) r(2) by (rule le_trans)
      ultimately show ?thesis using r2(1) f2 by (simp add: loop_result_def)
    qed
    ultimately show ?thesis by blast
  qed
qed

lemma take_levels_ok:
  assumes "n \<le> 7" "set js \<subseteq> set (members p ms0)" "distinct js" "linked (\<lambda>i. impl_link dir (ms0 ! i)) cur js"
    "group_inv ms0 p h np hi st"
  shows "\<exists>failed st'. take_levels dir random cur n st = Some (failed, st') \<and>
    (if failed then hi \<and> undone ms0 p h hi st'
     else group_inv ms0 p h np hi st' \<and> (0 < n \<longrightarrow> drained 0 1 js st'))"
  using assms(1,5)
proof (induction n arbitrary: st)
  case 0
  then show ?case by (intro exI [of _ False] exI [of _ st]) simp
next
  case (Suc index)
  show ?case
  proof (cases "snd (snd (snd st)) = 0")
    case True
    then show ?thesis using Suc.prems(2) by (intro exI [of _ False] exI [of _ st]) (simp add: drained_def)
  next
    case False
    have ix: "index < 7" using Suc.prems(1) by simp
    from pages_of_level [OF ix] obtain k where k: "get_block_num_pages index = Some k" "0 < k" "k * 4096 = 2 ^ level_shift index" by blast
    from take_from_pool_ok [OF ix k(2,3) assms(2-4) Suc.prems(2)] obtain failed st1 where
      t: "take_from_pool dir index k random cur st = Some (failed, st1)" "loop_result ms0 p h np hi index k js st failed st1" by blast
    show ?thesis
    proof (cases failed)
      case True
      then show ?thesis using t k(1) False
        by (intro exI [of _ True] exI [of _ st1]) (auto simp: loop_result_def)
    next
      case nf: False
      then have r: "group_inv ms0 p h np hi st1" "drained index k js st1" using t(2) by (simp_all add: loop_result_def)
      from Suc.IH [OF _ r(1)] ix obtain failed2 st2 where t2: "take_levels dir random cur index st1 = Some (failed2, st2)"
        "if failed2 then hi \<and> undone ms0 p h hi st2 else group_inv ms0 p h np hi st2 \<and> (0 < index \<longrightarrow> drained 0 1 js st2)" by auto
      have e: "take_levels dir random cur (Suc index) st = Some (failed2, st2)" using False k(1) t(1) nf t2(1) by simp
      show ?thesis
      proof (cases "index = 0")
        case True
        then have "st2 = st1" "\<not> failed2" using t2(1) by auto
        moreover have "k = 1" using k(3) True by simp
        ultimately show ?thesis using e r True by (intro exI [of _ False] exI [of _ st1]) auto
      next
        case ne: False
        then show ?thesis using e t2(2) by (intro exI [of _ failed2] exI [of _ st2]) auto
      qed
    qed
  qed
qed

lemma last_index_ok: "0 < n \<Longrightarrow> n \<le> 7 \<Longrightarrow> 0 < np \<Longrightarrow> \<exists>i < n. last_index n np = int i"
proof (induction n)
  case (Suc n)
  show ?case
  proof (cases "n = 0")
    case True
    have "shl64 1 (MEMORY_BLOCK_PAGE_SHIFTS ! 0) div 4096 = 1" by (simp add: MEMORY_BLOCK_PAGE_SHIFTS_def)
    then show ?thesis using True Suc.prems(3) by (intro exI [of _ 0]) simp
  next
    case False
    then obtain i where "i < n" "last_index n np = int i" using Suc by auto
    then show ?thesis by (cases "shl64 1 (MEMORY_BLOCK_PAGE_SHIFTS ! n) div 4096 \<le> np") (auto intro: less_SucI)
  qed
qed simp

lemma block_index_ok: "0 < np \<Longrightarrow> \<exists>i < 7. get_block_index np = int i"
  using last_index_ok [of 7 np] by (simp add: get_block_index_def MEMORY_BLOCK_PAGE_SHIFTS_def)

text \<open>The whole allocation, on the managers.\<close>

definition group_result ::
  "Impl list \<Rightarrow> Pool \<Rightarrow> nat \<Rightarrow> nat \<Rightarrow> bool \<Rightarrow> nat \<Rightarrow> Impl list \<Rightarrow> KPageGroup \<Rightarrow> info_manager option \<Rightarrow> bool" where
  "group_result ms0 p h np hi rc ms pg s \<longleftrightarrow>
     (if rc = 0 then group_inv ms0 p h np hi (ms, pg, s, 0) else rc = RESULT_OUT_OF_MEMORY \<and> undone ms0 p h hi (ms, pg, s, 0)) \<and>
     (\<not> hi \<longrightarrow> (rc = 0 \<longleftrightarrow> np \<le> card {b \<in> pool_pages p ms0. snd (mem_state ms0 b)}))"

lemma out_of_memory_nonzero: "RESULT_OUT_OF_MEMORY \<noteq> 0"
  by (simp add: RESULT_OUT_OF_MEMORY_def from_module_description_def)

lemma finite_pool_pages: "impls_wf ms \<Longrightarrow> finite (pool_pages p ms)"
  unfolding pool_pages_def by (intro finite_UN_I) (auto simp: members_set impls_wf_def impl_pages_image)

text \<open>When no block of one page is left and pages are missing, the pool had too few free pages.\<close>

lemma too_few_pages:
  assumes "impls_wf ms0" "group_inv ms0 p h np hi (ms, pg, s, remaining)" "remaining \<noteq> 0"
    "drained 0 1 js (ms, pg, s, remaining)" "set js = set (members p ms0)"
  shows "card {b \<in> pool_pages p ms0. snd (mem_state ms0 b)} < np"
proof -
  let ?G = "set (group_pages (group_blocks pg))"
  have g: "distinct (group_pages (group_blocks pg))" "length (group_pages (group_blocks pg)) + remaining = np"
    and step: "mem_step ?G take_page ms0 ms" using assms(2) by (simp_all add: group_inv_def)
  have same: "list_all2 same_impl ms0 ms" "impls_wf ms" using step by (simp_all add: mem_step_def)
  have "{b \<in> pool_pages p ms0. snd (mem_state ms0 b)} \<subseteq> ?G"
  proof
    fix b assume "b \<in> {b \<in> pool_pages p ms0. snd (mem_state ms0 b)}"
    then obtain i where i: "i \<in> set (members p ms0)" "b \<in> impl_pages (ms0 ! i)" and f: "snd (mem_state ms0 b)" by (auto simp: pool_pages_def)
    have l: "i < length ms0" using i(1) by (simp add: members_set)
    then have li: "i < length ms" using same_list(1) [OF same(1)] by simp
    have bi: "b \<in> impl_pages (ms ! i)" using i(2) same_implD(3) [OF same_list(2) [OF same(1) l]] by simp
    have bm: "b \<in> mem_pages ms0" using i(2) l mem_pages_index by blast
    show "b \<in> ?G"
    proof (rule ccontr)
      assume "b \<notin> ?G"
      from mem_step_out [OF step bm this] f have "snd (mem_state ms b)" by simp
      then have fb: "b \<in> free_bytes (m_heap (ms ! i))" using mem_state_owner [OF same(2) li bi] by (simp add: page_state_def)
      have "heap_wf (m_heap (ms ! i))" using same(2) li by (simp add: impls_wf_def impl_wf_def)
      from free_page_whole [OF this fb] have "{b..<b + 4096} \<subseteq> free_bytes (m_heap (ms ! i))"
        using bi by (simp add: impl_pages_def dvd_eq_mod_eq_0)
      then have "some_range (m_heap (ms ! i)) 0" unfolding some_range_def using bi by (intro exI [of _ b]) (simp add: impl_pages_def)
      then show False using assms(3-5) i(1) by (simp add: drained_def)
    qed
  qed
  from card_mono [OF _ this] show ?thesis using g assms(3) by (simp add: distinct_card)
qed

lemma allocate_group_ok:
  assumes "impls_wf ms0" "set js = set (members p ms0)" "distinct js" "linked (\<lambda>i. impl_link dir (ms0 ! i)) cur js" "0 < np"
    "group_blocks pg = []" "infos_booked h pg s" "has_info_manager pg = hi"
  shows "\<exists>rc ms pg' s'. allocate_page_group_impl cur dir np random ms0 pg s = Some (rc, ms, pg', s') \<and>
    group_result ms0 p h np hi rc ms pg' s'"
proof -
  have inv: "group_inv ms0 p h np hi (ms0, pg, s, np)"
    using assms(6-8) mem_step_refl [OF assms(1)] by (simp add: group_inv_def group_ok_def group_pages_def)
  obtain i where i: "i < 7" "get_block_index np = int i" using block_index_ok [OF assms(5)] by blast
  have "Suc i \<le> 7" using i(1) by simp
  moreover have "set js \<subseteq> set (members p ms0)" using assms(2) by simp
  ultimately obtain failed st where
    t: "take_levels dir random cur (Suc i) (ms0, pg, s, np) = Some (failed, st)" and
    t': "if failed then hi \<and> undone ms0 p h hi st
      else group_inv ms0 p h np hi st \<and> (0 < Suc i \<longrightarrow> drained 0 1 js st)"
    using take_levels_ok [OF _ _ assms(3,4) inv] by blast
  obtain ms pg' s' remaining where st: "st = (ms, pg', s', remaining)" by (cases st)
  have unf: "allocate_page_group_impl cur dir np random ms0 pg s =
      (if failed then Some (RESULT_OUT_OF_MEMORY, ms, pg', s')
       else if remaining \<noteq> 0 then do { (ms, pg, s, remaining) \<leftarrow> undo_group st; Some (RESULT_OUT_OF_MEMORY, ms, pg, s) }
       else Some (0, ms, pg', s'))"
    using i(2) t by (simp add: allocate_page_group_impl_def st del: take_levels.simps)
  show ?thesis
  proof (cases failed)
    case True
    then have "hi" "undone ms0 p h hi (ms, pg', s', 0)" using t' by (auto simp: st undone_def)
    then have "group_result ms0 p h np hi RESULT_OUT_OF_MEMORY ms pg' s'" using out_of_memory_nonzero by (simp add: group_result_def)
    then show ?thesis using unf True by auto
  next
    case False
    then have g: "group_inv ms0 p h np hi (ms, pg', s', remaining)" "drained 0 1 js (ms, pg', s', remaining)" using t' st by auto
    show ?thesis
    proof (cases "remaining = 0")
      case True
      have "np \<le> card {b \<in> pool_pages p ms0. snd (mem_state ms0 b)}"
      proof -
        let ?G = "set (group_pages (group_blocks pg'))"
        have "?G \<subseteq> {b \<in> pool_pages p ms0. snd (mem_state ms0 b)}" "card ?G = np"
          using g(1) True by (auto simp: group_inv_def distinct_card)
        moreover have "finite {b \<in> pool_pages p ms0. snd (mem_state ms0 b)}" using finite_pool_pages [OF assms(1)] by simp
        ultimately show ?thesis using card_mono by metis
      qed
      then have "group_result ms0 p h np hi 0 ms pg' s'" using g(1) True by (simp add: group_result_def)
      then show ?thesis using unf False True by simp
    next
      case rem: False
      from undo_ok [OF g(1)] obtain st' where u: "undo_group st = Some st'" "undone ms0 p h hi st'" unfolding st by blast
      obtain ms2 pg2 s2 r2 where st': "st' = (ms2, pg2, s2, r2)" by (cases st')
      have "undone ms0 p h hi (ms2, pg2, s2, 0)" using u(2) by (simp add: st' undone_def)
      moreover have "\<not> np \<le> card {b \<in> pool_pages p ms0. snd (mem_state ms0 b)}"
        using too_few_pages [OF assms(1) g(1) rem g(2) assms(2)] by simp
      ultimately have "group_result ms0 p h np hi RESULT_OUT_OF_MEMORY ms2 pg2 s2" using out_of_memory_nonzero by (simp add: group_result_def)
      then show ?thesis using unf False rem u(1) st' by auto
    qed
  qed
qed

lemma open_blocks_eq:
  "over_blocks (\<lambda>a n mm. do { ms \<leftarrow> over_managers impl_open_first a n (managers mm); Some (mm\<lparr>managers := ms\<rparr>) }) bs mm =
   do { ms \<leftarrow> open_blocks bs (managers mm); Some (mm\<lparr>managers := ms\<rparr>) }"
proof (induction bs arbitrary: mm)
  case Nil
  have "mm\<lparr>managers := managers mm\<rparr> = mm" by simp
  then show ?case by simp
next
  case (Cons b bs)
  then show ?case by (cases "over_managers impl_open_first (bi_address b) (bi_num_pages b) (managers mm)") simp_all
qed

lemma open_blocks_ok:
  assumes "mm_wf mm" "group_ok bs" "distinct (group_pages bs)" "set (group_pages bs) \<subseteq> mem_pages (managers mm)"
    "\<forall>b \<in> set (group_pages bs). can_open (mem_state (managers mm) b)"
  shows "\<exists>ms. open_blocks bs (managers mm) = Some ms \<and> mem_step (set (group_pages bs)) open_page (managers mm) ms"
proof -
  let ?F = "\<lambda>a n mm. do { ms \<leftarrow> over_managers impl_open_first a n (managers mm); Some (mm\<lparr>managers := ms\<rparr>) }"
  have F: "\<exists>ms. ?F a n mm = Some (mm\<lparr>managers := ms\<rparr>) \<and> mem_step (set (run_pages a n)) open_page (managers mm) ms"
    if "mm_wf mm" "4096 dvd a" "set (run_pages a n) \<subseteq> mem_pages (managers mm)"
      "\<forall>b \<in> set (run_pages a n). can_open (mem_state (managers mm) b)" for a n and mm :: KMemoryManager
    using opens.over_managers_ok [OF _ that(2-4)] that(1) by (auto simp: mm_wf_def open_first_eq)
  from over_blocks_ok [where F = ?F and ok = can_open and u = open_page, OF F assms] obtain ms where
    "over_blocks ?F bs mm = Some (mm\<lparr>managers := ms\<rparr>)" "mem_step (set (group_pages bs)) open_page (managers mm) ms" by blast
  moreover have "x = y" if "mm\<lparr>managers := x\<rparr> = mm\<lparr>managers := y\<rparr>" for x y
    using arg_cong [OF that, of managers] by simp
  ultimately show ?thesis unfolding open_blocks_eq by (cases "open_blocks bs (managers mm)") auto
qed

text \<open>The pages of a complete group are opened once.\<close>

lemma open_taken_ok:
  assumes "mm_wf mm" "group_result (managers mm) p h np im 0 ms pg s"
  shows "\<exists>ms2. open_blocks (group_blocks pg) ms = Some ms2 \<and> mm_wf (mm\<lparr>managers := ms2\<rparr>) \<and>
    length (group_pages (group_blocks pg)) = np \<and> distinct (group_pages (group_blocks pg)) \<and>
    (\<forall>b \<in> set (group_pages (group_blocks pg)). b \<in> pool_pages p (managers mm) \<and> mem_state (managers mm) b = (0, True)) \<and>
    (\<forall>b \<in> mem_pages (managers mm). mem_state ms2 b =
       (if b \<in> set (group_pages (group_blocks pg)) then (1, False) else mem_state (managers mm) b))"
proof -
  let ?ms = "managers mm" and ?G = "set (group_pages (group_blocks pg))"
  have g: "group_ok (group_blocks pg)" "distinct (group_pages (group_blocks pg))"
    "\<forall>b \<in> ?G. b \<in> pool_pages p ?ms \<and> mem_state ?ms b = (0, True)" "length (group_pages (group_blocks pg)) = np"
    and step: "mem_step ?G take_page ?ms ms" using assms(2) by (simp_all add: group_result_def group_inv_def)
  have same: "list_all2 same_impl ?ms ms" using step by (simp add: mem_step_def)
  have w1: "mm_wf (mm\<lparr>managers := ms\<rparr>)" by (rule mm_wf_step [OF assms(1) step])
  have sub: "?G \<subseteq> mem_pages ?ms" using g(3) pool_pages_sub by blast
  then have sub1: "?G \<subseteq> mem_pages (managers (mm\<lparr>managers := ms\<rparr>))" using same_list(3) [OF same] by simp
  have "can_open (mem_state ms b)" if "b \<in> ?G" for b
  proof -
    have "b \<in> mem_pages ?ms" using sub that by blast
    then show ?thesis using step g(3) that by (simp add: mem_step_def can_open_def take_page_def)
  qed
  then have "\<forall>b \<in> ?G. can_open (mem_state (managers (mm\<lparr>managers := ms\<rparr>)) b)" by simp
  from open_blocks_ok [OF w1 g(1,2) sub1 this] obtain ms2 where
    o: "open_blocks (group_blocks pg) ms = Some ms2" "mem_step ?G open_page ms ms2" by auto
  have st: "mem_step ?G (open_page \<circ> take_page) ?ms ms2" by (rule mem_step_then [OF step o(2)])
  have "mem_state ms2 b = (if b \<in> ?G then (1, False) else mem_state ?ms b)" if "b \<in> mem_pages ?ms" for b
    using st that g(3) by (simp add: mem_step_def open_page_def take_page_def)
  then show ?thesis using o(1) g mm_wf_step [OF assms(1) st] by (intro exI [of _ ms2]) simp
qed

text \<open>
  C21: Allocation of a page group from any pool in either direction, with the group empty and its
  block info manager well-formed, if it has one. The call never panics and all its loops end. On
  success the group holds exactly the asked number of different pages; they belong to the pool, were
  free and without references, and now have one reference each, and no other page changes. On
  failure the answer is out-of-memory, the group is empty and all its nodes are returned, but not every
  page: pages behind a seam, where a manager of the pool begins at the end of another, can stay
  allocated without a reference (\<open>failed_allocation_keeps_page\<close>); all others are as they were. Without
  a block info manager it succeeds exactly if the pool has that many free pages, however scattered.
\<close>

theorem allocate_and_open_exact:
  assumes "mm_wf mm" "p \<noteq> Count" "0 < np" "pg_is_empty pg" "has_info_manager pg = (s \<noteq> None)"
    "case s of None \<Rightarrow> True | Some m \<Rightarrow> rm_wf 0x10 m"
  shows "\<exists>rc mm' pg' s'. allocate_and_open np (encode_option p dir) mm pg s = Some (rc, mm', pg', s') \<and> mm_wf mm' \<and>
    (rc = 0 \<longrightarrow> length (group_pages (group_blocks pg')) = np \<and> distinct (group_pages (group_blocks pg')) \<and>
       (\<forall>b \<in> set (group_pages (group_blocks pg')). b \<in> pool_pages p (managers mm) \<and> mem_state (managers mm) b = (0, True)) \<and>
       (\<forall>b \<in> mem_pages (managers mm). mem_state (managers mm') b =
          (if b \<in> set (group_pages (group_blocks pg')) then (1, False) else mem_state (managers mm) b))) \<and>
    (rc \<noteq> 0 \<longrightarrow> rc = RESULT_OUT_OF_MEMORY \<and> pg_is_empty pg' \<and> map_option rm_used s' = map_option rm_used s \<and>
       kept_behind_seams p (managers mm) (managers mm')) \<and>
    (s = None \<longrightarrow> (rc = 0 \<longleftrightarrow> np \<le> card {b \<in> pool_pages p (managers mm). snd (mem_state (managers mm) b)}))"
proof -
  let ?ms = "managers mm"
  let ?h = "case s of None \<Rightarrow> 0 | Some m \<Rightarrow> rm_used m"
  have e: "group_blocks pg = []" using assms(4) by (simp add: pg_is_empty_def)
  have wf: "impls_wf ?ms" using assms(1) by (simp add: mm_wf_def)
  have booked: "infos_booked ?h pg s" using assms(5,6) e by (simp add: infos_booked_def split: option.splits)
  from first_manager [OF assms(1,2)] obtain cur where c: "get_first_manager p dir mm = Some cur"
    "linked (\<lambda>i. impl_link dir (?ms ! i)) cur (in_order dir (members p ?ms))" by blast
  have d: "distinct (in_order dir (members p ?ms))" by (simp add: members_distinct)
  from allocate_group_ok [OF wf set_in_order d c(2) assms(3) e booked refl] obtain rc ms pg' s' where
    a: "allocate_page_group_impl cur dir np True ?ms pg s = Some (rc, ms, pg', s')"
    "group_result ?ms p ?h np (has_info_manager pg) rc ms pg' s'" by blast
  have ho: "nth_opt (has_optimized_process mm) (pool_index p) = Some (has_optimized_process mm ! pool_index p)"
    using assms(1) pool_index_less [OF assms(2)] by (simp add: mm_wf_def nth_opt_def)
  have np: "(np = 0) = False" using assms(3) by simp
  have unf: "allocate_and_open np (encode_option p dir) mm pg s =
      (if rc \<noteq> 0 then Some (rc, mm\<lparr>managers := ms\<rparr>, pg', s')
       else do { ms \<leftarrow> open_blocks (group_blocks pg') ms; Some (0, mm\<lparr>managers := ms\<rparr>, pg', s') })"
    unfolding allocate_and_open_def decode_encode_option [OF assms(2)] np using ho c(1) a(1) by simp
  have compl: "s = None \<longrightarrow> (rc = 0 \<longleftrightarrow> np \<le> card {b \<in> pool_pages p ?ms. snd (mem_state ?ms b)})"
    using a(2) assms(5) by (simp add: group_result_def)
  show ?thesis
  proof (cases "rc = 0")
    case False
    then have u: "rc = RESULT_OUT_OF_MEMORY" "group_blocks pg' = []" "infos_booked ?h pg' s'" "has_info_manager pg' = has_info_manager pg"
      "impls_wf ms" "list_all2 same_impl ?ms ms" "kept_behind_seams p ?ms ms"
      using a(2) by (simp_all add: group_result_def undone_def)
    have "map_option rm_used s' = map_option rm_used s"
      using u(2-4) assms(5) by (auto simp: infos_booked_def split: option.splits)
    then show ?thesis using unf False u mm_wf_same [OF assms(1) u(6,5)] compl
      by (intro exI [of _ rc] exI [of _ "mm\<lparr>managers := ms\<rparr>"] exI [of _ pg'] exI [of _ s']) (simp add: pg_is_empty_def)
  next
    case True
    from open_taken_ok [OF assms(1), of p ?h np "has_info_manager pg" ms pg' s'] a(2) True obtain ms2 where
      o: "open_blocks (group_blocks pg') ms = Some ms2" "mm_wf (mm\<lparr>managers := ms2\<rparr>)"
      "length (group_pages (group_blocks pg')) = np" "distinct (group_pages (group_blocks pg'))"
      "\<forall>b \<in> set (group_pages (group_blocks pg')). b \<in> pool_pages p ?ms \<and> mem_state ?ms b = (0, True)"
      "\<forall>b \<in> mem_pages ?ms. mem_state ms2 b = (if b \<in> set (group_pages (group_blocks pg')) then (1, False) else mem_state ?ms b)"
      by blast
    then show ?thesis using unf True compl
      by (intro exI [of _ 0] exI [of _ "mm\<lparr>managers := ms2\<rparr>"] exI [of _ pg'] exI [of _ s']) simp
  qed
qed

lemma allocate_and_open_exact_witness:
  "\<exists>mm mm' pg' s'. initialize_pool System 0x80000000 0x4000 mm_new = Some mm \<and>
     allocate_and_open 3 (encode_option System FromFront) mm (with_block_info_manager None) None = Some (0, mm', pg', s') \<and>
     length (group_pages (group_blocks pg')) = 3"
proof -
  obtain mm where m: "initialize_pool System 0x80000000 0x4000 mm_new = Some mm" "mm_wf mm" "members System (managers mm) = [0]"
     "mem_pages (managers mm) = {b. 4096 dvd b \<and> 0x80000000 \<le> b \<and> b < 0x80004000}"
     "\<forall>b \<in> mem_pages (managers mm). mem_state (managers mm) b = (0, True)" using sample_manager by blast
  have "num_managers mm = 1" using initialize_pool_num [OF m(1)] by (simp add: mm_new_def)
  then have one: "length (managers mm) = 1" using m(2) by (simp add: mm_wf_def)
  have "pool_pages System (managers mm) = mem_pages (managers mm)"
    using one unfolding set_eq_iff mem_pages_index by (simp add: pool_pages_def m(3))
  moreover have "{0x80000000, 0x80001000, 0x80002000} \<subseteq> {b. (4096 :: nat) dvd b \<and> 0x80000000 \<le> b \<and> b < 0x80004000}" by simp
  ultimately have sub: "{0x80000000, 0x80001000, 0x80002000} \<subseteq> {b \<in> pool_pages System (managers mm). snd (mem_state (managers mm) b)}"
    using m(4,5) by auto
  have "impls_wf (managers mm)" using m(2) by (simp add: mm_wf_def)
  then have "finite {b \<in> pool_pages System (managers mm). snd (mem_state (managers mm) b)}" using finite_pool_pages by simp
  from card_mono [OF this sub] have card: "3 \<le> card {b \<in> pool_pages System (managers mm). snd (mem_state (managers mm) b)}" by simp
  have h: "System \<noteq> Count" "(0 :: nat) < 3" "pg_is_empty (with_block_info_manager None)"
    "has_info_manager (with_block_info_manager None) = ((None :: info_manager option) \<noteq> None)"
    "case (None :: info_manager option) of None \<Rightarrow> True | Some m \<Rightarrow> rm_wf 0x10 m"
    by (simp_all add: pg_is_empty_def with_block_info_manager_def)
  obtain rc mm' pg' s' where r: "allocate_and_open 3 (encode_option System FromFront) mm (with_block_info_manager None) None = Some (rc, mm', pg', s')"
    "rc = 0 \<longrightarrow> length (group_pages (group_blocks pg')) = 3"
    "rc = 0 \<longleftrightarrow> 3 \<le> card {b \<in> pool_pages System (managers mm). snd (mem_state (managers mm) b)}"
    using allocate_and_open_exact [OF m(2) h, of FromFront] by auto
  have "rc = 0" using r(3) card by simp
  then show ?thesis using m(1) r(1,2) by auto
qed

text \<open>
  A request above the largest block is not refused: the index -1 goes to the heap of the first
  manager of the pool, which is indexed with it.
\<close>

lemma huge_request_index: "2 ^ 18 < max np al \<Longrightarrow> get_aligned_block_index np al = -1"
  by (simp add: get_aligned_block_index_def MEMORY_BLOCK_PAGE_SHIFTS_def max_def shl64_def)

lemma huge_request_panics:
  assumes "decode_option opt = Some (p, dir)" "get_first_manager p dir mm = Some (Some i)" "0 < np" "2 ^ 18 < max np al"
  shows "allocate_and_open_continuous np al opt mm = None"
proof -
  have "block_at (-1) h = None" for h by (simp add: block_at_def ix_def)
  then have "allocate_aligned (-1) np al h = None" for h
    by (simp add: allocate_aligned_def allocate_by_random_def upto_rec1)
  then have "continuous_loop dir (-1) np al (Some i) (managers mm) = None"
    by (subst continuous_loop.simps) (simp add: impl_allocate_aligned_def bind_eq_None_conv nth_opt_def)
  then show ?thesis using assms by (simp add: allocate_and_open_continuous_def huge_request_index)
qed

end
