(* ===== verification/MemoryManagerLeak.thy ===== *)
theory MemoryManagerLeak
  imports MemoryManagerGroups
begin

text \<open>
  A failed allocation that keeps a page. The pool has two managers, the second of which begins where the
  first ends, and its only free pages are the two at this seam. A request for more pages takes both, the
  group merges them into one run, and the failure path of \<open>allocate_page_group_impl\<close> (in
  src/core/src/hle/kernel/k_memory_manager.rs) gives back only the part in the first manager.
\<close>

section \<open>Free pages during an allocation\<close>

definition frees_of :: "Impl list \<Rightarrow> nat \<Rightarrow> nat set" where
  "frees_of ms i = {b \<in> impl_pages (ms ! i). snd (mem_state ms b)}"

lemma free_pages_now:
  assumes "group_inv ms0 p h np hi (ms, pg, s, remaining)" "i \<in> set (members p ms0)" "b \<in> impl_pages (ms ! i)"
  shows "b \<in> free_bytes (m_heap (ms ! i)) \<longleftrightarrow> b \<in> frees_of ms0 i - set (group_pages (group_blocks pg))"
proof -
  let ?G = "set (group_pages (group_blocks pg))"
  have step: "mem_step ?G take_page ms0 ms" using assms(1) by (simp add: group_inv_def)
  have same: "list_all2 same_impl ms0 ms" "impls_wf ms" using step by (simp_all add: mem_step_def)
  note l = members_less [OF assms(2)]
  have b: "b \<in> impl_pages (ms0 ! i)" using assms(3) same_implD(3) [OF same_list(2) [OF same(1) l]] by simp
  have "b \<in> free_bytes (m_heap (ms ! i)) \<longleftrightarrow> snd (mem_state ms b)"
    using mem_state_owner [OF same(2) _ assms(3)] l same_list(1) [OF same(1)] by (simp add: page_state_def)
  moreover have "b \<in> mem_pages ms0" using b l mem_pages_index by blast
  then have "mem_state ms b = (if b \<in> ?G then take_page (mem_state ms0 b) else mem_state ms0 b)"
    using step by (simp add: mem_step_def)
  ultimately show ?thesis using b by (auto simp: frees_of_def take_page_def)
qed

text \<open>A free range of some level begins with a free page, and beyond the first level with two.\<close>

lemma range_pages:
  assumes "impl_wf m" "index < 7" "2 ^ level_shift index dvd a" "{a..<a + 2 ^ level_shift index} \<subseteq> free_bytes (m_heap m)"
  shows "a \<in> impl_pages m \<and> a \<in> free_bytes (m_heap m) \<and>
    (0 < index \<longrightarrow> a + 4096 \<in> impl_pages m \<and> a + 4096 \<in> free_bytes (m_heap m))"
proof -
  have l: "12 \<le> level_shift index" using level_shift_bounds [OF assms(2)] by simp
  have d: "4096 dvd a" using assms(3) le_imp_power_dvd [OF l, of "2 :: nat"] dvd_trans by fastforce
  have sz: "(4096 :: nat) \<le> 2 ^ level_shift index" using power_increasing [OF l, of "2 :: nat"] by simp
  have big: "4096 < (2 :: nat) ^ level_shift index" if "0 < index"
  proof -
    have "12 < level_shift index" using that seven_cases [OF assms(2)] by (auto simp: MEMORY_BLOCK_PAGE_SHIFTS_def)
    then show ?thesis using power_strict_increasing [of 12 "level_shift index" "2 :: nat"] by simp
  qed
  have inside: "x \<in> impl_pages m" if "x \<in> free_bytes (m_heap m)" "4096 dvd x" for x
  proof -
    have "x \<in> {impl_start m..<impl_end m}" using assms(1) that(1) unfolding impl_wf_def heap_wf_def by blast
    then show ?thesis using that(2) by (simp add: impl_pages_def)
  qed
  have "a \<in> free_bytes (m_heap m)" using assms(4) sz by force
  moreover have "a + 4096 \<in> free_bytes (m_heap m)" if "0 < index" using assms(4) big [OF that] by force
  ultimately show ?thesis using inside d by simp
qed

lemma member_wf:
  assumes "group_inv ms0 p h np hi (ms, pg, s, remaining)" "i \<in> set (members p ms0)"
  shows "i < length ms" "impl_wf (ms ! i)" "heap_wf (m_heap (ms ! i))" "impl_pages (ms ! i) = impl_pages (ms0 ! i)"
    "impl_link dir (ms ! i) = impl_link dir (ms0 ! i)" "impl_end (ms ! i) = impl_end (ms0 ! i)"
proof -
  have same: "list_all2 same_impl ms0 ms" "impls_wf ms" using assms(1) by (simp_all add: group_inv_def mem_step_def)
  note l = members_less [OF assms(2)]
  show i: "i < length ms" using l same_list(1) [OF same(1)] by simp
  show "impl_wf (ms ! i)" "heap_wf (m_heap (ms ! i))" using same(2) i by (simp_all add: impls_wf_def impl_wf_def)
  show "impl_pages (ms ! i) = impl_pages (ms0 ! i)" "impl_end (ms ! i) = impl_end (ms0 ! i)"
    using same_implD(2,3) [OF same_list(2) [OF same(1) l]] by simp_all
  show "impl_link dir (ms ! i) = impl_link dir (ms0 ! i)" using same_members(2) [OF same(1) l] by simp
qed

lemma no_free_range:
  assumes "group_inv ms0 p h np hi (ms, pg, s, remaining)" "i \<in> set (members p ms0)" "index < 7"
    "frees_of ms0 i - set (group_pages (group_blocks pg)) \<subseteq> {f}" "0 < index \<or> f \<in> set (group_pages (group_blocks pg))"
  shows "\<not> some_range (m_heap (ms ! i)) index"
proof
  assume "some_range (m_heap (ms ! i)) index"
  then obtain a where a: "2 ^ level_shift index dvd a" "{a..<a + 2 ^ level_shift index} \<subseteq> free_bytes (m_heap (ms ! i))"
    unfolding some_range_def by blast
  note r = range_pages [OF member_wf(2) [OF assms(1,2)] assms(3) a] and n = free_pages_now [OF assms(1,2)]
  have "a \<in> frees_of ms0 i - set (group_pages (group_blocks pg))" using r n by blast
  moreover have "a + 4096 \<in> frees_of ms0 i - set (group_pages (group_blocks pg))" if "0 < index" using r n that by blast
  ultimately have two: "a = f" "0 < index \<longrightarrow> a + 4096 = f" "a \<notin> set (group_pages (group_blocks pg))"
    using assms(4) by blast+
  then have "index = 0" by (cases "index = 0") simp_all
  then show False using two assms(5) by simp
qed

text \<open>The step that takes the only free page of a manager.\<close>

lemma take_only_page:
  assumes "group_inv ms0 p h np hi (ms, pg, s, remaining)" "i \<in> set (members p ms0)"
    "frees_of ms0 i - set (group_pages (group_blocks pg)) = {f}" "0 < remaining"
    "add_block f 1 pg s = Some (True, pg', s')"
  shows "\<exists>ms'. take_blocks 0 1 random i (ms, pg, s, remaining) = Some (False, (ms', pg', s', remaining - 1)) \<and>
    group_inv ms0 p h np hi (ms', pg', s', remaining - 1)"
proof -
  note w = member_wf [OF assms(1,2)] and now = free_pages_now [OF assms(1,2)]
  have l0: "level_shift 0 = 12" by (simp add: MEMORY_BLOCK_PAGE_SHIFTS_def)
  have f: "f \<in> impl_pages (ms ! i)" using assms(3) w(4) by (auto simp: frees_of_def)
  then have d: "4096 dvd f" by (simp add: impl_pages_def)
  have "f \<in> free_bytes (m_heap (ms ! i))" using now [OF f] assms(3) by blast
  from free_page_whole [OF w(3) this] have "{f..<f + 4096} \<subseteq> free_bytes (m_heap (ms ! i))"
    using d by (simp add: dvd_eq_mod_eq_0)
  then have "some_range (m_heap (ms ! i)) 0"
    unfolding some_range_def l0 using d by (intro exI [of _ f]) simp
  then obtain r k where a: "allocate_block (int 0) random (m_heap (ms ! i)) = Some (r, k)" "r \<noteq> 0" "2 ^ level_shift 0 dvd r"
    "takes (m_heap (ms ! i)) {r..<r + 2 ^ level_shift 0} k"
    using block_alloc_ok [OF w(3), of 0 random] by auto
  have "{r..<r + 2 ^ level_shift 0} \<subseteq> free_bytes (m_heap (ms ! i))" using a(4) by (simp add: takes_def)
  from range_pages [OF w(2) _ a(3) this] have "r \<in> impl_pages (ms ! i)" "r \<in> free_bytes (m_heap (ms ! i))" by simp_all
  then have r: "r = f" using now assms(3) by blast
  have t: "takes (m_heap (ms ! i)) {f..<f + 1 * 4096} k" using a(4) r l0 by simp
  let ?ms = "ms[i := (ms ! i)\<lparr>m_heap := k\<rparr>]"
  have g: "group_inv ms0 p h np hi (?ms, pg', s', remaining - 1)"
    using take_run_inv [OF assms(1,2) t d] assms(4,5) by simp
  have "f + 1 * 4096 < 2 ^ 44" using take_run_facts(5) [OF assms(1,2) t d] by simp
  then have "group_pages (group_blocks pg') = group_pages (group_blocks pg) @ run_pages f 1"
    using add_block_ok [of pg h s f 1] assms(1,5) d by (auto simp: group_inv_def)
  then have "f \<in> set (group_pages (group_blocks pg'))" "set (group_pages (group_blocks pg)) \<subseteq> set (group_pages (group_blocks pg'))"
    by (auto simp: run_pages_def)
  then have "frees_of ms0 i - set (group_pages (group_blocks pg')) \<subseteq> {f}" "f \<in> set (group_pages (group_blocks pg'))"
    using assms(3) by blast+
  then have "\<not> some_range (m_heap (?ms ! i)) 0"
    using no_free_range [OF g assms(2), of 0 f] by simp
  from take_none_ok [OF _ g assms(2) this, of 1 random] obtain ms' where
    "take_blocks 0 1 random i (?ms, pg', s', remaining - 1) = Some (False, (ms', pg', s', remaining - 1))"
    "group_inv ms0 p h np hi (ms', pg', s', remaining - 1)" by fastforce
  moreover have "take_blocks 0 1 random i (ms, pg, s, remaining) = take_blocks 0 1 random i (?ms, pg', s', remaining - 1)"
    using assms(4,5) w(1) a(1,2) r by (subst take_blocks.simps) (simp add: nth_opt_def Let_def)
  ultimately show ?thesis by (intro exI [of _ ms']) simp
qed

text \<open>Where every manager has at most one page to give, the larger sizes are passed over.\<close>

lemma pool_takes_none:
  assumes "0 < index" "index < 7" "set js \<subseteq> set (members p ms0)" "linked (\<lambda>i. impl_link dir (ms0 ! i)) cur js"
    "\<forall>i \<in> set js. \<exists>f. frees_of ms0 i - set (group_pages (group_blocks pg)) \<subseteq> {f}"
    "group_inv ms0 p h np hi (ms, pg, s, remaining)"
  shows "\<exists>ms'. take_from_pool dir index n random cur (ms, pg, s, remaining) = Some (False, (ms', pg, s, remaining)) \<and>
    group_inv ms0 p h np hi (ms', pg, s, remaining)"
  using assms(3-6)
proof (induction js arbitrary: cur ms)
  case Nil
  then show ?case by (subst take_from_pool.simps) simp
next
  case (Cons i js)
  have i: "i \<in> set (members p ms0)" "cur = Some i" "linked (\<lambda>i. impl_link dir (ms0 ! i)) (impl_link dir (ms0 ! i)) js"
    "set js \<subseteq> set (members p ms0)" using Cons.prems by simp_all
  obtain f where "frees_of ms0 i - set (group_pages (group_blocks pg)) \<subseteq> {f}" using Cons.prems(3) by auto
  from no_free_range [OF Cons.prems(4) i(1) assms(2) this] assms(1)
  have "\<not> some_range (m_heap (ms ! i)) index" by blast
  from take_none_ok [OF assms(2) Cons.prems(4) i(1) this, of n random] obtain ms1 where
    t: "take_blocks index n random i (ms, pg, s, remaining) = Some (False, (ms1, pg, s, remaining))"
    "group_inv ms0 p h np hi (ms1, pg, s, remaining)" by blast
  have nx: "get_next_manager dir i ms1 = Some (impl_link dir (ms0 ! i))"
    using next_manager member_wf(1,5) [OF t(2) i(1)] by simp
  from Cons.IH [OF i(4,3) _ t(2)] Cons.prems(3) obtain ms' where
    "take_from_pool dir index n random (impl_link dir (ms0 ! i)) (ms1, pg, s, remaining) = Some (False, (ms', pg, s, remaining))"
    "group_inv ms0 p h np hi (ms', pg, s, remaining)" by auto
  then show ?case using i(2) t(1) nx by (subst take_from_pool.simps) simp
qed

lemma levels_take_none:
  assumes "Suc index \<le> 7" "set js \<subseteq> set (members p ms0)" "linked (\<lambda>i. impl_link dir (ms0 ! i)) cur js"
    "\<forall>i \<in> set js. \<exists>f. frees_of ms0 i - set (group_pages (group_blocks pg)) \<subseteq> {f}"
    "group_inv ms0 p h np hi (ms, pg, s, remaining)" "0 < remaining"
  shows "\<exists>ms'. take_levels dir random cur (Suc index) (ms, pg, s, remaining) =
      take_levels dir random cur 1 (ms', pg, s, remaining) \<and> group_inv ms0 p h np hi (ms', pg, s, remaining)"
  using assms(1,5)
proof (induction index arbitrary: ms)
  case 0
  then show ?case by (intro exI [of _ ms]) simp
next
  case (Suc index)
  have ix: "0 < Suc index" "Suc index < 7" using Suc.prems(1) by simp_all
  from pages_of_level [OF ix(2)] obtain k where k: "get_block_num_pages (Suc index) = Some k" by blast
  from pool_takes_none [OF ix assms(2-4) Suc.prems(2), of k random] obtain ms1 where
    t: "take_from_pool dir (Suc index) k random cur (ms, pg, s, remaining) = Some (False, (ms1, pg, s, remaining))"
    "group_inv ms0 p h np hi (ms1, pg, s, remaining)" by blast
  have "take_levels dir random cur (Suc (Suc index)) (ms, pg, s, remaining) = take_levels dir random cur (Suc index) (ms1, pg, s, remaining)"
    using k t(1) assms(6) by simp
  then show ?case using Suc.IH [OF _ t(2)] Suc.prems(1) by simp
qed

section \<open>The page that stays allocated\<close>

text \<open>The two pages at the seam become one run of the group.\<close>

lemma seam_run:
  assumes "group_blocks pg = []" "\<not> has_info_manager pg" "4096 dvd f" "f + 2 * 4096 < 2 ^ 44"
  shows "\<exists>b pg1. add_block f 1 pg None = Some (True, pg1, None) \<and>
    add_block (f + 4096) 1 pg1 None = Some (True, pg1\<lparr>group_blocks := [b]\<rparr>, None) \<and>
    bi_address b = f \<and> bi_num_pages b = 2 \<and> group_pages (group_blocks pg1) = [f]"
proof -
  let ?b = "bi_initialize f 1 bi_new"
  have b: "bi_ok ?b" "bi_address ?b = f" "bi_num_pages ?b = 1"
    using bi_initialize_ok [of f 1 bi_new] assms(3,4) by simp_all
  have "bi_end ?b = f + 4096" using bi_geometry(2) [OF b(1)] b(2,3) by simp
  then obtain b' where b': "try_concatenate (f + 4096) 1 ?b = (True, b')" "bi_address b' = f" "bi_num_pages b' = 2"
    using try_concatenate_ok [OF b(1), of "f + 4096" 1] assms(4) b(2,3) by auto
  have "add_block f 1 pg None = Some (True, pg\<lparr>group_blocks := [?b]\<rparr>, None)"
    using assms(1,2) by (simp add: add_block_def)
  moreover have "add_block (f + 4096) 1 (pg\<lparr>group_blocks := [?b]\<rparr>) None =
      Some (True, pg\<lparr>group_blocks := [?b]\<rparr>\<lparr>group_blocks := [b']\<rparr>, None)"
    using b'(1) by (simp add: add_block_def)
  moreover have "group_pages [?b] = [f]" using b(2,3) by (simp add: group_pages_def run_pages_def)
  ultimately show ?thesis using b'(2,3) by (intro exI [of _ b'] exI [of _ "pg\<lparr>group_blocks := [?b]\<rparr>"]) simp
qed

text \<open>Freeing this run stops at the end of the first manager.\<close>

lemma free_at_seam:
  assumes "impls_wf ms" "i < length ms" "f \<in> impl_pages (ms ! i)" "impl_end (ms ! i) = f + 4096" "f + 4096 \<in> mem_pages ms"
    "unowned (mem_state ms f)"
  shows "\<exists>ms'. free_in_first_manager f 2 ms = Some ms' \<and> mem_step {f} free_page ms ms'"
proof -
  have f: "4096 dvd f" "impl_start (ms ! i) \<le> f" using assms(3) by (simp_all add: impl_pages_def)
  have two: "run_pages f 2 = [f, f + 4096]" "run_pages f 1 = [f]" by (simp_all add: run_pages_def upt_rec)
  have "f \<in> mem_pages ms" using assms(2,3) mem_pages_index by blast
  then have sub: "set (run_pages f 2) \<subseteq> mem_pages ms" using assms(5) two by simp
  have pos: "(0 :: nat) < 2" by simp
  from first_part [OF assms(1) f(1) pos sub] obtain i' cur where i': "i' < length ms" "find_manager_index f ms = Some i'"
    "impl_start (ms ! i') \<le> f" "min 2 (get_page_offset_to_end f (m_heap (ms ! i'))) = cur" "0 < cur"
    "f + cur * 4096 \<le> impl_end (ms ! i')" by blast
  have "f < impl_end (ms ! i')" using i'(5,6) by linarith
  then have "f \<in> {impl_start (ms ! i)..<impl_end (ms ! i)} \<inter> {impl_start (ms ! i')..<impl_end (ms ! i')}"
    using f(2) assms(4) i'(3) by simp
  then have same: "i' = i" using impls_disjoint [OF assms(1,2) i'(1)] by blast
  then have "cur = 1" using i'(5,6) assms(4) by simp
  have e: "f + 1 * 4096 \<le> impl_end (ms ! i)" "\<forall>b \<in> set (run_pages f 1). unowned (mem_state ms b)"
    using assms(4,6) two by simp_all
  from frees.on_manager [OF assms(1,2) f e] obtain m' where
    "impl_free f 1 (ms ! i) = Some m'" "mem_step {f} free_page ms (ms[i := m'])" unfolding two by auto
  then show ?thesis using i'(2,4) same \<open>cur = 1\<close> by (simp add: free_in_first_manager_def)
qed

text \<open>The last level takes both pages, the first of one manager and the second of the other.\<close>

lemma take_both:
  assumes "group_inv ms0 p h np hi (ms, pg, None, remaining)" "members p ms0 = [i, j]" "2 < remaining"
    "linked (\<lambda>i. impl_link dir (ms0 ! i)) cur [i, j]"
    "frees_of ms0 i = {f}" "frees_of ms0 j = {f + 4096}" "group_blocks pg = []" "\<not> has_info_manager pg"
    "4096 dvd f" "f + 2 * 4096 < 2 ^ 44"
  shows "\<exists>ms' pg' b. take_levels dir random cur 1 (ms, pg, None, remaining) = Some (False, (ms', pg', None, remaining - 2)) \<and>
    group_inv ms0 p h np hi (ms', pg', None, remaining - 2) \<and> group_blocks pg' = [b] \<and> bi_address b = f \<and> bi_num_pages b = 2"
proof -
  from seam_run [OF assms(7-10)] obtain b pg1 where
    a: "add_block f 1 pg None = Some (True, pg1, None)" "add_block (f + 4096) 1 pg1 None = Some (True, pg1\<lparr>group_blocks := [b]\<rparr>, None)"
    and b: "bi_address b = f" "bi_num_pages b = 2" "group_pages (group_blocks pg1) = [f]" by blast
  have m: "i \<in> set (members p ms0)" "j \<in> set (members p ms0)" using assms(2) by simp_all
  have l: "cur = Some i" "impl_link dir (ms0 ! i) = Some j" "impl_link dir (ms0 ! j) = None" using assms(4) by simp_all
  have "frees_of ms0 i - set (group_pages (group_blocks pg)) = {f}" using assms(5,7) by (simp add: group_pages_def)
  from take_only_page [OF assms(1) m(1) this _ a(1)] assms(3) obtain ms1 where
    1: "take_blocks 0 1 random i (ms, pg, None, remaining) = Some (False, (ms1, pg1, None, remaining - 1))"
    "group_inv ms0 p h np hi (ms1, pg1, None, remaining - 1)" by fastforce
  have "frees_of ms0 j - set (group_pages (group_blocks pg1)) = {f + 4096}" using assms(6) b(3) by auto
  from take_only_page [OF 1(2) m(2) this _ a(2)] assms(3) obtain ms2 where
    2: "take_blocks 0 1 random j (ms1, pg1, None, remaining - 1) =
        Some (False, (ms2, pg1\<lparr>group_blocks := [b]\<rparr>, None, remaining - 1 - 1))"
    "group_inv ms0 p h np hi (ms2, pg1\<lparr>group_blocks := [b]\<rparr>, None, remaining - 1 - 1)" by fastforce
  have n: "get_next_manager dir i ms1 = Some (Some j)" "get_next_manager dir j ms2 = Some None"
    using next_manager member_wf(1,5) [OF 1(2) m(1)] member_wf(1,5) [OF 2(2) m(2)] l by simp_all
  have "take_from_pool dir 0 1 random (Some j) (ms1, pg1, None, remaining - 1) =
      Some (False, (ms2, pg1\<lparr>group_blocks := [b]\<rparr>, None, remaining - 1 - 1))"
    using 2(1) n(2) by (subst take_from_pool.simps, simp, subst take_from_pool.simps) simp
  then have "take_from_pool dir 0 1 random cur (ms, pg, None, remaining) =
      Some (False, (ms2, pg1\<lparr>group_blocks := [b]\<rparr>, None, remaining - 1 - 1))"
    using 1(1) n(1) l(1) by (subst take_from_pool.simps) simp
  moreover have "get_block_num_pages 0 = Some 1" using pages_of_level [of 0] by (auto simp: MEMORY_BLOCK_PAGE_SHIFTS_def)
  ultimately have "take_levels dir random cur 1 (ms, pg, None, remaining) =
      Some (False, (ms2, pg1\<lparr>group_blocks := [b]\<rparr>, None, remaining - 2))" using assms(3) by simp
  moreover have "remaining - 1 - 1 = remaining - 2" by simp
  ultimately show ?thesis using 2(2) b(1,2)
    by (intro exI [of _ ms2] exI [of _ "pg1\<lparr>group_blocks := [b]\<rparr>"] exI [of _ b]) simp
qed

text \<open>The failure path then frees only the first of them.\<close>

lemma undo_at_seam:
  assumes "group_inv ms0 p h np hi (ms, pg, s, remaining)" "group_blocks pg = [b]" "bi_address b = f" "bi_num_pages b = 2"
    "i \<in> set (members p ms0)" "f \<in> impl_pages (ms0 ! i)" "impl_end (ms0 ! i) = f + 4096"
  shows "\<exists>ms' pg' s'. undo_group (ms, pg, s, remaining) = Some (ms', pg', s', remaining) \<and> group_blocks pg' = [] \<and>
    mem_state ms0 (f + 4096) = (0, True) \<and> (\<forall>a \<in> mem_pages ms0. mem_state ms' a = (if a = f + 4096 then (0, False) else mem_state ms0 a))"
proof -
  have "run_pages f 2 = [f, f + 4096]" by (simp add: run_pages_def upt_rec)
  then have G: "set (group_pages (group_blocks pg)) = {f, f + 4096}" using assms(2-4) by (simp add: group_pages_def)
  have st: "mem_step {f, f + 4096} take_page ms0 ms"
    and old: "f + 4096 \<in> pool_pages p ms0" "mem_state ms0 f = (0, True)" "mem_state ms0 (f + 4096) = (0, True)" "f \<in> pool_pages p ms0"
    using assms(1) G by (simp_all add: group_inv_def)
  have same: "list_all2 same_impl ms0 ms" "impls_wf ms" using st by (simp_all add: mem_step_def)
  note w = member_wf [OF assms(1,5)]
  have mp: "f \<in> mem_pages ms0" "f + 4096 \<in> mem_pages ms" using old(1,4) pool_pages_sub same_list(3) [OF same(1)] by blast+
  have "unowned (mem_state ms f)" using st mp(1) old(2) by (simp add: mem_step_def unowned_def take_page_def)
  from free_at_seam [OF same(2) w(1) _ _ mp(2) this] w(4,6) assms(6,7) obtain ms' where
    f: "free_in_first_manager f 2 ms = Some ms'" "mem_step {f} free_page ms ms'" by auto
  have "mem_state ms' a = (if a = f + 4096 then (0, False) else mem_state ms0 a)" if a: "a \<in> mem_pages ms0" for a
  proof -
    have "a \<in> mem_pages ms" using a same_list(3) [OF same(1)] by simp
    then have "mem_state ms' a = (if a = f then free_page (mem_state ms a) else mem_state ms a)"
      using f(2) by (simp add: mem_step_def)
    moreover have "mem_state ms a = (if a = f \<or> a = f + 4096 then take_page (mem_state ms0 a) else mem_state ms0 a)"
      using st a by (simp add: mem_step_def)
    ultimately show ?thesis using old(2,3) by (cases "a = f"; cases "a = f + 4096") (simp_all add: free_page_def take_page_def)
  qed
  moreover obtain pg' s' where p: "pg_finalize pg s = (pg', s')" by (cases "pg_finalize pg s")
  moreover have "group_blocks pg' = []" using pg_finalize_ok [of h pg s] assms(1) p by (simp add: group_inv_def)
  moreover have "undo_group (ms, pg, s, remaining) = Some (ms', pg', s', remaining)"
    using f(1) p assms(2-4) by (simp add: undo_group_def)
  ultimately show ?thesis using old(3) by blast
qed

text \<open>
  A pool of two managers that touch, whose only free pages are the two at the seam: every request for
  more pages fails, and the first page of the second manager stays allocated without a reference,
  out of reach of every later request. No other page changes.
\<close>

theorem failed_allocation_keeps_page:
  assumes "mm_wf mm" "p \<noteq> Count" "2 < np" "pg_is_empty pg" "\<not> has_info_manager pg"
    "members p (managers mm) = [i, j]" "impl_end (managers mm ! i) = seam" "impl_start (managers mm ! j) = seam"
    "{b \<in> pool_pages p (managers mm). snd (mem_state (managers mm) b)} = {seam - 4096, seam}" "4096 \<le> seam"
  shows "\<exists>mm' pg'. allocate_and_open np (encode_option p FromFront) mm pg None = Some (RESULT_OUT_OF_MEMORY, mm', pg', None) \<and>
    pg_is_empty pg' \<and> mem_state (managers mm) seam = (0, True) \<and>
    (\<forall>b \<in> mem_pages (managers mm). mem_state (managers mm') b = (if b = seam then (0, False) else mem_state (managers mm) b))"
proof -
  let ?ms = "managers mm"
  define f where "f = seam - 4096"
  have seam: "seam = f + 4096" using assms(10) by (simp add: f_def)
  have wf: "impls_wf ?ms" using assms(1) by (simp add: mm_wf_def)
  have e: "group_blocks pg = []" using assms(4) by (simp add: pg_is_empty_def)
  have pp: "pool_pages p ?ms = impl_pages (?ms ! i) \<union> impl_pages (?ms ! j)" by (simp add: pool_pages_def assms(6))
  have free: "{b \<in> pool_pages p ?ms. snd (mem_state ?ms b)} = {f, seam}" using assms(9) by (simp add: f_def)
  then have "f \<in> pool_pages p ?ms" "seam \<in> pool_pages p ?ms" by auto
  then have f: "f \<in> impl_pages (?ms ! i)" "seam \<in> impl_pages (?ms ! j)"
    using assms(7,8) seam unfolding pp by (auto simp: impl_pages_def)
  have "frees_of ?ms k = {f, seam} \<inter> impl_pages (?ms ! k)" if "k = i \<or> k = j" for k
    using that unfolding frees_of_def free [symmetric] pp by blast
  moreover have "seam \<notin> impl_pages (?ms ! i)" "f \<notin> impl_pages (?ms ! j)"
    using assms(7,8) seam by (simp_all add: impl_pages_def)
  ultimately have fr: "frees_of ?ms i = {f}" "frees_of ?ms j = {f + 4096}" using f seam by auto
  have j: "j < length ?ms" using members_less [of j p ?ms] assms(6) by simp
  have d: "4096 dvd f" using f(1) by (simp add: impl_pages_def)
  have wj: "impl_wf (?ms ! j)" using wf j by (simp add: impls_wf_def)
  have top: "f + 2 * 4096 < 2 ^ 44"
  proof -
    have "seam < impl_end (?ms ! j)" using f(2) by (simp add: impl_pages_def)
    moreover obtain q r where "f = 4096 * q" "impl_end (?ms ! j) = 4096 * r" using d impl_geometry(5) [OF wj] by (metis dvdE)
    moreover have "impl_end (?ms ! j) < 2 ^ 44" using wf j by (simp add: impls_wf_def)
    ultimately show ?thesis unfolding seam by simp
  qed
  from first_manager [OF assms(1,2)] obtain cur where c: "get_first_manager p FromFront mm = Some cur"
    "linked (\<lambda>i. impl_link FromFront (?ms ! i)) cur (in_order FromFront (members p ?ms))" by blast
  have lk: "linked (\<lambda>i. impl_link FromFront (?ms ! i)) cur [i, j]" using c(2) assms(6) by (simp add: in_order_def)
  have inv: "group_inv ?ms p 0 np False (?ms, pg, None, np)"
    using assms(5) e mem_step_refl [OF wf] by (simp add: group_inv_def group_ok_def group_pages_def infos_booked_def)
  obtain n where n: "n < 7" "get_block_index np = int n" using block_index_ok [of np] assms(3) by auto
  have one: "\<forall>k \<in> set [i, j]. \<exists>f. frees_of ?ms k - set (group_pages (group_blocks pg)) \<subseteq> {f}" using fr by auto
  have "Suc n \<le> 7" "set [i, j] \<subseteq> set (members p ?ms)" "0 < np" using n(1) assms(3,6) by simp_all
  from levels_take_none [OF this(1,2) lk one inv this(3)] obtain ms1 where
    1: "take_levels FromFront True cur (Suc n) (?ms, pg, None, np) = take_levels FromFront True cur 1 (ms1, pg, None, np)"
    "group_inv ?ms p 0 np False (ms1, pg, None, np)" by blast
  from take_both [OF 1(2) assms(6,3) lk fr e assms(5) d top] obtain ms2 pg2 b where
    2: "take_levels FromFront True cur 1 (ms1, pg, None, np) = Some (False, (ms2, pg2, None, np - 2))"
    "group_inv ?ms p 0 np False (ms2, pg2, None, np - 2)" "group_blocks pg2 = [b]" "bi_address b = f" "bi_num_pages b = 2" by blast
  have "i \<in> set (members p ?ms)" "impl_end (?ms ! i) = f + 4096" using assms(6,7) seam by simp_all
  from undo_at_seam [OF 2(2-5) this(1) f(1) this(2)] obtain ms3 pg3 s3 where
    3: "undo_group (ms2, pg2, None, np - 2) = Some (ms3, pg3, s3, np - 2)" "group_blocks pg3 = []" "mem_state ?ms seam = (0, True)"
    "\<forall>a \<in> mem_pages ?ms. mem_state ms3 a = (if a = seam then (0, False) else mem_state ?ms a)" unfolding seam by blast
  have "s3 = None" using 3(1) by (auto simp: undo_group_def pg_finalize_def free_infos_def split: bind_splits if_splits)
  have "allocate_page_group_impl cur FromFront np True ?ms pg None = Some (RESULT_OUT_OF_MEMORY, ms3, pg3, None)"
    using n(2) 1(1) 2(1) 3(1) \<open>s3 = None\<close> assms(3) by (simp add: allocate_page_group_impl_def del: take_levels.simps)
  moreover have "nth_opt (has_optimized_process mm) (pool_index p) = Some (has_optimized_process mm ! pool_index p)"
    using assms(1) pool_index_less [OF assms(2)] by (simp add: mm_wf_def nth_opt_def)
  ultimately have "allocate_and_open np (encode_option p FromFront) mm pg None =
      Some (RESULT_OUT_OF_MEMORY, mm\<lparr>managers := ms3\<rparr>, pg3, None)"
    using c(1) assms(3) out_of_memory_nonzero by (simp add: allocate_and_open_def decode_encode_option [OF assms(2)])
  then show ?thesis using 3(2-4)
    by (intro exI [of _ "mm\<lparr>managers := ms3\<rparr>"] exI [of _ pg3]) (simp add: pg_is_empty_def)
qed

text \<open>Two touching managers of one page each.\<close>

lemma touching_managers:
  "\<exists>mm1 mm. initialize_pool System 0x80000000 0x1000 mm_new = Some mm1 \<and> initialize_pool System 0x80001000 0x1000 mm1 = Some mm \<and>
     mm_wf mm \<and> members System (managers mm) = [0, 1] \<and> impl_end (managers mm ! 0) = 0x80001000 \<and>
     impl_start (managers mm ! 1) = 0x80001000 \<and> pool_pages System (managers mm) = {0x80000000, 0x80001000} \<and>
     (\<forall>b \<in> mem_pages (managers mm). mem_state (managers mm) b = (0, True))"
proof -
  obtain m0 where m0: "impl_initialize 0x80000000 0x1000 System impl_new = Some m0" "impl_start m0 = 0x80000000" "impl_end m0 = 0x80001000"
    "m_pool m0 = System" using impl_initialize_ok [where sz = "0x1000" and a = "0x80000000" and p = System] by auto
  obtain m1 where m1: "impl_initialize 0x80001000 0x1000 System impl_new = Some m1" "impl_start m1 = 0x80001000" "impl_end m1 = 0x80002000"
    "m_pool m1 = System" using impl_initialize_ok [where sz = "0x1000" and a = "0x80001000" and p = System] by auto
  have idx: "pool_index System < POOL_COUNT" by (rule pool_index_less) simp
  obtain mm1 where i1: "initialize_pool System 0x80000000 0x1000 mm_new = Some mm1" "managers mm1 = [m0]" "num_managers mm1 = 1"
    "nth_opt (pool_tail mm1) (pool_index System) = Some (Some 0)"
    using m0(1) idx by (simp add: initialize_pool_def mm_new_def nth_opt_def MAX_MANAGER_COUNT_def Let_def)
  obtain mm where i2: "initialize_pool System 0x80001000 0x1000 mm1 = Some mm"
    "managers mm = [m0\<lparr>m_next := Some 1\<rparr>, m1\<lparr>m_prev := Some 0\<rparr>]"
    using m1(1) i1(2-4) by (simp add: initialize_pool_def nth_opt_def [of "_ @ _"] nth_opt_def [of "_ # _"] MAX_MANAGER_COUNT_def Let_def)
  have w1: "mm_wf mm1" "\<forall>b. 4096 dvd b \<longrightarrow> 0x80000000 \<le> b \<longrightarrow> b < 0x80001000 \<longrightarrow> mem_state (managers mm1) b = (0, True)"
    "mem_pages (managers mm1) = {b. 4096 dvd b \<and> 0x80000000 \<le> b \<and> b < 0x80001000}"
    using initialize_pool_ok [OF mm_new_wf, where p = System and sz = "0x1000" and a = "0x80000000"] i1(1)
    by (auto simp: mm_new_def MAX_MANAGER_COUNT_def mem_pages_def)
  have w2: "mm_wf mm" "\<forall>b. 4096 dvd b \<longrightarrow> 0x80001000 \<le> b \<longrightarrow> b < 0x80002000 \<longrightarrow> mem_state (managers mm) b = (0, True)"
    "mem_pages (managers mm) = mem_pages (managers mm1) \<union> {b. 4096 dvd b \<and> 0x80001000 \<le> b \<and> b < 0x80002000}"
    "\<forall>b \<in> mem_pages (managers mm1). mem_state (managers mm) b = mem_state (managers mm1) b"
    using initialize_pool_ok [OF w1(1), where p = System and sz = "0x1000" and a = "0x80001000"] i2(1) i1(2) m0(2,3)
    by (auto simp: MAX_MANAGER_COUNT_def)
  have mem: "members System (managers mm) = [0, 1]" using m0(4) m1(4) by (simp add: i2(2) members_def upt_rec)
  have page: "{b. 4096 dvd b \<and> a \<le> b \<and> b < a + 4096} = {a}" if "4096 dvd a" for a :: nat
  proof -
    obtain q where "a = 4096 * q" using \<open>4096 dvd a\<close> by (rule dvdE)
    then show ?thesis by (auto elim!: dvdE)
  qed
  have one: "{b. 4096 dvd b \<and> 0x80000000 \<le> b \<and> b < 0x80001000} = {0x80000000 :: nat}"
    "{b. 4096 dvd b \<and> 0x80001000 \<le> b \<and> b < 0x80002000} = {0x80001000 :: nat}"
    using page [of "0x80000000"] page [of "0x80001000"] by simp_all
  then have "pool_pages System (managers mm) = {0x80000000, 0x80001000}"
    using m0(2,3) m1(2,3) unfolding pool_pages_def mem by (simp add: i2(2) impl_pages_def insert_commute)
  moreover have "mem_pages (managers mm1) = {0x80000000}" "mem_pages (managers mm) = {0x80000000, 0x80001000}"
    using w1(3) w2(3) unfolding one by (simp_all add: insert_commute)
  moreover have "mem_state (managers mm1) 0x80000000 = (0, True)" "mem_state (managers mm) 0x80001000 = (0, True)"
    using w1(2) w2(2) by simp_all
  ultimately have "\<forall>b \<in> mem_pages (managers mm). mem_state (managers mm) b = (0, True)"
    "pool_pages System (managers mm) = {0x80000000, 0x80001000}" using w2(4) by simp_all
  then show ?thesis using i1(1) i2 w2(1) mem m0(3) m1(2)
    by (intro exI [of _ mm1] exI [of _ mm] conjI) simp_all
qed

lemma failed_allocation_keeps_page_witness:
  "\<exists>mm1 mm mm' pg'. initialize_pool System 0x80000000 0x1000 mm_new = Some mm1 \<and> initialize_pool System 0x80001000 0x1000 mm1 = Some mm \<and>
     allocate_and_open 3 (encode_option System FromFront) mm (with_block_info_manager None) None =
       Some (RESULT_OUT_OF_MEMORY, mm', pg', None) \<and> mem_state (managers mm') 0x80001000 = (0, False)"
proof -
  from touching_managers obtain mm1 mm where m: "initialize_pool System 0x80000000 0x1000 mm_new = Some mm1"
    "initialize_pool System 0x80001000 0x1000 mm1 = Some mm" "mm_wf mm" "members System (managers mm) = [0, 1]"
    "impl_end (managers mm ! 0) = 0x80001000" "impl_start (managers mm ! 1) = 0x80001000"
    "pool_pages System (managers mm) = {0x80000000, 0x80001000}" "\<forall>b \<in> mem_pages (managers mm). mem_state (managers mm) b = (0, True)" by blast
  have sub: "pool_pages System (managers mm) \<subseteq> mem_pages (managers mm)" by (rule pool_pages_sub)
  have "{b \<in> pool_pages System (managers mm). snd (mem_state (managers mm) b)} = {0x80001000 - 4096, 0x80001000}"
    using m(7,8) sub by auto
  moreover have "pg_is_empty (with_block_info_manager None)" "\<not> has_info_manager (with_block_info_manager None)"
    by (simp_all add: pg_is_empty_def with_block_info_manager_def)
  ultimately obtain mm' pg' where
    "allocate_and_open 3 (encode_option System FromFront) mm (with_block_info_manager None) None =
       Some (RESULT_OUT_OF_MEMORY, mm', pg', None)"
    "\<forall>b \<in> mem_pages (managers mm). mem_state (managers mm') b = (if b = 0x80001000 then (0, False) else mem_state (managers mm) b)"
    using failed_allocation_keeps_page [OF m(3) _ _ _ _ m(4-6), of 3 "with_block_info_manager None"] by auto
  moreover have "0x80001000 \<in> mem_pages (managers mm)" using m(7) sub by blast
  ultimately show ?thesis using m(1,2) by auto
qed

end
