(* ===== verification/PriorityQueue.thy ===== *)
theory PriorityQueue
  imports Bits "HOL-Library.Mapping"
begin

text \<open>
  The queue of runnable threads: src/core/src/hle/kernel/k_priority_queue.rs. For each core and
  priority there is a doubly linked list of the threads scheduled on the core and one of the threads
  that may migrate to it. The links of a thread, one entry per core, are kept with its cached
  properties in one map from thread ids. A priority or a core is an \<^typ>\<open>int\<close> as the code's
  \<open>i32\<close>; an array is a function with the bound check \<open>ix\<close>. The shared counter of a process is
  named by a number. The order in which a hash map is iterated is the parameter \<open>order\<close>.
\<close>

definition NUM_PRIORITY :: nat where "NUM_PRIORITY = 64"
definition NUM_CORES :: nat where "NUM_CORES = 4"
definition LOWEST_PRIORITY :: int where "LOWEST_PRIORITY = 63"
definition HIGHEST_PRIORITY :: int where "HIGHEST_PRIORITY = 0"

definition is_valid_core :: "int \<Rightarrow> bool" where
  "is_valid_core core \<longleftrightarrow> 0 \<le> core \<and> core < int NUM_CORES"

definition is_valid_priority :: "int \<Rightarrow> bool" where
  "is_valid_priority priority \<longleftrightarrow> HIGHEST_PRIORITY \<le> priority \<and> priority \<le> LOWEST_PRIORITY + 1"

section \<open>BitSet64\<close>

record BitSet64 = bits :: u64

definition bs_new :: BitSet64 where "bs_new = \<lparr>bits = 0\<rparr>"

definition bs_set_bit :: "int \<Rightarrow> BitSet64 \<Rightarrow> BitSet64" where
  "bs_set_bit b s = s\<lparr>bits := bits s OR shl 1 (nat ((63 - b) mod 64))\<rparr>"

definition bs_clear_bit :: "int \<Rightarrow> BitSet64 \<Rightarrow> BitSet64" where
  "bs_clear_bit b s = s\<lparr>bits := bits s AND NOT (shl 1 (nat ((63 - b) mod 64)))\<rparr>"

definition count_leading_zero :: "BitSet64 \<Rightarrow> nat" where
  "count_leading_zero s = (if bits s = 0 then 64 else clz (bits s))"

definition get_next_set :: "int \<Rightarrow> BitSet64 \<Rightarrow> nat" where
  "get_next_set b s =
     (let shift = 63 - b;
          masked = (if shift \<le> 0 then 0 else bits s AND (shl 1 (nat (shift mod 64)) - 1))
      in if masked = 0 then 64 else clz masked)"

section \<open>Members\<close>

record QueueEntry =
  qe_prev :: "nat option"
  qe_next :: "nat option"

definition qe_new :: QueueEntry where "qe_new = \<lparr>qe_prev = None, qe_next = None\<rparr>"

record ThreadProps =
  tp_priority :: int
  tp_active_core :: int
  tp_affinity :: u64
  tp_is_dummy :: bool
  tp_last_scheduled_tick :: int
  tp_schedule_count :: "nat option"

record MemberSlot =
  entries :: "nat \<Rightarrow> QueueEntry"
  props :: ThreadProps

definition slot_new :: "ThreadProps \<Rightarrow> MemberSlot" where
  "slot_new p = \<lparr>entries = (\<lambda>_. qe_new), props = p\<rparr>"

type_synonym MemberMap = "(nat, MemberSlot) mapping"

text \<open>\<open>if let Some(e) = entries.get_mut(&id)\<close>, and a change of its entry for the core \<open>c\<close>.\<close>

definition set_entry :: "nat \<Rightarrow> nat \<Rightarrow> (QueueEntry \<Rightarrow> QueueEntry) \<Rightarrow> MemberMap \<Rightarrow> MemberMap" where
  "set_entry c i f m = (case Mapping.lookup m i of
      None \<Rightarrow> m
    | Some s \<Rightarrow> Mapping.update i (s\<lparr>entries := (entries s)(c := f (entries s c))\<rparr>) m)"

definition get_entry :: "nat \<Rightarrow> nat \<Rightarrow> MemberMap \<Rightarrow> QueueEntry option" where
  "get_entry c i m = map_option (\<lambda>s. entries s c) (Mapping.lookup m i)"

section \<open>KPerCoreQueue\<close>

record KPerCoreQueue = roots :: "nat \<Rightarrow> QueueEntry"

definition per_core_new :: KPerCoreQueue where
  "per_core_new = \<lparr>roots = (\<lambda>_. qe_new)\<rparr>"

definition set_root :: "nat \<Rightarrow> (QueueEntry \<Rightarrow> QueueEntry) \<Rightarrow> KPerCoreQueue \<Rightarrow> KPerCoreQueue" where
  "set_root c f q = q\<lparr>roots := (roots q)(c := f (roots q c))\<rparr>"

definition per_core_push_back :: "int \<Rightarrow> nat \<Rightarrow> KPerCoreQueue \<Rightarrow> MemberMap \<Rightarrow> (bool \<times> KPerCoreQueue \<times> MemberMap) option" where
  "per_core_push_back core i q m = do {
     c \<leftarrow> ix NUM_CORES core;
     let tail_id = qe_prev (roots q c);
     case Mapping.lookup m i of
       None \<Rightarrow> Some (False, q, m)
     | Some _ \<Rightarrow>
         let m = set_entry c i (\<lambda>e. e\<lparr>qe_prev := tail_id, qe_next := None\<rparr>) m;
             (q, m) = (case tail_id of
                 Some tid \<Rightarrow> (q, set_entry c tid (\<lambda>e. e\<lparr>qe_next := Some i\<rparr>) m)
               | None \<Rightarrow> (set_root c (\<lambda>e. e\<lparr>qe_next := Some i\<rparr>) q, m))
         in Some (tail_id = None, set_root c (\<lambda>e. e\<lparr>qe_prev := Some i\<rparr>) q, m) }"

definition per_core_push_front :: "int \<Rightarrow> nat \<Rightarrow> KPerCoreQueue \<Rightarrow> MemberMap \<Rightarrow> (bool \<times> KPerCoreQueue \<times> MemberMap) option" where
  "per_core_push_front core i q m = do {
     c \<leftarrow> ix NUM_CORES core;
     let head_id = qe_next (roots q c);
     case Mapping.lookup m i of
       None \<Rightarrow> Some (False, q, m)
     | Some _ \<Rightarrow>
         let m = set_entry c i (\<lambda>e. e\<lparr>qe_prev := None, qe_next := head_id\<rparr>) m;
             (q, m) = (case head_id of
                 Some hid \<Rightarrow> (q, set_entry c hid (\<lambda>e. e\<lparr>qe_prev := Some i\<rparr>) m)
               | None \<Rightarrow> (set_root c (\<lambda>e. e\<lparr>qe_prev := Some i\<rparr>) q, m))
         in Some (head_id = None, set_root c (\<lambda>e. e\<lparr>qe_next := Some i\<rparr>) q, m) }"

definition per_core_get_front :: "int \<Rightarrow> KPerCoreQueue \<Rightarrow> nat option option" where
  "per_core_get_front core q = do { c \<leftarrow> ix NUM_CORES core; Some (qe_next (roots q c)) }"

text \<open>Both neighbours, or the roots, must point at the member; otherwise nothing is done.\<close>

definition member_is_linked :: "nat \<Rightarrow> nat \<Rightarrow> KPerCoreQueue \<Rightarrow> MemberMap \<Rightarrow> bool" where
  "member_is_linked c i q m =
     (let (prev_id, next_id) = (case get_entry c i m of None \<Rightarrow> (None, None) | Some e \<Rightarrow> (qe_prev e, qe_next e));
          prev_links = (case prev_id of None \<Rightarrow> False
            | Some p \<Rightarrow> (case get_entry c p m of None \<Rightarrow> False | Some e \<Rightarrow> qe_next e = Some i));
          next_links = (case next_id of None \<Rightarrow> False
            | Some n \<Rightarrow> (case get_entry c n m of None \<Rightarrow> False | Some e \<Rightarrow> qe_prev e = Some i))
      in (prev_id = None \<and> qe_next (roots q c) = Some i \<or> prev_id \<noteq> None \<and> prev_links) \<and>
         (next_id = None \<and> qe_prev (roots q c) = Some i \<or> next_id \<noteq> None \<and> next_links))"

definition per_core_remove :: "int \<Rightarrow> nat \<Rightarrow> KPerCoreQueue \<Rightarrow> MemberMap \<Rightarrow> (bool \<times> KPerCoreQueue \<times> MemberMap) option" where
  "per_core_remove core i q m = do {
     c \<leftarrow> ix NUM_CORES core;
     let (prev_id, next_id) = (case get_entry c i m of None \<Rightarrow> (None, None) | Some e \<Rightarrow> (qe_prev e, qe_next e));
     if \<not> member_is_linked c i q m then Some (qe_next (roots q c) = None, q, m)
     else
       let (q, m) = (case prev_id of
               Some pid \<Rightarrow> (q, set_entry c pid (\<lambda>e. e\<lparr>qe_next := next_id\<rparr>) m)
             | None \<Rightarrow> (set_root c (\<lambda>e. e\<lparr>qe_next := next_id\<rparr>) q, m));
           (q, m) = (case next_id of
               Some nid \<Rightarrow> (q, set_entry c nid (\<lambda>e. e\<lparr>qe_prev := prev_id\<rparr>) m)
             | None \<Rightarrow> (set_root c (\<lambda>e. e\<lparr>qe_prev := prev_id\<rparr>) q, m))
       in Some (qe_next (roots q c) = None, q, m) }"

text \<open>\<open>props\<close> say that the member is in the list of this core, priority and kind.\<close>

definition belongs_to_queue :: "int \<Rightarrow> int \<Rightarrow> bool \<Rightarrow> ThreadProps \<Rightarrow> bool" where
  "belongs_to_queue core priority scheduled p \<longleftrightarrow>
     tp_priority p = priority \<and> tp_affinity p AND shl 1 (nat (core mod 64)) \<noteq> 0 \<and> (tp_active_core p = core) = scheduled"

text \<open>The walk from the root, and then over the whole map; \<open>n\<close> bounds the walk.\<close>

fun walk_kept :: "nat \<Rightarrow> nat \<Rightarrow> (ThreadProps \<Rightarrow> bool) \<Rightarrow> nat \<Rightarrow> MemberMap \<Rightarrow> nat option \<Rightarrow> nat list \<Rightarrow> nat list \<Rightarrow> nat list" where
  "walk_kept 0 c belongs member_id m current kept seen = kept"
| "walk_kept (Suc n) c belongs member_id m current kept seen = (case current of
      None \<Rightarrow> kept
    | Some i \<Rightarrow>
        if i \<in> set seen then kept
        else walk_kept n c belongs member_id m
          (case get_entry c i m of None \<Rightarrow> None | Some e \<Rightarrow> qe_next e)
          (if i \<noteq> member_id \<and> (case Mapping.lookup m i of None \<Rightarrow> False | Some s \<Rightarrow> belongs (props s))
           then kept @ [i] else kept)
          (seen @ [i]))"

definition adopt_kept :: "nat \<Rightarrow> (ThreadProps \<Rightarrow> bool) \<Rightarrow> nat \<Rightarrow> nat option \<Rightarrow> MemberMap \<Rightarrow> nat list \<Rightarrow> nat list \<Rightarrow> nat list" where
  "adopt_kept c belongs member_id old_tail m order_of_keys kept =
     fold (\<lambda>i kept. case Mapping.lookup m i of
          None \<Rightarrow> kept
        | Some s \<Rightarrow>
            if i = member_id \<or> i \<in> set kept \<or> \<not> belongs (props s) then kept
            else if old_tail = Some i \<or> qe_prev (entries s c) = Some member_id \<or> qe_next (entries s c) = Some member_id
            then kept @ [i] else kept)
       order_of_keys kept"

definition first_of :: "nat list \<Rightarrow> nat option" where
  "first_of xs = (case xs of [] \<Rightarrow> None | x # _ \<Rightarrow> Some x)"

definition last_of :: "nat list \<Rightarrow> nat option" where
  "last_of xs = (if xs = [] then None else Some (last xs))"

fun relink :: "nat \<Rightarrow> nat option \<Rightarrow> nat list \<Rightarrow> MemberMap \<Rightarrow> MemberMap" where
  "relink c before [] m = m"
| "relink c before (i # xs) m =
     relink c (Some i) xs (set_entry c i (\<lambda>e. e\<lparr>qe_prev := before, qe_next := first_of xs\<rparr>) m)"

definition remove_all_matching ::
  "(nat list \<Rightarrow> nat list) \<Rightarrow> int \<Rightarrow> int \<Rightarrow> bool \<Rightarrow> nat \<Rightarrow> KPerCoreQueue \<Rightarrow> MemberMap \<Rightarrow> (bool \<times> KPerCoreQueue \<times> MemberMap) option" where
  "remove_all_matching order core priority scheduled member_id q m = do {
     c \<leftarrow> ix NUM_CORES core;
     let belongs = belongs_to_queue core priority scheduled;
     let kept = walk_kept (Mapping.size m + 1) c belongs member_id m (qe_next (roots q c)) [] [];
     let kept = adopt_kept c belongs member_id (qe_prev (roots q c)) m (order (Mapping.ordered_keys m)) kept;
     let q = set_root c (\<lambda>_. \<lparr>qe_prev = last_of kept, qe_next = first_of kept\<rparr>) q;
     let m = relink c None kept m;
     let m = set_entry c member_id (\<lambda>e. e\<lparr>qe_prev := None, qe_next := None\<rparr>) m;
     Some (qe_next (roots q c) = None, q, m) }"

section \<open>KPriorityQueueImpl\<close>

record KPriorityQueueImpl =
  queues :: "nat \<Rightarrow> KPerCoreQueue"
  available_priorities :: "nat \<Rightarrow> BitSet64"

type_synonym queue_step = "KPriorityQueueImpl \<Rightarrow> MemberMap \<Rightarrow> (KPriorityQueueImpl \<times> MemberMap) option"

definition pqi_new :: KPriorityQueueImpl where
  "pqi_new = \<lparr>queues = (\<lambda>_. per_core_new), available_priorities = (\<lambda>_. bs_new)\<rparr>"

definition set_available :: "(BitSet64 \<Rightarrow> BitSet64) \<Rightarrow> nat \<Rightarrow> KPriorityQueueImpl \<Rightarrow> KPriorityQueueImpl" where
  "set_available f c q = q\<lparr>available_priorities := (available_priorities q)(c := f (available_priorities q c))\<rparr>"

definition pqi_push_back :: "int \<Rightarrow> int \<Rightarrow> nat \<Rightarrow> queue_step" where
  "pqi_push_back priority core i q m =
     (if LOWEST_PRIORITY < priority then Some (q, m)
      else do {
        p \<leftarrow> ix NUM_PRIORITY priority;
        (was_empty, l, m) \<leftarrow> per_core_push_back core i (queues q p) m;
        let q = q\<lparr>queues := (queues q)(p := l)\<rparr>;
        Some (if was_empty then set_available (bs_set_bit priority) (nat core) q else q, m) })"

definition pqi_push_front :: "int \<Rightarrow> int \<Rightarrow> nat \<Rightarrow> queue_step" where
  "pqi_push_front priority core i q m =
     (if LOWEST_PRIORITY < priority then Some (q, m)
      else do {
        p \<leftarrow> ix NUM_PRIORITY priority;
        (was_empty, l, m) \<leftarrow> per_core_push_front core i (queues q p) m;
        let q = q\<lparr>queues := (queues q)(p := l)\<rparr>;
        Some (if was_empty then set_available (bs_set_bit priority) (nat core) q else q, m) })"

definition pqi_remove :: "int \<Rightarrow> int \<Rightarrow> nat \<Rightarrow> queue_step" where
  "pqi_remove priority core i q m =
     (if LOWEST_PRIORITY < priority then Some (q, m)
      else do {
        p \<leftarrow> ix NUM_PRIORITY priority;
        (now_empty, l, m) \<leftarrow> per_core_remove core i (queues q p) m;
        let q = q\<lparr>queues := (queues q)(p := l)\<rparr>;
        Some (if now_empty then set_available (bs_clear_bit priority) (nat core) q else q, m) })"

definition pqi_get_front_at_priority :: "int \<Rightarrow> int \<Rightarrow> KPriorityQueueImpl \<Rightarrow> nat option option" where
  "pqi_get_front_at_priority priority core q =
     (if priority \<le> LOWEST_PRIORITY
      then do { p \<leftarrow> ix NUM_PRIORITY priority; per_core_get_front core (queues q p) }
      else Some None)"

definition pqi_get_front :: "int \<Rightarrow> KPriorityQueueImpl \<Rightarrow> nat option option" where
  "pqi_get_front core q = do {
     c \<leftarrow> ix NUM_CORES core;
     let priority = int (count_leading_zero (available_priorities q c));
     if priority \<le> LOWEST_PRIORITY
     then do { p \<leftarrow> ix NUM_PRIORITY priority; per_core_get_front core (queues q p) }
     else Some None }"

definition pqi_get_next :: "int \<Rightarrow> nat \<Rightarrow> int \<Rightarrow> KPriorityQueueImpl \<Rightarrow> MemberMap \<Rightarrow> nat option option" where
  "pqi_get_next core member_id member_priority q m = do {
     nxt \<leftarrow> (case Mapping.lookup m member_id of
         None \<Rightarrow> Some None
       | Some s \<Rightarrow> do { c \<leftarrow> ix NUM_CORES core; Some (qe_next (entries s c)) });
     if nxt \<noteq> None then Some nxt
     else do {
       c \<leftarrow> ix NUM_CORES core;
       let next_priority = int (get_next_set member_priority (available_priorities q c));
       if next_priority \<le> LOWEST_PRIORITY
       then do { p \<leftarrow> ix NUM_PRIORITY next_priority; per_core_get_front core (queues q p) }
       else Some None } }"

definition pqi_move_to_front :: "int \<Rightarrow> int \<Rightarrow> nat \<Rightarrow> queue_step" where
  "pqi_move_to_front priority core i q m =
     (if priority \<le> LOWEST_PRIORITY then do {
        p \<leftarrow> ix NUM_PRIORITY priority;
        (_, l, m) \<leftarrow> per_core_remove core i (queues q p) m;
        (_, l, m) \<leftarrow> per_core_push_front core i l m;
        Some (q\<lparr>queues := (queues q)(p := l)\<rparr>, m) }
      else Some (q, m))"

definition pqi_move_to_back ::
  "int \<Rightarrow> int \<Rightarrow> nat \<Rightarrow> KPriorityQueueImpl \<Rightarrow> MemberMap \<Rightarrow> (nat option \<times> KPriorityQueueImpl \<times> MemberMap) option" where
  "pqi_move_to_back priority core i q m =
     (if priority \<le> LOWEST_PRIORITY then do {
        p \<leftarrow> ix NUM_PRIORITY priority;
        (_, l, m) \<leftarrow> per_core_remove core i (queues q p) m;
        (_, l, m) \<leftarrow> per_core_push_back core i l m;
        front \<leftarrow> per_core_get_front core l;
        Some (front, q\<lparr>queues := (queues q)(p := l)\<rparr>, m) }
      else Some (None, q, m))"

text \<open>The purge of a member from one list, with the availability of the list's priority.\<close>

definition purge :: "(nat list \<Rightarrow> nat list) \<Rightarrow> int \<Rightarrow> bool \<Rightarrow> int \<Rightarrow> nat \<Rightarrow> queue_step" where
  "purge order priority scheduled core i q m = do {
     p \<leftarrow> ix NUM_PRIORITY priority;
     (now_empty, l, m) \<leftarrow> remove_all_matching order core priority scheduled i (queues q p) m;
     let q = q\<lparr>queues := (queues q)(p := l)\<rparr>;
     Some (if now_empty then set_available (bs_clear_bit priority) (nat core) q else q, m) }"

section \<open>KPriorityQueue\<close>

record KPriorityQueue =
  scheduled_queue :: KPriorityQueueImpl
  suggested_queue :: KPriorityQueueImpl
  members :: MemberMap

definition pq_new :: KPriorityQueue where
  "pq_new = \<lparr>scheduled_queue = pqi_new, suggested_queue = pqi_new, members = Mapping.empty\<rparr>"

definition on_scheduled :: "queue_step \<Rightarrow> KPriorityQueue \<Rightarrow> KPriorityQueue option" where
  "on_scheduled f q = do {
     (l, m) \<leftarrow> f (scheduled_queue q) (members q);
     Some (q\<lparr>scheduled_queue := l, members := m\<rparr>) }"

definition on_suggested :: "queue_step \<Rightarrow> KPriorityQueue \<Rightarrow> KPriorityQueue option" where
  "on_suggested f q = do {
     (l, m) \<leftarrow> f (suggested_queue q) (members q);
     Some (q\<lparr>suggested_queue := l, members := m\<rparr>) }"

definition clear_affinity_bit :: "int \<Rightarrow> u64 \<Rightarrow> u64" where
  "clear_affinity_bit core affinity = affinity AND NOT (shl 1 (nat (core mod 64)))"

definition get_next_core :: "u64 \<Rightarrow> int \<times> u64" where
  "get_next_core affinity = (let core = int (ctz affinity) in (core, clear_affinity_bit core affinity))"

lemma shl_1_eq: "shl (1 :: u64) (nat (k mod 64)) = 2 ^ nat (k mod 64)"
proof -
  have "nat (k mod 64) < 64" by (simp add: nat_less_iff)
  then show ?thesis by (simp add: push_bit_eq_mult)
qed

lemma clear_affinity_bit_bit: "bit (clear_affinity_bit k a) n \<longleftrightarrow> bit a n \<and> int n \<noteq> k mod 64"
proof -
  have "nat (k mod 64) < LENGTH(64)" by (simp add: nat_less_iff)
  from andnot_bit_iff [OF this, of a n] show ?thesis
    unfolding clear_affinity_bit_def shl_1_eq by auto
qed

lemma get_next_core_less:
  assumes "a \<noteq> 0"
  shows "unat (snd (get_next_core a)) < unat a"
proof -
  have c: "ctz a < 64" using ctz_lt_iff [of a] assms by simp
  let ?b = "clear_affinity_bit (int (ctz a)) a"
  have "?b \<noteq> a" using bit_ctz [OF assms] c clear_affinity_bit_bit [of "int (ctz a)" a "ctz a"] by auto
  moreover have "?b \<le> a" unfolding clear_affinity_bit_def by (rule word_and_le2)
  ultimately have "?b < a" by simp
  then show ?thesis by (simp add: get_next_core_def Let_def word_less_nat_alt)
qed

text \<open>\<open>while affinity != 0 { f(get_next_core(&mut affinity)) }\<close>.\<close>

function over_affinity :: "(int \<Rightarrow> 'a \<Rightarrow> 'a option) \<Rightarrow> u64 \<Rightarrow> 'a \<Rightarrow> 'a option" where
  "over_affinity f affinity st =
     (if affinity = 0 then Some st
      else do {
        st \<leftarrow> f (fst (get_next_core affinity)) st;
        over_affinity f (snd (get_next_core affinity)) st })"
  by pat_completeness auto
termination
  by (relation "measure (\<lambda>(f, affinity, st). unat affinity)") (simp_all add: get_next_core_less)

declare over_affinity.simps [simp del]

definition get_thread_props :: "nat \<Rightarrow> KPriorityQueue \<Rightarrow> ThreadProps option" where
  "get_thread_props i q = map_option props (Mapping.lookup (members q) i)"

text \<open>The counters that the processes share with the queue; \<open>fetch_add\<close> wraps around.\<close>

type_synonym schedule_counts = "nat \<Rightarrow> 64 word"

definition increment_scheduled_count :: "nat \<Rightarrow> KPriorityQueue \<Rightarrow> schedule_counts \<Rightarrow> schedule_counts" where
  "increment_scheduled_count i q counts = (case get_thread_props i q of
      None \<Rightarrow> counts
    | Some p \<Rightarrow> (case tp_schedule_count p of None \<Rightarrow> counts | Some k \<Rightarrow> counts(k := counts k + 1)))"

definition set_props :: "nat \<Rightarrow> (ThreadProps \<Rightarrow> ThreadProps) \<Rightarrow> KPriorityQueue \<Rightarrow> KPriorityQueue" where
  "set_props i f q = (case Mapping.lookup (members q) i of
      None \<Rightarrow> q
    | Some s \<Rightarrow> q\<lparr>members := Mapping.update i (s\<lparr>props := f (props s)\<rparr>) (members q)\<rparr>)"

definition set_last_scheduled_tick :: "nat \<Rightarrow> int \<Rightarrow> KPriorityQueue \<Rightarrow> KPriorityQueue" where
  "set_last_scheduled_tick i tick q = set_props i (\<lambda>p. p\<lparr>tp_last_scheduled_tick := tick\<rparr>) q"

definition get_scheduled_front :: "int \<Rightarrow> KPriorityQueue \<Rightarrow> nat option option" where
  "get_scheduled_front core q = pqi_get_front core (scheduled_queue q)"

definition get_scheduled_front_at_priority :: "int \<Rightarrow> int \<Rightarrow> KPriorityQueue \<Rightarrow> nat option option" where
  "get_scheduled_front_at_priority core priority q = pqi_get_front_at_priority priority core (scheduled_queue q)"

definition get_suggested_front :: "int \<Rightarrow> KPriorityQueue \<Rightarrow> nat option option" where
  "get_suggested_front core q = pqi_get_front core (suggested_queue q)"

definition get_suggested_front_at_priority :: "int \<Rightarrow> int \<Rightarrow> KPriorityQueue \<Rightarrow> nat option option" where
  "get_suggested_front_at_priority core priority q = pqi_get_front_at_priority priority core (suggested_queue q)"

definition get_scheduled_next :: "int \<Rightarrow> nat \<Rightarrow> int \<Rightarrow> KPriorityQueue \<Rightarrow> nat option option" where
  "get_scheduled_next core i priority q = pqi_get_next core i priority (scheduled_queue q) (members q)"

definition get_suggested_next :: "int \<Rightarrow> nat \<Rightarrow> int \<Rightarrow> KPriorityQueue \<Rightarrow> nat option option" where
  "get_suggested_next core i priority q = pqi_get_next core i priority (suggested_queue q) (members q)"

definition get_same_priority_next :: "int \<Rightarrow> nat \<Rightarrow> KPriorityQueue \<Rightarrow> nat option option" where
  "get_same_priority_next core i q = (case Mapping.lookup (members q) i of
      None \<Rightarrow> Some None
    | Some s \<Rightarrow> do { c \<leftarrow> ix NUM_CORES core; Some (qe_next (entries s c)) })"

definition push_back_impl :: "int \<Rightarrow> nat \<Rightarrow> int \<Rightarrow> u64 \<Rightarrow> KPriorityQueue \<Rightarrow> KPriorityQueue option" where
  "push_back_impl priority i active_core affinity q = do {
     q \<leftarrow> (if 0 \<le> active_core then on_scheduled (pqi_push_back priority active_core i) q else Some q);
     let affinity = (if 0 \<le> active_core then clear_affinity_bit active_core affinity else affinity);
     over_affinity (\<lambda>core. on_suggested (pqi_push_back priority core i)) affinity q }"

definition push_front_impl :: "int \<Rightarrow> nat \<Rightarrow> int \<Rightarrow> u64 \<Rightarrow> KPriorityQueue \<Rightarrow> KPriorityQueue option" where
  "push_front_impl priority i active_core affinity q = do {
     q \<leftarrow> (if 0 \<le> active_core then on_scheduled (pqi_push_front priority active_core i) q else Some q);
     let affinity = (if 0 \<le> active_core then clear_affinity_bit active_core affinity else affinity);
     over_affinity (\<lambda>core. on_suggested (pqi_push_back priority core i)) affinity q }"

definition remove_impl :: "int \<Rightarrow> nat \<Rightarrow> int \<Rightarrow> u64 \<Rightarrow> KPriorityQueue \<Rightarrow> KPriorityQueue option" where
  "remove_impl priority i active_core affinity q = do {
     q \<leftarrow> (if 0 \<le> active_core then on_scheduled (pqi_remove priority active_core i) q else Some q);
     let affinity = (if 0 \<le> active_core then clear_affinity_bit active_core affinity else affinity);
     over_affinity (\<lambda>core. on_suggested (pqi_remove priority core i)) affinity q }"

definition remove_all_expected_impl ::
  "(nat list \<Rightarrow> nat list) \<Rightarrow> int \<Rightarrow> nat \<Rightarrow> int \<Rightarrow> u64 \<Rightarrow> KPriorityQueue \<Rightarrow> KPriorityQueue option" where
  "remove_all_expected_impl order priority i active_core affinity q = do {
     q \<leftarrow> (if 0 \<le> active_core then on_scheduled (purge order priority True active_core i) q else Some q);
     let affinity = (if 0 \<le> active_core then clear_affinity_bit active_core affinity else affinity);
     over_affinity (\<lambda>core. on_suggested (purge order priority False core i)) affinity q }"

text \<open>The members that enter or stay: their old lists are left, their links kept, their properties replaced.\<close>

definition enter_member :: "nat \<Rightarrow> ThreadProps \<Rightarrow> KPriorityQueue \<Rightarrow> KPriorityQueue option" where
  "enter_member i p q = do {
     q \<leftarrow> (case get_thread_props i q of
        None \<Rightarrow> Some q
      | Some existing \<Rightarrow> remove_impl (tp_priority existing) i (tp_active_core existing) (tp_affinity existing) q);
     Some (case Mapping.lookup (members q) i of
        Some slot \<Rightarrow> q\<lparr>members := Mapping.update i (slot\<lparr>props := p\<rparr>) (members q)\<rparr>
      | None \<Rightarrow> q\<lparr>members := Mapping.update i (slot_new p) (members q)\<rparr>) }"

definition pq_push_back :: "nat \<Rightarrow> int \<Rightarrow> int \<Rightarrow> u64 \<Rightarrow> bool \<Rightarrow> nat option \<Rightarrow> KPriorityQueue \<Rightarrow> KPriorityQueue option" where
  "pq_push_back i priority active_core affinity is_dummy count q =
     (if is_dummy then Some q
      else do {
        q \<leftarrow> enter_member i \<lparr>tp_priority = priority, tp_active_core = active_core, tp_affinity = affinity,
          tp_is_dummy = is_dummy, tp_last_scheduled_tick = 0, tp_schedule_count = count\<rparr> q;
        push_back_impl priority i active_core affinity q })"

definition pq_push_front :: "nat \<Rightarrow> int \<Rightarrow> int \<Rightarrow> u64 \<Rightarrow> bool \<Rightarrow> nat option \<Rightarrow> KPriorityQueue \<Rightarrow> KPriorityQueue option" where
  "pq_push_front i priority active_core affinity is_dummy count q =
     (if is_dummy then Some q
      else do {
        q \<leftarrow> enter_member i \<lparr>tp_priority = priority, tp_active_core = active_core, tp_affinity = affinity,
          tp_is_dummy = is_dummy, tp_last_scheduled_tick = 0, tp_schedule_count = count\<rparr> q;
        push_front_impl priority i active_core affinity q })"

definition pq_remove :: "(nat list \<Rightarrow> nat list) \<Rightarrow> nat \<Rightarrow> int \<Rightarrow> int \<Rightarrow> u64 \<Rightarrow> bool \<Rightarrow> KPriorityQueue \<Rightarrow> KPriorityQueue option" where
  "pq_remove order i priority active_core affinity is_dummy q =
     (if is_dummy then Some q
      else do {
        let (priority, active_core, affinity) = (case get_thread_props i q of
            Some existing \<Rightarrow> (tp_priority existing, tp_active_core existing, tp_affinity existing)
          | None \<Rightarrow> (priority, active_core, affinity));
        q \<leftarrow> remove_impl priority i active_core affinity q;
        q \<leftarrow> remove_all_expected_impl order priority i active_core affinity q;
        Some (q\<lparr>members := Mapping.delete i (members q)\<rparr>) })"

text \<open>The cached priority and core of a member, or the caller's.\<close>

definition cached_position :: "nat \<Rightarrow> int \<Rightarrow> int \<Rightarrow> KPriorityQueue \<Rightarrow> int \<times> int" where
  "cached_position i priority active_core q = (case get_thread_props i q of
      Some p \<Rightarrow> (tp_priority p, tp_active_core p) | None \<Rightarrow> (priority, active_core))"

definition move_to_scheduled_front :: "nat \<Rightarrow> int \<Rightarrow> int \<Rightarrow> bool \<Rightarrow> KPriorityQueue \<Rightarrow> KPriorityQueue option" where
  "move_to_scheduled_front i priority active_core is_dummy q =
     (if is_dummy then Some q
      else let (priority, active_core) = cached_position i priority active_core q
        in on_scheduled (pqi_move_to_front priority active_core i) q)"

definition move_to_scheduled_back :: "nat \<Rightarrow> int \<Rightarrow> int \<Rightarrow> bool \<Rightarrow> KPriorityQueue \<Rightarrow> (nat option \<times> KPriorityQueue) option" where
  "move_to_scheduled_back i priority active_core is_dummy q =
     (if is_dummy then Some (None, q)
      else let (priority, active_core) = cached_position i priority active_core q
        in do {
          (front, l, m) \<leftarrow> pqi_move_to_back priority active_core i (scheduled_queue q) (members q);
          Some (front, q\<lparr>scheduled_queue := l, members := m\<rparr>) })"

definition pq_change_priority ::
  "int \<Rightarrow> bool \<Rightarrow> nat \<Rightarrow> int \<Rightarrow> int \<Rightarrow> u64 \<Rightarrow> bool \<Rightarrow> KPriorityQueue \<Rightarrow> KPriorityQueue option" where
  "pq_change_priority prev_priority is_running i new_priority active_core affinity is_dummy q =
     (if is_dummy then Some q
      else do {
        let (active_core, affinity) = (case get_thread_props i q of
            Some p \<Rightarrow> (tp_active_core p, tp_affinity p) | None \<Rightarrow> (active_core, affinity));
        q \<leftarrow> remove_impl prev_priority i active_core affinity q;
        q \<leftarrow> (if is_running then push_front_impl new_priority i active_core affinity q
              else push_back_impl new_priority i active_core affinity q);
        Some (set_props i (\<lambda>p. p\<lparr>tp_priority := new_priority\<rparr>) q) })"

text \<open>One of the two loops over the cores: \<open>f\<close> on the scheduled or the suggested queue of each core of the mask.\<close>

fun over_cores :: "nat list \<Rightarrow> u64 \<Rightarrow> int \<Rightarrow> (int \<Rightarrow> queue_step) \<Rightarrow> KPriorityQueue \<Rightarrow> KPriorityQueue option" where
  "over_cores [] affinity active_core f q = Some q"
| "over_cores (core # cs) affinity active_core f q = do {
     q \<leftarrow> (if affinity AND shl 1 core \<noteq> 0
       then if int core = active_core then on_scheduled (f (int core)) q else on_suggested (f (int core)) q
       else Some q);
     over_cores cs affinity active_core f q }"

definition pq_change_affinity_mask ::
  "int \<Rightarrow> u64 \<Rightarrow> nat \<Rightarrow> int \<Rightarrow> u64 \<Rightarrow> int \<Rightarrow> bool \<Rightarrow> KPriorityQueue \<Rightarrow> KPriorityQueue option" where
  "pq_change_affinity_mask prev_core prev_affinity i new_core new_affinity priority is_dummy q =
     (if is_dummy then Some q
      else do {
        q \<leftarrow> over_cores [0..<NUM_CORES] prev_affinity prev_core (\<lambda>core. pqi_remove priority core i) q;
        q \<leftarrow> over_cores [0..<NUM_CORES] new_affinity new_core (\<lambda>core. pqi_push_back priority core i) q;
        Some (set_props i (\<lambda>p. p\<lparr>tp_active_core := new_core, tp_affinity := new_affinity\<rparr>) q) })"

definition pq_change_core ::
  "(nat list \<Rightarrow> nat list) \<Rightarrow> int \<Rightarrow> nat \<Rightarrow> int \<Rightarrow> int \<Rightarrow> bool \<Rightarrow> bool \<Rightarrow> KPriorityQueue \<Rightarrow> KPriorityQueue option" where
  "pq_change_core order prev_core i new_core priority is_dummy to_front q =
     (if is_dummy then Some q
      else if prev_core \<noteq> new_core then do {
        q \<leftarrow> (if 0 \<le> prev_core then on_scheduled (purge order priority True prev_core i) q else Some q);
        q \<leftarrow> (if 0 \<le> new_core then do {
            q \<leftarrow> on_suggested (pqi_remove priority new_core i) q;
            if to_front then on_scheduled (pqi_push_front priority new_core i) q
            else on_scheduled (pqi_push_back priority new_core i) q }
          else Some q);
        q \<leftarrow> (if 0 \<le> prev_core then on_suggested (pqi_push_back priority prev_core i) q else Some q);
        Some (set_props i (\<lambda>p. p\<lparr>tp_active_core := new_core\<rparr>) q) }
      else Some q)"

end
