(* ===== verification/PriorityQueueLists.thy ===== *)
theory PriorityQueueLists
  imports PriorityQueue
begin

text \<open>
  The lists that the links of the priority queue stand for: when a per-core queue and the map of
  members hold a given list, and what pushing, removing and purging do to it.
\<close>

section \<open>Entries\<close>

definition props_at :: "nat \<Rightarrow> MemberMap \<Rightarrow> ThreadProps option" where
  "props_at i m = map_option props (Mapping.lookup m i)"

lemma props_at_None [simp]: "props_at i m = None \<longleftrightarrow> Mapping.lookup m i = None"
  by (simp add: props_at_def)

lemma props_at_keys: "Mapping.keys m = {i. props_at i m \<noteq> None}"
  by (auto simp: keys_dom_lookup)

lemma props_at_set [simp]: "props_at j (set_entry c i f m) = props_at j m"
  by (simp add: props_at_def set_entry_def lookup_update' split: option.split)

lemma get_entry_set:
  "get_entry c' j (set_entry c i f m) = (if c' = c \<and> j = i then map_option f (get_entry c i m) else get_entry c' j m)"
  by (auto simp: get_entry_def set_entry_def lookup_update' split: option.split)

lemma get_entry_None: "get_entry c i m = None \<longleftrightarrow> Mapping.lookup m i = None"
  by (simp add: get_entry_def)

text \<open>Only entries of the core \<open>c\<close> of the members \<open>S\<close> differ.\<close>

definition changes :: "nat \<Rightarrow> nat set \<Rightarrow> MemberMap \<Rightarrow> MemberMap \<Rightarrow> bool" where
  "changes c S m m' \<longleftrightarrow> (\<forall>j. props_at j m' = props_at j m) \<and>
     (\<forall>c' j. c' \<noteq> c \<or> j \<notin> S \<longrightarrow> get_entry c' j m' = get_entry c' j m)"

lemma changes_refl [simp]: "changes c S m m"
  by (simp add: changes_def)

lemma changes_set [intro]: "i \<in> S \<Longrightarrow> changes c S m m' \<Longrightarrow> changes c S m (set_entry c i f m')"
  by (auto simp: changes_def get_entry_set)

lemma changes_trans: "changes c S m m1 \<Longrightarrow> changes c S m1 m2 \<Longrightarrow> changes c S m m2"
  by (auto simp: changes_def)

lemma changes_mono: "changes c S m m' \<Longrightarrow> S \<subseteq> T \<Longrightarrow> changes c T m m'"
  by (auto simp: changes_def)

lemma changes_keys: "changes c S m m' \<Longrightarrow> Mapping.keys m' = Mapping.keys m"
  by (simp add: changes_def props_at_keys)

section \<open>Doubly linked lists\<close>

definition head_or :: "nat option \<Rightarrow> nat list \<Rightarrow> nat option" where
  "head_or a xs = (case xs of [] \<Rightarrow> a | x # _ \<Rightarrow> Some x)"

definition end_or :: "nat option \<Rightarrow> nat list \<Rightarrow> nat option" where
  "end_or b xs = (if xs = [] then b else Some (last xs))"

lemma head_or_simps [simp]: "head_or a [] = a" "head_or a (x # xs) = Some x"
  by (simp_all add: head_or_def)

lemma end_or_simps [simp]: "end_or b [] = b" "end_or b (xs @ [x]) = Some x" "end_or b (x # xs) = end_or (Some x) xs"
  by (simp_all add: end_or_def)

lemma head_or_append: "head_or a (xs @ ys) = head_or (head_or a ys) xs"
  by (cases xs) simp_all

lemma end_or_append: "end_or b (xs @ ys) = end_or (end_or b xs) ys"
  by (simp add: end_or_def)

lemma first_of_head: "first_of xs = head_or None xs"
  by (simp add: first_of_def head_or_def)

lemma last_of_end: "last_of xs = end_or None xs"
  by (simp add: last_of_def end_or_def)

fun dll :: "(nat \<Rightarrow> QueueEntry option) \<Rightarrow> nat option \<Rightarrow> nat list \<Rightarrow> nat option \<Rightarrow> bool" where
  "dll L before [] after \<longleftrightarrow> True"
| "dll L before (x # xs) after \<longleftrightarrow>
     L x = Some \<lparr>qe_prev = before, qe_next = head_or after xs\<rparr> \<and> dll L (Some x) xs after"

lemma dll_append:
  "dll L b (xs @ ys) a \<longleftrightarrow> dll L b xs (head_or a ys) \<and> dll L (end_or b xs) ys a"
  by (induction xs arbitrary: b) (auto simp: head_or_append)

lemma dll_cong: "(\<And>j. j \<in> set xs \<Longrightarrow> L j = L' j) \<Longrightarrow> dll L b xs a = dll L' b xs a"
  by (induction xs arbitrary: b) simp_all

lemma dll_known: "dll L b xs a \<Longrightarrow> j \<in> set xs \<Longrightarrow> L j \<noteq> None"
  by (induction xs arbitrary: b) auto

text \<open>A per-core queue and the members hold the list \<open>xs\<close> for the core \<open>c\<close>.\<close>

definition list_ok :: "nat \<Rightarrow> KPerCoreQueue \<Rightarrow> MemberMap \<Rightarrow> nat list \<Rightarrow> bool" where
  "list_ok c q m xs \<longleftrightarrow> roots q c = \<lparr>qe_prev = end_or None xs, qe_next = head_or None xs\<rparr> \<and>
     dll (\<lambda>j. get_entry c j m) None xs None \<and> distinct xs"

definition other_roots :: "nat \<Rightarrow> KPerCoreQueue \<Rightarrow> KPerCoreQueue \<Rightarrow> bool" where
  "other_roots c q q' \<longleftrightarrow> (\<forall>c'. c' \<noteq> c \<longrightarrow> roots q' c' = roots q c')"

lemma list_ok_cong:
  assumes "list_ok c q m xs" "roots q' c = roots q c" "\<And>j. j \<in> set xs \<Longrightarrow> get_entry c j m' = get_entry c j m"
  shows "list_ok c q' m' xs"
proof -
  have "dll (\<lambda>j. get_entry c j m') None xs None = dll (\<lambda>j. get_entry c j m) None xs None"
    by (rule dll_cong) (rule assms(3))
  then show ?thesis using assms(1,2) by (simp add: list_ok_def)
qed

lemma list_ok_known: "list_ok c q m xs \<Longrightarrow> j \<in> set xs \<Longrightarrow> Mapping.lookup m j \<noteq> None"
  using dll_known [of "\<lambda>j. get_entry c j m"] by (auto simp: list_ok_def get_entry_None)

lemma roots_set_root: "roots (set_root c f q) c' = (if c' = c then f (roots q c) else roots q c')"
  by (simp add: set_root_def)

lemma entry_eq: "e\<lparr>qe_prev := p, qe_next := n\<rparr> = \<lparr>qe_prev = p, qe_next = n\<rparr>" for e :: QueueEntry
  by (cases e) simp

section \<open>Pushing\<close>

lemma push_back_ok:
  assumes "c < NUM_CORES" "list_ok c q m xs" "i \<notin> set xs" "Mapping.lookup m i \<noteq> None"
  shows "\<exists>q' m'. per_core_push_back (int c) i q m = Some (xs = [], q', m') \<and> list_ok c q' m' (xs @ [i]) \<and>
    other_roots c q q' \<and> changes c (insert i (set xs)) m m'"
proof -
  have ok: "roots q c = \<lparr>qe_prev = end_or None xs, qe_next = head_or None xs\<rparr>"
    "dll (\<lambda>j. get_entry c j m) None xs None" "distinct xs" using assms(2) by (simp_all add: list_ok_def)
  obtain s where s: "Mapping.lookup m i = Some s" using assms(4) by blast
  let ?m1 = "set_entry c i (\<lambda>e. e\<lparr>qe_prev := end_or None xs, qe_next := None\<rparr>) m"
  have e1: "get_entry c i ?m1 = Some \<lparr>qe_prev = end_or None xs, qe_next = None\<rparr>"
    using s by (simp add: get_entry_set) (simp add: get_entry_def entry_eq)
  show ?thesis
  proof (cases xs rule: rev_cases)
    case Nil
    let ?q = "set_root c (\<lambda>e. e\<lparr>qe_prev := Some i\<rparr>) (set_root c (\<lambda>e. e\<lparr>qe_next := Some i\<rparr>) q)"
    have "per_core_push_back (int c) i q m = Some (True, ?q, ?m1)"
      using assms(1) s ok(1) Nil by (simp add: per_core_push_back_def Let_def)
    moreover have "list_ok c ?q ?m1 [i]" using e1 ok(1) Nil by (simp add: list_ok_def roots_set_root)
    moreover have "other_roots c q ?q" by (simp add: other_roots_def roots_set_root)
    moreover have "changes c (insert i (set xs)) m ?m1" by (intro changes_set changes_refl) simp
    ultimately show ?thesis using Nil by (intro exI [of _ ?q] exI [of _ ?m1]) simp
  next
    case (snoc ys y)
    let ?m2 = "set_entry c y (\<lambda>e. e\<lparr>qe_next := Some i\<rparr>) ?m1"
    let ?q = "set_root c (\<lambda>e. e\<lparr>qe_prev := Some i\<rparr>) q"
    have y: "y \<noteq> i" "y \<notin> set ys" "i \<notin> set ys" using assms(3) ok(3) snoc by auto
    have d: "dll (\<lambda>j. get_entry c j m) None ys (Some y)" "get_entry c y m = Some \<lparr>qe_prev = end_or None ys, qe_next = None\<rparr>"
      using ok(2) by (simp_all add: snoc dll_append)
    have "dll (\<lambda>j. get_entry c j ?m2) None ys (Some y)"
      using d(1) y by (subst dll_cong [of _ _ "\<lambda>j. get_entry c j m"]) (auto simp: get_entry_set)
    moreover have "get_entry c y ?m2 = Some \<lparr>qe_prev = end_or None ys, qe_next = Some i\<rparr>"
      using d(2) y by (simp add: get_entry_set)
    moreover have "get_entry c i ?m2 = Some \<lparr>qe_prev = Some y, qe_next = None\<rparr>"
      using e1 y(1) snoc by (simp add: get_entry_set)
    ultimately have "list_ok c ?q ?m2 (xs @ [i])"
      using ok(1,3) y snoc by (auto simp: list_ok_def roots_set_root dll_append head_or_append end_or_append)
    moreover have "per_core_push_back (int c) i q m = Some (False, ?q, ?m2)"
      using assms(1) s ok(1) snoc by (simp add: per_core_push_back_def Let_def)
    moreover have "other_roots c q ?q" by (simp add: other_roots_def roots_set_root)
    moreover have "changes c (insert i (set xs)) m ?m2" using snoc by (intro changes_set changes_refl) auto
    ultimately show ?thesis using snoc by (intro exI [of _ ?q] exI [of _ ?m2]) simp
  qed
qed

lemma push_front_ok:
  assumes "c < NUM_CORES" "list_ok c q m xs" "i \<notin> set xs" "Mapping.lookup m i \<noteq> None"
  shows "\<exists>q' m'. per_core_push_front (int c) i q m = Some (xs = [], q', m') \<and> list_ok c q' m' (i # xs) \<and>
    other_roots c q q' \<and> changes c (insert i (set xs)) m m'"
proof -
  have ok: "roots q c = \<lparr>qe_prev = end_or None xs, qe_next = head_or None xs\<rparr>"
    "dll (\<lambda>j. get_entry c j m) None xs None" "distinct xs" using assms(2) by (simp_all add: list_ok_def)
  obtain s where s: "Mapping.lookup m i = Some s" using assms(4) by blast
  let ?m1 = "set_entry c i (\<lambda>e. e\<lparr>qe_prev := None, qe_next := head_or None xs\<rparr>) m"
  have e1: "get_entry c i ?m1 = Some \<lparr>qe_prev = None, qe_next = head_or None xs\<rparr>"
    using s by (simp add: get_entry_set) (simp add: get_entry_def entry_eq)
  show ?thesis
  proof (cases xs)
    case Nil
    let ?q = "set_root c (\<lambda>e. e\<lparr>qe_next := Some i\<rparr>) (set_root c (\<lambda>e. e\<lparr>qe_prev := Some i\<rparr>) q)"
    have "per_core_push_front (int c) i q m = Some (True, ?q, ?m1)"
      using assms(1) s ok(1) Nil by (simp add: per_core_push_front_def Let_def)
    moreover have "list_ok c ?q ?m1 [i]" using e1 ok(1) Nil by (simp add: list_ok_def roots_set_root)
    moreover have "other_roots c q ?q" by (simp add: other_roots_def roots_set_root)
    moreover have "changes c (insert i (set xs)) m ?m1" by (intro changes_set changes_refl) simp
    ultimately show ?thesis using Nil by (intro exI [of _ ?q] exI [of _ ?m1]) simp
  next
    case (Cons y ys)
    let ?m2 = "set_entry c y (\<lambda>e. e\<lparr>qe_prev := Some i\<rparr>) ?m1"
    let ?q = "set_root c (\<lambda>e. e\<lparr>qe_next := Some i\<rparr>) q"
    have y: "y \<noteq> i" "y \<notin> set ys" "i \<notin> set ys" using assms(3) ok(3) Cons by auto
    have d: "dll (\<lambda>j. get_entry c j m) (Some y) ys None" "get_entry c y m = Some \<lparr>qe_prev = None, qe_next = head_or None ys\<rparr>"
      using ok(2) by (simp_all add: Cons)
    have "dll (\<lambda>j. get_entry c j ?m2) (Some y) ys None"
      using d(1) y by (subst dll_cong [of _ _ "\<lambda>j. get_entry c j m"]) (auto simp: get_entry_set)
    moreover have "get_entry c y ?m2 = Some \<lparr>qe_prev = Some i, qe_next = head_or None ys\<rparr>"
      using d(2) y by (simp add: get_entry_set)
    moreover have "get_entry c i ?m2 = Some \<lparr>qe_prev = None, qe_next = Some y\<rparr>"
      using e1 y(1) Cons by (simp add: get_entry_set)
    ultimately have "list_ok c ?q ?m2 (i # xs)"
      using ok(1,3) y Cons by (simp add: list_ok_def roots_set_root)
    moreover have "per_core_push_front (int c) i q m = Some (False, ?q, ?m2)"
      using assms(1) s ok(1) Cons by (simp add: per_core_push_front_def Let_def)
    moreover have "other_roots c q ?q" by (simp add: other_roots_def roots_set_root)
    moreover have "changes c (insert i (set xs)) m ?m2" using Cons by (intro changes_set changes_refl) auto
    ultimately show ?thesis using Cons by (intro exI [of _ ?q] exI [of _ ?m2]) simp
  qed
qed

section \<open>Removing\<close>

lemma dll_split:
  assumes "dll L None (ys @ i # zs) None"
  shows "dll L None ys (Some i)" "L i = Some \<lparr>qe_prev = end_or None ys, qe_next = head_or None zs\<rparr>"
    "dll L (Some i) zs None"
  using assms by (simp_all add: dll_append)

text \<open>The link of the last element, and of the first.\<close>

lemma dll_set_next:
  assumes "dll (\<lambda>j. get_entry c j m) b ys a" "distinct ys"
  shows "dll (\<lambda>j. get_entry c j (case end_or None ys of None \<Rightarrow> m | Some p \<Rightarrow> set_entry c p (\<lambda>e. e\<lparr>qe_next := a'\<rparr>) m)) b ys a'"
proof (cases ys rule: rev_cases)
  case (snoc us u)
  let ?m' = "set_entry c u (\<lambda>e. e\<lparr>qe_next := a'\<rparr>) m"
  have d: "dll (\<lambda>j. get_entry c j m) b us (Some u)" "get_entry c u m = Some \<lparr>qe_prev = end_or b us, qe_next = a\<rparr>"
    using assms(1) snoc by (simp_all add: dll_append)
  have "dll (\<lambda>j. get_entry c j ?m') b us (Some u)"
    using d(1) assms(2) snoc by (subst dll_cong [of _ _ "\<lambda>j. get_entry c j m"]) (auto simp: get_entry_set)
  then show ?thesis using d(2) snoc by (simp add: dll_append get_entry_set)
qed simp

lemma dll_set_prev:
  assumes "dll (\<lambda>j. get_entry c j m) b zs a" "distinct zs"
  shows "dll (\<lambda>j. get_entry c j (case head_or None zs of None \<Rightarrow> m | Some n \<Rightarrow> set_entry c n (\<lambda>e. e\<lparr>qe_prev := b'\<rparr>) m)) b' zs a"
proof (cases zs)
  case (Cons u us)
  let ?m' = "set_entry c u (\<lambda>e. e\<lparr>qe_prev := b'\<rparr>) m"
  have d: "dll (\<lambda>j. get_entry c j m) (Some u) us a" "get_entry c u m = Some \<lparr>qe_prev = b, qe_next = head_or a us\<rparr>"
    using assms(1) Cons by simp_all
  have "dll (\<lambda>j. get_entry c j ?m') (Some u) us a"
    using d(1) assms(2) Cons by (subst dll_cong [of _ _ "\<lambda>j. get_entry c j m"]) (auto simp: get_entry_set)
  then show ?thesis using d(2) Cons by (simp add: get_entry_set)
qed simp

lemma filter_split: "i \<notin> set ys \<Longrightarrow> i \<notin> set zs \<Longrightarrow> filter (\<lambda>j. j \<noteq> i) (ys @ i # zs) = ys @ zs"
proof -
  assume i: "i \<notin> set ys" "i \<notin> set zs"
  then have "filter (\<lambda>j. j \<noteq> i) ys = ys" "filter (\<lambda>j. j \<noteq> i) zs = zs" by (auto intro: filter_True)
  then show ?thesis by simp
qed

lemma end_or_in: "end_or None ys = Some p \<Longrightarrow> p \<in> set ys"
  by (auto simp: end_or_def split: if_splits)

lemma head_or_in: "head_or None zs = Some p \<Longrightarrow> p \<in> set zs"
  by (cases zs) simp_all

lemma end_or_eq_None [simp]: "end_or None ys = None \<longleftrightarrow> ys = []"
  by (simp add: end_or_def)

lemma head_or_eq_None [simp]: "head_or None zs = None \<longleftrightarrow> zs = []"
  by (cases zs) simp_all

lemma linked_member:
  assumes "list_ok c q m (ys @ i # zs)"
  shows "member_is_linked c i q m"
proof -
  have r: "roots q c = \<lparr>qe_prev = end_or None (ys @ i # zs), qe_next = head_or None (ys @ i # zs)\<rparr>"
    and d: "dll (\<lambda>j. get_entry c j m) None (ys @ i # zs) None" using assms by (simp_all add: list_ok_def)
  note s = dll_split [OF d]
  have "qe_next (the (get_entry c p m)) = Some i \<and> get_entry c p m \<noteq> None" if "end_or None ys = Some p" for p
    using that s(1) by (cases ys rule: rev_cases) (auto simp: dll_append)
  moreover have "qe_prev (the (get_entry c n m)) = Some i \<and> get_entry c n m \<noteq> None" if "head_or None zs = Some n" for n
    using that s(3) by (cases zs) auto
  moreover have "ys = [] \<Longrightarrow> qe_next (roots q c) = Some i" "zs = [] \<Longrightarrow> qe_prev (roots q c) = Some i" using r by simp_all
  ultimately show ?thesis
    using s(2) by (auto simp: member_is_linked_def split: option.split)
qed

lemma remove_ok:
  assumes "c < NUM_CORES" "list_ok c q m xs" "i \<in> set xs"
  shows "\<exists>q' m'. per_core_remove (int c) i q m = Some (filter (\<lambda>j. j \<noteq> i) xs = [], q', m') \<and>
    list_ok c q' m' (filter (\<lambda>j. j \<noteq> i) xs) \<and> other_roots c q q' \<and> changes c (set xs) m m'"
proof -
  obtain ys zs where xs: "xs = ys @ i # zs" using split_list [OF assms(3)] by blast
  have ok: "roots q c = \<lparr>qe_prev = end_or None xs, qe_next = head_or None xs\<rparr>"
    "dll (\<lambda>j. get_entry c j m) None (ys @ i # zs) None" "distinct xs" using assms(2) xs by (simp_all add: list_ok_def)
  note d = dll_split [OF ok(2)]
  have n: "i \<notin> set ys" "i \<notin> set zs" "set ys \<inter> set zs = {}" "distinct ys" "distinct zs" using ok(3) xs by auto
  let ?p = "end_or None ys" and ?n = "head_or None zs"
  let ?m1 = "case ?p of None \<Rightarrow> m | Some p \<Rightarrow> set_entry c p (\<lambda>e. e\<lparr>qe_next := ?n\<rparr>) m"
  let ?m2 = "case ?n of None \<Rightarrow> ?m1 | Some n \<Rightarrow> set_entry c n (\<lambda>e. e\<lparr>qe_prev := ?p\<rparr>) ?m1"
  let ?q1 = "case ?p of None \<Rightarrow> set_root c (\<lambda>e. e\<lparr>qe_next := ?n\<rparr>) q | Some p \<Rightarrow> q"
  let ?q2 = "case ?n of None \<Rightarrow> set_root c (\<lambda>e. e\<lparr>qe_prev := ?p\<rparr>) ?q1 | Some n \<Rightarrow> ?q1"
  have "dll (\<lambda>j. get_entry c j ?m1) None ys ?n" by (rule dll_set_next [OF d(1) n(4)])
  moreover have "get_entry c j ?m2 = get_entry c j ?m1" if "j \<in> set ys" for j
    using that n(3) head_or_in [of zs] by (auto simp: get_entry_set split: option.split)
  ultimately have y: "dll (\<lambda>j. get_entry c j ?m2) None ys ?n"
    using dll_cong [of ys "\<lambda>j. get_entry c j ?m2" "\<lambda>j. get_entry c j ?m1"] by blast
  have "get_entry c j ?m1 = get_entry c j m" if "j \<in> set zs" for j
    using that n(3) end_or_in [of ys] by (auto simp: get_entry_set split: option.split)
  then have "dll (\<lambda>j. get_entry c j ?m1) (Some i) zs None"
    using d(3) dll_cong [of zs "\<lambda>j. get_entry c j ?m1" "\<lambda>j. get_entry c j m"] by blast
  from dll_set_prev [OF this n(5)] have z: "dll (\<lambda>j. get_entry c j ?m2) ?p zs None" .
  have r: "roots ?q2 c = \<lparr>qe_prev = end_or None (ys @ zs), qe_next = head_or None (ys @ zs)\<rparr>"
    using ok(1) unfolding xs
    by (cases ys rule: rev_cases; cases zs) (simp_all add: roots_set_root end_or_append head_or_append)
  have f: "filter (\<lambda>j. j \<noteq> i) xs = ys @ zs" using filter_split [OF n(1,2)] xs by simp
  have "list_ok c ?q2 ?m2 (ys @ zs)" using y z r n by (simp add: list_ok_def dll_append)
  moreover have "per_core_remove (int c) i q m = Some (ys @ zs = [], ?q2, ?m2)"
    using assms(1) linked_member [OF assms(2) [unfolded xs]] d(2) r
    by (cases ys rule: rev_cases; cases zs) (simp_all add: per_core_remove_def Let_def)
  moreover have "other_roots c q ?q2" by (simp add: other_roots_def roots_set_root split: option.split)
  moreover have "changes c (set xs) m ?m1" using end_or_in [of ys] xs
    by (auto split: option.split intro!: changes_set)
  then have "changes c (set xs) m ?m2" using head_or_in [of zs] xs
    by (cases ?n) (auto intro!: changes_set)
  ultimately show ?thesis unfolding f by (intro exI [of _ ?q2] exI [of _ ?m2]) simp
qed

text \<open>A thread without a slot is in no list, and removing it does nothing.\<close>

lemma remove_unknown:
  assumes "c < NUM_CORES" "list_ok c q m xs" "Mapping.lookup m i = None"
  shows "per_core_remove (int c) i q m = Some (xs = [], q, m)"
proof -
  have "i \<notin> set xs" using list_ok_known [OF assms(2)] assms(3) by blast
  then have "qe_next (roots q c) \<noteq> Some i" using assms(2) head_or_in [of xs] by (auto simp: list_ok_def)
  moreover have "get_entry c i m = None" using assms(3) by (simp add: get_entry_def)
  moreover have "qe_next (roots q c) = None \<longleftrightarrow> xs = []" using assms(2) by (simp add: list_ok_def)
  ultimately show ?thesis using assms(1) by (simp add: per_core_remove_def member_is_linked_def)
qed

section \<open>Purging\<close>

lemma walk_kept_ok:
  assumes "dll (\<lambda>j. get_entry c j m) b ys None" "length ys < n" "distinct ys" "set ys \<inter> set seen = {}"
    "\<And>j. j \<in> set ys \<Longrightarrow> j \<noteq> i \<Longrightarrow> \<exists>s. Mapping.lookup m j = Some s \<and> belongs (props s)"
  shows "walk_kept n c belongs i m (head_or None ys) kept seen = kept @ filter (\<lambda>j. j \<noteq> i) ys"
  using assms
proof (induction ys arbitrary: n b kept seen)
  case Nil
  then show ?case by (cases n) simp_all
next
  case (Cons y ys)
  obtain k where n: "n = Suc k" using Cons.prems(2) by (cases n) simp_all
  have e: "get_entry c y m = Some \<lparr>qe_prev = b, qe_next = head_or None ys\<rparr>" using Cons.prems(1) by simp
  have y: "y \<notin> set seen" using Cons.prems(4) by simp
  let ?kept = "if y \<noteq> i then kept @ [y] else kept"
  have b: "(y \<noteq> i \<and> (case Mapping.lookup m y of None \<Rightarrow> False | Some s \<Rightarrow> belongs (props s))) = (y \<noteq> i)"
    using Cons.prems(5) [of y] by auto
  have "walk_kept k c belongs i m (head_or None ys) ?kept (seen @ [y]) = ?kept @ filter (\<lambda>j. j \<noteq> i) ys"
    using Cons.prems n by (intro Cons.IH [of "Some y"]) auto
  moreover have "walk_kept n c belongs i m (head_or None (y # ys)) kept seen =
      walk_kept k c belongs i m (head_or None ys) ?kept (seen @ [y])"
    unfolding n head_or_simps walk_kept.simps option.case b using y e by simp
  ultimately show ?case by simp
qed

lemma adopt_none:
  assumes "\<And>j s. Mapping.lookup m j = Some s \<Longrightarrow> belongs (props s) \<Longrightarrow> j \<noteq> i \<Longrightarrow> j \<in> set kept"
  shows "adopt_kept c belongs i tail m js kept = kept"
proof -
  have "fold (\<lambda>j kept. case Mapping.lookup m j of None \<Rightarrow> kept
      | Some s \<Rightarrow> if j = i \<or> j \<in> set kept \<or> \<not> belongs (props s) then kept
         else if tail = Some j \<or> qe_prev (entries s c) = Some i \<or> qe_next (entries s c) = Some i then kept @ [j] else kept)
      js kept = kept"
    by (induction js) (use assms in \<open>auto split: option.split\<close>)
  then show ?thesis by (simp add: adopt_kept_def)
qed

lemma relink_changes: "set xs \<subseteq> S \<Longrightarrow> changes c S m m0 \<Longrightarrow> changes c S m (relink c b xs m0)"
  by (induction xs arbitrary: b m0) (auto intro: changes_set)

lemma relink_outside: "j \<notin> set xs \<Longrightarrow> get_entry c j (relink c b xs m) = get_entry c j m"
  by (induction xs arbitrary: b m) (auto simp: get_entry_set)

lemma relink_ok:
  assumes "distinct xs" "\<And>j. j \<in> set xs \<Longrightarrow> Mapping.lookup m j \<noteq> None"
  shows "dll (\<lambda>j. get_entry c j (relink c b xs m)) b xs None"
  using assms
proof (induction xs arbitrary: b m)
  case (Cons x xs)
  let ?m = "set_entry c x (\<lambda>e. e\<lparr>qe_prev := b, qe_next := first_of xs\<rparr>) m"
  have "Mapping.lookup ?m j \<noteq> None" if "j \<in> set xs" for j
    using Cons.prems(2) [of j] that by (simp flip: props_at_None)
  from Cons.IH [OF _ this] have "dll (\<lambda>j. get_entry c j (relink c (Some x) xs ?m)) (Some x) xs None" using Cons.prems(1) by simp
  moreover have "get_entry c x (relink c (Some x) xs ?m) = Some \<lparr>qe_prev = b, qe_next = first_of xs\<rparr>"
  proof -
    obtain e where "get_entry c x m = Some e" using Cons.prems(2) [of x] by (auto simp: get_entry_def)
    then have "get_entry c x ?m = Some \<lparr>qe_prev = b, qe_next = first_of xs\<rparr>" by (simp add: get_entry_set entry_eq)
    then show ?thesis using relink_outside [of x xs] Cons.prems(1) by simp
  qed
  ultimately show ?case by (simp add: first_of_head)
qed simp

lemma purge_list_ok:
  assumes "c < NUM_CORES" "list_ok c q m xs" "finite (Mapping.keys m)"
    "\<And>j s. Mapping.lookup m j = Some s \<Longrightarrow> j \<noteq> i \<Longrightarrow> belongs_to_queue (int c) p k (props s) = (j \<in> set xs)"
  shows "\<exists>q' m'. remove_all_matching order (int c) p k i q m = Some (filter (\<lambda>j. j \<noteq> i) xs = [], q', m') \<and>
    list_ok c q' m' (filter (\<lambda>j. j \<noteq> i) xs) \<and> other_roots c q q' \<and> changes c (insert i (set xs)) m m'"
proof -
  let ?f = "filter (\<lambda>j. j \<noteq> i) xs" and ?b = "belongs_to_queue (int c) p k"
  have ok: "roots q c = \<lparr>qe_prev = end_or None xs, qe_next = head_or None xs\<rparr>"
    "dll (\<lambda>j. get_entry c j m) None xs None" "distinct xs" using assms(2) by (simp_all add: list_ok_def)
  have known: "Mapping.lookup m j \<noteq> None" if "j \<in> set xs" for j using list_ok_known [OF assms(2) that] .
  have "set xs \<subseteq> Mapping.keys m" using known by (auto simp: keys_dom_lookup)
  then have "length xs \<le> Mapping.size m"
    using card_mono [OF assms(3), of "set xs"] distinct_card [OF ok(3)] assms(3) by (simp add: Mapping.size_def)
  then have "length xs < Mapping.size m + 1" by simp
  moreover have "\<exists>s. Mapping.lookup m j = Some s \<and> ?b (props s)" if "j \<in> set xs" "j \<noteq> i" for j
    using known [OF that(1)] assms(4) that by auto
  ultimately have w: "walk_kept (Mapping.size m + 1) c ?b i m (head_or None xs) [] [] = ?f"
    using walk_kept_ok [OF ok(2) _ ok(3), of "Mapping.size m + 1" "[]" i ?b "[]"] by (simp del: walk_kept.simps)
  have a: "adopt_kept c ?b i t m js ?f = ?f" for t js
    by (rule adopt_none) (use assms(4) in auto)
  let ?q = "set_root c (\<lambda>_. \<lparr>qe_prev = last_of ?f, qe_next = first_of ?f\<rparr>) q"
  let ?m1 = "relink c None ?f m"
  let ?m2 = "set_entry c i (\<lambda>e. e\<lparr>qe_prev := None, qe_next := None\<rparr>) ?m1"
  have "dll (\<lambda>j. get_entry c j ?m1) None ?f None" using ok(3) known by (intro relink_ok) auto
  then have "dll (\<lambda>j. get_entry c j ?m2) None ?f None"
    using dll_cong [of ?f "\<lambda>j. get_entry c j ?m2" "\<lambda>j. get_entry c j ?m1"] by (auto simp: get_entry_set)
  then have "list_ok c ?q ?m2 ?f" using ok(3) by (simp add: list_ok_def roots_set_root last_of_end first_of_head)
  moreover have "remove_all_matching order (int c) p k i q m = Some (?f = [], ?q, ?m2)"
    using assms(1) ok(1) w a by (simp add: remove_all_matching_def Let_def roots_set_root first_of_head)
  moreover have "other_roots c q ?q" by (simp add: other_roots_def roots_set_root)
  moreover have "changes c (insert i (set xs)) m ?m2"
    by (intro changes_set relink_changes changes_refl) auto
  ultimately show ?thesis by (intro exI [of _ ?q] exI [of _ ?m2]) simp
qed

end
