(* ===== verification/PriorityQueueShape.thy ===== *)
theory PriorityQueueShape
  imports PriorityQueueLists
begin

text \<open>
  The whole priority queue as a family of lists, one for each kind (scheduled or suggested), priority
  and core: what the operations on one list do to the family, and the loops over the cores of a
  thread. The properties of the members play no part here, except for the purge.
\<close>

section \<open>Availability\<close>

definition available :: "nat \<Rightarrow> BitSet64 \<Rightarrow> bool" where
  "available p b \<longleftrightarrow> bit (bits b) (63 - p)"

lemma level_bit: "p < 64 \<Longrightarrow> shl (1 :: u64) (nat ((63 - int p) mod 64)) = 2 ^ (63 - p)"
  by (simp add: nat_diff_distrib push_bit_eq_mult)

lemma available_set:
  assumes "p < 64" "p' < 64"
  shows "available p' (bs_set_bit (int p) b) \<longleftrightarrow> p' = p \<or> available p' b"
proof -
  have "63 - p < LENGTH(64)" by simp
  from or_bit_iff [OF this, of "bits b" "63 - p'"] show ?thesis
    unfolding available_def bs_set_bit_def level_bit [OF assms(1)] using assms by auto
qed

lemma available_clear:
  assumes "p < 64" "p' < 64"
  shows "available p' (bs_clear_bit (int p) b) \<longleftrightarrow> p' \<noteq> p \<and> available p' b"
proof -
  have "63 - p < LENGTH(64)" by simp
  from andnot_bit_iff [OF this, of "bits b" "63 - p'"] show ?thesis
    unfolding available_def bs_clear_bit_def level_bit [OF assms(1)] using assms by auto
qed

section \<open>The family of lists\<close>

type_synonym lists = "bool \<Rightarrow> nat \<Rightarrow> nat \<Rightarrow> nat list"

definition put :: "lists \<Rightarrow> bool \<Rightarrow> nat \<Rightarrow> nat \<Rightarrow> nat list \<Rightarrow> lists" where
  "put A s p c xs = (\<lambda>s' p' c'. if s' = s \<and> p' = p \<and> c' = c then xs else A s' p' c')"

definition sel :: "bool \<Rightarrow> KPriorityQueue \<Rightarrow> KPriorityQueueImpl" where
  "sel s q = (if s then scheduled_queue q else suggested_queue q)"

definition upd :: "bool \<Rightarrow> KPriorityQueueImpl \<Rightarrow> MemberMap \<Rightarrow> KPriorityQueue \<Rightarrow> KPriorityQueue" where
  "upd s l m q = (if s then q\<lparr>scheduled_queue := l, members := m\<rparr> else q\<lparr>suggested_queue := l, members := m\<rparr>)"

definition on_queue :: "bool \<Rightarrow> queue_step \<Rightarrow> KPriorityQueue \<Rightarrow> KPriorityQueue option" where
  "on_queue s f q = (if s then on_scheduled f q else on_suggested f q)"

lemma on_queue_eq: "on_queue s f q = do { (l, m) \<leftarrow> f (sel s q) (members q); Some (upd s l m q) }"
  by (simp add: on_queue_def on_scheduled_def on_suggested_def sel_def upd_def)

lemma sel_upd [simp]: "sel s' (upd s l m q) = (if s' = s then l else sel s' q)" "members (upd s l m q) = m"
  by (auto simp: sel_def upd_def)

definition only_in :: "lists \<Rightarrow> nat \<Rightarrow> bool \<Rightarrow> nat \<Rightarrow> nat \<Rightarrow> bool" where
  "only_in A i s p c \<longleftrightarrow> (\<forall>s' p'. p' < 64 \<and> (s', p') \<noteq> (s, p) \<longrightarrow> i \<notin> set (A s' p' c))"

definition nowhere :: "lists \<Rightarrow> nat \<Rightarrow> nat \<Rightarrow> bool" where
  "nowhere A i c \<longleftrightarrow> (\<forall>s p. p < 64 \<longrightarrow> i \<notin> set (A s p c))"

definition shape :: "KPriorityQueue \<Rightarrow> lists \<Rightarrow> bool" where
  "shape q A \<longleftrightarrow> finite (Mapping.keys (members q)) \<and>
     (\<forall>s p c. p < 64 \<longrightarrow> c < NUM_CORES \<longrightarrow>
        list_ok c (queues (sel s q) p) (members q) (A s p c) \<and>
        (available p (available_priorities (sel s q) c) \<longleftrightarrow> A s p c \<noteq> []) \<and>
        (\<forall>i \<in> set (A s p c). only_in A i s p c))"

definition props_of :: "KPriorityQueue \<Rightarrow> nat \<Rightarrow> ThreadProps option" where
  "props_of q i = get_thread_props i q"

lemma props_of_at: "props_of q i = props_at i (members q)"
  by (simp add: props_of_def get_thread_props_def props_at_def)

lemma props_of_known: "props_of q i \<noteq> None \<longleftrightarrow> Mapping.lookup (members q) i \<noteq> None"
  by (simp add: props_of_at)

lemma nowhere_only: "nowhere A i c \<Longrightarrow> only_in A i s p c"
  by (simp add: nowhere_def only_in_def)

lemma shapeD:
  assumes "shape q A" "p < 64" "c < NUM_CORES"
  shows "list_ok c (queues (sel s q) p) (members q) (A s p c)"
    "available p (available_priorities (sel s q) c) \<longleftrightarrow> A s p c \<noteq> []"
    "\<And>i. i \<in> set (A s p c) \<Longrightarrow> only_in A i s p c"
  using assms unfolding shape_def by blast+

lemma shape_finite: "shape q A \<Longrightarrow> finite (Mapping.keys (members q))"
  by (simp add: shape_def)

text \<open>One list is replaced, by the members it had and \<open>i\<close>, which is in no other list of the core.\<close>

lemma put_shape:
  assumes "shape q A" "p < 64" "c < NUM_CORES" "only_in A i s p c" "set ys \<subseteq> insert i (set (A s p c))"
    and l: "list_ok c l m' ys" "other_roots c (queues (sel s q) p) l"
      "changes c (insert i (set (A s p c))) (members q) m'"
    and x: "queues x = (queues (sel s q))(p := l)"
      "\<And>c'. c' \<noteq> c \<Longrightarrow> available_priorities x c' = available_priorities (sel s q) c'"
      "\<And>p'. p' < 64 \<Longrightarrow> available p' (available_priorities x c) \<longleftrightarrow>
         (if p' = p then ys \<noteq> [] else available p' (available_priorities (sel s q) c))"
  shows "shape (upd s x m' q) (put A s p c ys) \<and> props_of (upd s x m' q) = props_of q"
proof
  show "props_of (upd s x m' q) = props_of q"
    using l(3) by (intro ext) (simp add: props_of_at changes_def)
  have away: "j \<notin> insert i (set (A s p c))" if "j \<in> set (A s' p' c)" "p' < 64" "(s', p') \<noteq> (s, p)" for j s' p'
    using that assms(4) shapeD(3) [OF assms(1-3)] unfolding only_in_def by blast
  have "list_ok c' (queues (sel s' (upd s x m' q)) p') m' (put A s p c ys s' p' c')" if b: "p' < 64" "c' < NUM_CORES" for s' p' c'
  proof (cases "s' = s \<and> p' = p \<and> c' = c")
    case True
    then show ?thesis using l(1) x(1) by (simp add: put_def)
  next
    case False
    have e: "get_entry c' j m' = get_entry c' j (members q)" if "j \<in> set (A s' p' c')" for j
    proof (cases "c' = c")
      case True
      then have "j \<notin> insert i (set (A s p c))" using away that b(1) False by auto
      then show ?thesis using l(3) by (simp add: changes_def)
    qed (use l(3) in \<open>simp add: changes_def\<close>)
    have "roots (queues (sel s' (upd s x m' q)) p') c' = roots (queues (sel s' q) p') c'"
      using False x(1) l(2) by (auto simp: other_roots_def)
    from list_ok_cong [OF shapeD(1) [OF assms(1) b] this e] show ?thesis using False by (auto simp: put_def)
  qed
  moreover have "available p' (available_priorities (sel s' (upd s x m' q)) c') \<longleftrightarrow> put A s p c ys s' p' c' \<noteq> []"
    if b: "p' < 64" "c' < NUM_CORES" for s' p' c'
  proof (cases "s' = s \<and> c' = c")
    case True
    then show ?thesis using shapeD(2) [OF assms(1) b, where s = s] x(3) [OF b(1)] by (auto simp: put_def)
  next
    case False
    then have "available_priorities (sel s' (upd s x m' q)) c' = available_priorities (sel s' q) c'" using x(2) by auto
    then show ?thesis using shapeD(2) [OF assms(1) b, where s = s'] False by (auto simp: put_def)
  qed
  moreover have "only_in (put A s p c ys) j s' p' c'" if b: "p' < 64" "c' < NUM_CORES" "j \<in> set (put A s p c ys s' p' c')" for j s' p' c'
  proof (cases "c' = c")
    case False
    then have "j \<in> set (A s' p' c')" using b(3) by (simp add: put_def)
    from shapeD(3) [OF assms(1) b(1,2) this] show ?thesis using False by (simp add: only_in_def put_def)
  next
    case True
    show ?thesis
    proof (cases "(s', p') = (s, p)")
      case at: True
      then have "j \<in> insert i (set (A s p c))" using b(3) True assms(5) by (auto simp: put_def)
      then have "only_in A j s p c" using assms(4) shapeD(3) [OF assms(1-3)] by blast
      then show ?thesis using at True by (auto simp: only_in_def put_def)
    next
      case off: False
      then have j: "j \<in> set (A s' p' c)" using b(3) True by (auto simp: put_def)
      then have "only_in A j s' p' c" using shapeD(3) [OF assms(1) b(1) assms(3)] by blast
      moreover have "j \<notin> set ys" using away [OF j b(1) off] assms(5) by blast
      ultimately show ?thesis using True by (auto simp: only_in_def put_def)
    qed
  qed
  moreover have "finite (Mapping.keys m')" using shape_finite [OF assms(1)] changes_keys [OF l(3)] by simp
  ultimately show "shape (upd s x m' q) (put A s p c ys)" unfolding shape_def by simp
qed

section \<open>One list\<close>

lemma ix_bounds: "p < 64 \<Longrightarrow> ix NUM_PRIORITY (int p) = Some p" "c < NUM_CORES \<Longrightarrow> ix NUM_CORES (int c) = Some c"
  by (simp_all add: NUM_PRIORITY_def)

lemma not_lowest: "p < 64 \<Longrightarrow> \<not> LOWEST_PRIORITY < int p"
  by (simp add: LOWEST_PRIORITY_def)

lemma set_available_simps [simp]:
  "queues (set_available f c q) = queues q"
  "available_priorities (set_available f c q) = (available_priorities q)(c := f (available_priorities q c))"
  by (simp_all add: set_available_def)

lemma push_back_shape:
  assumes "shape q A" "p < 64" "c < NUM_CORES" "nowhere A i c" "props_of q i \<noteq> None"
  shows "\<exists>q'. on_queue s (pqi_push_back (int p) (int c) i) q = Some q' \<and>
    shape q' (put A s p c (A s p c @ [i])) \<and> props_of q' = props_of q"
proof -
  let ?l = "queues (sel s q) p"
  note sh = shapeD [OF assms(1-3), where s = s]
  have n: "i \<notin> set (A s p c)" using assms(2,4) by (simp add: nowhere_def)
  from push_back_ok [OF assms(3) sh(1) n] assms(5) obtain l m where
    l: "per_core_push_back (int c) i ?l (members q) = Some (A s p c = [], l, m)" "list_ok c l m (A s p c @ [i])"
      "other_roots c ?l l" "changes c (insert i (set (A s p c))) (members q) m"
    unfolding props_of_known by blast
  let ?x0 = "(sel s q)\<lparr>queues := (queues (sel s q))(p := l)\<rparr>"
  let ?x = "if A s p c = [] then set_available (bs_set_bit (int p)) c ?x0 else ?x0"
  have e: "on_queue s (pqi_push_back (int p) (int c) i) q = Some (upd s ?x m q)"
    using l(1) assms(2) by (simp add: on_queue_eq pqi_push_back_def not_lowest ix_bounds Let_def)
  have "shape (upd s ?x m q) (put A s p c (A s p c @ [i])) \<and> props_of (upd s ?x m q) = props_of q"
    using sh(2) assms(2)
    by (intro put_shape [OF assms(1-3) nowhere_only [OF assms(4)] _ l(2-4)]) (auto simp: available_set)
  then show ?thesis using e by blast
qed

lemma push_front_shape:
  assumes "shape q A" "p < 64" "c < NUM_CORES" "nowhere A i c" "props_of q i \<noteq> None"
  shows "\<exists>q'. on_queue s (pqi_push_front (int p) (int c) i) q = Some q' \<and>
    shape q' (put A s p c (i # A s p c)) \<and> props_of q' = props_of q"
proof -
  let ?l = "queues (sel s q) p"
  note sh = shapeD [OF assms(1-3), where s = s]
  have n: "i \<notin> set (A s p c)" using assms(2,4) by (simp add: nowhere_def)
  from push_front_ok [OF assms(3) sh(1) n] assms(5) obtain l m where
    l: "per_core_push_front (int c) i ?l (members q) = Some (A s p c = [], l, m)" "list_ok c l m (i # A s p c)"
      "other_roots c ?l l" "changes c (insert i (set (A s p c))) (members q) m"
    unfolding props_of_known by blast
  let ?x0 = "(sel s q)\<lparr>queues := (queues (sel s q))(p := l)\<rparr>"
  let ?x = "if A s p c = [] then set_available (bs_set_bit (int p)) c ?x0 else ?x0"
  have e: "on_queue s (pqi_push_front (int p) (int c) i) q = Some (upd s ?x m q)"
    using l(1) assms(2) by (simp add: on_queue_eq pqi_push_front_def not_lowest ix_bounds Let_def)
  have "shape (upd s ?x m q) (put A s p c (i # A s p c)) \<and> props_of (upd s ?x m q) = props_of q"
    using sh(2) assms(2)
    by (intro put_shape [OF assms(1-3) nowhere_only [OF assms(4)] _ l(2-4)]) (auto simp: available_set)
  then show ?thesis using e by blast
qed

lemma remove_shape:
  assumes "shape q A" "p < 64" "c < NUM_CORES" "i \<in> set (A s p c)"
  shows "\<exists>q'. on_queue s (pqi_remove (int p) (int c) i) q = Some q' \<and>
    shape q' (put A s p c (filter (\<lambda>j. j \<noteq> i) (A s p c))) \<and> props_of q' = props_of q"
proof -
  let ?l = "queues (sel s q) p" and ?ys = "filter (\<lambda>j. j \<noteq> i) (A s p c)"
  note sh = shapeD [OF assms(1-3), where s = s]
  from remove_ok [OF assms(3) sh(1) assms(4)] obtain l m where
    l: "per_core_remove (int c) i ?l (members q) = Some (?ys = [], l, m)" "list_ok c l m ?ys"
      "other_roots c ?l l" "changes c (set (A s p c)) (members q) m" by blast
  have ch: "changes c (insert i (set (A s p c))) (members q) m" using changes_mono [OF l(4)] by blast
  let ?x0 = "(sel s q)\<lparr>queues := (queues (sel s q))(p := l)\<rparr>"
  let ?x = "if ?ys = [] then set_available (bs_clear_bit (int p)) c ?x0 else ?x0"
  have e: "on_queue s (pqi_remove (int p) (int c) i) q = Some (upd s ?x m q)"
    using l(1) assms(2) by (simp add: on_queue_eq pqi_remove_def not_lowest ix_bounds Let_def)
  have "shape (upd s ?x m q) (put A s p c ?ys) \<and> props_of (upd s ?x m q) = props_of q"
    using sh(2) assms(2,4)
    by (intro put_shape [OF assms(1-3) sh(3) [OF assms(4)] _ l(2,3) ch]) (auto simp: available_clear)
  then show ?thesis using e by blast
qed

text \<open>Removing a thread without a slot changes nothing; the priority may be the one below the lowest.\<close>

lemma remove_unknown_shape:
  assumes "shape q A" "p < 64" "c < NUM_CORES" "props_of q i = None"
  shows "\<exists>q'. on_queue s (pqi_remove (int p) (int c) i) q = Some q' \<and> shape q' A \<and> props_of q' = props_of q"
proof -
  let ?l = "queues (sel s q) p"
  note sh = shapeD [OF assms(1-3), where s = s]
  have l: "per_core_remove (int c) i ?l (members q) = Some (A s p c = [], ?l, members q)"
    using remove_unknown [OF assms(3) sh(1)] assms(4) by (simp add: props_of_at)
  have i: "i \<notin> set (A s p c)" if b: "p < 64" for s p
  proof
    assume "i \<in> set (A s p c)"
    from list_ok_known [OF shapeD(1) [OF assms(1) b assms(3)] this] show False using assms(4) by (simp add: props_of_at)
  qed
  let ?x0 = "(sel s q)\<lparr>queues := (queues (sel s q))(p := ?l)\<rparr>"
  let ?x = "if A s p c = [] then set_available (bs_clear_bit (int p)) c ?x0 else ?x0"
  have e: "on_queue s (pqi_remove (int p) (int c) i) q = Some (upd s ?x (members q) q)"
    using l assms(2) by (simp add: on_queue_eq pqi_remove_def not_lowest ix_bounds Let_def)
  have "shape (upd s ?x (members q) q) (put A s p c (A s p c)) \<and> props_of (upd s ?x (members q) q) = props_of q"
    using sh(2) assms(2) i
    by (intro put_shape [OF assms(1-3) _ _ sh(1), of i]) (auto simp: available_clear other_roots_def only_in_def)
  moreover have "put A s p c (A s p c) = A" by (auto simp: put_def fun_eq_iff)
  ultimately show ?thesis using e by auto
qed

lemma purge_shape:
  assumes "shape q A" "p < 64" "c < NUM_CORES" "only_in A i s p c"
    "\<And>j pr. props_of q j = Some pr \<Longrightarrow> j \<noteq> i \<Longrightarrow> belongs_to_queue (int c) (int p) s pr = (j \<in> set (A s p c))"
  shows "\<exists>q'. on_queue s (purge order (int p) s (int c) i) q = Some q' \<and>
    shape q' (put A s p c (filter (\<lambda>j. j \<noteq> i) (A s p c))) \<and> props_of q' = props_of q"
proof -
  let ?l = "queues (sel s q) p" and ?ys = "filter (\<lambda>j. j \<noteq> i) (A s p c)"
  note sh = shapeD [OF assms(1-3), where s = s]
  have b: "belongs_to_queue (int c) (int p) s (props sl) = (j \<in> set (A s p c))"
    if "Mapping.lookup (members q) j = Some sl" "j \<noteq> i" for j sl
    using assms(5) [of j "props sl"] that by (simp add: props_of_at props_at_def)
  from purge_list_ok [OF assms(3) sh(1) shape_finite [OF assms(1)] b] obtain l m where
    l: "remove_all_matching order (int c) (int p) s i ?l (members q) = Some (?ys = [], l, m)" "list_ok c l m ?ys"
      "other_roots c ?l l" "changes c (insert i (set (A s p c))) (members q) m" by blast
  let ?x0 = "(sel s q)\<lparr>queues := (queues (sel s q))(p := l)\<rparr>"
  let ?x = "if ?ys = [] then set_available (bs_clear_bit (int p)) c ?x0 else ?x0"
  have e: "on_queue s (purge order (int p) s (int c) i) q = Some (upd s ?x m q)"
    using l(1) assms(2) by (simp add: on_queue_eq purge_def ix_bounds Let_def)
  have "shape (upd s ?x m q) (put A s p c ?ys) \<and> props_of (upd s ?x m q) = props_of q"
    using sh(2) assms(2)
    by (intro put_shape [OF assms(1-4) _ l(2-4)]) (auto simp: available_clear)
  then show ?thesis using e by blast
qed

end
