(* ===== verification/PriorityQueueProps.thy ===== *)
theory PriorityQueueProps
  imports PriorityQueueShape
begin

text \<open>
  The priority queue refines a family of plain lists with the properties of the threads in them:
  the loops over the cores of a thread, each operation, and runs of operations.
\<close>

section \<open>Loops over cores\<close>

fun each :: "(int \<Rightarrow> 'a \<Rightarrow> 'a option) \<Rightarrow> nat list \<Rightarrow> 'a \<Rightarrow> 'a option" where
  "each f [] st = Some st"
| "each f (c # cs) st = do { st \<leftarrow> f (int c) st; each f cs st }"

definition cores_of :: "u64 \<Rightarrow> nat list" where
  "cores_of a = filter (bit a) [0..<64]"

lemma cores_of_iff: "c \<in> set (cores_of a) \<longleftrightarrow> bit a c"
  using bit_imp_le_length [of a c] by (auto simp: cores_of_def)

lemma distinct_cores_of [simp]: "distinct (cores_of a)"
  by (simp add: cores_of_def)

lemma cores_of_step:
  assumes "a \<noteq> 0"
  shows "cores_of a = ctz a # cores_of (snd (get_next_core a))"
proof -
  have c: "ctz a < 64" using ctz_lt_iff [of a] assms by simp
  have "[0..<64] = [0..<ctz a] @ [ctz a..<64]" using upt_add_eq_append [of 0 "ctz a" "64 - ctz a"] c by simp
  then have u: "[0..<64] = [0..<ctz a] @ ctz a # [Suc (ctz a)..<64]" using c by (simp add: upt_conv_Cons)
  have b: "bit (snd (get_next_core a)) n \<longleftrightarrow> bit a n \<and> n \<noteq> ctz a" for n
    using c by (auto simp: get_next_core_def Let_def clear_affinity_bit_bit)
  have "filter (bit a) [0..<ctz a] = []" using below_ctz [of _ a] by (simp add: filter_empty_conv)
  moreover have "filter (bit (snd (get_next_core a))) [0..<ctz a] = []"
    using below_ctz [of _ a] by (simp add: filter_empty_conv b)
  moreover have "filter (bit (snd (get_next_core a))) [Suc (ctz a)..<64] = filter (bit a) [Suc (ctz a)..<64]"
    by (rule filter_cong) (auto simp: b)
  ultimately show ?thesis unfolding cores_of_def u by (simp add: b bit_ctz [OF assms])
qed

lemma over_affinity_each: "over_affinity f a st = each f (cores_of a) st"
proof (induction f a st rule: over_affinity.induct)
  case (1 f a st)
  show ?case
  proof (cases "a = 0")
    case True
    then show ?thesis by (subst over_affinity.simps) (simp add: cores_of_def)
  next
    case False
    have "over_affinity f a st = do { st \<leftarrow> f (int (ctz a)) st; over_affinity f (snd (get_next_core a)) st }"
      using False by (subst over_affinity.simps) (simp add: get_next_core_def Let_def)
    also have "\<dots> = do { st \<leftarrow> f (int (ctz a)) st; each f (cores_of (snd (get_next_core a))) st }"
      using 1 False by (cases "f (int (ctz a)) st") (simp_all add: get_next_core_def Let_def)
    finally show ?thesis by (simp add: cores_of_step [OF False])
  qed
qed

lemma affinity_test: "c < 64 \<Longrightarrow> a AND shl 1 c \<noteq> 0 \<longleftrightarrow> bit a c" for a :: u64
  using and_bit_eq_0_iff [of c a] by (simp add: push_bit_eq_mult)

lemma on_queue_kinds: "on_queue True = on_scheduled" "on_queue False = on_suggested"
  by (simp_all add: on_queue_def fun_eq_iff)

lemma over_cores_each:
  "\<forall>c \<in> set cs. c < 64 \<Longrightarrow>
   over_cores cs a ac f q = each (\<lambda>core. on_queue (core = ac) (f core)) (filter (bit a) cs) q"
proof (induction cs arbitrary: q)
  case (Cons c cs)
  then have "over_cores cs a ac f = each (\<lambda>core. on_queue (core = ac) (f core)) (filter (bit a) cs)" by (intro ext) simp
  moreover have "a AND shl 1 c \<noteq> 0 \<longleftrightarrow> bit a c" using Cons.prems by (intro affinity_test) simp
  moreover have "on_queue (int c = ac) (f (int c)) q =
      (if int c = ac then on_scheduled (f (int c)) q else on_suggested (f (int c)) q)" for q
    by (simp add: on_queue_def)
  ultimately show ?case by (simp del: shl_lt)
qed simp

text \<open>The change \<open>T\<close> of the lists of priority \<open>p\<close> and kind \<open>k c\<close> for the cores \<open>c\<close> of \<open>cs\<close>.\<close>

definition at_cores :: "nat \<Rightarrow> nat set \<Rightarrow> (nat \<Rightarrow> bool) \<Rightarrow> (nat list \<Rightarrow> nat list) \<Rightarrow> lists \<Rightarrow> lists" where
  "at_cores p C k T A = (\<lambda>s p' c. if p' = p \<and> c \<in> C \<and> k c = s then T (A s p' c) else A s p' c)"

lemma each_shape:
  assumes "shape q A" "props_of q = P" "distinct cs" "\<forall>c \<in> set cs. c < NUM_CORES" "\<forall>c \<in> set cs. ok A c"
    and cong: "\<And>A A' c. (\<And>s p. A s p c = A' s p c) \<Longrightarrow> ok A c \<Longrightarrow> ok A' c"
    and step: "\<And>q A c. shape q A \<Longrightarrow> props_of q = P \<Longrightarrow> c < NUM_CORES \<Longrightarrow> ok A c \<Longrightarrow> c \<in> set cs \<Longrightarrow>
      \<exists>q'. on_queue (k c) (f (int c)) q = Some q' \<and> shape q' (put A (k c) p c (T (A (k c) p c))) \<and> props_of q' = P"
  shows "\<exists>q'. each (\<lambda>core. on_queue (k (nat core)) (f core)) cs q = Some q' \<and>
    shape q' (at_cores p (set cs) k T A) \<and> props_of q' = P"
  using assms(1-5) step
proof (induction cs arbitrary: q A)
  case Nil
  moreover have "at_cores p {} k T A = A" by (simp add: at_cores_def fun_eq_iff)
  ultimately show ?case by simp
next
  case (Cons c cs)
  from Cons.prems(6) [OF Cons.prems(1,2)] Cons.prems(4,5) obtain q1 where
    q1: "on_queue (k c) (f (int c)) q = Some q1" "shape q1 (put A (k c) p c (T (A (k c) p c)))" "props_of q1 = P" by auto
  let ?A = "put A (k c) p c (T (A (k c) p c))"
  have ok: "\<forall>c \<in> set cs. ok ?A c"
  proof
    fix c' assume c': "c' \<in> set cs"
    then have "ok A c'" "c' \<noteq> c" using Cons.prems(3,5) by auto
    then show "ok ?A c'" using cong [of A c' ?A] by (simp add: put_def)
  qed
  have d: "distinct cs" "\<forall>c \<in> set cs. c < NUM_CORES" using Cons.prems(3,4) by simp_all
  have st: "\<exists>q'. on_queue (k c) (f (int c)) q = Some q' \<and> shape q' (put A (k c) p c (T (A (k c) p c))) \<and> props_of q' = P"
    if "shape q A" "props_of q = P" "c < NUM_CORES" "ok A c" "c \<in> set cs" for q A c
    using Cons.prems(6) [OF that(1-4)] that(5) by simp
  from Cons.IH [OF q1(2,3) d ok st] obtain q2 where
    q2: "each (\<lambda>core. on_queue (k (nat core)) (f core)) cs q1 = Some q2" "shape q2 (at_cores p (set cs) k T ?A)" "props_of q2 = P"
    by blast
  have "at_cores p (set cs) k T ?A = at_cores p (set (c # cs)) k T A"
    using Cons.prems(3) by (auto simp: at_cores_def put_def fun_eq_iff)
  then show ?case using q1(1) q2 by simp
qed

section \<open>Where a thread is queued\<close>

definition place :: "ThreadProps \<Rightarrow> bool \<Rightarrow> nat \<Rightarrow> nat \<Rightarrow> bool" where
  "place pr s p c \<longleftrightarrow> tp_priority pr = int p \<and> bit (tp_affinity pr) c \<and> (tp_active_core pr = int c) = s"

definition props_ok :: "ThreadProps \<Rightarrow> bool" where
  "props_ok pr \<longleftrightarrow> 0 \<le> tp_priority pr \<and> tp_priority pr \<le> LOWEST_PRIORITY \<and> tp_affinity pr < 2 ^ NUM_CORES \<and>
     (tp_active_core pr = -1 \<or> 0 \<le> tp_active_core pr \<and> bit (tp_affinity pr) (nat (tp_active_core pr))) \<and> \<not> tp_is_dummy pr"

lemma small_affinity: "a < 2 ^ NUM_CORES \<Longrightarrow> bit a c \<Longrightarrow> c < NUM_CORES" for a :: u64
proof -
  assume "a < 2 ^ NUM_CORES" "bit a c"
  then have "unat a < 2 ^ 4" by (simp add: word_less_nat_alt NUM_CORES_def)
  then show "c < NUM_CORES" using high_bit_clear [of a 4 c] \<open>bit a c\<close> by (auto simp: NUM_CORES_def not_less [symmetric])
qed

lemma place_bounds: "props_ok pr \<Longrightarrow> place pr s p c \<Longrightarrow> p < 64 \<and> c < NUM_CORES"
  using small_affinity by (auto simp: props_ok_def place_def LOWEST_PRIORITY_def)

lemma belongs_place: "c < NUM_CORES \<Longrightarrow> belongs_to_queue (int c) (int p) s pr \<longleftrightarrow> place pr s p c"
  using affinity_test [of c "tp_affinity pr"] by (auto simp: belongs_to_queue_def place_def NUM_CORES_def)

text \<open>The change \<open>T\<close> of the lists a thread is placed in.\<close>

definition at_places :: "ThreadProps \<Rightarrow> (bool \<Rightarrow> nat list \<Rightarrow> nat list) \<Rightarrow> lists \<Rightarrow> lists" where
  "at_places pr T A = (\<lambda>s p c. if place pr s p c then T s (A s p c) else A s p c)"

text \<open>
  The common form of push_back_impl, push_front_impl, remove_impl and remove_all_expected_impl: an
  operation on the scheduled list of the active core, then one on the suggested lists of the others.
\<close>

lemma spread_shape:
  assumes "shape q A" "props_of q = P" "props_ok pr" "p = nat (tp_priority pr)" "\<forall>c < NUM_CORES. bit (tp_affinity pr) c \<longrightarrow> ok A c"
    and cong: "\<And>A A' c. (\<And>s p. A s p c = A' s p c) \<Longrightarrow> ok A c \<Longrightarrow> ok A' c"
    and step1: "\<And>c. c < NUM_CORES \<Longrightarrow> ok A c \<Longrightarrow> place pr True p c \<Longrightarrow>
      \<exists>q'. on_queue True (f (int c)) q = Some q' \<and> shape q' (put A True p c (T True (A True p c))) \<and> props_of q' = P"
    and step2: "\<And>q A c. shape q A \<Longrightarrow> props_of q = P \<Longrightarrow> c < NUM_CORES \<Longrightarrow> ok A c \<Longrightarrow> place pr False p c \<Longrightarrow>
      \<exists>q'. on_queue False (g (int c)) q = Some q' \<and> shape q' (put A False p c (T False (A False p c))) \<and> props_of q' = P"
  shows "\<exists>q'. do {
       q \<leftarrow> (if 0 \<le> tp_active_core pr then on_scheduled (f (tp_active_core pr)) q else Some q);
       let affinity = (if 0 \<le> tp_active_core pr then clear_affinity_bit (tp_active_core pr) (tp_affinity pr) else tp_affinity pr);
       over_affinity (\<lambda>core. on_suggested (g core)) affinity q } = Some q' \<and>
    shape q' (at_places pr T A) \<and> props_of q' = P"
proof -
  let ?ac = "tp_active_core pr" and ?aff = "tp_affinity pr"
  have pr: "tp_priority pr = int p" using assms(3,4) by (simp add: props_ok_def)
  let ?rest = "if 0 \<le> ?ac then clear_affinity_bit ?ac ?aff else ?aff"
  have rest: "bit ?rest c \<longleftrightarrow> place pr False p c" for c
  proof (cases "0 \<le> ?ac")
    case True
    then have "bit ?aff (nat ?ac)" using assms(3) by (auto simp: props_ok_def)
    then have "nat ?ac < NUM_CORES" using assms(3) small_affinity [of ?aff] unfolding props_ok_def by blast
    then have "?ac mod 64 = ?ac" using True by (simp add: NUM_CORES_def)
    then show ?thesis using True pr by (auto simp: clear_affinity_bit_bit place_def)
  next
    case False
    then show ?thesis using pr by (auto simp: place_def)
  qed
  have core: "c < NUM_CORES \<and> ok A c" if "bit ?aff c" for c
    using that assms(3,5) small_affinity by (auto simp: props_ok_def)
  obtain q1 A1 where q1: "(if 0 \<le> ?ac then on_scheduled (f ?ac) q else Some q) = Some q1" "shape q1 A1" "props_of q1 = P"
    and A1: "A1 = (\<lambda>s p c. if s \<and> place pr s p c then T s (A s p c) else A s p c)"
  proof (cases "0 \<le> ?ac")
    case True
    let ?c = "nat ?ac"
    have b: "bit ?aff ?c" using assms(3) True by (auto simp: props_ok_def)
    then have "place pr True p ?c" using True pr by (simp add: place_def)
    with step1 [of ?c] core [OF b] obtain q' where
      q': "on_queue True (f (int ?c)) q = Some q'" "shape q' (put A True p ?c (T True (A True p ?c)))" "props_of q' = P" by blast
    have "put A True p ?c (T True (A True p ?c)) = (\<lambda>s p c. if s \<and> place pr s p c then T s (A s p c) else A s p c)"
      using True b pr by (auto simp: put_def place_def fun_eq_iff)
    then show ?thesis using q' True by (intro that [of q']) (auto simp: on_queue_def)
  next
    case False
    then have "(\<lambda>s p c. if s \<and> place pr s p c then T s (A s p c) else A s p c) = A" by (auto simp: place_def fun_eq_iff)
    then show ?thesis using False assms(1,2) by (intro that [of q A]) auto
  qed
  let ?cs = "cores_of ?rest"
  have cs: "\<forall>c \<in> set ?cs. c < NUM_CORES" using core by (auto simp: cores_of_iff rest place_def)
  have ok: "\<forall>c \<in> set ?cs. ok A1 c"
  proof
    fix c assume "c \<in> set ?cs"
    then have "place pr False p c" by (simp only: cores_of_iff rest)
    then have "ok A c" "?ac \<noteq> int c" using core by (auto simp: place_def)
    moreover have "A s p c = A1 s p c" for s p using \<open>?ac \<noteq> int c\<close> by (auto simp: A1 place_def)
    ultimately show "ok A1 c" using cong [of A c A1] by blast
  qed
  have "\<exists>q'. each (\<lambda>core. on_queue ((\<lambda>_. False) (nat core)) (g core)) ?cs q1 = Some q' \<and>
     shape q' (at_cores p (set ?cs) (\<lambda>_. False) (T False) A1) \<and> props_of q' = P"
  proof (rule each_shape [where ok = ok, OF q1(2,3) distinct_cores_of cs ok cong])
    show "\<exists>q'. on_queue False (g (int c)) q = Some q' \<and> shape q' (put A False p c (T False (A False p c))) \<and> props_of q' = P"
      if "shape q A" "props_of q = P" "c < NUM_CORES" "ok A c" "c \<in> set ?cs" for q A c
      using step2 [OF that(1-4)] that(5) by (simp only: cores_of_iff rest)
  qed assumption+
  then obtain q2 where q2: "each (\<lambda>core. on_suggested (g core)) ?cs q1 = Some q2"
    "shape q2 (at_cores p (set ?cs) (\<lambda>_. False) (T False) A1)" "props_of q2 = P" unfolding on_queue_kinds by blast
  have "at_cores p (set ?cs) (\<lambda>_. False) (T False) A1 = at_places pr T A"
  proof (intro ext)
    fix s p' c
    have "c \<in> set ?cs \<longleftrightarrow> place pr False p c" by (simp only: cores_of_iff rest)
    note mem = this
    have "place pr s p' c \<longrightarrow> p' = p" using pr by (simp add: place_def)
    then show "at_cores p (set ?cs) (\<lambda>_. False) (T False) A1 s p' c = at_places pr T A s p' c"
      unfolding at_cores_def at_places_def A1 mem by (cases s; cases "p' = p") (simp_all only: simp_thms if_True if_False)
  qed
  then show ?thesis using q1(1) q2 by (simp add: over_affinity_each Let_def)
qed

definition appended :: "nat \<Rightarrow> bool \<Rightarrow> nat list \<Rightarrow> nat list" where
  "appended i s xs = xs @ [i]"

definition fronted :: "nat \<Rightarrow> bool \<Rightarrow> nat list \<Rightarrow> nat list" where
  "fronted i s xs = (if s then i # xs else xs @ [i])"

definition without :: "nat \<Rightarrow> bool \<Rightarrow> nat list \<Rightarrow> nat list" where
  "without i s xs = filter (\<lambda>j. j \<noteq> i) xs"

lemmas list_changes = appended_def fronted_def without_def

lemma nowhere_cong: "(\<And>s p. A s p c = A' s p c) \<Longrightarrow> nowhere A i c \<Longrightarrow> nowhere A' i c"
  by (simp add: nowhere_def)

lemma priority_nat: "props_ok pr \<Longrightarrow> int (nat (tp_priority pr)) = tp_priority pr \<and> nat (tp_priority pr) < 64"
  by (auto simp: props_ok_def LOWEST_PRIORITY_def)

lemma push_impl_ok:
  assumes "shape q A" "props_of q = P" "props_ok pr" "P i \<noteq> None" "\<forall>c < NUM_CORES. bit (tp_affinity pr) c \<longrightarrow> nowhere A i c"
  shows "\<exists>q'. push_back_impl (tp_priority pr) i (tp_active_core pr) (tp_affinity pr) q = Some q' \<and>
      shape q' (at_places pr (appended i) A) \<and> props_of q' = P"
    "\<exists>q'. push_front_impl (tp_priority pr) i (tp_active_core pr) (tp_affinity pr) q = Some q' \<and>
      shape q' (at_places pr (fronted i) A) \<and> props_of q' = P"
proof -
  let ?p = "nat (tp_priority pr)"
  note p = priority_nat [OF assms(3)]
  have known: "props_of q i \<noteq> None" if "props_of q = P" for q using assms(4) that by simp
  have pback: "\<exists>q'. on_queue s (pqi_push_back (tp_priority pr) (int c) i) q = Some q' \<and>
      shape q' (put A s ?p c (A s ?p c @ [i])) \<and> props_of q' = P"
    if "shape q A" "props_of q = P" "c < NUM_CORES" "nowhere A i c" for s c q A
    using push_back_shape [OF that(1) _ that(3,4) known [OF that(2)], of ?p s] p that(2) by simp
  have pfront: "\<exists>q'. on_queue s (pqi_push_front (tp_priority pr) (int c) i) q = Some q' \<and>
      shape q' (put A s ?p c (i # A s ?p c)) \<and> props_of q' = P"
    if "shape q A" "props_of q = P" "c < NUM_CORES" "nowhere A i c" for s c q A
    using push_front_shape [OF that(1) _ that(3,4) known [OF that(2)], of ?p s] p that(2) by simp
  show "\<exists>q'. push_back_impl (tp_priority pr) i (tp_active_core pr) (tp_affinity pr) q = Some q' \<and>
      shape q' (at_places pr (appended i) A) \<and> props_of q' = P"
    unfolding push_back_impl_def
    by (rule spread_shape [where ok = "\<lambda>A. nowhere A i" and f = "\<lambda>core. pqi_push_back (tp_priority pr) core i"
          and g = "\<lambda>core. pqi_push_back (tp_priority pr) core i", OF assms(1-3) refl assms(5)])
      (use pback assms(1,2) in \<open>simp_all add: appended_def nowhere_def\<close>)
  show "\<exists>q'. push_front_impl (tp_priority pr) i (tp_active_core pr) (tp_affinity pr) q = Some q' \<and>
      shape q' (at_places pr (fronted i) A) \<and> props_of q' = P"
    unfolding push_front_impl_def
    by (rule spread_shape [where ok = "\<lambda>A. nowhere A i" and f = "\<lambda>core. pqi_push_front (tp_priority pr) core i"
          and g = "\<lambda>core. pqi_push_back (tp_priority pr) core i", OF assms(1-3) refl assms(5)])
      (use pfront pback assms(1,2) in \<open>simp_all add: fronted_def nowhere_def\<close>)
qed

lemma remove_impl_ok:
  assumes "shape q A" "props_of q = P" "props_ok pr" "\<And>s p c. place pr s p c \<Longrightarrow> i \<in> set (A s p c)"
  shows "\<exists>q'. remove_impl (tp_priority pr) i (tp_active_core pr) (tp_affinity pr) q = Some q' \<and>
    shape q' (at_places pr (without i) A) \<and> props_of q' = P"
proof -
  let ?p = "nat (tp_priority pr)"
  note p = priority_nat [OF assms(3)]
  let ?ok = "\<lambda>A c. \<forall>s. place pr s ?p c \<longrightarrow> i \<in> set (A s ?p c)"
  have rem: "\<exists>q'. on_queue s (pqi_remove (tp_priority pr) (int c) i) q = Some q' \<and>
      shape q' (put A s ?p c (without i s (A s ?p c))) \<and> props_of q' = P"
    if "shape q A" "props_of q = P" "c < NUM_CORES" "?ok A c" "place pr s ?p c" for s c q A
    using remove_shape [OF that(1) _ that(3), of ?p i s] p that(2,4,5) by (simp add: without_def)
  have ok: "\<forall>c < NUM_CORES. bit (tp_affinity pr) c \<longrightarrow> ?ok A c" using assms(4) by blast
  show ?thesis
    unfolding remove_impl_def
    by (rule spread_shape [where ok = ?ok and f = "\<lambda>core. pqi_remove (tp_priority pr) core i"
          and g = "\<lambda>core. pqi_remove (tp_priority pr) core i", OF assms(1-3) refl ok])
      (use rem assms(1,2) in \<open>simp_all\<close>)
qed

text \<open>Of a thread that the queue does not know there is nothing to remove.\<close>

lemma remove_impl_unknown:
  assumes "shape q A" "props_of q = P" "props_ok pr" "P i = None"
  shows "\<exists>q'. remove_impl (tp_priority pr) i (tp_active_core pr) (tp_affinity pr) q = Some q' \<and> shape q' A \<and> props_of q' = P"
proof -
  let ?p = "nat (tp_priority pr)"
  note p = priority_nat [OF assms(3)]
  have rem: "\<exists>q'. on_queue s (pqi_remove (tp_priority pr) (int c) i) q = Some q' \<and> shape q' (put A s ?p c (A s ?p c)) \<and> props_of q' = P"
    if "shape q A" "props_of q = P" "c < NUM_CORES" for s c q A
  proof -
    have "put A s ?p c (A s ?p c) = A" by (auto simp: put_def fun_eq_iff)
    then show ?thesis using remove_unknown_shape [OF that(1) _ that(3), of ?p i s] p that(2) assms(4) by simp
  qed
  have "\<exists>q'. remove_impl (tp_priority pr) i (tp_active_core pr) (tp_affinity pr) q = Some q' \<and>
      shape q' (at_places pr (\<lambda>_ xs. xs) A) \<and> props_of q' = P"
    unfolding remove_impl_def
    by (rule spread_shape [where ok = "\<lambda>_ _. True" and f = "\<lambda>core. pqi_remove (tp_priority pr) core i"
          and g = "\<lambda>core. pqi_remove (tp_priority pr) core i", OF assms(1-3) refl])
      (use rem assms(1,2) in \<open>simp_all\<close>)
  moreover have "at_places pr (\<lambda>_ xs. xs) A = A" by (simp add: at_places_def fun_eq_iff)
  ultimately show ?thesis by simp
qed

text \<open>The lists hold every other thread exactly where its properties place it.\<close>

definition others_placed :: "(nat \<Rightarrow> ThreadProps option) \<Rightarrow> nat \<Rightarrow> lists \<Rightarrow> bool" where
  "others_placed P i A \<longleftrightarrow> (\<forall>j s p c. j \<noteq> i \<longrightarrow> j \<in> set (A s p c) \<longleftrightarrow> (\<exists>pr. P j = Some pr \<and> place pr s p c))"

lemma purge_impl_ok:
  assumes "shape q A" "props_of q = P" "props_ok pr" "others_placed P i A" "\<forall>c < NUM_CORES. nowhere A i c"
  shows "\<exists>q'. remove_all_expected_impl order (tp_priority pr) i (tp_active_core pr) (tp_affinity pr) q = Some q' \<and>
    shape q' A \<and> props_of q' = P"
proof -
  let ?p = "nat (tp_priority pr)"
  note p = priority_nat [OF assms(3)]
  let ?ok = "\<lambda>A c. nowhere A i c \<and> (\<forall>j s p. j \<noteq> i \<longrightarrow> j \<in> set (A s p c) \<longleftrightarrow> (\<exists>pr. P j = Some pr \<and> place pr s p c))"
  have pur: "\<exists>q'. on_queue s (purge order (tp_priority pr) s (int c) i) q = Some q' \<and>
      shape q' (put A s ?p c (without i s (A s ?p c))) \<and> props_of q' = P"
    if "shape q A" "props_of q = P" "c < NUM_CORES" "?ok A c" for s c q A
  proof -
    have b: "belongs_to_queue (int c) (int ?p) s pr' = (j \<in> set (A s ?p c))" if "props_of q j = Some pr'" "j \<noteq> i" for j pr'
      using that \<open>?ok A c\<close> \<open>props_of q = P\<close> unfolding belongs_place [OF \<open>c < NUM_CORES\<close>] by simp
    show ?thesis
      using purge_shape [OF that(1) _ that(3) nowhere_only b, where order = order] p that(2,4) by (simp add: without_def)
  qed
  have ok: "\<forall>c < NUM_CORES. bit (tp_affinity pr) c \<longrightarrow> ?ok A c" using assms(4,5) by (simp add: others_placed_def)
  have "\<exists>q'. remove_all_expected_impl order (tp_priority pr) i (tp_active_core pr) (tp_affinity pr) q = Some q' \<and>
      shape q' (at_places pr (without i) A) \<and> props_of q' = P"
    unfolding remove_all_expected_impl_def
  proof (rule spread_shape [where ok = ?ok and f = "\<lambda>core. purge order (tp_priority pr) True core i"
          and g = "\<lambda>core. purge order (tp_priority pr) False core i", OF assms(1-3) refl ok])
    show "?ok A' c" if "\<And>s p. A s p c = A' s p c" "?ok A c" for A A' :: lists and c
      using that nowhere_cong [of A c A' i] by simp
  qed (use pur assms(1,2) in \<open>simp_all\<close>)
  moreover have "at_places pr (without i) A = A"
  proof (intro ext)
    fix s p' c
    show "at_places pr (without i) A s p' c = A s p' c"
    proof (cases "place pr s p' c")
      case True
      then have "i \<notin> set (A s p' c)" using place_bounds [OF assms(3) True] assms(5) by (simp add: nowhere_def)
      then show ?thesis by (auto simp: at_places_def without_def intro: filter_True)
    qed (simp add: at_places_def)
  qed
  ultimately show ?thesis by simp
qed

end
