(* ===== verification/PriorityQueueRefine.thy ===== *)
theory PriorityQueueRefine
  imports PriorityQueueProps
begin

text \<open>
  The specification of the priority queue, on plain lists, and the proof that the operations on
  links implement it. Properties: the refinement for runs of operations, and the order in which a
  core sees its threads.
\<close>

section \<open>The specification\<close>

type_synonym thread_props = "nat \<Rightarrow> ThreadProps option"

definition leave :: "nat \<Rightarrow> lists \<Rightarrow> lists" where
  "leave i A = (\<lambda>s p c. filter (\<lambda>j. j \<noteq> i) (A s p c))"

datatype pq_op =
    Push_Back nat ThreadProps
  | Push_Front nat ThreadProps
  | Remove nat int int u64
  | Move_Front nat int int
  | Move_Back nat int int
  | Change_Priority int bool nat int int u64
  | Change_Affinity int u64 nat int u64 int
  | Change_Core int nat int int bool
  | Set_Tick nat int

text \<open>When the arguments of an operation are in order: the caller knows the cached values it must name.\<close>

fun op_ok :: "thread_props \<Rightarrow> pq_op \<Rightarrow> bool" where
  "op_ok P (Push_Back i pr) \<longleftrightarrow> props_ok pr"
| "op_ok P (Push_Front i pr) \<longleftrightarrow> props_ok pr"
| "op_ok P (Remove i priority core affinity) \<longleftrightarrow> P i \<noteq> None"
| "op_ok P (Move_Front i priority core) \<longleftrightarrow> (\<exists>pr. P i = Some pr \<and> 0 \<le> tp_active_core pr)"
| "op_ok P (Move_Back i priority core) \<longleftrightarrow> (\<exists>pr. P i = Some pr \<and> 0 \<le> tp_active_core pr)"
| "op_ok P (Change_Priority prev running i new core affinity) \<longleftrightarrow>
     (\<exists>pr. P i = Some pr \<and> tp_priority pr = prev) \<and> 0 \<le> new \<and> new \<le> LOWEST_PRIORITY"
| "op_ok P (Change_Affinity core affinity i new_core new_affinity priority) \<longleftrightarrow>
     (\<exists>pr. P i = Some pr \<and> tp_active_core pr = core \<and> tp_affinity pr = affinity \<and> tp_priority pr = priority \<and>
        props_ok (pr\<lparr>tp_active_core := new_core, tp_affinity := new_affinity\<rparr>))"
| "op_ok P (Change_Core core i new_core priority to_front) \<longleftrightarrow>
     (\<exists>pr. P i = Some pr \<and> tp_active_core pr = core \<and> tp_priority pr = priority \<and>
        props_ok (pr\<lparr>tp_active_core := new_core\<rparr>))"
| "op_ok P (Set_Tick i tick) \<longleftrightarrow> True"

text \<open>A thread that enters leaves its old lists first; a change of core only touches the two cores.\<close>

definition requeue :: "nat \<Rightarrow> ThreadProps \<Rightarrow> (bool \<Rightarrow> nat list \<Rightarrow> nat list) \<Rightarrow> lists \<times> thread_props \<Rightarrow> lists \<times> thread_props" where
  "requeue i pr T AP = (case AP of (A, P) \<Rightarrow> (at_places pr T (leave i A), P(i \<mapsto> pr)))"

definition migrated :: "nat \<Rightarrow> int \<Rightarrow> ThreadProps \<Rightarrow> bool \<Rightarrow> lists \<Rightarrow> lists" where
  "migrated i prev pr to_front A = (\<lambda>s p c.
     if int c \<noteq> prev \<and> int c \<noteq> tp_active_core pr then A s p c
     else if place pr s p c then (if s \<and> to_front then i # leave i A s p c else leave i A s p c @ [i])
     else leave i A s p c)"

fun pq_spec :: "pq_op \<Rightarrow> lists \<times> thread_props \<Rightarrow> lists \<times> thread_props" where
  "pq_spec (Push_Back i pr) AP = requeue i (pr\<lparr>tp_last_scheduled_tick := 0\<rparr>) (appended i) AP"
| "pq_spec (Push_Front i pr) AP = requeue i (pr\<lparr>tp_last_scheduled_tick := 0\<rparr>) (fronted i) AP"
| "pq_spec (Remove i priority core affinity) (A, P) = (leave i A, P(i := None))"
| "pq_spec (Move_Front i priority core) (A, P) =
     ((\<lambda>s p c. if s \<and> place (the (P i)) s p c then i # leave i A s p c else A s p c), P)"
| "pq_spec (Move_Back i priority core) (A, P) =
     ((\<lambda>s p c. if s \<and> place (the (P i)) s p c then leave i A s p c @ [i] else A s p c), P)"
| "pq_spec (Change_Priority prev running i new core affinity) (A, P) =
     requeue i ((the (P i))\<lparr>tp_priority := new\<rparr>) (if running then fronted i else appended i) (A, P)"
| "pq_spec (Change_Affinity core affinity i new_core new_affinity priority) (A, P) =
     requeue i ((the (P i))\<lparr>tp_active_core := new_core, tp_affinity := new_affinity\<rparr>) (appended i) (A, P)"
| "pq_spec (Change_Core core i new_core priority to_front) (A, P) =
     (let pr = (the (P i))\<lparr>tp_active_core := new_core\<rparr>
      in if core = new_core then (A, P) else (migrated i core pr to_front A, P(i \<mapsto> pr)))"
| "pq_spec (Set_Tick i tick) (A, P) =
     (A, case P i of None \<Rightarrow> P | Some pr \<Rightarrow> P(i \<mapsto> pr\<lparr>tp_last_scheduled_tick := tick\<rparr>))"

text \<open>The operation of the code.\<close>

fun pq_exec :: "(nat list \<Rightarrow> nat list) \<Rightarrow> pq_op \<Rightarrow> KPriorityQueue \<Rightarrow> KPriorityQueue option" where
  "pq_exec order (Push_Back i pr) q =
     pq_push_back i (tp_priority pr) (tp_active_core pr) (tp_affinity pr) (tp_is_dummy pr) (tp_schedule_count pr) q"
| "pq_exec order (Push_Front i pr) q =
     pq_push_front i (tp_priority pr) (tp_active_core pr) (tp_affinity pr) (tp_is_dummy pr) (tp_schedule_count pr) q"
| "pq_exec order (Remove i priority core affinity) q = pq_remove order i priority core affinity False q"
| "pq_exec order (Move_Front i priority core) q = move_to_scheduled_front i priority core False q"
| "pq_exec order (Move_Back i priority core) q = map_option snd (move_to_scheduled_back i priority core False q)"
| "pq_exec order (Change_Priority prev running i new core affinity) q =
     pq_change_priority prev running i new core affinity False q"
| "pq_exec order (Change_Affinity core affinity i new_core new_affinity priority) q =
     pq_change_affinity_mask core affinity i new_core new_affinity priority False q"
| "pq_exec order (Change_Core core i new_core priority to_front) q =
     pq_change_core order core i new_core priority False to_front q"
| "pq_exec order (Set_Tick i tick) q = Some (set_last_scheduled_tick i tick q)"

section \<open>The representation\<close>

definition rep :: "KPriorityQueue \<Rightarrow> lists \<Rightarrow> thread_props \<Rightarrow> bool" where
  "rep q A P \<longleftrightarrow> shape q A \<and> props_of q = P \<and>
     (\<forall>j s p c. j \<in> set (A s p c) \<longleftrightarrow> (\<exists>pr. P j = Some pr \<and> place pr s p c)) \<and>
     (\<forall>j pr. P j = Some pr \<longrightarrow> props_ok pr)"

lemma rep_others: "rep q A P \<Longrightarrow> others_placed P i A"
  by (simp add: rep_def others_placed_def)

lemma others_leave: "others_placed P i A \<Longrightarrow> others_placed P i (leave i A)"
  by (simp add: others_placed_def leave_def)

lemma nowhere_leave: "nowhere (leave i A) i c"
  by (simp add: nowhere_def leave_def)

lemma leave_places:
  assumes "rep q A P" "P i = Some pr"
  shows "at_places pr (without i) A = leave i A"
proof (intro ext)
  fix s p c
  have "i \<in> set (A s p c) \<longleftrightarrow> place pr s p c" using assms by (simp add: rep_def)
  moreover have "i \<notin> set (A s p c) \<Longrightarrow> filter (\<lambda>j. j \<noteq> i) (A s p c) = A s p c" by (auto intro: filter_True)
  ultimately show "at_places pr (without i) A s p c = leave i A s p c"
    by (auto simp: at_places_def without_def leave_def)
qed

lemma leave_unknown:
  assumes "rep q A P" "P i = None"
  shows "leave i A = A"
proof (intro ext)
  fix s p c
  have "i \<notin> set (A s p c)" using assms by (simp add: rep_def)
  then show "leave i A s p c = A s p c" by (auto simp: leave_def intro: filter_True)
qed

text \<open>A new place for one thread completes the representation.\<close>

lemma rep_requeue:
  assumes "rep q A P" "props_ok pr" "shape q' (at_places pr T (leave i A))" "props_of q' = P(i \<mapsto> pr)"
    "\<And>s xs. set (T s xs) = insert i (set xs)"
  shows "rep q' (at_places pr T (leave i A)) (P(i \<mapsto> pr))"
  using assms unfolding rep_def at_places_def leave_def by auto

lemma set_changes [simp]: "set (appended i s xs) = insert i (set xs)" "set (fronted i s xs) = insert i (set xs)"
  by (auto simp: list_changes)

section \<open>The map of members\<close>

lemma shape_members:
  assumes "shape q A" "finite (Mapping.keys m)"
    "\<And>s p c j. p < 64 \<Longrightarrow> c < NUM_CORES \<Longrightarrow> j \<in> set (A s p c) \<Longrightarrow> get_entry c j m = get_entry c j (members q)"
  shows "shape (q\<lparr>members := m\<rparr>) A"
proof -
  have s: "sel s (q\<lparr>members := m\<rparr>) = sel s q" for s by (simp add: sel_def)
  have "list_ok c (queues (sel s q) p) m (A s p c)" if "p < 64" "c < NUM_CORES" for s p c
    by (rule list_ok_cong [OF shapeD(1) [OF assms(1) that] refl assms(3) [OF that]])
  then show ?thesis using assms(1,2) unfolding shape_def by (simp add: s)
qed

lemma set_props_ok:
  assumes "shape q A" "props_of q = P"
  shows "shape (set_props i f q) A \<and> props_of (set_props i f q) = (case P i of None \<Rightarrow> P | Some pr \<Rightarrow> P(i \<mapsto> f pr))"
proof (cases "Mapping.lookup (members q) i")
  case None
  then show ?thesis using assms by (auto simp: set_props_def props_of_at props_at_def)
next
  case (Some s)
  let ?m = "Mapping.update i (s\<lparr>props := f (props s)\<rparr>) (members q)"
  have "get_entry c j ?m = get_entry c j (members q)" for c j
    using Some by (auto simp: get_entry_def lookup_update')
  then have "shape (q\<lparr>members := ?m\<rparr>) A" using shape_finite [OF assms(1)] by (intro shape_members [OF assms(1)]) simp_all
  moreover have "props_of (q\<lparr>members := ?m\<rparr>) = P(i \<mapsto> f (props s))" "P i = Some (props s)"
    using Some by (auto simp: assms(2) [symmetric] props_of_at props_at_def lookup_update' fun_eq_iff)
  ultimately show ?thesis using Some by (simp add: set_props_def)
qed

lemma enter_member_ok:
  assumes "rep q A P" "props_ok pr"
  shows "\<exists>q'. enter_member i pr q = Some q' \<and> shape q' (leave i A) \<and> props_of q' = P(i \<mapsto> pr)"
proof -
  have r: "shape q A" "props_of q = P" "\<And>j pr. P j = Some pr \<Longrightarrow> props_ok pr"
    "\<And>j s p c. j \<in> set (A s p c) \<longleftrightarrow> (\<exists>pr. P j = Some pr \<and> place pr s p c)" using assms(1) by (auto simp: rep_def)
  have "\<exists>q1. (case get_thread_props i q of None \<Rightarrow> Some q
      | Some e \<Rightarrow> remove_impl (tp_priority e) i (tp_active_core e) (tp_affinity e) q) = Some q1 \<and> shape q1 (leave i A) \<and> props_of q1 = P"
  proof (cases "P i")
    case None
    then have "get_thread_props i q = None" using r(2) by (simp add: props_of_def fun_eq_iff)
    then show ?thesis using r(1,2) leave_unknown [OF assms(1) None] by simp
  next
    case (Some e)
    then have g: "get_thread_props i q = Some e" using r(2) by (simp add: props_of_def fun_eq_iff)
    have "i \<in> set (A s p c)" if "place e s p c" for s p c using Some that r(4) by simp
    from remove_impl_ok [OF r(1,2) r(3) [OF Some] this] show ?thesis
      using g leave_places [OF assms(1) Some] by simp
  qed
  then obtain q1 where q1: "(case get_thread_props i q of None \<Rightarrow> Some q
      | Some e \<Rightarrow> remove_impl (tp_priority e) i (tp_active_core e) (tp_affinity e) q) = Some q1"
    "shape q1 (leave i A)" "props_of q1 = P" by blast
  let ?slot = "case Mapping.lookup (members q1) i of Some slot \<Rightarrow> slot\<lparr>props := pr\<rparr> | None \<Rightarrow> slot_new pr"
  let ?q = "q1\<lparr>members := Mapping.update i ?slot (members q1)\<rparr>"
  have "enter_member i pr q = Some ?q"
    using q1(1) by (simp add: enter_member_def split: option.split)
  moreover have "shape ?q (leave i A)"
  proof (rule shape_members [OF q1(2)])
    show "finite (Mapping.keys (Mapping.update i ?slot (members q1)))" using shape_finite [OF q1(2)] by simp
    show "get_entry c j (Mapping.update i ?slot (members q1)) = get_entry c j (members q1)"
      if "j \<in> set (leave i A s p c)" for s p c j
      using that by (simp add: leave_def get_entry_def lookup_update')
  qed
  moreover have "props ?slot = pr" by (simp add: slot_new_def split: option.split)
  then have "props_of ?q = P(i \<mapsto> pr)"
    using q1(3) by (auto simp: props_of_at props_at_def lookup_update' fun_eq_iff)
  ultimately show ?thesis by blast
qed

section \<open>The operations\<close>

lemma enqueue_ok:
  assumes "rep q A P" "props_ok pr" "tp_last_scheduled_tick pr = 0"
  shows "\<exists>q'. pq_push_back i (tp_priority pr) (tp_active_core pr) (tp_affinity pr) False (tp_schedule_count pr) q = Some q' \<and>
      rep q' (at_places pr (appended i) (leave i A)) (P(i \<mapsto> pr))"
    "\<exists>q'. pq_push_front i (tp_priority pr) (tp_active_core pr) (tp_affinity pr) False (tp_schedule_count pr) q = Some q' \<and>
      rep q' (at_places pr (fronted i) (leave i A)) (P(i \<mapsto> pr))"
proof -
  have pr: "\<lparr>tp_priority = tp_priority pr, tp_active_core = tp_active_core pr, tp_affinity = tp_affinity pr,
      tp_is_dummy = False, tp_last_scheduled_tick = 0, tp_schedule_count = tp_schedule_count pr\<rparr> = pr"
    using assms(2,3) by (cases pr) (simp add: props_ok_def)
  from enter_member_ok [OF assms(1,2)] obtain q1 where
    q1: "enter_member i pr q = Some q1" "shape q1 (leave i A)" "props_of q1 = P(i \<mapsto> pr)" by blast
  have n: "\<forall>c < NUM_CORES. bit (tp_affinity pr) c \<longrightarrow> nowhere (leave i A) i c" by (simp add: nowhere_leave)
  have known: "(P(i \<mapsto> pr)) i \<noteq> None" by simp
  show "\<exists>q'. pq_push_back i (tp_priority pr) (tp_active_core pr) (tp_affinity pr) False (tp_schedule_count pr) q = Some q' \<and>
      rep q' (at_places pr (appended i) (leave i A)) (P(i \<mapsto> pr))"
  proof -
    from push_impl_ok(1) [OF q1(2,3) assms(2) known n] obtain q2 where
      q2: "push_back_impl (tp_priority pr) i (tp_active_core pr) (tp_affinity pr) q1 = Some q2"
        "shape q2 (at_places pr (appended i) (leave i A))" "props_of q2 = P(i \<mapsto> pr)" by blast
    have "rep q2 (at_places pr (appended i) (leave i A)) (P(i \<mapsto> pr))"
      by (rule rep_requeue [OF assms(1,2) q2(2,3) set_changes(1)])
    then show ?thesis using q1(1) q2(1) by (simp add: pq_push_back_def pr)
  qed
  show "\<exists>q'. pq_push_front i (tp_priority pr) (tp_active_core pr) (tp_affinity pr) False (tp_schedule_count pr) q = Some q' \<and>
      rep q' (at_places pr (fronted i) (leave i A)) (P(i \<mapsto> pr))"
  proof -
    from push_impl_ok(2) [OF q1(2,3) assms(2) known n] obtain q2 where
      q2: "push_front_impl (tp_priority pr) i (tp_active_core pr) (tp_affinity pr) q1 = Some q2"
        "shape q2 (at_places pr (fronted i) (leave i A))" "props_of q2 = P(i \<mapsto> pr)" by blast
    have "rep q2 (at_places pr (fronted i) (leave i A)) (P(i \<mapsto> pr))"
      by (rule rep_requeue [OF assms(1,2) q2(2,3) set_changes(2)])
    then show ?thesis using q1(1) q2(1) by (simp add: pq_push_front_def pr)
  qed
qed

lemma pq_remove_ok:
  assumes "rep q A P" "P i = Some pr"
  shows "\<exists>q'. pq_remove order i priority core affinity False q = Some q' \<and> rep q' (leave i A) (P(i := None))"
proof -
  have r: "shape q A" "props_of q = P" "props_ok pr"
    "\<And>j s p c. j \<in> set (A s p c) \<longleftrightarrow> (\<exists>pr. P j = Some pr \<and> place pr s p c)" using assms by (auto simp: rep_def)
  have g: "get_thread_props i q = Some pr" using r(2) assms(2) by (simp add: props_of_def fun_eq_iff)
  have "i \<in> set (A s p c)" if "place pr s p c" for s p c using assms(2) that r(4) by simp
  from remove_impl_ok [OF r(1-3) this] obtain q1 where
    q1: "remove_impl (tp_priority pr) i (tp_active_core pr) (tp_affinity pr) q = Some q1" "shape q1 (leave i A)" "props_of q1 = P"
    unfolding leave_places [OF assms] by blast
  have "\<forall>c < NUM_CORES. nowhere (leave i A) i c" by (simp add: nowhere_leave)
  from purge_impl_ok [OF q1(2,3) r(3) others_leave [OF rep_others [OF assms(1)]] this] obtain q2 where
    q2: "remove_all_expected_impl order (tp_priority pr) i (tp_active_core pr) (tp_affinity pr) q1 = Some q2"
      "shape q2 (leave i A)" "props_of q2 = P" by blast
  let ?m = "Mapping.delete i (members q2)" and ?q = "q2\<lparr>members := Mapping.delete i (members q2)\<rparr>"
  have "shape ?q (leave i A)"
  proof (rule shape_members [OF q2(2)])
    show "finite (Mapping.keys ?m)" using shape_finite [OF q2(2)] by simp
    show "get_entry c j ?m = get_entry c j (members q2)" if "j \<in> set (leave i A s p c)" for s p c j
      using that by (simp add: leave_def get_entry_def)
  qed
  moreover have "props_of ?q j = (P(i := None)) j" for j
    using q2(3) by (cases "j = i") (simp_all add: props_of_at props_at_def fun_eq_iff)
  then have "props_of ?q = P(i := None)" by (intro ext)
  ultimately have "rep ?q (leave i A) (P(i := None))"
    using assms(1) unfolding rep_def by (auto simp: leave_def)
  then show ?thesis using q1(1) q2(1) g by (auto simp: pq_remove_def Let_def)
qed

lemma known_props: "rep q A P \<Longrightarrow> get_thread_props i q = P i"
  by (auto simp: rep_def props_of_def)

lemma cached_ok: "rep q A P \<Longrightarrow> P i = Some pr \<Longrightarrow> cached_position i p c q = (tp_priority pr, tp_active_core pr)"
  by (simp add: cached_position_def known_props)

text \<open>Moving within one list: remove and push, while the list is known not to stay empty.\<close>

lemma move_ok:
  assumes "rep q A P" "P i = Some pr" "0 \<le> tp_active_core pr"
  defines "c \<equiv> nat (tp_active_core pr)" and "p \<equiv> nat (tp_priority pr)"
  shows "\<exists>q'. move_to_scheduled_front i priority core False q = Some q' \<and>
      rep q' (put A True p c (i # leave i A True p c)) P"
    "\<exists>q'. move_to_scheduled_back i priority core False q = Some (first_of (leave i A True p c @ [i]), q') \<and>
      rep q' (put A True p c (leave i A True p c @ [i])) P"
proof -
  have r: "shape q A" "props_of q = P" "props_ok pr"
    "\<And>j s p c. j \<in> set (A s p c) \<longleftrightarrow> (\<exists>pr. P j = Some pr \<and> place pr s p c)" using assms(1,2) by (auto simp: rep_def)
  have p: "int p = tp_priority pr" "p < 64" using priority_nat [OF r(3)] by (simp_all add: p_def)
  have ci: "int c = tp_active_core pr" using assms(3) by (simp add: c_def)
  have pl: "place pr True p c" using r(3) p(1) ci assms(3) by (auto simp: place_def props_ok_def c_def)
  have c: "c < NUM_CORES" using place_bounds [OF r(3) pl] by simp
  have i: "i \<in> set (A True p c)" using r(4) assms(2) pl by blast
  let ?l = "queues (scheduled_queue q) p" and ?ys = "filter (\<lambda>j. j \<noteq> i) (A True p c)"
  note sh = shapeD [OF r(1) p(2) c, where s = True]
  have lv: "leave i A True p c = ?ys" by (simp add: leave_def)
  from remove_ok [OF c sh(1) i] obtain l m where
    l: "per_core_remove (int c) i ?l (members q) = Some (?ys = [], l, m)" "list_ok c l m ?ys"
      "other_roots c ?l l" "changes c (set (A True p c)) (members q) m" by (auto simp: sel_def)
  have n: "i \<notin> set ?ys" by simp
  have "props_at i m = props_of q i" using l(4) by (simp add: changes_def props_of_at)
  then have "props_at i m \<noteq> None" using assms(2) r(2) by simp
  then have known: "Mapping.lookup m i \<noteq> None" by simp
  have moved: "shape (q\<lparr>scheduled_queue := (scheduled_queue q)\<lparr>queues := (queues (scheduled_queue q))(p := l')\<rparr>, members := m'\<rparr>) (put A True p c ys) \<and>
      props_of (q\<lparr>scheduled_queue := (scheduled_queue q)\<lparr>queues := (queues (scheduled_queue q))(p := l')\<rparr>, members := m'\<rparr>) = props_of q"
    if "list_ok c l' m' ys" "other_roots c l l'" "changes c (insert i (set ?ys)) m m'" "set ys = insert i (set ?ys)" for l' m' ys
  proof -
    let ?x = "(scheduled_queue q)\<lparr>queues := (queues (scheduled_queue q))(p := l')\<rparr>"
    have o: "other_roots c ?l l'" using l(3) that(2) by (simp add: other_roots_def)
    have ch: "changes c (insert i (set (A True p c))) (members q) m'"
      using changes_trans [OF changes_mono [OF l(4), of "insert i (set (A True p c))"] changes_mono [OF that(3), of "insert i (set (A True p c))"]]
      by auto
    have "shape (upd True ?x m' q) (put A True p c ys) \<and> props_of (upd True ?x m' q) = props_of q"
      using sh(2) that(4) i p(2) o
      by (intro put_shape [OF r(1) p(2) c sh(3) [OF i] _ that(1) _ ch]) (auto simp: sel_def)
    then show ?thesis by (simp add: upd_def)
  qed
  have fin: "rep q' (put A True p c ys) P" if "shape q' (put A True p c ys)" "props_of q' = props_of q" "set ys = set (A True p c)" for q' ys
    using that assms(1) unfolding rep_def put_def by auto
  have all: "insert i (set ?ys) = set (A True p c)" using i by auto
  from push_front_ok [OF c l(2) n known] obtain l2 m2 where
    f: "per_core_push_front (int c) i l m = Some (?ys = [], l2, m2)" "list_ok c l2 m2 (i # ?ys)" "other_roots c l l2"
      "changes c (insert i (set ?ys)) m m2" by blast
  show "\<exists>q'. move_to_scheduled_front i priority core False q = Some q' \<and> rep q' (put A True p c (i # leave i A True p c)) P"
    using moved [OF f(2-4)] fin all l(1) f(1) p c not_lowest [OF p(2)]
    by (simp add: move_to_scheduled_front_def cached_ok [OF assms(1,2)] on_scheduled_def pqi_move_to_front_def
        ix_bounds lv flip: p(1) ci)
  from push_back_ok [OF c l(2) n known] obtain l3 m3 where
    b: "per_core_push_back (int c) i l m = Some (?ys = [], l3, m3)" "list_ok c l3 m3 (?ys @ [i])" "other_roots c l l3"
      "changes c (insert i (set ?ys)) m m3" by blast
  have fr: "per_core_get_front (int c) l3 = Some (first_of (?ys @ [i]))"
    using b(2) c by (simp add: per_core_get_front_def list_ok_def first_of_head)
  show "\<exists>q'. move_to_scheduled_back i priority core False q = Some (first_of (leave i A True p c @ [i]), q') \<and>
      rep q' (put A True p c (leave i A True p c @ [i])) P"
    using moved [OF b(2-4)] fin all l(1) b(1) fr p c not_lowest [OF p(2)]
    by (simp add: move_to_scheduled_back_def cached_ok [OF assms(1,2)] pqi_move_to_back_def
        ix_bounds lv flip: p(1) ci)
qed

lemma change_priority_ok:
  assumes "rep q A P" "P i = Some pr" "tp_priority pr = prev" "0 \<le> new" "new \<le> LOWEST_PRIORITY"
  defines "pr' \<equiv> pr\<lparr>tp_priority := new\<rparr>"
  shows "\<exists>q'. pq_change_priority prev running i new core affinity False q = Some q' \<and>
    rep q' (at_places pr' (if running then fronted i else appended i) (leave i A)) (P(i \<mapsto> pr'))"
proof -
  have r: "shape q A" "props_of q = P" "props_ok pr"
    "\<And>j s p c. j \<in> set (A s p c) \<longleftrightarrow> (\<exists>pr. P j = Some pr \<and> place pr s p c)" using assms(1,2) by (auto simp: rep_def)
  have ok': "props_ok pr'" using r(3) assms(4,5) by (simp add: props_ok_def pr'_def)
  have same: "tp_priority pr' = new" "tp_active_core pr' = tp_active_core pr" "tp_affinity pr' = tp_affinity pr" by (simp_all add: pr'_def)
  have "i \<in> set (A s p c)" if "place pr s p c" for s p c using assms(2) that r(4) by simp
  from remove_impl_ok [OF r(1-3) this] obtain q1 where
    q1: "remove_impl prev i (tp_active_core pr) (tp_affinity pr) q = Some q1" "shape q1 (leave i A)" "props_of q1 = P"
    unfolding leave_places [OF assms(1,2)] assms(3) by blast
  have n: "\<forall>c < NUM_CORES. bit (tp_affinity pr') c \<longrightarrow> nowhere (leave i A) i c" by (simp add: nowhere_leave)
  have known: "P i \<noteq> None" using assms(2) by simp
  let ?T = "if running then fronted i else appended i"
  have "\<exists>q2. (if running then push_front_impl new i (tp_active_core pr) (tp_affinity pr) q1
      else push_back_impl new i (tp_active_core pr) (tp_affinity pr) q1) = Some q2 \<and> shape q2 (at_places pr' ?T (leave i A)) \<and> props_of q2 = P"
    using push_impl_ok [OF q1(2,3) ok' known n] unfolding same by (cases running) simp_all
  then obtain q2 where q2: "(if running then push_front_impl new i (tp_active_core pr) (tp_affinity pr) q1
      else push_back_impl new i (tp_active_core pr) (tp_affinity pr) q1) = Some q2" "shape q2 (at_places pr' ?T (leave i A))" "props_of q2 = P"
    by blast
  let ?q = "set_props i (\<lambda>p. p\<lparr>tp_priority := new\<rparr>) q2"
  have "shape ?q (at_places pr' ?T (leave i A))" "props_of ?q = P(i \<mapsto> pr')"
    using set_props_ok [OF q2(2,3), of i "\<lambda>p. p\<lparr>tp_priority := new\<rparr>"] assms(2) by (simp_all add: pr'_def)
  then have "rep ?q (at_places pr' ?T (leave i A)) (P(i \<mapsto> pr'))" by (intro rep_requeue [OF assms(1) ok']) simp_all
  moreover have "pq_change_priority prev running i new core affinity False q = Some ?q"
    using known_props [OF assms(1)] assms(2) q1(1) q2(1) by (simp add: pq_change_priority_def)
  ultimately show ?thesis by blast
qed

text \<open>The loops of a change of affinity.\<close>

lemma over_cores_ok:
  assumes "shape q A" "props_of q = P" "props_ok pr" "\<forall>c < NUM_CORES. bit (tp_affinity pr) c \<longrightarrow> ok A c"
    and cong: "\<And>A A' c. (\<And>s p. A s p c = A' s p c) \<Longrightarrow> ok A c \<Longrightarrow> ok A' c"
    and step: "\<And>q A s c. shape q A \<Longrightarrow> props_of q = P \<Longrightarrow> c < NUM_CORES \<Longrightarrow> ok A c \<Longrightarrow> place pr s (nat (tp_priority pr)) c \<Longrightarrow>
      \<exists>q'. on_queue s (f (int c)) q = Some q' \<and>
        shape q' (put A s (nat (tp_priority pr)) c (T (A s (nat (tp_priority pr)) c))) \<and> props_of q' = P"
  shows "\<exists>q'. over_cores [0..<NUM_CORES] (tp_affinity pr) (tp_active_core pr) f q = Some q' \<and>
    shape q' (at_places pr (\<lambda>_. T) A) \<and> props_of q' = P"
proof -
  let ?cs = "filter (bit (tp_affinity pr)) [0..<NUM_CORES]" and ?k = "\<lambda>c. int c = tp_active_core pr"
  let ?p = "nat (tp_priority pr)"
  have pl: "place pr (?k c) ?p c" if "c \<in> set ?cs" for c
    using that priority_nat [OF assms(3)] by (auto simp: place_def)
  have d: "distinct ?cs" "\<forall>c \<in> set ?cs. c < NUM_CORES" "\<forall>c \<in> set ?cs. ok A c" using assms(4) by auto
  have "\<exists>q'. each (\<lambda>core. on_queue (?k (nat core)) (f core)) ?cs q = Some q' \<and>
      shape q' (at_cores ?p (set ?cs) ?k T A) \<and> props_of q' = P"
    by (rule each_shape [where ok = ok, OF assms(1,2) d cong step]) (use pl in simp_all)
  moreover have "over_cores [0..<NUM_CORES] (tp_affinity pr) (tp_active_core pr) f q =
      each (\<lambda>core. on_queue (?k (nat core)) (f core)) ?cs q"
  proof -
    have cong': "each f' ?cs q = each g' ?cs q" if "\<And>c. f' (int c) = g' (int c)" for f' g' :: "int \<Rightarrow> KPriorityQueue \<Rightarrow> KPriorityQueue option"
    proof -
      have "each f' cs = each g' cs" for cs
      proof (induction cs)
        case (Cons c cs)
        then show ?case by (intro ext) (simp add: that)
      qed (intro ext, simp)
      then show ?thesis by simp
    qed
    have "over_cores [0..<NUM_CORES] (tp_affinity pr) (tp_active_core pr) f q =
        each (\<lambda>core. on_queue (core = tp_active_core pr) (f core)) ?cs q"
      by (rule over_cores_each) (simp add: NUM_CORES_def)
    also have "\<dots> = each (\<lambda>core. on_queue (?k (nat core)) (f core)) ?cs q" by (rule cong') simp
    finally show ?thesis .
  qed
  moreover have "at_cores ?p (set ?cs) ?k T A = at_places pr (\<lambda>_. T) A"
    using place_bounds [OF assms(3)] priority_nat [OF assms(3)] unfolding at_cores_def at_places_def
    by (intro ext) (auto simp: place_def)
  ultimately show ?thesis by simp
qed

lemma change_affinity_ok:
  fixes new_core :: int and new_affinity :: u64
  assumes "rep q A P" "P i = Some pr" "tp_active_core pr = core" "tp_affinity pr = affinity" "tp_priority pr = priority"
  defines "pr' \<equiv> pr\<lparr>tp_active_core := new_core, tp_affinity := new_affinity\<rparr>"
  assumes ok': "props_ok pr'"
  shows "\<exists>q'. pq_change_affinity_mask core affinity i new_core new_affinity priority False q = Some q' \<and>
    rep q' (at_places pr' (appended i) (leave i A)) (P(i \<mapsto> pr'))"
proof -
  have r: "shape q A" "props_of q = P" "props_ok pr"
    "\<And>j s p c. j \<in> set (A s p c) \<longleftrightarrow> (\<exists>pr. P j = Some pr \<and> place pr s p c)" using assms(1,2) by (auto simp: rep_def)
  let ?p = "nat (tp_priority pr)"
  note p = priority_nat [OF r(3)]
  have same: "tp_priority pr' = tp_priority pr" "tp_active_core pr' = new_core" "tp_affinity pr' = new_affinity" by (simp_all add: pr'_def)
  let ?ok = "\<lambda>A c. \<forall>s. place pr s ?p c \<longrightarrow> i \<in> set (A s ?p c)"
  have "\<exists>q'. over_cores [0..<NUM_CORES] (tp_affinity pr) (tp_active_core pr) (\<lambda>core. pqi_remove (tp_priority pr) core i) q = Some q' \<and>
      shape q' (at_places pr (\<lambda>_. filter (\<lambda>j. j \<noteq> i)) A) \<and> props_of q' = P"
  proof (rule over_cores_ok [where ok = ?ok, OF r(1-3)])
    show "\<forall>c < NUM_CORES. bit (tp_affinity pr) c \<longrightarrow> ?ok A c" using r(4) assms(2) by simp
    show "\<exists>q'. on_queue s (pqi_remove (tp_priority pr) (int c) i) q = Some q' \<and>
        shape q' (put A s ?p c (filter (\<lambda>j. j \<noteq> i) (A s ?p c))) \<and> props_of q' = P"
      if "shape q A" "props_of q = P" "c < NUM_CORES" "?ok A c" "place pr s ?p c" for q A s c
      using remove_shape [OF that(1) _ that(3), of ?p i s] p that(2,4,5) by simp
  qed simp
  moreover have "at_places pr (\<lambda>_. filter (\<lambda>j. j \<noteq> i)) A = leave i A"
    using leave_places [OF assms(1,2)] unfolding at_places_def without_def .
  ultimately obtain q1 where q1: "over_cores [0..<NUM_CORES] affinity core (\<lambda>core. pqi_remove priority core i) q = Some q1"
    "shape q1 (leave i A)" "props_of q1 = P" unfolding assms(3-5) by auto
  have "\<exists>q'. over_cores [0..<NUM_CORES] (tp_affinity pr') (tp_active_core pr') (\<lambda>core. pqi_push_back (tp_priority pr') core i) q1 = Some q' \<and>
      shape q' (at_places pr' (\<lambda>_ xs. xs @ [i]) (leave i A)) \<and> props_of q' = P"
  proof (rule over_cores_ok [where ok = "\<lambda>A. nowhere A i", OF q1(2,3) ok'])
    show "\<exists>q'. on_queue s (pqi_push_back (tp_priority pr') (int c) i) q = Some q' \<and>
        shape q' (put A s (nat (tp_priority pr')) c (A s (nat (tp_priority pr')) c @ [i])) \<and> props_of q' = P"
      if "shape q A" "props_of q = P" "c < NUM_CORES" "nowhere A i c" for q A s c
      using push_back_shape [OF that(1) _ that(3,4), of ?p s] p that(2) assms(2) unfolding same by simp
  qed (simp_all add: nowhere_def leave_def)
  moreover have "at_places pr' (\<lambda>_ xs. xs @ [i]) (leave i A) = at_places pr' (appended i) (leave i A)"
    unfolding at_places_def appended_def ..
  ultimately obtain q2 where q2: "over_cores [0..<NUM_CORES] new_affinity new_core (\<lambda>core. pqi_push_back priority core i) q1 = Some q2"
    "shape q2 (at_places pr' (appended i) (leave i A))" "props_of q2 = P" unfolding same assms(5) by auto
  let ?f = "\<lambda>p. p\<lparr>tp_active_core := new_core, tp_affinity := new_affinity\<rparr>"
  have "shape (set_props i ?f q2) (at_places pr' (appended i) (leave i A))" "props_of (set_props i ?f q2) = P(i \<mapsto> pr')"
    using set_props_ok [OF q2(2,3), of i ?f] assms(2) by (simp_all add: pr'_def)
  then have "rep (set_props i ?f q2) (at_places pr' (appended i) (leave i A)) (P(i \<mapsto> pr'))"
    by (intro rep_requeue [OF assms(1) ok']) simp_all
  moreover have "pq_change_affinity_mask core affinity i new_core new_affinity priority False q = Some (set_props i ?f q2)"
    using q1(1) q2(1) by (simp add: pq_change_affinity_mask_def)
  ultimately show ?thesis by blast
qed

lemma nowhere_put_filter:
  assumes "only_in A i s p c"
  shows "nowhere (put A s p c (filter (\<lambda>j. j \<noteq> i) (A s p c))) i c"
  unfolding nowhere_def
proof (intro allI impI)
  fix s' p' assume b: "p' < (64 :: nat)"
  show "i \<notin> set (put A s p c (filter (\<lambda>j. j \<noteq> i) (A s p c)) s' p' c)"
    using assms b by (cases "s' = s \<and> p' = p") (auto simp: put_def only_in_def)
qed

lemma put_other_core: "(b \<Longrightarrow> c' \<noteq> c) \<Longrightarrow> (if b then put A s p c xs else A) s' p' c' = A s' p' c'"
  by (auto simp: put_def)

lemma migrated_places:
  assumes "rep q A P" "P i = Some pr" "tp_active_core pr = prev" "prev \<noteq> new_core"
    "props_ok pr" "props_ok (pr\<lparr>tp_active_core := new_core\<rparr>)"
  defines "pr' \<equiv> pr\<lparr>tp_active_core := new_core\<rparr>"
  shows "j \<in> set (migrated i prev pr' to_front A s p c) \<longleftrightarrow> (\<exists>e. (P(i \<mapsto> pr')) j = Some e \<and> place e s p c)"
proof -
  have m: "j \<in> set (A s p c) \<longleftrightarrow> (\<exists>pr. P j = Some pr \<and> place pr s p c)" for j using assms(1) by (simp add: rep_def)
  have same: "int c \<noteq> prev \<Longrightarrow> int c \<noteq> new_core \<Longrightarrow> place pr' s p c \<longleftrightarrow> place pr s p c"
    using assms(3) by (auto simp: place_def pr'_def)
  show ?thesis
  proof (cases "j = i")
    case True
    then show ?thesis using m [of i] same assms(2) by (auto simp: migrated_def leave_def pr'_def)
  next
    case False
    then show ?thesis using m [of j] by (auto simp: migrated_def leave_def)
  qed
qed

text \<open>The four steps of a change of core, on lists.\<close>

definition core_steps :: "nat \<Rightarrow> nat \<Rightarrow> int \<Rightarrow> int \<Rightarrow> bool \<Rightarrow> lists \<Rightarrow> lists" where
  "core_steps i p prev new_core to_front A =
     (let A1 = (if 0 \<le> prev then put A True p (nat prev) (filter (\<lambda>j. j \<noteq> i) (A True p (nat prev))) else A);
          A2 = (if 0 \<le> new_core then put A1 False p (nat new_core) (filter (\<lambda>j. j \<noteq> i) (A1 False p (nat new_core))) else A1);
          A3 = (if 0 \<le> new_core then put A2 True p (nat new_core)
                  (if to_front then i # A2 True p (nat new_core) else A2 True p (nat new_core) @ [i]) else A2)
      in if 0 \<le> prev then put A3 False p (nat prev) (A3 False p (nat prev) @ [i]) else A3)"

lemma core_steps_migrated:
  fixes new_core :: int
  assumes i: "\<And>s p c. i \<in> set (A s p c) \<longleftrightarrow> place pr s p c"
    and p: "int (nat priority) = priority"
    and a: "tp_active_core pr = prev" "tp_priority pr = priority" "prev \<noteq> new_core"
    and bv: "0 \<le> prev \<Longrightarrow> nat prev < NUM_CORES \<and> bit (tp_affinity pr) (nat prev)"
    and bn: "0 \<le> new_core \<Longrightarrow> nat new_core < NUM_CORES \<and> bit (tp_affinity pr) (nat new_core)"
  shows "core_steps i (nat priority) prev new_core to_front A = migrated i prev (pr\<lparr>tp_active_core := new_core\<rparr>) to_front A"
proof -
  let ?p = "nat priority" and ?n = "nat new_core" and ?v = "nat prev" and ?f = "filter (\<lambda>j. j \<noteq> i)"
  let ?pr = "pr\<lparr>tp_active_core := new_core\<rparr>"
  define A1 where "A1 = (if 0 \<le> prev then put A True ?p ?v (?f (A True ?p ?v)) else A)"
  define A2 where "A2 = (if 0 \<le> new_core then put A1 False ?p ?n (?f (A1 False ?p ?n)) else A1)"
  define A3 where "A3 = (if 0 \<le> new_core then put A2 True ?p ?n (if to_front then i # A2 True ?p ?n else A2 True ?p ?n @ [i]) else A2)"
  have A4: "core_steps i ?p prev new_core to_front A = (if 0 \<le> prev then put A3 False ?p ?v (A3 False ?p ?v @ [i]) else A3)"
    unfolding core_steps_def Let_def A3_def A2_def A1_def ..
  have away: "A1 s p' c = A s p' c \<and> A3 s p' c = A2 s p' c \<and> A2 s p' c = A1 s p' c"
    if "0 \<le> prev \<Longrightarrow> c \<noteq> ?v" "0 \<le> new_core \<Longrightarrow> c \<noteq> ?n" for s p' c
    unfolding A3_def A2_def A1_def using that by (intro conjI) (rule put_other_core; simp)+
  show ?thesis
  proof (intro ext)
    fix s p' c
    have filt: "?f (A s p' c) = A s p' c" if "\<not> place pr s p' c" using that i [of s p' c] by (auto intro: filter_True)
    have pl: "place pr s p' c \<longleftrightarrow> p' = ?p \<and> bit (tp_affinity pr) c \<and> (prev = int c) = s"
      "place ?pr s p' c \<longleftrightarrow> p' = ?p \<and> bit (tp_affinity pr) c \<and> (new_core = int c) = s"
      using p a(1,2) by (auto simp: place_def)
    have ac: "tp_active_core ?pr = new_core" by simp
    show "core_steps i ?p prev new_core to_front A s p' c = migrated i prev ?pr to_front A s p' c"
    proof (cases "int c = prev \<or> int c = new_core")
      case False
      then have o: "0 \<le> prev \<Longrightarrow> c \<noteq> ?v" "0 \<le> new_core \<Longrightarrow> c \<noteq> ?n" by auto
      from away [OF o] have "core_steps i ?p prev new_core to_front A s p' c = A s p' c"
        using put_other_core [OF o(1)] unfolding A4 by simp
      then show ?thesis using False by (simp add: migrated_def)
    next
      case True
      then consider "int c = prev" | "int c = new_core" "int c \<noteq> prev" by blast
      then show ?thesis
      proof cases
        case 1
        then have c: "0 \<le> prev" "?v = c" by auto
        have n: "0 \<le> new_core \<Longrightarrow> ?n \<noteq> c" "new_core \<noteq> int c" using c a(3) 1 by auto
        have b: "bit (tp_affinity pr) c" using bv c by simp
        have e: "core_steps i ?p prev new_core to_front A s p' c = (if p' = ?p then if s then ?f (A s p' c) else A s p' c @ [i] else A s p' c)"
        proof -
          have "A1 s p' c = (if s \<and> p' = ?p then ?f (A s p' c) else A s p' c)" for s p' using c by (auto simp: A1_def put_def)
          moreover have "A3 s p' c = A1 s p' c" for s p' using n(1) by (auto simp: A3_def A2_def put_def)
          ultimately show ?thesis using c unfolding A4 by (auto simp: put_def)
        qed
        have m: "migrated i prev ?pr to_front A s p' c = (if p' = ?p \<and> \<not> s then ?f (A s p' c) @ [i] else ?f (A s p' c))"
          using 1 n b unfolding migrated_def leave_def ac pl by (cases s) simp_all
        have q: "place pr s p' c \<longleftrightarrow> p' = ?p \<and> s" using pl(1) 1 b by simp
        show ?thesis unfolding e m using filt q by (cases s; cases "p' = ?p") simp_all
      next
        case 2
        then have c: "0 \<le> new_core" "?n = c" by auto
        have n: "0 \<le> prev \<Longrightarrow> ?v \<noteq> c" "prev \<noteq> int c" using c 2 by auto
        have b: "bit (tp_affinity pr) c" using bn c by simp
        have e: "core_steps i ?p prev new_core to_front A s p' c = (if p' = ?p then if s then (if to_front then i # A s p' c else A s p' c @ [i]) else ?f (A s p' c) else A s p' c)"
        proof -
          have "A1 s p' c = A s p' c" for s p' using n(1) by (auto simp: A1_def put_def)
          then have "A2 s p' c = (if \<not> s \<and> p' = ?p then ?f (A s p' c) else A s p' c)" for s p' using c by (auto simp: A2_def put_def)
          then have "A3 s p' c = (if p' = ?p then if s then (if to_front then i # A s p' c else A s p' c @ [i]) else ?f (A s p' c) else A s p' c)" for s p'
            using c by (auto simp: A3_def put_def)
          then show ?thesis using n(1) unfolding A4 by (auto simp: put_def)
        qed
        have m: "migrated i prev ?pr to_front A s p' c =
            (if p' = ?p \<and> s then (if to_front then i # ?f (A s p' c) else ?f (A s p' c) @ [i]) else ?f (A s p' c))"
          using 2 b unfolding migrated_def leave_def ac pl by (cases s) simp_all
        have q: "place pr s p' c \<longleftrightarrow> p' = ?p \<and> \<not> s" using pl(1) 2 b by auto
        show ?thesis unfolding e m using filt q by (cases s; cases "p' = ?p") simp_all
      qed
    qed
  qed
qed

lemma change_core_ok:
  fixes new_core :: int
  assumes "rep q A P" "P i = Some pr" "tp_active_core pr = prev" "tp_priority pr = priority" "prev \<noteq> new_core"
  defines "pr' \<equiv> pr\<lparr>tp_active_core := new_core\<rparr>"
  assumes ok': "props_ok pr'"
  shows "\<exists>q'. pq_change_core order prev i new_core priority False to_front q = Some q' \<and>
    rep q' (migrated i prev pr' to_front A) (P(i \<mapsto> pr'))"
proof -
  have r: "shape q A" "props_of q = P" "props_ok pr"
    "\<And>j s p c. j \<in> set (A s p c) \<longleftrightarrow> (\<exists>pr. P j = Some pr \<and> place pr s p c)" using assms(1,2) by (auto simp: rep_def)
  let ?p = "nat priority" and ?n = "nat new_core" and ?v = "nat prev" and ?f = "filter (\<lambda>j. j \<noteq> i)"
  have p: "int ?p = priority" "?p < 64" using priority_nat [OF r(3)] assms(4) by simp_all
  have i: "i \<in> set (A s p c) \<longleftrightarrow> place pr s p c" for s p c using r(4) assms(2) by simp
  have bv: "?v < NUM_CORES \<and> bit (tp_affinity pr) ?v" if "0 \<le> prev"
    using r(3) that assms(3) small_affinity [of "tp_affinity pr" ?v] by (auto simp: props_ok_def)
  have bn: "?n < NUM_CORES \<and> bit (tp_affinity pr) ?n" if "0 \<le> new_core"
    using ok' that small_affinity [of "tp_affinity pr" ?n] by (auto simp: props_ok_def pr'_def)
  have known: "props_of q i \<noteq> None" if "props_of q = P" for q using that assms(2) by simp
  define A1 where "A1 = (if 0 \<le> prev then put A True ?p ?v (?f (A True ?p ?v)) else A)"
  define A2 where "A2 = (if 0 \<le> new_core then put A1 False ?p ?n (?f (A1 False ?p ?n)) else A1)"
  define A3 where "A3 = (if 0 \<le> new_core then put A2 True ?p ?n (if to_front then i # A2 True ?p ?n else A2 True ?p ?n @ [i]) else A2)"
  define A4 where "A4 = (if 0 \<le> prev then put A3 False ?p ?v (A3 False ?p ?v @ [i]) else A3)"
  have vn: "0 \<le> prev \<Longrightarrow> 0 \<le> new_core \<Longrightarrow> ?v \<noteq> ?n" using assms(5) by auto
  have "\<exists>q1. (if 0 \<le> prev then on_scheduled (purge order priority True prev i) q else Some q) = Some q1 \<and> shape q1 A1 \<and> props_of q1 = P"
  proof (cases "0 \<le> prev")
    case True
    have c: "?v < NUM_CORES" using bv True by blast
    have o: "only_in A i True ?p ?v"
      using shapeD(3) [OF r(1) p(2) c] i bv [OF True] assms(3,4) True p(1) by (simp add: place_def)
    have b: "belongs_to_queue (int ?v) (int ?p) True e = (j \<in> set (A True ?p ?v))" if "props_of q j = Some e" "j \<noteq> i" for j e
      unfolding belongs_place [OF c] using that r(2,4) by simp
    from purge_shape [OF r(1) p(2) c o b, where order = order] show ?thesis using True r(2) p(1) by (simp add: on_queue_kinds A1_def)
  next
    case False
    then show ?thesis using r(1,2) by (simp add: A1_def)
  qed
  then obtain q1 where q1: "(if 0 \<le> prev then on_scheduled (purge order priority True prev i) q else Some q) = Some q1"
    "shape q1 A1" "props_of q1 = P" by blast
  have "\<exists>q3. (if 0 \<le> new_core then do {
      q \<leftarrow> on_suggested (pqi_remove priority new_core i) q1;
      if to_front then on_scheduled (pqi_push_front priority new_core i) q else on_scheduled (pqi_push_back priority new_core i) q }
    else Some q1) = Some q3 \<and> shape q3 A3 \<and> props_of q3 = P"
  proof (cases "0 \<le> new_core")
    case True
    have c: "?n < NUM_CORES" using bn True by blast
    have A1n: "A1 s p' ?n = A s p' ?n" for s p' using vn True by (auto simp: A1_def put_def)
    have "place pr False ?p ?n" using bn [OF True] assms(3,4,5) True p(1) by (simp add: place_def)
    then have in1: "i \<in> set (A1 False ?p ?n)" using i A1n by simp
    from remove_shape [OF q1(2) p(2) c in1] obtain q2 where
      q2: "on_suggested (pqi_remove priority new_core i) q1 = Some q2" "shape q2 A2" "props_of q2 = P"
      using True p(1) q1(3) by (auto simp: on_queue_kinds A2_def)
    have n2: "nowhere A2 i ?n"
      using nowhere_put_filter [OF shapeD(3) [OF q1(2) p(2) c in1]] True by (simp add: A2_def)
    show ?thesis
      using push_front_shape [OF q2(2) p(2) c n2 known [OF q2(3)], of True] push_back_shape [OF q2(2) p(2) c n2 known [OF q2(3)], of True]
        q2(1,3) True p(1) by (auto simp: on_queue_kinds A3_def)
  next
    case False
    then show ?thesis using q1 by (simp add: A2_def A3_def)
  qed
  then obtain q3 where q3: "(if 0 \<le> new_core then do {
      q \<leftarrow> on_suggested (pqi_remove priority new_core i) q1;
      if to_front then on_scheduled (pqi_push_front priority new_core i) q else on_scheduled (pqi_push_back priority new_core i) q }
    else Some q1) = Some q3" "shape q3 A3" "props_of q3 = P" by blast
  have "\<exists>q4. (if 0 \<le> prev then on_suggested (pqi_push_back priority prev i) q3 else Some q3) = Some q4 \<and> shape q4 A4 \<and> props_of q4 = P"
  proof (cases "0 \<le> prev")
    case True
    have c: "?v < NUM_CORES" using bv True by blast
    have o: "only_in A i True ?p ?v"
      using shapeD(3) [OF r(1) p(2) c] i bv [OF True] assms(3,4) True p(1) by (simp add: place_def)
    have "A3 s p' ?v = A1 s p' ?v" for s p' using vn True by (auto simp: A3_def A2_def put_def)
    then have "nowhere A3 i ?v" using nowhere_put_filter [OF o] True nowhere_cong [of A1 ?v A3 i] by (simp add: A1_def)
    from push_back_shape [OF q3(2) p(2) c this known [OF q3(3)], of False] show ?thesis
      using True p(1) q3(3) by (simp add: on_queue_kinds A4_def)
  next
    case False
    then show ?thesis using q3 by (simp add: A4_def)
  qed
  then obtain q4 where q4: "(if 0 \<le> prev then on_suggested (pqi_push_back priority prev i) q3 else Some q3) = Some q4"
    "shape q4 A4" "props_of q4 = P" by blast
  from core_steps_migrated [OF i p(1) assms(3-5) bv bn] have A4: "A4 = migrated i prev pr' to_front A"
    unfolding A4_def A3_def A2_def A1_def pr'_def unfolding core_steps_def Let_def .
  let ?g = "\<lambda>p. p\<lparr>tp_active_core := new_core\<rparr>"
  have "shape (set_props i ?g q4) (migrated i prev pr' to_front A)" "props_of (set_props i ?g q4) = P(i \<mapsto> pr')"
    using set_props_ok [OF q4(2,3), of i ?g] assms(2) by (simp_all add: A4 pr'_def)
  then have "rep (set_props i ?g q4) (migrated i prev pr' to_front A) (P(i \<mapsto> pr'))"
    using assms(1) ok' migrated_places [OF assms(1-3,5) r(3), of _ to_front] unfolding rep_def pr'_def by (auto split: if_splits)
  moreover have "pq_change_core order prev i new_core priority False to_front q = Some (set_props i ?g q4)"
    using assms(5) q1(1) q3(1) q4(1) by (simp add: pq_change_core_def)
  ultimately show ?thesis by blast
qed

end
