(* ===== verification/PriorityQueueOrder.thy ===== *)
theory PriorityQueueOrder
  imports PriorityQueueRefine
begin

text \<open>
  The properties of the priority queue: runs of operations refine the specification on lists; a core
  sees its threads in one order, by priority and then by arrival; and the operations that cannot
  handle the priority below the lowest one.
\<close>

section \<open>Runs of operations\<close>

text \<open>The one place of a thread that runs on a core, among the scheduled lists.\<close>

lemma scheduled_place:
  assumes "rep q A P" "P i = Some pr" "0 \<le> tp_active_core pr"
  shows "place pr True p c \<longleftrightarrow> p = nat (tp_priority pr) \<and> c = nat (tp_active_core pr)"
proof -
  have "props_ok pr" using assms(1,2) by (simp add: rep_def)
  then have "0 \<le> tp_priority pr" "bit (tp_affinity pr) (nat (tp_active_core pr))" using assms(3) by (simp_all add: props_ok_def)
  then show ?thesis using assms(3) by (auto simp: place_def)
qed

lemma pq_step_ok:
  assumes "rep q A P" "op_ok P op"
  shows "\<exists>q'. pq_exec order op q = Some q' \<and> (case pq_spec op (A, P) of (A', P') \<Rightarrow> rep q' A' P')"
proof (cases op)
  case (Push_Back i pr)
  let ?pr = "pr\<lparr>tp_last_scheduled_tick := 0\<rparr>"
  have ok: "props_ok ?pr" "\<not> tp_is_dummy pr" using assms(2) Push_Back by (simp_all add: props_ok_def)
  from enqueue_ok(1) [OF assms(1) ok(1), of i] show ?thesis using Push_Back ok(2) by (simp add: requeue_def)
next
  case (Push_Front i pr)
  let ?pr = "pr\<lparr>tp_last_scheduled_tick := 0\<rparr>"
  have ok: "props_ok ?pr" "\<not> tp_is_dummy pr" using assms(2) Push_Front by (simp_all add: props_ok_def)
  from enqueue_ok(2) [OF assms(1) ok(1), of i] show ?thesis using Push_Front ok(2) by (simp add: requeue_def)
next
  case (Remove i priority core affinity)
  then obtain pr where "P i = Some pr" using assms(2) by auto
  from pq_remove_ok [OF assms(1) this] show ?thesis using Remove by simp
next
  case (Move_Front i priority core)
  then obtain pr where pr: "P i = Some pr" "0 \<le> tp_active_core pr" using assms(2) by auto
  have "(\<lambda>s p c. if s \<and> place pr s p c then i # leave i A s p c else A s p c) =
      put A True (nat (tp_priority pr)) (nat (tp_active_core pr)) (i # leave i A True (nat (tp_priority pr)) (nat (tp_active_core pr)))"
    using scheduled_place [OF assms(1) pr] by (auto simp: fun_eq_iff put_def)
  then show ?thesis using move_ok(1) [OF assms(1) pr] pr(1) Move_Front by simp
next
  case (Move_Back i priority core)
  then obtain pr where pr: "P i = Some pr" "0 \<le> tp_active_core pr" using assms(2) by auto
  have "(\<lambda>s p c. if s \<and> place pr s p c then leave i A s p c @ [i] else A s p c) =
      put A True (nat (tp_priority pr)) (nat (tp_active_core pr)) (leave i A True (nat (tp_priority pr)) (nat (tp_active_core pr)) @ [i])"
    using scheduled_place [OF assms(1) pr] by (auto simp: fun_eq_iff put_def)
  then show ?thesis using move_ok(2) [OF assms(1) pr, of priority core] pr(1) Move_Back by auto
next
  case (Change_Priority prev running i new core affinity)
  then obtain pr where pr: "P i = Some pr" "tp_priority pr = prev" "0 \<le> new" "new \<le> LOWEST_PRIORITY" using assms(2) by auto
  show ?thesis using pr(1) Change_Priority by (simp add: change_priority_ok [OF assms(1) pr] requeue_def)
next
  case (Change_Affinity core affinity i new_core new_affinity priority)
  then obtain pr where pr: "P i = Some pr" "tp_active_core pr = core" "tp_affinity pr = affinity" "tp_priority pr = priority"
    "props_ok (pr\<lparr>tp_active_core := new_core, tp_affinity := new_affinity\<rparr>)" using assms(2) by auto
  from change_affinity_ok [OF assms(1) pr] show ?thesis using pr(1) Change_Affinity by (simp add: requeue_def)
next
  case (Change_Core core i new_core priority to_front)
  then obtain pr where pr: "P i = Some pr" "tp_active_core pr = core" "tp_priority pr = priority"
    "props_ok (pr\<lparr>tp_active_core := new_core\<rparr>)" using assms(2) by auto
  show ?thesis
  proof (cases "core = new_core")
    case True
    then show ?thesis using assms(1) Change_Core by (simp add: pq_change_core_def)
  next
    case False
    from change_core_ok [OF assms(1) pr(1-3) False pr(4)] show ?thesis using pr(1) Change_Core False by (simp add: Let_def)
  qed
next
  case (Set_Tick i tick)
  let ?f = "\<lambda>p. p\<lparr>tp_last_scheduled_tick := tick\<rparr>"
  have r: "shape q A" "props_of q = P" using assms(1) by (simp_all add: rep_def)
  have pl: "place (?f p) = place p" "props_ok (?f p) = props_ok p" for p by (auto simp: fun_eq_iff place_def props_ok_def)
  have "rep (set_props i ?f q) A (case P i of None \<Rightarrow> P | Some pr \<Rightarrow> P(i \<mapsto> ?f pr))"
    using set_props_ok [OF r, of i ?f] assms(1) pl unfolding rep_def by (auto split: option.split)
  then show ?thesis using Set_Tick by (simp add: set_last_scheduled_tick_def)
qed

fun pq_run :: "(nat list \<Rightarrow> nat list) \<Rightarrow> pq_op list \<Rightarrow> KPriorityQueue \<Rightarrow> KPriorityQueue option" where
  "pq_run order [] q = Some q"
| "pq_run order (op # ops) q = do { q \<leftarrow> pq_exec order op q; pq_run order ops q }"

fun pq_specs :: "pq_op list \<Rightarrow> lists \<times> thread_props \<Rightarrow> lists \<times> thread_props" where
  "pq_specs [] AP = AP"
| "pq_specs (op # ops) AP = pq_specs ops (pq_spec op AP)"

fun ops_ok :: "pq_op list \<Rightarrow> lists \<times> thread_props \<Rightarrow> bool" where
  "ops_ok [] AP \<longleftrightarrow> True"
| "ops_ok (op # ops) AP \<longleftrightarrow> op_ok (snd AP) op \<and> ops_ok ops (pq_spec op AP)"

definition no_threads :: "lists \<times> thread_props" where
  "no_threads = (\<lambda>_ _ _. [], \<lambda>_. None)"

lemma rep_new: "rep pq_new (fst no_threads) (snd no_threads)"
proof -
  have "\<not> available p bs_new" for p by (simp add: available_def bs_new_def)
  then have "shape pq_new (\<lambda>_ _ _. [])"
    by (auto simp: shape_def pq_new_def pqi_new_def per_core_new_def list_ok_def sel_def qe_new_def)
  then show ?thesis
    by (simp add: rep_def no_threads_def props_of_at props_at_def pq_new_def lookup_empty fun_eq_iff)
qed

lemma pq_run_ok:
  assumes "rep q (fst AP) (snd AP)" "ops_ok ops AP"
  shows "\<exists>q'. pq_run order ops q = Some q' \<and> rep q' (fst (pq_specs ops AP)) (snd (pq_specs ops AP))"
  using assms
proof (induction ops arbitrary: q AP)
  case (Cons op ops)
  have ok: "op_ok (snd AP) op" "ops_ok ops (pq_spec op AP)" using Cons.prems(2) by simp_all
  from pq_step_ok [OF Cons.prems(1) ok(1), of order] obtain q1 where
    q1: "pq_exec order op q = Some q1" "rep q1 (fst (pq_spec op AP)) (snd (pq_spec op AP))" by (auto simp: case_prod_beta)
  from Cons.IH [OF q1(2) ok(2)] show ?case using q1(1) by simp
qed simp

section \<open>The order of a core\<close>

lemma first_available:
  "(\<exists>p < 64. available p b) \<Longrightarrow>
     count_leading_zero b < 64 \<and> available (count_leading_zero b) b \<and> (\<forall>p < count_leading_zero b. \<not> available p b)"
  "\<not> (\<exists>p < 64. available p b) \<Longrightarrow> count_leading_zero b = 64"
proof -
  have bits0: "bits b = 0 \<longleftrightarrow> \<not> (\<exists>p < 64. available p b)"
  proof
    assume "\<not> (\<exists>p < 64. available p b)"
    then have "\<not> bit (bits b) n" if "n < 64" for n
      using that by (auto simp: available_def dest: spec [of _ "63 - n"])
    then have "\<not> bit (bits b) n" for n using bit_imp_le_length [of "bits b" n] by fastforce
    then show "bits b = 0" by (intro bit_word_eqI) simp
  qed (simp add: available_def)
  { assume "\<exists>p < 64. available p b"
    then have nz: "bits b \<noteq> 0" using bits0 by blast
    have "bit (bits b) (63 - clz (bits b))" using bit_clz [OF nz] by simp
    moreover have "clz (bits b) < 64" using clz_lt_iff [of "bits b"] nz by simp
    moreover have "\<not> bit (bits b) (63 - p)" if "p < clz (bits b)" for p using below_clz [OF that] by simp
    ultimately show "count_leading_zero b < 64 \<and> available (count_leading_zero b) b \<and> (\<forall>p < count_leading_zero b. \<not> available p b)"
      using nz by (simp add: count_leading_zero_def available_def) }
  show "\<not> (\<exists>p < 64. available p b) \<Longrightarrow> count_leading_zero b = 64" using bits0 by (simp add: count_leading_zero_def)
qed

lemma first_set:
  "count_leading_zero b \<le> 64"
  "count_leading_zero b < 64 \<Longrightarrow> available (count_leading_zero b) b"
  "p < count_leading_zero b \<Longrightarrow> \<not> available p b"
proof -
  have "count_leading_zero b < 64 \<and> available (count_leading_zero b) b \<and> (\<forall>p < count_leading_zero b. \<not> available p b) \<or>
      count_leading_zero b = 64 \<and> (\<forall>p < 64. \<not> available p b)"
    using first_available [of b] by blast
  then show "count_leading_zero b \<le> 64" "count_leading_zero b < 64 \<Longrightarrow> available (count_leading_zero b) b"
    "p < count_leading_zero b \<Longrightarrow> \<not> available p b" by auto
qed

text \<open>The next set bit is the first one of the bits after \<open>k\<close>.\<close>

lemma next_available:
  assumes "k < 64"
  shows "get_next_set (int k) b = count_leading_zero \<lparr>bits = bits b AND (2 ^ (63 - k) - 1)\<rparr>"
    "p < 64 \<Longrightarrow> available p \<lparr>bits = bits b AND (2 ^ (63 - k) - 1)\<rparr> \<longleftrightarrow> k < p \<and> available p b"
proof -
  have m: "(2 :: u64) ^ n - 1 = mask n" for n by (simp add: mask_eq_exp_minus_1)
  show "get_next_set (int k) b = count_leading_zero \<lparr>bits = bits b AND (2 ^ (63 - k) - 1)\<rparr>"
  proof (cases "k = 63")
    case True
    then show ?thesis by (simp add: get_next_set_def count_leading_zero_def)
  next
    case False
    then have "\<not> 63 - int k \<le> 0" "nat ((63 - int k) mod 64) = 63 - k" using assms by (simp_all add: nat_diff_distrib)
    moreover have "shl (1 :: u64) (63 - k) = 2 ^ (63 - k)" by (simp add: push_bit_eq_mult)
    ultimately show ?thesis by (simp add: get_next_set_def count_leading_zero_def Let_def del: shl_lt)
  qed
  show "p < 64 \<Longrightarrow> available p \<lparr>bits = bits b AND (2 ^ (63 - k) - 1)\<rparr> \<longleftrightarrow> k < p \<and> available p b"
    using assms by (auto simp: available_def m bit_simps)
qed

definition order_of :: "lists \<Rightarrow> bool \<Rightarrow> nat \<Rightarrow> nat list" where
  "order_of A s c = concat (map (\<lambda>p. A s p c) [0..<NUM_PRIORITY])"

text \<open>The element after \<open>i\<close>.\<close>

definition successor :: "nat \<Rightarrow> nat list \<Rightarrow> nat option" where
  "successor i xs = first_of (drop 1 (dropWhile (\<lambda>j. j \<noteq> i) xs))"

lemma successor_split: "i \<notin> set xs \<Longrightarrow> successor i (xs @ i # ys) = first_of ys"
  by (induction xs) (auto simp: successor_def)

lemma first_of_append: "first_of (xs @ ys) = (if xs = [] then first_of ys else first_of xs)"
  by (simp add: first_of_def split: list.split)

text \<open>The first element of a concatenation from level \<open>a\<close> on, by the first level that is not empty.\<close>

lemma first_of_concat:
  assumes "\<And>p. a \<le> p \<Longrightarrow> p < n \<Longrightarrow> g p \<longleftrightarrow> f p \<noteq> []" "z \<le> n" "a \<le> z" "z < n \<Longrightarrow> g z" "\<And>p. a \<le> p \<Longrightarrow> p < z \<Longrightarrow> \<not> g p"
  shows "first_of (concat (map f [a..<n])) = (if z < n then first_of (f z) else None)"
proof -
  have "[a..<n] = [a..<z] @ [z..<n]" using upt_add_eq_append [of a z "n - z"] assms(2,3) by simp
  moreover have "concat (map f [a..<z]) = []" using assms(1,2,5) by (auto simp: concat_eq_Nil_conv)
  ultimately have "concat (map f [a..<n]) = concat (map f [z..<n])" by (simp only: map_append concat_append append_Nil)
  then show ?thesis using assms(1) [of z] assms(3,4) by (simp add: upt_conv_Cons first_of_append) (simp add: first_of_def)
qed

lemma levels_available:
  assumes "rep q A P" "c < NUM_CORES" "p < 64"
  shows "available p (available_priorities (sel s q) c) \<longleftrightarrow> A s p c \<noteq> []"
    "per_core_get_front (int c) (queues (sel s q) p) = Some (first_of (A s p c))"
proof -
  have sh: "shape q A" using assms(1) by (simp add: rep_def)
  note f = shapeD [OF sh assms(3,2), where s = s]
  show "available p (available_priorities (sel s q) c) \<longleftrightarrow> A s p c \<noteq> []" by (rule f(2))
  show "per_core_get_front (int c) (queues (sel s q) p) = Some (first_of (A s p c))"
    using f(1) assms(2) by (simp add: per_core_get_front_def list_ok_def first_of_head)
qed

lemma front_ok:
  assumes "rep q A P" "c < NUM_CORES"
  shows "pqi_get_front (int c) (sel s q) = Some (first_of (order_of A s c))"
proof -
  let ?b = "available_priorities (sel s q) c" and ?z = "count_leading_zero (available_priorities (sel s q) c)"
  note lv = levels_available [OF assms, where s = s]
  note z = first_set [where b = ?b]
  have "first_of (order_of A s c) = (if ?z < 64 then first_of (A s ?z c) else None)"
    unfolding order_of_def NUM_PRIORITY_def
    by (rule first_of_concat [where g = "\<lambda>p. available p ?b"]) (use lv(1) z in auto)
  then show ?thesis
    using assms(2) lv(2) by (auto simp: pqi_get_front_def Let_def LOWEST_PRIORITY_def ix_bounds)
qed

lemma next_ok:
  assumes "rep q A P" "c < NUM_CORES" "P i = Some pr" "i \<in> set (order_of A s c)"
  shows "pqi_get_next (int c) i (tp_priority pr) (sel s q) (members q) = Some (successor i (order_of A s c))"
proof -
  have sh: "shape q A" and pok: "props_ok pr" and mem: "\<And>s p c. i \<in> set (A s p c) \<longleftrightarrow> place pr s p c"
    using assms(1,3) by (simp_all add: rep_def)
  obtain k where k: "k < 64" "i \<in> set (A s k c)" using assms(4) by (auto simp: order_of_def NUM_PRIORITY_def)
  then have pk: "tp_priority pr = int k" using mem by (simp add: place_def)
  have lk: "list_ok c (queues (sel s q) k) (members q) (A s k c)" by (rule shapeD(1) [OF sh k(1) assms(2)])
  obtain ys zs where yz: "A s k c = ys @ i # zs" using split_list [OF k(2)] by blast
  have e: "get_entry c i (members q) = Some \<lparr>qe_prev = end_or None ys, qe_next = head_or None zs\<rparr>"
    using dll_split(2) lk unfolding list_ok_def yz by blast
  have i: "i \<notin> set ys" using lk by (simp add: list_ok_def yz)
  have "[0..<64] = [0..<k] @ [k..<64]" using upt_add_eq_append [of 0 k "64 - k"] k(1) by simp
  then have u: "[0..<64] = [0..<k] @ k # [Suc k..<64]" using k(1) by (simp add: upt_conv_Cons)
  let ?pre = "concat (map (\<lambda>p. A s p c) [0..<k])" and ?post = "concat (map (\<lambda>p. A s p c) [Suc k..<64])"
  have "i \<notin> set ?pre" using mem pk by (auto simp: place_def)
  then have "i \<notin> set (?pre @ ys)" using i by simp
  from successor_split [OF this, of "zs @ ?post"] have suc: "successor i (order_of A s c) = first_of (zs @ ?post)"
    unfolding order_of_def NUM_PRIORITY_def u by (simp add: yz)
  let ?b = "available_priorities (sel s q) c" and ?m = "\<lparr>bits = bits (available_priorities (sel s q) c) AND (2 ^ (63 - k) - 1)\<rparr>"
  let ?z = "count_leading_zero ?m"
  note lv = levels_available [OF assms(1,2), where s = s]
  note nx = next_available [OF k(1), where b = ?b]
  note z = first_set [where b = ?m]
  have kz: "Suc k \<le> ?z" using z nx(2) k(1) by (cases "?z < 64") auto
  have post: "first_of ?post = (if ?z < 64 then first_of (A s ?z c) else None)"
    by (rule first_of_concat [where g = "\<lambda>p. available p ?m"]) (use lv(1) nx(2) z kz in auto)
  obtain sl where sl: "Mapping.lookup (members q) i = Some sl" "entries sl c = \<lparr>qe_prev = end_or None ys, qe_next = head_or None zs\<rparr>"
    using e by (auto simp: get_entry_def)
  show ?thesis
  proof (cases zs)
    case Nil
    then show ?thesis using sl assms(2) lv(2) post suc
      by (auto simp: pqi_get_next_def pk nx(1) Let_def LOWEST_PRIORITY_def ix_bounds)
  next
    case (Cons z zs')
    then show ?thesis using sl assms(2) suc by (simp add: pqi_get_next_def first_of_def)
  qed
qed

text \<open>What a core's order is, given the cached properties: exactly its threads, by priority, none twice.\<close>

lemma order_of_ok:
  assumes "rep q A P" "c < NUM_CORES"
  shows "i \<in> set (order_of A s c) \<longleftrightarrow> (\<exists>pr. P i = Some pr \<and> bit (tp_affinity pr) c \<and> (tp_active_core pr = int c) = s)"
    "distinct (order_of A s c)" "sorted (map (\<lambda>i. tp_priority (the (P i))) (order_of A s c))"
proof -
  have sh: "shape q A" and mem: "\<And>i s p c. i \<in> set (A s p c) \<longleftrightarrow> (\<exists>pr. P i = Some pr \<and> place pr s p c)"
    and pok: "\<And>i pr. P i = Some pr \<Longrightarrow> props_ok pr" using assms(1) by (simp_all add: rep_def)
  show "i \<in> set (order_of A s c) \<longleftrightarrow> (\<exists>pr. P i = Some pr \<and> bit (tp_affinity pr) c \<and> (tp_active_core pr = int c) = s)"
  proof -
    have "\<exists>p \<in> {0..<64}. place pr s p c"
      if "P i = Some pr" "bit (tp_affinity pr) c" "(tp_active_core pr = int c) = s" for pr
      using priority_nat [OF pok [OF that(1)]] that by (intro bexI [of _ "nat (tp_priority pr)"]) (simp_all add: place_def)
    then show ?thesis unfolding order_of_def NUM_PRIORITY_def by (auto simp: mem) (auto simp: place_def)
  qed
  have lvl: "distinct (A s p c)" if "p < 64" for p
    using shapeD(1) [OF sh that assms(2), of s] by (simp add: list_ok_def)
  have pri: "tp_priority (the (P i)) = int p" if "i \<in> set (A s p c)" for i p
    using that by (auto simp: mem place_def)
  have "distinct (concat (map (\<lambda>p. A s p c) [0..<n])) \<and> sorted (map (\<lambda>i. tp_priority (the (P i))) (concat (map (\<lambda>p. A s p c) [0..<n])))"
    if "n \<le> 64" for n
    using that
  proof (induction n)
    case (Suc n)
    have "sorted (map (\<lambda>i. tp_priority (the (P i))) (A s n c))"
      by (rule sorted_wrt_mono_rel [of _ "\<lambda>x y. x = y"]) (auto simp: sorted_wrt_map pri intro: sorted_wrt_mono_rel [of _ "\<lambda>_ _. True"])
    moreover have "set (concat (map (\<lambda>p. A s p c) [0..<n])) \<inter> set (A s n c) = {}" by (auto dest!: pri)
    ultimately show ?case using Suc lvl [of n] pri by (fastforce simp: sorted_append)
  qed simp
  then show "distinct (order_of A s c)" "sorted (map (\<lambda>i. tp_priority (the (P i))) (order_of A s c))"
    unfolding order_of_def NUM_PRIORITY_def by blast+
qed

section \<open>Properties\<close>

text \<open>
  C24: The queue on links implements the lists: every sequence of operations whose arguments agree
  with what the queue knows of the threads runs to its end, and the linked lists, the bits of the
  available priorities and the cached properties are then those of the specification on lists.
\<close>

lemma priority_queue_refines_lists:
  assumes "ops_ok ops no_threads"
  shows "\<exists>q. pq_run order ops pq_new = Some q \<and>
    rep q (fst (pq_specs ops no_threads)) (snd (pq_specs ops no_threads))"
  by (rule pq_run_ok [OF rep_new assms])

text \<open>
  C25: What the scheduler reads after any such sequence: the front of a core is the first thread of
  its order and the next thread is the successor in that order; the order holds exactly the threads
  whose active core (for the suggested queue, another core of whose affinity mask) it is, none twice,
  by priority; and a core has no thread to run only if no thread has it as its active core.
\<close>

lemma priority_queue_order:
  assumes "ops_ok ops no_threads" "pq_run order ops pq_new = Some q" "c < NUM_CORES"
  shows "case pq_specs ops no_threads of (A, P) \<Rightarrow>
    get_scheduled_front (int c) q = Some (first_of (order_of A True c)) \<and>
    get_suggested_front (int c) q = Some (first_of (order_of A False c)) \<and>
    (\<forall>i \<in> set (order_of A True c).
       get_scheduled_next (int c) i (tp_priority (the (P i))) q = Some (successor i (order_of A True c))) \<and>
    (\<forall>i \<in> set (order_of A False c).
       get_suggested_next (int c) i (tp_priority (the (P i))) q = Some (successor i (order_of A False c))) \<and>
    (\<forall>s. distinct (order_of A s c) \<and> sorted (map (\<lambda>i. tp_priority (the (P i))) (order_of A s c)) \<and>
       set (order_of A s c) = {i. \<exists>pr. P i = Some pr \<and> bit (tp_affinity pr) c \<and> (tp_active_core pr = int c) = s}) \<and>
    (get_scheduled_front (int c) q = Some None \<longleftrightarrow> \<not> (\<exists>i pr. P i = Some pr \<and> tp_active_core pr = int c))"
proof -
  obtain A P where AP: "pq_specs ops no_threads = (A, P)" by (cases "pq_specs ops no_threads")
  have r: "rep q A P" using pq_run_ok [OF rep_new assms(1), of order] assms(2) AP by simp
  note f = front_ok [OF r assms(3)] and n = next_ok [OF r assms(3)]
  note member = order_of_ok(1) [OF r assms(3)] and once = order_of_ok(2) [OF r assms(3)] and by_priority = order_of_ok(3) [OF r assms(3)]
  have nxt: "pqi_get_next (int c) i (tp_priority (the (P i))) (sel s q) (members q) = Some (successor i (order_of A s c))"
    if "i \<in> set (order_of A s c)" for i s
  proof -
    from that have "\<exists>pr. P i = Some pr \<and> bit (tp_affinity pr) c \<and> (tp_active_core pr = int c) = s" unfolding member .
    then obtain pr where pr: "P i = Some pr" by blast
    show ?thesis unfolding pr option.sel by (rule n [OF pr that])
  qed
  have fronts: "get_scheduled_front (int c) q = Some (first_of (order_of A True c))"
    "get_suggested_front (int c) q = Some (first_of (order_of A False c))"
    using f [where s = True] f [where s = False] by (simp_all add: get_scheduled_front_def get_suggested_front_def sel_def)
  have nexts: "\<forall>i \<in> set (order_of A True c).
       get_scheduled_next (int c) i (tp_priority (the (P i))) q = Some (successor i (order_of A True c))"
    "\<forall>i \<in> set (order_of A False c).
       get_suggested_next (int c) i (tp_priority (the (P i))) q = Some (successor i (order_of A False c))"
    using nxt [where s = True] nxt [where s = False]
    unfolding get_scheduled_next_def get_suggested_next_def sel_def if_True if_False by - (intro ballI; assumption)+
  have mem: "set (order_of A s c) = {i. \<exists>pr. P i = Some pr \<and> bit (tp_affinity pr) c \<and> (tp_active_core pr = int c) = s}" for s
    by (rule set_eqI) (simp only: member mem_Collect_eq)
  have act: "bit (tp_affinity pr) c" if "P i = Some pr" "tp_active_core pr = int c" for i pr
  proof -
    have "props_ok pr" using r that(1) by (simp add: rep_def)
    then show ?thesis using that(2) by (simp add: props_ok_def)
  qed
  have none: "first_of (order_of A True c) = None \<longleftrightarrow> order_of A True c = []" by (simp add: first_of_def split: list.split)
  have "order_of A True c = [] \<longleftrightarrow> \<not> (\<exists>i pr. P i = Some pr \<and> tp_active_core pr = int c)"
    using mem [of True] act by (simp add: set_empty [symmetric] del: set_empty) blast
  then show ?thesis unfolding AP prod.case using fronts nexts mem once by_priority none by simp
qed

text \<open>Three threads, one of which migrates from core 3 to core 0; another leaves.\<close>

definition example_thread :: "int \<Rightarrow> int \<Rightarrow> u64 \<Rightarrow> ThreadProps" where
  "example_thread priority core affinity = \<lparr>tp_priority = priority, tp_active_core = core, tp_affinity = affinity,
     tp_is_dummy = False, tp_last_scheduled_tick = 0, tp_schedule_count = None\<rparr>"

definition example_ops :: "pq_op list" where
  "example_ops = [Push_Back 100 (example_thread 16 3 15), Push_Back 200 (example_thread 44 3 8),
     Push_Front 300 (example_thread 44 3 12), Change_Core 3 100 0 16 True, Change_Priority 44 False 200 63 3 8, Remove 300 44 3 12]"

lemma example_bits [simp]: "bit (15 :: u64) 0" "bit (15 :: u64) 3" "bit (8 :: u64) 3" "bit (12 :: u64) 3"
  by simp_all

lemma example_ops_ok: "ops_ok example_ops no_threads"
  by (simp add: example_ops_def example_thread_def no_threads_def props_ok_def requeue_def Let_def
      LOWEST_PRIORITY_def NUM_CORES_def)

lemma priority_queue_refines_lists_witness:
  "\<exists>q. pq_run rev example_ops pq_new = Some q \<and>
    rep q (fst (pq_specs example_ops no_threads)) (snd (pq_specs example_ops no_threads))"
  by (rule priority_queue_refines_lists [OF example_ops_ok])

lemma example_order:
  "order_of (fst (pq_specs example_ops no_threads)) True 3 = [200]"
  "order_of (fst (pq_specs example_ops no_threads)) False 3 = [100]"
  by code_simp+

lemma priority_queue_order_witness:
  "\<exists>q. pq_run rev example_ops pq_new = Some q \<and>
     get_scheduled_front 3 q = Some (Some 200) \<and> get_suggested_front 3 q = Some (Some 100)"
proof -
  obtain q where q: "pq_run rev example_ops pq_new = Some q"
    using pq_run_ok [OF rep_new example_ops_ok] by blast
  have "(3 :: nat) < NUM_CORES" by (simp add: NUM_CORES_def)
  from priority_queue_order [OF example_ops_ok q this]
  have "get_scheduled_front 3 q = Some (first_of (order_of (fst (pq_specs example_ops no_threads)) True 3)) \<and>
    get_suggested_front 3 q = Some (first_of (order_of (fst (pq_specs example_ops no_threads)) False 3))"
    by (auto simp: case_prod_beta)
  then show ?thesis using q unfolding example_order by (simp add: first_of_def)
qed

text \<open>
  A thread of priority 64, which \<open>is_valid_priority\<close> admits and which no list holds, can enter the
  queue but cannot leave it: the removal purges the list of its priority, and the index is out of range.
\<close>

lemma priority_64_cannot_leave:
  assumes "0 \<le> active_core" "active_core < int NUM_CORES" "rep q A P" "P i = None"
  shows "is_valid_priority 64 \<and>
    (\<exists>q'. pq_push_back i 64 active_core (2 ^ nat active_core) False count q = Some q' \<and>
       get_thread_props i q' \<noteq> None \<and> scheduled_queue q' = scheduled_queue q \<and> suggested_queue q' = suggested_queue q \<and>
       pq_remove order i p core affinity False q' = None)"
proof -
  let ?pr = "\<lparr>tp_priority = 64, tp_active_core = active_core, tp_affinity = 2 ^ nat active_core,
      tp_is_dummy = False, tp_last_scheduled_tick = 0, tp_schedule_count = count\<rparr>"
  let ?q = "q\<lparr>members := Mapping.update i (slot_new ?pr) (members q)\<rparr>"
  have unknown: "Mapping.lookup (members q) i = None" using assms(3,4) by (auto simp: rep_def props_of_at props_at_def)
  have k: "nat (active_core mod 64) = nat active_core" "nat active_core < 64" using assms(1,2) by (simp_all add: NUM_CORES_def)
  have none: "clear_affinity_bit active_core (2 ^ nat active_core) = 0"
    using assms(1,2) by (intro bit_word_eqI) (auto simp: clear_affinity_bit_bit bit_exp_iff NUM_CORES_def)
  have "enter_member i ?pr q = Some ?q" using unknown by (simp add: enter_member_def get_thread_props_def)
  moreover have "push_back_impl 64 i active_core (2 ^ nat active_core) ?q = Some ?q"
    using assms(1) by (simp add: push_back_impl_def on_scheduled_def pqi_push_back_def LOWEST_PRIORITY_def none over_affinity.simps)
  ultimately have push: "pq_push_back i 64 active_core (2 ^ nat active_core) False count q = Some ?q"
    by (simp add: pq_push_back_def)
  have known: "get_thread_props i ?q = Some ?pr" by (simp add: get_thread_props_def slot_new_def)
  have "remove_all_expected_impl order 64 i active_core a q' = None" for a q'
    using assms(1) by (simp add: remove_all_expected_impl_def on_scheduled_def purge_def ix_def NUM_PRIORITY_def)
  then have "pq_remove order i p core affinity False ?q = None"
    unfolding pq_remove_def known by (simp add: Let_def)
  then show ?thesis using push known by (simp add: is_valid_priority_def HIGHEST_PRIORITY_def LOWEST_PRIORITY_def)
qed

lemma priority_64_cannot_leave_witness:
  "\<exists>q'. pq_push_back 7 64 0 1 False None pq_new = Some q' \<and> pq_remove rev 7 64 0 1 False q' = None"
proof -
  have p: "(0 :: int) \<le> 0" "(0 :: int) < int NUM_CORES" "snd no_threads 7 = None"
    by (simp_all add: NUM_CORES_def no_threads_def)
  from priority_64_cannot_leave [OF p(1,2) rep_new p(3), where count = None and order = rev and p = 64 and core = 0 and affinity = 1]
  show ?thesis by auto
qed

end
