(* ===== verification/GlobalScheduler.thy ===== *)
theory GlobalScheduler
  imports PriorityQueueOrder
begin

text \<open>
  The global scheduler context of src/core/src/hle/kernel/global_scheduler_context.rs and the rotation
  of a scheduled queue of k_scheduler.rs. The threads the context points to live in a store from
  references to threads, with the fields of a thread that scheduling reads or writes. A counter of a process is named by a number, as in the queue. The locks and the
  tracing of the functions are left out; a \<open>None\<close> is a panic or a loop that does not end.
\<close>

definition HIGHEST_CORE_MIGRATION_ALLOWED_PRIORITY :: int where
  "HIGHEST_CORE_MIGRATION_ALLOWED_PRIORITY = 2"

definition PREEMPTION_PRIORITIES :: "int list" where
  "PREEMPTION_PRIORITIES = [59, 59, 59, 63]"

text \<open>The base states of a thread.\<close>

type_synonym ThreadState = "16 word"

definition INITIALIZED :: ThreadState where "INITIALIZED = 0"
definition WAITING :: ThreadState where "WAITING = 1"
definition RUNNABLE :: ThreadState where "RUNNABLE = 2"
definition TERMINATED :: ThreadState where "TERMINATED = 3"

record KThread =
  core_id :: int
  dummy_thread_wait :: bool
  thread_last_tick :: int
  num_kernel_waiters :: int
  thread_parent :: "nat option"
  raw_state :: ThreadState
  is_dummy_thread :: bool

record GlobalSchedulerContext =
  m_scheduler_update_needed :: bool
  m_priority_queue :: KPriorityQueue
  m_woken_dummy_threads :: "(nat, nat) mapping"
  m_thread_list :: "(nat \<times> nat) list"

record SchedulerState =
  gsc :: GlobalSchedulerContext
  thread_at :: "nat \<Rightarrow> KThread"
  schedule_count :: schedule_counts

definition gsc_new :: GlobalSchedulerContext where
  "gsc_new = \<lparr>m_scheduler_update_needed = False, m_priority_queue = pq_new,
     m_woken_dummy_threads = Mapping.empty, m_thread_list = []\<rparr>"

abbreviation queue_of :: "SchedulerState \<Rightarrow> KPriorityQueue" where
  "queue_of w \<equiv> m_priority_queue (gsc w)"

definition with_queue :: "(KPriorityQueue \<Rightarrow> KPriorityQueue option) \<Rightarrow> SchedulerState \<Rightarrow> SchedulerState option" where
  "with_queue f w = do { q \<leftarrow> f (queue_of w); Some (w\<lparr>gsc := (gsc w)\<lparr>m_priority_queue := q\<rparr>\<rparr>) }"

definition need_update :: "SchedulerState \<Rightarrow> SchedulerState" where
  "need_update w = w\<lparr>gsc := (gsc w)\<lparr>m_scheduler_update_needed := True\<rparr>\<rparr>"

section \<open>The threads\<close>

definition add_thread_with_id :: "nat \<Rightarrow> nat \<Rightarrow> SchedulerState \<Rightarrow> SchedulerState" where
  "add_thread_with_id i a w = w\<lparr>gsc := (gsc w)\<lparr>m_thread_list := m_thread_list (gsc w) @ [(i, a)]\<rparr>\<rparr>"

definition remove_thread :: "nat \<Rightarrow> SchedulerState \<Rightarrow> SchedulerState" where
  "remove_thread i w = w\<lparr>gsc := (gsc w)\<lparr>m_thread_list := filter (\<lambda>(j, a). j \<noteq> i) (m_thread_list (gsc w))\<rparr>\<rparr>"

definition get_thread_list :: "SchedulerState \<Rightarrow> nat list" where
  "get_thread_list w = map snd (m_thread_list (gsc w))"

definition get_thread_by_thread_id :: "nat \<Rightarrow> SchedulerState \<Rightarrow> nat option" where
  "get_thread_by_thread_id i w = map_option snd (find (\<lambda>(j, a). j = i) (m_thread_list (gsc w)))"

definition set_active_core :: "nat \<Rightarrow> int \<Rightarrow> SchedulerState \<Rightarrow> SchedulerState" where
  "set_active_core a core w = w\<lparr>thread_at := (thread_at w)(a := (thread_at w a)\<lparr>core_id := core\<rparr>)\<rparr>"

definition dummy_thread_end_wait :: "nat \<Rightarrow> SchedulerState \<Rightarrow> SchedulerState" where
  "dummy_thread_end_wait a w = w\<lparr>thread_at := (thread_at w)(a := (thread_at w a)\<lparr>dummy_thread_wait := True\<rparr>)\<rparr>"

definition register_dummy_thread_for_wakeup :: "nat \<Rightarrow> nat \<Rightarrow> SchedulerState \<Rightarrow> SchedulerState" where
  "register_dummy_thread_for_wakeup i a w =
     w\<lparr>gsc := (gsc w)\<lparr>m_woken_dummy_threads := Mapping.update i a (m_woken_dummy_threads (gsc w))\<rparr>\<rparr>"

definition unregister_dummy_thread_for_wakeup :: "nat \<Rightarrow> SchedulerState \<Rightarrow> SchedulerState" where
  "unregister_dummy_thread_for_wakeup i w =
     w\<lparr>gsc := (gsc w)\<lparr>m_woken_dummy_threads := Mapping.delete i (m_woken_dummy_threads (gsc w))\<rparr>\<rparr>"

text \<open>The values of the map are woken in the map's order, which is the parameter \<open>order\<close>.\<close>

definition wakeup_waiting_dummy_threads :: "(nat list \<Rightarrow> nat list) \<Rightarrow> SchedulerState \<Rightarrow> SchedulerState" where
  "wakeup_waiting_dummy_threads order w =
     (let threads = m_woken_dummy_threads (gsc w);
          w = w\<lparr>gsc := (gsc w)\<lparr>m_woken_dummy_threads := Mapping.empty\<rparr>\<rparr>
      in fold (\<lambda>i w. case Mapping.lookup threads i of None \<Rightarrow> w | Some a \<Rightarrow> dummy_thread_end_wait a w)
           (order (Mapping.ordered_keys threads)) w)"

section \<open>Changes of a thread\<close>

definition increment_process_scheduled_count :: "nat option \<Rightarrow> SchedulerState \<Rightarrow> SchedulerState" where
  "increment_process_scheduled_count k w = (case k of None \<Rightarrow> w
     | Some k \<Rightarrow> w\<lparr>schedule_count := (schedule_count w)(k := schedule_count w k + 1)\<rparr>)"

definition gsc_increment :: "nat \<Rightarrow> SchedulerState \<Rightarrow> SchedulerState" where
  "gsc_increment i w = w\<lparr>schedule_count := increment_scheduled_count i (queue_of w) (schedule_count w)\<rparr>"

text \<open>The counter of a queued thread.\<close>

definition cached_count :: "nat \<Rightarrow> SchedulerState \<Rightarrow> nat option" where
  "cached_count i w = Option.bind (get_thread_props i (queue_of w)) tp_schedule_count"

definition on_thread_state_changed ::
  "(nat list \<Rightarrow> nat list) \<Rightarrow> nat \<Rightarrow> ThreadState \<Rightarrow> ThreadState \<Rightarrow> int \<Rightarrow> int \<Rightarrow> u64 \<Rightarrow> bool \<Rightarrow> nat option \<Rightarrow> nat option \<Rightarrow> int
    \<Rightarrow> SchedulerState \<Rightarrow> SchedulerState option" where
  "on_thread_state_changed order i old_state new_state priority active_core affinity is_dummy thread count tick w =
     (if old_state = new_state then Some w
      else if old_state = RUNNABLE then do {
        let count = (case cached_count i w of Some k \<Rightarrow> Some k | None \<Rightarrow> count);
        w \<leftarrow> with_queue (pq_remove order i priority active_core affinity is_dummy) w;
        let w = need_update (increment_process_scheduled_count count w);
        Some (if is_dummy then unregister_dummy_thread_for_wakeup i w else w) }
      else if new_state = RUNNABLE then do {
        w \<leftarrow> with_queue (pq_push_back i priority active_core affinity is_dummy count) w;
        w \<leftarrow> with_queue (\<lambda>q. Some (set_last_scheduled_tick i tick q)) w;
        let w = need_update (gsc_increment i w);
        if is_dummy then do { a \<leftarrow> thread; Some (register_dummy_thread_for_wakeup i a w) } else Some w }
      else Some w)"

definition on_thread_priority_changed ::
  "int \<Rightarrow> int \<Rightarrow> int \<Rightarrow> u64 \<Rightarrow> bool \<Rightarrow> bool \<Rightarrow> nat \<Rightarrow> SchedulerState \<Rightarrow> SchedulerState option" where
  "on_thread_priority_changed old_priority new_priority active_core affinity is_running is_dummy i w = do {
     let count = cached_count i w;
     w \<leftarrow> with_queue (pq_change_priority old_priority is_running i new_priority active_core affinity is_dummy) w;
     Some (need_update (increment_process_scheduled_count count w)) }"

definition on_thread_affinity_changed ::
  "nat \<Rightarrow> int \<Rightarrow> u64 \<Rightarrow> int \<Rightarrow> u64 \<Rightarrow> int \<Rightarrow> bool \<Rightarrow> SchedulerState \<Rightarrow> SchedulerState option" where
  "on_thread_affinity_changed i prev_core prev_affinity new_core new_affinity priority is_dummy w = do {
     w \<leftarrow> with_queue (pq_change_affinity_mask prev_core prev_affinity i new_core new_affinity priority is_dummy) w;
     Some (need_update (gsc_increment i w)) }"

definition push_back_to_priority_queue ::
  "nat \<Rightarrow> int \<Rightarrow> int \<Rightarrow> u64 \<Rightarrow> bool \<Rightarrow> nat option \<Rightarrow> int \<Rightarrow> SchedulerState \<Rightarrow> SchedulerState option" where
  "push_back_to_priority_queue i priority active_core affinity is_dummy count tick w = do {
     w \<leftarrow> with_queue (pq_push_back i priority active_core affinity is_dummy count) w;
     w \<leftarrow> with_queue (\<lambda>q. Some (set_last_scheduled_tick i tick q)) w;
     Some (need_update w) }"

definition remove_from_priority_queue ::
  "(nat list \<Rightarrow> nat list) \<Rightarrow> nat \<Rightarrow> int \<Rightarrow> int \<Rightarrow> u64 \<Rightarrow> bool \<Rightarrow> SchedulerState \<Rightarrow> SchedulerState option" where
  "remove_from_priority_queue order i priority active_core affinity is_dummy w = do {
     w \<leftarrow> with_queue (pq_remove order i priority active_core affinity is_dummy) w;
     Some (need_update w) }"

definition gsc_move_to_scheduled_back :: "nat \<Rightarrow> int \<Rightarrow> int \<Rightarrow> bool \<Rightarrow> SchedulerState \<Rightarrow> (nat option \<times> SchedulerState) option" where
  "gsc_move_to_scheduled_back i priority active_core is_dummy w = do {
     (front, q) \<leftarrow> move_to_scheduled_back i priority active_core is_dummy (queue_of w);
     Some (front, need_update (w\<lparr>gsc := (gsc w)\<lparr>m_priority_queue := q\<rparr>\<rparr>)) }"

section \<open>The rotation of a scheduled queue\<close>

text \<open>The candidate of the loops moves to \<open>core\<close>: first the thread, then the queue.\<close>

definition migrate_candidate :: "(nat list \<Rightarrow> nat list) \<Rightarrow> int \<Rightarrow> nat \<Rightarrow> ThreadProps \<Rightarrow> SchedulerState \<Rightarrow> SchedulerState option" where
  "migrate_candidate order core i pr w = do {
     let w = (case get_thread_by_thread_id i w of Some a \<Rightarrow> set_active_core a core w | None \<Rightarrow> w);
     w \<leftarrow> with_queue (pq_change_core order (tp_active_core pr) i core (tp_priority pr) (tp_is_dummy pr) True) w;
     Some (gsc_increment i w) }"

text \<open>The thread that its core would run, and whether it lets the candidate go.\<close>

definition top_on_core :: "int \<Rightarrow> KPriorityQueue \<Rightarrow> nat option option" where
  "top_on_core core q = (if 0 \<le> core then get_scheduled_front core q else Some None)"

definition migration_allowed :: "nat option \<Rightarrow> KPriorityQueue \<Rightarrow> bool" where
  "migration_allowed top_thread q = (case Option.bind top_thread (\<lambda>i. get_thread_props i q) of
      None \<Rightarrow> True | Some pr \<Rightarrow> HIGHEST_CORE_MIGRATION_ALLOWED_PRIORITY \<le> tp_priority pr)"

definition next_waited_longer :: "nat option \<Rightarrow> nat option \<Rightarrow> ThreadProps \<Rightarrow> KPriorityQueue \<Rightarrow> bool" where
  "next_waited_longer top_thread next_thread pr q \<longleftrightarrow> top_thread \<noteq> next_thread \<and>
     (case Option.bind next_thread (\<lambda>i. get_thread_props i q) of
        None \<Rightarrow> False | Some n \<Rightarrow> tp_last_scheduled_tick n < tp_last_scheduled_tick pr)"

partial_function (option) same_priority_loop ::
  "(nat list \<Rightarrow> nat list) \<Rightarrow> int \<Rightarrow> nat option \<Rightarrow> nat option \<Rightarrow> nat option \<Rightarrow> SchedulerState \<Rightarrow> SchedulerState option" where
  "same_priority_loop order core top_thread next_thread suggested w = (case suggested of
      None \<Rightarrow> Some w
    | Some i \<Rightarrow> (case get_thread_props i (queue_of w) of
          None \<Rightarrow> Some w
        | Some pr \<Rightarrow> do {
            t \<leftarrow> top_on_core (tp_active_core pr) (queue_of w);
            if t \<noteq> Some i \<and> next_waited_longer top_thread next_thread pr (queue_of w) then Some w
            else if t \<noteq> Some i \<and> migration_allowed t (queue_of w) then migrate_candidate order core i pr w
            else do {
              s \<leftarrow> get_same_priority_next core i (queue_of w);
              same_priority_loop order core top_thread next_thread s w } }))"

partial_function (option) higher_priority_loop ::
  "(nat list \<Rightarrow> nat list) \<Rightarrow> int \<Rightarrow> int \<Rightarrow> nat option \<Rightarrow> SchedulerState \<Rightarrow> SchedulerState option" where
  "higher_priority_loop order core best_priority suggested w = (case suggested of
      None \<Rightarrow> Some w
    | Some i \<Rightarrow> (case get_thread_props i (queue_of w) of
          None \<Rightarrow> Some w
        | Some pr \<Rightarrow>
            if best_priority \<le> tp_priority pr then Some w
            else do {
              t \<leftarrow> top_on_core (tp_active_core pr) (queue_of w);
              if t \<noteq> Some i \<and> migration_allowed t (queue_of w) then migrate_candidate order core i pr w
              else do {
                s \<leftarrow> get_suggested_next core i (tp_priority pr) (queue_of w);
                higher_priority_loop order core best_priority s w } }))"

text \<open>The first part: the front of the level goes to its back, and the processes of both threads count it.\<close>

definition count_rotation :: "nat \<Rightarrow> nat option \<Rightarrow> SchedulerState \<Rightarrow> SchedulerState" where
  "count_rotation i next_thread w =
     (if next_thread \<noteq> Some i
      then (case next_thread of Some n \<Rightarrow> gsc_increment n (gsc_increment i w) | None \<Rightarrow> gsc_increment i w)
      else w)"

definition rotate_front :: "int \<Rightarrow> int \<Rightarrow> nat option \<Rightarrow> SchedulerState \<Rightarrow> (nat option \<times> SchedulerState) option" where
  "rotate_front core priority top_thread w = (case top_thread of
      None \<Rightarrow> Some (None, w)
    | Some i \<Rightarrow> do {
        let (p, c, d) = (case get_thread_props i (queue_of w) of
            Some pr \<Rightarrow> (tp_priority pr, tp_active_core pr, tp_is_dummy pr) | None \<Rightarrow> (priority, core, False));
        (next_thread, q) \<leftarrow> move_to_scheduled_back i p c d (queue_of w);
        let w = w\<lparr>gsc := (gsc w)\<lparr>m_priority_queue := q\<rparr>\<rparr>;
        Some (next_thread, count_rotation i next_thread w) })"

text \<open>The best thread beside the current one.\<close>

definition best_thread :: "int \<Rightarrow> nat option \<Rightarrow> KPriorityQueue \<Rightarrow> nat option option" where
  "best_thread core current q = do {
     best \<leftarrow> get_scheduled_front core q;
     if best = current then
       (case best of None \<Rightarrow> Some None
        | Some i \<Rightarrow> (case get_thread_props i q of None \<Rightarrow> Some None
            | Some pr \<Rightarrow> get_scheduled_next core i (tp_priority pr) q))
     else Some best }"

definition rotate_scheduled_queue ::
  "(nat list \<Rightarrow> nat list) \<Rightarrow> int \<Rightarrow> int \<Rightarrow> nat option \<Rightarrow> SchedulerState \<Rightarrow> SchedulerState option" where
  "rotate_scheduled_queue order core priority current w = do {
     top_thread \<leftarrow> get_scheduled_front_at_priority core priority (queue_of w);
     (next_thread, w) \<leftarrow> rotate_front core priority top_thread w;
     s \<leftarrow> get_suggested_front_at_priority core priority (queue_of w);
     w \<leftarrow> same_priority_loop order core top_thread next_thread s w;
     best \<leftarrow> best_thread core current (queue_of w);
     w \<leftarrow> (case Option.bind best (\<lambda>i. get_thread_props i (queue_of w)) of
         None \<Rightarrow> Some w
       | Some pr \<Rightarrow>
           if priority \<le> tp_priority pr then do {
             s \<leftarrow> get_suggested_front core (queue_of w);
             higher_priority_loop order core (tp_priority pr) s w }
           else Some w);
     Some (need_update w) }"

text \<open>Every core in turn; \<open>PREEMPTION_PRIORITIES\<close> has one entry per core.\<close>

fun preempt_cores :: "(nat list \<Rightarrow> nat list) \<Rightarrow> nat list \<Rightarrow> nat option \<Rightarrow> SchedulerState \<Rightarrow> SchedulerState option" where
  "preempt_cores order [] current w = Some w"
| "preempt_cores order (c # cs) current w = do {
     k \<leftarrow> ix (length PREEMPTION_PRIORITIES) (int c);
     w \<leftarrow> rotate_scheduled_queue order (int c) (PREEMPTION_PRIORITIES ! k) current w;
     preempt_cores order cs current w }"

definition preempt_threads :: "(nat list \<Rightarrow> nat list) \<Rightarrow> nat option \<Rightarrow> SchedulerState \<Rightarrow> SchedulerState option" where
  "preempt_threads order current w = preempt_cores order [0..<NUM_CORES] current w"

end
