(* ===== verification/GlobalSchedulerRotate.thy ===== *)
theory GlobalSchedulerRotate
  imports GlobalScheduler
begin

text \<open>
  The rotation of a scheduled queue as queue operations: which threads it moves is read off the lists
  of the specification, the two loops over candidates end, and the whole is a run of at most three
  operations of the priority queue. A preemption is one rotation per core.
\<close>

section \<open>Scheduler states\<close>

text \<open>The threads know the core that the queue has cached for them, and no thread is listed twice.\<close>

definition cores_agree :: "SchedulerState \<Rightarrow> thread_props \<Rightarrow> bool" where
  "cores_agree w P \<longleftrightarrow> (\<forall>i a pr. get_thread_by_thread_id i w = Some a \<longrightarrow> P i = Some pr \<longrightarrow>
     core_id (thread_at w a) = tp_active_core pr)"

definition sched_ok :: "SchedulerState \<Rightarrow> lists \<times> thread_props \<Rightarrow> bool" where
  "sched_ok w AP \<longleftrightarrow> rep (queue_of w) (fst AP) (snd AP) \<and> cores_agree w (snd AP) \<and> distinct (get_thread_list w)"

lemma sched_okD:
  assumes "sched_ok w (A, P)"
  shows "rep (queue_of w) A P" "get_thread_props i (queue_of w) = P i"
  using assms known_props by (auto simp: sched_ok_def)

lemma find_Some_elem: "find Q xs = Some x \<Longrightarrow> x \<in> set xs \<and> Q x"
  by (induction xs) (auto split: if_splits)

lemma distinct_snd_unique: "distinct (map snd xs) \<Longrightarrow> (i, a) \<in> set xs \<Longrightarrow> (j, a) \<in> set xs \<Longrightarrow> i = j"
  by (induction xs) force+

lemma thread_id_unique:
  assumes "distinct (get_thread_list w)" "get_thread_by_thread_id i w = Some a" "get_thread_by_thread_id j w = Some a"
  shows "i = j"
proof -
  have "(i, a) \<in> set (m_thread_list (gsc w))" "(j, a) \<in> set (m_thread_list (gsc w))"
    using assms(2,3) by (auto simp: get_thread_by_thread_id_def dest!: find_Some_elem)
  then show ?thesis using assms(1) distinct_snd_unique unfolding get_thread_list_def by metis
qed

section \<open>What the rotation does, on lists\<close>

text \<open>The loops stop at the first thread that satisfies \<open>stop\<close> and pick the first that satisfies \<open>pick\<close>.\<close>

fun first_candidate :: "(nat \<Rightarrow> bool) \<Rightarrow> (nat \<Rightarrow> bool) \<Rightarrow> nat list \<Rightarrow> nat option" where
  "first_candidate stop pick [] = None"
| "first_candidate stop pick (i # xs) =
     (if stop i then None else if pick i then Some i else first_candidate stop pick xs)"

lemma first_candidate_elem: "first_candidate stop pick xs = Some i \<Longrightarrow> i \<in> set xs \<and> pick i \<and> \<not> stop i"
  by (induction xs) (auto split: if_splits)

definition core_front :: "lists \<Rightarrow> int \<Rightarrow> nat option" where
  "core_front A core = (if 0 \<le> core then first_of (order_of A True (nat core)) else None)"

definition elsewhere :: "lists \<times> thread_props \<Rightarrow> nat \<Rightarrow> bool" where
  "elsewhere AP i \<longleftrightarrow> core_front (fst AP) (tp_active_core (the (snd AP i))) \<noteq> Some i"

definition let_go :: "lists \<times> thread_props \<Rightarrow> nat \<Rightarrow> bool" where
  "let_go AP i \<longleftrightarrow> (case Option.bind (core_front (fst AP) (tp_active_core (the (snd AP i)))) (snd AP) of
      None \<Rightarrow> True | Some pr \<Rightarrow> HIGHEST_CORE_MIGRATION_ALLOWED_PRIORITY \<le> tp_priority pr)"

definition waited_less :: "nat option \<Rightarrow> nat option \<Rightarrow> thread_props \<Rightarrow> nat \<Rightarrow> bool" where
  "waited_less front next_thread P i \<longleftrightarrow> front \<noteq> next_thread \<and>
     (case Option.bind next_thread P of None \<Rightarrow> False
      | Some n \<Rightarrow> tp_last_scheduled_tick n < tp_last_scheduled_tick (the (P i)))"

definition same_candidate :: "nat \<Rightarrow> nat \<Rightarrow> nat option \<Rightarrow> nat option \<Rightarrow> lists \<times> thread_props \<Rightarrow> nat option" where
  "same_candidate p c front next_thread AP =
     first_candidate (\<lambda>i. elsewhere AP i \<and> waited_less front next_thread (snd AP) i)
       (\<lambda>i. elsewhere AP i \<and> let_go AP i) (fst AP False p c)"

definition higher_candidate :: "nat \<Rightarrow> int \<Rightarrow> lists \<times> thread_props \<Rightarrow> nat option" where
  "higher_candidate c best_priority AP =
     first_candidate (\<lambda>i. best_priority \<le> tp_priority (the (snd AP i)))
       (\<lambda>i. elsewhere AP i \<and> let_go AP i) (order_of (fst AP) False c)"

definition front_ops :: "nat \<Rightarrow> nat \<Rightarrow> lists \<times> thread_props \<Rightarrow> pq_op list" where
  "front_ops p c AP = (case first_of (fst AP True p c) of None \<Rightarrow> [] | Some i \<Rightarrow> [Move_Back i (int p) (int c)])"

definition migrate_ops :: "nat \<Rightarrow> nat option \<Rightarrow> lists \<times> thread_props \<Rightarrow> pq_op list" where
  "migrate_ops c cand AP = (case cand of None \<Rightarrow> []
     | Some i \<Rightarrow> (let pr = the (snd AP i) in [Change_Core (tp_active_core pr) i (int c) (tp_priority pr) True]))"

definition best_beside :: "nat \<Rightarrow> nat option \<Rightarrow> lists \<Rightarrow> nat option" where
  "best_beside c current A = (let best = first_of (order_of A True c)
     in if best = current then Option.bind best (\<lambda>i. successor i (order_of A True c)) else best)"

definition rotate_ops :: "nat \<Rightarrow> nat \<Rightarrow> nat option \<Rightarrow> lists \<times> thread_props \<Rightarrow> pq_op list" where
  "rotate_ops p c current AP =
     (let front = first_of (fst AP True p c); ops1 = front_ops p c AP; AP1 = pq_specs ops1 AP;
          ops2 = migrate_ops c (same_candidate p c front (first_of (fst AP1 True p c)) AP1) AP1; AP2 = pq_specs ops2 AP1;
          ops3 = (case best_beside c current (fst AP2) of None \<Rightarrow> []
            | Some b \<Rightarrow> let bp = tp_priority (the (snd AP2 b))
                in if int p \<le> bp then migrate_ops c (higher_candidate c bp AP2) AP2 else [])
      in ops1 @ ops2 @ ops3)"

lemma pq_specs_append: "pq_specs (ops @ ops') AP = pq_specs ops' (pq_specs ops AP)"
  by (induction ops arbitrary: AP) simp_all

lemma ops_ok_append: "ops_ok (ops @ ops') AP \<longleftrightarrow> ops_ok ops AP \<and> ops_ok ops' (pq_specs ops AP)"
  by (induction ops arbitrary: AP) simp_all

section \<open>The candidates\<close>

lemma place_member: "rep q A P \<Longrightarrow> i \<in> set (A s p c) \<Longrightarrow> \<exists>pr. P i = Some pr \<and> place pr s p c \<and> props_ok pr"
  by (auto simp: rep_def)

lemma top_on_core_ok:
  assumes "rep q A P" "P i = Some pr"
  shows "top_on_core (tp_active_core pr) q = Some (core_front A (tp_active_core pr))"
proof (cases "0 \<le> tp_active_core pr")
  case True
  have "props_ok pr" using assms by (simp add: rep_def)
  then have c: "nat (tp_active_core pr) < NUM_CORES"
    using True small_affinity [of "tp_affinity pr"] by (auto simp: props_ok_def)
  show ?thesis
    using front_ok [OF assms(1) c, where s = True] True
    by (simp add: top_on_core_def core_front_def get_scheduled_front_def sel_def)
qed (simp add: top_on_core_def core_front_def)

lemma same_next_ok:
  assumes "rep q A P" "c < NUM_CORES" "p < 64" "A s p c = ys @ i # xs"
  shows "get_same_priority_next (int c) i q = Some (first_of xs)"
proof -
  have "shape q A" using assms(1) by (simp add: rep_def)
  then have lk: "list_ok c (queues (sel s q) p) (members q) (A s p c)" by (rule shapeD(1) [OF _ assms(3,2)])
  have "get_entry c i (members q) = Some \<lparr>qe_prev = end_or None ys, qe_next = head_or None xs\<rparr>"
    using dll_split(2) lk unfolding list_ok_def assms(4) by blast
  then show ?thesis using assms(2)
    by (auto simp: get_same_priority_next_def get_entry_def ix_bounds first_of_head)
qed

lemma suggested_next_ok:
  assumes "rep q A P" "c < NUM_CORES" "order_of A False c = ys @ i # xs" "P i = Some pr"
  shows "get_suggested_next (int c) i (tp_priority pr) q = Some (first_of xs)"
proof -
  have "i \<notin> set ys" using order_of_ok(2) [OF assms(1,2), of False] assms(3) by simp
  moreover have "i \<in> set (order_of A False c)" using assms(3) by simp
  ultimately show ?thesis
    using next_ok [OF assms(1,2,4), where s = False] successor_split [of i ys xs] assms(3)
    by (simp add: get_suggested_next_def sel_def)
qed

lemma first_of_Cons [simp]: "first_of [] = None" "first_of (i # xs) = Some i"
  by (simp_all add: first_of_def)

lemma same_priority_loop_ok:
  assumes "sched_ok w (A, P)" "c < NUM_CORES" "p < 64" "A False p c = ys @ xs"
  shows "same_priority_loop order (int c) front next_thread (first_of xs) w =
    (case first_candidate (\<lambda>i. elsewhere (A, P) i \<and> waited_less front next_thread P i)
         (\<lambda>i. elsewhere (A, P) i \<and> let_go (A, P) i) xs of
       None \<Rightarrow> Some w | Some i \<Rightarrow> migrate_candidate order (int c) i (the (P i)) w)"
  using assms(4)
proof (induction xs arbitrary: ys)
  case Nil
  show ?case by (subst same_priority_loop.simps) simp
next
  case (Cons i xs)
  note r = sched_okD [OF assms(1)]
  have "i \<in> set (A False p c)" using Cons.prems by simp
  then obtain pr where pr: "P i = Some pr" using place_member [OF r(1)] by blast
  have t: "top_on_core (tp_active_core pr) (queue_of w) = Some (core_front A (tp_active_core pr))"
    by (rule top_on_core_ok [OF r(1) pr])
  have n: "get_same_priority_next (int c) i (queue_of w) = Some (first_of xs)"
    by (rule same_next_ok [OF r(1) assms(2,3) Cons.prems])
  have a: "migration_allowed (core_front A (tp_active_core pr)) (queue_of w) = let_go (A, P) i"
    "next_waited_longer front next_thread pr (queue_of w) = waited_less front next_thread P i"
    using pr by (simp_all add: migration_allowed_def let_go_def next_waited_longer_def waited_less_def r(2) cong: option.case_cong)
  have e: "elsewhere (A, P) i \<longleftrightarrow> core_front A (tp_active_core pr) \<noteq> Some i" using pr by (simp add: elsewhere_def)
  have IH: "same_priority_loop order (int c) front next_thread (first_of xs) w =
    (case first_candidate (\<lambda>i. elsewhere (A, P) i \<and> waited_less front next_thread P i)
         (\<lambda>i. elsewhere (A, P) i \<and> let_go (A, P) i) xs of
       None \<Rightarrow> Some w | Some i \<Rightarrow> migrate_candidate order (int c) i (the (P i)) w)"
    by (rule Cons.IH [of "ys @ [i]"]) (simp add: Cons.prems)
  show ?case
    by (subst same_priority_loop.simps) (simp add: r(2) pr t n a e IH)
qed

lemma higher_priority_loop_ok:
  assumes "sched_ok w (A, P)" "c < NUM_CORES" "order_of A False c = ys @ xs"
  shows "higher_priority_loop order (int c) best (first_of xs) w =
    (case first_candidate (\<lambda>i. best \<le> tp_priority (the (P i)))
         (\<lambda>i. elsewhere (A, P) i \<and> let_go (A, P) i) xs of
       None \<Rightarrow> Some w | Some i \<Rightarrow> migrate_candidate order (int c) i (the (P i)) w)"
  using assms(3)
proof (induction xs arbitrary: ys)
  case Nil
  show ?case by (subst higher_priority_loop.simps) simp
next
  case (Cons i xs)
  note r = sched_okD [OF assms(1)]
  have "i \<in> set (order_of A False c)" using Cons.prems by simp
  then obtain pr where pr: "P i = Some pr" using order_of_ok(1) [OF r(1) assms(2)] by blast
  have t: "top_on_core (tp_active_core pr) (queue_of w) = Some (core_front A (tp_active_core pr))"
    by (rule top_on_core_ok [OF r(1) pr])
  have n: "get_suggested_next (int c) i (tp_priority pr) (queue_of w) = Some (first_of xs)"
    by (rule suggested_next_ok [OF r(1) assms(2) Cons.prems pr])
  have a: "migration_allowed (core_front A (tp_active_core pr)) (queue_of w) = let_go (A, P) i"
    using pr by (simp add: migration_allowed_def let_go_def r(2))
  have e: "elsewhere (A, P) i \<longleftrightarrow> core_front A (tp_active_core pr) \<noteq> Some i" using pr by (simp add: elsewhere_def)
  have IH: "higher_priority_loop order (int c) best (first_of xs) w =
    (case first_candidate (\<lambda>i. best \<le> tp_priority (the (P i)))
         (\<lambda>i. elsewhere (A, P) i \<and> let_go (A, P) i) xs of
       None \<Rightarrow> Some w | Some i \<Rightarrow> migrate_candidate order (int c) i (the (P i)) w)"
    by (rule Cons.IH [of "ys @ [i]"]) (simp add: Cons.prems)
  show ?case
    by (subst higher_priority_loop.simps) (simp add: r(2) pr t n a e IH)
qed

section \<open>The moves\<close>

lemma get_thread_upd [simp]:
  "get_thread_by_thread_id i (w\<lparr>gsc := (gsc w)\<lparr>m_priority_queue := q\<rparr>\<rparr>) = get_thread_by_thread_id i w"
  "get_thread_by_thread_id i (set_active_core a core w) = get_thread_by_thread_id i w"
  "get_thread_by_thread_id i (gsc_increment j w) = get_thread_by_thread_id i w"
  "get_thread_by_thread_id i (need_update w) = get_thread_by_thread_id i w"
  by (simp_all add: get_thread_by_thread_id_def set_active_core_def gsc_increment_def need_update_def)

lemma gsc_increment_simps [simp]:
  "gsc (gsc_increment i w) = gsc w" "thread_at (gsc_increment i w) = thread_at w"
  by (simp_all add: gsc_increment_def)

lemma need_update_simps [simp]:
  "queue_of (need_update w) = queue_of w" "thread_at (need_update w) = thread_at w"
  "m_thread_list (gsc (need_update w)) = m_thread_list (gsc w)"
  "m_woken_dummy_threads (gsc (need_update w)) = m_woken_dummy_threads (gsc w)"
  "m_scheduler_update_needed (gsc (need_update w))"
  by (simp_all add: need_update_def)

lemma set_active_core_simps [simp]:
  "gsc (set_active_core a core w) = gsc w"
  "core_id (thread_at (set_active_core a core w) b) = (if b = a then core else core_id (thread_at w b))"
  by (simp_all add: set_active_core_def)

text \<open>What stays the same in every step.\<close>

definition same_threads :: "SchedulerState \<Rightarrow> SchedulerState \<Rightarrow> bool" where
  "same_threads w w' \<longleftrightarrow> m_thread_list (gsc w') = m_thread_list (gsc w) \<and>
     m_woken_dummy_threads (gsc w') = m_woken_dummy_threads (gsc w)"

lemma same_threads_trans: "same_threads w1 w2 \<Longrightarrow> same_threads w2 w3 \<Longrightarrow> same_threads w1 w3"
  by (simp add: same_threads_def)

lemma same_threads_refl [simp]: "same_threads w w"
  by (simp add: same_threads_def)

lemma sched_ok_queue:
  assumes "sched_ok w AP" "rep q (fst AP') (snd AP')" "queue_of w' = q" "m_thread_list (gsc w') = m_thread_list (gsc w)"
    "\<And>i a pr. get_thread_by_thread_id i w = Some a \<Longrightarrow> snd AP' i = Some pr \<Longrightarrow> core_id (thread_at w' a) = tp_active_core pr"
  shows "sched_ok w' AP'"
  using assms by (simp add: sched_ok_def cores_agree_def get_thread_by_thread_id_def get_thread_list_def)

lemma sched_ok_view:
  assumes "sched_ok w AP" "queue_of w' = queue_of w" "m_thread_list (gsc w') = m_thread_list (gsc w)"
    "\<And>a. core_id (thread_at w' a) = core_id (thread_at w a)"
  shows "sched_ok w' AP"
  using assms by (simp add: sched_ok_def cores_agree_def get_thread_by_thread_id_def get_thread_list_def)

lemma wakeup_simps:
  "queue_of (wakeup_waiting_dummy_threads order w) = queue_of w"
  "m_thread_list (gsc (wakeup_waiting_dummy_threads order w)) = m_thread_list (gsc w)"
  "m_woken_dummy_threads (gsc (wakeup_waiting_dummy_threads order w)) = Mapping.empty"
  "core_id (thread_at (wakeup_waiting_dummy_threads order w) a) = core_id (thread_at w a)"
  "m_scheduler_update_needed (gsc (wakeup_waiting_dummy_threads order w)) = m_scheduler_update_needed (gsc w)"
proof -
  let ?f = "\<lambda>threads i w. case Mapping.lookup threads i of None \<Rightarrow> w | Some a \<Rightarrow> dummy_thread_end_wait a w"
  have "gsc (fold (?f threads) xs w) = gsc w \<and> core_id (thread_at (fold (?f threads) xs w) a) = core_id (thread_at w a)"
    for threads :: "(nat, nat) mapping" and xs :: "nat list" and w a
    by (induction xs arbitrary: w) (simp_all add: dummy_thread_end_wait_def split: option.split)
  then show "queue_of (wakeup_waiting_dummy_threads order w) = queue_of w"
    "m_thread_list (gsc (wakeup_waiting_dummy_threads order w)) = m_thread_list (gsc w)"
    "m_woken_dummy_threads (gsc (wakeup_waiting_dummy_threads order w)) = Mapping.empty"
    "core_id (thread_at (wakeup_waiting_dummy_threads order w) a) = core_id (thread_at w a)"
    "m_scheduler_update_needed (gsc (wakeup_waiting_dummy_threads order w)) = m_scheduler_update_needed (gsc w)"
    by (simp_all add: wakeup_waiting_dummy_threads_def Let_def)
qed

text \<open>A migration is a change of core, in the queue and in the thread.\<close>

lemma migrate_candidate_ok:
  assumes "sched_ok w (A, P)" "c < NUM_CORES" "P i = Some pr" "bit (tp_affinity pr) c"
  shows "\<exists>w'. migrate_candidate order (int c) i (the (P i)) w = Some w' \<and>
    ops_ok (migrate_ops c (Some i) (A, P)) (A, P) \<and>
    sched_ok w' (pq_specs (migrate_ops c (Some i) (A, P)) (A, P)) \<and> same_threads w w'"
proof -
  note r = sched_okD [OF assms(1)]
  let ?op = "Change_Core (tp_active_core pr) i (int c) (tp_priority pr) True"
  have pok: "props_ok pr" using r(1) assms(3) by (simp add: rep_def)
  then have ok: "op_ok P ?op" using assms(3,4) by (simp add: props_ok_def)
  have ops: "migrate_ops c (Some i) (A, P) = [?op]" using assms(3) by (simp add: migrate_ops_def)
  obtain A' P' where AP: "pq_spec ?op (A, P) = (A', P')" by (cases "pq_spec ?op (A, P)")
  obtain q' where q': "pq_exec order ?op (queue_of w) = Some q'" "rep q' A' P'"
    using pq_step_ok [OF r(1) ok, of order] AP by auto
  have P': "P' = P(i \<mapsto> pr\<lparr>tp_active_core := int c\<rparr>)"
  proof (cases "tp_active_core pr = int c")
    case True
    then have "pr\<lparr>tp_active_core := int c\<rparr> = pr" by (cases pr) simp
    then show ?thesis using AP assms(3) True by (auto simp: fun_eq_iff)
  qed (use AP assms(3) in \<open>simp add: Let_def\<close>)
  let ?w = "case get_thread_by_thread_id i w of Some a \<Rightarrow> set_active_core a (int c) w | None \<Rightarrow> w"
  let ?w' = "gsc_increment i (?w\<lparr>gsc := (gsc w)\<lparr>m_priority_queue := q'\<rparr>\<rparr>)"
  have g: "gsc ?w = gsc w" by (simp split: option.split)
  have "migrate_candidate order (int c) i pr w = Some ?w'"
    using q'(1) pok g by (simp add: migrate_candidate_def with_queue_def props_ok_def)
  moreover have "sched_ok ?w' (A', P')"
  proof (rule sched_ok_queue [OF assms(1)])
    show "rep q' (fst (A', P')) (snd (A', P'))" using q'(2) by simp
    fix j a e assume j: "get_thread_by_thread_id j w = Some a" "snd (A', P') j = Some e"
    have unique: "get_thread_by_thread_id i w = Some a \<Longrightarrow> i = j"
      using assms(1) thread_id_unique j(1) by (auto simp: sched_ok_def)
    have old: "P j = Some e' \<Longrightarrow> core_id (thread_at w a) = tp_active_core e'" for e'
      using assms(1) j(1) by (simp add: sched_ok_def cores_agree_def)
    show "core_id (thread_at ?w' a) = tp_active_core e"
      using j unique old by (auto simp: P' split: option.splits if_splits)
  qed simp_all
  moreover have "same_threads w ?w'" by (simp add: same_threads_def)
  ultimately show ?thesis using ok ops AP assms(3) by auto
qed

lemma member_affinity:
  assumes "rep q A P"
  shows "i \<in> set (A s p c) \<Longrightarrow> \<exists>pr. P i = Some pr \<and> bit (tp_affinity pr) c"
    "c < NUM_CORES \<Longrightarrow> i \<in> set (order_of A s c) \<Longrightarrow> \<exists>pr. P i = Some pr \<and> bit (tp_affinity pr) c"
  using place_member [OF assms, of i s p c] order_of_ok(1) [OF assms, of c i s] by (auto simp: place_def)

text \<open>A loop is the migration of its candidate.\<close>

lemma migrate_choice_ok:
  assumes "sched_ok w (A, P)" "c < NUM_CORES" "\<And>i. cand = Some i \<Longrightarrow> \<exists>pr. P i = Some pr \<and> bit (tp_affinity pr) c"
  shows "\<exists>w'. (case cand of None \<Rightarrow> Some w | Some i \<Rightarrow> migrate_candidate order (int c) i (the (P i)) w) = Some w' \<and>
    ops_ok (migrate_ops c cand (A, P)) (A, P) \<and> sched_ok w' (pq_specs (migrate_ops c cand (A, P)) (A, P)) \<and> same_threads w w'"
proof (cases cand)
  case None
  then show ?thesis using assms(1) by (simp add: migrate_ops_def)
next
  case (Some i)
  then obtain pr where "P i = Some pr" "bit (tp_affinity pr) c" using assms(3) by blast
  from migrate_candidate_ok [OF assms(1,2) this] show ?thesis using Some by simp
qed

lemma same_loop_step:
  assumes "sched_ok w AP" "c < NUM_CORES" "p < 64"
  shows "\<exists>w'. same_priority_loop order (int c) front next_thread (first_of (fst AP False p c)) w = Some w' \<and>
    ops_ok (migrate_ops c (same_candidate p c front next_thread AP) AP) AP \<and>
    sched_ok w' (pq_specs (migrate_ops c (same_candidate p c front next_thread AP) AP) AP) \<and> same_threads w w'"
proof -
  obtain A P where AP: "AP = (A, P)" by (cases AP)
  have s: "sched_ok w (A, P)" using assms(1) AP by simp
  have l: "same_priority_loop order (int c) front next_thread (first_of (A False p c)) w =
    (case same_candidate p c front next_thread (A, P) of None \<Rightarrow> Some w
     | Some i \<Rightarrow> migrate_candidate order (int c) i (the (P i)) w)"
    using same_priority_loop_ok [OF s assms(2,3), of "[]"] by (simp add: same_candidate_def)
  have "\<exists>pr. P i = Some pr \<and> bit (tp_affinity pr) c" if "same_candidate p c front next_thread (A, P) = Some i" for i
    using that member_affinity(1) [OF sched_okD(1) [OF s]] by (auto simp: same_candidate_def dest!: first_candidate_elem)
  from migrate_choice_ok [OF s assms(2) this] show ?thesis unfolding AP fst_conv l .
qed

lemma higher_loop_step:
  assumes "sched_ok w AP" "c < NUM_CORES"
  shows "\<exists>w'. higher_priority_loop order (int c) best (first_of (order_of (fst AP) False c)) w = Some w' \<and>
    ops_ok (migrate_ops c (higher_candidate c best AP) AP) AP \<and>
    sched_ok w' (pq_specs (migrate_ops c (higher_candidate c best AP) AP) AP) \<and> same_threads w w'"
proof -
  obtain A P where AP: "AP = (A, P)" by (cases AP)
  have s: "sched_ok w (A, P)" using assms(1) AP by simp
  have l: "higher_priority_loop order (int c) best (first_of (order_of A False c)) w =
    (case higher_candidate c best (A, P) of None \<Rightarrow> Some w
     | Some i \<Rightarrow> migrate_candidate order (int c) i (the (P i)) w)"
    using higher_priority_loop_ok [OF s assms(2), of "[]"] by (simp add: higher_candidate_def)
  have "\<exists>pr. P i = Some pr \<and> bit (tp_affinity pr) c" if "higher_candidate c best (A, P) = Some i" for i
    using that member_affinity(2) [OF sched_okD(1) [OF s] assms(2)] by (auto simp: higher_candidate_def dest!: first_candidate_elem)
  from migrate_choice_ok [OF s assms(2) this] show ?thesis unfolding AP fst_conv l .
qed

section \<open>The rotation\<close>

lemma count_rotation_simps [simp]:
  "gsc (count_rotation i n w) = gsc w" "thread_at (count_rotation i n w) = thread_at w"
  by (simp_all add: count_rotation_def split: option.split)

lemma rotate_front_ok:
  assumes "sched_ok w AP" "p < 64" "c < NUM_CORES"
  shows "\<exists>w'. rotate_front (int c) (int p) (first_of (fst AP True p c)) w =
      Some (first_of (fst (pq_specs (front_ops p c AP) AP) True p c), w') \<and>
    ops_ok (front_ops p c AP) AP \<and> sched_ok w' (pq_specs (front_ops p c AP) AP) \<and> same_threads w w'"
proof -
  obtain A P where AP: "AP = (A, P)" by (cases AP)
  have s: "sched_ok w (A, P)" using assms(1) AP by simp
  note r = sched_okD [OF s]
  show ?thesis
  proof (cases "A True p c")
    case Nil
    then show ?thesis using s by (simp add: AP rotate_front_def front_ops_def)
  next
    case (Cons i xs)
    then obtain pr where pr: "P i = Some pr" "place pr True p c" "props_ok pr"
      using place_member [OF r(1), of i True p c] by auto
    have f: "tp_priority pr = int p" "tp_active_core pr = int c" "\<not> tp_is_dummy pr" using pr(2,3) by (simp_all add: place_def props_ok_def)
    let ?op = "Move_Back i (int p) (int c)" and ?A = "\<lambda>s p c. if s \<and> place pr s p c then leave i A s p c @ [i] else A s p c"
    define A' where "A' = ?A"
    have ok: "op_ok P ?op" and sp: "pq_spec ?op (A, P) = (A', P)" using pr(1) f(2) by (simp_all add: A'_def)
    obtain q' where m: "move_to_scheduled_back i (int p) (int c) False (queue_of w) = Some (first_of (leave i A True p c @ [i]), q')"
      using move_ok(2) [OF r(1) pr(1), of "int p" "int c"] f(1,2) by auto
    have q': "rep q' A' P" using pq_step_ok [OF r(1) ok, of order] m sp by simp
    have front: "first_of (leave i A True p c @ [i]) = first_of (A' True p c)" using pr(2) by (simp add: A'_def)
    let ?w = "w\<lparr>gsc := (gsc w)\<lparr>m_priority_queue := q'\<rparr>\<rparr>"
    let ?w' = "count_rotation i (first_of (A' True p c)) ?w"
    have "rotate_front (int c) (int p) (Some i) w = Some (first_of (A' True p c), ?w')"
      by (simp add: rotate_front_def r(2) pr(1) f m front)
    moreover have "sched_ok ?w' (A', P)"
    proof (rule sched_ok_queue [OF s])
      show "core_id (thread_at ?w' a) = tp_active_core e"
        if "get_thread_by_thread_id j w = Some a" "snd (A', P) j = Some e" for j a e
        using s that by (simp add: sched_ok_def cores_agree_def)
    qed (simp_all add: q')
    moreover have "same_threads w ?w'" by (simp add: same_threads_def)
    moreover have "front_ops p c (A, P) = [?op]" using Cons by (simp add: front_ops_def)
    ultimately show ?thesis using Cons ok sp unfolding AP by simp
  qed
qed

lemma successor_elem: "successor i xs = Some j \<Longrightarrow> j \<in> set xs"
proof (induction xs)
  case (Cons x xs)
  have "successor i (x # xs) = (if x = i then first_of xs else successor i xs)" by (simp add: successor_def)
  then show ?case using Cons by (cases xs) (auto split: if_splits)
qed (simp add: successor_def)

lemma best_thread_ok:
  assumes "sched_ok w AP" "c < NUM_CORES"
  shows "best_thread (int c) current (queue_of w) = Some (best_beside c current (fst AP))"
    "best_beside c current (fst AP) = Some b \<Longrightarrow> snd AP b \<noteq> None"
proof -
  obtain A P where AP: "AP = (A, P)" by (cases AP)
  have s: "sched_ok w (A, P)" using assms(1) AP by simp
  note r = sched_okD [OF s]
  have f: "get_scheduled_front (int c) (queue_of w) = Some (first_of (order_of A True c))"
    using front_ok [OF r(1) assms(2), where s = True] by (simp add: get_scheduled_front_def sel_def)
  have member: "\<exists>pr. P i = Some pr" if "i \<in> set (order_of A True c)" for i
    using order_of_ok(1) [OF r(1) assms(2), of i True] that by auto
  have after: "get_scheduled_next (int c) i (tp_priority pr) (queue_of w) = Some (successor i (order_of A True c))"
    if "i \<in> set (order_of A True c)" "P i = Some pr" for i pr
    using next_ok [OF r(1) assms(2) that(2,1)] by (simp add: get_scheduled_next_def sel_def)
  show "best_thread (int c) current (queue_of w) = Some (best_beside c current (fst AP))"
  proof (cases "order_of A True c")
    case Nil
    then show ?thesis using f by (simp add: AP best_thread_def best_beside_def)
  next
    case (Cons i xs)
    then obtain pr where pr: "P i = Some pr" using member [of i] by auto
    show ?thesis using f Cons after [OF _ pr]
      by (cases "current = Some i") (simp_all add: AP best_thread_def best_beside_def r(2) pr eq_commute [of "Some i"])
  qed
  show "best_beside c current (fst AP) = Some b \<Longrightarrow> snd AP b \<noteq> None"
  proof -
    assume b: "best_beside c current (fst AP) = Some b"
    have "b \<in> set (order_of A True c)"
      using b by (cases "order_of A True c") (auto simp: AP best_beside_def Let_def split: if_splits dest!: successor_elem)
    then show ?thesis using member AP by auto
  qed
qed

lemma level_fronts:
  assumes "rep q A P" "c < NUM_CORES" "p < 64"
  shows "get_scheduled_front_at_priority (int c) (int p) q = Some (first_of (A True p c))"
    "get_suggested_front_at_priority (int c) (int p) q = Some (first_of (A False p c))"
    "get_suggested_front (int c) q = Some (first_of (order_of A False c))"
  using levels_available(2) [OF assms, where s = True] levels_available(2) [OF assms, where s = False]
    front_ok [OF assms(1,2), where s = False] assms(3)
  by (simp_all add: get_scheduled_front_at_priority_def get_suggested_front_at_priority_def get_suggested_front_def
      pqi_get_front_at_priority_def sel_def ix_bounds LOWEST_PRIORITY_def)

lemma rotate_ok:
  assumes "sched_ok w AP" "p < 64" "c < NUM_CORES"
  shows "\<exists>w'. rotate_scheduled_queue order (int c) (int p) current w = Some w' \<and>
    ops_ok (rotate_ops p c current AP) AP \<and> sched_ok w' (pq_specs (rotate_ops p c current AP) AP) \<and>
    same_threads w w' \<and> m_scheduler_update_needed (gsc w')"
proof -
  have fronts: "get_scheduled_front_at_priority (int c) (int p) (queue_of w) = Some (first_of (fst AP True p c))"
    "get_suggested_front_at_priority (int c) (int p) (queue_of w) = Some (first_of (fst AP False p c))"
    "get_suggested_front (int c) (queue_of w) = Some (first_of (order_of (fst AP) False c))"
    if "sched_ok w AP" for w AP
    using level_fronts [OF _ assms(3,2), of "queue_of w" "fst AP" "snd AP"] that by (simp_all add: sched_ok_def)
  let ?front = "first_of (fst AP True p c)"
  define AP1 where "AP1 = pq_specs (front_ops p c AP) AP"
  obtain w1 where w1: "rotate_front (int c) (int p) ?front w = Some (first_of (fst AP1 True p c), w1)"
    "ops_ok (front_ops p c AP) AP" "sched_ok w1 AP1" "same_threads w w1"
    using rotate_front_ok [OF assms] unfolding AP1_def by blast
  let ?ops2 = "migrate_ops c (same_candidate p c ?front (first_of (fst AP1 True p c)) AP1) AP1"
  define AP2 where "AP2 = pq_specs ?ops2 AP1"
  obtain w2 where w2: "same_priority_loop order (int c) ?front (first_of (fst AP1 True p c)) (first_of (fst AP1 False p c)) w1 = Some w2"
    "ops_ok ?ops2 AP1" "sched_ok w2 AP2" "same_threads w1 w2"
    using same_loop_step [OF w1(3) assms(3,2)] unfolding AP2_def by blast
  define bp where "bp = map_option (\<lambda>b. tp_priority (the (snd AP2 b))) (best_beside c current (fst AP2))"
  let ?ops3 = "case bp of None \<Rightarrow> [] | Some k \<Rightarrow> if int p \<le> k then migrate_ops c (higher_candidate c k AP2) AP2 else []"
  have known: "Option.bind (best_beside c current (fst AP2)) (\<lambda>i. get_thread_props i (queue_of w2)) =
      map_option (\<lambda>b. the (snd AP2 b)) (best_beside c current (fst AP2))"
    using best_thread_ok(2) [OF w2(3) assms(3)] w2(3) known_props
    by (cases "best_beside c current (fst AP2)") (auto simp: sched_ok_def)
  have "\<exists>w3. (case Option.bind (best_beside c current (fst AP2)) (\<lambda>i. get_thread_props i (queue_of w2)) of
         None \<Rightarrow> Some w2
       | Some pr \<Rightarrow> if int p \<le> tp_priority pr then do {
             s \<leftarrow> get_suggested_front (int c) (queue_of w2);
             higher_priority_loop order (int c) (tp_priority pr) s w2 } else Some w2) = Some w3 \<and>
    ops_ok ?ops3 AP2 \<and> sched_ok w3 (pq_specs ?ops3 AP2) \<and> same_threads w2 w3"
    using higher_loop_step [OF w2(3) assms(3), of order "the bp"] w2(3) fronts(3) [OF w2(3)]
    unfolding known bp_def by (cases "best_beside c current (fst AP2)") simp_all
  then obtain w3 where w3: "(case Option.bind (best_beside c current (fst AP2)) (\<lambda>i. get_thread_props i (queue_of w2)) of
         None \<Rightarrow> Some w2
       | Some pr \<Rightarrow> if int p \<le> tp_priority pr then do {
             s \<leftarrow> get_suggested_front (int c) (queue_of w2);
             higher_priority_loop order (int c) (tp_priority pr) s w2 } else Some w2) = Some w3"
    "ops_ok ?ops3 AP2" "sched_ok w3 (pq_specs ?ops3 AP2)" "same_threads w2 w3" by blast
  have ops: "rotate_ops p c current AP = front_ops p c AP @ ?ops2 @ ?ops3"
    unfolding rotate_ops_def Let_def AP1_def [symmetric] AP2_def [symmetric] bp_def
    by (cases "best_beside c current (fst AP2)") simp_all
  have "rotate_scheduled_queue order (int c) (int p) current w = Some (need_update w3)"
    using w1(1) w2(1) w3(1) fronts(1) [OF assms(1)] fronts(2) [OF w1(3)] best_thread_ok(1) [OF w2(3) assms(3)]
    by (simp add: rotate_scheduled_queue_def)
  moreover have "ops_ok (rotate_ops p c current AP) AP"
    unfolding ops ops_ok_append using w1(2) w2(2) w3(2) by (simp add: AP1_def [symmetric] AP2_def [symmetric])
  moreover have "sched_ok (need_update w3) (pq_specs (rotate_ops p c current AP) AP)"
    using w3(3) unfolding ops pq_specs_append AP1_def [symmetric] AP2_def [symmetric]
    by (simp add: sched_ok_def cores_agree_def get_thread_list_def)
  moreover have "same_threads w (need_update w3)"
    using w1(4) w2(4) w3(4) by (simp add: same_threads_def)
  ultimately show ?thesis by simp
qed

end
