(* ===== verification/GlobalSchedulerRuns.thy ===== *)
theory GlobalSchedulerRuns
  imports GlobalSchedulerRotate
begin

text \<open>
  Preemption as a run of queue operations, and the scheduler context as a state machine: whatever the
  threads do, in any order, the queue holds exactly the runnable ones.
\<close>

section \<open>Preemption\<close>

fun preempt_ops :: "nat list \<Rightarrow> nat option \<Rightarrow> lists \<times> thread_props \<Rightarrow> pq_op list" where
  "preempt_ops [] current AP = []"
| "preempt_ops (c # cs) current AP =
     (let ops = rotate_ops (nat (PREEMPTION_PRIORITIES ! c)) c current AP in ops @ preempt_ops cs current (pq_specs ops AP))"

lemma preempt_cores_ok:
  assumes "sched_ok w AP" "set cs \<subseteq> {..<NUM_CORES}"
  shows "\<exists>w'. preempt_cores order cs current w = Some w' \<and> ops_ok (preempt_ops cs current AP) AP \<and>
    sched_ok w' (pq_specs (preempt_ops cs current AP) AP) \<and> same_threads w w' \<and>
    (cs \<noteq> [] \<longrightarrow> m_scheduler_update_needed (gsc w'))"
  using assms
proof (induction cs arbitrary: w AP)
  case (Cons c cs)
  have c: "c < NUM_CORES" using Cons.prems(2) by simp
  then have "c \<in> {0, 1, 2, 3}" by (auto simp: NUM_CORES_def)
  then have p: "nat (PREEMPTION_PRIORITIES ! c) < 64" "int (nat (PREEMPTION_PRIORITIES ! c)) = PREEMPTION_PRIORITIES ! c"
    "ix (length PREEMPTION_PRIORITIES) (int c) = Some c"
    by (auto simp: PREEMPTION_PRIORITIES_def ix_def)
  let ?ops = "rotate_ops (nat (PREEMPTION_PRIORITIES ! c)) c current AP"
  obtain w1 where w1: "rotate_scheduled_queue order (int c) (PREEMPTION_PRIORITIES ! c) current w = Some w1"
    "ops_ok ?ops AP" "sched_ok w1 (pq_specs ?ops AP)" "same_threads w w1" "m_scheduler_update_needed (gsc w1)"
    using rotate_ok [OF Cons.prems(1) p(1) c, of order current] unfolding p(2) by blast
  have "set cs \<subseteq> {..<NUM_CORES}" using Cons.prems(2) by simp
  from Cons.IH [OF w1(3) this] obtain w2 where w2: "preempt_cores order cs current w1 = Some w2"
    "ops_ok (preempt_ops cs current (pq_specs ?ops AP)) (pq_specs ?ops AP)"
    "sched_ok w2 (pq_specs (preempt_ops cs current (pq_specs ?ops AP)) (pq_specs ?ops AP))" "same_threads w1 w2"
    "cs \<noteq> [] \<longrightarrow> m_scheduler_update_needed (gsc w2)" by blast
  have "m_scheduler_update_needed (gsc w2)" using w1(5) w2(1,5) by (cases cs) simp_all
  then show ?case
    using w1(1,2) w2(1-3) p(3) same_threads_trans [OF w1(4) w2(4)]
    by (simp add: Let_def ops_ok_append pq_specs_append)
qed simp

text \<open>A rotation is at most three queue operations that only move threads.\<close>

fun is_move :: "pq_op \<Rightarrow> bool" where
  "is_move (Move_Back i priority core) \<longleftrightarrow> True"
| "is_move (Change_Core core i new_core priority to_front) \<longleftrightarrow> True"
| "is_move op \<longleftrightarrow> False"

text \<open>All that is known of a thread but its active core.\<close>

definition but_core :: "thread_props \<Rightarrow> nat \<Rightarrow> ThreadProps option" where
  "but_core P i = map_option (\<lambda>pr. pr\<lparr>tp_active_core := 0\<rparr>) (P i)"

lemma rotate_ops_moves: "length (rotate_ops p c current AP) \<le> 3 \<and> list_all is_move (rotate_ops p c current AP)"
  by (auto simp: rotate_ops_def front_ops_def migrate_ops_def Let_def split: option.split)

lemma preempt_ops_moves: "length (preempt_ops cs current AP) \<le> 3 * length cs \<and> list_all is_move (preempt_ops cs current AP)"
proof (induction cs arbitrary: AP)
  case (Cons c cs)
  let ?ops = "rotate_ops (nat (PREEMPTION_PRIORITIES ! c)) c current AP"
  from rotate_ops_moves [of "nat (PREEMPTION_PRIORITIES ! c)" c current AP] Cons.IH [of "pq_specs ?ops AP"]
  show ?case by (simp add: Let_def)
qed simp

lemma moves_but_core:
  assumes "list_all is_move ops" "ops_ok ops AP"
  shows "but_core (snd (pq_specs ops AP)) = but_core (snd AP)"
  using assms
proof (induction ops arbitrary: AP)
  case (Cons op ops)
  obtain A P where AP: "AP = (A, P)" by (cases AP)
  have ok: "op_ok P op" "is_move op" using Cons.prems AP by simp_all
  then have "but_core (snd (pq_spec op (A, P))) = but_core P"
    by (cases op) (auto simp: but_core_def fun_eq_iff Let_def)
  moreover have "but_core (snd (pq_specs ops (pq_spec op AP))) = but_core (snd (pq_spec op AP))"
    by (rule Cons.IH) (use Cons.prems in simp_all)
  ultimately show ?case using AP by simp
qed simp

section \<open>The context as a state machine\<close>

text \<open>
  A configuration is the scheduler's state with the states of the threads; \<open>D\<close> are the dummy threads.
  A thread that changes its affinity stores its new core first, as the callers in k_thread.rs do.
\<close>

datatype sched_op =
    Change_State nat ThreadState ThreadState ThreadProps "nat option"
  | Change_Thread_Priority nat int int int u64 bool
  | Change_Thread_Affinity nat int u64 int u64 int
  | Rotate_Queue nat nat "nat option"
  | Preempt_Threads "nat option"
  | Wakeup_Dummies
  | Add_Thread nat nat
  | Remove_Thread nat

definition store_core :: "nat \<Rightarrow> int \<Rightarrow> SchedulerState \<Rightarrow> SchedulerState" where
  "store_core i core w = (case get_thread_by_thread_id i w of Some a \<Rightarrow> set_active_core a core w | None \<Rightarrow> w)"

fun sched_exec :: "(nat list \<Rightarrow> nat list) \<Rightarrow> sched_op \<Rightarrow> SchedulerState \<Rightarrow> SchedulerState option" where
  "sched_exec order (Change_State i old new pr thread) w =
     on_thread_state_changed order i old new (tp_priority pr) (tp_active_core pr) (tp_affinity pr) (tp_is_dummy pr)
       thread (tp_schedule_count pr) (tp_last_scheduled_tick pr) w"
| "sched_exec order (Change_Thread_Priority i old new core affinity running) w =
     on_thread_priority_changed old new core affinity running False i w"
| "sched_exec order (Change_Thread_Affinity i core affinity new_core new_affinity priority) w =
     on_thread_affinity_changed i core affinity new_core new_affinity priority False (store_core i new_core w)"
| "sched_exec order (Rotate_Queue p c current) w = rotate_scheduled_queue order (int c) (int p) current w"
| "sched_exec order (Preempt_Threads current) w = preempt_threads order current w"
| "sched_exec order Wakeup_Dummies w = Some (wakeup_waiting_dummy_threads order w)"
| "sched_exec order (Add_Thread i a) w = Some (add_thread_with_id i a w)"
| "sched_exec order (Remove_Thread i) w = Some (remove_thread i w)"

text \<open>What the callers see to: the old state is the thread's, the cached values they name are the current ones.\<close>

fun sched_guard :: "nat set \<Rightarrow> sched_op \<Rightarrow> SchedulerState \<Rightarrow> (nat \<Rightarrow> ThreadState) \<Rightarrow> bool" where
  "sched_guard D (Change_State i old new pr thread) w S \<longleftrightarrow> S i = old \<and> (tp_is_dummy pr \<longleftrightarrow> i \<in> D) \<and>
     (i \<in> D \<longrightarrow> thread \<noteq> None) \<and>
     (old \<noteq> new \<and> new = RUNNABLE \<and> i \<notin> D \<longrightarrow> props_ok pr \<and>
        (case get_thread_by_thread_id i w of None \<Rightarrow> True | Some a \<Rightarrow> core_id (thread_at w a) = tp_active_core pr))"
| "sched_guard D (Change_Thread_Priority i old new core affinity running) w S \<longleftrightarrow> S i = RUNNABLE \<and> i \<notin> D \<and>
     (case get_thread_props i (queue_of w) of None \<Rightarrow> True | Some pr \<Rightarrow> tp_priority pr = old) \<and> 0 \<le> new \<and> new \<le> LOWEST_PRIORITY"
| "sched_guard D (Change_Thread_Affinity i core affinity new_core new_affinity priority) w S \<longleftrightarrow> S i = RUNNABLE \<and> i \<notin> D \<and>
     (case get_thread_props i (queue_of w) of None \<Rightarrow> True
      | Some pr \<Rightarrow> tp_active_core pr = core \<and> tp_affinity pr = affinity \<and> tp_priority pr = priority \<and>
          props_ok (pr\<lparr>tp_active_core := new_core, tp_affinity := new_affinity\<rparr>))"
| "sched_guard D (Rotate_Queue p c current) w S \<longleftrightarrow> p < NUM_PRIORITY \<and> c < NUM_CORES"
| "sched_guard D (Preempt_Threads current) w S \<longleftrightarrow> True"
| "sched_guard D Wakeup_Dummies w S \<longleftrightarrow> True"
| "sched_guard D (Add_Thread i a) w S \<longleftrightarrow> a \<notin> set (get_thread_list w) \<and> S i \<noteq> RUNNABLE"
| "sched_guard D (Remove_Thread i) w S \<longleftrightarrow> S i \<noteq> RUNNABLE"

fun thread_states :: "sched_op \<Rightarrow> (nat \<Rightarrow> ThreadState) \<Rightarrow> nat \<Rightarrow> ThreadState" where
  "thread_states (Change_State i old new pr thread) S = S(i := new)"
| "thread_states op S = S"

inductive sched_reachable :: "(nat list \<Rightarrow> nat list) \<Rightarrow> nat set \<Rightarrow> SchedulerState \<Rightarrow> (nat \<Rightarrow> ThreadState) \<Rightarrow> bool"
  for order D where
  sched_start: "gsc w = gsc_new \<Longrightarrow> sched_reachable order D w (\<lambda>_. INITIALIZED)"
| sched_more: "sched_reachable order D w S \<Longrightarrow> sched_guard D op w S \<Longrightarrow> sched_exec order op w = Some w' \<Longrightarrow>
    sched_reachable order D w' (thread_states op S)"

text \<open>The invariant: the runnable threads that are not dummies are queued, and no other.\<close>

definition sched_inv :: "nat set \<Rightarrow> SchedulerState \<Rightarrow> (nat \<Rightarrow> ThreadState) \<Rightarrow> bool" where
  "sched_inv D w S \<longleftrightarrow> (\<exists>A P. sched_ok w (A, P) \<and> dom P = {i. S i = RUNNABLE \<and> i \<notin> D}) \<and>
     Mapping.keys (m_woken_dummy_threads (gsc w)) \<subseteq> {i \<in> D. S i = RUNNABLE}"

lemma sched_invI:
  "sched_ok w (A, P) \<Longrightarrow> dom P = {i. S i = RUNNABLE \<and> i \<notin> D} \<Longrightarrow>
     Mapping.keys (m_woken_dummy_threads (gsc w)) \<subseteq> {i \<in> D. S i = RUNNABLE} \<Longrightarrow> sched_inv D w S"
  unfolding sched_inv_def by blast

text \<open>A step that is a queue operation or two, while the threads keep their cores.\<close>

lemma with_queue_ok:
  assumes "rep (queue_of w) A P" "\<exists>q'. f (queue_of w) = Some q' \<and> rep q' A' P'"
  shows "\<exists>q'. with_queue f w = Some (w\<lparr>gsc := (gsc w)\<lparr>m_priority_queue := q'\<rparr>\<rparr>) \<and> rep q' A' P'"
  using assms(2) by (auto simp: with_queue_def)

lemma increment_count_simps [simp]:
  "gsc (increment_process_scheduled_count k w) = gsc w" "thread_at (increment_process_scheduled_count k w) = thread_at w"
  by (simp_all add: increment_process_scheduled_count_def split: option.split)

lemma dummy_map_simps [simp]:
  "queue_of (register_dummy_thread_for_wakeup i a w) = queue_of w"
  "m_thread_list (gsc (register_dummy_thread_for_wakeup i a w)) = m_thread_list (gsc w)"
  "thread_at (register_dummy_thread_for_wakeup i a w) = thread_at w"
  "queue_of (unregister_dummy_thread_for_wakeup i w) = queue_of w"
  "m_thread_list (gsc (unregister_dummy_thread_for_wakeup i w)) = m_thread_list (gsc w)"
  "thread_at (unregister_dummy_thread_for_wakeup i w) = thread_at w"
  "Mapping.keys (m_woken_dummy_threads (gsc (register_dummy_thread_for_wakeup i a w))) = insert i (Mapping.keys (m_woken_dummy_threads (gsc w)))"
  "Mapping.keys (m_woken_dummy_threads (gsc (unregister_dummy_thread_for_wakeup i w))) = Mapping.keys (m_woken_dummy_threads (gsc w)) - {i}"
  by (simp_all add: register_dummy_thread_for_wakeup_def unregister_dummy_thread_for_wakeup_def)

lemma push_and_tick:
  assumes "rep q A P" "props_ok pr"
  shows "\<exists>q1 A'. pq_push_back i (tp_priority pr) (tp_active_core pr) (tp_affinity pr) (tp_is_dummy pr) (tp_schedule_count pr) q = Some q1 \<and>
    rep (set_last_scheduled_tick i (tp_last_scheduled_tick pr) q1) A' (P(i \<mapsto> pr))"
proof -
  let ?pr = "pr\<lparr>tp_last_scheduled_tick := 0\<rparr>"
  obtain A1 where sp: "pq_spec (Push_Back i pr) (A, P) = (A1, P(i \<mapsto> ?pr))" by (simp add: requeue_def)
  obtain q1 where q1: "pq_exec id (Push_Back i pr) q = Some q1" "rep q1 A1 (P(i \<mapsto> ?pr))"
    using pq_step_ok [OF assms(1), of "Push_Back i pr" id] assms(2) sp by auto
  have "rep (set_last_scheduled_tick i (tp_last_scheduled_tick pr) q1) A1
      (P(i \<mapsto> ?pr\<lparr>tp_last_scheduled_tick := tp_last_scheduled_tick pr\<rparr>))"
    using pq_step_ok [OF q1(2), of "Set_Tick i (tp_last_scheduled_tick pr)" id] by simp
  then show ?thesis using q1(1) by auto
qed

lemma leave_runnable:
  assumes "sched_inv D w S" "S i = RUNNABLE" "new \<noteq> RUNNABLE" "tp_is_dummy pr \<longleftrightarrow> i \<in> D"
  shows "\<exists>w'. sched_exec order (Change_State i RUNNABLE new pr thread) w = Some w' \<and> sched_inv D w' (S(i := new))"
proof -
  obtain A P where AP: "sched_ok w (A, P)" "dom P = {i. S i = RUNNABLE \<and> i \<notin> D}"
    and keys: "Mapping.keys (m_woken_dummy_threads (gsc w)) \<subseteq> {i \<in> D. S i = RUNNABLE}"
    using assms(1) by (auto simp: sched_inv_def)
  note r = sched_okD(1) [OF AP(1)]
  let ?count = "case cached_count i w of Some k \<Rightarrow> Some k | None \<Rightarrow> tp_schedule_count pr"
  show ?thesis
  proof (cases "i \<in> D")
    case True
    let ?w' = "unregister_dummy_thread_for_wakeup i (need_update (increment_process_scheduled_count ?count w))"
    have "sched_ok ?w' (A, P)" by (rule sched_ok_view [OF AP(1)]) simp_all
    moreover have "dom P = {j. (S(i := new)) j = RUNNABLE \<and> j \<notin> D}" using AP(2) True by auto
    ultimately have "sched_inv D ?w' (S(i := new))" by (rule sched_invI) (use keys assms(2) in auto)
    then show ?thesis using True assms(3,4) by (auto simp: on_thread_state_changed_def with_queue_def pq_remove_def Let_def)
  next
    case False
    then obtain e where e: "P i = Some e" using AP(2) assms(2) by blast
    obtain q' where q': "pq_remove order i (tp_priority pr) (tp_active_core pr) (tp_affinity pr) False (queue_of w) = Some q'"
      "rep q' (leave i A) (P(i := None))" using pq_remove_ok [OF r e] by blast
    let ?w' = "need_update (increment_process_scheduled_count ?count (w\<lparr>gsc := (gsc w)\<lparr>m_priority_queue := q'\<rparr>\<rparr>))"
    have "sched_ok ?w' (leave i A, P(i := None))"
      by (rule sched_ok_queue [OF AP(1)]) (use q'(2) AP(1) in \<open>auto simp: sched_ok_def cores_agree_def split: if_splits\<close>)
    moreover have "dom (P(i := None)) = {j. (S(i := new)) j = RUNNABLE \<and> j \<notin> D}" using AP(2) assms(3) by auto
    ultimately have "sched_inv D ?w' (S(i := new))" by (rule sched_invI) (use keys False assms(2) in auto)
    then show ?thesis using False assms(3,4) q'(1) by (auto simp: on_thread_state_changed_def with_queue_def Let_def)
  qed
qed

lemma become_runnable:
  assumes "sched_inv D w S" "S i \<noteq> RUNNABLE" "sched_guard D (Change_State i (S i) RUNNABLE pr thread) w S"
  shows "\<exists>w'. sched_exec order (Change_State i (S i) RUNNABLE pr thread) w = Some w' \<and> sched_inv D w' (S(i := RUNNABLE))"
proof -
  obtain A P where AP: "sched_ok w (A, P)" "dom P = {i. S i = RUNNABLE \<and> i \<notin> D}"
    and keys: "Mapping.keys (m_woken_dummy_threads (gsc w)) \<subseteq> {i \<in> D. S i = RUNNABLE}"
    using assms(1) by (auto simp: sched_inv_def)
  note r = sched_okD(1) [OF AP(1)]
  let ?tick = "set_last_scheduled_tick i (tp_last_scheduled_tick pr)"
  have unknown: "P i = None" using AP(2) assms(2) by auto
  show ?thesis
  proof (cases "i \<in> D")
    case True
    then obtain a where a: "thread = Some a" "tp_is_dummy pr" using assms(3) by auto
    have q: "rep (?tick (queue_of w)) A P"
      using pq_step_ok [OF r, of "Set_Tick i (tp_last_scheduled_tick pr)" id] unknown by simp
    let ?w1 = "w\<lparr>gsc := (gsc w)\<lparr>m_priority_queue := ?tick (queue_of w)\<rparr>\<rparr>"
    let ?w' = "register_dummy_thread_for_wakeup i a (need_update (gsc_increment i ?w1))"
    have "sched_ok ?w' (A, P)"
      by (rule sched_ok_queue [OF AP(1)]) (use q AP(1) in \<open>auto simp: sched_ok_def cores_agree_def\<close>)
    moreover have "dom P = {j. (S(i := RUNNABLE)) j = RUNNABLE \<and> j \<notin> D}" using AP(2) True by auto
    ultimately have "sched_inv D ?w' (S(i := RUNNABLE))" by (rule sched_invI) (use keys True assms(2) in auto)
    then show ?thesis using a assms(2) by (auto simp: on_thread_state_changed_def with_queue_def pq_push_back_def Let_def)
  next
    case False
    have pok: "props_ok pr" and agree: "get_thread_by_thread_id i w = Some a \<Longrightarrow> core_id (thread_at w a) = tp_active_core pr" for a
      using assms(2,3) False by auto
    obtain q1 A' where q1: "pq_push_back i (tp_priority pr) (tp_active_core pr) (tp_affinity pr) (tp_is_dummy pr) (tp_schedule_count pr) (queue_of w) = Some q1"
      "rep (?tick q1) A' (P(i \<mapsto> pr))" using push_and_tick [OF r pok] by blast
    let ?w1 = "w\<lparr>gsc := (gsc w)\<lparr>m_priority_queue := ?tick q1\<rparr>\<rparr>"
    let ?w' = "need_update (gsc_increment i ?w1)"
    have "sched_ok ?w' (A', P(i \<mapsto> pr))"
      by (rule sched_ok_queue [OF AP(1)]) (use q1(2) AP(1) agree in \<open>auto simp: sched_ok_def cores_agree_def split: if_splits\<close>)
    moreover have "dom (P(i \<mapsto> pr)) = {j. (S(i := RUNNABLE)) j = RUNNABLE \<and> j \<notin> D}" using AP(2) False by auto
    ultimately have "sched_inv D ?w' (S(i := RUNNABLE))" by (rule sched_invI) (use keys False assms(2) in auto)
    then show ?thesis using q1(1) pok assms(2) by (auto simp: on_thread_state_changed_def with_queue_def Let_def props_ok_def)
  qed
qed

lemma change_state_inv:
  assumes "sched_inv D w S" "sched_guard D (Change_State i old new pr thread) w S"
  shows "\<exists>w'. sched_exec order (Change_State i old new pr thread) w = Some w' \<and> sched_inv D w' (S(i := new))"
proof -
  have S: "S i = old" and d: "tp_is_dummy pr \<longleftrightarrow> i \<in> D" using assms(2) by simp_all
  consider "old = new" | "old = RUNNABLE" "new \<noteq> RUNNABLE" | "old \<noteq> RUNNABLE" "new = RUNNABLE"
    | "old \<noteq> new" "old \<noteq> RUNNABLE" "new \<noteq> RUNNABLE" by blast
  then show ?thesis
  proof cases
    case 1
    then have "S(i := new) = S" using S by auto
    then show ?thesis using assms(1) 1 by (simp add: on_thread_state_changed_def)
  next
    case 2
    then show ?thesis using leave_runnable [OF assms(1) _ _ d] S by simp
  next
    case 3
    then show ?thesis using become_runnable [OF assms(1), of i pr thread order] assms(2) S by simp
  next
    case 4
    have "{j. (S(i := new)) j = RUNNABLE \<and> j \<notin> D} = {j. S j = RUNNABLE \<and> j \<notin> D}"
      "{j \<in> D. (S(i := new)) j = RUNNABLE} = {j \<in> D. S j = RUNNABLE}" using 4 S by auto
    then have "sched_inv D w (S(i := new))" using assms(1) unfolding sched_inv_def by simp
    then show ?thesis using 4 by (simp add: on_thread_state_changed_def)
  qed
qed

text \<open>A queue operation that keeps the set of queued threads.\<close>

lemma priority_change_inv:
  assumes "sched_inv D w S" "sched_guard D (Change_Thread_Priority i old new core affinity running) w S"
  shows "\<exists>w'. sched_exec order (Change_Thread_Priority i old new core affinity running) w = Some w' \<and> sched_inv D w' S"
proof -
  obtain A P where AP: "sched_ok w (A, P)" "dom P = {i. S i = RUNNABLE \<and> i \<notin> D}"
    and keys: "Mapping.keys (m_woken_dummy_threads (gsc w)) \<subseteq> {i \<in> D. S i = RUNNABLE}"
    using assms(1) by (auto simp: sched_inv_def)
  note r = sched_okD [OF AP(1)]
  have "i \<in> dom P" using assms(2) AP(2) by simp
  then obtain pr where known: "P i = Some pr" by blast
  with assms(2) have pr: "P i = Some pr" "tp_priority pr = old" by (simp_all add: r(2))
  let ?op = "Change_Priority old running i new core affinity" and ?pr = "pr\<lparr>tp_priority := new\<rparr>"
  have ok: "op_ok P ?op" using assms(2) pr by simp
  obtain A' where sp: "pq_spec ?op (A, P) = (A', P(i \<mapsto> ?pr))" using pr(1) by (simp add: requeue_def)
  obtain q' where q': "pq_change_priority old running i new core affinity False (queue_of w) = Some q'" "rep q' A' (P(i \<mapsto> ?pr))"
    using pq_step_ok [OF r(1) ok, of order] sp by auto
  let ?w' = "need_update (increment_process_scheduled_count (cached_count i w) (w\<lparr>gsc := (gsc w)\<lparr>m_priority_queue := q'\<rparr>\<rparr>))"
  have "sched_ok ?w' (A', P(i \<mapsto> ?pr))"
    by (rule sched_ok_queue [OF AP(1)]) (use q'(2) AP(1) pr in \<open>auto simp: sched_ok_def cores_agree_def split: if_splits\<close>)
  moreover have "dom (P(i \<mapsto> ?pr)) = {i. S i = RUNNABLE \<and> i \<notin> D}" using AP(2) pr by auto
  ultimately have "sched_inv D ?w' S" by (rule sched_invI) (use keys in simp)
  then show ?thesis using q'(1) by (auto simp: on_thread_priority_changed_def with_queue_def Let_def)
qed

lemma store_core_simps [simp]:
  "gsc (store_core i core w) = gsc w"
  by (simp add: store_core_def split: option.split)

lemma store_core_id:
  "core_id (thread_at (store_core i core w) a) = (if get_thread_by_thread_id i w = Some a then core else core_id (thread_at w a))"
  by (auto simp: store_core_def split: option.split)

lemma affinity_change_inv:
  assumes "sched_inv D w S" "sched_guard D (Change_Thread_Affinity i core affinity new_core new_affinity priority) w S"
  shows "\<exists>w'. sched_exec order (Change_Thread_Affinity i core affinity new_core new_affinity priority) w = Some w' \<and> sched_inv D w' S"
proof -
  obtain A P where AP: "sched_ok w (A, P)" "dom P = {i. S i = RUNNABLE \<and> i \<notin> D}"
    and keys: "Mapping.keys (m_woken_dummy_threads (gsc w)) \<subseteq> {i \<in> D. S i = RUNNABLE}"
    using assms(1) by (auto simp: sched_inv_def)
  note r = sched_okD [OF AP(1)]
  obtain pr where pr: "P i = Some pr" using assms(2) AP(2) by auto
  let ?op = "Change_Affinity core affinity i new_core new_affinity priority"
  let ?pr = "pr\<lparr>tp_active_core := new_core, tp_affinity := new_affinity\<rparr>"
  have ok: "op_ok P ?op" using assms(2) pr by (simp add: r(2))
  obtain A' where sp: "pq_spec ?op (A, P) = (A', P(i \<mapsto> ?pr))" using pr(1) by (simp add: requeue_def)
  obtain q' where q': "pq_change_affinity_mask core affinity i new_core new_affinity priority False (queue_of w) = Some q'"
    "rep q' A' (P(i \<mapsto> ?pr))" using pq_step_ok [OF r(1) ok, of order] sp by auto
  let ?v = "store_core i new_core w"
  let ?w' = "need_update (gsc_increment i (?v\<lparr>gsc := (gsc ?v)\<lparr>m_priority_queue := q'\<rparr>\<rparr>))"
  have "sched_ok ?w' (A', P(i \<mapsto> ?pr))"
  proof (rule sched_ok_queue [OF AP(1)])
    fix j a e assume j: "get_thread_by_thread_id j w = Some a" "snd (A', P(i \<mapsto> ?pr)) j = Some e"
    have unique: "get_thread_by_thread_id i w = Some a \<Longrightarrow> i = j"
      using AP(1) thread_id_unique j(1) by (auto simp: sched_ok_def)
    have old: "P j = Some e' \<Longrightarrow> core_id (thread_at w a) = tp_active_core e'" for e'
      using AP(1) j(1) by (simp add: sched_ok_def cores_agree_def)
    show "core_id (thread_at ?w' a) = tp_active_core e"
      using j unique old by (auto simp: store_core_id split: if_splits)
  qed (use q'(2) in simp_all)
  moreover have "dom (P(i \<mapsto> ?pr)) = {i. S i = RUNNABLE \<and> i \<notin> D}" using AP(2) pr by auto
  ultimately have "sched_inv D ?w' S" by (rule sched_invI) (use keys in simp)
  then show ?thesis using q'(1) by (auto simp: on_thread_affinity_changed_def with_queue_def Let_def)
qed

lemma but_core_dom: "but_core P = but_core P' \<Longrightarrow> dom P = dom P'"
  unfolding but_core_def fun_eq_iff by (metis (no_types) domIff map_option_is_None subsetI subset_antisym)

text \<open>Operations that only move threads within the queue.\<close>

lemma moves_inv:
  assumes "sched_ok w (A, P)" "dom P = {i. S i = RUNNABLE \<and> i \<notin> D}" "sched_inv D w S"
    "list_all is_move ops" "ops_ok ops (A, P)" "sched_ok w' (pq_specs ops (A, P))" "same_threads w w'"
  shows "sched_inv D w' S"
proof -
  have "dom (snd (pq_specs ops (A, P))) = {i. S i = RUNNABLE \<and> i \<notin> D}"
    using but_core_dom [OF moves_but_core [OF assms(4,5)]] assms(2) by simp
  then show ?thesis
    using assms(3,6,7) by (intro sched_invI [of _ "fst (pq_specs ops (A, P))" "snd (pq_specs ops (A, P))"])
      (simp_all add: sched_inv_def same_threads_def)
qed

lemma rotation_inv:
  assumes "sched_inv D w S"
  shows "p < 64 \<Longrightarrow> c < NUM_CORES \<Longrightarrow> \<exists>w'. rotate_scheduled_queue order (int c) (int p) current w = Some w' \<and> sched_inv D w' S"
    "\<exists>w'. preempt_threads order current w = Some w' \<and> sched_inv D w' S"
proof -
  obtain A P where AP: "sched_ok w (A, P)" "dom P = {i. S i = RUNNABLE \<and> i \<notin> D}"
    using assms by (auto simp: sched_inv_def)
  show "\<exists>w'. rotate_scheduled_queue order (int c) (int p) current w = Some w' \<and> sched_inv D w' S" if "p < 64" "c < NUM_CORES"
    using rotate_ok [OF AP(1) that, of order current] rotate_ops_moves moves_inv [OF AP assms] by blast
  have "set [0..<NUM_CORES] \<subseteq> {..<NUM_CORES}" by auto
  from preempt_cores_ok [OF AP(1) this, of order current]
  show "\<exists>w'. preempt_threads order current w = Some w' \<and> sched_inv D w' S"
    using preempt_ops_moves moves_inv [OF AP assms] unfolding preempt_threads_def by blast
qed

lemma find_in_append: "find Q (xs @ ys) = (case find Q xs of None \<Rightarrow> find Q ys | Some x \<Rightarrow> Some x)"
  by (induction xs) simp_all

lemma find_filter: "(\<And>x. Q x \<Longrightarrow> R x) \<Longrightarrow> find Q (filter R xs) = find Q xs"
  by (induction xs) auto

lemma thread_list_inv:
  assumes "sched_inv D w S" "S i \<noteq> RUNNABLE"
  shows "a \<notin> set (get_thread_list w) \<Longrightarrow> sched_inv D (add_thread_with_id i a w) S" "sched_inv D (remove_thread i w) S"
proof -
  obtain A P where AP: "sched_ok w (A, P)" "dom P = {i. S i = RUNNABLE \<and> i \<notin> D}"
    and keys: "Mapping.keys (m_woken_dummy_threads (gsc w)) \<subseteq> {i \<in> D. S i = RUNNABLE}"
    using assms(1) by (auto simp: sched_inv_def)
  have unknown: "P i = None" using AP(2) assms(2) by auto
  have w: "rep (queue_of w) A P" "distinct (get_thread_list w)"
    "\<And>j b e. get_thread_by_thread_id j w = Some b \<Longrightarrow> P j = Some e \<Longrightarrow> core_id (thread_at w b) = tp_active_core e"
    using AP(1) by (simp_all add: sched_ok_def cores_agree_def)
  show "sched_inv D (add_thread_with_id i a w) S" if "a \<notin> set (get_thread_list w)"
  proof -
    have "get_thread_by_thread_id j (add_thread_with_id i a w) =
        (case get_thread_by_thread_id j w of None \<Rightarrow> if j = i then Some a else None | Some b \<Rightarrow> Some b)" for j
      by (simp add: get_thread_by_thread_id_def add_thread_with_id_def find_in_append split: option.split)
    then have "sched_ok (add_thread_with_id i a w) (A, P)"
      using w unknown that by (auto simp: sched_ok_def cores_agree_def get_thread_list_def add_thread_with_id_def split: option.splits if_splits)
    then show ?thesis by (rule sched_invI) (use AP(2) keys in \<open>simp_all add: add_thread_with_id_def\<close>)
  qed
  have found: "get_thread_by_thread_id j (remove_thread i w) = get_thread_by_thread_id j w" if "j \<noteq> i" for j
  proof -
    have "find (\<lambda>(k, a). k = j) (filter (\<lambda>(k, a). k \<noteq> i) (m_thread_list (gsc w))) = find (\<lambda>(k, a). k = j) (m_thread_list (gsc w))"
      by (rule find_filter) (use that in auto)
    then show ?thesis by (simp add: get_thread_by_thread_id_def remove_thread_def)
  qed
  have "core_id (thread_at (remove_thread i w) b) = tp_active_core e"
    if "get_thread_by_thread_id j (remove_thread i w) = Some b" "P j = Some e" for j b e
    using that found [of j] w(3) unknown by (cases "j = i") (simp_all add: remove_thread_def)
  moreover have "distinct (get_thread_list (remove_thread i w))"
    using w(2) by (simp add: get_thread_list_def remove_thread_def distinct_map_filter)
  ultimately have "sched_ok (remove_thread i w) (A, P)"
    using w(1) by (simp add: sched_ok_def cores_agree_def) (simp add: remove_thread_def)
  then show "sched_inv D (remove_thread i w) S"
    by (rule sched_invI) (use AP(2) keys in \<open>simp_all add: remove_thread_def\<close>)
qed

lemma sched_step_inv:
  assumes "sched_inv D w S" "sched_guard D op w S"
  shows "\<exists>w'. sched_exec order op w = Some w' \<and> sched_inv D w' (thread_states op S)"
proof (cases op)
  case (Change_State i old new pr thread)
  then show ?thesis
    using change_state_inv [OF assms(1) assms(2) [unfolded Change_State], of order] by (simp del: sched_exec.simps sched_guard.simps)
next
  case (Change_Thread_Priority i old new core affinity running)
  then show ?thesis using priority_change_inv [OF assms(1)] assms(2) by simp
next
  case (Change_Thread_Affinity i core affinity new_core new_affinity priority)
  then show ?thesis using affinity_change_inv [OF assms(1)] assms(2) by simp
next
  case (Rotate_Queue p c current)
  then show ?thesis using rotation_inv(1) [OF assms(1)] assms(2) by (simp add: NUM_PRIORITY_def)
next
  case (Preempt_Threads current)
  then show ?thesis using rotation_inv(2) [OF assms(1)] by simp
next
  case Wakeup_Dummies
  obtain A P where AP: "sched_ok w (A, P)" "dom P = {i. S i = RUNNABLE \<and> i \<notin> D}" using assms(1) by (auto simp: sched_inv_def)
  have "sched_ok (wakeup_waiting_dummy_threads order w) (A, P)" by (rule sched_ok_view [OF AP(1)]) (simp_all add: wakeup_simps)
  then have "sched_inv D (wakeup_waiting_dummy_threads order w) S"
    by (rule sched_invI) (use AP(2) in \<open>simp_all add: wakeup_simps\<close>)
  then show ?thesis using Wakeup_Dummies by simp
next
  case (Add_Thread i a)
  then show ?thesis using thread_list_inv(1) [OF assms(1)] assms(2) by simp
next
  case (Remove_Thread i)
  then show ?thesis using thread_list_inv(2) [OF assms(1)] assms(2) by simp
qed

lemma sched_start_inv:
  assumes "gsc w = gsc_new"
  shows "sched_inv D w (\<lambda>_. INITIALIZED)"
proof (rule sched_invI)
  show "sched_ok w (fst no_threads, snd no_threads)"
    using rep_new assms by (simp add: sched_ok_def cores_agree_def gsc_new_def get_thread_by_thread_id_def get_thread_list_def)
qed (simp_all add: no_threads_def INITIALIZED_def RUNNABLE_def assms gsc_new_def)

lemma sched_reachable_inv: "sched_reachable order D w S \<Longrightarrow> sched_inv D w S"
proof (induction rule: sched_reachable.induct)
  case (sched_start w)
  then show ?case by (rule sched_start_inv)
next
  case (sched_more w S op w')
  from sched_step_inv [OF sched_more.IH sched_more.hyps(2), of order] show ?case using sched_more.hyps(3) by simp
qed

lemma rotated_level:
  assumes "rep q A P"
  shows "fst (pq_specs (front_ops p c (A, P)) (A, P)) True p c = rotate1 (A True p c)"
proof (cases "A True p c")
  case (Cons i xs)
  then obtain pr where pr: "P i = Some pr" "place pr True p c" using place_member [OF assms, of i True p c] by auto
  have "props_ok pr" using assms pr(1) by (simp add: rep_def)
  then have "p < 64 \<and> c < NUM_CORES" using pr(2) by (rule place_bounds)
  then have "distinct (A True p c)"
    using assms shapeD(1) [of q A p c True] by (simp add: rep_def list_ok_def)
  then have "filter (\<lambda>j. j \<noteq> i) xs = xs" using Cons by (auto intro: filter_True)
  then show ?thesis using Cons pr by (simp add: front_ops_def leave_def)
qed (simp add: front_ops_def)

section \<open>Properties\<close>

text \<open>
  C26: The rotation of the level of priority \<open>p\<close> on the core \<open>c\<close> ends without a panic, asks for a
  scheduler update, and is a run of at most three queue operations: the front of the level goes to its
  back, the first suggested thread of the level that its own core can spare moves to the front of the
  core unless the next thread has waited longer, and then the first suggested thread with a better
  priority than the best one beside the current thread. The cores of the threads follow the queue.
\<close>

lemma rotate_scheduled_queue_exact:
  assumes "sched_ok w (A, P)" "p < 64" "c < NUM_CORES"
  shows "length (rotate_ops p c current (A, P)) \<le> 3 \<and>
    fst (pq_specs (front_ops p c (A, P)) (A, P)) True p c = rotate1 (A True p c) \<and>
    (\<exists>w'. rotate_scheduled_queue order (int c) (int p) current w = Some w' \<and>
      sched_ok w' (pq_specs (rotate_ops p c current (A, P)) (A, P)) \<and> m_scheduler_update_needed (gsc w') \<and>
      m_thread_list (gsc w') = m_thread_list (gsc w))"
proof -
  have "fst (pq_specs (front_ops p c (A, P)) (A, P)) True p c = rotate1 (A True p c)"
    by (rule rotated_level [OF sched_okD(1) [OF assms(1)]])
  moreover have "\<exists>w'. rotate_scheduled_queue order (int c) (int p) current w = Some w' \<and>
      sched_ok w' (pq_specs (rotate_ops p c current (A, P)) (A, P)) \<and> m_scheduler_update_needed (gsc w') \<and>
      m_thread_list (gsc w') = m_thread_list (gsc w)"
    using rotate_ok [OF assms, of order current] unfolding same_threads_def by blast
  ultimately show ?thesis using rotate_ops_moves by blast
qed

text \<open>
  C27: A preemption ends for every queue: the loops over the suggested threads of the four cores
  terminate, no step panics, and all it changes of the threads is the core they are active on, with at
  most twelve moves of queued threads, which leave the queue that of the specification.
\<close>

lemma preempt_threads_terminates:
  assumes "sched_ok w (A, P)"
  shows "\<exists>w' ops. preempt_threads order current w = Some w' \<and> sched_ok w' (pq_specs ops (A, P)) \<and>
    length ops \<le> 12 \<and> list_all is_move ops \<and> ops_ok ops (A, P) \<and>
    but_core (snd (pq_specs ops (A, P))) = but_core P \<and> m_scheduler_update_needed (gsc w')"
proof -
  let ?cs = "[0..<NUM_CORES]" and ?ops = "preempt_ops [0..<NUM_CORES] current (A, P)"
  have cs: "set ?cs \<subseteq> {..<NUM_CORES}" "?cs \<noteq> []" "length ?cs = 4" by (auto simp: NUM_CORES_def)
  obtain w' where "preempt_cores order ?cs current w = Some w'" "ops_ok ?ops (A, P)"
    "sched_ok w' (pq_specs ?ops (A, P))" "m_scheduler_update_needed (gsc w')"
    using preempt_cores_ok [OF assms cs(1), of order current] cs(2) by blast
  moreover have "length ?ops \<le> 12" "list_all is_move ?ops"
    using preempt_ops_moves [of ?cs current "(A, P)"] cs(3) by simp_all
  moreover have "but_core (snd (pq_specs ?ops (A, P))) = but_core P"
    using moves_but_core [of ?ops "(A, P)"] calculation(2,6) by simp
  ultimately show ?thesis unfolding preempt_threads_def by blast
qed

text \<open>
  C28: The queue and the threads never disagree: after any sequence of state, priority and affinity
  changes, rotations, preemptions, wake-ups and changes of the thread list, the queue holds exactly the
  threads that are runnable and not dummies, it is well-formed, every listed thread is on the core it is
  queued for, only runnable dummies wait for their wake-up, and the next operation does not panic.
\<close>

lemma runnable_threads_are_queued:
  assumes "sched_reachable order D w S"
  shows "(\<exists>A P. rep (queue_of w) A P \<and> cores_agree w P \<and> dom P = {i. S i = RUNNABLE \<and> i \<notin> D}) \<and>
    Mapping.keys (m_woken_dummy_threads (gsc w)) \<subseteq> {i \<in> D. S i = RUNNABLE} \<and>
    (\<forall>op. sched_guard D op w S \<longrightarrow> (\<exists>w'. sched_exec order op w = Some w'))"
proof -
  have inv: "sched_inv D w S" by (rule sched_reachable_inv [OF assms])
  then obtain A P where "sched_ok w (A, P)" "dom P = {i. S i = RUNNABLE \<and> i \<notin> D}" by (auto simp: sched_inv_def)
  moreover have "\<forall>op. sched_guard D op w S \<longrightarrow> (\<exists>w'. sched_exec order op w = Some w')"
    using sched_step_inv [OF inv] by blast
  ultimately show ?thesis using inv by (auto simp: sched_inv_def sched_ok_def)
qed

text \<open>Two threads take turns on core 0, while core 1 can spare the one behind its front.\<close>

definition turn_ops :: "pq_op list" where
  "turn_ops = [Push_Back 100 (example_thread 59 0 1), Push_Back 101 (example_thread 59 0 1),
     Push_Back 200 (example_thread 10 1 2), Push_Back 201 (example_thread 59 1 3)]"

definition with_turns :: "KPriorityQueue \<Rightarrow> SchedulerState" where
  "with_turns q = \<lparr>gsc = gsc_new\<lparr>m_priority_queue := q\<rparr>, thread_at = (\<lambda>_. \<lparr>core_id = 0, dummy_thread_wait = False,
       thread_last_tick = 0, num_kernel_waiters = 0, thread_parent = None, raw_state = RUNNABLE, is_dummy_thread = False\<rparr>),
     schedule_count = (\<lambda>_. 0)\<rparr>"

lemma turn_bits [simp]: "bit (1 :: u64) 0" "bit (2 :: u64) (Suc 0)" "bit (3 :: u64) (Suc 0)" "bit (3 :: u64) 0"
  by simp_all

lemma turns_ok: "\<exists>q. pq_run rev turn_ops pq_new = Some q \<and> sched_ok (with_turns q) (pq_specs turn_ops no_threads)"
proof -
  have "ops_ok turn_ops no_threads"
    by (simp add: turn_ops_def example_thread_def no_threads_def props_ok_def requeue_def LOWEST_PRIORITY_def NUM_CORES_def)
  from pq_run_ok [OF rep_new this, of rev] show ?thesis
    by (auto simp: sched_ok_def cores_agree_def with_turns_def gsc_new_def get_thread_by_thread_id_def get_thread_list_def)
qed

lemma turn_rotation:
  "rotate_ops 59 0 None (pq_specs turn_ops no_threads) = [Move_Back 100 59 0, Change_Core 1 201 0 59 True]"
  "fst (pq_specs [Move_Back 100 59 0, Change_Core 1 201 0 59 True] (pq_specs turn_ops no_threads)) True 59 0 = [201, 101, 100]"
  by code_simp+

lemma rotate_scheduled_queue_exact_witness:
  "\<exists>q w'. pq_run rev turn_ops pq_new = Some q \<and> rotate_scheduled_queue rev 0 59 None (with_turns q) = Some w' \<and>
    get_scheduled_front_at_priority 0 59 (queue_of w') = Some (Some 201)"
proof -
  obtain q where q: "pq_run rev turn_ops pq_new = Some q" "sched_ok (with_turns q) (pq_specs turn_ops no_threads)"
    using turns_ok by blast
  obtain A P where AP: "pq_specs turn_ops no_threads = (A, P)" by (cases "pq_specs turn_ops no_threads")
  have c: "(59 :: nat) < 64" "(0 :: nat) < NUM_CORES" by (simp_all add: NUM_CORES_def)
  from rotate_scheduled_queue_exact [OF q(2) [unfolded AP] c, of None rev]
  obtain w' where w': "rotate_scheduled_queue rev 0 59 None (with_turns q) = Some w'"
    "sched_ok w' (pq_specs (rotate_ops 59 0 None (A, P)) (A, P))" by auto
  let ?AP = "pq_specs [Move_Back 100 59 0, Change_Core 1 201 0 59 True] (A, P)"
  have "rep (queue_of w') (fst ?AP) (snd ?AP)" using w'(2) unfolding turn_rotation(1) [unfolded AP] sched_ok_def by blast
  from level_fronts(1) [OF this c(2,1)] have "get_scheduled_front_at_priority 0 59 (queue_of w') = Some (Some 201)"
    unfolding turn_rotation(2) [unfolded AP] by simp
  then show ?thesis using q(1) w'(1) by blast
qed

lemma preempt_threads_terminates_witness:
  "\<exists>q w'. pq_run rev turn_ops pq_new = Some q \<and> preempt_threads rev None (with_turns q) = Some w' \<and>
    m_scheduler_update_needed (gsc w')"
proof -
  obtain q where q: "pq_run rev turn_ops pq_new = Some q" "sched_ok (with_turns q) (pq_specs turn_ops no_threads)"
    using turns_ok by blast
  obtain A P where AP: "pq_specs turn_ops no_threads = (A, P)" by (cases "pq_specs turn_ops no_threads")
  from preempt_threads_terminates [OF q(2) [unfolded AP], of rev None] show ?thesis using q(1) by blast
qed

text \<open>A thread is listed and becomes runnable.\<close>

lemma runnable_threads_are_queued_witness:
  "\<exists>w A P. sched_reachable rev {} w ((\<lambda>_. INITIALIZED)(100 := RUNNABLE)) \<and> rep (queue_of w) A P \<and> dom P = {100}"
proof -
  let ?pr = "example_thread 44 0 1" and ?S = "(\<lambda>_. INITIALIZED) :: nat \<Rightarrow> ThreadState"
  define w0 where "w0 = with_turns pq_new"
  have "gsc w0 = gsc_new" by (simp add: w0_def with_turns_def gsc_new_def)
  then have s0: "sched_reachable rev {} w0 ?S" by (rule sched_start)
  define w1 where "w1 = add_thread_with_id 100 7 w0"
  have g: "sched_guard {} (Add_Thread 100 7) w0 ?S"
    by (simp add: w0_def with_turns_def gsc_new_def get_thread_list_def INITIALIZED_def RUNNABLE_def)
  have s1: "sched_reachable rev {} w1 ?S" using sched_more [OF s0 g, of w1] by (simp add: w1_def)
  let ?op = "Change_State 100 INITIALIZED RUNNABLE ?pr None"
  have g1: "sched_guard {} ?op w1 ?S"
    by (simp add: w1_def w0_def add_thread_with_id_def with_turns_def gsc_new_def get_thread_by_thread_id_def
        example_thread_def props_ok_def LOWEST_PRIORITY_def NUM_CORES_def)
  obtain w2 where "sched_exec rev ?op w1 = Some w2" using sched_step_inv [OF sched_reachable_inv [OF s1] g1] by blast
  from sched_more [OF s1 g1 this] have s2: "sched_reachable rev {} w2 (?S(100 := RUNNABLE))" by simp
  have "{i. (?S(100 := RUNNABLE)) i = RUNNABLE \<and> i \<notin> {}} = {100}" by (auto simp: INITIALIZED_def RUNNABLE_def)
  with runnable_threads_are_queued [OF s2] s2 show ?thesis by auto
qed

end
