(* ===== verification/GlobalSchedulerUpdate.thy ===== *)
theory GlobalSchedulerUpdate
  imports GlobalSchedulerRotate
begin

text \<open>
  The choice of the next thread of every core: \<open>update_highest_priority_threads_impl\<close> of k_scheduler.rs
  and what it calls. Beside the scheduler state there are the schedulers of the cores, the processes and
  the clock, which is a sequence of readings. A lock that is only tried is taken or not by the
  parameter \<open>free\<close>; the scheduler lock must be held, else the call panics.
\<close>

record KScheduler =
  sched_core_id :: int
  highest_priority_thread_id :: "nat option"
  needs_scheduling :: bool
  should_count_idle :: bool
  idle_count :: u64
  has_core_timing :: bool

record KProcess =
  pinned_threads :: "nat \<Rightarrow> nat option"
  running_threads :: "nat \<Rightarrow> nat option"
  running_thread_idle_counts :: "nat \<Rightarrow> u64"
  running_thread_switch_counts :: "nat \<Rightarrow> u64"

record UpdateState =
  world :: SchedulerState
  schedulers :: "KScheduler list"
  processes :: "nat \<Rightarrow> KProcess"
  clock :: "nat \<Rightarrow> int"
  readings :: nat

definition on_world :: "(SchedulerState \<Rightarrow> SchedulerState) \<Rightarrow> UpdateState \<Rightarrow> UpdateState" where
  "on_world f u = u\<lparr>world := f (world u)\<rparr>"

definition on_scheduler :: "nat \<Rightarrow> (KScheduler \<Rightarrow> KScheduler) \<Rightarrow> UpdateState \<Rightarrow> UpdateState" where
  "on_scheduler k f u = u\<lparr>schedulers := (schedulers u)[k := f (schedulers u ! k)]\<rparr>"

definition get_pinned_thread :: "int \<Rightarrow> KProcess \<Rightarrow> nat option option" where
  "get_pinned_thread core p = do { c \<leftarrow> ix NUM_CORES core; Some (pinned_threads p c) }"

definition set_running_thread :: "int \<Rightarrow> nat \<Rightarrow> u64 \<Rightarrow> u64 \<Rightarrow> KProcess \<Rightarrow> KProcess option" where
  "set_running_thread core i idle switch p = do {
     c \<leftarrow> ix NUM_CORES core;
     Some (p\<lparr>running_threads := (running_threads p)(c := Some i),
       running_thread_idle_counts := (running_thread_idle_counts p)(c := idle),
       running_thread_switch_counts := (running_thread_switch_counts p)(c := switch)\<rparr>) }"

definition set_thread_tick :: "nat \<Rightarrow> int \<Rightarrow> SchedulerState \<Rightarrow> SchedulerState" where
  "set_thread_tick a tick w = w\<lparr>thread_at := (thread_at w)(a := (thread_at w a)\<lparr>thread_last_tick := tick\<rparr>)\<rparr>"

definition request_dummy_thread_wait :: "nat \<Rightarrow> SchedulerState \<Rightarrow> SchedulerState" where
  "request_dummy_thread_wait a w = w\<lparr>thread_at := (thread_at w)(a := (thread_at w a)\<lparr>dummy_thread_wait := False\<rparr>)\<rparr>"

text \<open>The thread that stops being the highest one: it is counted, and the time is noted in queue and thread.\<close>

definition set_tick :: "nat \<Rightarrow> int \<Rightarrow> SchedulerState \<Rightarrow> SchedulerState" where
  "set_tick i tick w =
     (let w = w\<lparr>gsc := (gsc w)\<lparr>m_priority_queue := set_last_scheduled_tick i tick (queue_of w)\<rparr>\<rparr>
      in case get_thread_by_thread_id i w of Some a \<Rightarrow> set_thread_tick a tick w | None \<Rightarrow> w)"

definition retire_thread :: "nat \<Rightarrow> nat \<Rightarrow> UpdateState \<Rightarrow> UpdateState" where
  "retire_thread k i u =
     (let (tick, u) = (if has_core_timing (schedulers u ! k) then (clock u (readings u), u\<lparr>readings := readings u + 1\<rparr>) else (0, u))
      in on_world (\<lambda>w. set_tick i tick (gsc_increment i w)) u)"

text \<open>With \<open>should_count_idle\<close> the process of the new thread notes it, or the idle core is counted.\<close>

definition count_idle :: "nat \<Rightarrow> nat option \<Rightarrow> UpdateState \<Rightarrow> UpdateState option" where
  "count_idle k highest u =
     (let s = schedulers u ! k in
      if should_count_idle s then
        (case highest of
           None \<Rightarrow> Some (on_scheduler k (\<lambda>s. s\<lparr>idle_count := idle_count s + 1\<rparr>) u)
         | Some h \<Rightarrow> (case Option.bind (get_thread_by_thread_id h (world u)) (\<lambda>a. thread_parent (thread_at (world u) a)) of
               None \<Rightarrow> Some u
             | Some p \<Rightarrow> do {
                 proc \<leftarrow> set_running_thread (sched_core_id s) h (idle_count s) 0 (processes u p);
                 Some (u\<lparr>processes := (processes u)(p := proc)\<rparr>) }))
      else Some u)"

definition update_highest_priority_thread :: "nat \<Rightarrow> nat option \<Rightarrow> UpdateState \<Rightarrow> (u64 \<times> UpdateState) option" where
  "update_highest_priority_thread k highest u =
     (let prev = highest_priority_thread_id (schedulers u ! k) in
      if prev \<noteq> highest then do {
        let u = (case prev of None \<Rightarrow> u | Some i \<Rightarrow> retire_thread k i u);
        u \<leftarrow> count_idle k highest u;
        let u = on_scheduler k (\<lambda>s. s\<lparr>highest_priority_thread_id := highest, needs_scheduling := True\<rparr>) u;
        Some (shl 1 (nat (sched_core_id (schedulers u ! k) mod 64)), u) }
      else Some (0, u))"

definition pinned_for :: "int \<Rightarrow> nat \<Rightarrow> UpdateState \<Rightarrow> nat option option" where
  "pinned_for core i u = (case get_thread_by_thread_id i (world u) of
      None \<Rightarrow> Some None
    | Some a \<Rightarrow>
        if num_kernel_waiters (thread_at (world u) a) \<noteq> 0 then Some None
        else (case thread_parent (thread_at (world u) a) of
            None \<Rightarrow> Some None
          | Some p \<Rightarrow> get_pinned_thread core (processes u p)))"

definition scheduled_front_with_pinned_thread :: "int \<Rightarrow> UpdateState \<Rightarrow> nat option option" where
  "scheduled_front_with_pinned_thread core u = do {
     front \<leftarrow> get_scheduled_front core (queue_of (world u));
     case front of
       None \<Rightarrow> Some None
     | Some i \<Rightarrow> do {
         pinned \<leftarrow> pinned_for core i u;
         Some (case pinned of
             None \<Rightarrow> front
           | Some p \<Rightarrow>
               if p \<noteq> i then
                 (case get_thread_by_thread_id p (world u) of
                    None \<Rightarrow> None
                  | Some a \<Rightarrow> if raw_state (thread_at (world u) a) = RUNNABLE then Some p else None)
               else front) } }"

text \<open>The top thread of each core, the cores that need scheduling, and the rest of the state.\<close>

type_synonym choice = "(nat \<Rightarrow> nat option) \<times> u64 \<times> UpdateState"

text \<open>\<open>if core_id < schedulers.len()\<close>: the scheduler of the core takes the new top thread.\<close>

definition note_top :: "nat \<Rightarrow> choice \<Rightarrow> choice option" where
  "note_top k st = (case st of (tops, cores, u) \<Rightarrow>
     if k < length (schedulers u) then do {
       (changed, u) \<leftarrow> update_highest_priority_thread k (tops k) u;
       Some (tops, cores OR changed, u) }
     else Some (tops, cores, u))"

fun select_tops :: "nat list \<Rightarrow> u64 \<Rightarrow> choice \<Rightarrow> (u64 \<times> choice) option" where
  "select_tops [] idle st = Some (idle, st)"
| "select_tops (k # ks) idle (tops, cores, u) = do {
     raw \<leftarrow> get_scheduled_front (int k) (queue_of (world u));
     front \<leftarrow> scheduled_front_with_pinned_thread (int k) u;
     st \<leftarrow> note_top k (tops(k := front), cores, u);
     select_tops ks (if raw = None then idle OR shl 1 k else idle) st }"

text \<open>The thread \<open>i\<close> moves to the idle core \<open>k\<close> and becomes its top thread.\<close>

definition take_core :: "(nat list \<Rightarrow> nat list) \<Rightarrow> nat \<Rightarrow> nat \<Rightarrow> nat \<Rightarrow> ThreadProps \<Rightarrow> int \<Rightarrow> choice \<Rightarrow> choice option" where
  "take_core order k i a pr prev_core st = (case st of (tops, cores, u) \<Rightarrow> do {
     w \<leftarrow> with_queue (pq_change_core order prev_core i (int k) (tp_priority pr) (tp_is_dummy pr) False)
       (set_active_core a (int k) (world u));
     note_top k (tops(k := Some i), cores, u\<lparr>world := w\<rparr>) })"

definition top_of :: "int \<Rightarrow> (nat \<Rightarrow> nat option) \<Rightarrow> nat option option" where
  "top_of core tops = (if 0 \<le> core then do { k \<leftarrow> ix NUM_CORES core; Some (tops k) } else Some None)"

text \<open>\<open>loop\<close>: the first suggested thread that is not the top of its own core decides; 0 if there is none.\<close>

partial_function (option) suggested_loop ::
  "(nat list \<Rightarrow> nat list) \<Rightarrow> (nat \<Rightarrow> bool) \<Rightarrow> nat \<Rightarrow> nat \<Rightarrow> int list \<Rightarrow> choice \<Rightarrow> (nat \<times> int list \<times> choice) option" where
  "suggested_loop order free k i cands st = (case st of (tops, cores, u) \<Rightarrow>
     (case get_thread_props i (queue_of (world u)) of
       None \<Rightarrow> Some (i, cands, st)
     | Some pr \<Rightarrow> do {
         t \<leftarrow> top_of (tp_active_core pr) tops;
         if t \<noteq> Some i then
           if \<not> migration_allowed t (queue_of (world u)) then Some (i, cands, st)
           else (case get_thread_by_thread_id i (world u) of
               None \<Rightarrow> Some (i, cands, st)
             | Some a \<Rightarrow>
                 if free a then do { st \<leftarrow> take_core order k i a pr (tp_active_core pr) st; Some (i, cands, st) }
                 else Some (i, cands, st))
         else do {
           let cands = (if length cands < NUM_CORES then cands @ [tp_active_core pr] else cands);
           n \<leftarrow> get_suggested_next (int k) i (tp_priority pr) (queue_of (world u));
           (case n of
              None \<Rightarrow> Some (0, cands, st)
            | Some j \<Rightarrow> suggested_loop order free k j cands st) } }))"

text \<open>The candidate cores in turn: one that has a second thread gives its top thread away.\<close>

fun candidate_loop :: "(nat list \<Rightarrow> nat list) \<Rightarrow> (nat \<Rightarrow> bool) \<Rightarrow> nat \<Rightarrow> int list \<Rightarrow> choice \<Rightarrow> choice option" where
  "candidate_loop order free k [] st = Some st"
| "candidate_loop order free k (core # cands) (tops, cores, u) =
     (if core < 0 then candidate_loop order free k cands (tops, cores, u)
      else do {
        t \<leftarrow> top_of core tops;
        case t of
          None \<Rightarrow> candidate_loop order free k cands (tops, cores, u)
        | Some i \<Rightarrow> (case get_thread_props i (queue_of (world u)) of
              None \<Rightarrow> candidate_loop order free k cands (tops, cores, u)
            | Some pr \<Rightarrow> do {
                n \<leftarrow> get_scheduled_next core i (tp_priority pr) (queue_of (world u));
                case n of
                  None \<Rightarrow> candidate_loop order free k cands (tops, cores, u)
                | Some j \<Rightarrow> do {
                    st \<leftarrow> note_top (nat core) (tops(nat core := Some j), cores, u);
                    case get_thread_by_thread_id i (world (snd (snd st))) of
                      None \<Rightarrow> candidate_loop order free k cands st
                    | Some a \<Rightarrow>
                        if free a then take_core order k i a pr core st
                        else candidate_loop order free k cands st } }) })"

definition fill_core :: "(nat list \<Rightarrow> nat list) \<Rightarrow> (nat \<Rightarrow> bool) \<Rightarrow> int \<Rightarrow> choice \<Rightarrow> choice option" where
  "fill_core order free core st = (case st of (tops, cores, u) \<Rightarrow> do {
     s \<leftarrow> get_suggested_front core (queue_of (world u));
     case s of
       None \<Rightarrow> Some st
     | Some i \<Rightarrow> do {
         (last_id, cands, st) \<leftarrow> suggested_loop order free (nat core) i [] st;
         if last_id = 0 then candidate_loop order free (nat core) cands st else Some st } })"

text \<open>The current thread of the host, if any: a dummy thread that is not runnable waits.\<close>

definition park_current :: "nat option \<Rightarrow> SchedulerState \<Rightarrow> SchedulerState" where
  "park_current cur w = (case cur of
      None \<Rightarrow> w
    | Some a \<Rightarrow> if is_dummy_thread (thread_at w a) \<and> raw_state (thread_at w a) AND 15 \<noteq> RUNNABLE
        then request_dummy_thread_wait a w else w)"

definition update_highest_priority_threads_impl ::
  "(nat list \<Rightarrow> nat list) \<Rightarrow> (nat \<Rightarrow> bool) \<Rightarrow> bool \<Rightarrow> nat option \<Rightarrow> UpdateState \<Rightarrow> (u64 \<times> UpdateState) option" where
  "update_highest_priority_threads_impl order free locked cur u = do {
     guard_panic locked;
     let u = on_world (\<lambda>w. w\<lparr>gsc := (gsc w)\<lparr>m_scheduler_update_needed := False\<rparr>\<rparr>) u;
     (idle, st) \<leftarrow> select_tops [0..<NUM_CORES] 0 (\<lambda>_. None, 0, u);
     (tops, cores, u) \<leftarrow> over_affinity (fill_core order free) idle st;
     Some (cores, on_world (\<lambda>w. park_current cur (wakeup_waiting_dummy_threads order w)) u) }"

definition update_highest_priority_threads_with_context ::
  "(nat list \<Rightarrow> nat list) \<Rightarrow> (nat \<Rightarrow> bool) \<Rightarrow> bool \<Rightarrow> nat option \<Rightarrow> UpdateState \<Rightarrow> (u64 \<times> UpdateState) option" where
  "update_highest_priority_threads_with_context order free locked cur u =
     (if m_scheduler_update_needed (gsc (world u)) then update_highest_priority_threads_impl order free locked cur u
      else Some (0, u))"

end
