(* ===== verification/GlobalSchedulerChoice.thy ===== *)
theory GlobalSchedulerChoice
  imports GlobalSchedulerUpdate
begin

text \<open>
  What the update of the highest priority threads does: it ends, the queue stays the one of the
  specification, every scheduler whose choice changes is told, and without pinned threads and foreign
  locks each of them ends up with the front of its queue.
\<close>

section \<open>Queue operations of an update\<close>

fun is_choice :: "pq_op \<Rightarrow> bool" where
  "is_choice (Change_Core core i new_core priority to_front) \<longleftrightarrow> True"
| "is_choice (Set_Tick i tick) \<longleftrightarrow> True"
| "is_choice op \<longleftrightarrow> False"

definition evolves :: "lists \<times> thread_props \<Rightarrow> lists \<times> thread_props \<Rightarrow> bool" where
  "evolves AP AP' \<longleftrightarrow> (\<exists>ops. list_all is_choice ops \<and> ops_ok ops AP \<and> AP' = pq_specs ops AP)"

lemma evolves_refl [simp]: "evolves AP AP"
  unfolding evolves_def by (rule exI [of _ "[]"]) simp

lemma evolves_trans: "evolves AP AP1 \<Longrightarrow> evolves AP1 AP2 \<Longrightarrow> evolves AP AP2"
  unfolding evolves_def by (metis list_all_append ops_ok_append pq_specs_append)

lemma evolves_op: "is_choice op \<Longrightarrow> op_ok (snd AP) op \<Longrightarrow> evolves AP (pq_spec op AP)"
  unfolding evolves_def by (rule exI [of _ "[op]"]) simp

text \<open>What stays known of a thread.\<close>

definition but_tick :: "thread_props \<Rightarrow> nat \<Rightarrow> ThreadProps option" where
  "but_tick P i = map_option (\<lambda>pr. pr\<lparr>tp_last_scheduled_tick := 0\<rparr>) (P i)"

definition but_core_tick :: "thread_props \<Rightarrow> nat \<Rightarrow> ThreadProps option" where
  "but_core_tick P i = map_option (\<lambda>pr. pr\<lparr>tp_active_core := 0, tp_last_scheduled_tick := 0\<rparr>) (P i)"

lemma but_tickD:
  assumes "but_tick P' = but_tick P" "P i = Some pr"
  shows "\<exists>pr'. P' i = Some pr' \<and> tp_priority pr' = tp_priority pr \<and> tp_active_core pr' = tp_active_core pr \<and>
    tp_affinity pr' = tp_affinity pr \<and> tp_is_dummy pr' = tp_is_dummy pr"
proof -
  have "but_tick P' i = Some (pr\<lparr>tp_last_scheduled_tick := 0\<rparr>)" using assms by (simp add: but_tick_def)
  then obtain pr' where pr': "P' i = Some pr'" "pr'\<lparr>tp_last_scheduled_tick := 0\<rparr> = pr\<lparr>tp_last_scheduled_tick := 0\<rparr>"
    by (auto simp: but_tick_def)
  then show ?thesis by (cases pr; cases pr') simp
qed

lemma evolves_known:
  assumes "evolves AP AP'"
  shows "but_core_tick (snd AP') = but_core_tick (snd AP)"
proof -
  have "but_core_tick (snd (pq_specs ops AP)) = but_core_tick (snd AP)" if "list_all is_choice ops" "ops_ok ops AP" for ops AP
    using that
  proof (induction ops arbitrary: AP)
    case (Cons op ops)
    obtain A P where AP: "AP = (A, P)" by (cases AP)
    have ok: "op_ok P op" "is_choice op" using Cons.prems AP by simp_all
    then have "but_core_tick (snd (pq_spec op (A, P))) = but_core_tick P"
      by (cases op) (auto simp: but_core_tick_def fun_eq_iff Let_def split: option.split)
    moreover have "but_core_tick (snd (pq_specs ops (pq_spec op AP))) = but_core_tick (snd (pq_spec op AP))"
      by (rule Cons.IH) (use Cons.prems in simp_all)
    ultimately show ?case using AP by simp
  qed simp
  then show ?thesis using assms unfolding evolves_def by blast
qed

lemma evolves_dom: "evolves AP AP' \<Longrightarrow> snd AP' i = None \<longleftrightarrow> snd AP i = None"
  by (drule evolves_known) (metis but_core_tick_def map_option_is_None)

section \<open>The invariant of an update\<close>

definition choice_inv :: "bool \<Rightarrow> (nat \<times> nat) list \<Rightarrow> KScheduler list \<Rightarrow> nat set \<Rightarrow> lists \<times> thread_props \<Rightarrow> choice \<Rightarrow> bool" where
  "choice_inv unpinned T0 S0 K AP st \<longleftrightarrow> (case st of (tops, cores, u) \<Rightarrow>
     sched_ok (world u) AP \<and> m_thread_list (gsc (world u)) = T0 \<and> \<not> m_scheduler_update_needed (gsc (world u)) \<and>
     length (schedulers u) = length S0 \<and> length S0 \<le> NUM_CORES \<and>
     (\<forall>k < length S0. sched_core_id (schedulers u ! k) = int k) \<and>
     (\<forall>k < length S0. highest_priority_thread_id (schedulers u ! k) \<noteq> highest_priority_thread_id (S0 ! k) \<longrightarrow>
        bit cores k \<and> needs_scheduling (schedulers u ! k)) \<and>
     (\<forall>k \<in> K. k < length S0 \<longrightarrow> highest_priority_thread_id (schedulers u ! k) = tops k) \<and>
     (unpinned \<longrightarrow> (\<forall>p c. pinned_threads (processes u p) c = None)))"

lemma retire_thread_simps [simp]:
  "schedulers (retire_thread k i u) = schedulers u" "processes (retire_thread k i u) = processes u"
  by (simp_all add: retire_thread_def on_world_def split_def Let_def)

text \<open>Only the tick of the retired thread changes, in the queue and in the thread.\<close>

lemma set_tick_ok:
  assumes "sched_ok w AP"
  shows "sched_ok (set_tick i tick w) (pq_spec (Set_Tick i tick) AP)"
    "fst (pq_spec (Set_Tick i tick) AP) = fst AP" "but_tick (snd (pq_spec (Set_Tick i tick) AP)) = but_tick (snd AP)"
    "m_thread_list (gsc (set_tick i tick w)) = m_thread_list (gsc w)"
    "m_scheduler_update_needed (gsc (set_tick i tick w)) = m_scheduler_update_needed (gsc w)"
proof -
  obtain A P where AP: "AP = (A, P)" by (cases AP)
  have s: "sched_ok w (A, P)" using assms AP by simp
  define P' where "P' = (case P i of None \<Rightarrow> P | Some pr \<Rightarrow> P(i \<mapsto> pr\<lparr>tp_last_scheduled_tick := tick\<rparr>))"
  have sp: "pq_spec (Set_Tick i tick) AP = (A, P')" "but_tick P' = but_tick P"
    "\<And>j e. P' j = Some e \<Longrightarrow> \<exists>e'. P j = Some e' \<and> tp_active_core e' = tp_active_core e"
    by (auto simp: AP P'_def but_tick_def fun_eq_iff split: option.splits if_splits)
  have q: "rep (set_last_scheduled_tick i tick (queue_of w)) A P'"
    using pq_step_ok [OF sched_okD(1) [OF s], of "Set_Tick i tick" id] sp(1) AP by simp
  show f: "m_thread_list (gsc (set_tick i tick w)) = m_thread_list (gsc w)"
    "m_scheduler_update_needed (gsc (set_tick i tick w)) = m_scheduler_update_needed (gsc w)"
    by (simp_all add: set_tick_def set_thread_tick_def Let_def split: option.split)
  show "sched_ok (set_tick i tick w) (pq_spec (Set_Tick i tick) AP)"
    unfolding sp(1)
  proof (rule sched_ok_queue [OF s])
    show "queue_of (set_tick i tick w) = set_last_scheduled_tick i tick (queue_of w)"
      by (simp add: set_tick_def set_thread_tick_def Let_def split: option.split)
    have "core_id (thread_at (set_tick i tick w) a) = core_id (thread_at w a)" for a
      by (simp add: set_tick_def set_thread_tick_def Let_def split: option.split)
    then show "core_id (thread_at (set_tick i tick w) a) = tp_active_core e"
      if "get_thread_by_thread_id j w = Some a" "snd (A, P') j = Some e" for j a e
      using that sp(3) [of j e] s by (auto simp: sched_ok_def cores_agree_def)
  qed (use q f in simp_all)
  show "fst (pq_spec (Set_Tick i tick) AP) = fst AP" "but_tick (snd (pq_spec (Set_Tick i tick) AP)) = but_tick (snd AP)"
    using sp AP by simp_all
qed

section \<open>One scheduler takes its top thread\<close>

lemma on_scheduler_simps [simp]:
  "world (on_scheduler k f u) = world u" "processes (on_scheduler k f u) = processes u"
  "length (schedulers (on_scheduler k f u)) = length (schedulers u)"
  "k < length (schedulers u) \<Longrightarrow> schedulers (on_scheduler k f u) ! j = (if j = k then f (schedulers u ! k) else schedulers u ! j)"
  by (simp_all add: on_scheduler_def nth_list_update)

text \<open>Counting idle time touches neither the choice of a scheduler nor its core.\<close>

lemma count_idle_ok:
  assumes "k < length (schedulers u)" "sched_core_id (schedulers u ! k) = int k" "k < NUM_CORES"
  shows "\<exists>u'. count_idle k highest u = Some u' \<and> world u' = world u \<and> length (schedulers u') = length (schedulers u) \<and>
    (\<forall>j. sched_core_id (schedulers u' ! j) = sched_core_id (schedulers u ! j) \<and>
       highest_priority_thread_id (schedulers u' ! j) = highest_priority_thread_id (schedulers u ! j) \<and>
       needs_scheduling (schedulers u' ! j) = needs_scheduling (schedulers u ! j)) \<and>
    (\<forall>p c. pinned_threads (processes u' p) c = pinned_threads (processes u p) c)"
  using assms by (auto simp: count_idle_def Let_def set_running_thread_def ix_bounds split: option.split)

lemma retire_thread_ok:
  assumes "sched_ok (world u) AP"
  shows "\<exists>op. is_choice op \<and> op_ok (snd AP) op \<and> sched_ok (world (retire_thread k i u)) (pq_spec op AP) \<and>
    fst (pq_spec op AP) = fst AP \<and> but_tick (snd (pq_spec op AP)) = but_tick (snd AP) \<and>
    m_thread_list (gsc (world (retire_thread k i u))) = m_thread_list (gsc (world u)) \<and>
    m_scheduler_update_needed (gsc (world (retire_thread k i u))) = m_scheduler_update_needed (gsc (world u))"
proof -
  have s: "sched_ok (gsc_increment i (world u)) AP" by (rule sched_ok_view [OF assms]) simp_all
  have "\<exists>tick. world (retire_thread k i u) = set_tick i tick (gsc_increment i (world u))"
    by (cases "has_core_timing (schedulers u ! k)") (auto simp: retire_thread_def on_world_def)
  then obtain tick where "world (retire_thread k i u) = set_tick i tick (gsc_increment i (world u))" by blast
  then show ?thesis using set_tick_ok [OF s, of i tick] by (intro exI [of _ "Set_Tick i tick"]) simp
qed

lemma update_highest_ok:
  assumes "sched_ok (world u) AP" "k < length (schedulers u)" "sched_core_id (schedulers u ! k) = int k" "k < NUM_CORES"
  shows "\<exists>mask u' AP'. update_highest_priority_thread k highest u = Some (mask, u') \<and> evolves AP AP' \<and>
    fst AP' = fst AP \<and> but_tick (snd AP') = but_tick (snd AP) \<and> sched_ok (world u') AP' \<and>
    m_thread_list (gsc (world u')) = m_thread_list (gsc (world u)) \<and>
    m_scheduler_update_needed (gsc (world u')) = m_scheduler_update_needed (gsc (world u)) \<and>
    length (schedulers u') = length (schedulers u) \<and>
    (\<forall>j. sched_core_id (schedulers u' ! j) = sched_core_id (schedulers u ! j)) \<and>
    (\<forall>j. j \<noteq> k \<longrightarrow> highest_priority_thread_id (schedulers u' ! j) = highest_priority_thread_id (schedulers u ! j) \<and>
       needs_scheduling (schedulers u' ! j) = needs_scheduling (schedulers u ! j)) \<and>
    highest_priority_thread_id (schedulers u' ! k) = highest \<and>
    (highest_priority_thread_id (schedulers u ! k) \<noteq> highest \<longrightarrow> bit mask k \<and> needs_scheduling (schedulers u' ! k)) \<and>
    (needs_scheduling (schedulers u ! k) \<longrightarrow> needs_scheduling (schedulers u' ! k)) \<and>
    (\<forall>p c. pinned_threads (processes u' p) c = pinned_threads (processes u p) c)"
proof (cases "highest_priority_thread_id (schedulers u ! k) = highest")
  case True
  then show ?thesis using assms(1) by (intro exI [of _ 0] exI [of _ u] exI [of _ AP]) (simp add: update_highest_priority_thread_def)
next
  case False
  let ?prev = "highest_priority_thread_id (schedulers u ! k)"
  let ?u1 = "case ?prev of None \<Rightarrow> u | Some i \<Rightarrow> retire_thread k i u"
  have same: "schedulers ?u1 = schedulers u" "processes ?u1 = processes u" by (simp_all split: option.split)
  obtain AP' where AP': "evolves AP AP'" "fst AP' = fst AP" "but_tick (snd AP') = but_tick (snd AP)" "sched_ok (world ?u1) AP'"
    "m_thread_list (gsc (world ?u1)) = m_thread_list (gsc (world u))"
    "m_scheduler_update_needed (gsc (world ?u1)) = m_scheduler_update_needed (gsc (world u))"
  proof (cases ?prev)
    case None
    then show ?thesis using assms(1) by (intro that [of AP]) simp_all
  next
    case (Some i)
    obtain op where op: "is_choice op" "op_ok (snd AP) op" "sched_ok (world (retire_thread k i u)) (pq_spec op AP)"
      "fst (pq_spec op AP) = fst AP" "but_tick (snd (pq_spec op AP)) = but_tick (snd AP)"
      "m_thread_list (gsc (world (retire_thread k i u))) = m_thread_list (gsc (world u))"
      "m_scheduler_update_needed (gsc (world (retire_thread k i u))) = m_scheduler_update_needed (gsc (world u))"
      using retire_thread_ok [OF assms(1)] by blast
    show ?thesis using evolves_op [OF op(1,2)] op(3-7) Some by (intro that [of "pq_spec op AP"]) simp_all
  qed
  obtain u2 where u2: "count_idle k highest ?u1 = Some u2" "world u2 = world ?u1" "length (schedulers u2) = length (schedulers u)"
    "\<And>j. sched_core_id (schedulers u2 ! j) = sched_core_id (schedulers u ! j)"
    "\<And>j. highest_priority_thread_id (schedulers u2 ! j) = highest_priority_thread_id (schedulers u ! j)"
    "\<And>j. needs_scheduling (schedulers u2 ! j) = needs_scheduling (schedulers u ! j)"
    "\<And>p c. pinned_threads (processes u2 p) c = pinned_threads (processes u p) c"
    using count_idle_ok [of k ?u1 highest] assms(2-4) unfolding same by blast
  let ?u3 = "on_scheduler k (\<lambda>s. s\<lparr>highest_priority_thread_id := highest, needs_scheduling := True\<rparr>) u2"
  have k2: "k < length (schedulers u2)" using u2(3) assms(2) by simp
  have m: "nat (int k mod 64) = k" "k < 64" using assms(4) by (simp_all add: NUM_CORES_def)
  have bit: "bit (shl 1 (nat (int k mod 64)) :: u64) k" unfolding m(1) using m(2) by (simp add: bit_simps)
  have "update_highest_priority_thread k highest u = Some (shl 1 (nat (int k mod 64)), ?u3)"
    using False u2(1) u2(4) [of k] assms(3) k2 by (simp add: update_highest_priority_thread_def)
  then show ?thesis
    using AP' u2 k2 bit False by (intro exI [of _ "shl 1 (nat (int k mod 64))"] exI [of _ ?u3] exI [of _ AP']) simp
qed

lemma choice_invD:
  assumes "choice_inv unpinned T0 S0 K AP (tops, cores, u)"
  shows "sched_ok (world u) AP" "m_thread_list (gsc (world u)) = T0" "\<not> m_scheduler_update_needed (gsc (world u))"
    "length (schedulers u) = length S0" "length S0 \<le> NUM_CORES"
    "k < length S0 \<Longrightarrow> sched_core_id (schedulers u ! k) = int k"
    "k < length S0 \<Longrightarrow> highest_priority_thread_id (schedulers u ! k) \<noteq> highest_priority_thread_id (S0 ! k) \<Longrightarrow>
      bit cores k \<and> needs_scheduling (schedulers u ! k)"
    "k \<in> K \<Longrightarrow> k < length S0 \<Longrightarrow> highest_priority_thread_id (schedulers u ! k) = tops k"
    "unpinned \<Longrightarrow> pinned_threads (processes u p) c = None"
  using assms by (simp_all add: choice_inv_def)

lemma choice_invI:
  assumes "sched_ok (world u) AP" "m_thread_list (gsc (world u)) = T0" "\<not> m_scheduler_update_needed (gsc (world u))"
    "length (schedulers u) = length S0" "length S0 \<le> NUM_CORES"
    "\<And>k. k < length S0 \<Longrightarrow> sched_core_id (schedulers u ! k) = int k"
    "\<And>k. k < length S0 \<Longrightarrow> highest_priority_thread_id (schedulers u ! k) \<noteq> highest_priority_thread_id (S0 ! k) \<Longrightarrow>
      bit cores k \<and> needs_scheduling (schedulers u ! k)"
    "\<And>k. k \<in> K \<Longrightarrow> k < length S0 \<Longrightarrow> highest_priority_thread_id (schedulers u ! k) = tops k"
    "\<And>p c. unpinned \<Longrightarrow> pinned_threads (processes u p) c = None"
  shows "choice_inv unpinned T0 S0 K AP (tops, cores, u)"
  using assms by (simp add: choice_inv_def)

text \<open>The chosen thread of one core may be replaced, as its scheduler is told.\<close>

lemma note_top_ok:
  assumes "choice_inv unpinned T0 S0 K AP (tops, cores, u)" "k < NUM_CORES"
  shows "\<exists>cores' u' AP'. note_top k (tops(k := t), cores, u) = Some (tops(k := t), cores', u') \<and>
    evolves AP AP' \<and> fst AP' = fst AP \<and> but_tick (snd AP') = but_tick (snd AP) \<and>
    choice_inv unpinned T0 S0 (insert k K) AP' (tops(k := t), cores', u')"
proof (cases "k < length (schedulers u)")
  case False
  have "choice_inv unpinned T0 S0 (insert k K) AP (tops(k := t), cores, u)"
    by (rule choice_invI) (use choice_invD [OF assms(1)] False in auto)
  then show ?thesis using False by (intro exI [of _ cores] exI [of _ u] exI [of _ AP]) (simp add: note_top_def)
next
  case True
  note d = choice_invD [OF assms(1)]
  have k: "k < length S0" using True d(4) by simp
  obtain mask u' AP' where up: "update_highest_priority_thread k t u = Some (mask, u')" "evolves AP AP'" "fst AP' = fst AP"
    "but_tick (snd AP') = but_tick (snd AP)" "sched_ok (world u') AP'"
    and frame: "m_thread_list (gsc (world u')) = m_thread_list (gsc (world u))"
    "m_scheduler_update_needed (gsc (world u')) = m_scheduler_update_needed (gsc (world u))"
    "length (schedulers u') = length (schedulers u)" "\<And>j. sched_core_id (schedulers u' ! j) = sched_core_id (schedulers u ! j)"
    "\<And>p c. pinned_threads (processes u' p) c = pinned_threads (processes u p) c"
    and other: "\<And>j. j \<noteq> k \<Longrightarrow> highest_priority_thread_id (schedulers u' ! j) = highest_priority_thread_id (schedulers u ! j) \<and>
       needs_scheduling (schedulers u' ! j) = needs_scheduling (schedulers u ! j)"
    and own: "highest_priority_thread_id (schedulers u' ! k) = t"
    "highest_priority_thread_id (schedulers u ! k) \<noteq> t \<Longrightarrow> bit mask k \<and> needs_scheduling (schedulers u' ! k)"
    "needs_scheduling (schedulers u ! k) \<Longrightarrow> needs_scheduling (schedulers u' ! k)"
    using update_highest_ok [OF d(1) True d(6) [OF k] assms(2), of t] by metis
  have "note_top k (tops(k := t), cores, u) = Some (tops(k := t), cores OR mask, u')"
    using True up(1) by (simp add: note_top_def)
  moreover have "choice_inv unpinned T0 S0 (insert k K) AP' (tops(k := t), cores OR mask, u')"
  proof (rule choice_invI)
    fix j assume j: "j < length S0" "highest_priority_thread_id (schedulers u' ! j) \<noteq> highest_priority_thread_id (S0 ! j)"
    show "bit (cores OR mask) j \<and> needs_scheduling (schedulers u' ! j)"
    proof (cases "j = k")
      case True
      then show ?thesis using own d(7) [OF j(1)] j(2)
        by (cases "highest_priority_thread_id (schedulers u ! k) = t") (auto simp: bit_or_iff)
    next
      case False
      then show ?thesis using other [of j] d(7) [OF j(1)] j(2) by (simp add: bit_or_iff)
    qed
  next
    fix j assume "j \<in> insert k K" "j < length S0"
    then show "highest_priority_thread_id (schedulers u' ! j) = (tops(k := t)) j"
      using own(1) other [of j] d(8) [of j] by (cases "j = k") auto
  qed (use d up(5) frame in simp_all)
  ultimately show ?thesis using up(2-4) by blast
qed

section \<open>A thread takes an idle core\<close>

lemma move_thread_ok:
  assumes "sched_ok w (A, P)" "P i = Some pr" "bit (tp_affinity pr) k" "tp_active_core pr \<noteq> int k"
    "get_thread_by_thread_id i w = Some a"
  defines "pr' \<equiv> pr\<lparr>tp_active_core := int k\<rparr>"
  shows "\<exists>w'. with_queue (pq_change_core order (tp_active_core pr) i (int k) (tp_priority pr) False False) (set_active_core a (int k) w) = Some w' \<and>
    sched_ok w' (migrated i (tp_active_core pr) pr' False A, P(i \<mapsto> pr')) \<and>
    evolves (A, P) (migrated i (tp_active_core pr) pr' False A, P(i \<mapsto> pr')) \<and>
    m_thread_list (gsc w') = m_thread_list (gsc w) \<and> m_scheduler_update_needed (gsc w') = m_scheduler_update_needed (gsc w)"
proof -
  note r = sched_okD [OF assms(1)]
  let ?op = "Change_Core (tp_active_core pr) i (int k) (tp_priority pr) False" and ?A = "migrated i (tp_active_core pr) pr' False A"
  have "props_ok pr" using r(1) assms(2) by (simp add: rep_def)
  then have ok: "op_ok P ?op" using assms(2,3) by (simp add: props_ok_def)
  have sp: "pq_spec ?op (A, P) = (?A, P(i \<mapsto> pr'))" using assms(2,4) by (simp add: pr'_def Let_def)
  obtain q' where q': "pq_exec order ?op (queue_of w) = Some q'" "rep q' ?A (P(i \<mapsto> pr'))"
    using pq_step_ok [OF r(1) ok, of order] sp by auto
  let ?v = "set_active_core a (int k) w"
  let ?w' = "?v\<lparr>gsc := (gsc ?v)\<lparr>m_priority_queue := q'\<rparr>\<rparr>"
  have "sched_ok ?w' (?A, P(i \<mapsto> pr'))"
  proof (rule sched_ok_queue [OF assms(1)])
    fix j b e assume j: "get_thread_by_thread_id j w = Some b" "snd (?A, P(i \<mapsto> pr')) j = Some e"
    have unique: "b = a \<Longrightarrow> i = j"
      using assms(1,5) thread_id_unique j(1) by (auto simp: sched_ok_def)
    have old: "P j = Some e' \<Longrightarrow> core_id (thread_at w b) = tp_active_core e'" for e'
      using assms(1) j(1) by (simp add: sched_ok_def cores_agree_def)
    show "core_id (thread_at ?w' b) = tp_active_core e"
      using j unique old assms(5) by (auto simp: pr'_def split: if_splits)
  qed (use q'(2) in simp_all)
  moreover have "evolves (A, P) (?A, P(i \<mapsto> pr'))" using evolves_op [of ?op "(A, P)"] ok sp by simp
  ultimately show ?thesis using q'(1) by (auto simp: with_queue_def)
qed

lemma take_core_ok:
  assumes "choice_inv unpinned T0 S0 K (A, P) (tops, cores, u)" "k < NUM_CORES" "P i = Some pr" "bit (tp_affinity pr) k"
    "tp_active_core pr \<noteq> int k" "get_thread_by_thread_id i (world u) = Some a"
    "tp_priority e = tp_priority pr" "tp_is_dummy e = tp_is_dummy pr"
  shows "\<exists>cores' u' AP'. take_core order k i a e (tp_active_core pr) (tops, cores, u) = Some (tops(k := Some i), cores', u') \<and>
    evolves (A, P) AP' \<and> fst AP' = migrated i (tp_active_core pr) (pr\<lparr>tp_active_core := int k\<rparr>) False A \<and>
    choice_inv unpinned T0 S0 (insert k K) AP' (tops(k := Some i), cores', u')"
proof -
  note d = choice_invD [OF assms(1)]
  let ?A = "migrated i (tp_active_core pr) (pr\<lparr>tp_active_core := int k\<rparr>) False A" and ?P = "P(i \<mapsto> pr\<lparr>tp_active_core := int k\<rparr>)"
  have "\<not> tp_is_dummy pr" using d(1) assms(3) by (auto simp: sched_ok_def rep_def props_ok_def)
  then have e: "tp_is_dummy e = False" using assms(8) by simp
  obtain w' where w': "with_queue (pq_change_core order (tp_active_core pr) i (int k) (tp_priority pr) False False)
      (set_active_core a (int k) (world u)) = Some w'" "sched_ok w' (?A, ?P)" "evolves (A, P) (?A, ?P)"
    "m_thread_list (gsc w') = m_thread_list (gsc (world u))"
    "m_scheduler_update_needed (gsc w') = m_scheduler_update_needed (gsc (world u))"
    using move_thread_ok [OF d(1) assms(3-6), of order] by blast
  have "choice_inv unpinned T0 S0 K (?A, ?P) (tops, cores, u\<lparr>world := w'\<rparr>)"
    by (rule choice_invI) (use d w'(2,4,5) in simp_all)
  from note_top_ok [OF this assms(2), of "Some i"] obtain cores' u' AP' where
    n: "note_top k (tops(k := Some i), cores, u\<lparr>world := w'\<rparr>) = Some (tops(k := Some i), cores', u')"
      "evolves (?A, ?P) AP'" "fst AP' = ?A" "choice_inv unpinned T0 S0 (insert k K) AP' (tops(k := Some i), cores', u')"
    by auto
  have "take_core order k i a e (tp_active_core pr) (tops, cores, u) = Some (tops(k := Some i), cores', u')"
    using w'(1) n(1) assms(7) e by (simp add: take_core_def)
  then show ?thesis using n(3,4) evolves_trans [OF w'(3) n(2)] by blast
qed

section \<open>The candidates for an idle core\<close>

text \<open>The threads that are the top of their own core, with their cores.\<close>

definition cands_ok :: "nat \<Rightarrow> thread_props \<Rightarrow> (nat \<Rightarrow> nat option) \<Rightarrow> int list \<Rightarrow> bool" where
  "cands_ok k P tops cands \<longleftrightarrow> distinct cands \<and>
     (\<forall>c \<in> set cands. 0 \<le> c \<and> nat c < NUM_CORES \<and> c \<noteq> int k \<and>
        (\<exists>i pr. tops (nat c) = Some i \<and> P i = Some pr \<and> tp_active_core pr = c \<and> bit (tp_affinity pr) k))"

lemma cands_ok_sub: "cands_ok k P tops (c # cands) \<Longrightarrow> cands_ok k P tops cands"
  by (simp add: cands_ok_def)

lemma top_of_ok: "core = -1 \<or> 0 \<le> core \<and> nat core < NUM_CORES \<Longrightarrow> top_of core tops = Some (if 0 \<le> core then tops (nat core) else None)"
  by (auto simp: top_of_def ix_def)

lemma active_core_ok:
  assumes "rep q A P" "P i = Some pr"
  shows "tp_active_core pr = -1 \<or> 0 \<le> tp_active_core pr \<and> nat (tp_active_core pr) < NUM_CORES"
proof -
  have "props_ok pr" using assms by (simp add: rep_def)
  then show ?thesis using small_affinity [of "tp_affinity pr" "nat (tp_active_core pr)"] by (auto simp: props_ok_def)
qed

lemma concat_one_level: "concat (map (\<lambda>p. if p = m then [j] else []) [0..<n]) = (if m < n then [j] else [])"
  by (induction n) auto

text \<open>What a move to the idle core \<open>k\<close> does to the orders of the cores.\<close>

lemma order_migrated:
  assumes "rep q A P" "P j = Some pr" "tp_active_core pr \<noteq> int k"
  defines "A' \<equiv> migrated j (tp_active_core pr) (pr\<lparr>tp_active_core := int k\<rparr>) False A"
  shows "c \<noteq> k \<Longrightarrow> order_of A' True c = (if int c = tp_active_core pr then filter (\<lambda>i. i \<noteq> j) (order_of A True c) else order_of A True c)"
    "bit (tp_affinity pr) k \<Longrightarrow> order_of A True k = [] \<Longrightarrow> order_of A' True k = [j]"
proof -
  show "order_of A' True c = (if int c = tp_active_core pr then filter (\<lambda>i. i \<noteq> j) (order_of A True c) else order_of A True c)" if "c \<noteq> k"
  proof -
    have "A' True p c = (if int c = tp_active_core pr then filter (\<lambda>i. i \<noteq> j) (A True p c) else A True p c)" for p
      using that by (auto simp: A'_def migrated_def place_def leave_def)
    then show ?thesis by (simp add: order_of_def filter_concat o_def)
  qed
  show "order_of A' True k = [j]" if "bit (tp_affinity pr) k" "order_of A True k = []"
  proof -
    have p: "int (nat (tp_priority pr)) = tp_priority pr" "nat (tp_priority pr) < 64"
      using priority_nat [of pr] assms(1,2) by (simp_all add: rep_def)
    have empty: "A True p k = []" if "p < 64" for p
      using \<open>order_of A True k = []\<close> that by (simp add: order_of_def NUM_PRIORITY_def)
    have "A' True p k = (if p = nat (tp_priority pr) then [j] else [])" if "p < 64" for p
      using empty [OF that] p(1) \<open>bit (tp_affinity pr) k\<close> assms(3) by (auto simp: A'_def migrated_def place_def leave_def)
    then have "order_of A' True k = concat (map (\<lambda>p. if p = nat (tp_priority pr) then [j] else []) [0..<64])"
      unfolding order_of_def NUM_PRIORITY_def by (intro arg_cong [of _ _ concat] map_cong) auto
    then show ?thesis using p(2) by (simp add: concat_one_level)
  qed
qed

lemma first_of_filter: "first_of xs \<noteq> Some j \<Longrightarrow> first_of (filter (\<lambda>i. i \<noteq> j) xs) = first_of xs"
  by (cases xs) auto

definition fronts :: "lists \<Rightarrow> (nat \<Rightarrow> nat option) \<Rightarrow> bool" where
  "fronts A tops \<longleftrightarrow> (\<forall>c < NUM_CORES. tops c = first_of (order_of A True c))"

text \<open>The step that fills the core \<open>k\<close>: the tops stay the fronts, and the other idle cores stay idle.\<close>

definition filled :: "bool \<Rightarrow> (nat \<times> nat) list \<Rightarrow> KScheduler list \<Rightarrow> nat set \<Rightarrow> nat \<Rightarrow> lists \<times> thread_props \<Rightarrow> (nat \<Rightarrow> nat option)
    \<Rightarrow> lists \<times> thread_props \<Rightarrow> choice \<Rightarrow> bool" where
  "filled unpinned T0 S0 K k AP tops AP' st' \<longleftrightarrow> evolves AP AP' \<and> choice_inv unpinned T0 S0 (insert k K) AP' st' \<and>
     (unpinned \<longrightarrow> fronts (fst AP) tops \<longrightarrow> order_of (fst AP) True k = [] \<longrightarrow> fronts (fst AP') (fst st')) \<and>
     (\<forall>c < NUM_CORES. c \<noteq> k \<longrightarrow> order_of (fst AP) True c = [] \<longrightarrow> order_of (fst AP') True c = [])"

lemma filled_same: "choice_inv unpinned T0 S0 K AP (tops, cores, u) \<Longrightarrow> k \<in> K \<Longrightarrow> filled unpinned T0 S0 K k AP tops AP (tops, cores, u)"
  by (simp add: filled_def insert_absorb)

lemma filled_move:
  assumes "rep q A P" "P j = Some pr" "bit (tp_affinity pr) k" "tp_active_core pr \<noteq> int k" "evolves (A, P) AP'"
    "fst AP' = migrated j (tp_active_core pr) (pr\<lparr>tp_active_core := int k\<rparr>) False A"
    "choice_inv unpinned T0 S0 (insert k K) AP' (tops'(k := Some j), cores', u')"
    "\<And>c. fronts A tops \<Longrightarrow> c < NUM_CORES \<Longrightarrow> c \<noteq> k \<Longrightarrow>
       tops' c = first_of (if int c = tp_active_core pr then filter (\<lambda>i. i \<noteq> j) (order_of A True c) else order_of A True c)"
  shows "filled unpinned T0 S0 K k (A, P) tops AP' (tops'(k := Some j), cores', u')"
proof -
  note o = order_migrated [OF assms(1,2,4)]
  have "fronts (fst AP') (tops'(k := Some j))" if "fronts A tops" "order_of A True k = []"
    unfolding fronts_def assms(6)
  proof (intro allI impI)
    fix c assume c: "c < NUM_CORES"
    show "(tops'(k := Some j)) c = first_of (order_of (migrated j (tp_active_core pr) (pr\<lparr>tp_active_core := int k\<rparr>) False A) True c)"
      using o(1) [of c] o(2) [OF assms(3) that(2)] assms(8) [OF that(1) c] by (cases "c = k") simp_all
  qed
  moreover have "order_of (fst AP') True c = []" if "c \<noteq> k" "order_of A True c = []" for c
    unfolding assms(6) using o(1) [OF that(1)] that(2) by simp
  ultimately show ?thesis using assms(5,7) by (simp add: filled_def)
qed

section \<open>The loops\<close>

lemma cands_ok_snoc:
  assumes "cands_ok k P tops cands" "tops (nat (tp_active_core pr)) = Some i" "P i = Some pr" "bit (tp_affinity pr) k"
    "0 \<le> tp_active_core pr" "nat (tp_active_core pr) < NUM_CORES" "tp_active_core pr \<noteq> int k"
    "\<And>c j. c \<in> set cands \<Longrightarrow> tops (nat c) = Some j \<Longrightarrow> j \<noteq> i"
  shows "cands_ok k P tops (if length cands < NUM_CORES then cands @ [tp_active_core pr] else cands)"
proof -
  have "tp_active_core pr \<notin> set cands" using assms(2,8) by blast
  then show ?thesis using assms(1-7) by (auto simp: cands_ok_def)
qed

text \<open>The loop over the suggested threads either moves at most one of them, or leaves the candidate cores.\<close>

lemma suggested_loop_ok:
  assumes inv: "choice_inv unpinned T0 S0 K (A, P) (tops, cores, u)" and k: "k \<in> K" "k < NUM_CORES" and zero: "P 0 = None"
    and "order_of A False k = ys @ i # xs" "cands_ok k P tops cands"
      "\<And>c j. c \<in> set cands \<Longrightarrow> tops (nat c) = Some j \<Longrightarrow> j \<in> set ys"
  shows "\<exists>last_id cands' st'. suggested_loop order free k i cands (tops, cores, u) = Some (last_id, cands', st') \<and>
    (last_id = 0 \<longrightarrow> st' = (tops, cores, u) \<and> cands_ok k P tops cands') \<and>
    (last_id \<noteq> 0 \<longrightarrow> (\<exists>AP'. filled unpinned T0 S0 K k (A, P) tops AP' st'))"
  using assms(5-7)
proof (induction xs arbitrary: ys i cands rule: measure_induct_rule [where f = length])
  case (less xs)
  note d = choice_invD [OF inv]
  note r = sched_okD [OF d(1)]
  have "i \<in> set (order_of A False k)" using less.prems(1) by simp
  then obtain pr where pr: "P i = Some pr" "bit (tp_affinity pr) k" "tp_active_core pr \<noteq> int k"
    using order_of_ok(1) [OF r(1) k(2), of i False] by auto
  have i0: "i \<noteq> 0" using pr(1) zero by (cases "i = 0") simp_all
  note act = active_core_ok [OF r(1) pr(1)]
  let ?t = "if 0 \<le> tp_active_core pr then tops (nat (tp_active_core pr)) else None"
  note t = top_of_ok [OF act, of tops]
  have same: "filled unpinned T0 S0 K k (A, P) tops (A, P) (tops, cores, u)" by (rule filled_same [OF inv k(1)])
  show ?case
  proof (cases "?t = Some i")
    case False
    show ?thesis
    proof (cases "migration_allowed ?t (queue_of (world u)) \<and> (\<exists>a. get_thread_by_thread_id i (world u) = Some a \<and> free a)")
      case True
      then obtain a where a: "get_thread_by_thread_id i (world u) = Some a" "free a" by blast
      obtain cores' u' AP' where tk: "take_core order k i a pr (tp_active_core pr) (tops, cores, u) = Some (tops(k := Some i), cores', u')"
        "evolves (A, P) AP'" "fst AP' = migrated i (tp_active_core pr) (pr\<lparr>tp_active_core := int k\<rparr>) False A"
        "choice_inv unpinned T0 S0 (insert k K) AP' (tops(k := Some i), cores', u')"
        using take_core_ok [OF inv k(2) pr a(1) refl refl, of order] by blast
      have "filled unpinned T0 S0 K k (A, P) tops AP' (tops(k := Some i), cores', u')"
      proof (rule filled_move [OF r(1) pr tk(2-4)])
        fix c assume c: "fronts A tops" "c < NUM_CORES" "c \<noteq> k"
        have "int c = tp_active_core pr \<Longrightarrow> first_of (order_of A True c) \<noteq> Some i"
          using False c(1,2) unfolding fronts_def by (metis int_nat_eq nat_int of_nat_0_le_iff)
        then show "tops c = first_of (if int c = tp_active_core pr then filter (\<lambda>j. j \<noteq> i) (order_of A True c) else order_of A True c)"
          using c(1,2) first_of_filter by (simp add: fronts_def)
      qed
      moreover have "suggested_loop order free k i cands (tops, cores, u) = Some (i, cands, tops(k := Some i), cores', u')"
        by (subst suggested_loop.simps) (use False True a tk(1) in \<open>simp add: r(2) pr(1) t\<close>)
      ultimately show ?thesis using i0 by blast
    next
      case blocked: False
      have "suggested_loop order free k i cands (tops, cores, u) = Some (i, cands, tops, cores, u)"
        by (subst suggested_loop.simps) (use False blocked in \<open>auto simp: r(2) pr(1) t split: option.split\<close>)
      then show ?thesis using i0 same by blast
    qed
  next
    case True
    then have top: "0 \<le> tp_active_core pr" "tops (nat (tp_active_core pr)) = Some i" by (auto split: if_splits)
    let ?cands = "if length cands < NUM_CORES then cands @ [tp_active_core pr] else cands"
    have dist: "distinct (ys @ i # xs)" using order_of_ok(2) [OF r(1) k(2), of False] less.prems(1) by simp
    have c: "cands_ok k P tops ?cands"
      by (rule cands_ok_snoc [OF less.prems(2) top(2) pr(1,2) top(1) _ pr(3)])
        (use act top(1) less.prems(3) dist in fastforce)+
    note n = suggested_next_ok [OF r(1) k(2) less.prems(1) pr(1)]
    have step: "suggested_loop order free k i cands (tops, cores, u) =
      (case first_of xs of None \<Rightarrow> Some (0, ?cands, tops, cores, u) | Some j \<Rightarrow> suggested_loop order free k j ?cands (tops, cores, u))"
      by (subst suggested_loop.simps) (use top in \<open>simp add: r(2) pr(1) t n Let_def\<close>)
    show ?thesis
    proof (cases xs)
      case Nil
      then show ?thesis using step c by simp
    next
      case (Cons j xs')
      have "\<exists>last_id cands' st'. suggested_loop order free k j ?cands (tops, cores, u) = Some (last_id, cands', st') \<and>
        (last_id = 0 \<longrightarrow> st' = (tops, cores, u) \<and> cands_ok k P tops cands') \<and>
        (last_id \<noteq> 0 \<longrightarrow> (\<exists>AP'. filled unpinned T0 S0 K k (A, P) tops AP' st'))"
      proof (rule less.IH [of xs' "ys @ [i]"])
        show "j' \<in> set (ys @ [i])" if "core \<in> set ?cands" "tops (nat core) = Some j'" for core j'
          using that less.prems(3) [of core j'] top(2) by (auto split: if_splits)
      qed (use Cons less.prems(1) c in simp_all)
      then show ?thesis using step Cons by simp
    qed
  qed
qed

text \<open>A queued thread that is listed and whose lock is free can always be moved.\<close>

definition movable :: "(nat \<Rightarrow> bool) \<Rightarrow> (nat \<times> nat) list \<Rightarrow> nat \<Rightarrow> bool" where
  "movable free T0 i \<longleftrightarrow> (case find (\<lambda>(j, a). j = i) T0 of None \<Rightarrow> False | Some x \<Rightarrow> free (snd x))"

lemma movable_thread:
  "m_thread_list (gsc w) = T0 \<Longrightarrow> movable free T0 i \<longleftrightarrow> (\<exists>a. get_thread_by_thread_id i w = Some a \<and> free a)"
  by (auto simp: movable_def get_thread_by_thread_id_def split: option.splits)

lemma candidate_loop_ok:
  assumes "choice_inv unpinned T0 S0 {..<NUM_CORES} (A, P) (tops, cores, u)" "k < NUM_CORES" "cands_ok k P tops cands"
    "\<And>i. unpinned \<Longrightarrow> P i \<noteq> None \<Longrightarrow> movable free T0 i"
  shows "\<exists>st' AP'. candidate_loop order free k cands (tops, cores, u) = Some st' \<and>
    filled unpinned T0 S0 {..<NUM_CORES} k (A, P) tops AP' st'"
  using assms
proof (induction cands arbitrary: P tops cores u)
  case Nil
  have "filled unpinned T0 S0 {..<NUM_CORES} k (A, P) tops (A, P) (tops, cores, u)"
    by (rule filled_same [OF Nil.prems(1)]) (simp add: Nil.prems(2))
  then show ?case unfolding candidate_loop.simps by blast
next
  case (Cons c cands)
  note d = choice_invD [OF Cons.prems(1)]
  note r = sched_okD [OF d(1)]
  obtain i pr where c: "0 \<le> c" "nat c < NUM_CORES" "c \<noteq> int k" "tops (nat c) = Some i" "P i = Some pr" "tp_active_core pr = c"
    "bit (tp_affinity pr) k" using Cons.prems(3) by (auto simp: cands_ok_def)
  have pok: "props_ok pr" using r(1) c(5) by (simp add: rep_def)
  have member: "i \<in> set (order_of A True (nat c))"
    using order_of_ok(1) [OF r(1) c(2), of i True] c(1,5,6) pok by (auto simp: props_ok_def)
  have t: "top_of c tops = Some (Some i)" using top_of_ok [of c tops] c(1,2,4) by simp
  have n: "get_scheduled_next c i (tp_priority pr) (queue_of (world u)) = Some (successor i (order_of A True (nat c)))"
    using next_ok [OF r(1) c(2,5) member] c(1) by (simp add: get_scheduled_next_def sel_def)
  have rest: "cands_ok k P tops cands" by (rule cands_ok_sub [OF Cons.prems(3)])
  show ?case
  proof (cases "successor i (order_of A True (nat c))")
    case None
    then show ?thesis using Cons.IH [OF Cons.prems(1,2) rest Cons.prems(4)] t n c(1,5) r(2) by simp
  next
    case (Some j)
    let ?tops = "tops(nat c := Some j)"
    obtain cores1 u1 AP1 where st1: "note_top (nat c) (?tops, cores, u) = Some (?tops, cores1, u1)"
      "evolves (A, P) AP1" "fst AP1 = A" "but_tick (snd AP1) = but_tick P"
      "choice_inv unpinned T0 S0 (insert (nat c) {..<NUM_CORES}) AP1 (?tops, cores1, u1)"
      using note_top_ok [OF Cons.prems(1) c(2), of "Some j"] by auto
    obtain P1 where AP1: "AP1 = (A, P1)" using st1(3) by (cases AP1) simp
    have inv1: "choice_inv unpinned T0 S0 {..<NUM_CORES} (A, P1) (?tops, cores1, u1)"
      using st1(5) c(2) unfolding AP1 by (simp add: insert_absorb)
    have P1: "but_tick P1 = but_tick P" using st1(4) AP1 by simp
    note d1 = choice_invD [OF inv1]
    show ?thesis
    proof (cases "\<exists>a. get_thread_by_thread_id i (world u1) = Some a \<and> free a")
      case False
      have "\<not> unpinned" using Cons.prems(4) c(5) False movable_thread [OF d1(2), of free i] by auto
      have "cands_ok k P1 ?tops cands"
        unfolding cands_ok_def
      proof (intro conjI ballI)
        show "distinct cands" using rest by (simp add: cands_ok_def)
        fix c' assume c': "c' \<in> set cands"
        have "c' \<noteq> c" using Cons.prems(3) c' by (auto simp: cands_ok_def)
        moreover obtain i' e where e: "0 \<le> c'" "nat c' < NUM_CORES" "c' \<noteq> int k" "tops (nat c') = Some i'" "P i' = Some e"
          "tp_active_core e = c'" "bit (tp_affinity e) k" using rest c' by (auto simp: cands_ok_def)
        moreover obtain e1 where "P1 i' = Some e1" "tp_active_core e1 = tp_active_core e" "tp_affinity e1 = tp_affinity e"
          using but_tickD [OF P1 e(5)] by blast
        ultimately show "0 \<le> c'" "nat c' < NUM_CORES" "c' \<noteq> int k"
          "\<exists>i pr. ?tops (nat c') = Some i \<and> P1 i = Some pr \<and> tp_active_core pr = c' \<and> bit (tp_affinity pr) k"
          using c(1) by auto
      qed
      from Cons.IH [OF inv1 Cons.prems(2) this] \<open>\<not> unpinned\<close> obtain st' AP' where
        st': "candidate_loop order free k cands (?tops, cores1, u1) = Some st'"
          "filled unpinned T0 S0 {..<NUM_CORES} k (A, P1) ?tops AP' st'" by blast
      have "filled unpinned T0 S0 {..<NUM_CORES} k (A, P) tops AP' st'"
        using st'(2) evolves_trans [OF st1(2)] \<open>\<not> unpinned\<close> unfolding AP1 filled_def by simp
      moreover have "candidate_loop order free k (c # cands) (tops, cores, u) = Some st'"
        using st'(1) t n c(1,5) Some st1(1) False by (simp add: r(2) split: option.split)
      ultimately show ?thesis by blast
    next
      case True
      then obtain a where a: "get_thread_by_thread_id i (world u1) = Some a" "free a" by blast
      obtain pr1 where pr1: "P1 i = Some pr1" "tp_priority pr1 = tp_priority pr" "tp_active_core pr1 = c"
        "tp_affinity pr1 = tp_affinity pr" "tp_is_dummy pr1 = tp_is_dummy pr" using but_tickD [OF P1 c(5)] c(6) by auto
      have m: "bit (tp_affinity pr1) k" "tp_active_core pr1 \<noteq> int k" using c pr1 by simp_all
      obtain cores' u' AP' where tk: "take_core order k i a pr c (?tops, cores1, u1) = Some (?tops(k := Some i), cores', u')"
        "evolves (A, P1) AP'" "fst AP' = migrated i (tp_active_core pr1) (pr1\<lparr>tp_active_core := int k\<rparr>) False A"
        "choice_inv unpinned T0 S0 (insert k {..<NUM_CORES}) AP' (?tops(k := Some i), cores', u')"
        using take_core_ok [OF inv1 Cons.prems(2) pr1(1) m a(1), of pr order] pr1(2,3,5) by auto
      have "filled unpinned T0 S0 {..<NUM_CORES} k (A, P1) tops AP' (?tops(k := Some i), cores', u')"
      proof (rule filled_move [OF sched_okD(1) [OF d1(1)] pr1(1) m tk(2-4)])
        fix c' assume c': "fronts A tops" "c' < NUM_CORES" "c' \<noteq> k"
        have "first_of (order_of A True (nat c)) = Some i" using c'(1) c(2,4) by (simp add: fronts_def)
        then obtain xs where xs: "order_of A True (nat c) = i # xs" by (cases "order_of A True (nat c)") auto
        then have "filter (\<lambda>j. j \<noteq> i) (order_of A True (nat c)) = xs"
          using order_of_ok(2) [OF r(1) c(2), of True] by (auto intro: filter_True)
        moreover have "first_of xs = Some j" using Some xs by (simp add: successor_def)
        ultimately show "?tops c' = first_of (if int c' = tp_active_core pr1 then filter (\<lambda>j. j \<noteq> i) (order_of A True c') else order_of A True c')"
          using c' c(1) pr1(3) by (auto simp: fronts_def)
      qed
      then have "filled unpinned T0 S0 {..<NUM_CORES} k (A, P) tops AP' (?tops(k := Some i), cores', u')"
        using evolves_trans [OF st1(2)] unfolding AP1 filled_def by simp
      moreover have "candidate_loop order free k (c # cands) (tops, cores, u) = Some (?tops(k := Some i), cores', u')"
        using t n c(1,5) Some st1(1) a tk(1) by (simp add: r(2))
      ultimately show ?thesis by blast
    qed
  qed
qed

lemma fill_core_ok:
  assumes "choice_inv unpinned T0 S0 {..<NUM_CORES} AP (tops, cores, u)" "k < NUM_CORES" "snd AP 0 = None"
    "\<And>i. unpinned \<Longrightarrow> snd AP i \<noteq> None \<Longrightarrow> movable free T0 i"
  shows "\<exists>st' AP'. fill_core order free (int k) (tops, cores, u) = Some st' \<and> filled unpinned T0 S0 {..<NUM_CORES} k AP tops AP' st'"
proof -
  obtain A P where AP: "AP = (A, P)" by (cases AP)
  have inv: "choice_inv unpinned T0 S0 {..<NUM_CORES} (A, P) (tops, cores, u)" using assms(1) AP by simp
  note r = sched_okD [OF choice_invD(1) [OF inv]]
  have f: "get_suggested_front (int k) (queue_of (world u)) = Some (first_of (order_of A False k))"
    by (rule level_fronts(3) [OF r(1) assms(2), of 0]) simp
  have in_K: "k \<in> {..<NUM_CORES}" using assms(2) by simp
  show ?thesis
  proof (cases "order_of A False k")
    case Nil
    then show ?thesis using f filled_same [OF inv in_K] AP by (auto simp: fill_core_def)
  next
    case (Cons i xs)
    obtain last_id cands st' where l: "suggested_loop order free k i [] (tops, cores, u) = Some (last_id, cands, st')"
      "last_id = 0 \<Longrightarrow> st' = (tops, cores, u) \<and> cands_ok k P tops cands"
      "last_id \<noteq> 0 \<Longrightarrow> \<exists>AP'. filled unpinned T0 S0 {..<NUM_CORES} k (A, P) tops AP' st'"
    proof -
      have "P 0 = None" "order_of A False k = [] @ i # xs" "cands_ok k P tops []" using assms(3) AP Cons by (simp_all add: cands_ok_def)
      from suggested_loop_ok [OF inv in_K assms(2) this, of order free] show ?thesis using that by fastforce
    qed
    show ?thesis
    proof (cases "last_id = 0")
      case True
      with l(2) have s: "st' = (tops, cores, u)" "cands_ok k P tops cands" by simp_all
      have "\<And>i. unpinned \<Longrightarrow> P i \<noteq> None \<Longrightarrow> movable free T0 i" using assms(4) AP by simp
      from candidate_loop_ok [OF inv assms(2) s(2) this, of order] obtain st'' AP' where
        "candidate_loop order free k cands (tops, cores, u) = Some st''" "filled unpinned T0 S0 {..<NUM_CORES} k (A, P) tops AP' st''"
        by blast
      moreover from this(1) have "fill_core order free (int k) (tops, cores, u) = Some st''"
        using f Cons l(1) True s(1) by (simp add: fill_core_def)
      ultimately show ?thesis unfolding AP by blast
    next
      case False
      then have "fill_core order free (int k) (tops, cores, u) = Some st'" using f Cons l(1) by (simp add: fill_core_def)
      then show ?thesis using l(3) [OF False] unfolding AP by blast
    qed
  qed
qed

section \<open>The whole update\<close>

lemma fill_cores_ok:
  assumes "choice_inv unpinned T0 S0 {..<NUM_CORES} AP st" "snd AP 0 = None"
    "\<And>i. unpinned \<Longrightarrow> snd AP i \<noteq> None \<Longrightarrow> movable free T0 i" "distinct cs" "set cs \<subseteq> {..<NUM_CORES}"
    "unpinned \<Longrightarrow> fronts (fst AP) (fst st)" "\<And>c. c \<in> set cs \<Longrightarrow> order_of (fst AP) True c = []"
  shows "\<exists>st' AP'. each (fill_core order free) cs st = Some st' \<and> evolves AP AP' \<and>
    choice_inv unpinned T0 S0 {..<NUM_CORES} AP' st' \<and> (unpinned \<longrightarrow> fronts (fst AP') (fst st'))"
  using assms
proof (induction cs arbitrary: AP st)
  case Nil
  then show ?case by (intro exI [of _ st] exI [of _ AP]) simp
next
  case (Cons c cs)
  obtain tops cores u where st: "st = (tops, cores, u)" by (cases st)
  have c: "c < NUM_CORES" using Cons.prems(5) by simp
  obtain st1 AP1 where s1: "fill_core order free (int c) (tops, cores, u) = Some st1"
    "filled unpinned T0 S0 {..<NUM_CORES} c AP tops AP1 st1"
    using fill_core_ok [OF Cons.prems(1) [unfolded st] c Cons.prems(2,3)] by blast
  note f = s1(2) [unfolded filled_def]
  have "\<exists>st' AP'. each (fill_core order free) cs st1 = Some st' \<and> evolves AP1 AP' \<and>
    choice_inv unpinned T0 S0 {..<NUM_CORES} AP' st' \<and> (unpinned \<longrightarrow> fronts (fst AP') (fst st'))"
  proof (rule Cons.IH)
    show "choice_inv unpinned T0 S0 {..<NUM_CORES} AP1 st1" using f c by (simp add: insert_absorb)
    show "snd AP1 0 = None" using evolves_dom f Cons.prems(2) by blast
    show "movable free T0 i" if "unpinned" "snd AP1 i \<noteq> None" for i
      using Cons.prems(3) [OF that(1)] evolves_dom [OF conjunct1 [OF f], of i] that(2) by simp
    show "fronts (fst AP1) (fst st1)" if unpinned
      using f Cons.prems(6) [OF that] Cons.prems(7) [of c] that st by simp
    show "order_of (fst AP1) True c' = []" if "c' \<in> set cs" for c'
      using f Cons.prems(4,5) Cons.prems(7) [of c'] that by auto
  qed (use Cons.prems(4,5) in simp_all)
  then obtain st' AP' where r: "each (fill_core order free) cs st1 = Some st'" "evolves AP1 AP'"
    "choice_inv unpinned T0 S0 {..<NUM_CORES} AP' st'" "unpinned \<longrightarrow> fronts (fst AP') (fst st')" by blast
  have "each (fill_core order free) (c # cs) st = Some st'" using s1(1) r(1) st by simp
  then show ?case using evolves_trans [OF conjunct1 [OF f] r(2)] r(3,4) by blast
qed

lemma pinned_front_ok:
  assumes "sched_ok (world u) (A, P)" "k < NUM_CORES"
  shows "\<exists>t. scheduled_front_with_pinned_thread (int k) u = Some t \<and>
    ((\<forall>p c. pinned_threads (processes u p) c = None) \<longrightarrow> t = first_of (order_of A True k))"
proof -
  have f: "get_scheduled_front (int k) (queue_of (world u)) = Some (first_of (order_of A True k))"
    using front_ok [OF sched_okD(1) [OF assms(1)] assms(2), where s = True] by (simp add: get_scheduled_front_def sel_def)
  have p: "\<exists>t. pinned_for (int k) i u = Some t \<and> ((\<forall>p c. pinned_threads (processes u p) c = None) \<longrightarrow> t = None)" for i
    using assms(2) by (auto simp: pinned_for_def get_pinned_thread_def ix_bounds split: option.split)
  show ?thesis
  proof (cases "order_of A True k")
    case Nil
    then show ?thesis using f by (simp add: scheduled_front_with_pinned_thread_def)
  next
    case (Cons i xs)
    obtain t where "pinned_for (int k) i u = Some t" "(\<forall>p c. pinned_threads (processes u p) c = None) \<longrightarrow> t = None"
      using p by blast
    then show ?thesis using f Cons by (auto simp: scheduled_front_with_pinned_thread_def)
  qed
qed

lemma select_tops_ok:
  assumes "choice_inv unpinned T0 S0 {..<k} AP (tops, cores, u)" "k \<le> NUM_CORES"
    "unpinned \<Longrightarrow> \<forall>c < k. tops c = first_of (order_of (fst AP) True c)"
    "\<And>c. bit idle c \<longleftrightarrow> c < k \<and> order_of (fst AP) True c = []"
  shows "\<exists>idle' st' AP'. select_tops [k..<NUM_CORES] idle (tops, cores, u) = Some (idle', st') \<and> evolves AP AP' \<and> fst AP' = fst AP \<and>
    choice_inv unpinned T0 S0 {..<NUM_CORES} AP' st' \<and> (unpinned \<longrightarrow> fronts (fst AP') (fst st')) \<and>
    (\<forall>c. bit idle' c \<longleftrightarrow> c < NUM_CORES \<and> order_of (fst AP') True c = [])"
  using assms
proof (induction "NUM_CORES - k" arbitrary: k tops cores u idle AP)
  case 0
  then have "k = NUM_CORES" by simp
  with 0 show ?case
    by (intro exI [of _ idle] exI [of _ "(tops, cores, u)"] exI [of _ AP]) (simp add: fronts_def)
next
  case (Suc n)
  then have k: "k < NUM_CORES" "[k..<NUM_CORES] = k # [Suc k..<NUM_CORES]" by (simp_all add: upt_conv_Cons)
  obtain A P where AP: "AP = (A, P)" by (cases AP)
  note d = choice_invD [OF Suc.prems(1)]
  have s: "sched_ok (world u) (A, P)" using d(1) AP by simp
  have f: "get_scheduled_front (int k) (queue_of (world u)) = Some (first_of (order_of A True k))"
    using front_ok [OF sched_okD(1) [OF s] k(1), where s = True] by (simp add: get_scheduled_front_def sel_def)
  obtain t where t: "scheduled_front_with_pinned_thread (int k) u = Some t" "unpinned \<Longrightarrow> t = first_of (order_of A True k)"
    using pinned_front_ok [OF s k(1)] d(9) by blast
  obtain cores1 u1 AP1 where n: "note_top k (tops(k := t), cores, u) = Some (tops(k := t), cores1, u1)" "evolves AP AP1"
    "fst AP1 = fst AP" "choice_inv unpinned T0 S0 (insert k {..<k}) AP1 (tops(k := t), cores1, u1)"
    using note_top_ok [OF Suc.prems(1) k(1), of t] by blast
  let ?idle = "if first_of (order_of A True k) = None then idle OR shl 1 k else idle"
  have k64: "k < 64" using k(1) by (simp add: NUM_CORES_def)
  have idle: "bit ?idle c \<longleftrightarrow> c < Suc k \<and> order_of (fst AP1) True c = []" for c
  proof -
    have "bit (shl 1 k :: u64) c \<longleftrightarrow> c = k" using k64 by (auto simp: bit_simps)
    then show ?thesis using Suc.prems(4) [of c] n(3) AP by (cases "order_of A True k") (auto simp: bit_or_iff less_Suc_eq)
  qed
  have "\<exists>idle' st' AP'. select_tops [Suc k..<NUM_CORES] ?idle (tops(k := t), cores1, u1) = Some (idle', st') \<and> evolves AP1 AP' \<and> fst AP' = fst AP1 \<and>
    choice_inv unpinned T0 S0 {..<NUM_CORES} AP' st' \<and> (unpinned \<longrightarrow> fronts (fst AP') (fst st')) \<and>
    (\<forall>c. bit idle' c \<longleftrightarrow> c < NUM_CORES \<and> order_of (fst AP') True c = [])"
  proof (rule Suc.hyps(1))
    show "choice_inv unpinned T0 S0 {..<Suc k} AP1 (tops(k := t), cores1, u1)" using n(4) by (simp add: lessThan_Suc)
    show "\<forall>c < Suc k. (tops(k := t)) c = first_of (order_of (fst AP1) True c)" if unpinned
      using Suc.prems(3) [OF that] t(2) [OF that] n(3) AP by (auto simp: less_Suc_eq)
  qed (use Suc.hyps(2) k(1) idle in simp_all)
  then obtain idle' st' AP' where "select_tops [Suc k..<NUM_CORES] ?idle (tops(k := t), cores1, u1) = Some (idle', st')"
    "evolves AP1 AP'" "fst AP' = fst AP" "choice_inv unpinned T0 S0 {..<NUM_CORES} AP' st'" "unpinned \<longrightarrow> fronts (fst AP') (fst st')"
    "\<forall>c. bit idle' c \<longleftrightarrow> c < NUM_CORES \<and> order_of (fst AP') True c = []" using n(3) by metis
  moreover from this(1) have "select_tops [k..<NUM_CORES] idle (tops, cores, u) = Some (idle', st')"
    unfolding k(2) using f t(1) n(1) by simp
  ultimately show ?case using evolves_trans [OF n(2)] by blast
qed

text \<open>The schedulers of the cores, in order.\<close>

definition cores_in_order :: "UpdateState \<Rightarrow> bool" where
  "cores_in_order u \<longleftrightarrow> length (schedulers u) \<le> NUM_CORES \<and> (\<forall>k < length (schedulers u). sched_core_id (schedulers u ! k) = int k)"

text \<open>Nothing stands in the way of a migration: no thread is pinned, every queued thread is listed and its lock is free.\<close>

definition unhindered :: "(nat \<Rightarrow> bool) \<Rightarrow> thread_props \<Rightarrow> UpdateState \<Rightarrow> bool" where
  "unhindered free P u \<longleftrightarrow> (\<forall>p c. pinned_threads (processes u p) c = None) \<and>
     (\<forall>i. P i \<noteq> None \<longrightarrow> movable free (m_thread_list (gsc (world u))) i)"

lemma park_current_simps [simp]:
  "gsc (park_current cur w) = gsc w" "core_id (thread_at (park_current cur w) a) = core_id (thread_at w a)"
  by (simp_all add: park_current_def request_dummy_thread_wait_def split: option.split)

definition fresh :: "UpdateState \<Rightarrow> UpdateState" where
  "fresh u = on_world (\<lambda>w. w\<lparr>gsc := (gsc w)\<lparr>m_scheduler_update_needed := False\<rparr>\<rparr>) u"

text \<open>The first part of the update takes the fronts, and finds the cores without one.\<close>

lemma selected_ok:
  assumes "sched_ok (world u) (A, P)" "cores_in_order u" "plain \<Longrightarrow> \<forall>p c. pinned_threads (processes u p) c = None"
  shows "\<exists>idle st AP'. select_tops [0..<NUM_CORES] 0 (\<lambda>_. None, 0, fresh u) = Some (idle, st) \<and> evolves (A, P) AP' \<and>
    fst AP' = A \<and> choice_inv plain (m_thread_list (gsc (world u))) (schedulers u) {..<NUM_CORES} AP' st \<and>
    (plain \<longrightarrow> fronts A (fst st)) \<and> (\<forall>c. bit idle c \<longleftrightarrow> c < NUM_CORES \<and> order_of A True c = [])"
proof -
  have w0: "sched_ok (world (fresh u)) (A, P)" by (rule sched_ok_view [OF assms(1)]) (simp_all add: fresh_def on_world_def)
  have "choice_inv plain (m_thread_list (gsc (world u))) (schedulers u) {..<0} (A, P) (\<lambda>_. None, 0, fresh u)"
    by (rule choice_invI) (use w0 assms(2,3) in \<open>auto simp: fresh_def on_world_def cores_in_order_def\<close>)
  from select_tops_ok [OF this, of 0] show ?thesis by (metis bit_0_eq bot_apply bot_bool_def fst_conv less_nat_zero_code zero_le)
qed

text \<open>Its end wakes the dummy threads, whatever was chosen.\<close>

lemma finished_ok:
  assumes "select_tops [0..<NUM_CORES] 0 (\<lambda>_. None, 0, fresh u) = Some (idle, st)"
    "each (fill_core order free) (cores_of idle) st = Some (tops, cores, u2)" "choice_inv plain T0 S0 K AP (tops, cores, u2)"
  shows "\<exists>u'. update_highest_priority_threads_impl order free True cur u = Some (cores, u') \<and> sched_ok (world u') AP \<and>
    \<not> m_scheduler_update_needed (gsc (world u')) \<and> m_woken_dummy_threads (gsc (world u')) = Mapping.empty \<and>
    schedulers u' = schedulers u2"
proof -
  let ?u' = "on_world (\<lambda>w. park_current cur (wakeup_waiting_dummy_threads order w)) u2"
  have "update_highest_priority_threads_impl order free True cur u = Some (cores, ?u')"
    using assms(1,2) by (simp add: update_highest_priority_threads_impl_def over_affinity_each fresh_def)
  moreover have "sched_ok (world ?u') AP"
    by (rule sched_ok_view [OF choice_invD(1) [OF assms(3)]]) (simp_all add: on_world_def wakeup_simps)
  ultimately show ?thesis
    using choice_invD(3) [OF assms(3)] by (intro exI [of _ ?u']) (simp add: on_world_def wakeup_simps)
qed

lemma update_impl_ok:
  assumes "sched_ok (world u) (A, P)" "P 0 = None" "cores_in_order u" "plain \<Longrightarrow> unhindered free P u"
  shows "\<exists>cores u' AP'. update_highest_priority_threads_impl order free True cur u = Some (cores, u') \<and>
    evolves (A, P) AP' \<and> sched_ok (world u') AP' \<and>
    \<not> m_scheduler_update_needed (gsc (world u')) \<and> m_woken_dummy_threads (gsc (world u')) = Mapping.empty \<and>
    length (schedulers u') = length (schedulers u) \<and>
    (\<forall>k < length (schedulers u). highest_priority_thread_id (schedulers u' ! k) \<noteq> highest_priority_thread_id (schedulers u ! k) \<longrightarrow>
       bit cores k \<and> needs_scheduling (schedulers u' ! k)) \<and>
    (plain \<longrightarrow> (\<forall>k < length (schedulers u). highest_priority_thread_id (schedulers u' ! k) = first_of (order_of (fst AP') True k)))"
proof -
  define T0 where "T0 = m_thread_list (gsc (world u))"
  have "plain \<Longrightarrow> \<forall>p c. pinned_threads (processes u p) c = None" using assms(4) by (simp add: unhindered_def)
  from selected_ok [OF assms(1,3) this] obtain idle st1 AP1 where
    s: "select_tops [0..<NUM_CORES] 0 (\<lambda>_. None, 0, fresh u) = Some (idle, st1)" "evolves (A, P) AP1" "fst AP1 = A"
    "choice_inv plain T0 (schedulers u) {..<NUM_CORES} AP1 st1" "plain \<longrightarrow> fronts A (fst st1)"
    "\<forall>c. bit idle c \<longleftrightarrow> c < NUM_CORES \<and> order_of A True c = []" unfolding T0_def by blast
  have cs: "distinct (cores_of idle)" "set (cores_of idle) \<subseteq> {..<NUM_CORES}" "\<And>c. c \<in> set (cores_of idle) \<Longrightarrow> order_of (fst AP1) True c = []"
    using s(3,6) cores_of_iff by auto
  have zero: "snd AP1 0 = None" using evolves_dom [OF s(2), of 0] assms(2) by simp
  have mv: "movable free T0 i" if plain "snd AP1 i \<noteq> None" for i
    using assms(4) [OF that(1)] evolves_dom [OF s(2), of i] that(2) by (simp add: unhindered_def T0_def)
  obtain tops cores u2 AP2 where f: "each (fill_core order free) (cores_of idle) st1 = Some (tops, cores, u2)" "evolves AP1 AP2"
    "choice_inv plain T0 (schedulers u) {..<NUM_CORES} AP2 (tops, cores, u2)" "plain \<longrightarrow> fronts (fst AP2) tops"
    using fill_cores_ok [OF s(4) zero mv cs(1,2) _ cs(3)] s(3,5) by (metis fst_conv prod.collapse)
  note d = choice_invD [OF f(3)]
  obtain u' where u': "update_highest_priority_threads_impl order free True cur u = Some (cores, u')" "sched_ok (world u') AP2"
    "\<not> m_scheduler_update_needed (gsc (world u'))" "m_woken_dummy_threads (gsc (world u')) = Mapping.empty"
    "schedulers u' = schedulers u2" using finished_ok [OF s(1) f(1,3)] by blast
  have "highest_priority_thread_id (schedulers u' ! k) = first_of (order_of (fst AP2) True k)"
    if plain "k < length (schedulers u)" for k
    using d(5) d(8) [of k] f(4) that u'(5) by (simp add: fronts_def)
  then show ?thesis
    using u' d(4,7) evolves_trans [OF s(2) f(2)] by (intro exI [of _ cores] exI [of _ u'] exI [of _ AP2]) simp
qed

section \<open>What an update achieves\<close>

text \<open>C29: with the scheduler lock held and no thread of id 0, the update ends without a panic for every
  queue, every free lock and every pinned thread: the loops over suggested threads and candidates stop,
  queue and threads stay consistent and the threads change nothing but their active core and their tick.
  The update is no longer asked for, no dummy thread is left to wake, and a scheduler whose choice
  changed has its bit in the result and is told to schedule. Without the lock the call panics.\<close>

theorem highest_threads_update_safe:
  assumes "sched_ok (world u) (A, P)" "P 0 = None" "cores_in_order u"
  shows "\<exists>cores u' A' P'. update_highest_priority_threads_impl order free True cur u = Some (cores, u') \<and>
    sched_ok (world u') (A', P') \<and> but_core_tick P' = but_core_tick P \<and>
    \<not> m_scheduler_update_needed (gsc (world u')) \<and> m_woken_dummy_threads (gsc (world u')) = Mapping.empty \<and>
    (\<forall>k < length (schedulers u). highest_priority_thread_id (schedulers u' ! k) \<noteq> highest_priority_thread_id (schedulers u ! k) \<longrightarrow>
       bit cores k \<and> needs_scheduling (schedulers u' ! k)) \<and>
    update_highest_priority_threads_impl order free False cur u = None"
proof -
  obtain cores u' AP' where "update_highest_priority_threads_impl order free True cur u = Some (cores, u')"
    "evolves (A, P) AP'" "sched_ok (world u') AP'"
    "\<not> m_scheduler_update_needed (gsc (world u'))" "m_woken_dummy_threads (gsc (world u')) = Mapping.empty"
    "\<forall>k < length (schedulers u). highest_priority_thread_id (schedulers u' ! k) \<noteq> highest_priority_thread_id (schedulers u ! k) \<longrightarrow>
       bit cores k \<and> needs_scheduling (schedulers u' ! k)"
    using update_impl_ok [where plain = False, OF assms] by blast
  moreover from this(2) have "but_core_tick (snd AP') = but_core_tick P" using evolves_known by fastforce
  moreover have "update_highest_priority_threads_impl order free False cur u = None"
    by (simp add: update_highest_priority_threads_impl_def guard_panic_def)
  ultimately show ?thesis by (metis prod.collapse)
qed

text \<open>C30: when no thread is pinned and the lock of every queued thread can be taken, the update leaves
  on every core the front of its scheduled queue as the thread to run, the cores that were idle and
  received a thread included; the queue a call of \<open>get_scheduled_front\<close> then reads is the new one.\<close>

theorem highest_threads_are_fronts:
  assumes "sched_ok (world u) (A, P)" "P 0 = None" "cores_in_order u" "unhindered free P u"
    "m_scheduler_update_needed (gsc (world u))"
  shows "\<exists>cores u'. update_highest_priority_threads_with_context order free True cur u = Some (cores, u') \<and>
    (\<forall>k < length (schedulers u). get_scheduled_front (int k) (queue_of (world u')) =
       Some (highest_priority_thread_id (schedulers u' ! k)))"
proof -
  obtain cores u' AP' where u: "update_highest_priority_threads_impl order free True cur u = Some (cores, u')"
    "sched_ok (world u') AP'"
    "\<forall>k < length (schedulers u). highest_priority_thread_id (schedulers u' ! k) = first_of (order_of (fst AP') True k)"
    using update_impl_ok [where plain = True, OF assms(1-3)] assms(4) by blast
  have "get_scheduled_front (int k) (queue_of (world u')) = Some (highest_priority_thread_id (schedulers u' ! k))"
    if "k < length (schedulers u)" for k
  proof -
    have "rep (queue_of (world u')) (fst AP') (snd AP')" "k < NUM_CORES"
      using u(2) assms(3) that by (auto simp: sched_ok_def cores_in_order_def)
    from front_ok [OF this, where s = True] show ?thesis
      using u(3) that by (simp add: get_scheduled_front_def sel_def)
  qed
  then show ?thesis using u(1) assms(5) by (auto simp: update_highest_priority_threads_with_context_def)
qed

text \<open>Thread 101 runs on core 0 before thread 100 and may also run on the idle core 2.\<close>

definition wait_ops :: "pq_op list" where
  "wait_ops = [Push_Back 100 (example_thread 59 0 1), Push_Back 101 (example_thread 44 0 5)]"

definition waiting_threads :: "KPriorityQueue \<Rightarrow> UpdateState" where
  "waiting_threads q =
     \<lparr>world = \<lparr>gsc = \<lparr>m_scheduler_update_needed = True, m_priority_queue = q, m_woken_dummy_threads = Mapping.empty,
          m_thread_list = [(100, 7), (101, 8)]\<rparr>,
        thread_at = (\<lambda>_. \<lparr>core_id = 0, dummy_thread_wait = False, thread_last_tick = 0, num_kernel_waiters = 0,
          thread_parent = None, raw_state = RUNNABLE, is_dummy_thread = False\<rparr>), schedule_count = (\<lambda>_. 0)\<rparr>,
      schedulers = map (\<lambda>k. \<lparr>sched_core_id = int k, highest_priority_thread_id = None, needs_scheduling = False,
          should_count_idle = True, idle_count = 0, has_core_timing = True\<rparr>) [0, 1, 2, 3],
      processes = (\<lambda>_. \<lparr>pinned_threads = (\<lambda>_. None), running_threads = (\<lambda>_. None),
          running_thread_idle_counts = (\<lambda>_. 0), running_thread_switch_counts = (\<lambda>_. 0)\<rparr>),
      clock = int, readings = 0\<rparr>"

lemma waiting_ok:
  "\<exists>q A P. pq_run rev wait_ops pq_new = Some q \<and> (A, P) = pq_specs wait_ops no_threads \<and>
    sched_ok (world (waiting_threads q)) (A, P) \<and> P 0 = None \<and> cores_in_order (waiting_threads q) \<and>
    unhindered (\<lambda>_. True) P (waiting_threads q)"
proof -
  have ops: "ops_ok wait_ops no_threads"
    by (simp add: wait_ops_def example_thread_def no_threads_def props_ok_def requeue_def LOWEST_PRIORITY_def NUM_CORES_def)
  obtain A P where AP: "pq_specs wait_ops no_threads = (A, P)" by (cases "pq_specs wait_ops no_threads")
  have P: "P = [100 \<mapsto> example_thread 59 0 1, 101 \<mapsto> example_thread 44 0 5]"
    using arg_cong [OF AP, of snd] by (auto simp: wait_ops_def no_threads_def requeue_def example_thread_def)
  from pq_run_ok [OF rep_new ops, of rev] obtain q where q: "pq_run rev wait_ops pq_new = Some q" "rep q A P"
    using AP by auto
  have "sched_ok (world (waiting_threads q)) (A, P)"
    using q(2) by (auto simp: sched_ok_def cores_agree_def waiting_threads_def get_thread_by_thread_id_def
        get_thread_list_def P example_thread_def)
  moreover have "cores_in_order (waiting_threads q)"
    by (simp add: cores_in_order_def waiting_threads_def NUM_CORES_def nth_Cons split: nat.split)
  moreover have "unhindered (\<lambda>_. True) P (waiting_threads q)"
    by (auto simp: unhindered_def waiting_threads_def movable_def P)
  moreover have "P 0 = None" by (simp add: P)
  ultimately show ?thesis using q(1) AP by auto
qed

lemma highest_threads_update_safe_witness:
  "\<exists>q cores u'. pq_run rev wait_ops pq_new = Some q \<and>
    update_highest_priority_threads_impl rev (\<lambda>_. True) True None (waiting_threads q) = Some (cores, u') \<and>
    \<not> m_scheduler_update_needed (gsc (world u'))"
proof -
  obtain q A P where q: "pq_run rev wait_ops pq_new = Some q" "sched_ok (world (waiting_threads q)) (A, P)" "P 0 = None"
    "cores_in_order (waiting_threads q)" using waiting_ok by blast
  from highest_threads_update_safe [OF q(2-4), of rev "\<lambda>_. True" None] show ?thesis using q(1) by blast
qed

lemma highest_threads_are_fronts_witness:
  "\<exists>q cores u'. pq_run rev wait_ops pq_new = Some q \<and>
    update_highest_priority_threads_with_context rev (\<lambda>_. True) True None (waiting_threads q) = Some (cores, u') \<and>
    get_scheduled_front 2 (queue_of (world u')) = Some (highest_priority_thread_id (schedulers u' ! 2))"
proof -
  obtain q A P where q: "pq_run rev wait_ops pq_new = Some q" "sched_ok (world (waiting_threads q)) (A, P)" "P 0 = None"
    "cores_in_order (waiting_threads q)" "unhindered (\<lambda>_. True) P (waiting_threads q)" using waiting_ok by blast
  have n: "m_scheduler_update_needed (gsc (world (waiting_threads q)))" "length (schedulers (waiting_threads q)) = 4"
    by (simp_all add: waiting_threads_def)
  from highest_threads_are_fronts [OF q(2-5) n(1), of rev None] obtain cores u' where u:
    "update_highest_priority_threads_with_context rev (\<lambda>_. True) True None (waiting_threads q) = Some (cores, u')"
    "\<forall>k < 4. get_scheduled_front (int k) (queue_of (world u')) = Some (highest_priority_thread_id (schedulers u' ! k))"
    unfolding n(2) by blast
  from spec [OF u(2), of 2] show ?thesis using q(1) u(1) by simp
qed

section \<open>A candidate whose lock is taken\<close>

text \<open>The only thread suggested to core \<open>k\<close> runs on core \<open>c\<close>, which has a second thread: that one becomes
  the top of core \<open>c\<close> before the lock of the first is tried, and stays it.\<close>

lemma fill_core_locked:
  assumes "choice_inv unpinned T0 S0 {..<NUM_CORES} (A, P) (tops, cores, u)" "k < NUM_CORES" "c < NUM_CORES" "P 0 = None"
    "order_of A False k = [i]" "tops c = Some i" "order_of A True c = i # j # xs" "\<not> movable free T0 i"
  shows "\<exists>cores' u' AP'. fill_core order free (int k) (tops, cores, u) = Some (tops(c := Some j), cores', u') \<and>
    fst AP' = A \<and> choice_inv unpinned T0 S0 {..<NUM_CORES} AP' (tops(c := Some j), cores', u')"
proof -
  note d = choice_invD [OF assms(1)]
  note r = sched_okD [OF d(1)]
  have mem: "i \<in> set (order_of A True c)" "i \<in> set (order_of A False k)" using assms(5,7) by simp_all
  obtain pr where pr: "P i = Some pr" "tp_active_core pr = int c" "bit (tp_affinity pr) k" "c \<noteq> k"
    using mem order_of_ok(1) [OF r(1) assms(3), of i True] order_of_ok(1) [OF r(1) assms(2), of i False] by auto
  have i0: "i \<noteq> 0" using pr(1) assms(4) by (cases "i = 0") simp_all
  have f: "get_suggested_front (int k) (queue_of (world u)) = Some (Some i)"
    using level_fronts(3) [OF r(1) assms(2), of 0] assms(5) by simp
  have t: "top_of (int c) tops = Some (Some i)" using top_of_ok [of "int c" tops] assms(3,6) by simp
  have "get_suggested_next (int k) i (tp_priority pr) (queue_of (world u)) = Some None"
    using suggested_next_ok [OF r(1) assms(2) _ pr(1), of "[]" "[]"] assms(5) by simp
  then have loop: "suggested_loop order free k i [] (tops, cores, u) = Some (0, [int c], tops, cores, u)"
    by (subst suggested_loop.simps) (use t pr(2) in \<open>simp add: r(2) pr(1) Let_def NUM_CORES_def\<close>)
  have n: "get_scheduled_next (int c) i (tp_priority pr) (queue_of (world u)) = Some (Some j)"
    using next_ok [OF r(1) assms(3) pr(1) mem(1)] assms(7) by (simp add: get_scheduled_next_def sel_def successor_def)
  obtain cores1 u1 AP1 where st1: "note_top c (tops(c := Some j), cores, u) = Some (tops(c := Some j), cores1, u1)"
    "fst AP1 = A" "choice_inv unpinned T0 S0 (insert c {..<NUM_CORES}) AP1 (tops(c := Some j), cores1, u1)"
    using note_top_ok [OF assms(1,3), of "Some j"] by auto
  have inv1: "choice_inv unpinned T0 S0 {..<NUM_CORES} AP1 (tops(c := Some j), cores1, u1)"
    using st1(3) assms(3) by (simp add: insert_absorb)
  have "\<not> (\<exists>a. get_thread_by_thread_id i (world u1) = Some a \<and> free a)"
    using movable_thread [OF choice_invD(2) [OF inv1]] assms(8) by blast
  then have "candidate_loop order free k [int c] (tops, cores, u) = Some (tops(c := Some j), cores1, u1)"
    using t n st1(1) pr(1) by (simp add: r(2) split: option.split)
  then have "fill_core order free (int k) (tops, cores, u) = Some (tops(c := Some j), cores1, u1)"
    using f loop by (simp add: fill_core_def)
  then show ?thesis using st1(2) inv1 by blast
qed

lemma fill_cores_none:
  assumes "choice_inv unpinned T0 S0 K (A, P) st" "set cs \<subseteq> {..<NUM_CORES}" "\<And>c. c \<in> set cs \<Longrightarrow> order_of A False c = []"
  shows "each (fill_core order free) cs st = Some st"
  using assms(2,3)
proof (induction cs)
  case (Cons c cs)
  obtain tops cores u where st: "st = (tops, cores, u)" by (cases st)
  have "get_suggested_front (int c) (queue_of (world u)) = Some None"
    using level_fronts(3) [OF sched_okD(1) [OF choice_invD(1) [OF assms(1) [unfolded st]]], of c 0] Cons.prems by simp
  then show ?case using Cons st by (simp add: fill_core_def)
qed simp

lemma each_append: "each f (xs @ ys) st = Option.bind (each f xs st) (each f ys)"
  by (induction xs arbitrary: st) (simp_all add: Option.bind_assoc fun_eq_iff cong: Option.bind_cong)

text \<open>C31: the lock of a candidate is tried only after the thread behind it was made the top of their core.
  When that lock is taken the candidate stays on its core, but the scheduler of the core is left with the
  second thread: it runs a thread that is not the front of its queue, and nothing asks for another update.\<close>

theorem locked_candidate_loses_core:
  assumes "sched_ok (world u) (A, P)" "P 0 = None" "cores_in_order u" "\<And>p c. pinned_threads (processes u p) c = None"
    "k < NUM_CORES" "c < length (schedulers u)" "order_of A True c = i # j # xs" "order_of A False k = [i]"
    "\<And>k'. k' < NUM_CORES \<Longrightarrow> order_of A True k' = [] \<Longrightarrow> k' \<noteq> k \<Longrightarrow> order_of A False k' = []"
    "order_of A True k = []" "\<not> movable free (m_thread_list (gsc (world u))) i"
  shows "\<exists>cores u'. update_highest_priority_threads_impl order free True cur u = Some (cores, u') \<and>
    get_scheduled_front (int c) (queue_of (world u')) = Some (Some i) \<and>
    highest_priority_thread_id (schedulers u' ! c) = Some j \<and> \<not> m_scheduler_update_needed (gsc (world u'))"
proof -
  define T0 where "T0 = m_thread_list (gsc (world u))"
  have c: "c < NUM_CORES" using assms(3,6) by (simp add: cores_in_order_def)
  obtain idle tops cores u1 AP1 where s: "select_tops [0..<NUM_CORES] 0 (\<lambda>_. None, 0, fresh u) = Some (idle, tops, cores, u1)"
    "evolves (A, P) AP1" "fst AP1 = A" "choice_inv True T0 (schedulers u) {..<NUM_CORES} AP1 (tops, cores, u1)" "fronts A tops"
    "\<And>c. bit idle c \<longleftrightarrow> c < NUM_CORES \<and> order_of A True c = []"
    using selected_ok [where plain = True, OF assms(1,3)] assms(4) unfolding T0_def by fastforce
  obtain P1 where AP1: "AP1 = (A, P1)" using s(3) by (cases AP1) simp
  note inv = s(4) [unfolded AP1]
  have "k \<in> set (cores_of idle)" using assms(5,10) s(6) by (simp add: cores_of_iff)
  then obtain ys zs where split: "cores_of idle = ys @ k # zs" by (meson split_list)
  have d: "k \<notin> set ys \<union> set zs" using distinct_cores_of [of idle] split by simp
  have sub: "set ys \<subseteq> {..<NUM_CORES}" "set zs \<subseteq> {..<NUM_CORES}" "\<And>k'. k' \<in> set ys \<union> set zs \<Longrightarrow> order_of A False k' = []"
    using cores_of_iff [of _ idle] s(6) assms(9) d unfolding split by auto
  have "P1 0 = None" "tops c = Some i" using evolves_dom [OF s(2), of 0] assms(2,7) s(5) c AP1 by (simp_all add: fronts_def)
  then obtain cores2 u2 AP2 where f: "fill_core order free (int k) (tops, cores, u1) = Some (tops(c := Some j), cores2, u2)"
    "fst AP2 = A" "choice_inv True T0 (schedulers u) {..<NUM_CORES} AP2 (tops(c := Some j), cores2, u2)"
    using fill_core_locked [OF inv assms(5) c _ assms(8) _ assms(7), of free order] assms(11) T0_def by auto
  obtain P2 where AP2: "AP2 = (A, P2)" using f(2) by (cases AP2) simp
  have "each (fill_core order free) (cores_of idle) (tops, cores, u1) = Some (tops(c := Some j), cores2, u2)"
    unfolding split each_append
    using fill_cores_none [OF inv sub(1), of order free] fill_cores_none [OF f(3) [unfolded AP2] sub(2), of order free] f(1) sub(3) by simp
  from finished_ok [OF s(1) this f(3)] obtain u' where u': "update_highest_priority_threads_impl order free True cur u = Some (cores2, u')"
    "sched_ok (world u') AP2" "\<not> m_scheduler_update_needed (gsc (world u'))" "schedulers u' = schedulers u2" by blast
  have "get_scheduled_front (int c) (queue_of (world u')) = Some (Some i)"
    using front_ok [OF sched_okD(1) [OF u'(2) [unfolded AP2]] c, where s = True] assms(7) by (simp add: get_scheduled_front_def sel_def)
  moreover have "highest_priority_thread_id (schedulers u' ! c) = Some j"
    using choice_invD(8) [OF f(3), of c] u'(4) assms(6) c by simp
  ultimately show ?thesis using u'(1,3) by blast
qed

text \<open>Thread 101 of the example is locked: thread 100 gets core 0 in its place.\<close>

lemma waiting_order:
  "order_of (fst (pq_specs wait_ops no_threads)) True 0 = [101, 100]"
  "order_of (fst (pq_specs wait_ops no_threads)) True 2 = []"
  "order_of (fst (pq_specs wait_ops no_threads)) False 2 = [101]"
  "order_of (fst (pq_specs wait_ops no_threads)) False 1 = []"
  "order_of (fst (pq_specs wait_ops no_threads)) False 3 = []"
  by code_simp+

lemma locked_candidate_loses_core_witness:
  "\<exists>q cores u'. pq_run rev wait_ops pq_new = Some q \<and>
    update_highest_priority_threads_impl rev (\<lambda>a. a \<noteq> 8) True None (waiting_threads q) = Some (cores, u') \<and>
    get_scheduled_front 0 (queue_of (world u')) = Some (Some 101) \<and> highest_priority_thread_id (schedulers u' ! 0) = Some 100"
proof -
  obtain q A P where q: "pq_run rev wait_ops pq_new = Some q" "(A, P) = pq_specs wait_ops no_threads"
    "sched_ok (world (waiting_threads q)) (A, P)" "P 0 = None" "cores_in_order (waiting_threads q)"
    using waiting_ok by blast
  note o = waiting_order [folded q(2), unfolded fst_conv]
  have none: "order_of A False k' = []" if "k' < NUM_CORES" "order_of A True k' = []" "k' \<noteq> 2" for k'
  proof -
    have "k' = 0 \<or> k' = 1 \<or> k' = 3" using that(1,3) by (auto simp: NUM_CORES_def)
    then show ?thesis using o that(2) by auto
  qed
  have "\<exists>cores u'. update_highest_priority_threads_impl rev (\<lambda>a. a \<noteq> 8) True None (waiting_threads q) = Some (cores, u') \<and>
    get_scheduled_front (int 0) (queue_of (world u')) = Some (Some 101) \<and>
    highest_priority_thread_id (schedulers u' ! 0) = Some 100 \<and> \<not> m_scheduler_update_needed (gsc (world u'))"
    by (rule locked_candidate_loses_core [OF q(3-5), where k = 2 and xs = "[]"])
      (use o none in \<open>simp_all add: waiting_threads_def NUM_CORES_def movable_def\<close>)
  then show ?thesis using q(1) by auto
qed

end
