(* ===== verification/FlatAllocator.thy ===== *)
theory FlatAllocator
  imports Prelude
begin

text \<open>
  The allocator of address ranges: src/common/src/address_space.rs, which gives out the virtual
  addresses of the GPU and of the devices. \<open>FlatAddressSpaceMapBool\<close> keeps a sorted list of blocks; a
  block reaches to the start of the next one, the last without end. The trait \<open>FlatVa\<close> is the word
  length. The callback of a map is a function of the caller: what is kept of it are its calls. The
  mutex around every operation of the allocator is left out.
\<close>

record 'v AsBlock =
  virt :: "'v"
  mapped :: bool

record 'v FlatAddressSpaceMapBool =
  blocks :: "'v AsBlock list"
  map_va_limit :: "'v"
  has_unmap_callback :: bool
  unmap_calls :: "('v \<times> 'v) list"

record 'v FlatAllocatorBool =
  inner :: "'v FlatAddressSpaceMapBool"
  virt_start :: "'v"
  current_linear_alloc_end :: "'v"
  va_limit :: "'v"

section \<open>Vectors\<close>

text \<open>\<open>v[i]\<close>, \<open>insert\<close> and \<open>drain(a..b)\<close> panic outside of the vector. \<open>partition_point\<close> is used on
  vectors that are partitioned.\<close>

definition vec_at :: "'a list \<Rightarrow> nat \<Rightarrow> 'a option" where
  "vec_at xs i = (if i < length xs then Some (xs ! i) else None)"

definition vec_insert :: "nat \<Rightarrow> 'a \<Rightarrow> 'a list \<Rightarrow> 'a list option" where
  "vec_insert i x xs = (if i \<le> length xs then Some (List.take i xs @ x # drop i xs) else None)"

definition vec_drain :: "nat \<Rightarrow> nat \<Rightarrow> 'a list \<Rightarrow> 'a list option" where
  "vec_drain a b xs = (if a \<le> b \<and> b \<le> length xs then Some (List.take a xs @ drop b xs) else None)"

definition partition_point :: "('a \<Rightarrow> bool) \<Rightarrow> 'a list \<Rightarrow> nat" where
  "partition_point p xs = length (takeWhile p xs)"

definition as_block :: "'v::len word \<Rightarrow> bool \<Rightarrow> 'v word AsBlock" where
  "as_block v m = \<lparr>virt = v, mapped = m\<rparr>"

section \<open>The map\<close>

definition flat_map_new :: "'v::len word \<Rightarrow> bool \<Rightarrow> 'v word FlatAddressSpaceMapBool" where
  "flat_map_new limit cb = \<lparr>blocks = [as_block 0 False], map_va_limit = limit, has_unmap_callback = cb, unmap_calls = []\<rparr>"

definition call_unmap :: "'v::len word \<Rightarrow> 'v word \<Rightarrow> 'v word FlatAddressSpaceMapBool \<Rightarrow> 'v word FlatAddressSpaceMapBool" where
  "call_unmap v sz m = (if has_unmap_callback m then m\<lparr>unmap_calls := unmap_calls m @ [(v, sz)]\<rparr> else m)"

text \<open>\<open>while idx > 0 && self.blocks[idx - 1].virt >= virt\<close>.\<close>

fun walk_back :: "'v::len word \<Rightarrow> 'v word AsBlock list \<Rightarrow> nat \<Rightarrow> nat option" where
  "walk_back v bs 0 = Some 0"
| "walk_back v bs (Suc j) = do { b \<leftarrow> vec_at bs j; if v \<le> virt b then walk_back v bs j else Some (Suc j) }"

definition finish_map :: "'v::len word \<Rightarrow> nat \<Rightarrow> 'v word \<Rightarrow> 'v word FlatAddressSpaceMapBool \<Rightarrow> 'v word FlatAddressSpaceMapBool option" where
  "finish_map v block_end_succ sz m = do {
     let bs = blocks m;
     start_succ \<leftarrow> walk_back v bs block_end_succ;
     s \<leftarrow> vec_at bs start_succ;
     bs \<leftarrow> (if v + sz < virt s then None
       else if virt s = v + sz then vec_insert start_succ (as_block v True) bs
       else do {
         bs \<leftarrow> (if start_succ + 1 < block_end_succ then vec_drain (start_succ + 1) block_end_succ bs else Some bs);
         Some (bs[start_succ := as_block v True]) });
     Some (call_unmap v sz (m\<lparr>blocks := bs\<rparr>)) }"

definition map_locked :: "'v::len word \<Rightarrow> 'v word \<Rightarrow> 'v word FlatAddressSpaceMapBool \<Rightarrow> 'v word FlatAddressSpaceMapBool option" where
  "map_locked v sz m = do {
     let bs = blocks m;
     let v_end = v + sz;
     guard_panic (v_end \<le> map_va_limit m);
     let succ = partition_point (\<lambda>b. virt b < v_end) bs;
     guard_panic (0 < succ);
     let pred = succ - 1;
     p \<leftarrow> vec_at bs pred;
     if succ < length bs then
       (if virt (bs ! succ) \<noteq> v_end then
          if 0 < pred \<and> v \<le> virt p then
            finish_map v pred sz (m\<lparr>blocks := bs[pred := as_block v_end (mapped p)]\<rparr>)
          else do {
            bs \<leftarrow> vec_insert succ (as_block v_end (mapped p)) bs;
            bs \<leftarrow> vec_insert succ (as_block v True) bs;
            Some (call_unmap v sz (m\<lparr>blocks := bs\<rparr>)) }
        else finish_map v succ sz m)
     else if 0 < pred \<and> v \<le> virt p then finish_map v pred sz (m\<lparr>blocks := bs[pred := p\<lparr>virt := v_end\<rparr>]\<rparr>)
     else do {
       let bs = bs @ [as_block v_end False];
       bs \<leftarrow> vec_insert (length bs - 1) (as_block v True) bs;
       Some (call_unmap v sz (m\<lparr>blocks := bs\<rparr>)) } }"

text \<open>\<open>a..b\<close> is drained only when it is not empty.\<close>

definition drain_if :: "nat \<Rightarrow> nat \<Rightarrow> 'a list \<Rightarrow> 'a list option" where
  "drain_if a b xs = (if a < b then vec_drain a b xs else Some xs)"

definition erase_blocks_with_end_unmapped :: "'v::len word \<Rightarrow> nat \<Rightarrow> 'v word AsBlock list \<Rightarrow> 'v word AsBlock list option" where
  "erase_blocks_with_end_unmapped v unmapped_end bs = do {
     idx \<leftarrow> walk_back v bs unmapped_end;
     let start_pred = (if 0 < idx then idx - 1 else 0);
     let start_succ = start_pred + 1;
     p \<leftarrow> vec_at bs start_pred;
     if \<not> mapped p then drain_if start_succ (min (unmapped_end + 1) (length bs)) bs
     else do {
       e \<leftarrow> vec_at bs unmapped_end;
       let bs = bs[unmapped_end := e\<lparr>virt := v\<rparr>];
       drain_if start_succ (min unmapped_end (length bs)) bs } }"

definition finish_unmap :: "'v::len word \<Rightarrow> 'v word \<Rightarrow> nat \<Rightarrow> 'v word FlatAddressSpaceMapBool \<Rightarrow> 'v word FlatAddressSpaceMapBool option" where
  "finish_unmap v sz block_end_succ m = do {
     let bs = blocks m;
     idx \<leftarrow> walk_back v bs block_end_succ;
     let start_pred = (if 0 < idx then idx - 1 else 0);
     let start_succ = start_pred + 1;
     let v_end = v + sz;
     guard_panic (\<not> (start_succ < length bs \<and> v_end < virt (bs ! start_succ)));
     p \<leftarrow> vec_at bs start_pred;
     bs \<leftarrow> (if start_succ < length bs \<and> virt (bs ! start_succ) = v_end then
         (if mapped p then vec_insert start_succ (as_block v False) bs else Some bs)
       else if \<not> mapped p then drain_if start_succ (min block_end_succ (length bs)) bs
       else do {
         bs \<leftarrow> drain_if (start_succ + 1) (min block_end_succ (length bs)) bs;
         Some (if start_succ < length bs then bs[start_succ := as_block v False] else bs) });
     Some (call_unmap v sz (m\<lparr>blocks := bs\<rparr>)) }"

definition unmap_locked :: "'v::len word \<Rightarrow> 'v word \<Rightarrow> 'v word FlatAddressSpaceMapBool \<Rightarrow> 'v word FlatAddressSpaceMapBool option" where
  "unmap_locked v sz m = do {
     let bs = blocks m;
     let v_end = v + sz;
     guard_panic (v_end \<le> map_va_limit m);
     let succ = partition_point (\<lambda>b. virt b < v_end) bs;
     guard_panic (0 < succ);
     let pred = succ - 1;
     p \<leftarrow> vec_at bs pred;
     if \<not> mapped p then do {
       bs \<leftarrow> (if v < virt p then erase_blocks_with_end_unmapped v pred bs else Some bs);
       Some (call_unmap v sz (m\<lparr>blocks := bs\<rparr>)) }
     else if succ < length bs \<and> virt (bs ! succ) = v_end \<and> \<not> mapped (bs ! succ) then do {
       bs \<leftarrow> erase_blocks_with_end_unmapped v succ bs;
       Some (call_unmap v sz (m\<lparr>blocks := bs\<rparr>)) }
     else do {
       s \<leftarrow> vec_at bs succ;
       if virt s \<noteq> v_end then
         (if v \<le> virt p then finish_unmap v sz pred (m\<lparr>blocks := bs[pred := as_block v_end True]\<rparr>)
          else do {
            bs \<leftarrow> vec_insert succ (as_block v_end True) bs;
            bs \<leftarrow> vec_insert succ (as_block v False) bs;
            Some (call_unmap v sz (m\<lparr>blocks := bs\<rparr>)) })
       else finish_unmap v sz succ m } }"

section \<open>The allocator\<close>

definition flat_allocator_new :: "'v::len word \<Rightarrow> 'v word \<Rightarrow> 'v word FlatAllocatorBool" where
  "flat_allocator_new start limit = \<lparr>inner = flat_map_new limit False, virt_start = start,
     current_linear_alloc_end = start, va_limit = limit\<rparr>"

text \<open>The search past fixed mappings; the end of the last block is open.\<close>

function skip_fixed :: "'v::len word AsBlock list \<Rightarrow> 'v word \<Rightarrow> 'v word \<Rightarrow> nat \<Rightarrow> nat \<Rightarrow> 'v word option" where
  "skip_fixed bs limit sz pred succ =
     (if succ < length bs then
        if sz \<le> virt (bs ! succ) - virt (bs ! pred) \<and> \<not> mapped (bs ! pred) then Some (virt (bs ! pred))
        else if succ + 1 = length bs then
          (let e = virt (bs ! succ) + sz in if virt (bs ! succ) \<le> e \<and> e \<le> limit then Some (virt (bs ! succ)) else None)
        else skip_fixed bs limit sz succ (succ + 1)
      else None)"
  by auto
termination by (relation "measure (\<lambda>(bs, limit, sz, pred, succ). length bs - succ)") auto

function find_gap :: "'v::len word AsBlock list \<Rightarrow> 'v word \<Rightarrow> nat \<Rightarrow> nat \<Rightarrow> nat option" where
  "find_gap bs sz pred succ =
     (if succ < length bs then
        if sz \<le> virt (bs ! succ) - virt (bs ! pred) \<and> \<not> mapped (bs ! pred) then Some pred
        else find_gap bs sz succ (succ + 1)
      else None)"
  by auto
termination by (relation "measure (\<lambda>(bs, sz, pred, succ). length bs - succ)") auto

declare skip_fixed.simps [simp del] find_gap.simps [simp del]

definition linear_start :: "'v::len word \<Rightarrow> 'v word FlatAllocatorBool \<Rightarrow> 'v word option option" where
  "linear_start sz fa =
     (let cur = current_linear_alloc_end fa; alloc_end = cur + sz; bs = blocks (inner fa) in
      if cur \<le> alloc_end \<and> alloc_end \<le> va_limit fa then do {
        let succ = partition_point (\<lambda>b. virt b < alloc_end) bs;
        guard_panic (succ \<noteq> 0);
        Some (if virt (bs ! (succ - 1)) \<le> cur then Some cur
          else skip_fixed bs (va_limit fa) sz (succ - 1) succ) }
      else Some None)"

definition allocate :: "'v::len word \<Rightarrow> 'v word FlatAllocatorBool \<Rightarrow> ('v word option \<times> 'v word FlatAllocatorBool) option" where
  "allocate sz fa = do {
     alloc_start \<leftarrow> linear_start sz fa;
     case alloc_start of
       Some start \<Rightarrow> do {
         m \<leftarrow> map_locked start sz (inner fa);
         Some (Some start, fa\<lparr>inner := m, current_linear_alloc_end := start + sz\<rparr>) }
     | None \<Rightarrow> do {
         let bs = blocks (inner fa);
         guard_panic (2 < length bs);
         case find_gap bs sz 1 2 of
           Some pred \<Rightarrow> do {
             m \<leftarrow> map_locked (virt (bs ! pred)) sz (inner fa);
             Some (Some (virt (bs ! pred)), fa\<lparr>inner := m\<rparr>) }
         | None \<Rightarrow> Some (None, fa) } }"

definition allocate_fixed :: "'v::len word \<Rightarrow> 'v word \<Rightarrow> 'v word FlatAllocatorBool \<Rightarrow> 'v word FlatAllocatorBool option" where
  "allocate_fixed v sz fa = do { m \<leftarrow> map_locked v sz (inner fa); Some (fa\<lparr>inner := m\<rparr>) }"

definition flat_free :: "'v::len word \<Rightarrow> 'v word \<Rightarrow> 'v word FlatAllocatorBool \<Rightarrow> 'v word FlatAllocatorBool option" where
  "flat_free v sz fa = do { m \<leftarrow> unmap_locked v sz (inner fa); Some (fa\<lparr>inner := m\<rparr>) }"

definition get_va_start :: "'v::len word FlatAllocatorBool \<Rightarrow> 'v word" where
  "get_va_start fa = virt_start fa"

definition get_va_limit :: "'v::len word FlatAllocatorBool \<Rightarrow> 'v word" where
  "get_va_limit fa = va_limit fa"

end
