(* ===== verification/FlatAllocatorProps.thy ===== *)
theory FlatAllocatorProps
  imports FlatAllocator
begin

text \<open>
  The blocks of the address space as a set of addresses: mapping a range adds it, unmapping removes it,
  and what the allocator gives out.
\<close>

section \<open>Sorted blocks\<close>

text \<open>Whether an address is mapped: the last block that starts at or before it says so.\<close>

definition cover :: "bool \<Rightarrow> 'v::len word AsBlock list \<Rightarrow> 'v word \<Rightarrow> bool" where
  "cover d bs x = fold (\<lambda>b d. if virt b \<le> x then mapped b else d) bs d"

abbreviation covered :: "'v::len word AsBlock list \<Rightarrow> 'v word \<Rightarrow> bool" where
  "covered \<equiv> cover False"

definition blocks_ok :: "'v::len word AsBlock list \<Rightarrow> bool" where
  "blocks_ok bs \<longleftrightarrow> bs \<noteq> [] \<and> virt (hd bs) = 0 \<and> \<not> mapped (hd bs) \<and> \<not> mapped (last bs) \<and> sorted_wrt (\<lambda>a b. virt a < virt b) bs"

lemma cover_simps [simp]:
  "cover d [] x = d" "cover d (b # bs) x = cover (if virt b \<le> x then mapped b else d) bs x"
  "cover d (xs @ ys) x = cover (cover d xs x) ys x"
  by (simp_all add: cover_def)

lemma cover_above: "\<forall>b \<in> set bs. x < virt b \<Longrightarrow> cover d bs x = d"
  by (induction bs arbitrary: d) auto

lemma cover_below: "bs \<noteq> [] \<Longrightarrow> \<forall>b \<in> set bs. virt b \<le> x \<Longrightarrow> cover d bs x = mapped (last bs)"
  by (induction bs arbitrary: d rule: rev_induct) auto

lemma as_block_simps [simp]: "virt (as_block v m) = v" "mapped (as_block v m) = m"
  by (simp_all add: as_block_def)

text \<open>The blocks before, inside and after a range.\<close>

definition parts :: "'v::len word \<Rightarrow> 'v word \<Rightarrow> 'v word AsBlock list \<Rightarrow> 'v word AsBlock list \<Rightarrow> 'v word AsBlock list \<Rightarrow> bool" where
  "parts v e xs ms zs \<longleftrightarrow> xs \<noteq> [] \<and> (\<forall>b \<in> set xs. virt b < v) \<and> (\<forall>b \<in> set ms. v \<le> virt b \<and> virt b < e) \<and> (\<forall>b \<in> set zs. e \<le> virt b)"

lemma sorted_parts:
  fixes bs :: "'v::len word AsBlock list"
  assumes "sorted_wrt (\<lambda>a b. virt a < virt b) bs" "v \<le> e"
  shows "\<exists>xs ms zs. bs = xs @ ms @ zs \<and> (\<forall>b \<in> set xs. virt b < v) \<and> (\<forall>b \<in> set ms. v \<le> virt b \<and> virt b < e) \<and> (\<forall>b \<in> set zs. e \<le> virt b)"
  using assms(1)
proof (induction bs)
  case (Cons b bs)
  then obtain xs ms zs where IH: "bs = xs @ ms @ zs" "\<forall>b \<in> set xs. virt b < v" "\<forall>b \<in> set ms. v \<le> virt b \<and> virt b < e" "\<forall>b \<in> set zs. e \<le> virt b"
    by auto
  have less: "\<And>c. c \<in> set bs \<Longrightarrow> virt b < virt c" using Cons.prems by simp
  consider "virt b < v" | "v \<le> virt b" "virt b < e" | "e \<le> virt b" by (meson not_le)
  then show ?case
  proof cases
    case 1
    then show ?thesis using IH by (intro exI [of _ "b # xs"] exI [of _ ms] exI [of _ zs]) simp
  next
    case 2
    then have "xs = []" using IH(1,2) less by (cases xs) force+
    then show ?thesis using 2 IH by (intro exI [of _ "[]"] exI [of _ "b # ms"] exI [of _ zs]) simp
  next
    case 3
    then have "xs = []" "ms = []" using IH(1-3) less assms(2) by (cases xs; cases ms; force)+
    then show ?thesis using 3 IH by (intro exI [of _ "[]"] exI [of _ "[]"] exI [of _ "b # zs"]) simp
  qed
qed simp

lemma ok_parts:
  assumes "blocks_ok bs" "0 < v" "v < e"
  shows "\<exists>xs ms zs. bs = xs @ ms @ zs \<and> parts v e xs ms zs"
proof -
  obtain xs ms zs where s: "bs = xs @ ms @ zs" "\<forall>b \<in> set xs. virt b < v" "\<forall>b \<in> set ms. v \<le> virt b \<and> virt b < e" "\<forall>b \<in> set zs. e \<le> virt b"
    using sorted_parts [of bs v e] assms(1) order.strict_implies_order [OF assms(3)] unfolding blocks_ok_def by blast
  have "xs \<noteq> []"
  proof
    assume "xs = []"
    then have "hd bs \<in> set ms \<union> set zs" using s(1) assms(1) hd_in_set [of bs] by (simp add: blocks_ok_def)
    then have "v \<le> virt (hd bs)" using s(3,4) assms(3) by fastforce
    then show False using assms(1,2) by (simp add: blocks_ok_def)
  qed
  then show ?thesis using s by (auto simp: parts_def)
qed

text \<open>What a change of the range to \<open>B\<close> makes of the blocks.\<close>

definition replaced :: "'v::len word \<Rightarrow> 'v word \<Rightarrow> bool \<Rightarrow> 'v word AsBlock list \<Rightarrow> 'v word AsBlock list \<Rightarrow> 'v word AsBlock list
    \<Rightarrow> 'v word AsBlock list \<Rightarrow> 'v word AsBlock list \<Rightarrow> bool" where
  "replaced v e B xs ms zs ms' zs' \<longleftrightarrow>
     ((\<exists>b. ms' = [b] \<and> virt b = v \<and> mapped b = B) \<or> ms' = [] \<and> mapped (last xs) = B) \<and>
     (zs' = zs \<and> (mapped (last (xs @ ms)) = B \<or> zs \<noteq> [] \<and> virt (hd zs) = e) \<or>
      zs' = as_block e (mapped (last (xs @ ms))) # zs \<and> (zs = [] \<or> virt (hd zs) \<noteq> e) \<or>
      (\<exists>z. zs = z # zs' \<and> virt z = e \<and> mapped z = B))"

lemma replaced_ok:
  assumes "blocks_ok (xs @ ms @ zs)" "parts v e xs ms zs" "v < e" "replaced v e B xs ms zs ms' zs'"
  shows "blocks_ok (xs @ ms' @ zs')"
    "covered (xs @ ms' @ zs') x = (if v \<le> x \<and> x < e then B else covered (xs @ ms @ zs) x)"
proof -
  note p = assms(2) [unfolded parts_def]
  have srt: "sorted_wrt (\<lambda>a b. virt a < virt b) xs" "sorted_wrt (\<lambda>a b. virt a < virt b) zs"
    using assms(1) by (simp_all add: blocks_ok_def sorted_wrt_append)
  have ms': "\<forall>b \<in> set ms'. virt b = v" "sorted_wrt (\<lambda>a b. virt a < virt b) ms'" using assms(4) by (auto simp: replaced_def)
  have zs': "\<forall>b \<in> set zs'. e \<le> virt b" "sorted_wrt (\<lambda>a b. virt a < virt b) zs'"
  proof -
    show "\<forall>b \<in> set zs'. e \<le> virt b" using p assms(4) by (auto simp: replaced_def)
    have "\<forall>b \<in> set zs. e < virt b" if "zs = [] \<or> virt (hd zs) \<noteq> e"
    proof (cases zs)
      case (Cons z ys)
      then have "e < virt z" using that p by fastforce
      then show ?thesis using Cons srt(2) by auto
    qed simp
    then show "sorted_wrt (\<lambda>a b. virt a < virt b) zs'" using srt(2) assms(4) by (auto simp: replaced_def)
  qed
  have "\<not> mapped (last (xs @ ms' @ zs'))"
    using assms(1,4) p by (cases zs; cases ms) (auto simp: blocks_ok_def replaced_def split: if_splits)
  moreover have "sorted_wrt (\<lambda>a b. virt a < virt b) (xs @ ms' @ zs')"
    using srt(1) ms' zs' p assms(3) unfolding sorted_wrt_append by fastforce
  ultimately show "blocks_ok (xs @ ms' @ zs')" using assms(1) p by (simp add: blocks_ok_def)
  show "covered (xs @ ms' @ zs') x = (if v \<le> x \<and> x < e then B else covered (xs @ ms @ zs) x)"
  proof -
    consider "x < v" | "v \<le> x" "x < e" | "e \<le> x" by (meson not_le)
    then show ?thesis
    proof cases
      case 1
      have "\<forall>b \<in> set (ms' @ zs'). x < virt b" "\<forall>b \<in> set (ms @ zs). x < virt b" using 1 ms'(1) zs'(1) p assms(3) by fastforce+
      moreover have "\<not> v \<le> x" using 1 by simp
      ultimately show ?thesis using cover_above [of "ms' @ zs'"] cover_above [of "ms @ zs"] by simp
    next
      case 2
      have "\<forall>b \<in> set zs'. x < virt b" "\<forall>b \<in> set xs. virt b \<le> x" using 2 zs'(1) p by fastforce+
      then show ?thesis using 2 p assms(4) cover_above [of zs'] cover_below [of xs x] by (auto simp: replaced_def)
    next
      case 3
      have b: "\<forall>b \<in> set (xs @ ms). virt b \<le> x" "\<forall>b \<in> set (xs @ ms'). virt b \<le> x" using 3 p ms'(1) assms(3) by fastforce+
      have c: "cover False (xs @ ms) x = mapped (last (xs @ ms))" "cover False (xs @ ms') x = mapped (last (xs @ ms'))"
        by (rule cover_below; use p b in simp)+
      have l: "mapped (last (xs @ ms')) = B" using assms(4) by (auto simp: replaced_def)
      have "cover B zs' x = cover (mapped (last (xs @ ms))) zs x"
        using assms(4) 3 unfolding replaced_def by (cases zs) auto
      moreover have "covered (xs @ ms' @ zs') x = cover (cover False (xs @ ms') x) zs' x"
        "covered (xs @ ms @ zs) x = cover (cover False (xs @ ms) x) zs x" by simp_all
      moreover have "\<not> x < e" using 3 by simp
      ultimately show ?thesis using c l by simp
    qed
  qed
qed

lemma replaced_bound:
  assumes "replaced v e B xs ms zs ms' zs'" "v < e" "e \<le> L" "\<forall>b \<in> set (xs @ ms @ zs). virt b \<le> L"
  shows "\<forall>b \<in> set (xs @ ms' @ zs'). virt b \<le> L"
proof -
  have "v \<le> L" using assms(2,3) by simp
  then show ?thesis using assms by (auto simp: replaced_def)
qed

section \<open>Positions\<close>

lemma vec_simps [simp]:
  "vec_at (xs @ y # ys) (length xs) = Some y" "vec_insert (length xs) y (xs @ ys) = Some (xs @ y # ys)"
  "vec_drain (length xs) (length xs + length ms) (xs @ ms @ ys) = Some (xs @ ys)"
  by (simp_all add: vec_at_def vec_insert_def vec_drain_def)

lemma vec_Suc [simp]:
  "vec_drain (Suc (length xs)) (Suc (length xs + length ms)) (xs @ m # ms @ ys) = Some (xs @ m # ys)"
  "vec_at (xs @ ms @ y # ys) (length xs + length ms) = Some y"
  "vec_insert (length xs + length ms) y (xs @ ms @ ys) = Some (xs @ ms @ y # ys)"
  using vec_simps(3) [of "xs @ [m]" ms ys] vec_simps(1) [of "xs @ ms" y ys] vec_simps(2) [of "xs @ ms" y ys] by simp_all

lemma vec_last:
  assumes "xs \<noteq> []"
  shows "vec_at (xs @ ms @ zs) (length xs + length ms - 1) = Some (last (xs @ ms))"
proof -
  have "xs @ ms \<noteq> []" using assms by simp
  then have "xs @ ms @ zs = butlast (xs @ ms) @ last (xs @ ms) # zs" by (metis append_butlast_last_id append.assoc append_Cons append_Nil)
  moreover have "length xs + length ms - 1 = length (butlast (xs @ ms))" by simp
  ultimately show ?thesis by (metis vec_simps(1))
qed

lemma partition_parts:
  assumes "parts v e xs ms zs" "v < e"
  shows "partition_point (\<lambda>b. virt b < e) (xs @ ms @ zs) = length xs + length ms"
proof -
  have a: "\<forall>b \<in> set (xs @ ms). virt b < e" using assms by (fastforce simp: parts_def)
  have "takeWhile (\<lambda>b. virt b < e) zs = []" using assms(1) by (cases zs) (auto simp: parts_def)
  then have "takeWhile (\<lambda>b. virt b < e) ((xs @ ms) @ zs) = xs @ ms" using a by (subst takeWhile_append2) auto
  then show ?thesis by (simp add: partition_point_def)
qed

lemma walk_back_ok:
  fixes v :: "'v::len word"
  assumes "xs \<noteq> []" "\<forall>b \<in> set xs. virt b < v" "\<forall>b \<in> set ms. v \<le> virt b"
  shows "walk_back v (xs @ ms @ ys) (length xs + length ms) = Some (length xs)"
  using assms(3)
proof (induction ms arbitrary: ys rule: rev_induct)
  case Nil
  obtain ws w where xs: "xs = ws @ [w]" using assms(1) by (cases xs rule: rev_cases) auto
  have "\<not> v \<le> virt w" using assms(2) xs by (simp add: not_le)
  then show ?case using xs by simp
next
  case (snoc m ms)
  have "walk_back v (xs @ ms @ m # ys) (length xs + length ms) = Some (length xs)" using snoc by simp
  then show ?case using snoc.prems by simp
qed

section \<open>Mapping\<close>

lemma finish_map_ok:
  assumes "parts v e xs ms (z # zs)" "virt z = e" "e = v + sz" "blocks m = xs @ ms @ z # zs"
  shows "finish_map v (length xs + length ms) sz m = Some (call_unmap v sz (m\<lparr>blocks := xs @ as_block v True # z # zs\<rparr>))"
proof -
  note p = assms(1) [unfolded parts_def]
  have w: "walk_back v (blocks m) (length xs + length ms) = Some (length xs)"
    unfolding assms(4) by (rule walk_back_ok) (use p in auto)
  show ?thesis
  proof (cases ms)
    case Nil
    then show ?thesis using w assms(2,3) by (simp add: finish_map_def assms(4))
  next
    case (Cons b bs)
    have "virt b < e" using p Cons by simp
    moreover have "\<not> e < virt b" "virt b \<noteq> e" using \<open>virt b < e\<close> by auto
    moreover have "vec_at (blocks m) (length xs) = Some b" using assms(4) Cons by simp
    moreover have "(if length xs + 1 < length xs + length ms then vec_drain (length xs + 1) (length xs + length ms) (blocks m)
      else Some (blocks m)) = Some (xs @ b # z # zs)"
      using Cons assms(4) vec_Suc(1) [where xs = xs and m = b and ms = bs and ys = "z # zs"] by (cases bs) simp_all
    ultimately show ?thesis using w assms(3) by (simp add: finish_map_def del: walk_back.simps)
  qed
qed

lemma map_locked_ok:
  assumes "blocks_ok (blocks m)" "0 < v" "v < v + sz" "v + sz \<le> map_va_limit m"
  shows "\<exists>bs. map_locked v sz m = Some (call_unmap v sz (m\<lparr>blocks := bs\<rparr>)) \<and> blocks_ok bs \<and>
    (\<forall>x. covered bs x \<longleftrightarrow> v \<le> x \<and> x < v + sz \<or> covered (blocks m) x) \<and>
    (\<forall>L \<ge> v + sz. (\<forall>b \<in> set (blocks m). virt b \<le> L) \<longrightarrow> (\<forall>b \<in> set bs. virt b \<le> L))"
proof -
  define e where "e = v + sz"
  have ve: "v < e" using assms(3) by (simp add: e_def)
  obtain xs ms zs where s: "blocks m = xs @ ms @ zs" "parts v e xs ms zs" using ok_parts [OF assms(1,2) ve] by blast
  note p = s(2) [unfolded parts_def]
  let ?l = "last (xs @ ms)" and ?succ = "length xs + length ms"
  define zs' where "zs' = (if zs \<noteq> [] \<and> virt (hd zs) = e then zs else as_block e (mapped ?l) # zs)"
  have rp: "replaced v e True xs ms zs [as_block v True] zs'" by (auto simp: replaced_def zs'_def)
  note r = replaced_ok [OF assms(1) [unfolded s(1)] s(2) ve rp]
  have bound: "\<forall>b \<in> set (xs @ as_block v True # zs'). virt b \<le> L" if "e \<le> L" "\<forall>b \<in> set (blocks m). virt b \<le> L" for L
    using replaced_bound [OF rp ve that(1)] that(2) s(1) by simp
  note pp = partition_parts [OF s(2) ve]
  have at: "vec_at (blocks m) (?succ - 1) = Some ?l" unfolding s(1) using p by (intro vec_last) simp
  have pos: "0 < ?succ" using p by simp
  have lx: "\<not> v \<le> virt (last xs)" using p last_in_set [of xs] by (simp add: not_le)
  have top: "zs = [] \<Longrightarrow> \<not> mapped ?l" using assms(1) s(1) by (simp add: blocks_ok_def)
  have "map_locked v sz m = Some (call_unmap v sz (m\<lparr>blocks := xs @ as_block v True # zs'\<rparr>))"
  proof (cases "zs \<noteq> [] \<and> virt (hd zs) = e")
    case True
    then obtain z ys where z: "zs = z # ys" "virt z = e" by (cases zs) auto
    have "finish_map v ?succ sz m = Some (call_unmap v sz (m\<lparr>blocks := xs @ as_block v True # zs\<rparr>))"
      using finish_map_ok [OF s(2) [unfolded z(1)] z(2) e_def s(1) [unfolded z(1)]] z(1) by simp
    then show ?thesis using at pp z assms(4) pos True
      by (simp add: map_locked_def s(1) e_def [symmetric] zs'_def nth_append)
  next
    case False
    then have zs': "zs' = as_block e (mapped ?l) # zs" by (auto simp: zs'_def)
    show ?thesis
    proof (cases ms rule: rev_cases)
      case Nil
      then show ?thesis using at pp False assms(4) pos lx zs' top
        by (cases zs) (auto simp: map_locked_def s(1) e_def [symmetric] nth_append vec_insert_def)
    next
      case (snoc bs b)
      have b: "v \<le> virt b" "0 < ?succ - 1" "?succ - 1 = length xs + length bs" using p snoc by (auto simp: Suc_le_eq)
      let ?m = "m\<lparr>blocks := xs @ bs @ as_block e (mapped b) # zs\<rparr>"
      have q: "parts v e xs bs (as_block e (mapped b) # zs)" using p snoc by (simp add: parts_def)
      have "finish_map v (?succ - 1) sz ?m = Some (call_unmap v sz (m\<lparr>blocks := xs @ as_block v True # zs'\<rparr>))"
        using finish_map_ok [OF q _ e_def, of ?m] b(3) zs' snoc by simp
      moreover have "(blocks m)[?succ - 1 := as_block e (mapped b)] = xs @ bs @ as_block e (mapped b) # zs"
        unfolding s(1) b(3) using snoc by (simp add: list_update_append)
      moreover have upd: "b\<lparr>virt := e\<rparr> = as_block e (mapped b)" by (cases b) (simp add: as_block_def)
      ultimately show ?thesis using at pp False assms(4) pos b(1,2) zs' snoc
        by (cases zs) (simp_all add: map_locked_def s(1) e_def [symmetric] nth_append Let_def upd)
    qed
  qed
  then show ?thesis using r s(1) bound by (intro exI [of _ "xs @ as_block v True # zs'"]) (auto simp: e_def)
qed

section \<open>Unmapping\<close>

text \<open>What stays at the start of the range: nothing, if the block before it is unmapped already.\<close>

abbreviation hole :: "'v::len word AsBlock list \<Rightarrow> 'v word AsBlock \<Rightarrow> 'v word AsBlock list" where
  "hole xs b \<equiv> (if mapped (last xs) then [b] else [])"

lemma at_last: "xs \<noteq> [] \<Longrightarrow> vec_at (xs @ ys) (length xs - 1) = Some (last xs)"
  using vec_last [of xs "[]" ys] by simp

lemma erase_ok:
  assumes "xs \<noteq> []" "\<forall>b \<in> set xs. virt b < v" "\<forall>b \<in> set ms. v \<le> virt b"
  shows "erase_blocks_with_end_unmapped v (length xs + length ms) (xs @ ms @ z # zs) = Some (xs @ hole xs (z\<lparr>virt := v\<rparr>) @ zs)"
proof -
  have s: "Suc (length xs - 1) = length xs" using assms(1) by (cases xs) simp_all
  have d: "vec_drain (length xs) (Suc (length xs + length ms)) (xs @ ms @ z # zs) = Some (xs @ zs)"
    using vec_simps(3) [of xs "ms @ [z]" zs] by simp
  show ?thesis
    using walk_back_ok [OF assms, of "z # zs"] at_last [OF assms(1), of "ms @ z # zs"] assms(1) s d
    by (auto simp: erase_blocks_with_end_unmapped_def drain_if_def Let_def list_update_append)
qed

lemma finish_unmap_ok:
  assumes "parts v e xs ms (z # zs)" "virt z = e" "e = v + sz" "blocks m = xs @ ms @ z # zs"
  shows "finish_unmap v sz (length xs + length ms) m =
    Some (call_unmap v sz (m\<lparr>blocks := xs @ hole xs (as_block v False) @ z # zs\<rparr>))"
proof -
  note p = assms(1) [unfolded parts_def]
  have w: "walk_back v (blocks m) (length xs + length ms) = Some (length xs)"
    unfolding assms(4) by (rule walk_back_ok) (use p in auto)
  have s: "Suc (length xs - 1) = length xs" "0 < length xs" using p by (cases xs; simp)+
  have at: "vec_at (blocks m) (length xs - 1) = Some (last xs)" unfolding assms(4) using p by (intro at_last) simp
  show ?thesis
  proof (cases ms)
    case Nil
    then have "length xs < length (blocks m)" "blocks m ! length xs = z" "blocks m = xs @ z # zs"
      "vec_insert (length xs) (as_block v False) (blocks m) = Some (xs @ as_block v False # z # zs)"
      using assms(4) by simp_all
    then show ?thesis using w s at assms(2,3) Nil
      by (cases xs rule: rev_cases) (simp_all add: finish_unmap_def Let_def del: walk_back.simps)
  next
    case (Cons b bs)
    have b: "\<not> e < virt b" "virt b \<noteq> e" using p Cons by auto
    have f: "length xs < length (blocks m)" "blocks m ! length xs = b" using assms(4) Cons by (simp_all add: nth_append)
    have m: "min (length xs + length ms) (length (blocks m)) = length xs + length ms" using assms(4) by simp
    have d: "drain_if (length xs) (length xs + length ms) (blocks m) = Some (xs @ z # zs)"
      using assms(4) Cons vec_simps(3) [of xs ms "z # zs"] by (simp add: drain_if_def)
    have d1: "drain_if (Suc (length xs)) (length xs + length ms) (blocks m) = Some (xs @ b # z # zs)"
      using assms(4) Cons vec_Suc(1) [where xs = xs and m = b and ms = bs and ys = "z # zs"]
      by (cases bs) (simp_all add: drain_if_def)
    show ?thesis using w s at b f m d d1 assms(3)
      by (simp add: finish_unmap_def Let_def del: walk_back.simps)
  qed
qed

lemma unmap_shape:
  assumes "blocks_ok (blocks m)" "blocks m = xs @ ms @ zs" "parts v e xs ms zs" "v < e" "e = v + sz" "e \<le> map_va_limit m"
  shows "\<exists>ms' zs'. unmap_locked v sz m = Some (call_unmap v sz (m\<lparr>blocks := xs @ ms' @ zs'\<rparr>)) \<and> replaced v e False xs ms zs ms' zs'"
proof -
  note p = assms(3) [unfolded parts_def]
  let ?l = "last (xs @ ms)" and ?succ = "length xs + length ms"
  note pp = partition_parts [OF assms(3,4)]
  have at: "vec_at (blocks m) (?succ - 1) = Some ?l" unfolding assms(2) using p by (intro vec_last) simp
  have pos: "0 < ?succ" using p by simp
  note u = unmap_locked_def Let_def assms(2) assms(5) [symmetric]
  have before: "\<not> v \<le> virt (last xs)" "\<not> v < virt (last xs)" using p last_in_set [of xs] by (simp_all add: not_le not_less less_imp_le)
  show ?thesis
  proof (cases "mapped ?l")
    case False
    show ?thesis
    proof (cases "v < virt ?l")
      case True
      then obtain bs b where ms: "ms = bs @ [b]" using before p by (cases ms rule: rev_cases) auto
      have "erase_blocks_with_end_unmapped v (?succ - 1) (blocks m) = Some (xs @ hole xs (b\<lparr>virt := v\<rparr>) @ zs)"
        using erase_ok [of xs v bs b zs] p assms(2) ms by simp
      then have "unmap_locked v sz m = Some (call_unmap v sz (m\<lparr>blocks := xs @ hole xs (b\<lparr>virt := v\<rparr>) @ zs\<rparr>))"
        using at pp pos False True assms(6) by (simp add: u)
      moreover have "replaced v e False xs ms zs (hole xs (b\<lparr>virt := v\<rparr>)) zs" using False ms by (auto simp: replaced_def)
      ultimately show ?thesis by blast
    next
      case nb: False
      then have "unmap_locked v sz m = Some (call_unmap v sz (m\<lparr>blocks := xs @ ms @ zs\<rparr>))"
        using at pp pos False assms(6) by (simp add: u)
      moreover have "(\<exists>b. ms = [b] \<and> virt b = v \<and> mapped b = False) \<or> ms = [] \<and> mapped (last xs) = False"
      proof (cases ms rule: rev_cases)
        case (snoc bs b)
        have "virt b = v" using nb p snoc by (simp add: not_less)
        moreover have "virt c < virt b \<and> v \<le> virt c" if "c \<in> set bs" for c
          using assms(1) p snoc that unfolding assms(2) by (auto simp: blocks_ok_def sorted_wrt_append)
        ultimately have "bs = []" by (metis leD list.set_intros(1) neq_Nil_conv)
        then show ?thesis using snoc \<open>virt b = v\<close> False by simp
      qed (use False in simp)
      ultimately show ?thesis using False by (intro exI [of _ ms] exI [of _ zs]) (simp add: replaced_def)
    qed
  next
    case True
    then obtain z ys where z: "zs = z # ys" using assms(1,2) by (cases zs) (auto simp: blocks_ok_def)
    have nth: "blocks m ! ?succ = z" "?succ < length (blocks m)" "vec_at (blocks m) ?succ = Some z"
      using assms(2) z by (simp_all add: nth_append)
    consider "virt z = e" "\<not> mapped z" | "virt z = e" "mapped z" | "virt z \<noteq> e" by blast
    then show ?thesis
    proof cases
      case 1
      have "erase_blocks_with_end_unmapped v ?succ (blocks m) = Some (xs @ hole xs (z\<lparr>virt := v\<rparr>) @ ys)"
        using erase_ok [of xs v ms z ys] p assms(2) z by simp
      then have "unmap_locked v sz m = Some (call_unmap v sz (m\<lparr>blocks := xs @ hole xs (z\<lparr>virt := v\<rparr>) @ ys\<rparr>))"
        using at pp pos True 1 nth assms(6) by (simp add: unmap_locked_def Let_def assms(5) [symmetric]) (simp add: assms(2))
      moreover have "replaced v e False xs ms zs (hole xs (z\<lparr>virt := v\<rparr>)) ys" using 1 z by (auto simp: replaced_def)
      ultimately show ?thesis by blast
    next
      case 2
      have "unmap_locked v sz m = finish_unmap v sz ?succ m"
        using at pp pos True 2 nth assms(6) by (simp add: unmap_locked_def Let_def assms(5) [symmetric]) (simp add: assms(2))
      then have "unmap_locked v sz m = Some (call_unmap v sz (m\<lparr>blocks := xs @ hole xs (as_block v False) @ zs\<rparr>))"
        using finish_unmap_ok [OF assms(3) [unfolded z] 2(1) assms(5) assms(2) [unfolded z]] z by simp
      moreover have "replaced v e False xs ms zs (hole xs (as_block v False)) zs" using 2 z by (auto simp: replaced_def)
      ultimately show ?thesis by blast
    next
      case 3
      let ?zs = "as_block e True # zs"
      have "unmap_locked v sz m = Some (call_unmap v sz (m\<lparr>blocks := xs @ hole xs (as_block v False) @ ?zs\<rparr>))"
      proof (cases ms rule: rev_cases)
        case Nil
        then show ?thesis using at pp pos True 3 nth assms(6) before(1) vec_simps(2)
          by (simp add: u)
      next
        case (snoc bs b)
        have q: "parts v e xs bs ?zs" "v \<le> virt b" "?succ - 1 = length xs + length bs" using p snoc by (simp_all add: parts_def)
        let ?m = "m\<lparr>blocks := xs @ bs @ ?zs\<rparr>"
        have "(blocks m)[?succ - 1 := as_block e True] = xs @ bs @ ?zs" unfolding q(3) assms(2) using snoc by (simp add: list_update_append)
        then have "unmap_locked v sz m = finish_unmap v sz (length xs + length bs) ?m"
          using at pp pos True 3 nth assms(6) q(2) snoc by (simp add: unmap_locked_def Let_def assms(5) [symmetric]) (simp add: assms(2))
        then show ?thesis using finish_unmap_ok [OF q(1) _ assms(5), of ?m] by simp
      qed
      moreover have "replaced v e False xs ms zs (hole xs (as_block v False)) ?zs" using 3 z True by (auto simp: replaced_def)
      ultimately show ?thesis by blast
    qed
  qed
qed

lemma unmap_locked_ok:
  assumes "blocks_ok (blocks m)" "0 < v" "v < v + sz" "v + sz \<le> map_va_limit m"
  shows "\<exists>bs. unmap_locked v sz m = Some (call_unmap v sz (m\<lparr>blocks := bs\<rparr>)) \<and> blocks_ok bs \<and>
    (\<forall>x. covered bs x \<longleftrightarrow> \<not> (v \<le> x \<and> x < v + sz) \<and> covered (blocks m) x) \<and>
    (\<forall>L \<ge> v + sz. (\<forall>b \<in> set (blocks m). virt b \<le> L) \<longrightarrow> (\<forall>b \<in> set bs. virt b \<le> L))"
proof -
  obtain xs ms zs where s: "blocks m = xs @ ms @ zs" "parts v (v + sz) xs ms zs" using ok_parts [OF assms(1-3)] by blast
  obtain ms' zs' where u: "unmap_locked v sz m = Some (call_unmap v sz (m\<lparr>blocks := xs @ ms' @ zs'\<rparr>))"
    "replaced v (v + sz) False xs ms zs ms' zs'" using unmap_shape [OF assms(1) s assms(3) refl assms(4)] by blast
  have bound: "\<forall>b \<in> set (xs @ ms' @ zs'). virt b \<le> L" if "v + sz \<le> L" "\<forall>b \<in> set (blocks m). virt b \<le> L" for L
    using replaced_bound [OF u(2) assms(3) that(1)] that(2) s(1) by simp
  show ?thesis using u(1) replaced_ok [OF assms(1) [unfolded s(1)] s(2) assms(3) u(2)] s(1) bound
    by (intro exI [of _ "xs @ ms' @ zs'"]) auto
qed

section \<open>Runs of fixed allocations\<close>

definition flat_ok :: "'v::len word FlatAllocatorBool \<Rightarrow> bool" where
  "flat_ok fa \<longleftrightarrow> blocks_ok (blocks (inner fa)) \<and> map_va_limit (inner fa) = va_limit fa \<and>
     (\<forall>b \<in> set (blocks (inner fa)). virt b \<le> va_limit fa) \<and> 0 < current_linear_alloc_end fa"

abbreviation allocated :: "'v::len word FlatAllocatorBool \<Rightarrow> 'v word \<Rightarrow> bool" where
  "allocated fa \<equiv> covered (blocks (inner fa))"

text \<open>A range of addresses that a caller may name.\<close>

definition range_ok :: "'v::len word FlatAllocatorBool \<Rightarrow> 'v word \<Rightarrow> 'v word \<Rightarrow> bool" where
  "range_ok fa v sz \<longleftrightarrow> 0 < v \<and> v < v + sz \<and> v + sz \<le> va_limit fa"

lemma call_unmap_simps [simp]:
  "blocks (call_unmap v sz m) = blocks m" "map_va_limit (call_unmap v sz m) = map_va_limit m"
  by (simp_all add: call_unmap_def)

lemma flat_map_ok:
  assumes "flat_ok fa" "range_ok fa v sz"
  shows "\<exists>m. map_locked v sz (inner fa) = Some m \<and> flat_ok (fa\<lparr>inner := m\<rparr>) \<and>
    (\<forall>x. covered (blocks m) x \<longleftrightarrow> v \<le> x \<and> x < v + sz \<or> allocated fa x)"
proof -
  have a: "blocks_ok (blocks (inner fa))" "0 < v" "v < v + sz" "v + sz \<le> map_va_limit (inner fa)"
    using assms by (simp_all add: flat_ok_def range_ok_def)
  from map_locked_ok [OF a] show ?thesis using assms a(4) by (fastforce simp: flat_ok_def)
qed

lemma flat_unmap_ok:
  assumes "flat_ok fa" "range_ok fa v sz"
  shows "\<exists>m. unmap_locked v sz (inner fa) = Some m \<and> flat_ok (fa\<lparr>inner := m\<rparr>) \<and>
    (\<forall>x. covered (blocks m) x \<longleftrightarrow> \<not> (v \<le> x \<and> x < v + sz) \<and> allocated fa x)"
proof -
  have a: "blocks_ok (blocks (inner fa))" "0 < v" "v < v + sz" "v + sz \<le> map_va_limit (inner fa)"
    using assms by (simp_all add: flat_ok_def range_ok_def)
  from unmap_locked_ok [OF a] show ?thesis using assms a(4) by (fastforce simp: flat_ok_def)
qed

datatype 'v flat_op = Allocate_Fixed 'v 'v | Free 'v 'v

fun flat_exec :: "'v::len word flat_op \<Rightarrow> 'v word FlatAllocatorBool \<Rightarrow> 'v word FlatAllocatorBool option" where
  "flat_exec (Allocate_Fixed v sz) fa = allocate_fixed v sz fa"
| "flat_exec (Free v sz) fa = flat_free v sz fa"

fun flat_run :: "'v::len word flat_op list \<Rightarrow> 'v word FlatAllocatorBool \<Rightarrow> 'v word FlatAllocatorBool option" where
  "flat_run [] fa = Some fa"
| "flat_run (op # ops) fa = do { fa \<leftarrow> flat_exec op fa; flat_run ops fa }"

fun flat_spec :: "'v::len word flat_op \<Rightarrow> 'v word set \<Rightarrow> 'v word set" where
  "flat_spec (Allocate_Fixed v sz) S = S \<union> {v..<v + sz}"
| "flat_spec (Free v sz) S = S - {v..<v + sz}"

fun flat_op_ok :: "'v::len word \<Rightarrow> 'v word flat_op \<Rightarrow> bool" where
  "flat_op_ok limit (Allocate_Fixed v sz) \<longleftrightarrow> 0 < v \<and> v < v + sz \<and> v + sz \<le> limit"
| "flat_op_ok limit (Free v sz) \<longleftrightarrow> 0 < v \<and> v < v + sz \<and> v + sz \<le> limit"

lemma flat_exec_ok:
  assumes "flat_ok fa" "flat_op_ok (va_limit fa) op"
  shows "\<exists>fa'. flat_exec op fa = Some fa' \<and> flat_ok fa' \<and> va_limit fa' = va_limit fa \<and>
    Collect (allocated fa') = flat_spec op (Collect (allocated fa))"
proof (cases op)
  case (Allocate_Fixed v sz)
  then have "range_ok fa v sz" using assms(2) by (simp add: range_ok_def)
  from flat_map_ok [OF assms(1) this] show ?thesis using Allocate_Fixed by (auto simp: allocate_fixed_def)
next
  case (Free v sz)
  then have "range_ok fa v sz" using assms(2) by (simp add: range_ok_def)
  from flat_unmap_ok [OF assms(1) this] show ?thesis using Free by (auto simp: flat_free_def)
qed

lemma flat_run_ok:
  assumes "flat_ok fa" "list_all (flat_op_ok (va_limit fa)) ops"
  shows "\<exists>fa'. flat_run ops fa = Some fa' \<and> flat_ok fa' \<and> Collect (allocated fa') = fold flat_spec ops (Collect (allocated fa))"
  using assms
proof (induction ops arbitrary: fa)
  case (Cons op ops)
  obtain fa' where "flat_exec op fa = Some fa'" "flat_ok fa'" "va_limit fa' = va_limit fa"
    "Collect (allocated fa') = flat_spec op (Collect (allocated fa))"
    using flat_exec_ok [OF Cons.prems(1)] Cons.prems(2) by auto
  with Cons.IH [of fa'] Cons.prems(2) show ?case by auto
qed simp

lemma flat_new_ok: "0 < start \<Longrightarrow> flat_ok (flat_allocator_new start limit)"
  by (simp add: flat_ok_def flat_allocator_new_def flat_map_new_def blocks_ok_def)

lemma flat_new_empty: "allocated (flat_allocator_new start limit) x = False"
  by (simp add: flat_allocator_new_def flat_map_new_def)

text \<open>C32: every run of fixed allocations and frees of ranges inside the address space, in any order and
  however the ranges overlap, ends without a panic, keeps the blocks sorted and leaves exactly the
  addresses allocated that a set of addresses would hold.\<close>

theorem flat_allocator_refines_set:
  assumes "0 < start" "list_all (flat_op_ok limit) ops"
  shows "\<exists>fa. flat_run ops (flat_allocator_new start limit) = Some fa \<and> flat_ok fa \<and>
    {x. allocated fa x} = fold flat_spec ops {}"
proof -
  have "va_limit (flat_allocator_new start limit) = limit" by (simp add: flat_allocator_new_def)
  moreover have "allocated (flat_allocator_new start limit) = (\<lambda>x. False)" using flat_new_empty by blast
  ultimately show ?thesis using flat_run_ok [OF flat_new_ok [OF assms(1)], of limit ops] assms(2) by simp
qed

section \<open>What is given out\<close>

lemma cover_block:
  assumes "sorted_wrt (\<lambda>a b. virt a < virt b) bs" "i < length bs" "virt (bs ! i) \<le> x" "Suc i < length bs \<Longrightarrow> x < virt (bs ! Suc i)"
  shows "covered bs x = mapped (bs ! i)"
proof -
  have "virt b \<le> x" if b: "b \<in> set (List.take (Suc i) bs)" for b
  proof -
    obtain j where "j < Suc i" "b = bs ! j" using b by (auto simp: in_set_conv_nth)
    then have "virt b \<le> virt (bs ! i)" using assms(1,2) by (cases "j = i") (auto simp: sorted_wrt_iff_nth_less less_imp_le)
    then show ?thesis using assms(3) by simp
  qed
  moreover have "x < virt b" if b: "b \<in> set (drop (Suc i) bs)" for b
  proof -
    obtain j where j: "Suc i \<le> j" "j < length bs" "b = bs ! j" using b by (auto simp: in_set_conv_nth) (metis add_Suc less_diff_conv le_add1 nat_add_left_cancel_less add.commute)
    then have "virt (bs ! Suc i) \<le> virt b" using assms(1) by (cases "j = Suc i") (auto simp: sorted_wrt_iff_nth_less less_imp_le)
    then show ?thesis using assms(4) j by (meson le_less_trans less_le_trans order.strict_trans2)
  qed
  moreover have "List.take (Suc i) bs \<noteq> []" "last (List.take (Suc i) bs) = bs ! i"
    using assms(2) by (auto simp: take_Suc_conv_app_nth)
  ultimately have "cover (covered (List.take (Suc i) bs) x) (drop (Suc i) bs) x = mapped (bs ! i)"
    by (simp add: cover_above cover_below)
  then show ?thesis by (simp flip: cover_simps(3))
qed

lemma gap_fits:
  fixes p s sz :: "'v::len word"
  assumes "p \<le> s" "sz \<le> s - p" "0 < sz"
  shows "p < p + sz" "p + sz \<le> s"
proof -
  show l: "p + sz \<le> s" using le_plus' [OF assms(1,2)] .
  have "unat sz \<le> unat s - unat p" using assms(1,2) by (simp add: word_le_nat_alt unat_sub)
  moreover have "unat p \<le> unat s" "unat s < 2 ^ LENGTH('v)" using assms(1) by (simp_all add: word_le_nat_alt)
  ultimately have "unat p + unat sz < 2 ^ LENGTH('v)" by linarith
  then have "unat (p + sz) = unat p + unat sz" by (simp add: unat_word_ariths(1))
  then show "p < p + sz" using assms(3) by (simp add: word_less_nat_alt unat_gt_0)
qed

text \<open>A range that the free block \<open>i\<close> can hold.\<close>

definition fits_block :: "'v::len word AsBlock list \<Rightarrow> 'v word \<Rightarrow> 'v word \<Rightarrow> nat \<Rightarrow> bool" where
  "fits_block bs limit sz i \<longleftrightarrow> i < length bs \<and> \<not> mapped (bs ! i) \<and> virt (bs ! i) < virt (bs ! i) + sz \<and>
     virt (bs ! i) + sz \<le> (if Suc i < length bs then virt (bs ! Suc i) else limit)"

lemma fits_block_free:
  assumes "blocks_ok bs" "\<forall>b \<in> set bs. virt b \<le> limit" "fits_block bs limit sz i" "0 < i"
  shows "0 < virt (bs ! i) \<and> virt (bs ! i) < virt (bs ! i) + sz \<and> virt (bs ! i) + sz \<le> limit \<and>
    (\<forall>x. virt (bs ! i) \<le> x \<and> x < virt (bs ! i) + sz \<longrightarrow> \<not> covered bs x)"
proof -
  note f = assms(3) [unfolded fits_block_def]
  have "virt (bs ! 0) < virt (bs ! i)" using assms(1,4) f by (auto simp: blocks_ok_def sorted_wrt_iff_nth_less)
  moreover have "virt (bs ! 0) = 0" using assms(1) by (auto simp: blocks_ok_def hd_conv_nth)
  moreover have "virt (bs ! i) + sz \<le> limit" using f assms(2) by (auto split: if_splits intro: order_trans)
  moreover have "\<not> covered bs x" if "virt (bs ! i) \<le> x" "x < virt (bs ! i) + sz" for x
  proof -
    have "Suc i < length bs \<Longrightarrow> x < virt (bs ! Suc i)" using f that(2) by (auto intro: order.strict_trans2)
    then show ?thesis using cover_block [of bs i x] assms(1) f that(1) by (simp add: blocks_ok_def)
  qed
  ultimately show ?thesis using f by simp
qed

lemma gap_block:
  assumes "blocks_ok bs" "Suc i < length bs" "sz \<le> virt (bs ! Suc i) - virt (bs ! i)" "\<not> mapped (bs ! i)" "0 < sz"
  shows "fits_block bs limit sz i"
proof -
  have "virt (bs ! i) \<le> virt (bs ! Suc i)" using assms(1,2) by (auto simp: blocks_ok_def sorted_wrt_iff_nth_less less_imp_le)
  from gap_fits [OF this assms(3,5)] show ?thesis using assms(2,4) by (simp add: fits_block_def)
qed

lemma skip_fixed_ok:
  assumes "blocks_ok bs" "0 < sz" "skip_fixed bs limit sz pred (Suc pred) = Some a"
  shows "\<exists>i \<ge> pred. a = virt (bs ! i) \<and> fits_block bs limit sz i"
  using assms
proof (induction "length bs - pred" arbitrary: pred rule: less_induct)
  case less
  have s: "Suc pred < length bs" using less.prems(3) by (subst (asm) skip_fixed.simps) (simp split: if_splits)
  consider "sz \<le> virt (bs ! Suc pred) - virt (bs ! pred) \<and> \<not> mapped (bs ! pred)" "a = virt (bs ! pred)"
    | "Suc (Suc pred) = length bs" "a = virt (bs ! Suc pred)" "a \<le> a + sz" "a + sz \<le> limit"
    | "Suc (Suc pred) \<noteq> length bs" "skip_fixed bs limit sz (Suc pred) (Suc (Suc pred)) = Some a"
    using less.prems(3) by (subst (asm) skip_fixed.simps) (auto simp: Let_def split: if_splits)
  then show ?case
  proof cases
    case 1
    then show ?thesis using gap_block [OF less.prems(1) s _ _ less.prems(2)] by blast
  next
    case 2
    have "last bs = bs ! Suc pred" using 2(1) by (metis diff_Suc_1 last_conv_nth list.size(3) nat.distinct(1))
    then have "\<not> mapped (bs ! Suc pred)" using less.prems(1) by (simp add: blocks_ok_def)
    moreover have "a < a + sz" using 2(3) less.prems(2) by (simp add: order_less_le)
    ultimately show ?thesis using 2 by (intro exI [of _ "Suc pred"]) (simp add: fits_block_def)
  next
    case 3
    have "length bs - Suc pred < length bs - pred" using s by simp
    from less.hyps [OF this less.prems(1,2) 3(2)] obtain i where "Suc pred \<le> i" "a = virt (bs ! i)" "fits_block bs limit sz i" by blast
    then show ?thesis by (intro exI [of _ i]) simp
  qed
qed

lemma find_gap_ok:
  assumes "blocks_ok bs" "0 < sz"
  shows "case find_gap bs sz pred (Suc pred) of
      Some i \<Rightarrow> pred \<le> i \<and> fits_block bs limit sz i
    | None \<Rightarrow> \<forall>i \<ge> pred. Suc i < length bs \<longrightarrow> mapped (bs ! i) \<or> virt (bs ! Suc i) - virt (bs ! i) < sz"
proof (induction "length bs - pred" arbitrary: pred rule: less_induct)
  case less
  show ?case
  proof (cases "Suc pred < length bs")
    case True
    show ?thesis
    proof (cases "sz \<le> virt (bs ! Suc pred) - virt (bs ! pred) \<and> \<not> mapped (bs ! pred)")
      case gap: True
      then have "find_gap bs sz pred (Suc pred) = Some pred" using True by (subst find_gap.simps) simp
      then show ?thesis using gap_block [OF assms(1) True _ _ assms(2)] gap by simp
    next
      case False
      then have e: "find_gap bs sz pred (Suc pred) = find_gap bs sz (Suc pred) (Suc (Suc pred))"
        using True by (subst find_gap.simps) auto
      have "length bs - Suc pred < length bs - pred" using True by simp
      note IH = less.hyps [OF this]
      have "mapped (bs ! i) \<or> virt (bs ! Suc i) - virt (bs ! i) < sz"
        if "find_gap bs sz (Suc pred) (Suc (Suc pred)) = None" "pred \<le> i" "Suc i < length bs" for i
        using IH that False by (cases "i = pred") (auto simp: not_le)
      then show ?thesis using IH unfolding e by (cases "find_gap bs sz (Suc pred) (Suc (Suc pred))") simp_all
    qed
  qed (subst find_gap.simps, simp)
qed

text \<open>The block that holds the start of the linear range.\<close>

lemma linear_block:
  assumes "blocks_ok bs" "0 < cur" "cur < cur + sz"
  defines "i \<equiv> partition_point (\<lambda>b. virt b < cur + sz) bs - 1"
  shows "0 < partition_point (\<lambda>b. virt b < cur + sz) bs" "i < length bs"
    "\<And>x. x < cur + sz \<Longrightarrow> virt (bs ! i) \<le> x \<Longrightarrow> covered bs x = mapped (bs ! i)"
proof -
  obtain xs ms zs where s: "bs = xs @ ms @ zs" "parts cur (cur + sz) xs ms zs" using ok_parts [OF assms(1-3)] by blast
  note p = s(2) [unfolded parts_def]
  have pp: "partition_point (\<lambda>b. virt b < cur + sz) bs = length xs + length ms"
    unfolding s(1) by (rule partition_parts [OF s(2) assms(3)])
  have pos: "0 < length xs" using p by simp
  show "0 < partition_point (\<lambda>b. virt b < cur + sz) bs" using pp pos by simp
  have "length xs + length ms - 1 < length xs + (length ms + length zs)" using pos by linarith
  then show i: "i < length bs" using pp s(1) by (simp add: i_def)
  fix x assume x: "x < cur + sz" "virt (bs ! i) \<le> x"
  have "x < virt (bs ! Suc i)" if "Suc i < length bs"
  proof -
    have "Suc i = length (xs @ ms)" using pp pos by (simp add: i_def)
    then have "bs ! Suc i = hd zs" "zs \<noteq> []" using that s(1) by (auto simp: nth_append hd_conv_nth)
    then have "cur + sz \<le> virt (bs ! Suc i)" using p by simp
    then show ?thesis using x(1) by simp
  qed
  then show "covered bs x = mapped (bs ! i)" using cover_block [of bs i x] assms(1) i x(2) by (simp add: blocks_ok_def)
qed

text \<open>A range that can be given out.\<close>

definition free_range :: "'v::len word FlatAllocatorBool \<Rightarrow> 'v word \<Rightarrow> 'v word \<Rightarrow> bool" where
  "free_range fa v sz \<longleftrightarrow> range_ok fa v sz \<and> (\<forall>x. v \<le> x \<and> x < v + sz \<longrightarrow> \<not> allocated fa x)"

lemma fits_free_range:
  assumes "flat_ok fa" "fits_block (blocks (inner fa)) (va_limit fa) sz i" "0 < i"
  shows "free_range fa (virt (blocks (inner fa) ! i)) sz"
  using fits_block_free [OF _ _ assms(2,3)] assms(1) by (simp add: flat_ok_def free_range_def range_ok_def)

lemma linear_start_ok:
  assumes "flat_ok fa" "0 < sz" "\<not> allocated fa (current_linear_alloc_end fa)"
  shows "\<exists>r. linear_start sz fa = Some r \<and> (\<forall>a. r = Some a \<longrightarrow> free_range fa a sz)"
proof -
  let ?cur = "current_linear_alloc_end fa" and ?bs = "blocks (inner fa)"
  have ok: "blocks_ok ?bs" "0 < ?cur" using assms(1) by (simp_all add: flat_ok_def)
  show ?thesis
  proof (cases "?cur \<le> ?cur + sz \<and> ?cur + sz \<le> va_limit fa")
    case True
    then have c: "?cur < ?cur + sz" using assms(2) by (simp add: order_less_le)
    let ?succ = "partition_point (\<lambda>b. virt b < ?cur + sz) ?bs"
    note l = linear_block [OF ok c]
    have succ: "?succ = Suc (?succ - 1)" using l(1) by simp
    show ?thesis
    proof (cases "virt (?bs ! (?succ - 1)) \<le> ?cur")
      case before: True
      have m: "\<not> mapped (?bs ! (?succ - 1))" using l(3) [OF c before] assms(3) by simp
      have "\<not> allocated fa x" if "?cur \<le> x" "x < ?cur + sz" for x
        using l(3) [OF that(2)] m before that(1) by simp
      then have "free_range fa ?cur sz" using ok(2) c True by (simp add: free_range_def range_ok_def)
      then show ?thesis using True l(1) before by (simp add: linear_start_def Let_def)
    next
      case False
      have "free_range fa a sz" if a: "skip_fixed ?bs (va_limit fa) sz (?succ - 1) ?succ = Some a" for a
      proof -
        have "?succ - 1 \<noteq> 0"
        proof
          assume "?succ - 1 = 0"
          then have "virt (?bs ! (?succ - 1)) = 0" using ok(1) by (auto simp: blocks_ok_def hd_conv_nth)
          then show False using False by simp
        qed
        moreover obtain i where "?succ - 1 \<le> i" "a = virt (?bs ! i)" "fits_block ?bs (va_limit fa) sz i"
          using skip_fixed_ok [OF ok(1) assms(2), of "va_limit fa" "?succ - 1" a] a succ by auto
        ultimately show ?thesis using fits_free_range [OF assms(1)] by simp
      qed
      then show ?thesis using True l(1) False by (simp add: linear_start_def Let_def)
    qed
  next
    case False
    then have "linear_start sz fa = Some None" unfolding linear_start_def Let_def by (simp only: if_False)
    then show ?thesis by simp
  qed
qed

lemma short_blocks: "blocks_ok bs \<Longrightarrow> length bs \<le> 2 \<Longrightarrow> \<not> covered bs x"
  by (cases bs; cases "tl bs") (auto simp: blocks_ok_def)

lemma take_range:
  assumes "flat_ok fa" "free_range fa v sz"
  shows "\<exists>m. map_locked v sz (inner fa) = Some m \<and> flat_ok (fa\<lparr>inner := m\<rparr>) \<and>
    flat_ok (fa\<lparr>inner := m, current_linear_alloc_end := v + sz\<rparr>) \<and>
    (\<forall>x. covered (blocks m) x \<longleftrightarrow> v \<le> x \<and> x < v + sz \<or> allocated fa x)"
proof -
  have r: "range_ok fa v sz" using assms(2) by (simp add: free_range_def)
  then have "0 < v + sz" by (auto simp: range_ok_def intro: order.strict_trans)
  then show ?thesis using flat_map_ok [OF assms(1) r] by (auto simp: flat_ok_def)
qed

text \<open>C33: as long as the address at which the linear pass continues is not allocated, whatever was
  allocated or freed before: an allocation gives out a range of the asked size that lies inside the
  address space and was free, and allocates exactly it. It answers that the space is full only when no
  free block between two allocated ones, except the lowest, is large enough, and then changes nothing;
  it panics only when nothing is allocated at all.\<close>

theorem flat_allocate_sound:
  assumes "flat_ok fa" "0 < sz" "\<not> allocated fa (current_linear_alloc_end fa)"
  shows "case allocate sz fa of
      None \<Rightarrow> \<forall>x. \<not> allocated fa x
    | Some (None, fa') \<Rightarrow> fa' = fa \<and> (\<forall>i \<ge> 1. Suc i < length (blocks (inner fa)) \<longrightarrow>
        mapped (blocks (inner fa) ! i) \<or> virt (blocks (inner fa) ! Suc i) - virt (blocks (inner fa) ! i) < sz)
    | Some (Some a, fa') \<Rightarrow> free_range fa a sz \<and> flat_ok fa' \<and>
        (\<forall>x. allocated fa' x \<longleftrightarrow> a \<le> x \<and> x < a + sz \<or> allocated fa x)"
proof -
  let ?bs = "blocks (inner fa)"
  have ok: "blocks_ok ?bs" using assms(1) by (simp add: flat_ok_def)
  obtain r where r: "linear_start sz fa = Some r" "\<And>a. r = Some a \<Longrightarrow> free_range fa a sz"
    using linear_start_ok [OF assms] by blast
  show ?thesis
  proof (cases r)
    case (Some a)
    then show ?thesis using r take_range [OF assms(1) r(2) [OF Some]] by (auto simp: allocate_def)
  next
    case None
    show ?thesis
    proof (cases "2 < length ?bs")
      case False
      then show ?thesis using r(1) None short_blocks [OF ok] by (simp add: allocate_def)
    next
      case long: True
      note g = find_gap_ok [OF ok assms(2), of 1 "va_limit fa"]
      show ?thesis
      proof (cases "find_gap ?bs sz 1 2")
        case None
        then show ?thesis using g r(1) \<open>r = None\<close> long by (simp add: allocate_def numeral_2_eq_2)
      next
        case (Some i)
        then have f: "free_range fa (virt (?bs ! i)) sz" using g fits_free_range [OF assms(1)] by (simp add: numeral_2_eq_2)
        from take_range [OF assms(1) f] show ?thesis using f Some r(1) None long by (auto simp: allocate_def)
      qed
    qed
  qed
qed

text \<open>C34: when the address at which the linear pass continues is allocated and no block starts in the
  range behind it, the allocation gives out that range all the same, although every address of it is
  allocated: the linear pass never asks whether the block it is in is free.\<close>

theorem flat_allocate_unsound:
  assumes "flat_ok fa" "current_linear_alloc_end fa < current_linear_alloc_end fa + sz"
    "current_linear_alloc_end fa + sz \<le> va_limit fa" "allocated fa (current_linear_alloc_end fa)"
    "\<forall>b \<in> set (blocks (inner fa)). \<not> (current_linear_alloc_end fa < virt b \<and> virt b < current_linear_alloc_end fa + sz)"
  shows "\<exists>fa'. allocate sz fa = Some (Some (current_linear_alloc_end fa), fa') \<and>
    (\<forall>x. current_linear_alloc_end fa \<le> x \<and> x < current_linear_alloc_end fa + sz \<longrightarrow> allocated fa x)"
proof -
  let ?cur = "current_linear_alloc_end fa" and ?bs = "blocks (inner fa)"
  have ok: "blocks_ok ?bs" "0 < ?cur" using assms(1) by (simp_all add: flat_ok_def)
  let ?succ = "partition_point (\<lambda>b. virt b < ?cur + sz) ?bs"
  note l = linear_block [OF ok assms(2)]
  have "?bs ! (?succ - 1) \<in> set (takeWhile (\<lambda>b. virt b < ?cur + sz) ?bs)"
    using l(1) by (metis One_nat_def Suc_pred lessI nth_mem partition_point_def takeWhile_nth)
  then have "virt (?bs ! (?succ - 1)) < ?cur + sz" by (auto dest: set_takeWhileD)
  then have before: "virt (?bs ! (?succ - 1)) \<le> ?cur" using assms(5) l(2) by (meson not_le nth_mem)
  then have m: "mapped (?bs ! (?succ - 1))" using l(3) [OF assms(2) before] assms(4) by simp
  have all: "allocated fa x" if "?cur \<le> x" "x < ?cur + sz" for x using l(3) [OF that(2)] m before that(1) by simp
  have "linear_start sz fa = Some (Some ?cur)" using assms(2,3) l(1) before by (simp add: linear_start_def Let_def less_imp_le)
  moreover have "range_ok fa ?cur sz" using assms(2,3) ok(2) by (simp add: range_ok_def)
  ultimately show ?thesis using flat_map_ok [OF assms(1)] all by (fastforce simp: allocate_def)
qed

text \<open>The range behind the first allocation was fixed before.\<close>

definition fixed_example :: "32 word flat_op list" where
  "fixed_example = [Allocate_Fixed 0x2000 0x2000, Allocate_Fixed 0x6000 0x1000, Free 0x3000 0x1000]"

lemma flat_allocator_refines_set_witness:
  "\<exists>fa. flat_run fixed_example (flat_allocator_new 0x1000 0x100000) = Some fa \<and> flat_ok fa \<and> allocated fa 0x2800 \<and> \<not> allocated fa 0x3800"
proof -
  have "list_all (flat_op_ok 0x100000) fixed_example" by (simp add: fixed_example_def)
  from flat_allocator_refines_set [OF _ this, of "0x1000"] obtain fa where
    f: "flat_run fixed_example (flat_allocator_new 0x1000 0x100000) = Some fa" "flat_ok fa"
      "{x. allocated fa x} = fold flat_spec fixed_example {}" by auto
  have "0x2800 \<in> fold flat_spec fixed_example {}" "0x3800 \<notin> fold flat_spec fixed_example {}" by (simp_all add: fixed_example_def)
  then show ?thesis using f by auto
qed

lemma flat_allocate_sound_witness:
  "case allocate 0x1000 (flat_allocator_new 0x1000 0x100000 :: 32 word FlatAllocatorBool) of
      None \<Rightarrow> True | Some (None, fa') \<Rightarrow> True | Some (Some a, fa') \<Rightarrow> flat_ok fa' \<and> allocated fa' a"
proof -
  have "flat_ok (flat_allocator_new 0x1000 0x100000 :: 32 word FlatAllocatorBool)" by (rule flat_new_ok) simp
  from flat_allocate_sound [OF this, of "0x1000"] show ?thesis
    by (auto simp: flat_new_empty free_range_def range_ok_def split: option.splits)
qed

lemma flat_allocate_unsound_witness:
  "\<exists>fa fa1 fa2. allocate_fixed 0x2000 0x1000 (flat_allocator_new 0x1000 0x100000) = Some fa \<and>
    allocate 0x1000 fa = Some (Some (0x1000 :: 32 word), fa1) \<and> allocated fa1 0x2000 \<and>
    allocate 0x1000 fa1 = Some (Some 0x2000, fa2)"
proof -
  let ?fa = "flat_allocator_new 0x1000 0x100000 :: 32 word FlatAllocatorBool"
  let ?fa1 = "?fa\<lparr>inner := (inner ?fa)\<lparr>blocks := [as_block 0 False, as_block 0x1000 True, as_block 0x2000 True, as_block 0x3000 False]\<rparr>,
    current_linear_alloc_end := 0x2000\<rparr>"
  let ?f = "?fa\<lparr>inner := (inner ?fa)\<lparr>blocks := [as_block 0 False, as_block 0x2000 True, as_block 0x3000 False]\<rparr>\<rparr>"
  have a: "allocate_fixed 0x2000 0x1000 ?fa = Some ?f" "allocate 0x1000 ?f = Some (Some 0x1000, ?fa1)" by code_simp+
  have "flat_ok ?fa1" by (simp add: flat_ok_def blocks_ok_def flat_allocator_new_def flat_map_new_def)
  from flat_allocate_unsound [OF this, of "0x1000"] obtain fa2 where "allocate 0x1000 ?fa1 = Some (Some 0x2000, fa2)"
    "allocated ?fa1 0x2000" by (auto simp: flat_allocator_new_def flat_map_new_def)
  then show ?thesis using a by blast
qed

text \<open>Two more limits of the code. The free end of the address space is not found when the linear pass
  continues just before its start; and a range at address 0 may be freed only as it was allocated.\<close>

lemma flat_allocate_misses_end:
  "\<exists>fa. flat_run [Allocate_Fixed 0x1000 0x1000] (flat_allocator_new 0x1000 0x100000 :: 32 word FlatAllocatorBool) = Some fa \<and>
    allocate 0x2000 fa = Some (None, fa)"
proof -
  let ?fa = "flat_allocator_new 0x1000 0x100000 :: 32 word FlatAllocatorBool"
  let ?f = "?fa\<lparr>inner := (inner ?fa)\<lparr>blocks := [as_block 0 False, as_block 0x1000 True, as_block 0x2000 False]\<rparr>\<rparr>"
  have "flat_run [Allocate_Fixed 0x1000 0x1000] ?fa = Some ?f" "allocate 0x2000 ?f = Some (None, ?f)" by code_simp+
  then show ?thesis by blast
qed

lemma flat_free_at_zero_panics:
  "flat_run [Allocate_Fixed 4 4, Allocate_Fixed 0 8, Free 0 4] (flat_allocator_new 0x1000 0x100000 :: 32 word FlatAllocatorBool) = None"
  by code_simp

end
