(* ===== verification/HardwareTimer.thy ===== *)
theory HardwareTimer
  imports Prelude BTree
begin

text \<open>
  The kernel's timer: k_hardware_timer_base.rs, tasks by absolute time, and k_hardware_timer.rs, which
  asks the core timing for one wake-up and delivers the tasks that are due. Of the core timing there are
  the events it holds for the timer; of the threads the deadline each keeps and the calls of
  \<open>on_timer\<close>, in order. The locks and the dispatch guard are left out: every operation holds them from
  start to end.
\<close>

type_synonym TimerTaskId = nat

record KHardwareTimerBase =
  m_task_tree :: "(int, TimerTaskId list) btree"
  m_task_times :: "TimerTaskId \<Rightarrow> int option"
  m_next_task :: "(int \<times> TimerTaskId) option"

definition timer_base_new :: KHardwareTimerBase where
  "timer_base_new = \<lparr>m_task_tree = [], m_task_times = (\<lambda>_. None), m_next_task = None\<rparr>"

text \<open>\<open>iter().next().map(|(&time, ids)| (time, ids[0]))\<close>; the outer option is the panic of an empty vector.\<close>

definition first_task :: "(int, TimerTaskId list) btree \<Rightarrow> (int \<times> TimerTaskId) option option" where
  "first_task tree = (case tree of
      [] \<Rightarrow> Some None
    | (t, ids) # rest \<Rightarrow> (case ids of [] \<Rightarrow> None | i # is \<Rightarrow> Some (Some (t, i))))"

definition remove_task_from_tree :: "TimerTaskId \<Rightarrow> int \<Rightarrow> KHardwareTimerBase \<Rightarrow> KHardwareTimerBase option" where
  "remove_task_from_tree i t b =
     (let tree = (case bt_get t (m_task_tree b) of
            None \<Rightarrow> m_task_tree b
          | Some ids \<Rightarrow>
              (let ids = filter (\<lambda>j. j \<noteq> i) ids in
               if ids = [] then bt_remove t (m_task_tree b) else bt_modify t (\<lambda>_. ids) (m_task_tree b)));
          b = b\<lparr>m_task_tree := tree, m_task_times := (m_task_times b)(i := None)\<rparr>
      in case m_next_task b of
          None \<Rightarrow> Some b
        | Some (_, j) \<Rightarrow> if j = i then do { n \<leftarrow> first_task tree; Some (b\<lparr>m_next_task := n\<rparr>) } else Some b)"

definition base_cancel_task :: "TimerTaskId \<Rightarrow> int \<Rightarrow> KHardwareTimerBase \<Rightarrow> KHardwareTimerBase option" where
  "base_cancel_task i t b = (if 0 < t then remove_task_from_tree i t b else Some b)"

definition register_absolute_task_impl :: "TimerTaskId \<Rightarrow> int \<Rightarrow> KHardwareTimerBase \<Rightarrow> (bool \<times> KHardwareTimerBase) option" where
  "register_absolute_task_impl i t b = do {
     guard_panic (0 < t);
     b \<leftarrow> (case m_task_times b i of Some old \<Rightarrow> remove_task_from_tree i old b | None \<Rightarrow> Some b);
     let ids = (case bt_get t (m_task_tree b) of Some ids \<Rightarrow> ids | None \<Rightarrow> []);
     let b = b\<lparr>m_task_tree := bt_insert t (ids @ [i]) (m_task_tree b), m_task_times := (m_task_times b)(i := Some t)\<rparr>;
     case m_next_task b of
       Some (next_time, _) \<Rightarrow> if next_time \<le> t then Some (False, b) else Some (True, b\<lparr>m_next_task := Some (t, i)\<rparr>)
     | None \<Rightarrow> Some (True, b\<lparr>m_next_task := Some (t, i)\<rparr>) }"

text \<open>The two loops over the tasks that are due; a handler changes a state of its own.\<close>

partial_function (option) do_interrupt_task_impl ::
  "int \<Rightarrow> (TimerTaskId \<Rightarrow> 's \<Rightarrow> 's) \<Rightarrow> KHardwareTimerBase \<Rightarrow> 's \<Rightarrow> (int \<times> KHardwareTimerBase \<times> 's) option" where
  "do_interrupt_task_impl cur handler b s = (case m_next_task b of
      None \<Rightarrow> Some (0, b, s)
    | Some (t, i) \<Rightarrow>
        if cur < t then Some (t, b, s)
        else do { b \<leftarrow> remove_task_from_tree i t b; do_interrupt_task_impl cur handler b (handler i s) })"

partial_function (option) collect_loop ::
  "int \<Rightarrow> TimerTaskId list \<Rightarrow> KHardwareTimerBase \<Rightarrow> ((TimerTaskId list \<times> int) \<times> KHardwareTimerBase) option" where
  "collect_loop cur fired b = (case m_next_task b of
      None \<Rightarrow> Some ((fired, 0), b)
    | Some (t, i) \<Rightarrow>
        if cur < t then Some ((fired, t), b)
        else do { b \<leftarrow> remove_task_from_tree i t b; collect_loop cur (fired @ [i]) b })"

definition collect_expired_tasks :: "int \<Rightarrow> KHardwareTimerBase \<Rightarrow> ((TimerTaskId list \<times> int) \<times> KHardwareTimerBase) option" where
  "collect_expired_tasks cur b = collect_loop cur [] b"

section \<open>The timer\<close>

abbreviation I64_MAX :: int where "I64_MAX \<equiv> 2 ^ 63 - 1"

record KHardwareTimer =
  timer_base :: KHardwareTimerBase
  m_wakeup_time :: int
  wired :: bool
  thread_ptrs :: "TimerTaskId \<Rightarrow> nat option"
  events :: "int list"
  timer_task_time :: "TimerTaskId \<Rightarrow> int"
  on_timer_calls :: "TimerTaskId list"

definition timer_new :: KHardwareTimer where
  "timer_new = \<lparr>timer_base = timer_base_new, m_wakeup_time = I64_MAX, wired = False, thread_ptrs = (\<lambda>_. None),
     events = [], timer_task_time = (\<lambda>_. 0), on_timer_calls = []\<rparr>"

definition wire_callback :: "KHardwareTimer \<Rightarrow> KHardwareTimer" where
  "wire_callback h = h\<lparr>wired := True\<rparr>"

definition get_interrupt_enabled_locked :: "KHardwareTimer \<Rightarrow> bool" where
  "get_interrupt_enabled_locked h \<longleftrightarrow> m_wakeup_time h \<noteq> I64_MAX"

definition disable_interrupt_locked :: "KHardwareTimer \<Rightarrow> KHardwareTimer" where
  "disable_interrupt_locked h =
     (if \<not> get_interrupt_enabled_locked h then h
      else (if wired h then h\<lparr>events := []\<rparr> else h)\<lparr>m_wakeup_time := I64_MAX\<rparr>)"

text \<open>The wake-up is set and, with the core timing there, its event scheduled.\<close>

definition rearm_interrupt_after_callback_locked :: "int \<Rightarrow> KHardwareTimer \<Rightarrow> KHardwareTimer" where
  "rearm_interrupt_after_callback_locked t h =
     (let h = h\<lparr>m_wakeup_time := t\<rparr> in if wired h then h\<lparr>events := events h @ [t]\<rparr> else h)"

definition enable_interrupt_locked :: "int \<Rightarrow> KHardwareTimer \<Rightarrow> KHardwareTimer" where
  "enable_interrupt_locked t h =
     (let h = (disable_interrupt_locked h)\<lparr>m_wakeup_time := t\<rparr> in if wired h then h\<lparr>events := events h @ [t]\<rparr> else h)"

definition register_absolute_task :: "TimerTaskId \<Rightarrow> nat \<Rightarrow> int \<Rightarrow> KHardwareTimer \<Rightarrow> KHardwareTimer option" where
  "register_absolute_task i ptr t h = do {
     let h = h\<lparr>timer_task_time := (timer_task_time h)(i := t), thread_ptrs := (thread_ptrs h)(i := Some ptr)\<rparr>;
     (first, b) \<leftarrow> register_absolute_task_impl i t (timer_base h);
     let h = h\<lparr>timer_base := b\<rparr>;
     Some (if first \<and> t \<le> m_wakeup_time h then enable_interrupt_locked t h else h) }"

definition cancel_task_by_id :: "TimerTaskId \<Rightarrow> int \<Rightarrow> KHardwareTimer \<Rightarrow> KHardwareTimer option" where
  "cancel_task_by_id i t h = do {
     b \<leftarrow> (if 0 < t then base_cancel_task i t (timer_base h) else Some (timer_base h));
     Some (h\<lparr>timer_base := b, thread_ptrs := (thread_ptrs h)(i := None)\<rparr>) }"

definition cancel_task :: "TimerTaskId \<Rightarrow> KHardwareTimer \<Rightarrow> KHardwareTimer option" where
  "cancel_task i h = do {
     let t = timer_task_time h i;
     b \<leftarrow> (if 0 < t then base_cancel_task i t (timer_base h) else Some (timer_base h));
     Some (h\<lparr>timer_base := b, timer_task_time := (timer_task_time h)(i := 0), thread_ptrs := (thread_ptrs h)(i := None)\<rparr>) }"

definition timer_finalize :: "KHardwareTimer \<Rightarrow> KHardwareTimer" where
  "timer_finalize h = (if wired h then h\<lparr>events := []\<rparr> else h)\<lparr>m_wakeup_time := I64_MAX, wired := False, thread_ptrs := (\<lambda>_. None)\<rparr>"

text \<open>One task is delivered: its thread is one the scheduler context lists (\<open>listed\<close>), or the pointer
  that was registered, if it is not null.\<close>

type_synonym delivery = "(TimerTaskId \<Rightarrow> nat option) \<times> (TimerTaskId \<Rightarrow> int) \<times> TimerTaskId list"

definition deliver :: "(TimerTaskId \<Rightarrow> bool) \<Rightarrow> TimerTaskId \<Rightarrow> delivery \<Rightarrow> delivery" where
  "deliver listed i s = (case s of (ptrs, deadlines, calls) \<Rightarrow>
     if listed i \<or> (\<exists>p. ptrs i = Some p \<and> p \<noteq> 0) then (ptrs(i := None), deadlines(i := 0), calls @ [i])
     else (ptrs(i := None), deadlines, calls))"

text \<open>\<open>running\<close> says whether there still is a scheduler lock to take.\<close>

definition do_task :: "bool \<Rightarrow> (TimerTaskId \<Rightarrow> bool) \<Rightarrow> int \<Rightarrow> KHardwareTimer \<Rightarrow> KHardwareTimer option" where
  "do_task running listed now h =
     (if \<not> running \<or> \<not> get_interrupt_enabled_locked h then Some h
      else do {
        let h = h\<lparr>m_wakeup_time := I64_MAX\<rparr>;
        let cur = (if wired h then now else 0);
        (next_time, b, ptrs, deadlines, calls) \<leftarrow> do_interrupt_task_impl cur (deliver listed) (timer_base h)
          (thread_ptrs h, timer_task_time h, on_timer_calls h);
        let h = h\<lparr>timer_base := b, thread_ptrs := ptrs, timer_task_time := deadlines, on_timer_calls := calls\<rparr>;
        Some (if 0 < next_time \<and> next_time \<le> m_wakeup_time h then rearm_interrupt_after_callback_locked next_time h else h) })"

end
