(* ===== verification/HardwareTimerProps.thy ===== *)
theory HardwareTimerProps
  imports HardwareTimer
begin

text \<open>
  The timer as a queue of tasks, ordered by deadline and, for the same deadline, by registration; and
  the wake-up of the timer, which never comes after the first deadline.
\<close>

section \<open>The queue of tasks\<close>

type_synonym task_queue = "(int \<times> TimerTaskId) list"

definition tasks_of :: "(int, TimerTaskId list) btree \<Rightarrow> task_queue" where
  "tasks_of tree = concat (map (\<lambda>(t, ids). map (Pair t) ids) tree)"

definition first_in :: "task_queue \<Rightarrow> (int \<times> TimerTaskId) option" where
  "first_in q = (case q of [] \<Rightarrow> None | e # es \<Rightarrow> Some e)"

definition without :: "TimerTaskId \<Rightarrow> task_queue \<Rightarrow> task_queue" where
  "without i q = filter (\<lambda>e. snd e \<noteq> i) q"

definition insert_timed :: "int \<Rightarrow> TimerTaskId \<Rightarrow> task_queue \<Rightarrow> task_queue" where
  "insert_timed t i q = takeWhile (\<lambda>e. fst e \<le> t) q @ (t, i) # dropWhile (\<lambda>e. fst e \<le> t) q"

definition tree_ok :: "(int, TimerTaskId list) btree \<Rightarrow> bool" where
  "tree_ok tree \<longleftrightarrow> bt_sorted tree \<and> (\<forall>e \<in> set tree. 0 < fst e \<and> snd e \<noteq> [])"

definition timer_rep :: "KHardwareTimerBase \<Rightarrow> task_queue \<Rightarrow> bool" where
  "timer_rep b q \<longleftrightarrow> tree_ok (m_task_tree b) \<and> q = tasks_of (m_task_tree b) \<and> distinct (map snd q) \<and>
     (\<forall>i t. m_task_times b i = Some t \<longleftrightarrow> (t, i) \<in> set q) \<and> m_next_task b = first_in q"

lemma tasks_simps [simp]:
  "tasks_of [] = []" "tasks_of (e # tree) = map (Pair (fst e)) (snd e) @ tasks_of tree"
  "tasks_of (xs @ ys) = tasks_of xs @ tasks_of ys"
  by (simp_all add: tasks_of_def split_def)

lemma tasks_key: "e \<in> set (tasks_of tree) \<Longrightarrow> fst e \<in> fst ` set tree"
  by (induction tree) auto

lemma first_simps [simp]: "first_in [] = None" "first_in (e # q) = Some e"
  by (simp_all add: first_in_def)

lemma without_simps [simp]:
  "without i [] = []" "without i (e # q) = (if snd e = i then without i q else e # without i q)"
  "without i (xs @ ys) = without i xs @ without i ys"
  by (simp_all add: without_def)

lemma without_absent: "i \<notin> snd ` set q \<Longrightarrow> without i q = q"
  by (auto simp: without_def intro!: filter_True)

lemma without_set: "set (without i q) = {e \<in> set q. snd e \<noteq> i}"
  by (simp add: without_def)

lemma without_level: "without i (map (Pair t) ids) = map (Pair t) (filter (\<lambda>j. j \<noteq> i) ids)"
  by (induction ids) simp_all

lemma tasks_sorted:
  assumes "tree_ok tree"
  shows "sorted (map fst (tasks_of tree))"
  using assms
proof (induction tree)
  case (Cons e tree)
  have "tree_ok tree" "\<forall>b \<in> set tree. fst e < fst b" using Cons.prems by (auto simp: tree_ok_def bt_sorted_Cons)
  moreover have "\<forall>x \<in> set (tasks_of tree). fst e \<le> fst x" using tasks_key calculation(2) by fastforce
  ultimately show ?case using Cons.IH by (auto simp: sorted_append comp_def sorted_replicate map_replicate_const)
qed simp

lemma first_task_ok: "tree_ok tree \<Longrightarrow> first_task tree = Some (first_in (tasks_of tree))"
  by (auto simp: first_task_def tree_ok_def split: list.split)

lemma tree_split:
  assumes "bt_sorted tree" "bt_get t tree = Some ids"
  shows "\<exists>xs ys. tree = xs @ (t, ids) # ys \<and> t \<notin> fst ` set xs \<and> t \<notin> fst ` set ys"
proof -
  have "(t, ids) \<in> set tree" using assms(2) map_of_SomeD by (fastforce simp: bt_get_def)
  then obtain xs ys where "tree = xs @ (t, ids) # ys" by (meson split_list)
  with assms(1) show ?thesis by (fastforce simp: bt_sorted_mid)
qed

text \<open>A removal at the time the task has, if it has one, takes the task out of the queue.\<close>

lemma remove_tree:
  assumes "tree_ok tree" "\<forall>t'. (t', i) \<in> set (tasks_of tree) \<longrightarrow> t' = t"
  defines "tree' \<equiv> (case bt_get t tree of None \<Rightarrow> tree
     | Some ids \<Rightarrow> (let ids = filter (\<lambda>j. j \<noteq> i) ids in if ids = [] then bt_remove t tree else bt_modify t (\<lambda>_. ids) tree))"
  shows "tree_ok tree' \<and> tasks_of tree' = without i (tasks_of tree)"
proof (cases "bt_get t tree")
  case None
  have "i \<notin> snd ` set (tasks_of tree)"
  proof
    assume "i \<in> snd ` set (tasks_of tree)"
    then have "(t, i) \<in> set (tasks_of tree)" using assms(2) by force
    then have "t \<in> fst ` set tree" using tasks_key by fastforce
    then show False using None by (simp add: bt_get_def map_of_eq_None_iff)
  qed
  then show ?thesis using None assms(1) by (simp add: tree'_def without_absent)
next
  case (Some ids)
  have srt: "bt_sorted tree" using assms(1) by (simp add: tree_ok_def)
  obtain xs ys where s: "tree = xs @ (t, ids) # ys" "t \<notin> fst ` set xs" "t \<notin> fst ` set ys" using tree_split [OF srt Some] by blast
  note at = bt_at [OF srt [unfolded s(1)]]
  have "i \<notin> snd ` set (tasks_of zs)" if "zs = xs \<or> zs = ys" for zs
  proof
    assume "i \<in> snd ` set (tasks_of zs)"
    then obtain t' where t': "(t', i) \<in> set (tasks_of zs)" by auto
    then have "t' = t" using assms(2) that s(1) by auto
    then show False using tasks_key [OF t'] that s(2,3) by auto
  qed
  then have w: "without i (tasks_of tree) = tasks_of xs @ map (Pair t) (filter (\<lambda>j. j \<noteq> i) ids) @ tasks_of ys"
    using s(1) by (simp add: without_absent without_level)
  have ok: "tree_ok (xs @ ys)" "ids' \<noteq> [] \<Longrightarrow> tree_ok (xs @ (t, ids') # ys)" for ids'
    using assms(1) by (auto simp: s(1) tree_ok_def bt_sorted_append bt_sorted_Cons)
  show ?thesis
  proof (cases "filter (\<lambda>j. j \<noteq> i) ids = []")
    case True
    then have "tree' = xs @ ys" using Some at(2) s(1) by (simp add: tree'_def Let_def)
    then show ?thesis using ok(1) w True by simp
  next
    case False
    then have "tree' = xs @ (t, filter (\<lambda>j. j \<noteq> i) ids) # ys"
      using Some at(3) [of "\<lambda>_. filter (\<lambda>j. j \<noteq> i) ids"] s(1) unfolding tree'_def by (simp only: option.case Let_def if_False)
    then show ?thesis using ok(2) [OF False] w by simp
  qed
qed

lemma remove_task_ok:
  assumes "timer_rep b q" "\<forall>t'. (t', i) \<in> set q \<longrightarrow> t' = t"
  shows "\<exists>b'. remove_task_from_tree i t b = Some b' \<and> timer_rep b' (without i q)"
proof -
  let ?tree = "case bt_get t (m_task_tree b) of None \<Rightarrow> m_task_tree b
     | Some ids \<Rightarrow> (let ids = filter (\<lambda>j. j \<noteq> i) ids in if ids = [] then bt_remove t (m_task_tree b) else bt_modify t (\<lambda>_. ids) (m_task_tree b))"
  note r = assms(1) [unfolded timer_rep_def]
  have tr: "tree_ok ?tree" "tasks_of ?tree = without i q" using remove_tree [of "m_task_tree b" i t] r assms(2) by auto
  have d: "distinct (map snd (without i q))" using r by (auto simp: without_def intro: distinct_map_filter)
  have deadlines: "((m_task_times b)(i := None)) j = Some t' \<longleftrightarrow> (t', j) \<in> set (without i q)" for j t'
    using r by (auto simp: without_set)
  show ?thesis
  proof (cases "\<exists>t' rest. q = (t', i) # rest")
    case True
    then obtain t' where n: "m_next_task b = Some (t', i)" using r by (auto simp: first_in_def)
    have "remove_task_from_tree i t b = Some (b\<lparr>m_task_tree := ?tree, m_task_times := (m_task_times b)(i := None),
      m_next_task := first_in (without i q)\<rparr>)"
      using n first_task_ok [OF tr(1)] tr(2) by (simp add: remove_task_from_tree_def Let_def)
    then show ?thesis using tr d deadlines by (simp add: timer_rep_def)
  next
    case False
    have f: "first_in (without i q) = first_in q" using False by (cases q) auto
    have "m_next_task b = first_in q" using r by simp
    then have "remove_task_from_tree i t b = Some (b\<lparr>m_task_tree := ?tree, m_task_times := (m_task_times b)(i := None)\<rparr>)"
      using False by (cases q) (auto simp: remove_task_from_tree_def Let_def)
    then show ?thesis using tr d deadlines f r by (simp add: timer_rep_def)
  qed
qed

text \<open>A registration enters the task behind those of the same deadline.\<close>

lemma insert_timed_split:
  assumes "\<forall>e \<in> set xs. fst e \<le> t" "\<forall>e \<in> set ys. t < fst e"
  shows "insert_timed t i (xs @ ys) = xs @ (t, i) # ys"
proof -
  have "takeWhile (\<lambda>e. fst e \<le> t) ys = []" "dropWhile (\<lambda>e. fst e \<le> t) ys = ys"
    using assms(2) by (cases ys; auto)+
  then show ?thesis using assms(1) by (simp add: insert_timed_def)
qed

lemma insert_tree:
  fixes i :: TimerTaskId
  assumes "tree_ok tree" "0 < t"
  defines "tree' \<equiv> bt_insert t ((case bt_get t tree of Some ids \<Rightarrow> ids | None \<Rightarrow> []) @ [i]) tree"
  shows "tree_ok tree' \<and> tasks_of tree' = insert_timed t i (tasks_of tree)"
proof -
  have srt: "bt_sorted tree" using assms(1) by (simp add: tree_ok_def)
  define xs where "xs = filter (\<lambda>e. fst e < t) tree"
  define ys where "ys = filter (\<lambda>e. t < fst e) tree"
  obtain ms where s: "tree = xs @ ms @ ys" "ms = (case bt_get t tree of Some ids \<Rightarrow> [(t, ids)] | None \<Rightarrow> [])"
  proof (cases "bt_get t tree")
    case None
    have g: "t \<notin> fst ` set zs \<Longrightarrow> bt_sorted zs \<Longrightarrow> zs = filter (\<lambda>e. fst e < t) zs @ filter (\<lambda>e. t < fst e) zs" for zs :: "(int, TimerTaskId list) btree"
    proof (induction zs)
      case (Cons e zs)
      show ?case
      proof (cases "fst e < t")
        case False
        then have "\<forall>b \<in> set (e # zs). t < fst b" using Cons.prems by (fastforce simp: bt_sorted_Cons)
        then have "filter (\<lambda>e. fst e < t) (e # zs) = []" "filter (\<lambda>e. t < fst e) (e # zs) = e # zs"
          by (auto intro!: filter_none filter_all)
        then show ?thesis by simp
      qed (use Cons in \<open>simp add: bt_sorted_Cons\<close>)
    qed simp
    have "t \<notin> fst ` set tree" using None by (simp add: bt_get_def map_of_eq_None_iff)
    from g [OF this srt] have "tree = xs @ [] @ ys" by (simp add: xs_def ys_def)
    then show ?thesis using that [of "[]"] None by simp
  next
    case (Some ids)
    obtain as bs where "tree = as @ (t, ids) # bs" using tree_split [OF srt Some] by blast
    moreover from this srt have "filter (\<lambda>e. fst e < t) tree = as" "filter (\<lambda>e. t < fst e) tree = bs"
      by (auto simp: bt_sorted_mid intro!: filter_all filter_none)
    ultimately show ?thesis using that [of "[(t, ids)]"] Some by (simp add: xs_def ys_def)
  qed
  have keys: "\<forall>a \<in> set xs. fst a < t" "\<forall>b \<in> set ys. t < fst b" by (simp_all add: xs_def ys_def)
  let ?ids = "(case bt_get t tree of Some ids \<Rightarrow> ids | None \<Rightarrow> [])"
  have over: "bt_insert t v (zs @ (t, ids) # ys) = zs @ (t, v) # ys" if "\<forall>a \<in> set zs. fst a < t" for v ids zs
    using that by (induction zs) auto
  have ins: "bt_insert t v (xs @ ms @ ys) = xs @ (t, v) # ys" for v
    using bt_insert_at [OF keys, of v] over [OF keys(1)] s(2) by (cases "bt_get t tree") simp_all
  have tree': "tree' = xs @ (t, ?ids @ [i]) # ys"
    using ins [of "?ids @ [i]"] unfolding tree'_def s(1) [symmetric] .
  have q: "tasks_of tree = tasks_of xs @ map (Pair t) ?ids @ tasks_of ys"
    using arg_cong [OF s(1), of tasks_of] s(2) by (cases "bt_get t tree") simp_all
  have "fst e < t" if "e \<in> set (tasks_of xs)" for e using tasks_key [OF that] keys(1) by auto
  moreover have "t < fst e" if "e \<in> set (tasks_of ys)" for e using tasks_key [OF that] keys(2) by auto
  ultimately have "\<forall>e \<in> set (tasks_of xs @ map (Pair t) ?ids). fst e \<le> t" "\<forall>e \<in> set (tasks_of ys). t < fst e"
    by (auto intro: less_imp_le)
  from insert_timed_split [OF this, of i] have "tasks_of tree' = insert_timed t i (tasks_of tree)" by (simp add: tree' q)
  moreover have "tree_ok tree'"
  proof -
    have "bt_sorted tree'" unfolding tree'_def by (rule bt_insert_sorted [OF srt])
    moreover have "0 < fst e \<and> snd e \<noteq> []" if "e \<in> set tree'" for e
      using that assms(1,2) by (auto simp: tree' tree_ok_def xs_def ys_def)
    ultimately show ?thesis by (simp add: tree_ok_def)
  qed
  ultimately show ?thesis by blast
qed

lemma insert_timed_set: "set (insert_timed t i q) = insert (t, i) (set q)"
  unfolding insert_timed_def by (metis (no_types, lifting) Un_insert_right list.simps(15) set_append takeWhile_dropWhile_id)

lemma insert_timed_distinct: "distinct (map snd q) \<Longrightarrow> i \<notin> snd ` set q \<Longrightarrow> distinct (map snd (insert_timed t i q))"
proof -
  assume d: "distinct (map snd q)" "i \<notin> snd ` set q"
  let ?l = "takeWhile (\<lambda>e. fst e \<le> t) q" and ?r = "dropWhile (\<lambda>e. fst e \<le> t) q"
  have "distinct (map snd (?l @ ?r))" unfolding takeWhile_dropWhile_id by (rule d(1))
  then have "distinct (map snd ?l @ map snd ?r)" by (simp only: map_append)
  moreover have "set ?l \<subseteq> set q" "set ?r \<subseteq> set q" by (auto dest: set_takeWhileD set_dropWhileD)
  moreover from this have "i \<notin> snd ` set ?l" "i \<notin> snd ` set ?r" using d(2) by blast+
  ultimately show ?thesis unfolding insert_timed_def by auto
qed

lemma register_ok:
  assumes "timer_rep b q" "0 < t"
  shows "\<exists>b'. register_absolute_task_impl i t b = Some (first_in (insert_timed t i (without i q)) = Some (t, i), b') \<and>
    timer_rep b' (insert_timed t i (without i q))"
proof -
  note r0 = assms(1) [unfolded timer_rep_def]
  obtain b1 where b1: "(case m_task_times b i of Some old \<Rightarrow> remove_task_from_tree i old b | None \<Rightarrow> Some b) = Some b1"
    "timer_rep b1 (without i q)"
  proof (cases "m_task_times b i")
    case None
    then have "\<forall>t. (t, i) \<notin> set q" using r0 by (metis option.distinct(1))
    then have "without i q = q" by (intro without_absent) force
    then show ?thesis using that None assms(1) by simp
  next
    case (Some old)
    then have "(old, i) \<in> set q" using r0 by simp
    then have "\<forall>t'. (t', i) \<in> set q \<longrightarrow> t' = old" using r0 Some by (metis option.inject)
    from remove_task_ok [OF assms(1) this] show ?thesis using that Some by auto
  qed
  let ?q = "without i q"
  note r = b1(2) [unfolded timer_rep_def]
  let ?tree = "bt_insert t ((case bt_get t (m_task_tree b1) of Some ids \<Rightarrow> ids | None \<Rightarrow> []) @ [i]) (m_task_tree b1)"
  have tr: "tree_ok ?tree" "tasks_of ?tree = insert_timed t i ?q" using insert_tree [of "m_task_tree b1" t i] r assms(2) by auto
  have fresh: "i \<notin> snd ` set ?q" by (auto simp: without_set)
  have d: "distinct (map snd (insert_timed t i ?q))" using insert_timed_distinct r fresh by blast
  have deadlines: "((m_task_times b1)(i := Some t)) j = Some t' \<longleftrightarrow> (t', j) \<in> set (insert_timed t i ?q)" for j t'
    using r fresh by (force simp: insert_timed_set)
  have first: "first_in (insert_timed t i ?q) = (case ?q of [] \<Rightarrow> Some (t, i) | e # es \<Rightarrow> if fst e \<le> t then Some e else Some (t, i))"
    by (cases ?q) (simp_all add: insert_timed_def)
  let ?b = "b1\<lparr>m_task_tree := ?tree, m_task_times := (m_task_times b1)(i := Some t)\<rparr>"
  have reg: "register_absolute_task_impl i t b = (case first_in ?q of
       Some (next_time, _) \<Rightarrow> if next_time \<le> t then Some (False, ?b) else Some (True, ?b\<lparr>m_next_task := Some (t, i)\<rparr>)
     | None \<Rightarrow> Some (True, ?b\<lparr>m_next_task := Some (t, i)\<rparr>))"
    using b1(1) assms(2) r by (simp add: register_absolute_task_impl_def Let_def)
  show ?thesis
  proof (cases ?q)
    case Nil
    then show ?thesis using reg first tr d deadlines by (simp add: timer_rep_def)
  next
    case (Cons e es)
    obtain t0 i0 where e: "e = (t0, i0)" by force
    have "i0 \<noteq> i" using fresh Cons e by auto
    moreover have "m_next_task b1 = first_in ?q" using r by simp
    ultimately show ?thesis using reg first tr d deadlines Cons e by (simp add: timer_rep_def)
  qed
qed

lemma cancel_ok:
  assumes "timer_rep b q" "0 < t \<Longrightarrow> \<forall>t'. (t', i) \<in> set q \<longrightarrow> t' = t"
  shows "\<exists>b'. base_cancel_task i t b = Some b' \<and> timer_rep b' (if 0 < t then without i q else q)"
  using remove_task_ok [OF assms(1)] assms by (auto simp: base_cancel_task_def)

text \<open>The tasks that are due leave the queue in its order.\<close>

definition next_time :: "task_queue \<Rightarrow> int" where
  "next_time q = (case q of [] \<Rightarrow> 0 | e # es \<Rightarrow> fst e)"

abbreviation due :: "int \<Rightarrow> task_queue \<Rightarrow> task_queue" where
  "due cur q \<equiv> takeWhile (\<lambda>e. fst e \<le> cur) q"

abbreviation pending :: "int \<Rightarrow> task_queue \<Rightarrow> task_queue" where
  "pending cur q \<equiv> dropWhile (\<lambda>e. fst e \<le> cur) q"

lemma remove_first:
  assumes "timer_rep b ((t, i) # q)"
  shows "\<exists>b'. remove_task_from_tree i t b = Some b' \<and> timer_rep b' q"
proof -
  have "i \<notin> snd ` set q" using assms by (auto simp: timer_rep_def)
  then have "without i ((t, i) # q) = q" "\<forall>t'. (t', i) \<in> set ((t, i) # q) \<longrightarrow> t' = t" by (force simp: without_absent)+
  then show ?thesis using remove_task_ok [OF assms] by metis
qed

lemma do_interrupt_ok:
  assumes "timer_rep b q"
  shows "\<exists>b'. do_interrupt_task_impl cur handler b s = Some (next_time (pending cur q), b', fold handler (map snd (due cur q)) s) \<and>
    timer_rep b' (pending cur q)"
  using assms
proof (induction q arbitrary: b s)
  case Nil
  then show ?case by (subst do_interrupt_task_impl.simps) (simp add: timer_rep_def next_time_def)
next
  case (Cons e q)
  obtain t i where e: "e = (t, i)" by force
  have n: "m_next_task b = Some (t, i)" using Cons.prems e by (simp add: timer_rep_def)
  show ?case
  proof (cases "cur < t")
    case True
    then show ?thesis using Cons.prems n e by (subst do_interrupt_task_impl.simps) (simp add: next_time_def)
  next
    case False
    obtain b1 where "remove_task_from_tree i t b = Some b1" "timer_rep b1 q" using remove_first Cons.prems e by blast
    then show ?thesis using Cons.IH [of b1 "handler i s"] n e False by (subst do_interrupt_task_impl.simps) simp
  qed
qed

lemma collect_loop_ok:
  assumes "timer_rep b q"
  shows "\<exists>b'. collect_loop cur fired b = Some ((fired @ map snd (due cur q), next_time (pending cur q)), b') \<and>
    timer_rep b' (pending cur q)"
  using assms
proof (induction q arbitrary: b fired)
  case Nil
  then show ?case by (subst collect_loop.simps) (simp add: timer_rep_def next_time_def)
next
  case (Cons e q)
  obtain t i where e: "e = (t, i)" by force
  have n: "m_next_task b = Some (t, i)" using Cons.prems e by (simp add: timer_rep_def)
  show ?case
  proof (cases "cur < t")
    case True
    then show ?thesis using Cons.prems n e by (subst collect_loop.simps) (simp add: next_time_def)
  next
    case False
    obtain b1 where "remove_task_from_tree i t b = Some b1" "timer_rep b1 q" using remove_first Cons.prems e by blast
    then show ?thesis using Cons.IH [of b1 "fired @ [i]"] n e False by (subst collect_loop.simps) simp
  qed
qed

section \<open>Runs of the task tree\<close>

datatype timer_op = Register_Task TimerTaskId int | Cancel_Task TimerTaskId int | Collect_Expired int

datatype timer_outcome = Registered bool | Cancelled | Expired "TimerTaskId list" int

fun timer_exec :: "timer_op \<Rightarrow> KHardwareTimerBase \<Rightarrow> (timer_outcome \<times> KHardwareTimerBase) option" where
  "timer_exec (Register_Task i t) b = do { (r, b) \<leftarrow> register_absolute_task_impl i t b; Some (Registered r, b) }"
| "timer_exec (Cancel_Task i t) b = do { b \<leftarrow> base_cancel_task i t b; Some (Cancelled, b) }"
| "timer_exec (Collect_Expired cur) b = do { ((ids, n), b) \<leftarrow> collect_expired_tasks cur b; Some (Expired ids n, b) }"

fun timer_spec :: "timer_op \<Rightarrow> task_queue \<Rightarrow> timer_outcome \<times> task_queue" where
  "timer_spec (Register_Task i t) q =
     (let q = insert_timed t i (without i q) in (Registered (first_in q = Some (t, i)), q))"
| "timer_spec (Cancel_Task i t) q = (Cancelled, if 0 < t then without i q else q)"
| "timer_spec (Collect_Expired cur) q = (Expired (map snd (due cur q)) (next_time (pending cur q)), pending cur q)"

text \<open>A deadline is positive, and a task is cancelled with the deadline it has, if it has one.\<close>

fun timer_op_ok :: "task_queue \<Rightarrow> timer_op \<Rightarrow> bool" where
  "timer_op_ok q (Register_Task i t) \<longleftrightarrow> 0 < t"
| "timer_op_ok q (Cancel_Task i t) \<longleftrightarrow> 0 < t \<longrightarrow> (\<forall>e \<in> set q. snd e = i \<longrightarrow> fst e = t)"
| "timer_op_ok q (Collect_Expired cur) \<longleftrightarrow> True"

fun timer_run :: "timer_op list \<Rightarrow> KHardwareTimerBase \<Rightarrow> (timer_outcome list \<times> KHardwareTimerBase) option" where
  "timer_run [] b = Some ([], b)"
| "timer_run (op # ops) b = do { (out, b) \<leftarrow> timer_exec op b; (outs, b) \<leftarrow> timer_run ops b; Some (out # outs, b) }"

fun timer_specs :: "timer_op list \<Rightarrow> task_queue \<Rightarrow> timer_outcome list \<times> task_queue" where
  "timer_specs [] q = ([], q)"
| "timer_specs (op # ops) q = (let (out, q) = timer_spec op q; (outs, q) = timer_specs ops q in (out # outs, q))"

fun timer_ops_ok :: "timer_op list \<Rightarrow> task_queue \<Rightarrow> bool" where
  "timer_ops_ok [] q \<longleftrightarrow> True"
| "timer_ops_ok (op # ops) q \<longleftrightarrow> timer_op_ok q op \<and> timer_ops_ok ops (snd (timer_spec op q))"

lemma timer_exec_ok:
  assumes "timer_rep b q" "timer_op_ok q op"
  shows "\<exists>b'. timer_exec op b = Some (fst (timer_spec op q), b') \<and> timer_rep b' (snd (timer_spec op q))"
proof (cases op)
  case (Register_Task i t)
  then show ?thesis using register_ok [OF assms(1), of t i] assms(2) by (auto simp: Let_def)
next
  case (Cancel_Task i t)
  then have "0 < t \<Longrightarrow> \<forall>t'. (t', i) \<in> set q \<longrightarrow> t' = t" using assms(2) by auto
  from cancel_ok [OF assms(1) this] show ?thesis using Cancel_Task by auto
next
  case (Collect_Expired cur)
  then show ?thesis using collect_loop_ok [OF assms(1), of cur "[]"] by (auto simp: collect_expired_tasks_def)
qed

lemma timer_run_ok:
  assumes "timer_rep b q" "timer_ops_ok ops q"
  shows "\<exists>b'. timer_run ops b = Some (fst (timer_specs ops q), b') \<and> timer_rep b' (snd (timer_specs ops q))"
  using assms
proof (induction ops arbitrary: b q)
  case (Cons op ops)
  obtain b1 where "timer_exec op b = Some (fst (timer_spec op q), b1)" "timer_rep b1 (snd (timer_spec op q))"
    using timer_exec_ok Cons.prems by fastforce
  with Cons.IH [of b1 "snd (timer_spec op q)"] Cons.prems show ?case by (auto simp: split_def Let_def)
qed simp

lemma timer_new_rep: "timer_rep timer_base_new []"
  by (simp add: timer_rep_def timer_base_new_def tree_ok_def bt_sorted_def)

text \<open>C35: every run of registrations, cancellations and expirations on the task tree ends without a panic
  and answers as a queue of tasks ordered by deadline, and by registration for the same deadline. A task
  is in the queue once, whatever it was registered for before; a registration tells whether its task is
  now the first; an expiration hands out exactly the tasks that are due, in the order of the queue, and
  the deadline of the first task that is left, or 0.\<close>

theorem timer_refines_queue:
  assumes "timer_ops_ok ops []"
  shows "\<exists>b q. timer_run ops timer_base_new = Some (fst (timer_specs ops []), b) \<and> timer_rep b q \<and>
    q = snd (timer_specs ops []) \<and> sorted (map fst q) \<and> distinct (map snd q)"
proof -
  obtain b where b: "timer_run ops timer_base_new = Some (fst (timer_specs ops []), b)" "timer_rep b (snd (timer_specs ops []))"
    using timer_run_ok [OF timer_new_rep assms] by blast
  then show ?thesis using tasks_sorted by (auto simp: timer_rep_def)
qed

section \<open>The wake-up\<close>

text \<open>The operations of the kernel on the timer, with the core timing there. A thread cancels with the
  deadline it keeps; the callback runs when one of the events of the timer is due.\<close>

inductive timer_reachable :: "(TimerTaskId \<Rightarrow> bool) \<Rightarrow> KHardwareTimer \<Rightarrow> bool" for listed where
  timer_start: "timer_reachable listed (wire_callback timer_new)"
| timer_register: "timer_reachable listed h \<Longrightarrow> 0 < t \<Longrightarrow> t < I64_MAX \<Longrightarrow> ptr \<noteq> 0 \<Longrightarrow>
    register_absolute_task i ptr t h = Some h' \<Longrightarrow> timer_reachable listed h'"
| timer_cancel: "timer_reachable listed h \<Longrightarrow> cancel_task i h = Some h' \<Longrightarrow> timer_reachable listed h'"
| timer_cancel_by_id: "timer_reachable listed h \<Longrightarrow> cancel_task_by_id i (timer_task_time h i) h = Some h' \<Longrightarrow> timer_reachable listed h'"
| timer_fire: "timer_reachable listed h \<Longrightarrow> e \<in> set (events h) \<Longrightarrow> e \<le> now \<Longrightarrow>
    do_task True listed now (h\<lparr>events := remove1 e (events h)\<rparr>) = Some h' \<Longrightarrow> timer_reachable listed h'"

definition timer_inv :: "KHardwareTimer \<Rightarrow> task_queue \<Rightarrow> bool" where
  "timer_inv h q \<longleftrightarrow> timer_rep (timer_base h) q \<and> wired h \<and>
     (\<forall>(t, i) \<in> set q. timer_task_time h i = t \<and> t < I64_MAX \<and> (\<exists>p. thread_ptrs h i = Some p \<and> p \<noteq> 0)) \<and>
     (\<forall>e \<in> set q. m_wakeup_time h \<le> fst e) \<and> (m_wakeup_time h \<noteq> I64_MAX \<longrightarrow> m_wakeup_time h \<in> set (events h))"

lemma timer_inv_start: "timer_inv (wire_callback timer_new) []"
  using timer_new_rep by (simp add: timer_inv_def wire_callback_def timer_new_def)

lemma timer_inv_register:
  assumes "timer_inv h q" "0 < t" "t < I64_MAX" "ptr \<noteq> 0"
  shows "\<exists>h'. register_absolute_task i ptr t h = Some h' \<and> timer_inv h' (insert_timed t i (without i q))"
proof -
  note v = assms(1) [unfolded timer_inv_def]
  let ?q = "insert_timed t i (without i q)"
  obtain b' where b': "register_absolute_task_impl i t (timer_base h) = Some (first_in ?q = Some (t, i), b')" "timer_rep b' ?q"
    using register_ok [of "timer_base h" q t i] v assms(2) by blast
  have q: "e \<in> set ?q \<Longrightarrow> e = (t, i) \<or> e \<in> set q \<and> snd e \<noteq> i" for e by (auto simp: insert_timed_set without_set)
  have srt: "sorted (map fst ?q)" using b'(2) tasks_sorted by (auto simp: timer_rep_def)
  have first: "\<forall>e \<in> set ?q. t \<le> fst e" if "first_in ?q = Some (t, i)"
    using that srt by (cases ?q) (auto simp: first_in_def)
  have late: "m_wakeup_time h \<le> t" if "first_in ?q \<noteq> Some (t, i)"
  proof -
    obtain e es where es: "?q = e # es" using insert_timed_set [of t i "without i q"] by (cases ?q) auto
    then have e: "?q = e # es" "e \<noteq> (t, i)" using that by auto
    have "(t, i) \<in> set ?q" by (simp add: insert_timed_set)
    then have "fst e \<le> t" using srt e by auto
    moreover have "e \<in> set q" using q [of e] e by simp
    ultimately show ?thesis using v by fastforce
  qed
  let ?h = "h\<lparr>timer_task_time := (timer_task_time h)(i := t), thread_ptrs := (thread_ptrs h)(i := Some ptr), timer_base := b'\<rparr>"
  have threads: "\<forall>(t', j) \<in> set ?q. ((timer_task_time h)(i := t)) j = t' \<and> t' < I64_MAX \<and>
      (\<exists>p. ((thread_ptrs h)(i := Some ptr)) j = Some p \<and> p \<noteq> 0)"
    using v q assms(3,4) by fastforce
  have run: "register_absolute_task i ptr t h =
    Some (if first_in ?q = Some (t, i) \<and> t \<le> m_wakeup_time ?h then enable_interrupt_locked t ?h else ?h)"
    using b'(1) by (simp add: register_absolute_task_def Let_def)
  have old: "\<forall>e \<in> set ?q. m_wakeup_time h \<le> fst e" if "\<not> (first_in ?q = Some (t, i) \<and> t \<le> m_wakeup_time h)"
  proof
    fix e assume "e \<in> set ?q"
    with q [of e] v late that show "m_wakeup_time h \<le> fst e" by (cases "e = (t, i)") auto
  qed
  show ?thesis unfolding run
    using b'(2) v threads first old
    by (auto simp: timer_inv_def enable_interrupt_locked_def disable_interrupt_locked_def get_interrupt_enabled_locked_def Let_def)
qed

lemma timer_inv_less:
  assumes "timer_inv h q" "timer_rep b' (without i q)"
  shows "timer_inv (h\<lparr>timer_base := b', thread_ptrs := (thread_ptrs h)(i := None)\<rparr>) (without i q)"
    "timer_inv (h\<lparr>timer_base := b', timer_task_time := (timer_task_time h)(i := 0), thread_ptrs := (thread_ptrs h)(i := None)\<rparr>) (without i q)"
  using assms by (auto simp: timer_inv_def without_set)

lemma timer_inv_cancel:
  assumes "timer_inv h q"
  shows "\<exists>h'. cancel_task_by_id i (timer_task_time h i) h = Some h' \<and> timer_inv h' (without i q)"
    "\<exists>h'. cancel_task i h = Some h' \<and> timer_inv h' (without i q)"
proof -
  let ?t = "timer_task_time h i"
  have v: "timer_rep (timer_base h) q" "\<forall>t'. (t', i) \<in> set q \<longrightarrow> t' = ?t" using assms by (auto simp: timer_inv_def)
  have pos: "\<forall>e \<in> set q. 0 < fst e" using v(1) tasks_key by (fastforce simp: timer_rep_def tree_ok_def)
  obtain b' where b': "(if 0 < ?t then base_cancel_task i ?t (timer_base h) else Some (timer_base h)) = Some b'" "timer_rep b' (without i q)"
  proof (cases "0 < ?t")
    case True
    then show ?thesis using that cancel_ok [OF v(1), of ?t i] v(2) by auto
  next
    case False
    then have "i \<notin> snd ` set q" using v(2) pos by fastforce
    then show ?thesis using that False v(1) by (simp add: without_absent)
  qed
  show "\<exists>h'. cancel_task_by_id i ?t h = Some h' \<and> timer_inv h' (without i q)" "\<exists>h'. cancel_task i h = Some h' \<and> timer_inv h' (without i q)"
    using b'(1) timer_inv_less [OF assms b'(2)] by (simp_all add: cancel_task_by_id_def cancel_task_def Let_def)
qed

text \<open>Every task that is due has a thread to deliver it to.\<close>

lemma deliver_all:
  assumes "distinct ids" "\<forall>i \<in> set ids. \<exists>p. ptrs i = Some p \<and> p \<noteq> 0"
  shows "fold (deliver listed) ids (ptrs, deadlines, calls) =
    (\<lambda>i. if i \<in> set ids then None else ptrs i, \<lambda>i. if i \<in> set ids then 0 else deadlines i, calls @ ids)"
  using assms
proof (induction ids arbitrary: ptrs deadlines calls)
  case (Cons i ids)
  have "deliver listed i (ptrs, deadlines, calls) = (ptrs(i := None), deadlines(i := 0), calls @ [i])"
    using Cons.prems by (simp add: deliver_def)
  moreover have "fold (deliver listed) ids (ptrs(i := None), deadlines(i := 0), calls @ [i]) =
    (\<lambda>j. if j \<in> set ids then None else (ptrs(i := None)) j, \<lambda>j. if j \<in> set ids then 0 else (deadlines(i := 0)) j, (calls @ [i]) @ ids)"
    by (rule Cons.IH) (use Cons.prems in auto)
  moreover have "(\<lambda>j. if j \<in> set ids then None else (ptrs(i := None)) j) = (\<lambda>j. if j \<in> set (i # ids) then None else ptrs j)"
    "(\<lambda>j. if j \<in> set ids then 0 else (deadlines(i := 0)) j) = (\<lambda>j. if j \<in> set (i # ids) then 0 else deadlines j)" by auto
  ultimately show ?case by (simp only: fold_simps append_assoc append_Cons append_Nil)
qed simp

lemma next_time_simps:
  "sorted (map fst q) \<Longrightarrow> e \<in> set q \<Longrightarrow> next_time q \<le> fst e" "q \<noteq> [] \<Longrightarrow> \<exists>i. (next_time q, i) \<in> set q" "q = [] \<Longrightarrow> next_time q = 0"
  by (cases q; auto simp: next_time_def)+

lemma rearmed_inv:
  assumes "timer_rep (timer_base h) q" "wired h" "m_wakeup_time h = I64_MAX"
    "\<forall>(t, i) \<in> set q. timer_task_time h i = t \<and> t < I64_MAX \<and> (\<exists>p. thread_ptrs h i = Some p \<and> p \<noteq> 0)"
  shows "timer_inv (if 0 < next_time q \<and> next_time q \<le> m_wakeup_time h
    then rearm_interrupt_after_callback_locked (next_time q) h else h) q"
proof -
  have srt: "sorted (map fst q)" "\<forall>e \<in> set q. 0 < fst e"
    using assms(1) tasks_sorted tasks_key by (fastforce simp: timer_rep_def tree_ok_def)+
  have "\<forall>e \<in> set q. next_time q \<le> fst e" using next_time_simps(1) [OF srt(1)] by blast
  moreover have "0 < next_time q \<and> next_time q < I64_MAX" if "q \<noteq> []"
    using next_time_simps(2) [OF that] srt(2) assms(4) by fastforce
  ultimately show ?thesis
    using assms next_time_simps(3) [of q] by (cases "q = []") (auto simp: timer_inv_def rearm_interrupt_after_callback_locked_def Let_def)
qed

lemma timer_inv_fire:
  assumes "timer_inv h q" "q \<noteq> [] \<Longrightarrow> m_wakeup_time h \<noteq> I64_MAX"
  shows "\<exists>h'. do_task True listed now (h\<lparr>events := evs\<rparr>) = Some h' \<and>
    (m_wakeup_time h \<noteq> I64_MAX \<longrightarrow> timer_inv h' (pending now q) \<and> on_timer_calls h' = on_timer_calls h @ map snd (due now q)) \<and>
    (m_wakeup_time h = I64_MAX \<longrightarrow> h' = h\<lparr>events := evs\<rparr>)"
proof (cases "m_wakeup_time h = I64_MAX")
  case True
  then show ?thesis by (simp add: do_task_def get_interrupt_enabled_locked_def)
next
  case False
  note v = assms(1) [unfolded timer_inv_def]
  have w: "wired h" and rep: "timer_rep (timer_base h) q"
    and th: "\<And>t i. (t, i) \<in> set q \<Longrightarrow> timer_task_time h i = t \<and> t < I64_MAX \<and> (\<exists>p. thread_ptrs h i = Some p \<and> p \<noteq> 0)"
    using v by blast+
  have "distinct (map snd q)" using rep unfolding timer_rep_def by blast
  then have "distinct (map snd (due now q @ pending now q))" unfolding takeWhile_dropWhile_id .
  then have dist: "distinct (map snd (due now q))" "snd ` set (due now q) \<inter> snd ` set (pending now q) = {}"
    by (simp_all only: map_append distinct_append set_map)
  have sub: "set (due now q) \<subseteq> set q" "set (pending now q) \<subseteq> set q" by (auto dest: set_takeWhileD set_dropWhileD)
  have "\<exists>p. thread_ptrs h i = Some p \<and> p \<noteq> 0" if i: "i \<in> set (map snd (due now q))" for i
  proof -
    obtain e where "e \<in> set (due now q)" "snd e = i" using i unfolding set_map by blast
    then have "(fst e, i) \<in> set q" using sub(1) by (metis prod.collapse subsetD)
    then show ?thesis using th by blast
  qed
  then have "\<forall>i \<in> set (map snd (due now q)). \<exists>p. thread_ptrs h i = Some p \<and> p \<noteq> 0" by blast
  note del = deliver_all [OF dist(1) this, of listed "timer_task_time h" "on_timer_calls h"]
  obtain b' where b': "do_interrupt_task_impl now (deliver listed) (timer_base h) (thread_ptrs h, timer_task_time h, on_timer_calls h) =
      Some (next_time (pending now q), b', fold (deliver listed) (map snd (due now q)) (thread_ptrs h, timer_task_time h, on_timer_calls h))"
    "timer_rep b' (pending now q)" using do_interrupt_ok [OF rep, where cur = now and handler = "deliver listed"
      and s = "(thread_ptrs h, timer_task_time h, on_timer_calls h)"] by blast
  let ?ptrs = "\<lambda>i. if i \<in> set (map snd (due now q)) then None else thread_ptrs h i"
  let ?times = "\<lambda>i. if i \<in> set (map snd (due now q)) then 0 else timer_task_time h i"
  let ?h = "h\<lparr>events := evs, m_wakeup_time := I64_MAX, timer_base := b', thread_ptrs := ?ptrs, timer_task_time := ?times,
    on_timer_calls := on_timer_calls h @ map snd (due now q)\<rparr>"
  let ?n = "next_time (pending now q)"
  have run: "do_task True listed now (h\<lparr>events := evs\<rparr>) =
    Some (if 0 < ?n \<and> ?n \<le> m_wakeup_time ?h then rearm_interrupt_after_callback_locked ?n ?h else ?h)"
    using b'(1) False w unfolding del by (simp add: do_task_def get_interrupt_enabled_locked_def Let_def)
  have "?times i = t \<and> t < I64_MAX \<and> (\<exists>p. ?ptrs i = Some p \<and> p \<noteq> 0)" if e: "(t, i) \<in> set (pending now q)" for t i
  proof -
    have "i \<notin> set (map snd (due now q))" using dist(2) imageI [OF e, of snd] unfolding set_map snd_conv by blast
    then show ?thesis using th [of t i] sub(2) e by auto
  qed
  then have threads: "\<forall>(t, i) \<in> set (pending now q). ?times i = t \<and> t < I64_MAX \<and> (\<exists>p. ?ptrs i = Some p \<and> p \<noteq> 0)" by blast
  have "timer_inv (if 0 < ?n \<and> ?n \<le> m_wakeup_time ?h then rearm_interrupt_after_callback_locked ?n ?h else ?h) (pending now q)"
    by (rule rearmed_inv) (use b'(2) w threads in simp_all)
  then show ?thesis unfolding run using False by (simp add: rearm_interrupt_after_callback_locked_def Let_def)
qed

lemma timer_enabled: "timer_inv h q \<Longrightarrow> q \<noteq> [] \<Longrightarrow> m_wakeup_time h \<noteq> I64_MAX"
  by (cases q) (auto simp: timer_inv_def)

lemma timer_reachable_inv: "timer_reachable listed h \<Longrightarrow> \<exists>q. timer_inv h q"
proof (induction rule: timer_reachable.induct)
  case timer_start
  then show ?case using timer_inv_start by blast
next
  case (timer_register h t ptr i h')
  then show ?case using timer_inv_register by (metis option.inject)
next
  case (timer_cancel h i h')
  then show ?case using timer_inv_cancel(2) by (metis option.inject)
next
  case (timer_cancel_by_id h i h')
  then show ?case using timer_inv_cancel(1) by (metis option.inject)
next
  case (timer_fire h e now h')
  then obtain q where q: "timer_inv h q" by blast
  obtain h1 where h1: "do_task True listed now (h\<lparr>events := remove1 e (events h)\<rparr>) = Some h1"
    "m_wakeup_time h \<noteq> I64_MAX \<longrightarrow> timer_inv h1 (pending now q)"
    "m_wakeup_time h = I64_MAX \<longrightarrow> h1 = h\<lparr>events := remove1 e (events h)\<rparr>"
    using timer_inv_fire [OF q timer_enabled [OF q]] by blast
  then have "h' = h1" using timer_fire by simp
  show ?case
  proof (cases "m_wakeup_time h = I64_MAX")
    case True
    then have "timer_inv h' q" using h1(3) q \<open>h' = h1\<close> by (simp add: timer_inv_def)
    then show ?thesis by blast
  qed (use h1(2) \<open>h' = h1\<close> in blast)
qed

text \<open>C36: no deadline is missed. After any sequence of registrations, cancellations and callbacks, while
  tasks wait the core timing holds an event for the timer at or before the first deadline; and a callback
  that runs at any time ends, calls \<open>on_timer\<close> exactly once for each task that is due then, in the order
  of their deadlines, for no other, and keeps the rest.\<close>

theorem timer_misses_no_deadline:
  assumes "timer_reachable listed h"
  shows "\<exists>q. timer_rep (timer_base h) q \<and> (q \<noteq> [] \<longrightarrow> (\<exists>e \<in> set (events h). e \<le> fst (hd q))) \<and>
    (\<forall>e now. \<exists>h'. do_task True listed now (h\<lparr>events := remove1 e (events h)\<rparr>) = Some h' \<and>
       on_timer_calls h' = on_timer_calls h @ map snd (due now q) \<and> timer_rep (timer_base h') (pending now q))"
proof -
  obtain q where q: "timer_inv h q" using timer_reachable_inv [OF assms] by blast
  have "\<exists>e \<in> set (events h). e \<le> fst (hd q)" if "q \<noteq> []"
    using q timer_enabled [OF q that] that by (intro bexI [of _ "m_wakeup_time h"]) (auto simp: timer_inv_def)
  moreover have "\<exists>h'. do_task True listed now (h\<lparr>events := remove1 e (events h)\<rparr>) = Some h' \<and>
       on_timer_calls h' = on_timer_calls h @ map snd (due now q) \<and> timer_rep (timer_base h') (pending now q)" for e now
  proof (cases "m_wakeup_time h = I64_MAX")
    case True
    then have "q = []" using timer_enabled [OF q] by blast
    then show ?thesis using timer_inv_fire [OF q, of listed now "remove1 e (events h)"] True q by (auto simp: timer_inv_def)
  next
    case False
    then show ?thesis
      using timer_inv_fire [OF q, of listed now "remove1 e (events h)"] by (auto simp: timer_inv_def)
  qed
  ultimately show ?thesis using q by (auto simp: timer_inv_def)
qed

lemma timer_refines_queue_witness:
  "\<exists>b. timer_run [Register_Task 7 100, Register_Task 8 50, Register_Task 9 50, Register_Task 7 60, Cancel_Task 8 50, Collect_Expired 55]
      timer_base_new = Some ([Registered True, Registered True, Registered False, Registered False, Cancelled, Expired [9] 60], b)"
proof -
  let ?ops = "[Register_Task 7 100, Register_Task 8 50, Register_Task 9 50, Register_Task 7 60, Cancel_Task 8 50, Collect_Expired 55]"
  have ok: "timer_ops_ok ?ops []" by code_simp
  have out: "fst (timer_specs ?ops []) = [Registered True, Registered True, Registered False, Registered False, Cancelled, Expired [9] 60]"
    by code_simp
  from timer_refines_queue [OF ok] show ?thesis unfolding out by blast
qed

lemma timer_misses_no_deadline_witness:
  "\<exists>h h'. register_absolute_task 7 1 100 (wire_callback timer_new) = Some h \<and>
    do_task True (\<lambda>_. False) 100 (h\<lparr>events := remove1 100 (events h)\<rparr>) = Some h' \<and> on_timer_calls h' = [7]"
proof -
  have s: "timer_reachable (\<lambda>_. False) (wire_callback timer_new)" by (rule timer_start)
  obtain h where h: "register_absolute_task 7 1 100 (wire_callback timer_new) = Some h" "timer_inv h [(100, 7)]"
    using timer_inv_register [OF timer_inv_start, of 100 1 7] by (auto simp: insert_timed_def)
  have "timer_reachable (\<lambda>_. False) h" by (rule timer_register [OF s _ _ _ h(1)]) simp_all
  from timer_misses_no_deadline [OF this] obtain q h' where q: "timer_rep (timer_base h) q"
    "do_task True (\<lambda>_. False) 100 (h\<lparr>events := remove1 100 (events h)\<rparr>) = Some h'"
    "on_timer_calls h' = on_timer_calls h @ map snd (due 100 q)" by blast
  have "q = [(100, 7)]" using q(1) h(2) by (simp add: timer_inv_def timer_rep_def)
  moreover have "on_timer_calls h = []"
    using h(1) by (auto simp: register_absolute_task_def wire_callback_def timer_new_def enable_interrupt_locked_def
        disable_interrupt_locked_def Let_def split: Option.bind_splits if_splits)
  ultimately show ?thesis using h(1) q(2,3) by auto
qed

end
