(* ===== verification/Capabilities.thy ===== *)
theory Capabilities
  imports Bits MemoryBlock MemoryRegionType DynamicSlabHeap HandleTable
begin

text \<open>
  The capabilities of a process, \<open>KCapabilities\<close> of src/core/src/hle/kernel/k_capabilities.rs: the
  list of 32-bit descriptors an executable carries is parsed into the supervisor calls, interrupts,
  cores and priorities the process may use, and into requests to map device memory.

  The page table that the mapping descriptors call (src/core/src/hle/kernel/k_process_page_table.rs)
  is a state \<open>'pt\<close> of its own with a parameter \<open>mp\<close> that answers a call with its result code and the new
  state; the calls are the values of \<open>MapCall\<close>. The two flag words and the page table that the parser
  passes along by mutable reference are the record \<open>CapRun\<close>, together with the capabilities.
\<close>

section \<open>Data\<close>

definition RESULT_INVALID_ARGUMENT :: nat where
  "RESULT_INVALID_ARGUMENT = from_module_description 1 14"
definition RESULT_INVALID_SIZE :: nat where
  "RESULT_INVALID_SIZE = from_module_description 1 101"
definition RESULT_INVALID_ADDRESS :: nat where
  "RESULT_INVALID_ADDRESS = from_module_description 1 102"
definition RESULT_INVALID_CORE_ID :: nat where
  "RESULT_INVALID_CORE_ID = from_module_description 1 113"
definition RESULT_INVALID_COMBINATION :: nat where
  "RESULT_INVALID_COMBINATION = from_module_description 1 116"
definition RESULT_OUT_OF_RANGE :: nat where
  "RESULT_OUT_OF_RANGE = from_module_description 1 119"
definition RESULT_NOT_FOUND :: nat where
  "RESULT_NOT_FOUND = from_module_description 1 121"
definition RESULT_RESERVED_USED :: nat where
  "RESULT_RESERVED_USED = from_module_description 1 126"

definition USER_READ :: KMemoryPermission where "USER_READ = 0x01 OR KERNEL_READ"

definition INTERRUPT_ID_COUNT :: nat where "INTERRUPT_ID_COUNT = 0x400"
definition SVC_ACCESS_FLAG_COUNT :: nat where "SVC_ACCESS_FLAG_COUNT = 0xC0"
definition PADDING_INTERRUPT_ID :: u32 where "PADDING_INTERRUPT_ID = 0x3FF"
definition PHYSICAL_MAP_ALLOWED_MASK :: u64 where "PHYSICAL_MAP_ALLOWED_MASK = 2 ^ 36 - 1"
definition INITIALIZE_ONCE_FLAGS :: u32 where
  "INITIALIZE_ONCE_FLAGS = 2 ^ 3 OR 2 ^ 13 OR 2 ^ 14 OR 2 ^ 15 OR 2 ^ 16"

text \<open>src/core/src/hardware_properties.rs\<close>

definition NUM_CPU_CORES :: nat where "NUM_CPU_CORES = 4"
definition VIRTUAL_CORE_MASK :: u64 where "VIRTUAL_CORE_MASK = 0xFFFFFFFFFFFFFFFF"
definition VIRTUAL_TO_PHYSICAL_CORE_MAP :: "nat list" where
  "VIRTUAL_TO_PHYSICAL_CORE_MAP = [0, 1, 2, 3] @ replicate 59 0 @ [3]"

lemma andnot_ctz_less: "v \<noteq> 0 \<Longrightarrow> unat (v AND NOT (2 ^ ctz v)) < unat v" for v :: u64
proof -
  assume v: "v \<noteq> 0"
  have "unat (v AND NOT (2 ^ ctz v)) \<le> unat v"
    using word_and_le2 [of v] by (simp add: word_le_nat_alt)
  moreover have "\<not> bit (v AND NOT (2 ^ ctz v)) (ctz v)"
    using v ctz_lt_iff [of v] by (simp add: bit_and_iff bit_not_iff)
  then have "v AND NOT (2 ^ ctz v) \<noteq> v" using bit_ctz [OF v] by metis
  ultimately show ?thesis by (metis le_neq_implies_less word_unat_eq_iff)
qed

function convert_loop :: "u64 \<Rightarrow> u64 \<Rightarrow> u64" where
  "convert_loop v p =
     (if v = 0 then p
      else let n = ctz v in
        convert_loop (v AND NOT (2 ^ n)) (p OR push_bit (VIRTUAL_TO_PHYSICAL_CORE_MAP ! n) 1))"
  by pat_completeness auto
termination by (relation "measure (\<lambda>(v, p). unat v)") (simp_all add: Let_def andnot_ctz_less)

declare convert_loop.simps [simp del]

definition convert_virtual_core_mask_to_physical :: "u64 \<Rightarrow> u64" where
  "convert_virtual_core_mask_to_physical v = convert_loop v 0"

datatype CapabilityType = CorePriority | SyscallMask | MapRange | MapIoPage | MapRegion
  | InterruptPair | ProgramType | KernelVersion | HandleTable | DebugFlags | Invalid | Padding

fun type_value :: "CapabilityType \<Rightarrow> u32" where
  "type_value CorePriority = 2 ^ 3 - 1"
| "type_value SyscallMask = 2 ^ 4 - 1"
| "type_value MapRange = 2 ^ 6 - 1"
| "type_value MapIoPage = 2 ^ 7 - 1"
| "type_value MapRegion = 2 ^ 10 - 1"
| "type_value InterruptPair = 2 ^ 11 - 1"
| "type_value ProgramType = 2 ^ 13 - 1"
| "type_value KernelVersion = 2 ^ 14 - 1"
| "type_value HandleTable = 2 ^ 15 - 1"
| "type_value DebugFlags = 2 ^ 16 - 1"
| "type_value Invalid = 0"
| "type_value Padding = 0xFFFFFFFF"

definition get_capability_type :: "u32 \<Rightarrow> CapabilityType" where
  "get_capability_type value =
     (let flag = NOT value AND (value + 1); v = flag - 1 in
      if v = type_value CorePriority then CorePriority
      else if v = type_value SyscallMask then SyscallMask
      else if v = type_value MapRange then MapRange
      else if v = type_value MapIoPage then MapIoPage
      else if v = type_value MapRegion then MapRegion
      else if v = type_value InterruptPair then InterruptPair
      else if v = type_value ProgramType then ProgramType
      else if v = type_value KernelVersion then KernelVersion
      else if v = type_value HandleTable then HandleTable
      else if v = type_value DebugFlags then DebugFlags
      else if v = 0xFFFFFFFF then Padding
      else Invalid)"

definition get_capability_flag :: "CapabilityType \<Rightarrow> u32" where
  "get_capability_flag t = type_value t + 1"

datatype RegionType = NoMapping | KernelTraceBuffer | OnMemoryBootImage | Dtb

fun region_type_value :: "RegionType \<Rightarrow> u32" where
  "region_type_value NoMapping = 0"
| "region_type_value KernelTraceBuffer = 1"
| "region_type_value OnMemoryBootImage = 2"
| "region_type_value Dtb = 3"

record KCapabilities =
  svc_access_flags :: "nat \<Rightarrow> bool"
  irq_access_flags :: "nat \<Rightarrow> bool"
  core_mask :: u64
  phys_core_mask :: u64
  priority_mask :: u64
  debug_capabilities :: u32
  handle_table_size :: int
  intended_kernel_version :: u32
  program_type :: u32

definition caps_new :: KCapabilities where
  "caps_new = \<lparr>svc_access_flags = (\<lambda>_. False), irq_access_flags = (\<lambda>_. False), core_mask = 0,
     phys_core_mask = 0, priority_mask = 0, debug_capabilities = 0, handle_table_size = 0,
     intended_kernel_version = 0, program_type = 0\<rparr>"

datatype MapCall = MapStatic u64 u64 KMemoryPermission | MapIo u64 u64 KMemoryPermission
  | MapRegionCall u32 KMemoryPermission

type_synonym 'pt mapper = "MapCall \<Rightarrow> 'pt \<Rightarrow> nat \<times> 'pt"

record 'pt CapRun =
  set_flags :: u32
  set_svc :: u32
  page_table :: "'pt option"
  run_caps :: KCapabilities

section \<open>Reading the rights\<close>

definition is_permitted_svc :: "u32 \<Rightarrow> KCapabilities \<Rightarrow> bool" where
  "is_permitted_svc i c \<longleftrightarrow> unat i < SVC_ACCESS_FLAG_COUNT \<and> svc_access_flags c (unat i)"

definition is_permitted_interrupt :: "u32 \<Rightarrow> KCapabilities \<Rightarrow> bool" where
  "is_permitted_interrupt i c \<longleftrightarrow> unat i < INTERRUPT_ID_COUNT \<and> irq_access_flags c (unat i)"

definition is_permitted_debug :: "KCapabilities \<Rightarrow> bool" where
  "is_permitted_debug c \<longleftrightarrow> drop_bit 17 (debug_capabilities c) AND 1 \<noteq> 0"

definition can_force_debug :: "KCapabilities \<Rightarrow> bool" where
  "can_force_debug c \<longleftrightarrow> drop_bit 18 (debug_capabilities c) AND 1 \<noteq> 0"

definition get_intended_kernel_major_version :: "KCapabilities \<Rightarrow> u32" where
  "get_intended_kernel_major_version c = drop_bit 19 (intended_kernel_version c) AND 0x1FFF"

definition get_intended_kernel_minor_version :: "KCapabilities \<Rightarrow> u32" where
  "get_intended_kernel_minor_version c = drop_bit 15 (intended_kernel_version c) AND 0xF"

section \<open>The descriptors that grant rights\<close>

text \<open>
  The bounds of the loops are inclusive: \<open>min_core..=max_core\<close>. When the priorities contain one of the
  kernel's own (0 to 3), the descriptor is refused with both masks already written.
\<close>

definition add_bits :: "nat \<Rightarrow> nat \<Rightarrow> u64 \<Rightarrow> u64" where
  "add_bits lo hi m = fold (\<lambda>i m. m OR push_bit i 1) [lo..<Suc hi] m"

definition set_core_priority_capability :: "u32 \<Rightarrow> KCapabilities \<Rightarrow> nat \<times> KCapabilities" where
  "set_core_priority_capability cap c =
     (if core_mask c \<noteq> 0 then (RESULT_INVALID_ARGUMENT, c)
      else if priority_mask c \<noteq> 0 then (RESULT_INVALID_ARGUMENT, c)
      else let max_prio = unat (drop_bit 4 cap AND 0x3F);
               min_prio = unat (drop_bit 10 cap AND 0x3F);
               min_core = unat (drop_bit 16 cap AND 0xFF);
               max_core = unat (drop_bit 24 cap AND 0xFF) in
        if min_core > max_core then (RESULT_INVALID_COMBINATION, c)
        else if min_prio > max_prio then (RESULT_INVALID_COMBINATION, c)
        else if max_core \<ge> NUM_CPU_CORES then (RESULT_INVALID_CORE_ID, c)
        else let c = c\<lparr>core_mask := add_bits min_core max_core (core_mask c)\<rparr>;
                 c = c\<lparr>phys_core_mask := core_mask c\<rparr>;
                 c = c\<lparr>priority_mask := add_bits min_prio max_prio (priority_mask c)\<rparr> in
          if core_mask c = 0 then (RESULT_INVALID_ARGUMENT, c)
          else if priority_mask c = 0 then (RESULT_INVALID_ARGUMENT, c)
          else if priority_mask c AND 0xF \<noteq> 0 then (RESULT_INVALID_ARGUMENT, c)
          else (0, c))"

definition set_svc_allowed :: "nat \<Rightarrow> KCapabilities \<Rightarrow> bool \<times> KCapabilities" where
  "set_svc_allowed i c =
     (if i < SVC_ACCESS_FLAG_COUNT then (True, c\<lparr>svc_access_flags := (svc_access_flags c)(i := True)\<rparr>)
      else (False, c))"

definition set_interrupt_permitted :: "nat \<Rightarrow> KCapabilities \<Rightarrow> bool \<times> KCapabilities" where
  "set_interrupt_permitted i c =
     (if i < INTERRUPT_ID_COUNT then (True, c\<lparr>irq_access_flags := (irq_access_flags c)(i := True)\<rparr>)
      else (False, c))"

text \<open>The loop over the bits of a mask of supervisor calls, with the return from inside it.\<close>

fun allow_svcs :: "u32 \<Rightarrow> nat \<Rightarrow> nat list \<Rightarrow> KCapabilities \<Rightarrow> nat \<times> KCapabilities" where
  "allow_svcs m index [] c = (0, c)"
| "allow_svcs m index (b # bs) c =
     (if m AND push_bit b 1 \<noteq> 0
      then (case set_svc_allowed (24 * index + b) c of
              (ok, c) \<Rightarrow> if \<not> ok then (RESULT_OUT_OF_RANGE, c) else allow_svcs m index bs c)
      else allow_svcs m index bs c)"

definition set_syscall_mask_capability ::
  "u32 \<Rightarrow> u32 \<Rightarrow> KCapabilities \<Rightarrow> nat \<times> u32 \<times> KCapabilities" where
  "set_syscall_mask_capability cap svc c =
     (let m = drop_bit 5 cap AND 0x00FFFFFF;
          index = unat (drop_bit 29 cap AND 0x7);
          index_flag = push_bit index 1 in
      if svc AND index_flag \<noteq> 0 then (RESULT_INVALID_COMBINATION, svc, c)
      else case allow_svcs m index [0..<24] c of (res, c) \<Rightarrow> (res, svc OR index_flag, c))"

definition permit_interrupt :: "u32 \<Rightarrow> KCapabilities \<Rightarrow> bool \<times> KCapabilities" where
  "permit_interrupt i c =
     (if i \<noteq> PADDING_INTERRUPT_ID then set_interrupt_permitted (unat i) c else (True, c))"

definition set_interrupt_pair_capability :: "u32 \<Rightarrow> KCapabilities \<Rightarrow> nat \<times> KCapabilities" where
  "set_interrupt_pair_capability cap c =
     (case permit_interrupt (drop_bit 12 cap AND 0x3FF) c of
        (ok, c) \<Rightarrow> if \<not> ok then (RESULT_OUT_OF_RANGE, c)
          else case permit_interrupt (drop_bit 22 cap AND 0x3FF) c of
            (ok, c) \<Rightarrow> if \<not> ok then (RESULT_OUT_OF_RANGE, c) else (0, c))"

definition set_program_type_capability :: "u32 \<Rightarrow> KCapabilities \<Rightarrow> nat \<times> KCapabilities" where
  "set_program_type_capability cap c =
     (let ptype = drop_bit 14 cap AND 0x7; res = drop_bit 17 cap AND 0x7FFF in
      if res \<noteq> 0 then (RESULT_RESERVED_USED, c) else (0, c\<lparr>program_type := ptype\<rparr>))"

definition set_kernel_version_capability :: "u32 \<Rightarrow> KCapabilities \<Rightarrow> nat \<times> KCapabilities" where
  "set_kernel_version_capability cap c =
     (if drop_bit 19 (intended_kernel_version c) AND 0x1FFF \<noteq> 0 then (RESULT_INVALID_ARGUMENT, c)
      else let c = c\<lparr>intended_kernel_version := cap\<rparr> in
        if drop_bit 19 (intended_kernel_version c) AND 0x1FFF = 0 then (RESULT_INVALID_ARGUMENT, c)
        else (0, c))"

definition set_handle_table_capability :: "u32 \<Rightarrow> KCapabilities \<Rightarrow> nat \<times> KCapabilities" where
  "set_handle_table_capability cap c =
     (let sz = uint (drop_bit 16 cap AND 0x3FF); res = drop_bit 26 cap AND 0x3F in
      if res \<noteq> 0 then (RESULT_RESERVED_USED, c) else (0, c\<lparr>handle_table_size := sz\<rparr>))"

definition set_debug_flags_capability :: "u32 \<Rightarrow> KCapabilities \<Rightarrow> nat \<times> KCapabilities" where
  "set_debug_flags_capability cap c =
     (let res = drop_bit 19 cap AND 0x1FFF in
      if res \<noteq> 0 then (RESULT_RESERVED_USED, c) else (0, c\<lparr>debug_capabilities := cap\<rparr>))"

section \<open>The descriptors that map memory\<close>

text \<open>The check of a physical range, which \<open>map_range\<close> and \<open>map_io_page\<close> write out twice.\<close>

definition bad_range :: "u64 \<Rightarrow> u64 \<Rightarrow> bool" where
  "bad_range phys_addr sz \<longleftrightarrow> phys_addr \<ge> phys_addr + sz \<or>
     (phys_addr + sz - 1) AND NOT PHYSICAL_MAP_ALLOWED_MASK \<noteq> 0"

definition map_range :: "'pt mapper \<Rightarrow> u32 \<Rightarrow> u32 \<Rightarrow> 'pt \<Rightarrow> nat \<times> 'pt" where
  "map_range mp cap size_cap pt =
     (let phys_addr = ucast (drop_bit 7 cap AND 0x00FFFFFF) * 0x1000 :: u64;
          read_only = drop_bit 31 cap AND 1;
          num_pages = ucast (drop_bit 7 size_cap AND 0x000FFFFF) :: u64;
          res = drop_bit 27 size_cap AND 0xF;
          normal = drop_bit 31 size_cap AND 1;
          sz = num_pages * 0x1000 in
      if res \<noteq> 0 then (RESULT_OUT_OF_RANGE, pt)
      else if num_pages = 0 then (RESULT_INVALID_SIZE, pt)
      else if bad_range phys_addr sz then (RESULT_INVALID_ADDRESS, pt)
      else let perm = (if read_only \<noteq> 0 then USER_READ else USER_READ_WRITE) in
        if normal \<noteq> 0 then mp (MapStatic phys_addr sz perm) pt else mp (MapIo phys_addr sz perm) pt)"

definition map_io_page :: "'pt mapper \<Rightarrow> u32 \<Rightarrow> 'pt \<Rightarrow> nat \<times> 'pt" where
  "map_io_page mp cap pt =
     (let phys_addr = ucast (drop_bit 8 cap AND 0x00FFFFFF) * 0x1000 :: u64; sz = 0x1000 in
      if bad_range phys_addr sz then (RESULT_INVALID_ADDRESS, pt)
      else mp (MapIo phys_addr sz USER_READ_WRITE) pt)"

fun map_region_loop :: "'pt mapper \<Rightarrow> (u32 \<times> u32) list \<Rightarrow> 'pt \<Rightarrow> nat \<times> 'pt" where
  "map_region_loop mp [] pt = (0, pt)"
| "map_region_loop mp ((region_type, read_only) # types) pt =
     (let perm = (if read_only \<noteq> 0 then USER_READ else USER_READ_WRITE);
          call = (\<lambda>t. case mp (MapRegionCall (rt_value t) perm) pt of
                    (res, pt) \<Rightarrow> if res \<noteq> 0 then (res, pt) else map_region_loop mp types pt) in
      if region_type = region_type_value NoMapping then map_region_loop mp types pt
      else if region_type = region_type_value KernelTraceBuffer then map_region_loop mp types pt
      else if region_type = region_type_value OnMemoryBootImage
      then call K_MEMORY_REGION_TYPE_ON_MEMORY_BOOT_IMAGE
      else if region_type = region_type_value Dtb then call K_MEMORY_REGION_TYPE_DTB
      else (RESULT_NOT_FOUND, pt))"

definition map_region :: "'pt mapper \<Rightarrow> u32 \<Rightarrow> 'pt \<Rightarrow> nat \<times> 'pt" where
  "map_region mp cap =
     map_region_loop mp [(drop_bit 11 cap AND 0x3F, drop_bit 17 cap AND 1),
       (drop_bit 18 cap AND 0x3F, drop_bit 24 cap AND 1),
       (drop_bit 25 cap AND 0x3F, drop_bit 31 cap AND 1)]"

section \<open>The parser\<close>

text \<open>A handler on the capabilities, and one on the page table when there is one.\<close>

definition on_caps :: "(KCapabilities \<Rightarrow> nat \<times> KCapabilities) \<Rightarrow> 'pt CapRun \<Rightarrow> nat \<times> 'pt CapRun" where
  "on_caps f r = (case f (run_caps r) of (res, c) \<Rightarrow> (res, r\<lparr>run_caps := c\<rparr>))"

definition on_table :: "('pt \<Rightarrow> nat \<times> 'pt) \<Rightarrow> 'pt CapRun \<Rightarrow> nat \<times> 'pt CapRun" where
  "on_table f r = (case page_table r of
      None \<Rightarrow> (0, r)
    | Some pt \<Rightarrow> (case f pt of (res, pt) \<Rightarrow> (res, r\<lparr>page_table := Some pt\<rparr>)))"

definition set_capability :: "'pt mapper \<Rightarrow> u32 \<Rightarrow> 'pt CapRun \<Rightarrow> nat \<times> 'pt CapRun" where
  "set_capability mp cap r =
     (let cap_type = get_capability_type cap in
      if cap_type = Invalid then (RESULT_INVALID_ARGUMENT, r)
      else if cap_type = Padding then (0, r)
      else let flag = get_capability_flag cap_type in
        if (set_flags r AND INITIALIZE_ONCE_FLAGS) AND flag \<noteq> 0 then (RESULT_INVALID_COMBINATION, r)
        else let r = r\<lparr>set_flags := set_flags r OR flag\<rparr> in
          case cap_type of
            CorePriority \<Rightarrow> on_caps (set_core_priority_capability cap) r
          | SyscallMask \<Rightarrow>
              (case set_syscall_mask_capability cap (set_svc r) (run_caps r) of
                 (res, svc, c) \<Rightarrow> (res, r\<lparr>set_svc := svc, run_caps := c\<rparr>))
          | MapIoPage \<Rightarrow> on_table (map_io_page mp cap) r
          | MapRegion \<Rightarrow> on_table (map_region mp cap) r
          | InterruptPair \<Rightarrow> on_caps (set_interrupt_pair_capability cap) r
          | ProgramType \<Rightarrow> on_caps (set_program_type_capability cap) r
          | KernelVersion \<Rightarrow> on_caps (set_kernel_version_capability cap) r
          | HandleTable \<Rightarrow> on_caps (set_handle_table_capability cap) r
          | DebugFlags \<Rightarrow> on_caps (set_debug_flags_capability cap) r
          | _ \<Rightarrow> (RESULT_INVALID_ARGUMENT, r))"

text \<open>A \<open>MapRange\<close> descriptor is read together with the one after it.\<close>

fun parse_caps :: "'pt mapper \<Rightarrow> u32 list \<Rightarrow> 'pt CapRun \<Rightarrow> nat \<times> 'pt CapRun" where
  "parse_caps mp [] r = (0, r)"
| "parse_caps mp (cap # caps) r =
     (if get_capability_type cap = MapRange
      then (case caps of
          [] \<Rightarrow> (RESULT_INVALID_COMBINATION, r)
        | size_cap # caps' \<Rightarrow>
            if get_capability_type size_cap \<noteq> MapRange then (RESULT_INVALID_COMBINATION, r)
            else case on_table (map_range mp cap size_cap) r of
              (res, r) \<Rightarrow> if res \<noteq> 0 then (res, r) else parse_caps mp caps' r)
      else case set_capability mp cap r of
        (res, r) \<Rightarrow> if res \<noteq> 0 then (res, r) else parse_caps mp caps r)"

definition set_capabilities ::
  "'pt mapper \<Rightarrow> u32 list \<Rightarrow> 'pt option \<Rightarrow> KCapabilities \<Rightarrow> nat \<times> 'pt option \<times> KCapabilities" where
  "set_capabilities mp caps pt c =
     (case parse_caps mp caps \<lparr>set_flags = 0, set_svc = 0, page_table = pt, run_caps = c\<rparr> of
        (res, r) \<Rightarrow> (res, page_table r, run_caps r))"

definition initialize_for_kip ::
  "'pt mapper \<Rightarrow> u32 list \<Rightarrow> 'pt option \<Rightarrow> KCapabilities \<Rightarrow> nat \<times> 'pt option \<times> KCapabilities" where
  "initialize_for_kip mp kern_caps pt c =
     (let c = c\<lparr>svc_access_flags := (\<lambda>_. False), irq_access_flags := (\<lambda>_. False),
                debug_capabilities := 0, handle_table_size := 0, intended_kernel_version := 0,
                program_type := 0\<rparr>;
          c = c\<lparr>core_mask := VIRTUAL_CORE_MASK, phys_core_mask := VIRTUAL_CORE_MASK,
                priority_mask := NOT 0xF\<rparr>;
          c = c\<lparr>intended_kernel_version := push_bit 19 13 OR push_bit 15 0\<rparr> in
      set_capabilities mp kern_caps pt c)"

definition initialize_for_user ::
  "'pt mapper \<Rightarrow> u32 list \<Rightarrow> 'pt option \<Rightarrow> KCapabilities \<Rightarrow> nat \<times> 'pt option \<times> KCapabilities" where
  "initialize_for_user mp user_caps pt c =
     (let c = c\<lparr>svc_access_flags := (\<lambda>_. False), irq_access_flags := (\<lambda>_. False),
                debug_capabilities := 0, handle_table_size := 0, intended_kernel_version := 0,
                program_type := 0\<rparr>;
          c = c\<lparr>core_mask := 0, phys_core_mask := 0, priority_mask := 0\<rparr> in
      set_capabilities mp user_caps pt c)"

text \<open>
  What a process makes of the size (src/core/src/hle/kernel/k_process.rs): zero asks for a full
  table. The answer is the result and whether the table is initialized now.
\<close>

definition initialize_handle_table ::
  "KCapabilities \<Rightarrow> KHandleTable \<times> bool \<Rightarrow> u32 \<times> KHandleTable \<times> bool" where
  "initialize_handle_table c th =
     (let sz = (if handle_table_size c = 0 then int MAX_TABLE_SIZE else handle_table_size c) in
      case ht_initialize sz (fst th) of
        (res, t) \<Rightarrow> (res, t, if res = 0 then True else snd th))"

end
