(* ===== verification/CapabilitiesProps.thy ===== *)
theory CapabilitiesProps
  imports Capabilities
begin

text \<open>
  What a process may do after its capabilities are parsed. The specification reads the descriptors as
  bit fields of the list, without the parser's flags: which of them a list may hold and how often
  (\<open>caps_ok\<close>), the rights they stand for (\<open>granted\<close>) and the calls of the page table they ask for
  (\<open>plan\<close>). The parser is proved to accept the lists of the specification, to grant exactly the rights
  and to make exactly the calls, in order.
\<close>

section \<open>The types of descriptors\<close>

text \<open>A descriptor's type is the number of ones below its lowest zero.\<close>

definition trailing_ones :: "u32 \<Rightarrow> nat" where
  "trailing_ones w = ctz (NOT w)"

definition type_of_ones :: "nat \<Rightarrow> CapabilityType" where
  "type_of_ones n =
     (if n = 3 then CorePriority else if n = 4 then SyscallMask else if n = 6 then MapRange
      else if n = 7 then MapIoPage else if n = 10 then MapRegion else if n = 11 then InterruptPair
      else if n = 13 then ProgramType else if n = 14 then KernelVersion
      else if n = 15 then HandleTable else if n = 16 then DebugFlags
      else if n = 32 then Padding else Invalid)"

lemma lowest_zero:
  fixes w :: "'a::len word"
  assumes n: "n < LENGTH('a)" and low: "take_bit n w = mask n" and zero: "\<not> bit w n"
  shows "NOT w AND (w + 1) = 2 ^ n"
proof -
  let ?h = "w AND NOT (mask n)"
  have "w = take_bit n w + ?h"
    by (subst disjunctive_add_eq_or) (auto intro!: bit_word_eqI simp: bit_simps)
  then have "w = 2 ^ n - 1 + ?h" by (simp add: low mask_eq_exp_minus_1)
  then have "w + 1 = 2 ^ n - 1 + ?h + 1" by (rule arg_cong)
  then have "w + 1 = 2 ^ n + ?h" by (simp add: algebra_simps)
  also have "\<dots> = 2 ^ n OR ?h"
    using zero by (intro disjunctive_add_eq_or bit_word_eqI) (auto simp: bit_simps)
  finally have "w + 1 = 2 ^ n OR ?h" .
  then show ?thesis
    using n zero by (auto intro!: bit_word_eqI simp: bit_simps)
qed

lemma trailing_ones_flag:
  assumes "w \<noteq> - 1"
  shows "trailing_ones w < 32" "NOT w AND (w + 1) = 2 ^ trailing_ones w"
proof -
  let ?n = "trailing_ones w"
  have nz: "NOT w \<noteq> 0" using assms by (metis bit.compl_zero bit.double_compl)
  then show n: "?n < 32" using ctz_lt_iff [of "NOT w"] by (simp add: trailing_ones_def)
  have "bit w k" if "k < ?n" for k
    using below_ctz [of k "NOT w"] that n by (simp add: trailing_ones_def bit_not_iff)
  then have "take_bit ?n w = mask ?n"
    using n by (auto intro!: bit_word_eqI simp: bit_simps)
  moreover have "\<not> bit w ?n"
    using bit_ctz [OF nz] by (simp add: trailing_ones_def bit_not_iff)
  ultimately show "NOT w AND (w + 1) = 2 ^ ?n" using n by (intro lowest_zero) simp_all
qed

lemma type_of_flag:
  assumes "NOT w AND (w + 1) = 2 ^ n" "n < 32"
  shows "get_capability_type w = type_of_ones n"
proof -
  have "n \<in> {0, 1, 2, 3, 4, 5, 6, 7, 8, 9, 10, 11, 12, 13, 14, 15, 16, 17, 18, 19, 20, 21, 22, 23, 24, 25,
      26, 27, 28, 29, 30, 31}"
    using assms(2) by (simp add: numeral_eq_Suc less_Suc_eq)
  then show ?thesis
    unfolding get_capability_type_def assms(1) Let_def type_of_ones_def
    by (elim insertE emptyE) simp_all
qed

text \<open>
  C39: the type of a descriptor, which the code finds by isolating the lowest zero with a carry, is a
  function of the number of ones below that zero, for all words; the word of 32 ones is the padding.
\<close>

theorem type_by_trailing_ones: "get_capability_type w = type_of_ones (trailing_ones w)"
proof (cases "w = - 1")
  case True
  have "trailing_ones w = 32"
    using True ctz_lt_iff [of "NOT w"] ctz_le [of "NOT w"] by (simp add: trailing_ones_def)
  then show ?thesis using True by (simp add: get_capability_type_def type_of_ones_def)
next
  case False
  then show ?thesis using trailing_ones_flag type_of_flag by blast
qed

section \<open>The specification\<close>

definition field :: "u32 \<Rightarrow> nat \<Rightarrow> nat \<Rightarrow> nat" where
  "field w pos width = unat (take_bit width (drop_bit pos w))"

definition cap_words :: "CapabilityType \<Rightarrow> u32 list \<Rightarrow> u32 list" where
  "cap_words t ws = filter (\<lambda>w. get_capability_type w = t) ws"

definition once_types :: "CapabilityType list" where
  "once_types = [CorePriority, ProgramType, KernelVersion, HandleTable, DebugFlags]"

text \<open>The bits \<open>lo\<close> to \<open>hi\<close>.\<close>

definition between :: "nat \<Rightarrow> nat \<Rightarrow> u64" where
  "between lo hi = push_bit lo (mask (Suc hi - lo))"

text \<open>A descriptor that can be accepted, wherever it stands.\<close>

definition word_ok :: "u32 \<Rightarrow> bool" where
  "word_ok w \<longleftrightarrow> (case get_capability_type w of
      Invalid \<Rightarrow> False
    | CorePriority \<Rightarrow> field w 16 8 \<le> field w 24 8 \<and> field w 24 8 < 4 \<and>
        4 \<le> field w 10 6 \<and> field w 10 6 \<le> field w 4 6
    | ProgramType \<Rightarrow> field w 17 15 = 0
    | KernelVersion \<Rightarrow> field w 19 13 \<noteq> 0
    | HandleTable \<Rightarrow> field w 26 6 = 0
    | DebugFlags \<Rightarrow> field w 19 13 = 0
    | _ \<Rightarrow> True)"

text \<open>Descriptors of a range of memory come in pairs.\<close>

fun paired :: "u32 list \<Rightarrow> bool" where
  "paired [] \<longleftrightarrow> True"
| "paired (w # ws) \<longleftrightarrow>
     (if get_capability_type w = MapRange
      then (case ws of [] \<Rightarrow> False | s # ws' \<Rightarrow> get_capability_type s = MapRange \<and> paired ws')
      else paired ws)"

text \<open>The types that may be set once, and the words of the table of supervisor calls.\<close>

definition unrepeated :: "u32 list \<Rightarrow> bool" where
  "unrepeated ws \<longleftrightarrow> list_all (\<lambda>t. length (cap_words t ws) \<le> 1) once_types \<and>
     distinct (map (\<lambda>w. field w 29 3) (cap_words SyscallMask ws))"

definition caps_ok :: "u32 list \<Rightarrow> bool" where
  "caps_ok ws \<longleftrightarrow> paired ws \<and> list_all word_ok ws \<and> unrepeated ws"

text \<open>What the only descriptor of a type says, if there is one.\<close>

definition said :: "CapabilityType \<Rightarrow> u32 list \<Rightarrow> 'a \<Rightarrow> (u32 \<Rightarrow> 'a) \<Rightarrow> 'a" where
  "said t ws d f = (case cap_words t ws of [] \<Rightarrow> d | w # _ \<Rightarrow> f w)"

definition names_svc :: "u32 \<Rightarrow> nat \<Rightarrow> bool" where
  "names_svc w i \<longleftrightarrow> field w 29 3 = i div 24 \<and> bit w (5 + i mod 24)"

definition names_interrupt :: "u32 \<Rightarrow> nat \<Rightarrow> bool" where
  "names_interrupt w i \<longleftrightarrow> i \<noteq> 0x3FF \<and> (field w 12 10 = i \<or> field w 22 10 = i)"

definition granted :: "u32 list \<Rightarrow> KCapabilities" where
  "granted ws =
     \<lparr>svc_access_flags = (\<lambda>i. list_ex (\<lambda>w. names_svc w i) (cap_words SyscallMask ws)),
      irq_access_flags = (\<lambda>i. list_ex (\<lambda>w. names_interrupt w i) (cap_words InterruptPair ws)),
      core_mask = said CorePriority ws 0 (\<lambda>w. between (field w 16 8) (field w 24 8)),
      phys_core_mask = said CorePriority ws 0 (\<lambda>w. between (field w 16 8) (field w 24 8)),
      priority_mask = said CorePriority ws 0 (\<lambda>w. between (field w 10 6) (field w 4 6)),
      debug_capabilities = said DebugFlags ws 0 id,
      handle_table_size = said HandleTable ws 0 (\<lambda>w. int (field w 16 10)),
      intended_kernel_version = said KernelVersion ws 0 id,
      program_type = said ProgramType ws 0 (\<lambda>w. take_bit 3 (drop_bit 14 w))\<rparr>"

section \<open>The calls of the page table\<close>

text \<open>A list of descriptors is a list of calls; \<^term>\<open>Inl\<close> is a request that is refused with that code.\<close>

definition perm_of :: "nat \<Rightarrow> KMemoryPermission" where
  "perm_of b = (if b \<noteq> 0 then USER_READ else USER_READ_WRITE)"

definition range_plan :: "u32 \<Rightarrow> u32 \<Rightarrow> nat + MapCall" where
  "range_plan w s =
     (let start = 4096 * field w 7 24; len = 4096 * field s 7 20; perm = perm_of (field w 31 1) in
      if field s 27 4 \<noteq> 0 then Inl RESULT_OUT_OF_RANGE
      else if len = 0 then Inl RESULT_INVALID_SIZE
      else if start + len > 2 ^ 36 then Inl RESULT_INVALID_ADDRESS
      else Inr ((if field s 31 1 \<noteq> 0 then MapStatic else MapIo) (of_nat start) (of_nat len) perm))"

definition region_plan :: "nat \<Rightarrow> nat \<Rightarrow> (nat + MapCall) list" where
  "region_plan t b =
     (if t < 2 then []
      else if t = 2 then [Inr (MapRegionCall (rt_value K_MEMORY_REGION_TYPE_ON_MEMORY_BOOT_IMAGE) (perm_of b))]
      else if t = 3 then [Inr (MapRegionCall (rt_value K_MEMORY_REGION_TYPE_DTB) (perm_of b))]
      else [Inl RESULT_NOT_FOUND])"

definition word_plan :: "u32 \<Rightarrow> (nat + MapCall) list" where
  "word_plan w = (case get_capability_type w of
      MapIoPage \<Rightarrow> [Inr (MapIo (of_nat (4096 * field w 8 24)) 4096 USER_READ_WRITE)]
    | MapRegion \<Rightarrow> region_plan (field w 11 6) (field w 17 1) @
        region_plan (field w 18 6) (field w 24 1) @ region_plan (field w 25 6) (field w 31 1)
    | _ \<Rightarrow> [])"

fun plan :: "u32 list \<Rightarrow> (nat + MapCall) list" where
  "plan [] = []"
| "plan (w # ws) =
     (if get_capability_type w = MapRange
      then (case ws of [] \<Rightarrow> [] | s # ws' \<Rightarrow> range_plan w s # plan ws')
      else word_plan w @ plan ws)"

fun run_plan :: "'pt mapper \<Rightarrow> (nat + MapCall) list \<Rightarrow> 'pt \<Rightarrow> nat \<times> 'pt" where
  "run_plan mp [] pt = (0, pt)"
| "run_plan mp (Inl e # xs) pt = (e, pt)"
| "run_plan mp (Inr m # xs) pt = (case mp m pt of
     (res, pt) \<Rightarrow> if res \<noteq> 0 then (res, pt) else run_plan mp xs pt)"

text \<open>Without a page table nothing is mapped and nothing refused.\<close>

definition on_plan :: "'pt mapper \<Rightarrow> (nat + MapCall) list \<Rightarrow> 'pt option \<Rightarrow> nat \<times> 'pt option" where
  "on_plan mp xs pt = (case pt of None \<Rightarrow> (0, None)
     | Some pt \<Rightarrow> (case run_plan mp xs pt of (res, pt) \<Rightarrow> (res, Some pt)))"

section \<open>Fields and masks\<close>

lemmas results = RESULT_INVALID_ARGUMENT_def RESULT_INVALID_SIZE_def RESULT_INVALID_ADDRESS_def
  RESULT_INVALID_CORE_ID_def RESULT_INVALID_COMBINATION_def RESULT_OUT_OF_RANGE_def
  RESULT_NOT_FOUND_def RESULT_RESERVED_USED_def from_module_description_def

lemma result_nonzero [simp]:
  "RESULT_INVALID_ARGUMENT \<noteq> 0" "RESULT_INVALID_SIZE \<noteq> 0" "RESULT_INVALID_ADDRESS \<noteq> 0"
  "RESULT_INVALID_CORE_ID \<noteq> 0" "RESULT_INVALID_COMBINATION \<noteq> 0" "RESULT_OUT_OF_RANGE \<noteq> 0"
  "RESULT_NOT_FOUND \<noteq> 0" "RESULT_RESERVED_USED \<noteq> 0"
  by (simp_all add: results)

lemma result_pos [simp]:
  "0 < RESULT_INVALID_ARGUMENT" "0 < RESULT_INVALID_COMBINATION" "0 < RESULT_INVALID_CORE_ID" "0 < RESULT_NOT_FOUND"
  "0 < RESULT_OUT_OF_RANGE" "0 < RESULT_INVALID_SIZE" "0 < RESULT_INVALID_ADDRESS"
  by (simp_all add: results)

lemma and_low:
  "v AND 1 = take_bit 1 v" "v AND 0x7 = take_bit 3 v" "v AND 0xF = take_bit 4 v"
  "v AND 0x3F = take_bit 6 v" "v AND 0xFF = take_bit 8 v" "v AND 0x3FF = take_bit 10 v"
  "v AND 0x1FFF = take_bit 13 v" "v AND 0x7FFF = take_bit 15 v"
  "v AND 0xFFFFF = take_bit 20 v" "v AND 0xFFFFFF = take_bit 24 v" for v :: u32
  by (simp_all add: take_bit_eq_mask mask_eq_exp_minus_1)

lemma field_lt: "field w p n < 2 ^ n"
proof -
  have "field w p n = take_bit n (unat (drop_bit p w))"
    by (simp add: field_def unsigned_take_bit_eq)
  then show ?thesis by (simp add: take_bit_nat_less_exp)
qed

lemma field_eq_0_iff: "take_bit n (drop_bit p w) = 0 \<longleftrightarrow> field w p n = 0"
  by (simp add: field_def unat_eq_0)

lemma bit_between: "bit (between lo hi) k \<longleftrightarrow> lo \<le> k \<and> k \<le> hi \<and> k < 64"
  by (auto simp: between_def bit_simps)

lemma bit_add_bits: "hi < 64 \<Longrightarrow> bit (add_bits lo hi m) k \<longleftrightarrow> bit m k \<or> lo \<le> k \<and> k \<le> hi"
proof -
  assume hi: "hi < 64"
  have "bit (fold (\<lambda>i m. m OR push_bit i 1) is m) k \<longleftrightarrow> bit m k \<or> k \<in> set is"
    if "\<forall>i\<in>set is. i < 64" for "is" and m :: u64
    using that by (induction "is" arbitrary: m) (auto simp: bit_simps)
  from this [of "[lo..<Suc hi]" m] hi show ?thesis by (auto simp: add_bits_def)
qed

lemma add_bits_zero: "hi < 64 \<Longrightarrow> add_bits lo hi 0 = between lo hi"
  by (auto intro!: bit_word_eqI simp: bit_add_bits bit_between)

lemma between_eq_0_iff: "hi < 64 \<Longrightarrow> between lo hi = 0 \<longleftrightarrow> hi < lo"
  by (auto simp: bit_eq_iff bit_between)

lemma between_low4: "hi < 64 \<Longrightarrow> lo \<le> hi \<Longrightarrow> between lo hi AND 0xF = 0 \<longleftrightarrow> 4 \<le> lo"
proof -
  assume hi: "hi < 64" "lo \<le> hi"
  have "between lo hi AND 0xF = take_bit 4 (between lo hi)"
    by (simp add: take_bit_eq_mask mask_eq_exp_minus_1)
  then have "between lo hi AND 0xF = 0 \<longleftrightarrow> (\<forall>k<4. \<not> bit (between lo hi) k)"
    by (auto simp: bit_eq_iff bit_take_bit_iff)
  also have "\<dots> \<longleftrightarrow> 4 \<le> lo" using hi by (auto simp: bit_between) (meson le_refl not_le)
  finally show ?thesis .
qed

section \<open>The handlers\<close>

text \<open>A handler accepts when it should, and then it has the right effect.\<close>

definition yields :: "nat \<times> 'a \<Rightarrow> bool \<Rightarrow> 'a \<Rightarrow> bool" where
  "yields p ok x \<longleftrightarrow> (if ok then p = (0, x) else fst p \<noteq> 0)"

lemma core_priority_yields:
  assumes "core_mask c = 0" "priority_mask c = 0"
  shows "yields (set_core_priority_capability w c)
    (field w 16 8 \<le> field w 24 8 \<and> field w 24 8 < 4 \<and> 4 \<le> field w 10 6 \<and> field w 10 6 \<le> field w 4 6)
    (c\<lparr>core_mask := between (field w 16 8) (field w 24 8),
       phys_core_mask := between (field w 16 8) (field w 24 8),
       priority_mask := between (field w 10 6) (field w 4 6)\<rparr>)"
proof -
  have "field w 4 6 < 64" using field_lt [of w 4 6] by simp
  then show ?thesis
    using assms
    by (auto simp: set_core_priority_capability_def yields_def and_low field_def [symmetric]
        NUM_CPU_CORES_def add_bits_zero between_eq_0_iff between_low4 Let_def)
qed

lemma allow_svcs_exact:
  assumes "index < 8" "set bs \<subseteq> {..<24}"
  shows "allow_svcs m index bs c = (0, c\<lparr>svc_access_flags :=
    (\<lambda>i. svc_access_flags c i \<or> (\<exists>b\<in>set bs. bit m b \<and> i = 24 * index + b))\<rparr>)"
  using assms(2)
proof (induction bs arbitrary: c)
  case (Cons b bs)
  then have b: "b < 24" by simp
  have "(m AND push_bit b 1 \<noteq> 0) \<longleftrightarrow> bit m b"
    using b and_bit_eq_0_iff [of b m] by (simp add: push_bit_eq_mult)
  moreover have "24 * index + b < SVC_ACCESS_FLAG_COUNT"
    using b assms(1) by (simp add: SVC_ACCESS_FLAG_COUNT_def)
  ultimately show ?case
    using Cons by (auto simp: set_svc_allowed_def fun_eq_iff)
qed simp

lemma names_svc_iff:
  "names_svc w i \<longleftrightarrow>
    (\<exists>b\<in>{..<24}. bit (take_bit 24 (drop_bit 5 w)) b \<and> i = 24 * field w 29 3 + b)"
proof
  assume "names_svc w i"
  then have "bit (take_bit 24 (drop_bit 5 w)) (i mod 24) \<and> i = 24 * field w 29 3 + i mod 24"
    by (auto simp: names_svc_def bit_simps)
  then show "\<exists>b\<in>{..<24}. bit (take_bit 24 (drop_bit 5 w)) b \<and> i = 24 * field w 29 3 + b"
    by (intro bexI [of _ "i mod 24"]) auto
qed (auto simp: names_svc_def bit_simps)

lemma syscall_mask_yields:
  "set_syscall_mask_capability w svc c =
    (if bit svc (field w 29 3) then (RESULT_INVALID_COMBINATION, svc, c)
     else (0, svc OR push_bit (field w 29 3) 1,
           c\<lparr>svc_access_flags := (\<lambda>i. svc_access_flags c i \<or> names_svc w i)\<rparr>))"
proof -
  have lt: "field w 29 3 < 8" using field_lt [of w 29 3] by simp
  have "svc AND push_bit (field w 29 3) 1 \<noteq> 0 \<longleftrightarrow> bit svc (field w 29 3)"
    using lt and_bit_eq_0_iff [of "field w 29 3" svc] by (simp add: push_bit_eq_mult)
  moreover have "allow_svcs (take_bit 24 (drop_bit 5 w)) (field w 29 3) [0..<24] c =
      (0, c\<lparr>svc_access_flags := (\<lambda>i. svc_access_flags c i \<or> names_svc w i)\<rparr>)"
    using lt by (subst allow_svcs_exact) (auto simp: names_svc_iff atLeast0LessThan)
  ultimately show ?thesis
    by (simp add: set_syscall_mask_capability_def and_low field_def [symmetric])
qed

lemma interrupt_pair_exact:
  "set_interrupt_pair_capability w c =
    (0, c\<lparr>irq_access_flags := (\<lambda>i. irq_access_flags c i \<or> names_interrupt w i)\<rparr>)"
proof -
  have permit: "permit_interrupt (take_bit 10 (drop_bit p w)) c =
      (True, c\<lparr>irq_access_flags := (\<lambda>i. irq_access_flags c i \<or> i \<noteq> 0x3FF \<and> field w p 10 = i)\<rparr>)" for p c
  proof -
    have "take_bit 10 (drop_bit p w) = 0x3FF \<longleftrightarrow> field w p 10 = 0x3FF"
      by (simp add: field_def word_unat_eq_iff)
    then show ?thesis
      using field_lt [of w p 10]
      by (auto simp: permit_interrupt_def set_interrupt_permitted_def PADDING_INTERRUPT_ID_def
          INTERRUPT_ID_COUNT_def field_def [symmetric] fun_eq_iff)
  qed
  show ?thesis
    by (simp add: set_interrupt_pair_capability_def and_low permit names_interrupt_def conj_disj_distribL
        disj_assoc)
qed

lemma program_type_yields:
  "yields (set_program_type_capability w c) (field w 17 15 = 0)
    (c\<lparr>program_type := take_bit 3 (drop_bit 14 w)\<rparr>)"
  by (simp add: set_program_type_capability_def yields_def and_low field_eq_0_iff)

lemma kernel_version_yields:
  assumes "intended_kernel_version c = 0"
  shows "yields (set_kernel_version_capability w c) (field w 19 13 \<noteq> 0) (c\<lparr>intended_kernel_version := w\<rparr>)"
  using assms by (simp add: set_kernel_version_capability_def yields_def and_low field_eq_0_iff)

lemma handle_table_yields:
  "yields (set_handle_table_capability w c) (field w 26 6 = 0) (c\<lparr>handle_table_size := int (field w 16 10)\<rparr>)"
proof -
  have "uint (take_bit 10 (drop_bit 16 w)) = int (field w 16 10)" by (simp add: field_def)
  then show ?thesis
    by (simp add: set_handle_table_capability_def yields_def and_low field_eq_0_iff)
qed

lemma debug_flags_yields:
  "yields (set_debug_flags_capability w c) (field w 19 13 = 0) (c\<lparr>debug_capabilities := w\<rparr>)"
  by (simp add: set_debug_flags_capability_def yields_def and_low field_eq_0_iff)

section \<open>The mapping requests\<close>

lemma run_plan_append:
  "run_plan mp (xs @ ys) pt = (case run_plan mp xs pt of
     (res, pt) \<Rightarrow> if res \<noteq> 0 then (res, pt) else run_plan mp ys pt)"
  if "\<forall>e. Inl e \<in> set xs \<longrightarrow> e \<noteq> 0"
  using that by (induction mp xs pt rule: run_plan.induct) (auto split: prod.splits)

lemma unat_of_small: "n < 2 ^ LENGTH('a) \<Longrightarrow> unat (of_nat n :: 'a::len word) = n"
  by (simp add: unsigned_of_nat take_bit_nat_eq_self)

lemma andnot_mask_eq_0: "w AND NOT (mask n) = 0 \<longleftrightarrow> unat w < 2 ^ n" for w :: "'a::len word"
proof -
  have "w AND NOT (mask n) = 0 \<longleftrightarrow> take_bit n w = w"
    by (auto simp: bit_eq_iff bit_simps)
  then show ?thesis by (simp add: take_bit_word_self_iff)
qed

lemma bad_range_iff:
  assumes "a < 2 ^ 36" "0 < b" "b < 2 ^ 36"
  shows "bad_range (of_nat a) (of_nat b) \<longleftrightarrow> a + b > 2 ^ 36"
proof -
  have u: "unat (of_nat a :: u64) = a" "unat (of_nat (a + b) :: u64) = a + b"
    "unat (of_nat (a + b - 1) :: u64) = a + b - 1"
    using assms by (auto intro!: unat_of_small simp del: of_nat_add of_nat_diff)
  have e: "of_nat a + of_nat b = (of_nat (a + b) :: u64)"
    "of_nat (a + b) - 1 = (of_nat (a + b - 1) :: u64)"
    using assms(2) by (simp_all add: of_nat_diff)
  have m: "PHYSICAL_MAP_ALLOWED_MASK = mask 36"
    by (simp add: PHYSICAL_MAP_ALLOWED_MASK_def mask_eq_exp_minus_1)
  have "bad_range (of_nat a) (of_nat b) \<longleftrightarrow> a + b \<le> a \<or> \<not> a + b - 1 < 2 ^ 36"
    unfolding bad_range_def e m word_le_nat_alt u andnot_mask_eq_0 by (rule refl)
  then show ?thesis using assms(2) by linarith
qed

lemma page_address: "ucast (take_bit n (drop_bit p w)) * 0x1000 = (of_nat (4096 * field w p n) :: u64)"
  by (simp add: field_def)

lemma page_count: "ucast (take_bit n (drop_bit p w)) = (of_nat (field w p n) :: u64)"
  by (simp add: field_def)

lemma map_range_plan: "map_range mp w s pt = run_plan mp [range_plan w s] pt"
proof -
  have f: "field w 7 24 < 2 ^ 24" "field s 7 20 < 2 ^ 20" by (rule field_lt)+
  then have "(of_nat (field s 7 20) :: u64) = 0 \<longleftrightarrow> field s 7 20 = 0"
    by (simp add: word_unat_eq_iff unat_of_small)
  moreover have "bad_range (of_nat (4096 * field w 7 24)) (of_nat (4096 * field s 7 20)) \<longleftrightarrow>
      4096 * field w 7 24 + 4096 * field s 7 20 > 2 ^ 36" if "field s 7 20 \<noteq> 0"
    using f that by (intro bad_range_iff) simp_all
  ultimately show ?thesis
    unfolding map_range_def Let_def and_low page_address page_count field_eq_0_iff range_plan_def perm_of_def
    by (simp add: mult.commute split: prod.split)
qed

lemma map_io_page_plan: "map_io_page mp w pt =
  run_plan mp [Inr (MapIo (of_nat (4096 * field w 8 24)) 4096 USER_READ_WRITE)] pt"
proof -
  have "\<not> bad_range (of_nat (4096 * field w 8 24)) (of_nat 4096)"
    using field_lt [of w 8 24] by (subst bad_range_iff) simp_all
  then show ?thesis
    unfolding map_io_page_def Let_def and_low page_address by (simp split: prod.split)
qed

lemma region_step:
  "map_region_loop mp ((t, b) # ts) pt =
    (case run_plan mp (region_plan (unat t) (unat b)) pt of
       (res, pt) \<Rightarrow> if res \<noteq> 0 then (res, pt) else map_region_loop mp ts pt)"
proof -
  have "t = 0 \<longleftrightarrow> unat t = 0" "t = 1 \<longleftrightarrow> unat t = 1" "t = 2 \<longleftrightarrow> unat t = 2" "t = 3 \<longleftrightarrow> unat t = 3"
    by (simp_all add: word_unat_eq_iff)
  moreover have "b = 0 \<longleftrightarrow> unat b = 0" by (simp add: unat_eq_0)
  ultimately show ?thesis
    by (cases "b = 0") (auto simp: region_plan_def perm_of_def Let_def less_2_cases_iff split: prod.split)
qed

lemma map_region_plan: "map_region mp w pt =
  run_plan mp (region_plan (field w 11 6) (field w 17 1) @
    region_plan (field w 18 6) (field w 24 1) @ region_plan (field w 25 6) (field w 31 1)) pt"
proof -
  have ne: "\<forall>e. Inl e \<in> set (region_plan t b) \<longrightarrow> e \<noteq> 0" for t b by (simp add: region_plan_def)
  show ?thesis
    unfolding map_region_def and_low region_step field_def [symmetric]
    by (simp add: run_plan_append [OF ne] split: prod.split)
qed

section \<open>One descriptor\<close>

fun type_bit :: "CapabilityType \<Rightarrow> nat" where
  "type_bit CorePriority = 3"
| "type_bit SyscallMask = 4"
| "type_bit MapRange = 6"
| "type_bit MapIoPage = 7"
| "type_bit MapRegion = 10"
| "type_bit InterruptPair = 11"
| "type_bit ProgramType = 13"
| "type_bit KernelVersion = 14"
| "type_bit HandleTable = 15"
| "type_bit DebugFlags = 16"
| "type_bit Invalid = 0"
| "type_bit Padding = 32"

lemma flag_of_type: "t \<noteq> Padding \<Longrightarrow> get_capability_flag t = 2 ^ type_bit t"
  by (cases t) (simp_all add: get_capability_flag_def)

lemma type_bit_lt: "t \<noteq> Padding \<Longrightarrow> type_bit t < 32"
  by (cases t) simp_all

lemma type_bit_inj: "type_bit t = type_bit u \<longleftrightarrow> t = u"
  by (cases t; cases u) simp_all

lemma flag_set:
  "t \<noteq> Padding \<Longrightarrow> bit (f OR get_capability_flag t) (type_bit u) \<longleftrightarrow> bit f (type_bit u) \<or> u = t"
  using type_bit_lt [of t] by (simp add: flag_of_type or_bit_iff type_bit_inj)

lemma flag_clash:
  assumes "t \<noteq> Padding" "t \<noteq> Invalid"
  shows "(f AND INITIALIZE_ONCE_FLAGS) AND get_capability_flag t \<noteq> 0 \<longleftrightarrow>
    t \<in> set once_types \<and> bit f (type_bit t)"
proof -
  have "(f AND INITIALIZE_ONCE_FLAGS) AND get_capability_flag t = 0 \<longleftrightarrow>
      \<not> bit (f AND INITIALIZE_ONCE_FLAGS) (type_bit t)"
    unfolding flag_of_type [OF assms(1)]
    using type_bit_lt [OF assms(1)] by (intro and_bit_eq_0_iff) simp
  then have "(f AND INITIALIZE_ONCE_FLAGS) AND get_capability_flag t \<noteq> 0 \<longleftrightarrow>
      bit f (type_bit t) \<and> bit INITIALIZE_ONCE_FLAGS (type_bit t)"
    by (simp add: bit_and_iff)
  moreover have "bit INITIALIZE_ONCE_FLAGS (type_bit t) \<longleftrightarrow> t \<in> set once_types"
    using assms(2) by (cases t) (simp_all add: INITIALIZE_ONCE_FLAGS_def once_types_def bit_or_iff)
  ultimately show ?thesis by blast
qed

text \<open>The state of the parser after the descriptors \<open>ws\<close>.\<close>

definition rep :: "u32 list \<Rightarrow> 'pt CapRun \<Rightarrow> bool" where
  "rep ws r \<longleftrightarrow> run_caps r = granted ws \<and>
     (\<forall>t\<in>set once_types. bit (set_flags r) (type_bit t) \<longleftrightarrow> cap_words t ws \<noteq> []) \<and>
     (\<forall>i<8. bit (set_svc r) i \<longleftrightarrow> i \<in> (\<lambda>w. field w 29 3) ` set (cap_words SyscallMask ws))"

lemma cap_words_append [simp]:
  "cap_words t (vs @ ws) = cap_words t vs @ cap_words t ws"
  by (simp add: cap_words_def)

lemma cap_words_single [simp]:
  "cap_words t [w] = (if get_capability_type w = t then [w] else [])"
  "cap_words t [] = []"
  by (simp_all add: cap_words_def)

lemma said_snoc [simp]:
  "said t (ws @ [w]) d f =
    (if get_capability_type w = t \<and> cap_words t ws = [] then f w else said t ws d f)"
  by (simp add: said_def split: list.split)

lemma said_none [simp]: "cap_words t ws = [] \<Longrightarrow> said t ws d f = d"
  by (simp add: said_def)

lemma unrepeated_prefix: "unrepeated (vs @ ws) \<Longrightarrow> unrepeated vs"
  by (auto simp: unrepeated_def list_all_iff)

lemma unrepeated_snoc:
  assumes "unrepeated ws"
  shows "unrepeated (ws @ [w]) \<longleftrightarrow>
    (get_capability_type w \<in> set once_types \<longrightarrow> cap_words (get_capability_type w) ws = []) \<and>
    (get_capability_type w = SyscallMask \<longrightarrow>
      field w 29 3 \<notin> (\<lambda>w. field w 29 3) ` set (cap_words SyscallMask ws))"
  using assms by (auto simp: unrepeated_def list_all_iff)

definition accepts :: "'pt mapper \<Rightarrow> u32 list \<Rightarrow> u32 \<Rightarrow> 'pt CapRun \<Rightarrow> bool" where
  "accepts mp ws w r \<longleftrightarrow>
     (if word_ok w \<and> unrepeated (ws @ [w])
      then \<exists>r'. rep (ws @ [w]) r' \<and> page_table r' = page_table r \<and>
        set_capability mp w r = on_table (run_plan mp (word_plan w)) r'
      else fst (set_capability mp w r) \<noteq> 0)"

lemma on_table_nothing [simp]: "on_table (run_plan mp []) r = (0, r)"
  by (cases r) (simp add: on_table_def split: option.split)

text \<open>A type that may be set once, with a handler that is right when it was not set before.\<close>

lemma once_accepts:
  assumes rep: "rep ws r" and un: "unrepeated ws" and t: "get_capability_type w \<in> set once_types"
    and run: "\<And>r. (set_flags r AND INITIALIZE_ONCE_FLAGS) AND get_capability_flag (get_capability_type w) = 0 \<Longrightarrow>
      set_capability mp w r = on_caps f (r\<lparr>set_flags := set_flags r OR get_capability_flag (get_capability_type w)\<rparr>)"
    and f: "cap_words (get_capability_type w) ws = [] \<Longrightarrow>
      yields (f (granted ws)) (word_ok w) (granted (ws @ [w]))"
  shows "accepts mp ws w r"
proof -
  let ?t = "get_capability_type w"
  have nt: "?t \<noteq> Padding" "?t \<noteq> Invalid" "?t \<noteq> SyscallMask" "word_plan w = []"
    using t by (auto simp: once_types_def word_plan_def)
  have un': "unrepeated (ws @ [w]) \<longleftrightarrow> cap_words ?t ws = []"
    using un t nt by (simp add: unrepeated_snoc)
  have clash: "(set_flags r AND INITIALIZE_ONCE_FLAGS) AND get_capability_flag ?t \<noteq> 0 \<longleftrightarrow> cap_words ?t ws \<noteq> []"
    using rep t nt by (simp add: flag_clash rep_def)
  show ?thesis
  proof (cases "cap_words ?t ws = []")
    case True
    let ?r = "r\<lparr>set_flags := set_flags r OR get_capability_flag ?t\<rparr>"
    have "set_capability mp w r = on_caps f ?r" using run clash True by blast
    moreover have "yields (f (run_caps ?r)) (word_ok w) (granted (ws @ [w]))"
      using f [OF True] rep by (simp add: rep_def)
    moreover have "rep (ws @ [w]) (?r\<lparr>run_caps := granted (ws @ [w])\<rparr>)"
      using rep t nt by (auto simp: rep_def flag_set)
    ultimately show ?thesis
      using True nt un' by (auto simp: accepts_def on_caps_def yields_def split: if_splits prod.splits)
  next
    case False
    then have "fst (set_capability mp w r) \<noteq> 0"
      using clash nt by (simp add: set_capability_def Let_def)
    then show ?thesis using False un' by (simp add: accepts_def)
  qed
qed

lemma other_flags:
  assumes "rep ws r" "get_capability_type w \<notin> set once_types" "get_capability_type w \<noteq> Padding"
    "get_capability_type w \<noteq> Invalid"
  shows "(set_flags r AND INITIALIZE_ONCE_FLAGS) AND get_capability_flag (get_capability_type w) = 0"
  using flag_clash [OF assms(3,4)] assms(2) by blast

lemma syscall_accepts:
  assumes rep: "rep ws r" and un: "unrepeated ws" and t: "get_capability_type w = SyscallMask"
  shows "accepts mp ws w r"
proof -
  let ?i = "field w 29 3"
  have i: "?i < 8" using field_lt [of w 29 3] by simp
  have no: "SyscallMask \<notin> set once_types" by (simp add: once_types_def)
  have svc: "bit (set_svc r) ?i \<longleftrightarrow> ?i \<in> (\<lambda>w. field w 29 3) ` set (cap_words SyscallMask ws)"
    using rep i by (simp add: rep_def)
  have run: "set_capability mp w r = (let r = r\<lparr>set_flags := set_flags r OR get_capability_flag SyscallMask\<rparr> in
      case set_syscall_mask_capability w (set_svc r) (run_caps r) of
        (res, svc, c) \<Rightarrow> (res, r\<lparr>set_svc := svc, run_caps := c\<rparr>))"
    using other_flags [OF rep, of w] t no by (simp add: set_capability_def Let_def)
  show ?thesis
  proof (cases "bit (set_svc r) ?i")
    case True
    then show ?thesis
      using un no svc t run by (simp add: accepts_def unrepeated_snoc syscall_mask_yields)
  next
    case False
    let ?r = "r\<lparr>set_flags := set_flags r OR get_capability_flag SyscallMask,
      set_svc := set_svc r OR push_bit ?i 1, run_caps := granted (ws @ [w])\<rparr>"
    have "granted (ws @ [w]) = granted ws\<lparr>svc_access_flags := (\<lambda>i. svc_access_flags (granted ws) i \<or> names_svc w i)\<rparr>"
      using t by (simp add: granted_def)
    then have "set_capability mp w r = (0, ?r)"
      using False run rep by (simp add: syscall_mask_yields rep_def)
    moreover have "bit (set_svc r OR push_bit ?i 1) j \<longleftrightarrow> bit (set_svc r) j \<or> j = ?i" if "j < 8" for j
      using i that by (auto simp: bit_simps)
    then have "rep (ws @ [w]) ?r"
      using rep t no by (auto simp: rep_def flag_set)
    moreover have "unrepeated (ws @ [w])" "word_ok w" "word_plan w = []"
      using un no t svc False by (simp_all add: unrepeated_snoc word_ok_def word_plan_def)
    ultimately show ?thesis by (auto simp: accepts_def intro!: exI [of _ ?r])
  qed
qed

text \<open>The descriptors that only call the page table.\<close>

lemma table_accepts:
  assumes rep: "rep ws r" and un: "unrepeated ws"
    and t: "get_capability_type w = MapIoPage \<or> get_capability_type w = MapRegion"
  shows "accepts mp ws w r"
proof -
  let ?t = "get_capability_type w"
  let ?r = "r\<lparr>set_flags := set_flags r OR get_capability_flag ?t\<rparr>"
  have no: "?t \<notin> set once_types" using t by (auto simp: once_types_def)
  have "set_capability mp w r = on_table (run_plan mp (word_plan w)) ?r"
    using other_flags [OF rep no] t
    by (auto simp: set_capability_def Let_def word_plan_def map_io_page_plan map_region_plan on_table_def
        split: option.split)
  moreover have "granted (ws @ [w]) = granted ws" using t by (auto simp: granted_def)
  then have "rep (ws @ [w]) ?r"
    using rep t no by (auto simp: rep_def flag_set)
  moreover have "unrepeated (ws @ [w])" "word_ok w"
    using un no t by (auto simp: unrepeated_snoc word_ok_def)
  ultimately show ?thesis by (auto simp: accepts_def intro!: exI [of _ ?r])
qed

lemma interrupt_accepts:
  assumes rep: "rep ws r" and un: "unrepeated ws" and t: "get_capability_type w = InterruptPair"
  shows "accepts mp ws w r"
proof -
  let ?r = "r\<lparr>set_flags := set_flags r OR get_capability_flag InterruptPair, run_caps := granted (ws @ [w])\<rparr>"
  have no: "InterruptPair \<notin> set once_types" by (simp add: once_types_def)
  have "granted (ws @ [w]) =
      granted ws\<lparr>irq_access_flags := (\<lambda>i. irq_access_flags (granted ws) i \<or> names_interrupt w i)\<rparr>"
    using t by (simp add: granted_def)
  then have "set_capability mp w r = (0, ?r)"
    using other_flags [OF rep, of w] t no rep
    by (simp add: set_capability_def Let_def on_caps_def interrupt_pair_exact rep_def)
  moreover have "rep (ws @ [w]) ?r"
    using rep t no by (auto simp: rep_def flag_set)
  moreover have "unrepeated (ws @ [w])" "word_ok w" "word_plan w = []"
    using un no t by (simp_all add: unrepeated_snoc word_ok_def word_plan_def)
  ultimately show ?thesis by (auto simp: accepts_def intro!: exI [of _ ?r])
qed

lemma passive_accepts:
  assumes rep: "rep ws r" and un: "unrepeated ws"
    and t: "get_capability_type w = Invalid \<or> get_capability_type w = Padding"
  shows "accepts mp ws w r"
proof -
  have same: "cap_words u (ws @ [w]) = cap_words u ws" if "u \<noteq> Invalid" "u \<noteq> Padding" for u
    using t that by auto
  then have "granted (ws @ [w]) = granted ws" by (simp add: granted_def said_def del: cap_words_append)
  moreover have "u \<noteq> Invalid \<and> u \<noteq> Padding" if "u \<in> set once_types" for u
    using that by (auto simp: once_types_def)
  ultimately have r: "rep (ws @ [w]) r" and u: "unrepeated (ws @ [w])"
    using rep un same by (simp_all add: rep_def unrepeated_def list_all_iff del: cap_words_append)
  show ?thesis
    using t
  proof
    assume "get_capability_type w = Invalid"
    then show ?thesis by (simp add: accepts_def set_capability_def word_ok_def)
  next
    assume "get_capability_type w = Padding"
    then show ?thesis
      using r u by (auto simp: accepts_def set_capability_def word_ok_def word_plan_def)
  qed
qed

lemma word_accepts:
  assumes rep: "rep ws r" and un: "unrepeated ws" and t: "get_capability_type w \<noteq> MapRange"
  shows "accepts mp ws w r"
proof (cases "get_capability_type w")
  case CorePriority
  then show ?thesis
    by (intro once_accepts [OF rep un, where f = "set_core_priority_capability w"])
      (simp_all add: once_types_def set_capability_def Let_def,
       use core_priority_yields [of "granted ws" w] in \<open>simp add: granted_def word_ok_def yields_def\<close>)
next
  case ProgramType
  then show ?thesis
    by (intro once_accepts [OF rep un, where f = "set_program_type_capability w"])
      (simp_all add: once_types_def set_capability_def Let_def,
       use program_type_yields [of w "granted ws"] in \<open>simp add: granted_def word_ok_def yields_def\<close>)
next
  case KernelVersion
  then show ?thesis
    by (intro once_accepts [OF rep un, where f = "set_kernel_version_capability w"])
      (simp_all add: once_types_def set_capability_def Let_def,
       use kernel_version_yields [of "granted ws" w] in \<open>simp add: granted_def word_ok_def yields_def\<close>)
next
  case HandleTable
  then show ?thesis
    by (intro once_accepts [OF rep un, where f = "set_handle_table_capability w"])
      (simp_all add: once_types_def set_capability_def Let_def,
       use handle_table_yields [of w "granted ws"] in \<open>simp add: granted_def word_ok_def yields_def\<close>)
next
  case DebugFlags
  then show ?thesis
    by (intro once_accepts [OF rep un, where f = "set_debug_flags_capability w"])
      (simp_all add: once_types_def set_capability_def Let_def,
       use debug_flags_yields [of w "granted ws"] in \<open>simp add: granted_def word_ok_def yields_def\<close>)
qed (use t syscall_accepts [OF rep un] table_accepts [OF rep un] interrupt_accepts [OF rep un]
    passive_accepts [OF rep un] in blast)+

section \<open>A list of descriptors\<close>

lemma range_type_neutral:
  assumes "get_capability_type w = MapRange" "get_capability_type s = MapRange"
  shows "granted (ws @ w # s # vs) = granted (ws @ vs)" "unrepeated (ws @ w # s # vs) \<longleftrightarrow> unrepeated (ws @ vs)"
proof -
  have "cap_words t (w # s # vs) = cap_words t vs" if "t \<noteq> MapRange" for t
    using assms that by (simp add: cap_words_def)
  then show "granted (ws @ w # s # vs) = granted (ws @ vs)"
    "unrepeated (ws @ w # s # vs) \<longleftrightarrow> unrepeated (ws @ vs)"
    by (simp_all add: granted_def said_def unrepeated_def once_types_def)
qed

lemma range_rep:
  assumes "get_capability_type w = MapRange" "get_capability_type s = MapRange"
  shows "rep (ws @ [w, s]) r \<longleftrightarrow> rep ws r"
  using range_type_neutral [OF assms, of ws "[]"] assms
  by (auto simp: rep_def once_types_def cap_words_def)

lemma on_table_run:
  "on_table (run_plan mp xs) r =
    (case on_plan mp xs (page_table r) of (res, pt) \<Rightarrow> (res, r\<lparr>page_table := pt\<rparr>))"
  by (cases r) (auto simp: on_table_def on_plan_def split: option.split prod.split)

lemma on_plan_append:
  assumes "\<forall>e. Inl e \<in> set xs \<longrightarrow> e \<noteq> 0"
  shows "on_plan mp (xs @ ys) pt = (case on_plan mp xs pt of
    (res, pt) \<Rightarrow> if res \<noteq> 0 then (res, pt) else on_plan mp ys pt)"
  using assms by (auto simp: on_plan_def run_plan_append split: option.split prod.split)

lemma plan_nonzero:
  "Inl e \<in> set (word_plan w) \<Longrightarrow> e \<noteq> 0" "range_plan w s = Inl e \<Longrightarrow> e \<noteq> 0"
proof -
  have "Inl e \<in> set (region_plan t b) \<Longrightarrow> e \<noteq> 0" for t b
    by (auto simp: region_plan_def split: if_splits)
  then show "Inl e \<in> set (word_plan w) \<Longrightarrow> e \<noteq> 0"
    by (auto simp: word_plan_def split: CapabilityType.splits)
  show "range_plan w s = Inl e \<Longrightarrow> e \<noteq> 0"
    by (auto simp: range_plan_def Let_def split: if_splits)
qed

lemma rep_page_table [simp]: "rep ws (r\<lparr>page_table := pt\<rparr>) = rep ws r"
  by (simp add: rep_def)

text \<open>The outcome of a run over \<open>ws\<close> that starts where \<open>us\<close> was accepted.\<close>

definition parsed :: "'pt mapper \<Rightarrow> u32 list \<Rightarrow> u32 list \<Rightarrow> 'pt CapRun \<Rightarrow> bool" where
  "parsed mp us ws r \<longleftrightarrow>
     (case on_plan mp (plan ws) (page_table r) of
        (res, pt) \<Rightarrow>
          if paired ws \<and> list_all word_ok ws \<and> unrepeated (us @ ws)
          then fst (parse_caps mp ws r) = res \<and>
            page_table (snd (parse_caps mp ws r)) = pt \<and>
            (res = 0 \<longrightarrow> run_caps (snd (parse_caps mp ws r)) = granted (us @ ws))
          else fst (parse_caps mp ws r) \<noteq> 0)"

lemma parsed_range:
  assumes t: "get_capability_type w = MapRange" "get_capability_type s = MapRange"
    and rest: "\<And>r'. rep us r' \<Longrightarrow> parsed mp us ws r'" and rep: "rep us r"
  shows "parsed mp us (w # s # ws) r"
proof -
  obtain res pt where o: "on_plan mp [range_plan w s] (page_table r) = (res, pt)" by fastforce
  have run: "parse_caps mp (w # s # ws) r =
      (if res \<noteq> 0 then (res, r\<lparr>page_table := pt\<rparr>) else parse_caps mp ws (r\<lparr>page_table := pt\<rparr>))"
    using t on_table_run [of mp "[range_plan w s]" r] o
    by (simp add: map_range_plan [abs_def, symmetric] on_table_def map_range_plan split: option.splits prod.splits)
  have pl: "on_plan mp (plan (w # s # ws)) (page_table r) =
      (if res \<noteq> 0 then (res, pt) else on_plan mp (plan ws) pt)"
    using t o on_plan_append [of "[range_plan w s]" mp "plan ws" "page_table r"] plan_nonzero(2) [of w s]
    by (auto split: prod.split)
  have "word_ok w" "word_ok s" using t by (simp_all add: word_ok_def)
  then show ?thesis
    using t run pl rest [of "r\<lparr>page_table := pt\<rparr>"] rep
    by (auto simp: parsed_def range_type_neutral split: if_splits prod.splits)
qed

lemma parsed_word:
  assumes t: "get_capability_type w \<noteq> MapRange" and acc: "accepts mp us w r"
    and rest: "\<And>r'. rep (us @ [w]) r' \<Longrightarrow> unrepeated (us @ [w]) \<Longrightarrow> parsed mp (us @ [w]) ws r'"
  shows "parsed mp us (w # ws) r"
proof (cases "word_ok w \<and> unrepeated (us @ [w])")
  case True
  then obtain r' where r': "rep (us @ [w]) r'" "page_table r' = page_table r"
      "set_capability mp w r = on_table (run_plan mp (word_plan w)) r'"
    using acc by (auto simp: accepts_def)
  obtain res pt where o: "on_plan mp (word_plan w) (page_table r) = (res, pt)" by fastforce
  have "parse_caps mp (w # ws) r =
      (if res \<noteq> 0 then (res, r'\<lparr>page_table := pt\<rparr>) else parse_caps mp ws (r'\<lparr>page_table := pt\<rparr>))"
    using t r' o by (simp add: on_table_run)
  moreover have "on_plan mp (plan (w # ws)) (page_table r) =
      (if res \<noteq> 0 then (res, pt) else on_plan mp (plan ws) pt)"
    using t o on_plan_append [of "word_plan w" mp "plan ws" "page_table r"] plan_nonzero(1) [of _ w] by auto
  ultimately show ?thesis
    using t True rest [of "r'\<lparr>page_table := pt\<rparr>"] r'(1)
    by (auto simp: parsed_def split: if_splits prod.splits)
next
  case False
  then have "fst (set_capability mp w r) \<noteq> 0" using acc by (simp add: accepts_def)
  then have "fst (parse_caps mp (w # ws) r) \<noteq> 0" using t by (cases "set_capability mp w r") simp
  moreover have "\<not> (word_ok w \<and> unrepeated (us @ w # ws))"
    using False unrepeated_prefix [of "us @ [w]" ws] by auto
  ultimately show ?thesis by (auto simp: parsed_def split: prod.splits)
qed

lemma parse_exact: "rep us r \<Longrightarrow> unrepeated us \<Longrightarrow> parsed mp us ws r"
proof (induction ws arbitrary: us r rule: length_induct)
  case (1 ws)
  show ?case
  proof (cases ws)
    case Nil
    then show ?thesis
      using 1(2,3) by (simp add: parsed_def on_plan_def rep_def split: option.split)
  next
    case (Cons w vs)
    show ?thesis
    proof (cases "get_capability_type w = MapRange")
      case False
      then show ?thesis
        unfolding Cons
        by (rule parsed_word [OF _ word_accepts [OF 1(2,3) False]]) (use 1(1) Cons in simp)
    next
      case True
      show ?thesis
      proof (cases "\<exists>s us. vs = s # us \<and> get_capability_type s = MapRange")
        case True
        then obtain s xs where s: "vs = s # xs" "get_capability_type s = MapRange" by blast
        show ?thesis
          unfolding Cons s(1)
          by (rule parsed_range [OF \<open>get_capability_type w = MapRange\<close> s(2) _ 1(2)]) (use 1(1,3) Cons s in simp)
      next
        case False
        then have "fst (parse_caps mp ws r) \<noteq> 0" "\<not> paired ws"
          using True Cons by (auto split: list.splits)
        then show ?thesis by (auto simp: parsed_def split: prod.splits)
      qed
    qed
  qed
qed

lemma user_run:
  "initialize_for_user mp ws pt c =
    (case parse_caps mp ws \<lparr>set_flags = 0, set_svc = 0, page_table = pt, run_caps = granted []\<rparr> of
       (res, r) \<Rightarrow> (res, page_table r, run_caps r))"
proof -
  have "c\<lparr>svc_access_flags := (\<lambda>_. False), irq_access_flags := (\<lambda>_. False), debug_capabilities := 0,
      handle_table_size := 0, intended_kernel_version := 0, program_type := 0,
      core_mask := 0, phys_core_mask := 0, priority_mask := 0\<rparr> = granted []"
    by (cases c) (simp add: granted_def)
  then show ?thesis by (simp add: initialize_for_user_def set_capabilities_def Let_def)
qed

lemma user_parsed:
  "parsed mp [] ws \<lparr>set_flags = 0, set_svc = 0, page_table = pt, run_caps = granted []\<rparr>"
  by (rule parse_exact) (simp_all add: rep_def unrepeated_def once_types_def)

lemma user_success:
  assumes "initialize_for_user mp ws pt c = (0, pt', c')"
  shows "caps_ok ws" "c' = granted ws"
  using assms user_parsed [of mp ws pt] unfolding user_run caps_ok_def
  by (auto simp: parsed_def split: if_splits prod.splits)

text \<open>
  C37: the user capabilities are accepted exactly when the list is well formed, nothing that may be set
  once is set twice, and the page table accepts every call the list asks for; the calls are made in the
  order of the list, and the process then has exactly the rights the descriptors name, whatever it had
  before. When a well-formed list is refused by the page table, the answer is the code of the first call
  that failed, and no call is made after it. Without a page table the mapping descriptors are passed over.
\<close>

theorem user_capabilities_exact:
  "(initialize_for_user mp ws pt c = (0, pt', c') \<longleftrightarrow>
     caps_ok ws \<and> on_plan mp (plan ws) pt = (0, pt') \<and> c' = granted ws) \<and>
   (caps_ok ws \<and> on_plan mp (plan ws) pt = (e, tbl) \<longrightarrow>
     (\<exists>c''. initialize_for_user mp ws pt c = (e, tbl, c'')))"
proof -
  let ?r = "\<lparr>set_flags = 0, set_svc = 0, page_table = pt, run_caps = granted []\<rparr>"
  show ?thesis
    using user_parsed [of mp ws pt] unfolding user_run caps_ok_def
    by (cases "parse_caps mp ws ?r"; cases "on_plan mp (plan ws) pt") (auto simp: parsed_def split: if_splits)
qed

definition sample_caps :: "u32 list" where
  "sample_caps = [0x20073B7, 0x84F, 0x5007F, 0x2007FFF]"

definition log_mapper :: "MapCall list mapper" where
  "log_mapper m pt = (if length pt < 2 then 0 else RESULT_OUT_OF_RANGE, pt @ [m])"

lemma sample_types:
  "get_capability_type 0x20073B7 = CorePriority" "get_capability_type 0x84F = SyscallMask"
  "get_capability_type 0x5007F = MapIoPage" "get_capability_type 0x2007FFF = HandleTable"
  by (simp_all add: get_capability_type_def)

lemma field_div: "field w p n = unat w div 2 ^ p mod 2 ^ n"
proof -
  have "unat w < 2 ^ LENGTH(32)" by (rule unsigned_less)
  then have "field w p n = take_bit n (drop_bit p (unat w))"
    unfolding field_def by (simp only: unsigned_take_bit_eq unsigned_drop_bit_eq) (simp add: take_bit_nat_eq_self)
  then show ?thesis by (simp only: take_bit_eq_mod drop_bit_eq_div)
qed

lemma sample_caps_ok: "caps_ok sample_caps"
  by (simp add: caps_ok_def sample_caps_def sample_types word_ok_def field_div unrepeated_def once_types_def
      cap_words_def)

lemma sample_plan: "plan sample_caps = [Inr (MapIo 0x500000 4096 USER_READ_WRITE)]"
  by (simp add: sample_caps_def sample_types word_plan_def field_div)

lemma user_capabilities_exact_witness:
  "(\<exists>c'. initialize_for_user log_mapper sample_caps (Some []) caps_new =
      (0, Some [MapIo 0x500000 4096 USER_READ_WRITE], c') \<and> bit (core_mask c') 2 \<and> \<not> bit (core_mask c') 3 \<and>
      svc_access_flags c' 6 \<and> handle_table_size c' = 512) \<and>
   (\<exists>c''. initialize_for_user (\<lambda>m pt. (RESULT_NOT_FOUND, pt)) sample_caps (Some ()) caps_new =
      (RESULT_NOT_FOUND, Some (), c''))"
proof
  let ?c = "granted sample_caps"
  have "on_plan log_mapper (plan sample_caps) (Some []) = (0, Some [MapIo 0x500000 4096 USER_READ_WRITE])"
    by (simp add: sample_plan on_plan_def log_mapper_def)
  then have "initialize_for_user log_mapper sample_caps (Some []) caps_new =
      (0, Some [MapIo 0x500000 4096 USER_READ_WRITE], ?c)"
    using user_capabilities_exact sample_caps_ok by blast
  moreover have "bit (core_mask ?c) 2" "\<not> bit (core_mask ?c) 3"
    by (simp_all add: granted_def said_def cap_words_def sample_caps_def sample_types bit_between field_div)
  moreover have "svc_access_flags ?c 6" "handle_table_size ?c = 512"
    by (simp_all add: granted_def said_def cap_words_def sample_caps_def sample_types names_svc_def field_div)
  ultimately show "\<exists>c'. initialize_for_user log_mapper sample_caps (Some []) caps_new =
      (0, Some [MapIo 0x500000 4096 USER_READ_WRITE], c') \<and> bit (core_mask c') 2 \<and> \<not> bit (core_mask c') 3 \<and>
      svc_access_flags c' 6 \<and> handle_table_size c' = 512" by blast
next
  have "on_plan (\<lambda>m pt. (RESULT_NOT_FOUND, pt)) (plan sample_caps) (Some ()) = (RESULT_NOT_FOUND, Some ())"
    by (simp add: sample_plan on_plan_def)
  then show "\<exists>c''. initialize_for_user (\<lambda>m pt. (RESULT_NOT_FOUND, pt)) sample_caps (Some ()) caps_new =
      (RESULT_NOT_FOUND, Some (), c'')"
    using user_capabilities_exact [of "\<lambda>m pt. (RESULT_NOT_FOUND, pt)" sample_caps "Some ()" caps_new]
      sample_caps_ok by blast
qed

section \<open>Virtual and physical cores\<close>

lemma convert_bits:
  "bit (convert_loop v p) j \<longleftrightarrow> bit p j \<or> (\<exists>n. bit v n \<and> VIRTUAL_TO_PHYSICAL_CORE_MAP ! n = j)"
proof (induction v p rule: convert_loop.induct)
  case (1 v p)
  show ?case
  proof (cases "v = 0")
    case True
    then show ?thesis by (simp add: convert_loop.simps [of 0])
  next
    case False
    let ?n = "ctz v"
    have n: "?n < 64" "bit v ?n" using False ctz_lt_iff [of v] bit_ctz by auto
    have "\<forall>i\<in>{0..<64}. VIRTUAL_TO_PHYSICAL_CORE_MAP ! i < 64"
      by (simp add: VIRTUAL_TO_PHYSICAL_CORE_MAP_def nth_append nth_Cons')
    then have "VIRTUAL_TO_PHYSICAL_CORE_MAP ! ?n < 64" using n by simp
    then have "bit (p OR push_bit (VIRTUAL_TO_PHYSICAL_CORE_MAP ! ?n) 1) j \<longleftrightarrow>
        bit p j \<or> VIRTUAL_TO_PHYSICAL_CORE_MAP ! ?n = j"
      by (auto simp: bit_simps)
    moreover have "bit (v AND NOT (2 ^ ?n)) k \<longleftrightarrow> bit v k \<and> k \<noteq> ?n" for k
      using n(1) by (simp add: andnot_bit_iff)
    ultimately show ?thesis
      using 1 [OF False refl] False n(2) by (subst convert_loop.simps) (auto simp: Let_def)
  qed
qed

lemma convert_first_cores:
  assumes "\<And>k. bit m k \<Longrightarrow> k < 4"
  shows "convert_virtual_core_mask_to_physical m = m"
proof -
  have "VIRTUAL_TO_PHYSICAL_CORE_MAP ! k = k" if "k < 4" for k
    using that by (simp add: VIRTUAL_TO_PHYSICAL_CORE_MAP_def nth_append nth_Cons')
  then show ?thesis
    using assms
    by (auto intro!: bit_word_eqI simp: convert_virtual_core_mask_to_physical_def convert_bits) metis
qed

section \<open>Every outcome\<close>

text \<open>The capabilities after a handler was called for one word, whatever it answered.\<close>

definition touched :: "u32 \<Rightarrow> KCapabilities \<Rightarrow> KCapabilities" where
  "touched w c = (case get_capability_type w of
      CorePriority \<Rightarrow> snd (set_core_priority_capability w c)
    | SyscallMask \<Rightarrow> c\<lparr>svc_access_flags := (\<lambda>i. svc_access_flags c i \<or> names_svc w i)\<rparr>
    | InterruptPair \<Rightarrow> c\<lparr>irq_access_flags := (\<lambda>i. irq_access_flags c i \<or> names_interrupt w i)\<rparr>
    | ProgramType \<Rightarrow> snd (set_program_type_capability w c)
    | KernelVersion \<Rightarrow> snd (set_kernel_version_capability w c)
    | HandleTable \<Rightarrow> snd (set_handle_table_capability w c)
    | DebugFlags \<Rightarrow> snd (set_debug_flags_capability w c)
    | _ \<Rightarrow> c)"

lemma on_table_caps [simp]: "run_caps (snd (on_table f r)) = run_caps r"
  by (simp add: on_table_def split: option.split prod.split)

lemma on_caps_caps [simp]: "run_caps (snd (on_caps f r)) = snd (f (run_caps r))"
  by (simp add: on_caps_def split: prod.split)

lemma set_capability_touches:
  "run_caps (snd (set_capability mp w r)) \<in> {run_caps r, touched w (run_caps r)}"
  by (cases "get_capability_type w")
    (simp_all add: set_capability_def touched_def Let_def syscall_mask_yields interrupt_pair_exact)

lemma parse_preserves:
  assumes "P (run_caps r)" "\<And>w c. w \<in> set ws \<Longrightarrow> P c \<Longrightarrow> P (touched w c)"
  shows "P (run_caps (snd (parse_caps mp ws r)))"
  using assms
proof (induction mp ws r rule: parse_caps.induct)
  case (2 mp w ws r)
  have step: "P (run_caps (snd (set_capability mp w r)))"
    using set_capability_touches [of mp w r] 2(3,4) by auto
  show ?case
  proof (cases "get_capability_type w = MapRange")
    case False
    obtain res r' where "set_capability mp w r = (res, r')" by fastforce
    then show ?thesis using False 2(2) [OF False] 2(4) step by auto
  next
    case True
    show ?thesis
    proof (cases ws)
      case (Cons s vs)
      obtain res r' where o: "on_table (map_range mp w s) r = (res, r')" by fastforce
      then have "run_caps r' = run_caps r" using on_table_caps [of "map_range mp w s" r] by simp
      then show ?thesis using True Cons o 2(1) [OF True Cons] 2(3,4) by auto
    qed (use True 2(3) in simp)
  qed
qed simp

text \<open>No right that is not in the list, and no core or handle table beyond what there is.\<close>

definition confined :: "u32 list \<Rightarrow> KCapabilities \<Rightarrow> bool" where
  "confined ws c \<longleftrightarrow>
     (\<forall>i. svc_access_flags c i \<longrightarrow> (\<exists>w\<in>set (cap_words SyscallMask ws). names_svc w i)) \<and>
     (\<forall>i. irq_access_flags c i \<longrightarrow> (\<exists>w\<in>set (cap_words InterruptPair ws). names_interrupt w i)) \<and>
     (\<forall>k. bit (core_mask c) k \<longrightarrow>
       k < 4 \<and> (\<exists>w\<in>set (cap_words CorePriority ws). field w 16 8 \<le> k \<and> k \<le> field w 24 8)) \<and>
     phys_core_mask c = core_mask c \<and>
     (handle_table_size c = 0 \<or>
       (\<exists>w\<in>set (cap_words HandleTable ws). handle_table_size c = int (field w 16 10)))"

lemma core_priority_outcome:
  "snd (set_core_priority_capability w c) = c \<or>
   field w 24 8 < 4 \<and> (\<exists>p. snd (set_core_priority_capability w c) =
     c\<lparr>core_mask := between (field w 16 8) (field w 24 8),
       phys_core_mask := between (field w 16 8) (field w 24 8), priority_mask := p\<rparr>)"
proof (cases "core_mask c = 0 \<and> field w 24 8 < 4")
  case True
  then show ?thesis
    by (auto simp: set_core_priority_capability_def and_low field_def [symmetric] Let_def add_bits_zero)
next
  case False
  then show ?thesis
    by (auto simp: set_core_priority_capability_def and_low field_def [symmetric] Let_def NUM_CPU_CORES_def)
qed

lemma small_handlers:
  "\<exists>x. snd (set_program_type_capability w c) = c\<lparr>program_type := x\<rparr>"
  "\<exists>x. snd (set_kernel_version_capability w c) = c\<lparr>intended_kernel_version := x\<rparr>"
  "\<exists>x. snd (set_debug_flags_capability w c) = c\<lparr>debug_capabilities := x\<rparr>"
  "\<exists>x. snd (set_handle_table_capability w c) = c\<lparr>handle_table_size := x\<rparr> \<and>
    (x = handle_table_size c \<or> x = int (field w 16 10))"
proof -
  show "\<exists>x. snd (set_program_type_capability w c) = c\<lparr>program_type := x\<rparr>"
    by (auto simp: set_program_type_capability_def Let_def intro: exI [of _ "program_type c"])
  show "\<exists>x. snd (set_kernel_version_capability w c) = c\<lparr>intended_kernel_version := x\<rparr>"
    by (auto simp: set_kernel_version_capability_def Let_def intro: exI [of _ "intended_kernel_version c"])
  show "\<exists>x. snd (set_debug_flags_capability w c) = c\<lparr>debug_capabilities := x\<rparr>"
    by (auto simp: set_debug_flags_capability_def Let_def intro: exI [of _ "debug_capabilities c"])
  have "uint (take_bit 10 (drop_bit 16 w)) = int (field w 16 10)" by (simp add: field_def)
  then show "\<exists>x. snd (set_handle_table_capability w c) = c\<lparr>handle_table_size := x\<rparr> \<and>
      (x = handle_table_size c \<or> x = int (field w 16 10))"
    by (auto simp: set_handle_table_capability_def Let_def and_low intro: exI [of _ "handle_table_size c"])
qed

lemma confined_touched:
  assumes "w \<in> set ws" "confined ws c"
  shows "confined ws (touched w c)"
proof (cases "get_capability_type w")
  case CorePriority
  then have "w \<in> set (cap_words CorePriority ws)" using assms(1) by (simp add: cap_words_def)
  then show ?thesis
    using core_priority_outcome [of w c] assms(2) CorePriority
    by (auto simp: touched_def confined_def bit_between)
next
  case HandleTable
  then have "w \<in> set (cap_words HandleTable ws)" using assms(1) by (simp add: cap_words_def)
  then show ?thesis
    using small_handlers(4) [of w c] assms(2) HandleTable by (auto simp: touched_def confined_def)
qed (use assms small_handlers(1-3) [of w c] in \<open>auto simp: touched_def confined_def cap_words_def\<close>)

lemma user_confined:
  assumes "initialize_for_user mp ws pt c = (res, pt', c')"
  shows "confined ws c'"
proof -
  let ?r = "\<lparr>set_flags = 0, set_svc = 0, page_table = pt, run_caps = granted []\<rparr>"
  have "confined ws (run_caps ?r)" by (simp add: confined_def granted_def said_def)
  then have "confined ws (run_caps (snd (parse_caps mp ws ?r)))"
    using confined_touched by (rule parse_preserves)
  moreover have "c' = run_caps (snd (parse_caps mp ws ?r))"
    using assms unfolding user_run by (auto split: prod.splits)
  ultimately show ?thesis by simp
qed

text \<open>
  C38: however the parse of user capabilities ends, no supervisor call and no interrupt is permitted that
  no descriptor of the list names, the cores are cores the machine has and within a range the list
  names, and the mask of physical cores, which the code copies, is what the conversion of virtual cores
  computes. When it succeeds, none of the kernel's own priorities is in the mask.
\<close>

theorem user_capabilities_confined:
  assumes "initialize_for_user mp ws pt c = (res, pt', c')"
  shows
    "(is_permitted_svc i c' \<longrightarrow> (\<exists>w\<in>set ws. get_capability_type w = SyscallMask \<and> names_svc w (unat i))) \<and>
     (is_permitted_interrupt i c' \<longrightarrow>
       (\<exists>w\<in>set ws. get_capability_type w = InterruptPair \<and> names_interrupt w (unat i))) \<and>
     (bit (core_mask c') k \<longrightarrow> k < NUM_CPU_CORES \<and>
       (\<exists>w\<in>set ws. get_capability_type w = CorePriority \<and> field w 16 8 \<le> k \<and> k \<le> field w 24 8)) \<and>
     phys_core_mask c' = convert_virtual_core_mask_to_physical (core_mask c') \<and>
     (res = 0 \<and> bit (priority_mask c') k \<longrightarrow> 4 \<le> k)"
proof -
  have c: "confined ws c'" using assms by (rule user_confined)
  then have "convert_virtual_core_mask_to_physical (core_mask c') = core_mask c'"
    by (intro convert_first_cores) (simp add: confined_def)
  moreover have "4 \<le> k" if res: "res = 0" and k: "bit (priority_mask c') k"
  proof -
    have ok: "caps_ok ws" "priority_mask c' = said CorePriority ws 0 (\<lambda>w. between (field w 10 6) (field w 4 6))"
      using user_success [of mp ws pt c pt' c'] assms res by (simp_all add: granted_def)
    then obtain w us where w: "cap_words CorePriority ws = w # us" "field w 10 6 \<le> k"
      using k by (auto simp: said_def bit_between split: list.splits)
    then have "w \<in> set ws" "get_capability_type w = CorePriority"
      by (auto simp: cap_words_def filter_eq_Cons_iff)
    then have "4 \<le> field w 10 6"
      using ok(1) by (auto simp: caps_ok_def list_all_iff word_ok_def)
    then show ?thesis using w(2) by simp
  qed
  ultimately show ?thesis
    using c by (auto simp: confined_def cap_words_def NUM_CPU_CORES_def is_permitted_svc_def is_permitted_interrupt_def)
qed

lemma granted_table_size:
  assumes "caps_ok ws" "c = granted ws"
  shows "(\<forall>w\<in>set ws. get_capability_type w = HandleTable \<longrightarrow> handle_table_size c = int (field w 16 10)) \<and>
    ((\<forall>w\<in>set ws. get_capability_type w \<noteq> HandleTable) \<longrightarrow> handle_table_size c = 0)"
proof -
  have s: "handle_table_size c = said HandleTable ws 0 (\<lambda>w. int (field w 16 10))"
    by (simp add: assms(2) granted_def)
  have one: "length (cap_words HandleTable ws) \<le> 1"
    using assms(1) by (simp add: caps_ok_def unrepeated_def once_types_def)
  have m: "w \<in> set (cap_words HandleTable ws) \<longleftrightarrow> w \<in> set ws \<and> get_capability_type w = HandleTable" for w
    by (auto simp: cap_words_def)
  show ?thesis
  proof (cases "cap_words HandleTable ws")
    case Nil
    then show ?thesis using s m by auto
  next
    case (Cons w us)
    then have w: "cap_words HandleTable ws = [w]" using one by simp
    then have "v = w" if "v \<in> set ws" "get_capability_type v = HandleTable" for v
      using m [of v] that by simp
    moreover have "w \<in> set ws" "get_capability_type w = HandleTable" using m [of w] w by simp_all
    moreover have "handle_table_size c = int (field w 16 10)" using s w by (simp add: said_def)
    ultimately show ?thesis by metis
  qed
qed

text \<open>
  C40: the handle table a process makes from its capabilities, however their parse ended, is accepted:
  the size field is too small to exceed the largest table. The table is well formed and empty, and its
  size is one that a descriptor of the list asks for, or the largest. After a successful parse it is the
  size of the descriptor in the list, where zero asks for the largest table, and the largest table if
  the list has no such descriptor.
\<close>

theorem capability_handle_table:
  assumes "initialize_for_user mp ws pt c = (res, pt', c')"
  shows "\<exists>t'. initialize_handle_table c' (t, b) = (0, t', True) \<and> ht_wf t' \<and> ht_count t' = 0 \<and>
    table_size t' = (if handle_table_size c' = 0 then MAX_TABLE_SIZE else nat (handle_table_size c')) \<and>
    (handle_table_size c' = 0 \<or>
      (\<exists>w\<in>set ws. get_capability_type w = HandleTable \<and> handle_table_size c' = int (field w 16 10))) \<and>
    (res = 0 \<longrightarrow>
      (\<forall>w\<in>set ws. get_capability_type w = HandleTable \<longrightarrow>
        table_size t' = (if field w 16 10 = 0 then MAX_TABLE_SIZE else field w 16 10)) \<and>
      ((\<forall>w\<in>set ws. get_capability_type w \<noteq> HandleTable) \<longrightarrow> table_size t' = MAX_TABLE_SIZE))"
proof -
  have asked: "(\<forall>w\<in>set ws. get_capability_type w = HandleTable \<longrightarrow> handle_table_size c' = int (field w 16 10)) \<and>
      ((\<forall>w\<in>set ws. get_capability_type w \<noteq> HandleTable) \<longrightarrow> handle_table_size c' = 0)" if "res = 0"
    using user_success [of mp ws pt c pt' c'] assms that by (intro granted_table_size) simp_all
  have c: "handle_table_size c' = 0 \<or>
      (\<exists>w\<in>set ws. get_capability_type w = HandleTable \<and> handle_table_size c' = int (field w 16 10))"
    using user_confined [OF assms] by (auto simp: confined_def cap_words_def)
  let ?sz = "if handle_table_size c' = 0 then int MAX_TABLE_SIZE else handle_table_size c'"
  have sz: "0 < ?sz" "?sz \<le> int MAX_TABLE_SIZE"
    using c field_lt [of _ 16 10] by (auto simp: less_imp_le)
  obtain t' where t': "ht_initialize ?sz t = (0, t')" "ht_wf t'"
    using ht_initialize_rep [OF sz(2), of t] ht_wf_iff by blast
  moreover have "table_size t' = nat ?sz" "ht_count t' = 0"
    using t'(1) sz by (auto simp: ht_initialize_def Let_def fold_init_entry split: if_splits)
  ultimately show ?thesis
    using c asked by (auto simp: initialize_handle_table_def Let_def)
qed

lemma sample_run:
  "initialize_for_user log_mapper sample_caps None caps_new = (0, None, granted sample_caps)"
  using parse_exact [of "[]" "\<lparr>set_flags = 0, set_svc = 0, page_table = None, run_caps = granted []\<rparr>" log_mapper sample_caps]
    sample_caps_ok
  by (auto simp: user_run parsed_def rep_def unrepeated_def once_types_def on_plan_def caps_ok_def split: prod.split)

lemma user_capabilities_confined_witness:
  "\<exists>c'. initialize_for_user log_mapper sample_caps None caps_new = (0, None, c') \<and>
     phys_core_mask c' = convert_virtual_core_mask_to_physical (core_mask c') \<and> \<not> bit (priority_mask c') 3"
  using user_capabilities_confined [OF sample_run, of 0 3] sample_run by auto

lemma capability_handle_table_witness:
  "\<exists>c' t'. initialize_for_user log_mapper sample_caps None caps_new = (0, None, c') \<and>
     initialize_handle_table c' (ht_new, False) = (0, t', True) \<and> ht_wf t' \<and> table_size t' = 512"
proof -
  have "handle_table_size (granted sample_caps) = 512"
    by (simp add: granted_def said_def cap_words_def sample_caps_def sample_types field_div)
  then show ?thesis
    using capability_handle_table [OF sample_run, of ht_new False] sample_run by auto
qed

section \<open>Initial processes\<close>

text \<open>
  An initial process starts with every core and every user priority, so a descriptor that sets them or
  the kernel version is refused, and the mask of physical cores is the mask of virtual cores itself: 64
  bits, where the conversion gives the four cores of the machine.
\<close>

lemma convert_all_cores: "convert_virtual_core_mask_to_physical VIRTUAL_CORE_MASK = 0xF"
proof (rule bit_word_eqI)
  fix j
  assume j: "j < LENGTH(64)"
  have v: "VIRTUAL_CORE_MASK = - 1" by (simp add: VIRTUAL_CORE_MASK_def)
  have len: "length VIRTUAL_TO_PHYSICAL_CORE_MAP = 64" by (simp add: VIRTUAL_TO_PHYSICAL_CORE_MAP_def)
  have f: "(0xF :: u64) = mask 4" by (simp add: mask_eq_exp_minus_1)
  have "(\<exists>n<64. VIRTUAL_TO_PHYSICAL_CORE_MAP ! n = j) \<longleftrightarrow> j \<in> set VIRTUAL_TO_PHYSICAL_CORE_MAP"
    using in_set_conv_nth [of j VIRTUAL_TO_PHYSICAL_CORE_MAP] by (simp add: len)
  also have "\<dots> \<longleftrightarrow> j < 4" by (auto simp: VIRTUAL_TO_PHYSICAL_CORE_MAP_def)
  finally show "bit (convert_virtual_core_mask_to_physical VIRTUAL_CORE_MASK) j \<longleftrightarrow> bit (0xF :: u64) j"
    using j by (simp add: convert_virtual_core_mask_to_physical_def convert_bits v f bit_mask_iff)
qed

definition kip_fixed :: "KCapabilities \<Rightarrow> bool" where
  "kip_fixed c \<longleftrightarrow> core_mask c = VIRTUAL_CORE_MASK \<and> phys_core_mask c = VIRTUAL_CORE_MASK \<and>
     priority_mask c = NOT 0xF \<and> intended_kernel_version c = push_bit 19 13 OR push_bit 15 0"

lemma kip_fixed_refuses:
  assumes "kip_fixed c"
  shows "set_core_priority_capability w c = (RESULT_INVALID_ARGUMENT, c)"
    "set_kernel_version_capability w c = (RESULT_INVALID_ARGUMENT, c)"
  using assms
  by (simp_all add: kip_fixed_def set_core_priority_capability_def set_kernel_version_capability_def
      VIRTUAL_CORE_MASK_def)

lemma kip_fixed_touched: "kip_fixed c \<Longrightarrow> kip_fixed (touched w c)"
  using kip_fixed_refuses [of c w] small_handlers [of w c]
  by (cases "get_capability_type w") (auto simp: touched_def, auto simp: kip_fixed_def)

theorem kip_physical_mask:
  assumes "initialize_for_kip mp ws pt c = (res, pt', c')"
  shows "kip_fixed c'" "phys_core_mask c' \<noteq> convert_virtual_core_mask_to_physical (core_mask c')"
proof -
  let ?c = "c\<lparr>svc_access_flags := (\<lambda>_. False), irq_access_flags := (\<lambda>_. False),
      debug_capabilities := 0, handle_table_size := 0, program_type := 0, core_mask := VIRTUAL_CORE_MASK,
      phys_core_mask := VIRTUAL_CORE_MASK, priority_mask := NOT 0xF,
      intended_kernel_version := push_bit 19 13 OR push_bit 15 0\<rparr>"
  let ?r = "\<lparr>set_flags = 0, set_svc = 0, page_table = pt, run_caps = ?c\<rparr>"
  have "kip_fixed (run_caps ?r)" by (simp add: kip_fixed_def)
  then have "kip_fixed (run_caps (snd (parse_caps mp ws ?r)))"
    using kip_fixed_touched by (rule parse_preserves)
  moreover have "c' = run_caps (snd (parse_caps mp ws ?r))"
    using assms unfolding initialize_for_kip_def set_capabilities_def Let_def by (auto split: prod.splits)
  ultimately show "kip_fixed c'" by simp
  moreover have mask4: "VIRTUAL_CORE_MASK \<noteq> 0xF" by (simp add: VIRTUAL_CORE_MASK_def)
  ultimately show "phys_core_mask c' \<noteq> convert_virtual_core_mask_to_physical (core_mask c')"
    using mask4 by (simp add: kip_fixed_def convert_all_cores)
qed

end
