(* ===== verification/Spec2Isabelle.thy ===== *)
theory Spec2Isabelle
  imports HandleTable ResourceLimit MemoryBlockUpdates MemoryRegionTypeProps MemoryManagerLeak PriorityQueueOrder
    GlobalSchedulerRuns GlobalSchedulerChoice FlatAllocatorProps HardwareTimerProps CapabilitiesProps
begin

text \<open>
  The kernel of the ruzu emulator, and its allocator of address ranges: a verification development.

  ruzu emulates the operating system of a game console. Its kernel, under src/core/src/hle/kernel,
  keeps the objects a guest program works with: handles, resource limits, physical and virtual memory,
  threads and their scheduling. This development models the parts of that kernel that keep state of
  their own behind a small interface, and proves what their callers rely on. Unless another directory
  is named, a file below is in src/core/src/hle/kernel.

  \<^bold>\<open>Parts and theories.\<close>

  \<^item> \<open>ObjectTable\<close>, \<open>HandleTable\<close>: k_handle_table.rs. \<open>KHandleTable\<close> is a record of three arrays and a
    free list threaded through them; \<open>ht_add\<close>, \<open>ht_remove\<close>, \<open>ht_reserve\<close>, \<open>ht_register\<close>, \<open>get_object\<close>
    and the others are its methods. The locale \<open>object_table\<close> is the contract of its clients.
  \<^item> \<open>ResourceLimit\<close>: k_resource_limit.rs. A reservation that has to wait is split at the condition
    variable: \<open>reserve_begin\<close>, \<open>reserve_iter\<close> and the steps of an inductive relation interleave the
    calls of several threads.
  \<^item> \<open>Bits\<close>, \<open>PageBitmap\<close>, \<open>PageBitmapProps\<close>: k_page_bitmap.rs, a tree of 64-bit words over the free
    pages, with the exact random generator of its choices. The locale \<open>free_set\<close> is what the page heap
    and the page manager use of it.
  \<^item> \<open>Machine\<close>, \<open>Buddy\<close>, \<open>PageHeap\<close>, \<open>PageHeapProps\<close>, \<open>PageHeapAlloc\<close>: k_page_heap.rs, seven levels of
    bitmaps. \<open>Buddy\<close> is the abstract allocator it refines, on sets of blocks.
  \<^item> \<open>DynamicPageManager\<close>, \<open>DynamicSlabHeap\<close>: k_dynamic_page_manager.rs, k_dynamic_slab_heap.rs and
    k_dynamic_resource_manager.rs: pages from a bitmap, objects from pages, and the allocator that
    reserves nodes before an update. The locale \<open>node_source\<close> is what the block manager needs of them.
  \<^item> \<open>BTree\<close>, \<open>MemoryBlock\<close>, \<open>MemoryBlockManager\<close>, \<open>MemoryBlockUpdates\<close>: k_memory_block.rs and
    k_memory_block_manager.rs, the blocks of an address space in an ordered map (the locale
    \<open>ordered_map\<close>) that are split and merged by updates.
  \<^item> \<open>MemoryRegionType\<close>, \<open>MemoryRegionTypeProps\<close>, \<open>MemoryRegion\<close>: k_memory_region_type.rs,
    k_memory_region.rs, k_memory_layout.rs and the random ranges of board/k_system_control.rs. Types are
    words with the next free bit; \<open>descends\<close> is the tree that the derivation steps make of them.
  \<^item> \<open>PageGroup\<close>: k_page_group.rs, lists of runs of pages.
  \<^item> \<open>MemoryManager\<close>, \<open>MemoryManagerImpl\<close>, \<open>MemoryManagerState\<close>, \<open>MemoryManagerProps\<close>,
    \<open>MemoryManagerGroups\<close>, \<open>MemoryManagerLeak\<close>: k_memory_manager.rs, one page heap and one table of reference counts per
    region, chained into pools. The locale \<open>page_operation\<close> is what opening, closing and freeing share.
  \<^item> \<open>PriorityQueue\<close>, \<open>PriorityQueueLists\<close>, \<open>PriorityQueueShape\<close>, \<open>PriorityQueueProps\<close>,
    \<open>PriorityQueueRefine\<close>, \<open>PriorityQueueOrder\<close>: k_priority_queue.rs, doubly linked lists of runnable
    threads whose links are kept in one map from thread ids.
  \<^item> \<open>GlobalScheduler\<close>, \<open>GlobalSchedulerRotate\<close>, \<open>GlobalSchedulerRuns\<close>: global_scheduler_context.rs and
    \<open>rotate_scheduled_queue\<close> of k_scheduler.rs, which keep that queue in step with the threads.
  \<^item> \<open>GlobalSchedulerUpdate\<close>, \<open>GlobalSchedulerChoice\<close>: \<open>update_highest_priority_threads_impl\<close> of
    k_scheduler.rs, which gives every core its thread and moves threads to idle cores. Its state joins the
    context with the schedulers of the cores and the processes; the locks it only tries are a parameter.
  \<^item> \<open>HardwareTimer\<close>, \<open>HardwareTimerProps\<close>: k_hardware_timer_base.rs and k_hardware_timer.rs, the tasks
    in a tree by deadline (\<open>BTree\<close>) and the one event that the core timing holds for them.
  \<^item> \<open>Capabilities\<close>, \<open>CapabilitiesProps\<close>: k_capabilities.rs, the descriptors that say what a process may
    do, \<open>initialize_handle_table\<close> of k_process.rs, which reads its size from them, and the masks of
    cores of src/core/src/hardware_properties.rs. The page table they call is a parameter.
  \<^item> \<open>FlatAllocator\<close>, \<open>FlatAllocatorProps\<close>: src/common/src/address_space.rs, the allocator of virtual
    address ranges that the GPU and the devices use, for words of any width.

  The parts use each other as the code does. The page heap owns bitmaps; the memory manager owns page
  heaps, reads its regions from the memory layout and fills page groups; the groups and the block
  manager draw their nodes from the resource managers, which draw pages from the page manager and its
  bitmap; the scheduler context owns the priority queue; the handle table of a process has the size its
  capabilities ask for.

  \<^bold>\<open>Conventions.\<close> A struct is a record of the same name, an enum a datatype or, for flags, a word; a
  method is a function on the record that returns it changed. \<^term>\<open>None\<close> is a panic or a loop that
  does not end, so a theorem that a call answers \<^term>\<open>Some\<close> says that it returns. Errors are
  \<^term>\<open>Inl\<close> with the result code, or the failure value the code answers. The build is the release
  profile: \<open>debug_assert!\<close> is compiled out, arithmetic wraps around, a shift takes its amount modulo the
  width; \<open>assert!\<close>, indexing and \<open>expect\<close> panic. Integers are words where bits or the wrap-around
  matter, and numbers with the wrap-around written out otherwise (\<open>Prelude\<close>, \<open>Machine\<close>). Mutexes are left
  out: an operation that holds its lock from start to end is one step, and where the code gives the lock
  up in between (a waiting reservation) the parts between two waits are the steps. What is shared by
  reference in the code (a page manager, a slab heap, a counter of a process) is passed along or named by
  a number. The order in which a hash map is iterated, the hardware tick and the random bits of the
  board are parameters, and the theorems hold for all of them.

  \<^bold>\<open>Lemmas.\<close> Each component has an invariant that every operation keeps, the exact effect of every
  operation on an abstract view of the state, and theorems over all runs:

  \<^item> handles: the table is a finite map, handles are not reused, and the outcome of every call;
  \<^item> limits: no interleaving exceeds a limit or loses a release, and waiting calls are served;
  \<^item> bitmap, heaps and managers: they refine sets of free pages, allocation is sound and complete, the
    free memory and the memory in use partition the region, references are counted exactly, and the
    loops end; a failed allocation of a group gives everything back but, where two managers of a pool
    touch, pages behind that seam;
  \<^item> blocks and regions: an update changes exactly the pages it should, on trees of disjoint ranges;
    the linear mapping is a bijection; the types form a tree, and the tests on their bits
    decide it;
  \<^item> scheduling: the linked lists refine plain lists, a core reads its threads by priority and arrival,
    rotation and preemption end, the queue holds exactly the runnable threads, and an update leaves every
    core the front of its queue, if no pinned thread and no lock stands in the way;
  \<^item> timer: the tree refines a queue of tasks, and no deadline is missed;
  \<^item> capabilities: which lists of descriptors are accepted, the rights and the mapping calls they stand
    for, and that no outcome gives a right that no descriptor names;
  \<^item> address ranges: fixed allocations and frees refine a set of addresses; when an allocation is sound.

  Theorems whose names end in \<open>unsound\<close>, \<open>undersized\<close>, \<open>outside_table\<close>, \<open>cannot_leave\<close>,
  \<open>loses_core\<close>, \<open>keeps_page\<close> or \<open>panics\<close> show where the code does not do what its interface promises.

  \<^bold>\<open>Loops and bounds.\<close> A loop over a container is a structural recursion; a loop that follows links,
  addresses or remaining sizes is a \<open>partial_function\<close> in the option monad, and that it ends is proved
  from the invariant (the distance to the end of the range, the managers of a pool, the rest of a list).
  The only counter is the one the code has: the walk over a per-core queue gives up after one step more
  than the queue has members. The page heap has the seven block sizes of the code, a bitmap at most four
  levels (a theorem says from which size on it panics), the handle table 1024 slots, the priority queue 64
  priorities and four cores.

  \<^bold>\<open>Not modelled.\<close> The page tables (k_page_table_base.rs), which join blocks, groups and the memory
  manager with the host's mapping of memory; the dispatch between threads on host fibers, the scheduler
  lock and the waiting objects built on it; processes (but for their capabilities and the running and pinned
  threads that the scheduler reads), sessions and the supervisor calls. They share
  state over locks, raw pointers and thread-local variables, or need the page tables. The services, file
  systems and loaders are host input and output and tables; the processor is a compiler to host machine
  code (src/rdynarmic), graphics, audio and input drive host libraries. Tracing and logging are left
  out everywhere.
\<close>

end
